(* ===== verification/Prelude.thy ===== *)
theory Prelude
  imports Main "HOL-Library.Word"
begin

unbundle bit_operations_syntax

text \<open>
  Shared vocabulary of the development: the machine integers of the source, the outcome
  type of fallible code (a Rust \<open>Result\<close> that may also panic), the slice operations the
  components use (\<open>chunks\<close>, \<open>chunks_exact\<close>, \<open>div_ceil\<close>), little-endian byte
  encodings, and the lemma collections the component theories extend.
\<close>

section \<open>Collections\<close>

named_theorems byte_simps \<open>lengths and round trips of byte encodings\<close>
named_theorems share_defs \<open>definitions of the operations on replicated shares\<close>
named_theorems ring_defs \<open>definitions of the operations on ring elements\<close>

section \<open>Machine integers\<close>

type_synonym u8 = "8 word"
type_synonym u16 = "16 word"
type_synonym u32 = "32 word"
type_synonym u64 = "64 word"
type_synonym u128 = "128 word"

text \<open>Rust's \<open>usize::div_ceil\<close>.\<close>

definition div_ceil :: "nat \<Rightarrow> nat \<Rightarrow> nat" where
  "div_ceil n d = (if n mod d = 0 then n div d else n div d + 1)"

lemma div_ceil_0 [simp]: "div_ceil 0 d = 0"
  by (simp add: div_ceil_def)

lemma div_ceil_mult_self [simp]: "0 < d \<Longrightarrow> div_ceil (n * d) d = n"
  by (simp add: div_ceil_def)

lemma div_ceil_add_self:
  assumes "0 < d" "d \<le> n"
  shows "div_ceil n d = Suc (div_ceil (n - d) d)"
proof -
  obtain m where "n = m + d" using assms(2) by (metis le_add_diff_inverse2)
  then show ?thesis using assms(1) by (simp add: div_ceil_def div_add_self2)
qed

lemma div_ceil_small: "0 < n \<Longrightarrow> n < d \<Longrightarrow> div_ceil n d = 1"
  by (simp add: div_ceil_def)

lemma div_ceil_eq:
  assumes "0 < d"
  shows "div_ceil n d = (n + d - 1) div d"
proof (induction n rule: less_induct)
  case (less n)
  consider "n = 0" | "0 < n" "n < d" | "d \<le> n" by linarith
  then show ?case
  proof cases
    case 1
    with assms show ?thesis by simp
  next
    case 2
    then have "(n + d - 1) div d = Suc ((n - 1) div d)"
      using assms by (metis Nat.add_diff_assoc2 Suc_leI One_nat_def div_add_self2 less_numeral_extra(3)
          add.right_neutral add_Suc_right)
    with 2 show ?thesis by (simp add: div_ceil_small)
  next
    case 3
    with less assms have "div_ceil (n - d) d = (n - d + d - 1) div d" by simp
    moreover have "(n + d - 1) div d = Suc ((n - 1) div d)"
      using 3 assms by (metis Nat.add_diff_assoc2 Suc_leI One_nat_def div_add_self2 less_numeral_extra(3)
          add.right_neutral add_Suc_right less_le_trans)
    ultimately show ?thesis using 3 assms by (simp add: div_ceil_add_self)
  qed
qed

lemma div_ceil_mult_ge: "0 < d \<Longrightarrow> n \<le> div_ceil n d * d"
proof (induction n rule: less_induct)
  case (less n)
  consider "n = 0" | "0 < n" "n < d" | "d \<le> n" by linarith
  then show ?case
  proof cases
    case 3
    with less have "n - d \<le> div_ceil (n - d) d * d" by simp
    with 3 less.prems show ?thesis by (simp add: div_ceil_add_self)
  qed (simp_all add: div_ceil_small)
qed

section \<open>Outcomes of fallible code\<close>

text \<open>
  A function of the source returns, reports an error (\<open>Err\<close>), or panics: an index out of
  range, an \<open>unwrap\<close> or \<open>expect\<close> of nothing, a failed \<open>assert!\<close>.
\<close>

datatype ('e, 'a) outcome = Ok 'a | Err 'e | Panic

fun bind_outcome :: "('e, 'a) outcome \<Rightarrow> ('a \<Rightarrow> ('e, 'b) outcome) \<Rightarrow> ('e, 'b) outcome" where
  "bind_outcome (Ok x) f = f x"
| "bind_outcome (Err e) f = Err e"
| "bind_outcome Panic f = Panic"

fun map_outcome_ok :: "('a \<Rightarrow> 'b) \<Rightarrow> ('e, 'a) outcome \<Rightarrow> ('e, 'b) outcome" where
  "map_outcome_ok f (Ok x) = Ok (f x)"
| "map_outcome_ok f (Err e) = Err e"
| "map_outcome_ok f Panic = Panic"

lemma bind_outcome_eq_Ok:
  "bind_outcome m f = Ok y \<longleftrightarrow> (\<exists>x. m = Ok x \<and> f x = Ok y)"
  by (cases m) auto

lemma map_outcome_ok_eq_Ok:
  "map_outcome_ok f m = Ok y \<longleftrightarrow> (\<exists>x. m = Ok x \<and> y = f x)"
  by (cases m) auto

section \<open>Slices\<close>

text \<open>
  \<open>chunks\<close> splits a slice into pieces of \<open>n\<close> elements, the last one possibly shorter;
  \<open>chunks_exact\<close> drops the remainder.
\<close>

function chunks :: "nat \<Rightarrow> 'a list \<Rightarrow> 'a list list" where
  "chunks n xs = (if n = 0 \<or> xs = [] then [] else take n xs # chunks n (drop n xs))"
  by pat_completeness auto
termination
  by (relation "measure (\<lambda>(n, xs). length xs)") auto

declare chunks.simps [simp del]

function chunks_exact :: "nat \<Rightarrow> 'a list \<Rightarrow> 'a list list" where
  "chunks_exact n xs =
     (if n = 0 \<or> length xs < n then [] else take n xs # chunks_exact n (drop n xs))"
  by pat_completeness auto
termination
  by (relation "measure (\<lambda>(n, xs). length xs)") auto

declare chunks_exact.simps [simp del]

lemma chunks_Nil [simp]: "chunks n [] = []"
  by (simp add: chunks.simps)

lemma chunks_exact_Nil [simp]: "chunks_exact n [] = []"
  by (cases n) (simp_all add: chunks_exact.simps)

lemma chunks_exact_append:
  "0 < n \<Longrightarrow> length xs = n \<Longrightarrow> chunks_exact n (xs @ ys) = xs # chunks_exact n ys"
  by (subst chunks_exact.simps) simp

lemma chunks_exact_concat:
  assumes "0 < n" "\<forall>x \<in> set xss. length x = n"
  shows "chunks_exact n (concat xss) = xss"
  using assms(2) by (induction xss) (simp_all add: chunks_exact_append assms(1))

lemma concat_chunks_exact:
  assumes "0 < n" "length xs mod n = 0"
  shows "concat (chunks_exact n xs) = xs"
  using assms
proof (induction n xs rule: chunks_exact.induct)
  case (1 n xs)
  show ?case
  proof (cases "length xs < n")
    case True
    with 1 show ?thesis by (simp add: chunks_exact.simps)
  next
    case False
    then have "length (drop n xs) mod n = 0"
      using 1(3) by (simp add: le_mod_geq)
    with 1 False show ?thesis by (simp add: chunks_exact.simps [of n xs])
  qed
qed

lemma length_chunks_exact: "0 < n \<Longrightarrow> length (chunks_exact n xs) = length xs div n"
proof (induction n xs rule: chunks_exact.induct)
  case (1 n xs)
  then show ?case
    by (subst chunks_exact.simps) (auto simp: div_if)
qed

lemma chunks_exact_nth:
  assumes "0 < n" "i < length xs div n"
  shows "chunks_exact n xs ! i = take n (drop (i * n) xs)"
  using assms
proof (induction n xs arbitrary: i rule: chunks_exact.induct)
  case (1 n xs)
  show ?case
  proof (cases "length xs < n")
    case True
    with 1 show ?thesis by simp
  next
    case False
    show ?thesis
    proof (cases i)
      case 0
      with False 1 show ?thesis by (subst chunks_exact.simps) simp
    next
      case (Suc j)
      have "j < length (drop n xs) div n"
        using 1(3) Suc False 1(2) by (simp add: div_if split: if_splits)
      then have "chunks_exact n (drop n xs) ! j = take n (drop (j * n) (drop n xs))"
        using 1 False by simp
      then show ?thesis using False Suc 1(2)
        by (subst chunks_exact.simps) (simp add: add.commute)
    qed
  qed
qed

lemma length_in_chunks_exact: "c \<in> set (chunks_exact n xs) \<Longrightarrow> length c = n"
proof (induction n xs rule: chunks_exact.induct)
  case (1 n xs)
  then show ?case
    by (subst (asm) (2) chunks_exact.simps) (auto split: if_splits)
qed

lemma length_chunks: "0 < n \<Longrightarrow> length (chunks n xs) = div_ceil (length xs) n"
proof (induction n xs rule: chunks.induct)
  case (1 n xs)
  show ?case
  proof (cases "xs = []")
    case True
    then show ?thesis by simp
  next
    case False
    with 1 have "length (chunks n xs) = Suc (div_ceil (length xs - n) n)"
      by (simp add: chunks.simps [of n xs])
    then show ?thesis using False 1(2)
      by (cases "n \<le> length xs") (simp_all add: div_ceil_add_self div_ceil_small)
  qed
qed

lemma chunks_concat:
  assumes "0 < n" "\<forall>x \<in> set xss. length x = n"
  shows "chunks n (concat xss) = xss"
  using assms(2)
proof (induction xss)
  case (Cons x xss)
  then have "x \<noteq> []" using assms(1) by auto
  with Cons assms(1) show ?case by (subst chunks.simps) simp
qed simp

lemma length_in_chunks: "c \<in> set (chunks n xs) \<Longrightarrow> 0 < length c \<and> length c \<le> n"
proof (induction n xs rule: chunks.induct)
  case (1 n xs)
  then show ?case
    by (subst (asm) (2) chunks.simps) (auto split: if_splits)
qed

lemma chunks_map: "chunks n (map f xs) = map (map f) (chunks n xs)"
proof (induction n xs rule: chunks.induct)
  case (1 n xs)
  then show ?case by (simp add: chunks.simps [of n xs] chunks.simps [of n "map f xs"] take_map drop_map)
qed

lemma concat_chunks: "0 < n \<Longrightarrow> concat (chunks n xs) = xs"
proof (induction n xs rule: chunks.induct)
  case (1 n xs)
  then show ?case by (subst chunks.simps) simp
qed

text \<open>\<open>chunks\<close> is \<open>chunks_exact\<close> followed by the remainder, if there is one.\<close>

lemma chunks_chunks_exact:
  "0 < n \<Longrightarrow> chunks n xs = chunks_exact n xs
    @ (let r = drop (n * length (chunks_exact n xs)) xs in if r = [] then [] else [r])"
proof (induction n xs rule: chunks_exact.induct)
  case (1 n xs)
  show ?case
  proof (cases "length xs < n")
    case True
    with 1(2) show ?thesis by (simp add: chunks.simps [of n xs] chunks_exact.simps [of n xs])
  next
    case False
    with 1 have "chunks n (drop n xs) = chunks_exact n (drop n xs)
      @ (let r = drop (n * length (chunks_exact n (drop n xs))) (drop n xs) in if r = [] then [] else [r])" by simp
    with False 1(2) show ?thesis
      by (subst chunks.simps, subst (1 2) chunks_exact.simps) (auto simp: Let_def add.commute)
  qed
qed

lemma chunks_nth:
  assumes "0 < n" "length xs = n * c"
  shows "length (chunks n xs) = c" "b < c \<Longrightarrow> chunks n xs ! b = take n (drop (b * n) xs)"
proof -
  have e: "length (chunks_exact n xs) = c" using assms by (simp add: length_chunks_exact)
  then have "chunks n xs = chunks_exact n xs" unfolding chunks_chunks_exact [OF assms(1)] using assms(2) by (simp add: Let_def)
  with e assms show "length (chunks n xs) = c" "b < c \<Longrightarrow> chunks n xs ! b = take n (drop (b * n) xs)" by (simp_all add: chunks_exact_nth)
qed

section \<open>Little-endian byte encodings\<close>

text \<open>
  \<open>to_le_bytes n w\<close> is the first \<open>n\<close> bytes of \<open>w.to_le_bytes()\<close>; \<open>from_le_bytes\<close> reads
  a byte list of any length into a word, higher bytes first zero.
\<close>

fun to_le_bytes :: "nat \<Rightarrow> 'a::len word \<Rightarrow> u8 list" where
  "to_le_bytes 0 w = []"
| "to_le_bytes (Suc n) w = ucast w # to_le_bytes n (drop_bit 8 w)"

fun from_le_bytes :: "u8 list \<Rightarrow> 'a::len word" where
  "from_le_bytes [] = 0"
| "from_le_bytes (b # bs) = ucast b OR push_bit 8 (from_le_bytes bs)"

lemma length_to_le_bytes [simp, byte_simps]: "length (to_le_bytes n w) = n"
  by (induction n arbitrary: w) simp_all

lemma from_to_le_bytes:
  "from_le_bytes (to_le_bytes n (w :: 'a::len word)) = take_bit (8 * n) w"
proof (induction n arbitrary: w)
  case 0
  then show ?case by simp
next
  case (Suc n)
  show ?case
    by (rule bit_word_eqI)
      (auto simp: Suc bit_or_iff bit_push_bit_iff bit_take_bit_iff bit_drop_bit_eq
        bit_ucast_iff dest: bit_imp_le_length)
qed

lemma from_to_le_bytes_id [byte_simps]:
  "LENGTH('a) \<le> 8 * n \<Longrightarrow> from_le_bytes (to_le_bytes n (w :: 'a::len word)) = w"
  by (simp add: from_to_le_bytes take_bit_word_eq_self)

lemma to_from_le_bytes:
  "8 * length bs \<le> LENGTH('a) \<Longrightarrow> to_le_bytes (length bs) (from_le_bytes bs :: 'a::len word) = bs"
proof (induction bs)
  case (Cons b bs)
  let ?w = "from_le_bytes bs :: 'a word"
  have "(ucast (ucast b OR push_bit 8 ?w :: 'a word) :: u8) = b"
    using Cons.prems by (intro bit_word_eqI) (auto simp: bit_simps)
  moreover have "to_le_bytes n (drop_bit 8 (ucast b OR push_bit 8 w :: 'a word)) = to_le_bytes n w"
    if "8 * n + 8 \<le> LENGTH('a)" for n and w :: "'a word"
  proof -
    have "to_le_bytes n u = to_le_bytes n u'" if "take_bit (8 * n) u = take_bit (8 * n) u'" for n and u u' :: "'a word"
      using that
    proof (induction n arbitrary: u u')
      case (Suc n)
      have bits: "bit u k = bit u' k" if "k < 8 * Suc n" for k
        using Suc.prems that bit_take_bit_iff [of "8 * Suc n" u k] bit_take_bit_iff [of "8 * Suc n" u' k] by simp
      have "take_bit (8 * n) (drop_bit 8 u) = take_bit (8 * n) (drop_bit 8 u')"
        by (rule bit_word_eqI) (auto simp: bit_take_bit_iff bit_drop_bit_eq bits)
      moreover have "(ucast u :: u8) = ucast u'"
        by (rule bit_word_eqI) (auto simp: bit_ucast_iff bits)
      ultimately show ?case using Suc.IH [of "drop_bit 8 u" "drop_bit 8 u'"] by simp
    qed simp
    moreover have "take_bit (8 * n) (drop_bit 8 (ucast b OR push_bit 8 w :: 'a word)) = take_bit (8 * n) w"
      using that by (intro bit_word_eqI)
        (auto simp: bit_or_iff bit_push_bit_iff bit_take_bit_iff bit_drop_bit_eq bit_ucast_iff dest: bit_imp_le_length)
    ultimately show ?thesis by blast
  qed
  ultimately show ?case using Cons by simp
qed simp

lemma unat_from_le_bytes_less: "unat (from_le_bytes bs :: 'a::len word) < 2 ^ LENGTH('a)"
  by (rule unsigned_less)

section \<open>Slices\<close>

text \<open>\<open>&xs[a..b]\<close>: \<open>None\<close> is the panic on a range that is not within the slice.\<close>

definition subslice :: "'a list \<Rightarrow> nat \<Rightarrow> nat \<Rightarrow> 'a list option" where
  "subslice xs a b = (if a \<le> b \<and> b \<le> length xs then Some (take (b - a) (drop a xs)) else None)"

end
