(* ===== verification/Int_Ring.thy ===== *)
theory Int_Ring
  imports Prelude
begin

unbundle bit_operations_syntax

text \<open>
  The trait \<open>IntRing2k\<close> (\<open>ampc-secret-sharing/src/shares/int_ring.rs\<close>): the
  operations an implementation provides are the fields of a dictionary record, the
  provided methods are functions of that dictionary, and the laws that the secret-sharing
  code relies on are a locale. A ring type implements the integers modulo \<open>2 ^ K\<close>: the
  locale's \<open>val\<close> reads an element as an integer and \<open>wf\<close> tells the representations in
  use. The primitive integers \<open>u8\<close> to \<open>u128\<close> are the instance \<open>word_ring\<close>.
\<close>

section \<open>The trait as a dictionary\<close>

text \<open>
  \<open>shl\<close> and \<open>shr\<close> are the operators on a \<open>usize\<close> amount and \<open>ring_rem\<close> is the operator
  \<open>%\<close>: \<open>None\<close> is their panic, on an amount that is not below the width (with overflow
  checks) and on a zero divisor.
\<close>

record 'a int_ring2k =
  ring_K :: nat
  ring_BYTES :: nat
  size_of :: nat
  wrapping_add :: "'a \<Rightarrow> 'a \<Rightarrow> 'a"
  wrapping_sub :: "'a \<Rightarrow> 'a \<Rightarrow> 'a"
  wrapping_mul :: "'a \<Rightarrow> 'a \<Rightarrow> 'a"
  wrapping_neg :: "'a \<Rightarrow> 'a"
  wrapping_shl :: "'a \<Rightarrow> u32 \<Rightarrow> 'a"
  wrapping_shr :: "'a \<Rightarrow> u32 \<Rightarrow> 'a"
  shl :: "'a \<Rightarrow> nat \<Rightarrow> 'a option"
  shr :: "'a \<Rightarrow> nat \<Rightarrow> 'a option"
  ring_not :: "'a \<Rightarrow> 'a"
  bitxor :: "'a \<Rightarrow> 'a \<Rightarrow> 'a"
  bitand :: "'a \<Rightarrow> 'a \<Rightarrow> 'a"
  bitor :: "'a \<Rightarrow> 'a \<Rightarrow> 'a"
  from_bool :: "bool \<Rightarrow> 'a"
  into_u128 :: "'a \<Rightarrow> u128"
  ring_zero :: 'a
  ring_is_zero :: "'a \<Rightarrow> bool"
  ring_one :: 'a
  ring_rem :: "'a \<Rightarrow> 'a \<Rightarrow> 'a option"

text \<open>The provided methods: each stores the result of the wrapping operation in \<open>self\<close>.\<close>

definition wrapping_add_assign :: "'a int_ring2k \<Rightarrow> 'a \<Rightarrow> 'a \<Rightarrow> 'a" where
  "wrapping_add_assign R self rhs = wrapping_add R self rhs"

definition wrapping_sub_assign :: "'a int_ring2k \<Rightarrow> 'a \<Rightarrow> 'a \<Rightarrow> 'a" where
  "wrapping_sub_assign R self rhs = wrapping_sub R self rhs"

definition wrapping_neg_inplace :: "'a int_ring2k \<Rightarrow> 'a \<Rightarrow> 'a" where
  "wrapping_neg_inplace R self = wrapping_neg R self"

definition wrapping_mul_assign :: "'a int_ring2k \<Rightarrow> 'a \<Rightarrow> 'a \<Rightarrow> 'a" where
  "wrapping_mul_assign R self rhs = wrapping_mul R self rhs"

definition wrapping_shl_assign :: "'a int_ring2k \<Rightarrow> 'a \<Rightarrow> u32 \<Rightarrow> 'a" where
  "wrapping_shl_assign R self rhs = wrapping_shl R self rhs"

definition wrapping_shr_assign :: "'a int_ring2k \<Rightarrow> 'a \<Rightarrow> u32 \<Rightarrow> 'a" where
  "wrapping_shr_assign R self rhs = wrapping_shr R self rhs"

lemmas assign_defs [ring_defs] =
  wrapping_add_assign_def wrapping_sub_assign_def wrapping_neg_inplace_def
  wrapping_mul_assign_def wrapping_shl_assign_def wrapping_shr_assign_def

section \<open>The primitive integers\<close>

text \<open>
  \<open>u8\<close>, \<open>u16\<close>, \<open>u32\<close>, \<open>u64\<close> and \<open>u128\<close> are words of their width, with the operations of
  the standard library; the wrapping shifts reduce the amount modulo the width.
\<close>

definition word_ring :: "('a::len word) int_ring2k" where
  "word_ring = \<lparr>
     ring_K = LENGTH('a),
     ring_BYTES = LENGTH('a) div 8,
     size_of = LENGTH('a) div 8,
     wrapping_add = (+),
     wrapping_sub = (-),
     wrapping_mul = (*),
     wrapping_neg = uminus,
     wrapping_shl = (\<lambda>x n. push_bit (unat n mod LENGTH('a)) x),
     wrapping_shr = (\<lambda>x n. drop_bit (unat n mod LENGTH('a)) x),
     shl = (\<lambda>x n. if n < LENGTH('a) then Some (push_bit n x) else None),
     shr = (\<lambda>x n. if n < LENGTH('a) then Some (drop_bit n x) else None),
     ring_not = (\<lambda>x. NOT x),
     bitxor = (XOR),
     bitand = (AND),
     bitor = (OR),
     from_bool = of_bool,
     into_u128 = ucast,
     ring_zero = 0,
     ring_is_zero = (\<lambda>x. x = 0),
     ring_one = 1,
     ring_rem = (\<lambda>x y. if y = 0 then None else Some (x mod y)) \<rparr>"

section \<open>The contract of an implementation\<close>

locale int_ring2k_laws =
  fixes R :: "'a int_ring2k" and wf :: "'a \<Rightarrow> bool" and val :: "'a \<Rightarrow> int"
  assumes K_pos: "0 < ring_K R"
    and val_ge_0: "wf x \<Longrightarrow> 0 \<le> val x"
    and val_less: "wf x \<Longrightarrow> val x < 2 ^ ring_K R"
    and val_inject: "wf x \<Longrightarrow> wf y \<Longrightarrow> val x = val y \<Longrightarrow> x = y"
    and wf_add: "wf x \<Longrightarrow> wf y \<Longrightarrow> wf (wrapping_add R x y)"
    and val_add: "wf x \<Longrightarrow> wf y \<Longrightarrow>
      val (wrapping_add R x y) = (val x + val y) mod 2 ^ ring_K R"
    and wf_sub: "wf x \<Longrightarrow> wf y \<Longrightarrow> wf (wrapping_sub R x y)"
    and val_sub: "wf x \<Longrightarrow> wf y \<Longrightarrow>
      val (wrapping_sub R x y) = (val x - val y) mod 2 ^ ring_K R"
    and wf_mul: "wf x \<Longrightarrow> wf y \<Longrightarrow> wf (wrapping_mul R x y)"
    and val_mul: "wf x \<Longrightarrow> wf y \<Longrightarrow>
      val (wrapping_mul R x y) = (val x * val y) mod 2 ^ ring_K R"
    and wf_neg: "wf x \<Longrightarrow> wf (wrapping_neg R x)"
    and val_neg: "wf x \<Longrightarrow> val (wrapping_neg R x) = (- val x) mod 2 ^ ring_K R"
    and wf_wshl: "wf x \<Longrightarrow> unat n < ring_K R \<Longrightarrow> wf (wrapping_shl R x n)"
    and val_wshl: "wf x \<Longrightarrow> unat n < ring_K R \<Longrightarrow>
      val (wrapping_shl R x n) = take_bit (ring_K R) (push_bit (unat n) (val x))"
    and wf_wshr: "wf x \<Longrightarrow> unat n < ring_K R \<Longrightarrow> wf (wrapping_shr R x n)"
    and val_wshr: "wf x \<Longrightarrow> unat n < ring_K R \<Longrightarrow>
      val (wrapping_shr R x n) = drop_bit (unat n) (val x)"
    and shl_ok: "wf x \<Longrightarrow> i < ring_K R \<Longrightarrow>
      \<exists>y. shl R x i = Some y \<and> wf y \<and> val y = take_bit (ring_K R) (push_bit i (val x))"
    and shr_ok: "wf x \<Longrightarrow> i < ring_K R \<Longrightarrow>
      \<exists>y. shr R x i = Some y \<and> wf y \<and> val y = drop_bit i (val x)"
    and wf_not: "wf x \<Longrightarrow> wf (ring_not R x)"
    and val_not: "wf x \<Longrightarrow> val (ring_not R x) = take_bit (ring_K R) (NOT (val x))"
    and wf_xor: "wf x \<Longrightarrow> wf y \<Longrightarrow> wf (bitxor R x y)"
    and val_xor: "wf x \<Longrightarrow> wf y \<Longrightarrow> val (bitxor R x y) = val x XOR val y"
    and wf_and: "wf x \<Longrightarrow> wf y \<Longrightarrow> wf (bitand R x y)"
    and val_and: "wf x \<Longrightarrow> wf y \<Longrightarrow> val (bitand R x y) = val x AND val y"
    and wf_or: "wf x \<Longrightarrow> wf y \<Longrightarrow> wf (bitor R x y)"
    and val_or: "wf x \<Longrightarrow> wf y \<Longrightarrow> val (bitor R x y) = val x OR val y"
    and wf_from_bool: "wf (from_bool R c)"
    and val_from_bool: "val (from_bool R c) = of_bool c"
    and wf_zero: "wf (ring_zero R)"
    and val_zero: "val (ring_zero R) = 0"
    and is_zero_iff: "wf x \<Longrightarrow> ring_is_zero R x \<longleftrightarrow> val x = 0"
    and wf_one: "wf (ring_one R)"
    and val_one: "val (ring_one R) = 1"
begin

lemmas wf_intros =
  wf_add wf_sub wf_mul wf_neg wf_wshl wf_wshr wf_not wf_xor wf_and wf_or wf_from_bool
  wf_zero wf_one

lemmas val_arith =
  val_add val_sub val_mul val_neg val_zero val_one

lemmas val_bits =
  val_not val_xor val_and val_or val_wshl val_wshr val_from_bool val_zero val_one

lemma val_eq_iff: "wf x \<Longrightarrow> wf y \<Longrightarrow> x = y \<longleftrightarrow> val x = val y"
  using val_inject by blast

lemma val_mod: "wf x \<Longrightarrow> val x mod 2 ^ ring_K R = val x"
  by (simp add: val_ge_0 val_less)

lemma bit_val_less: "wf x \<Longrightarrow> bit (val x) n \<Longrightarrow> n < ring_K R"
  using val_mod [of x] by (metis take_bit_eq_mod bit_take_bit_iff)

text \<open>Equality of elements by their bits: the extensionality principle of the ring.\<close>

lemma bits_eqI:
  assumes "wf x" "wf y" "\<And>n. n < ring_K R \<Longrightarrow> bit (val x) n \<longleftrightarrow> bit (val y) n"
  shows "x = y"
proof -
  have "bit (val x) n \<longleftrightarrow> bit (val y) n" for n
    using assms bit_val_less by blast
  then have "val x = val y" by (simp add: bit_eq_iff)
  then show ?thesis using assms val_inject by blast
qed

end

section \<open>The primitive integers meet the contract\<close>

lemma word_ring_sel [simp]:
  "ring_K (word_ring :: 'a::len word int_ring2k) = LENGTH('a)"
  "ring_BYTES (word_ring :: 'a::len word int_ring2k) = LENGTH('a) div 8"
  "size_of (word_ring :: 'a::len word int_ring2k) = LENGTH('a) div 8"
  "wrapping_add (word_ring :: 'a::len word int_ring2k) = (+)"
  "wrapping_sub (word_ring :: 'a::len word int_ring2k) = (-)"
  "wrapping_mul (word_ring :: 'a::len word int_ring2k) = (*)"
  "wrapping_neg (word_ring :: 'a::len word int_ring2k) = uminus"
  "wrapping_shl (word_ring :: 'a::len word int_ring2k) x n = push_bit (unat n mod LENGTH('a)) x"
  "wrapping_shr (word_ring :: 'a::len word int_ring2k) x n = drop_bit (unat n mod LENGTH('a)) x"
  "shl (word_ring :: 'a::len word int_ring2k) x i =
     (if i < LENGTH('a) then Some (push_bit i x) else None)"
  "shr (word_ring :: 'a::len word int_ring2k) x i =
     (if i < LENGTH('a) then Some (drop_bit i x) else None)"
  "ring_not (word_ring :: 'a::len word int_ring2k) x = NOT x"
  "bitxor (word_ring :: 'a::len word int_ring2k) = (XOR)"
  "bitand (word_ring :: 'a::len word int_ring2k) = (AND)"
  "bitor (word_ring :: 'a::len word int_ring2k) = (OR)"
  "from_bool (word_ring :: 'a::len word int_ring2k) = of_bool"
  "into_u128 (word_ring :: 'a::len word int_ring2k) = ucast"
  "ring_zero (word_ring :: 'a::len word int_ring2k) = 0"
  "ring_is_zero (word_ring :: 'a::len word int_ring2k) x \<longleftrightarrow> x = 0"
  "ring_one (word_ring :: 'a::len word int_ring2k) = 1"
  by (simp_all add: word_ring_def)

lemma take_bit_uint [simp]: "take_bit LENGTH('a) (uint (x :: 'a::len word)) = uint x"
  by (rule take_bit_int_eq_self) (simp_all add: unsigned_less)

interpretation word: int_ring2k_laws "word_ring :: 'a::len word int_ring2k" "\<lambda>_. True" uint
  by unfold_locales
    (auto simp: uint_word_ariths unsigned_push_bit_eq unsigned_drop_bit_eq
      unsigned_not_eq unsigned_xor_eq unsigned_and_eq unsigned_or_eq uint_0_iff
      simp del: take_bit_eq_mod dest: word_uint_eqI)

end
