(* ===== verification/Bit_Ring.thy ===== *)
theory Bit_Ring
  imports Int_Ring
begin

unbundle bit_operations_syntax

text \<open>
  \<open>Bit\<close> (\<open>ampc-secret-sharing/src/shares/bit.rs\<close>), the ring of one bit stored in a
  \<open>u8\<close>: addition and subtraction are exclusive or, multiplication is conjunction, a shift
  by a nonzero amount gives zero. The dictionary \<open>bit_ring\<close> collects the operations and
  is shown to implement the integers modulo two on the values 0 and 1; every operation
  keeps to these two values.
\<close>

datatype Bit = Bit u8

section \<open>Construction and conversion\<close>

definition bit_new :: "bool \<Rightarrow> Bit" where
  "bit_new value = Bit (of_bool value)"

fun bit_convert :: "Bit \<Rightarrow> bool" where
  "bit_convert (Bit w) = (w = 1)"

fun bit_display :: "Bit \<Rightarrow> string option" where
  "bit_display (Bit w) = (if w = 1 then Some ''1'' else if w = 0 then Some ''0'' else None)"

definition bit_try_from_u8 :: "u8 \<Rightarrow> string + Bit" where
  "bit_try_from_u8 value =
     (if value = 0 then Inr (Bit 0)
      else if value = 1 then Inr (Bit 1)
      else Inl ''Conversion Error Bit From u8'')"

definition bit_try_from_usize :: "nat \<Rightarrow> string + Bit" where
  "bit_try_from_usize value =
     (if value = 0 then Inr (Bit 0)
      else if value = 1 then Inr (Bit 1)
      else Inl ''Conversion error Bit from usize'')"

fun u8_from_bit :: "Bit \<Rightarrow> u8" where
  "u8_from_bit (Bit w) = w"

definition bit_from_bool :: "bool \<Rightarrow> Bit" where
  "bit_from_bool other = Bit (of_bool other)"

fun bool_from_bit :: "Bit \<Rightarrow> bool" where
  "bool_from_bit (Bit w) = (w = 1)"

fun u128_from_bit :: "Bit \<Rightarrow> u128" where
  "u128_from_bit (Bit w) = ucast w"

section \<open>Arithmetic\<close>

fun bit_xor :: "Bit \<Rightarrow> Bit \<Rightarrow> Bit" where
  "bit_xor (Bit x) (Bit y) = Bit (x XOR y)"

fun bit_or :: "Bit \<Rightarrow> Bit \<Rightarrow> Bit" where
  "bit_or (Bit x) (Bit y) = Bit (x OR y)"

fun bit_and :: "Bit \<Rightarrow> Bit \<Rightarrow> Bit" where
  "bit_and (Bit x) (Bit y) = Bit (x AND y)"

fun bit_not :: "Bit \<Rightarrow> Bit" where
  "bit_not (Bit x) = Bit (x XOR 1)"

definition bit_add :: "Bit \<Rightarrow> Bit \<Rightarrow> Bit" where
  "bit_add self rhs = bit_xor self rhs"

definition bit_wrapping_add :: "Bit \<Rightarrow> Bit \<Rightarrow> Bit" where
  "bit_wrapping_add self rhs = bit_xor self rhs"

definition bit_sub :: "Bit \<Rightarrow> Bit \<Rightarrow> Bit" where
  "bit_sub self rhs = bit_xor self rhs"

definition bit_wrapping_sub :: "Bit \<Rightarrow> Bit \<Rightarrow> Bit" where
  "bit_wrapping_sub self rhs = bit_xor self rhs"

definition bit_neg :: "Bit \<Rightarrow> Bit" where
  "bit_neg self = self"

definition bit_wrapping_neg :: "Bit \<Rightarrow> Bit" where
  "bit_wrapping_neg self = bit_neg self"

definition bit_mul :: "Bit \<Rightarrow> Bit \<Rightarrow> Bit" where
  "bit_mul self rhs = bit_and self rhs"

definition bit_wrapping_mul :: "Bit \<Rightarrow> Bit \<Rightarrow> Bit" where
  "bit_wrapping_mul self rhs = bit_and self rhs"

definition bit_zero :: Bit where
  "bit_zero = Bit 0"

fun bit_is_zero :: "Bit \<Rightarrow> bool" where
  "bit_is_zero (Bit w) = (w = 0)"

definition bit_one :: Bit where
  "bit_one = Bit 1"

definition bit_shl :: "Bit \<Rightarrow> nat \<Rightarrow> Bit" where
  "bit_shl self rhs = (if rhs = 0 then self else Bit 0)"

definition bit_wrapping_shl :: "Bit \<Rightarrow> u32 \<Rightarrow> Bit" where
  "bit_wrapping_shl self rhs = bit_shl self (unat rhs)"

definition bit_shr :: "Bit \<Rightarrow> nat \<Rightarrow> Bit" where
  "bit_shr self rhs = (if rhs = 0 then self else Bit 0)"

definition bit_wrapping_shr :: "Bit \<Rightarrow> u32 \<Rightarrow> Bit" where
  "bit_wrapping_shr self rhs = bit_shr self (unat rhs)"

text \<open>\<open>%\<close> panics on the divisor 0 and, as unreachable, on a value that is no bit.\<close>

fun bit_rem :: "Bit \<Rightarrow> Bit \<Rightarrow> Bit option" where
  "bit_rem self (Bit w) = (if w = 0 then None else if w = 1 then Some (Bit 0) else None)"

section \<open>The instance of the trait\<close>

definition bit_ring :: "Bit int_ring2k" where
  "bit_ring = \<lparr>
     ring_K = 1, ring_BYTES = 1, size_of = 1,
     wrapping_add = bit_wrapping_add, wrapping_sub = bit_wrapping_sub,
     wrapping_mul = bit_wrapping_mul, wrapping_neg = bit_wrapping_neg,
     wrapping_shl = bit_wrapping_shl, wrapping_shr = bit_wrapping_shr,
     shl = (\<lambda>x n. Some (bit_shl x n)), shr = (\<lambda>x n. Some (bit_shr x n)),
     ring_not = bit_not, bitxor = bit_xor, bitand = bit_and, bitor = bit_or,
     from_bool = bit_from_bool, into_u128 = u128_from_bit,
     ring_zero = bit_zero, ring_is_zero = bit_is_zero, ring_one = bit_one,
     ring_rem = bit_rem \<rparr>"

text \<open>The two legal values, and the value of a bit as an integer.\<close>

fun wf_bit :: "Bit \<Rightarrow> bool" where
  "wf_bit (Bit w) = (w = 0 \<or> w = 1)"

fun bit_val :: "Bit \<Rightarrow> int" where
  "bit_val (Bit w) = uint w"

lemmas bit_op_defs =
  bit_add_def bit_wrapping_add_def bit_sub_def bit_wrapping_sub_def bit_neg_def
  bit_wrapping_neg_def bit_mul_def bit_wrapping_mul_def bit_zero_def bit_one_def
  bit_shl_def bit_wrapping_shl_def bit_shr_def bit_wrapping_shr_def bit_from_bool_def

lemma wf_bit_cases:
  assumes "wf_bit x"
  obtains "x = Bit 0" | "x = Bit 1"
  using assms by (cases x) auto

lemma bit_ring_sel [simp]:
  "ring_K bit_ring = 1" "ring_BYTES bit_ring = 1" "size_of bit_ring = 1"
  "wrapping_add bit_ring = bit_wrapping_add" "wrapping_sub bit_ring = bit_wrapping_sub"
  "wrapping_mul bit_ring = bit_wrapping_mul" "wrapping_neg bit_ring = bit_wrapping_neg"
  "wrapping_shl bit_ring = bit_wrapping_shl" "wrapping_shr bit_ring = bit_wrapping_shr"
  "shl bit_ring x n = Some (bit_shl x n)" "shr bit_ring x n = Some (bit_shr x n)"
  "ring_not bit_ring = bit_not" "bitxor bit_ring = bit_xor" "bitand bit_ring = bit_and"
  "bitor bit_ring = bit_or" "from_bool bit_ring = bit_from_bool"
  "into_u128 bit_ring = u128_from_bit" "ring_zero bit_ring = bit_zero"
  "ring_is_zero bit_ring = bit_is_zero" "ring_one bit_ring = bit_one"
  "ring_rem bit_ring = bit_rem"
  by (simp_all add: bit_ring_def)

interpretation bit: int_ring2k_laws bit_ring wf_bit bit_val
  by unfold_locales (auto elim!: wf_bit_cases simp: bit_op_defs take_bit_eq_mod not_int_def)

lemma bit_new_wf [simp]: "wf_bit (bit_new c)"
  by (simp add: bit_new_def)

lemma bit_convert_new [simp]: "bit_convert (bit_new c) = c"
  by (cases c) (simp_all add: bit_new_def)

lemma bit_new_convert [simp]: "wf_bit x \<Longrightarrow> bit_new (bit_convert x) = x"
  by (auto elim!: wf_bit_cases simp: bit_new_def)

lemma bit_val_convert: "wf_bit x \<Longrightarrow> bit_val x = of_bool (bit_convert x)"
  by (auto elim!: wf_bit_cases)

end
