(* ===== verification/Ring48_Ring.thy ===== *)
theory Ring48_Ring
  imports Int_Ring
begin

unbundle bit_operations_syntax

text \<open>
  \<open>Ring48\<close> (\<open>ampc-secret-sharing/src/shares/ring48.rs\<close>): integers modulo \<open>2 ^ 48\<close> in the
  low 48 bits of a \<open>u64\<close>. The representation invariant \<open>wf48\<close> is the module's promise that
  the inner word is kept masked. The dictionary \<open>ring48_ring\<close> is shown to implement the
  integers modulo \<open>2 ^ 48\<close> on masked words.
\<close>

datatype Ring48 = Ring48 u64

definition MASK_48 :: u64 where
  "MASK_48 = push_bit 48 1 - 1"

section \<open>Construction and conversion\<close>

definition ring48_masked :: "u64 \<Rightarrow> Ring48" where
  "ring48_masked v = Ring48 (v AND MASK_48)"

definition ring48_from_bool :: "bool \<Rightarrow> Ring48" where
  "ring48_from_bool b = Ring48 (of_bool b)"

definition ring48_from_u8 :: "u8 \<Rightarrow> Ring48" where
  "ring48_from_u8 v = Ring48 (ucast v)"

definition ring48_from_u16 :: "u16 \<Rightarrow> Ring48" where
  "ring48_from_u16 v = Ring48 (ucast v)"

definition ring48_from_u32 :: "u32 \<Rightarrow> Ring48" where
  "ring48_from_u32 v = Ring48 (ucast v)"

fun u128_from_ring48 :: "Ring48 \<Rightarrow> u128" where
  "u128_from_ring48 (Ring48 v) = ucast v"

section \<open>Arithmetic and bitwise operations\<close>

fun ring48_add :: "Ring48 \<Rightarrow> Ring48 \<Rightarrow> Ring48" where
  "ring48_add (Ring48 x) (Ring48 y) = Ring48 ((x + y) AND MASK_48)"

fun ring48_sub :: "Ring48 \<Rightarrow> Ring48 \<Rightarrow> Ring48" where
  "ring48_sub (Ring48 x) (Ring48 y) = Ring48 ((x - y) AND MASK_48)"

fun ring48_mul :: "Ring48 \<Rightarrow> Ring48 \<Rightarrow> Ring48" where
  "ring48_mul (Ring48 x) (Ring48 y) = Ring48 ((x * y) AND MASK_48)"

fun ring48_wrapping_add :: "Ring48 \<Rightarrow> Ring48 \<Rightarrow> Ring48" where
  "ring48_wrapping_add (Ring48 x) (Ring48 y) = Ring48 ((x + y) AND MASK_48)"

fun ring48_wrapping_sub :: "Ring48 \<Rightarrow> Ring48 \<Rightarrow> Ring48" where
  "ring48_wrapping_sub (Ring48 x) (Ring48 y) = Ring48 ((x - y) AND MASK_48)"

fun ring48_wrapping_mul :: "Ring48 \<Rightarrow> Ring48 \<Rightarrow> Ring48" where
  "ring48_wrapping_mul (Ring48 x) (Ring48 y) = Ring48 ((x * y) AND MASK_48)"

fun ring48_wrapping_neg :: "Ring48 \<Rightarrow> Ring48" where
  "ring48_wrapping_neg (Ring48 x) = Ring48 ((- x) AND MASK_48)"

text \<open>The shifts of the inner \<open>u64\<close> reduce the amount modulo 64.\<close>

fun ring48_wrapping_shl :: "Ring48 \<Rightarrow> u32 \<Rightarrow> Ring48" where
  "ring48_wrapping_shl (Ring48 x) rhs = Ring48 (push_bit (unat rhs mod 64) x AND MASK_48)"

fun ring48_wrapping_shr :: "Ring48 \<Rightarrow> u32 \<Rightarrow> Ring48" where
  "ring48_wrapping_shr (Ring48 x) rhs = Ring48 (drop_bit (unat rhs mod 64) x)"

fun ring48_not :: "Ring48 \<Rightarrow> Ring48" where
  "ring48_not (Ring48 x) = Ring48 (NOT x AND MASK_48)"

fun ring48_xor :: "Ring48 \<Rightarrow> Ring48 \<Rightarrow> Ring48" where
  "ring48_xor (Ring48 x) (Ring48 y) = Ring48 (x XOR y)"

fun ring48_and :: "Ring48 \<Rightarrow> Ring48 \<Rightarrow> Ring48" where
  "ring48_and (Ring48 x) (Ring48 y) = Ring48 (x AND y)"

fun ring48_or :: "Ring48 \<Rightarrow> Ring48 \<Rightarrow> Ring48" where
  "ring48_or (Ring48 x) (Ring48 y) = Ring48 (x OR y)"

definition ring48_zero :: Ring48 where
  "ring48_zero = Ring48 0"

fun ring48_is_zero :: "Ring48 \<Rightarrow> bool" where
  "ring48_is_zero (Ring48 x) = (x = 0)"

definition ring48_one :: Ring48 where
  "ring48_one = Ring48 1"

fun ring48_rem :: "Ring48 \<Rightarrow> Ring48 \<Rightarrow> Ring48 option" where
  "ring48_rem (Ring48 x) (Ring48 y) = (if y = 0 then None else Some (Ring48 (x mod y)))"

fun ring48_shr :: "Ring48 \<Rightarrow> nat \<Rightarrow> Ring48 option" where
  "ring48_shr (Ring48 x) rhs = (if rhs < 64 then Some (Ring48 (drop_bit rhs x)) else None)"

fun ring48_shl :: "Ring48 \<Rightarrow> nat \<Rightarrow> Ring48 option" where
  "ring48_shl (Ring48 x) rhs =
     (if rhs < 64 then Some (Ring48 (push_bit rhs x AND MASK_48)) else None)"

section \<open>The signed companion\<close>

text \<open>The inner \<open>i64\<close> is kept as a two's complement word; \<open>-\<close> of the least \<open>i64\<close> overflows.\<close>

datatype Signed48 = Signed48 u64

fun signed48_neg :: "Signed48 \<Rightarrow> Signed48 option" where
  "signed48_neg (Signed48 v) = (if v = push_bit 63 1 then None else Some (Signed48 (- v)))"

definition signed48_from_bool :: "bool \<Rightarrow> Signed48" where
  "signed48_from_bool b = Signed48 (of_bool b)"

fun signed48_as :: "Signed48 \<Rightarrow> Ring48" where
  "signed48_as (Signed48 v) = Ring48 (v AND MASK_48)"

section \<open>Random elements\<close>

text \<open>
  Sampling masks a random \<open>u64\<close>; the bulk fill first overwrites the slice with random words,
  then masks each element. The words drawn from the generator are arguments.
\<close>

definition ring48_sample :: "u64 \<Rightarrow> Ring48" where
  "ring48_sample r = Ring48 (r AND MASK_48)"

fun mask_elem :: "Ring48 \<Rightarrow> Ring48" where
  "mask_elem (Ring48 x) = Ring48 (x AND MASK_48)"

definition ring48_fill_vec_ring :: "Ring48 list \<Rightarrow> (nat \<Rightarrow> u64 list option) \<Rightarrow> Ring48 list option" where
  "ring48_fill_vec_ring elems try_fill =
     (case try_fill (length elems) of
        None \<Rightarrow> None
      | Some raw \<Rightarrow> Some (map (\<lambda>w. mask_elem (Ring48 w)) raw))"

section \<open>The instance of the trait\<close>

definition ring48_ring :: "Ring48 int_ring2k" where
  "ring48_ring = \<lparr>
     ring_K = 48, ring_BYTES = 6, size_of = 8,
     wrapping_add = ring48_wrapping_add, wrapping_sub = ring48_wrapping_sub,
     wrapping_mul = ring48_wrapping_mul, wrapping_neg = ring48_wrapping_neg,
     wrapping_shl = ring48_wrapping_shl, wrapping_shr = ring48_wrapping_shr,
     shl = ring48_shl, shr = ring48_shr,
     ring_not = ring48_not, bitxor = ring48_xor, bitand = ring48_and, bitor = ring48_or,
     from_bool = ring48_from_bool, into_u128 = u128_from_ring48,
     ring_zero = ring48_zero, ring_is_zero = ring48_is_zero, ring_one = ring48_one,
     ring_rem = ring48_rem \<rparr>"

fun wf48 :: "Ring48 \<Rightarrow> bool" where
  "wf48 (Ring48 x) = (x AND MASK_48 = x)"

fun val48 :: "Ring48 \<Rightarrow> int" where
  "val48 (Ring48 x) = uint x"

lemma ring48_ring_sel [simp]:
  "ring_K ring48_ring = 48" "ring_BYTES ring48_ring = 6" "size_of ring48_ring = 8"
  "wrapping_add ring48_ring = ring48_wrapping_add" "wrapping_sub ring48_ring = ring48_wrapping_sub"
  "wrapping_mul ring48_ring = ring48_wrapping_mul" "wrapping_neg ring48_ring = ring48_wrapping_neg"
  "wrapping_shl ring48_ring = ring48_wrapping_shl" "wrapping_shr ring48_ring = ring48_wrapping_shr"
  "shl ring48_ring = ring48_shl" "shr ring48_ring = ring48_shr"
  "ring_not ring48_ring = ring48_not" "bitxor ring48_ring = ring48_xor"
  "bitand ring48_ring = ring48_and" "bitor ring48_ring = ring48_or"
  "from_bool ring48_ring = ring48_from_bool" "into_u128 ring48_ring = u128_from_ring48"
  "ring_zero ring48_ring = ring48_zero" "ring_is_zero ring48_ring = ring48_is_zero"
  "ring_one ring48_ring = ring48_one" "ring_rem ring48_ring = ring48_rem"
  by (simp_all add: ring48_ring_def)

section \<open>Masking is reduction modulo \<open>2 ^ 48\<close>\<close>

lemma MASK_48_eq: "MASK_48 = mask 48"
  by (simp add: MASK_48_def mask_eq_exp_minus_1)

lemma and_MASK_48: "x AND MASK_48 = take_bit 48 x"
  by (simp add: MASK_48_eq take_bit_eq_mask)

lemma wf48_iff: "wf48 (Ring48 x) \<longleftrightarrow> take_bit 48 x = x"
  by (simp add: and_MASK_48)

lemma uint_take_bit_48: "uint (take_bit 48 (x :: u64)) = uint x mod 2 ^ 48"
proof -
  have "uint (take_bit 48 x) = take_bit 48 (uint x)" by (simp add: unsigned_take_bit_eq)
  then show ?thesis by (simp only: take_bit_eq_mod)
qed

lemma uint_mod_48: "take_bit 48 (x :: u64) = x \<Longrightarrow> uint x < 281474976710656"
  using uint_take_bit_48 [of x] pos_mod_bound [of "2 ^ 48" "uint x"] by simp

lemma ring48_arith:
  fixes x y :: u64
  shows "uint (take_bit 48 (x + y)) = (uint x + uint y) mod 2 ^ 48"
    and "uint (take_bit 48 (x - y)) = (uint x - uint y) mod 2 ^ 48"
    and "uint (take_bit 48 (x * y)) = (uint x * uint y) mod 2 ^ 48"
    and "uint (take_bit 48 (- x)) = (- uint x) mod 2 ^ 48"
  by (simp_all add: uint_take_bit_48 uint_word_ariths mod_mod_cancel)

lemma ring48_bits:
  fixes x y :: u64
  assumes "take_bit 48 x = x" "take_bit 48 y = y"
  shows "take_bit 48 (x XOR y) = x XOR y" "take_bit 48 (x OR y) = x OR y"
    "take_bit 48 (x AND y) = x AND y" "take_bit 48 (drop_bit n x) = drop_bit n x"
proof -
  show "take_bit 48 (x XOR y) = x XOR y" "take_bit 48 (x OR y) = x OR y"
    "take_bit 48 (x AND y) = x AND y"
    using assms by (simp_all add: take_bit_xor take_bit_or take_bit_and)
  have "drop_bit n (take_bit 48 x) = take_bit 48 (drop_bit n (take_bit 48 x))"
    by (rule bit_word_eqI) (auto simp: bit_drop_bit_eq bit_take_bit_iff)
  then show "take_bit 48 (drop_bit n x) = drop_bit n x" using assms(1) by simp
qed

lemma ring48_shift:
  fixes x :: u64
  shows "uint (take_bit 48 (push_bit n x)) = take_bit 48 (push_bit n (uint x))"
    and "uint (drop_bit n x) = drop_bit n (uint x)"
    and "uint (take_bit 48 (NOT x)) = take_bit 48 (NOT (uint x))"
  using take_bit_uint [of x]
  by (simp_all add: unsigned_take_bit_eq unsigned_push_bit_eq unsigned_drop_bit_eq unsigned_not_eq)

lemmas ring48_simps =
  and_MASK_48 ring48_arith ring48_bits ring48_shift ring48_zero_def ring48_one_def
  ring48_from_bool_def uint_mod_48 unsigned_xor_eq unsigned_and_eq unsigned_or_eq uint_0_iff

lemma wf48_elim:
  assumes "wf48 x"
  obtains w where "x = Ring48 w" "take_bit 48 w = w"
  using assms by (cases x) (simp add: and_MASK_48)

interpretation ring48: int_ring2k_laws ring48_ring wf48 val48
  by unfold_locales
    (auto elim!: wf48_elim simp: ring48_simps simp del: take_bit_eq_mod dest: word_uint_eqI)

end
