(* ===== verification/Ring_Impl.thy ===== *)
theory Ring_Impl
  imports Int_Ring Bit_Ring Ring48_Ring
begin

unbundle bit_operations_syntax

text \<open>
  \<open>RingElement\<close> and \<open>VecRingElement\<close> (\<open>ampc-secret-sharing/src/shares/ring_impl.rs\<close>):
  the transparent wrapper whose operators are the wrapping operations of the trait, vectors
  of it with length-checked component-wise operators, and the bit iterator. Proved for
  every ring that meets the contract: the iterator yields exactly the bits of the element,
  least significant first, and bit access agrees with it; the vector operators succeed
  exactly on equal lengths and subtraction undoes addition.
\<close>

section \<open>The wrapper\<close>

datatype 'a RingElement = RingElement (convert: 'a)

definition re_add :: "'a int_ring2k \<Rightarrow> 'a RingElement \<Rightarrow> 'a RingElement \<Rightarrow> 'a RingElement" where
  "re_add R self rhs = RingElement (wrapping_add R (convert self) (convert rhs))"

definition re_add_assign :: "'a int_ring2k \<Rightarrow> 'a RingElement \<Rightarrow> 'a RingElement \<Rightarrow> 'a RingElement" where
  "re_add_assign R self rhs = RingElement (wrapping_add_assign R (convert self) (convert rhs))"

definition re_sub :: "'a int_ring2k \<Rightarrow> 'a RingElement \<Rightarrow> 'a RingElement \<Rightarrow> 'a RingElement" where
  "re_sub R self rhs = RingElement (wrapping_sub R (convert self) (convert rhs))"

definition re_sub_assign :: "'a int_ring2k \<Rightarrow> 'a RingElement \<Rightarrow> 'a RingElement \<Rightarrow> 'a RingElement" where
  "re_sub_assign R self rhs = RingElement (wrapping_sub_assign R (convert self) (convert rhs))"

text \<open>The factor of \<open>*\<close> and \<open>*=\<close> is a bare ring value or a wrapped one.\<close>

definition re_mul_val :: "'a int_ring2k \<Rightarrow> 'a RingElement \<Rightarrow> 'a \<Rightarrow> 'a RingElement" where
  "re_mul_val R self rhs = RingElement (wrapping_mul R (convert self) rhs)"

definition re_mul :: "'a int_ring2k \<Rightarrow> 'a RingElement \<Rightarrow> 'a RingElement \<Rightarrow> 'a RingElement" where
  "re_mul R self rhs = RingElement (wrapping_mul R (convert self) (convert rhs))"

definition re_mul_assign :: "'a int_ring2k \<Rightarrow> 'a RingElement \<Rightarrow> 'a RingElement \<Rightarrow> 'a RingElement" where
  "re_mul_assign R self rhs = RingElement (wrapping_mul_assign R (convert self) (convert rhs))"

definition re_mul_assign_val :: "'a int_ring2k \<Rightarrow> 'a RingElement \<Rightarrow> 'a \<Rightarrow> 'a RingElement" where
  "re_mul_assign_val R self rhs = RingElement (wrapping_mul_assign R (convert self) rhs)"

definition re_zero :: "'a int_ring2k \<Rightarrow> 'a RingElement" where
  "re_zero R = RingElement (ring_zero R)"

definition re_is_zero :: "'a int_ring2k \<Rightarrow> 'a RingElement \<Rightarrow> bool" where
  "re_is_zero R self = ring_is_zero R (convert self)"

definition re_one :: "'a int_ring2k \<Rightarrow> 'a RingElement" where
  "re_one R = RingElement (ring_one R)"

definition re_neg :: "'a int_ring2k \<Rightarrow> 'a RingElement \<Rightarrow> 'a RingElement" where
  "re_neg R self = RingElement (wrapping_neg R (convert self))"

definition re_not :: "'a int_ring2k \<Rightarrow> 'a RingElement \<Rightarrow> 'a RingElement" where
  "re_not R self = RingElement (ring_not R (convert self))"

definition re_xor :: "'a int_ring2k \<Rightarrow> 'a RingElement \<Rightarrow> 'a RingElement \<Rightarrow> 'a RingElement" where
  "re_xor R self rhs = RingElement (bitxor R (convert self) (convert rhs))"

definition re_or :: "'a int_ring2k \<Rightarrow> 'a RingElement \<Rightarrow> 'a RingElement \<Rightarrow> 'a RingElement" where
  "re_or R self rhs = RingElement (bitor R (convert self) (convert rhs))"

definition re_and :: "'a int_ring2k \<Rightarrow> 'a RingElement \<Rightarrow> 'a RingElement \<Rightarrow> 'a RingElement" where
  "re_and R self rhs = RingElement (bitand R (convert self) (convert rhs))"

definition re_and_val :: "'a int_ring2k \<Rightarrow> 'a RingElement \<Rightarrow> 'a \<Rightarrow> 'a RingElement" where
  "re_and_val R self rhs = RingElement (bitand R (convert self) rhs)"

definition re_shl :: "'a int_ring2k \<Rightarrow> 'a RingElement \<Rightarrow> u32 \<Rightarrow> 'a RingElement" where
  "re_shl R self rhs = RingElement (wrapping_shl R (convert self) rhs)"

definition re_shl_assign :: "'a int_ring2k \<Rightarrow> 'a RingElement \<Rightarrow> u32 \<Rightarrow> 'a RingElement" where
  "re_shl_assign R self rhs = RingElement (wrapping_shl_assign R (convert self) rhs)"

definition re_shr :: "'a int_ring2k \<Rightarrow> 'a RingElement \<Rightarrow> u32 \<Rightarrow> 'a RingElement" where
  "re_shr R self rhs = RingElement (wrapping_shr R (convert self) rhs)"

definition re_shr_assign :: "'a int_ring2k \<Rightarrow> 'a RingElement \<Rightarrow> u32 \<Rightarrow> 'a RingElement" where
  "re_shr_assign R self rhs = RingElement (wrapping_shr_assign R (convert self) rhs)"

definition re_rem :: "'a int_ring2k \<Rightarrow> 'a RingElement \<Rightarrow> 'a \<Rightarrow> 'a RingElement option" where
  "re_rem R self rhs = map_option RingElement (ring_rem R (convert self) rhs)"

lemmas re_defs [ring_defs] =
  re_add_def re_add_assign_def re_sub_def re_sub_assign_def re_mul_val_def re_mul_def
  re_mul_assign_def re_mul_assign_val_def re_zero_def re_is_zero_def re_one_def re_neg_def
  re_not_def re_xor_def re_or_def re_and_def re_and_val_def re_shl_def re_shl_assign_def
  re_shr_def re_shr_assign_def

text \<open>The slice and vector casts between \<open>RingElement<T>\<close> and \<open>T\<close> keep the layout.\<close>

definition convert_vec :: "'a RingElement list \<Rightarrow> 'a list" where
  "convert_vec vec = map convert vec"

definition convert_vec_rev :: "'a list \<Rightarrow> 'a RingElement list" where
  "convert_vec_rev vec = map RingElement vec"

section \<open>Bit access\<close>

record 'a BitIter =
  bits :: "'a RingElement"
  index :: nat

definition bit_iter :: "'a RingElement \<Rightarrow> 'a BitIter" where
  "bit_iter self = \<lparr>bits = self, index = 0\<rparr>"

text \<open>
  \<open>next\<close> returns the item and the advanced iterator; the outer option is the panic of the
  shift. \<open>bit_iter_collect\<close> drains the iterator.
\<close>

definition bit_iter_next :: "'a int_ring2k \<Rightarrow> 'a BitIter \<Rightarrow> (Bit option \<times> 'a BitIter) option" where
  "bit_iter_next R self =
     (if ring_K R \<le> index self then Some (None, self)
      else case shr R (convert (bits self)) (index self) of
        None \<Rightarrow> None
      | Some s \<Rightarrow>
          let b = (bitand R s (ring_one R) = ring_one R)
          in Some (Some (bit_new b), self\<lparr>index := index self + 1\<rparr>))"

definition bit_iter_size_hint :: "'a int_ring2k \<Rightarrow> 'a BitIter \<Rightarrow> nat \<times> nat option" where
  "bit_iter_size_hint R self = (let len = ring_K R - index self in (len, Some len))"

function bit_iter_collect :: "'a int_ring2k \<Rightarrow> 'a BitIter \<Rightarrow> Bit list option" where
  "bit_iter_collect R it =
     (case bit_iter_next R it of
        None \<Rightarrow> None
      | Some (None, _) \<Rightarrow> Some []
      | Some (Some b, it') \<Rightarrow> map_option (Cons b) (bit_iter_collect R it'))"
  by pat_completeness auto
termination
  by (relation "measure (\<lambda>(R, it). ring_K R - index it)")
    (auto simp: bit_iter_next_def Let_def split: if_splits option.splits)

declare bit_iter_collect.simps [simp del]

definition get_bit :: "'a int_ring2k \<Rightarrow> 'a RingElement \<Rightarrow> nat \<Rightarrow> 'a RingElement option" where
  "get_bit R self idx =
     map_option (\<lambda>s. RingElement (bitand R s (ring_one R))) (shr R (convert self) idx)"

definition get_bit_as_bit :: "'a int_ring2k \<Rightarrow> 'a RingElement \<Rightarrow> nat \<Rightarrow> Bit RingElement option" where
  "get_bit_as_bit R self idx =
     map_option (\<lambda>s. RingElement (bit_new (bitand R s (ring_one R) = ring_one R)))
       (shr R (convert self) idx)"

section \<open>Vectors of ring elements\<close>

datatype 'a VecRingElement = VecRingElement (elements: "'a RingElement list")

definition vre_with_capacity :: "nat \<Rightarrow> 'a VecRingElement" where
  "vre_with_capacity capacity = VecRingElement []"

definition vre_push :: "'a VecRingElement \<Rightarrow> 'a RingElement \<Rightarrow> 'a VecRingElement" where
  "vre_push self value = VecRingElement (elements self @ [value])"

definition vre_len :: "'a VecRingElement \<Rightarrow> nat" where
  "vre_len self = length (elements self)"

definition vre_is_empty :: "'a VecRingElement \<Rightarrow> bool" where
  "vre_is_empty self = (elements self = [])"

definition vre_extend :: "'a VecRingElement \<Rightarrow> 'a RingElement list \<Rightarrow> 'a VecRingElement" where
  "vre_extend self iter = VecRingElement (elements self @ iter)"

definition vre_add :: "'a int_ring2k \<Rightarrow> 'a VecRingElement \<Rightarrow> 'a VecRingElement \<Rightarrow> string + 'a VecRingElement" where
  "vre_add R self rhs =
     (if length (elements self) \<noteq> length (elements rhs)
      then Inl ''Adding vectors of different lengths''
      else Inr (VecRingElement (map (\<lambda>(x, y). re_add R x y) (zip (elements self) (elements rhs)))))"

definition vre_xor :: "'a int_ring2k \<Rightarrow> 'a VecRingElement \<Rightarrow> 'a VecRingElement \<Rightarrow> string + 'a VecRingElement" where
  "vre_xor R self rhs =
     (if length (elements self) \<noteq> length (elements rhs)
      then Inl ''Adding vectors of different lengths''
      else Inr (VecRingElement (map (\<lambda>(x, y). re_xor R x y) (zip (elements self) (elements rhs)))))"

definition vre_sub :: "'a int_ring2k \<Rightarrow> 'a VecRingElement \<Rightarrow> 'a VecRingElement \<Rightarrow> string + 'a VecRingElement" where
  "vre_sub R self rhs =
     (if length (elements self) \<noteq> length (elements rhs)
      then Inl ''Subtracting vectors of different lengths''
      else Inr (VecRingElement (map (\<lambda>(x, y). re_sub R x y) (zip (elements self) (elements rhs)))))"

definition vre_mul :: "'a int_ring2k \<Rightarrow> 'a VecRingElement \<Rightarrow> 'a VecRingElement \<Rightarrow> string + 'a VecRingElement" where
  "vre_mul R self rhs =
     (if length (elements self) \<noteq> length (elements rhs)
      then Inl ''Multiplying vectors of different lengths''
      else Inr (VecRingElement (map (\<lambda>(x, y). re_mul R x y) (zip (elements self) (elements rhs)))))"

section \<open>Facts for every lawful ring\<close>

context int_ring2k_laws
begin

lemma and_one_eq_one_iff:
  assumes "wf y"
  shows "bitand R y (ring_one R) = ring_one R \<longleftrightarrow> odd (val y)"
proof -
  have "bitand R y (ring_one R) = ring_one R \<longleftrightarrow> val y AND 1 = 1"
    using assms by (simp add: val_eq_iff wf_intros val_bits)
  then show ?thesis by (simp add: and_one_eq odd_iff_mod_2_eq_one)
qed

lemma shr_test:
  assumes "wf x" "i < ring_K R"
  obtains y where "shr R x i = Some y" "wf y"
    "bitand R y (ring_one R) = ring_one R \<longleftrightarrow> bit (val x) i"
proof -
  obtain y where y: "shr R x i = Some y" "wf y" "val y = drop_bit i (val x)"
    using shr_ok assms by blast
  then have "odd (val y) \<longleftrightarrow> bit (val x) i" by (simp add: bit_iff_odd_drop_bit)
  with y that show ?thesis by (simp add: and_one_eq_one_iff)
qed

lemma bit_iter_collect_from:
  assumes "wf (convert (bits it))" "index it \<le> ring_K R"
  shows "bit_iter_collect R it =
    Some (map (\<lambda>i. bit_new (bit (val (convert (bits it))) i)) [index it..<ring_K R])"
  using assms
proof (induction "ring_K R - index it" arbitrary: it)
  case 0
  then show ?case by (subst bit_iter_collect.simps) (simp add: bit_iter_next_def)
next
  case (Suc n)
  then have lt: "index it < ring_K R" by simp
  obtain y where y: "shr R (convert (bits it)) (index it) = Some y"
    "bitand R y (ring_one R) = ring_one R \<longleftrightarrow> bit (val (convert (bits it))) (index it)"
    using shr_test Suc.prems lt by blast
  let ?it = "it\<lparr>index := index it + 1\<rparr>"
  have "bit_iter_next R it =
      Some (Some (bit_new (bit (val (convert (bits it))) (index it))), ?it)"
    using y lt by (simp add: bit_iter_next_def)
  moreover have "bit_iter_collect R ?it =
      Some (map (\<lambda>i. bit_new (bit (val (convert (bits ?it))) i)) [index ?it..<ring_K R])"
    using Suc by (intro Suc.hyps) simp_all
  ultimately show ?case
    using lt by (subst bit_iter_collect.simps) (simp add: upt_conv_Cons)
qed

lemma bit_iter_bits:
  "wf (convert x) \<Longrightarrow>
   bit_iter_collect R (bit_iter x) = Some (map (\<lambda>i. bit_new (bit (val (convert x)) i)) [0..<ring_K R])"
  by (subst bit_iter_collect_from) (simp_all add: bit_iter_def)

lemma get_bit_as_bit_ok:
  assumes "wf (convert x)" "i < ring_K R"
  shows "get_bit_as_bit R x i = Some (RingElement (bit_new (bit (val (convert x)) i)))"
proof -
  obtain y where "shr R (convert x) i = Some y"
    "bitand R y (ring_one R) = ring_one R \<longleftrightarrow> bit (val (convert x)) i"
    using shr_test assms by blast
  then show ?thesis by (simp add: get_bit_as_bit_def)
qed

lemma add_sub_cancel: "wf x \<Longrightarrow> wf y \<Longrightarrow> wrapping_sub R (wrapping_add R x y) y = x"
  by (simp add: val_eq_iff wf_intros val_arith mod_simps val_mod)

lemma vre_add_sub:
  assumes "length (elements v) = length (elements w)"
    and "\<forall>x \<in> set (elements v). wf (convert x)" "\<forall>x \<in> set (elements w). wf (convert x)"
  shows "\<exists>s. vre_add R v w = Inr s \<and> vre_sub R s w = Inr v"
proof -
  have "map (\<lambda>(x, y). re_sub R x y) (zip (map (\<lambda>(x, y). re_add R x y) (zip xs ys)) ys) = xs"
    if "length xs = length ys" "\<forall>x \<in> set xs. wf (convert x)" "\<forall>y \<in> set ys. wf (convert y)"
    for xs ys
    using that by (induction xs ys rule: list_induct2) (simp_all add: re_defs add_sub_cancel)
  then show ?thesis using assms by (simp add: vre_add_def vre_sub_def)
qed

end

end
