(* ===== verification/Share.thy ===== *)
theory Share
  imports Ring_Impl
begin

unbundle bit_operations_syntax

text \<open>
  Replicated three-party shares (\<open>ampc-secret-sharing/src/shares/share.rs\<close>) and the
  dealer of \<open>ampc-actor-utils/src/protocol/test_utils.rs\<close>. Party \<open>i\<close> holds its own
  additive component and that of party \<open>i - 1\<close>. The specification views the three shares
  together: \<open>replicated\<close> says that they fit, \<open>open_add\<close> and \<open>open_xor\<close> recombine them.
  Proved once for every lawful ring: the local operators compute the linear operations on
  the shared value, the local parts of multiplication and AND are additive (respectively
  exclusive-or) sharings of the product, and NOT on all components negates the value.
\<close>

section \<open>Shares\<close>

record 'a share =
  share_a :: "'a RingElement"
  share_b :: "'a RingElement"

definition share_new :: "'a RingElement \<Rightarrow> 'a RingElement \<Rightarrow> 'a share" where
  "share_new a b = \<lparr>share_a = a, share_b = b\<rparr>"

definition share_zero :: "'a int_ring2k \<Rightarrow> 'a share" where
  "share_zero R = \<lparr>share_a = re_zero R, share_b = re_zero R\<rparr>"

definition share_is_zero :: "'a int_ring2k \<Rightarrow> 'a share \<Rightarrow> bool" where
  "share_is_zero R self = (re_is_zero R (share_a self) \<and> re_is_zero R (share_b self))"

text \<open>\<open>unimplemented!\<close> for a role index above 2 is \<open>None\<close>.\<close>

definition add_assign_const_role :: "'a int_ring2k \<Rightarrow> 'a share \<Rightarrow> 'a \<Rightarrow> nat \<Rightarrow> 'a share option" where
  "add_assign_const_role R self other role =
     (if role = 0 then Some (self\<lparr>share_a := re_add_assign R (share_a self) (RingElement other)\<rparr>)
      else if role = 1 then Some (self\<lparr>share_b := re_add_assign R (share_b self) (RingElement other)\<rparr>)
      else if role = 2 then Some self
      else None)"

definition share_from_const :: "'a int_ring2k \<Rightarrow> 'a \<Rightarrow> nat \<Rightarrow> 'a share option" where
  "share_from_const R value role = add_assign_const_role R (share_zero R) value role"

definition share_get_ab :: "'a share \<Rightarrow> 'a RingElement \<times> 'a RingElement" where
  "share_get_ab self = (share_a self, share_b self)"

definition share_iter_from_iter_ab :: "'a RingElement list \<Rightarrow> 'a RingElement list \<Rightarrow> 'a share list" where
  "share_iter_from_iter_ab as bs = map (\<lambda>(a, b). share_new a b) (zip as bs)"

definition share_add :: "'a int_ring2k \<Rightarrow> 'a share \<Rightarrow> 'a share \<Rightarrow> 'a share" where
  "share_add R self rhs =
     \<lparr>share_a = re_add R (share_a self) (share_a rhs), share_b = re_add R (share_b self) (share_b rhs)\<rparr>"

definition share_sub :: "'a int_ring2k \<Rightarrow> 'a share \<Rightarrow> 'a share \<Rightarrow> 'a share" where
  "share_sub R self rhs =
     \<lparr>share_a = re_sub R (share_a self) (share_a rhs), share_b = re_sub R (share_b self) (share_b rhs)\<rparr>"

definition share_add_assign :: "'a int_ring2k \<Rightarrow> 'a share \<Rightarrow> 'a share \<Rightarrow> 'a share" where
  "share_add_assign R self rhs =
     self\<lparr>share_a := re_add_assign R (share_a self) (share_a rhs),
          share_b := re_add_assign R (share_b self) (share_b rhs)\<rparr>"

definition share_sub_assign :: "'a int_ring2k \<Rightarrow> 'a share \<Rightarrow> 'a share \<Rightarrow> 'a share" where
  "share_sub_assign R self rhs =
     self\<lparr>share_a := re_sub_assign R (share_a self) (share_a rhs),
          share_b := re_sub_assign R (share_b self) (share_b rhs)\<rparr>"

text \<open>Multiplication by a public factor, wrapped or bare.\<close>

definition share_mul_const :: "'a int_ring2k \<Rightarrow> 'a share \<Rightarrow> 'a RingElement \<Rightarrow> 'a share" where
  "share_mul_const R self rhs =
     \<lparr>share_a = re_mul R (share_a self) rhs, share_b = re_mul R (share_b self) rhs\<rparr>"

definition share_mul_val :: "'a int_ring2k \<Rightarrow> 'a share \<Rightarrow> 'a \<Rightarrow> 'a share" where
  "share_mul_val R self rhs = share_mul_const R self (RingElement rhs)"

definition share_ref_mul_val :: "'a int_ring2k \<Rightarrow> 'a share \<Rightarrow> 'a \<Rightarrow> 'a share" where
  "share_ref_mul_val R self rhs =
     \<lparr>share_a = re_mul_val R (share_a self) rhs, share_b = re_mul_val R (share_b self) rhs\<rparr>"

definition share_mul_assign_val :: "'a int_ring2k \<Rightarrow> 'a share \<Rightarrow> 'a \<Rightarrow> 'a share" where
  "share_mul_assign_val R self rhs =
     self\<lparr>share_a := re_mul_assign_val R (share_a self) rhs,
          share_b := re_mul_assign_val R (share_b self) rhs\<rparr>"

text \<open>The local part of the multiplication of two shared values.\<close>

definition share_mul :: "'a int_ring2k \<Rightarrow> 'a share \<Rightarrow> 'a share \<Rightarrow> 'a RingElement" where
  "share_mul R self rhs =
     re_add R (re_add R (re_mul R (share_a self) (share_a rhs)) (re_mul R (share_b self) (share_a rhs)))
       (re_mul R (share_a self) (share_b rhs))"

definition share_xor :: "'a int_ring2k \<Rightarrow> 'a share \<Rightarrow> 'a share \<Rightarrow> 'a share" where
  "share_xor R self rhs =
     \<lparr>share_a = re_xor R (share_a self) (share_a rhs), share_b = re_xor R (share_b self) (share_b rhs)\<rparr>"

definition share_xor_assign :: "'a int_ring2k \<Rightarrow> 'a share \<Rightarrow> 'a share \<Rightarrow> 'a share" where
  "share_xor_assign R self rhs =
     self\<lparr>share_a := re_xor R (share_a self) (share_a rhs),
          share_b := re_xor R (share_b self) (share_b rhs)\<rparr>"

text \<open>The local part of the AND of two shared values.\<close>

definition share_and :: "'a int_ring2k \<Rightarrow> 'a share \<Rightarrow> 'a share \<Rightarrow> 'a RingElement" where
  "share_and R self rhs =
     re_xor R (re_xor R (re_and R (share_a self) (share_a rhs)) (re_and R (share_b self) (share_a rhs)))
       (re_and R (share_a self) (share_b rhs))"

definition share_and_const :: "'a int_ring2k \<Rightarrow> 'a share \<Rightarrow> 'a RingElement \<Rightarrow> 'a share" where
  "share_and_const R self rhs =
     \<lparr>share_a = re_and R (share_a self) rhs, share_b = re_and R (share_b self) rhs\<rparr>"

definition share_and_val :: "'a int_ring2k \<Rightarrow> 'a share \<Rightarrow> 'a \<Rightarrow> 'a share" where
  "share_and_val R self rhs =
     \<lparr>share_a = re_and_val R (share_a self) rhs, share_b = re_and_val R (share_b self) rhs\<rparr>"

definition share_neg :: "'a int_ring2k \<Rightarrow> 'a share \<Rightarrow> 'a share" where
  "share_neg R self = \<lparr>share_a = re_neg R (share_a self), share_b = re_neg R (share_b self)\<rparr>"

definition share_not :: "'a int_ring2k \<Rightarrow> 'a share \<Rightarrow> 'a share" where
  "share_not R self = \<lparr>share_a = re_not R (share_a self), share_b = re_not R (share_b self)\<rparr>"

definition share_shr :: "'a int_ring2k \<Rightarrow> 'a share \<Rightarrow> u32 \<Rightarrow> 'a share" where
  "share_shr R self rhs = \<lparr>share_a = re_shr R (share_a self) rhs, share_b = re_shr R (share_b self) rhs\<rparr>"

definition share_shl :: "'a int_ring2k \<Rightarrow> 'a share \<Rightarrow> u32 \<Rightarrow> 'a share" where
  "share_shl R self rhs = \<lparr>share_a = re_shl R (share_a self) rhs, share_b = re_shl R (share_b self) rhs\<rparr>"

lemmas share_op_defs [share_defs] =
  share_new_def share_zero_def share_is_zero_def share_add_def share_sub_def
  share_add_assign_def share_sub_assign_def share_mul_const_def share_mul_val_def
  share_ref_mul_val_def share_mul_assign_val_def share_mul_def share_xor_def
  share_xor_assign_def share_and_def share_and_const_def share_and_val_def share_neg_def
  share_not_def share_shr_def share_shl_def

section \<open>Distance shares\<close>

record 'a DistanceShare =
  code_dot :: "'a share"
  mask_dot :: "'a share"

definition distance_share_new :: "'a share \<Rightarrow> 'a share \<Rightarrow> 'a DistanceShare" where
  "distance_share_new cd md = \<lparr>code_dot = cd, mask_dot = md\<rparr>"

definition distance_share_add :: "'a int_ring2k \<Rightarrow> 'a DistanceShare \<Rightarrow> 'a DistanceShare \<Rightarrow> 'a DistanceShare" where
  "distance_share_add R self rhs =
     \<lparr>code_dot = share_add R (code_dot self) (code_dot rhs),
      mask_dot = share_add R (mask_dot self) (mask_dot rhs)\<rparr>"

definition distance_share_add_assign :: "'a int_ring2k \<Rightarrow> 'a DistanceShare \<Rightarrow> 'a DistanceShare \<Rightarrow> 'a DistanceShare" where
  "distance_share_add_assign R self rhs =
     self\<lparr>code_dot := share_add_assign R (code_dot self) (code_dot rhs),
          mask_dot := share_add_assign R (mask_dot self) (mask_dot rhs)\<rparr>"

text \<open>\<open>tuples()\<close> groups an iterator in pairs or triples and drops an incomplete last group.\<close>

fun tuples2 :: "'a list \<Rightarrow> ('a \<times> 'a) list" where
  "tuples2 (x # y # zs) = (x, y) # tuples2 zs"
| "tuples2 _ = []"

fun tuples3 :: "'a list \<Rightarrow> ('a \<times> 'a \<times> 'a) list" where
  "tuples3 (x # y # z # zs) = (x, y, z) # tuples3 zs"
| "tuples3 _ = []"

definition reconstruct_distance_vector :: "u32 VecRingElement \<Rightarrow> u32 VecRingElement \<Rightarrow> u32 DistanceShare list" where
  "reconstruct_distance_vector a b =
     map (\<lambda>(cd, md). distance_share_new cd md)
       (tuples2 (map (\<lambda>(x, y). share_new x y) (zip (elements a) (elements b))))"

definition reconstruct_id_distance_vector ::
  "'a VecRingElement \<Rightarrow> 'a VecRingElement \<Rightarrow> ('a share \<times> 'a DistanceShare) list" where
  "reconstruct_id_distance_vector a b =
     map (\<lambda>(i, cd, md). (i, distance_share_new cd md))
       (tuples3 (map (\<lambda>(x, y). share_new x y) (zip (elements a) (elements b))))"

section \<open>Dealing shares\<close>

text \<open>The two random draws of the dealer are arguments.\<close>

definition create_single_sharing ::
  "'a int_ring2k \<Rightarrow> 'a \<Rightarrow> 'a \<Rightarrow> 'a \<Rightarrow> 'a share \<times> 'a share \<times> 'a share" where
  "create_single_sharing R r1 r2 input =
     (let a = RingElement r1;
          b = RingElement r2;
          c = re_sub R (re_sub R (RingElement input) a) b
      in (share_new a c, share_new b a, share_new c b))"

record 'a LocalShares1D =
  p0 :: "'a share list"
  p1 :: "'a share list"
  p2 :: "'a share list"

definition of_party :: "'a LocalShares1D \<Rightarrow> nat \<Rightarrow> 'a share list option" where
  "of_party self party_id =
     (if party_id = 0 then Some (p0 self)
      else if party_id = 1 then Some (p1 self)
      else if party_id = 2 then Some (p2 self)
      else None)"

text \<open>Each entry takes two draws from the generator, given as the list of all draws.\<close>

fun create_array_sharing :: "'a int_ring2k \<Rightarrow> ('a \<times> 'a) list \<Rightarrow> 'a list \<Rightarrow> 'a LocalShares1D" where
  "create_array_sharing R ((r1, r2) # rng) (entry # input) =
     (let (a, b, c) = create_single_sharing R r1 r2 entry;
          rest = create_array_sharing R rng input
      in \<lparr>p0 = a # p0 rest, p1 = b # p1 rest, p2 = c # p2 rest\<rparr>)"
| "create_array_sharing R _ _ = \<lparr>p0 = [], p1 = [], p2 = []\<rparr>"

section \<open>Three shares together\<close>

text \<open>
  The specification side: three shares belong together when each party's second component
  is the first component of the party before it, and they are opened by recombining the
  three first components.
\<close>

type_synonym 'a share3 = "'a share \<times> 'a share \<times> 'a share"

fun replicated :: "'a share3 \<Rightarrow> bool" where
  "replicated (s0, s1, s2) =
     (share_b s0 = share_a s2 \<and> share_b s1 = share_a s0 \<and> share_b s2 = share_a s1)"

fun open_add :: "'a int_ring2k \<Rightarrow> 'a share3 \<Rightarrow> 'a RingElement" where
  "open_add R (s0, s1, s2) = re_add R (re_add R (share_a s0) (share_a s1)) (share_a s2)"

fun open_xor :: "'a int_ring2k \<Rightarrow> 'a share3 \<Rightarrow> 'a RingElement" where
  "open_xor R (s0, s1, s2) = re_xor R (re_xor R (share_a s0) (share_a s1)) (share_a s2)"

fun map3 :: "('a share \<Rightarrow> 'b) \<Rightarrow> 'a share3 \<Rightarrow> 'b \<times> 'b \<times> 'b" where
  "map3 f (s0, s1, s2) = (f s0, f s1, f s2)"

fun zip3 :: "('a share \<Rightarrow> 'a share \<Rightarrow> 'b) \<Rightarrow> 'a share3 \<Rightarrow> 'a share3 \<Rightarrow> 'b \<times> 'b \<times> 'b" where
  "zip3 f (s0, s1, s2) (t0, t1, t2) = (f s0 t0, f s1 t1, f s2 t2)"

fun sum3 :: "'a int_ring2k \<Rightarrow> 'a RingElement \<times> 'a RingElement \<times> 'a RingElement \<Rightarrow> 'a RingElement" where
  "sum3 R (x, y, z) = re_add R (re_add R x y) z"

fun xor3 :: "'a int_ring2k \<Rightarrow> 'a RingElement \<times> 'a RingElement \<times> 'a RingElement \<Rightarrow> 'a RingElement" where
  "xor3 R (x, y, z) = re_xor R (re_xor R x y) z"

fun share3_wf :: "('a \<Rightarrow> bool) \<Rightarrow> 'a share3 \<Rightarrow> bool" where
  "share3_wf P (s0, s1, s2) =
     (P (convert (share_a s0)) \<and> P (convert (share_b s0)) \<and>
      P (convert (share_a s1)) \<and> P (convert (share_b s1)) \<and>
      P (convert (share_a s2)) \<and> P (convert (share_b s2)))"

lemma share3_wf_True [simp]: "share3_wf (\<lambda>_. True) s"
  by (cases s) simp

lemma RingElement_eq_iff: "x = y \<longleftrightarrow> convert x = convert y"
  by (cases x; cases y) simp

section \<open>Share arithmetic in every lawful ring\<close>

context int_ring2k_laws
begin

lemmas share_arith = share_op_defs re_defs assign_defs

lemma dealer_opens:
  assumes "wf r1" "wf r2" "wf x"
  shows "replicated (create_single_sharing R r1 r2 x)"
    and "share3_wf wf (create_single_sharing R r1 r2 x)"
    and "open_add R (create_single_sharing R r1 r2 x) = RingElement x"
  using assms
  by (simp_all add: create_single_sharing_def Let_def share_arith wf_intros val_eq_iff val_arith
      mod_simps val_mod)

lemma linear_ops_open:
  assumes "share3_wf wf s" "share3_wf wf t" "wf c"
  shows "open_add R (zip3 (share_add R) s t) = re_add R (open_add R s) (open_add R t)"
    and "open_add R (zip3 (share_sub R) s t) = re_sub R (open_add R s) (open_add R t)"
    and "open_add R (map3 (share_neg R) s) = re_neg R (open_add R s)"
    and "open_add R (map3 (\<lambda>x. share_mul_val R x c) s) = re_mul_val R (open_add R s) c"
  using assms
  by (cases s; cases t;
      simp add: share_arith wf_intros val_eq_iff val_arith mod_simps; simp add: algebra_simps)+

lemma local_product_opens:
  assumes "replicated s" "replicated t" "share3_wf wf s" "share3_wf wf t"
  shows "sum3 R (zip3 (share_mul R) s t) = re_mul R (open_add R s) (open_add R t)"
  using assms
  by (cases s; cases t; simp add: share_arith wf_intros val_eq_iff val_arith mod_simps;
      simp add: algebra_simps)

lemma local_and_opens:
  assumes "replicated s" "replicated t" "share3_wf wf s" "share3_wf wf t"
  shows "xor3 R (zip3 (share_and R) s t) = re_and R (open_xor R s) (open_xor R t)"
  using assms
  by (cases s; cases t)
    (auto simp add: share_arith wf_intros val_eq_iff val_bits intro!: bit_eqI
      simp: bit_xor_iff bit_and_iff)

lemma bitwise_ops_open:
  assumes "share3_wf wf s" "share3_wf wf t" "wf c"
  shows "open_xor R (zip3 (share_xor R) s t) = re_xor R (open_xor R s) (open_xor R t)"
    and "open_xor R (map3 (\<lambda>x. share_and_val R x c) s) = re_and_val R (open_xor R s) c"
    and "open_xor R (map3 (share_not R) s) = re_not R (open_xor R s)"
  using assms
  by (cases s; cases t; auto simp add: share_arith wf_intros val_eq_iff val_bits intro!: bit_eqI
      simp: bit_xor_iff bit_and_iff bit_take_bit_iff bit_not_iff)+

lemma shifts_open:
  assumes "share3_wf wf s" "unat n < ring_K R"
  shows "open_xor R (map3 (\<lambda>x. share_shl R x n) s) = re_shl R (open_xor R s) n"
    and "open_xor R (map3 (\<lambda>x. share_shr R x n) s) = re_shr R (open_xor R s) n"
  using assms
  by (cases s; auto simp add: share_arith wf_intros val_eq_iff val_bits intro!: bit_eqI
      simp: bit_xor_iff bit_take_bit_iff bit_push_bit_iff bit_drop_bit_eq)+

text \<open>Adding a public constant: party 0 and party 1 change their copy of one component.\<close>

lemma const_role_opens:
  assumes "share3_wf wf s" "replicated s" "wf c" "s = (s0, s1, s2)"
  obtains t0 t1 t2 where
    "add_assign_const_role R s0 c 0 = Some t0" "add_assign_const_role R s1 c 1 = Some t1"
    "add_assign_const_role R s2 c 2 = Some t2" "replicated (t0, t1, t2)"
    "open_add R (t0, t1, t2) = re_add R (open_add R s) (RingElement c)"
proof -
  let ?t0 = "s0\<lparr>share_a := re_add_assign R (share_a s0) (RingElement c)\<rparr>"
  let ?t1 = "s1\<lparr>share_b := re_add_assign R (share_b s1) (RingElement c)\<rparr>"
  have "replicated (?t0, ?t1, s2)" using assms by simp
  moreover have "open_add R (?t0, ?t1, s2) = re_add R (open_add R s) (RingElement c)"
    using assms
    by (simp add: share_arith wf_intros val_eq_iff val_arith mod_simps; simp add: algebra_simps)
  ultimately show ?thesis
    by (intro that [of ?t0 ?t1 s2]) (simp_all add: add_assign_const_role_def)
qed

end

text \<open>The operators act on the two components alike, so the three results still fit.\<close>

lemma ops_replicated:
  assumes "replicated s" "replicated t"
  shows "replicated (zip3 (share_add R) s t)" "replicated (zip3 (share_sub R) s t)"
    "replicated (zip3 (share_xor R) s t)" "replicated (map3 (share_neg R) s)"
    "replicated (map3 (share_not R) s)" "replicated (map3 (\<lambda>x. share_mul_val R x c) s)"
    "replicated (map3 (\<lambda>x. share_and_val R x c) s)" "replicated (map3 (\<lambda>x. share_shl R x n) s)"
    "replicated (map3 (\<lambda>x. share_shr R x n) s)"
  using assms by (cases s; cases t; simp add: share_op_defs)+

lemma assign_eq:
  "share_add_assign R s t = share_add R s t" "share_sub_assign R s t = share_sub R s t"
  "share_xor_assign R s t = share_xor R s t" "share_mul_assign_val R s c = share_mul_val R s c"
  "share_ref_mul_val R s c = share_mul_val R s c"
  by (simp_all add: share_op_defs re_defs assign_defs)

section \<open>Properties\<close>

text \<open>
  C39: the local part of the multiplication. When three parties hold consistent replicated
  shares of two values, the three local products (each computed from one party's own two
  components) sum to the product of the two values. It holds for the primitive integers of
  every width, for Ring48 and for Bit, with the wrap-around of the ring.
\<close>

theorem local_product_is_additive_sharing:
  fixes s t :: "'w::len word share3" and s' t' :: "Ring48 share3" and u v :: "Bit share3"
  assumes "replicated s" "replicated t"
    and "replicated s'" "replicated t'" "share3_wf wf48 s'" "share3_wf wf48 t'"
    and "replicated u" "replicated v" "share3_wf wf_bit u" "share3_wf wf_bit v"
  shows "sum3 word_ring (zip3 (share_mul word_ring) s t) =
           re_mul word_ring (open_add word_ring s) (open_add word_ring t)
       \<and> sum3 ring48_ring (zip3 (share_mul ring48_ring) s' t') =
           re_mul ring48_ring (open_add ring48_ring s') (open_add ring48_ring t')
       \<and> sum3 bit_ring (zip3 (share_mul bit_ring) u v) =
           re_mul bit_ring (open_add bit_ring u) (open_add bit_ring v)"
  using assms
  by (simp add: word.local_product_opens ring48.local_product_opens bit.local_product_opens)

definition sh :: "'a \<Rightarrow> 'a \<Rightarrow> 'a \<Rightarrow> 'a share3" where
  "sh x y z = (share_new (RingElement x) (RingElement z), share_new (RingElement y) (RingElement x),
               share_new (RingElement z) (RingElement y))"

theorem local_product_is_additive_sharing_witness:
  "sum3 word_ring (zip3 (share_mul word_ring) (sh (60000::u16) 3 9) (sh 7 65535 2)) =
     re_mul word_ring (open_add word_ring (sh 60000 3 9)) (open_add word_ring (sh 7 65535 2)) \<and>
   sum3 ring48_ring (zip3 (share_mul ring48_ring) (sh (Ring48 1) (Ring48 2) (Ring48 3)) (sh (Ring48 4) (Ring48 5) (Ring48 6))) =
     re_mul ring48_ring (open_add ring48_ring (sh (Ring48 1) (Ring48 2) (Ring48 3)))
       (open_add ring48_ring (sh (Ring48 4) (Ring48 5) (Ring48 6))) \<and>
   sum3 bit_ring (zip3 (share_mul bit_ring) (sh (Bit 1) (Bit 0) (Bit 0)) (sh (Bit 1) (Bit 1) (Bit 1))) =
     re_mul bit_ring (open_add bit_ring (sh (Bit 1) (Bit 0) (Bit 0))) (open_add bit_ring (sh (Bit 1) (Bit 1) (Bit 1)))"
  by (intro local_product_is_additive_sharing)
    (simp_all add: sh_def share_new_def MASK_48_eq and_MASK_48 flip: take_bit_eq_mask)

text \<open>
  Boolean sharings. On consistent exclusive-or sharings the three local AND terms
  exclusive-or to the AND of the values, and complementing both components of all three
  shares complements the value and keeps the shares consistent (this is where the number of
  parties being odd matters).
\<close>

theorem local_and_and_not_of_boolean_sharings:
  fixes s t :: "'w::len word share3" and s' t' :: "Ring48 share3" and u v :: "Bit share3"
  assumes "replicated s" "replicated t"
    and "replicated s'" "replicated t'" "share3_wf wf48 s'" "share3_wf wf48 t'"
    and "replicated u" "replicated v" "share3_wf wf_bit u" "share3_wf wf_bit v"
  shows "xor3 word_ring (zip3 (share_and word_ring) s t) =
           re_and word_ring (open_xor word_ring s) (open_xor word_ring t)
       \<and> xor3 ring48_ring (zip3 (share_and ring48_ring) s' t') =
           re_and ring48_ring (open_xor ring48_ring s') (open_xor ring48_ring t')
       \<and> xor3 bit_ring (zip3 (share_and bit_ring) u v) =
           re_and bit_ring (open_xor bit_ring u) (open_xor bit_ring v)
       \<and> replicated (map3 (share_not word_ring) s)
       \<and> open_xor word_ring (map3 (share_not word_ring) s) = re_not word_ring (open_xor word_ring s)
       \<and> replicated (map3 (share_not ring48_ring) s')
       \<and> open_xor ring48_ring (map3 (share_not ring48_ring) s') = re_not ring48_ring (open_xor ring48_ring s')
       \<and> replicated (map3 (share_not bit_ring) u)
       \<and> open_xor bit_ring (map3 (share_not bit_ring) u) = re_not bit_ring (open_xor bit_ring u)"
  using assms word.bitwise_ops_open(3) ring48.bitwise_ops_open(3) [OF _ _ ring48.wf_zero]
    bit.bitwise_ops_open(3) [OF _ _ bit.wf_zero]
  by (simp add: word.local_and_opens ring48.local_and_opens bit.local_and_opens
      ops_replicated(5) [where t = s] ops_replicated(5) [where t = s'] ops_replicated(5) [where t = u])

theorem local_and_and_not_of_boolean_sharings_witness:
  "xor3 word_ring (zip3 (share_and word_ring) (sh (12::u8) 10 1) (sh 255 3 4)) =
     re_and word_ring (open_xor word_ring (sh 12 10 1)) (open_xor word_ring (sh 255 3 4)) \<and>
   open_xor ring48_ring (map3 (share_not ring48_ring) (sh (Ring48 1) (Ring48 2) (Ring48 3))) =
     re_not ring48_ring (open_xor ring48_ring (sh (Ring48 1) (Ring48 2) (Ring48 3)))"
  using local_and_and_not_of_boolean_sharings
    [of "sh (12::u8) 10 1" "sh 255 3 4" "sh (Ring48 1) (Ring48 2) (Ring48 3)"
        "sh (Ring48 1) (Ring48 2) (Ring48 3)" "sh (Bit 1) (Bit 0) (Bit 0)" "sh (Bit 1) (Bit 0) (Bit 0)"]
  by (simp add: sh_def share_new_def MASK_48_eq and_MASK_48 flip: take_bit_eq_mask)

text \<open>
  C40: the dealer and public constants. The three shares dealt for a value are consistent and
  open to that value whatever the dealer's randomness, and adding a public constant under the
  three roles adds it once to the shared value; a role above 2 is refused.
\<close>

theorem dealt_shares_open_and_constants_add_once:
  fixes x r1 r2 c :: "'w::len word"
  shows "replicated (create_single_sharing word_ring r1 r2 x)
       \<and> open_add word_ring (create_single_sharing word_ring r1 r2 x) = RingElement x
       \<and> (\<exists>t0 t1 t2.
            (case create_single_sharing word_ring r1 r2 x of (s0, s1, s2) \<Rightarrow>
               add_assign_const_role word_ring s0 c 0 = Some t0 \<and>
               add_assign_const_role word_ring s1 c 1 = Some t1 \<and>
               add_assign_const_role word_ring s2 c 2 = Some t2) \<and>
            replicated (t0, t1, t2) \<and>
            open_add word_ring (t0, t1, t2) = RingElement (x + c))
       \<and> add_assign_const_role word_ring s c (role + 3) = None"
proof -
  obtain s0 s1 s2 where s: "create_single_sharing word_ring r1 r2 x = (s0, s1, s2)"
    by (cases "create_single_sharing word_ring r1 r2 x") auto
  have d: "replicated (create_single_sharing word_ring r1 r2 x)"
    "open_add word_ring (create_single_sharing word_ring r1 r2 x) = RingElement x"
    using word.dealer_opens by simp_all
  obtain t0 t1 t2 where
    "add_assign_const_role word_ring s0 c 0 = Some t0" "add_assign_const_role word_ring s1 c 1 = Some t1"
    "add_assign_const_role word_ring s2 c 2 = Some t2" "replicated (t0, t1, t2)"
    "open_add word_ring (t0, t1, t2) =
       re_add word_ring (open_add word_ring (create_single_sharing word_ring r1 r2 x)) (RingElement c)"
    using word.const_role_opens [OF share3_wf_True d(1) TrueI s] by blast
  with d s show ?thesis
    by (auto simp: re_add_def add_assign_const_role_def)
qed

end
