(* ===== verification/Vec_Share.thy ===== *)
theory Vec_Share
  imports Share
begin

unbundle bit_operations_syntax

text \<open>
  Vectors of shares (\<open>ampc-secret-sharing/src/shares/vecshare.rs\<close>): \<open>VecShare\<close> and the
  borrowed \<open>SliceShare\<close> as lists of shares, their container operations, component-wise
  operators, and the two conversions between words and bits: \<open>convert_to_bits\<close> splits every
  share into its bits, \<open>pack\<close> packs bit shares into words. The operators zip their
  arguments, as the release build does (the equal lengths are a debug assertion).
\<close>

record 'a VecShare =
  shares :: "'a share list"

record 'a SliceShare =
  slice_shares :: "'a share list"

section \<open>Container operations\<close>

definition new_vec :: "'a share list \<Rightarrow> 'a VecShare" where
  "new_vec xs = \<lparr>shares = xs\<rparr>"

definition vs_with_capacity :: "nat \<Rightarrow> 'a VecShare" where
  "vs_with_capacity capacity = \<lparr>shares = []\<rparr>"

definition vs_inner :: "'a VecShare \<Rightarrow> 'a share list" where
  "vs_inner self = shares self"

definition vs_extend :: "'a VecShare \<Rightarrow> 'a VecShare \<Rightarrow> 'a VecShare" where
  "vs_extend self items = self\<lparr>shares := shares self @ shares items\<rparr>"

definition vs_extend_from_slice :: "'a VecShare \<Rightarrow> 'a SliceShare \<Rightarrow> 'a VecShare" where
  "vs_extend_from_slice self items = self\<lparr>shares := shares self @ slice_shares items\<rparr>"

definition vs_len :: "'a VecShare \<Rightarrow> nat" where
  "vs_len self = length (shares self)"

definition vs_is_empty :: "'a VecShare \<Rightarrow> bool" where
  "vs_is_empty self = (shares self = [])"

definition vs_push :: "'a VecShare \<Rightarrow> 'a share \<Rightarrow> 'a VecShare" where
  "vs_push self el = self\<lparr>shares := shares self @ [el]\<rparr>"

definition vs_pop :: "'a VecShare \<Rightarrow> 'a share option \<times> 'a VecShare" where
  "vs_pop self =
     (if shares self = [] then (None, self)
      else (Some (last (shares self)), self\<lparr>shares := butlast (shares self)\<rparr>))"

definition vs_sum :: "'a int_ring2k \<Rightarrow> 'a VecShare \<Rightarrow> 'a share" where
  "vs_sum R self = foldl (\<lambda>a b. share_add R a b) (share_zero R) (shares self)"

definition vs_not_inplace :: "'a int_ring2k \<Rightarrow> 'a VecShare \<Rightarrow> 'a VecShare" where
  "vs_not_inplace R self = self\<lparr>shares := map (share_not R) (shares self)\<rparr>"

text \<open>\<open>split_at\<close> panics when the middle is past the end, \<open>get_at\<close> on an index out of range.\<close>

definition vs_split_at :: "'a VecShare \<Rightarrow> nat \<Rightarrow> ('a SliceShare \<times> 'a SliceShare) option" where
  "vs_split_at self mid =
     (if mid \<le> length (shares self)
      then Some (\<lparr>slice_shares = take mid (shares self)\<rparr>, \<lparr>slice_shares = drop mid (shares self)\<rparr>)
      else None)"

definition vs_get_at :: "'a VecShare \<Rightarrow> nat \<Rightarrow> 'a share option" where
  "vs_get_at self idx = (if idx < length (shares self) then Some (shares self ! idx) else None)"

definition vs_truncate :: "'a VecShare \<Rightarrow> nat \<Rightarrow> 'a VecShare" where
  "vs_truncate self len = self\<lparr>shares := take len (shares self)\<rparr>"

definition vs_from_ab :: "'a RingElement list \<Rightarrow> 'a RingElement list \<Rightarrow> 'a VecShare" where
  "vs_from_ab a b = \<lparr>shares = map (\<lambda>(x, y). share_new x y) (zip a b)\<rparr>"

definition vs_flatten :: "'a VecShare list \<Rightarrow> 'a share list" where
  "vs_flatten inp = concat (map shares inp)"

definition vs_as_slice :: "'a VecShare \<Rightarrow> 'a SliceShare" where
  "vs_as_slice self = \<lparr>slice_shares = shares self\<rparr>"

definition slice_split_at :: "'a SliceShare \<Rightarrow> nat \<Rightarrow> ('a SliceShare \<times> 'a SliceShare) option" where
  "slice_split_at self mid =
     (if mid \<le> length (slice_shares self)
      then Some (\<lparr>slice_shares = take mid (slice_shares self)\<rparr>,
                 \<lparr>slice_shares = drop mid (slice_shares self)\<rparr>)
      else None)"

text \<open>A zero chunk size panics.\<close>

definition slice_chunks :: "'a SliceShare \<Rightarrow> nat \<Rightarrow> 'a SliceShare list option" where
  "slice_chunks self chunk_size =
     (if chunk_size = 0 then None
      else Some (map (\<lambda>x. \<lparr>slice_shares = x\<rparr>) (chunks chunk_size (slice_shares self))))"

section \<open>Component-wise operators\<close>

definition slice_not :: "'a int_ring2k \<Rightarrow> 'a SliceShare \<Rightarrow> 'a VecShare" where
  "slice_not R self = \<lparr>shares = map (share_not R) (slice_shares self)\<rparr>"

definition slice_xor :: "'a int_ring2k \<Rightarrow> 'a SliceShare \<Rightarrow> 'a SliceShare \<Rightarrow> 'a VecShare" where
  "slice_xor R self rhs =
     \<lparr>shares = map (\<lambda>(x1, x2). share_xor R x1 x2) (zip (slice_shares self) (slice_shares rhs))\<rparr>"

definition vs_xor :: "'a int_ring2k \<Rightarrow> 'a VecShare \<Rightarrow> 'a VecShare \<Rightarrow> 'a VecShare" where
  "vs_xor R self rhs =
     \<lparr>shares = map (\<lambda>(x1, x2). share_xor R x1 x2) (zip (shares self) (shares rhs))\<rparr>"

definition vs_xor_slice :: "'a int_ring2k \<Rightarrow> 'a VecShare \<Rightarrow> 'a SliceShare \<Rightarrow> 'a VecShare" where
  "vs_xor_slice R self rhs =
     \<lparr>shares = map (\<lambda>(x1, x2). share_xor R x1 x2) (zip (shares self) (slice_shares rhs))\<rparr>"

text \<open>The assigning operators update a prefix of \<open>self\<close> in place and keep its length.\<close>

fun zip_assign :: "('a \<Rightarrow> 'a \<Rightarrow> 'a) \<Rightarrow> 'a list \<Rightarrow> 'a list \<Rightarrow> 'a list" where
  "zip_assign f (x # xs) (y # ys) = f x y # zip_assign f xs ys"
| "zip_assign f xs _ = xs"

definition vs_add_assign_slice :: "'a int_ring2k \<Rightarrow> 'a VecShare \<Rightarrow> 'a SliceShare \<Rightarrow> 'a VecShare" where
  "vs_add_assign_slice R self rhs =
     self\<lparr>shares := zip_assign (share_add_assign R) (shares self) (slice_shares rhs)\<rparr>"

definition vs_sub_assign_slice :: "'a int_ring2k \<Rightarrow> 'a VecShare \<Rightarrow> 'a SliceShare \<Rightarrow> 'a VecShare" where
  "vs_sub_assign_slice R self rhs =
     self\<lparr>shares := zip_assign (share_sub_assign R) (shares self) (slice_shares rhs)\<rparr>"

definition vs_sub_assign :: "'a int_ring2k \<Rightarrow> 'a VecShare \<Rightarrow> 'a VecShare \<Rightarrow> 'a VecShare" where
  "vs_sub_assign R self rhs =
     self\<lparr>shares := zip_assign (share_sub_assign R) (shares self) (shares rhs)\<rparr>"

definition vs_xor_assign_slice :: "'a int_ring2k \<Rightarrow> 'a VecShare \<Rightarrow> 'a SliceShare \<Rightarrow> 'a VecShare" where
  "vs_xor_assign_slice R self rhs =
     self\<lparr>shares := zip_assign (share_xor_assign R) (shares self) (slice_shares rhs)\<rparr>"

definition vs_xor_assign :: "'a int_ring2k \<Rightarrow> 'a VecShare \<Rightarrow> 'a VecShare \<Rightarrow> 'a VecShare" where
  "vs_xor_assign R self rhs =
     self\<lparr>shares := zip_assign (share_xor_assign R) (shares self) (shares rhs)\<rparr>"

section \<open>Words to bits and back\<close>

text \<open>The loop over one share's bits: both iterators are drained in step.\<close>

definition share_bits :: "'a int_ring2k \<Rightarrow> 'a share \<Rightarrow> Bit share list option" where
  "share_bits R s =
     (let (a, b) = share_get_ab s
      in case bit_iter_collect R (bit_iter a) of
           None \<Rightarrow> None
         | Some as \<Rightarrow> (case bit_iter_collect R (bit_iter b) of
             None \<Rightarrow> None
           | Some bs \<Rightarrow> Some (map (\<lambda>(x, y). share_new (RingElement x) (RingElement y)) (zip as bs))))"

fun convert_to_bits_loop :: "'a int_ring2k \<Rightarrow> Bit VecShare \<Rightarrow> 'a share list \<Rightarrow> Bit VecShare option" where
  "convert_to_bits_loop R res [] = Some res"
| "convert_to_bits_loop R res (s # ss) =
     (case share_bits R s of
        None \<Rightarrow> None
      | Some bs \<Rightarrow> convert_to_bits_loop R (foldl vs_push res bs) ss)"

definition convert_to_bits :: "'a int_ring2k \<Rightarrow> 'a VecShare \<Rightarrow> Bit VecShare option" where
  "convert_to_bits R self =
     convert_to_bits_loop R (vs_with_capacity (ring_K R * length (shares self))) (shares self)"

definition vs_from_share :: "'a int_ring2k \<Rightarrow> 'a share \<Rightarrow> Bit VecShare option" where
  "vs_from_share R s =
     map_option (\<lambda>bs. foldl vs_push (vs_with_capacity (ring_K R)) bs) (share_bits R s)"

text \<open>
  Packing: every chunk of \<open>K\<close> bits becomes one share, bit \<open>i\<close> of the chunk or-ed in at
  position \<open>i\<close>.
\<close>

fun pack_chunk :: "'a int_ring2k \<Rightarrow> nat \<Rightarrow> 'a RingElement \<times> 'a RingElement \<Rightarrow> Bit share list
    \<Rightarrow> ('a RingElement \<times> 'a RingElement) option" where
  "pack_chunk R i (acc_a, acc_b) [] = Some (acc_a, acc_b)"
| "pack_chunk R i (acc_a, acc_b) (s # ss) =
     (let (bit_a, bit_b) = share_get_ab s
      in case shl R (from_bool R (bit_convert (convert bit_a))) i of
           None \<Rightarrow> None
         | Some x \<Rightarrow> (case shl R (from_bool R (bit_convert (convert bit_b))) i of
             None \<Rightarrow> None
           | Some y \<Rightarrow> pack_chunk R (i + 1) (re_or R acc_a (RingElement x), re_or R acc_b (RingElement y)) ss))"

fun pack_loop :: "'a int_ring2k \<Rightarrow> 'a VecShare \<Rightarrow> Bit share list list \<Rightarrow> 'a VecShare option" where
  "pack_loop R out [] = Some out"
| "pack_loop R out (c # cs) =
     (case pack_chunk R 0 (re_zero R, re_zero R) c of
        None \<Rightarrow> None
      | Some (x, y) \<Rightarrow> pack_loop R (vs_push out (share_new x y)) cs)"

definition vs_pack :: "'a int_ring2k \<Rightarrow> Bit VecShare \<Rightarrow> 'a VecShare option" where
  "vs_pack R self =
     (let outlen = (length (shares self) + ring_K R - 1) div ring_K R
      in pack_loop R (vs_with_capacity outlen) (chunks (ring_K R) (shares self)))"

section \<open>Facts about the loops\<close>

lemma foldl_vs_push: "foldl vs_push v xs = v\<lparr>shares := shares v @ xs\<rparr>"
  by (induction xs arbitrary: v) (simp_all add: vs_push_def)

lemma length_zip_assign [simp]: "length (zip_assign f xs ys) = length xs"
  by (induction f xs ys rule: zip_assign.induct) simp_all

lemma vs_push_pop: "vs_pop (vs_push v x) = (Some x, v)"
  by (simp add: vs_pop_def vs_push_def)

definition bit_share :: "bool \<Rightarrow> bool \<Rightarrow> Bit share" where
  "bit_share x y = share_new (RingElement (bit_new x)) (RingElement (bit_new y))"

context int_ring2k_laws
begin

definition share_wf :: "'a share \<Rightarrow> bool" where
  "share_wf s \<longleftrightarrow> wf (convert (share_a s)) \<and> wf (convert (share_b s))"

definition bits_of :: "'a share \<Rightarrow> Bit share list" where
  "bits_of s = map (\<lambda>i. bit_share (bit (val (convert (share_a s))) i) (bit (val (convert (share_b s))) i))
     [0..<ring_K R]"

lemma length_bits_of [simp]: "length (bits_of s) = ring_K R"
  by (simp add: bits_of_def)

lemma share_bits_eq: "share_wf s \<Longrightarrow> share_bits R s = Some (bits_of s)"
  by (simp add: share_bits_def share_get_ab_def share_wf_def bit_iter_bits bits_of_def bit_share_def
      zip_map_map map_map comp_def zip_same_conv_map)

lemma convert_to_bits_loop_eq:
  "\<forall>s \<in> set ss. share_wf s \<Longrightarrow>
   convert_to_bits_loop R res ss = Some (res\<lparr>shares := shares res @ concat (map bits_of ss)\<rparr>)"
  by (induction ss arbitrary: res) (simp_all add: share_bits_eq foldl_vs_push)

lemma convert_to_bits_eq:
  "\<forall>s \<in> set (shares v). share_wf s \<Longrightarrow>
   convert_to_bits R v = Some \<lparr>shares = concat (map bits_of (shares v))\<rparr>"
  by (simp add: convert_to_bits_def convert_to_bits_loop_eq vs_with_capacity_def)

text \<open>Setting bit \<open>i\<close> by or-ing a shifted boolean into an accumulator.\<close>

lemma or_shifted_bool:
  assumes "wf acc" "i < ring_K R"
  obtains x where "shl R (from_bool R c) i = Some x" "wf (bitor R acc x)"
    "\<And>n. bit (val (bitor R acc x)) n \<longleftrightarrow> bit (val acc) n \<or> (n = i \<and> c)"
proof -
  obtain x where x: "shl R (from_bool R c) i = Some x" "wf x"
    "val x = take_bit (ring_K R) (push_bit i (of_bool c))"
    using shl_ok [OF wf_from_bool assms(2)] by (auto simp: val_from_bool)
  show ?thesis
  proof (rule that [of x])
    show "bit (val (bitor R acc x)) n \<longleftrightarrow> bit (val acc) n \<or> (n = i \<and> c)" for n
      using assms x by (auto simp: val_or bit_or_iff bit_take_bit_iff bit_push_bit_iff bit_of_bool_iff)
  qed (use assms x in \<open>simp_all add: wf_or\<close>)
qed

lemma pack_chunk_eq:
  assumes "i + length cs \<le> ring_K R" "wf (convert x)" "wf (convert y)"
    "\<forall>n \<ge> i. \<not> bit (val (convert x)) n" "\<forall>n \<ge> i. \<not> bit (val (convert y)) n"
  shows "\<exists>x' y'. pack_chunk R i (x, y) (map (\<lambda>(p, q). bit_share p q) cs) = Some (x', y')
    \<and> wf (convert x') \<and> wf (convert y')
    \<and> (\<forall>n. bit (val (convert x')) n \<longleftrightarrow>
          (if n < i then bit (val (convert x)) n else n < i + length cs \<and> fst (cs ! (n - i))))
    \<and> (\<forall>n. bit (val (convert y')) n \<longleftrightarrow>
          (if n < i then bit (val (convert y)) n else n < i + length cs \<and> snd (cs ! (n - i))))"
  using assms
proof (induction cs arbitrary: i x y)
  case Nil
  then show ?case by (auto simp: not_less)
next
  case (Cons c cs)
  obtain p q where c: "c = (p, q)" by (cases c)
  have i: "i < ring_K R" using Cons.prems(1) by simp
  obtain u where u: "shl R (from_bool R p) i = Some u" "wf (bitor R (convert x) u)"
    "\<And>n. bit (val (bitor R (convert x) u)) n \<longleftrightarrow> bit (val (convert x)) n \<or> (n = i \<and> p)"
    using or_shifted_bool Cons.prems i by blast
  obtain w where w: "shl R (from_bool R q) i = Some w" "wf (bitor R (convert y) w)"
    "\<And>n. bit (val (bitor R (convert y) w)) n \<longleftrightarrow> bit (val (convert y)) n \<or> (n = i \<and> q)"
    using or_shifted_bool Cons.prems i by blast
  let ?x = "re_or R x (RingElement u)" and ?y = "re_or R y (RingElement w)"
  have step: "pack_chunk R i (x, y) (map (\<lambda>(p, q). bit_share p q) (c # cs)) =
      pack_chunk R (Suc i) (?x, ?y) (map (\<lambda>(p, q). bit_share p q) cs)"
    using u w c by (simp add: bit_share_def share_get_ab_def share_new_def)
  obtain x' y' where r: "pack_chunk R (Suc i) (?x, ?y) (map (\<lambda>(p, q). bit_share p q) cs) = Some (x', y')"
    "wf (convert x')" "wf (convert y')"
    "\<forall>n. bit (val (convert x')) n \<longleftrightarrow>
       (if n < Suc i then bit (val (convert ?x)) n else n < Suc i + length cs \<and> fst (cs ! (n - Suc i)))"
    "\<forall>n. bit (val (convert y')) n \<longleftrightarrow>
       (if n < Suc i then bit (val (convert ?y)) n else n < Suc i + length cs \<and> snd (cs ! (n - Suc i)))"
    using Cons.IH [of "Suc i" ?x ?y] Cons.prems u w by (fastforce simp: re_or_def)
  have nth: "(c # cs) ! (n - i) = (if n = i then c else cs ! (n - Suc i))" if "i \<le> n" for n
    using that by (auto simp: nth_Cons')
  show ?case
    unfolding step using r c u(3) w(3) nth Cons.prems(4,5)
    by (auto simp: re_or_def less_Suc_eq_le not_less le_less)
qed

lemma pack_chunk_exact:
  assumes "length cs \<le> ring_K R"
  obtains x y where "pack_chunk R 0 (re_zero R, re_zero R) (map (\<lambda>(p, q). bit_share p q) cs) = Some (x, y)"
    "wf (convert x)" "wf (convert y)"
    "\<And>n. bit (val (convert x)) n \<longleftrightarrow> n < length cs \<and> fst (cs ! n)"
    "\<And>n. bit (val (convert y)) n \<longleftrightarrow> n < length cs \<and> snd (cs ! n)"
  using pack_chunk_eq [of 0 cs "re_zero R" "re_zero R"] assms
  by (auto simp: re_zero_def wf_zero val_zero)

lemma pack_bits_of:
  assumes "share_wf s"
  shows "pack_chunk R 0 (re_zero R, re_zero R) (bits_of s) = Some (share_a s, share_b s)"
proof -
  let ?cs = "map (\<lambda>i. (bit (val (convert (share_a s))) i, bit (val (convert (share_b s))) i)) [0..<ring_K R]"
  have eq: "bits_of s = map (\<lambda>(p, q). bit_share p q) ?cs" by (simp add: bits_of_def)
  have len: "length ?cs \<le> ring_K R" by simp
  obtain x y where xy: "pack_chunk R 0 (re_zero R, re_zero R) (map (\<lambda>(p, q). bit_share p q) ?cs) = Some (x, y)"
    "wf (convert x)" "wf (convert y)"
    "\<And>n. bit (val (convert x)) n \<longleftrightarrow> n < length ?cs \<and> fst (?cs ! n)"
    "\<And>n. bit (val (convert y)) n \<longleftrightarrow> n < length ?cs \<and> snd (?cs ! n)"
    using pack_chunk_exact [OF len] by blast
  have "convert x = convert (share_a s)"
    by (rule bits_eqI) (use xy(2,4) assms in \<open>simp_all add: share_wf_def\<close>)
  moreover have "convert y = convert (share_b s)"
    by (rule bits_eqI) (use xy(3,5) assms in \<open>simp_all add: share_wf_def\<close>)
  ultimately have "x = share_a s" "y = share_b s" by (simp_all add: RingElement.expand)
  then show ?thesis using xy(1) unfolding eq by simp
qed

lemma pack_loop_bits_of:
  "\<forall>s \<in> set ss. share_wf s \<Longrightarrow>
   pack_loop R out (map bits_of ss) = Some (out\<lparr>shares := shares out @ ss\<rparr>)"
  by (induction ss arbitrary: out) (simp_all add: pack_bits_of vs_push_def share_new_def)

text \<open>Splitting into bits and packing again gives the shares back.\<close>

lemma pack_convert_to_bits:
  assumes "\<forall>s \<in> set (shares v). share_wf s"
  shows "\<exists>bs. convert_to_bits R v = Some bs \<and> vs_len bs = ring_K R * vs_len v \<and> vs_pack R bs = Some v"
proof -
  have "chunks (ring_K R) (concat (map bits_of (shares v))) = map bits_of (shares v)"
    by (rule chunks_concat) (auto simp: K_pos)
  then have "vs_pack R \<lparr>shares = concat (map bits_of (shares v))\<rparr> = Some v"
    using assms by (simp add: vs_pack_def pack_loop_bits_of vs_with_capacity_def)
  moreover have "length (concat (map bits_of ss)) = ring_K R * length ss" for ss
    by (induction ss) simp_all
  ultimately show ?thesis using assms by (simp add: convert_to_bits_eq vs_len_def)
qed

text \<open>Packing a chunk and splitting it again pads the chunk with zero bits.\<close>

lemma bits_of_packed:
  assumes "length cs \<le> ring_K R"
  obtains s where
    "pack_chunk R 0 (re_zero R, re_zero R) (map (\<lambda>(p, q). bit_share p q) cs) = Some (share_a s, share_b s)"
    "share_wf s"
    "bits_of s = map (\<lambda>(p, q). bit_share p q) cs @ replicate (ring_K R - length cs) (bit_share False False)"
proof -
  obtain x y where xy: "pack_chunk R 0 (re_zero R, re_zero R) (map (\<lambda>(p, q). bit_share p q) cs) = Some (x, y)"
    "wf (convert x)" "wf (convert y)"
    "\<And>n. bit (val (convert x)) n \<longleftrightarrow> n < length cs \<and> fst (cs ! n)"
    "\<And>n. bit (val (convert y)) n \<longleftrightarrow> n < length cs \<and> snd (cs ! n)"
    using pack_chunk_exact assms by blast
  have "bits_of (share_new x y) =
      map (\<lambda>(p, q). bit_share p q) cs @ replicate (ring_K R - length cs) (bit_share False False)"
  proof (rule nth_equalityI)
    fix i assume "i < length (bits_of (share_new x y))"
    then show "bits_of (share_new x y) ! i =
        (map (\<lambda>(p, q). bit_share p q) cs @ replicate (ring_K R - length cs) (bit_share False False)) ! i"
      by (auto simp: bits_of_def nth_append xy(4,5) share_new_def split: prod.split)
  qed (use assms in simp)
  then show ?thesis using xy by (intro that [of "share_new x y"]) (simp_all add: share_wf_def share_new_def)
qed

lemma pack_loop_chunks:
  assumes "\<forall>c \<in> set css. length c \<le> ring_K R"
  shows "\<exists>ss. pack_loop R out (map (map (\<lambda>(p, q). bit_share p q)) css) = Some (out\<lparr>shares := shares out @ ss\<rparr>)
    \<and> length ss = length css \<and> (\<forall>s \<in> set ss. share_wf s)
    \<and> map bits_of ss =
        map (\<lambda>c. map (\<lambda>(p, q). bit_share p q) c @ replicate (ring_K R - length c) (bit_share False False)) css"
  using assms
proof (induction css arbitrary: out)
  case Nil
  then show ?case by (auto intro!: exI [of _ "[]"])
next
  case (Cons c css)
  obtain s where s: "pack_chunk R 0 (re_zero R, re_zero R) (map (\<lambda>(p, q). bit_share p q) c) = Some (share_a s, share_b s)"
    "share_wf s"
    "bits_of s = map (\<lambda>(p, q). bit_share p q) c @ replicate (ring_K R - length c) (bit_share False False)"
    using bits_of_packed Cons.prems by (metis list.set_intros(1))
  have "share_new (share_a s) (share_b s) = s" by (simp add: share_new_def)
  moreover obtain ss where
    "pack_loop R (vs_push out s) (map (map (\<lambda>(p, q). bit_share p q)) css) =
       Some (vs_push out s\<lparr>shares := shares (vs_push out s) @ ss\<rparr>)"
    "length ss = length css" "\<forall>s \<in> set ss. share_wf s"
    "map bits_of ss =
       map (\<lambda>c. map (\<lambda>(p, q). bit_share p q) c @ replicate (ring_K R - length c) (bit_share False False)) css"
    using Cons.IH [of "vs_push out s"] Cons.prems by auto
  ultimately show ?case
    using s by (intro exI [of _ "s # ss"]) (simp add: vs_push_def)
qed

text \<open>Packing any vector of bits and splitting it again pads it to a multiple of \<open>K\<close>.\<close>

lemma convert_to_bits_pack:
  obtains w where "vs_pack R \<lparr>shares = map (\<lambda>(p, q). bit_share p q) bs\<rparr> = Some w"
    "vs_len w = div_ceil (length bs) (ring_K R)"
    "convert_to_bits R w = Some \<lparr>shares = map (\<lambda>(p, q). bit_share p q) bs @
       replicate (div_ceil (length bs) (ring_K R) * ring_K R - length bs) (bit_share False False)\<rparr>"
proof -
  let ?K = "ring_K R" and ?f = "\<lambda>(p, q). bit_share p q"
  obtain ss where ss: "pack_loop R (vs_with_capacity n) (map (map ?f) (chunks ?K bs)) = Some \<lparr>shares = ss\<rparr>"
    "length ss = length (chunks ?K bs)" "\<forall>s \<in> set ss. share_wf s"
    "map bits_of ss = map (\<lambda>c. map ?f c @ replicate (?K - length c) (bit_share False False)) (chunks ?K bs)"
    for n
    using pack_loop_chunks [of "chunks ?K bs" "vs_with_capacity 0"] length_in_chunks [of _ ?K bs]
    by (auto simp: vs_with_capacity_def)
  have pad: "concat (map (\<lambda>c. map ?f c @ replicate (?K - length c) z) (chunks ?K bs)) =
      map ?f bs @ replicate (div_ceil (length bs) ?K * ?K - length bs) z" for z
  proof (induction ?K bs rule: chunks.induct)
    case (1 bs)
    consider "bs = []" | "bs \<noteq> []" "length bs < ?K" | "?K \<le> length bs" "bs \<noteq> []" by linarith
    then show ?case
    proof cases
      case 2
      then show ?thesis by (subst chunks.simps) (simp add: K_pos div_ceil_small)
    next
      case 3
      then have "div_ceil (length bs) ?K = Suc (div_ceil (length (drop ?K bs)) ?K)"
        by (simp add: div_ceil_add_self K_pos)
      then show ?thesis using 1 3 K_pos
        by (subst chunks.simps) (simp add: algebra_simps flip: map_append)
    qed simp
  qed
  show ?thesis
  proof (rule that [of "\<lparr>shares = ss\<rparr>"])
    show "vs_pack R \<lparr>shares = map ?f bs\<rparr> = Some \<lparr>shares = ss\<rparr>"
      using ss(1) by (simp add: vs_pack_def chunks_map)
  qed (use ss pad K_pos in \<open>simp_all add: vs_len_def length_chunks convert_to_bits_eq\<close>)
qed

end

lemma bit_share_convert:
  assumes "wf_bit (convert (share_a s))" "wf_bit (convert (share_b s))"
  shows "bit_share (bit_convert (convert (share_a s))) (bit_convert (convert (share_b s))) = s"
  using assms by (cases s) (simp add: bit_share_def share_new_def)

section \<open>Properties\<close>

text \<open>
  Bit decomposition and packing. Splitting a vector of word shares into bit shares
  succeeds, gives \<open>K\<close> bits per share, and packing the bits gives back exactly the original
  vector; for the primitive integers of every width and, on masked values, for Ring48.
\<close>

theorem pack_inverts_convert_to_bits:
  fixes v :: "'w::len word VecShare" and v' :: "Ring48 VecShare"
  assumes "\<forall>s \<in> set (shares v'). wf48 (convert (share_a s)) \<and> wf48 (convert (share_b s))"
  shows "(\<exists>bs. convert_to_bits word_ring v = Some bs \<and> vs_len bs = LENGTH('w) * vs_len v
            \<and> vs_pack word_ring bs = Some v)
       \<and> (\<exists>bs. convert_to_bits ring48_ring v' = Some bs \<and> vs_len bs = 48 * vs_len v'
            \<and> vs_pack ring48_ring bs = Some v')"
  using word.pack_convert_to_bits [of v] ring48.pack_convert_to_bits [of v'] assms
  by (simp add: word.share_wf_def ring48.share_wf_def)

theorem pack_inverts_convert_to_bits_witness:
  "(\<exists>bs. convert_to_bits word_ring \<lparr>shares = [share_new (RingElement (200::u8)) (RingElement 7)]\<rparr> = Some bs
      \<and> vs_len bs = 8
      \<and> vs_pack word_ring bs = Some \<lparr>shares = [share_new (RingElement (200::u8)) (RingElement 7)]\<rparr>)
   \<and> (\<exists>bs. convert_to_bits ring48_ring \<lparr>shares = [share_new (RingElement (Ring48 5)) (RingElement (Ring48 1))]\<rparr> = Some bs
      \<and> vs_len bs = 48
      \<and> vs_pack ring48_ring bs = Some \<lparr>shares = [share_new (RingElement (Ring48 5)) (RingElement (Ring48 1))]\<rparr>)"
  using pack_inverts_convert_to_bits
    [of "\<lparr>shares = [share_new (RingElement (Ring48 5)) (RingElement (Ring48 1))]\<rparr>"
        "\<lparr>shares = [share_new (RingElement (200::u8)) (RingElement 7)]\<rparr>"]
  by (simp add: share_new_def vs_len_def and_MASK_48)

text \<open>
  Packing any vector of bit shares succeeds with \<open>ceil(len / K)\<close> words, and splitting
  the result gives the bits in their order followed by shares of zero up to a whole word.
\<close>

theorem packed_bits_come_back_padded:
  fixes v :: "Bit VecShare"
  assumes "\<forall>s \<in> set (shares v). wf_bit (convert (share_a s)) \<and> wf_bit (convert (share_b s))"
  shows "\<exists>w. vs_pack (word_ring :: 'w::len word int_ring2k) v = Some w
       \<and> vs_len w = div_ceil (vs_len v) LENGTH('w)
       \<and> convert_to_bits word_ring w = Some \<lparr>shares = shares v @
            replicate (div_ceil (vs_len v) LENGTH('w) * LENGTH('w) - vs_len v) (share_zero bit_ring)\<rparr>"
proof -
  let ?bs = "map (\<lambda>s. (bit_convert (convert (share_a s)), bit_convert (convert (share_b s)))) (shares v)"
  have "map (\<lambda>(p, q). bit_share p q) ?bs = map (\<lambda>s. s) (shares v)"
    unfolding map_map by (rule map_cong) (use assms bit_share_convert in auto)
  then have v: "map (\<lambda>(p, q). bit_share p q) ?bs = shares v" by simp
  have z: "share_zero bit_ring = bit_share False False"
    by (simp add: share_zero_def bit_share_def share_new_def re_zero_def bit_zero_def bit_new_def)
  obtain w where
    "vs_pack (word_ring :: 'w word int_ring2k) \<lparr>shares = shares v\<rparr> = Some w"
    "vs_len w = div_ceil (length ?bs) LENGTH('w)"
    "convert_to_bits word_ring w = Some \<lparr>shares = shares v @
       replicate (div_ceil (length ?bs) LENGTH('w) * LENGTH('w) - length ?bs) (bit_share False False)\<rparr>"
    using word.convert_to_bits_pack [of ?bs, where 'a = 'w] unfolding v word_ring_sel(1) by blast
  moreover have "\<lparr>shares = shares v\<rparr> = v" by simp
  ultimately show ?thesis by (auto simp add: z vs_len_def)
qed

theorem packed_bits_come_back_padded_witness:
  "\<exists>w. vs_pack (word_ring :: 8 word int_ring2k) \<lparr>shares = [bit_share True False, bit_share False True]\<rparr> = Some w
     \<and> vs_len w = 1
     \<and> convert_to_bits word_ring w =
         Some \<lparr>shares = [bit_share True False, bit_share False True] @ replicate 6 (share_zero bit_ring)\<rparr>"
  using packed_bits_come_back_padded
    [of "\<lparr>shares = [bit_share True False, bit_share False True]\<rparr>", where 'w = 8]
  by (simp add: bit_share_def share_new_def bit_new_def vs_len_def div_ceil_def)

end
