(* ===== verification/Bit_Transpose.thy ===== *)
theory Bit_Transpose
  imports Vec_Share
begin

unbundle bit_operations_syntax

text \<open>
  Bit transposition of share vectors
  (\<open>ampc-secret-sharing/src/shares/vecshare_bittranspose.rs\<close>): shares of \<open>n\<close>-bit words are
  regrouped so that output \<open>b\<close> packs bit \<open>b\<close> of 64 or 128 consecutive inputs. The kernel is
  the recursive block swap with masks; its two nested \<open>while\<close> loops are the partial
  functions \<open>transpose_stage\<close> and \<open>transpose_stages\<close>, where \<open>None\<close> is an index out of range
  or a loop that does not end. Proved: the loops end without a panic, each stage exchanges
  one bit of the row and column numbers, and every \<open>transpose_pack\<close> is the transposition.
\<close>

section \<open>The kernel\<close>

text \<open>\<open>(k + j + 1) & !j\<close> on \<open>usize\<close>.\<close>

definition next_k :: "nat \<Rightarrow> nat \<Rightarrow> nat" where
  "next_k k j = nat (int (k + j + 1) AND NOT (int j))"

definition swap_rows :: "u32 \<Rightarrow> 'w::len word \<Rightarrow> nat \<Rightarrow> 'w word share list \<Rightarrow> 'w word share list" where
  "swap_rows j m k res =
     (let t = share_and_val word_ring
                (share_xor word_ring (share_shr word_ring (res ! k) j) (res ! (k + unat j))) m;
          res = res[k + unat j := share_xor_assign word_ring (res ! (k + unat j)) t];
          res = res[k := share_xor_assign word_ring (res ! k) (share_shl word_ring t j)]
      in res)"

partial_function (option) transpose_stage ::
  "nat \<Rightarrow> u32 \<Rightarrow> 'w::len word \<Rightarrow> nat \<Rightarrow> 'w word share list \<Rightarrow> 'w word share list option" where
  "transpose_stage n j m k res =
     (if k < n
      then if k + unat j < length res
           then transpose_stage n j m (next_k k (unat j)) (swap_rows j m k res) else None
      else Some res)"

partial_function (option) transpose_stages ::
  "nat \<Rightarrow> u32 \<Rightarrow> 'w::len word \<Rightarrow> 'w word share list \<Rightarrow> 'w word share list option" where
  "transpose_stages n j m res =
     (if j \<noteq> 0
      then case transpose_stage n j m 0 res of
             None \<Rightarrow> None
           | Some res' \<Rightarrow> transpose_stages n (drop_bit 1 j) (m XOR push_bit (unat (drop_bit 1 j)) m) res'
      else Some res)"

section \<open>The packed kernels\<close>

definition share64_from_share16s :: "u16 share \<Rightarrow> u16 share \<Rightarrow> u16 share \<Rightarrow> u16 share \<Rightarrow> u64 share" where
  "share64_from_share16s a b c d =
     (let a' = ucast (convert (share_a a)) OR push_bit 16 (ucast (convert (share_a b)))
             OR push_bit 32 (ucast (convert (share_a c))) OR push_bit 48 (ucast (convert (share_a d)));
          b' = ucast (convert (share_b a)) OR push_bit 16 (ucast (convert (share_b b)))
             OR push_bit 32 (ucast (convert (share_b c))) OR push_bit 48 (ucast (convert (share_b d)))
      in \<lparr>share_a = RingElement a', share_b = RingElement b'\<rparr>)"

definition share128_from_share16s ::
  "u16 share \<Rightarrow> u16 share \<Rightarrow> u16 share \<Rightarrow> u16 share \<Rightarrow> u16 share \<Rightarrow> u16 share \<Rightarrow> u16 share \<Rightarrow> u16 share \<Rightarrow> u128 share" where
  "share128_from_share16s a b c d e f g h =
     (let a' = ucast (convert (share_a a)) OR push_bit 16 (ucast (convert (share_a b)))
             OR push_bit 32 (ucast (convert (share_a c))) OR push_bit 48 (ucast (convert (share_a d)))
             OR push_bit 64 (ucast (convert (share_a e))) OR push_bit 80 (ucast (convert (share_a f)))
             OR push_bit 96 (ucast (convert (share_a g))) OR push_bit 112 (ucast (convert (share_a h)));
          b' = ucast (convert (share_b a)) OR push_bit 16 (ucast (convert (share_b b)))
             OR push_bit 32 (ucast (convert (share_b c))) OR push_bit 48 (ucast (convert (share_b d)))
             OR push_bit 64 (ucast (convert (share_b e))) OR push_bit 80 (ucast (convert (share_b f)))
             OR push_bit 96 (ucast (convert (share_b g))) OR push_bit 112 (ucast (convert (share_b h)))
      in \<lparr>share_a = RingElement a', share_b = RingElement b'\<rparr>)"

definition share64_from_share32s :: "u32 share \<Rightarrow> u32 share \<Rightarrow> u64 share" where
  "share64_from_share32s a b =
     (let a' = ucast (convert (share_a a)) OR push_bit 32 (ucast (convert (share_a b)));
          b' = ucast (convert (share_b a)) OR push_bit 32 (ucast (convert (share_b b)))
      in \<lparr>share_a = RingElement a', share_b = RingElement b'\<rparr>)"

definition share128_from_share32s :: "u32 share \<Rightarrow> u32 share \<Rightarrow> u32 share \<Rightarrow> u32 share \<Rightarrow> u128 share" where
  "share128_from_share32s a b c d =
     (let a' = ucast (convert (share_a a)) OR push_bit 32 (ucast (convert (share_a b)))
             OR push_bit 64 (ucast (convert (share_a c))) OR push_bit 96 (ucast (convert (share_a d)));
          b' = ucast (convert (share_b a)) OR push_bit 32 (ucast (convert (share_b b)))
             OR push_bit 64 (ucast (convert (share_b c))) OR push_bit 96 (ucast (convert (share_b d)))
      in \<lparr>share_a = RingElement a', share_b = RingElement b'\<rparr>)"

definition share128_from_share64s :: "u64 share \<Rightarrow> u64 share \<Rightarrow> u128 share" where
  "share128_from_share64s a b =
     (let a' = ucast (convert (share_a a)) OR push_bit 64 (ucast (convert (share_a b)));
          b' = ucast (convert (share_b a)) OR push_bit 64 (ucast (convert (share_b b)))
      in \<lparr>share_a = RingElement a', share_b = RingElement b'\<rparr>)"

definition share_transpose16x128 :: "u16 share list \<Rightarrow> u128 share list option" where
  "share_transpose16x128 a =
     transpose_stages 16 8 0x00ff00ff00ff00ff00ff00ff00ff00ff
       (map (\<lambda>i. share128_from_share16s (a ! i) (a ! (i + 16)) (a ! (i + 32)) (a ! (i + 48))
                   (a ! (i + 64)) (a ! (i + 80)) (a ! (i + 96)) (a ! (i + 112))) [0..<16])"

definition share_transpose16x64 :: "u16 share list \<Rightarrow> u64 share list option" where
  "share_transpose16x64 a =
     transpose_stages 16 8 0x00ff00ff00ff00ff
       (map (\<lambda>i. share64_from_share16s (a ! i) (a ! (16 + i)) (a ! (32 + i)) (a ! (48 + i))) [0..<16])"

definition share_transpose32x128 :: "u32 share list \<Rightarrow> u128 share list option" where
  "share_transpose32x128 a =
     transpose_stages 32 16 0x0000ffff0000ffff0000ffff0000ffff
       (map (\<lambda>i. share128_from_share32s (a ! i) (a ! (32 + i)) (a ! (64 + i)) (a ! (96 + i))) [0..<32])"

definition share_transpose32x64 :: "u32 share list \<Rightarrow> u64 share list option" where
  "share_transpose32x64 a =
     transpose_stages 32 16 0x0000ffff0000ffff
       (map (\<lambda>i. share64_from_share32s (a ! i) (a ! (32 + i))) [0..<32])"

definition share_transpose64x128 :: "u64 share list \<Rightarrow> u128 share list option" where
  "share_transpose64x128 a =
     transpose_stages 64 32 0x00000000ffffffff00000000ffffffff
       (map (\<lambda>i. share128_from_share64s (a ! i) (a ! (i + 64))) [0..<64])"

definition share_transpose64x64 :: "u64 share list \<Rightarrow> u64 share list option" where
  "share_transpose64x64 a = transpose_stages 64 32 0x00000000ffffffff a"

section \<open>Transposing vectors\<close>

text \<open>The body of the loop over chunks: slice \<open>b\<close> gets row \<open>b\<close> of the transposed chunk at \<open>j\<close>.\<close>

fun store_slices :: "nat \<Rightarrow> 'a share list \<Rightarrow> 'a VecShare list \<Rightarrow> 'a VecShare list" where
  "store_slices j (src # ss) (des # ds) = des\<lparr>shares := (shares des)[j := src]\<rparr> # store_slices j ss ds"
| "store_slices j _ ds = ds"

fun transpose_chunks :: "('a share list \<Rightarrow> 'b share list option) \<Rightarrow> nat \<Rightarrow> 'a share list list
    \<Rightarrow> 'b VecShare list \<Rightarrow> 'b VecShare list option" where
  "transpose_chunks tr j [] res = Some res"
| "transpose_chunks tr j (x # xs) res =
     (case tr x of
        None \<Rightarrow> None
      | Some rows \<Rightarrow> transpose_chunks tr (j + 1) xs (store_slices j rows res))"

definition resize :: "nat \<Rightarrow> 'a \<Rightarrow> 'a list \<Rightarrow> 'a list" where
  "resize n x xs = take n xs @ replicate (n - length xs) x"

definition transpose_pack :: "('a share list \<Rightarrow> 'b share list option) \<Rightarrow> nat \<Rightarrow> nat \<Rightarrow> 'a share \<Rightarrow> 'b share
    \<Rightarrow> 'a VecShare \<Rightarrow> 'b VecShare list option" where
  "transpose_pack tr nbits width d d' self =
     (let len = div_ceil (length (shares self)) width;
          padded = resize (len * width) d (shares self);
          res = replicate nbits (new_vec (replicate len d'))
      in transpose_chunks tr 0 (chunks_exact width padded) res)"

definition u16_transpose_pack_u64 :: "u16 VecShare \<Rightarrow> u64 VecShare list option" where
  "u16_transpose_pack_u64 =
     transpose_pack share_transpose16x64 16 64 (share_zero word_ring) (share_zero word_ring)"

definition u16_transpose_pack_u128 :: "u16 VecShare \<Rightarrow> u128 VecShare list option" where
  "u16_transpose_pack_u128 =
     transpose_pack share_transpose16x128 16 128 (share_zero word_ring) (share_zero word_ring)"

definition u32_transpose_pack_u64 :: "u32 VecShare \<Rightarrow> u64 VecShare list option" where
  "u32_transpose_pack_u64 =
     transpose_pack share_transpose32x64 32 64 (share_zero word_ring) (share_zero word_ring)"

definition u32_transpose_pack_u128 :: "u32 VecShare \<Rightarrow> u128 VecShare list option" where
  "u32_transpose_pack_u128 =
     transpose_pack share_transpose32x128 32 128 (share_zero word_ring) (share_zero word_ring)"

definition u64_transpose_pack_u64 :: "u64 VecShare \<Rightarrow> u64 VecShare list option" where
  "u64_transpose_pack_u64 =
     transpose_pack share_transpose64x64 64 64 (share_zero word_ring) (share_zero word_ring)"

definition u64_transpose_pack_u128 :: "u64 VecShare \<Rightarrow> u128 VecShare list option" where
  "u64_transpose_pack_u128 =
     transpose_pack share_transpose64x128 64 128 (share_zero word_ring) (share_zero word_ring)"

text \<open>The 48-bit ring goes through the 64-bit kernel and keeps the first 48 rows.\<close>

definition ring48_chunk_to_u64 :: "Ring48 share list \<Rightarrow> u64 share list" where
  "ring48_chunk_to_u64 chunk =
     map (\<lambda>s. share_new (RingElement (case convert (share_a s) of Ring48 x \<Rightarrow> x))
                (RingElement (case convert (share_b s) of Ring48 x \<Rightarrow> x))) chunk"

definition ring48_transpose_pack_u64 :: "Ring48 VecShare \<Rightarrow> u64 VecShare list option" where
  "ring48_transpose_pack_u64 =
     transpose_pack (\<lambda>chunk. map_option (take 48) (share_transpose64x64 (ring48_chunk_to_u64 chunk)))
       48 64 (share_zero ring48_ring) (share_zero word_ring)"

section \<open>The inner loop\<close>

text \<open>Clearing bit \<open>p\<close>, and the row numbers an inner loop visits.\<close>

definition base :: "nat \<Rightarrow> nat \<Rightarrow> nat" where
  "base p i = (if bit i p then i - 2 ^ p else i)"

lemma bit_split:
  "bit i p \<longleftrightarrow> (\<exists>q r. i = 2 * 2 ^ p * q + 2 ^ p + r \<and> r < 2 ^ p)" (is "_ \<longleftrightarrow> ?A")
  "\<not> bit i p \<longleftrightarrow> (\<exists>q r. i = 2 * 2 ^ p * q + r \<and> r < 2 ^ p)" (is "_ \<longleftrightarrow> ?B")
  for i :: nat
proof -
  have i: "i = 2 ^ p * (i div 2 ^ p) + i mod 2 ^ p" "i mod 2 ^ p < 2 ^ p" by simp_all
  have 1: "?A" if b: "bit i p"
  proof -
    obtain q where "i div 2 ^ p = 2 * q + 1" using b unfolding bit_iff_odd by (elim oddE)
    with i(1) have "i = 2 * 2 ^ p * q + 2 ^ p + i mod 2 ^ p" by (metis (no_types) add_mult_distrib2 mult.assoc mult.commute mult.right_neutral)
    with i(2) show ?thesis by blast
  qed
  have 2: "?B" if b: "\<not> bit i p"
  proof -
    obtain q where "i div 2 ^ p = 2 * q" using b unfolding bit_iff_odd not_not by (elim evenE)
    with i(1) have "i = 2 * 2 ^ p * q + i mod 2 ^ p" by (metis (no_types) mult.assoc mult.commute)
    with i(2) show ?thesis by blast
  qed
  have 3: "bit i p" if "?A"
  proof -
    from that obtain q r where q: "i = 2 * 2 ^ p * q + 2 ^ p + r" "r < 2 ^ p" by blast
    then have "i = r + 2 ^ p * (2 * q + 1)" by (simp add: algebra_simps)
    then have "i div 2 ^ p = 2 * q + 1" using q(2) by (simp only: div_mult_self2) simp
    then show ?thesis by (simp add: bit_iff_odd)
  qed
  have 4: "\<not> bit i p" if "?B"
  proof -
    from that obtain q r where q: "i = 2 * 2 ^ p * q + r" "r < 2 ^ p" by blast
    then have "i = r + 2 ^ p * (2 * q)" by (simp add: algebra_simps)
    then have "i div 2 ^ p = 2 * q" using q(2) by (simp add: div_mult_self2)
    then show ?thesis by (simp add: bit_iff_odd)
  qed
  from 1 2 3 4 show "bit i p \<longleftrightarrow> ?A" "\<not> bit i p \<longleftrightarrow> ?B" by blast+
qed

lemma and_not_power:
  "nat (int x AND NOT (2 ^ p)) = base p x"
proof -
  have e: "int x AND NOT (2 ^ p) = int x - of_bool (bit x p) * 2 ^ p"
    using unset_bit_eq_and_not [of p "int x"] unset_bit_eq [of p "int x"]
    by (simp add: push_bit_eq_mult bit_of_nat_iff)
  show ?thesis
  proof (cases "bit x p")
    case True
    then have "2 ^ p \<le> x" by (auto simp: bit_split(1))
    then show ?thesis unfolding e using True by (simp add: base_def nat_diff_distrib nat_power_eq)
  next
    case False
    then show ?thesis unfolding e by (simp add: base_def)
  qed
qed

lemma base_next:
  assumes "\<not> bit k p"
  shows "\<not> bit (base p (k + 2 ^ p + 1)) p" "k < base p (k + 2 ^ p + 1)"
    and "\<not> bit b p \<Longrightarrow> k < b \<longleftrightarrow> base p (k + 2 ^ p + 1) \<le> b"
proof -
  obtain q r where k: "k = 2 * 2 ^ p * q + r" "r < 2 ^ p" using assms by (auto simp: bit_split(2))
  have bs: "base p (k + 2 ^ p + 1) = (if r + 1 < 2 ^ p then k + 1 else 2 * 2 ^ p * (q + 1))"
  proof (cases "r + 1 < 2 ^ p")
    case True
    then have "bit (k + 2 ^ p + 1) p"
      unfolding bit_split(1) by (intro exI [of _ q] exI [of _ "r + 1"]) (simp add: k)
    with True show ?thesis by (simp add: base_def)
  next
    case False
    with k have e: "k + 2 ^ p + 1 = 2 * 2 ^ p * (q + 1)" by simp
    have "\<not> bit (2 * 2 ^ p * (q + 1)) p"
      unfolding bit_split(2) by (intro exI [of _ "q + 1"] exI [of _ 0]) simp
    with False show ?thesis by (simp only: e base_def) simp
  qed
  have "\<exists>q' r'. base p (k + 2 ^ p + 1) = 2 * 2 ^ p * q' + r' \<and> r' < 2 ^ p"
  proof (cases "r + 1 < 2 ^ p")
    case True
    then show ?thesis unfolding bs by (intro exI [of _ q] exI [of _ "r + 1"]) (simp add: k)
  next
    case False
    then show ?thesis unfolding bs by (intro exI [of _ "q + 1"] exI [of _ 0]) simp
  qed
  then show "\<not> bit (base p (k + 2 ^ p + 1)) p" by (simp only: bit_split(2))
  show less: "k < base p (k + 2 ^ p + 1)" unfolding bs using k by (auto simp: algebra_simps)
  show "k < b \<longleftrightarrow> base p (k + 2 ^ p + 1) \<le> b" if nb: "\<not> bit b p"
  proof (cases "r + 1 < 2 ^ p")
    case True
    then show ?thesis unfolding bs by auto
  next
    case False
    obtain q' r' where b: "b = 2 * 2 ^ p * q' + r'" "r' < 2 ^ p" using nb by (auto simp: bit_split(2))
    show ?thesis
    proof (cases "q' \<le> q")
      case True
      then have "2 * 2 ^ p * q' \<le> 2 * 2 ^ p * q" by (rule mult_le_mono2)
      with k b False have "b \<le> k" by linarith
      with less show ?thesis by simp
    next
      case q: False
      then have "2 * 2 ^ p * (q + 1) \<le> 2 * 2 ^ p * q'" by (intro mult_le_mono2) simp
      with b False have "base p (k + 2 ^ p + 1) \<le> b" unfolding bs by simp
      with less show ?thesis by simp
    qed
  qed
qed

lemma unset_bit_eq_base: "unset_bit p x = base p x" for x :: nat
proof -
  have "int (unset_bit p x) = int x AND NOT (2 ^ p)"
    by (simp add: of_nat_unset_bit_eq unset_bit_eq_and_not push_bit_eq_mult)
  then show ?thesis by (metis and_not_power nat_int)
qed

lemma bit_base [simp]: "bit (base p x) q \<longleftrightarrow> bit x q \<and> p \<noteq> q"
  by (simp add: bit_unset_bit_iff flip: unset_bit_eq_base)

lemma base_le: "base p x \<le> x"
  by (simp add: base_def)

text \<open>Exchanging bit \<open>p\<close> of two numbers.\<close>

fun xch :: "nat \<Rightarrow> nat \<times> nat \<Rightarrow> nat \<times> nat" where
  "xch p (i, c) = (if bit i p = bit c p then (i, c)
     else if bit i p then (i - 2 ^ p, c + 2 ^ p) else (i + 2 ^ p, c - 2 ^ p))"

lemma bit_plus_power: "\<not> bit x p \<Longrightarrow> bit (x + 2 ^ p) q \<longleftrightarrow> bit x q \<or> p = q" for x :: nat
  using bit_set_bit_iff [of p x q] set_bit_eq [of p x] by auto

lemma bit_minus_power: "bit x p \<Longrightarrow> bit (x - 2 ^ p) q \<longleftrightarrow> bit x q \<and> p \<noteq> q" for x :: nat
  using bit_base [of p x q] by (simp add: base_def)

lemma bit_xch:
  "bit (fst (xch p (i, c))) q = (if q = p then bit c q else bit i q)"
  "bit (snd (xch p (i, c))) q = (if q = p then bit i q else bit c q)"
  by (auto simp: bit_plus_power bit_minus_power)

fun xchs :: "nat \<Rightarrow> nat \<times> nat \<Rightarrow> nat \<times> nat" where
  "xchs 0 x = x"
| "xchs (Suc p) x = xch p (xchs p x)"

lemma bit_xchs:
  "bit (fst (xchs p (i, c))) q = (if q < p then bit c q else bit i q)"
  "bit (snd (xchs p (i, c))) q = (if q < p then bit i q else bit c q)"
proof (induction p)
  case (Suc p)
  obtain i' c' where x: "xchs p (i, c) = (i', c')" by fastforce
  show "bit (fst (xchs (Suc p) (i, c))) q = (if q < Suc p then bit c q else bit i q)"
    "bit (snd (xchs (Suc p) (i, c))) q = (if q < Suc p then bit i q else bit c q)"
    using Suc unfolding xchs.simps x fst_conv snd_conv bit_xch by auto
qed simp_all

lemma xchs_eq:
  assumes "i < 2 ^ p"
  shows "xchs p (i, c) = (c mod 2 ^ p, c div 2 ^ p * 2 ^ p + i)"
proof -
  have i: "bit i q \<Longrightarrow> q < p" for q
    using assms by (metis bit_take_bit_iff take_bit_nat_eq_self)
  have "fst (xchs p (i, c)) = take_bit p c"
    by (rule bit_eqI) (use i in \<open>auto simp: bit_xchs bit_take_bit_iff\<close>)
  moreover have "push_bit p (drop_bit p c) + i = push_bit p (drop_bit p c) OR i"
    by (rule disjunctive_add) (auto simp: bit_push_bit_iff dest: i)
  then have "snd (xchs p (i, c)) = push_bit p (drop_bit p c) + i"
    by (simp only:) (rule bit_eqI, use i in \<open>auto simp: bit_xchs bit_or_iff bit_push_bit_iff bit_drop_bit_eq\<close>)
  ultimately show ?thesis
    by (simp add: prod_eq_iff take_bit_eq_mod push_bit_eq_mult drop_bit_eq_div)
qed

section \<open>The loops\<close>

text \<open>Bit \<open>c\<close> of one component of row \<open>i\<close>.\<close>

definition cell :: "bool \<Rightarrow> 'w::len word share list \<Rightarrow> nat \<times> nat \<Rightarrow> bool" where
  "cell s rows x = bit (convert ((if s then share_a else share_b) (rows ! fst x))) (snd x)"

text \<open>The mask of stage \<open>p\<close>: the columns whose bit \<open>p\<close> is clear.\<close>

definition stage_mask :: "nat \<Rightarrow> 'w::len word \<Rightarrow> bool" where
  "stage_mask p m \<longleftrightarrow> (\<forall>c < LENGTH('w). bit m c \<longleftrightarrow> \<not> bit c p)"

lemma plus_power_less:
  assumes "\<not> bit k p" "k < n" "2 * 2 ^ p dvd n"
  shows "k + 2 ^ p < (n :: nat)"
proof -
  obtain q r where k: "k = 2 * 2 ^ p * q + r" "r < 2 ^ p" using assms(1) by (auto simp: bit_split(2))
  obtain N where n: "n = 2 * 2 ^ p * N" using assms(3) by blast
  have "q < N"
  proof (rule ccontr)
    assume "\<not> q < N"
    then have "n \<le> 2 * 2 ^ p * q" unfolding n by (intro mult_le_mono2) simp
    with assms(2) k(1) show False by simp
  qed
  then have "2 * 2 ^ p * (q + 1) \<le> n" unfolding n by (intro mult_le_mono2) simp
  with k show ?thesis by simp
qed

lemma xch_less:
  assumes "fst x < n" "snd x < w" "2 * 2 ^ p dvd n" "2 * 2 ^ p dvd w"
  shows "fst (xch p x) < n" "snd (xch p x) < w"
  using assms plus_power_less by (cases x; auto)+

lemma minus_power_bit:
  assumes "\<not> bit c p" "2 ^ p \<le> c"
  shows "bit (c - 2 ^ p :: nat) p"
proof (rule ccontr)
  assume "\<not> ?thesis"
  then show False using bit_plus_power [of "c - 2 ^ p" p p] assms by simp
qed

lemma bit_imp_le: "bit x p \<Longrightarrow> 2 ^ p \<le> x" for x :: nat
  by (auto simp: bit_split(1))

lemma base_eq_iff:
  assumes "\<not> bit k p"
  shows "base p i = k \<longleftrightarrow> i = k \<or> i = k + 2 ^ p"
  using assms bit_plus_power [OF assms, of p] bit_imp_le [of i p] by (auto simp: base_def)

text \<open>One exchange of two rows, on bits.\<close>

lemma cell_swap_rows:
  fixes res :: "'w::len word share list"
  assumes j: "unat j = 2 ^ p" "2 ^ p < LENGTH('w)" and m: "stage_mask p m"
    and k: "\<not> bit k p" "k + 2 ^ p < length res" and x: "snd x < LENGTH('w)"
  shows "cell s (swap_rows j m k res) x = (if base p (fst x) = k then cell s res (xch p x) else cell s res x)"
proof -
  obtain i c where ic: "x = (i, c)" by (cases x)
  have c: "c < LENGTH('w)" using x ic by simp
  have mask: "c' < LENGTH('w) \<Longrightarrow> bit m c' \<longleftrightarrow> \<not> bit c' p" for c'
    using m by (simp add: stage_mask_def)
  note bas = base_eq_iff [OF k(1), of i]
  consider "i = k" "bit c p" | "i = k" "\<not> bit c p" "2 ^ p \<le> c" | "i = k" "\<not> bit c p" "c < 2 ^ p"
    | "i = k + 2 ^ p" | "i \<noteq> k" "i \<noteq> k + 2 ^ p" by linarith
  then show ?thesis
  proof cases
    case 1
    then have "2 ^ p \<le> c" by (auto simp: bit_split(1))
    with 1 show ?thesis using bas c k mask [of "c - 2 ^ p"] bit_minus_power [of c p p]
      by (auto simp add: ic cell_def swap_rows_def Let_def share_defs ring_defs j bit_simps)
  next
    case 2
    with bas c k mask [of "c - 2 ^ p"] minus_power_bit [of c p] show ?thesis
      by (simp add: ic cell_def swap_rows_def Let_def share_defs ring_defs j bit_simps)
  next
    case 3
    with bas c k show ?thesis
      by (simp add: ic cell_def swap_rows_def Let_def share_defs ring_defs j bit_simps)
  next
    case 4
    with bas c k mask [of c] bit_plus_power [OF k(1), of p] show ?thesis
      by (auto simp add: ic cell_def swap_rows_def Let_def share_defs ring_defs j bit_simps add.commute [of c])
  next
    case 5
    with bas c k show ?thesis by (simp add: ic cell_def swap_rows_def Let_def j)
  qed
qed

lemma length_swap_rows [simp]: "length (swap_rows j m k res) = length res"
  by (simp add: swap_rows_def Let_def)

text \<open>The inner loop ends and exchanges bit \<open>p\<close> of every row and column number from \<open>k\<close> on.\<close>

lemma transpose_stage:
  fixes res :: "'w::len word share list"
  assumes j: "unat j = 2 ^ p" "2 ^ p < LENGTH('w)" and m: "stage_mask p m"
    and w: "2 * 2 ^ p dvd LENGTH('w)" and n: "length res = n" "2 * 2 ^ p dvd n" and k: "\<not> bit k p"
  shows "\<exists>res'. transpose_stage n j m k res = Some res' \<and> length res' = n
    \<and> (\<forall>s x. fst x < n \<longrightarrow> snd x < LENGTH('w) \<longrightarrow>
        cell s res' x = (if k \<le> base p (fst x) then cell s res (xch p x) else cell s res x))"
  using n(1) k
proof (induction "n - k" arbitrary: k res rule: less_induct)
  case less
  let ?res = "swap_rows j m k res" and ?k = "base p (k + 2 ^ p + 1)"
  note unfold = transpose_stage.simps [of n j m k res]
  show ?case
  proof (cases "k < n")
    case False
    then have "fst x < n \<Longrightarrow> \<not> k \<le> base p (fst x)" for x :: "nat \<times> nat"
      using base_le [of p "fst x"] by linarith
    with False less.prems show ?thesis by (subst unfold) auto
  next
    case True
    note next_k = base_next [OF less.prems(2)]
    have nk: "next_k k (2 ^ p) = ?k"
      using and_not_power [of "k + 2 ^ p + 1" p] by (simp add: next_k_def)
    have range: "k + 2 ^ p < length res" using plus_power_less less.prems True n(2) by blast
    have "n - ?k < n - k" using next_k(2) True by linarith
    from less.hyps [OF this _ next_k(1), of ?res] less.prems(1)
    obtain res' where res': "transpose_stage n j m ?k ?res = Some res'" "length res' = n"
      and cells: "\<And>s x. fst x < n \<Longrightarrow> snd x < LENGTH('w) \<Longrightarrow>
        cell s res' x = (if ?k \<le> base p (fst x) then cell s ?res (xch p x) else cell s ?res x)"
      by auto
    have eq: "transpose_stage n j m k res = Some res'"
      using True range res'(1) by (subst unfold) (simp add: j nk)
    have "cell s res' x = (if k \<le> base p (fst x) then cell s res (xch p x) else cell s res x)"
      if x: "fst x < n" "snd x < LENGTH('w)" for s x
    proof -
      have "base p (fst (xch p x)) = base p (fst x)"
        by (rule bit_eqI) (cases x, auto simp: bit_xch simp del: xch.simps)
      then have b: "base p (fst (xch p x)) = k \<longleftrightarrow> base p (fst x) = k" by simp
      note swap = cell_swap_rows [OF j m less.prems(2) range]
      have lt: "k < base p (fst x) \<longleftrightarrow> ?k \<le> base p (fst x)" by (rule next_k(3)) simp
      show ?thesis
        unfolding cells [OF x] using swap [of x s] swap [of "xch p x" s] x b lt xch_less(2) [OF x n(2) w]
        by auto
    qed
    with eq res'(2) show ?thesis by blast
  qed
qed

text \<open>The next mask.\<close>

lemma stage_mask_next:
  fixes m :: "'w::len word"
  assumes "stage_mask (Suc p) m"
  shows "stage_mask p (m XOR push_bit (2 ^ p) m)"
  unfolding stage_mask_def
proof (intro allI impI)
  fix c :: nat
  assume c: "c < LENGTH('w)"
  have mask: "bit m c' \<longleftrightarrow> \<not> bit c' (Suc p)" if "c' \<le> c" for c'
    using assms c that by (simp add: stage_mask_def)
  have "bit c (Suc p) = bit (c - 2 ^ p) (Suc p) \<longleftrightarrow> bit c p" if "2 ^ p \<le> c"
  proof (cases "bit c p")
    case True
    then show ?thesis using bit_minus_power [of c p "Suc p"] by simp
  next
    case False
    have div: "(c - 2 ^ p) div 2 ^ p = c div 2 ^ p - 1" using that le_div_geq [of "2 ^ p" c] by simp
    define d where "d = c div 2 ^ p"
    have "0 < d" using that by (simp add: d_def div_greater_zero_iff)
    moreover have "even d" using False by (simp add: d_def bit_iff_odd)
    ultimately obtain b where b: "d = 2 * b" "0 < b" by auto
    have half: "bit x (Suc p) \<longleftrightarrow> odd (x div 2 ^ p div 2)" for x :: nat
      by (simp only: bit_iff_odd power_Suc2 div_mult2_eq)
    have "(c - 2 ^ p) div 2 ^ p div 2 = b - 1" "c div 2 ^ p div 2 = b"
      using b div unfolding d_def by simp_all
    then have "bit c (Suc p) \<noteq> bit (c - 2 ^ p) (Suc p)" unfolding half using b(2) by simp
    with False show ?thesis by simp
  qed
  moreover have "\<not> bit c p \<and> \<not> bit c (Suc p)" if "c < 2 ^ p"
    using that bit_imp_le [of c p] bit_imp_le [of c "Suc p"] by auto
  ultimately show "bit (m XOR push_bit (2 ^ p) m) c \<longleftrightarrow> \<not> bit c p"
    using c mask [of c] mask [of "c - 2 ^ p"] by (cases "c < 2 ^ p") (auto simp: bit_simps)
qed

lemma power_less_dvd: "2 * 2 ^ p dvd w \<Longrightarrow> 0 < w \<Longrightarrow> 2 ^ p < w" for w :: nat
  by (drule dvd_imp_le) simp_all

lemma u32_power: "p < 32 \<Longrightarrow> unat (2 ^ p :: u32) = 2 ^ p"
  using of_nat_inverse [of "2 ^ p" "2 ^ p :: u32"] power_strict_increasing [of p 32 "2 :: nat"] by simp

lemma u32_power_half: "drop_bit 1 (2 ^ Suc p :: u32) = 2 ^ p" if "Suc p < 32"
  using that by (intro bit_word_eqI) (auto simp: bit_drop_bit_eq bit_exp_iff simp del: power_Suc)

lemma xchs_less:
  assumes "fst x < n" "snd x < w" "2 * 2 ^ p dvd n" "2 * 2 ^ p dvd w"
  shows "fst (xchs (Suc p) x) < n" "snd (xchs (Suc p) x) < w"
proof -
  have "q \<le> Suc p \<Longrightarrow> fst (xchs q x) < n \<and> snd (xchs q x) < w" for q
  proof (induction q)
    case (Suc q)
    then have "2 * 2 ^ q dvd (2 * 2 ^ p :: nat)" by (simp add: le_imp_power_dvd)
    with assms have "2 * 2 ^ q dvd n" "2 * 2 ^ q dvd w" by (blast intro: dvd_trans)+
    with Suc xch_less [of "xchs q x" n w q] show ?case by simp
  qed (simp add: assms)
  then show "fst (xchs (Suc p) x) < n" "snd (xchs (Suc p) x) < w" by blast+
qed

text \<open>The outer loop ends and exchanges the low \<open>p\<close> bits of row and column numbers.\<close>

lemma transpose_stages:
  fixes res :: "'w::len word share list"
  assumes "j = 2 ^ p" "p < 32" "stage_mask p m" "2 * 2 ^ p dvd LENGTH('w)" "length res = n" "2 * 2 ^ p dvd n"
  shows "\<exists>res'. transpose_stages n j m res = Some res' \<and> length res' = n
    \<and> (\<forall>s x. fst x < n \<longrightarrow> snd x < LENGTH('w) \<longrightarrow> cell s res' x = cell s res (xchs (Suc p) x))"
  using assms
proof (induction p arbitrary: j m res)
  case 0
  then have j: "unat j = 2 ^ 0" "drop_bit 1 j = 0" "j \<noteq> 0" by simp_all
  obtain res' where res': "transpose_stage n j m 0 res = Some res'" "length res' = n"
    "\<And>s x. fst x < n \<Longrightarrow> snd x < LENGTH('w) \<Longrightarrow> cell s res' x = cell s res (xch 0 x)"
    using transpose_stage [OF j(1) _ 0(3,4,5,6), of 0] power_less_dvd [OF 0(4)] by auto
  have "transpose_stages n j m res = Some res'"
    using j res'(1) by (simp add: transpose_stages.simps [of n j] transpose_stages.simps [of n 0])
  with res' show ?case by simp
next
  case (Suc p)
  have j: "unat j = 2 ^ Suc p" "drop_bit 1 j = 2 ^ p" "j \<noteq> 0"
    using Suc.prems(1,2) u32_power [of "Suc p"] u32_power_half [of p] by auto
  obtain res1 where res1: "transpose_stage n j m 0 res = Some res1" "length res1 = n"
    "\<And>s x. fst x < n \<Longrightarrow> snd x < LENGTH('w) \<Longrightarrow> cell s res1 x = cell s res (xch (Suc p) x)"
    using transpose_stage [OF j(1) _ Suc.prems(3-6), of 0] power_less_dvd [OF Suc.prems(4)] by auto
  have dvd: "2 * 2 ^ p dvd LENGTH('w)" "2 * 2 ^ p dvd n" "p < 32"
    using Suc.prems by (auto elim: dvd_trans [rotated])
  let ?m = "m XOR push_bit (unat (drop_bit 1 j)) m"
  have "unat (drop_bit 1 j) = 2 ^ p" using j(2) u32_power dvd(3) by simp
  then have "stage_mask p ?m" using stage_mask_next [OF Suc.prems(3)] by simp
  from Suc.IH [OF j(2) dvd(3) this dvd(1) res1(2) dvd(2)]
  obtain res' where res': "transpose_stages n (drop_bit 1 j) ?m res1 = Some res'" "length res' = n"
    "\<And>s x. fst x < n \<Longrightarrow> snd x < LENGTH('w) \<Longrightarrow> cell s res' x = cell s res1 (xchs (Suc p) x)"
    by auto
  have "transpose_stages n j m res = Some res'"
    using j(3) res1(1) res'(1) by (simp add: transpose_stages.simps [of n j])
  moreover have "cell s res' x = cell s res (xchs (Suc (Suc p)) x)" if "fst x < n" "snd x < LENGTH('w)" for s x
    using res'(3) [OF that] res1(3) xchs_less [OF that dvd(2,1)] by (simp del: xch.simps xchs.simps add: xchs.simps(2) [of "Suc p"])
  ultimately show ?case using res'(2) by blast
qed

section \<open>The kernels\<close>

lemma stage_mask_code:
  "stage_mask p (m :: 'w::len word) \<longleftrightarrow> list_all (\<lambda>c. bit m c = (\<not> bit c p)) [0..<LENGTH('w)]"
  by (auto simp add: stage_mask_def list_all_iff)

text \<open>Initial masks, checked column by column.\<close>

lemma initial_masks:
  "stage_mask 3 (0x00ff00ff00ff00ff :: u64)" "stage_mask 3 (0x00ff00ff00ff00ff00ff00ff00ff00ff :: u128)"
  "stage_mask 4 (0x0000ffff0000ffff :: u64)" "stage_mask 4 (0x0000ffff0000ffff0000ffff0000ffff :: u128)"
  "stage_mask 5 (0x00000000ffffffff :: u64)" "stage_mask 5 (0x00000000ffffffff00000000ffffffff :: u128)"
  by (simp_all only: stage_mask_code, code_simp+)

text \<open>
  What a kernel has to do: from the \<open>W\<close> inputs of width \<open>n\<close>, row \<open>b\<close> of the result has bit
  \<open>b\<close> of input \<open>c\<close> in column \<open>c\<close>.
\<close>

definition transposed :: "nat \<Rightarrow> 'n::len word share list \<Rightarrow> 'w::len word share list \<Rightarrow> bool" where
  "transposed n a res \<longleftrightarrow> length res = n
     \<and> (\<forall>s b c. b < n \<longrightarrow> c < LENGTH('w) \<longrightarrow> cell s res (b, c) = cell s a (c, b))"

lemma kernel_transposes:
  fixes packed :: "'w::len word share list" and a :: "'n::len word share list"
  assumes "p < 32" "stage_mask p m" "2 * 2 ^ p dvd LENGTH('w)" "length packed = 2 ^ Suc p"
    and packed: "\<And>s i d b. i < 2 ^ Suc p \<Longrightarrow> d < LENGTH('w) div 2 ^ Suc p \<Longrightarrow> b < 2 ^ Suc p \<Longrightarrow>
      cell s packed (i, d * 2 ^ Suc p + b) = cell s a (d * 2 ^ Suc p + i, b)"
  shows "\<exists>res. transpose_stages (2 ^ Suc p) (2 ^ p) m packed = Some res \<and> transposed (2 ^ Suc p) a res"
proof -
  obtain res where res: "transpose_stages (2 ^ Suc p) (2 ^ p) m packed = Some res" "length res = 2 ^ Suc p"
    and cells: "\<And>s x. fst x < 2 ^ Suc p \<Longrightarrow> snd x < LENGTH('w) \<Longrightarrow>
      cell s res x = cell s packed (xchs (Suc p) x)"
    using transpose_stages [OF refl assms(1-4)] by auto
  have "cell s res (b, c) = cell s a (c, b)" if "b < 2 ^ Suc p" "c < LENGTH('w)" for s b c
  proof -
    have "c div 2 ^ Suc p < LENGTH('w) div 2 ^ Suc p"
      using assms(3) that(2) by (auto simp: less_mult_imp_div_less mult.commute elim!: dvdE)
    then have "cell s packed (c mod 2 ^ Suc p, c div 2 ^ Suc p * 2 ^ Suc p + b) =
        cell s a (c div 2 ^ Suc p * 2 ^ Suc p + c mod 2 ^ Suc p, b)"
      using that(1) by (intro packed) simp_all
    then show ?thesis using cells [of "(b, c)" s] that xchs_eq [OF that(1), of c]
      by (simp only: fst_conv snd_conv div_mult_mod_eq)
  qed
  with res show ?thesis unfolding transposed_def by blast
qed

lemma less_4_cases: "(d::nat) < 4 \<longleftrightarrow> d = 0 \<or> d = 1 \<or> d = 2 \<or> d = 3" by auto
lemma less_8_cases:
  "(d::nat) < 8 \<longleftrightarrow> d = 0 \<or> d = 1 \<or> d = 2 \<or> d = 3 \<or> d = 4 \<or> d = 5 \<or> d = 6 \<or> d = 7" by auto

lemma bit_word_beyond: "LENGTH('a) \<le> n \<Longrightarrow> bit (x :: 'a::len word) n \<longleftrightarrow> False"
  by (auto dest: bit_imp_le_length)

text \<open>A packed row has its inputs side by side.\<close>

lemma packed_bits_16x4:
  fixes f :: "nat \<Rightarrow> u16"
  assumes "b < 16" "d < 4"
  shows "bit (ucast (f 0) OR push_bit 16 (ucast (f 1)) OR push_bit 32 (ucast (f 2)) OR push_bit 48 (ucast (f 3)) :: u64)
    (d * 16 + b) = bit (f d) b"
  using assms(2) unfolding less_4_cases
  by (elim disjE; use assms(1) in \<open>simp add: bit_or_iff bit_push_bit_iff bit_ucast_iff bit_word_beyond\<close>)

lemma packed_bits_16x8:
  fixes f :: "nat \<Rightarrow> u16"
  assumes "b < 16" "d < 8"
  shows "bit (ucast (f 0) OR push_bit 16 (ucast (f 1)) OR push_bit 32 (ucast (f 2)) OR push_bit 48 (ucast (f 3))
    OR push_bit 64 (ucast (f 4)) OR push_bit 80 (ucast (f 5)) OR push_bit 96 (ucast (f 6))
    OR push_bit 112 (ucast (f 7)) :: u128) (d * 16 + b) = bit (f d) b"
  using assms(2) unfolding less_8_cases
  by (elim disjE; use assms(1) in \<open>simp add: bit_or_iff bit_push_bit_iff bit_ucast_iff bit_word_beyond\<close>)

lemma packed_bits_32x4:
  fixes f :: "nat \<Rightarrow> u32"
  assumes "b < 32" "d < 4"
  shows "bit (ucast (f 0) OR push_bit 32 (ucast (f 1)) OR push_bit 64 (ucast (f 2)) OR push_bit 96 (ucast (f 3)) :: u128)
    (d * 32 + b) = bit (f d) b"
  using assms(2) unfolding less_4_cases
  by (elim disjE; use assms(1) in \<open>simp add: bit_or_iff bit_push_bit_iff bit_ucast_iff bit_word_beyond\<close>)

lemma packed_bits_32x2:
  fixes f :: "nat \<Rightarrow> u32"
  assumes "b < 32" "d < 2"
  shows "bit (ucast (f 0) OR push_bit 32 (ucast (f 1)) :: u64) (d * 32 + b) = bit (f d) b"
  using assms(2) unfolding less_2_cases_iff
  by (elim disjE; use assms(1) in \<open>simp add: bit_or_iff bit_push_bit_iff bit_ucast_iff bit_word_beyond\<close>)

lemma packed_bits_64x2:
  fixes f :: "nat \<Rightarrow> u64"
  assumes "b < 64" "d < 2"
  shows "bit (ucast (f 0) OR push_bit 64 (ucast (f 1)) :: u128) (d * 64 + b) = bit (f d) b"
  using assms(2) unfolding less_2_cases_iff
  by (elim disjE; use assms(1) in \<open>simp add: bit_or_iff bit_push_bit_iff bit_ucast_iff bit_word_beyond\<close>)

text \<open>The six kernels: none panics, all transpose.\<close>

lemma share_transpose16x64_transposes: "\<exists>res. share_transpose16x64 a = Some res \<and> transposed 16 a res"
proof -
  let ?packed = "map (\<lambda>i. share64_from_share16s (a ! i) (a ! (16 + i)) (a ! (32 + i)) (a ! (48 + i))) [0..<16]"
  have "cell s ?packed (i, d * 16 + b) = cell s a (d * 16 + i, b)" if "i < 16" "d < 4" "b < 16" for s i d b
    using packed_bits_16x4 [OF that(3,2), of "\<lambda>d. convert ((if s then share_a else share_b) (a ! (d * 16 + i)))"] that
    by (cases s) (simp_all add: cell_def share64_from_share16s_def Let_def)
  then have "\<exists>res. transpose_stages (2 ^ Suc 3) (2 ^ 3) (0x00ff00ff00ff00ff :: u64) ?packed = Some res
     \<and> transposed (2 ^ Suc 3) a res"
    by (intro kernel_transposes) (simp_all add: initial_masks)
  then show ?thesis by (simp add: share_transpose16x64_def)
qed

lemma share_transpose16x128_transposes: "\<exists>res. share_transpose16x128 a = Some res \<and> transposed 16 a res"
proof -
  let ?packed = "map (\<lambda>i. share128_from_share16s (a ! i) (a ! (i + 16)) (a ! (i + 32)) (a ! (i + 48))
                   (a ! (i + 64)) (a ! (i + 80)) (a ! (i + 96)) (a ! (i + 112))) [0..<16]"
  have "cell s ?packed (i, d * 16 + b) = cell s a (d * 16 + i, b)" if "i < 16" "d < 8" "b < 16" for s i d b
    using packed_bits_16x8 [OF that(3,2), of "\<lambda>d. convert ((if s then share_a else share_b) (a ! (d * 16 + i)))"] that
    by (cases s) (simp_all add: cell_def share128_from_share16s_def Let_def add.commute [of i])
  then have "\<exists>res. transpose_stages (2 ^ Suc 3) (2 ^ 3) (0x00ff00ff00ff00ff00ff00ff00ff00ff :: u128) ?packed = Some res
     \<and> transposed (2 ^ Suc 3) a res"
    by (intro kernel_transposes) (simp_all add: initial_masks)
  then show ?thesis by (simp add: share_transpose16x128_def)
qed

lemma share_transpose32x64_transposes: "\<exists>res. share_transpose32x64 a = Some res \<and> transposed 32 a res"
proof -
  let ?packed = "map (\<lambda>i. share64_from_share32s (a ! i) (a ! (32 + i))) [0..<32]"
  have "cell s ?packed (i, d * 32 + b) = cell s a (d * 32 + i, b)" if "i < 32" "d < 2" "b < 32" for s i d b
    using packed_bits_32x2 [OF that(3,2), of "\<lambda>d. convert ((if s then share_a else share_b) (a ! (d * 32 + i)))"] that
    by (cases s) (simp_all add: cell_def share64_from_share32s_def Let_def)
  then have "\<exists>res. transpose_stages (2 ^ Suc 4) (2 ^ 4) (0x0000ffff0000ffff :: u64) ?packed = Some res
     \<and> transposed (2 ^ Suc 4) a res"
    by (intro kernel_transposes) (simp_all add: initial_masks)
  then show ?thesis by (simp add: share_transpose32x64_def)
qed

lemma share_transpose32x128_transposes: "\<exists>res. share_transpose32x128 a = Some res \<and> transposed 32 a res"
proof -
  let ?packed = "map (\<lambda>i. share128_from_share32s (a ! i) (a ! (32 + i)) (a ! (64 + i)) (a ! (96 + i))) [0..<32]"
  have "cell s ?packed (i, d * 32 + b) = cell s a (d * 32 + i, b)" if "i < 32" "d < 4" "b < 32" for s i d b
    using packed_bits_32x4 [OF that(3,2), of "\<lambda>d. convert ((if s then share_a else share_b) (a ! (d * 32 + i)))"] that
    by (cases s) (simp_all add: cell_def share128_from_share32s_def Let_def)
  then have "\<exists>res. transpose_stages (2 ^ Suc 4) (2 ^ 4) (0x0000ffff0000ffff0000ffff0000ffff :: u128) ?packed = Some res
     \<and> transposed (2 ^ Suc 4) a res"
    by (intro kernel_transposes) (simp_all add: initial_masks)
  then show ?thesis by (simp add: share_transpose32x128_def)
qed

lemma share_transpose64x128_transposes: "\<exists>res. share_transpose64x128 a = Some res \<and> transposed 64 a res"
proof -
  let ?packed = "map (\<lambda>i. share128_from_share64s (a ! i) (a ! (i + 64))) [0..<64]"
  have "cell s ?packed (i, d * 64 + b) = cell s a (d * 64 + i, b)" if "i < 64" "d < 2" "b < 64" for s i d b
    using packed_bits_64x2 [OF that(3,2), of "\<lambda>d. convert ((if s then share_a else share_b) (a ! (d * 64 + i)))"] that
    by (cases s) (simp_all add: cell_def share128_from_share64s_def Let_def add.commute [of i])
  then have "\<exists>res. transpose_stages (2 ^ Suc 5) (2 ^ 5) (0x00000000ffffffff00000000ffffffff :: u128) ?packed = Some res
     \<and> transposed (2 ^ Suc 5) a res"
    by (intro kernel_transposes) (simp_all add: initial_masks)
  then show ?thesis by (simp add: share_transpose64x128_def)
qed

lemma share_transpose64x64_transposes:
  "length a = 64 \<Longrightarrow> \<exists>res. share_transpose64x64 a = Some res \<and> transposed 64 a res"
  using kernel_transposes [of 5 "0x00000000ffffffff :: u64" a a]
  by (simp add: initial_masks share_transpose64x64_def)

section \<open>Vectors\<close>

lemma length_store_slices [simp]: "length (store_slices j rows res) = length res"
  by (induction j rows res rule: store_slices.induct) simp_all

lemma nth_store_slices:
  "b < length rows \<Longrightarrow> b < length res \<Longrightarrow>
    shares (store_slices j rows res ! b) = (shares (res ! b))[j := rows ! b]"
  by (induction j rows res arbitrary: b rule: store_slices.induct) (auto simp: nth_Cons split: nat.split)

text \<open>Slice \<open>b\<close> of the result has row \<open>b\<close> of every transposed chunk, in order.\<close>

lemma transpose_chunks:
  assumes "\<And>x. x \<in> set xs \<Longrightarrow> \<exists>rows. tr x = Some rows \<and> length rows = n"
    and "length res = n" "\<forall>b < n. length (shares (res ! b)) = len" "j + length xs \<le> len"
  shows "\<exists>res'. transpose_chunks tr j xs res = Some res' \<and> length res' = n
    \<and> (\<forall>b < n. length (shares (res' ! b)) = len \<and> (\<forall>t < len. shares (res' ! b) ! t =
         (if j \<le> t \<and> t < j + length xs then the (tr (xs ! (t - j))) ! b else shares (res ! b) ! t)))"
  using assms
proof (induction xs arbitrary: j res)
  case Nil
  then show ?case by auto
next
  case (Cons x xs)
  obtain rows where rows: "tr x = Some rows" "length rows = n" using Cons.prems(1) [of x] by auto
  let ?res = "store_slices j rows res"
  have slice: "shares (?res ! b) = (shares (res ! b))[j := rows ! b]" if "b < n" for b
    using that rows(2) Cons.prems(2) by (intro nth_store_slices) simp_all
  have "\<exists>res'. transpose_chunks tr (j + 1) xs ?res = Some res' \<and> length res' = n
    \<and> (\<forall>b < n. length (shares (res' ! b)) = len \<and> (\<forall>t < len. shares (res' ! b) ! t =
         (if j + 1 \<le> t \<and> t < j + 1 + length xs then the (tr (xs ! (t - (j + 1)))) ! b else shares (?res ! b) ! t)))"
    using Cons.prems by (intro Cons.IH) (auto simp: slice)
  then obtain res' where res': "transpose_chunks tr (j + 1) xs ?res = Some res'" "length res' = n"
    and sl: "\<And>b. b < n \<Longrightarrow> length (shares (res' ! b)) = len"
    and el: "\<And>b t. b < n \<Longrightarrow> t < len \<Longrightarrow> shares (res' ! b) ! t =
         (if j + 1 \<le> t \<and> t < j + 1 + length xs then the (tr (xs ! (t - (j + 1)))) ! b else shares (?res ! b) ! t)"
    by blast
  have "shares (res' ! b) ! t = (if j \<le> t \<and> t < j + length (x # xs) then the (tr ((x # xs) ! (t - j))) ! b
      else shares (res ! b) ! t)" if "b < n" "t < len" for b t
    unfolding el [OF that] using that rows(1) Cons.prems(3) by (cases "t = j") (auto simp: slice nth_Cons')
  with res' sl rows(1) show ?case by auto
qed

text \<open>
  What a vector transposition has to do: slice \<open>b\<close> has the bits \<open>b\<close> of all inputs, 64 or
  128 to a word, and clear bits in the padding.
\<close>

definition bit_sliced :: "nat \<Rightarrow> 'n::len word share list \<Rightarrow> 'w::len word VecShare list \<Rightarrow> bool" where
  "bit_sliced n xs out \<longleftrightarrow> length out = n
     \<and> (\<forall>b < n. length (shares (out ! b)) = div_ceil (length xs) LENGTH('w)
          \<and> (\<forall>s. \<forall>i < div_ceil (length xs) LENGTH('w) * LENGTH('w).
                cell s (shares (out ! b)) (i div LENGTH('w), i mod LENGTH('w)) \<longleftrightarrow>
                i < length xs \<and> cell s xs (i, b)))"

lemma transpose_pack_sliced:
  fixes tr :: "'a share list \<Rightarrow> 'w::len word share list option" and view :: "'a share \<Rightarrow> 'n::len word share"
  assumes tr: "\<And>x. length x = LENGTH('w) \<Longrightarrow> \<exists>rows. tr x = Some rows \<and> transposed n (map view x) rows"
    and d: "view d = share_zero word_ring"
  shows "\<exists>out. transpose_pack tr n LENGTH('w) d d' v = Some out \<and> bit_sliced n (map view (shares v)) out"
proof -
  let ?W = "LENGTH('w)" and ?xs = "shares v"
  let ?len = "div_ceil (length ?xs) ?W"
  let ?pad = "resize (?len * ?W) d ?xs"
  have len: "length ?xs \<le> ?len * ?W" by (rule div_ceil_mult_ge) simp
  then have pad: "length ?pad = ?len * ?W" "?pad = ?xs @ replicate (?len * ?W - length ?xs) d"
    by (simp_all add: resize_def)
  have "\<exists>out. transpose_chunks tr 0 (chunks_exact ?W ?pad) (replicate n (new_vec (replicate ?len d'))) = Some out
    \<and> length out = n \<and> (\<forall>b < n. length (shares (out ! b)) = ?len \<and> (\<forall>t < ?len. shares (out ! b) ! t =
         (if 0 \<le> t \<and> t < 0 + length (chunks_exact ?W ?pad) then the (tr (chunks_exact ?W ?pad ! (t - 0))) ! b
          else shares (replicate n (new_vec (replicate ?len d')) ! b) ! t)))"
  proof (rule transpose_chunks)
    fix x assume "x \<in> set (chunks_exact ?W ?pad)"
    then have "length x = ?W" by (rule length_in_chunks_exact)
    then show "\<exists>rows. tr x = Some rows \<and> length rows = n" using tr [of x] by (auto simp: transposed_def)
  qed (simp_all add: new_vec_def length_chunks_exact pad(1))
  then obtain out where out: "transpose_chunks tr 0 (chunks_exact ?W ?pad) (replicate n (new_vec (replicate ?len d'))) = Some out"
    "length out = n" "\<And>b. b < n \<Longrightarrow> length (shares (out ! b)) = ?len"
    and el: "\<And>b t. b < n \<Longrightarrow> t < ?len \<Longrightarrow> shares (out ! b) ! t = the (tr (take ?W (drop (t * ?W) ?pad))) ! b"
    by (auto simp: length_chunks_exact chunks_exact_nth pad(1))
  have "cell s (shares (out ! b)) (i div ?W, i mod ?W) \<longleftrightarrow> i < length ?xs \<and> cell s (map view ?xs) (i, b)"
    if b: "b < n" and i: "i < ?len * ?W" for b s i
  proof -
    let ?x = "take ?W (drop (i div ?W * ?W) ?pad)"
    have t: "i div ?W < ?len" using i by (simp add: less_mult_imp_div_less)
    then have "Suc (i div ?W) * ?W \<le> ?len * ?W" by (intro mult_le_mono1) simp
    then have "length ?x = ?W" by (simp add: pad(1))
    then obtain rows where rows: "tr ?x = Some rows" "transposed n (map view ?x) rows" using tr by blast
    have "cell s (shares (out ! b)) (i div ?W, i mod ?W) = cell s rows (b, i mod ?W)"
      using el [OF b t] rows(1) by (simp add: cell_def)
    also have "\<dots> = cell s (map view ?x) (i mod ?W, b)" using rows(2) b by (simp add: transposed_def)
    also have "i div ?W * ?W \<le> length ?pad" using i pad(1) by (metis div_times_less_eq_dividend less_or_eq_imp_le order_trans)
    then have "map view ?x ! (i mod ?W) = view (?pad ! i)"
      using \<open>length ?x = ?W\<close> by simp
    then have "cell s (map view ?x) (i mod ?W, b) = cell s [view (?pad ! i)] (0, b)" by (simp add: cell_def)
    also have "\<dots> \<longleftrightarrow> i < length ?xs \<and> cell s (map view ?xs) (i, b)"
      unfolding pad(2) using i d by (simp add: cell_def nth_append share_defs ring_defs)
    finally show ?thesis .
  qed
  with out show ?thesis by (auto simp: transpose_pack_def Let_def bit_sliced_def)
qed

text \<open>The instances for both output widths, and for the 48-bit ring.\<close>

lemma pack_u64_sliced:
  fixes tr :: "'n::len word share list \<Rightarrow> u64 share list option"
  assumes "\<And>x. length x = 64 \<Longrightarrow> \<exists>rows. tr x = Some rows \<and> transposed n x rows"
  shows "\<exists>out. transpose_pack tr n 64 (share_zero word_ring) d' v = Some out \<and> bit_sliced n (shares v) out"
  using transpose_pack_sliced [of tr n "\<lambda>x. x" "share_zero word_ring" d' v] assms by simp

lemma pack_u128_sliced:
  fixes tr :: "'n::len word share list \<Rightarrow> u128 share list option"
  assumes "\<And>x. length x = 128 \<Longrightarrow> \<exists>rows. tr x = Some rows \<and> transposed n x rows"
  shows "\<exists>out. transpose_pack tr n 128 (share_zero word_ring) d' v = Some out \<and> bit_sliced n (shares v) out"
  using transpose_pack_sliced [of tr n "\<lambda>x. x" "share_zero word_ring" d' v] assms by simp

lemma ring48_sliced:
  "\<exists>out. transpose_pack (\<lambda>chunk. map_option (take 48) (share_transpose64x64 (ring48_chunk_to_u64 chunk)))
       48 64 (share_zero ring48_ring) (share_zero word_ring) v = Some out
     \<and> bit_sliced 48 (ring48_chunk_to_u64 (shares v)) out"
proof -
  let ?view = "\<lambda>s. share_new (RingElement (case convert (share_a s) of Ring48 x \<Rightarrow> x))
                (RingElement (case convert (share_b s) of Ring48 x \<Rightarrow> x))"
  let ?tr = "\<lambda>chunk. map_option (take 48) (share_transpose64x64 (ring48_chunk_to_u64 chunk))"
  have "\<exists>rows. ?tr x = Some rows \<and> transposed 48 (map ?view x) rows" if "length x = 64" for x :: "Ring48 share list"
  proof -
    have "length (ring48_chunk_to_u64 x) = 64" using that by (simp add: ring48_chunk_to_u64_def)
    then obtain rows where rows: "share_transpose64x64 (ring48_chunk_to_u64 x) = Some rows"
      "transposed 64 (ring48_chunk_to_u64 x) rows" using share_transpose64x64_transposes by blast
    then have "transposed 48 (map ?view x) (take 48 rows)"
      by (simp add: transposed_def cell_def ring48_chunk_to_u64_def)
    with rows(1) show ?thesis by simp
  qed
  moreover have "?view (share_zero ring48_ring) = share_zero word_ring"
    by (simp add: share_defs ring_defs ring48_ring_def ring48_zero_def)
  ultimately show ?thesis
    using transpose_pack_sliced [of ?tr 48 ?view "share_zero ring48_ring" "share_zero word_ring" v]
    by (simp add: ring48_chunk_to_u64_def)
qed

section \<open>Properties\<close>

text \<open>
  C24: bit transposition. All seven vector transpositions return (their loops end and no
  index is out of range), and the result is the bit-sliced input: slice \<open>b\<close> has bit \<open>b\<close> of
  input \<open>i\<close> in column \<open>i mod W\<close> of word \<open>i div W\<close>, for both components of the shares, with
  zero padding after the last input.
\<close>

theorem transpose_pack_slices_bits:
  "(\<exists>out. u16_transpose_pack_u64 v16 = Some out \<and> bit_sliced 16 (shares v16) out)
 \<and> (\<exists>out. u16_transpose_pack_u128 v16 = Some out \<and> bit_sliced 16 (shares v16) out)
 \<and> (\<exists>out. u32_transpose_pack_u64 v32 = Some out \<and> bit_sliced 32 (shares v32) out)
 \<and> (\<exists>out. u32_transpose_pack_u128 v32 = Some out \<and> bit_sliced 32 (shares v32) out)
 \<and> (\<exists>out. u64_transpose_pack_u64 v64 = Some out \<and> bit_sliced 64 (shares v64) out)
 \<and> (\<exists>out. u64_transpose_pack_u128 v64 = Some out \<and> bit_sliced 64 (shares v64) out)
 \<and> (\<exists>out. ring48_transpose_pack_u64 v48 = Some out \<and>
       bit_sliced 48 (ring48_chunk_to_u64 (shares v48)) out)"
  unfolding u16_transpose_pack_u64_def u16_transpose_pack_u128_def u32_transpose_pack_u64_def
    u32_transpose_pack_u128_def u64_transpose_pack_u64_def u64_transpose_pack_u128_def
    ring48_transpose_pack_u64_def
  by (intro conjI pack_u64_sliced pack_u128_sliced ring48_sliced
      share_transpose16x64_transposes share_transpose16x128_transposes share_transpose32x64_transposes
      share_transpose32x128_transposes share_transpose64x128_transposes share_transpose64x64_transposes)

end
