(* ===== verification/Galois.thy ===== *)
theory Galois
  imports Prelude
begin

text \<open>
  The Galois ring \<open>Z_{2^16}[X] / (X^4 - X - 1)\<close> (\<open>ampc-secret-sharing/src/galois.rs\<close>, the
  part about ring elements). Elements are four \<open>u16\<close> coefficients; the operators of the
  source make the type an instance of \<open>comm_ring_1\<close>, so the algebra of the library applies.
  The main result is about \<open>inverse\<close>, which the source computes as a fixed power: it is
  the multiplicative inverse of every element that has one, and it panics on exactly the
  others. Also here: the three bases and their conversions.
\<close>

section \<open>Elements\<close>

text \<open>
  The basis of an element is a phantom type of the source; it is the type of the model.
  \<open>galois\<close> is the monomial basis, \<open>galois_A\<close> and \<open>galois_B\<close> the other two.
\<close>

datatype galois = Galois u16 u16 u16 u16
datatype galois_A = GaloisA u16 u16 u16 u16
datatype galois_B = GaloisB u16 u16 u16 u16

type_synonym coefs4 = "u16 \<times> u16 \<times> u16 \<times> u16"

fun coefs :: "galois \<Rightarrow> coefs4" where
  "coefs (Galois a0 a1 a2 a3) = (a0, a1, a2, a3)"

fun from_coefs :: "coefs4 \<Rightarrow> galois" where
  "from_coefs (a0, a1, a2, a3) = Galois a0 a1 a2 a3"

definition gr_ZERO :: galois where
  "gr_ZERO = Galois 0 0 0 0"

definition gr_ONE :: galois where
  "gr_ONE = Galois 1 0 0 0"

definition EXCEPTIONAL_SEQUENCE :: "galois list" where
  "EXCEPTIONAL_SEQUENCE = [
     Galois 0 0 0 0, Galois 1 0 0 0, Galois 0 1 0 0, Galois 1 1 0 0,
     Galois 0 0 1 0, Galois 1 0 1 0, Galois 0 1 1 0, Galois 1 1 1 0,
     Galois 0 0 0 1, Galois 1 0 0 1, Galois 0 1 0 1, Galois 1 1 0 1,
     Galois 0 0 1 1, Galois 1 0 1 1, Galois 0 1 1 1, Galois 1 1 1 1]"

fun gr_add :: "galois \<Rightarrow> galois \<Rightarrow> galois" where
  "gr_add (Galois a0 a1 a2 a3) (Galois b0 b1 b2 b3) = Galois (a0 + b0) (a1 + b1) (a2 + b2) (a3 + b3)"

fun gr_sub :: "galois \<Rightarrow> galois \<Rightarrow> galois" where
  "gr_sub (Galois a0 a1 a2 a3) (Galois b0 b1 b2 b3) = Galois (a0 - b0) (a1 - b1) (a2 - b2) (a3 - b3)"

fun gr_neg :: "galois \<Rightarrow> galois" where
  "gr_neg (Galois a0 a1 a2 a3) = Galois (- a0) (- a1) (- a2) (- a3)"

fun gr_mul :: "galois \<Rightarrow> galois \<Rightarrow> galois" where
  "gr_mul (Galois a0 a1 a2 a3) (Galois b0 b1 b2 b3) = Galois
     (a0 * b0 + a1 * b3 + a2 * b2 + a3 * b1)
     (a0 * b1 + a1 * b0 + a1 * b3 + a2 * b2 + a3 * b1 + a2 * b3 + a3 * b2)
     (a0 * b2 + a1 * b1 + a2 * b0 + a2 * b3 + a3 * b2 + a3 * b3)
     (a0 * b3 + a1 * b2 + a2 * b1 + a3 * b0 + a3 * b3)"

text \<open>Plain encodings of a vector of coefficients, four at a time.\<close>

definition encode1 :: "u16 list \<Rightarrow> galois list option" where
  "encode1 x =
     (if length x mod 4 \<noteq> 0 then None
      else Some (map (\<lambda>c. Galois (c ! 0) (c ! 3) (c ! 2) (c ! 1)) (chunks_exact 4 x)))"

definition encode2 :: "u16 list \<Rightarrow> galois list option" where
  "encode2 x =
     (if length x mod 4 \<noteq> 0 then None
      else Some (map (\<lambda>c. Galois (c ! 0) (c ! 1) (c ! 2) (c ! 3)) (chunks_exact 4 x)))"

section \<open>The ring\<close>

instantiation galois :: comm_ring_1
begin

definition zero_galois :: galois where
  "0 = gr_ZERO"

definition one_galois :: galois where
  "1 = gr_ONE"

definition plus_galois :: "galois \<Rightarrow> galois \<Rightarrow> galois" where
  "x + y = gr_add x y"

definition minus_galois :: "galois \<Rightarrow> galois \<Rightarrow> galois" where
  "x - y = gr_sub x y"

definition uminus_galois :: "galois \<Rightarrow> galois" where
  "- x = gr_neg x"

definition times_galois :: "galois \<Rightarrow> galois \<Rightarrow> galois" where
  "x * y = gr_mul x y"

lemmas galois_ops =
  zero_galois_def one_galois_def plus_galois_def minus_galois_def uminus_galois_def
  times_galois_def gr_ZERO_def gr_ONE_def

instance
proof
  fix x y z :: galois
  show "x * y * z = x * (y * z)"
    by (cases x; cases y; cases z) (simp add: galois_ops algebra_simps)
  show "(x + y) * z = x * z + y * z"
    by (cases x; cases y; cases z) (simp add: galois_ops algebra_simps)
  show "x * y = y * x"
    by (cases x; cases y) (simp add: galois_ops algebra_simps)
  show "1 * x = x" by (cases x) (simp add: galois_ops)
  show "x + y + z = x + (y + z)" "x + y = y + x"
    by (cases x; cases y; cases z; simp add: galois_ops algebra_simps)+
  show "0 + x = x" "- x + x = 0" "x - y = x + - y"
    by (cases x; cases y; simp add: galois_ops)+
  show "(0::galois) \<noteq> 1" by (simp add: galois_ops)
qed

end

section \<open>Powers and inverses\<close>

text \<open>The loop of the exponentiation: square and multiply while the exponent exceeds one.\<close>

function gr_pow_loop :: "galois \<Rightarrow> galois \<Rightarrow> nat \<Rightarrow> galois" where
  "gr_pow_loop x y e =
     (if 1 < e
      then (let (y', e') = (if e mod 2 = 1 then (x * y, e - 1) else (y, e))
            in gr_pow_loop (x * x) y' (e' div 2))
      else x * y)"
  by pat_completeness auto
termination
  by (relation "measure (\<lambda>(x, y, e). e)") (auto split: if_splits)

declare gr_pow_loop.simps [simp del]

definition gr_pow :: "galois \<Rightarrow> nat \<Rightarrow> galois" where
  "gr_pow self e = (if e = 0 then gr_ONE else gr_pow_loop self gr_ONE e)"

definition gr_EXP :: nat where
  "gr_EXP = (2 ^ 4 - 1) * 2 ^ (16 - 1) - 1"

fun all_even :: "galois \<Rightarrow> bool" where
  "all_even (Galois a0 a1 a2 a3) = (a0 mod 2 = 0 \<and> a1 mod 2 = 0 \<and> a2 mod 2 = 0 \<and> a3 mod 2 = 0)"

text \<open>\<open>None\<close> is the panic "Element has no inverse".\<close>

definition gr_inverse :: "galois \<Rightarrow> galois option" where
  "gr_inverse self = (if all_even self then None else Some (gr_pow self gr_EXP))"

section \<open>Basis conversions\<close>

fun to_basis_A :: "galois \<Rightarrow> galois_A" where
  "to_basis_A (Galois c0 c1 c2 c3) = GaloisA
     c0
     (c1 + c0 * 7454)
     (c2 + c0 * 35057 + c1 * 40342)
     (c3 + c0 * 37176 + c1 * 61738 + c2 * 8525)"

fun to_basis_B :: "galois \<Rightarrow> galois_B" where
  "to_basis_B (Galois c0 c1 c2 c3) = GaloisB
     (c0 * 16038 + c1 * 45700 + c2 * 28361 + c3 * 37176)
     (c0 * 45700 + c1 * 28361 + c2 * 37176 + c3 * 61738)
     (c0 * 28361 + c1 * 37176 + c2 * 61738 + c3 * 8525)
     (c0 * 37176 + c1 * 61738 + c2 * 8525 + c3 * 1)"

fun to_monomial :: "galois_A \<Rightarrow> galois" where
  "to_monomial (GaloisA c0 c1 c2 c3) = Galois
     c0
     (c1 + c0 * 58082)
     (c2 + c0 * 60579 + c1 * 25194)
     (c3 + c0 * 17325 + c1 * 51956 + c2 * 57011)"

section \<open>Exponentiation by squaring is power\<close>

lemma gr_pow_loop_eq: "0 < e \<Longrightarrow> gr_pow_loop x y e = x ^ e * y"
proof (induction x y e rule: gr_pow_loop.induct)
  case (1 x y e)
  consider "e = 1" | "1 < e" "e mod 2 = 1" | "1 < e" "e mod 2 = 0"
    using 1(2) by (metis One_nat_def Suc_lessI not_mod_2_eq_1_eq_0)
  then show ?case
  proof cases
    case 1
    then show ?thesis by (subst gr_pow_loop.simps) simp
  next
    case 2
    then have e: "e = Suc (2 * ((e - 1) div 2))" by presburger
    have pos: "0 < (e - 1) div 2" using 2 by presburger
    have "gr_pow_loop (x * x) (x * y) ((e - 1) div 2) = (x * x) ^ ((e - 1) div 2) * (x * y)"
      using 1(1) [OF 2(1) refl, of "x * y" "e - 1"] 2 pos by simp
    also have "\<dots> = x ^ e * y"
      using arg_cong [OF e, of "\<lambda>n. x ^ n"] by (simp add: power2_eq_square power_mult algebra_simps)
    finally show ?thesis using 2 by (subst gr_pow_loop.simps) (simp add: Let_def)
  next
    case 3
    then have e: "e = 2 * (e div 2)" by presburger
    have "gr_pow_loop (x * x) y (e div 2) = (x * x) ^ (e div 2) * y"
      using 1(1) [OF 3(1) refl, of y e] 3 by simp
    also have "\<dots> = x ^ e * y"
      using arg_cong [OF e, of "\<lambda>n. x ^ n"] by (simp add: power2_eq_square power_mult)
    finally show ?thesis using 3 by (subst gr_pow_loop.simps) (simp add: Let_def)
  qed
qed

lemma gr_pow_eq: "gr_pow x e = x ^ e"
  using gr_pow_loop_eq [of e x 1]
  by (simp add: gr_pow_def one_galois_def flip: one_galois_def)

section \<open>Units\<close>

lemma galois_numeral_2: "(2::galois) = Galois 2 0 0 0"
proof -
  have "(2::galois) = 1 + 1" by simp
  also have "\<dots> = Galois 2 0 0 0" unfolding galois_ops by simp
  finally show ?thesis .
qed

lemma two_times: "2 * Galois a0 a1 a2 a3 = Galois (2 * a0) (2 * a1) (2 * a2) (2 * a3)"
  by (simp add: galois_numeral_2 galois_ops)

lemma two_power_16: "(2::galois) ^ 16 = 0"
proof -
  have "2 ^ n = Galois (2 ^ n) 0 0 0" for n
    by (induction n) (simp_all add: two_times, simp_all add: galois_ops)
  from this [of 16] have "(2::galois) ^ 16 = Galois (2 ^ 16) 0 0 0" .
  also have "\<dots> = 0" by (simp add: galois_ops)
  finally show ?thesis .
qed

lemma word_even_iff: "(a::u16) mod 2 = 0 \<longleftrightarrow> (\<exists>b. a = 2 * b)"
  by (simp add: dvd_def flip: even_iff_mod_2_eq_zero)

lemma all_even_iff: "all_even x \<longleftrightarrow> (\<exists>y. x = 2 * y)"
proof
  assume "all_even x"
  then obtain b0 b1 b2 b3 where "x = Galois (2 * b0) (2 * b1) (2 * b2) (2 * b3)"
    by (cases x) (auto simp: word_even_iff)
  then show "\<exists>y. x = 2 * y" by (metis two_times)
next
  assume "\<exists>y. x = 2 * y"
  then obtain y where "x = 2 * y" ..
  then show "all_even x" by (cases y) (auto simp add: two_times word_even_iff)
qed

text \<open>Two elements that agree modulo two have powers that agree modulo two.\<close>

lemma power_mod_2: "\<exists>v. (e + 2 * w :: galois) ^ n = e ^ n + 2 * v"
proof (induction n)
  case 0
  then show ?case by (auto intro!: exI [of _ 0])
next
  case (Suc n)
  then obtain v where "(e + 2 * w) ^ n = e ^ n + 2 * v" ..
  then have "(e + 2 * w) ^ Suc n = e ^ Suc n + 2 * (e * v + w * e ^ n + 2 * (w * v))"
    by (simp add: algebra_simps)
  then show ?case by blast
qed

lemma word_mod_2_split: "\<exists>r w. (a::u16) = of_bool r + 2 * w \<and> (r \<longleftrightarrow> a mod 2 \<noteq> 0)"
  using mod_mult_div_eq [of a 2]
  by (intro exI [of _ "a mod 2 \<noteq> 0"] exI [of _ "a div 2"]) (simp add: mod_2_eq_odd)

text \<open>The residue field: the fifteen nonzero residues have order dividing fifteen.\<close>

lemma residue_power_15:
  assumes "p \<or> q \<or> r \<or> s"
  shows "all_even (Galois (of_bool p) (of_bool q) (of_bool r) (of_bool s) ^ 15 - 1)"
proof -
  have p15: "x ^ 15 = x * (x * x) * ((x * x) * (x * x)) * ((x * x) * (x * x) * ((x * x) * (x * x)))"
    for x :: galois
    by (simp add: numeral_eq_Suc algebra_simps)
  show ?thesis
    unfolding p15 using assms
    by (cases p; cases q; cases r; cases s) (simp_all add: galois_ops)
qed

lemma unit_power_15:
  assumes "\<not> all_even x"
  obtains y where "x ^ 15 = 1 + 2 * y"
proof -
  obtain a0 a1 a2 a3 where x: "x = Galois a0 a1 a2 a3" by (cases x)
  obtain p w0 where w0: "a0 = of_bool p + 2 * w0" "p \<longleftrightarrow> a0 mod 2 \<noteq> 0"
    using word_mod_2_split by blast
  obtain q w1 where w1: "a1 = of_bool q + 2 * w1" "q \<longleftrightarrow> a1 mod 2 \<noteq> 0"
    using word_mod_2_split by blast
  obtain r w2 where w2: "a2 = of_bool r + 2 * w2" "r \<longleftrightarrow> a2 mod 2 \<noteq> 0"
    using word_mod_2_split by blast
  obtain s w3 where w3: "a3 = of_bool s + 2 * w3" "s \<longleftrightarrow> a3 mod 2 \<noteq> 0"
    using word_mod_2_split by blast
  note w = w0 w1 w2 w3
  let ?e = "Galois (of_bool p) (of_bool q) (of_bool r) (of_bool s)"
  have "x = ?e + 2 * Galois w0 w1 w2 w3"
    unfolding x w(1,3,5,7) by (simp add: two_times plus_galois_def)
  then obtain v where v: "x ^ 15 = ?e ^ 15 + 2 * v" using power_mod_2 by metis
  have "p \<or> q \<or> r \<or> s" using assms unfolding x w(2,4,6,8) by auto
  then obtain u where "?e ^ 15 - 1 = 2 * u" using residue_power_15 all_even_iff by blast
  then have "?e ^ 15 = 1 + 2 * u" by (simp only: diff_eq_eq add.commute)
  with v have "x ^ 15 = 1 + 2 * (u + v)" by (simp only: distrib_left add.assoc)
  then show ?thesis using that by blast
qed

text \<open>Squaring an element that is one modulo \<open>2 ^ k\<close> gives one modulo \<open>2 ^ (k + 1)\<close>.\<close>

lemma one_plus_power: "\<exists>z. (1 + 2 * y :: galois) ^ (2 ^ n) = 1 + 2 ^ Suc n * z"
proof (induction n)
  case 0
  then show ?case by auto
next
  case (Suc n)
  then obtain z where z: "(1 + 2 * y) ^ (2 ^ n) = 1 + 2 ^ Suc n * z" ..
  have square: "(1 + 2 * k * z) * (1 + 2 * k * z) = 1 + 2 * (2 * k) * (z + k * (z * z))" for k :: galois
    by (simp add: ring_distribs mult_ac add_ac)
  have e: "2 ^ Suc n = 2 ^ n + (2 ^ n :: nat)" by simp
  have "(1 + 2 * y) ^ (2 ^ Suc n) = (1 + 2 ^ Suc n * z) * (1 + 2 ^ Suc n * z)"
    unfolding e power_add z ..
  also have "\<dots> = 1 + 2 ^ Suc (Suc n) * (z + 2 ^ n * (z * z))"
    using square [of "2 ^ n"] by (simp only: power_Suc)
  finally show ?case by blast
qed

lemma unit_order:
  assumes "\<not> all_even x"
  shows "x ^ (15 * 2 ^ 15) = 1"
proof -
  obtain y where y: "x ^ 15 = 1 + 2 * y" using unit_power_15 assms by blast
  obtain z where z: "(1 + 2 * y) ^ (2 ^ 15) = 1 + 2 ^ Suc 15 * z" using one_plus_power by blast
  have "x ^ (15 * 2 ^ 15) = (x ^ 15) ^ (2 ^ 15)" by (rule power_mult)
  also have "\<dots> = 1 + 2 ^ 16 * z" unfolding y z by simp
  finally show ?thesis by (simp only: two_power_16) simp
qed

lemma gr_inverse_Some: "gr_inverse x = Some y \<Longrightarrow> y * x = 1"
proof -
  assume "gr_inverse x = Some y"
  then have odd: "\<not> all_even x" and y: "y = x ^ gr_EXP"
    by (auto simp: gr_inverse_def gr_pow_eq split: if_splits)
  have "y * x = x ^ Suc gr_EXP" unfolding y by (simp add: mult.commute)
  also have "Suc gr_EXP = 15 * 2 ^ 15" by (simp add: gr_EXP_def)
  finally show "y * x = 1" using unit_order [OF odd] by simp
qed

lemma all_even_no_inverse: "all_even x \<Longrightarrow> y * x \<noteq> 1"
proof
  assume "all_even x" "y * x = 1"
  then have "all_even 1" by (metis all_even_iff mult.left_commute)
  then show False by (simp add: galois_ops)
qed

text \<open>An inverse found by other means is the one the source computes.\<close>

lemma gr_inverse_eqI:
  assumes "y * x = 1"
  shows "gr_inverse x = Some y"
proof -
  have "\<not> all_even x" using assms all_even_no_inverse by blast
  then obtain z where z: "gr_inverse x = Some z" by (simp add: gr_inverse_def)
  then have "z * x = 1" by (rule gr_inverse_Some)
  then have "z = y" using assms by (metis mult.assoc mult.commute mult_1)
  with z show ?thesis by simp
qed

lemma u16_numeral_0: "(numeral k :: nat) mod 65536 = 0 \<Longrightarrow> (numeral k :: u16) = 0"
  using word_of_nat_eq_0_iff [of "numeral k" , where 'a = 16] by (simp add: dvd_eq_mod_eq_0)

text \<open>The two conversions between basis A and monomials are inverse to each other.\<close>

lemma to_basis_A_to_monomial: "to_basis_A (to_monomial x) = x"
  by (cases x) (simp add: algebra_simps, simp add: u16_numeral_0)

section \<open>Properties\<close>

text \<open>
  C23: inversion by a fixed power. \<open>inverse\<close> returns an element exactly when the argument
  is a unit of the Galois ring, the result is then its inverse, and it panics (all four
  coefficients even) exactly on the elements that have no inverse.
\<close>

theorem inverse_characterisation:
  "(gr_inverse x = Some y \<longleftrightarrow> y * x = 1) \<and> (gr_inverse x = None \<longleftrightarrow> (\<nexists>z. z * x = 1))"
  by (cases "gr_inverse x") (auto dest: gr_inverse_Some gr_inverse_eqI)

text \<open>
  The bases. Converting from basis A to monomials and back is the identity both ways,
  and basis B is the dual that turns ring products into inner products: the first
  B-coefficient of the product of two elements, and equally the inner product of one
  element's B-coefficients with the other's monomial coefficients, is the inner product
  modulo \<open>2 ^ 16\<close> of their A-coefficients.
\<close>

theorem basis_conversions_compute_inner_product:
  fixes a0 a1 a2 a3 b0 b1 b2 b3 :: u16
  shows "let x = GaloisA a0 a1 a2 a3; y = GaloisA b0 b1 b2 b3 in
         to_basis_A (to_monomial x) = x
       \<and> to_monomial (to_basis_A m) = m
       \<and> (case to_basis_B (to_monomial x * to_monomial y) of GaloisB c0 _ _ _ \<Rightarrow>
            c0 = a0 * b0 + a1 * b1 + a2 * b2 + a3 * b3)
       \<and> (case (to_basis_B (to_monomial x), to_monomial y) of
            (GaloisB c0 c1 c2 c3, Galois d0 d1 d2 d3) \<Rightarrow>
              c0 * d0 + c1 * d1 + c2 * d2 + c3 * d3 = a0 * b0 + a1 * b1 + a2 * b2 + a3 * b3)"
  unfolding Let_def
  by (cases m) (simp add: times_galois_def algebra_simps, simp add: u16_numeral_0)

end
