(* ===== verification/Party_Id.thy ===== *)
theory Party_Id
  imports Prelude
begin

text \<open>
  The party identifier (\<open>ampc-secret-sharing/src/id.rs\<close>): three parties in a ring, with
  conversions from and to indices and decimal text.
\<close>

datatype PartyID = ID0 | ID1 | ID2

fun next_id :: "PartyID \<Rightarrow> PartyID" where
  "next_id ID0 = ID1"
| "next_id ID1 = ID2"
| "next_id ID2 = ID0"

fun prev_id :: "PartyID \<Rightarrow> PartyID" where
  "prev_id ID0 = ID2"
| "prev_id ID1 = ID0"
| "prev_id ID2 = ID1"

text \<open>The error carries the rejected number, or is the parse error of the number.\<close>

datatype PartyIDError = InvalidPartyID nat | ParseIntError

definition party_try_from_usize :: "nat \<Rightarrow> PartyIDError + PartyID" where
  "party_try_from_usize other =
     (if other = 0 then Inr ID0
      else if other = 1 then Inr ID1
      else if other = 2 then Inr ID2
      else Inl (InvalidPartyID other))"

definition party_try_from_u8 :: "u8 \<Rightarrow> PartyIDError + PartyID" where
  "party_try_from_u8 other = party_try_from_usize (unat other)"

fun usize_from_party :: "PartyID \<Rightarrow> nat" where
  "usize_from_party ID0 = 0"
| "usize_from_party ID1 = 1"
| "usize_from_party ID2 = 2"

definition u8_from_party :: "PartyID \<Rightarrow> u8" where
  "u8_from_party other = of_nat (usize_from_party other)"

text \<open>
  \<open>str::parse::<usize>\<close> of the standard library on a 64-bit target: an optional plus sign,
  then at least one digit and nothing else, with a value that fits.
\<close>

definition is_digit :: "char \<Rightarrow> bool" where
  "is_digit c = (48 \<le> (of_char c :: nat) \<and> (of_char c :: nat) \<le> 57)"

definition parse_usize :: "string \<Rightarrow> nat option" where
  "parse_usize s =
     (let ds = (case s of c # cs \<Rightarrow> if c = CHR ''+'' then cs else s | [] \<Rightarrow> s);
          n = foldl (\<lambda>acc c. acc * 10 + ((of_char c :: nat) - 48)) 0 ds
      in if ds \<noteq> [] \<and> list_all is_digit ds \<and> n < 2 ^ 64 then Some n else None)"

definition party_from_str :: "string \<Rightarrow> PartyIDError + PartyID" where
  "party_from_str s =
     (case parse_usize s of None \<Rightarrow> Inl ParseIntError | Some n \<Rightarrow> party_try_from_usize n)"

fun party_display :: "PartyID \<Rightarrow> string" where
  "party_display ID0 = ''0''"
| "party_display ID1 = ''1''"
| "party_display ID2 = ''2''"

lemma next_prev [simp]: "next_id (prev_id i) = i" "prev_id (next_id i) = i"
  by (cases i; simp)+

lemma usize_from_next: "usize_from_party (next_id i) = (usize_from_party i + 1) mod 3"
  by (cases i) simp_all

lemma party_try_from_usize_iff:
  "party_try_from_usize n = Inr i \<longleftrightarrow> n = usize_from_party i"
  by (cases i) (auto simp: party_try_from_usize_def)

lemma party_from_str_display: "party_from_str (party_display i) = Inr i"
  by (cases i) (simp_all add: party_from_str_def parse_usize_def is_digit_def party_try_from_usize_def)

end
