(* ===== verification/Shamir.thy ===== *)
theory Shamir
  imports Galois Party_Id
begin

text \<open>
  Shamir sharing over the Galois ring (\<open>ampc-secret-sharing/src/galois.rs\<close>, the part about
  \<open>ShamirGaloisRingShare\<close>): a degree-1 polynomial evaluated for three parties, a degree-2
  polynomial for five, the Lagrange coefficients at zero, and reconstruction. The random
  ring elements of an encoder are arguments. Proved: the scalar encoders agree with the
  ring encoders, any two of three shares reconstruct, and reconstructing the share-wise
  product of two sharings gives the product of the secrets, for three and for five parties.
\<close>

record shamir_share =
  share_id :: nat
  share_y :: galois

section \<open>Share arithmetic\<close>

text \<open>Unequal ids fail the assertion.\<close>

definition shamir_add :: "shamir_share \<Rightarrow> shamir_share \<Rightarrow> shamir_share option" where
  "shamir_add self rhs =
     (if share_id self = share_id rhs
      then Some \<lparr>share_id = share_id self, share_y = share_y self + share_y rhs\<rparr> else None)"

definition shamir_mul :: "shamir_share \<Rightarrow> shamir_share \<Rightarrow> shamir_share option" where
  "shamir_mul self rhs =
     (if share_id self = share_id rhs
      then Some \<lparr>share_id = share_id self, share_y = share_y self * share_y rhs\<rparr> else None)"

definition shamir_sub :: "shamir_share \<Rightarrow> shamir_share \<Rightarrow> shamir_share option" where
  "shamir_sub self rhs =
     (if share_id self = share_id rhs
      then Some \<lparr>share_id = share_id self, share_y = share_y self - share_y rhs\<rparr> else None)"

section \<open>Encoders\<close>

definition encode_3 :: "galois \<Rightarrow> galois \<Rightarrow> shamir_share list" where
  "encode_3 input r =
     map (\<lambda>i. let element = EXCEPTIONAL_SEQUENCE ! i;
                  share = input + r * element
              in \<lparr>share_id = i, share_y = share\<rparr>) [1..<4]"

definition encode_5 :: "galois \<Rightarrow> galois \<Rightarrow> galois \<Rightarrow> shamir_share list" where
  "encode_5 input r t =
     map (\<lambda>idx. let i = idx + 1;
                    z = EXCEPTIONAL_SEQUENCE ! i;
                    y = input + (r + t * z) * z
                in \<lparr>share_id = i, share_y = y\<rparr>) [0..<5]"

fun mul_x :: "galois \<Rightarrow> galois" where
  "mul_x (Galois a0 a1 a2 a3) = Galois a3 (a0 + a3) a1 a2"

definition encode_5_mat :: "coefs4 \<Rightarrow> galois \<Rightarrow> galois \<Rightarrow> shamir_share list" where
  "encode_5_mat input r t =
     (let s = from_coefs input;
          q = r + t;
          tx = mul_x t;
          txx = mul_x tx;
          y1 = s + q;
          y2 = s + mul_x (r + tx);
          y4 = s + mul_x (mul_x (r + txx));
          dx = tx + tx;
          dxx = mul_x dx;
          y3 = y2 + q + dx;
          y5 = y4 + q + dxx
      in [\<lparr>share_id = 1, share_y = y1\<rparr>, \<lparr>share_id = 2, share_y = y2\<rparr>, \<lparr>share_id = 3, share_y = y3\<rparr>,
          \<lparr>share_id = 4, share_y = y4\<rparr>, \<lparr>share_id = 5, share_y = y5\<rparr>])"

fun encode_3_mat :: "coefs4 \<Rightarrow> coefs4 \<Rightarrow> shamir_share list" where
  "encode_3_mat (v0, v1, v2, v3) (v4, v5, v6, v7) =
     (let s2_0 = v0 + v7;
          s2_1 = v1 + v4 + v7;
          s2_2 = v2 + v5;
          s2_3 = v3 + v6;
          share1 = \<lparr>share_id = 1, share_y = Galois (v0 + v4) (v1 + v5) (v2 + v6) (v3 + v7)\<rparr>;
          share2 = \<lparr>share_id = 2, share_y = Galois s2_0 s2_1 s2_2 s2_3\<rparr>;
          share3 = \<lparr>share_id = 3, share_y = Galois (s2_0 + v4) (s2_1 + v5) (s2_2 + v6) (s2_3 + v7)\<rparr>
      in [share1, share2, share3])"

section \<open>Lagrange coefficients and reconstruction\<close>

definition deg_1_lagrange_polys_at_zero :: "PartyID \<Rightarrow> PartyID \<Rightarrow> galois option" where
  "deg_1_lagrange_polys_at_zero my_id other_id =
     (let i = usize_from_party my_id + 1;
          j = usize_from_party other_id + 1;
          res = 1 * (- (EXCEPTIONAL_SEQUENCE ! j))
      in map_option (\<lambda>d. res * d)
           (gr_inverse (EXCEPTIONAL_SEQUENCE ! i - EXCEPTIONAL_SEQUENCE ! j)))"

definition deg_1_lagrange_poly_at_v :: "nat \<Rightarrow> nat \<Rightarrow> nat \<Rightarrow> galois option" where
  "deg_1_lagrange_poly_at_v my_id other_id v =
     (if my_id < 15 \<and> other_id < 15 \<and> v < 15
      then (let i = my_id + 1; j = other_id + 1; v' = v + 1;
                res = EXCEPTIONAL_SEQUENCE ! v' - EXCEPTIONAL_SEQUENCE ! j
            in map_option (\<lambda>d. res * d)
                 (gr_inverse (EXCEPTIONAL_SEQUENCE ! i - EXCEPTIONAL_SEQUENCE ! j)))
      else None)"

text \<open>The inner loop multiplies one coefficient over the other points.\<close>

fun lagrange_loop :: "nat \<Rightarrow> nat list \<Rightarrow> galois \<Rightarrow> galois option" where
  "lagrange_loop i [] res = Some res"
| "lagrange_loop i (j # js) res =
     (if j \<noteq> i
      then (let res' = res * (- (EXCEPTIONAL_SEQUENCE ! j))
            in case gr_inverse (EXCEPTIONAL_SEQUENCE ! i - EXCEPTIONAL_SEQUENCE ! j) of
                 None \<Rightarrow> None
               | Some d \<Rightarrow> lagrange_loop i js (res' * d))
      else lagrange_loop i js res)"

definition deg_k_lagrange_polys_at_zero :: "nat \<Rightarrow> galois list option" where
  "deg_k_lagrange_polys_at_zero N =
     (if 0 < N \<and> N < length EXCEPTIONAL_SEQUENCE
      then those (map (\<lambda>i. lagrange_loop i [1..<N + 1] gr_ONE) [1..<N + 1])
      else None)"

definition deg_2_lagrange_polys_at_zero :: "galois list option" where
  "deg_2_lagrange_polys_at_zero = deg_k_lagrange_polys_at_zero 3"

definition deg_4_lagrange_polys_at_zero :: "galois list option" where
  "deg_4_lagrange_polys_at_zero = deg_k_lagrange_polys_at_zero 5"

text \<open>
  Each share is weighted by the coefficient of its id; an id outside \<open>1..N\<close> is an index
  out of range.
\<close>

definition weighted :: "galois list \<Rightarrow> shamir_share \<Rightarrow> galois option" where
  "weighted ls s =
     (if 1 \<le> share_id s \<and> share_id s \<le> length ls then Some (share_y s * ls ! (share_id s - 1)) else None)"

fun reduce_add :: "galois list \<Rightarrow> galois option" where
  "reduce_add [] = None"
| "reduce_add (x # xs) = Some (foldl (+) x xs)"

definition reconstruct_deg_2_shares :: "shamir_share list \<Rightarrow> galois option" where
  "reconstruct_deg_2_shares ss =
     (case deg_2_lagrange_polys_at_zero of
        None \<Rightarrow> None
      | Some ls \<Rightarrow> Option.bind (those (map (weighted ls) ss)) reduce_add)"

definition reconstruct_deg_4_shares :: "shamir_share list \<Rightarrow> galois option" where
  "reconstruct_deg_4_shares ss =
     (case deg_4_lagrange_polys_at_zero of
        None \<Rightarrow> None
      | Some ls \<Rightarrow> Option.bind (those (map (weighted ls) ss)) reduce_add)"

section \<open>The evaluation points\<close>

lemma points:
  "EXCEPTIONAL_SEQUENCE ! 1 = Galois 1 0 0 0" "EXCEPTIONAL_SEQUENCE ! Suc 0 = Galois 1 0 0 0"
  "EXCEPTIONAL_SEQUENCE ! 2 = Galois 0 1 0 0" "EXCEPTIONAL_SEQUENCE ! Suc (Suc 0) = Galois 0 1 0 0"
  "EXCEPTIONAL_SEQUENCE ! 3 = Galois 1 1 0 0" "EXCEPTIONAL_SEQUENCE ! 4 = Galois 0 0 1 0"
  "EXCEPTIONAL_SEQUENCE ! 5 = Galois 1 0 1 0" "length EXCEPTIONAL_SEQUENCE = 16"
  by (simp_all add: EXCEPTIONAL_SEQUENCE_def)

lemma mul_x_eq: "mul_x a = a * Galois 0 1 0 0"
  by (cases a) (simp add: times_galois_def)

lemma upt_1_4: "[1..<4] = [1, 2, 3]" and upt_0_5: "[0..<5] = [0, 1, 2, 3, 4]"
  and upt_1_6: "[1..<6] = [1, 2, 3, 4, 5]"
  by (simp_all add: upt_conv_Cons)

lemma encode_3_mat_eq: "encode_3_mat (coefs x) (coefs r) = encode_3 x r"
  unfolding encode_3_def upt_1_4
  by (cases x; cases r)
    (simp add: points plus_galois_def times_galois_def Let_def algebra_simps)

lemma encode_5_mat_eq: "encode_5_mat (coefs x) r t = encode_5 x r t"
proof -
  have c: "from_coefs (coefs x) = x" by (cases x) simp
  have one: "Galois 1 0 0 0 = 1" by (simp add: galois_ops)
  have p3: "Galois 1 1 0 0 = 1 + Galois 0 1 0 0" and p4: "Galois 0 0 1 0 = Galois 0 1 0 0 * Galois 0 1 0 0"
    and p5: "Galois 1 0 1 0 = 1 + Galois 0 1 0 0 * Galois 0 1 0 0"
    by (simp_all add: galois_ops)
  show ?thesis
    unfolding encode_5_mat_def encode_5_def upt_0_5 c mul_x_eq Let_def
    by (simp add: points one p3 p4 p5 algebra_simps)
qed

section \<open>The Lagrange coefficients\<close>

text \<open>
  The inverses of the differences of the first five points, each checked by one
  multiplication, and the coefficients they give.
\<close>

lemma point_inverses:
  "gr_inverse (EXCEPTIONAL_SEQUENCE ! 1 - EXCEPTIONAL_SEQUENCE ! 2) = Some (Galois 0 65535 65535 65535)"
  "gr_inverse (EXCEPTIONAL_SEQUENCE ! 1 - EXCEPTIONAL_SEQUENCE ! 3) = Some (Galois 1 0 0 65535)"
  "gr_inverse (EXCEPTIONAL_SEQUENCE ! 1 - EXCEPTIONAL_SEQUENCE ! 4) = Some (Galois 1 65535 0 65535)"
  "gr_inverse (EXCEPTIONAL_SEQUENCE ! 1 - EXCEPTIONAL_SEQUENCE ! 5) = Some (Galois 65535 0 65535 1)"
  "gr_inverse (EXCEPTIONAL_SEQUENCE ! 2 - EXCEPTIONAL_SEQUENCE ! 1) = Some (Galois 0 1 1 1)"
  "gr_inverse (EXCEPTIONAL_SEQUENCE ! 2 - EXCEPTIONAL_SEQUENCE ! 3) = Some (Galois 65535 0 0 0)"
  "gr_inverse (EXCEPTIONAL_SEQUENCE ! 2 - EXCEPTIONAL_SEQUENCE ! 4) = Some (Galois 65535 65535 65535 0)"
  "gr_inverse (EXCEPTIONAL_SEQUENCE ! 2 - EXCEPTIONAL_SEQUENCE ! 5) = Some (Galois 18724 46811 37449 56174)"
  "gr_inverse (EXCEPTIONAL_SEQUENCE ! 3 - EXCEPTIONAL_SEQUENCE ! 1) = Some (Galois 65535 0 0 1)"
  "gr_inverse (EXCEPTIONAL_SEQUENCE ! 3 - EXCEPTIONAL_SEQUENCE ! 2) = Some (Galois 1 0 0 0)"
  "gr_inverse (EXCEPTIONAL_SEQUENCE ! 3 - EXCEPTIONAL_SEQUENCE ! 4) = Some (Galois 65534 1 65535 2)"
  "gr_inverse (EXCEPTIONAL_SEQUENCE ! 3 - EXCEPTIONAL_SEQUENCE ! 5) = Some (Galois 65535 65535 65535 0)"
  "gr_inverse (EXCEPTIONAL_SEQUENCE ! 4 - EXCEPTIONAL_SEQUENCE ! 1) = Some (Galois 65535 1 0 1)"
  "gr_inverse (EXCEPTIONAL_SEQUENCE ! 4 - EXCEPTIONAL_SEQUENCE ! 2) = Some (Galois 1 1 1 0)"
  "gr_inverse (EXCEPTIONAL_SEQUENCE ! 4 - EXCEPTIONAL_SEQUENCE ! 3) = Some (Galois 2 65535 1 65534)"
  "gr_inverse (EXCEPTIONAL_SEQUENCE ! 4 - EXCEPTIONAL_SEQUENCE ! 5) = Some (Galois 65535 0 0 0)"
  "gr_inverse (EXCEPTIONAL_SEQUENCE ! 5 - EXCEPTIONAL_SEQUENCE ! 1) = Some (Galois 1 0 1 65535)"
  "gr_inverse (EXCEPTIONAL_SEQUENCE ! 5 - EXCEPTIONAL_SEQUENCE ! 2) = Some (Galois 46812 18725 28087 9362)"
  "gr_inverse (EXCEPTIONAL_SEQUENCE ! 5 - EXCEPTIONAL_SEQUENCE ! 3) = Some (Galois 1 1 1 0)"
  "gr_inverse (EXCEPTIONAL_SEQUENCE ! 5 - EXCEPTIONAL_SEQUENCE ! 4) = Some (Galois 1 0 0 0)"
  by (rule gr_inverse_eqI, simp add: points galois_ops)+

lemma point_inverses_1:
  "gr_inverse (EXCEPTIONAL_SEQUENCE ! Suc 0 - x) = gr_inverse (EXCEPTIONAL_SEQUENCE ! 1 - x)"
  "gr_inverse (x - EXCEPTIONAL_SEQUENCE ! Suc 0) = gr_inverse (x - EXCEPTIONAL_SEQUENCE ! 1)"
  by simp_all

lemma deg_2_lagrange_polys_eq:
  "deg_2_lagrange_polys_at_zero = Some [Galois 1 2 2 2, Galois 65535 65534 65534 65534, Galois 1 0 0 0]"
  unfolding deg_2_lagrange_polys_at_zero_def deg_k_lagrange_polys_at_zero_def
  by (simp add: upt_conv_Cons point_inverses del: One_nat_def) (simp add: points galois_ops)

lemma deg_4_lagrange_polys_eq:
  "deg_4_lagrange_polys_at_zero = Some [Galois 7 12 10 8, Galois 37435 28061 9341 46794, Galois 65535 65531 65533 65532, Galois 8 17 13 12, Galois 28088 37451 56175 18726]"
  unfolding deg_4_lagrange_polys_at_zero_def deg_k_lagrange_polys_at_zero_def
  by (simp add: upt_conv_Cons point_inverses del: One_nat_def) (simp add: points galois_ops)

section \<open>Reconstruction\<close>

text \<open>
  Interpolation at zero, for any points and weights whose weighted power sums are those of
  the Lagrange coefficients.
\<close>

lemma interpolate_deg_2:
  fixes l1 l2 l3 z1 z2 z3 a b c :: "'a::comm_ring_1"
  assumes "l1 + l2 + l3 = 1" "l1 * z1 + l2 * z2 + l3 * z3 = 0"
    "l1 * (z1 * z1) + l2 * (z2 * z2) + l3 * (z3 * z3) = 0"
  shows "(a + b * z1 + c * (z1 * z1)) * l1 + (a + b * z2 + c * (z2 * z2)) * l2
       + (a + b * z3 + c * (z3 * z3)) * l3 = a"
proof -
  have "(a + b * z1 + c * (z1 * z1)) * l1 + (a + b * z2 + c * (z2 * z2)) * l2
       + (a + b * z3 + c * (z3 * z3)) * l3
    = a * (l1 + l2 + l3) + b * (l1 * z1 + l2 * z2 + l3 * z3)
      + c * (l1 * (z1 * z1) + l2 * (z2 * z2) + l3 * (z3 * z3))"
    by (simp add: algebra_simps)
  then show ?thesis using assms by simp
qed

definition quartic :: "'a::comm_ring_1 \<Rightarrow> 'a \<Rightarrow> 'a \<Rightarrow> 'a \<Rightarrow> 'a \<Rightarrow> 'a \<Rightarrow> 'a" where
  "quartic a b c d e z = a + b * z + c * (z * z) + d * (z * z * z) + e * (z * z * z * z)"

lemma interpolate_deg_4:
  fixes l1 l2 l3 l4 l5 z1 z2 z3 z4 z5 a b c d e :: "'a::comm_ring_1"
  assumes "l1 + l2 + l3 + l4 + l5 = 1" "l1 * z1 + l2 * z2 + l3 * z3 + l4 * z4 + l5 * z5 = 0"
    "l1 * (z1 * z1) + l2 * (z2 * z2) + l3 * (z3 * z3) + l4 * (z4 * z4) + l5 * (z5 * z5) = 0"
    "l1 * (z1 * z1 * z1) + l2 * (z2 * z2 * z2) + l3 * (z3 * z3 * z3) + l4 * (z4 * z4 * z4) + l5 * (z5 * z5 * z5) = 0"
    "l1 * (z1 * z1 * z1 * z1) + l2 * (z2 * z2 * z2 * z2) + l3 * (z3 * z3 * z3 * z3) + l4 * (z4 * z4 * z4 * z4) + l5 * (z5 * z5 * z5 * z5) = 0"
  shows "quartic a b c d e z1 * l1 + quartic a b c d e z2 * l2 + quartic a b c d e z3 * l3 + quartic a b c d e z4 * l4 + quartic a b c d e z5 * l5 = a"
proof -
  have "quartic a b c d e z1 * l1 + quartic a b c d e z2 * l2 + quartic a b c d e z3 * l3 + quartic a b c d e z4 * l4 + quartic a b c d e z5 * l5 =
      a * (l1 + l2 + l3 + l4 + l5)
    + b * (l1 * z1 + l2 * z2 + l3 * z3 + l4 * z4 + l5 * z5)
    + c * (l1 * (z1 * z1) + l2 * (z2 * z2) + l3 * (z3 * z3) + l4 * (z4 * z4) + l5 * (z5 * z5))
    + d * (l1 * (z1 * z1 * z1) + l2 * (z2 * z2 * z2) + l3 * (z3 * z3 * z3) + l4 * (z4 * z4 * z4) + l5 * (z5 * z5 * z5))
    + e * (l1 * (z1 * z1 * z1 * z1) + l2 * (z2 * z2 * z2 * z2) + l3 * (z3 * z3 * z3 * z3) + l4 * (z4 * z4 * z4 * z4) + l5 * (z5 * z5 * z5 * z5))"
    by (simp add: quartic_def algebra_simps)
  then show ?thesis using assms by simp
qed

definition share_at :: "nat \<Rightarrow> galois \<Rightarrow> shamir_share" where
  "share_at i y = \<lparr>share_id = i, share_y = y\<rparr>"

lemma reconstruct_deg_2_eq:
  "reconstruct_deg_2_shares [share_at 1 y1, share_at 2 y2, share_at 3 y3] =
     Some (y1 * (Galois 1 2 2 2) + y2 * (Galois 65535 65534 65534 65534) + y3 * (Galois 1 0 0 0))"
  by (simp add: reconstruct_deg_2_shares_def deg_2_lagrange_polys_eq weighted_def share_at_def)

lemma reconstruct_deg_4_eq:
  "reconstruct_deg_4_shares [share_at 1 y1, share_at 2 y2, share_at 3 y3, share_at 4 y4, share_at 5 y5] =
     Some (y1 * (Galois 7 12 10 8) + y2 * (Galois 37435 28061 9341 46794) + y3 * (Galois 65535 65531 65533 65532)
           + y4 * (Galois 8 17 13 12) + y5 * (Galois 28088 37451 56175 18726))"
  by (simp add: reconstruct_deg_4_shares_def deg_4_lagrange_polys_eq weighted_def share_at_def)

lemma reconstruct_quadratic:
  assumes "\<And>z. f z = a + b * z + c * (z * z)"
  shows "reconstruct_deg_2_shares (map (\<lambda>i. share_at i (f (EXCEPTIONAL_SEQUENCE ! i))) [1..<4]) = Some a"
  unfolding upt_1_4 assms
  by (simp only: list.map reconstruct_deg_2_eq, rule arg_cong [where f = Some], rule interpolate_deg_2)
    (simp_all add: points galois_ops)

lemma reconstruct_quartic:
  assumes "\<And>z. f z = quartic a b c d e z"
  shows "reconstruct_deg_4_shares (map (\<lambda>i. share_at i (f (EXCEPTIONAL_SEQUENCE ! i))) [1..<6]) = Some a"
  unfolding upt_1_6 assms
  by (simp only: list.map reconstruct_deg_4_eq, rule arg_cong [where f = Some], rule interpolate_deg_4)
    (simp_all add: points galois_ops)

text \<open>The weighted products of two sharings sum to the product of the secrets.\<close>

lemma weighted_products_3:
  defines "z1 \<equiv> EXCEPTIONAL_SEQUENCE ! 1" and "z2 \<equiv> EXCEPTIONAL_SEQUENCE ! 2"
    and "z3 \<equiv> EXCEPTIONAL_SEQUENCE ! 3"
  assumes "deg_2_lagrange_polys_at_zero = Some [l1, l2, l3]"
  shows "(x + r * z1) * l1 * (y + u * z1) + (x + r * z2) * l2 * (y + u * z2)
       + (x + r * z3) * l3 * (y + u * z3) = x * y"
proof -
  have e: "(x + r * z) * l * (y + u * z) = (x * y + (x * u + r * y) * z + r * u * (z * z)) * l" for z l
    by (simp add: algebra_simps)
  have "l1 = Galois 1 2 2 2" "l2 = Galois 65535 65534 65534 65534" "l3 = Galois 1 0 0 0"
    using assms(4) by (simp_all add: deg_2_lagrange_polys_eq)
  then show ?thesis
    unfolding e by (intro interpolate_deg_2) (simp_all add: assms(1-3) points galois_ops)
qed

text \<open>Share-wise products of two lists of shares; a mismatch of ids would be a panic.\<close>

definition products :: "shamir_share list \<Rightarrow> shamir_share list \<Rightarrow> shamir_share list option" where
  "products ss ts = those (map (\<lambda>(s, t). shamir_mul s t) (zip ss ts))"

lemma encode_3_eq: "encode_3 x r = map (\<lambda>i. share_at i (x + r * EXCEPTIONAL_SEQUENCE ! i)) [1..<4]"
  by (simp add: encode_3_def share_at_def Let_def)

lemma encode_5_eq:
  "encode_5 x r t = map (\<lambda>i. share_at i (x + (r + t * EXCEPTIONAL_SEQUENCE ! i) * EXCEPTIONAL_SEQUENCE ! i)) [1..<6]"
  by (simp add: encode_5_def share_at_def Let_def upt_1_6 upt_0_5 numeral_eq_Suc)

lemma products_map:
  "products (map (\<lambda>i. share_at i (f i)) is) (map (\<lambda>i. share_at i (g i)) is) =
     Some (map (\<lambda>i. share_at i (f i * g i)) is)"
  by (induction "is") (simp_all add: products_def share_at_def shamir_mul_def)

lemma deg_1_lagrange_polys_eq:
  "deg_1_lagrange_polys_at_zero ID0 ID1 = Some (Galois 1 1 1 1)"
  "deg_1_lagrange_polys_at_zero ID0 ID2 = Some (Galois 0 0 0 1)"
  "deg_1_lagrange_polys_at_zero ID1 ID0 = Some (Galois 0 65535 65535 65535)"
  "deg_1_lagrange_polys_at_zero ID1 ID2 = Some (Galois 1 1 0 0)"
  "deg_1_lagrange_polys_at_zero ID2 ID0 = Some (Galois 1 0 0 65535)"
  "deg_1_lagrange_polys_at_zero ID2 ID1 = Some (Galois 0 65535 0 0)"
  unfolding deg_1_lagrange_polys_at_zero_def Let_def
  by (simp_all add: point_inverses del: One_nat_def) (simp_all add: points galois_ops)

section \<open>Properties\<close>

lemma encode_3_products:
  "Option.bind (products (encode_3_mat (coefs x) (coefs r)) (encode_3_mat (coefs y) (coefs u)))
     reconstruct_deg_2_shares = Some (x * y)"
proof -
  have "(x + r * z) * (y + u * z) = x * y + (x * u + r * y) * z + r * u * (z * z)" for z
    by (simp add: algebra_simps)
  from reconstruct_quadratic [OF this] show ?thesis
    unfolding encode_3_mat_eq encode_3_eq products_map by simp
qed

lemma encode_5_products:
  "Option.bind (products (encode_5_mat (coefs x) r t) (encode_5_mat (coefs y) u v))
     reconstruct_deg_4_shares = Some (x * y)"
proof -
  have "(x + (r + t * z) * z) * (y + (u + v * z) * z) =
      quartic (x * y) (x * u + r * y) (x * v + r * u + t * y) (r * v + t * u) (t * v) z" for z
    by (simp add: quartic_def algebra_simps)
  from reconstruct_quartic [OF this] show ?thesis
    unfolding encode_5_mat_eq encode_5_eq products_map by simp
qed

text \<open>
  C22: multiplication of shared secrets. Sharing two secrets with \<open>encode_3_mat\<close> (any
  randomness), multiplying the shares party by party and reconstructing with the degree-2
  Lagrange coefficients succeeds and gives the product of the two secrets; the same holds for
  \<open>encode_5_mat\<close> (sharing polynomials of degree 2) and the degree-4 coefficients over five
  shares. The scalar circuits compute the shares of the ring-level encoders from the same
  randomness.
\<close>

theorem shared_products_reconstruct:
  "Option.bind (products (encode_3_mat (coefs x) (coefs r)) (encode_3_mat (coefs y) (coefs u)))
     reconstruct_deg_2_shares = Some (x * y)
   \<and> Option.bind (products (encode_5_mat (coefs x) r' t) (encode_5_mat (coefs y) u' v))
       reconstruct_deg_4_shares = Some (x * y)
   \<and> encode_3_mat (coefs x) (coefs r) = encode_3 x r \<and> encode_5_mat (coefs x) r' t = encode_5 x r' t"
  by (intro conjI encode_3_products encode_5_products) (simp_all add: encode_3_mat_eq encode_5_mat_eq)

text \<open>
  Any two of the three parties reconstruct. Whatever the randomness of the dealer, two
  different parties that weight their shares with their degree-1 Lagrange coefficients get
  the secret as the sum.
\<close>

theorem any_two_of_three_reconstruct:
  assumes "i \<noteq> j"
  shows "\<exists>li lj. deg_1_lagrange_polys_at_zero i j = Some li \<and> deg_1_lagrange_polys_at_zero j i = Some lj
       \<and> share_y (encode_3 x r ! usize_from_party i) * li
         + share_y (encode_3 x r ! usize_from_party j) * lj = x"
proof -
  have enc: "encode_3 x r = [share_at 1 (x + r * Galois 1 0 0 0), share_at 2 (x + r * Galois 0 1 0 0),
      share_at 3 (x + r * Galois 1 1 0 0)]"
    unfolding encode_3_eq upt_1_4 by (simp add: points)
  have lin: "(x + r * z1) * l1 + (x + r * z2) * l2 = x"
    if "l1 + l2 = 1" "z1 * l1 + z2 * l2 = 0" for z1 z2 l1 l2
  proof -
    have "(x + r * z1) * l1 + (x + r * z2) * l2 = x * (l1 + l2) + r * (z1 * l1 + z2 * l2)"
      by (simp add: algebra_simps)
    then show ?thesis using that by simp
  qed
  show ?thesis
    using assms unfolding enc
    by (cases i; cases j)
      (simp_all add: deg_1_lagrange_polys_eq share_at_def, (rule lin; simp add: galois_ops)+)
qed

theorem any_two_of_three_reconstruct_witness:
  "\<exists>li lj. deg_1_lagrange_polys_at_zero ID2 ID0 = Some li \<and> deg_1_lagrange_polys_at_zero ID0 ID2 = Some lj
     \<and> share_y (encode_3 (Galois 5 6 7 8) (Galois 9 1 2 3) ! usize_from_party ID2) * li
       + share_y (encode_3 (Galois 5 6 7 8) (Galois 9 1 2 3) ! usize_from_party ID0) * lj = Galois 5 6 7 8"
  by (rule any_two_of_three_reconstruct) simp

end
