(* ===== verification/Embedding.thy ===== *)
theory Embedding
  imports Shamir
begin

text \<open>
  Embedding vectors (\<open>ampc-secret-sharing/src/iris_vector.rs\<close> and \<open>face_vector.rs\<close>): 512
  signed bytes, secret-shared in blocks of four through basis A of the Galois ring; the
  preparation of a share with its Lagrange coefficient in basis B; the wire forms. The
  random coefficients of an iteration are the argument \<open>rng\<close>, indexed by the block. The
  main result is what the whole construction is for: the inner products of prepared
  shares with shares, summed over the three parties, give the inner product of the vectors.
  The sampling functions work on floating-point numbers and are left out.
\<close>

type_synonym i8 = "8 word"
type_synonym i16 = "16 word"

definition IRIS_VECTOR_SIZE :: nat where
  "IRIS_VECTOR_SIZE = 512"

definition FACE_VECTOR_SIZE :: nat where
  "FACE_VECTOR_SIZE = 512"

datatype vector_error =
  NotDivisibleBy4 | WrongLength nat nat | TryFromIntError | Base64Error

section \<open>Plain vectors\<close>

text \<open>The sum of \<open>i16\<close> products, with the wrap-around of the release build.\<close>

definition iris_dot :: "i8 list \<Rightarrow> i8 list \<Rightarrow> i16" where
  "iris_dot self other = foldl (+) 0 (map (\<lambda>(a, b). (scast a :: i16) * scast b) (zip self other))"

definition face_dot :: "i8 list \<Rightarrow> i8 list \<Rightarrow> i16" where
  "face_dot self other = foldl (+) 0 (map (\<lambda>(a, b). (scast a :: i16) * scast b) (zip self other))"

section \<open>Secret sharing\<close>

text \<open>\<open>(0..size).step_by(4)\<close>, the block at an index, and the four stores of an iteration.\<close>

definition step_by_4 :: "nat \<Rightarrow> nat list" where
  "step_by_4 n = map (\<lambda>k. 4 * k) [0..<div_ceil n 4]"

definition block_A :: "i8 list \<Rightarrow> nat \<Rightarrow> galois_A" where
  "block_A v i = GaloisA (scast (v ! i)) (scast (v ! (i + 1))) (scast (v ! (i + 2))) (scast (v ! (i + 3)))"

fun store4 :: "u16 list \<Rightarrow> nat \<Rightarrow> coefs4 \<Rightarrow> u16 list" where
  "store4 arr i (c0, c1, c2, c3) = arr[i := c0, i + 1 := c1, i + 2 := c2, i + 3 := c3]"

fun secret_share_loop ::
  "(coefs4 \<Rightarrow> nat \<Rightarrow> shamir_share list) \<Rightarrow> i8 list \<Rightarrow> nat list \<Rightarrow> u16 list list \<Rightarrow> u16 list list" where
  "secret_share_loop enc v [] sh = sh"
| "secret_share_loop enc v (i # is) sh =
     (let element = to_monomial (block_A v i);
          share = enc (coefs element) i
      in secret_share_loop enc v is (map (\<lambda>(arr, s). store4 arr i (coefs (share_y s))) (zip sh share)))"

definition iris_secret_share :: "i8 list \<Rightarrow> (nat \<Rightarrow> coefs4) \<Rightarrow> vector_error + u16 list list" where
  "iris_secret_share self rng =
     (if IRIS_VECTOR_SIZE mod 4 \<noteq> 0 then Inl NotDivisibleBy4
      else Inr (secret_share_loop (\<lambda>c i. encode_3_mat c (rng i)) self (step_by_4 IRIS_VECTOR_SIZE)
                  (replicate 3 (replicate IRIS_VECTOR_SIZE 0))))"

definition iris_secret_share_5_parties ::
  "i8 list \<Rightarrow> (nat \<Rightarrow> galois) \<Rightarrow> (nat \<Rightarrow> galois) \<Rightarrow> vector_error + u16 list list" where
  "iris_secret_share_5_parties self rng_r rng_t =
     (if IRIS_VECTOR_SIZE mod 4 \<noteq> 0 then Inl NotDivisibleBy4
      else Inr (secret_share_loop (\<lambda>c i. encode_5_mat c (rng_r i) (rng_t i)) self (step_by_4 IRIS_VECTOR_SIZE)
                  (replicate 5 (replicate IRIS_VECTOR_SIZE 0))))"

definition face_secret_share :: "i8 list \<Rightarrow> (nat \<Rightarrow> coefs4) \<Rightarrow> vector_error + u16 list list" where
  "face_secret_share self rng =
     (if FACE_VECTOR_SIZE mod 4 \<noteq> 0 then Inl NotDivisibleBy4
      else Inr (secret_share_loop (\<lambda>c i. encode_3_mat c (rng i)) self (step_by_4 FACE_VECTOR_SIZE)
                  (replicate 3 (replicate FACE_VECTOR_SIZE 0))))"

section \<open>Preparing a share\<close>

fun coefs_B :: "galois_B \<Rightarrow> coefs4" where
  "coefs_B (GaloisB c0 c1 c2 c3) = (c0, c1, c2, c3)"

definition block :: "u16 list \<Rightarrow> nat \<Rightarrow> galois" where
  "block arr i = Galois (arr ! i) (arr ! (i + 1)) (arr ! (i + 2)) (arr ! (i + 3))"

fun lagrange_mul_loop :: "galois \<Rightarrow> nat list \<Rightarrow> u16 list \<Rightarrow> u16 list" where
  "lagrange_mul_loop l [] arr = arr"
| "lagrange_mul_loop l (i # is) arr =
     (let element = block arr i * l
      in lagrange_mul_loop l is (store4 arr i (coefs_B (to_basis_B element))))"

text \<open>An id outside 1 to 3 is an index out of range.\<close>

definition iris_multiply_lagrange_coeffs :: "u16 list \<Rightarrow> nat \<Rightarrow> u16 list option" where
  "iris_multiply_lagrange_coeffs self i =
     (case deg_2_lagrange_polys_at_zero of
        None \<Rightarrow> None
      | Some ls \<Rightarrow>
          if 1 \<le> i \<and> i \<le> length ls
          then Some (lagrange_mul_loop (ls ! (i - 1)) (step_by_4 (length self)) self) else None)"

definition face_multiply_lagrange_coeffs :: "u16 list \<Rightarrow> nat \<Rightarrow> u16 list option" where
  "face_multiply_lagrange_coeffs self i =
     (case deg_2_lagrange_polys_at_zero of
        None \<Rightarrow> None
      | Some ls \<Rightarrow>
          if 1 \<le> i \<and> i \<le> length ls
          then Some (lagrange_mul_loop (ls ! (i - 1)) (step_by_4 (length self)) self) else None)"

section \<open>Wire forms\<close>

text \<open>
  The base64 engine is a parameter: \<open>b64_encode\<close> and \<open>b64_decode\<close>. An array of the source
  has its length in its type; here it is the list that has it.
\<close>

fun try_u16s :: "u32 list \<Rightarrow> u16 list option" where
  "try_u16s [] = Some []"
| "try_u16s (x # xs) =
     (if unat x < 65536 then map_option (Cons (ucast x)) (try_u16s xs) else None)"

definition iris_from_protobuf_share :: "u32 list \<Rightarrow> vector_error + u16 list" where
  "iris_from_protobuf_share pb =
     (if length pb \<noteq> IRIS_VECTOR_SIZE then Inl (WrongLength IRIS_VECTOR_SIZE (length pb))
      else case try_u16s pb of None \<Rightarrow> Inl TryFromIntError | Some arr \<Rightarrow> Inr arr)"

definition iris_to_base64 :: "(u8 list \<Rightarrow> string) \<Rightarrow> i8 list \<Rightarrow> string" where
  "iris_to_base64 b64_encode self = b64_encode (map (\<lambda>v. ucast v :: u8) self)"

definition iris_from_base64 :: "(string \<Rightarrow> u8 list option) \<Rightarrow> string \<Rightarrow> vector_error + i8 list" where
  "iris_from_base64 b64_decode s =
     (case b64_decode s of
        None \<Rightarrow> Inl Base64Error
      | Some bs \<Rightarrow>
          if length bs \<noteq> IRIS_VECTOR_SIZE then Inl (WrongLength IRIS_VECTOR_SIZE (length bs))
          else Inr (map (\<lambda>b. ucast b :: i8) bs))"

definition iris_share_to_base64 :: "(u8 list \<Rightarrow> string) \<Rightarrow> u16 list \<Rightarrow> string" where
  "iris_share_to_base64 b64_encode self = b64_encode (concat (map (to_le_bytes 2) self))"

definition iris_share_from_base64 :: "(string \<Rightarrow> u8 list option) \<Rightarrow> string \<Rightarrow> vector_error + u16 list" where
  "iris_share_from_base64 b64_decode s =
     (case b64_decode s of
        None \<Rightarrow> Inl Base64Error
      | Some bs \<Rightarrow>
          if length bs \<noteq> IRIS_VECTOR_SIZE * 2 then Inl (WrongLength (IRIS_VECTOR_SIZE * 2) (length bs))
          else Inr (map (\<lambda>c. from_le_bytes [c ! 0, c ! 1]) (chunks_exact 2 bs)))"

text \<open>Deserialising either share vector checks the number of elements read.\<close>

definition iris_share_deserialize :: "u16 list \<Rightarrow> vector_error + u16 list" where
  "iris_share_deserialize vec =
     (if length vec \<noteq> IRIS_VECTOR_SIZE then Inl (WrongLength IRIS_VECTOR_SIZE (length vec)) else Inr vec)"

definition face_share_deserialize :: "u16 list \<Rightarrow> vector_error + u16 list" where
  "face_share_deserialize vec =
     (if length vec \<noteq> FACE_VECTOR_SIZE then Inl (WrongLength FACE_VECTOR_SIZE (length vec)) else Inr vec)"

section \<open>The loops, block by block\<close>

lemma length_store4 [simp]: "length (store4 arr i c) = length arr"
  by (cases c) simp

lemma block_store4_same:
  "i + 3 < length arr \<Longrightarrow> block (store4 arr i c) i = from_coefs c"
  by (cases c) (simp add: block_def)

lemma block_store4_other:
  "i + 4 \<le> k \<or> k + 4 \<le> i \<Longrightarrow> block (store4 arr i c) k = block arr k"
  by (cases c) (auto simp: block_def nth_list_update)

lemma from_coefs_coefs [simp]: "from_coefs (coefs x) = x"
  by (cases x) simp

text \<open>Each prepared block is the \<open>B\<close> form of the share's block times the coefficient.\<close>

lemma length_lagrange_mul_loop [simp]: "length (lagrange_mul_loop l is arr) = length arr"
  by (induction "is" arbitrary: arr) (simp_all add: Let_def)

lemma block_lagrange_mul_loop:
  assumes "4 * n \<le> length arr" "m \<le> n"
  shows "block (lagrange_mul_loop l (map (\<lambda>k. 4 * k) [m..<n]) arr) (4 * k) =
    (if m \<le> k \<and> k < n then from_coefs (coefs_B (to_basis_B (block arr (4 * k) * l))) else block arr (4 * k))"
  using assms
proof (induction "n - m" arbitrary: m arr)
  case 0
  then show ?case by auto
next
  case (Suc d)
  then have m: "m < n" by simp
  let ?arr = "store4 arr (4 * m) (coefs_B (to_basis_B (block arr (4 * m) * l)))"
  have other: "block ?arr (4 * k) = block arr (4 * k)" if "k \<noteq> m" for k
    using that by (intro block_store4_other) auto
  have same: "block ?arr (4 * m) = from_coefs (coefs_B (to_basis_B (block arr (4 * m) * l)))"
    using Suc.prems m by (intro block_store4_same) simp
  have "block (lagrange_mul_loop l (map (\<lambda>k. 4 * k) [m..<n]) arr) (4 * k) =
      block (lagrange_mul_loop l (map (\<lambda>k. 4 * k) [Suc m..<n]) ?arr) (4 * k)"
    using m by (simp add: upt_conv_Cons Let_def)
  also have "\<dots> = (if Suc m \<le> k \<and> k < n then from_coefs (coefs_B (to_basis_B (block ?arr (4 * k) * l)))
      else block ?arr (4 * k))"
    using Suc m by (intro Suc.hyps) simp_all
  finally show ?case using other same m by (cases "k = m") auto
qed

text \<open>Each block of party \<open>j\<close>'s array is the value of its share of that block.\<close>

lemma block_secret_share_loop:
  assumes "4 * n \<le> N" "m \<le> n" "\<forall>arr \<in> set sh. length arr = N" "j < length sh"
    and len: "\<And>c i. length (enc c i) = length sh"
  shows "length (secret_share_loop enc v (map (\<lambda>k. 4 * k) [m..<n]) sh) = length sh
    \<and> length (secret_share_loop enc v (map (\<lambda>k. 4 * k) [m..<n]) sh ! j) = N
    \<and> block (secret_share_loop enc v (map (\<lambda>k. 4 * k) [m..<n]) sh ! j) (4 * k) =
        (if m \<le> k \<and> k < n then share_y (enc (coefs (to_monomial (block_A v (4 * k)))) (4 * k) ! j)
         else block (sh ! j) (4 * k))"
  using assms
proof (induction "n - m" arbitrary: m sh)
  case 0
  then show ?case by auto
next
  case (Suc d)
  then have m: "m < n" by simp
  let ?e = "enc (coefs (to_monomial (block_A v (4 * m)))) (4 * m)"
  let ?sh = "map (\<lambda>(arr, s). store4 arr (4 * m) (coefs (share_y s))) (zip sh ?e)"
  have step: "secret_share_loop enc v (map (\<lambda>k. 4 * k) [m..<n]) sh =
      secret_share_loop enc v (map (\<lambda>k. 4 * k) [Suc m..<n]) ?sh"
    using m by (simp add: upt_conv_Cons Let_def)
  have l: "length ?sh = length sh" using Suc.prems by simp
  have j: "?sh ! j = store4 (sh ! j) (4 * m) (coefs (share_y (?e ! j)))" using Suc.prems by simp
  have b: "block (?sh ! j) (4 * k) =
      (if k = m then share_y (?e ! j) else block (sh ! j) (4 * k))" for k
    unfolding j using Suc.prems m by (auto simp: block_store4_same intro!: block_store4_other)
  have all: "\<forall>arr \<in> set ?sh. length arr = N" using Suc.prems by (auto dest!: set_zip_leftD)
  have d: "d = n - Suc m" "Suc m \<le> n" "j < length ?sh" using Suc.hyps(2) Suc.prems m l by simp_all
  note IH = Suc.hyps(1) [OF d(1) Suc.prems(1) d(2) all d(3)]
  have "length (secret_share_loop enc v (map (\<lambda>k. 4 * k) [Suc m..<n]) ?sh) = length sh
    \<and> length (secret_share_loop enc v (map (\<lambda>k. 4 * k) [Suc m..<n]) ?sh ! j) = N
    \<and> block (secret_share_loop enc v (map (\<lambda>k. 4 * k) [Suc m..<n]) ?sh ! j) (4 * k) =
        (if Suc m \<le> k \<and> k < n then share_y (enc (coefs (to_monomial (block_A v (4 * k)))) (4 * k) ! j)
         else block (?sh ! j) (4 * k))"
    using IH Suc.prems(5) by (simp only: l)
  then show ?case unfolding step b using m by (simp only: l) auto
qed

section \<open>Inner products\<close>

text \<open>What a party computes on a prepared share and a share: the wrapping inner product.\<close>

definition share_dot :: "u16 list \<Rightarrow> u16 list \<Rightarrow> u16" where
  "share_dot xs ys = (\<Sum>i < length xs. xs ! i * ys ! i)"

text \<open>The first \<open>B\<close> coefficient is linear, and pairs \<open>B\<close> forms with monomial forms.\<close>

fun trace_B :: "galois \<Rightarrow> u16" where
  "trace_B (Galois c0 c1 c2 c3) = fst (coefs_B (to_basis_B (Galois c0 c1 c2 c3)))"

fun inner4 :: "coefs4 \<Rightarrow> coefs4 \<Rightarrow> u16" where
  "inner4 (a0, a1, a2, a3) (b0, b1, b2, b3) = a0 * b0 + a1 * b1 + a2 * b2 + a3 * b3"

lemma trace_B_add: "trace_B (x + y) = trace_B x + trace_B y"
  by (cases x; cases y) (simp add: plus_galois_def algebra_simps)

lemma inner4_to_basis_B: "inner4 (coefs_B (to_basis_B x)) (coefs y) = trace_B (x * y)"
  by (cases x; cases y) (simp add: times_galois_def algebra_simps, simp add: u16_numeral_0)

lemma trace_B_to_monomial:
  "trace_B (to_monomial (GaloisA a0 a1 a2 a3) * to_monomial (GaloisA b0 b1 b2 b3)) =
     inner4 (a0, a1, a2, a3) (b0, b1, b2, b3)"
  by (simp add: times_galois_def algebra_simps, simp add: u16_numeral_0)

lemma sum_blocks_of_4:
  fixes f :: "nat \<Rightarrow> 'a::comm_monoid_add"
  shows "(\<Sum>i < 4 * n. f i) = (\<Sum>k < n. f (4 * k) + f (4 * k + 1) + f (4 * k + 2) + f (4 * k + 3))"
proof (induction n)
  case (Suc n)
  have e: "4 * Suc n = Suc (Suc (Suc (Suc (4 * n))))" by simp
  show ?case unfolding e sum.lessThan_Suc Suc.IH by (simp add: add.assoc numeral_eq_Suc)
qed simp

lemma share_dot_blocks:
  assumes "length xs = 4 * n"
  shows "share_dot xs ys = (\<Sum>k < n. inner4 (coefs (block xs (4 * k))) (coefs (block ys (4 * k))))"
  by (simp add: share_dot_def assms sum_blocks_of_4 block_def)

lemma foldl_add_zip_sum:
  fixes f :: "'a \<Rightarrow> 'b \<Rightarrow> 'c::comm_monoid_add"
  assumes "length xs = length ys"
  shows "foldl (+) c (map (\<lambda>(a, b). f a b) (zip xs ys)) = c + (\<Sum>i < length xs. f (xs ! i) (ys ! i))"
  using assms
  by (induction xs ys arbitrary: c rule: list_induct2)
    (simp_all add: sum.lessThan_Suc_shift add.assoc del: sum.lessThan_Suc)

lemma dot_blocks:
  assumes "length v = 4 * n" "length w = 4 * n"
  shows "foldl (+) 0 (map (\<lambda>(a, b). (scast a :: i16) * scast b) (zip v w)) =
    (\<Sum>k < n. trace_B (to_monomial (block_A v (4 * k)) * to_monomial (block_A w (4 * k))))"
  using assms unfolding block_A_def trace_B_to_monomial by (simp add: foldl_add_zip_sum sum_blocks_of_4)

text \<open>Prepared and plain shares of two vectors, over all three parties.\<close>

definition share3_blocks :: "i8 list \<Rightarrow> (nat \<Rightarrow> coefs4) \<Rightarrow> nat \<Rightarrow> u16 list list" where
  "share3_blocks v rng n =
     secret_share_loop (\<lambda>c i. encode_3_mat c (rng i)) v (step_by_4 n) (replicate 3 (replicate n 0))"

lemma coefs_from_coefs [simp]: "coefs (from_coefs c) = c"
  by (cases c) simp

lemma length_encode_3_mat [simp]: "length (encode_3_mat c r) = 3"
  by (cases c; cases r) (simp add: Let_def)

lemma step_by_4_blocks: "step_by_4 (4 * n) = map (\<lambda>k. 4 * k) [0..<n]"
  unfolding step_by_4_def by (simp add: mult.commute)

lemma encode_3_mat_nth:
  assumes "j < 3"
  shows "share_y (encode_3_mat (coefs x) c ! j) = x + from_coefs c * EXCEPTIONAL_SEQUENCE ! (j + 1)"
proof -
  have "encode_3_mat (coefs x) c = encode_3 x (from_coefs c)"
    using encode_3_mat_eq [of x "from_coefs c"] by simp
  with assms show ?thesis by (simp add: encode_3_def Let_def)
qed

lemma share3_blocks:
  assumes "j < 3"
  shows "length (share3_blocks v rng (4 * n)) = 3" "length (share3_blocks v rng (4 * n) ! j) = 4 * n"
    and "k < n \<Longrightarrow> block (share3_blocks v rng (4 * n) ! j) (4 * k) =
      to_monomial (block_A v (4 * k)) + from_coefs (rng (4 * k)) * EXCEPTIONAL_SEQUENCE ! (j + 1)"
proof -
  note loop = block_secret_share_loop [where n = n and N = "4 * n" and m = 0 and j = j
      and sh = "replicate 3 (replicate (4 * n) 0)" and enc = "\<lambda>c i. encode_3_mat c (rng i)" and v = v]
  show "length (share3_blocks v rng (4 * n)) = 3" "length (share3_blocks v rng (4 * n) ! j) = 4 * n"
    using loop [of 0] assms unfolding share3_blocks_def step_by_4_blocks by simp_all
  show "block (share3_blocks v rng (4 * n) ! j) (4 * k) =
      to_monomial (block_A v (4 * k)) + from_coefs (rng (4 * k)) * EXCEPTIONAL_SEQUENCE ! (j + 1)" if "k < n"
    using loop [of k] assms that unfolding share3_blocks_def step_by_4_blocks
    by (simp add: encode_3_mat_nth)
qed

lemma prepared_dot:
  assumes "length xs = 4 * n"
  shows "share_dot (lagrange_mul_loop l (step_by_4 (length xs)) xs) ys =
    (\<Sum>k < n. trace_B (block xs (4 * k) * l * block ys (4 * k)))"
proof -
  have "share_dot (lagrange_mul_loop l (step_by_4 (length xs)) xs) ys =
      (\<Sum>k < n. inner4 (coefs (block (lagrange_mul_loop l (step_by_4 (length xs)) xs) (4 * k)))
        (coefs (block ys (4 * k))))"
    using assms by (intro share_dot_blocks) simp
  also have "\<dots> = (\<Sum>k < n. trace_B (block xs (4 * k) * l * block ys (4 * k)))"
    unfolding assms step_by_4_blocks using assms
    by (intro sum.cong refl) (simp add: block_lagrange_mul_loop inner4_to_basis_B)
  finally show ?thesis .
qed

lemma three_party_dot:
  fixes v w :: "i8 list" and rng rng' :: "nat \<Rightarrow> coefs4"
  assumes "length v = 4 * n" "length w = 4 * n" "deg_2_lagrange_polys_at_zero = Some [l1, l2, l3]"
  defines "vs \<equiv> share3_blocks v rng (4 * n)" and "ws \<equiv> share3_blocks w rng' (4 * n)"
  shows "share_dot (lagrange_mul_loop l1 (step_by_4 (length (vs ! 0))) (vs ! 0)) (ws ! 0)
    + share_dot (lagrange_mul_loop l2 (step_by_4 (length (vs ! 1))) (vs ! 1)) (ws ! 1)
    + share_dot (lagrange_mul_loop l3 (step_by_4 (length (vs ! 2))) (vs ! 2)) (ws ! 2)
    = foldl (+) 0 (map (\<lambda>(a, b). (scast a :: i16) * scast b) (zip v w))"
proof -
  let ?f = "\<lambda>j l k. trace_B (block (vs ! j) (4 * k) * l * block (ws ! j) (4 * k))"
  have "?f 0 l1 k + ?f 1 l2 k + ?f 2 l3 k =
      trace_B (to_monomial (block_A v (4 * k)) * to_monomial (block_A w (4 * k)))" if "k < n" for k
  proof -
    have n: "(0::nat) + 1 = 1" "(1::nat) + 1 = 2" "(2::nat) + 1 = 3" by simp_all
    have j: "(0::nat) < 3" "(1::nat) < 3" "(2::nat) < 3" by simp_all
    show ?thesis
      unfolding trace_B_add [symmetric] vs_def ws_def j [THEN share3_blocks(3), OF that] n
        weighted_products_3 [OF assms(3)] ..
  qed
  then have "(\<Sum>k < n. ?f 0 l1 k + ?f 1 l2 k + ?f 2 l3 k) =
      foldl (+) 0 (map (\<lambda>(a, b). (scast a :: i16) * scast b) (zip v w))"
    using dot_blocks [OF assms(1,2)] by simp
  moreover have "length (vs ! 0) = 4 * n" "length (vs ! 1) = 4 * n" "length (vs ! 2) = 4 * n"
    unfolding vs_def by (rule share3_blocks(2), simp)+
  note this [THEN prepared_dot]
  ultimately show ?thesis by (simp only: sum.distrib)
qed

text \<open>The five shares of a block are points of the sharing polynomial.\<close>

lemma length_encode_5_mat [simp]: "length (encode_5_mat c r t) = 5"
  by (simp add: encode_5_mat_def Let_def)

lemma encode_5_mat_points:
  assumes "j < 5"
  shows "share_y (encode_5_mat (coefs x) r t ! j) =
    x + (r + t * EXCEPTIONAL_SEQUENCE ! (j + 1)) * EXCEPTIONAL_SEQUENCE ! (j + 1)"
  using assms unfolding encode_5_mat_eq by (simp add: encode_5_def Let_def)

lemma upt_5_shift: "map f [0..<5] = map (\<lambda>i. f (i - 1)) [1..<6]"
  unfolding upt_0_5 upt_1_6 by simp

text \<open>Reading back pairs of bytes, and small 32-bit numbers.\<close>

lemma le_pairs_round_trip:
  "map (\<lambda>c. from_le_bytes [c ! 0, c ! 1]) (chunks_exact 2 (concat (map (to_le_bytes 2) s))) = (s :: u16 list)"
proof (induction s)
  case (Cons a s)
  have pair: "[to_le_bytes 2 a ! 0, to_le_bytes 2 a ! 1] = to_le_bytes 2 a"
    by (intro nth_equalityI) (auto simp: less_Suc_eq numeral_2_eq_2)
  have "from_le_bytes [to_le_bytes 2 a ! 0, to_le_bytes 2 a ! 1] = a"
    unfolding pair by (rule from_to_le_bytes_id) simp
  with Cons show ?case by (simp add: chunks_exact_append del: from_le_bytes.simps)
qed simp

lemma try_u16s_ucast: "try_u16s (map ucast s) = Some s"
proof (induction s)
  case (Cons a s)
  have "unat (ucast a :: u32) < 65536" using unsigned_less [where 'a = nat, of a] by (simp add: unsigned_ucast_eq take_bit_nat_eq_self)
  moreover have "(ucast (ucast a :: u32) :: u16) = a"
    by (rule bit_word_eqI) (simp add: bit_ucast_iff)
  ultimately show ?case using Cons by simp
qed simp

section \<open>Properties\<close>

text \<open>
  C21: the inner product of shared embeddings. Sharing two vectors of 512 signed bytes among
  three parties always succeeds; each party multiplies its share of the first vector by its
  Lagrange coefficient (which is in range for all three) and takes the plain wrapping inner
  product with its share of the second; the three results add up to \<open>dot\<close> of the two
  vectors in 16-bit arithmetic. The same holds for face vectors.
\<close>

theorem three_party_inner_product:
  assumes "length v = 512" "length w = 512"
  shows "(\<exists>vs ws p1 p2 p3. iris_secret_share v rng = Inr vs \<and> iris_secret_share w rng' = Inr ws
      \<and> iris_multiply_lagrange_coeffs (vs ! 0) 1 = Some p1
      \<and> iris_multiply_lagrange_coeffs (vs ! 1) 2 = Some p2
      \<and> iris_multiply_lagrange_coeffs (vs ! 2) 3 = Some p3
      \<and> share_dot p1 (ws ! 0) + share_dot p2 (ws ! 1) + share_dot p3 (ws ! 2) = iris_dot v w)
    \<and> (\<exists>vs ws p1 p2 p3. face_secret_share v rng = Inr vs \<and> face_secret_share w rng' = Inr ws
      \<and> face_multiply_lagrange_coeffs (vs ! 0) 1 = Some p1
      \<and> face_multiply_lagrange_coeffs (vs ! 1) 2 = Some p2
      \<and> face_multiply_lagrange_coeffs (vs ! 2) 3 = Some p3
      \<and> share_dot p1 (ws ! 0) + share_dot p2 (ws ! 1) + share_dot p3 (ws ! 2) = face_dot v w)"
proof -
  obtain l1 l2 l3 where l: "deg_2_lagrange_polys_at_zero = Some [l1, l2, l3]"
    using deg_2_lagrange_polys_eq by blast
  have shares: "iris_secret_share v rng = Inr (share3_blocks v rng (4 * 128))"
    "face_secret_share v rng = Inr (share3_blocks v rng (4 * 128))" for v rng
    by (simp_all add: iris_secret_share_def face_secret_share_def share3_blocks_def
        IRIS_VECTOR_SIZE_def FACE_VECTOR_SIZE_def)
  have "length v = 4 * 128" "length w = 4 * 128" using assms by simp_all
  note dot = three_party_dot [OF this l, of rng rng']
  show ?thesis
    unfolding shares iris_multiply_lagrange_coeffs_def face_multiply_lagrange_coeffs_def l
      iris_dot_def face_dot_def
    using dot by (simp add: numeral_2_eq_2)
qed

theorem three_party_inner_product_witness:
  "\<exists>vs ws p1 p2 p3. iris_secret_share (replicate 512 (- 3)) (\<lambda>_. (1, 2, 3, 4)) = Inr vs
      \<and> iris_secret_share (replicate 512 5) (\<lambda>_. (9, 8, 7, 6)) = Inr ws
      \<and> iris_multiply_lagrange_coeffs (vs ! 0) 1 = Some p1
      \<and> iris_multiply_lagrange_coeffs (vs ! 1) 2 = Some p2
      \<and> iris_multiply_lagrange_coeffs (vs ! 2) 3 = Some p3
      \<and> share_dot p1 (ws ! 0) + share_dot p2 (ws ! 1) + share_dot p3 (ws ! 2) =
          iris_dot (replicate 512 (- 3)) (replicate 512 5)"
  by (rule three_party_inner_product [THEN conjunct1]) simp_all

text \<open>
  Five-party sharing loses nothing. For every vector of 512 signed bytes, the five
  arrays of \<open>secret_share_5_parties\<close> have 512 elements, and reconstructing any block of four
  from the five parties' blocks and going back to basis A gives the four bytes, sign-extended.
\<close>

theorem five_party_share_reconstructs:
  assumes "length v = 512" "k < 128"
  shows "\<exists>vs. iris_secret_share_5_parties v rng_r rng_t = Inr vs
      \<and> length vs = 5 \<and> (\<forall>j < 5. length (vs ! j) = 512)
      \<and> map_option to_basis_A (reconstruct_deg_4_shares
            (map (\<lambda>j. \<lparr>share_id = j + 1, share_y = block (vs ! j) (4 * k)\<rparr>) [0..<5])) =
          Some (GaloisA (scast (v ! (4 * k))) (scast (v ! (4 * k + 1)))
                  (scast (v ! (4 * k + 2))) (scast (v ! (4 * k + 3))))"
proof -
  let ?enc = "\<lambda>c i. encode_5_mat c (rng_r i) (rng_t i)"
  let ?vs = "secret_share_loop ?enc v (map (\<lambda>k. 4 * k) [0..<128]) (replicate 5 (replicate 512 0))"
  let ?x = "to_monomial (block_A v (4 * k))"
  let ?r = "rng_r (4 * k)" and ?t = "rng_t (4 * k)"
  have vs: "iris_secret_share_5_parties v rng_r rng_t = Inr ?vs"
    using step_by_4_blocks [of 128] by (simp add: iris_secret_share_5_parties_def IRIS_VECTOR_SIZE_def)
  have loop: "length ?vs = 5 \<and> length (?vs ! j) = 512 \<and>
      block (?vs ! j) (4 * k) = ?x + (?r + ?t * EXCEPTIONAL_SEQUENCE ! (j + 1)) * EXCEPTIONAL_SEQUENCE ! (j + 1)"
    if "j < 5" for j
    using block_secret_share_loop [of 128 512 0 "replicate 5 (replicate 512 0)" j ?enc v k] that assms(2)
    by (simp add: encode_5_mat_points)
  let ?f = "\<lambda>z. ?x + (?r + ?t * z) * z"
  have "map (\<lambda>j. \<lparr>share_id = j + 1, share_y = block (?vs ! j) (4 * k)\<rparr>) [0..<5] =
      map (\<lambda>j. share_at (j + 1) (?f (EXCEPTIONAL_SEQUENCE ! (j + 1)))) [0..<5]"
    using loop by (intro map_cong refl) (simp add: share_at_def)
  also have "\<dots> = map (\<lambda>i. share_at i (?f (EXCEPTIONAL_SEQUENCE ! i))) [1..<6]"
    unfolding upt_5_shift by (intro map_cong refl) simp
  also have "reconstruct_deg_4_shares \<dots> = Some ?x"
    by (rule reconstruct_quartic [where b = ?r and c = ?t and d = 0 and e = 0])
      (simp add: quartic_def algebra_simps)
  finally have rec: "map_option to_basis_A (reconstruct_deg_4_shares
      (map (\<lambda>j. \<lparr>share_id = j + 1, share_y = block (?vs ! j) (4 * k)\<rparr>) [0..<5])) = Some (block_A v (4 * k))"
    by (simp only: option.map to_basis_A_to_monomial)
  have "length ?vs = 5 \<and> (\<forall>j < 5. length (?vs ! j) = 512)" using loop [of 0] loop by simp
  with vs rec show ?thesis unfolding block_A_def by blast
qed

theorem five_party_share_reconstructs_witness:
  "\<exists>vs. iris_secret_share_5_parties (replicate 512 (- 7)) (\<lambda>i. Galois (of_nat i) 2 3 4) (\<lambda>_. Galois 4 3 2 1) = Inr vs
      \<and> length vs = 5 \<and> (\<forall>j < 5. length (vs ! j) = 512)
      \<and> map_option to_basis_A (reconstruct_deg_4_shares
            (map (\<lambda>j. \<lparr>share_id = j + 1, share_y = block (vs ! j) (4 * 100)\<rparr>) [0..<5])) =
          Some (GaloisA (- 7) (- 7) (- 7) (- 7))"
proof -
  have "nth (replicate 512 (- 7 :: i8)) i = - 7" if "i < 512" for i using that by simp
  moreover have "(scast (- 7 :: i8) :: u16) = - 7" by simp
  ultimately show ?thesis
    using five_party_share_reconstructs [of "replicate 512 (- 7)" 100 "\<lambda>i. Galois (of_nat i) 2 3 4"
      "\<lambda>_. Galois 4 3 2 1"] by simp
qed

text \<open>
  The wire forms of a vector and of a share. With a base64 engine that decodes what it
  encodes, both base64 forms read back the value they were made from, and so does the list
  of 32-bit numbers of the protobuf form; a decoded text of any other length is an error.
\<close>

theorem wire_forms_round_trip:
  assumes "\<forall>bs. b64_decode (b64_encode bs) = Some bs" "length v = 512" "length s = 512"
  shows "iris_from_base64 b64_decode (iris_to_base64 b64_encode v) = Inr v
    \<and> iris_share_from_base64 b64_decode (iris_share_to_base64 b64_encode s) = Inr s
    \<and> iris_from_protobuf_share (map ucast s) = Inr s
    \<and> (length bs \<noteq> 512 \<longrightarrow> iris_from_base64 b64_decode (b64_encode bs) = Inl (WrongLength 512 (length bs)))
    \<and> (length bs \<noteq> 1024 \<longrightarrow>
         iris_share_from_base64 b64_decode (b64_encode bs) = Inl (WrongLength 1024 (length bs)))"
proof -
  have "(ucast :: u8 \<Rightarrow> i8) = id" by (simp add: fun_eq_iff)
  moreover have "map (\<lambda>c. from_le_bytes [c ! 0, c ! 1]) (chunks_exact 2 (concat (map (to_le_bytes 2) s))) = s"
    by (rule le_pairs_round_trip)
  moreover have "try_u16s (map ucast s) = Some s" by (rule try_u16s_ucast)
  moreover have "length (concat (map (to_le_bytes 2) s)) = 1024"
    using assms(3) by (simp add: length_concat comp_def sum_list_triv)
  ultimately show ?thesis
    using assms unfolding iris_from_base64_def iris_to_base64_def iris_share_from_base64_def
      iris_share_to_base64_def iris_from_protobuf_share_def IRIS_VECTOR_SIZE_def
    by (simp del: map_map from_le_bytes.simps)
qed

theorem wire_forms_round_trip_witness:
  "let enc = map (\<lambda>b. char_of (unat (b::u8))); dec = (\<lambda>s. Some (map (\<lambda>c. of_nat (of_char c)) s))
   in iris_from_base64 dec (iris_to_base64 enc (replicate 512 (- 7))) = Inr (replicate 512 (- 7))
    \<and> iris_share_from_base64 dec (iris_share_to_base64 enc (replicate 512 40000)) = Inr (replicate 512 40000)
    \<and> iris_from_base64 dec (enc [1, 2, 3]) = Inl (WrongLength 512 3)"
proof -
  let ?enc = "map (\<lambda>b. char_of (unat (b::u8)))" and ?dec = "\<lambda>s. Some (map (\<lambda>c. of_nat (of_char c)) s)"
  have "of_char (char_of (unat b)) = unat b" for b :: u8
    using unsigned_less [where 'a = nat, of b] by simp
  then have "\<forall>bs. ?dec (?enc bs) = Some bs" by (simp add: comp_def)
  from wire_forms_round_trip [OF this, of "replicate 512 (- 7)" "replicate 512 40000" "[1, 2, 3]"]
  show ?thesis unfolding Let_def by simp
qed

end
