(* ===== verification/Net_Value.thy ===== *)
theory Net_Value
  imports Ring_Impl
begin

unbundle bit_operations_syntax

text \<open>
  The messages of the MPC network and their wire format
  (\<open>ampc-actor-utils/src/network/mpc/value.rs\<close>), for a little-endian target. A buffer is a
  byte list; functions append to it as the source does. Every failure of the source is a
  value: \<open>Err\<close> for \<open>bail!\<close> and \<open>?\<close>, \<open>Panic\<close> for an index out of range, \<open>expect\<close> and
  \<open>unreachable!\<close>. Proved: what is written is read back, what is read was written that way
  (the encoding is canonical), and bit packing is lossless.
\<close>

section \<open>Memory layout of ring elements\<close>

text \<open>
  The casts between ring elements and raw bytes: an integer is its little-endian bytes, a
  \<open>Ring48\<close> those of its inner \<open>u64\<close>.
\<close>

record 'a layout =
  bytes_of :: "'a \<Rightarrow> u8 list"
  of_bytes :: "u8 list \<Rightarrow> 'a"

definition word_layout :: "('a::len word) layout" where
  "word_layout = \<lparr>bytes_of = to_le_bytes (LENGTH('a) div 8), of_bytes = from_le_bytes\<rparr>"

fun ring48_bytes :: "Ring48 \<Rightarrow> u8 list" where
  "ring48_bytes (Ring48 x) = to_le_bytes 8 x"

definition ring48_layout :: "Ring48 layout" where
  "ring48_layout = \<lparr>bytes_of = ring48_bytes, of_bytes = (\<lambda>bs. Ring48 (from_le_bytes bs))\<rparr>"

definition serialize_vec_ring ::
  "'a int_ring2k \<Rightarrow> 'a layout \<Rightarrow> 'a RingElement list \<Rightarrow> u8 list \<Rightarrow> u8 list" where
  "serialize_vec_ring R L v res =
     (let wire_bytes = ring_BYTES R;
          byte_len = length v * wire_bytes;
          res = res @ to_le_bytes 4 (of_nat byte_len :: u32)
      in if wire_bytes = size_of R then res @ concat (map (\<lambda>x. bytes_of L (convert x)) v)
         else foldl (\<lambda>res x. res @ take wire_bytes (bytes_of L (convert x))) res v)"

section \<open>Values and descriptors\<close>

definition PRF_KEY_SIZE :: nat where
  "PRF_KEY_SIZE = 16"

record state_checksum =
  irises :: u64
  graph :: u64

datatype NetworkValue =
    PrfKey "u8 list"
  | RingElementBit "Bit RingElement"
  | RingElement16 "u16 RingElement"
  | RingElement32 "u32 RingElement"
  | RingElement64 "u64 RingElement"
  | VecRing16 "u16 RingElement list"
  | VecRing32 "u32 RingElement list"
  | VecRing64 "u64 RingElement list"
  | RingElement48 "Ring48 RingElement"
  | VecRing48 "Ring48 RingElement list"
  | StateChecksum state_checksum
  | NetworkVec "NetworkValue list"
  | PrfCheck "u128 RingElement"
  | Bytes "u8 list"
  | VecRingBit "u8 list" nat
  | PreFramed "u8 list"

datatype DescriptorByte =
    D_PrfKey | D_RingElementBit1 | D_RingElementBit0 | D_RingElement16 | D_RingElement32
  | D_RingElement64 | D_VecRing16 | D_VecRing32 | D_VecRing64 | D_StateChecksum | D_NetworkVec
  | D_PrfCheck | D_Bytes | D_RingElement48 | D_VecRing48 | D_VecRingBit

fun descriptor_into_u8 :: "DescriptorByte \<Rightarrow> u8" where
  "descriptor_into_u8 D_PrfKey = 0x01"
| "descriptor_into_u8 D_RingElementBit1 = 0x12"
| "descriptor_into_u8 D_RingElementBit0 = 0x02"
| "descriptor_into_u8 D_RingElement16 = 0x03"
| "descriptor_into_u8 D_RingElement32 = 0x04"
| "descriptor_into_u8 D_RingElement64 = 0x05"
| "descriptor_into_u8 D_VecRing16 = 0x06"
| "descriptor_into_u8 D_VecRing32 = 0x07"
| "descriptor_into_u8 D_VecRing64 = 0x08"
| "descriptor_into_u8 D_StateChecksum = 0x09"
| "descriptor_into_u8 D_NetworkVec = 0x0A"
| "descriptor_into_u8 D_PrfCheck = 0x0B"
| "descriptor_into_u8 D_Bytes = 0x0C"
| "descriptor_into_u8 D_RingElement48 = 0x0D"
| "descriptor_into_u8 D_VecRing48 = 0x0E"
| "descriptor_into_u8 D_VecRingBit = 0x0F"

text \<open>The derived \<open>TryFromPrimitive\<close>: the variant with that number, if there is one.\<close>

definition all_descriptors :: "DescriptorByte list" where
  "all_descriptors =
     [D_PrfKey, D_RingElementBit1, D_RingElementBit0, D_RingElement16, D_RingElement32,
      D_RingElement64, D_VecRing16, D_VecRing32, D_VecRing64, D_StateChecksum, D_NetworkVec,
      D_PrfCheck, D_Bytes, D_RingElement48, D_VecRing48, D_VecRingBit]"

definition descriptor_try_from :: "u8 \<Rightarrow> DescriptorByte option" where
  "descriptor_try_from b = find (\<lambda>d. descriptor_into_u8 d = b) all_descriptors"

fun base_len :: "DescriptorByte \<Rightarrow> nat" where
  "base_len D_PrfKey = 1 + PRF_KEY_SIZE"
| "base_len D_RingElementBit1 = 1"
| "base_len D_RingElementBit0 = 1"
| "base_len D_RingElement16 = 3"
| "base_len D_RingElement32 = 5"
| "base_len D_RingElement64 = 9"
| "base_len D_RingElement48 = 7"
| "base_len D_VecRing16 = 5"
| "base_len D_VecRing32 = 5"
| "base_len D_VecRing64 = 5"
| "base_len D_VecRing48 = 5"
| "base_len D_StateChecksum = 1 + 8 + 8"
| "base_len D_NetworkVec = 5"
| "base_len D_PrfCheck = 1 + 16"
| "base_len D_Bytes = 5"
| "base_len D_VecRingBit = 5"

datatype value_error =
    InvalidDescriptor u8 | EmptyData | InvalidLength DescriptorByte | NotMultiple DescriptorByte nat
  | VecTooShort | NotNetworkVec | NetworkVecLengthMismatch nat nat | InvalidTypeForNetworkVec
  | InvalidType | ExpectedNetworkVec u8 | ShorterThanBitCount | ExpectedBits u8 | InvalidConversion
  | InconsistentStores

definition check_left_vs_right :: "state_checksum \<Rightarrow> state_checksum \<Rightarrow> (value_error, unit) outcome" where
  "check_left_vs_right self right = (if irises self \<noteq> irises right then Err InconsistentStores else Ok ())"

fun get_descriptor_byte :: "NetworkValue \<Rightarrow> (value_error, u8) outcome" where
  "get_descriptor_byte (PrfKey _) = Ok (descriptor_into_u8 D_PrfKey)"
| "get_descriptor_byte (RingElementBit b) =
     Ok (descriptor_into_u8 (if bit_convert (convert b) then D_RingElementBit1 else D_RingElementBit0))"
| "get_descriptor_byte (RingElement16 _) = Ok (descriptor_into_u8 D_RingElement16)"
| "get_descriptor_byte (RingElement32 _) = Ok (descriptor_into_u8 D_RingElement32)"
| "get_descriptor_byte (RingElement64 _) = Ok (descriptor_into_u8 D_RingElement64)"
| "get_descriptor_byte (VecRing16 _) = Ok (descriptor_into_u8 D_VecRing16)"
| "get_descriptor_byte (VecRing32 _) = Ok (descriptor_into_u8 D_VecRing32)"
| "get_descriptor_byte (VecRing64 _) = Ok (descriptor_into_u8 D_VecRing64)"
| "get_descriptor_byte (RingElement48 _) = Ok (descriptor_into_u8 D_RingElement48)"
| "get_descriptor_byte (VecRing48 _) = Ok (descriptor_into_u8 D_VecRing48)"
| "get_descriptor_byte (StateChecksum _) = Ok (descriptor_into_u8 D_StateChecksum)"
| "get_descriptor_byte (NetworkVec _) = Ok (descriptor_into_u8 D_NetworkVec)"
| "get_descriptor_byte (PrfCheck _) = Ok (descriptor_into_u8 D_PrfCheck)"
| "get_descriptor_byte (Bytes _) = Ok (descriptor_into_u8 D_Bytes)"
| "get_descriptor_byte (VecRingBit _ _) = Ok (descriptor_into_u8 D_VecRingBit)"
| "get_descriptor_byte (PreFramed bytes) = (case bytes of [] \<Rightarrow> Panic | b # _ \<Rightarrow> Ok b)"

text \<open>
  The base length is looked up through the descriptor byte, which every variant but
  \<open>PreFramed\<close> has.
\<close>

definition base_len_of :: "NetworkValue \<Rightarrow> nat" where
  "base_len_of v =
     (case get_descriptor_byte v of
        Ok b \<Rightarrow> (case descriptor_try_from b of Some d \<Rightarrow> base_len d | None \<Rightarrow> 0)
      | _ \<Rightarrow> 0)"

fun byte_len :: "NetworkValue \<Rightarrow> nat" where
  "byte_len (PreFramed bytes) = length bytes"
| "byte_len (VecRing16 v) = base_len_of (VecRing16 v) + 2 * length v"
| "byte_len (VecRing32 v) = base_len_of (VecRing32 v) + 4 * length v"
| "byte_len (VecRing64 v) = base_len_of (VecRing64 v) + 8 * length v"
| "byte_len (VecRing48 v) = base_len_of (VecRing48 v) + ring_BYTES ring48_ring * length v"
| "byte_len (NetworkVec v) = base_len_of (NetworkVec v) + sum_list (map byte_len v)"
| "byte_len (Bytes v) = base_len_of (Bytes v) + length v"
| "byte_len (VecRingBit bytes n) = base_len_of (VecRingBit bytes n) + length bytes"
| "byte_len v = base_len_of v"

section \<open>Writing\<close>

definition serialize_internal :: "NetworkValue \<Rightarrow> u8 list \<Rightarrow> (value_error, u8 list) outcome" where
  "serialize_internal self res =
     bind_outcome (get_descriptor_byte self) (\<lambda>d. let res = res @ [d] in
       case self of
         PrfKey key \<Rightarrow> Ok (res @ key)
       | PrfCheck v \<Rightarrow> Ok (res @ to_le_bytes 16 (convert v))
       | RingElementBit _ \<Rightarrow> Ok res
       | RingElement16 x \<Rightarrow> Ok (res @ to_le_bytes 2 (convert x))
       | RingElement32 x \<Rightarrow> Ok (res @ to_le_bytes 4 (convert x))
       | RingElement64 x \<Rightarrow> Ok (res @ to_le_bytes 8 (convert x))
       | VecRing16 v \<Rightarrow> Ok (serialize_vec_ring word_ring word_layout v res)
       | VecRing32 v \<Rightarrow> Ok (serialize_vec_ring word_ring word_layout v res)
       | VecRing64 v \<Rightarrow> Ok (serialize_vec_ring word_ring word_layout v res)
       | RingElement48 x \<Rightarrow> Ok (res @ take (ring_BYTES ring48_ring) (ring48_bytes (convert x)))
       | VecRing48 v \<Rightarrow> Ok (serialize_vec_ring ring48_ring ring48_layout v res)
       | StateChecksum c \<Rightarrow> Ok (res @ to_le_bytes 8 (irises c) @ to_le_bytes 8 (graph c))
       | Bytes v \<Rightarrow> Ok (res @ to_le_bytes 4 (of_nat (length v) :: u32) @ v)
       | VecRingBit bytes bit_count \<Rightarrow> Ok (res @ to_le_bytes 4 (of_nat bit_count :: u32) @ bytes)
       | PreFramed bytes \<Rightarrow> Ok (take (length res - 1) res @ bytes)
       | NetworkVec _ \<Rightarrow> Panic)"

fun serialize_values :: "NetworkValue list \<Rightarrow> u8 list \<Rightarrow> (value_error, u8 list) outcome" where
  "serialize_values [] res = Ok res"
| "serialize_values (v # vs) res = bind_outcome (serialize_internal v res) (serialize_values vs)"

text \<open>The length field is written as a placeholder first and patched at the end.\<close>

definition serialize_vec :: "NetworkValue list \<Rightarrow> u8 list \<Rightarrow> (value_error, u8 list) outcome" where
  "serialize_vec vs res0 =
     (let res_start = length res0;
          res = res0 @ [descriptor_into_u8 D_NetworkVec];
          len_idx = length res;
          res = res @ replicate 4 0
      in bind_outcome (serialize_values vs res) (\<lambda>res.
           let msg_len = length res - res_start
           in Ok (take len_idx res @ to_le_bytes 4 (of_nat (msg_len - 5) :: u32) @ drop (len_idx + 4) res)))"

definition serialize :: "NetworkValue \<Rightarrow> u8 list \<Rightarrow> (value_error, u8 list) outcome" where
  "serialize self res =
     (case self of
        NetworkVec v \<Rightarrow> serialize_vec v res
      | PreFramed bytes \<Rightarrow> Ok (res @ bytes)
      | _ \<Rightarrow> serialize_internal self res)"

definition to_network :: "NetworkValue \<Rightarrow> (value_error, u8 list) outcome" where
  "to_network self = serialize self []"

definition into_network :: "NetworkValue \<Rightarrow> (value_error, u8 list) outcome" where
  "into_network self = (case self of PreFramed bytes \<Rightarrow> Ok bytes | other \<Rightarrow> to_network other)"

definition vec_to_network :: "NetworkValue list \<Rightarrow> NetworkValue" where
  "vec_to_network v = NetworkVec v"

definition vec_from_network :: "NetworkValue \<Rightarrow> (value_error, NetworkValue list) outcome" where
  "vec_from_network nv =
     (case nv of
        NetworkVec v \<Rightarrow> Ok v
      | _ \<Rightarrow> bind_outcome (get_descriptor_byte nv) (\<lambda>b. Err (ExpectedNetworkVec b)))"

section \<open>Reading\<close>

text \<open>
  Indexing of a buffer, \<open>serialized[i]\<close> and \<open>&serialized[a..b]\<close>, panics out of range; the
  \<open>try_from\<close> that turns a slice of fixed extent into an array of that size cannot fail after it.
\<close>

definition index_at :: "u8 list \<Rightarrow> nat \<Rightarrow> (value_error, u8) outcome" where
  "index_at serialized i = (if i < length serialized then Ok (serialized ! i) else Panic)"

definition slice_at :: "u8 list \<Rightarrow> nat \<Rightarrow> nat \<Rightarrow> (value_error, u8 list) outcome" where
  "slice_at serialized a b = (case subslice serialized a b of None \<Rightarrow> Panic | Some part \<Rightarrow> Ok part)"

text \<open>\<open>u32::from_le_bytes(<[u8; 4]>::try_from(&serialized[i..i + 4])?) as usize\<close>.\<close>

definition read_u32 :: "u8 list \<Rightarrow> nat \<Rightarrow> (value_error, nat) outcome" where
  "read_u32 serialized i = bind_outcome (slice_at serialized i (i + 4)) (\<lambda>bs. Ok (unat (from_le_bytes bs :: u32)))"

text \<open>
  The fast path copies \<open>len\<close> bytes behind the header without a check of its own; a read beyond
  the buffer is a \<open>Panic\<close> here. On the slow path element \<open>i\<close> is copied from its wire bytes into
  the low bytes of a zero element.
\<close>

fun read_elements :: "'a int_ring2k \<Rightarrow> 'a layout \<Rightarrow> u8 list \<Rightarrow> nat list \<Rightarrow> (value_error, 'a RingElement list) outcome" where
  "read_elements R L serialized [] = Ok []"
| "read_elements R L serialized (i # is) =
     (let wire_bytes = ring_BYTES R in
      bind_outcome (slice_at serialized (5 + i * wire_bytes) (5 + (i + 1) * wire_bytes)) (\<lambda>src.
      bind_outcome (read_elements R L serialized is) (\<lambda>res.
        Ok (RingElement (of_bytes L (src @ drop wire_bytes (bytes_of L (ring_zero R)))) # res))))"

definition deserialize_vec_ring :: "'a int_ring2k \<Rightarrow> 'a layout \<Rightarrow> DescriptorByte \<Rightarrow> u8 list
    \<Rightarrow> (value_error, 'a RingElement list) outcome" where
  "deserialize_vec_ring R L d serialized =
     (let wire_bytes = ring_BYTES R in
      if length serialized < 5 then Err (InvalidLength d)
      else bind_outcome (read_u32 serialized 1) (\<lambda>len.
      if length serialized \<noteq> 5 + len then Err (InvalidLength d)
      else if len mod wire_bytes \<noteq> 0 then Err (NotMultiple d len)
      else let num_elements = len div wire_bytes in
      if wire_bytes = size_of R
      then bind_outcome (slice_at serialized 5 (5 + len)) (\<lambda>src.
        Ok (map (\<lambda>c. RingElement (of_bytes L c)) (chunks_exact wire_bytes src)))
      else read_elements R L serialized [0..<num_elements]))"

definition deserialize_internal :: "u8 list \<Rightarrow> (value_error, NetworkValue) outcome" where
  "deserialize_internal serialized =
     (if serialized = [] then Err EmptyData
      else bind_outcome (index_at serialized 0) (\<lambda>descriptor.
        (case descriptor_try_from descriptor of
           None \<Rightarrow> Err (InvalidDescriptor descriptor)
         | Some d \<Rightarrow>
           (case d of
              D_PrfKey \<Rightarrow>
                if length serialized \<noteq> 1 + PRF_KEY_SIZE then Err (InvalidLength d)
                else bind_outcome (slice_at serialized 1 (1 + PRF_KEY_SIZE)) (\<lambda>key. Ok (PrfKey key))
            | D_PrfCheck \<Rightarrow>
                if length serialized \<noteq> 1 + 16 then Err (InvalidLength d)
                else bind_outcome (slice_at serialized 1 (1 + 16)) (\<lambda>x. Ok (PrfCheck (RingElement (from_le_bytes x))))
            | D_RingElementBit1 \<Rightarrow>
                if length serialized \<noteq> 1 then Err (InvalidLength d)
                else Ok (RingElementBit (RingElement (bit_new True)))
            | D_RingElementBit0 \<Rightarrow>
                if length serialized \<noteq> 1 then Err (InvalidLength d)
                else Ok (RingElementBit (RingElement (bit_new False)))
            | D_RingElement16 \<Rightarrow>
                if length serialized \<noteq> 3 then Err (InvalidLength d)
                else bind_outcome (slice_at serialized 1 3) (\<lambda>x. Ok (RingElement16 (RingElement (from_le_bytes x))))
            | D_RingElement32 \<Rightarrow>
                if length serialized \<noteq> 5 then Err (InvalidLength d)
                else bind_outcome (slice_at serialized 1 5) (\<lambda>x. Ok (RingElement32 (RingElement (from_le_bytes x))))
            | D_RingElement64 \<Rightarrow>
                if length serialized \<noteq> 9 then Err (InvalidLength d)
                else bind_outcome (slice_at serialized 1 9) (\<lambda>x. Ok (RingElement64 (RingElement (from_le_bytes x))))
            | D_VecRing16 \<Rightarrow> map_outcome_ok VecRing16 (deserialize_vec_ring word_ring word_layout d serialized)
            | D_VecRing32 \<Rightarrow> map_outcome_ok VecRing32 (deserialize_vec_ring word_ring word_layout d serialized)
            | D_VecRing64 \<Rightarrow> map_outcome_ok VecRing64 (deserialize_vec_ring word_ring word_layout d serialized)
            | D_RingElement48 \<Rightarrow>
                if length serialized \<noteq> 1 + ring_BYTES ring48_ring then Err (InvalidLength d)
                else bind_outcome (slice_at serialized 1 (1 + ring_BYTES ring48_ring)) (\<lambda>x.
                  let buf = x @ drop (ring_BYTES ring48_ring) (replicate 8 0)
                  in Ok (RingElement48 (RingElement (Ring48 (from_le_bytes buf)))))
            | D_VecRing48 \<Rightarrow> map_outcome_ok VecRing48 (deserialize_vec_ring ring48_ring ring48_layout d serialized)
            | D_StateChecksum \<Rightarrow>
                if length serialized \<noteq> 1 + 8 * 2 then Err (InvalidLength d)
                else bind_outcome (slice_at serialized 1 9) (\<lambda>x. bind_outcome (slice_at serialized 9 17) (\<lambda>y.
                  Ok (StateChecksum \<lparr>irises = from_le_bytes x, graph = from_le_bytes y\<rparr>)))
            | D_Bytes \<Rightarrow>
                if length serialized < 5 then Err (InvalidLength d)
                else bind_outcome (read_u32 serialized 1) (\<lambda>len.
                  if length serialized \<noteq> 5 + len then Err (InvalidLength d)
                  else bind_outcome (slice_at serialized 5 (5 + len)) (\<lambda>x. Ok (Bytes x)))
            | D_VecRingBit \<Rightarrow>
                if length serialized < 5 then Err (InvalidLength d)
                else bind_outcome (read_u32 serialized 1) (\<lambda>bit_count. let byte_len = div_ceil bit_count 8 in
                  if length serialized \<noteq> 5 + byte_len then Err (InvalidLength d)
                  else bind_outcome (slice_at serialized 5 (5 + byte_len)) (\<lambda>x. Ok (VecRingBit x bit_count)))
            | D_NetworkVec \<Rightarrow> Err InvalidType))))"

text \<open>The extent of the value at \<open>idx\<close> inside a \<open>NetworkVec\<close> buffer.\<close>

definition value_len_at :: "u8 list \<Rightarrow> nat \<Rightarrow> nat \<Rightarrow> DescriptorByte \<Rightarrow> (value_error, nat) outcome" where
  "value_len_at serialized end_idx idx d =
     (case d of
        D_RingElementBit0 \<Rightarrow> Ok 1
      | D_RingElementBit1 \<Rightarrow> Ok 1
      | D_RingElement16 \<Rightarrow> Ok 3
      | D_RingElement32 \<Rightarrow> Ok 5
      | D_RingElement64 \<Rightarrow> Ok 9
      | D_RingElement48 \<Rightarrow> Ok (1 + ring_BYTES ring48_ring)
      | D_VecRingBit \<Rightarrow>
          if end_idx < idx + 5 then Err (InvalidLength d)
          else bind_outcome (read_u32 serialized (idx + 1)) (\<lambda>bit_count. Ok (5 + div_ceil bit_count 8))
      | D_PrfKey \<Rightarrow> Err InvalidTypeForNetworkVec
      | D_StateChecksum \<Rightarrow> Err InvalidTypeForNetworkVec
      | D_NetworkVec \<Rightarrow> Err InvalidTypeForNetworkVec
      | D_PrfCheck \<Rightarrow> Err InvalidTypeForNetworkVec
      | _ \<Rightarrow>
          if end_idx < idx + 5 then Err (InvalidLength d)
          else bind_outcome (read_u32 serialized (idx + 1)) (\<lambda>len. Ok (5 + len)))"

lemma value_len_at_pos: "value_len_at serialized end_idx idx d = Ok n \<Longrightarrow> 0 < n"
  by (auto simp: value_len_at_def bind_outcome_eq_Ok split: DescriptorByte.splits if_splits)

function deserialize_values :: "u8 list \<Rightarrow> nat \<Rightarrow> nat \<Rightarrow> NetworkValue list
    \<Rightarrow> (value_error, NetworkValue list) outcome" where
  "deserialize_values serialized end_idx idx res =
     (if idx < end_idx
      then if length serialized \<le> idx then Panic
      else (case descriptor_try_from (serialized ! idx) of
        None \<Rightarrow> Err (InvalidDescriptor (serialized ! idx))
      | Some d \<Rightarrow>
        (case value_len_at serialized end_idx idx d of
           Err e \<Rightarrow> Err e
         | Panic \<Rightarrow> Panic
         | Ok value_len \<Rightarrow>
           (case subslice serialized idx (idx + value_len) of
              None \<Rightarrow> Panic
            | Some part \<Rightarrow>
              (case deserialize_internal part of
                 Err e \<Rightarrow> Err e
               | Panic \<Rightarrow> Panic
               | Ok v \<Rightarrow> deserialize_values serialized end_idx (idx + value_len) (res @ [v])))))
      else Ok res)"
  by pat_completeness auto
termination
  by (relation "measure (\<lambda>(_, end_idx, idx, _). end_idx - idx)")
    (auto dest!: value_len_at_pos)

declare deserialize_values.simps [simp del]

definition deserialize_vec :: "u8 list \<Rightarrow> (value_error, NetworkValue list) outcome" where
  "deserialize_vec serialized =
     (if length serialized < 5 then Err VecTooShort
      else bind_outcome (index_at serialized 0) (\<lambda>b.
      if b \<noteq> descriptor_into_u8 D_NetworkVec then Err NotNetworkVec
      else bind_outcome (read_u32 serialized 1) (\<lambda>payload_len.
      if length serialized \<noteq> 5 + payload_len
      then Err (NetworkVecLengthMismatch (length serialized - 5) payload_len)
      else deserialize_values serialized (5 + payload_len) 5 [])))"

definition deserialize :: "u8 list \<Rightarrow> (value_error, NetworkValue) outcome" where
  "deserialize serialized =
     (case serialized of
        b # _ \<Rightarrow>
          if b = descriptor_into_u8 D_NetworkVec then map_outcome_ok NetworkVec (deserialize_vec serialized)
          else deserialize_internal serialized
      | [] \<Rightarrow> deserialize_internal serialized)"

section \<open>Reading within the buffer\<close>

text \<open>
  The length checks keep every index within the buffer: with them the readers are the functions
  below, on total operations and without a panic.
\<close>

definition length_field :: "u8 list \<Rightarrow> nat" where
  "length_field bs = unat (from_le_bytes (take 4 (drop 1 bs)) :: u32)"

lemma slice_at_in [simp]: "a \<le> b \<Longrightarrow> b \<le> length s \<Longrightarrow> slice_at s a b = Ok (take (b - a) (drop a s))"
  by (simp add: slice_at_def subslice_def)

lemma index_at_in [simp]: "i < length s \<Longrightarrow> index_at s i = Ok (s ! i)"
  by (simp add: index_at_def)

lemma read_u32_in: "i + 5 \<le> length s \<Longrightarrow> read_u32 s (i + 1) = Ok (length_field (drop i s))"
  by (simp add: read_u32_def length_field_def add.commute)

lemma read_u32_header [simp]: "5 \<le> length s \<Longrightarrow> read_u32 s (Suc 0) = Ok (length_field s)"
  using read_u32_in [of 0 s] by simp

lemma read_elements_in:
  assumes "\<forall>i \<in> set is. 5 + (i + 1) * ring_BYTES R \<le> length s"
  shows "read_elements R L s is = Ok (map (\<lambda>i. RingElement (of_bytes L
    (take (ring_BYTES R) (drop (5 + i * ring_BYTES R) s) @ drop (ring_BYTES R) (bytes_of L (ring_zero R))))) is)"
  using assms by (induction "is") (simp_all add: Let_def)

lemma deserialize_vec_ring_in:
  "deserialize_vec_ring R L d serialized =
     (let wire_bytes = ring_BYTES R in
      if length serialized < 5 then Err (InvalidLength d)
      else let len = length_field serialized in
      if length serialized \<noteq> 5 + len then Err (InvalidLength d)
      else if len mod wire_bytes \<noteq> 0 then Err (NotMultiple d len)
      else let num_elements = len div wire_bytes in
      if wire_bytes = size_of R
      then Ok (map (\<lambda>c. RingElement (of_bytes L c)) (chunks_exact wire_bytes (drop 5 serialized)))
      else Ok (map (\<lambda>i. RingElement (of_bytes L
                 (take wire_bytes (drop (5 + i * wire_bytes) serialized)
                  @ drop wire_bytes (bytes_of L (ring_zero R))))) [0..<num_elements]))"
proof -
  have "5 + (i + 1) * ring_BYTES R \<le> length serialized"
    if "i < length_field serialized div ring_BYTES R" "length serialized = 5 + length_field serialized" for i
  proof -
    have "(i + 1) * ring_BYTES R \<le> length_field serialized div ring_BYTES R * ring_BYTES R" using that(1) by (intro mult_le_mono1) simp
    also have "\<dots> \<le> length_field serialized" by simp
    finally show ?thesis using that(2) by simp
  qed
  then have "read_elements R L serialized [0..<length_field serialized div ring_BYTES R] = Ok (map (\<lambda>i. RingElement (of_bytes L
      (take (ring_BYTES R) (drop (5 + i * ring_BYTES R) serialized) @ drop (ring_BYTES R) (bytes_of L (ring_zero R)))))
      [0..<length_field serialized div ring_BYTES R])" if "length serialized = 5 + length_field serialized"
    using that by (intro read_elements_in) simp
  then show ?thesis
    by (cases "length serialized < 5"; cases "length serialized = 5 + length_field serialized")
      (simp_all add: deserialize_vec_ring_def Let_def)
qed

lemma deserialize_internal_in:
  "deserialize_internal serialized =
     (case serialized of
        [] \<Rightarrow> Err EmptyData
      | descriptor # body \<Rightarrow>
        (case descriptor_try_from descriptor of
           None \<Rightarrow> Err (InvalidDescriptor descriptor)
         | Some d \<Rightarrow>
           (case d of
              D_PrfKey \<Rightarrow>
                if length serialized \<noteq> 1 + PRF_KEY_SIZE then Err (InvalidLength d)
                else Ok (PrfKey (take PRF_KEY_SIZE body))
            | D_PrfCheck \<Rightarrow>
                if length serialized \<noteq> 1 + 16 then Err (InvalidLength d)
                else Ok (PrfCheck (RingElement (from_le_bytes (take 16 body))))
            | D_RingElementBit1 \<Rightarrow>
                if length serialized \<noteq> 1 then Err (InvalidLength d)
                else Ok (RingElementBit (RingElement (bit_new True)))
            | D_RingElementBit0 \<Rightarrow>
                if length serialized \<noteq> 1 then Err (InvalidLength d)
                else Ok (RingElementBit (RingElement (bit_new False)))
            | D_RingElement16 \<Rightarrow>
                if length serialized \<noteq> 3 then Err (InvalidLength d)
                else Ok (RingElement16 (RingElement (from_le_bytes (take 2 body))))
            | D_RingElement32 \<Rightarrow>
                if length serialized \<noteq> 5 then Err (InvalidLength d)
                else Ok (RingElement32 (RingElement (from_le_bytes (take 4 body))))
            | D_RingElement64 \<Rightarrow>
                if length serialized \<noteq> 9 then Err (InvalidLength d)
                else Ok (RingElement64 (RingElement (from_le_bytes (take 8 body))))
            | D_VecRing16 \<Rightarrow> map_outcome_ok VecRing16 (deserialize_vec_ring word_ring word_layout d serialized)
            | D_VecRing32 \<Rightarrow> map_outcome_ok VecRing32 (deserialize_vec_ring word_ring word_layout d serialized)
            | D_VecRing64 \<Rightarrow> map_outcome_ok VecRing64 (deserialize_vec_ring word_ring word_layout d serialized)
            | D_RingElement48 \<Rightarrow>
                if length serialized \<noteq> 1 + ring_BYTES ring48_ring then Err (InvalidLength d)
                else (let buf = take 6 body @ replicate 2 0
                      in Ok (RingElement48 (RingElement (Ring48 (from_le_bytes buf)))))
            | D_VecRing48 \<Rightarrow> map_outcome_ok VecRing48 (deserialize_vec_ring ring48_ring ring48_layout d serialized)
            | D_StateChecksum \<Rightarrow>
                if length serialized \<noteq> 1 + 8 * 2 then Err (InvalidLength d)
                else Ok (StateChecksum \<lparr>irises = from_le_bytes (take 8 body),
                                        graph = from_le_bytes (take 8 (drop 8 body))\<rparr>)
            | D_Bytes \<Rightarrow>
                if length serialized < 5 then Err (InvalidLength d)
                else if length serialized \<noteq> 5 + length_field serialized then Err (InvalidLength d)
                else Ok (Bytes (take (length_field serialized) (drop 5 serialized)))
            | D_VecRingBit \<Rightarrow>
                if length serialized < 5 then Err (InvalidLength d)
                else (let bit_count = length_field serialized; byte_len = div_ceil bit_count 8
                      in if length serialized \<noteq> 5 + byte_len then Err (InvalidLength d)
                         else Ok (VecRingBit (take byte_len (drop 5 serialized)) bit_count))
            | D_NetworkVec \<Rightarrow> Err InvalidType)))"
proof (cases serialized)
  case (Cons descriptor body)
  show ?thesis
  proof (cases "descriptor_try_from descriptor")
    case (Some d)
    show ?thesis using Cons Some by (cases d) (simp_all add: deserialize_internal_def Let_def PRF_KEY_SIZE_def)
  qed (simp add: Cons deserialize_internal_def)
qed (simp add: deserialize_internal_def)

lemma value_len_at_in:
  assumes "end_idx = length serialized"
  shows "value_len_at serialized end_idx idx d =
     (case d of
        D_RingElementBit0 \<Rightarrow> Ok 1
      | D_RingElementBit1 \<Rightarrow> Ok 1
      | D_RingElement16 \<Rightarrow> Ok 3
      | D_RingElement32 \<Rightarrow> Ok 5
      | D_RingElement64 \<Rightarrow> Ok 9
      | D_RingElement48 \<Rightarrow> Ok (1 + ring_BYTES ring48_ring)
      | D_VecRingBit \<Rightarrow>
          if end_idx < idx + 5 then Err (InvalidLength d)
          else Ok (5 + div_ceil (length_field (drop idx serialized)) 8)
      | D_PrfKey \<Rightarrow> Err InvalidTypeForNetworkVec
      | D_StateChecksum \<Rightarrow> Err InvalidTypeForNetworkVec
      | D_NetworkVec \<Rightarrow> Err InvalidTypeForNetworkVec
      | D_PrfCheck \<Rightarrow> Err InvalidTypeForNetworkVec
      | _ \<Rightarrow>
          if end_idx < idx + 5 then Err (InvalidLength d)
          else Ok (5 + length_field (drop idx serialized)))"
  using read_u32_in [of idx serialized] assms by (cases d) (simp_all add: value_len_at_def not_less)

lemma deserialize_vec_in:
  "deserialize_vec serialized =
     (if length serialized < 5 then Err VecTooShort
      else if serialized ! 0 \<noteq> descriptor_into_u8 D_NetworkVec then Err NotNetworkVec
      else if length serialized \<noteq> 5 + length_field serialized
      then Err (NetworkVecLengthMismatch (length serialized - 5) (length_field serialized))
      else deserialize_values serialized (length serialized) 5 [])"
  by (cases "length serialized < 5"; cases "length serialized = 5 + length_field serialized") (auto simp: deserialize_vec_def index_at_def)

section \<open>Bit vectors\<close>

fun pack_byte :: "nat \<Rightarrow> u8 \<Rightarrow> Bit RingElement list \<Rightarrow> u8" where
  "pack_byte idx value [] = value"
| "pack_byte idx value (b # bs) =
     pack_byte (idx + 1) (value OR push_bit idx (of_bool (bit_convert (convert b)))) bs"

definition pack_bits :: "Bit RingElement list \<Rightarrow> (value_error, NetworkValue) outcome" where
  "pack_bits bs =
     (let bit_count = length bs;
          byte_len = div_ceil bit_count 8;
          packed = replicate byte_len (0 :: u8);
          chs = chunks_exact 8 bs;
          packed = map (pack_byte 0 0) (take byte_len chs) @ drop (length chs) packed;
          remainder = drop (8 * length chs) bs
      in if remainder \<noteq> []
         then if packed = [] then Panic
              else Ok (VecRingBit (packed[length packed - 1 := pack_byte 0 (last packed) remainder]) bit_count)
         else Ok (VecRingBit packed bit_count))"

fun unpack_loop :: "nat \<Rightarrow> u8 list \<Rightarrow> Bit RingElement list \<Rightarrow> Bit RingElement list" where
  "unpack_loop bit_count [] bs = bs"
| "unpack_loop bit_count (byte # packed) bs =
     (let n = min (bit_count - length bs) 8;
          bs = bs @ map (\<lambda>bit_index. RingElement (bit_new (drop_bit bit_index byte AND 1 = 1))) [0..<n]
      in if n < 8 then bs else unpack_loop bit_count packed bs)"

text \<open>Reading a message never gives a \<open>PreFramed\<close>, so the recursions below end.\<close>

definition is_pre_framed :: "NetworkValue \<Rightarrow> bool" where
  "is_pre_framed v = (case v of PreFramed _ \<Rightarrow> True | _ \<Rightarrow> False)"

lemma deserialize_internal_plain:
  assumes ok: "deserialize_internal bs = Ok v"
  shows "\<not> is_pre_framed v"
proof (cases bs)
  case Nil
  with ok show ?thesis by (simp add: deserialize_internal_in)
next
  case (Cons b body)
  with ok obtain d where "descriptor_try_from b = Some d"
    by (cases "descriptor_try_from b") (simp_all add: deserialize_internal_in)
  with ok Cons show ?thesis
    by (cases d) (auto simp: deserialize_internal_in Let_def map_outcome_ok_eq_Ok is_pre_framed_def split: if_splits)
qed

lemma deserialize_not_pre_framed: "deserialize bs = Ok v \<Longrightarrow> \<not> is_pre_framed v"
  unfolding deserialize_def
  by (auto simp: map_outcome_ok_eq_Ok is_pre_framed_def
      dest: deserialize_internal_plain split: list.splits if_splits)

function unpack_bits :: "NetworkValue \<Rightarrow> (value_error, Bit RingElement list) outcome" where
  "unpack_bits self =
     (case self of
        VecRingBit packed bit_count \<Rightarrow>
          (let bs = unpack_loop bit_count packed []
           in if length bs \<noteq> bit_count then Err ShorterThanBitCount else Ok bs)
      | RingElementBit b \<Rightarrow> Ok [b]
      | PreFramed bytes \<Rightarrow>
          (case deserialize bytes of Ok v \<Rightarrow> unpack_bits v | Err e \<Rightarrow> Err e | Panic \<Rightarrow> Panic)
      | _ \<Rightarrow> bind_outcome (get_descriptor_byte self) (\<lambda>b. Err (ExpectedBits b)))"
  by pat_completeness auto
termination
  by (relation "measure (\<lambda>v. of_bool (is_pre_framed v))")
    (auto dest!: deserialize_not_pre_framed simp: is_pre_framed_def split: NetworkValue.splits)

declare unpack_bits.simps [simp del]

section \<open>Conversion to ring vectors\<close>

text \<open>The four instances of \<open>NetworkInt\<close>; the constructors are its first two functions.\<close>

function into_vec16 :: "NetworkValue \<Rightarrow> (value_error, u16 RingElement list) outcome" where
  "into_vec16 val =
     (case val of
        RingElement16 e \<Rightarrow> Ok [e]
      | VecRing16 v \<Rightarrow> Ok v
      | PreFramed bytes \<Rightarrow> (case deserialize bytes of Ok v \<Rightarrow> into_vec16 v | Err e \<Rightarrow> Err e | Panic \<Rightarrow> Panic)
      | _ \<Rightarrow> Err InvalidConversion)"
  by pat_completeness auto
termination
  by (relation "measure (\<lambda>v. of_bool (is_pre_framed v))")
    (auto dest!: deserialize_not_pre_framed simp: is_pre_framed_def split: NetworkValue.splits)

function into_vec32 :: "NetworkValue \<Rightarrow> (value_error, u32 RingElement list) outcome" where
  "into_vec32 val =
     (case val of
        RingElement32 e \<Rightarrow> Ok [e]
      | VecRing32 v \<Rightarrow> Ok v
      | PreFramed bytes \<Rightarrow> (case deserialize bytes of Ok v \<Rightarrow> into_vec32 v | Err e \<Rightarrow> Err e | Panic \<Rightarrow> Panic)
      | _ \<Rightarrow> Err InvalidConversion)"
  by pat_completeness auto
termination
  by (relation "measure (\<lambda>v. of_bool (is_pre_framed v))")
    (auto dest!: deserialize_not_pre_framed simp: is_pre_framed_def split: NetworkValue.splits)

function into_vec64 :: "NetworkValue \<Rightarrow> (value_error, u64 RingElement list) outcome" where
  "into_vec64 val =
     (case val of
        RingElement64 e \<Rightarrow> Ok [e]
      | VecRing64 v \<Rightarrow> Ok v
      | PreFramed bytes \<Rightarrow> (case deserialize bytes of Ok v \<Rightarrow> into_vec64 v | Err e \<Rightarrow> Err e | Panic \<Rightarrow> Panic)
      | _ \<Rightarrow> Err InvalidConversion)"
  by pat_completeness auto
termination
  by (relation "measure (\<lambda>v. of_bool (is_pre_framed v))")
    (auto dest!: deserialize_not_pre_framed simp: is_pre_framed_def split: NetworkValue.splits)

function into_vec48 :: "NetworkValue \<Rightarrow> (value_error, Ring48 RingElement list) outcome" where
  "into_vec48 val =
     (case val of
        RingElement48 e \<Rightarrow> Ok [e]
      | VecRing48 v \<Rightarrow> Ok v
      | PreFramed bytes \<Rightarrow> (case deserialize bytes of Ok v \<Rightarrow> into_vec48 v | Err e \<Rightarrow> Err e | Panic \<Rightarrow> Panic)
      | _ \<Rightarrow> Err InvalidConversion)"
  by pat_completeness auto
termination
  by (relation "measure (\<lambda>v. of_bool (is_pre_framed v))")
    (auto dest!: deserialize_not_pre_framed simp: is_pre_framed_def split: NetworkValue.splits)

declare into_vec16.simps [simp del] into_vec32.simps [simp del] into_vec64.simps [simp del] into_vec48.simps [simp del]

section \<open>Ring vectors on the wire\<close>

text \<open>
  What the two vector routines need of a layout: the wire bytes of a well-formed element
  determine it, and every string of wire bytes is one well-formed element.
\<close>

locale wire_layout =
  fixes R :: "'a int_ring2k" and L :: "'a layout" and wfe :: "'a \<Rightarrow> bool"
  assumes BYTES_pos: "0 < ring_BYTES R"
    and BYTES_le: "ring_BYTES R \<le> size_of R"
    and length_bytes_of: "length (bytes_of L x) = size_of R"
    and of_bytes_of: "wfe x \<Longrightarrow>
      of_bytes L (take (ring_BYTES R) (bytes_of L x) @ drop (ring_BYTES R) (bytes_of L (ring_zero R))) = x"
    and bytes_of_bytes: "length c = ring_BYTES R \<Longrightarrow>
      take (ring_BYTES R) (bytes_of L (of_bytes L (c @ drop (ring_BYTES R) (bytes_of L (ring_zero R))))) = c"
    and wfe_of_bytes: "length c = ring_BYTES R \<Longrightarrow>
      wfe (of_bytes L (c @ drop (ring_BYTES R) (bytes_of L (ring_zero R))))"
begin

definition wire :: "'a RingElement \<Rightarrow> u8 list" where
  "wire x = take (ring_BYTES R) (bytes_of L (convert x))"

definition unwire :: "u8 list \<Rightarrow> 'a RingElement" where
  "unwire c = RingElement (of_bytes L (c @ drop (ring_BYTES R) (bytes_of L (ring_zero R))))"

lemma length_wire [simp]: "length (wire x) = ring_BYTES R"
  using BYTES_le by (simp add: wire_def length_bytes_of)

lemma unwire_wire: "wfe (convert x) \<Longrightarrow> unwire (wire x) = x"
  by (simp add: unwire_def wire_def of_bytes_of)

lemma wire_unwire: "length c = ring_BYTES R \<Longrightarrow> wire (unwire c) = c"
  by (simp add: unwire_def wire_def bytes_of_bytes)

lemma length_concat_wire: "length (concat (map wire v)) = length v * ring_BYTES R"
  by (simp add: length_concat comp_def sum_list_triv)

text \<open>Both paths of the writer and of the reader are the same function.\<close>

lemma serialize_vec_ring_eq:
  "serialize_vec_ring R L v res =
     res @ to_le_bytes 4 (of_nat (length v * ring_BYTES R) :: u32) @ concat (map wire v)"
proof -
  have "foldl (\<lambda>res x. res @ wire x) r v = r @ concat (map wire v)" for r
    by (induction v arbitrary: r) simp_all
  moreover have "wire = (\<lambda>x. bytes_of L (convert x))" if "ring_BYTES R = size_of R"
    using that by (simp add: wire_def length_bytes_of fun_eq_iff)
  ultimately show ?thesis
    by (simp add: serialize_vec_ring_def Let_def flip: wire_def)
qed

lemma deserialize_vec_ring_eq:
  "deserialize_vec_ring R L d bs =
     (if length bs < 5 \<or> length bs \<noteq> 5 + length_field bs then Err (InvalidLength d)
      else if length_field bs mod ring_BYTES R \<noteq> 0 then Err (NotMultiple d (length_field bs))
      else Ok (map unwire (chunks_exact (ring_BYTES R) (drop 5 bs))))"
proof -
  let ?B = "ring_BYTES R"
  have fast: "map (\<lambda>c. RingElement (of_bytes L c)) cs = map unwire cs" if "?B = size_of R" for cs
    using that by (simp add: unwire_def length_bytes_of)
  have slow: "map (\<lambda>i. RingElement (of_bytes L (take ?B (drop (5 + i * ?B) bs) @ drop ?B (bytes_of L (ring_zero R)))))
      [0..<length_field bs div ?B] = map unwire (chunks_exact ?B (drop 5 bs))"
    if "length bs = 5 + length_field bs"
  proof (rule nth_equalityI)
    show "length (map (\<lambda>i. RingElement (of_bytes L (take ?B (drop (5 + i * ?B) bs) @ drop ?B (bytes_of L (ring_zero R)))))
      [0..<length_field bs div ?B]) = length (map unwire (chunks_exact ?B (drop 5 bs)))"
      using that BYTES_pos by (simp add: length_chunks_exact)
  qed (use that BYTES_pos in \<open>simp add: unwire_def chunks_exact_nth length_chunks_exact add.commute\<close>)
  show ?thesis using fast slow by (simp add: deserialize_vec_ring_in Let_def)
qed

lemma length_field_le_bytes: "length_field (b # to_le_bytes 4 (w :: u32) @ rest) = unat w"
  by (simp add: length_field_def from_to_le_bytes_id)

lemma deserialize_serialize_vec_ring:
  assumes "\<forall>x \<in> set v. wfe (convert x)" "length v * ring_BYTES R < 2 ^ 32"
  shows "deserialize_vec_ring R L d (serialize_vec_ring R L v [b]) = Ok v"
proof -
  let ?n = "of_nat (length v * ring_BYTES R) :: u32"
  have n: "unat ?n = length v * ring_BYTES R" using assms(2) by (simp add: unat_of_nat take_bit_nat_eq_self del: of_nat_mult)
  have "map unwire (map wire v) = v" using assms(1) by (auto simp: unwire_wire intro!: map_idI)
  moreover have "chunks_exact (ring_BYTES R) (concat (map wire v)) = map wire v"
    by (rule chunks_exact_concat) (auto simp: BYTES_pos)
  ultimately show ?thesis
    unfolding deserialize_vec_ring_eq serialize_vec_ring_eq
    by (simp add: length_field_le_bytes n length_concat_wire del: map_map of_nat_mult)
qed

lemma serialize_deserialize_vec_ring:
  assumes "deserialize_vec_ring R L d (b # body) = Ok v"
  shows "serialize_vec_ring R L v [b] = b # body" "\<forall>x \<in> set v. wfe (convert x)"
    "length v * ring_BYTES R < 2 ^ 32"
proof -
  let ?bs = "b # body" and ?cs = "chunks_exact (ring_BYTES R) (drop 4 body)"
  have len: "4 \<le> length body" "length body = 4 + length_field ?bs" "length_field ?bs mod ring_BYTES R = 0"
    and v: "v = map unwire ?cs"
    using assms unfolding deserialize_vec_ring_eq by (auto split: if_splits)
  have "map wire v = ?cs"
    unfolding v by (auto simp: wire_unwire dest!: length_in_chunks_exact intro!: map_idI)
  moreover have cc: "concat ?cs = drop 4 body" using len BYTES_pos by (intro concat_chunks_exact) simp_all
  ultimately have w: "concat (map wire v) = drop 4 body" by simp
  then have l: "length v * ring_BYTES R = length_field ?bs"
    using length_concat_wire [of v] len(2) by simp
  have field: "to_le_bytes 4 (of_nat (length_field ?bs) :: u32) = take 4 body"
    using to_from_le_bytes [where 'a = 32, of "take 4 body"] len(1) by (simp add: length_field_def)
  show "serialize_vec_ring R L v [b] = b # body"
    unfolding serialize_vec_ring_eq w l field by simp
  show "\<forall>x \<in> set v. wfe (convert x)"
    by (auto simp: v unwire_def dest!: length_in_chunks_exact intro!: wfe_of_bytes)
  show "length v * ring_BYTES R < 2 ^ 32"
    unfolding l length_field_def using unsigned_less [where 'a = nat, of "from_le_bytes (take 4 (drop 1 ?bs)) :: u32"] by simp
qed

end

lemma word_wire_layout:
  assumes "8 dvd LENGTH('a::len)"
  shows "wire_layout (word_ring :: 'a word int_ring2k) word_layout (\<lambda>_. True)"
proof -
  obtain k where k: "LENGTH('a) = 8 * k" using assms by blast
  moreover have "0 < LENGTH('a)" by simp
  ultimately have "0 < k" by linarith
  have "take k (to_le_bytes k (from_le_bytes c :: 'a word)) = c" if "length c = k" for c
    using that to_from_le_bytes [where 'a = 'a, of c] k by simp
  then show ?thesis
    using k \<open>0 < k\<close> by unfold_locales (simp_all add: word_layout_def from_to_le_bytes_id)
qed

interpretation wire16: wire_layout "word_ring :: u16 int_ring2k" word_layout "\<lambda>_. True"
  by (rule word_wire_layout) simp

interpretation wire32: wire_layout "word_ring :: u32 int_ring2k" word_layout "\<lambda>_. True"
  by (rule word_wire_layout) simp

interpretation wire64: wire_layout "word_ring :: u64 int_ring2k" word_layout "\<lambda>_. True"
  by (rule word_wire_layout) simp

text \<open>A 48-bit element is its six low bytes and two zero bytes.\<close>

lemma from_le_bytes_append_0:
  "8 * length c \<le> LENGTH('a) \<Longrightarrow> from_le_bytes (c @ replicate n 0) = (from_le_bytes c :: 'a::len word)"
proof (induction c)
  case Nil
  have "(from_le_bytes (replicate n 0) :: 'a word) = 0" by (induction n) simp_all
  then show ?case by simp
qed simp

lemma take_to_le_bytes: "m \<le> n \<Longrightarrow> take m (to_le_bytes n w) = to_le_bytes m w"
proof (induction m arbitrary: n w)
  case (Suc m)
  then show ?case by (cases n) simp_all
qed simp

lemma from_le_bytes_bound:
  "take_bit (8 * length c) (from_le_bytes c :: 'a::len word) = from_le_bytes c"
proof (induction c)
  case (Cons b c)
  have *: "bit (from_le_bytes c :: 'a word) k \<Longrightarrow> k < 8 * length c" for k
    by (metis Cons.IH bit_take_bit_iff)
  show ?case
    by (rule bit_word_eqI)
      (auto simp: bit_or_iff bit_push_bit_iff bit_take_bit_iff bit_ucast_iff dest: * bit_imp_le_length)
qed simp

lemma wf48_from_le_bytes: "length c = 6 \<Longrightarrow> wf48 (Ring48 (from_le_bytes c))"
  using from_le_bytes_bound [of c, where 'a = 64] by (simp add: wf48_iff del: wf48.simps)

lemma to_le_bytes_0: "to_le_bytes n (0 :: 'a::len word) = replicate n 0"
  by (induction n) simp_all

interpretation wire48: wire_layout ring48_ring ring48_layout wf48
proof
  have z: "drop 6 (ring48_bytes ring48_zero) = replicate 2 0"
    by (simp add: ring48_zero_def to_le_bytes_0)
  have pad: "from_le_bytes (c @ replicate 2 0) = (from_le_bytes c :: u64)" if "length c = 6" for c
    using that by (intro from_le_bytes_append_0) simp
  show "length (bytes_of ring48_layout x) = size_of ring48_ring" for x
    by (cases x) (simp add: ring48_layout_def)
  show "of_bytes ring48_layout (take (ring_BYTES ring48_ring) (bytes_of ring48_layout x)
      @ drop (ring_BYTES ring48_ring) (bytes_of ring48_layout (ring_zero ring48_ring))) = x" if "wf48 x" for x
    using that by (cases x)
      (simp add: ring48_layout_def z take_to_le_bytes pad from_to_le_bytes wf48_iff del: wf48.simps)
  show "take (ring_BYTES ring48_ring) (bytes_of ring48_layout (of_bytes ring48_layout
      (c @ drop (ring_BYTES ring48_ring) (bytes_of ring48_layout (ring_zero ring48_ring))))) = c"
    if "length c = ring_BYTES ring48_ring" for c
    using that to_from_le_bytes [where 'a = 64, of c]
    by (simp add: ring48_layout_def z take_to_le_bytes pad)
  show "wf48 (of_bytes ring48_layout (c @ drop (ring_BYTES ring48_ring)
      (bytes_of ring48_layout (ring_zero ring48_ring))))" if "length c = ring_BYTES ring48_ring" for c
    using that by (simp add: ring48_layout_def z pad wf48_from_le_bytes del: wf48.simps)
qed simp_all

section \<open>Round trips of single values\<close>

text \<open>
  The values that have a wire form of their own: what the Rust types guarantee (key length,
  bit values 0 and 1, 48-bit elements), lengths that fit the 32-bit field, and a packed bit
  vector as long as its bit count says.
\<close>

fun plain_wf :: "NetworkValue \<Rightarrow> bool" where
  "plain_wf (PrfKey key) \<longleftrightarrow> length key = PRF_KEY_SIZE"
| "plain_wf (RingElementBit b) \<longleftrightarrow> wf_bit (convert b)"
| "plain_wf (VecRing16 v) \<longleftrightarrow> length v * 2 < 2 ^ 32"
| "plain_wf (VecRing32 v) \<longleftrightarrow> length v * 4 < 2 ^ 32"
| "plain_wf (VecRing64 v) \<longleftrightarrow> length v * 8 < 2 ^ 32"
| "plain_wf (RingElement48 x) \<longleftrightarrow> wf48 (convert x)"
| "plain_wf (VecRing48 v) \<longleftrightarrow> (\<forall>x \<in> set v. wf48 (convert x)) \<and> length v * 6 < 2 ^ 32"
| "plain_wf (Bytes v) \<longleftrightarrow> length v < 2 ^ 32"
| "plain_wf (VecRingBit bytes n) \<longleftrightarrow> n < 2 ^ 32 \<and> length bytes = div_ceil n 8"
| "plain_wf (NetworkVec _) \<longleftrightarrow> False"
| "plain_wf (PreFramed _) \<longleftrightarrow> False"
| "plain_wf _ \<longleftrightarrow> True"

lemma descriptor_round_trip [simp]: "descriptor_try_from (descriptor_into_u8 d) = Some d"
  by (cases d) (simp_all add: descriptor_try_from_def all_descriptors_def)

lemma descriptor_try_from_Some: "descriptor_try_from b = Some d \<longleftrightarrow> b = descriptor_into_u8 d"
proof
  assume "descriptor_try_from b = Some d"
  then show "b = descriptor_into_u8 d"
    by (auto simp: descriptor_try_from_def find_Some_iff)
qed simp

declare descriptor_into_u8.simps [simp del]

text \<open>The wire form of a single value.\<close>

definition wire_form :: "NetworkValue \<Rightarrow> u8 list" where
  "wire_form v = (case serialize_internal v [] of Ok e \<Rightarrow> e | _ \<Rightarrow> [])"

lemma serialize_vec_ring_append:
  "serialize_vec_ring R L v (res @ ys) = res @ serialize_vec_ring R L v ys"
proof -
  have "foldl (\<lambda>r x. r @ f x) (res @ ys) v = res @ foldl (\<lambda>r x. r @ f x) ys v" for f :: "'a RingElement \<Rightarrow> u8 list" and ys
    by (induction v arbitrary: ys) simp_all
  then show ?thesis by (simp add: serialize_vec_ring_def Let_def)
qed

lemma serialize_internal_eq:
  assumes "plain_wf v"
  shows "serialize_internal v res = Ok (res @ wire_form v)"
  using assms
  by (cases v) (simp_all add: serialize_internal_def wire_form_def serialize_vec_ring_append)

lemma length_field_4: "length_field (b # to_le_bytes 4 (w :: u32) @ rest) = unat w"
  by (simp add: length_field_def from_to_le_bytes_id)

lemma unat_of_nat_u32: "n < 2 ^ 32 \<Longrightarrow> unat (of_nat n :: u32) = n"
  by (simp add: unat_of_nat take_bit_nat_eq_self)

lemma deserialize_wire_form:
  assumes "plain_wf v"
  shows "deserialize_internal (wire_form v) = Ok v"
proof (cases v)
  case (RingElementBit b)
  with assms obtain w where "b = RingElement (Bit w)" "w = 0 \<or> w = 1"
    by (metis RingElement.exhaust_sel plain_wf.simps(2) wf_bit.elims(2) RingElement.sel)
  with RingElementBit show ?thesis
    by (auto simp: wire_form_def serialize_internal_def deserialize_internal_in bit_new_def)
next
  case (VecRing16 v)
  with assms wire16.deserialize_serialize_vec_ring [of v D_VecRing16 "descriptor_into_u8 D_VecRing16"] show ?thesis
    by (simp add: wire_form_def serialize_internal_def deserialize_internal_in wire16.serialize_vec_ring_eq)
next
  case (VecRing32 v)
  with assms wire32.deserialize_serialize_vec_ring [of v D_VecRing32 "descriptor_into_u8 D_VecRing32"] show ?thesis
    by (simp add: wire_form_def serialize_internal_def deserialize_internal_in wire32.serialize_vec_ring_eq)
next
  case (VecRing64 v)
  with assms wire64.deserialize_serialize_vec_ring [of v D_VecRing64 "descriptor_into_u8 D_VecRing64"] show ?thesis
    by (simp add: wire_form_def serialize_internal_def deserialize_internal_in wire64.serialize_vec_ring_eq)
next
  case (VecRing48 v)
  with assms wire48.deserialize_serialize_vec_ring [of v D_VecRing48 "descriptor_into_u8 D_VecRing48"] show ?thesis
    by (simp add: wire_form_def serialize_internal_def deserialize_internal_in wire48.serialize_vec_ring_eq)
next
  case (RingElement48 x)
  obtain w where x: "x = RingElement (Ring48 w)" by (metis RingElement.exhaust Ring48.exhaust)
  have "from_le_bytes (to_le_bytes 6 w @ replicate 2 0) = w"
    using assms RingElement48 x by (simp add: from_le_bytes_append_0 from_to_le_bytes wf48_iff del: wf48.simps replicate_Suc)
  with RingElement48 x show ?thesis
    by (simp add: wire_form_def serialize_internal_def deserialize_internal_in take_to_le_bytes)
qed (use assms in \<open>simp_all add: wire_form_def serialize_internal_def deserialize_internal_in
  from_to_le_bytes_id length_field_4 unat_of_nat_u32 PRF_KEY_SIZE_def\<close>)

text \<open>Reading is canonical: only the wire form of a value reads as that value.\<close>

lemma to_from_le_bytes_n:
  "length c = n \<Longrightarrow> 8 * n \<le> LENGTH('a) \<Longrightarrow> to_le_bytes n (from_le_bytes c :: 'a::len word) = c"
  using to_from_le_bytes [of c] by blast

lemma length_field_less: "length_field bs < 2 ^ 32"
  using unsigned_less [where 'a = nat, of "from_le_bytes (take 4 (drop 1 bs)) :: u32"]
  by (simp add: length_field_def)

lemma length_field_bytes:
  "4 \<le> length body \<Longrightarrow> to_le_bytes 4 (of_nat (length_field (b # body)) :: u32) = take 4 body"
  by (simp add: length_field_def to_from_le_bytes_n)

lemma wire_form_deserialize:
  assumes ok: "deserialize_internal bs = Ok v"
  shows "plain_wf v \<and> wire_form v = bs"
proof -
  obtain b body where bs: "bs = b # body"
    using ok by (cases bs) (simp_all add: deserialize_internal_in)
  obtain d where d: "b = descriptor_into_u8 d"
    using ok bs by (cases "descriptor_try_from b") (auto simp: deserialize_internal_in descriptor_try_from_Some)
  note def = deserialize_internal_in wire_form_def serialize_internal_def
  show ?thesis
  proof (cases d)
    case D_VecRing16
    with ok bs d obtain xs where xs: "v = VecRing16 xs" "deserialize_vec_ring word_ring word_layout d bs = Ok xs"
      by (auto simp: def map_outcome_ok_eq_Ok)
    with wire16.serialize_deserialize_vec_ring [of d b body xs] bs d D_VecRing16 show ?thesis by (simp add: def)
  next
    case D_VecRing32
    with ok bs d obtain xs where xs: "v = VecRing32 xs" "deserialize_vec_ring word_ring word_layout d bs = Ok xs"
      by (auto simp: def map_outcome_ok_eq_Ok)
    with wire32.serialize_deserialize_vec_ring [of d b body xs] bs d D_VecRing32 show ?thesis by (simp add: def)
  next
    case D_VecRing64
    with ok bs d obtain xs where xs: "v = VecRing64 xs" "deserialize_vec_ring word_ring word_layout d bs = Ok xs"
      by (auto simp: def map_outcome_ok_eq_Ok)
    with wire64.serialize_deserialize_vec_ring [of d b body xs] bs d D_VecRing64 show ?thesis by (simp add: def)
  next
    case D_VecRing48
    with ok bs d obtain xs where xs: "v = VecRing48 xs" "deserialize_vec_ring ring48_ring ring48_layout d bs = Ok xs"
      by (auto simp: def map_outcome_ok_eq_Ok)
    with wire48.serialize_deserialize_vec_ring [of d b body xs] bs d D_VecRing48 show ?thesis by (simp add: def)
  next
    case D_RingElement48
    with ok bs d have "length body = 6" "v = RingElement48 (RingElement (Ring48 (from_le_bytes body)))"
      by (auto simp: def from_le_bytes_append_0 split: if_splits simp del: replicate_Suc)
    with bs d D_RingElement48 show ?thesis
      by (simp add: def take_to_le_bytes to_from_le_bytes_n wf48_from_le_bytes del: wf48.simps)
  next
    case D_StateChecksum
    with ok bs d have "length body = 16" "v = StateChecksum \<lparr>irises = from_le_bytes (take 8 body), graph = from_le_bytes (drop 8 body)\<rparr>"
      by (auto simp: def split: if_splits)
    with bs d D_StateChecksum show ?thesis by (simp add: def to_from_le_bytes_n)
  next
    case D_Bytes
    with ok bs d have "4 \<le> length body" "v = Bytes (drop 4 body)" "length body = 4 + length_field bs"
      by (auto simp: def split: if_splits)
    with bs d D_Bytes length_field_less [of bs] length_field_bytes [of body b] show ?thesis
      by (simp add: def)
  next
    case D_VecRingBit
    with ok bs d have "4 \<le> length body" "v = VecRingBit (drop 4 body) (length_field bs)"
        "length body = 4 + div_ceil (length_field bs) 8"
      by (auto simp: def Let_def split: if_splits)
    with bs d D_VecRingBit length_field_less [of bs] length_field_bytes [of body b] show ?thesis
      by (simp add: def)
  qed (use ok bs d in \<open>auto simp: def PRF_KEY_SIZE_def to_from_le_bytes_n bit_new_def split: if_splits\<close>)
qed

section \<open>Round trips of vectors\<close>

text \<open>The kinds of values that may stand inside a \<open>NetworkVec\<close>.\<close>

fun embeddable :: "NetworkValue \<Rightarrow> bool" where
  "embeddable (PrfKey _) = False"
| "embeddable (StateChecksum _) = False"
| "embeddable (NetworkVec _) = False"
| "embeddable (PrfCheck _) = False"
| "embeddable (PreFramed _) = False"
| "embeddable _ = True"

definition vec_wf :: "NetworkValue list \<Rightarrow> bool" where
  "vec_wf vs \<longleftrightarrow> (\<forall>v \<in> set vs. plain_wf v \<and> embeddable v) \<and> sum_list (map byte_len vs) < 2 ^ 32"

definition value_wf :: "NetworkValue \<Rightarrow> bool" where
  "value_wf v = (case v of NetworkVec vs \<Rightarrow> vec_wf vs | _ \<Rightarrow> plain_wf v)"

lemma length_ring48_bytes [simp]: "length (ring48_bytes x) = 8"
  by (cases x) simp

lemma length_wire_form:
  assumes "plain_wf v"
  shows "length (wire_form v) = byte_len v"
  using assms
  by (cases v) (simp_all add: wire_form_def serialize_internal_def base_len_of_def PRF_KEY_SIZE_def
      wire16.serialize_vec_ring_eq wire16.length_concat_wire wire32.serialize_vec_ring_eq wire32.length_concat_wire
      wire64.serialize_vec_ring_eq wire64.length_concat_wire wire48.serialize_vec_ring_eq wire48.length_concat_wire)

lemma wire_form_descriptor:
  assumes "plain_wf v"
  obtains d body where "wire_form v = descriptor_into_u8 d # body" "get_descriptor_byte v = Ok (descriptor_into_u8 d)"
  using assms
  by (cases v) (simp_all add: wire_form_def serialize_internal_def wire16.serialize_vec_ring_eq
      wire32.serialize_vec_ring_eq wire64.serialize_vec_ring_eq wire48.serialize_vec_ring_eq)

lemma descriptor_into_u8_inject [simp]: "descriptor_into_u8 x = descriptor_into_u8 y \<longleftrightarrow> x = y"
  by (metis descriptor_round_trip option.inject)

lemma value_len_at_wire_form:
  assumes "plain_wf v" "embeddable v" "wire_form v = descriptor_into_u8 d # body"
  shows "value_len_at (pre @ wire_form v @ rest) (length (pre @ wire_form v @ rest)) (length pre) d = Ok (length (wire_form v))"
  using assms
  by (cases v) (auto simp add: wire_form_def serialize_internal_def value_len_at_in wire16.serialize_vec_ring_eq
      wire32.serialize_vec_ring_eq wire64.serialize_vec_ring_eq wire48.serialize_vec_ring_eq length_field_4
      unat_of_nat_u32 wire16.length_concat_wire wire32.length_concat_wire wire64.length_concat_wire
      wire48.length_concat_wire simp del: of_nat_mult)

text \<open>The writer and the reader of a vector go over the wire forms one after the other.\<close>

lemma serialize_values_eq:
  "\<forall>v \<in> set vs. plain_wf v \<Longrightarrow> serialize_values vs res = Ok (res @ concat (map wire_form vs))"
  by (induction vs arbitrary: res) (simp_all add: serialize_internal_eq)

lemma deserialize_values_eq:
  assumes "\<forall>v \<in> set vs. plain_wf v \<and> embeddable v"
  shows "deserialize_values (pre @ concat (map wire_form vs)) (length (pre @ concat (map wire_form vs))) (length pre) res =
    Ok (res @ vs)"
  using assms
proof (induction vs arbitrary: pre res)
  case Nil
  then show ?case by (simp add: deserialize_values.simps)
next
  case (Cons v vs)
  let ?rest = "concat (map wire_form vs)" and ?pre = "pre @ wire_form v"
  let ?s = "pre @ wire_form v @ ?rest"
  obtain d body where d: "wire_form v = descriptor_into_u8 d # body"
    using wire_form_descriptor [of v] Cons.prems by (metis list.set_intros(1))
  have "value_len_at ?s (length ?s) (length pre) d = Ok (length (wire_form v))"
    using value_len_at_wire_form [OF _ _ d] Cons.prems by simp
  moreover have "?s ! length pre = descriptor_into_u8 d" using d by simp
  moreover have "subslice ?s (length pre) (length pre + length (wire_form v)) = Some (wire_form v)"
    by (simp add: subslice_def)
  moreover have "deserialize_internal (wire_form v) = Ok v" using deserialize_wire_form Cons.prems by simp
  moreover have "length pre < length ?s" "\<not> length ?s \<le> length pre" using d by simp_all
  ultimately have "deserialize_values ?s (length ?s) (length pre) res =
      deserialize_values ?s (length ?s) (length pre + length (wire_form v)) (res @ [v])"
    by (subst deserialize_values.simps) (simp only: descriptor_round_trip option.case outcome.case if_True if_False)
  also have "\<dots> = Ok ((res @ [v]) @ vs)" using Cons.IH [of ?pre "res @ [v]"] Cons.prems by simp
  finally show ?case by simp
qed

lemma byte_len_concat:
  "\<forall>v \<in> set vs. plain_wf v \<Longrightarrow> length (concat (map wire_form vs)) = sum_list (map byte_len vs)"
  by (induction vs) (simp_all add: length_wire_form)

lemma serialize_vec_eq:
  assumes "\<forall>v \<in> set vs. plain_wf v"
  shows "serialize_vec vs res = Ok (res @ descriptor_into_u8 D_NetworkVec
    # to_le_bytes 4 (of_nat (sum_list (map byte_len vs)) :: u32) @ concat (map wire_form vs))"
  using assms byte_len_concat [OF assms]
  by (simp add: serialize_vec_def Let_def serialize_values_eq)

lemma deserialize_serialize_vec:
  assumes "vec_wf vs" "serialize_vec vs [] = Ok bs"
  shows "deserialize_vec bs = Ok vs"
proof -
  let ?pre = "descriptor_into_u8 D_NetworkVec # to_le_bytes 4 (of_nat (sum_list (map byte_len vs)) :: u32)"
  have wf: "\<forall>v \<in> set vs. plain_wf v" "sum_list (map byte_len vs) < 2 ^ 32" using assms(1) by (auto simp: vec_wf_def)
  have bs: "bs = ?pre @ concat (map wire_form vs)" using assms(2) serialize_vec_eq [OF wf(1)] by simp
  have "length_field bs = sum_list (map byte_len vs)" unfolding bs using length_field_4 wf(2) by (simp add: unat_of_nat_u32)
  moreover have "length bs = 5 + sum_list (map byte_len vs)" unfolding bs using byte_len_concat [OF wf(1)] by simp
  moreover have "deserialize_values bs (length bs) 5 [] = Ok vs"
    using deserialize_values_eq [of vs ?pre "[]"] assms(1) unfolding bs by (simp add: vec_wf_def)
  moreover have "bs ! 0 = descriptor_into_u8 D_NetworkVec" unfolding bs by simp
  ultimately show ?thesis by (simp add: deserialize_vec_in)
qed

lemma value_len_at_embeddable:
  assumes "plain_wf v" "wire_form v = descriptor_into_u8 d # body" "value_len_at s e i d = Ok n"
  shows "embeddable v"
proof -
  from assms(1) obtain d' body' where "wire_form v = descriptor_into_u8 d' # body'"
      "get_descriptor_byte v = Ok (descriptor_into_u8 d')"
    by (rule wire_form_descriptor)
  with assms(2) have "get_descriptor_byte v = Ok (descriptor_into_u8 d)" by simp
  with assms(1,3) show ?thesis by (cases v) (auto simp: value_len_at_def split: if_splits)
qed

lemma deserialize_values_canonical:
  assumes "deserialize_values s e i res = Ok out" "e = length s" "i \<le> e"
  shows "\<exists>vs. out = res @ vs \<and> (\<forall>v \<in> set vs. plain_wf v \<and> embeddable v) \<and> concat (map wire_form vs) = drop i s"
  using assms
proof (induction s e i res rule: deserialize_values.induct)
  case (1 s e i res)
  show ?case
  proof (cases "i < e")
    case False
    with 1 show ?thesis by (simp add: deserialize_values.simps)
  next
    case True
    obtain d n part v where d: "descriptor_try_from (s ! i) = Some d"
      and n: "value_len_at s e i d = Ok n" and part: "subslice s i (i + n) = Some part"
      and v: "deserialize_internal part = Ok v"
      and rest: "deserialize_values s e (i + n) (res @ [v]) = Ok out"
      using 1(2) True 1(3) by (subst (asm) deserialize_values.simps)
        (auto split: option.splits outcome.splits if_splits)
    have in_range: "i + n \<le> e" "part = take n (drop i s)"
      using part 1(3) by (auto simp: subslice_def split: if_splits)
    have "\<not> length s \<le> i" using True 1(3) by simp
    from 1(1) [OF True this d n part v rest 1(3) in_range(1)]
    obtain vs where vs: "out = (res @ [v]) @ vs" "\<forall>v \<in> set vs. plain_wf v \<and> embeddable v"
      "concat (map wire_form vs) = drop (i + n) s" by blast
    have wfv: "plain_wf v" "wire_form v = part" using wire_form_deserialize [OF v] by auto
    have "0 < n" using n by (rule value_len_at_pos)
    then have "part = descriptor_into_u8 d # tl part"
      using in_range True 1(3) d by (cases n) (auto simp: descriptor_try_from_Some Cons_nth_drop_Suc [symmetric])
    with wfv n have "embeddable v" using value_len_at_embeddable by metis
    moreover have "wire_form v @ drop (i + n) s = drop i s"
      unfolding wfv(2) in_range(2) by (metis add.commute append_take_drop_id drop_drop)
    ultimately show ?thesis using vs wfv by (intro exI [of _ "v # vs"]) simp
  qed
qed

lemma serialize_deserialize_vec:
  assumes "deserialize_vec bs = Ok vs"
  shows "vec_wf vs" "serialize_vec vs [] = Ok bs"
proof -
  have len: "5 \<le> length bs" "length bs = 5 + length_field bs" "bs ! 0 = descriptor_into_u8 D_NetworkVec"
    and vals: "deserialize_values bs (length bs) 5 [] = Ok vs"
    using assms by (auto simp: deserialize_vec_in Let_def split: if_splits)
  from deserialize_values_canonical [OF vals refl len(1)]
  have wf: "\<forall>v \<in> set vs. plain_wf v \<and> embeddable v" and body: "concat (map wire_form vs) = drop 5 bs" by auto
  then have sum: "sum_list (map byte_len vs) = length_field bs"
    using byte_len_concat [of vs] len(2) by simp
  then show "vec_wf vs" using wf length_field_less [of bs] by (simp add: vec_wf_def)
  obtain b tail where bs: "bs = b # tail" "4 \<le> length tail" using len(1) by (cases bs) auto
  show "serialize_vec vs [] = Ok bs"
    using serialize_vec_eq [of vs "[]"] wf sum body len(3) length_field_bytes [OF bs(2), of b] bs(1) by simp
qed

section \<open>Round trips of bit vectors\<close>

lemma bit_pack_byte:
  assumes "i + length bs \<le> 8" "k < 8"
  shows "bit (pack_byte i w bs) k \<longleftrightarrow> bit w k \<or> (i \<le> k \<and> k < i + length bs \<and> bit_convert (convert (bs ! (k - i))))"
  using assms
proof (induction i w bs rule: pack_byte.induct)
  case (2 i w b bs)
  then show ?case
    by (cases "k = i") (auto simp: bit_or_iff bit_push_bit_iff nth_Cons' Suc_diff_le bit_1_iff)
qed auto

definition unpack_byte :: "nat \<Rightarrow> u8 \<Rightarrow> Bit RingElement list" where
  "unpack_byte n byte = map (\<lambda>i. RingElement (bit_new (drop_bit i byte AND 1 = 1))) [0..<n]"

lemma ring_bit_new_convert: "wf_bit (convert b) \<Longrightarrow> RingElement (bit_new (bit_convert (convert b))) = b"
  by (cases b; cases "convert b") (auto simp: bit_new_def)

lemma drop_bit_and_1: "drop_bit i (x :: u8) AND 1 = 1 \<longleftrightarrow> bit x i"
  by (simp add: bit_iff_odd_drop_bit and_one_eq odd_iff_mod_2_eq_one)

lemma unpack_pack_byte:
  assumes "length bs \<le> 8" "\<forall>b \<in> set bs. wf_bit (convert b)"
  shows "unpack_byte (length bs) (pack_byte 0 0 bs) = bs"
  using assms
  by (intro nth_equalityI) (auto simp: unpack_byte_def drop_bit_and_1 bit_pack_byte ring_bit_new_convert)

text \<open>\<open>pack_bits\<close> packs byte by byte, the remainder into the last one.\<close>

lemma pack_bits_eq: "pack_bits bs = Ok (VecRingBit (map (pack_byte 0 0) (chunks 8 bs)) (length bs))"
proof -
  let ?chs = "chunks_exact 8 bs"
  let ?r = "drop (8 * length ?chs) bs"
  have ch: "chunks 8 bs = ?chs @ (if ?r = [] then [] else [?r])"
    using chunks_chunks_exact [of 8 bs] by (simp only: Let_def)
  have len: "div_ceil (length bs) 8 = length (chunks 8 bs)" by (simp add: length_chunks)
  show ?thesis
  proof (cases "?r = []")
    case True
    then show ?thesis unfolding pack_bits_def Let_def len ch by simp
  next
    case False
    then have "length (chunks 8 bs) = Suc (length ?chs)" unfolding ch by simp
    then have packed: "map (pack_byte 0 0) (take (length (chunks 8 bs)) ?chs) @ drop (length ?chs) (replicate (length (chunks 8 bs)) 0) =
        map (pack_byte 0 0) ?chs @ [0]" by (simp add: replicate_append_same [symmetric] del: replicate_append_same)
    from False show ?thesis unfolding pack_bits_def Let_def len packed by (simp add: ch list_update_append)
  qed
qed

lemma unpack_loop_chunks:
  assumes "\<forall>b \<in> set bs. wf_bit (convert b)" "n = length acc + length bs"
  shows "unpack_loop n (map (pack_byte 0 0) (chunks 8 bs)) acc = acc @ bs"
  using assms
proof (induction "length bs" arbitrary: bs acc rule: less_induct)
  case less
  show ?case
  proof (cases "bs = []")
    case False
    let ?c = "take 8 bs" and ?bs = "drop 8 bs"
    have ch: "chunks 8 bs = ?c # chunks 8 ?bs" using False by (subst chunks.simps) simp
    have wf: "\<forall>b \<in> set ?c. wf_bit (convert b)" "\<forall>b \<in> set ?bs. wf_bit (convert b)"
      using less.prems(1) by (auto dest: in_set_takeD in_set_dropD)
    have c: "unpack_byte (length ?c) (pack_byte 0 0 ?c) = ?c" using wf by (intro unpack_pack_byte) simp_all
    have m: "min (n - length acc) 8 = length ?c" using less.prems(2) by simp
    have IH: "unpack_loop n (map (pack_byte 0 0) (chunks 8 ?bs)) (acc @ ?c) = (acc @ ?c) @ ?bs"
      using False less.prems(2) wf(2) by (intro less.hyps) simp_all
    have "unpack_loop n (map (pack_byte 0 0) (chunks 8 bs)) acc =
        (if length ?c < 8 then acc @ ?c else unpack_loop n (map (pack_byte 0 0) (chunks 8 ?bs)) (acc @ ?c))"
      unfolding ch list.map unpack_loop.simps m Let_def unpack_byte_def [symmetric] c ..
    also have "\<dots> = acc @ bs" unfolding IH by auto
    finally show ?thesis .
  qed simp
qed

lemma unpack_pack_bits:
  assumes "\<forall>b \<in> set bs. wf_bit (convert b)"
  shows "bind_outcome (pack_bits bs) unpack_bits = Ok bs"
  using unpack_loop_chunks [OF assms, of "length bs" "[]"]
  by (simp add: pack_bits_eq unpack_bits.simps)

section \<open>Properties\<close>

lemma plain_round_trip:
  assumes "plain_wf v"
  shows "to_network v = Ok (wire_form v)" "deserialize (wire_form v) = Ok v"
proof -
  obtain d body where d: "wire_form v = descriptor_into_u8 d # body" "get_descriptor_byte v = Ok (descriptor_into_u8 d)"
    using assms by (rule wire_form_descriptor)
  have "d \<noteq> D_NetworkVec" using d(2) assms by (cases v) (auto split: if_splits)
  then show "deserialize (wire_form v) = Ok v" using deserialize_wire_form [OF assms] d(1) by (simp add: deserialize_def)
  show "to_network v = Ok (wire_form v)"
    using serialize_internal_eq [OF assms, of "[]"] assms by (cases v) (simp_all add: to_network_def serialize_def)
qed

lemma written_values_read_back:
  assumes "value_wf v"
  shows "\<exists>bs. to_network v = Ok bs \<and> length bs = byte_len v \<and> deserialize bs = Ok v"
proof (cases "\<exists>vs. v = NetworkVec vs")
  case True
  then obtain vs where v: "v = NetworkVec vs" by blast
  then have wf: "vec_wf vs" "\<forall>v \<in> set vs. plain_wf v" using assms by (auto simp: value_wf_def vec_wf_def)
  let ?bs = "descriptor_into_u8 D_NetworkVec # to_le_bytes 4 (of_nat (sum_list (map byte_len vs)) :: u32)
    @ concat (map wire_form vs)"
  have "serialize_vec vs [] = Ok ?bs" using serialize_vec_eq [OF wf(2), of "[]"] by simp
  moreover from this have "deserialize_vec ?bs = Ok vs" by (rule deserialize_serialize_vec [OF wf(1)])
  ultimately show ?thesis using byte_len_concat [OF wf(2)]
    by (intro exI [of _ ?bs]) (simp add: v to_network_def serialize_def deserialize_def base_len_of_def)
next
  case False
  then have wf: "plain_wf v" using assms by (cases v) (simp_all add: value_wf_def)
  from plain_round_trip [OF this] length_wire_form [OF this] show ?thesis by blast
qed

lemma read_values_are_canonical:
  assumes "deserialize bs = Ok v"
  shows "value_wf v \<and> to_network v = Ok bs"
proof (cases "\<exists>vs. deserialize_vec bs = Ok vs \<and> v = NetworkVec vs")
  case True
  then obtain vs where "deserialize_vec bs = Ok vs" "v = NetworkVec vs" by blast
  with serialize_deserialize_vec [of bs vs] show ?thesis by (simp add: value_wf_def to_network_def serialize_def)
next
  case False
  then have ok: "deserialize_internal bs = Ok v"
    using assms by (auto simp: deserialize_def map_outcome_ok_eq_Ok split: list.splits if_splits)
  then have wf: "plain_wf v" "wire_form v = bs" using wire_form_deserialize by blast+
  with serialize_internal_eq [OF wf(1), of "[]"] show ?thesis
    by (cases v) (simp_all add: value_wf_def to_network_def serialize_def)
qed

text \<open>
  C26: messages and their wire form. Every well-formed message, alone or a vector of messages of
  the kinds a \<open>NetworkVec\<close> may hold, is written without a panic in exactly \<open>byte_len\<close> bytes
  and read back unchanged. In the other direction, whatever \<open>deserialize\<close>
  accepts is a well-formed message whose wire form is exactly the bytes that were read: no two
  buffers decode to the same message.
\<close>

theorem network_value_round_trip:
  "(value_wf v \<longrightarrow> (\<exists>bs. to_network v = Ok bs \<and> length bs = byte_len v \<and> deserialize bs = Ok v))
   \<and> (deserialize bytes = Ok v \<longrightarrow> value_wf v \<and> to_network v = Ok bytes)"
  using written_values_read_back read_values_are_canonical by blast

theorem network_value_round_trip_witness:
  "(\<exists>bs. to_network (NetworkVec [RingElement16 (RingElement 7), VecRing48 [RingElement (Ring48 5)], VecRingBit [3] 2]) = Ok bs
    \<and> length bs = 25
    \<and> deserialize bs = Ok (NetworkVec [RingElement16 (RingElement 7), VecRing48 [RingElement (Ring48 5)], VecRingBit [3] 2]))
   \<and> value_wf (RingElement16 (RingElement 513)) \<and> to_network (RingElement16 (RingElement 513)) = Ok [3, 1, 2]"
proof
  let ?v = "NetworkVec [RingElement16 (RingElement 7), VecRing48 [RingElement (Ring48 5)], VecRingBit [3] 2]"
  have "value_wf ?v"
    by (simp add: value_wf_def vec_wf_def base_len_of_def MASK_48_def div_ceil_def)
  then show "\<exists>bs. to_network ?v = Ok bs \<and> length bs = 25 \<and> deserialize bs = Ok ?v"
    using network_value_round_trip [of ?v] by (simp add: base_len_of_def)
  have "deserialize [3, 1, 2] = Ok (RingElement16 (RingElement 513))"
    by (simp add: deserialize_def deserialize_internal_in descriptor_try_from_def all_descriptors_def
        descriptor_into_u8.simps)
  then show "value_wf (RingElement16 (RingElement 513)) \<and> to_network (RingElement16 (RingElement 513)) = Ok [3, 1, 2]"
    using network_value_round_trip [of "RingElement16 (RingElement 513)" "[3, 1, 2]"] by simp
qed

text \<open>
  Bit vectors. Packing a list of bit elements never panics, and unpacking the packed
  message, directly or after it went over the wire, gives the same list.
\<close>

theorem bit_vector_round_trip:
  assumes "\<forall>b \<in> set bs. wf_bit (convert b)" "length bs < 2 ^ 32"
  shows "\<exists>msg wire. pack_bits bs = Ok msg \<and> unpack_bits msg = Ok bs
    \<and> to_network msg = Ok wire \<and> unpack_bits (PreFramed wire) = Ok bs"
proof -
  let ?msg = "VecRingBit (map (pack_byte 0 0) (chunks 8 bs)) (length bs)"
  have wf: "plain_wf ?msg" using assms(2) by (simp add: length_chunks)
  have "to_network ?msg = Ok (wire_form ?msg)"
    using serialize_internal_eq [OF wf, of "[]"] by (simp add: to_network_def serialize_def)
  moreover have "deserialize (wire_form ?msg) = Ok ?msg"
    using deserialize_wire_form [OF wf] by (simp add: deserialize_def wire_form_def serialize_internal_def)
  moreover have "unpack_bits ?msg = Ok bs" using unpack_pack_bits [OF assms(1)] by (simp add: pack_bits_eq)
  ultimately show ?thesis
    unfolding pack_bits_eq unpack_bits.simps [of "PreFramed wire" for wire] by auto
qed

theorem bit_vector_round_trip_witness:
  "\<exists>msg wire. pack_bits [RingElement (Bit 1), RingElement (Bit 0)] = Ok msg
    \<and> unpack_bits msg = Ok [RingElement (Bit 1), RingElement (Bit 0)]
    \<and> to_network msg = Ok wire \<and> unpack_bits (PreFramed wire) = Ok [RingElement (Bit 1), RingElement (Bit 0)]"
  by (rule bit_vector_round_trip) simp_all

section \<open>Malformed input\<close>

lemma deserialize_internal_no_panic: "deserialize_internal bs \<noteq> Panic"
proof (cases bs)
  case (Cons b body)
  show ?thesis
  proof (cases "descriptor_try_from b")
    case (Some d)
    with Cons show ?thesis by (cases d) (simp_all add: deserialize_internal_in Let_def deserialize_vec_ring_in)
  qed (simp add: Cons deserialize_internal_in)
qed (simp add: deserialize_internal_in)

text \<open>
  The number of bytes an element of a \<open>NetworkVec\<close> claims to have: the fixed length of its
  kind, or what its length field says once that is complete.
\<close>

definition announced_len :: "u8 list \<Rightarrow> nat option" where
  "announced_len part =
     (case part of [] \<Rightarrow> None
      | b # _ \<Rightarrow> (case descriptor_try_from b of None \<Rightarrow> None
        | Some d \<Rightarrow>
          if d \<in> {D_PrfKey, D_PrfCheck, D_StateChecksum, D_NetworkVec} then None
          else if d \<in> {D_VecRing16, D_VecRing32, D_VecRing64, D_VecRing48, D_Bytes, D_VecRingBit}
          then if length part < 5 then None
               else Some (base_len d + (if d = D_VecRingBit then div_ceil (length_field part) 8 else length_field part))
          else Some (base_len d)))"

lemma value_len_at_announced:
  assumes "i < length s" "descriptor_try_from (s ! i) = Some d"
  shows "value_len_at s (length s) i d = Ok n \<longleftrightarrow> announced_len (drop i s) = Some n" "value_len_at s (length s) i d \<noteq> Panic"
proof -
  have part: "drop i s = s ! i # drop (Suc i) s" using assms(1) by (simp add: Cons_nth_drop_Suc)
  have "length (drop i s) < 5 \<longleftrightarrow> length s < i + 5" using assms(1) by auto
  then show "value_len_at s (length s) i d = Ok n \<longleftrightarrow> announced_len (drop i s) = Some n" "value_len_at s (length s) i d \<noteq> Panic"
    unfolding announced_len_def using part assms(2) by (cases d; simp add: value_len_at_in split del: if_split; auto)+
qed

lemma announced_len_wire_form:
  assumes "plain_wf v" "embeddable v"
  shows "announced_len (wire_form v @ rest) = Some (length (wire_form v))"
proof -
  obtain d body where d: "wire_form v = descriptor_into_u8 d # body" using assms(1) by (rule wire_form_descriptor)
  have "value_len_at (wire_form v @ rest) (length (wire_form v @ rest)) 0 d = Ok (length (wire_form v))"
    using value_len_at_wire_form [OF assms d, of "[]" rest] by simp
  moreover have "descriptor_try_from ((wire_form v @ rest) ! 0) = Some d" using d by simp
  moreover have "0 < length (wire_form v @ rest)" using d by simp
  ultimately show ?thesis using value_len_at_announced(1) [of 0 "wire_form v @ rest" d "length (wire_form v)"] by (simp only: drop0)
qed

text \<open>A tail that is complete elements followed by one which claims more bytes than are left.\<close>

definition cut_short :: "u8 list \<Rightarrow> bool" where
  "cut_short tail \<longleftrightarrow> (\<exists>vs part n. tail = concat (map wire_form vs) @ part \<and> (\<forall>v \<in> set vs. plain_wf v \<and> embeddable v)
     \<and> announced_len part = Some n \<and> length part < n)"

lemma cut_short_Nil: "\<not> cut_short []"
  by (auto simp: cut_short_def announced_len_def)

lemma cut_short_announced:
  assumes "cut_short tail"
  obtains n where "announced_len tail = Some n" "length tail < n"
    | v rest where "plain_wf v" "embeddable v" "tail = wire_form v @ rest" "cut_short rest"
proof -
  obtain vs part n where t: "tail = concat (map wire_form vs) @ part" "\<forall>v \<in> set vs. plain_wf v \<and> embeddable v"
    "announced_len part = Some n" "length part < n" using assms by (auto simp: cut_short_def)
  show thesis
  proof (cases vs)
    case Nil
    then show ?thesis using t that(1) by simp
  next
    case (Cons v ws)
    then have "cut_short (concat (map wire_form ws) @ part)" using t unfolding cut_short_def by (intro exI conjI) auto
    then show ?thesis using t Cons by (intro that(2) [of v]) simp_all
  qed
qed

lemma cut_short_unannounced: "announced_len tail = None \<Longrightarrow> \<not> cut_short tail"
proof
  assume none: "announced_len tail = None" and "cut_short tail"
  from this(2) show False
  proof (cases rule: cut_short_announced)
    case (2 v rest)
    then show ?thesis using none announced_len_wire_form [OF 2(1,2), of rest] by simp
  qed (use none in simp)
qed

lemma cut_short_first:
  assumes "cut_short tail" "announced_len tail = Some n" "n \<le> length tail"
  shows "\<exists>v. plain_wf v \<and> wire_form v = take n tail"
  using assms(1)
proof (cases rule: cut_short_announced)
  case (2 v rest)
  then have "length (wire_form v) = n" using announced_len_wire_form [OF 2(1,2), of rest] assms(2) by simp
  then show ?thesis using 2 by (intro exI [of _ v]) auto
qed (use assms in simp)

lemma cut_short_wire_form:
  assumes "plain_wf v" "embeddable v"
  shows "cut_short (wire_form v @ rest) \<longleftrightarrow> cut_short rest"
proof
  assume "cut_short rest"
  then obtain vs part n where "rest = concat (map wire_form vs) @ part" "\<forall>v \<in> set vs. plain_wf v \<and> embeddable v"
    "announced_len part = Some n" "length part < n" by (auto simp: cut_short_def)
  then show "cut_short (wire_form v @ rest)" unfolding cut_short_def using assms
    by (intro exI [of _ "v # vs"] exI [of _ part] exI [of _ n]) simp
next
  assume "cut_short (wire_form v @ rest)"
  then show "cut_short rest"
  proof (cases rule: cut_short_announced)
    case (1 n)
    then show ?thesis using announced_len_wire_form [OF assms, of rest] by simp
  next
    case (2 w rest')
    then have "length (wire_form v) = length (wire_form w)"
      using announced_len_wire_form [OF assms, of rest] announced_len_wire_form [OF 2(1,2), of rest'] by simp
    then show ?thesis using 2 by simp
  qed
qed

lemma cut_short_step:
  assumes i: "i < length s" "descriptor_try_from (s ! i) = Some d" and n: "value_len_at s e i d = Ok n" and v: "deserialize_internal (take n (drop i s)) = Ok v"
  shows "cut_short (drop i s) \<longleftrightarrow> cut_short (drop (i + n) s)"
proof -
  let ?part = "take n (drop i s)"
  have wf: "wire_form v = ?part" "plain_wf v" using wire_form_deserialize [OF v] by simp_all
  have "0 < n" using n by (rule value_len_at_pos)
  then have "?part = descriptor_into_u8 d # tl ?part" using i
    by (cases n) (auto simp: descriptor_try_from_Some Cons_nth_drop_Suc [symmetric])
  then have "embeddable v" using wf n value_len_at_embeddable by metis
  moreover have "drop i s = ?part @ drop (i + n) s" by (metis add.commute append_take_drop_id drop_drop)
  ultimately show ?thesis using cut_short_wire_form [of v "drop (i + n) s"] wf by simp
qed

lemma deserialize_values_panic:
  assumes "e = length s" "i \<le> e"
  shows "deserialize_values s e i res = Panic \<longleftrightarrow> cut_short (drop i s)"
  using assms
proof (induction s e i res rule: deserialize_values.induct)
  case (1 s e i res)
  show ?case
  proof (cases "i < e")
    case False
    with 1 show ?thesis by (simp add: deserialize_values.simps cut_short_Nil)
  next
    case True
    note step = deserialize_values.simps [of s e i res]
    have i: "i < length s" "\<not> length s \<le> i" using True 1(2) by simp_all
    show ?thesis
    proof (cases "descriptor_try_from (s ! i)")
      case None
      then have "announced_len (drop i s) = None" using i by (simp add: announced_len_def Cons_nth_drop_Suc [symmetric])
      then have "\<not> cut_short (drop i s)" by (rule cut_short_unannounced)
      then show ?thesis unfolding step using True i None by simp
    next
      case (Some d)
      note ann = value_len_at_announced [OF i(1) Some]
      show ?thesis
      proof (cases "value_len_at s e i d")
        case (Ok n)
        then have n: "announced_len (drop i s) = Some n" using ann(1) 1(2) by simp
        show ?thesis
        proof (cases "i + n \<le> length s")
          case False
          then have "cut_short (drop i s)" using n 1(2) unfolding cut_short_def
            by (intro exI [of _ "[] :: NetworkValue list"] exI [of _ "drop i s"] exI [of _ n]) (use i in auto)
          moreover have "subslice s i (i + n) = None" using False by (simp add: subslice_def)
          ultimately show ?thesis unfolding step using True i Some Ok by simp
        next
          case fits: True
          let ?part = "take n (drop i s)"
          have part: "subslice s i (i + n) = Some ?part" using fits by (simp add: subslice_def)
          show ?thesis
          proof (cases "deserialize_internal ?part")
            case v: (Ok v)
            have "cut_short (drop i s) \<longleftrightarrow> cut_short (drop (i + n) s)" using i(1) Some Ok v by (rule cut_short_step)
            then show ?thesis unfolding step using 1(1) [OF True i(2) Some Ok part v 1(2)] fits True i Some Ok part v 1(2) by simp
          next
            case (Err x)
            have "n \<le> length (drop i s)" using fits by simp
            then have "\<not> cut_short (drop i s)" using cut_short_first [OF _ n] Err deserialize_wire_form by fastforce
            then show ?thesis unfolding step using True i Some Ok part Err by simp
          qed (use deserialize_internal_no_panic in blast)
        qed
      next
        case (Err x)
        then have "announced_len (drop i s) = None" using ann(1) 1(2) by (metis not_Some_eq outcome.distinct(1))
        then have "\<not> cut_short (drop i s)" by (rule cut_short_unannounced)
        then show ?thesis unfolding step using True i Some Err by simp
      qed (use ann(2) 1(2) in blast)
    qed
  qed
qed

lemma deserialize_panic:
  "deserialize bs = Panic \<longleftrightarrow> 5 \<le> length bs \<and> bs ! 0 = descriptor_into_u8 D_NetworkVec \<and> length bs = 5 + length_field bs \<and> cut_short (drop 5 bs)"
proof (cases bs)
  case (Cons b body)
  have "map_outcome_ok NetworkVec m = Panic \<longleftrightarrow> m = Panic" for m :: "(value_error, NetworkValue list) outcome" by (cases m) simp_all
  then have "deserialize bs = Panic \<longleftrightarrow> b = descriptor_into_u8 D_NetworkVec \<and> deserialize_vec bs = Panic"
    using deserialize_internal_no_panic [of bs] by (simp add: deserialize_def Cons)
  moreover have "deserialize_vec bs = Panic \<longleftrightarrow> 5 \<le> length bs \<and> bs ! 0 = descriptor_into_u8 D_NetworkVec \<and> length bs = 5 + length_field bs
      \<and> deserialize_values bs (length bs) 5 [] = Panic"
    unfolding deserialize_vec_in by (simp only: not_less outcome.distinct simp_thms split: if_split) (metis not_less)
  ultimately show ?thesis using deserialize_values_panic [of "length bs" bs 5 "[]"] Cons by auto
qed (simp add: deserialize_def deserialize_internal_no_panic)

lemma vec_header:
  "5 \<le> length bs \<and> bs ! 0 = descriptor_into_u8 D_NetworkVec \<and> length bs = 5 + length_field bs \<longleftrightarrow>
   length bs < 5 + 2 ^ 32 \<and> bs = descriptor_into_u8 D_NetworkVec # to_le_bytes 4 (of_nat (length bs - 5) :: u32) @ drop 5 bs" (is "?l \<longleftrightarrow> ?r")
proof
  assume l: ?l
  then obtain b tail where bs: "bs = b # tail" "4 \<le> length tail" by (cases bs) auto
  then show ?r using l length_field_bytes [OF bs(2), of b] length_field_less [of bs] by simp
next
  assume r: ?r
  define m where "m = length bs - 5"
  have bs: "bs = descriptor_into_u8 D_NetworkVec # to_le_bytes 4 (of_nat m :: u32) @ drop 5 bs" and m: "m < 2 ^ 32" using r unfolding m_def by auto
  have "length bs = 5 + m" using arg_cong [OF bs, of length] by (simp add: m_def)
  moreover have "length_field bs = m" using length_field_4 [of "descriptor_into_u8 D_NetworkVec" "of_nat m"] unat_of_nat_u32 [OF m] by (subst bs) simp
  moreover have "bs ! 0 = descriptor_into_u8 D_NetworkVec" by (subst bs) simp
  ultimately show ?l by simp
qed

text \<open>
  C27: malformed input. The length checks of the reader of a single message keep every slice
  it takes inside the buffer: whatever the bytes are, it answers with a value or an error. The
  reader of all messages panics on exactly these inputs: the descriptor of a \<open>NetworkVec\<close> and its
  correct length, any number of complete elements, and then an element that claims more bytes
  than the buffer has left.
\<close>

theorem malformed_messages:
  "deserialize_internal bs \<noteq> Panic
   \<and> (deserialize bs = Panic \<longleftrightarrow>
       (\<exists>vs part n. bs = descriptor_into_u8 D_NetworkVec # to_le_bytes 4 (of_nat (length bs - 5) :: u32) @ concat (map wire_form vs) @ part
         \<and> length bs < 5 + 2 ^ 32 \<and> (\<forall>v \<in> set vs. plain_wf v \<and> embeddable v) \<and> announced_len part = Some n \<and> length part < n))"
proof
  show "deserialize_internal bs \<noteq> Panic" by (rule deserialize_internal_no_panic)
  have "deserialize bs = Panic \<longleftrightarrow> length bs < 5 + 2 ^ 32
      \<and> bs = descriptor_into_u8 D_NetworkVec # to_le_bytes 4 (of_nat (length bs - 5) :: u32) @ drop 5 bs \<and> cut_short (drop 5 bs)"
    using deserialize_panic [of bs] vec_header [of bs] by argo
  moreover have "drop 5 bs = rest" if "bs = descriptor_into_u8 D_NetworkVec # to_le_bytes 4 (w :: u32) @ rest" for w rest
    by (subst that) simp
  ultimately show "deserialize bs = Panic \<longleftrightarrow>
       (\<exists>vs part n. bs = descriptor_into_u8 D_NetworkVec # to_le_bytes 4 (of_nat (length bs - 5) :: u32) @ concat (map wire_form vs) @ part
         \<and> length bs < 5 + 2 ^ 32 \<and> (\<forall>v \<in> set vs. plain_wf v \<and> embeddable v) \<and> announced_len part = Some n \<and> length part < n)"
    unfolding cut_short_def by metis
qed

theorem malformed_messages_witness: "deserialize [0x0A, 4, 0, 0, 0, 0x03, 7, 0, 0x05] = Panic \<and> deserialize_internal [0x05] \<noteq> Panic"
proof
  let ?bs = "[0x0A, 4, 0, 0, 0, 0x03, 7, 0, 0x05] :: u8 list"
  have d: "descriptor_try_from 5 = Some D_RingElement64" by (simp add: descriptor_try_from_def all_descriptors_def descriptor_into_u8.simps)
  have le: "to_le_bytes 4 (4 :: u32) = [4, 0, 0, 0]" "to_le_bytes 2 (7 :: u16) = [7, 0]" by code_simp+
  have "?bs = descriptor_into_u8 D_NetworkVec # to_le_bytes 4 (of_nat (length ?bs - 5) :: u32) @ concat (map wire_form [RingElement16 (RingElement 7)]) @ [0x05]"
    by (simp add: wire_form_def serialize_internal_def descriptor_into_u8.simps le)
  moreover have "announced_len [0x05] = Some 9" using d by (simp add: announced_len_def)
  ultimately show "deserialize ?bs = Panic"
    by (intro iffD2 [OF conjunct2 [OF malformed_messages]] exI [of _ "[RingElement16 (RingElement 7)]"] exI [of _ "[0x05]"] exI [of _ 9] conjI) simp_all
  show "deserialize_internal [0x05] \<noteq> Panic" by (rule conjunct1 [OF malformed_messages])
qed

end
