(* ===== verification/Workpool_Value.thy ===== *)
theory Workpool_Value
  imports Prelude
begin

text \<open>
  Messages between the leader and the workers of a work pool
  (\<open>ampc-actor-utils/src/network/workpool/value.rs\<close> and \<open>payload.rs\<close>) and the framing of
  \<open>workpool/mod.rs\<close>: \<open>read_single_message\<close> takes one message off a byte stream. A payload
  is plain bytes or a \<open>dyn ToBytes\<close>, which is code outside the module: it is represented
  by what its two methods give, the bytes it appends and the length it reports.
\<close>

type_synonym WorkerId = u16
type_synonym JobId = u32

record dyn_payload =
  dyn_bytes :: "u8 list"
  dyn_len :: nat

datatype Payload = PBytes "u8 list" | PDyn dyn_payload

definition payload_default :: Payload where
  "payload_default = PBytes []"

fun payload_len :: "Payload \<Rightarrow> nat" where
  "payload_len (PBytes b) = length b"
| "payload_len (PDyn p) = dyn_len p"

definition payload_is_empty :: "Payload \<Rightarrow> bool" where
  "payload_is_empty self = (payload_len self = 0)"

fun payload_to_bytes :: "Payload \<Rightarrow> u8 list" where
  "payload_to_bytes (PBytes b) = b"
| "payload_to_bytes (PDyn a) = dyn_bytes a"

datatype WpValue =
    WpJob JobId WorkerId Payload
  | WpPendingJobsRequest WorkerId
  | WpPendingJobsReply WorkerId "JobId list"
  | WpCancel JobId WorkerId

datatype WpDescriptor = DJob | DPendingJobsRequest | DPendingJobsReply | DCancel

fun wp_descriptor_u8 :: "WpDescriptor \<Rightarrow> u8" where
  "wp_descriptor_u8 DJob = 0x01"
| "wp_descriptor_u8 DPendingJobsRequest = 0x03"
| "wp_descriptor_u8 DPendingJobsReply = 0x04"
| "wp_descriptor_u8 DCancel = 0x05"

definition wp_descriptor_try_from :: "u8 \<Rightarrow> WpDescriptor option" where
  "wp_descriptor_try_from b =
     find (\<lambda>d. wp_descriptor_u8 d = b) [DJob, DPendingJobsRequest, DPendingJobsReply, DCancel]"

fun header_len :: "WpDescriptor \<Rightarrow> nat" where
  "header_len DJob = 11"
| "header_len DPendingJobsRequest = 3"
| "header_len DPendingJobsReply = 7"
| "header_len DCancel = 7"

fun wp_descriptor :: "WpValue \<Rightarrow> WpDescriptor" where
  "wp_descriptor (WpJob _ _ _) = DJob"
| "wp_descriptor (WpPendingJobsRequest _) = DPendingJobsRequest"
| "wp_descriptor (WpPendingJobsReply _ _) = DPendingJobsReply"
| "wp_descriptor (WpCancel _ _) = DCancel"

fun wp_byte_len :: "WpValue \<Rightarrow> nat" where
  "wp_byte_len (WpJob _ _ payload) = header_len DJob + payload_len payload"
| "wp_byte_len (WpPendingJobsReply _ job_ids) = header_len DPendingJobsReply + length job_ids * 4"
| "wp_byte_len v = header_len (wp_descriptor v)"

fun wp_serialize :: "WpValue \<Rightarrow> u8 list \<Rightarrow> u8 list" where
  "wp_serialize (WpJob job_id worker_id payload) buf =
     (let buf = buf @ [wp_descriptor_u8 DJob];
          buf = buf @ to_le_bytes 4 job_id;
          buf = buf @ to_le_bytes 2 worker_id;
          buf = buf @ to_le_bytes 4 (of_nat (payload_len payload) :: u32)
      in case payload of PBytes b \<Rightarrow> buf @ b | PDyn p \<Rightarrow> buf @ dyn_bytes p)"
| "wp_serialize (WpPendingJobsRequest worker_id) buf =
     buf @ [wp_descriptor_u8 DPendingJobsRequest] @ to_le_bytes 2 worker_id"
| "wp_serialize (WpPendingJobsReply worker_id job_ids) buf =
     (let buf = buf @ [wp_descriptor_u8 DPendingJobsReply];
          buf = buf @ to_le_bytes 2 worker_id;
          buf = buf @ to_le_bytes 4 (of_nat (length job_ids * 4) :: u32)
      in foldl (\<lambda>buf job_id. buf @ to_le_bytes 4 job_id) buf job_ids)"
| "wp_serialize (WpCancel job_id worker_id) buf =
     buf @ [wp_descriptor_u8 DCancel] @ to_le_bytes 4 job_id @ to_le_bytes 2 worker_id"

definition wp_to_network :: "WpValue \<Rightarrow> u8 list" where
  "wp_to_network self = wp_serialize self []"

datatype wp_error =
    EmptyBuffer | WpInvalidDescriptorByte u8 | TooShort WpDescriptor nat | IncompletePayload nat nat
  | NotDivisible nat | ExceedsMaximum nat | Io

text \<open>\<open>bytes[a..b]\<close> as a word; every use is within the length checked before.\<close>

definition le_field :: "u8 list \<Rightarrow> nat \<Rightarrow> nat \<Rightarrow> 'a::len word" where
  "le_field bs a b = from_le_bytes (take (b - a) (drop a bs))"

definition wp_deserialize :: "u8 list \<Rightarrow> wp_error + WpValue" where
  "wp_deserialize bs =
     (case bs of
        [] \<Rightarrow> Inl EmptyBuffer
      | b # _ \<Rightarrow>
        (case wp_descriptor_try_from b of
           None \<Rightarrow> Inl (WpInvalidDescriptorByte b)
         | Some d \<Rightarrow>
           if length bs < header_len d then Inl (TooShort d (length bs))
           else (case d of
              DJob \<Rightarrow>
                (let job_id = le_field bs 1 5; worker_id = le_field bs 5 7;
                     n = unat (le_field bs 7 11 :: u32)
                 in if length bs < header_len d + n then Inl (IncompletePayload (header_len d + n) (length bs))
                    else Inr (WpJob job_id worker_id (PBytes (take n (drop 11 bs)))))
            | DPendingJobsRequest \<Rightarrow> Inr (WpPendingJobsRequest (le_field bs 1 3))
            | DPendingJobsReply \<Rightarrow>
                (let worker_id = le_field bs 1 3;
                     n = unat (le_field bs 3 (header_len d) :: u32)
                 in if length bs < header_len d + n then Inl (IncompletePayload (header_len d + n) (length bs))
                    else if n mod 4 \<noteq> 0 then Inl (NotDivisible n)
                    else Inr (WpPendingJobsReply worker_id
                           (map (\<lambda>k. le_field bs (header_len d + k * 4) (header_len d + k * 4 + 4)) [0..<n div 4])))
            | DCancel \<Rightarrow> Inr (WpCancel (le_field bs 1 5) (le_field bs 5 7)))))"

section \<open>Reading from a stream\<close>

definition MAX_PAYLOAD_SIZE :: nat where
  "MAX_PAYLOAD_SIZE = 50 * 1024 * 1024"

text \<open>\<open>read_exact\<close> on the bytes still to come; a stream that ends early is an i/o error.\<close>

definition read_exact :: "nat \<Rightarrow> u8 list \<Rightarrow> wp_error + u8 list \<times> u8 list" where
  "read_exact n s = (if length s < n then Inl Io else Inr (take n s, drop n s))"

definition payload_len_field :: "WpDescriptor \<Rightarrow> u8 list \<Rightarrow> nat" where
  "payload_len_field d buf =
     (case d of
        DJob \<Rightarrow> unat (le_field buf 7 11 :: u32)
      | DPendingJobsReply \<Rightarrow> unat (le_field buf 3 7 :: u32)
      | _ \<Rightarrow> 0)"

definition read_single_message :: "u8 list \<Rightarrow> wp_error + WpValue \<times> u8 list" where
  "read_single_message s =
     (case read_exact 1 s of
        Inl e \<Rightarrow> Inl e
      | Inr (buf, s) \<Rightarrow>
        (case wp_descriptor_try_from (buf ! 0) of
           None \<Rightarrow> Inl (WpInvalidDescriptorByte (buf ! 0))
         | Some d \<Rightarrow>
           (case read_exact (header_len d - 1) s of
              Inl e \<Rightarrow> Inl e
            | Inr (hdr, s) \<Rightarrow>
              (let buf = buf @ hdr; n = payload_len_field d buf
               in if n > MAX_PAYLOAD_SIZE then Inl (ExceedsMaximum n)
                  else (case (if n > 0 then read_exact n s else Inr ([], s)) of
                          Inl e \<Rightarrow> Inl e
                        | Inr (body, s) \<Rightarrow>
                          (case wp_deserialize (buf @ body) of Inl e \<Rightarrow> Inl e | Inr v \<Rightarrow> Inr (v, s)))))))"

lemma read_single_message_shorter: "read_single_message s = Inr (v, s') \<Longrightarrow> length s' < length s"
  by (auto simp: read_single_message_def read_exact_def Let_def split: sum.splits option.splits if_splits)

text \<open>
  \<open>read_and_parse_inbound\<close>: messages are handed over one by one until reading fails (at the
  latest at the end of the stream) or the handler reports an error. The handler works on a
  state of its own.
\<close>

datatype 'e inbound_error = ReadFailed wp_error | HandlerFailed 'e

function read_and_parse_inbound ::
  "(WpValue \<Rightarrow> 's \<Rightarrow> 'e + 's) \<Rightarrow> 's \<Rightarrow> u8 list \<Rightarrow> 's \<times> 'e inbound_error" where
  "read_and_parse_inbound handle_msg st s =
     (case read_single_message s of
        Inl e \<Rightarrow> (st, ReadFailed e)
      | Inr (v, s') \<Rightarrow>
        (case handle_msg v st of
           Inl e \<Rightarrow> (st, HandlerFailed e)
         | Inr st' \<Rightarrow> read_and_parse_inbound handle_msg st' s'))"
  by pat_completeness auto
termination
  by (relation "measure (\<lambda>(_, _, s). length s)") (auto dest: read_single_message_shorter)

declare read_and_parse_inbound.simps [simp del]

text \<open>
  \<open>serialize_and_write_outbound\<close>, until the queue is closed: \<open>queue\<close> is what is still to come.
  \<open>recv\<close> waits for the next message; \<open>try_recv\<close> finds it only if it has arrived, which
  \<open>ready\<close> decides by the number of messages that are left (no two calls of \<open>try_recv\<close> see
  the same number). Every message goes through the hook, on a state, before it is serialized.
  The buffer is cleared before a batch, filled while messages are there and it is below the
  limit, and handed to \<open>write_all\<close> and \<open>flush\<close>. The i/o error of either is \<open>fault\<close>, again by
  the number of messages left: how many bytes of the batch still reached the stream. The
  result has the state of the hook, the batches on the stream, the queue and the result.
\<close>

definition MAX_TO_BATCH :: nat where
  "MAX_TO_BATCH = 64 * 1024 * 1024"

fun batch_more :: "(nat \<Rightarrow> bool) \<Rightarrow> (WpValue \<Rightarrow> 's \<Rightarrow> 's) \<Rightarrow> 's \<Rightarrow> u8 list \<Rightarrow> WpValue list \<Rightarrow> 's \<times> u8 list \<times> WpValue list" where
  "batch_more ready pre_send_hook st buf [] = (st, buf, [])"
| "batch_more ready pre_send_hook st buf (msg # queue) =
     (if ready (length (msg # queue))
      then let st = pre_send_hook msg st; buf = wp_serialize msg buf
        in if MAX_TO_BATCH \<le> length buf then (st, buf, queue)
           else batch_more ready pre_send_hook st buf queue
      else (st, buf, msg # queue))"

lemma batch_more_shorter: "batch_more ready hook st buf queue = (st', buf', rest) \<Longrightarrow> length rest \<le> length queue"
  by (induction queue arbitrary: st buf) (fastforce simp: Let_def split: if_splits)+

function serialize_and_write_outbound :: "(nat \<Rightarrow> bool) \<Rightarrow> (nat \<Rightarrow> nat option) \<Rightarrow> (WpValue \<Rightarrow> 's \<Rightarrow> 's) \<Rightarrow> 's
    \<Rightarrow> u8 list \<Rightarrow> u8 list list \<Rightarrow> WpValue list \<Rightarrow> 's \<times> u8 list list \<times> WpValue list \<times> (wp_error + unit)" where
  "serialize_and_write_outbound ready fault pre_send_hook st buf stream [] = (st, stream, [], Inr ())"
| "serialize_and_write_outbound ready fault pre_send_hook st buf stream (msg # queue) =
     (let st = pre_send_hook msg st;
          buf = [];
          buf = wp_serialize msg buf;
          (st, buf, queue) = batch_more ready pre_send_hook st buf queue
      in case fault (length queue) of
           Some n \<Rightarrow> (st, stream @ [take n buf], queue, Inl Io)
         | None \<Rightarrow> serialize_and_write_outbound ready fault pre_send_hook st buf (stream @ [buf]) queue)"
  by pat_completeness auto
termination
  by (relation "measure (\<lambda>(_, _, _, _, _, _, queue). length queue)") (auto dest!: batch_more_shorter [OF sym])

section \<open>Round trips\<close>

text \<open>
  What a sent message is received as, and which messages the stream carries: the length
  fields fit, the reported length of a \<open>dyn ToBytes\<close> is that of its bytes, and the payload
  is within the reader's limit.
\<close>

fun received :: "WpValue \<Rightarrow> WpValue" where
  "received (WpJob j w p) = WpJob j w (PBytes (payload_to_bytes p))"
| "received v = v"

fun wp_wf :: "WpValue \<Rightarrow> bool" where
  "wp_wf (WpJob _ _ p) \<longleftrightarrow> payload_len p = length (payload_to_bytes p) \<and> payload_len p < 2 ^ 32"
| "wp_wf (WpPendingJobsReply _ ids) \<longleftrightarrow> length ids * 4 < 2 ^ 32"
| "wp_wf _ \<longleftrightarrow> True"

fun wp_payload_size :: "WpValue \<Rightarrow> nat" where
  "wp_payload_size (WpJob _ _ p) = payload_len p"
| "wp_payload_size (WpPendingJobsReply _ ids) = length ids * 4"
| "wp_payload_size _ = 0"

lemma wp_descriptor_round_trip [simp]: "wp_descriptor_try_from (wp_descriptor_u8 d) = Some d"
  by (cases d) (simp_all add: wp_descriptor_try_from_def)

declare wp_descriptor_u8.simps [simp del]

lemma wp_serialize_append: "wp_serialize v buf = buf @ wp_to_network v"
proof -
  have "foldl (\<lambda>buf j. buf @ to_le_bytes 4 j) (buf @ ys) js = buf @ foldl (\<lambda>buf j. buf @ to_le_bytes 4 j) ys js"
    for js :: "JobId list" and ys
    by (induction js arbitrary: ys) simp_all
  note loop = this
  show ?thesis
    by (cases v) (simp_all add: wp_to_network_def Let_def split: Payload.split, metis loop append_Cons append_Nil append.assoc)
qed

lemma foldl_to_le_bytes: "foldl (\<lambda>buf j. buf @ to_le_bytes 4 j) buf js = buf @ concat (map (to_le_bytes 4) js)"
  by (induction js arbitrary: buf) simp_all

lemma wp_to_network_eq:
  "wp_to_network (WpJob j w p) = wp_descriptor_u8 DJob # to_le_bytes 4 j @ to_le_bytes 2 w
     @ to_le_bytes 4 (of_nat (payload_len p) :: u32) @ payload_to_bytes p"
  "wp_to_network (WpPendingJobsRequest w) = wp_descriptor_u8 DPendingJobsRequest # to_le_bytes 2 w"
  "wp_to_network (WpPendingJobsReply w ids) = wp_descriptor_u8 DPendingJobsReply # to_le_bytes 2 w
     @ to_le_bytes 4 (of_nat (length ids * 4) :: u32) @ concat (map (to_le_bytes 4) ids)"
  "wp_to_network (WpCancel j w) = wp_descriptor_u8 DCancel # to_le_bytes 4 j @ to_le_bytes 2 w"
  by (simp_all add: wp_to_network_def Let_def foldl_to_le_bytes split: Payload.split)

lemma length_wp_to_network: "wp_wf v \<Longrightarrow> length (wp_to_network v) = wp_byte_len v"
  by (cases v) (simp_all add: wp_to_network_eq length_concat comp_def sum_list_triv)

lemma le_field_append:
  "length xs = a \<Longrightarrow> b = a + n \<Longrightarrow> LENGTH('a) \<le> 8 * n \<Longrightarrow>
    le_field (xs @ to_le_bytes n (w :: 'a::len word) @ ys) a b = w"
  by (simp add: le_field_def from_to_le_bytes_id)

lemma unat_u32: "n < 2 ^ 32 \<Longrightarrow> unat (of_nat n :: u32) = n"
  by (simp add: unat_of_nat take_bit_nat_eq_self)

text \<open>The fields of a message, whatever follows it.\<close>

lemma job_fields:
  fixes j :: JobId and w :: WorkerId and n :: u32
  defines "m \<equiv> wp_descriptor_u8 DJob # to_le_bytes 4 j @ to_le_bytes 2 w @ to_le_bytes 4 (n :: u32)"
  shows "length m = 11" "le_field (m @ rest) 1 5 = (j :: JobId)" "le_field (m @ rest) 5 7 = (w :: WorkerId)"
    "le_field (m @ rest) 7 11 = n"
  unfolding m_def
  using le_field_append [of "[wp_descriptor_u8 DJob]" 1 5 4 j "to_le_bytes 2 w @ to_le_bytes 4 n @ rest"]
    le_field_append [of "wp_descriptor_u8 DJob # to_le_bytes 4 j" 5 7 2 w "to_le_bytes 4 n @ rest"]
    le_field_append [of "wp_descriptor_u8 DJob # to_le_bytes 4 j @ to_le_bytes 2 w" 7 11 4 n rest]
  by simp_all

lemma reply_fields:
  fixes w :: WorkerId and n :: u32
  defines "m \<equiv> wp_descriptor_u8 DPendingJobsReply # to_le_bytes 2 w @ to_le_bytes 4 (n :: u32)"
  shows "length m = 7" "le_field (m @ rest) 1 3 = (w :: WorkerId)" "le_field (m @ rest) 3 7 = n"
  unfolding m_def
  using le_field_append [of "[wp_descriptor_u8 DPendingJobsReply]" 1 3 2 w "to_le_bytes 4 n @ rest"]
    le_field_append [of "wp_descriptor_u8 DPendingJobsReply # to_le_bytes 2 w" 3 7 4 n rest]
  by simp_all

lemma take_4_concat:
  assumes "k < length ids"
  shows "take 4 (drop (k * 4) (concat (map (to_le_bytes 4) ids))) = to_le_bytes 4 (ids ! k :: JobId)"
proof -
  let ?bs = "map (to_le_bytes 4) ids"
  have len: "length (concat ?bs) = length ids * 4" by (simp add: length_concat comp_def sum_list_triv)
  have "chunks_exact 4 (concat ?bs) = ?bs" by (rule chunks_exact_concat) auto
  moreover have "chunks_exact 4 (concat ?bs) ! k = take 4 (drop (k * 4) (concat ?bs))"
    using assms len by (intro chunks_exact_nth) simp_all
  ultimately show ?thesis using assms by simp
qed

lemma wp_deserialize_to_network:
  assumes "wp_wf v"
  shows "wp_deserialize (wp_to_network v) = Inr (received v)"
proof (cases v)
  case (WpJob j w p)
  let ?n = "of_nat (payload_len p) :: u32"
  let ?m = "wp_descriptor_u8 DJob # to_le_bytes 4 j @ to_le_bytes 2 w @ to_le_bytes 4 ?n"
  have bs: "wp_to_network v = ?m @ payload_to_bytes p" using WpJob by (simp add: wp_to_network_eq)
  have n: "unat ?n = payload_len p" "payload_len p = length (payload_to_bytes p)"
    using assms WpJob by (simp_all add: unat_u32)
  show ?thesis unfolding bs
    using job_fields(1) [where j = j and w = w and n = ?n] job_fields(2-4) [where j = j and w = w and n = ?n and rest = "payload_to_bytes p"] n WpJob
    by (simp add: wp_deserialize_def)
next
  case (WpPendingJobsReply w ids)
  let ?n = "of_nat (length ids * 4) :: u32" and ?c = "concat (map (to_le_bytes 4) ids)"
  let ?m = "wp_descriptor_u8 DPendingJobsReply # to_le_bytes 2 w @ to_le_bytes 4 ?n"
  have bs: "wp_to_network v = ?m @ ?c" using WpPendingJobsReply by (simp add: wp_to_network_eq)
  have n: "unat ?n = length ids * 4" using assms WpPendingJobsReply by (simp add: unat_u32 del: of_nat_mult)
  have len: "length ?c = length ids * 4" by (simp add: length_concat comp_def sum_list_triv)
  have "le_field (?m @ ?c) (7 + k * 4) (7 + k * 4 + 4) = ids ! k" if "k < length ids" for k
  proof -
    have "drop (7 + k * 4) (?m @ ?c) = drop (k * 4) ?c" by (simp del: append.simps)
    then show ?thesis using take_4_concat [OF that] by (simp only: le_field_def) (simp add: from_to_le_bytes_id)
  qed
  then have ids: "map (\<lambda>k. le_field (?m @ ?c) (7 + k * 4) (7 + k * 4 + 4)) [0..<length ids] = ids"
    by (intro nth_equalityI) simp_all
  show ?thesis unfolding bs
    using reply_fields(1) [where w = w and n = ?n] reply_fields(2,3) [where w = w and n = ?n and rest = ?c] n len ids WpPendingJobsReply
    by (simp add: wp_deserialize_def del: of_nat_mult)
qed (simp_all add: wp_to_network_eq wp_deserialize_def le_field_def from_to_le_bytes_id)

text \<open>One message is taken off the stream, whatever follows.\<close>

lemma wp_to_network_split:
  assumes "wp_wf v"
  obtains hdr body where "wp_to_network v = wp_descriptor_u8 (wp_descriptor v) # hdr @ body"
    "length hdr = header_len (wp_descriptor v) - 1" "length body = wp_payload_size v"
    "payload_len_field (wp_descriptor v) (wp_descriptor_u8 (wp_descriptor v) # hdr) = wp_payload_size v"
proof (cases v)
  case (WpJob j w p)
  let ?n = "of_nat (payload_len p) :: u32"
  have "unat ?n = payload_len p" using assms WpJob by (simp add: unat_u32)
  then show ?thesis
    using that [of "to_le_bytes 4 j @ to_le_bytes 2 w @ to_le_bytes 4 ?n" "payload_to_bytes p"] assms WpJob
      job_fields(4) [where j = j and w = w and n = ?n and rest = "[]"]
    by (simp add: wp_to_network_eq payload_len_field_def)
next
  case (WpPendingJobsReply w ids)
  let ?n = "of_nat (length ids * 4) :: u32"
  have "unat ?n = length ids * 4" using assms WpPendingJobsReply by (simp add: unat_u32 del: of_nat_mult)
  then show ?thesis
    using that [of "to_le_bytes 2 w @ to_le_bytes 4 ?n" "concat (map (to_le_bytes 4) ids)"] WpPendingJobsReply
      reply_fields(3) [where w = w and n = ?n and rest = "[]"]
    by (simp add: wp_to_network_eq payload_len_field_def length_concat comp_def sum_list_triv del: of_nat_mult)
qed (use that [of _ "[]"] in \<open>simp_all add: wp_to_network_eq payload_len_field_def\<close>)

lemma read_single_message_eq:
  assumes "wp_wf v" "wp_payload_size v \<le> MAX_PAYLOAD_SIZE"
  shows "read_single_message (wp_to_network v @ rest) = Inr (received v, rest)"
proof -
  obtain hdr body where eq: "wp_to_network v = wp_descriptor_u8 (wp_descriptor v) # hdr @ body"
    and len: "length hdr = header_len (wp_descriptor v) - 1" "length body = wp_payload_size v"
    and n: "payload_len_field (wp_descriptor v) (wp_descriptor_u8 (wp_descriptor v) # hdr) = wp_payload_size v"
    using wp_to_network_split [OF assms(1)] by blast
  have "wp_deserialize (wp_descriptor_u8 (wp_descriptor v) # hdr @ body) = Inr (received v)"
    using wp_deserialize_to_network [OF assms(1)] eq by simp
  then show ?thesis
    using len n assms(2) by (cases "wp_payload_size v = 0") (simp_all add: eq read_single_message_def read_exact_def Let_def)
qed

lemma read_oversized:
  assumes "wp_wf v" "MAX_PAYLOAD_SIZE < wp_payload_size v"
  shows "read_single_message (wp_to_network v @ rest) = Inl (ExceedsMaximum (wp_payload_size v))"
proof -
  obtain hdr body where "wp_to_network v = wp_descriptor_u8 (wp_descriptor v) # hdr @ body"
    "length hdr = header_len (wp_descriptor v) - 1"
    "payload_len_field (wp_descriptor v) (wp_descriptor_u8 (wp_descriptor v) # hdr) = wp_payload_size v"
    using wp_to_network_split [OF assms(1)] by blast
  then show ?thesis using assms(2) by (simp add: read_single_message_def read_exact_def Let_def)
qed

text \<open>A message that is cut short is an i/o error.\<close>

lemma read_cut_message:
  assumes "wp_wf v" "wp_payload_size v \<le> MAX_PAYLOAD_SIZE" "n < length (wp_to_network v)"
  shows "read_single_message (take n (wp_to_network v)) = Inl Io"
proof -
  obtain hdr body where eq: "wp_to_network v = wp_descriptor_u8 (wp_descriptor v) # hdr @ body"
    and len: "length hdr = header_len (wp_descriptor v) - 1" "length body = wp_payload_size v"
    and f: "payload_len_field (wp_descriptor v) (wp_descriptor_u8 (wp_descriptor v) # hdr) = wp_payload_size v"
    using wp_to_network_split [OF assms(1)] by blast
  show ?thesis
  proof (cases n)
    case (Suc k)
    show ?thesis
    proof (cases "k < length hdr")
      case True
      then show ?thesis using len Suc by (simp add: eq read_single_message_def read_exact_def)
    next
      case False
      then have "take n (wp_to_network v) = wp_descriptor_u8 (wp_descriptor v) # hdr @ take (k - length hdr) body" using Suc by (simp add: eq)
      moreover have "k - length hdr < wp_payload_size v" using assms(3) len(2) Suc False by (simp add: eq)
      ultimately show ?thesis using len f assms(2) by (simp add: read_single_message_def read_exact_def Let_def)
    qed
  qed (simp add: read_single_message_def read_exact_def)
qed

lemma read_end: "read_single_message [] = Inl Io"
  by (simp add: read_single_message_def read_exact_def)

section \<open>Batches\<close>

definition carried :: "WpValue \<Rightarrow> bool" where
  "carried v \<longleftrightarrow> wp_wf v \<and> wp_payload_size v \<le> MAX_PAYLOAD_SIZE"

lemma carried_len: "carried v \<Longrightarrow> length (wp_to_network v) \<le> 11 + MAX_PAYLOAD_SIZE"
  by (cases v) (simp_all add: carried_def length_wp_to_network)

lemma batch_more_eq:
  assumes "batch_more ready hook st buf queue = (st', buf', rest)"
  shows "\<exists>m \<le> length queue. st' = foldl (\<lambda>st v. hook v st) st (take m queue)
    \<and> buf' = buf @ concat (map wp_to_network (take m queue)) \<and> rest = drop m queue"
  using assms
proof (induction queue arbitrary: st buf)
  case (Cons v queue)
  show ?case
  proof (cases "ready (length (v # queue))")
    case True
    show ?thesis
    proof (cases "MAX_TO_BATCH \<le> length (wp_serialize v buf)")
      case True
      then show ?thesis using Cons.prems \<open>ready _\<close> by (intro exI [of _ 1]) (auto simp: wp_serialize_append)
    next
      case False
      then have "batch_more ready hook (hook v st) (wp_serialize v buf) queue = (st', buf', rest)" using Cons.prems True by (simp add: Let_def)
      from Cons.IH [OF this] obtain m where "m \<le> length queue" "st' = foldl (\<lambda>st v. hook v st) (hook v st) (take m queue)"
        "buf' = wp_serialize v buf @ concat (map wp_to_network (take m queue))" "rest = drop m queue" by blast
      then show ?thesis by (intro exI [of _ "Suc m"]) (simp add: wp_serialize_append)
    qed
  qed (use Cons.prems in \<open>auto intro!: exI [of _ 0]\<close>)
qed simp

lemma batch_more_len:
  assumes "batch_more ready hook st buf queue = (st', buf', rest)" "\<forall>v \<in> set queue. carried v" "length buf < MAX_TO_BATCH"
  shows "length buf' < MAX_TO_BATCH + 11 + MAX_PAYLOAD_SIZE"
  using assms
proof (induction queue arbitrary: st buf)
  case (Cons v queue)
  have "length (wp_to_network v) \<le> 11 + MAX_PAYLOAD_SIZE" using Cons.prems by (intro carried_len) simp
  then have "length (wp_serialize v buf) < MAX_TO_BATCH + 11 + MAX_PAYLOAD_SIZE" using Cons.prems(3) by (simp add: wp_serialize_append)
  then show ?case using Cons by (auto simp: Let_def split: if_splits)
qed simp

text \<open>What a run of the writer leaves: the messages taken, and the bytes on the stream as a prefix of their wire forms.\<close>

lemma outbound_eq:
  assumes "serialize_and_write_outbound ready fault hook st buf stream msgs = (st', writes, rest, res)"
  shows "\<exists>m n. m \<le> length msgs \<and> st' = foldl (\<lambda>st v. hook v st) st (take m msgs) \<and> rest = drop m msgs
    \<and> concat writes = concat stream @ take n (concat (map wp_to_network (take m msgs)))
    \<and> (res = Inl Io \<or> res = Inr () \<and> m = length msgs \<and> n = length (concat (map wp_to_network msgs)))
    \<and> ((\<forall>i. fault i = None) \<longrightarrow> res = Inr ())"
  using assms
proof (induction ready fault hook st buf stream msgs rule: serialize_and_write_outbound.induct)
  case (2 ready fault hook st buf stream msg queue)
  obtain st1 buf1 queue1 where b: "batch_more ready hook (hook msg st) (wp_serialize msg []) queue = (st1, buf1, queue1)" by (cases rule: prod_cases3)
  from batch_more_eq [OF b] obtain k where k: "k \<le> length queue" "st1 = foldl (\<lambda>st v. hook v st) (hook msg st) (take k queue)"
    "buf1 = wp_to_network msg @ concat (map wp_to_network (take k queue))" "queue1 = drop k queue"
    by (auto simp: wp_to_network_def)
  show ?case
  proof (cases "fault (length queue1)")
    case None
    then have run: "serialize_and_write_outbound ready fault hook st1 buf1 (stream @ [buf1]) queue1 = (st', writes, rest, res)"
      using 2(2) b by (simp add: Let_def)
    from 2(1) [OF refl refl refl b [symmetric] refl refl None run] obtain m n where m: "m \<le> length queue1" "st' = foldl (\<lambda>st v. hook v st) st1 (take m queue1)"
      "rest = drop m queue1" "concat writes = concat (stream @ [buf1]) @ take n (concat (map wp_to_network (take m queue1)))"
      "res = Inl Io \<or> res = Inr () \<and> m = length queue1 \<and> n = length (concat (map wp_to_network queue1))" "(\<forall>i. fault i = None) \<longrightarrow> res = Inr ()" by blast
    have tk: "take (Suc (k + m)) (msg # queue) = msg # take k queue @ take m queue1" using k(4) by (simp add: take_add)
    have "concat (map wp_to_network (msg # queue)) = buf1 @ concat (map wp_to_network queue1)"
      unfolding k(3,4) by (metis append_take_drop_id concat.simps(2) concat_append list.simps(9) map_append append.assoc)
    then show ?thesis using m k by (intro exI [of _ "Suc (k + m)"] exI [of _ "length buf1 + n"]) (auto simp: tk add.commute simp del: take_Suc_Cons)
  next
    case (Some n)
    then have "st' = st1" "writes = stream @ [take n buf1]" "rest = queue1" "res = Inl Io" using 2(2) b by (simp_all add: Let_def)
    then show ?thesis using k Some by (intro exI [of _ "Suc k"] exI [of _ n]) auto
  qed
qed auto

lemma outbound_len:
  assumes "serialize_and_write_outbound ready fault hook st buf stream msgs = (st', writes, rest, res)" "\<forall>v \<in> set msgs. carried v"
    "\<forall>b \<in> set stream. length b < MAX_TO_BATCH + 11 + MAX_PAYLOAD_SIZE"
  shows "\<forall>b \<in> set writes. length b < MAX_TO_BATCH + 11 + MAX_PAYLOAD_SIZE"
  using assms
proof (induction ready fault hook st buf stream msgs rule: serialize_and_write_outbound.induct)
  case (2 ready fault hook st buf stream msg queue)
  obtain st1 buf1 queue1 where b: "batch_more ready hook (hook msg st) (wp_serialize msg []) queue = (st1, buf1, queue1)" by (cases rule: prod_cases3)
  have "length (wp_serialize msg []) \<le> 11 + MAX_PAYLOAD_SIZE" using carried_len [of msg] 2(3) by (simp add: wp_to_network_def)
  then have len: "length buf1 < MAX_TO_BATCH + 11 + MAX_PAYLOAD_SIZE"
    using 2(3) by (intro batch_more_len [OF b]) (simp_all add: MAX_TO_BATCH_def MAX_PAYLOAD_SIZE_def)
  have q: "\<forall>v \<in> set queue1. carried v" using batch_more_eq [OF b] 2(3) by (auto dest: in_set_dropD)
  show ?case
  proof (cases "fault (length queue1)")
    case None
    then have run: "serialize_and_write_outbound ready fault hook st1 buf1 (stream @ [buf1]) queue1 = (st', writes, rest, res)"
      using 2(2) b by (simp add: Let_def)
    show ?thesis by (rule 2(1) [OF refl refl refl b [symmetric] refl refl None run q]) (use 2(4) len in auto)
  next
    case (Some n)
    then have "writes = stream @ [take n buf1]" using 2(2) b by (simp add: Let_def)
    then show ?thesis using 2(4) len by auto
  qed
qed simp

text \<open>The reader of a prefix of the stream gets the messages that are complete in it.\<close>

lemma read_prefix:
  assumes "\<forall>v \<in> set msgs. carried v"
  shows "\<exists>k \<le> length msgs. read_and_parse_inbound (\<lambda>v log. Inr (log @ [v]) :: unit + WpValue list) log (take n (concat (map wp_to_network msgs))) =
      (log @ map received (take k msgs), ReadFailed Io)
    \<and> length (concat (map wp_to_network (take k msgs))) \<le> min n (length (concat (map wp_to_network msgs)))
    \<and> (k < length msgs \<longrightarrow> n < length (concat (map wp_to_network (take (Suc k) msgs))))"
  using assms
proof (induction msgs arbitrary: log n)
  case Nil
  then show ?case by (simp add: read_and_parse_inbound.simps read_end)
next
  case (Cons v msgs)
  have v: "wp_wf v" "wp_payload_size v \<le> MAX_PAYLOAD_SIZE" using Cons.prems by (simp_all add: carried_def)
  show ?case
  proof (cases "n < length (wp_to_network v)")
    case True
    then show ?thesis using read_cut_message [OF v True] by (intro exI [of _ 0]) (simp add: read_and_parse_inbound.simps)
  next
    case False
    let ?n = "n - length (wp_to_network v)"
    from Cons obtain k where k: "k \<le> length msgs" "read_and_parse_inbound (\<lambda>v log. Inr (log @ [v]) :: unit + WpValue list) (log @ [received v])
        (take ?n (concat (map wp_to_network msgs))) = ((log @ [received v]) @ map received (take k msgs), ReadFailed Io)"
      "length (concat (map wp_to_network (take k msgs))) \<le> min ?n (length (concat (map wp_to_network msgs)))"
      "k < length msgs \<longrightarrow> ?n < length (concat (map wp_to_network (take (Suc k) msgs)))" by (metis list.set_intros(2))
    have "take n (concat (map wp_to_network (v # msgs))) = wp_to_network v @ take ?n (concat (map wp_to_network msgs))" using False by simp
    then have "read_and_parse_inbound (\<lambda>v log. Inr (log @ [v]) :: unit + WpValue list) log (take n (concat (map wp_to_network (v # msgs)))) =
        (log @ map received (take (Suc k) (v # msgs)), ReadFailed Io)"
      using k(2) by (subst read_and_parse_inbound.simps) (simp add: read_single_message_eq [OF v])
    then show ?thesis using k(1,3,4) False by (intro exI [of _ "Suc k"]) auto
  qed
qed

lemma sum_byte_len:
  assumes "\<forall>v \<in> set msgs. carried v"
  shows "length (concat (map wp_to_network (take i msgs))) = sum_list (map wp_byte_len (take i msgs))"
proof -
  have "\<forall>v \<in> set (take i msgs). wp_wf v" using assms by (auto simp: carried_def dest: in_set_takeD)
  then have "map (length \<circ> wp_to_network) (take i msgs) = map wp_byte_len (take i msgs)" by (simp add: length_wp_to_network)
  then show ?thesis by (simp only: length_concat map_map)
qed

text \<open>A message beyond the limit is written like any other, and the reader stops there.\<close>

lemma read_oversized_stream:
  assumes "wp_wf v" "MAX_PAYLOAD_SIZE < wp_payload_size v"
  shows "read_and_parse_inbound handle log (wp_serialize v [] @ tail) = (log, ReadFailed (ExceedsMaximum (wp_payload_size v)))"
  using read_oversized [OF assms, of tail] by (subst read_and_parse_inbound.simps) (simp add: wp_to_network_def)

section \<open>Properties\<close>

text \<open>
  C28: the stream between leader and worker, for messages whose payload is within the limit of
  the reader and whose dynamic payload reports its own length. However messages arrive, are
  batched and writes fail: the hook sees the messages that were taken once each and in order,
  the rest stays in the queue, and the reader hands over, one by one and in order, exactly the
  messages whose bytes are complete on the stream, before it stops at its end; dynamic payloads
  arrive as their bytes. Without a fault the writer ends with success when the queue is closed,
  and with success every message is delivered and takes \<open>byte_len\<close> bytes. A batch is below the
  limit for batching plus one message. The writer does not check the limit of the reader: a
  message beyond it ends the reader with an error.
\<close>

theorem framing_delivers_messages_in_order:
  assumes msgs: "\<forall>v \<in> set msgs. wp_wf v \<and> wp_payload_size v \<le> MAX_PAYLOAD_SIZE"
    and run: "serialize_and_write_outbound ready fault hook st [] [] msgs = (st', writes, rest, res)"
  shows "(\<exists>m k. k \<le> m \<and> m \<le> length msgs \<and> st' = foldl (\<lambda>st v. hook v st) st (take m msgs) \<and> rest = drop m msgs
      \<and> read_and_parse_inbound (\<lambda>v log. Inr (log @ [v]) :: unit + WpValue list) log (concat writes) = (log @ map received (take k msgs), ReadFailed Io)
      \<and> sum_list (map wp_byte_len (take k msgs)) \<le> length (concat writes)
      \<and> (k < m \<longrightarrow> length (concat writes) < sum_list (map wp_byte_len (take (Suc k) msgs)))
      \<and> (res = Inl Io \<or> res = Inr () \<and> k = length msgs \<and> length (concat writes) = sum_list (map wp_byte_len msgs)))
    \<and> ((\<forall>i. fault i = None) \<longrightarrow> res = Inr ())
    \<and> (\<forall>b \<in> set writes. length b < MAX_TO_BATCH + 11 + MAX_PAYLOAD_SIZE)
    \<and> (\<forall>v tail. wp_wf v \<and> MAX_PAYLOAD_SIZE < wp_payload_size v \<longrightarrow>
        read_and_parse_inbound (\<lambda>v log. Inr (log @ [v]) :: unit + WpValue list) log (wp_serialize v [] @ tail) =
        (log, ReadFailed (ExceedsMaximum (wp_payload_size v))))"
proof -
  have carried: "\<forall>v \<in> set msgs. carried v" using msgs by (simp add: carried_def)
  note bl = sum_byte_len [OF carried]
  obtain m n where m: "m \<le> length msgs" "st' = foldl (\<lambda>st v. hook v st) st (take m msgs)" "rest = drop m msgs"
    and w: "concat writes = take n (concat (map wp_to_network (take m msgs)))"
    and res: "res = Inl Io \<or> res = Inr () \<and> m = length msgs \<and> n = length (concat (map wp_to_network msgs))"
    and ok: "(\<forall>i. fault i = None) \<longrightarrow> res = Inr ()"
    using outbound_eq [OF run] by auto
  have "\<forall>v \<in> set (take m msgs). carried v" using carried by (auto dest: in_set_takeD)
  from read_prefix [OF this, of log n] obtain k where k: "k \<le> length (take m msgs)"
    "read_and_parse_inbound (\<lambda>v log. Inr (log @ [v]) :: unit + WpValue list) log (concat writes) =
      (log @ map received (take k (take m msgs)), ReadFailed Io)"
    "length (concat (map wp_to_network (take k (take m msgs)))) \<le> min n (length (concat (map wp_to_network (take m msgs))))"
    "k < length (take m msgs) \<longrightarrow> n < length (concat (map wp_to_network (take (Suc k) (take m msgs))))" unfolding w by blast
  have km: "k \<le> m" and tk: "take k (take m msgs) = take k msgs" using k(1) by simp_all
  have upper: "k < m \<longrightarrow> length (concat writes) < sum_list (map wp_byte_len (take (Suc k) msgs))"
  proof
    assume "k < m"
    then have "n < length (concat (map wp_to_network (take (Suc k) msgs)))" using k(4) m(1) by (simp add: min_def)
    then show "length (concat writes) < sum_list (map wp_byte_len (take (Suc k) msgs))" unfolding bl [symmetric] w by simp
  qed
  have lower: "sum_list (map wp_byte_len (take k msgs)) \<le> length (concat writes)" using k(3) unfolding tk bl [symmetric] w by simp
  have all: "k = length msgs \<and> length (concat writes) = sum_list (map wp_byte_len msgs)"
    if "m = length msgs" "n = length (concat (map wp_to_network msgs))"
  proof -
    have full: "length (concat writes) = sum_list (map wp_byte_len msgs)" using bl [of "length msgs"] that w by simp
    have "sum_list (map wp_byte_len (take (Suc k) msgs)) \<le> sum_list (map wp_byte_len msgs)"
      by (metis append_take_drop_id le_add1 map_append sum_list_append)
    then show ?thesis using upper full km that(1) by (cases "k < m") auto
  qed
  show ?thesis using m km k(2) upper lower res all ok outbound_len [OF run carried] read_oversized_stream unfolding tk by auto
qed

theorem framing_delivers_messages_in_order_witness:
  "\<exists>st writes rest. serialize_and_write_outbound (\<lambda>i. i = 1) (\<lambda>_. None) (\<lambda>_ n. n + 1) (0 :: nat) [] []
      [WpPendingJobsRequest 1, WpJob 7 1 (PDyn \<lparr>dyn_bytes = [1, 2], dyn_len = 2\<rparr>), WpPendingJobsReply 1 [7, 8]] = (st, writes, rest, Inr ())
    \<and> read_and_parse_inbound (\<lambda>v log. Inr (log @ [v]) :: unit + WpValue list) [] (concat writes) =
        ([WpPendingJobsRequest 1, WpJob 7 1 (PBytes [1, 2]), WpPendingJobsReply 1 [7, 8]], ReadFailed Io)
    \<and> length (concat writes) = 31"
proof -
  let ?msgs = "[WpPendingJobsRequest 1, WpJob 7 1 (PDyn \<lparr>dyn_bytes = [1, 2], dyn_len = 2\<rparr>), WpPendingJobsReply 1 [7, 8]]"
  obtain st writes rest res where run: "serialize_and_write_outbound (\<lambda>i. i = 1) (\<lambda>_. None) (\<lambda>_ n. n + 1) (0 :: nat) [] [] ?msgs = (st, writes, rest, res)"
    by (cases rule: prod_cases4)
  have "\<forall>v \<in> set ?msgs. wp_wf v \<and> wp_payload_size v \<le> MAX_PAYLOAD_SIZE" by (simp add: MAX_PAYLOAD_SIZE_def)
  note delivered = framing_delivers_messages_in_order [OF this run, of "[]"]
  then have "res = Inr ()" by simp
  with delivered run show ?thesis by auto
qed

end
