(* ===== verification/Job_Tracker.thy ===== *)
theory Job_Tracker
  imports Workpool_Value "HOL-Library.AList" "HOL-Library.Multiset"
begin

text \<open>
  The job tracker of the work pool leader
  (\<open>ampc-actor-utils/src/network/workpool/leader/job_tracker.rs\<close>): the pending jobs by id,
  each with the workers not yet sent to, the workers that have not answered, and the
  results so far. A hash map is an association list, a oneshot sender a channel number, and
  \<open>replies\<close> lists what was sent on the channels. The order of the results in a reply is that
  of a hash map and left open: a reply is a multiset. Proved for every sequence of calls:
  a channel gets at most one reply, which has exactly one response per requested worker;
  a job whose messages are all out completes with the last answer; reconciliation after a
  reconnect answers exactly the jobs the worker has lost.
\<close>

datatype WorkpoolError =
    JobsLost WorkerId JobId | ResponseLost WorkerId JobId | SendFailed | WpInvalidInput string
  | Cancelled | Timeout

record WorkerRsp =
  rsp_payload :: "WorkpoolError + Payload"
  rsp_job :: JobId
  rsp_worker :: WorkerId

type_synonym chan = nat
type_synonym WorkpoolRes = "WorkpoolError + WorkerRsp multiset"

datatype JobType = ScatterGather "WorkerId set" | Broadcast WorkerId

record PendingJob =
  registered :: "WorkerId set"
  pending :: "WorkerId set"
  results :: "(WorkerId \<times> WorkerRsp) list"
  response_tx :: chan

record JobTracker =
  jobs :: "(JobId \<times> PendingJob) list"
  replies :: "(chan \<times> WorkpoolRes) list"

datatype tracker_error = JobNotFound JobId | NotRegistered WorkerId JobId | NotPending WorkerId JobId

section \<open>Operations\<close>

definition tracker_new :: JobTracker where
  "tracker_new = \<lparr>jobs = [], replies = []\<rparr>"

definition send_results :: "PendingJob \<Rightarrow> JobTracker \<Rightarrow> JobTracker" where
  "send_results self t =
     t\<lparr>replies := replies t @ [(response_tx self, Inr (mset (map snd (results self))))]\<rparr>"

fun job_workers :: "JobType \<Rightarrow> WorkerId set" where
  "job_workers (ScatterGather worker_ids) = worker_ids"
| "job_workers (Broadcast num_workers) = {w. w < num_workers}"

definition register_job :: "JobTracker \<Rightarrow> JobId \<Rightarrow> JobType \<Rightarrow> chan \<Rightarrow> JobTracker" where
  "register_job self job_id job_type tx =
     (let partitions_registered = job_workers job_type;
          pending_job = \<lparr>registered = partitions_registered, pending = {}, results = [], response_tx = tx\<rparr>
      in self\<lparr>jobs := AList.update job_id pending_job (jobs self)\<rparr>)"

definition set_to_pending :: "JobTracker \<Rightarrow> JobId \<Rightarrow> WorkerId \<Rightarrow> tracker_error + JobTracker" where
  "set_to_pending self job_id worker_id =
     (case map_of (jobs self) job_id of
        None \<Rightarrow> Inl (JobNotFound job_id)
      | Some j \<Rightarrow>
        if worker_id \<notin> registered j then Inl (NotRegistered worker_id job_id)
        else Inr (self\<lparr>jobs := AList.update job_id
               (j\<lparr>registered := registered j - {worker_id}, pending := insert worker_id (pending j)\<rparr>) (jobs self)\<rparr>))"

definition complete_job :: "JobTracker \<Rightarrow> JobId \<Rightarrow> JobTracker" where
  "complete_job self job_id =
     (case map_of (jobs self) job_id of
        None \<Rightarrow> self
      | Some job \<Rightarrow> send_results job (self\<lparr>jobs := AList.delete job_id (jobs self)\<rparr>))"

definition record_response :: "JobTracker \<Rightarrow> WorkerRsp \<Rightarrow> tracker_error + JobTracker" where
  "record_response self response =
     (let job_id = rsp_job response; worker_id = rsp_worker response in
      case map_of (jobs self) job_id of
        None \<Rightarrow> Inl (JobNotFound job_id)
      | Some j \<Rightarrow>
        if worker_id \<notin> pending j then Inl (NotPending worker_id job_id)
        else let j = j\<lparr>pending := pending j - {worker_id}, results := AList.update worker_id response (results j)\<rparr>;
                 self = self\<lparr>jobs := AList.update job_id j (jobs self)\<rparr>
             in if pending j = {} \<and> registered j = {} then Inr (complete_job self job_id) else Inr self)"

definition lost_response :: "WorkerId \<Rightarrow> JobId \<Rightarrow> WorkerRsp" where
  "lost_response worker_id job_id =
     \<lparr>rsp_payload = Inl (JobsLost worker_id job_id), rsp_job = job_id, rsp_worker = worker_id\<rparr>"

definition dropped_jobs :: "JobTracker \<Rightarrow> WorkerId \<Rightarrow> JobId list \<Rightarrow> JobId list" where
  "dropped_jobs self worker_id pending_jobs =
     map fst (filter (\<lambda>(k, j). worker_id \<in> pending j \<and> k \<notin> set pending_jobs) (jobs self))"

definition validate_pending_jobs :: "JobTracker \<Rightarrow> WorkerId \<Rightarrow> JobId list \<Rightarrow> JobTracker" where
  "validate_pending_jobs self worker_id pending_jobs =
     foldl (\<lambda>self job_id. case record_response self (lost_response worker_id job_id) of
                            Inl _ \<Rightarrow> self | Inr self' \<Rightarrow> self')
       self (dropped_jobs self worker_id pending_jobs)"

definition cancel_job :: "JobTracker \<Rightarrow> JobId \<Rightarrow> tracker_error + WorkerId list \<times> JobTracker" where
  "cancel_job self job_id =
     (case map_of (jobs self) job_id of
        None \<Rightarrow> Inl (JobNotFound job_id)
      | Some job \<Rightarrow> Inr (sorted_list_of_set (pending job), self\<lparr>jobs := AList.delete job_id (jobs self)\<rparr>))"

definition pending_count :: "JobTracker \<Rightarrow> nat" where
  "pending_count self = length (jobs self)"

section \<open>Reachable trackers\<close>

text \<open>
  Every interleaving of calls. \<open>want\<close> remembers, per channel, the workers of the job that
  was registered with it; a sender is owned by one job, so a registration brings a new one.
\<close>

inductive reach :: "JobTracker \<Rightarrow> (chan \<rightharpoonup> WorkerId set) \<Rightarrow> bool" where
  init: "reach tracker_new Map.empty"
| register: "reach t want \<Longrightarrow> want tx = None \<Longrightarrow>
    reach (register_job t jid ty tx) (want(tx \<mapsto> job_workers ty))"
| set_pending: "reach t want \<Longrightarrow> set_to_pending t jid w = Inr t' \<Longrightarrow> reach t' want"
| response: "reach t want \<Longrightarrow> record_response t rsp = Inr t' \<Longrightarrow> reach t' want"
| validate: "reach t want \<Longrightarrow> reach (validate_pending_jobs t w ids) want"
| cancel: "reach t want \<Longrightarrow> cancel_job t jid = Inr (ws, t') \<Longrightarrow> reach t' want"

definition job_inv :: "(chan \<rightharpoonup> WorkerId set) \<Rightarrow> JobId \<Rightarrow> PendingJob \<Rightarrow> bool" where
  "job_inv want jid j \<longleftrightarrow>
     want (response_tx j) = Some (registered j \<union> pending j \<union> fst ` set (results j))
   \<and> registered j \<inter> pending j = {} \<and> (registered j \<union> pending j) \<inter> fst ` set (results j) = {}
   \<and> distinct (map fst (results j))
   \<and> (\<forall>(w, r) \<in> set (results j). rsp_worker r = w \<and> rsp_job r = jid)
   \<and> (results j \<noteq> [] \<longrightarrow> registered j \<union> pending j \<noteq> {})"

definition reply_inv :: "(chan \<rightharpoonup> WorkerId set) \<Rightarrow> chan \<times> WorkpoolRes \<Rightarrow> bool" where
  "reply_inv want x \<longleftrightarrow>
     (\<exists>rs W. snd x = Inr rs \<and> want (fst x) = Some W \<and> image_mset rsp_worker rs = mset_set W)"

definition channels :: "JobTracker \<Rightarrow> chan list" where
  "channels t = map (\<lambda>(_, j). response_tx j) (jobs t) @ map fst (replies t)"

definition tracker_inv :: "(chan \<rightharpoonup> WorkerId set) \<Rightarrow> JobTracker \<Rightarrow> bool" where
  "tracker_inv want t \<longleftrightarrow>
     distinct (map fst (jobs t)) \<and> distinct (channels t) \<and> set (channels t) \<subseteq> dom want
   \<and> (\<forall>(jid, j) \<in> set (jobs t). job_inv want jid j) \<and> (\<forall>x \<in> set (replies t). reply_inv want x)"

section \<open>Association lists\<close>

lemma map_update_same:
  "map_of al k = Some v \<Longrightarrow> f (k, v') = f (k, v) \<Longrightarrow> map f (AList.update k v' al) = map f al"
  by (induction al) auto

lemma set_map_update: "set (map f (AList.update k v al)) \<subseteq> insert (f (k, v)) (set (map f al))"
  by (induction al) auto

lemma distinct_map_update:
  "distinct (map f al) \<Longrightarrow> f (k, v) \<notin> set (map f al) \<Longrightarrow> distinct (map f (AList.update k v al))"
proof (induction al)
  case (Cons x al)
  have "set (map f (AList.update k v al)) \<subseteq> insert (f (k, v)) (set (map f al))" by (rule set_map_update)
  with Cons show ?case by (cases x) auto
qed simp

lemma set_update_subset: "set (AList.update k v al) \<subseteq> insert (k, v) (set al)"
  using set_map_update [of "\<lambda>x. x" k v al] by simp

lemma set_update_distinct:
  "distinct (map fst al) \<Longrightarrow> set (AList.update k v al) = insert (k, v) {x \<in> set al. fst x \<noteq> k}"
  by (induction al) (auto simp: rev_image_eqI)

lemma set_delete: "set (AList.delete k al) = {x \<in> set al. fst x \<noteq> k}"
  by (auto simp: AList.delete_eq)

lemma distinct_map_delete: "distinct (map f al) \<Longrightarrow> distinct (map f (AList.delete k al))"
  by (simp add: AList.delete_eq distinct_map_filter)

section \<open>The invariant\<close>

lemma tracker_inv_job:
  "tracker_inv want t \<Longrightarrow> map_of (jobs t) jid = Some j \<Longrightarrow> job_inv want jid j"
  by (auto simp: tracker_inv_def dest!: map_of_SomeD)

lemma tracker_inv_init: "tracker_inv Map.empty tracker_new"
  by (simp add: tracker_inv_def tracker_new_def channels_def)

text \<open>Replacing a job by one that keeps its channel and its invariant.\<close>

lemma tracker_inv_update:
  assumes inv: "tracker_inv want t" and j: "map_of (jobs t) jid = Some j"
    and j': "job_inv want jid j'" "response_tx j' = response_tx j"
  shows "tracker_inv want (t\<lparr>jobs := AList.update jid j' (jobs t)\<rparr>)"
proof -
  have "map (\<lambda>(_, j). response_tx j) (AList.update jid j' (jobs t)) = map (\<lambda>(_, j). response_tx j) (jobs t)"
    using j j'(2) by (intro map_update_same) simp_all
  then have "channels (t\<lparr>jobs := AList.update jid j' (jobs t)\<rparr>) = channels t" by (simp add: channels_def)
  moreover have "distinct (map fst (AList.update jid j' (jobs t)))"
    using inv by (simp add: tracker_inv_def AList.distinct_update)
  moreover have "\<forall>(jid, j) \<in> set (AList.update jid j' (jobs t)). job_inv want jid j"
    using inv j'(1) set_update_subset [of jid j' "jobs t"] by (auto simp: tracker_inv_def)
  ultimately show ?thesis using inv by (simp add: tracker_inv_def)
qed

lemma channels_delete:
  assumes "distinct (channels t)" "distinct (map fst (jobs t))" "map_of (jobs t) jid = Some j"
  shows "distinct (channels (t\<lparr>jobs := AList.delete jid (jobs t)\<rparr>))"
    "response_tx j \<notin> set (channels (t\<lparr>jobs := AList.delete jid (jobs t)\<rparr>))"
    "set (channels (t\<lparr>jobs := AList.delete jid (jobs t)\<rparr>)) \<subseteq> set (channels t)"
proof -
  have d: "distinct (map (\<lambda>(_, j). response_tx j) (jobs t))"
    "set (map (\<lambda>(_, j). response_tx j) (jobs t)) \<inter> set (map fst (replies t)) = {}" "distinct (map fst (replies t))"
    using assms(1) by (simp_all add: channels_def)
  let ?f = "\<lambda>(_, j). response_tx j" and ?del = "AList.delete jid (jobs t)"
  have sub: "set (map ?f ?del) \<subseteq> set (map ?f (jobs t))" by (auto simp: set_delete)
  have mem: "(jid, j) \<in> set (jobs t)" using assms(3) by (rule map_of_SomeD)
  have ch: "channels (t\<lparr>jobs := ?del\<rparr>) = map ?f ?del @ map fst (replies t)" by (simp add: channels_def)
  show "distinct (channels (t\<lparr>jobs := ?del\<rparr>))"
    unfolding ch distinct_append using distinct_map_delete [OF d(1)] d(2,3) sub by blast
  have "response_tx j \<notin> set (map ?f ?del)"
  proof
    assume "response_tx j \<in> set (map ?f ?del)"
    then obtain x where x: "x \<in> set (jobs t)" "fst x \<noteq> jid" "?f x = ?f (jid, j)"
      by (auto simp: set_delete)
    with inj_onD [of ?f "set (jobs t)" x "(jid, j)"] d(1) mem show False by (auto simp: distinct_map)
  qed
  moreover have "response_tx j \<in> set (map ?f (jobs t))" using mem by force
  ultimately show "response_tx j \<notin> set (channels (t\<lparr>jobs := ?del\<rparr>))"
    unfolding ch set_append using d(2) by blast
  show "set (channels (t\<lparr>jobs := ?del\<rparr>)) \<subseteq> set (channels t)"
    unfolding ch unfolding channels_def set_append using sub by blast
qed

lemma tracker_inv_delete:
  assumes "tracker_inv want t"
  shows "tracker_inv want (t\<lparr>jobs := AList.delete jid (jobs t)\<rparr>)"
proof (cases "map_of (jobs t) jid")
  case None
  then have "AList.delete jid (jobs t) = jobs t"
    by (simp add: AList.delete_id map_of_eq_None_iff)
  with assms show ?thesis by simp
next
  case (Some j)
  with assms channels_delete [of t jid j] show ?thesis
    by (auto simp: tracker_inv_def set_delete distinct_map_delete)
qed

lemma delete_update: "AList.delete k (AList.update k v al) = AList.delete k al"
  by (induction al) (auto simp: AList.delete_eq)

text \<open>What a recorded response does to its job, and to the tracker.\<close>

definition answered :: "PendingJob \<Rightarrow> WorkerRsp \<Rightarrow> PendingJob" where
  "answered j rsp = j\<lparr>pending := pending j - {rsp_worker rsp},
     results := AList.update (rsp_worker rsp) rsp (results j)\<rparr>"

lemma record_response_eq:
  assumes "map_of (jobs t) (rsp_job rsp) = Some j" "rsp_worker rsp \<in> pending j"
  shows "record_response t rsp = Inr (
    if pending (answered j rsp) = {} \<and> registered j = {}
    then send_results (answered j rsp) (t\<lparr>jobs := AList.delete (rsp_job rsp) (jobs t)\<rparr>)
    else t\<lparr>jobs := AList.update (rsp_job rsp) (answered j rsp) (jobs t)\<rparr>)"
  using assms by (simp add: record_response_def Let_def complete_job_def AList.update_conv' delete_update answered_def)

lemma record_response_Inr:
  "record_response t rsp = Inr t' \<Longrightarrow>
    \<exists>j. map_of (jobs t) (rsp_job rsp) = Some j \<and> rsp_worker rsp \<in> pending j"
  by (auto simp: record_response_def Let_def split: option.splits if_splits)

lemma answered_simps [simp]:
  "registered (answered j rsp) = registered j" "pending (answered j rsp) = pending j - {rsp_worker rsp}"
  "response_tx (answered j rsp) = response_tx j"
  by (simp_all add: answered_def)

lemma update_new: "k \<notin> fst ` set al \<Longrightarrow> AList.update k v al = al @ [(k, v)]"
  by (induction al) auto

lemma results_answered:
  assumes "job_inv want jid j" "rsp_worker rsp \<in> pending j"
  shows "results (answered j rsp) = results j @ [(rsp_worker rsp, rsp)]"
  using assms by (auto simp: answered_def job_inv_def intro!: update_new)

lemma job_inv_answered:
  assumes inv: "job_inv want (rsp_job rsp) j" and w: "rsp_worker rsp \<in> pending j"
    and more: "pending (answered j rsp) \<noteq> {} \<or> registered j \<noteq> {}"
  shows "job_inv want (rsp_job rsp) (answered j rsp)"
proof -
  have "registered j \<union> (pending j - {rsp_worker rsp}) \<union> insert (rsp_worker rsp) (fst ` set (results j)) =
      registered j \<union> pending j \<union> fst ` set (results j)" using w by blast
  then show ?thesis using assms unfolding job_inv_def results_answered [OF inv w] by auto
qed

lemma reply_inv_answered:
  assumes inv: "job_inv want (rsp_job rsp) j" and w: "rsp_worker rsp \<in> pending j"
    and last: "pending (answered j rsp) = {}" "registered j = {}"
  shows "reply_inv want (response_tx j, Inr (mset (map snd (results (answered j rsp)))))"
proof -
  let ?rs = "results (answered j rsp)"
  have rs: "?rs = results j @ [(rsp_worker rsp, rsp)]" by (rule results_answered [OF inv w])
  have "\<forall>x \<in> set ?rs. rsp_worker (snd x) = fst x" and d: "distinct (map fst ?rs)"
    using inv w unfolding rs job_inv_def by auto
  then have "map rsp_worker (map snd ?rs) = map fst ?rs" by simp
  then have "image_mset rsp_worker (mset (map snd ?rs)) = mset (map fst ?rs)" by (metis mset_map)
  also have "\<dots> = mset_set (fst ` set ?rs)" using d by (metis mset_set_set set_map)
  also have "fst ` set ?rs = registered j \<union> pending j \<union> fst ` set (results j)"
    unfolding rs using last w by auto
  finally show ?thesis using inv by (simp add: reply_inv_def job_inv_def)
qed

lemma tracker_inv_response:
  assumes inv: "tracker_inv want t" and ok: "record_response t rsp = Inr t'"
  shows "tracker_inv want t'"
proof -
  obtain j where j: "map_of (jobs t) (rsp_job rsp) = Some j" and w: "rsp_worker rsp \<in> pending j"
    using record_response_Inr [OF ok] by blast
  note jinv = tracker_inv_job [OF inv j]
  note eq = record_response_eq [OF j w]
  show ?thesis
  proof (cases "pending (answered j rsp) = {} \<and> registered j = {}")
    case True
    let ?t = "t\<lparr>jobs := AList.delete (rsp_job rsp) (jobs t)\<rparr>"
    have t': "t' = send_results (answered j rsp) ?t" using eq ok True by simp
    have inv': "tracker_inv want ?t" by (rule tracker_inv_delete [OF inv])
    have fresh: "response_tx j \<notin> set (channels ?t)"
      using channels_delete(2) [OF _ _ j] inv by (simp add: tracker_inv_def)
    have r: "reply_inv want (response_tx j, Inr (mset (map snd (results (answered j rsp)))))"
      using reply_inv_answered [OF jinv w] True by simp
    have "want (response_tx j) \<noteq> None" using jinv by (simp add: job_inv_def)
    then show ?thesis unfolding t' using inv' fresh r
      by (auto simp: tracker_inv_def send_results_def channels_def)
  next
    case False
    then have "t' = t\<lparr>jobs := AList.update (rsp_job rsp) (answered j rsp) (jobs t)\<rparr>"
      using eq ok by (simp only: if_False sum.inject)
    then show ?thesis
      using tracker_inv_update [OF inv j job_inv_answered [OF jinv w]] False by auto
  qed
qed

lemma tracker_inv_set_pending:
  assumes inv: "tracker_inv want t" and ok: "set_to_pending t jid w = Inr t'"
  shows "tracker_inv want t'"
proof -
  obtain j where j: "map_of (jobs t) jid = Some j" "w \<in> registered j"
    and t': "t' = t\<lparr>jobs := AList.update jid (j\<lparr>registered := registered j - {w}, pending := insert w (pending j)\<rparr>) (jobs t)\<rparr>"
    using ok by (auto simp: set_to_pending_def split: option.splits if_splits)
  have "job_inv want jid j" using inv j(1) by (rule tracker_inv_job)
  moreover have "(registered j - {w}) \<union> insert w (pending j) = registered j \<union> pending j" using j(2) by blast
  ultimately have "job_inv want jid (j\<lparr>registered := registered j - {w}, pending := insert w (pending j)\<rparr>)"
    using j(2) unfolding job_inv_def by auto
  then show ?thesis unfolding t' using inv j(1) by (intro tracker_inv_update) simp_all
qed

lemma want_mono:
  assumes "tracker_inv want t" "want tx = None"
  shows "tracker_inv (want(tx \<mapsto> W)) t"
proof -
  have job: "job_inv (want(tx \<mapsto> W)) jid j" if "job_inv want jid j" for jid j
    using that assms(2) by (auto simp: job_inv_def)
  have reply: "reply_inv (want(tx \<mapsto> W)) x" if "reply_inv want x" for x
    using that assms(2) by (auto simp: reply_inv_def)
  show ?thesis using assms job reply by (auto simp: tracker_inv_def)
qed

lemma tracker_inv_register:
  assumes inv: "tracker_inv want t" and new: "want tx = None"
  shows "tracker_inv (want(tx \<mapsto> job_workers ty)) (register_job t jid ty tx)"
proof -
  let ?want = "want(tx \<mapsto> job_workers ty)"
  let ?j = "\<lparr>registered = job_workers ty, pending = {}, results = [], response_tx = tx\<rparr>"
  let ?f = "\<lambda>(_, j). response_tx j" and ?jobs = "AList.update jid ?j (jobs t)"
  have inv': "tracker_inv ?want t" using inv new by (rule want_mono)
  have fresh: "tx \<notin> set (channels t)" using inv new by (auto simp: tracker_inv_def)
  have d: "distinct (map ?f (jobs t))" "tx \<notin> set (map ?f (jobs t))" "tx \<notin> set (map fst (replies t))"
    "set (map ?f (jobs t)) \<inter> set (map fst (replies t)) = {}" "distinct (map fst (replies t))"
    using inv fresh by (auto simp: tracker_inv_def channels_def)
  have sub: "set (map ?f ?jobs) \<subseteq> insert tx (set (map ?f (jobs t)))" using set_map_update [of ?f jid ?j "jobs t"] by simp
  have ch: "channels (t\<lparr>jobs := ?jobs\<rparr>) = map ?f ?jobs @ map fst (replies t)" by (simp add: channels_def)
  have "distinct (map ?f ?jobs)" using d(1,2) by (intro distinct_map_update) simp_all
  then have "distinct (channels (t\<lparr>jobs := ?jobs\<rparr>))"
    unfolding ch distinct_append using d(3-5) sub by blast
  moreover have "set (channels t) \<subseteq> dom ?want" "tx \<in> dom ?want" using inv' by (auto simp: tracker_inv_def)
  then have "set (channels (t\<lparr>jobs := ?jobs\<rparr>)) \<subseteq> dom ?want"
    using sub unfolding ch unfolding channels_def set_append by blast
  moreover have "distinct (map fst ?jobs)" using inv by (simp add: tracker_inv_def AList.distinct_update)
  moreover have "job_inv ?want jid ?j" by (simp add: job_inv_def)
  then have "\<forall>(id, j) \<in> set ?jobs. job_inv ?want id j"
    using inv' set_update_subset [of jid ?j "jobs t"] by (auto simp: tracker_inv_def)
  ultimately show ?thesis using inv' by (simp add: register_job_def Let_def tracker_inv_def)
qed

lemma tracker_inv_validate:
  assumes "tracker_inv want t"
  shows "tracker_inv want (validate_pending_jobs t w ids)"
proof -
  have "tracker_inv want (foldl (\<lambda>t jid. case record_response t (lost_response w jid) of Inl _ \<Rightarrow> t | Inr t' \<Rightarrow> t') t js)" for js
    using assms by (induction js arbitrary: t) (auto split: sum.split dest: tracker_inv_response)
  then show ?thesis by (simp add: validate_pending_jobs_def)
qed

lemma reach_inv: "reach t want \<Longrightarrow> tracker_inv want t"
proof (induction rule: reach.induct)
  case init
  show ?case by (rule tracker_inv_init)
next
  case register
  then show ?case by (blast intro: tracker_inv_register)
next
  case set_pending
  then show ?case by (blast intro: tracker_inv_set_pending)
next
  case response
  then show ?case by (blast intro: tracker_inv_response)
next
  case validate
  then show ?case by (blast intro: tracker_inv_validate)
next
  case (cancel t want jid ws t')
  then have "t' = t\<lparr>jobs := AList.delete jid (jobs t)\<rparr>" by (simp add: cancel_job_def split: option.splits)
  with cancel show ?case by (simp add: tracker_inv_delete)
qed

section \<open>Completion and reconciliation\<close>

fun record_all :: "JobTracker \<Rightarrow> WorkerRsp list \<Rightarrow> tracker_error + JobTracker" where
  "record_all t [] = Inr t"
| "record_all t (r # rs) = (case record_response t r of Inl e \<Rightarrow> Inl e | Inr t' \<Rightarrow> record_all t' rs)"

lemma record_all_completes:
  assumes "tracker_inv want t" "map_of (jobs t) jid = Some j" "registered j = {}" "rs \<noteq> []"
    "pending j = rsp_worker ` set rs" "distinct (map rsp_worker rs)" "\<forall>r \<in> set rs. rsp_job r = jid"
  shows "\<exists>t'. record_all t rs = Inr t' \<and> jobs t' = AList.delete jid (jobs t)
    \<and> replies t' = replies t @ [(response_tx j, Inr (mset (map snd (results j)) + mset rs))]"
  using assms
proof (induction rs arbitrary: t j)
  case (Cons r rs)
  have r: "map_of (jobs t) (rsp_job r) = Some j" "rsp_worker r \<in> pending j" "rsp_job r = jid"
    using Cons.prems by simp_all
  note jinv = tracker_inv_job [OF Cons.prems(1) r(1)]
  have rest: "pending (answered j r) = rsp_worker ` set rs" using Cons.prems(5,6) by auto
  have res: "results (answered j r) = results j @ [(rsp_worker r, r)]" by (rule results_answered [OF jinv r(2)])
  show ?case
  proof (cases "rs = []")
    case True
    then show ?thesis using record_response_eq [OF r(1,2)] rest res Cons.prems(3) r(3)
      by (simp add: send_results_def)
  next
    case False
    let ?t = "t\<lparr>jobs := AList.update jid (answered j r) (jobs t)\<rparr>"
    have more: "(pending (answered j r) = {} \<and> registered j = {}) = False" using rest False by simp
    have eq: "record_response t r = Inr ?t"
      using record_response_eq [OF r(1,2)] r(3) by (simp only: more if_False)
    have "\<exists>t'. record_all ?t rs = Inr t' \<and> jobs t' = AList.delete jid (jobs ?t)
      \<and> replies t' = replies ?t @ [(response_tx (answered j r), Inr (mset (map snd (results (answered j r))) + mset rs))]"
      using Cons.prems False tracker_inv_response [OF Cons.prems(1) eq] rest
      by (intro Cons.IH) (simp_all add: AList.update_conv')
    then show ?thesis using eq res by (auto simp: delete_update)
  qed
qed simp

text \<open>Answering a list of jobs on behalf of a worker.\<close>

definition lost_result :: "WorkerId \<Rightarrow> JobId \<Rightarrow> PendingJob \<Rightarrow> PendingJob option" where
  "lost_result w jid j =
     (if pending j = {w} \<and> registered j = {} then None else Some (answered j (lost_response w jid)))"

definition lost_step :: "WorkerId \<Rightarrow> JobTracker \<Rightarrow> JobId \<Rightarrow> JobTracker" where
  "lost_step w t jid = (case record_response t (lost_response w jid) of Inl _ \<Rightarrow> t | Inr t' \<Rightarrow> t')"

lemma lost_response_simps [simp]: "rsp_job (lost_response w jid) = jid" "rsp_worker (lost_response w jid) = w"
  by (simp_all add: lost_response_def)

lemma lost_step_eq:
  assumes inv: "tracker_inv want t" and j: "map_of (jobs t) jid = Some j" "w \<in> pending j"
  shows "map_of (jobs (lost_step w t jid)) = (map_of (jobs t))(jid := lost_result w jid j)"
    "tracker_inv want (lost_step w t jid)"
    "set (replies (lost_step w t jid)) = set (replies t) \<union>
      (if lost_result w jid j = None then {(response_tx j, Inr (mset (map snd (results j)) + {#lost_response w jid#}))} else {})"
proof -
  have rec: "record_response t (lost_response w jid) = Inr (lost_step w t jid)"
    using record_response_eq [of t "lost_response w jid" j] j by (simp add: lost_step_def)
  have lr: "lost_result w jid j = None \<longleftrightarrow> pending (answered j (lost_response w jid)) = {} \<and> registered j = {}"
    using j(2) by (auto simp: lost_result_def)
  have res: "results (answered j (lost_response w jid)) = results j @ [(w, lost_response w jid)]"
    using results_answered [OF tracker_inv_job [OF inv j(1)], of "lost_response w jid"] j(2) by simp
  note eq = record_response_eq [of t "lost_response w jid" j, simplified lost_response_simps, OF j]
  show "tracker_inv want (lost_step w t jid)" using inv rec by (rule tracker_inv_response)
  show "map_of (jobs (lost_step w t jid)) = (map_of (jobs t))(jid := lost_result w jid j)"
  proof (cases "lost_result w jid j = None")
    case True
    then have "lost_step w t jid = send_results (answered j (lost_response w jid)) (t\<lparr>jobs := AList.delete jid (jobs t)\<rparr>)"
      using eq rec lr by simp
    then show ?thesis using True by (simp add: send_results_def AList.delete_conv')
  next
    case False
    then have "lost_step w t jid = t\<lparr>jobs := AList.update jid (answered j (lost_response w jid)) (jobs t)\<rparr>"
      using eq rec lr by (simp only: if_False sum.inject)
    then show ?thesis using False by (auto simp: AList.update_conv' lost_result_def)
  qed
  show "set (replies (lost_step w t jid)) = set (replies t) \<union>
      (if lost_result w jid j = None then {(response_tx j, Inr (mset (map snd (results j)) + {#lost_response w jid#}))} else {})"
    using eq rec lr res by (auto simp: send_results_def split: if_splits)
qed

lemma lost_steps_eq:
  assumes "tracker_inv want t" "distinct js" "\<forall>jid \<in> set js. \<exists>j. map_of (jobs t) jid = Some j \<and> w \<in> pending j"
  shows "(jid \<notin> set js \<longrightarrow> map_of (jobs (foldl (lost_step w) t js)) jid = map_of (jobs t) jid)
    \<and> set (replies t) \<subseteq> set (replies (foldl (lost_step w) t js))
    \<and> (jid \<in> set js \<longrightarrow> (\<forall>j. map_of (jobs t) jid = Some j \<longrightarrow>
         map_of (jobs (foldl (lost_step w) t js)) jid = lost_result w jid j
       \<and> (lost_result w jid j = None \<longrightarrow> (response_tx j, Inr (mset (map snd (results j)) + {#lost_response w jid#}))
            \<in> set (replies (foldl (lost_step w) t js)))))"
  using assms
proof (induction js arbitrary: t)
  case (Cons k js)
  then obtain i where i: "map_of (jobs t) k = Some i" "w \<in> pending i" by auto
  note step = lost_step_eq [OF Cons.prems(1) i]
  have "\<forall>jid \<in> set js. \<exists>j. map_of (jobs (lost_step w t k)) jid = Some j \<and> w \<in> pending j"
    using Cons.prems step(1) by auto
  note IH = Cons.IH [OF step(2) _ this]
  then show ?case using Cons.prems(2) step(1,3) i by (cases "jid = k") (auto split: if_splits)
qed simp

lemma validate_eq_foldl:
  "validate_pending_jobs t w ids = foldl (lost_step w) t (dropped_jobs t w ids)"
  unfolding validate_pending_jobs_def lost_step_def [abs_def] ..

lemma dropped_jobs_iff:
  assumes "distinct (map fst (jobs t))"
  shows "jid \<in> set (dropped_jobs t w ids) \<longleftrightarrow>
      (\<exists>j. map_of (jobs t) jid = Some j \<and> w \<in> pending j) \<and> jid \<notin> set ids"
    "distinct (dropped_jobs t w ids)"
  using assms by (force simp: dropped_jobs_def, simp add: dropped_jobs_def distinct_map_filter)

section \<open>Properties\<close>

text \<open>
  C11: replies are unique and complete. After any sequence of registrations, sends,
  responses, reconciliations and cancellations, every reply channel has been used at most
  once and only after its job left the tracker; the reply is a success with exactly one
  response from each worker the job was registered for; and a job that is still tracked
  splits its workers into those not sent to, those not answered and those answered, with
  somebody left to wait for once an answer is in.
\<close>

theorem replies_are_unique_and_complete:
  assumes "reach t want"
  shows "distinct (map fst (replies t))
    \<and> (\<forall>(tx, res) \<in> set (replies t). (\<exists>rs. res = Inr rs \<and> image_mset rsp_worker rs = mset_set (the (want tx)))
         \<and> (\<forall>(jid, j) \<in> set (jobs t). response_tx j \<noteq> tx))
    \<and> (\<forall>(jid, j) \<in> set (jobs t).
         want (response_tx j) = Some (registered j \<union> pending j \<union> fst ` set (results j))
       \<and> registered j \<inter> pending j = {} \<and> (registered j \<union> pending j) \<inter> fst ` set (results j) = {}
       \<and> (results j \<noteq> [] \<longrightarrow> registered j \<union> pending j \<noteq> {}))"
proof -
  have inv: "tracker_inv want t" using assms by (rule reach_inv)
  then have "distinct (map fst (replies t))" by (simp add: tracker_inv_def channels_def)
  moreover have "(\<exists>rs. res = Inr rs \<and> image_mset rsp_worker rs = mset_set (the (want tx)))
      \<and> (\<forall>(jid, j) \<in> set (jobs t). response_tx j \<noteq> tx)" if "(tx, res) \<in> set (replies t)" for tx res
  proof
    have "reply_inv want (tx, res)" using inv that by (auto simp: tracker_inv_def)
    then show "\<exists>rs. res = Inr rs \<and> image_mset rsp_worker rs = mset_set (the (want tx))" by (auto simp: reply_inv_def)
    have "set (map (\<lambda>(_, j). response_tx j) (jobs t)) \<inter> set (map fst (replies t)) = {}"
      using inv by (simp add: tracker_inv_def channels_def)
    moreover have "tx \<in> set (map fst (replies t))" using that by force
    ultimately have "tx \<notin> set (map (\<lambda>(_, j). response_tx j) (jobs t))" by blast
    then show "\<forall>(jid, j) \<in> set (jobs t). response_tx j \<noteq> tx" by force
  qed
  then have "\<forall>(tx, res) \<in> set (replies t). (\<exists>rs. res = Inr rs \<and> image_mset rsp_worker rs = mset_set (the (want tx)))
      \<and> (\<forall>(jid, j) \<in> set (jobs t). response_tx j \<noteq> tx)" by blast
  moreover have "want (response_tx j) = Some (registered j \<union> pending j \<union> fst ` set (results j))
       \<and> registered j \<inter> pending j = {} \<and> (registered j \<union> pending j) \<inter> fst ` set (results j) = {}
       \<and> (results j \<noteq> [] \<longrightarrow> registered j \<union> pending j \<noteq> {})" if "(jid, j) \<in> set (jobs t)" for jid j
  proof -
    have "job_inv want jid j" using inv that by (auto simp: tracker_inv_def)
    then show ?thesis unfolding job_inv_def by (elim conjE) (intro conjI)
  qed
  ultimately show ?thesis by blast
qed

text \<open>
  C33: the last answer completes a job. If all messages of a job are out (no worker is merely
  registered) and the pending workers answer in any order, every response is accepted, the
  job leaves the tracker with the last one, and the reply on its channel has the earlier
  results and these.
\<close>

theorem last_answer_completes_the_job:
  assumes "reach t want" "map_of (jobs t) jid = Some j" "registered j = {}" "rs \<noteq> []"
    "pending j = rsp_worker ` set rs" "distinct (map rsp_worker rs)" "\<forall>r \<in> set rs. rsp_job r = jid"
  shows "\<exists>t'. record_all t rs = Inr t' \<and> map_of (jobs t') jid = None
    \<and> replies t' = replies t @ [(response_tx j, Inr (mset (map snd (results j)) + mset rs))]"
  using record_all_completes [OF reach_inv [OF assms(1)] assms(2-7)]
  by (auto simp: AList.delete_conv')

text \<open>
  C34: reconciliation after a reconnect. Against the list of jobs the worker still has,
  \<open>validate_pending_jobs\<close> changes exactly the jobs that wait for this worker and are not in
  the list: they get the \<open>JobsLost\<close> result of the worker, and those that waited for nobody
  else leave the tracker and are answered; all other jobs stay as they are.
\<close>

theorem reconciliation_answers_lost_jobs:
  assumes "reach t want" "map_of (jobs t) jid = Some j"
  shows "(w \<notin> pending j \<or> jid \<in> set ids \<longrightarrow> map_of (jobs (validate_pending_jobs t w ids)) jid = Some j)
    \<and> (w \<in> pending j \<and> jid \<notin> set ids \<longrightarrow>
         (if pending j = {w} \<and> registered j = {}
          then map_of (jobs (validate_pending_jobs t w ids)) jid = None
             \<and> (response_tx j, Inr (mset (map snd (results j)) + {#lost_response w jid#}))
                 \<in> set (replies (validate_pending_jobs t w ids))
          else map_of (jobs (validate_pending_jobs t w ids)) jid = Some (answered j (lost_response w jid))))"
proof -
  have inv: "tracker_inv want t" using assms(1) by (rule reach_inv)
  then have d: "distinct (map fst (jobs t))" by (simp add: tracker_inv_def)
  have "\<forall>jid \<in> set (dropped_jobs t w ids). \<exists>j. map_of (jobs t) jid = Some j \<and> w \<in> pending j"
    using dropped_jobs_iff(1) [OF d] by blast
  from lost_steps_eq [OF inv dropped_jobs_iff(2) [OF d] this, of jid]
  show ?thesis
    using assms(2) dropped_jobs_iff(1) [OF d, of jid w ids] unfolding validate_eq_foldl
    by (auto simp: lost_result_def)
qed

text \<open>A concrete history for the witnesses: one job on two workers, one answer in.\<close>

definition sample_rsp :: "WorkerId \<Rightarrow> WorkerRsp" where
  "sample_rsp w = \<lparr>rsp_payload = Inr (PBytes [1]), rsp_job = 5, rsp_worker = w\<rparr>"

definition sample_job :: PendingJob where
  "sample_job = \<lparr>registered = {}, pending = {1}, results = [(0, sample_rsp 0)], response_tx = 9\<rparr>"

definition sample_tracker :: JobTracker where
  "sample_tracker = \<lparr>jobs = [(5, sample_job)], replies = []\<rparr>"

lemma sample_reach: "reach sample_tracker [9 \<mapsto> {0, 1}]"
proof -
  let ?t0 = "register_job tracker_new 5 (ScatterGather {0, 1}) 9"
  have 0: "reach ?t0 [9 \<mapsto> {0, 1}]" using register [OF init, where tx = 9 and jid = 5 and ty = "ScatterGather {0, 1}"] by simp
  let ?t1 = "\<lparr>jobs = [(5, \<lparr>registered = {1}, pending = {0}, results = [], response_tx = 9\<rparr>)], replies = []\<rparr>"
  have "set_to_pending ?t0 5 0 = Inr ?t1"
    by (auto simp: register_job_def tracker_new_def set_to_pending_def)
  from set_pending [OF 0 this] have 1: "reach ?t1 [9 \<mapsto> {0, 1}]" .
  let ?t2 = "\<lparr>jobs = [(5, \<lparr>registered = {}, pending = {0, 1}, results = [], response_tx = 9\<rparr>)], replies = []\<rparr>"
  have "set_to_pending ?t1 5 1 = Inr ?t2" by (auto simp: set_to_pending_def)
  from set_pending [OF 1 this] have 2: "reach ?t2 [9 \<mapsto> {0, 1}]" .
  have "record_response ?t2 (sample_rsp 0) = Inr sample_tracker"
    by (simp add: record_response_def sample_rsp_def sample_tracker_def sample_job_def insert_Diff_if)
  from response [OF 2 this] show ?thesis .
qed

theorem replies_are_unique_and_complete_witness:
  "distinct (map fst (replies sample_tracker)) \<and> registered sample_job \<inter> pending sample_job = {}
    \<and> {0, 1} = registered sample_job \<union> pending sample_job \<union> fst ` set (results sample_job)"
  using replies_are_unique_and_complete [OF sample_reach] by (simp add: sample_tracker_def sample_job_def)

theorem last_answer_completes_the_job_witness:
  "\<exists>t'. record_all sample_tracker [sample_rsp 1] = Inr t' \<and> map_of (jobs t') 5 = None
    \<and> replies t' = [(9, Inr {#sample_rsp 0, sample_rsp 1#})]"
  using last_answer_completes_the_job [OF sample_reach, of 5 sample_job "[sample_rsp 1]"]
  by (simp add: sample_tracker_def sample_job_def sample_rsp_def add_mset_commute)

theorem reconciliation_answers_lost_jobs_witness:
  "map_of (jobs (validate_pending_jobs sample_tracker 1 [4])) 5 = None
    \<and> (9, Inr {#sample_rsp 0, lost_response 1 5#}) \<in> set (replies (validate_pending_jobs sample_tracker 1 [4]))
    \<and> map_of (jobs (validate_pending_jobs sample_tracker 1 [5])) 5 = Some sample_job"
  using reconciliation_answers_lost_jobs [OF sample_reach, of 5 sample_job 1 "[4]"]
    reconciliation_answers_lost_jobs [OF sample_reach, of 5 sample_job 1 "[5]"]
  by (simp add: sample_tracker_def sample_job_def add_mset_commute)

end
