(* ===== verification/Workpool.thy ===== *)
theory Workpool
  imports Job_Tracker
begin

text \<open>
  The leader and worker sides of the work pool
  (\<open>ampc-actor-utils/src/network/workpool/leader/mod.rs\<close>, \<open>leader/leader_task.rs\<close>,
  \<open>worker/mod.rs\<close>, \<open>worker/worker_task.rs\<close>): submission of jobs with its validation,
  distribution to the per-worker queues, the hook that marks a message as sent, responses
  on their way to the job tracker, and the worker's set of unfinished jobs. An unbounded
  channel is the list of messages in it with a flag that tells whether its receiver lives.
  Connections, reconnects and timers are left to the network.
\<close>

record WorkerJob =
  wj_payload :: Payload
  wj_worker :: WorkerId

datatype LeaderJob =
    JBroadcast Payload chan JobId
  | JScatterGather "WorkerJob list" chan JobId
  | JCancel JobId

record 'a queue_ch =
  ch_msgs :: "'a list"
  ch_open :: bool

definition ch_send :: "'a \<Rightarrow> 'a queue_ch \<Rightarrow> 'a queue_ch option" where
  "ch_send x c = (if ch_open c then Some (c\<lparr>ch_msgs := ch_msgs c @ [x]\<rparr>) else None)"

section \<open>Submitting jobs\<close>

record LeaderHandle =
  next_job_id :: u32
  handle_workers :: nat
  job_ch :: "LeaderJob queue_ch"

definition submit :: "LeaderHandle \<Rightarrow> (JobId \<Rightarrow> LeaderJob) \<Rightarrow> (WorkpoolError + JobId) \<times> LeaderHandle" where
  "submit self mk =
     (let job_id = next_job_id self;
          self = self\<lparr>next_job_id := job_id + 1\<rparr>
      in case ch_send (mk job_id) (job_ch self) of
           None \<Rightarrow> (Inl SendFailed, self)
         | Some c \<Rightarrow> (Inr job_id, self\<lparr>job_ch := c\<rparr>))"

definition lh_broadcast :: "LeaderHandle \<Rightarrow> Payload \<Rightarrow> chan \<Rightarrow> (WorkpoolError + JobId) \<times> LeaderHandle" where
  "lh_broadcast self payload result_tx = submit self (JBroadcast payload result_tx)"

fun validate_msgs :: "nat \<Rightarrow> WorkerId set \<Rightarrow> WorkerJob list \<Rightarrow> WorkpoolError option" where
  "validate_msgs num_workers worker_ids [] = None"
| "validate_msgs num_workers worker_ids (msg # msgs) =
     (if unat (wj_worker msg) \<ge> num_workers then Some (WpInvalidInput ''invalid worker id'')
      else if wj_worker msg \<in> worker_ids then Some (WpInvalidInput ''duplicate worker id'')
      else validate_msgs num_workers (insert (wj_worker msg) worker_ids) msgs)"

definition lh_scatter_gather ::
  "LeaderHandle \<Rightarrow> WorkerJob list \<Rightarrow> chan \<Rightarrow> (WorkpoolError + JobId) \<times> LeaderHandle" where
  "lh_scatter_gather self msgs result_tx =
     (if msgs = [] then (Inl (WpInvalidInput ''empty''), self)
      else case validate_msgs (handle_workers self) {} msgs of
             Some e \<Rightarrow> (Inl e, self)
           | None \<Rightarrow> submit self (JScatterGather msgs result_tx))"

section \<open>The leader\<close>

record leader_state =
  tracker :: JobTracker
  cmd_ch :: "WpValue queue_ch list"
  rsp_ch :: "WorkerRsp list"

definition send_failed :: "JobId \<Rightarrow> WorkerId \<Rightarrow> WorkerRsp" where
  "send_failed job_id worker_id =
     \<lparr>rsp_payload = Inl SendFailed, rsp_job = job_id, rsp_worker = worker_id\<rparr>"

text \<open>
  One send to a worker; a closed queue makes the leader enqueue an error response to itself
  (which always succeeds: it holds the other end).
\<close>

definition send_cmd :: "JobId \<Rightarrow> nat \<Rightarrow> Payload \<Rightarrow> leader_state \<Rightarrow> leader_state" where
  "send_cmd job_id k payload st =
     (let worker_id = of_nat k in
      case ch_send (WpJob job_id worker_id payload) (cmd_ch st ! k) of
        Some c \<Rightarrow> st\<lparr>cmd_ch := (cmd_ch st)[k := c]\<rparr>
      | None \<Rightarrow> st\<lparr>rsp_ch := rsp_ch st @ [send_failed job_id worker_id]\<rparr>)"

definition first_invalid :: "nat \<Rightarrow> WorkerJob list \<Rightarrow> WorkerJob option" where
  "first_invalid n msgs = find (\<lambda>m. \<not> unat (wj_worker m) < n) msgs"

text \<open>A decimal rendering, for the one message that has a number in it.\<close>

fun show_nat :: "nat \<Rightarrow> string" where
  "show_nat n = (if n < 10 then [char_of (48 + n)] else show_nat (n div 10) @ [char_of (48 + n mod 10)])"

declare show_nat.simps [simp del]

definition send_to_workpool :: "LeaderJob \<Rightarrow> leader_state \<Rightarrow> leader_state" where
  "send_to_workpool job st =
     (case job of
        JBroadcast payload result_rsp job_id \<Rightarrow>
          (let num_workers = of_nat (length (cmd_ch st));
               st = st\<lparr>tracker := register_job (tracker st) job_id (Broadcast num_workers) result_rsp\<rparr>
           in foldl (\<lambda>st k. send_cmd job_id k payload st) st [0..<length (cmd_ch st)])
      | JScatterGather msgs result_rsp job_id \<Rightarrow>
          (case first_invalid (length (cmd_ch st)) msgs of
             Some m \<Rightarrow>
               st\<lparr>tracker := (tracker st)\<lparr>replies := replies (tracker st)
                    @ [(result_rsp, Inl (WpInvalidInput (''invalid worker id: '' @ show_nat (unat (wj_worker m)))))]\<rparr>\<rparr>
           | None \<Rightarrow>
               (let worker_ids = wj_worker ` set msgs;
                    st = st\<lparr>tracker := register_job (tracker st) job_id (ScatterGather worker_ids) result_rsp\<rparr>
                in foldl (\<lambda>st msg. send_cmd job_id (unat (wj_worker msg)) (wj_payload msg) st) st msgs))
      | JCancel job_id \<Rightarrow>
          (case cancel_job (tracker st) job_id of
             Inl _ \<Rightarrow> st
           | Inr (_, t) \<Rightarrow> st\<lparr>tracker := t\<rparr>))"

text \<open>The second arm of the leader's loop: a response is taken off the queue and recorded.\<close>

definition leader_record :: "leader_state \<Rightarrow> leader_state" where
  "leader_record st =
     (case rsp_ch st of
        [] \<Rightarrow> st
      | rsp # rest \<Rightarrow>
        (let st = st\<lparr>rsp_ch := rest\<rparr>
         in case record_response (tracker st) rsp of
              Inl _ \<Rightarrow> st
            | Inr t \<Rightarrow> st\<lparr>tracker := t\<rparr>))"

text \<open>The hook on a message about to be written to a worker.\<close>

definition outbound_hook :: "WpValue \<Rightarrow> JobTracker \<Rightarrow> JobTracker" where
  "outbound_hook nv t =
     (case nv of
        WpJob job_id worker_id _ \<Rightarrow> (case set_to_pending t job_id worker_id of Inl _ \<Rightarrow> t | Inr t' \<Rightarrow> t')
      | _ \<Rightarrow> t)"

datatype wp_task_error = TaskInvalidInput string | TaskSendFailed

definition leader_forward_inbound_msg :: "WpValue \<Rightarrow> WorkerRsp queue_ch \<Rightarrow> wp_task_error + WorkerRsp queue_ch" where
  "leader_forward_inbound_msg nv tx =
     (case nv of
        WpJob job_id worker_id payload \<Rightarrow>
          (case ch_send \<lparr>rsp_payload = Inr payload, rsp_job = job_id, rsp_worker = worker_id\<rparr> tx of
             None \<Rightarrow> Inl TaskSendFailed | Some tx' \<Rightarrow> Inr tx')
      | WpPendingJobsReply _ _ \<Rightarrow> Inr tx
      | WpCancel _ _ \<Rightarrow> Inr tx
      | WpPendingJobsRequest _ \<Rightarrow> Inl (TaskInvalidInput ''received PendingJobsRequest from worker''))"

section \<open>The worker\<close>

record WkMsg =
  msg_job :: JobId
  msg_worker :: WorkerId
  msg_payload :: Payload

record worker_state =
  pending_jobs :: "JobId set"
  job_tx :: "WkMsg queue_ch"
  rsp_tx :: "WpValue queue_ch"

text \<open>The pending set is copied out in the order of a hash set, here the sorted one.\<close>

definition worker_handle_inbound_msg :: "WpValue \<Rightarrow> worker_state \<Rightarrow> (wp_task_error option) \<times> worker_state" where
  "worker_handle_inbound_msg nv st =
     (case nv of
        WpJob job_id worker_id payload \<Rightarrow>
          (let st = st\<lparr>pending_jobs := insert job_id (pending_jobs st)\<rparr>
           in case ch_send \<lparr>msg_job = job_id, msg_worker = worker_id, msg_payload = payload\<rparr> (job_tx st) of
                None \<Rightarrow> (Some TaskSendFailed, st)
              | Some c \<Rightarrow> (None, st\<lparr>job_tx := c\<rparr>))
      | WpPendingJobsRequest worker_id \<Rightarrow>
          (case ch_send (WpPendingJobsReply worker_id (sorted_list_of_set (pending_jobs st))) (rsp_tx st) of
             None \<Rightarrow> (Some TaskSendFailed, st)
           | Some c \<Rightarrow> (None, st\<lparr>rsp_tx := c\<rparr>))
      | WpCancel _ _ \<Rightarrow> (None, st)
      | WpPendingJobsReply _ _ \<Rightarrow> (Some (TaskInvalidInput ''Received PendingJobsReply from leader''), st))"

text \<open>\<open>Job::send_result\<close> of a job taken from the queue; a failed send is ignored.\<close>

definition wk_send_result :: "WkMsg \<Rightarrow> Payload \<Rightarrow> worker_state \<Rightarrow> worker_state" where
  "wk_send_result msg payload st =
     (case ch_send (WpJob (msg_job msg) (msg_worker msg) payload) (rsp_tx st) of
        None \<Rightarrow> st | Some c \<Rightarrow> st\<lparr>rsp_tx := c\<rparr>)"

definition take_payload :: "WkMsg \<Rightarrow> Payload \<times> WkMsg" where
  "take_payload msg = (msg_payload msg, msg\<lparr>msg_payload := payload_default\<rparr>)"

text \<open>The hook on a message about to be written to the leader.\<close>

definition worker_hook :: "WpValue \<Rightarrow> JobId set \<Rightarrow> JobId set" where
  "worker_hook nv p = (case nv of WpJob job_id _ _ \<Rightarrow> p - {job_id} | _ \<Rightarrow> p)"

text \<open>
  The handshake works on the connection: the bytes still to be read, and the bytes written.
  The leader asks, the worker answers with its unfinished jobs, the leader takes the list
  over. A side returns what it read past its message.
\<close>

datatype handshake_error = HsRead wp_error | HandshakeFailed WpValue

definition handshake_query :: "WorkerId \<Rightarrow> u8 list" where
  "handshake_query worker_id = wp_serialize (WpPendingJobsRequest worker_id) []"

definition worker_handshake :: "u8 list \<Rightarrow> JobId list \<Rightarrow> handshake_error + u8 list \<times> u8 list" where
  "worker_handshake conn pending_job_ids =
     (case read_single_message conn of
        Inl e \<Rightarrow> Inl (HsRead e)
      | Inr (WpPendingJobsRequest worker_id, rest) \<Rightarrow>
          Inr (wp_serialize (WpPendingJobsReply worker_id pending_job_ids) [], rest)
      | Inr (other, _) \<Rightarrow> Inl (HandshakeFailed other))"

definition leader_handshake :: "u8 list \<Rightarrow> handshake_error + JobId list \<times> u8 list" where
  "leader_handshake conn =
     (case read_single_message conn of
        Inl e \<Rightarrow> Inl (HsRead e)
      | Inr (WpPendingJobsReply _ job_ids, rest) \<Rightarrow> Inr (job_ids, rest)
      | Inr (other, _) \<Rightarrow> Inl (HandshakeFailed other))"

definition jh_cancel :: "JobId \<Rightarrow> LeaderJob queue_ch \<Rightarrow> WorkpoolError + LeaderJob queue_ch" where
  "jh_cancel job_id cancel_tx =
     (case ch_send (JCancel job_id) cancel_tx of None \<Rightarrow> Inl SendFailed | Some c \<Rightarrow> Inr c)"

section \<open>Validation and distribution\<close>

lemma validate_msgs_None:
  "validate_msgs n W msgs = None \<longleftrightarrow>
    (\<forall>m \<in> set msgs. unat (wj_worker m) < n) \<and> distinct (map wj_worker msgs) \<and> wj_worker ` set msgs \<inter> W = {}"
  by (induction n W msgs rule: validate_msgs.induct) auto

lemma first_invalid_None: "first_invalid n msgs = None \<longleftrightarrow> (\<forall>m \<in> set msgs. unat (wj_worker m) < n)"
  by (auto simp: first_invalid_def find_None_iff)

text \<open>Sending a list of messages to open queues appends each to its worker's queue.\<close>

lemma send_cmds_eq:
  assumes "\<forall>m \<in> set msgs. unat (wj_worker m) < length (cmd_ch st) \<and> ch_open (cmd_ch st ! unat (wj_worker m))"
    "distinct (map wj_worker msgs)"
  shows "let st' = foldl (\<lambda>st msg. send_cmd jid (unat (wj_worker msg)) (wj_payload msg) st) st msgs in
      tracker st' = tracker st \<and> rsp_ch st' = rsp_ch st \<and> length (cmd_ch st') = length (cmd_ch st)
    \<and> (\<forall>m \<in> set msgs. ch_msgs (cmd_ch st' ! unat (wj_worker m)) =
          ch_msgs (cmd_ch st ! unat (wj_worker m)) @ [WpJob jid (wj_worker m) (wj_payload m)])
    \<and> (\<forall>k. k \<notin> unat ` wj_worker ` set msgs \<longrightarrow> cmd_ch st' ! k = cmd_ch st ! k)"
  using assms
proof (induction msgs arbitrary: st)
  case (Cons m msgs)
  let ?k = "unat (wj_worker m)"
  let ?st = "send_cmd jid ?k (wj_payload m) st"
  have st: "?st = st\<lparr>cmd_ch := (cmd_ch st)[?k := (cmd_ch st ! ?k)\<lparr>ch_msgs := ch_msgs (cmd_ch st ! ?k) @ [WpJob jid (wj_worker m) (wj_payload m)]\<rparr>]\<rparr>"
    using Cons.prems(1) by (simp add: send_cmd_def ch_send_def Let_def)
  have other: "?k \<noteq> unat (wj_worker m')" if "m' \<in> set msgs" for m'
    using Cons.prems(2) that by (auto simp: rev_image_eqI simp flip: word_unat_eq_iff)
  have "\<forall>m' \<in> set msgs. unat (wj_worker m') < length (cmd_ch ?st) \<and> ch_open (cmd_ch ?st ! unat (wj_worker m'))"
    using Cons.prems(1) other by (simp add: st)
  moreover have "distinct (map wj_worker msgs)" using Cons.prems(2) by simp
  ultimately have IH: "let st' = foldl (\<lambda>st msg. send_cmd jid (unat (wj_worker msg)) (wj_payload msg) st) ?st msgs in
      tracker st' = tracker ?st \<and> rsp_ch st' = rsp_ch ?st \<and> length (cmd_ch st') = length (cmd_ch ?st)
    \<and> (\<forall>m \<in> set msgs. ch_msgs (cmd_ch st' ! unat (wj_worker m)) =
          ch_msgs (cmd_ch ?st ! unat (wj_worker m)) @ [WpJob jid (wj_worker m) (wj_payload m)])
    \<and> (\<forall>k. k \<notin> unat ` wj_worker ` set msgs \<longrightarrow> cmd_ch st' ! k = cmd_ch ?st ! k)" by (rule Cons.IH)
  have "?k \<notin> unat ` wj_worker ` set msgs" using other by fastforce
  with IH show ?case using Cons.prems(1) other unfolding Let_def by (auto simp: st)
qed (simp add: Let_def)

section \<open>Properties\<close>

text \<open>
  C35: scatter-gather reaches its workers. A list of messages that the handle accepts is
  queued under a fresh job id; when the leader takes it, every addressed worker gets
  exactly its own message at the end of its queue, no other queue changes, nothing is
  reported as failed, and the tracker has the job with exactly these workers.
\<close>

theorem scatter_gather_distributes:
  assumes "lh_scatter_gather h msgs tx = (Inr jid, h')" "handle_workers h = length (cmd_ch st)"
    "\<forall>c \<in> set (cmd_ch st). ch_open c"
  shows "ch_msgs (job_ch h') = ch_msgs (job_ch h) @ [JScatterGather msgs tx jid] \<and> next_job_id h' = jid + 1
    \<and> (let st' = send_to_workpool (JScatterGather msgs tx jid) st in
         map_of (jobs (tracker st')) jid =
           Some \<lparr>registered = wj_worker ` set msgs, pending = {}, results = [], response_tx = tx\<rparr>
       \<and> replies (tracker st') = replies (tracker st) \<and> rsp_ch st' = rsp_ch st
       \<and> (\<forall>m \<in> set msgs. ch_msgs (cmd_ch st' ! unat (wj_worker m)) =
            ch_msgs (cmd_ch st ! unat (wj_worker m)) @ [WpJob jid (wj_worker m) (wj_payload m)])
       \<and> (\<forall>k. k \<notin> unat ` wj_worker ` set msgs \<longrightarrow> cmd_ch st' ! k = cmd_ch st ! k))"
proof -
  have v: "validate_msgs (length (cmd_ch st)) {} msgs = None"
    and h: "ch_msgs (job_ch h') = ch_msgs (job_ch h) @ [JScatterGather msgs tx jid]" "next_job_id h' = jid + 1"
    using assms(1,2) by (auto simp: lh_scatter_gather_def submit_def ch_send_def Let_def split: if_splits option.splits)
  let ?st = "st\<lparr>tracker := register_job (tracker st) jid (ScatterGather (wj_worker ` set msgs)) tx\<rparr>"
  have ok: "\<forall>m \<in> set msgs. unat (wj_worker m) < length (cmd_ch ?st) \<and> ch_open (cmd_ch ?st ! unat (wj_worker m))"
    "distinct (map wj_worker msgs)"
    using v assms(3) by (auto simp: validate_msgs_None)
  then have "first_invalid (length (cmd_ch st)) msgs = None" by (simp add: first_invalid_None)
  then have st': "send_to_workpool (JScatterGather msgs tx jid) st =
      foldl (\<lambda>st msg. send_cmd jid (unat (wj_worker msg)) (wj_payload msg) st) ?st msgs"
    by (simp add: send_to_workpool_def Let_def)
  show ?thesis
    using h send_cmds_eq [OF ok, of jid] unfolding st' Let_def
    by (simp add: register_job_def AList.update_conv')
qed

definition sample_handle :: LeaderHandle where
  "sample_handle = \<lparr>next_job_id = 3, handle_workers = 2, job_ch = \<lparr>ch_msgs = [], ch_open = True\<rparr>\<rparr>"

definition sample_leader :: leader_state where
  "sample_leader = \<lparr>tracker = tracker_new,
     cmd_ch = [\<lparr>ch_msgs = [], ch_open = True\<rparr>, \<lparr>ch_msgs = [], ch_open = True\<rparr>], rsp_ch = []\<rparr>"

theorem scatter_gather_distributes_witness:
  "ch_msgs (cmd_ch (send_to_workpool (JScatterGather [\<lparr>wj_payload = PBytes [9], wj_worker = 1\<rparr>] 4 3) sample_leader) ! 1) =
     [WpJob 3 1 (PBytes [9])]"
proof -
  let ?msgs = "[\<lparr>wj_payload = PBytes [9], wj_worker = 1\<rparr>]"
  have "lh_scatter_gather sample_handle ?msgs 4 =
      (Inr 3, \<lparr>next_job_id = 4, handle_workers = 2, job_ch = \<lparr>ch_msgs = [JScatterGather ?msgs 4 3], ch_open = True\<rparr>\<rparr>)"
    by (simp add: lh_scatter_gather_def sample_handle_def submit_def ch_send_def)
  from scatter_gather_distributes [OF this, of sample_leader] show ?thesis
    by (simp add: sample_handle_def sample_leader_def Let_def)
qed

text \<open>
  C36: a failed send loses the job. When the queue of the only addressed worker is closed,
  the leader reports \<open>SendFailed\<close> to itself, but the tracker refuses that response, because
  the worker was registered and never pending: after the report is consumed the job is
  still tracked, no response is left, and nothing was sent on the reply channel.
\<close>

theorem failed_send_is_never_reported:
  assumes "unat (wj_worker m) < length (cmd_ch st)" "\<not> ch_open (cmd_ch st ! unat (wj_worker m))" "rsp_ch st = []"
  shows "let st' = send_to_workpool (JScatterGather [m] tx jid) st in
      rsp_ch st' = [send_failed jid (wj_worker m)]
    \<and> rsp_ch (leader_record st') = []
    \<and> replies (tracker (leader_record st')) = replies (tracker st)
    \<and> map_of (jobs (tracker (leader_record st'))) jid =
        Some \<lparr>registered = {wj_worker m}, pending = {}, results = [], response_tx = tx\<rparr>"
  using assms
  by (simp add: send_to_workpool_def first_invalid_def Let_def send_cmd_def ch_send_def leader_record_def
      record_response_def send_failed_def register_job_def AList.update_conv')

theorem failed_send_is_never_reported_witness:
  "map_of (jobs (tracker (leader_record (send_to_workpool (JScatterGather [\<lparr>wj_payload = PBytes [9], wj_worker = 0\<rparr>] 4 3)
     \<lparr>tracker = tracker_new, cmd_ch = [\<lparr>ch_msgs = [], ch_open = False\<rparr>], rsp_ch = []\<rparr>)))) 3 =
   Some \<lparr>registered = {0}, pending = {}, results = [], response_tx = 4\<rparr>"
  using failed_send_is_never_reported [of "\<lparr>wj_payload = PBytes [9], wj_worker = 0\<rparr>"
      "\<lparr>tracker = tracker_new, cmd_ch = [\<lparr>ch_msgs = [], ch_open = False\<rparr>], rsp_ch = []\<rparr>" 4 3]
  by (simp add: Let_def)

text \<open>
  The handshake hands the unfinished jobs over. After the leader's query the worker
  answers, and the leader reads exactly the list of jobs the worker had, for any list that
  fits in a message; neither side consumes bytes of later messages. The tracker then
  answers the jobs that were pending at this worker and are not in the list.
\<close>

theorem handshake_reports_unfinished_jobs:
  assumes "length ids * 4 \<le> MAX_PAYLOAD_SIZE"
  shows "worker_handshake (handshake_query w @ later) ids = Inr (wp_to_network (WpPendingJobsReply w ids), later)
    \<and> leader_handshake (wp_to_network (WpPendingJobsReply w ids) @ follow) = Inr (ids, follow)"
proof -
  have query: "read_single_message (wp_to_network (WpPendingJobsRequest w) @ later) = Inr (WpPendingJobsRequest w, later)"
    using read_single_message_eq [of "WpPendingJobsRequest w" later] by simp
  have "wp_wf (WpPendingJobsReply w ids)" using assms by (simp add: MAX_PAYLOAD_SIZE_def)
  then have reply: "read_single_message (wp_to_network (WpPendingJobsReply w ids) @ follow) =
      Inr (WpPendingJobsReply w ids, follow)"
    using read_single_message_eq [of "WpPendingJobsReply w ids" follow] assms by simp
  show ?thesis
    using query reply
    by (simp add: worker_handshake_def leader_handshake_def handshake_query_def wp_to_network_def)
qed

theorem handshake_reports_unfinished_jobs_witness:
  "worker_handshake (handshake_query 3) [7, 9] = Inr (wp_to_network (WpPendingJobsReply 3 [7, 9]), [])"
  using handshake_reports_unfinished_jobs [of "[7, 9]" 3 "[]" "[]"] by (simp add: MAX_PAYLOAD_SIZE_def)

end
