(* ===== verification/Modifications.thy ===== *)
theory Modifications
  imports Prelude
begin

text \<open>
  Reconciling the modification logs of the parties after a restart
  (\<open>ampc-server-utils/src/modifications.rs\<close>): snapshots are compared id by id, operations no
  party completed are deleted, operations some party completed are rolled forward to a
  common state. A grouped \<open>BTreeMap\<close> is the ascending list of its keys with, for a key, the
  entries in order of arrival. Proved: the comparison fails exactly on an inconsistent
  group, and parties that apply their plans agree on every operation they both keep.
\<close>

section \<open>Modifications\<close>

definition MOD_STATUS_IN_PROGRESS :: string where
  "MOD_STATUS_IN_PROGRESS = ''IN_PROGRESS''"

definition MOD_STATUS_COMPLETED :: string where
  "MOD_STATUS_COMPLETED = ''COMPLETED''"

datatype ModificationStatus = InProgress | Completed

fun status_to_string :: "ModificationStatus \<Rightarrow> string" where
  "status_to_string InProgress = MOD_STATUS_IN_PROGRESS"
| "status_to_string Completed = MOD_STATUS_COMPLETED"

definition status_from_str :: "string \<Rightarrow> ModificationStatus option" where
  "status_from_str s =
     (if s = MOD_STATUS_IN_PROGRESS then Some InProgress
      else if s = MOD_STATUS_COMPLETED then Some Completed else None)"

datatype ModificationInputReference = S3 string | Inline string

record 'i Modification =
  mod_id :: 'i
  serial_id :: "int option"
  request_type :: string
  mod_input :: "ModificationInputReference option"
  status :: string
  persisted :: bool
  result_message_body :: "string option"

text \<open>\<open>PartialEq\<close>: everything but the result message.\<close>

definition modification_eq :: "'i Modification \<Rightarrow> 'i Modification \<Rightarrow> bool" where
  "modification_eq self other \<longleftrightarrow>
     mod_id self = mod_id other \<and> serial_id self = serial_id other \<and> request_type self = request_type other
   \<and> mod_input self = mod_input other \<and> status self = status other \<and> persisted self = persisted other"

definition mark_completed :: "'i Modification \<Rightarrow> bool \<Rightarrow> string \<Rightarrow> u32 option \<Rightarrow> 'i Modification" where
  "mark_completed self persist body updated_serial_id =
     (let self = self\<lparr>status := status_to_string Completed, result_message_body := Some body, persisted := persist\<rparr>
      in case updated_serial_id of None \<Rightarrow> self | Some s \<Rightarrow> self\<lparr>serial_id := Some (uint s)\<rparr>)"

text \<open>
  The node id in a result message is changed through the JSON library, a parameter: parsing
  (\<open>None\<close> is a syntax error), the entries of an object (\<open>None\<close> is another kind of value),
  rebuilding and printing.
\<close>

record ('j, 'o) json_lib =
  json_from_str :: "string \<Rightarrow> 'j option"
  json_as_object :: "'j \<Rightarrow> 'o option"
  obj_contains_key :: "'o \<Rightarrow> string \<Rightarrow> bool"
  obj_insert_number :: "'o \<Rightarrow> string \<Rightarrow> nat \<Rightarrow> 'j"
  json_to_string :: "'j \<Rightarrow> string option"

datatype mod_error =
    NoNodeId | NotAnObject | InvalidJson | NoResultBody | JsonPrint | LookbackTooSmall
  | InconsistentIds | InconsistentRequestTypes | InconsistentInputs | UnexpectedState | InconsistentSerialIds

definition update_result_message_node_id ::
  "('j, 'o) json_lib \<Rightarrow> 'i Modification \<Rightarrow> nat \<Rightarrow> mod_error + 'i Modification" where
  "update_result_message_node_id J self party_id =
     (case result_message_body self of
        None \<Rightarrow> Inl NoResultBody
      | Some message \<Rightarrow>
        (case json_from_str J message of
           None \<Rightarrow> Inl InvalidJson
         | Some v \<Rightarrow>
           (case json_as_object J v of
              None \<Rightarrow> Inl NotAnObject
            | Some obj \<Rightarrow>
              if obj_contains_key J obj ''node_id''
              then (case json_to_string J (obj_insert_number J obj ''node_id'' party_id) of
                      None \<Rightarrow> Inl JsonPrint
                    | Some s \<Rightarrow> Inr (self\<lparr>result_message_body := Some s\<rparr>))
              else Inl NoNodeId)))"

section \<open>Comparing snapshots\<close>

text \<open>The fold over a group carries the serial id seen so far.\<close>

fun check_loop :: "'i Modification \<Rightarrow> int option \<Rightarrow> 'i Modification list \<Rightarrow> mod_error option" where
  "check_loop first serial [] = None"
| "check_loop first serial (m # ms) =
     (if mod_id first \<noteq> mod_id m then Some InconsistentIds
      else if request_type first \<noteq> request_type m then Some InconsistentRequestTypes
      else if mod_input first \<noteq> mod_input m then Some InconsistentInputs
      else if \<not> (status m = MOD_STATUS_IN_PROGRESS \<or> status m = MOD_STATUS_COMPLETED) then Some UnexpectedState
      else case serial_id m of
             None \<Rightarrow> check_loop first serial ms
           | Some current \<Rightarrow>
             if serial = None \<or> serial = Some current then check_loop first (Some current) ms
             else Some InconsistentSerialIds)"

definition check_modifications_consistency :: "'i Modification list \<Rightarrow> (mod_error, unit) outcome" where
  "check_modifications_consistency ms =
     (case ms of
        [] \<Rightarrow> Panic
      | first # _ \<Rightarrow> (case check_loop first None ms of None \<Rightarrow> Ok () | Some e \<Rightarrow> Err e))"

text \<open>\<open>find_map\<close> on an option-valued field.\<close>

fun find_serial :: "'i Modification list \<Rightarrow> int option" where
  "find_serial [] = None"
| "find_serial (m # ms) = (case serial_id m of Some s \<Rightarrow> Some s | None \<Rightarrow> find_serial ms)"

type_synonym 'i plan = "'i Modification list \<times> 'i Modification list"

definition first_completed :: "'i Modification list \<Rightarrow> int option \<Rightarrow> 'i Modification option" where
  "first_completed ms serial =
     (let completed = filter (\<lambda>m. status m = MOD_STATUS_COMPLETED) ms
      in case find (\<lambda>m. serial_id m = serial) completed of
           Some m \<Rightarrow> Some m
         | None \<Rightarrow> (case completed of [] \<Rightarrow> None | m # _ \<Rightarrow> Some m))"

definition compare_group ::
  "'i Modification list \<Rightarrow> 'i \<Rightarrow> 'i Modification list \<Rightarrow> 'i plan \<Rightarrow> (mod_error, 'i plan) outcome" where
  "compare_group my k group_mods plan =
     bind_outcome (check_modifications_consistency group_mods) (\<lambda>_.
       let local_copy = find (\<lambda>m. mod_id m = k) my;
           any_completed = list_ex (\<lambda>m. status m = status_to_string Completed) group_mods;
           all_in_progress = list_all (\<lambda>m. status m = status_to_string InProgress) group_mods;
           any_persisted = list_ex persisted group_mods
       in if all_in_progress
          then (case local_copy of
                  Some local_m \<Rightarrow> Ok (fst plan, snd plan @ [local_m])
                | None \<Rightarrow> Ok plan)
          else if any_completed
          then (let serial = find_serial group_mods
                in case first_completed group_mods serial of
                     None \<Rightarrow> Panic
                   | Some fc \<Rightarrow>
                     (case local_copy of
                        None \<Rightarrow> Ok plan
                      | Some local_m \<Rightarrow>
                        if status local_m \<noteq> status_to_string Completed \<or> persisted local_m \<noteq> any_persisted
                           \<or> serial_id local_m \<noteq> serial
                        then Ok (fst plan @ [fc\<lparr>status := status_to_string Completed,
                                               persisted := any_persisted, serial_id := serial\<rparr>], snd plan)
                        else Ok plan))
          else Err UnexpectedState)"

fun compare_loop :: "'i Modification list \<Rightarrow> 'i Modification list \<Rightarrow> 'i list \<Rightarrow> 'i plan \<Rightarrow> (mod_error, 'i plan) outcome" where
  "compare_loop my flat [] plan = Ok plan"
| "compare_loop my flat (k # ks) plan =
     bind_outcome (compare_group my k (filter (\<lambda>m. mod_id m = k) flat) plan) (compare_loop my flat ks)"

definition group_keys :: "'i::linorder Modification list \<Rightarrow> 'i list" where
  "group_keys flat = sort (remdups (map mod_id flat))"

definition compare_modifications ::
  "'i::linorder Modification list \<Rightarrow> 'i Modification list list \<Rightarrow> (mod_error, 'i plan) outcome" where
  "compare_modifications my all = compare_loop my (concat all) (group_keys (concat all)) ([], [])"

section \<open>Recovery\<close>

definition I64_MAX :: int where
  "I64_MAX = 2 ^ 63 - 1"

text \<open>
  \<open>saturating_sub\<close> on \<open>i64\<close>; the largest id is subtracted from, so the cast to \<open>usize\<close> keeps
  the value.
\<close>

definition max_option :: "int list \<Rightarrow> int option" where
  "max_option xs = (if xs = [] then None else Some (Max (set xs)))"

definition min_option :: "int list \<Rightarrow> int option" where
  "min_option xs = (if xs = [] then None else Some (Min (set xs)))"

definition completed_max_mod_ids :: "int Modification list list \<Rightarrow> int option list" where
  "completed_max_mod_ids all =
     map (\<lambda>state. max_option (map mod_id (filter (\<lambda>m. status m = MOD_STATUS_COMPLETED) state))) all"

definition ensure_modification_lookback :: "int Modification list list \<Rightarrow> nat \<Rightarrow> (mod_error, unit) outcome" where
  "ensure_modification_lookback all max_lookback =
     (let ids = concat (map (\<lambda>x. case x of None \<Rightarrow> [] | Some i \<Rightarrow> [i]) (completed_max_mod_ids all))
      in case (min_option ids, max_option ids) of
           (Some min_id, Some max_id) \<Rightarrow>
             if nat (min I64_MAX (max_id - min_id)) \<le> max_lookback then Ok () else Err LookbackTooSmall
         | _ \<Rightarrow> Ok ())"

definition requires_modification_apply :: "'i Modification \<Rightarrow> 'i Modification option \<Rightarrow> bool" where
  "requires_modification_apply m local =
     (persisted m \<and> \<not> (case local of None \<Rightarrow> False | Some l \<Rightarrow> status l = MOD_STATUS_COMPLETED \<and> persisted l))"

record RollForwardModification =
  rf_modification :: "int Modification"
  apply_mutation :: bool

record ModificationRecoveryPlan =
  updates :: "RollForwardModification list"
  deletes :: "int Modification list"

definition recovery_plan ::
  "int Modification list \<Rightarrow> int Modification list list \<Rightarrow> nat \<Rightarrow> (mod_error, ModificationRecoveryPlan) outcome" where
  "recovery_plan local all max_lookback =
     bind_outcome (ensure_modification_lookback all max_lookback) (\<lambda>_.
       bind_outcome (compare_modifications local all) (\<lambda>(upd, del).
         Ok \<lparr>updates = map (\<lambda>m. \<lparr>rf_modification = m,
                  apply_mutation = requires_modification_apply m (find (\<lambda>l. mod_id l = mod_id m) local)\<rparr>) upd,
             deletes = del\<rparr>))"

text \<open>
  Replay: result bodies grouped by request type, published in the given order until a call
  of \<open>publish\<close> fails. The result has the calls made and whether all succeeded.
\<close>

fun group_bodies :: "string list \<Rightarrow> (string \<Rightarrow> string list option) \<Rightarrow> 'i Modification list \<Rightarrow> (string \<Rightarrow> string list option)" where
  "group_bodies order grouped [] = grouped"
| "group_bodies order grouped (m # ms) =
     (case result_message_body m of
        None \<Rightarrow> group_bodies order grouped ms
      | Some body \<Rightarrow>
        if request_type m \<notin> set order then group_bodies order grouped ms
        else group_bodies order
               (grouped(request_type m := Some ((case grouped (request_type m) of None \<Rightarrow> [] | Some bs \<Rightarrow> bs) @ [body]))) ms)"

fun publish_loop :: "(string \<Rightarrow> string list \<Rightarrow> bool) \<Rightarrow> string list \<Rightarrow> (string \<Rightarrow> string list option)
    \<Rightarrow> (string \<times> string list) list \<Rightarrow> (string \<times> string list) list \<times> bool" where
  "publish_loop publish [] grouped calls = (calls, True)"
| "publish_loop publish (rt # rts) grouped calls =
     (case grouped rt of
        None \<Rightarrow> publish_loop publish rts grouped calls
      | Some bodies \<Rightarrow>
        if publish rt bodies then publish_loop publish rts (grouped(rt := None)) (calls @ [(rt, bodies)])
        else (calls @ [(rt, bodies)], False))"

definition replay_modification_results ::
  "'i Modification list \<Rightarrow> string list \<Rightarrow> (string \<Rightarrow> string list \<Rightarrow> bool) \<Rightarrow> (string \<times> string list) list \<times> bool" where
  "replay_modification_results ms order publish =
     publish_loop publish order (group_bodies order (\<lambda>_. None) ms) []"

section \<open>Groups\<close>

text \<open>What the consistency check accepts.\<close>

definition serials :: "'i Modification list \<Rightarrow> int set" where
  "serials ms = {c. \<exists>m \<in> set ms. serial_id m = Some c}"

definition same_request :: "'i Modification \<Rightarrow> 'i Modification \<Rightarrow> bool" where
  "same_request m m' \<longleftrightarrow> request_type m = request_type m' \<and> mod_input m = mod_input m'"

definition known_status :: "'i Modification \<Rightarrow> bool" where
  "known_status m \<longleftrightarrow> status m = MOD_STATUS_IN_PROGRESS \<or> status m = MOD_STATUS_COMPLETED"

definition consistent :: "'i Modification list \<Rightarrow> bool" where
  "consistent ms \<longleftrightarrow>
     (\<forall>m \<in> set ms. \<forall>m' \<in> set ms. same_request m m') \<and> (\<forall>m \<in> set ms. known_status m)
   \<and> (\<forall>c \<in> serials ms. \<forall>d \<in> serials ms. c = d)"

definition serials_fit :: "int option \<Rightarrow> 'i Modification list \<Rightarrow> bool" where
  "serials_fit s ms \<longleftrightarrow> (\<forall>c \<in> serials ms. \<forall>d \<in> set_option s \<union> serials ms. c = d)"

lemma serials_simps [simp]:
  "serials [] = {}"
  "serials (m # ms) = set_option (serial_id m) \<union> serials ms"
  by (auto simp: serials_def)

lemma serials_fit_Cons:
  "serials_fit s (m # ms) \<longleftrightarrow>
     (case serial_id m of None \<Rightarrow> serials_fit s ms
      | Some c \<Rightarrow> (s = None \<or> s = Some c) \<and> serials_fit (Some c) ms)"
proof (cases "serial_id m")
  case None
  then show ?thesis by (simp add: serials_fit_def)
next
  case (Some c)
  show ?thesis
  proof (cases s)
    case None
    show ?thesis unfolding serials_fit_def serials_simps Some None by auto
  next
    case (Some d)
    show ?thesis unfolding serials_fit_def serials_simps \<open>serial_id m = Some c\<close> Some by auto
  qed
qed

lemma check_loop_None:
  "check_loop first s ms = None \<longleftrightarrow>
    (\<forall>m \<in> set ms. mod_id m = mod_id first \<and> same_request first m \<and> known_status m) \<and> serials_fit s ms"
proof (induction ms arbitrary: s)
  case Nil
  then show ?case by (simp add: serials_fit_def)
next
  case (Cons m ms)
  show ?case
  proof (cases "mod_id m = mod_id first \<and> same_request first m \<and> known_status m")
    case True
    then show ?thesis
      by (cases "serial_id m") (simp_all add: serials_fit_Cons Cons.IH same_request_def known_status_def)
  next
    case False
    then have "check_loop first s (m # ms) \<noteq> None" by (auto simp: same_request_def known_status_def)
    with False show ?thesis by (metis list.set_intros(1))
  qed
qed

lemma check_consistency:
  assumes "ms \<noteq> []" "\<forall>m \<in> set ms. mod_id m = k"
  shows "check_modifications_consistency ms = Ok () \<longleftrightarrow> consistent ms"
    "check_modifications_consistency ms \<noteq> Panic"
proof -
  obtain m ms' where ms: "ms = m # ms'" using assms(1) by (cases ms) auto
  have "(\<forall>x \<in> set ms. same_request m x) \<longleftrightarrow> (\<forall>x \<in> set ms. \<forall>y \<in> set ms. same_request x y)"
    unfolding same_request_def ms by (metis list.set_intros(1))
  moreover have "\<forall>x \<in> set ms. mod_id x = mod_id m" using assms(2) by (simp add: ms)
  moreover have "serials_fit None ms \<longleftrightarrow> (\<forall>c \<in> serials ms. \<forall>d \<in> serials ms. c = d)"
    by (simp add: serials_fit_def)
  ultimately have "check_loop m None ms = None \<longleftrightarrow> consistent ms"
    unfolding check_loop_None consistent_def by blast
  then show "check_modifications_consistency ms = Ok () \<longleftrightarrow> consistent ms" "check_modifications_consistency ms \<noteq> Panic"
    by (auto simp: check_modifications_consistency_def ms split: option.split simp del: check_loop.simps)
qed

text \<open>What a consistent group adds to the plan of a party.\<close>

definition rolled_forward :: "'i Modification list \<Rightarrow> 'i Modification" where
  "rolled_forward g = (the (first_completed g (find_serial g)))
     \<lparr>status := MOD_STATUS_COMPLETED, persisted := list_ex persisted g, serial_id := find_serial g\<rparr>"

definition in_sync :: "'i Modification list \<Rightarrow> 'i Modification \<Rightarrow> bool" where
  "in_sync g m \<longleftrightarrow> status m = MOD_STATUS_COMPLETED \<and> persisted m = list_ex persisted g \<and> serial_id m = find_serial g"

definition group_updates :: "'i Modification list \<Rightarrow> 'i \<Rightarrow> 'i Modification list \<Rightarrow> 'i Modification list" where
  "group_updates my k g =
     (case find (\<lambda>m. mod_id m = k) my of
        None \<Rightarrow> []
      | Some l \<Rightarrow> if list_ex (\<lambda>m. status m = MOD_STATUS_COMPLETED) g \<and> \<not> in_sync g l then [rolled_forward g] else [])"

definition group_deletes :: "'i Modification list \<Rightarrow> 'i \<Rightarrow> 'i Modification list \<Rightarrow> 'i Modification list" where
  "group_deletes my k g =
     (case find (\<lambda>m. mod_id m = k) my of
        None \<Rightarrow> []
      | Some l \<Rightarrow> if list_ex (\<lambda>m. status m = MOD_STATUS_COMPLETED) g then [] else [l])"

lemma statuses_differ: "MOD_STATUS_IN_PROGRESS \<noteq> MOD_STATUS_COMPLETED"
  by (simp add: MOD_STATUS_IN_PROGRESS_def MOD_STATUS_COMPLETED_def)

lemma first_completed_Some:
  assumes "list_ex (\<lambda>m. status m = MOD_STATUS_COMPLETED) g"
  shows "\<exists>fc \<in> set g. first_completed g s = Some fc"
proof -
  let ?c = "filter (\<lambda>m. status m = MOD_STATUS_COMPLETED) g"
  have "?c \<noteq> []" using assms by (auto simp: list_ex_iff filter_empty_conv)
  then obtain m ms where c: "?c = m # ms" by (cases ?c) auto
  have sub: "set ?c \<subseteq> set g" by auto
  then have "m \<in> set g" unfolding c by simp
  moreover have "x \<in> set g" if "find (\<lambda>m. serial_id m = s) ?c = Some x" for x
    using that sub unfolding find_Some_iff by (metis nth_mem subsetD)
  ultimately show ?thesis
    unfolding first_completed_def Let_def by (cases "find (\<lambda>m. serial_id m = s) ?c") (auto simp: c)
qed

lemma compare_group_eq:
  assumes "g \<noteq> []" "\<forall>m \<in> set g. mod_id m = k"
  shows "consistent g \<Longrightarrow> compare_group my k g plan =
      Ok (fst plan @ group_updates my k g, snd plan @ group_deletes my k g)"
    "\<not> consistent g \<Longrightarrow> \<exists>e. compare_group my k g plan = Err e"
proof -
  let ?ex = "list_ex (\<lambda>m. status m = MOD_STATUS_COMPLETED) g"
  show "compare_group my k g plan = Ok (fst plan @ group_updates my k g, snd plan @ group_deletes my k g)" if "consistent g"
  proof -
    have ok: "check_modifications_consistency g = Ok ()" using check_consistency [OF assms] that by simp
    have all: "list_all (\<lambda>m. status m = MOD_STATUS_IN_PROGRESS) g \<longleftrightarrow> \<not> ?ex"
      using that statuses_differ unfolding consistent_def known_status_def list_all_iff list_ex_iff by metis
    show ?thesis
    proof (cases ?ex)
      case True
      then obtain fc where "first_completed g (find_serial g) = Some fc" using first_completed_Some by blast
      with True ok all show ?thesis
        by (auto simp: compare_group_def Let_def group_updates_def group_deletes_def in_sync_def rolled_forward_def
            split: option.split)
    next
      case False
      with ok all show ?thesis
        by (auto simp: compare_group_def Let_def group_updates_def group_deletes_def split: option.split)
    qed
  qed
  show "\<exists>e. compare_group my k g plan = Err e" if "\<not> consistent g"
    using check_consistency [OF assms] that
    by (cases "check_modifications_consistency g") (auto simp: compare_group_def)
qed

section \<open>The whole comparison\<close>

abbreviation group :: "'i Modification list \<Rightarrow> 'i \<Rightarrow> 'i Modification list" where
  "group flat k \<equiv> filter (\<lambda>m. mod_id m = k) flat"

lemma compare_group_step:
  assumes "group flat k \<noteq> []"
  shows "consistent (group flat k) \<Longrightarrow> compare_loop my flat (k # ks) plan =
      compare_loop my flat ks (fst plan @ group_updates my k (group flat k), snd plan @ group_deletes my k (group flat k))"
    "\<not> consistent (group flat k) \<Longrightarrow> \<exists>e. compare_loop my flat (k # ks) plan = Err e"
proof -
  have "\<forall>m \<in> set (group flat k). mod_id m = k" by simp
  note step = compare_group_eq [OF assms this, of my plan]
  show "compare_loop my flat (k # ks) plan =
      compare_loop my flat ks (fst plan @ group_updates my k (group flat k), snd plan @ group_deletes my k (group flat k))"
    if "consistent (group flat k)"
    unfolding compare_loop.simps step(1) [OF that] bind_outcome.simps ..
  show "\<exists>e. compare_loop my flat (k # ks) plan = Err e" if "\<not> consistent (group flat k)"
    using step(2) [OF that] by auto
qed

lemma compare_loop_Ok:
  assumes "\<forall>k \<in> set ks. group flat k \<noteq> [] \<and> consistent (group flat k)"
  shows "compare_loop my flat ks plan =
      Ok (fst plan @ concat (map (\<lambda>k. group_updates my k (group flat k)) ks),
          snd plan @ concat (map (\<lambda>k. group_deletes my k (group flat k)) ks))"
  using assms
proof (induction ks arbitrary: plan)
  case (Cons k ks)
  have "group flat k \<noteq> []" "consistent (group flat k)"
    and IH: "\<forall>k \<in> set ks. group flat k \<noteq> [] \<and> consistent (group flat k)" using Cons.prems by auto
  note step = compare_group_step(1) [OF this(1,2)]
  show ?case unfolding step Cons.IH [OF IH] by simp
qed simp

lemma compare_loop_Err:
  assumes "\<forall>k \<in> set ks. group flat k \<noteq> []" "\<exists>k \<in> set ks. \<not> consistent (group flat k)"
  shows "\<exists>e. compare_loop my flat ks plan = Err e"
  using assms
proof (induction ks arbitrary: plan)
  case (Cons k ks)
  have ne: "group flat k \<noteq> []" and rest: "\<forall>k \<in> set ks. group flat k \<noteq> []" using Cons.prems(1) by auto
  show ?case
  proof (cases "consistent (group flat k)")
    case True
    then have "\<exists>k \<in> set ks. \<not> consistent (group flat k)" using Cons.prems(2) by auto
    then show ?thesis unfolding compare_group_step(1) [OF ne True] by (rule Cons.IH [OF rest])
  next
    case False
    then show ?thesis by (rule compare_group_step(2) [OF ne])
  qed
qed simp

lemma set_group_keys: "set (group_keys flat) = mod_id ` set flat"
  by (simp add: group_keys_def)

lemma sorted_group_keys: "sorted_wrt (<) (group_keys flat)"
  by (simp add: group_keys_def strict_sorted_iff)

definition completed_by_some :: "'i Modification list list \<Rightarrow> 'i \<Rightarrow> bool" where
  "completed_by_some all k \<longleftrightarrow> (\<exists>s \<in> set all. \<exists>m \<in> set s. mod_id m = k \<and> status m = MOD_STATUS_COMPLETED)"

definition all_consistent :: "'i Modification list list \<Rightarrow> bool" where
  "all_consistent all \<longleftrightarrow> (\<forall>k \<in> mod_id ` set (concat all). consistent (group (concat all) k))"

definition planned_updates :: "'i::linorder Modification list \<Rightarrow> 'i Modification list list \<Rightarrow> 'i Modification list" where
  "planned_updates my all =
     concat (map (\<lambda>k. group_updates my k (group (concat all) k)) (group_keys (concat all)))"

definition planned_deletes :: "'i::linorder Modification list \<Rightarrow> 'i Modification list list \<Rightarrow> 'i Modification list" where
  "planned_deletes my all =
     concat (map (\<lambda>k. group_deletes my k (group (concat all) k)) (group_keys (concat all)))"

lemma compare_modifications_eq:
  "all_consistent all \<Longrightarrow> compare_modifications my all = Ok (planned_updates my all, planned_deletes my all)"
  "\<not> all_consistent all \<Longrightarrow> \<exists>e. compare_modifications my all = Err e"
proof -
  have ne: "\<forall>k \<in> set (group_keys (concat all)). group (concat all) k \<noteq> []"
    by (auto simp: set_group_keys filter_empty_conv simp del: set_concat)
  show "compare_modifications my all = Ok (planned_updates my all, planned_deletes my all)" if "all_consistent all"
    unfolding compare_modifications_def planned_updates_def planned_deletes_def
    by (subst compare_loop_Ok) (use ne that in \<open>auto simp: all_consistent_def set_group_keys simp del: set_concat\<close>)
  show "\<exists>e. compare_modifications my all = Err e" if "\<not> all_consistent all"
    unfolding compare_modifications_def
    by (rule compare_loop_Err [OF ne]) (use that in \<open>simp add: all_consistent_def set_group_keys del: set_concat\<close>)
qed

lemma completed_group:
  "list_ex (\<lambda>m. status m = MOD_STATUS_COMPLETED) (group (concat all) k) \<longleftrightarrow> completed_by_some all k"
  by (auto simp: list_ex_iff completed_by_some_def)

lemma sorted_concat_keys:
  assumes "sorted_wrt (<) ks" "\<And>k m. m \<in> set (f k) \<Longrightarrow> mod_id m = k" "\<And>k. length (f k) \<le> 1"
  shows "sorted_wrt (<) (map mod_id (concat (map f ks)))"
  using assms(1)
proof (induction ks)
  case (Cons k ks)
  have "sorted_wrt (<) (map mod_id (f k))"
    using assms(3) [of k] by (cases "f k") auto
  with Cons assms(2) show ?case by (auto simp: sorted_wrt_append)
qed simp

lemma rolled_forward_id:
  assumes "list_ex (\<lambda>m. status m = MOD_STATUS_COMPLETED) g"
  shows "\<exists>fc \<in> set g. mod_id (rolled_forward g) = mod_id fc \<and> request_type (rolled_forward g) = request_type fc
      \<and> mod_input (rolled_forward g) = mod_input fc"
  using first_completed_Some [OF assms, of "find_serial g"] by (auto simp: rolled_forward_def)

lemma group_updates_id: "m \<in> set (group_updates my k (group flat k)) \<Longrightarrow> mod_id m = k"
  using rolled_forward_id [of "group flat k"] by (auto simp: group_updates_def split: option.splits if_splits)

lemma group_deletes_id: "m \<in> set (group_deletes my k g) \<Longrightarrow> mod_id m = k"
  unfolding group_deletes_def
  by (cases "find (\<lambda>m. mod_id m = k) my") (auto simp: find_Some_iff split: if_splits)

lemma group_at_most_one: "length (group_updates my k g) \<le> 1" "length (group_deletes my k g) \<le> 1"
  by (auto simp: group_updates_def group_deletes_def split: option.split)

lemma planned_sorted:
  "sorted_wrt (<) (map mod_id (planned_updates my all))"
  "sorted_wrt (<) (map mod_id (planned_deletes my all))"
  unfolding planned_updates_def planned_deletes_def
  by (intro sorted_concat_keys sorted_group_keys group_updates_id group_deletes_id group_at_most_one; assumption)+

text \<open>With one local copy per id, \<open>find\<close> is membership.\<close>

lemma find_local:
  assumes "distinct (map mod_id my)"
  shows "find (\<lambda>m. mod_id m = k) my = Some l \<longleftrightarrow> l \<in> set my \<and> mod_id l = k"
  using assms
proof (induction my)
  case (Cons m my)
  then show ?case by (cases "mod_id m = k") (auto simp: image_iff)
qed simp

lemma in_concat_map: "x \<in> set (concat (map f ks)) \<longleftrightarrow> (\<exists>k \<in> set ks. x \<in> set (f k))"
  by simp

lemma bex_one_point:
  "(\<exists>k \<in> K. A \<and> x = k \<and> P k) \<longleftrightarrow> A \<and> x \<in> K \<and> P x"
  "(\<exists>k \<in> K. \<exists>l \<in> L. f l = k \<and> Q k l) \<longleftrightarrow> (\<exists>l \<in> L. f l \<in> K \<and> Q (f l) l)"
  by blast+

lemma in_planned_deletes:
  assumes "distinct (map mod_id my)"
  shows "m \<in> set (planned_deletes my all) \<longleftrightarrow>
     m \<in> set my \<and> mod_id m \<in> mod_id ` set (concat all) \<and> \<not> completed_by_some all (mod_id m)"
proof -
  have "m \<in> set (group_deletes my k (group (concat all) k)) \<longleftrightarrow>
      m \<in> set my \<and> mod_id m = k \<and> \<not> completed_by_some all k" for k
    using find_local [OF assms, of k m]
    unfolding group_deletes_def completed_group by (cases "find (\<lambda>m. mod_id m = k) my") auto
  note group = this
  show ?thesis unfolding planned_deletes_def in_concat_map set_group_keys group by (rule bex_one_point(1))
qed

lemma in_planned_updates:
  assumes "distinct (map mod_id my)"
  shows "m \<in> set (planned_updates my all) \<longleftrightarrow>
     (\<exists>l \<in> set my. mod_id l \<in> mod_id ` set (concat all) \<and> completed_by_some all (mod_id l)
        \<and> \<not> in_sync (group (concat all) (mod_id l)) l \<and> m = rolled_forward (group (concat all) (mod_id l)))"
proof -
  have "m \<in> set (group_updates my k (group (concat all) k)) \<longleftrightarrow>
      (\<exists>l \<in> set my. mod_id l = k \<and> completed_by_some all k \<and> \<not> in_sync (group (concat all) k) l
         \<and> m = rolled_forward (group (concat all) k))" for k
  proof -
    have "m \<in> set (group_updates my k (group (concat all) k)) \<longleftrightarrow>
        (\<exists>l. find (\<lambda>m. mod_id m = k) my = Some l \<and> completed_by_some all k \<and> \<not> in_sync (group (concat all) k) l
           \<and> m = rolled_forward (group (concat all) k))"
      unfolding group_updates_def completed_group by (cases "find (\<lambda>m. mod_id m = k) my") auto
    then show ?thesis unfolding find_local [OF assms] by blast
  qed
  note group = this
  show ?thesis unfolding planned_updates_def in_concat_map set_group_keys group by (rule bex_one_point(2))
qed

section \<open>Applying the plan\<close>

text \<open>A party replaces its copies by the updates with their ids and drops the deletions.\<close>

definition apply_plan :: "'i Modification list \<Rightarrow> 'i plan \<Rightarrow> 'i Modification list" where
  "apply_plan my plan =
     map (\<lambda>m. case find (\<lambda>u. mod_id u = mod_id m) (fst plan) of Some u \<Rightarrow> u | None \<Rightarrow> m)
         (filter (\<lambda>m. mod_id m \<notin> mod_id ` set (snd plan)) my)"

definition settled :: "'i Modification list \<Rightarrow> 'i Modification \<Rightarrow> bool" where
  "settled g x \<longleftrightarrow> in_sync g x \<and> (\<exists>m \<in> set g. mod_id x = mod_id m \<and> same_request x m)"

lemma rolled_forward_settled:
  assumes "list_ex (\<lambda>m. status m = MOD_STATUS_COMPLETED) g"
  shows "settled g (rolled_forward g)"
proof -
  have "in_sync g (rolled_forward g)" by (simp add: in_sync_def rolled_forward_def)
  with rolled_forward_id [OF assms] show ?thesis unfolding settled_def same_request_def by blast
qed

lemma settled_unique:
  assumes "consistent g" "settled g x" "settled g y" "mod_id x = mod_id y"
  shows "modification_eq x y"
proof -
  obtain m m' where "m \<in> set g" "same_request x m" "m' \<in> set g" "same_request y m'"
    using assms(2,3) unfolding settled_def by blast
  moreover from this have "same_request m m'" using assms(1) unfolding consistent_def by blast
  ultimately have "same_request x y" unfolding same_request_def by simp
  then show ?thesis
    using assms(2-4) unfolding settled_def in_sync_def modification_eq_def same_request_def by simp
qed

lemma planned_update_of:
  assumes "distinct (map mod_id my)" "l \<in> set my" "my \<in> set all"
  shows "(case find (\<lambda>u. mod_id u = mod_id l) (planned_updates my all) of Some u \<Rightarrow> u | None \<Rightarrow> l) =
     (if completed_by_some all (mod_id l) \<and> \<not> in_sync (group (concat all) (mod_id l)) l
      then rolled_forward (group (concat all) (mod_id l)) else l)"
proof -
  let ?g = "group (concat all)" and ?find = "find (\<lambda>u. mod_id u = mod_id l) (planned_updates my all)"
  have "distinct (map mod_id (planned_updates my all))" 
    using planned_sorted(1) [of my all] by (simp add: strict_sorted_iff)
  note found = find_local [OF this, of "mod_id l", unfolded in_planned_updates [OF assms(1)]]
  have seen: "mod_id l \<in> mod_id ` set (concat all)" using assms(2,3) by auto
  show ?thesis
  proof (cases ?find)
    case None
    have "\<not> (completed_by_some all (mod_id l) \<and> \<not> in_sync (?g (mod_id l)) l)"
    proof
      assume *: "completed_by_some all (mod_id l) \<and> \<not> in_sync (?g (mod_id l)) l"
      then have "mod_id (rolled_forward (?g (mod_id l))) = mod_id l"
        using rolled_forward_id [of "?g (mod_id l)"] completed_group by fastforce
      with * have "?find = Some (rolled_forward (?g (mod_id l)))" using found assms(2) seen by blast
      with None show False by simp
    qed
    with None show ?thesis by auto
  next
    case (Some u)
    then obtain k where k: "k \<in> set my" "completed_by_some all (mod_id k)" "\<not> in_sync (?g (mod_id k)) k"
        "u = rolled_forward (?g (mod_id k))" "mod_id u = mod_id l" using found by blast
    have "mod_id u = mod_id k"
      using rolled_forward_id [of "?g (mod_id k)"] k(2,4) completed_group by fastforce
    then have "k = l" using k(1,5) assms(1,2) by (metis distinct_map inj_onD)
    with k Some show ?thesis by simp
  qed
qed

lemma applied_plan:
  assumes "distinct (map mod_id my)" "my \<in> set all"
  shows "x \<in> set (apply_plan my (planned_updates my all, planned_deletes my all)) \<longleftrightarrow>
    (\<exists>l \<in> set my. completed_by_some all (mod_id l) \<and>
       x = (if in_sync (group (concat all) (mod_id l)) l then l else rolled_forward (group (concat all) (mod_id l))))"
proof -
  have keep: "mod_id l \<notin> mod_id ` set (planned_deletes my all) \<longleftrightarrow> completed_by_some all (mod_id l)" if "l \<in> set my" for l
  proof -
    have "mod_id l \<in> mod_id ` set (concat all)" using that assms(2) by auto
    then have "l \<in> set (planned_deletes my all) \<longleftrightarrow> \<not> completed_by_some all (mod_id l)"
      using that by (simp add: in_planned_deletes [OF assms(1)] del: set_concat)
    moreover have "\<not> completed_by_some all (mod_id l)" if "mod_id l \<in> mod_id ` set (planned_deletes my all)"
      using that in_planned_deletes [OF assms(1)] unfolding image_iff by metis
    ultimately show ?thesis by blast
  qed
  have "apply_plan my (planned_updates my all, planned_deletes my all) =
      map (\<lambda>l. if in_sync (group (concat all) (mod_id l)) l then l else rolled_forward (group (concat all) (mod_id l)))
        (filter (\<lambda>l. completed_by_some all (mod_id l)) my)"
    unfolding apply_plan_def fst_conv snd_conv
    using keep planned_update_of [OF assms(1) _ assms(2)] by (intro map_cong filter_cong) auto
  then show ?thesis by (auto simp del: set_concat)
qed

lemma applied_settled:
  assumes "distinct (map mod_id my)" "my \<in> set all"
    "x \<in> set (apply_plan my (planned_updates my all, planned_deletes my all))"
  shows "completed_by_some all (mod_id x) \<and> settled (group (concat all) (mod_id x)) x"
proof -
  let ?g = "group (concat all)"
  obtain l where l: "l \<in> set my" "completed_by_some all (mod_id l)"
    "x = (if in_sync (?g (mod_id l)) l then l else rolled_forward (?g (mod_id l)))"
    using assms(3) unfolding applied_plan [OF assms(1,2)] by blast
  have ex: "list_ex (\<lambda>m. status m = MOD_STATUS_COMPLETED) (?g (mod_id l))" using l(2) by (simp add: completed_group)
  have x: "mod_id x = mod_id l"
    using l(3) rolled_forward_id [OF ex] by (auto split: if_splits)
  have "l \<in> set (?g (mod_id l))" using l(1) assms(2) by auto
  then have "settled (?g (mod_id l)) l" if "in_sync (?g (mod_id l)) l"
    using that unfolding settled_def same_request_def by blast
  with rolled_forward_settled [OF ex] have "settled (?g (mod_id l)) x" using l(3) by (auto split: if_splits)
  with l(2) x show ?thesis by simp
qed

text \<open>
  C31: The comparison of a party with one copy per id never panics and succeeds exactly when
  every group of copies of an operation is consistent. Its updates and deletions then have
  strictly ascending ids; a local operation is deleted exactly when it was reported and no
  party completed it, and updated exactly when some party completed it and the local copy
  differs in status, persistence or serial id.
\<close>

theorem comparison_plans_are_exact:
  fixes my :: "'i::linorder Modification list"
  assumes "distinct (map mod_id my)"
  shows "compare_modifications my all \<noteq> Panic
    \<and> ((\<exists>p. compare_modifications my all = Ok p) \<longleftrightarrow> all_consistent all)
    \<and> (\<forall>u d. compare_modifications my all = Ok (u, d) \<longrightarrow>
         sorted_wrt (<) (map mod_id u) \<and> sorted_wrt (<) (map mod_id d)
       \<and> (\<forall>m. m \<in> set d \<longleftrightarrow>
            m \<in> set my \<and> mod_id m \<in> mod_id ` set (concat all) \<and> \<not> completed_by_some all (mod_id m))
       \<and> (\<forall>m. m \<in> set u \<longleftrightarrow>
            (\<exists>l \<in> set my. mod_id l \<in> mod_id ` set (concat all) \<and> completed_by_some all (mod_id l)
               \<and> \<not> in_sync (group (concat all) (mod_id l)) l \<and> m = rolled_forward (group (concat all) (mod_id l)))))"
proof (cases "all_consistent all")
  case True
  show ?thesis
    unfolding compare_modifications_eq(1) [OF True]
    using True in_planned_deletes [OF assms] in_planned_updates [OF assms]
    by (simp add: planned_sorted del: set_concat)
next
  case False
  then show ?thesis using compare_modifications_eq(2) [OF False, of my] by auto
qed

text \<open>
  C12: When two parties whose snapshots were compared apply their plans, the operations they
  keep are completed, were completed by some party, and are equal wherever both keep one with
  the same id; every local operation that some party completed is kept.
\<close>

theorem reconciled_parties_agree:
  fixes a b :: "'i::linorder Modification list"
  assumes "a \<in> set all" "b \<in> set all" "distinct (map mod_id a)" "distinct (map mod_id b)"
    "compare_modifications a all = Ok pa" "compare_modifications b all = Ok pb"
  shows "(\<forall>x \<in> set (apply_plan a pa). status x = MOD_STATUS_COMPLETED \<and> completed_by_some all (mod_id x))
    \<and> (\<forall>x \<in> set (apply_plan a pa). \<forall>y \<in> set (apply_plan b pb). mod_id x = mod_id y \<longrightarrow> modification_eq x y)
    \<and> (\<forall>l \<in> set a. completed_by_some all (mod_id l) \<longrightarrow> mod_id l \<in> mod_id ` set (apply_plan a pa))"
proof -
  have ok: "all_consistent all" using compare_modifications_eq(2) [of all a] assms(5) by force
  have pa: "pa = (planned_updates a all, planned_deletes a all)"
    and pb: "pb = (planned_updates b all, planned_deletes b all)"
    using compare_modifications_eq(1) [OF ok] assms(5,6) by auto
  note A = applied_settled [OF assms(3,1), folded pa] and B = applied_settled [OF assms(4,2), folded pb]
  have agree: "modification_eq x y"
    if x: "x \<in> set (apply_plan a pa)" and y: "y \<in> set (apply_plan b pb)" and eq: "mod_id x = mod_id y" for x y
  proof (rule settled_unique [OF _ _ _ eq])
    show "settled (group (concat all) (mod_id x)) x" "settled (group (concat all) (mod_id x)) y"
      using A [OF x] B [OF y] eq by simp_all
    obtain m where "m \<in> set (group (concat all) (mod_id x))" using A [OF x] unfolding settled_def by blast
    then have "m \<in> set (concat all)" and "mod_id m = mod_id x" by simp_all
    from imageI [OF this(1), of mod_id] this(2) have "mod_id x \<in> mod_id ` set (concat all)" by metis
    then show "consistent (group (concat all) (mod_id x))" using ok unfolding all_consistent_def by blast
  qed
  have kept: "mod_id l \<in> mod_id ` set (apply_plan a pa)" if "l \<in> set a" "completed_by_some all (mod_id l)" for l
  proof -
    let ?g = "group (concat all) (mod_id l)" and ?x = "if in_sync (group (concat all) (mod_id l)) l then l
        else rolled_forward (group (concat all) (mod_id l))"
    have "?x \<in> set (apply_plan a pa)" unfolding pa applied_plan [OF assms(3,1)] using that by blast
    moreover have "mod_id ?x = mod_id l"
      using rolled_forward_id [of ?g] that(2) completed_group by fastforce
    ultimately show ?thesis by (rule rev_image_eqI [OF _ sym])
  qed
  show ?thesis
    using A agree kept unfolding settled_def in_sync_def by blast
qed

text \<open>
  A snapshot pair: the first party completed operation 1 and wrote its shares, the second
  party stopped before; nobody completed operation 2.
\<close>

definition sample_mod :: "int \<Rightarrow> string \<Rightarrow> bool \<Rightarrow> int option \<Rightarrow> int Modification" where
  "sample_mod k st per ser = \<lparr>mod_id = k, serial_id = ser, request_type = ''reauth'', mod_input = Some (S3 ''shares''),
     status = st, persisted = per, result_message_body = None\<rparr>"

definition sample_ahead :: "int Modification list" where
  "sample_ahead = [sample_mod 1 MOD_STATUS_COMPLETED True (Some 5), sample_mod 2 MOD_STATUS_IN_PROGRESS False None]"

definition sample_behind :: "int Modification list" where
  "sample_behind = [sample_mod 2 MOD_STATUS_IN_PROGRESS False None, sample_mod 1 MOD_STATUS_IN_PROGRESS False None]"

lemmas sample_defs = sample_ahead_def sample_behind_def sample_mod_def
  MOD_STATUS_COMPLETED_def MOD_STATUS_IN_PROGRESS_def

lemma sample_comparison:
  "compare_modifications sample_behind [sample_ahead, sample_behind] =
     Ok ([sample_mod 1 MOD_STATUS_COMPLETED True (Some 5)], [sample_mod 2 MOD_STATUS_IN_PROGRESS False None])"
  "compare_modifications sample_ahead [sample_ahead, sample_behind] =
     Ok ([], [sample_mod 2 MOD_STATUS_IN_PROGRESS False None])"
  by code_simp+

theorem comparison_plans_are_exact_witness:
  "all_consistent [sample_ahead, sample_behind]"
proof -
  have "distinct (map mod_id sample_behind)" by (simp add: sample_defs)
  from comparison_plans_are_exact [OF this, of "[sample_ahead, sample_behind]"] sample_comparison(1)
  show ?thesis by blast
qed

theorem reconciled_parties_agree_witness:
  "\<exists>x y. apply_plan sample_ahead ([], [sample_mod 2 MOD_STATUS_IN_PROGRESS False None]) = [x]
    \<and> apply_plan sample_behind ([sample_mod 1 MOD_STATUS_COMPLETED True (Some 5)], [sample_mod 2 MOD_STATUS_IN_PROGRESS False None]) = [y]
    \<and> modification_eq x y"
proof -
  let ?m = "sample_mod 1 MOD_STATUS_COMPLETED True (Some 5)"
  have one: "apply_plan sample_ahead ([], [sample_mod 2 MOD_STATUS_IN_PROGRESS False None]) = [?m]" 
    "apply_plan sample_behind ([?m], [sample_mod 2 MOD_STATUS_IN_PROGRESS False None]) = [?m]"
    by (simp_all add: apply_plan_def sample_defs)
  have "distinct (map mod_id sample_ahead)" "distinct (map mod_id sample_behind)" by (simp_all add: sample_defs)
  from reconciled_parties_agree [OF _ _ this sample_comparison(2,1)] one
  have "modification_eq ?m ?m" by simp
  with one show ?thesis by blast
qed

section \<open>Recovery and replay\<close>

lemma lookback_bound:
  assumes "ensure_modification_lookback all lb = Ok ()" "Some i \<in> set (completed_max_mod_ids all)"
    "Some j \<in> set (completed_max_mod_ids all)"
  shows "min I64_MAX (j - i) \<le> int lb"
proof -
  let ?ids = "concat (map (\<lambda>x. case x of None \<Rightarrow> [] | Some i \<Rightarrow> [i]) (completed_max_mod_ids all))"
  have mem: "i \<in> set ?ids" "j \<in> set ?ids" using assms(2,3) by (auto intro: rev_bexI)
  then have "?ids \<noteq> []" by (metis empty_iff empty_set)
  with assms(1) have "nat (min I64_MAX (Max (set ?ids) - Min (set ?ids))) \<le> lb"
    by (simp add: ensure_modification_lookback_def Let_def min_option_def max_option_def split: if_splits)
  moreover have "Min (set ?ids) \<le> i" "j \<le> Max (set ?ids)" using mem by (simp_all del: set_concat)
  ultimately show ?thesis by linarith
qed

lemma recovery_plan_Ok:
  assumes "recovery_plan mine all lb = Ok p"
  shows "ensure_modification_lookback all lb = Ok ()"
    "\<exists>upd. compare_modifications mine all = Ok (upd, deletes p) \<and>
       updates p = map (\<lambda>m. \<lparr>rf_modification = m,
         apply_mutation = requires_modification_apply m (find (\<lambda>l. mod_id l = mod_id m) mine)\<rparr>) upd"
  using assms by (auto simp: recovery_plan_def bind_outcome_eq_Ok)

lemma rolled_forward_persisted:
  "persisted (rolled_forward (group (concat all) k)) \<longleftrightarrow>
     (\<exists>s \<in> set all. \<exists>m \<in> set s. mod_id m = k \<and> persisted m)"
  by (auto simp: rolled_forward_def list_ex_iff)

text \<open>
  C32: A recovery plan applies the mutation of an update exactly when some party wrote its
  shares and the local copy is not already completed and written, so nothing is applied
  twice; and a plan is only produced when the newest completed operations of any two parties
  are at most the lookback apart.
\<close>

theorem recovery_applies_missing_mutations_only:
  assumes "distinct (map mod_id mine)" "recovery_plan mine all lb = Ok p"
  shows "(\<forall>u \<in> set (updates p). apply_mutation u \<longleftrightarrow>
       (\<exists>s \<in> set all. \<exists>m \<in> set s. mod_id m = mod_id (rf_modification u) \<and> persisted m)
     \<and> \<not> (\<exists>l \<in> set mine. mod_id l = mod_id (rf_modification u) \<and> status l = MOD_STATUS_COMPLETED \<and> persisted l))
    \<and> (\<forall>i j. Some i \<in> set (completed_max_mod_ids all) \<and> Some j \<in> set (completed_max_mod_ids all)
         \<longrightarrow> min I64_MAX (j - i) \<le> int lb)"
proof (intro conjI ballI allI impI)
  fix u assume u: "u \<in> set (updates p)"
  obtain upd where cmp: "compare_modifications mine all = Ok (upd, deletes p)"
    and upd: "updates p = map (\<lambda>m. \<lparr>rf_modification = m,
         apply_mutation = requires_modification_apply m (find (\<lambda>l. mod_id l = mod_id m) mine)\<rparr>) upd"
    using recovery_plan_Ok(2) [OF assms(2)] by blast
  have ok: "all_consistent all" using compare_modifications_eq(2) [of all mine] cmp by force
  let ?m = "rf_modification u"
  have m: "?m \<in> set (planned_updates mine all)"
    and app: "apply_mutation u = requires_modification_apply ?m (find (\<lambda>l. mod_id l = mod_id ?m) mine)"
    using u cmp compare_modifications_eq(1) [OF ok, of mine] unfolding upd by auto
  obtain l where l: "l \<in> set mine" "completed_by_some all (mod_id l)" "?m = rolled_forward (group (concat all) (mod_id l))"
    using m unfolding in_planned_updates [OF assms(1)] by blast
  have eq: "mod_id ?m = mod_id l"
    using rolled_forward_id [of "group (concat all) (mod_id l)"] l(2,3) completed_group by fastforce
  have find: "find (\<lambda>l. mod_id l = mod_id ?m) mine = Some l" unfolding find_local [OF assms(1)] using l(1) eq by simp
  have only: "k = l" if "k \<in> set mine" "mod_id k = mod_id l" for k
    using that l(1) assms(1) by (metis distinct_map inj_onD)
  have own: "(\<exists>k \<in> set mine. mod_id k = mod_id l \<and> status k = MOD_STATUS_COMPLETED \<and> persisted k) \<longleftrightarrow>
      status l = MOD_STATUS_COMPLETED \<and> persisted l" using only l(1) by metis
  have "persisted ?m \<longleftrightarrow> (\<exists>s \<in> set all. \<exists>m \<in> set s. mod_id m = mod_id ?m \<and> persisted m)"
    unfolding eq unfolding l(3) by (rule rolled_forward_persisted)
  note persist = this
  show "apply_mutation u \<longleftrightarrow>
       (\<exists>s \<in> set all. \<exists>m \<in> set s. mod_id m = mod_id ?m \<and> persisted m)
     \<and> \<not> (\<exists>l \<in> set mine. mod_id l = mod_id ?m \<and> status l = MOD_STATUS_COMPLETED \<and> persisted l)"
    unfolding persist [symmetric] app find requires_modification_apply_def option.case unfolding eq own ..
next
  fix i j assume "Some i \<in> set (completed_max_mod_ids all) \<and> Some j \<in> set (completed_max_mod_ids all)"
  then show "min I64_MAX (j - i) \<le> int lb" using lookback_bound [OF recovery_plan_Ok(1) [OF assms(2)]] by blast
qed

theorem recovery_applies_missing_mutations_only_witness:
  "\<exists>u. recovery_plan sample_behind [sample_ahead, sample_behind] 10 =
       Ok \<lparr>updates = [u], deletes = [sample_mod 2 MOD_STATUS_IN_PROGRESS False None]\<rparr> \<and> apply_mutation u"
proof -
  let ?u = "\<lparr>rf_modification = sample_mod 1 MOD_STATUS_COMPLETED True (Some 5), apply_mutation = True\<rparr>"
  have plan: "recovery_plan sample_behind [sample_ahead, sample_behind] 10 =
       Ok \<lparr>updates = [?u], deletes = [sample_mod 2 MOD_STATUS_IN_PROGRESS False None]\<rparr>"
    by code_simp
  have "distinct (map mod_id sample_behind)" by (simp add: sample_defs)
  from recovery_applies_missing_mutations_only [OF this plan] plan show ?thesis
    by (intro exI [of _ ?u]) simp
qed

text \<open>The bodies to publish for a request type, in the order of the modifications.\<close>

definition bodies_of :: "'i Modification list \<Rightarrow> string \<Rightarrow> string list" where
  "bodies_of ms rt = concat (map (\<lambda>m. if request_type m = rt then (case result_message_body m of None \<Rightarrow> [] | Some b \<Rightarrow> [b]) else []) ms)"

lemma bodies_of_simps [simp]:
  "bodies_of [] rt = []"
  "bodies_of (m # ms) rt = (if request_type m = rt then (case result_message_body m of None \<Rightarrow> [] | Some b \<Rightarrow> [b]) else []) @ bodies_of ms rt"
  by (simp_all add: bodies_of_def)

lemma group_bodies_eq:
  "group_bodies order g ms rt =
     (if rt \<in> set order \<and> bodies_of ms rt \<noteq> [] then Some ((case g rt of None \<Rightarrow> [] | Some bs \<Rightarrow> bs) @ bodies_of ms rt) else g rt)"
proof (induction ms arbitrary: g)
  case (Cons m ms)
  show ?case
  proof (cases "result_message_body m")
    case (Some b)
    show ?thesis
      by (cases "request_type m \<in> set order"; cases "request_type m = rt") (auto simp: Some Cons.IH)
  qed (simp add: Cons.IH)
qed simp

definition wanted :: "(string \<Rightarrow> string list option) \<Rightarrow> string list \<Rightarrow> (string \<times> string list) list" where
  "wanted g order = concat (map (\<lambda>rt. case g rt of None \<Rightarrow> [] | Some bs \<Rightarrow> [(rt, bs)]) order)"

lemma wanted_simps [simp]:
  "wanted g [] = []"
  "wanted g (rt # rts) = (case g rt of None \<Rightarrow> [] | Some bs \<Rightarrow> [(rt, bs)]) @ wanted g rts"
  by (simp_all add: wanted_def)

lemma wanted_upd: "rt \<notin> set rts \<Longrightarrow> wanted (g(rt := x)) rts = wanted g rts"
  by (induction rts) auto

lemma publish_loop_eq:
  assumes "distinct order"
  shows "publish_loop publish order g calls =
    (calls @ take (Suc (length (takeWhile (\<lambda>(rt, bs). publish rt bs) (wanted g order)))) (wanted g order),
     list_all (\<lambda>(rt, bs). publish rt bs) (wanted g order))"
  using assms
proof (induction order arbitrary: g calls)
  case (Cons rt rts)
  then show ?case by (cases "g rt") (auto simp: wanted_upd)
qed simp

text \<open>
  Replay publishes, for each request type of the given order that has results, one call
  with all its result bodies in log order; it stops after the first call that fails and
  reports success exactly when none failed.
\<close>

theorem replay_publishes_in_order:
  assumes "distinct order"
  shows "replay_modification_results ms order publish =
    (let want = map (\<lambda>rt. (rt, bodies_of ms rt)) (filter (\<lambda>rt. bodies_of ms rt \<noteq> []) order);
         sent = takeWhile (\<lambda>(rt, bs). publish rt bs) want
     in (take (Suc (length sent)) want, list_all (\<lambda>(rt, bs). publish rt bs) want))"
proof -
  have "wanted (group_bodies order0 (\<lambda>_. None) ms) rts =
      map (\<lambda>rt. (rt, bodies_of ms rt)) (filter (\<lambda>rt. bodies_of ms rt \<noteq> []) rts)" if "set rts \<subseteq> set order0" for rts order0
    using that by (induction rts) (auto simp: group_bodies_eq)
  then show ?thesis
    unfolding replay_modification_results_def publish_loop_eq [OF assms] by (simp add: Let_def)
qed

theorem replay_publishes_in_order_witness:
  "replay_modification_results
     [mark_completed (sample_mod 1 MOD_STATUS_IN_PROGRESS False None) True ''r1'' None,
      sample_mod 2 MOD_STATUS_IN_PROGRESS False None,
      mark_completed (sample_mod 3 MOD_STATUS_IN_PROGRESS False None) True ''r3'' (Some 7)]
     [''uniqueness'', ''reauth''] (\<lambda>_ _. True) = ([(''reauth'', [''r1'', ''r3''])], True)"
  by (subst replay_publishes_in_order) (simp_all add: sample_mod_def mark_completed_def)

end
