(* ===== verification/Party_Network.thy ===== *)
theory Party_Network
  imports Party_Id
begin

text \<open>
  Three parties that exchange messages. The program of a party is a tree of sends and
  receives that ends in a result or stops with an error; a receive waits for a message of one
  sender. The channels are those of \<open>LocalNetworkingStore\<close>
  (\<open>ampc-actor-utils/src/network/mpc/local.rs\<close>): one unbounded queue of byte strings for
  every ordered pair of hosts. A step is one send or one receive of any party, so every
  interleaving is an execution. The order of steps does not matter (a diamond property), so
  one execution that finishes shows that all of them finish, with the same results.
\<close>

section \<open>Programs\<close>

type_synonym Identity = string

datatype ('e, 'a) proto =
    Ret 'a
  | Stop 'e
  | Send Identity "u8 list" "('e, 'a) proto"
  | Recv Identity "u8 list \<Rightarrow> ('e, 'a) proto"

primrec pbind :: "('e, 'a) proto \<Rightarrow> ('a \<Rightarrow> ('e, 'b) proto) \<Rightarrow> ('e, 'b) proto" where
  "pbind (Ret x) f = f x"
| "pbind (Stop e) f = Stop e"
| "pbind (Send d m p) f = Send d m (pbind p f)"
| "pbind (Recv d k) f = Recv d (\<lambda>m. pbind (k m) f)"

lemma pbind_Ret [simp]: "pbind p Ret = p"
  by (induction p) simp_all

lemma pbind_assoc: "pbind (pbind p f) g = pbind p (\<lambda>x. pbind (f x) g)"
  by (induction p) simp_all

section \<open>Executions\<close>

type_synonym ('e, 'a) nodes = "PartyID \<Rightarrow> ('e, 'a) proto"
type_synonym channels = "Identity \<times> Identity \<Rightarrow> u8 list list"
type_synonym ('e, 'a) net = "('e, 'a) nodes \<times> channels"

definition no_messages :: channels where
  "no_messages = (\<lambda>_. [])"

inductive net_step :: "(PartyID \<Rightarrow> Identity) \<Rightarrow> ('e, 'a) net \<Rightarrow> ('e, 'a) net \<Rightarrow> bool" for addr where
  step_send: "P i = Send d m p \<Longrightarrow>
    net_step addr (P, C) (P(i := p), C((addr i, d) := C (addr i, d) @ [m]))"
| step_recv: "P i = Recv s k \<Longrightarrow> C (s, addr i) = m # ms \<Longrightarrow>
    net_step addr (P, C) (P(i := k m), C((s, addr i) := ms))"

inductive_cases net_stepE: "net_step addr (P, C) X"

abbreviation net_steps :: "(PartyID \<Rightarrow> Identity) \<Rightarrow> ('e, 'a) net \<Rightarrow> ('e, 'a) net \<Rightarrow> bool" where
  "net_steps addr \<equiv> (net_step addr)\<^sup>*\<^sup>*"

text \<open>The move of one party, as a function of the channels.\<close>

fun node_step :: "Identity \<Rightarrow> ('e, 'a) proto \<Rightarrow> channels \<Rightarrow> (('e, 'a) proto \<times> channels) option" where
  "node_step me (Send d m p) C = Some (p, C((me, d) := C (me, d) @ [m]))"
| "node_step me (Recv s k) C = (case C (s, me) of [] \<Rightarrow> None | m # ms \<Rightarrow> Some (k m, C((s, me) := ms)))"
| "node_step me _ C = None"

lemma net_step_iff:
  "net_step addr (P, C) X \<longleftrightarrow> (\<exists>i p C'. node_step (addr i) (P i) C = Some (p, C') \<and> X = (P(i := p), C'))"
proof
  assume "net_step addr (P, C) X"
  then show "\<exists>i p C'. node_step (addr i) (P i) C = Some (p, C') \<and> X = (P(i := p), C')"
  proof (cases rule: net_step.cases)
    case (step_send i d m p)
    then show ?thesis by (intro exI [of _ i]) simp
  next
    case (step_recv i s k m ms)
    then show ?thesis by (intro exI [of _ i]) simp
  qed
next
  assume "\<exists>i p C'. node_step (addr i) (P i) C = Some (p, C') \<and> X = (P(i := p), C')"
  then obtain i p C' where i: "node_step (addr i) (P i) C = Some (p, C')" and X: "X = (P(i := p), C')" by blast
  show "net_step addr (P, C) X"
  proof (cases "P i")
    case (Send d m q)
    then show ?thesis using i X net_step.step_send [of P i d m q addr C] by simp
  next
    case (Recv s k)
    then show ?thesis using i X net_step.step_recv [of P i s k C addr] by (auto split: list.splits)
  qed (use i in auto)
qed

text \<open>Moves of two different parties commute: they touch different ends of the channels.\<close>

lemma node_steps_commute:
  assumes "x \<noteq> y" "node_step x p C = Some (p', C1)" "node_step y q C = Some (q', C2)"
  shows "\<exists>C'. node_step y q C1 = Some (q', C') \<and> node_step x p C2 = Some (p', C')"
  using assms
  by (cases p; cases q) (auto split: list.splits if_splits simp: fun_upd_twist)

definition diamond1 :: "('a \<Rightarrow> 'a \<Rightarrow> bool) \<Rightarrow> bool" where
  "diamond1 r \<longleftrightarrow> (\<forall>x y z. r x y \<longrightarrow> r x z \<longrightarrow> y = z \<or> (\<exists>w. r y w \<and> r z w))"

lemma net_diamond:
  assumes "inj addr"
  shows "diamond1 (net_step addr)"
  unfolding diamond1_def
proof (intro allI impI)
  fix X Y Z assume XY: "net_step addr X Y" and XZ: "net_step addr X Z"
  obtain P C where X: "X = (P, C)" by (cases X)
  obtain i p C1 where i: "node_step (addr i) (P i) C = Some (p, C1)" "Y = (P(i := p), C1)"
    using XY unfolding X net_step_iff by blast
  obtain j q C2 where j: "node_step (addr j) (P j) C = Some (q, C2)" "Z = (P(j := q), C2)"
    using XZ unfolding X net_step_iff by blast
  show "Y = Z \<or> (\<exists>W. net_step addr Y W \<and> net_step addr Z W)"
  proof (cases "i = j")
    case True
    then show ?thesis using i j by simp
  next
    case False
    then have "addr i \<noteq> addr j" using assms by (simp add: inj_eq)
    from node_steps_commute [OF this i(1) j(1)]
    obtain C' where C': "node_step (addr j) (P j) C1 = Some (q, C')" "node_step (addr i) (P i) C2 = Some (p, C')"
      by blast
    have "net_step addr Y (P(i := p, j := q), C')" unfolding i(2) net_step_iff
      by (intro exI [of _ j]) (use C'(1) False in simp)
    moreover have "net_step addr Z (P(i := p, j := q), C')" unfolding j(2) net_step_iff
      by (intro exI [of _ i]) (use C'(2) False in \<open>simp add: fun_upd_twist\<close>)
    ultimately show ?thesis by blast
  qed
qed

text \<open>
  With this diamond, a run that ends in a state without a further step fixes the length and
  the result of every other run.
\<close>

lemma diamond1_run:
  assumes "diamond1 r" "(r ^^ n) x z" "\<nexists>w. r z w" "r x y"
  shows "0 < n \<and> (r ^^ (n - 1)) y z"
  using assms(2-4)
proof (induction n arbitrary: x y)
  case (Suc n)
  obtain x' where x': "r x x'" "(r ^^ n) x' z" using Suc.prems(1) by (metis relpowp_Suc_D2)
  show ?case
  proof (cases "y = x'")
    case True
    then show ?thesis using x'(2) by simp
  next
    case False
    then obtain w where w: "r y w" "r x' w" using assms(1) x'(1) Suc.prems(3) unfolding diamond1_def by blast
    from Suc.IH [OF x'(2) Suc.prems(2) w(2)] have "0 < n" "(r ^^ (n - 1)) w z" by simp_all
    with w(1) have "(r ^^ n) y z" by (metis Suc_pred' relpowp_Suc_I2)
    then show ?thesis by simp
  qed
qed auto

lemma diamond1_runs:
  assumes "diamond1 r" "(r ^^ n) x z" "\<nexists>w. r z w" "(r ^^ k) x y"
  shows "k \<le> n \<and> (r ^^ (n - k)) y z"
  using assms(4)
proof (induction k arbitrary: y)
  case (Suc k)
  then obtain y' where y': "(r ^^ k) x y'" "r y' y" by auto
  from Suc.IH [OF y'(1)] have "k \<le> n" and run: "(r ^^ (n - k)) y' z" by simp_all
  from diamond1_run [OF assms(1) run assms(3) y'(2)] have "0 < n - k" "(r ^^ (n - k - 1)) y z" by simp_all
  then show ?case by simp
qed (use assms in simp)

section \<open>Finished runs\<close>

definition delivers :: "(PartyID \<Rightarrow> Identity) \<Rightarrow> ('e, 'a) nodes \<Rightarrow> (PartyID \<Rightarrow> 'a) \<Rightarrow> bool" where
  "delivers addr P xs \<longleftrightarrow> net_steps addr (P, no_messages) (\<lambda>i. Ret (xs i), no_messages)"

lemma finished_stuck: "\<not> net_step addr (\<lambda>i. Ret (xs i), C) X"
  by (simp add: net_step_iff)

text \<open>Every execution can be continued to the results, and no execution is infinite.\<close>

lemma delivers_any_schedule:
  assumes "inj addr" "delivers addr P xs"
  shows "\<exists>n. \<forall>k X. (net_step addr ^^ k) (P, no_messages) X \<longrightarrow>
     k \<le> n \<and> net_steps addr X (\<lambda>i. Ret (xs i), no_messages)"
proof -
  obtain n where n: "(net_step addr ^^ n) (P, no_messages) (\<lambda>i. Ret (xs i), no_messages)"
    using assms(2) unfolding delivers_def by (metis rtranclp_power)
  have "k \<le> n \<and> net_steps addr X (\<lambda>i. Ret (xs i), no_messages)"
    if "(net_step addr ^^ k) (P, no_messages) X" for k X
    using diamond1_runs [OF net_diamond [OF assms(1)] n _ that] finished_stuck by (metis relpowp_imp_rtranclp)
  then show ?thesis by blast
qed

text \<open>Sequencing: a run of the first parts is a run of the programs they start.\<close>

lemma node_step_pbind:
  "node_step me p C = Some (q, C') \<Longrightarrow> node_step me (pbind p f) C = Some (pbind q f, C')"
  by (cases p) (auto split: list.splits)

lemma net_step_pbind:
  assumes "net_step addr (P, C) (Q, D)"
  shows "net_step addr (\<lambda>i. pbind (P i) (F i), C) (\<lambda>i. pbind (Q i) (F i), D)"
proof -
  obtain i p where i: "node_step (addr i) (P i) C = Some (p, D)" "Q = P(i := p)"
    using assms unfolding net_step_iff by blast
  show ?thesis unfolding net_step_iff
    by (intro exI [of _ i] exI [of _ "pbind p (F i)"] exI [of _ D])
      (use node_step_pbind [OF i(1)] i(2) in auto)
qed

lemma net_steps_pbind:
  assumes "net_steps addr X Y"
  shows "net_steps addr (\<lambda>i. pbind (fst X i) (F i), snd X) (\<lambda>i. pbind (fst Y i) (F i), snd Y)"
  using assms
proof (induction rule: rtranclp_induct)
  case (step Y Z)
  have "net_step addr (fst Y, snd Y) (fst Z, snd Z)" using step.hyps(2) by simp
  from rtranclp.rtrancl_into_rtrancl [OF step.IH net_step_pbind [OF this]] show ?case .
qed simp

lemma delivers_bind:
  assumes "delivers addr P xs" "delivers addr (\<lambda>i. F i (xs i)) ys"
  shows "delivers addr (\<lambda>i. pbind (P i) (F i)) ys"
  using net_steps_pbind [OF assms(1) [unfolded delivers_def], of F] assms(2)
  unfolding delivers_def by simp

lemma delivers_Ret: "delivers addr (\<lambda>i. Ret (xs i)) xs"
  by (simp add: delivers_def)

text \<open>A message each way round the ring: everybody sends, then everybody receives.\<close>

lemma net_step_at:
  assumes "node_step (addr i) (P i) C = Some (p, C')"
  shows "net_step addr (P, C) (P(i := p), C')"
  using assms unfolding net_step_iff by blast

lemma PartyID_fun_eq: "f = g \<longleftrightarrow> f ID0 = g ID0 \<and> f ID1 = g ID1 \<and> f ID2 = g ID2"
  unfolding fun_eq_iff by (metis PartyID.exhaust)

lemma inj_addr: "inj addr \<Longrightarrow> addr i = addr j \<longleftrightarrow> i = j"
  by (simp add: inj_eq)

lemma net_steps_3:
  assumes "net_step addr X0 X1" "net_step addr X1 X2" "net_step addr X2 X3"
  shows "net_steps addr X0 X3"
  using assms by (meson converse_rtranclp_into_rtranclp r_into_rtranclp)

lemma everybody_moves:
  assumes "node_step (addr ID0) (P ID0) C = Some (Q ID0, C0)"
    "node_step (addr ID1) (P ID1) C0 = Some (Q ID1, C1)"
    "node_step (addr ID2) (P ID2) C1 = Some (Q ID2, C2)"
  shows "net_steps addr (P, C) (Q, C2)"
proof -
  have "net_step addr (P, C) (P(ID0 := Q ID0), C0)" by (rule net_step_at) (rule assms(1))
  moreover have "net_step addr (P(ID0 := Q ID0), C0) (P(ID0 := Q ID0, ID1 := Q ID1), C1)"
    by (rule net_step_at) (use assms(2) in simp)
  moreover have "net_step addr (P(ID0 := Q ID0, ID1 := Q ID1), C1) (P(ID0 := Q ID0, ID1 := Q ID1, ID2 := Q ID2), C2)"
    by (rule net_step_at) (use assms(3) in simp)
  moreover have "P(ID0 := Q ID0, ID1 := Q ID1, ID2 := Q ID2) = Q" unfolding PartyID_fun_eq by simp
  ultimately show ?thesis by (metis net_steps_3)
qed

definition sent_by :: "(PartyID \<Rightarrow> Identity) \<Rightarrow> (PartyID \<Rightarrow> PartyID) \<Rightarrow> (PartyID \<Rightarrow> u8 list) \<Rightarrow> channels" where
  "sent_by addr to m = no_messages((addr ID0, addr (to ID0)) := [m ID0],
     (addr ID1, addr (to ID1)) := [m ID1], (addr ID2, addr (to ID2)) := [m ID2])"

lemma everybody_sends:
  assumes "inj addr" "\<And>i. P i = Send (addr (to i)) (m i) (Q i)"
  shows "net_steps addr (P, no_messages) (Q, sent_by addr to m)"
proof (rule everybody_moves)
  let ?C0 = "no_messages((addr ID0, addr (to ID0)) := [m ID0])"
  let ?C1 = "?C0((addr ID1, addr (to ID1)) := [m ID1])"
  show "node_step (addr ID0) (P ID0) no_messages = Some (Q ID0, ?C0)"
    by (simp add: assms(2) no_messages_def)
  show "node_step (addr ID1) (P ID1) ?C0 = Some (Q ID1, ?C1)"
    by (simp add: assms(2) no_messages_def inj_addr [OF assms(1)])
  show "node_step (addr ID2) (P ID2) ?C1 = Some (Q ID2, sent_by addr to m)"
    by (simp add: assms(2) no_messages_def inj_addr [OF assms(1)] sent_by_def)
qed

lemma everybody_receives:
  assumes "inj addr" "\<And>i. P i = Recv (addr (src i)) (k i)" "(to, src) = (next_id, prev_id) \<or> (to, src) = (prev_id, next_id)"
  shows "net_steps addr (P, sent_by addr to m) (\<lambda>i. k i (m (src i)), no_messages)"
proof -
  have at: "sent_by addr to m (addr (src i), addr i) = [m (src i)]" for i
    using assms(3) by (cases i) (auto simp: sent_by_def inj_addr [OF assms(1)])
  have "net_steps addr (P, sent_by addr to m) (\<lambda>i. k i (m (src i)), (sent_by addr to m)
      ((addr (src ID0), addr ID0) := [], (addr (src ID1), addr ID1) := [], (addr (src ID2), addr ID2) := []))"
  proof (rule everybody_moves)
    let ?C0 = "(sent_by addr to m)((addr (src ID0), addr ID0) := [])"
    let ?C1 = "?C0((addr (src ID1), addr ID1) := [])"
    show "node_step (addr ID0) (P ID0) (sent_by addr to m) = Some (k ID0 (m (src ID0)), ?C0)"
      by (simp add: assms(2) at)
    show "node_step (addr ID1) (P ID1) ?C0 = Some (k ID1 (m (src ID1)), ?C1)"
      by (simp add: assms(2) at inj_addr [OF assms(1)])
    show "node_step (addr ID2) (P ID2) ?C1 = Some (k ID2 (m (src ID2)), ?C1((addr (src ID2), addr ID2) := []))"
      by (simp add: assms(2) at inj_addr [OF assms(1)])
  qed
  moreover have "(sent_by addr to m)
      ((addr (src ID0), addr ID0) := [], (addr (src ID1), addr ID1) := [], (addr (src ID2), addr ID2) := []) = no_messages"
    using assms(3) by (auto simp: sent_by_def no_messages_def fun_eq_iff)
  ultimately show ?thesis by simp
qed

lemma delivers_exchange:
  assumes "inj addr" "(to, src) = (next_id, prev_id) \<or> (to, src) = (prev_id, next_id)"
    and "\<And>i. P i = Send (addr (to i)) (m i) (Recv (addr (src i)) (k i))"
    and "delivers addr (\<lambda>i. k i (m (src i))) ys"
  shows "delivers addr P ys"
proof -
  have "net_steps addr (P, no_messages) (\<lambda>i. Recv (addr (src i)) (k i), sent_by addr to m)"
    by (rule everybody_sends [OF assms(1,3)])
  also have "net_steps addr \<dots> (\<lambda>i. k i (m (src i)), no_messages)"
    by (rule everybody_receives [OF assms(1) refl assms(2)])
  finally show ?thesis using assms(4) unfolding delivers_def by (rule rtranclp_trans)
qed

text \<open>Runs in a given order of moves.\<close>

fun run_schedule :: "(PartyID \<Rightarrow> Identity) \<Rightarrow> PartyID list \<Rightarrow> ('e, 'a) net \<Rightarrow> ('e, 'a) net option" where
  "run_schedule addr [] X = Some X"
| "run_schedule addr (i # sch) (P, C) =
     (case node_step (addr i) (P i) C of None \<Rightarrow> None | Some (p, C') \<Rightarrow> run_schedule addr sch (P(i := p), C'))"

lemma run_schedule_steps: "run_schedule addr sch X = Some Y \<Longrightarrow> net_steps addr X Y"
proof (induction addr sch X rule: run_schedule.induct)
  case (2 addr i sch P C)
  then obtain p C' where step: "node_step (addr i) (P i) C = Some (p, C')" "run_schedule addr sch (P(i := p), C') = Some Y"
    by (auto split: option.splits)
  from net_step_at [where i = i and P = P and addr = addr, OF step(1)] "2.IH" [OF step(1) refl step(2)] show ?case by (rule converse_rtranclp_into_rtranclp)
qed simp

lemma delivers_schedule:
  assumes "run_schedule addr sch (P, no_messages) = Some (Q, C)" "C = no_messages" "delivers addr Q ys"
  shows "delivers addr P ys"
  using run_schedule_steps [OF assms(1)] assms(2,3) unfolding delivers_def by (meson rtranclp_trans)

lemma delivers_broadcast:
  assumes "inj addr"
    and P: "\<And>i. P i = Send (addr (next_id i)) (m i) (Send (addr (prev_id i)) (m' i) (Recv (addr (prev_id i)) (c i)))"
    and c: "\<And>i. c i (m (prev_id i)) = Recv (addr (next_id i)) (k i)"
    and "delivers addr (\<lambda>i. k i (m' (next_id i))) ys"
  shows "delivers addr P ys"
proof (rule delivers_schedule [where sch = "[ID0, ID0, ID1, ID1, ID2, ID2, ID0, ID0, ID1, ID1, ID2, ID2]"])
  show "run_schedule addr [ID0, ID0, ID1, ID1, ID2, ID2, ID0, ID0, ID1, ID1, ID2, ID2] (P, no_messages)
    = Some (\<lambda>i. k i (m' (next_id i)), no_messages)"
    using c [of ID0] c [of ID1] c [of ID2]
    by (simp add: P no_messages_def inj_addr [OF assms(1)] PartyID_fun_eq fun_eq_iff [where 'a = "Identity \<times> Identity"])
qed (simp_all add: assms(4))

text \<open>Party \<open>k\<close> starts, and the message of every other party waits for the one before it.\<close>

lemma delivers_chain:
  assumes "inj addr" and start: "P k = Send (addr (next_id k)) (m k) (Recv (addr (prev_id k)) (c k))"
    and rest: "\<And>i. i \<noteq> k \<Longrightarrow> P i = Recv (addr (prev_id i)) (c i)"
    and reply: "\<And>i. i \<noteq> k \<Longrightarrow> c i (m (prev_id i)) = Send (addr (next_id i)) (m i) (q i)"
    and "delivers addr (q(k := c k (m (prev_id k)))) ys"
  shows "delivers addr P ys"
proof (rule delivers_schedule [where sch = "[k, next_id k, next_id k, prev_id k, prev_id k, k]"])
  show "run_schedule addr [k, next_id k, next_id k, prev_id k, prev_id k, k] (P, no_messages)
    = Some (q(k := c k (m (prev_id k))), no_messages)"
    using start rest reply [of "next_id k"] reply [of "prev_id k"]
    by (cases k) (simp_all add: no_messages_def inj_addr [OF assms(1)] PartyID_fun_eq fun_eq_iff [where 'a = "Identity \<times> Identity"])
qed (simp_all add: assms(5))

text \<open>Party \<open>k\<close> waits for the message of the party before it, the others send first.\<close>

lemma delivers_waiting:
  assumes "inj addr" and wait: "P k = Recv (addr (prev_id k)) (c k)"
    and reply: "c k (m (prev_id k)) = Send (addr (next_id k)) (m k) q"
    and rest: "\<And>i. i \<noteq> k \<Longrightarrow> P i = Send (addr (next_id i)) (m i) (Recv (addr (prev_id i)) (c i))"
    and "delivers addr ((\<lambda>i. c i (m (prev_id i)))(k := q)) ys"
  shows "delivers addr P ys"
proof (rule delivers_schedule [where sch = "[next_id k, prev_id k, k, k, next_id k, prev_id k]"])
  show "run_schedule addr [next_id k, prev_id k, k, k, next_id k, prev_id k] (P, no_messages)
    = Some ((\<lambda>i. c i (m (prev_id i)))(k := q), no_messages)"
    using wait rest reply
    by (cases k) (simp_all add: no_messages_def inj_addr [OF assms(1)] PartyID_fun_eq fun_eq_iff [where 'a = "Identity \<times> Identity"])
qed (simp_all add: assms(5))

end
