(* ===== verification/Session_Prf.thy ===== *)
theory Session_Prf
  imports Party_Network Net_Value
begin

text \<open>
  Roles (\<open>execution/player.rs\<close>), sessions (\<open>execution/session.rs\<close>), the in-memory network
  (\<open>network/mpc/local.rs\<close>) and the correlated randomness (\<open>protocol/prf.rs\<close>) of
  \<open>ampc-actor-utils/src\<close>. An operation of a party is a function of its session that sends and
  receives and returns a value with the new session, or stops with an error. The random
  generator is a library: its state is a type variable and its functions are the fields of
  a record. On top stands a small logic: \<open>computes\<close> says that three parties with linked
  sessions all finish, with results in a given relation and sessions linked again.
\<close>

section \<open>Roles\<close>

datatype Role = Role u8

definition role_new :: "nat \<Rightarrow> Role" where
  "role_new x = Role (of_nat x)"

fun role_index :: "Role \<Rightarrow> nat" where
  "role_index (Role x) = unat x"

text \<open>\<open>None\<close> is the panic of the overflow check and of the remainder by zero.\<close>

fun role_next :: "Role \<Rightarrow> u8 \<Rightarrow> Role option" where
  "role_next (Role x) num_players =
     (if x = - 1 \<or> num_players = 0 then None else Some (Role ((x + 1) mod num_players)))"

fun role_prev :: "Role \<Rightarrow> u8 \<Rightarrow> Role option" where
  "role_prev (Role x) num_players =
     (if x = 0 then (if num_players = 0 then None else Some (role_new (unat num_players - 1)))
      else Some (Role (x - 1)))"

section \<open>Operations of a party\<close>

text \<open>An error of the operation, of the wire format, a panic, or a local loop that does not end.\<close>

datatype proto_error = Bail string | WireError value_error | Panicked | Diverged

type_synonym ('s, 'a) comp = "'s \<Rightarrow> (proto_error, 'a \<times> 's) proto"

definition cret :: "'a \<Rightarrow> ('s, 'a) comp" where
  "cret x s = Ret (x, s)"

definition cstop :: "proto_error \<Rightarrow> ('s, 'a) comp" where
  "cstop e s = Stop e"

definition cbind :: "('s, 'a) comp \<Rightarrow> ('a \<Rightarrow> ('s, 'b) comp) \<Rightarrow> ('s, 'b) comp" where
  "cbind c f s = pbind (c s) (\<lambda>(x, s'). f x s')"

text \<open>The question mark operator on a result, and a value read from the session.\<close>

definition ctry :: "proto_error + 'a \<Rightarrow> ('s, 'a) comp" where
  "ctry r = (case r of Inl e \<Rightarrow> cstop e | Inr x \<Rightarrow> cret x)"

definition cread :: "('s \<Rightarrow> 'a) \<Rightarrow> ('s, 'a) comp" where
  "cread f s = Ret (f s, s)"

definition of_outcome :: "(value_error, 'a) outcome \<Rightarrow> proto_error + 'a" where
  "of_outcome r = (case r of Ok x \<Rightarrow> Inr x | Err e \<Rightarrow> Inl (WireError e) | Panic \<Rightarrow> Inl Panicked)"

definition of_bail :: "string + 'a \<Rightarrow> proto_error + 'a" where
  "of_bail r = (case r of Inl e \<Rightarrow> Inl (Bail e) | Inr x \<Rightarrow> Inr x)"

definition or_panic :: "'a option \<Rightarrow> proto_error + 'a" where
  "or_panic r = (case r of None \<Rightarrow> Inl Panicked | Some x \<Rightarrow> Inr x)"

lemma cbind_cret [simp]: "cbind (cret x) f = f x"
  by (simp add: cbind_def cret_def fun_eq_iff)

lemma cbind_cstop [simp]: "cbind (cstop e) f = cstop e"
  by (simp add: cbind_def cstop_def fun_eq_iff)

lemma cbind_assoc: "cbind (cbind c f) g = cbind c (\<lambda>x. cbind (f x) g)"
  unfolding cbind_def fun_eq_iff pbind_assoc by (simp add: split_def)

lemma ctry_simps [simp]: "ctry (Inl e) = cstop e" "ctry (Inr x) = cret x"
  by (simp_all add: ctry_def)

lemma result_simps [simp]:
  "of_outcome (Ok x) = Inr x" "of_outcome (Err e) = Inl (WireError e)" "of_outcome Panic = Inl Panicked"
  "of_bail (Inl m) = Inl (Bail m)" "of_bail (Inr x) = Inr x" "or_panic None = Inl Panicked" "or_panic (Some x) = Inr x"
  by (simp_all add: of_outcome_def of_bail_def or_panic_def)

section \<open>Network sessions\<close>

record network_session =
  session_id :: u32
  role_assignments :: "(Role \<times> Identity) list"
  own_role :: Role
  hosts :: "Identity list"
  owner :: Identity

definition own_identity :: "'z network_session_scheme \<Rightarrow> Identity option" where
  "own_identity self = map_of (role_assignments self) (own_role self)"

definition identity_of :: "'z network_session_scheme \<Rightarrow> Role \<Rightarrow> proto_error + Identity" where
  "identity_of self role =
     (case map_of (role_assignments self) role of
        Some i \<Rightarrow> Inr i | None \<Rightarrow> Inl (Bail ''Couldn't find role in role assignment map''))"

definition prev_identity :: "'z network_session_scheme \<Rightarrow> proto_error + Identity" where
  "prev_identity self =
     (case role_prev (own_role self) (of_nat (length (role_assignments self))) of
        None \<Rightarrow> Inl Panicked
      | Some prev_role \<Rightarrow>
        (case map_of (role_assignments self) prev_role of
           Some i \<Rightarrow> Inr i
         | None \<Rightarrow> Inl (Bail ''Couldn't find role in role assignment map for prev_identity'')))"

definition next_identity :: "'z network_session_scheme \<Rightarrow> proto_error + Identity" where
  "next_identity self =
     (case role_next (own_role self) (of_nat (length (role_assignments self))) of
        None \<Rightarrow> Inl Panicked
      | Some next_role \<Rightarrow>
        (case map_of (role_assignments self) next_role of
           Some i \<Rightarrow> Inr i
         | None \<Rightarrow> Inl (Bail ''Couldn't find role in role assignment map for next_identity'')))"

text \<open>\<open>LocalNetworkingStore::from_host_ids\<close> makes a channel for any two different hosts.\<close>

definition p2p_channel :: "Identity list \<Rightarrow> Identity \<times> Identity \<Rightarrow> bool" where
  "p2p_channel ids = (\<lambda>(v1, v2). v1 \<in> set ids \<and> v2 \<in> set ids \<and> v1 \<noteq> v2)"

definition net_send :: "NetworkValue \<Rightarrow> Identity \<Rightarrow> ('z network_session_scheme, unit) comp" where
  "net_send val receiver s =
     (case to_network val of
        Ok bs \<Rightarrow>
          if p2p_channel (hosts s) (owner s, receiver) then Send receiver bs (Ret ((), s))
          else Stop (Bail ''p2p channel retrieve error when sending'')
      | Err e \<Rightarrow> Stop (WireError e)
      | Panic \<Rightarrow> Stop Panicked)"

definition net_receive :: "Identity \<Rightarrow> ('z network_session_scheme, proto_error + NetworkValue) comp" where
  "net_receive sender s =
     (if p2p_channel (hosts s) (sender, owner s)
      then Recv sender (\<lambda>bs. case deserialize bs of
             Panic \<Rightarrow> Stop Panicked
           | r \<Rightarrow> Ret (of_outcome r, s))
      else Ret (Inl (Bail ''p2p channel retrieve error when receiving''), s))"

definition send_next :: "NetworkValue \<Rightarrow> ('z network_session_scheme, unit) comp" where
  "send_next v = cbind (cread next_identity) (\<lambda>r. cbind (ctry r) (net_send v))"

definition send_prev :: "NetworkValue \<Rightarrow> ('z network_session_scheme, unit) comp" where
  "send_prev v = cbind (cread prev_identity) (\<lambda>r. cbind (ctry r) (net_send v))"

text \<open>A receive returns a result: some callers replace its error by their own.\<close>

definition receive_via :: "proto_error + Identity \<Rightarrow> ('z network_session_scheme, proto_error + NetworkValue) comp" where
  "receive_via r = (case r of Inl e \<Rightarrow> cret (Inl e) | Inr sender \<Rightarrow> net_receive sender)"

definition receive_next :: "('z network_session_scheme, proto_error + NetworkValue) comp" where
  "receive_next = cbind (cread next_identity) receive_via"

definition receive_prev :: "('z network_session_scheme, proto_error + NetworkValue) comp" where
  "receive_prev = cbind (cread prev_identity) receive_via"

section \<open>Linked sessions\<close>

text \<open>
  The sessions of the three parties of one protocol: the same assignment of roles to
  different hosts, and the second generator of a party in the state of the first generator
  of the party before it.
\<close>

definition role_map :: "(PartyID \<Rightarrow> Identity) \<Rightarrow> (Role \<times> Identity) list" where
  "role_map addr = [(Role 0, addr ID0), (Role 1, addr ID1), (Role 2, addr ID2)]"

definition net_at :: "(PartyID \<Rightarrow> Identity) \<Rightarrow> u32 \<Rightarrow> PartyID \<Rightarrow> 'z network_session_scheme \<Rightarrow> bool" where
  "net_at addr sid i s \<longleftrightarrow> inj addr \<and> session_id s = sid \<and> role_assignments s = role_map addr
     \<and> own_role s = Role (u8_from_party i) \<and> hosts s = [addr ID0, addr ID1, addr ID2] \<and> owner s = addr i"

definition net_linked :: "(PartyID \<Rightarrow> Identity) \<Rightarrow> u32 \<Rightarrow> (PartyID \<Rightarrow> 'z network_session_scheme) \<Rightarrow> bool" where
  "net_linked addr sid S \<longleftrightarrow> (\<forall>i. net_at addr sid i (S i))"

lemma net_at_inj: "net_at addr sid i s \<Longrightarrow> inj addr"
  by (simp add: net_at_def)

lemma net_linked_at: "net_linked addr sid S \<Longrightarrow> net_at addr sid i (S i)"
  by (simp add: net_linked_def)

lemma net_linked_inj: "net_linked addr sid S \<Longrightarrow> inj addr"
  using net_linked_at net_at_inj by blast

lemma neighbour_identities:
  assumes "net_at addr sid i s"
  shows "next_identity s = Inr (addr (next_id i))" "prev_identity s = Inr (addr (prev_id i))"
    "identity_of s (Role (u8_from_party j)) = Inr (addr j)" "own_identity s = Some (addr i)"
proof -
  have s: "role_assignments s = role_map addr" "own_role s = Role (u8_from_party i)"
    using assms by (simp_all add: net_at_def)
  note defs = s role_map_def u8_from_party_def role_new_def
  show "next_identity s = Inr (addr (next_id i))" by (cases i) (simp_all add: next_identity_def defs)
  show "prev_identity s = Inr (addr (prev_id i))" by (cases i) (simp_all add: prev_identity_def defs)
  show "identity_of s (Role (u8_from_party j)) = Inr (addr j)" by (cases j) (simp_all add: identity_of_def defs)
  show "own_identity s = Some (addr i)" by (cases i) (simp_all add: own_identity_def defs)
qed

lemma linked_channel: "net_at addr sid k s \<Longrightarrow> i \<noteq> j \<Longrightarrow> p2p_channel (hosts s) (addr i, addr j)"
  by (cases i; cases j) (simp_all add: net_at_def p2p_channel_def inj_eq)

lemma next_prev_neq [simp]: "next_id i \<noteq> i" "prev_id i \<noteq> i" "i \<noteq> next_id i" "i \<noteq> prev_id i"
  by (cases i; simp)+

lemma sends_eq:
  assumes "net_at addr sid i s" "to_network v = Ok bs"
  shows "send_next v s = Send (addr (next_id i)) bs (Ret ((), s))"
    "send_prev v s = Send (addr (prev_id i)) bs (Ret ((), s))"
proof -
  have own: "owner s = addr i" using assms(1) by (simp add: net_at_def)
  show "send_next v s = Send (addr (next_id i)) bs (Ret ((), s))"
    "send_prev v s = Send (addr (prev_id i)) bs (Ret ((), s))"
    using linked_channel [OF assms(1), of i "next_id i"] linked_channel [OF assms(1), of i "prev_id i"]
    by (simp_all add: send_next_def send_prev_def cbind_def cread_def neighbour_identities [OF assms(1)] cret_def
        net_send_def assms(2) own)
qed

lemma receives_eq:
  assumes "net_at addr sid i s"
  shows "receive_prev s = Recv (addr (prev_id i)) (\<lambda>bs. case deserialize bs of Panic \<Rightarrow> Stop Panicked | r \<Rightarrow> Ret (of_outcome r, s))"
    "receive_next s = Recv (addr (next_id i)) (\<lambda>bs. case deserialize bs of Panic \<Rightarrow> Stop Panicked | r \<Rightarrow> Ret (of_outcome r, s))"
proof -
  have own: "owner s = addr i" using assms(1) by (simp add: net_at_def)
  show "receive_prev s = Recv (addr (prev_id i)) (\<lambda>bs. case deserialize bs of Panic \<Rightarrow> Stop Panicked | r \<Rightarrow> Ret (of_outcome r, s))"
    "receive_next s = Recv (addr (next_id i)) (\<lambda>bs. case deserialize bs of Panic \<Rightarrow> Stop Panicked | r \<Rightarrow> Ret (of_outcome r, s))"
    using linked_channel [OF assms(1), of "prev_id i" i] linked_channel [OF assms(1), of "next_id i" i]
    by (simp_all add: receive_prev_def receive_next_def receive_via_def cbind_def cread_def
        neighbour_identities [OF assms(1)] net_receive_def own)
qed

text \<open>A value as it arrives.\<close>

definition arrives :: "NetworkValue \<Rightarrow> NetworkValue \<Rightarrow> bool" where
  "arrives v w \<longleftrightarrow> (\<exists>bs. to_network v = Ok bs \<and> deserialize bs = Ok w)"

lemma delivers_send_next:
  assumes "net_linked addr sid S" "\<And>i. arrives (v i) (w i)"
    "delivers addr (\<lambda>i. f i (Inr (w (prev_id i))) (S i)) ys"
  shows "delivers addr (\<lambda>i. cbind (send_next (v i)) (\<lambda>_. cbind receive_prev (f i)) (S i)) ys"
proof -
  obtain bs where bs: "to_network (v i) = Ok (bs i)" "deserialize (bs i) = Ok (w i)" for i
    using assms(2) unfolding arrives_def by metis
  have inj: "inj addr" using assms(1) by (rule net_linked_inj)
  show ?thesis
    by (rule delivers_exchange [OF inj, where to = next_id and src = prev_id and m = bs
          and k = "\<lambda>i b. pbind (case deserialize b of Panic \<Rightarrow> Stop Panicked | r \<Rightarrow> Ret (of_outcome r, S i)) (\<lambda>(x, s'). f i x s')"])
      (simp_all add: cbind_def sends_eq [OF net_linked_at [OF assms(1)] bs(1)] receives_eq [OF net_linked_at [OF assms(1)]] bs(2) assms(3))
qed

lemma delivers_send_prev:
  assumes "net_linked addr sid S" "\<And>i. arrives (v i) (w i)"
    "delivers addr (\<lambda>i. f i (Inr (w (next_id i))) (S i)) ys"
  shows "delivers addr (\<lambda>i. cbind (send_prev (v i)) (\<lambda>_. cbind receive_next (f i)) (S i)) ys"
proof -
  obtain bs where bs: "to_network (v i) = Ok (bs i)" "deserialize (bs i) = Ok (w i)" for i
    using assms(2) unfolding arrives_def by metis
  have inj: "inj addr" using assms(1) by (rule net_linked_inj)
  show ?thesis
    by (rule delivers_exchange [OF inj, where to = prev_id and src = next_id and m = bs
          and k = "\<lambda>i b. pbind (case deserialize b of Panic \<Rightarrow> Stop Panicked | r \<Rightarrow> Ret (of_outcome r, S i)) (\<lambda>(x, s'). f i x s')"])
      (simp_all add: cbind_def sends_eq [OF net_linked_at [OF assms(1)] bs(1)] receives_eq [OF net_linked_at [OF assms(1)]] bs(2) assms(3))
qed

section \<open>Correlated randomness\<close>

text \<open>
  \<open>PrfRng\<close> with the functions used of it: \<open>from_seed\<close> (after the expansion of the key),
  filling a slice of a given length (the word written at each index, and the new state), and
  single draws.
\<close>

record 'r prf_rng =
  rng_from_seed :: "u8 list \<Rightarrow> 'r"
  rng_fill16 :: "nat \<Rightarrow> 'r \<Rightarrow> (nat \<Rightarrow> u16) \<times> 'r"
  rng_fill32 :: "nat \<Rightarrow> 'r \<Rightarrow> (nat \<Rightarrow> u32) \<times> 'r"
  rng_fill64 :: "nat \<Rightarrow> 'r \<Rightarrow> (nat \<Rightarrow> u64) \<times> 'r"
  rng_gen16 :: "'r \<Rightarrow> u16 \<times> 'r"
  rng_gen32 :: "'r \<Rightarrow> u32 \<times> 'r"
  rng_gen64 :: "'r \<Rightarrow> u64 \<times> 'r"

definition fill_slice :: "(nat \<Rightarrow> 'r \<Rightarrow> (nat \<Rightarrow> 'w) \<times> 'r) \<Rightarrow> nat \<Rightarrow> 'r \<Rightarrow> 'w list \<times> 'r" where
  "fill_slice g len r = (let (w, r') = g len r in (map w [0..<len], r'))"

lemma length_fill_slice [simp]: "length (fst (fill_slice g n r)) = n"
  by (simp add: fill_slice_def split_def Let_def)

record 'r session = network_session +
  my_prf :: 'r
  prev_prf :: 'r

definition prf_new :: "'r prf_rng \<Rightarrow> u8 list \<Rightarrow> u8 list \<Rightarrow> 'r \<times> 'r" where
  "prf_new G my_key prev_key = (rng_from_seed G my_key, rng_from_seed G prev_key)"

text \<open>Session of a party from its network session and the pair of generators.\<close>

definition session_of :: "network_session \<Rightarrow> 'r \<times> 'r \<Rightarrow> 'r session" where
  "session_of s prf = network_session.extend s \<lparr>my_prf = fst prf, prev_prf = snd prf\<rparr>"

text \<open>A draw of the party's own generator or of the one it shares with the previous party.\<close>

definition draw_mine :: "('r \<Rightarrow> 'a \<times> 'r) \<Rightarrow> ('r session, 'a) comp" where
  "draw_mine g s = (let (x, r) = g (my_prf s) in Ret (x, s\<lparr>my_prf := r\<rparr>))"

definition draw_prev :: "('r \<Rightarrow> 'a \<times> 'r) \<Rightarrow> ('r session, 'a) comp" where
  "draw_prev g s = (let (x, r) = g (prev_prf s) in Ret (x, s\<lparr>prev_prf := r\<rparr>))"

definition linked :: "(PartyID \<Rightarrow> Identity) \<Rightarrow> u32 \<Rightarrow> (PartyID \<Rightarrow> 'r session) \<Rightarrow> bool" where
  "linked addr sid S \<longleftrightarrow> net_linked addr sid S \<and> (\<forall>i. prev_prf (S (next_id i)) = my_prf (S i))"

section \<open>A logic of three-party computations\<close>

definition computes :: "(PartyID \<Rightarrow> Identity) \<Rightarrow> u32 \<Rightarrow> (PartyID \<Rightarrow> ('r session, 'a) comp)
    \<Rightarrow> ((PartyID \<Rightarrow> 'a) \<Rightarrow> bool) \<Rightarrow> bool" where
  "computes addr sid C Q \<longleftrightarrow> (\<forall>S. linked addr sid S \<longrightarrow>
     (\<exists>r S'. delivers addr (\<lambda>i. C i (S i)) (\<lambda>i. (r i, S' i)) \<and> linked addr sid S' \<and> Q r))"

lemma computes_cret: "Q r \<Longrightarrow> computes addr sid (\<lambda>i. cret (r i)) Q"
  unfolding computes_def cret_def using delivers_Ret [of addr "\<lambda>i. (r i, _ i)"] by blast

lemma computes_weaken: "computes addr sid C Q \<Longrightarrow> (\<And>r. Q r \<Longrightarrow> Q' r) \<Longrightarrow> computes addr sid C Q'"
  unfolding computes_def by blast

lemma computes_cbind:
  fixes C :: "PartyID \<Rightarrow> ('r session, 'a) comp"
  assumes "computes addr sid C Q" "\<And>r. Q r \<Longrightarrow> computes addr sid (\<lambda>i. F i (r i)) Q'"
  shows "computes addr sid (\<lambda>i. cbind (C i) (F i)) Q'"
  unfolding computes_def
proof (intro allI impI)
  fix S :: "PartyID \<Rightarrow> 'r session" assume S: "linked addr sid S"
  obtain r S1 where r: "delivers addr (\<lambda>i. C i (S i)) (\<lambda>i. (r i, S1 i))" "linked addr sid S1" "Q r"
    using assms(1) S unfolding computes_def by blast
  obtain q S2 where q: "delivers addr (\<lambda>i. F i (r i) (S1 i)) (\<lambda>i. (q i, S2 i))" "linked addr sid S2" "Q' q"
    using assms(2) [OF r(3)] r(2) unfolding computes_def by blast
  have "delivers addr (\<lambda>i. pbind (C i (S i)) (\<lambda>(x, s'). F i x s')) (\<lambda>i. (q i, S2 i))"
    by (rule delivers_bind [OF r(1)]) (simp add: q(1))
  then show "\<exists>r S'. delivers addr (\<lambda>i. cbind (C i) (F i) (S i)) (\<lambda>i. (r i, S' i)) \<and> linked addr sid S' \<and> Q' r"
    unfolding cbind_def using q(2,3) by blast
qed

lemma computes_send_next:
  fixes f :: "PartyID \<Rightarrow> proto_error + NetworkValue \<Rightarrow> ('r session, 'a) comp"
  assumes "\<And>i. arrives (v i) (w i)" "computes addr sid (\<lambda>i. f i (Inr (w (prev_id i)))) Q"
  shows "computes addr sid (\<lambda>i. cbind (send_next (v i)) (\<lambda>_. cbind receive_prev (f i))) Q"
  unfolding computes_def
proof (intro allI impI)
  fix S :: "PartyID \<Rightarrow> 'r session" assume S: "linked addr sid S"
  then obtain r S' where r: "delivers addr (\<lambda>i. f i (Inr (w (prev_id i))) (S i)) (\<lambda>i. (r i, S' i))" "linked addr sid S'" "Q r"
    using assms(2) unfolding computes_def by blast
  have "net_linked addr sid S" using S by (simp add: linked_def)
  from delivers_send_next [where v = v and w = w and f = f and S = S, OF this assms(1) r(1)] r(2,3) show "\<exists>r S'. delivers addr (\<lambda>i. cbind (send_next (v i)) (\<lambda>_. cbind receive_prev (f i)) (S i)) (\<lambda>i. (r i, S' i)) \<and> linked addr sid S' \<and> Q r"
    by blast
qed

lemma computes_read_session_id:
  assumes "computes addr sid (\<lambda>i. f i sid) Q"
  shows "computes addr sid (\<lambda>i. cbind (cread session_id) (f i)) Q"
  using assms unfolding computes_def by (auto simp: cbind_def cread_def linked_def net_linked_def net_at_def)

lemma computes_read_role:
  assumes "computes addr sid (\<lambda>i. f i (Role (u8_from_party i))) Q"
  shows "computes addr sid (\<lambda>i. cbind (cread own_role) (f i)) Q"
  using assms unfolding computes_def by (auto simp: cbind_def cread_def linked_def net_linked_def net_at_def)

lemma role_index_party [simp]: "role_index (Role (u8_from_party i)) = usize_from_party i"
  by (cases i) (simp_all add: u8_from_party_def)

text \<open>
  Drawing from both generators keeps the sessions linked, in either order: what a party draws
  from its second generator is what the previous party draws from its first.
\<close>

lemma linked_draws:
  assumes "linked addr sid S"
  shows "linked addr sid (\<lambda>i. S i\<lparr>my_prf := snd (g (my_prf (S i))), prev_prf := snd (g (prev_prf (S i)))\<rparr>)"
  using assms unfolding linked_def net_linked_def net_at_def by simp

lemma prev_prf_linked: "linked addr sid S \<Longrightarrow> prev_prf (S i) = my_prf (S (prev_id i))"
  unfolding linked_def by (metis next_prev(1))

lemma draws_eq:
  "cbind (draw_mine g) (\<lambda>x. cbind (draw_prev g) (f x)) s =
     f (fst (g (my_prf s))) (fst (g (prev_prf s))) (s\<lparr>my_prf := snd (g (my_prf s)), prev_prf := snd (g (prev_prf s))\<rparr>)"
  by (simp add: cbind_def draw_mine_def draw_prev_def split_def Let_def)

lemma computes_draws:
  fixes g :: "'r \<Rightarrow> 'b \<times> 'r"
  assumes "\<And>x. (\<And>i. \<exists>r. x i = fst (g r)) \<Longrightarrow> computes addr sid (\<lambda>i. f i (x i) (x (prev_id i))) Q"
  shows "computes addr sid (\<lambda>i. cbind (draw_mine g) (\<lambda>x. cbind (draw_prev g) (f i x))) Q"
  unfolding computes_def
proof (intro allI impI)
  fix S :: "PartyID \<Rightarrow> 'r session" assume S: "linked addr sid S"
  let ?x = "\<lambda>i. fst (g (my_prf (S i)))"
  have "computes addr sid (\<lambda>i. f i (?x i) (?x (prev_id i))) Q" by (rule assms) blast
  with linked_draws [OF S, of g] show "\<exists>r S'. delivers addr (\<lambda>i. cbind (draw_mine g) (\<lambda>x. cbind (draw_prev g) (f i x)) (S i))
      (\<lambda>i. (r i, S' i)) \<and> linked addr sid S' \<and> Q r"
    unfolding draws_eq computes_def prev_prf_linked [OF S] by blast
qed

text \<open>
  A computation finishes with its results under every schedule, and cannot run forever.
\<close>

definition always_finishes :: "(PartyID \<Rightarrow> Identity) \<Rightarrow> ('e, 'a) nodes \<Rightarrow> ((PartyID \<Rightarrow> 'a) \<Rightarrow> bool) \<Rightarrow> bool" where
  "always_finishes addr P Q \<longleftrightarrow> (\<exists>r n. Q r \<and> (\<forall>k X. (net_step addr ^^ k) (P, no_messages) X \<longrightarrow>
     k \<le> n \<and> net_steps addr X (\<lambda>i. Ret (r i), no_messages)))"

lemma always_finishes_weaken: "always_finishes addr P Q \<Longrightarrow> (\<And>r. Q r \<Longrightarrow> Q' r) \<Longrightarrow> always_finishes addr P Q'"
  unfolding always_finishes_def by blast

lemma computes_always_finishes:
  assumes "computes addr sid C Q" "linked addr sid S"
  shows "always_finishes addr (\<lambda>i. C i (S i)) (\<lambda>r. Q (\<lambda>i. fst (r i)) \<and> linked addr sid (\<lambda>i. snd (r i)))"
proof -
  obtain r S' where r: "delivers addr (\<lambda>i. C i (S i)) (\<lambda>i. (r i, S' i))" "linked addr sid S'" "Q r"
    using assms unfolding computes_def by blast
  have "inj addr" using assms(2) net_linked_inj by (auto simp: linked_def)
  from delivers_any_schedule [OF this r(1)] show ?thesis
    unfolding always_finishes_def using r(2,3) by (intro exI [of _ "\<lambda>i. (r i, S' i)"]) simp
qed

section \<open>A concrete setting\<close>

text \<open>Three hosts and a counter as random generator.\<close>

definition demo_addr :: "PartyID \<Rightarrow> Identity" where
  "demo_addr i = (case i of ID0 \<Rightarrow> ''alice'' | ID1 \<Rightarrow> ''bob'' | ID2 \<Rightarrow> ''charlie'')"

definition demo_rng :: "nat prf_rng" where
  "demo_rng = \<lparr>rng_from_seed = (\<lambda>bs. sum_list (map unat bs)),
     rng_fill16 = (\<lambda>n r. (\<lambda>k. of_nat (40503 * (r + k)), r + n)), rng_fill32 = (\<lambda>n r. (\<lambda>k. of_nat (40503 * (r + k)), r + n)),
     rng_fill64 = (\<lambda>n r. (\<lambda>k. of_nat (40503 * (r + k)), r + n)),
     rng_gen16 = (\<lambda>r. (of_nat r, Suc r)), rng_gen32 = (\<lambda>r. (of_nat r, Suc r)), rng_gen64 = (\<lambda>r. (of_nat r, Suc r))\<rparr>"

definition demo_net :: "PartyID \<Rightarrow> network_session" where
  "demo_net i = \<lparr>session_id = 7, role_assignments = role_map demo_addr, own_role = Role (u8_from_party i),
     hosts = [demo_addr ID0, demo_addr ID1, demo_addr ID2], owner = demo_addr i\<rparr>"

definition demo_session :: "PartyID \<Rightarrow> nat session" where
  "demo_session i = session_of (demo_net i) (1000 * usize_from_party i, 1000 * usize_from_party (prev_id i))"

lemma inj_demo: "inj demo_addr"
  by (rule injI) (auto simp: demo_addr_def split: PartyID.splits)

lemma demo_net_linked: "net_linked demo_addr 7 demo_net"
  using inj_demo by (simp add: net_linked_def net_at_def demo_net_def)

lemma demo_linked: "linked demo_addr 7 demo_session"
  using inj_demo
  by (auto simp: linked_def net_linked_def net_at_def demo_session_def session_of_def network_session.defs demo_net_def)

end
