(* ===== verification/Network_Int.thy ===== *)
theory Network_Int
  imports Session_Prf
begin

text \<open>
  The trait \<open>NetworkInt\<close> with \<open>RingRandFillable\<close>
  (\<open>network/mpc/value.rs\<close>, \<open>shares/ring_impl.rs\<close>) as a dictionary, and the session operations
  that are generic in it: random vectors (\<open>protocol/prf.rs\<close>) and ring vectors on the network
  (\<open>execution/session.rs\<close>). The locale \<open>network_int\<close> states what protocols rely on: the ring
  laws, random vectors of the asked length, and vectors that arrive as they were sent. The
  four instances of the code interpret it.
\<close>

section \<open>The dictionary\<close>

record ('r, 'a) net_int =
  ni_ring :: "'a int_ring2k"
  ni_layout :: "'a layout"
  new_network_element :: "'a RingElement \<Rightarrow> NetworkValue"
  new_network_vec :: "'a RingElement list \<Rightarrow> NetworkValue"
  into_vec :: "NetworkValue \<Rightarrow> (value_error, 'a RingElement list) outcome"
  vec_descriptor_byte :: u8
  fill_vec_ring :: "nat \<Rightarrow> 'r \<Rightarrow> 'a list \<times> 'r"
  gen_elem :: "'r \<Rightarrow> 'a \<times> 'r"

definition net_u16 :: "'r prf_rng \<Rightarrow> ('r, u16) net_int" where
  "net_u16 G = \<lparr>ni_ring = word_ring, ni_layout = word_layout, new_network_element = RingElement16,
     new_network_vec = VecRing16, into_vec = into_vec16, vec_descriptor_byte = descriptor_into_u8 D_VecRing16,
     fill_vec_ring = fill_slice (rng_fill16 G), gen_elem = rng_gen16 G\<rparr>"

definition net_u32 :: "'r prf_rng \<Rightarrow> ('r, u32) net_int" where
  "net_u32 G = \<lparr>ni_ring = word_ring, ni_layout = word_layout, new_network_element = RingElement32,
     new_network_vec = VecRing32, into_vec = into_vec32, vec_descriptor_byte = descriptor_into_u8 D_VecRing32,
     fill_vec_ring = fill_slice (rng_fill32 G), gen_elem = rng_gen32 G\<rparr>"

definition net_u64 :: "'r prf_rng \<Rightarrow> ('r, u64) net_int" where
  "net_u64 G = \<lparr>ni_ring = word_ring, ni_layout = word_layout, new_network_element = RingElement64,
     new_network_vec = VecRing64, into_vec = into_vec64, vec_descriptor_byte = descriptor_into_u8 D_VecRing64,
     fill_vec_ring = fill_slice (rng_fill64 G), gen_elem = rng_gen64 G\<rparr>"

text \<open>Ring48 draws 64-bit words and masks them.\<close>

definition ring48_fill :: "'r prf_rng \<Rightarrow> nat \<Rightarrow> 'r \<Rightarrow> Ring48 list \<times> 'r" where
  "ring48_fill G n r =
     (let (raw, r') = fill_slice (rng_fill64 G) n r
      in (case ring48_fill_vec_ring (replicate n (Ring48 0)) (\<lambda>_. Some raw) of
            Some xs \<Rightarrow> (xs, r') | None \<Rightarrow> ([], r')))"

definition ring48_gen :: "'r prf_rng \<Rightarrow> 'r \<Rightarrow> Ring48 \<times> 'r" where
  "ring48_gen G r = (let (w, r') = rng_gen64 G r in (ring48_sample w, r'))"

definition net_ring48 :: "'r prf_rng \<Rightarrow> ('r, Ring48) net_int" where
  "net_ring48 G = \<lparr>ni_ring = ring48_ring, ni_layout = ring48_layout, new_network_element = RingElement48,
     new_network_vec = VecRing48, into_vec = into_vec48, vec_descriptor_byte = descriptor_into_u8 D_VecRing48,
     fill_vec_ring = ring48_fill G, gen_elem = ring48_gen G\<rparr>"

section \<open>Random vectors\<close>

definition fill_vre :: "('r, 'a) net_int \<Rightarrow> nat \<Rightarrow> 'r \<Rightarrow> 'a VecRingElement \<times> 'r" where
  "fill_vre N len r = (let (xs, r') = fill_vec_ring N len r in (VecRingElement (map RingElement xs), r'))"

definition gen_rands_mine :: "('r, 'a) net_int \<Rightarrow> nat \<Rightarrow> ('r session, 'a VecRingElement) comp" where
  "gen_rands_mine N len = draw_mine (fill_vre N len)"

definition gen_rands_prev :: "('r, 'a) net_int \<Rightarrow> nat \<Rightarrow> ('r session, 'a VecRingElement) comp" where
  "gen_rands_prev N len = draw_prev (fill_vre N len)"

definition gen_rands_batch :: "('r, 'a) net_int \<Rightarrow> nat \<Rightarrow> ('r session, 'a VecRingElement \<times> 'a VecRingElement) comp" where
  "gen_rands_batch N len =
     cbind (gen_rands_mine N len) (\<lambda>mine. cbind (gen_rands_prev N len) (\<lambda>prev. cret (mine, prev)))"

definition gen_re :: "('r, 'a) net_int \<Rightarrow> 'r \<Rightarrow> 'a RingElement \<times> 'r" where
  "gen_re N r = (let (x, r') = gen_elem N r in (RingElement x, r'))"

definition gen_rands :: "('r, 'a) net_int \<Rightarrow> ('r session, 'a RingElement \<times> 'a RingElement) comp" where
  "gen_rands N = cbind (draw_mine (gen_re N)) (\<lambda>a. cbind (draw_prev (gen_re N)) (\<lambda>b. cret (a, b)))"

definition gen_zero_share :: "('r, 'a) net_int \<Rightarrow> ('r session, 'a RingElement) comp" where
  "gen_zero_share N = cbind (gen_rands N) (\<lambda>(a, b). cret (re_sub (ni_ring N) a b))"

definition gen_binary_zero_share :: "('r, 'a) net_int \<Rightarrow> ('r session, 'a RingElement) comp" where
  "gen_binary_zero_share N = cbind (gen_rands N) (\<lambda>(a, b). cret (re_xor (ni_ring N) a b))"

section \<open>Ring vectors on the network\<close>

text \<open>A single element has its own message; other vectors are framed here.\<close>

definition ring_vec_message :: "('r, 'a) net_int \<Rightarrow> 'a VecRingElement \<Rightarrow> NetworkValue" where
  "ring_vec_message N data =
     (if vre_len data = 1 then new_network_element N (elements data ! 0)
      else PreFramed (serialize_vec_ring (ni_ring N) (ni_layout N) (elements data) [vec_descriptor_byte N]))"

definition send_ring_vec_next :: "('r, 'a) net_int \<Rightarrow> 'a VecRingElement \<Rightarrow> ('z network_session_scheme, unit) comp" where
  "send_ring_vec_next N data = cbind (cread next_identity) (\<lambda>r. cbind (ctry r) (net_send (ring_vec_message N data)))"

definition send_ring_vec_prev :: "('r, 'a) net_int \<Rightarrow> 'a VecRingElement \<Rightarrow> ('z network_session_scheme, unit) comp" where
  "send_ring_vec_prev N data = cbind (cread prev_identity) (\<lambda>r. cbind (ctry r) (net_send (ring_vec_message N data)))"

definition ring_vec_received :: "('r, 'a) net_int \<Rightarrow> proto_error + NetworkValue \<Rightarrow> ('z, 'a VecRingElement) comp" where
  "ring_vec_received N m =
     cbind (ctry m) (\<lambda>v. cbind (ctry (of_outcome (into_vec N v))) (\<lambda>xs. cret (VecRingElement xs)))"

definition receive_ring_vec_next :: "('r, 'a) net_int \<Rightarrow> ('z network_session_scheme, 'a VecRingElement) comp" where
  "receive_ring_vec_next N = cbind receive_next (ring_vec_received N)"

definition receive_ring_vec_prev :: "('r, 'a) net_int \<Rightarrow> ('z network_session_scheme, 'a VecRingElement) comp" where
  "receive_ring_vec_prev N = cbind receive_prev (ring_vec_received N)"

lemma send_ring_vec_next_eq: "send_ring_vec_next N data = send_next (ring_vec_message N data)"
  by (simp add: send_ring_vec_next_def send_next_def)

lemma send_ring_vec_prev_eq: "send_ring_vec_prev N data = send_prev (ring_vec_message N data)"
  by (simp add: send_ring_vec_prev_def send_prev_def)

section \<open>The contract\<close>

text \<open>Vectors of fewer than \<open>2 ^ 29\<close> elements of at most eight bytes fit the length field.\<close>

definition MAX_LEN :: nat where
  "MAX_LEN = 2 ^ 29"

locale network_int = int_ring2k_laws "ni_ring N" wf val
  for N :: "('r, 'a) net_int" and wf :: "'a \<Rightarrow> bool" and val :: "'a \<Rightarrow> int" +
  assumes fill_length: "length (fst (fill_vec_ring N n r)) = n"
    and fill_wf: "x \<in> set (fst (fill_vec_ring N n r)) \<Longrightarrow> wf x"
    and gen_wf: "wf (fst (gen_elem N r))"
    and vec_arrives: "\<forall>e \<in> set v. wf (convert e) \<Longrightarrow> length v < MAX_LEN \<Longrightarrow>
      arrives (new_network_vec N v) (new_network_vec N v)"
    and framed_arrives: "\<forall>e \<in> set v. wf (convert e) \<Longrightarrow> length v < MAX_LEN \<Longrightarrow>
      arrives (PreFramed (serialize_vec_ring (ni_ring N) (ni_layout N) v [vec_descriptor_byte N])) (new_network_vec N v)"
    and element_arrives: "wf (convert e) \<Longrightarrow> arrives (new_network_element N e) (new_network_element N e)"
    and into_vec_vec: "into_vec N (new_network_vec N v) = Ok v"
    and into_vec_element: "into_vec N (new_network_element N e) = Ok [e]"
begin

abbreviation wfs :: "'a RingElement list \<Rightarrow> bool" where
  "wfs v \<equiv> \<forall>x \<in> set v. wf (convert x)"

lemma ring_vec_arrives:
  assumes "wfs (elements v)" "length (elements v) < MAX_LEN"
  obtains w where "arrives (ring_vec_message N v) w" "into_vec N w = Ok (elements v)"
proof (cases "vre_len v = 1")
  case True
  then obtain x where x: "elements v = [x]" by (auto simp: vre_len_def length_Suc_conv)
  then have "wf (convert x)" using assms by simp
  then show ?thesis
    using that [of "new_network_element N x"] element_arrives x True into_vec_element
    by (simp add: ring_vec_message_def)
next
  case False
  then show ?thesis
    using that [of "new_network_vec N (elements v)"] framed_arrives [OF assms] into_vec_vec
    by (simp add: ring_vec_message_def)
qed

text \<open>One round: everybody sends a vector to the next party and gets the one of the previous.\<close>

lemma computes_round:
  fixes f :: "PartyID \<Rightarrow> 'a VecRingElement \<Rightarrow> ('r session, 'b) comp"
  assumes "\<And>i. wfs (elements (v i))" "\<And>i. length (elements (v i)) < MAX_LEN"
    "computes addr sid (\<lambda>i. f i (v (prev_id i))) Q"
  shows "computes addr sid (\<lambda>i. cbind (send_ring_vec_next N (v i)) (\<lambda>_. cbind (receive_ring_vec_prev N) (f i))) Q"
proof -
  have "\<exists>w. arrives (ring_vec_message N (v i)) w \<and> into_vec N w = Ok (elements (v i))" for i
    using ring_vec_arrives [OF assms(1,2)] by blast
  then obtain w where w: "arrives (ring_vec_message N (v i)) (w i)" "into_vec N (w i) = Ok (elements (v i))" for i
    by metis
  show ?thesis
    unfolding send_ring_vec_next_eq receive_ring_vec_prev_def cbind_assoc
    by (rule computes_send_next [where w = w, OF w(1)]) (simp add: ring_vec_received_def w(2) assms(3))
qed

lemma computes_rands:
  fixes f :: "PartyID \<Rightarrow> 'a VecRingElement \<times> 'a VecRingElement \<Rightarrow> ('r session, 'b) comp"
  assumes "\<And>x. (\<And>i. length (elements (x i)) = n) \<Longrightarrow> (\<And>i. wfs (elements (x i))) \<Longrightarrow>
    computes addr sid (\<lambda>i. f i (x i, x (prev_id i))) Q"
  shows "computes addr sid (\<lambda>i. cbind (gen_rands_batch N n) (f i)) Q"
  unfolding gen_rands_batch_def gen_rands_mine_def gen_rands_prev_def cbind_assoc cbind_cret
proof (rule computes_draws)
  fix x :: "PartyID \<Rightarrow> 'a VecRingElement" assume x: "\<exists>r. x i = fst (fill_vre N n r)" for i
  show "computes addr sid (\<lambda>i. f i (x i, x (prev_id i))) Q"
  proof (rule assms)
    fix i
    obtain r where "x i = fst (fill_vre N n r)" using x by blast
    then have "x i = VecRingElement (map RingElement (fst (fill_vec_ring N n r)))"
      by (simp add: fill_vre_def split_def Let_def)
    then show "length (elements (x i)) = n" "wfs (elements (x i))"
      using fill_length fill_wf by auto
  qed
qed

end

lemma plain_arrives: "plain_wf v \<Longrightarrow> arrives v v"
  using plain_round_trip by (auto simp: arrives_def)

text \<open>A framed vector is byte for byte the message of the vector.\<close>

lemma framed_to_network:
  "to_network (PreFramed (serialize_vec_ring word_ring word_layout v16 [descriptor_into_u8 D_VecRing16])) = to_network (VecRing16 v16)"
  "to_network (PreFramed (serialize_vec_ring word_ring word_layout v32 [descriptor_into_u8 D_VecRing32])) = to_network (VecRing32 v32)"
  "to_network (PreFramed (serialize_vec_ring word_ring word_layout v64 [descriptor_into_u8 D_VecRing64])) = to_network (VecRing64 v64)"
  "to_network (PreFramed (serialize_vec_ring ring48_ring ring48_layout v48 [descriptor_into_u8 D_VecRing48])) = to_network (VecRing48 v48)"
  by (simp_all add: to_network_def serialize_def serialize_internal_def)

lemmas net_defs = net_u16_def net_u32_def net_u64_def net_ring48_def
lemmas into_vec_simps = into_vec16.simps into_vec32.simps into_vec64.simps into_vec48.simps


lemma ni_ring_simps [simp]:
  "ni_ring (net_u16 G) = word_ring" "ni_ring (net_u32 G) = word_ring" "ni_ring (net_u64 G) = word_ring"
  "ni_ring (net_ring48 G) = ring48_ring"
  by (simp_all add: net_defs)

lemma ring48_random_wf:
  "x \<in> set (fst (ring48_fill G n r)) \<Longrightarrow> wf48 x" "length (fst (ring48_fill G n r)) = n" "wf48 (fst (ring48_gen G r))"
  by (auto simp: ring48_fill_def ring48_gen_def ring48_fill_vec_ring_def ring48_sample_def split_def Let_def)

lemma arrives_framed: "arrives v w \<Longrightarrow> to_network u = to_network v \<Longrightarrow> arrives u w"
  by (simp add: arrives_def)

interpretation net16: network_int "net_u16 G" "\<lambda>_. True" uint for G
proof (rule network_int.intro)
  show "int_ring2k_laws (ni_ring (net_u16 G)) (\<lambda>_. True) uint" using word.int_ring2k_laws_axioms by simp
  show "network_int_axioms (net_u16 G) (\<lambda>_. True)"
    by (unfold_locales)
      (auto simp: net_u16_def into_vec_simps MAX_LEN_def intro!: plain_arrives arrives_framed [OF plain_arrives] framed_to_network)
qed

interpretation net32: network_int "net_u32 G" "\<lambda>_. True" uint for G
proof (rule network_int.intro)
  show "int_ring2k_laws (ni_ring (net_u32 G)) (\<lambda>_. True) uint" using word.int_ring2k_laws_axioms by simp
  show "network_int_axioms (net_u32 G) (\<lambda>_. True)"
    by (unfold_locales)
      (auto simp: net_u32_def into_vec_simps MAX_LEN_def intro!: plain_arrives arrives_framed [OF plain_arrives] framed_to_network)
qed

interpretation net64: network_int "net_u64 G" "\<lambda>_. True" uint for G
proof (rule network_int.intro)
  show "int_ring2k_laws (ni_ring (net_u64 G)) (\<lambda>_. True) uint" using word.int_ring2k_laws_axioms by simp
  show "network_int_axioms (net_u64 G) (\<lambda>_. True)"
    by (unfold_locales)
      (auto simp: net_u64_def into_vec_simps MAX_LEN_def intro!: plain_arrives arrives_framed [OF plain_arrives] framed_to_network)
qed

interpretation net48: network_int "net_ring48 G" wf48 val48 for G
proof (rule network_int.intro)
  show "int_ring2k_laws (ni_ring (net_ring48 G)) wf48 val48" using ring48.int_ring2k_laws_axioms by simp
  show "network_int_axioms (net_ring48 G) wf48"
    by (unfold_locales)
      (auto simp: net_ring48_def into_vec_simps MAX_LEN_def ring48_random_wf
        intro!: plain_arrives arrives_framed [OF plain_arrives] framed_to_network)
qed

end
