(* ===== verification/Reshare.thy ===== *)
theory Reshare
  imports Network_Int Share
begin

text \<open>
  The multiplication round of the replicated protocol and the operations built directly on
  it (\<open>ampc-actor-utils/src/protocol/ops.rs\<close>): key setup, resharing of local products,
  conversion of Galois ring products, opening. Each is proved in every
  ring of the contract \<open>network_int\<close>: with linked sessions all parties finish and hold the
  shares of the intended values.
\<close>

section \<open>Key setup\<close>

text \<open>\<open>setup_replicated_prf\<close> works on the network session, before there are generators.\<close>

definition setup_replicated_prf :: "'r prf_rng \<Rightarrow> u8 list \<Rightarrow> (network_session, 'r \<times> 'r) comp" where
  "setup_replicated_prf G my_seed =
     cbind (send_next (PrfKey my_seed)) (\<lambda>_.
     cbind receive_prev (\<lambda>m.
       case m of
         Inr (PrfKey other_seed) \<Rightarrow> cret (prf_new G my_seed other_seed)
       | _ \<Rightarrow> cstop (Bail ''Could not deserialize PrfKey'')))"

definition decode_seed :: "proto_error + NetworkValue \<Rightarrow> proto_error + u8 list" where
  "decode_seed msg = (case msg of Inr (PrfKey seed) \<Rightarrow> Inr seed | _ \<Rightarrow> Inl (Bail ''Could not deserialize PrfKey''))"

definition setup_shared_seed :: "u8 list \<Rightarrow> ('z network_session_scheme, u8 list) comp" where
  "setup_shared_seed my_seed =
     cbind (send_next (PrfKey my_seed)) (\<lambda>_.
     cbind receive_prev (\<lambda>m.
     cbind (ctry (decode_seed m)) (\<lambda>prev_seed.
     cbind (send_prev (PrfKey my_seed)) (\<lambda>_.
     cbind receive_next (\<lambda>m.
     cbind (ctry (decode_seed m)) (\<lambda>next_seed.
       cret (map (\<lambda>k. my_seed ! k XOR prev_seed ! k XOR next_seed ! k) [0..<PRF_KEY_SIZE])))))))"

section \<open>Resharing\<close>

definition reshare_products :: "('r, 'a) net_int \<Rightarrow> nat \<Rightarrow> (nat \<Rightarrow> 'a RingElement) \<Rightarrow> ('r session, 'a share list) comp" where
  "reshare_products N n expr =
     cbind (gen_rands_batch N n) (\<lambda>(prf_my, prf_prev).
       let round_a = map (\<lambda>(i, my_r, prev_r). re_add (ni_ring N) (re_sub (ni_ring N) my_r prev_r) (expr i))
             (enumerate 0 (zip (elements prf_my) (elements prf_prev)))
       in cbind (send_next (new_network_vec N round_a)) (\<lambda>_.
          cbind receive_prev (\<lambda>m.
          cbind (ctry m) (\<lambda>v.
          cbind (ctry (of_outcome (into_vec N v))) (\<lambda>round_b.
            cret (map (\<lambda>(a, b). share_new a b) (zip round_a round_b)))))))"

definition galois_ring_to_rep3_components ::
  "('r, u16) net_int \<Rightarrow> u16 RingElement list \<Rightarrow> ('r session, u16 RingElement list \<times> u16 RingElement list) comp" where
  "galois_ring_to_rep3_components N items =
     cbind (gen_rands_batch N (length items)) (\<lambda>(prf_my, prf_prev).
       let masked_items = map (\<lambda>(x, a, b). re_add (ni_ring N) (re_sub (ni_ring N) a b) x)
             (zip items (zip (elements prf_my) (elements prf_prev)))
       in cbind (send_next (VecRing16 masked_items)) (\<lambda>_.
          cbind receive_prev (\<lambda>m.
            case m of
              Inr (VecRing16 message) \<Rightarrow> cret (masked_items, message)
            | _ \<Rightarrow> cstop (Bail ''Error in receiving in galois_ring_to_rep3 operation''))))"

definition galois_ring_to_rep3 :: "('r, u16) net_int \<Rightarrow> u16 RingElement list \<Rightarrow> ('r session, u16 share list) comp" where
  "galois_ring_to_rep3 N items =
     cbind (galois_ring_to_rep3_components N items) (\<lambda>(shares_a, shares_b).
       cret (map (\<lambda>(a, b). share_new a b) (zip shares_a shares_b)))"

text \<open>\<open>unreachable!\<close> on another role index is a panic.\<close>

definition sub_pub :: "'a int_ring2k \<Rightarrow> 'a share \<Rightarrow> 'a RingElement \<Rightarrow> ('r session, 'a share) comp" where
  "sub_pub R s rhs =
     cbind (cread own_role) (\<lambda>role.
       if role_index role = 0 then cret (s\<lparr>share_a := re_sub_assign R (share_a s) rhs\<rparr>)
       else if role_index role = 1 then cret (s\<lparr>share_b := re_sub_assign R (share_b s) rhs\<rparr>)
       else if role_index role = 2 then cret s
       else cstop Panicked)"

section \<open>Opening\<close>

text \<open>The error of a receive or of a conversion is reported as an error of the operation.\<close>

definition open_received :: "('r, 'a) net_int \<Rightarrow> proto_error + NetworkValue \<Rightarrow> proto_error + 'a RingElement list" where
  "open_received N m =
     (case m of
        Inl e \<Rightarrow> Inl (Bail ''Error in receiving in open operation'')
      | Inr v \<Rightarrow>
        (case into_vec N v of
           Ok xs \<Rightarrow> Inr xs
         | Err _ \<Rightarrow> Inl (Bail ''Error in receiving in open operation'')
         | Panic \<Rightarrow> Inl Panicked))"

definition open_message :: "('r, 'a) net_int \<Rightarrow> 'a RingElement list \<Rightarrow> NetworkValue" where
  "open_message N xs = (if length xs = 1 then new_network_element N (xs ! 0) else new_network_vec N xs)"

definition open_ring :: "('r, 'a) net_int \<Rightarrow> 'a share list \<Rightarrow> ('r session, 'a list) comp" where
  "open_ring N shs =
     cbind (send_next (open_message N (map share_b shs))) (\<lambda>_.
     cbind receive_prev (\<lambda>m.
     cbind (ctry (open_received N m)) (\<lambda>c.
       cret (map (\<lambda>(s, c). convert (re_add (ni_ring N) (re_add (ni_ring N) (share_a s) (share_b s)) c)) (zip shs c)))))"

definition open_ring_element_broadcast :: "('r, 'a) net_int \<Rightarrow> 'a RingElement list \<Rightarrow> ('r session, 'a list) comp" where
  "open_ring_element_broadcast N shs =
     (let message = open_message N shs
      in cbind (send_next message) (\<lambda>_.
         cbind (send_prev message) (\<lambda>_.
         cbind receive_prev (\<lambda>m.
         cbind (ctry (open_received N m)) (\<lambda>b.
         cbind receive_next (\<lambda>m.
         cbind (ctry (open_received N m)) (\<lambda>c.
           cret (map (\<lambda>(a, b, c). convert (re_add (ni_ring N) (re_add (ni_ring N) a b) c)) (zip shs (zip b c))))))))))"

section \<open>Shares of the three parties\<close>

text \<open>
  The specification: lists of shares held by the three parties are a sharing of a list of
  values when they have its length, belong together position by position, and open to it.
\<close>

definition col :: "(PartyID \<Rightarrow> 'b list) \<Rightarrow> nat \<Rightarrow> 'b \<times> 'b \<times> 'b" where
  "col r k = (r ID0 ! k, r ID1 ! k, r ID2 ! k)"

definition shared :: "('a \<Rightarrow> bool) \<Rightarrow> nat \<Rightarrow> (PartyID \<Rightarrow> 'a share list) \<Rightarrow> bool" where
  "shared P n r \<longleftrightarrow> (\<forall>i. length (r i) = n) \<and> (\<forall>k < n. replicated (col r k) \<and> share3_wf P (col r k))"

definition sharing_add :: "'a int_ring2k \<Rightarrow> ('a \<Rightarrow> bool) \<Rightarrow> (PartyID \<Rightarrow> 'a share list) \<Rightarrow> 'a RingElement list \<Rightarrow> bool" where
  "sharing_add R P r xs \<longleftrightarrow> shared P (length xs) r \<and> (\<forall>k < length xs. open_add R (col r k) = xs ! k)"

definition sharing_xor :: "'a int_ring2k \<Rightarrow> ('a \<Rightarrow> bool) \<Rightarrow> (PartyID \<Rightarrow> 'a share list) \<Rightarrow> 'a RingElement list \<Rightarrow> bool" where
  "sharing_xor R P r xs \<longleftrightarrow> shared P (length xs) r \<and> (\<forall>k < length xs. open_xor R (col r k) = xs ! k)"

text \<open>The shares of each party out of a list of triples.\<close>

definition deal :: "'a share3 list \<Rightarrow> PartyID \<Rightarrow> 'a share list" where
  "deal ts i = map (\<lambda>(s0, s1, s2). case i of ID0 \<Rightarrow> s0 | ID1 \<Rightarrow> s1 | ID2 \<Rightarrow> s2) ts"

text \<open>Shares put together from the first components of the parties.\<close>

definition rep_of :: "(PartyID \<Rightarrow> 'a RingElement list) \<Rightarrow> PartyID \<Rightarrow> 'a share list" where
  "rep_of a i = map (\<lambda>(x, y). share_new x y) (zip (a i) (a (prev_id i)))"

lemma col_deal: "k < length ts \<Longrightarrow> col (deal ts) k = ts ! k"
  by (cases "ts ! k") (simp add: col_def deal_def)

lemma sharing_deal:
  "sharing_add R P (deal ts) xs \<longleftrightarrow> length ts = length xs \<and> list_all2 (\<lambda>t x. replicated t \<and> share3_wf P t \<and> open_add R t = x) ts xs"
  "sharing_xor R P (deal ts) xs \<longleftrightarrow> length ts = length xs \<and> list_all2 (\<lambda>t x. replicated t \<and> share3_wf P t \<and> open_xor R t = x) ts xs"
proof -
  have "(\<forall>i. length (deal ts i) = length xs) \<longleftrightarrow> length ts = length xs" by (simp add: deal_def)
  then show "sharing_add R P (deal ts) xs \<longleftrightarrow> length ts = length xs \<and> list_all2 (\<lambda>t x. replicated t \<and> share3_wf P t \<and> open_add R t = x) ts xs"
    "sharing_xor R P (deal ts) xs \<longleftrightarrow> length ts = length xs \<and> list_all2 (\<lambda>t x. replicated t \<and> share3_wf P t \<and> open_xor R t = x) ts xs"
    by (auto simp: sharing_add_def sharing_xor_def shared_def list_all2_conv_all_nth col_deal)
qed

lemma col_map: "k < length (r ID0) \<Longrightarrow> k < length (r ID1) \<Longrightarrow> k < length (r ID2) \<Longrightarrow>
    col (\<lambda>i. map f (r i)) k = (case col r k of (x, y, z) \<Rightarrow> (f x, f y, f z))"
  by (simp add: col_def)

lemma shared_rep_of:
  assumes "\<And>i. length (a i) = n" "\<And>i x. x \<in> set (a i) \<Longrightarrow> P (convert x)"
  shows "shared P n (rep_of a)" "k < n \<Longrightarrow> open_add R (col (rep_of a) k) = sum3 R (a ID0 ! k, a ID1 ! k, a ID2 ! k)"
    "k < n \<Longrightarrow> open_xor R (col (rep_of a) k) = xor3 R (a ID0 ! k, a ID1 ! k, a ID2 ! k)"
proof -
  have "P (convert (a i ! k))" if "k < n" for i k using assms that by (metis nth_mem)
  then show "shared P n (rep_of a)" "k < n \<Longrightarrow> open_add R (col (rep_of a) k) = sum3 R (a ID0 ! k, a ID1 ! k, a ID2 ! k)"
    "k < n \<Longrightarrow> open_xor R (col (rep_of a) k) = xor3 R (a ID0 ! k, a ID1 ! k, a ID2 ! k)"
    using assms(1) by (simp_all add: shared_def rep_of_def col_def share_new_def)
qed

text \<open>What a sharing means for each party.\<close>

lemma shared_length: "shared P n r \<Longrightarrow> length (r i) = n"
  by (simp add: shared_def)

lemma sharing_lengths:
  "sharing_add R P r xs \<Longrightarrow> length (r i) = length xs" "sharing_xor R P r xs \<Longrightarrow> length (r i) = length xs"
  by (simp_all add: sharing_add_def sharing_xor_def shared_def)

lemma shared_nth:
  assumes "shared P n r" "k < n"
  shows "share_b (r i ! k) = share_a (r (prev_id i) ! k)" "P (convert (share_a (r i ! k)))" "P (convert (share_b (r i ! k)))"
  using assms by (cases i; auto simp: shared_def col_def)+

lemma sharedI:
  assumes "\<And>i. length (r i) = n" "\<And>i k. k < n \<Longrightarrow> share_b (r i ! k) = share_a (r (prev_id i) ! k)"
    "\<And>i k. k < n \<Longrightarrow> P (convert (share_a (r i ! k)))"
  shows "shared P n r"
proof -
  have "replicated (col r k) \<and> share3_wf P (col r k)" if "k < n" for k
    using assms(2) [OF that, of ID0] assms(2) [OF that, of ID1] assms(2) [OF that, of ID2] assms(3) [OF that]
    by (simp add: col_def)
  with assms(1) show ?thesis by (simp add: shared_def)
qed

lemma sharing_add_nth:
  "sharing_add R P r xs \<Longrightarrow> k < length xs \<Longrightarrow>
    replicated (col r k) \<and> share3_wf P (col r k) \<and> open_add R (col r k) = xs ! k"
  by (simp add: sharing_add_def shared_def)

lemma sharing_addI:
  assumes "\<And>i. length (r i) = length xs"
    "\<And>k. k < length xs \<Longrightarrow> replicated (col r k) \<and> share3_wf P (col r k) \<and> open_add R (col r k) = xs ! k"
  shows "sharing_add R P r xs"
  using assms by (simp add: sharing_add_def shared_def)

context network_int
begin

abbreviation (input) ring :: "'a int_ring2k" where
  "ring \<equiv> ni_ring N"

text \<open>Masks drawn from the linked generators cancel.\<close>

lemma masked_sum:
  assumes "\<And>i. wf (convert (x i))" "\<And>i. wf (convert (e i))"
  defines "y \<equiv> \<lambda>i. re_add ring (re_sub ring (x i) (x (prev_id i))) (e i)"
  shows "wf (convert (y i))" "sum3 ring (y ID0, y ID1, y ID2) = sum3 ring (e ID0, e ID1, e ID2)"
  using assms(1,2) unfolding y_def
  by (simp_all add: re_defs wf_intros val_eq_iff val_arith mod_simps) (simp add: algebra_simps)

lemma computes_vec_round:
  fixes f :: "PartyID \<Rightarrow> proto_error + NetworkValue \<Rightarrow> ('r session, 'b) comp"
  assumes "\<And>i. wfs (v i)" "\<And>i. length (v i) < MAX_LEN"
    "computes addr sid (\<lambda>i. f i (Inr (new_network_vec N (v (prev_id i))))) Q"
  shows "computes addr sid (\<lambda>i. cbind (send_next (new_network_vec N (v i))) (\<lambda>_. cbind receive_prev (f i))) Q"
  by (rule computes_send_next [where w = "\<lambda>i. new_network_vec N (v i)"]) (use assms vec_arrives in auto)

lemma computes_reshare:
  assumes "\<And>i k. k < n \<Longrightarrow> wf (convert (e i k))" "n < MAX_LEN"
  shows "computes addr sid (\<lambda>i. reshare_products N n (e i))
    (\<lambda>r. sharing_add ring wf r (map (\<lambda>k. sum3 ring (e ID0 k, e ID1 k, e ID2 k)) [0..<n]))"
  unfolding reshare_products_def
proof (rule computes_rands, unfold case_prod_conv Let_def)
  fix x :: "PartyID \<Rightarrow> 'a VecRingElement"
  assume len: "\<And>i. length (elements (x i)) = n" and wfx: "\<And>i. wfs (elements (x i))"
  define a where "a = (\<lambda>i. map (\<lambda>(k, my_r, prev_r). re_add ring (re_sub ring my_r prev_r) (e i k))
      (enumerate 0 (zip (elements (x i)) (elements (x (prev_id i))))))"
  have nth: "a i ! k = re_add ring (re_sub ring (elements (x i) ! k) (elements (x (prev_id i)) ! k)) (e i k)" if "k < n" for i k
    using that len by (simp add: nth_enumerate_eq a_def)
  have wfx: "wf (convert (elements (x i) ! k))" if "k < n" for i k using wfx len that by (metis nth_mem)
  have wfa: "wf (convert (a i ! k))" if "k < n" for i k
    unfolding nth [OF that] by (rule masked_sum(1)) (use wfx assms(1) that in auto)
  have lena: "length (a i) = n" for i using len by (simp add: a_def)
  have wfsa: "wfs (a i)" for i using wfa lena by (metis in_set_conv_nth)
  have sum: "sum3 ring (a ID0 ! k, a ID1 ! k, a ID2 ! k) = sum3 ring (e ID0 k, e ID1 k, e ID2 k)" if "k < n" for k
    unfolding nth [OF that] by (rule masked_sum(2)) (use wfx assms(1) that in auto)
  have "sharing_add ring wf (rep_of a) (map (\<lambda>k. sum3 ring (e ID0 k, e ID1 k, e ID2 k)) [0..<n])"
    using shared_rep_of [of a n wf] wfsa lena sum by (simp add: sharing_add_def)
  note result = this [unfolded rep_of_def]
  show "computes addr sid (\<lambda>i. cbind (send_next (new_network_vec N (map (\<lambda>(k, my_r, prev_r). re_add ring (re_sub ring my_r prev_r) (e i k))
      (enumerate 0 (zip (elements (x i)) (elements (x (prev_id i)))))))) (\<lambda>_.
          cbind receive_prev (\<lambda>m. cbind (ctry m) (\<lambda>v. cbind (ctry (of_outcome (into_vec N v))) (\<lambda>round_b.
            cret (map (\<lambda>(a, b). share_new a b) (zip (map (\<lambda>(k, my_r, prev_r). re_add ring (re_sub ring my_r prev_r) (e i k))
      (enumerate 0 (zip (elements (x i)) (elements (x (prev_id i)))))) round_b)))))) :: ('r session, 'a share list) comp)
    (\<lambda>r. sharing_add ring wf r (map (\<lambda>k. sum3 ring (e ID0 k, e ID1 k, e ID2 k)) [0..<n]))"
    unfolding a_def [symmetric, THEN fun_cong]
    by (rule computes_vec_round [where v = a]) (use wfsa lena assms(2) in \<open>auto simp: into_vec_vec simp del: sum3.simps intro!: computes_cret result\<close>)
qed

text \<open>Everybody recombines the same three components, in another order.\<close>

lemma open_rotated:
  assumes "replicated (col r k)" "share3_wf wf (col r k)"
  shows "re_add ring (re_add ring (share_a (r i ! k)) (share_b (r i ! k))) (share_b (r (prev_id i) ! k)) = open_add ring (col r k)"
  using assms by (cases i) (simp_all add: col_def re_defs wf_intros val_eq_iff val_arith mod_simps add_ac)

lemma open_round_trip: "open_received N (Inr (open_message N xs)) = Inr xs"
  by (cases xs) (auto simp: open_received_def open_message_def into_vec_vec into_vec_element)

lemma open_arrives: "wfs v \<Longrightarrow> length v < MAX_LEN \<Longrightarrow> arrives (open_message N v) (open_message N v)"
  using vec_arrives [of v] element_arrives by (cases "length v = 1") (auto simp: open_message_def)

lemma computes_open_round:
  fixes f :: "PartyID \<Rightarrow> 'a RingElement list \<Rightarrow> ('r session, 'b) comp"
  assumes "\<And>i. wfs (v i)" "\<And>i. length (v i) < MAX_LEN" "computes addr sid (\<lambda>i. f i (v (prev_id i))) Q"
  shows "computes addr sid (\<lambda>i. cbind (send_next (open_message N (v i))) (\<lambda>_. cbind receive_prev (\<lambda>m.
    cbind (ctry (open_received N m)) (f i)))) Q"
proof (rule computes_send_next [where w = "\<lambda>i. open_message N (v i)"])
  show "arrives (open_message N (v i)) (open_message N (v i))" for i by (rule open_arrives [OF assms(1,2)])
  show "computes addr sid (\<lambda>i. cbind (ctry (open_received N (Inr (open_message N (v (prev_id i)))))) (f i)) Q"
    using assms(3) by (simp add: open_round_trip)
qed

lemma wf_open_add: "share3_wf wf s \<Longrightarrow> wf (convert (open_add ring s))"
  by (cases s) (simp add: re_defs wf_intros)

lemma computes_open_ring:
  assumes "sharing_add ring wf r xs" "length xs < MAX_LEN"
  shows "computes addr sid (\<lambda>i. open_ring N (r i)) (\<lambda>y. \<forall>i. y i = map convert xs)"
  unfolding open_ring_def
proof (rule computes_open_round [where v = "\<lambda>i. map share_b (r i)"])
  have sh: "shared wf (length xs) r" and op: "k < length xs \<Longrightarrow> open_add ring (col r k) = xs ! k" for k
    using assms(1) by (simp_all add: sharing_add_def)
  have len: "length (r i) = length xs" for i using sh by (simp add: shared_def)
  show "wfs (map share_b (r i))" for i
    using shared_nth(3) [OF sh] len by (auto simp: in_set_conv_nth)
  show "length (map share_b (r i)) < MAX_LEN" for i using len assms(2) by simp
  have "map (\<lambda>(s, c). convert (re_add ring (re_add ring (share_a s) (share_b s)) c)) (zip (r i) (map share_b (r (prev_id i)))) =
      map convert xs" for i
  proof (rule nth_equalityI)
    fix k assume "k < length (map (\<lambda>(s, c). convert (re_add ring (re_add ring (share_a s) (share_b s)) c)) (zip (r i) (map share_b (r (prev_id i)))))"
    then have k: "k < length xs" using len by simp
    moreover have "replicated (col r k)" "share3_wf wf (col r k)" using sh k by (simp_all add: shared_def)
    ultimately show "map (\<lambda>(s, c). convert (re_add ring (re_add ring (share_a s) (share_b s)) c)) (zip (r i) (map share_b (r (prev_id i)))) ! k =
        map convert xs ! k"
      using open_rotated [of r k i] op [OF k] len by simp
  qed (use len in simp)
  then show "computes addr sid (\<lambda>i. cret (map (\<lambda>(s, c). convert (re_add ring (re_add ring (share_a s) (share_b s)) c))
      (zip (r i) (map share_b (r (prev_id i))))) :: ('r session, 'a list) comp) (\<lambda>y. \<forall>i. y i = map convert xs)"
    by (auto intro: computes_cret)
qed

end

section \<open>Key setup and conversion of products\<close>

lemma delivers_always_finishes:
  assumes "inj addr" "delivers addr P r" "Q r"
  shows "always_finishes addr P Q"
  using delivers_any_schedule [OF assms(1,2)] assms(3) unfolding always_finishes_def by blast

lemma prf_key_arrives: "length k = PRF_KEY_SIZE \<Longrightarrow> arrives (PrfKey k) (PrfKey k)"
  by (rule plain_arrives) simp

lemma delivers_setup_prf:
  assumes "net_linked addr sid S" "\<And>i. length (seed i) = PRF_KEY_SIZE"
  shows "delivers addr (\<lambda>i. setup_replicated_prf G (seed i) (S i)) (\<lambda>i. (prf_new G (seed i) (seed (prev_id i)), S i))"
  unfolding setup_replicated_prf_def
  by (rule delivers_send_next [where w = "\<lambda>i. PrfKey (seed i)", OF assms(1) prf_key_arrives [OF assms(2)]])
    (simp add: cret_def delivers_Ret)

lemma delivers_shared_seed:
  assumes "net_linked addr sid S" "\<And>i. length (seed i) = PRF_KEY_SIZE"
  shows "delivers addr (\<lambda>i. setup_shared_seed (seed i) (S i))
    (\<lambda>i. (map (\<lambda>k. seed i ! k XOR seed (prev_id i) ! k XOR seed (next_id i) ! k) [0..<PRF_KEY_SIZE], S i))"
  unfolding setup_shared_seed_def
proof (rule delivers_send_next [where w = "\<lambda>i. PrfKey (seed i)", OF assms(1) prf_key_arrives [OF assms(2)]],
    unfold decode_seed_def sum.case NetworkValue.case ctry_simps cbind_cret)
  show "delivers addr (\<lambda>i. cbind (send_prev (PrfKey (seed i))) (\<lambda>_. cbind receive_next (\<lambda>m.
      cbind (ctry (case m of Inl x \<Rightarrow> Inl (Bail ''Could not deserialize PrfKey'') | Inr (PrfKey s) \<Rightarrow> Inr s
        | Inr _ \<Rightarrow> Inl (Bail ''Could not deserialize PrfKey''))) (\<lambda>next_seed.
        cret (map (\<lambda>k. seed i ! k XOR seed (prev_id i) ! k XOR next_seed ! k) [0..<PRF_KEY_SIZE])))) (S i))
    (\<lambda>i. (map (\<lambda>k. seed i ! k XOR seed (prev_id i) ! k XOR seed (next_id i) ! k) [0..<PRF_KEY_SIZE], S i))"
    by (rule delivers_send_prev [where w = "\<lambda>i. PrfKey (seed i)", OF assms(1) prf_key_arrives [OF assms(2)]])
      (simp add: cret_def delivers_Ret)
qed

text \<open>Everybody sends to both neighbours, then receives from both.\<close>

lemma delivers_send_both:
  assumes "net_linked addr sid S" "\<And>i. arrives (v i) (w i)" "\<And>i. g (Inr (w i)) = Inr (b i)"
    "delivers addr (\<lambda>i. h i (b (prev_id i)) (Inr (w (next_id i))) (S i)) ys"
  shows "delivers addr (\<lambda>i. cbind (send_next (v i)) (\<lambda>_. cbind (send_prev (v i)) (\<lambda>_.
    cbind receive_prev (\<lambda>m. cbind (ctry (g m)) (\<lambda>x. cbind receive_next (h i x))))) (S i)) ys"
proof -
  obtain bs where bs: "to_network (v i) = Ok (bs i)" "deserialize (bs i) = Ok (w i)" for i
    using assms(2) unfolding arrives_def by metis
  have inj: "inj addr" using assms(1) by (rule net_linked_inj)
  note eqs = sends_eq [OF net_linked_at [OF assms(1)] bs(1)] receives_eq [OF net_linked_at [OF assms(1)]]
  show ?thesis
    by (rule delivers_broadcast [OF inj, where m = bs and m' = bs
          and c = "\<lambda>i b. pbind (case deserialize b of Panic \<Rightarrow> Stop Panicked | r \<Rightarrow> Ret (of_outcome r, S i))
            (\<lambda>(m, s). cbind (ctry (g m)) (\<lambda>x. cbind receive_next (h i x)) s)"
          and k = "\<lambda>i c. pbind (case deserialize c of Panic \<Rightarrow> Stop Panicked | r \<Rightarrow> Ret (of_outcome r, S i))
            (\<lambda>(m, s). h i (b (prev_id i)) m s)"])
      (simp_all add: eqs cbind_def ctry_def cret_def bs(2) assms(3,4))
qed

context network_int
begin

lemma computes_open_broadcast:
  assumes "\<And>i. length (x i) = n" "\<And>i. wfs (x i)" "n < MAX_LEN"
  shows "computes addr sid (\<lambda>i. open_ring_element_broadcast N (x i))
    (\<lambda>y. \<forall>i. y i = map (\<lambda>k. convert (sum3 ring (x ID0 ! k, x ID1 ! k, x ID2 ! k))) [0..<n])"
  unfolding computes_def
proof (intro allI impI)
  fix S :: "PartyID \<Rightarrow> 'r session" assume S: "linked addr sid S"
  define y where "y = map (\<lambda>k. convert (sum3 ring (x ID0 ! k, x ID1 ! k, x ID2 ! k))) [0..<n]"
  have wfk: "wf (convert (x i ! k))" if "k < n" for i k using assms(1,2) that by (metis nth_mem)
  have sum: "re_add ring (re_add ring (x i ! k) (x (prev_id i) ! k)) (x (next_id i) ! k) = sum3 ring (x ID0 ! k, x ID1 ! k, x ID2 ! k)"
    if "k < n" for i k
    using wfk [OF that] by (cases i) (simp_all add: re_defs wf_intros val_eq_iff val_arith mod_simps add_ac)
  have res: "map (\<lambda>(a, b, c). convert (re_add ring (re_add ring a b) c)) (zip (x i) (zip (x (prev_id i)) (x (next_id i)))) = y" for i
    using assms(1) sum by (intro nth_equalityI) (simp_all add: y_def del: sum3.simps)
  have "delivers addr (\<lambda>i. open_ring_element_broadcast N (x i) (S i)) (\<lambda>i. (y, S i))"
    unfolding open_ring_element_broadcast_def Let_def
    by (rule delivers_send_both [where w = "\<lambda>i. open_message N (x i)" and b = x])
      (use S assms open_arrives in \<open>auto simp: open_round_trip linked_def cret_def res intro: delivers_Ret\<close>)
  then show "\<exists>r S'. delivers addr (\<lambda>i. open_ring_element_broadcast N (x i) (S i)) (\<lambda>i. (r i, S' i)) \<and> linked addr sid S' \<and>
      (\<forall>i. r i = map (\<lambda>k. convert (sum3 ring (x ID0 ! k, x ID1 ! k, x ID2 ! k))) [0..<n])"
    using S unfolding y_def [symmetric] by (intro exI [of _ "\<lambda>_. y"] exI [of _ S]) simp
qed

lemma computes_products:
  assumes "sharing_add ring wf s xs" "sharing_add ring wf t ys" "length xs = length ys" "length xs < MAX_LEN"
  shows "computes addr sid (\<lambda>i. reshare_products N (length xs) (\<lambda>k. share_mul ring (s i ! k) (t i ! k)))
    (\<lambda>r. sharing_add ring wf r (map2 (re_mul ring) xs ys))"
proof -
  let ?e = "\<lambda>i k. share_mul ring (s i ! k) (t i ! k)"
  have sh: "shared wf (length xs) s" "shared wf (length xs) t" using assms(1-3) by (simp_all add: sharing_add_def)
  have wfe: "wf (convert (?e i k))" if "k < length xs" for i k
    using shared_nth(2,3) [OF sh(1) that] shared_nth(2,3) [OF sh(2) that] by (simp add: share_arith wf_intros)
  have "sum3 ring (?e ID0 k, ?e ID1 k, ?e ID2 k) = re_mul ring (xs ! k) (ys ! k)" if "k < length xs" for k
    using local_product_opens [of "col s k" "col t k"] sharing_add_nth [OF assms(1) that] sharing_add_nth [OF assms(2), of k] that assms(3)
    by (simp add: col_def del: replicated.simps sum3.simps)
  then have eq: "map (\<lambda>k. sum3 ring (?e ID0 k, ?e ID1 k, ?e ID2 k)) [0..<length xs] = map2 (re_mul ring) xs ys"
    using assms(3) by (intro nth_equalityI) (simp_all del: sum3.simps)
  show ?thesis unfolding eq [symmetric] by (rule computes_reshare [where e = ?e, OF wfe assms(4)])
qed

end

lemma computes_galois_to_rep3:
  fixes x :: "PartyID \<Rightarrow> u16 RingElement list" and G :: "'r prf_rng"
  assumes "\<And>i. length (x i) = n" "n < MAX_LEN"
  shows "computes addr sid (\<lambda>i. galois_ring_to_rep3 (net_u16 G) (x i) :: ('r session, u16 share list) comp)
    (\<lambda>r. sharing_add word_ring (\<lambda>_. True) r (map (\<lambda>k. sum3 word_ring (x ID0 ! k, x ID1 ! k, x ID2 ! k)) [0..<n]))"
  unfolding galois_ring_to_rep3_def galois_ring_to_rep3_components_def cbind_assoc assms(1)
proof (rule net16.computes_rands, unfold case_prod_conv Let_def)
  fix z :: "PartyID \<Rightarrow> u16 VecRingElement"
  assume len: "\<And>i. length (elements (z i)) = n"
  define a where "a = (\<lambda>i. map (\<lambda>(x, a, b). re_add (ni_ring (net_u16 G)) (re_sub (ni_ring (net_u16 G)) a b) x)
      (zip (x i) (zip (elements (z i)) (elements (z (prev_id i))))))"
  have lena: "length (a i) = n" for i using len assms(1) by (simp add: a_def)
  have nth: "a i ! k = re_add word_ring (re_sub word_ring (elements (z i) ! k) (elements (z (prev_id i)) ! k)) (x i ! k)" if "k < n" for i k
    using that len assms(1) by (simp add: a_def)
  have sum: "sum3 word_ring (a ID0 ! k, a ID1 ! k, a ID2 ! k) = sum3 word_ring (x ID0 ! k, x ID1 ! k, x ID2 ! k)" if "k < n" for k
    unfolding nth [OF that] by (rule net16.masked_sum(2) [unfolded ni_ring_simps]) simp_all
  have res: "sharing_add word_ring (\<lambda>_. True) (rep_of a) (map (\<lambda>k. sum3 word_ring (x ID0 ! k, x ID1 ! k, x ID2 ! k)) [0..<n])"
    using shared_rep_of [of a n "\<lambda>_. True"] lena sum by (simp add: sharing_add_def del: sum3.simps)
  have vec: "new_network_vec (net_u16 G) = VecRing16" by (simp add: net_u16_def)
  have "computes addr sid (\<lambda>i. cbind (send_next (VecRing16 (a i))) (\<lambda>_. cbind receive_prev (\<lambda>m.
      cbind (case m of Inl x \<Rightarrow> cstop (Bail ''Error in receiving in galois_ring_to_rep3 operation'')
        | Inr (VecRing16 message) \<Rightarrow> cret (a i, message)
        | Inr _ \<Rightarrow> cstop (Bail ''Error in receiving in galois_ring_to_rep3 operation''))
      (\<lambda>(shares_a, shares_b). cret (map (\<lambda>(a, b). share_new a b) (zip shares_a shares_b)))))
      :: ('r session, u16 share list) comp)
    (\<lambda>r. sharing_add word_ring (\<lambda>_. True) r (map (\<lambda>k. sum3 word_ring (x ID0 ! k, x ID1 ! k, x ID2 ! k)) [0..<n]))"
    using lena assms(2) res [unfolded rep_of_def]
    by (intro net16.computes_vec_round [where G = G and v = a, unfolded vec]) (auto simp del: sum3.simps intro!: computes_cret)
  then show "computes addr sid (\<lambda>i. cbind (cbind (send_next (VecRing16 (map (\<lambda>(x, a, b). re_add (ni_ring (net_u16 G)) (re_sub (ni_ring (net_u16 G)) a b) x)
      (zip (x i) (zip (elements (z i)) (elements (z (prev_id i)))))))) (\<lambda>_. cbind receive_prev (\<lambda>m.
      (case m of Inl x \<Rightarrow> cstop (Bail ''Error in receiving in galois_ring_to_rep3 operation'')
        | Inr (VecRing16 message) \<Rightarrow> cret (map (\<lambda>(x, a, b). re_add (ni_ring (net_u16 G)) (re_sub (ni_ring (net_u16 G)) a b) x)
      (zip (x i) (zip (elements (z i)) (elements (z (prev_id i))))), message)
        | Inr _ \<Rightarrow> cstop (Bail ''Error in receiving in galois_ring_to_rep3 operation'')))))
      (\<lambda>(shares_a, shares_b). cret (map (\<lambda>(a, b). share_new a b) (zip shares_a shares_b)))
      :: ('r session, u16 share list) comp)
    (\<lambda>r. sharing_add word_ring (\<lambda>_. True) r (map (\<lambda>k. sum3 word_ring (x ID0 ! k, x ID1 ! k, x ID2 ! k)) [0..<n]))"
    unfolding cbind_assoc a_def by simp
qed

section \<open>Properties\<close>

text \<open>
  C29: key setup. Three parties that start with keys of the right size, under any
  interleaving of their sends and receives, all finish: \<open>setup_replicated_prf\<close> leaves them
  with linked sessions, each party's second generator in the state of the first generator of
  the party before it, and \<open>setup_shared_seed\<close> gives all of them the exclusive or of the
  three keys. No interleaving can run forever or get stuck.
\<close>

theorem key_setup_links_sessions:
  assumes "net_linked addr sid S" "\<And>i. length (seed i) = PRF_KEY_SIZE"
  shows "always_finishes addr (\<lambda>i. setup_replicated_prf G (seed i) (S i))
      (\<lambda>r. linked addr sid (\<lambda>i. session_of (snd (r i)) (fst (r i)))
         \<and> (\<forall>i. my_prf (session_of (snd (r i)) (fst (r i))) = rng_from_seed G (seed i)))
    \<and> always_finishes addr (\<lambda>i. setup_shared_seed (seed i) (S i))
      (\<lambda>r. \<forall>i. r i = (map (\<lambda>k. seed ID0 ! k XOR seed ID1 ! k XOR seed ID2 ! k) [0..<PRF_KEY_SIZE], S i))"
proof
  have inj: "inj addr" using assms(1) by (rule net_linked_inj)
  show "always_finishes addr (\<lambda>i. setup_replicated_prf G (seed i) (S i))
      (\<lambda>r. linked addr sid (\<lambda>i. session_of (snd (r i)) (fst (r i)))
         \<and> (\<forall>i. my_prf (session_of (snd (r i)) (fst (r i))) = rng_from_seed G (seed i)))"
    by (rule delivers_always_finishes [OF inj delivers_setup_prf [OF assms]])
      (use assms(1) in \<open>simp add: linked_def net_linked_def net_at_def session_of_def network_session.defs prf_new_def\<close>)
  show "always_finishes addr (\<lambda>i. setup_shared_seed (seed i) (S i))
      (\<lambda>r. \<forall>i. r i = (map (\<lambda>k. seed ID0 ! k XOR seed ID1 ! k XOR seed ID2 ! k) [0..<PRF_KEY_SIZE], S i))"
  proof (rule delivers_always_finishes [OF inj delivers_shared_seed [OF assms]], intro allI)
    show "(map (\<lambda>k. seed i ! k XOR seed (prev_id i) ! k XOR seed (next_id i) ! k) [0..<PRF_KEY_SIZE], S i) =
      (map (\<lambda>k. seed ID0 ! k XOR seed ID1 ! k XOR seed ID2 ! k) [0..<PRF_KEY_SIZE], S i)" for i
      by (cases i) (simp_all add: xor.commute xor.left_commute)
  qed
qed

theorem key_setup_links_sessions_witness:
  "always_finishes demo_addr (\<lambda>i. setup_shared_seed (replicate 16 (2 ^ usize_from_party i)) (demo_net i))
     (\<lambda>r. \<forall>i. r i = (replicate 16 7, demo_net i))"
  using key_setup_links_sessions [OF demo_net_linked, of "\<lambda>i. replicate 16 (2 ^ usize_from_party i)", THEN conjunct2]
  by (simp add: PRF_KEY_SIZE_def map_replicate_const [symmetric] upt_rec numeral_nat)

text \<open>
  C6: the multiplication round. Three parties with linked sessions reshare their local
  products and open the result: under any interleaving they all finish with the same values,
  the sums of the three products per position when converting Galois ring products
  (\<open>galois_ring_to_rep3\<close>), and the products of the shared values, in the 32-bit and the
  48-bit ring, when multiplying with \<open>reshare_products\<close>; their generators stay linked.
\<close>

theorem reshared_products_open:
  fixes S :: "PartyID \<Rightarrow> 'r session" and G :: "'r prf_rng"
  assumes "linked addr sid S" "\<And>i. length (x i) = n" "n < MAX_LEN"
    and "sharing_add word_ring (\<lambda>_. True) s xs" "sharing_add word_ring (\<lambda>_. True) t ys" "length ys = length xs" "length xs < MAX_LEN"
    and "sharing_add ring48_ring wf48 s' xs'" "sharing_add ring48_ring wf48 t' ys'" "length ys' = length xs'" "length xs' < MAX_LEN"
  shows "always_finishes addr (\<lambda>i. cbind (galois_ring_to_rep3 (net_u16 G) (x i)) (open_ring (net_u16 G)) (S i))
      (\<lambda>r. (\<forall>i. fst (r i) = map (\<lambda>k. convert (x ID0 ! k) + convert (x ID1 ! k) + convert (x ID2 ! k)) [0..<n])
         \<and> linked addr sid (\<lambda>i. snd (r i)))
    \<and> always_finishes addr (\<lambda>i. cbind (reshare_products (net_u32 G) (length xs) (\<lambda>k. share_mul word_ring (s i ! k) (t i ! k)))
        (open_ring (net_u32 G)) (S i))
      (\<lambda>r. (\<forall>i. fst (r i) = map2 (\<lambda>a b. convert a * convert b) xs ys) \<and> linked addr sid (\<lambda>i. snd (r i)))
    \<and> always_finishes addr (\<lambda>i. cbind (reshare_products (net_ring48 G) (length xs') (\<lambda>k. share_mul ring48_ring (s' i ! k) (t' i ! k)))
        (open_ring (net_ring48 G)) (S i))
      (\<lambda>r. (\<forall>i. fst (r i) = map2 (\<lambda>a b. wrapping_mul ring48_ring (convert a) (convert b)) xs' ys') \<and> linked addr sid (\<lambda>i. snd (r i)))"
proof (intro conjI)
  have "computes addr sid (\<lambda>i. cbind (galois_ring_to_rep3 (net_u16 G) (x i)) (open_ring (net_u16 G)) :: ('r session, u16 list) comp)
      (\<lambda>r. \<forall>i. r i = map convert (map (\<lambda>k. sum3 word_ring (x ID0 ! k, x ID1 ! k, x ID2 ! k)) [0..<n]))"
    by (rule computes_cbind [OF computes_galois_to_rep3 [OF assms(2,3)]], rule net16.computes_open_ring [unfolded ni_ring_simps])
      (use assms(3) in \<open>simp_all del: sum3.simps\<close>)
  from computes_always_finishes [OF this assms(1)]
  show "always_finishes addr (\<lambda>i. cbind (galois_ring_to_rep3 (net_u16 G) (x i)) (open_ring (net_u16 G)) (S i))
      (\<lambda>r. (\<forall>i. fst (r i) = map (\<lambda>k. convert (x ID0 ! k) + convert (x ID1 ! k) + convert (x ID2 ! k)) [0..<n])
         \<and> linked addr sid (\<lambda>i. snd (r i)))"
    by (simp add: comp_def re_add_def)
  have "computes addr sid (\<lambda>i. cbind (reshare_products (net_u32 G) (length xs) (\<lambda>k. share_mul word_ring (s i ! k) (t i ! k)))
      (open_ring (net_u32 G)) :: ('r session, u32 list) comp) (\<lambda>r. \<forall>i. r i = map convert (map2 (re_mul word_ring) xs ys))"
    by (rule computes_cbind, rule net32.computes_products [unfolded ni_ring_simps, OF assms(4,5) assms(6) [symmetric] assms(7)],
        rule net32.computes_open_ring [unfolded ni_ring_simps], assumption) (use assms in simp)
  from computes_always_finishes [OF this assms(1)]
  show "always_finishes addr (\<lambda>i. cbind (reshare_products (net_u32 G) (length xs) (\<lambda>k. share_mul word_ring (s i ! k) (t i ! k)))
        (open_ring (net_u32 G)) (S i))
      (\<lambda>r. (\<forall>i. fst (r i) = map2 (\<lambda>a b. convert a * convert b) xs ys) \<and> linked addr sid (\<lambda>i. snd (r i)))"
    by (simp add: comp_def split_def re_mul_def)
  have "computes addr sid (\<lambda>i. cbind (reshare_products (net_ring48 G) (length xs') (\<lambda>k. share_mul ring48_ring (s' i ! k) (t' i ! k)))
      (open_ring (net_ring48 G)) :: ('r session, Ring48 list) comp) (\<lambda>r. \<forall>i. r i = map convert (map2 (re_mul ring48_ring) xs' ys'))"
    by (rule computes_cbind, rule net48.computes_products [unfolded ni_ring_simps, OF assms(8,9) assms(10) [symmetric] assms(11)],
        rule net48.computes_open_ring [unfolded ni_ring_simps], assumption) (use assms in simp)
  from computes_always_finishes [OF this assms(1)]
  show "always_finishes addr (\<lambda>i. cbind (reshare_products (net_ring48 G) (length xs') (\<lambda>k. share_mul ring48_ring (s' i ! k) (t' i ! k)))
        (open_ring (net_ring48 G)) (S i))
      (\<lambda>r. (\<forall>i. fst (r i) = map2 (\<lambda>a b. wrapping_mul ring48_ring (convert a) (convert b)) xs' ys') \<and> linked addr sid (\<lambda>i. snd (r i)))"
    by (simp add: comp_def split_def re_mul_def)
qed

theorem reshared_products_open_witness:
  "always_finishes demo_addr (\<lambda>i. cbind (galois_ring_to_rep3 (net_u16 demo_rng) [RingElement 40000, RingElement (of_nat (usize_from_party i))])
      (open_ring (net_u16 demo_rng)) (demo_session i))
    (\<lambda>r. (\<forall>i. fst (r i) = [54464, 3]) \<and> linked demo_addr 7 (\<lambda>i. snd (r i)))
  \<and> always_finishes demo_addr (\<lambda>i. cbind (reshare_products (net_u32 demo_rng) 1
        (\<lambda>k. share_mul word_ring (deal [sh 1000000 2000000 3000000] i ! k) (deal [sh 1 500 499] i ! k)))
      (open_ring (net_u32 demo_rng)) (demo_session i))
    (\<lambda>r. (\<forall>i. fst (r i) = [1705032704]) \<and> linked demo_addr 7 (\<lambda>i. snd (r i)))
  \<and> always_finishes demo_addr (\<lambda>i. cbind (reshare_products (net_ring48 demo_rng) 1
        (\<lambda>k. share_mul ring48_ring (deal [sh (Ring48 1) (Ring48 2) (Ring48 3)] i ! k) (deal [sh (Ring48 3) (Ring48 4) (Ring48 5)] i ! k)))
      (open_ring (net_ring48 demo_rng)) (demo_session i))
    (\<lambda>r. (\<forall>i. fst (r i) = [Ring48 72]) \<and> linked demo_addr 7 (\<lambda>i. snd (r i)))"
proof -
  have two: "[0..<2] = [0, 1 :: nat]" by (simp add: upt_rec)
  have s: "sharing_add word_ring (\<lambda>_. True) (deal [sh 1000000 2000000 3000000]) [RingElement (6000000 :: u32)]"
    "sharing_add word_ring (\<lambda>_. True) (deal [sh 1 500 499]) [RingElement (1000 :: u32)]"
    "sharing_add ring48_ring wf48 (deal [sh (Ring48 1) (Ring48 2) (Ring48 3)]) [RingElement (Ring48 6)]"
    "sharing_add ring48_ring wf48 (deal [sh (Ring48 3) (Ring48 4) (Ring48 5)]) [RingElement (Ring48 12)]"
    by (simp_all add: sharing_deal sh_def share_new_def re_add_def MASK_48_eq and_MASK_48 ring48_arith flip: take_bit_eq_mask)
  have num: "(120000 :: u16) = 54464" "(6000000000 :: u32) = 1705032704" "72 AND MASK_48 = (72 :: u64)"
    by (simp_all add: MASK_48_eq flip: take_bit_eq_mask)
  show ?thesis
    using reshared_products_open [where x = "\<lambda>i. [RingElement 40000, RingElement (of_nat (usize_from_party i))]" and n = 2 and G = demo_rng,
        OF demo_linked _ _ s(1,2) _ _ s(3,4)]
    by (simp add: MAX_LEN_def two ring48_arith num)
qed

end
