(* ===== verification/Oblivious_Select.thy ===== *)
theory Oblivious_Select
  imports Reshare
begin

text \<open>
  Oblivious selection between pairs of distances (\<open>ampc-actor-utils/src/protocol/ops.rs\<close>): the
  multiplexer \<open>reshare_mux\<close> and the three \<open>conditionally_select_*\<close> operations on it. With
  shares of control bits the results are shares of the selected distances; public identifiers
  are selected from their difference modulo \<open>2 ^ 32\<close>.
\<close>

section \<open>Operations\<close>

text \<open>
  The closure of the multiplexer indexes the control bits, which are checked to be enough.
\<close>

definition reshare_mux :: "('r, 'a) net_int \<Rightarrow> nat \<Rightarrow> nat \<Rightarrow> 'a share list
    \<Rightarrow> (nat \<Rightarrow> nat \<Rightarrow> 'a share \<times> 'a share) \<Rightarrow> ('r session, 'a share list) comp" where
  "reshare_mux N n_elements fields_per_element control_bits get_field =
     (if fields_per_element = 0 then cstop (Bail ''reshare_mux: fields_per_element must be greater than zero'')
      else if length control_bits < n_elements then cstop (Bail ''reshare_mux: control_bits length is smaller than n_elements'')
      else reshare_products N (n_elements * fields_per_element) (\<lambda>i.
        let R = ni_ring N; j = i div fields_per_element; f = i mod fields_per_element; c = control_bits ! j;
            (left, right) = get_field j f;
            diff = share_sub R left right
        in re_add R (re_add R (re_add R (re_mul R (share_a c) (share_a diff)) (re_mul R (share_b c) (share_a diff)))
             (re_mul R (share_a c) (share_b diff))) (share_a right)))"

definition conditionally_select_distance :: "('r, 'a) net_int \<Rightarrow> ('a DistanceShare \<times> 'a DistanceShare) list
    \<Rightarrow> 'a share list \<Rightarrow> ('r session, 'a DistanceShare list) comp" where
  "conditionally_select_distance N distances control_bits =
     (if length distances \<noteq> length control_bits then cstop (Bail ''Number of distances must match number of control bits'')
      else cbind (reshare_mux N (length distances) 2 control_bits (\<lambda>j f.
             let (d1, d2) = distances ! j
             in if f = 0 then (code_dot d1, code_dot d2) else (mask_dot d1, mask_dot d2))) (\<lambda>products.
             cret (map (\<lambda>(code, mask). distance_share_new code mask) (tuples2 products))))"

text \<open>\<open>T::from(u32)\<close> is a function of the ring type.\<close>

definition conditionally_select_distances_with_plain_ids :: "('r, 'a) net_int \<Rightarrow> (u32 \<Rightarrow> 'a)
    \<Rightarrow> (u32 \<times> 'a DistanceShare) list \<Rightarrow> (u32 \<times> 'a DistanceShare) list \<Rightarrow> 'a share list
    \<Rightarrow> ('r session, ('a share \<times> 'a DistanceShare) list) comp" where
  "conditionally_select_distances_with_plain_ids N from_u32 left_distances right_distances control_bits =
     (let n = length left_distances in
      if n = 0 then cstop (Bail ''Distances must not be empty'')
      else if n \<noteq> length control_bits then cstop (Bail ''Number of distances must match number of control bits'')
      else if n \<noteq> length right_distances then cstop (Bail ''Left and right distances must have the same length'')
      else cbind (reshare_mux N n 2 control_bits (\<lambda>j f.
             let left = snd (left_distances ! j); right = snd (right_distances ! j)
             in if f = 0 then (code_dot left, code_dot right) else (mask_dot left, mask_dot right))) (\<lambda>products.
           let distances = map (\<lambda>(code, mask). distance_share_new code mask) (tuples2 products)
           in cbind (cread own_role) (\<lambda>role.
                let ids = map (\<lambda>(left, right, c).
                      let diff = fst left - fst right;
                          res = share_mul_const (ni_ring N) c (RingElement (from_u32 diff))
                      in add_assign_const_role (ni_ring N) res (from_u32 (fst right)) (role_index role))
                      (zip left_distances (zip right_distances control_bits))
                in cbind (ctry (or_panic (those ids))) (\<lambda>ids. cret (zip ids distances)))))"

definition conditionally_select_distances_with_shared_ids :: "('r, 'a) net_int
    \<Rightarrow> ('a share \<times> 'a DistanceShare) list \<Rightarrow> ('a share \<times> 'a DistanceShare) list \<Rightarrow> 'a share list
    \<Rightarrow> ('r session, ('a share \<times> 'a DistanceShare) list) comp" where
  "conditionally_select_distances_with_shared_ids N left_distances right_distances control_bits =
     (let n = length left_distances in
      if left_distances = [] then cstop (Bail ''Distances must not be empty'')
      else if n \<noteq> length control_bits then cstop (Bail ''Number of distances must match number of control bits'')
      else if n \<noteq> length right_distances then cstop (Bail ''Left and right distances must have the same length'')
      else cbind (reshare_mux N n 3 control_bits (\<lambda>j f.
             let (left_id, left_dist) = left_distances ! j; (right_id, right_dist) = right_distances ! j
             in if f = 0 then (left_id, right_id)
                else if f = 1 then (code_dot left_dist, code_dot right_dist)
                else (mask_dot left_dist, mask_dot right_dist))) (\<lambda>flat_res.
             cret (map (\<lambda>(i, code, mask). (i, distance_share_new code mask)) (tuples3 flat_res))))"

text \<open>A bit as a ring element.\<close>

definition bit_elem :: "'a int_ring2k \<Rightarrow> bool \<Rightarrow> 'a RingElement" where
  "bit_elem R b = RingElement (from_bool R b)"

text \<open>
  Public identifiers are selected without communication, from the difference modulo
  \<open>2 ^ 32\<close> converted to the ring.
\<close>

definition plain_id :: "'a int_ring2k \<Rightarrow> (u32 \<Rightarrow> 'a) \<Rightarrow> bool \<Rightarrow> u32 \<Rightarrow> u32 \<Rightarrow> 'a RingElement" where
  "plain_id R from_u32 b l r = re_add R (re_mul R (bit_elem R b) (RingElement (from_u32 (l - r)))) (RingElement (from_u32 r))"

context network_int
begin

section \<open>Multiplexing\<close>

definition mux_term :: "'a share \<Rightarrow> 'a share \<Rightarrow> 'a share \<Rightarrow> 'a RingElement" where
  "mux_term c left right =
     (let diff = share_sub ring left right
      in re_add ring (re_add ring (re_add ring (re_mul ring (share_a c) (share_a diff)) (re_mul ring (share_b c) (share_a diff)))
           (re_mul ring (share_a c) (share_b diff))) (share_a right))"

lemma mux_opens:
  assumes "replicated c" "replicated l" "replicated r" "share3_wf wf c" "share3_wf wf l" "share3_wf wf r"
  shows "sum3 ring (mux_term (fst c) (fst l) (fst r), mux_term (fst (snd c)) (fst (snd l)) (fst (snd r)),
      mux_term (snd (snd c)) (snd (snd l)) (snd (snd r))) =
    re_add ring (re_mul ring (open_add ring c) (re_sub ring (open_add ring l) (open_add ring r))) (open_add ring r)"
  using assms
  by (cases c; cases l; cases r; simp add: mux_term_def Let_def share_arith wf_intros val_eq_iff val_arith mod_simps;
      simp add: algebra_simps)

lemma wf_mux_term:
  assumes "wf (convert (share_a c))" "wf (convert (share_b c))" "wf (convert (share_a l))" "wf (convert (share_b l))"
    "wf (convert (share_a r))" "wf (convert (share_b r))"
  shows "wf (convert (mux_term c l r))"
  using assms by (simp add: mux_term_def Let_def share_arith wf_intros)

text \<open>
  The multiplexer: with sharings of control values and, for every field, of the two sides, the
  result is a sharing of \<open>c * (left - right) + right\<close>, element by element and field by field.
\<close>

lemma computes_mux:
  assumes "sharing_add ring wf c cs" "length cs = n" "0 < m" "n * m < MAX_LEN"
    and "\<And>j f. j < n \<Longrightarrow> f < m \<Longrightarrow> replicated (fst (g ID0 j f), fst (g ID1 j f), fst (g ID2 j f))
      \<and> share3_wf wf (fst (g ID0 j f), fst (g ID1 j f), fst (g ID2 j f))
      \<and> open_add ring (fst (g ID0 j f), fst (g ID1 j f), fst (g ID2 j f)) = ls j f"
    and "\<And>j f. j < n \<Longrightarrow> f < m \<Longrightarrow> replicated (snd (g ID0 j f), snd (g ID1 j f), snd (g ID2 j f))
      \<and> share3_wf wf (snd (g ID0 j f), snd (g ID1 j f), snd (g ID2 j f))
      \<and> open_add ring (snd (g ID0 j f), snd (g ID1 j f), snd (g ID2 j f)) = rs j f"
  shows "computes addr sid (\<lambda>i. reshare_mux N n m (c i) (g i))
    (\<lambda>r. sharing_add ring wf r (map (\<lambda>k. re_add ring (re_mul ring (cs ! (k div m)) (re_sub ring (ls (k div m) (k mod m)) (rs (k div m) (k mod m))))
       (rs (k div m) (k mod m))) [0..<n * m]))"
proof -
  have sh: "shared wf n c" and op: "\<And>k. k < n \<Longrightarrow> open_add ring (col c k) = cs ! k"
    using assms(1,2) by (simp_all add: sharing_add_def)
  have len: "length (c i) = n" for i using sh by (simp add: shared_def)
  let ?e = "\<lambda>i k. mux_term (c i ! (k div m)) (fst (g i (k div m) (k mod m))) (snd (g i (k div m) (k mod m)))"
  have body: "reshare_mux N n m (c i) (g i) = reshare_products N (n * m) (?e i)" for i
    using assms(3) len by (simp add: reshare_mux_def mux_term_def Let_def split_def)
  have dm: "k div m < n" "k mod m < m" if "k < n * m" for k
    using that assms(3) by (simp_all add: less_mult_imp_div_less)
  have wfe: "wf (convert (?e i k))" if "k < n * m" for i k
  proof (rule wf_mux_term)
    note k = dm [OF that]
    show "wf (convert (share_a (c i ! (k div m))))" "wf (convert (share_b (c i ! (k div m))))"
      using shared_nth(2,3) [OF sh k(1)] by auto
    show "wf (convert (share_a (fst (g i (k div m) (k mod m)))))" "wf (convert (share_b (fst (g i (k div m) (k mod m)))))"
      using assms(5) [OF k] by (cases i; simp)+
    show "wf (convert (share_a (snd (g i (k div m) (k mod m)))))" "wf (convert (share_b (snd (g i (k div m) (k mod m)))))"
      using assms(6) [OF k] by (cases i; simp)+
  qed
  have sum: "sum3 ring (?e ID0 k, ?e ID1 k, ?e ID2 k) = re_add ring (re_mul ring (cs ! (k div m))
      (re_sub ring (ls (k div m) (k mod m)) (rs (k div m) (k mod m)))) (rs (k div m) (k mod m))" if "k < n * m" for k
  proof -
    note k = dm [OF that]
    let ?l = "(fst (g ID0 (k div m) (k mod m)), fst (g ID1 (k div m) (k mod m)), fst (g ID2 (k div m) (k mod m)))"
    let ?r = "(snd (g ID0 (k div m) (k mod m)), snd (g ID1 (k div m) (k mod m)), snd (g ID2 (k div m) (k mod m)))"
    have c: "replicated (col c (k div m))" "share3_wf wf (col c (k div m))" using sh k(1) by (simp_all add: shared_def)
    from mux_opens [of "col c (k div m)" ?l ?r] c assms(5) [OF k] assms(6) [OF k] op [OF k(1)]
    show ?thesis by (simp add: col_def del: sum3.simps replicated.simps share3_wf.simps)
  qed
  have eq: "map (\<lambda>k. sum3 ring (?e ID0 k, ?e ID1 k, ?e ID2 k)) [0..<n * m] =
      map (\<lambda>k. re_add ring (re_mul ring (cs ! (k div m)) (re_sub ring (ls (k div m) (k mod m)) (rs (k div m) (k mod m))))
        (rs (k div m) (k mod m))) [0..<n * m]"
    by (rule map_cong) (use sum in \<open>simp_all del: sum3.simps\<close>)
  show ?thesis unfolding body eq [symmetric] by (rule computes_reshare [OF wfe assms(4)])
qed

text \<open>With a control bit the multiplexer selects.\<close>

lemma mux_bit:
  assumes "wf (convert l)" "wf (convert r)"
  shows "re_add ring (re_mul ring (bit_elem ring b) (re_sub ring l r)) r = (if b then l else r)"
  using assms by (cases b; cases l; cases r)
    (simp_all add: bit_elem_def re_defs wf_intros val_eq_iff val_arith val_from_bool mod_simps val_mod)

end

definition dist_sharing :: "'a int_ring2k \<Rightarrow> ('a \<Rightarrow> bool) \<Rightarrow> (PartyID \<Rightarrow> 'a DistanceShare list)
    \<Rightarrow> ('a RingElement \<times> 'a RingElement) list \<Rightarrow> bool" where
  "dist_sharing R P d xs \<longleftrightarrow> sharing_add R P (\<lambda>i. map code_dot (d i)) (map fst xs)
     \<and> sharing_add R P (\<lambda>i. map mask_dot (d i)) (map snd xs)"

text \<open>Distances with shared identifiers.\<close>

definition id_dist_sharing :: "'a int_ring2k \<Rightarrow> ('a \<Rightarrow> bool) \<Rightarrow> (PartyID \<Rightarrow> ('a share \<times> 'a DistanceShare) list)
    \<Rightarrow> ('a RingElement \<times> 'a RingElement \<times> 'a RingElement) list \<Rightarrow> bool" where
  "id_dist_sharing R P d xs \<longleftrightarrow> sharing_add R P (\<lambda>i. map fst (d i)) (map fst xs)
     \<and> dist_sharing R P (\<lambda>i. map snd (d i)) (map snd xs)"

lemma tuples2_eq: "length xs = 2 * n \<Longrightarrow> tuples2 xs = map (\<lambda>k. (xs ! (k * 2), xs ! (k * 2 + 1))) [0..<n]"
proof (induction xs arbitrary: n rule: tuples2.induct)
  case (1 x y zs)
  then obtain m where n: "n = Suc m" by (cases n) auto
  from "1.IH" [of m] "1.prems" n show ?case by (simp add: map_upt_Suc del: upt_Suc)
qed auto

lemma tuples3_eq: "length xs = 3 * n \<Longrightarrow> tuples3 xs = map (\<lambda>k. (xs ! (k * 3), xs ! (k * 3 + 1), xs ! (k * 3 + 2))) [0..<n]"
proof (induction xs arbitrary: n rule: tuples3.induct)
  case (1 x y z zs)
  then obtain m where n: "n = Suc m" by (cases n) auto
  from "1.IH" [of m] "1.prems" n show ?case by (simp add: map_upt_Suc del: upt_Suc)
qed auto

lemma dist_sharing_length: "dist_sharing R P d xs \<Longrightarrow> length (d i) = length xs"
  unfolding dist_sharing_def by (metis length_map sharing_lengths(1))

lemma id_dist_sharing_length: "id_dist_sharing R P d xs \<Longrightarrow> length (d i) = length xs"
  unfolding id_dist_sharing_def by (metis length_map sharing_lengths(1))

lemma those_Some: "those (map Some xs) = Some xs"
  by (induction xs) simp_all

context network_int
begin

text \<open>With control bits the multiplexer selects, in every field.\<close>

lemma computes_mux_select:
  assumes "sharing_add ring wf c (map (bit_elem ring) bs)" "0 < m" "length bs * m < MAX_LEN"
    and left: "\<And>f. f < m \<Longrightarrow> sharing_add ring wf (\<lambda>i. map (\<lambda>j. fst (g i j f)) [0..<length bs]) (ls f)"
    and right: "\<And>f. f < m \<Longrightarrow> sharing_add ring wf (\<lambda>i. map (\<lambda>j. snd (g i j f)) [0..<length bs]) (rs f)"
  shows "computes addr sid (\<lambda>i. reshare_mux N (length bs) m (c i) (g i))
    (\<lambda>r. (\<forall>i. length (r i) = length bs * m) \<and> (\<forall>f < m. sharing_add ring wf (\<lambda>i. map (\<lambda>k. r i ! (k * m + f)) [0..<length bs])
       (map (\<lambda>k. if bs ! k then ls f ! k else rs f ! k) [0..<length bs])))"
proof -
  let ?n = "length bs"
  define v where "v = (\<lambda>k. re_add ring (re_mul ring (map (bit_elem ring) bs ! (k div m)) (re_sub ring (ls (k mod m) ! (k div m)) (rs (k mod m) ! (k div m))))
       (rs (k mod m) ! (k div m)))"
  have len: "length (ls f) = ?n" "length (rs f) = ?n" if "f < m" for f
    using sharing_lengths(1) [OF left [OF that]] sharing_lengths(1) [OF right [OF that]] by simp_all
  have L: "replicated (fst (g ID0 j f), fst (g ID1 j f), fst (g ID2 j f)) \<and> share3_wf wf (fst (g ID0 j f), fst (g ID1 j f), fst (g ID2 j f))
      \<and> open_add ring (fst (g ID0 j f), fst (g ID1 j f), fst (g ID2 j f)) = ls f ! j" if "j < ?n" "f < m" for j f
    using sharing_add_nth [OF left [OF that(2)], of j] that len by (simp add: col_def)
  have R: "replicated (snd (g ID0 j f), snd (g ID1 j f), snd (g ID2 j f)) \<and> share3_wf wf (snd (g ID0 j f), snd (g ID1 j f), snd (g ID2 j f))
      \<and> open_add ring (snd (g ID0 j f), snd (g ID1 j f), snd (g ID2 j f)) = rs f ! j" if "j < ?n" "f < m" for j f
    using sharing_add_nth [OF right [OF that(2)], of j] that len by (simp add: col_def)
  have "computes addr sid (\<lambda>i. reshare_mux N ?n m (c i) (g i)) (\<lambda>r. sharing_add ring wf r (map v [0..<?n * m]))"
    unfolding v_def by (rule computes_mux [OF assms(1) _ assms(2,3) L R]) simp_all
  then show ?thesis
  proof (rule computes_weaken, intro conjI allI impI)
    fix r i assume r: "sharing_add ring wf r (map v [0..<?n * m])"
    show "length (r i) = ?n * m" using sharing_lengths(1) [OF r] by simp
    fix f assume f: "f < m"
    have sel: "v (k * m + f) = (if bs ! k then ls f ! k else rs f ! k)" if "k < ?n" for k
    proof -
      note l = L [OF that f] and r = R [OF that f]
      have "wf (convert (ls f ! k))" "wf (convert (rs f ! k))"
        using wf_open_add [OF conjunct1 [OF conjunct2 [OF l]]] wf_open_add [OF conjunct1 [OF conjunct2 [OF r]]]
        unfolding conjunct2 [OF conjunct2 [OF l]] conjunct2 [OF conjunct2 [OF r]] .
      note mux = mux_bit [OF this, of "bs ! k"]
      have "(k * m + f) div m = k" "(k * m + f) mod m = f" "map (bit_elem ring) bs ! k = bit_elem ring (bs ! k)" using that f by simp_all
      then show ?thesis using mux unfolding v_def by (simp only:)
    qed
    have bound: "k * m + f < ?n * m" if "k < ?n" for k
    proof -
      have "k * m + f < k * m + m" using f by simp
      also have "k * m + m \<le> ?n * m" using that by (metis Suc_leI add.commute mult_Suc mult_le_mono1)
      finally show ?thesis .
    qed
    then have nth: "map v [0..<?n * m] ! (k * m + f) = v (k * m + f)" if "k < ?n" for k using that by simp
    have col: "col (\<lambda>i. map (\<lambda>k. r i ! (k * m + f)) [0..<?n]) k = col r (k * m + f)" if "k < ?n" for k
      using that by (simp add: col_def)
    show "sharing_add ring wf (\<lambda>i. map (\<lambda>k. r i ! (k * m + f)) [0..<?n]) (map (\<lambda>k. if bs ! k then ls f ! k else rs f ! k) [0..<?n])"
      using sharing_add_nth [OF r] bound col nth sel by (intro sharing_addI) simp_all
  qed
qed

lemma computes_mux_distances:
  assumes "dist_sharing ring wf dl ls" "dist_sharing ring wf dr rs" "sharing_add ring wf c (map (bit_elem ring) bs)"
    "length ls = length bs" "length rs = length bs" "length bs * 2 < MAX_LEN"
    and g: "\<And>i j f. j < length bs \<Longrightarrow> g i j f =
      (if f = 0 then (code_dot (dl i ! j), code_dot (dr i ! j)) else (mask_dot (dl i ! j), mask_dot (dr i ! j)))"
  shows "computes addr sid (\<lambda>i. reshare_mux N (length bs) 2 (c i) (g i))
    (\<lambda>r. (\<forall>i. length (r i) = length bs * 2)
       \<and> dist_sharing ring wf (\<lambda>i. map (\<lambda>(code, mask). distance_share_new code mask) (tuples2 (r i)))
           (map (\<lambda>(b, l, r). if b then l else r) (zip bs (zip ls rs))))"
proof -
  let ?n = "length bs"
  define L where "L = (\<lambda>f. if f = (0::nat) then map fst ls else map snd ls)"
  define R where "R = (\<lambda>f. if f = (0::nat) then map fst rs else map snd rs)"
  have lens: "length (dl i) = ?n" "length (dr i) = ?n" for i
    using dist_sharing_length [OF assms(1)] dist_sharing_length [OF assms(2)] assms(4,5) by simp_all
  have fields: "map (\<lambda>j. fst (g i j f)) [0..<?n] = map (if f = 0 then code_dot else mask_dot) (dl i)"
    "map (\<lambda>j. snd (g i j f)) [0..<?n] = map (if f = 0 then code_dot else mask_dot) (dr i)" for i f
    using g lens by (auto intro!: nth_equalityI)
  have "computes addr sid (\<lambda>i. reshare_mux N ?n 2 (c i) (g i))
    (\<lambda>r. (\<forall>i. length (r i) = ?n * 2) \<and> (\<forall>f < 2. sharing_add ring wf (\<lambda>i. map (\<lambda>k. r i ! (k * 2 + f)) [0..<?n])
       (map (\<lambda>k. if bs ! k then L f ! k else R f ! k) [0..<?n])))"
    by (rule computes_mux_select [OF assms(3) _ assms(6)])
      (use assms(1,2) in \<open>simp_all add: fields L_def R_def dist_sharing_def\<close>)
  then show ?thesis
  proof (rule computes_weaken, intro conjI allI)
    fix r assume r: "(\<forall>i. length (r i) = ?n * 2) \<and> (\<forall>f < 2. sharing_add ring wf (\<lambda>i. map (\<lambda>k. r i ! (k * 2 + f)) [0..<?n])
       (map (\<lambda>k. if bs ! k then L f ! k else R f ! k) [0..<?n]))"
    then show "length (r i) = ?n * 2" for i by simp
    have "sharing_add ring wf (\<lambda>i. map (\<lambda>k. r i ! (k * 2)) [0..<?n]) (map (\<lambda>k. if bs ! k then L 0 ! k else R 0 ! k) [0..<?n])"
      "sharing_add ring wf (\<lambda>i. map (\<lambda>k. r i ! (k * 2 + 1)) [0..<?n]) (map (\<lambda>k. if bs ! k then L 1 ! k else R 1 ! k) [0..<?n])"
      using conjunct2 [OF r, THEN spec, of 0] conjunct2 [OF r, THEN spec, of 1] by simp_all
    moreover have "map (\<lambda>k. if bs ! k then L 0 ! k else R 0 ! k) [0..<?n] = map fst (map (\<lambda>(b, l, r). if b then l else r) (zip bs (zip ls rs)))"
      "map (\<lambda>k. if bs ! k then L 1 ! k else R 1 ! k) [0..<?n] = map snd (map (\<lambda>(b, l, r). if b then l else r) (zip bs (zip ls rs)))"
      using assms(4,5) by (auto simp: L_def R_def intro!: nth_equalityI)
    moreover have "tuples2 (r i) = map (\<lambda>k. (r i ! (k * 2), r i ! (k * 2 + 1))) [0..<?n]" for i
      by (rule tuples2_eq) (use r in simp)
    ultimately show "dist_sharing ring wf (\<lambda>i. map (\<lambda>(code, mask). distance_share_new code mask) (tuples2 (r i)))
        (map (\<lambda>(b, l, r). if b then l else r) (zip bs (zip ls rs)))"
      unfolding dist_sharing_def by (simp add: distance_share_new_def comp_def)
  qed
qed

lemma computes_select_distance:
  assumes "dist_sharing ring wf (\<lambda>i. map fst (d i)) ls" "dist_sharing ring wf (\<lambda>i. map snd (d i)) rs"
    "sharing_add ring wf c (map (bit_elem ring) bs)" "length ls = length bs" "length rs = length bs" "length bs * 2 < MAX_LEN"
  shows "computes addr sid (\<lambda>i. conditionally_select_distance N (d i) (c i))
    (\<lambda>r. dist_sharing ring wf r (map (\<lambda>(b, l, r). if b then l else r) (zip bs (zip ls rs))))"
proof -
  have len: "length (c i) = length bs" "length (d i) = length bs" for i
    using sharing_lengths(1) [OF assms(3)] dist_sharing_length [OF assms(1), of i] assms(4) by simp_all
  show ?thesis
    unfolding conditionally_select_distance_def len
    by (simp del: upt_Suc, rule computes_cbind, rule computes_mux_distances [OF assms], simp add: len split_def Let_def)
      (rule computes_cret, simp)
qed

lemma plain_id_shares:
  assumes "replicated c" "share3_wf wf c" "open_add ring c = bit_elem ring b" "\<And>x. wf (from_u32 x)"
  obtains t where "\<And>i. add_assign_const_role ring (share_mul_const ring (case i of ID0 \<Rightarrow> fst c | ID1 \<Rightarrow> fst (snd c) | ID2 \<Rightarrow> snd (snd c))
      (RingElement (from_u32 (x - y)))) (from_u32 y) (usize_from_party i) = Some (t i)"
    "replicated (t ID0, t ID1, t ID2)" "share3_wf wf (t ID0, t ID1, t ID2)" "open_add ring (t ID0, t ID1, t ID2) = plain_id ring from_u32 b x y"
proof -
  obtain c0 c1 c2 where c: "c = (c0, c1, c2)" by (cases c)
  let ?m = "\<lambda>s. share_mul_const ring s (RingElement (from_u32 (x - y)))"
  let ?s = "(?m c0, ?m c1, ?m c2)"
  have wfs: "share3_wf wf ?s" and rep: "replicated ?s"
    using assms(1,2,4) c by (simp_all add: share_arith wf_intros)
  have op: "open_add ring ?s = re_mul ring (open_add ring c) (RingElement (from_u32 (x - y)))"
    using assms(1,2,4) c by (simp add: share_arith wf_intros val_eq_iff val_arith mod_simps; simp add: algebra_simps)
  obtain t0 t1 t2 where t: "add_assign_const_role ring (?m c0) (from_u32 y) 0 = Some t0" "add_assign_const_role ring (?m c1) (from_u32 y) 1 = Some t1"
    "add_assign_const_role ring (?m c2) (from_u32 y) 2 = Some t2" "replicated (t0, t1, t2)"
    "open_add ring (t0, t1, t2) = re_add ring (open_add ring ?s) (RingElement (from_u32 y))"
    using const_role_opens [OF wfs rep assms(4) refl, of y] by blast
  have "share3_wf wf (t0, t1, t2)"
    using t(1-3) wfs assms(4) by (auto simp: add_assign_const_role_def share_arith assign_defs wf_intros)
  then show ?thesis
    using t op assms(3) c
    by (intro that [of "\<lambda>i. case i of ID0 \<Rightarrow> t0 | ID1 \<Rightarrow> t1 | ID2 \<Rightarrow> t2"])
      (auto simp: plain_id_def split: PartyID.splits simp del: replicated.simps share3_wf.simps open_add.simps)
qed

lemma computes_select_plain_ids:
  assumes "dist_sharing ring wf (\<lambda>i. map snd (dl i)) ls" "dist_sharing ring wf (\<lambda>i. map snd (dr i)) rs"
    "sharing_add ring wf c (map (bit_elem ring) bs)" "length ls = length bs" "length rs = length bs" "length bs * 2 < MAX_LEN"
    and ids: "\<And>i. map fst (dl i) = idl" "\<And>i. map fst (dr i) = idr" "bs \<noteq> []" "\<And>x. wf (from_u32 x)"
  shows "computes addr sid (\<lambda>i. conditionally_select_distances_with_plain_ids N from_u32 (dl i) (dr i) (c i))
    (\<lambda>r. id_dist_sharing ring wf r (map (\<lambda>(b, (x, l), (y, r)). (plain_id ring from_u32 b x y, if b then l else r))
       (zip bs (zip (zip idl ls) (zip idr rs)))))"
proof -
  let ?n = "length bs"
  have lenc: "length (c i) = ?n" and lenl: "length (dl i) = ?n" and lenr: "length (dr i) = ?n" for i
    using sharing_lengths(1) [OF assms(3)] dist_sharing_length [OF assms(1), of i] dist_sharing_length [OF assms(2), of i] assms(4,5)
    by simp_all
  have lenid: "length idl = ?n" "length idr = ?n" using ids(1,2) lenl lenr by (metis length_map)+
  have id_nth: "fst (dl i ! k) = idl ! k" "fst (dr i ! k) = idr ! k" if "k < ?n" for i k
    using ids(1) [of i] ids(2) [of i] lenl lenr that by (metis nth_map)+
  define one where "one = (\<lambda>i k. add_assign_const_role ring (share_mul_const ring (c i ! k) (RingElement (from_u32 (idl ! k - idr ! k))))
      (from_u32 (idr ! k)) (usize_from_party i))"
  have "\<exists>t. (\<forall>i. one i k = Some (t i)) \<and> replicated (t ID0, t ID1, t ID2) \<and> share3_wf wf (t ID0, t ID1, t ID2)
      \<and> open_add ring (t ID0, t ID1, t ID2) = plain_id ring from_u32 (bs ! k) (idl ! k) (idr ! k)" if "k < ?n" for k
  proof -
    have ck: "replicated (col c k)" "share3_wf wf (col c k)" "open_add ring (col c k) = bit_elem ring (bs ! k)"
      using sharing_add_nth [OF assms(3), of k] that by simp_all
    obtain t where t: "\<And>i. add_assign_const_role ring (share_mul_const ring (case i of ID0 \<Rightarrow> fst (col c k) | ID1 \<Rightarrow> fst (snd (col c k)) | ID2 \<Rightarrow> snd (snd (col c k)))
        (RingElement (from_u32 (idl ! k - idr ! k)))) (from_u32 (idr ! k)) (usize_from_party i) = Some (t i)"
      "replicated (t ID0, t ID1, t ID2)" "share3_wf wf (t ID0, t ID1, t ID2)"
      "open_add ring (t ID0, t ID1, t ID2) = plain_id ring from_u32 (bs ! k) (idl ! k) (idr ! k)"
      using plain_id_shares [OF ck, of from_u32 "idl ! k" "idr ! k"] ids(4) by metis
    have "(case i of ID0 \<Rightarrow> fst (col c k) | ID1 \<Rightarrow> fst (snd (col c k)) | ID2 \<Rightarrow> snd (snd (col c k))) = c i ! k" for i
      by (cases i) (simp_all add: col_def)
    then have "one i k = Some (t i)" for i using t(1) [of i] by (simp add: one_def)
    then show ?thesis using t(2-4) by blast
  qed
  then obtain t where t: "\<And>k i. k < ?n \<Longrightarrow> one i k = Some (t k i)"
    "\<And>k. k < ?n \<Longrightarrow> replicated (t k ID0, t k ID1, t k ID2) \<and> share3_wf wf (t k ID0, t k ID1, t k ID2)
      \<and> open_add ring (t k ID0, t k ID1, t k ID2) = plain_id ring from_u32 (bs ! k) (idl ! k) (idr ! k)" by metis
  define T where "T = (\<lambda>i. map (\<lambda>k. t k i) [0..<?n])"
  have "map (\<lambda>(left, right, c). add_assign_const_role ring (share_mul_const ring c (RingElement (from_u32 (fst left - fst right))))
      (from_u32 (fst right)) (usize_from_party i)) (zip (dl i) (zip (dr i) (c i))) = map Some (T i)" for i
    using lenl [of i] lenr [of i] lenc [of i] t(1) id_nth
    by (intro nth_equalityI) (simp_all add: one_def T_def)
  note ids_eq = this
  have idsh: "sharing_add ring wf T (map (\<lambda>k. plain_id ring from_u32 (bs ! k) (idl ! k) (idr ! k)) [0..<?n])"
    using t(2) by (intro sharing_addI) (simp_all add: T_def col_def)
  have mux: "computes addr sid (\<lambda>i. reshare_mux N ?n 2 (c i) (\<lambda>j f. let left = snd (dl i ! j); right = snd (dr i ! j)
      in if f = 0 then (code_dot left, code_dot right) else (mask_dot left, mask_dot right)))
    (\<lambda>r. (\<forall>i. length (r i) = length bs * 2)
       \<and> dist_sharing ring wf (\<lambda>i. map (\<lambda>(code, mask). distance_share_new code mask) (tuples2 (r i)))
           (map (\<lambda>(b, l, r). if b then l else r) (zip bs (zip ls rs))))"
    by (rule computes_mux_distances [OF assms(1-6)]) (simp add: Let_def lenl lenr)
  have result: "id_dist_sharing ring wf (\<lambda>i. zip (T i) (map (\<lambda>(code, mask). distance_share_new code mask) (tuples2 (r i))))
      (map (\<lambda>(b, (x, l), (y, r)). (plain_id ring from_u32 b x y, if b then l else r)) (zip bs (zip (zip idl ls) (zip idr rs))))"
    if r: "(\<forall>i. length (r i) = length bs * 2)
       \<and> dist_sharing ring wf (\<lambda>i. map (\<lambda>(code, mask). distance_share_new code mask) (tuples2 (r i)))
           (map (\<lambda>(b, l, r). if b then l else r) (zip bs (zip ls rs)))" for r :: "PartyID \<Rightarrow> 'a share list"
  proof -
    have lent: "length (tuples2 (r i)) = ?n" for i using tuples2_eq [of "r i" ?n] r by simp
    have "map fst (map (\<lambda>(b, (x, l), (y, r)). (plain_id ring from_u32 b x y, if b then l else r)) (zip bs (zip (zip idl ls) (zip idr rs)))) =
        map (\<lambda>k. plain_id ring from_u32 (bs ! k) (idl ! k) (idr ! k)) [0..<?n]"
      "map snd (map (\<lambda>(b, (x, l), (y, r)). (plain_id ring from_u32 b x y, if b then l else r)) (zip bs (zip (zip idl ls) (zip idr rs)))) =
        map (\<lambda>(b, l, r). if b then l else r) (zip bs (zip ls rs))"
      using lenid assms(4,5) by (auto intro!: nth_equalityI)
    then show ?thesis
      unfolding id_dist_sharing_def using conjunct2 [OF r] idsh lent by (simp add: T_def)
  qed
  show ?thesis
    unfolding conditionally_select_distances_with_plain_ids_def lenl lenr lenc
    using ids(3)
    by (simp add: Let_def, intro computes_cbind [OF mux [unfolded Let_def]] computes_read_role)
      (unfold role_index_party ids_eq those_Some or_panic_def option.case ctry_simps cbind_cret, rule computes_cret, rule result)
qed

lemma computes_select_shared_ids:
  assumes "id_dist_sharing ring wf dl ls" "id_dist_sharing ring wf dr rs"
    "sharing_add ring wf c (map (bit_elem ring) bs)" "length ls = length bs" "length rs = length bs" "length bs * 3 < MAX_LEN" "bs \<noteq> []"
  shows "computes addr sid (\<lambda>i. conditionally_select_distances_with_shared_ids N (dl i) (dr i) (c i))
    (\<lambda>r. id_dist_sharing ring wf r (map (\<lambda>(b, l, r). if b then l else r) (zip bs (zip ls rs))))"
proof -
  let ?n = "length bs"
  define L where "L = (\<lambda>f. if f = (0::nat) then map fst ls else if f = 1 then map (fst \<circ> snd) ls else map (snd \<circ> snd) ls)"
  define R where "R = (\<lambda>f. if f = (0::nat) then map fst rs else if f = 1 then map (fst \<circ> snd) rs else map (snd \<circ> snd) rs)"
  define g where "g = (\<lambda>i j f. let (left_id, left_dist) = dl i ! j; (right_id, right_dist) = dr i ! j
             in if f = (0::nat) then (left_id, right_id)
                else if f = 1 then (code_dot left_dist, code_dot right_dist)
                else (mask_dot left_dist, mask_dot right_dist))"
  have lens: "length (dl i) = ?n" "length (dr i) = ?n" "length (c i) = ?n" for i
    using id_dist_sharing_length [OF assms(1)] id_dist_sharing_length [OF assms(2)] sharing_lengths(1) [OF assms(3)] assms(4,5) by simp_all
  have fields: "map (\<lambda>j. fst (g i j f)) [0..<?n] = map (if f = 0 then fst else if f = 1 then code_dot \<circ> snd else mask_dot \<circ> snd) (dl i)"
    "map (\<lambda>j. snd (g i j f)) [0..<?n] = map (if f = 0 then fst else if f = 1 then code_dot \<circ> snd else mask_dot \<circ> snd) (dr i)" for i f
    using lens by (auto simp: g_def split_def Let_def intro!: nth_equalityI)
  have mux: "computes addr sid (\<lambda>i. reshare_mux N ?n 3 (c i) (g i))
    (\<lambda>r. (\<forall>i. length (r i) = ?n * 3) \<and> (\<forall>f < 3. sharing_add ring wf (\<lambda>i. map (\<lambda>k. r i ! (k * 3 + f)) [0..<?n])
       (map (\<lambda>k. if bs ! k then L f ! k else R f ! k) [0..<?n])))"
    by (rule computes_mux_select [OF assms(3) _ assms(6)])
      (use assms(1,2) in \<open>simp_all add: fields L_def R_def id_dist_sharing_def dist_sharing_def\<close>)
  have result: "id_dist_sharing ring wf (\<lambda>i. map (\<lambda>(x, code, mask). (x, distance_share_new code mask)) (tuples3 (r i)))
      (map (\<lambda>(b, l, r). if b then l else r) (zip bs (zip ls rs)))"
    if r: "(\<forall>i. length (r i) = ?n * 3) \<and> (\<forall>f < 3. sharing_add ring wf (\<lambda>i. map (\<lambda>k. r i ! (k * 3 + f)) [0..<?n])
       (map (\<lambda>k. if bs ! k then L f ! k else R f ! k) [0..<?n]))" for r :: "PartyID \<Rightarrow> 'a share list"
  proof -
    have "sharing_add ring wf (\<lambda>i. map (\<lambda>k. r i ! (k * 3)) [0..<?n]) (map (\<lambda>k. if bs ! k then L 0 ! k else R 0 ! k) [0..<?n])"
      "sharing_add ring wf (\<lambda>i. map (\<lambda>k. r i ! (k * 3 + 1)) [0..<?n]) (map (\<lambda>k. if bs ! k then L 1 ! k else R 1 ! k) [0..<?n])"
      "sharing_add ring wf (\<lambda>i. map (\<lambda>k. r i ! (k * 3 + 2)) [0..<?n]) (map (\<lambda>k. if bs ! k then L 2 ! k else R 2 ! k) [0..<?n])"
      using conjunct2 [OF r, THEN spec, of 0] conjunct2 [OF r, THEN spec, of 1] conjunct2 [OF r, THEN spec, of 2] by simp_all
    moreover have "map (\<lambda>k. if bs ! k then L 0 ! k else R 0 ! k) [0..<?n] = map fst (map (\<lambda>(b, l, r). if b then l else r) (zip bs (zip ls rs)))"
      "map (\<lambda>k. if bs ! k then L 1 ! k else R 1 ! k) [0..<?n] = map fst (map snd (map (\<lambda>(b, l, r). if b then l else r) (zip bs (zip ls rs))))"
      "map (\<lambda>k. if bs ! k then L 2 ! k else R 2 ! k) [0..<?n] = map snd (map snd (map (\<lambda>(b, l, r). if b then l else r) (zip bs (zip ls rs))))"
      using assms(4,5) by (auto simp: L_def R_def intro!: nth_equalityI)
    moreover have "tuples3 (r i) = map (\<lambda>k. (r i ! (k * 3), r i ! (k * 3 + 1), r i ! (k * 3 + 2))) [0..<?n]" for i
      by (rule tuples3_eq) (use r in simp)
    ultimately show ?thesis
      unfolding id_dist_sharing_def dist_sharing_def by (simp add: distance_share_new_def comp_def)
  qed
  have "dl i \<noteq> []" for i using lens(1) [of i] assms(7) by auto
  then show ?thesis
    unfolding conditionally_select_distances_with_shared_ids_def lens g_def [symmetric, THEN fun_cong]
    by (simp, intro computes_cbind [OF mux] computes_cret result)
qed

end


text \<open>In the 32-bit ring the identifier of the selected side comes out; in the wider ring only if the difference does not wrap.\<close>

lemma plain_id_u32: "plain_id word_ring (\<lambda>x. x) b l r = RingElement (if b then l else r)" for l r :: u32
  by (simp add: plain_id_def bit_elem_def re_defs)

lemma uint_u32_u64: "uint (ucast x :: u64) = uint x" for x :: u32
  by (simp add: uint_up_ucast is_up)

lemma ring48_from_u32_val: "wf48 (ring48_from_u32 x)" "val48 (ring48_from_u32 x) = uint x"
proof -
  note u = uint_u32_u64 [of x]
  have "take_bit 48 (ucast x :: u64) = ucast x"
    using uint_lt2p [of x] by (intro word_uint_eqI) (simp add: uint_take_bit_48 u)
  then show "wf48 (ring48_from_u32 x)" by (simp add: ring48_from_u32_def and_MASK_48)
  show "val48 (ring48_from_u32 x) = uint x" by (simp add: ring48_from_u32_def u)
qed

lemma ring48_eqI: "wf48 x \<Longrightarrow> val48 x = uint w \<Longrightarrow> x = Ring48 w"
  by (cases x) (simp add: word_uint_eqI)

lemma plain_id_ring48:
  "plain_id ring48_ring ring48_from_u32 b l r =
     RingElement (Ring48 (if b then if r \<le> l then ucast l else ucast l + 2 ^ 32 else ucast r))"
proof -
  have lt: "uint l < 4294967296" "uint r < 4294967296" "0 \<le> uint l" "0 \<le> uint r" using uint_lt2p [of l] uint_lt2p [of r] by simp_all
  have diff: "uint (l - r) = (if r \<le> l then uint l - uint r else uint l - uint r + 4294967296)"
    by (simp add: uint_sub_if' word_le_def)
  note u = uint_u32_u64
  have u': "uint (ucast l + 2 ^ 32 :: u64) = uint l + 4294967296"
    using lt by (simp add: uint_word_ariths u)
  have wf: "wf48 (convert (plain_id ring48_ring ring48_from_u32 b l r))"
    by (simp add: plain_id_def bit_elem_def re_defs ring48.wf_intros ring48_from_u32_val del: ring48_ring_sel)
  have "val48 (convert (plain_id ring48_ring ring48_from_u32 b l r)) =
      uint (if b then if r \<le> l then ucast l else ucast l + 2 ^ 32 else ucast r :: u64)"
    using lt by (simp add: plain_id_def bit_elem_def re_defs ring48.wf_intros ring48.val_arith ring48.val_from_bool
        ring48_from_u32_val diff u u' [simplified] mod_simps word_le_def del: ring48_ring_sel) (simp add: ring48_ring_def)
  from ring48_eqI [OF wf this] show ?thesis by (metis RingElement_eq_iff RingElement.sel)
qed

section \<open>Properties\<close>

text \<open>
  C30: oblivious selection. With sharings of control bits, under any interleaving all parties
  finish and hold sharings of the selected tuples: the left identifier and distance where the
  bit is one, the right ones where it is zero. This holds with shared identifiers, and with
  public identifiers in the 32-bit ring. With public identifiers in the 48-bit ring the
  distances are selected alike, but the identifier of a selected left side that is smaller
  than the right one comes out \<open>2 ^ 32\<close> too large, because the difference of the
  identifiers is taken modulo \<open>2 ^ 32\<close> before it is converted.
\<close>

theorem oblivious_selection:
  fixes S :: "PartyID \<Rightarrow> 'r session" and G :: "'r prf_rng"
  assumes "linked addr sid S" "bs \<noteq> []" "length bs * 3 < MAX_LEN"
    and ids: "\<And>i. map fst (dl i) = idl" "\<And>i. map fst (dr i) = idr" "\<And>i. map fst (el i) = idl" "\<And>i. map fst (er i) = idr"
    and bits: "sharing_add word_ring (\<lambda>_. True) c (map (bit_elem word_ring) bs)" "sharing_add ring48_ring wf48 c' (map (bit_elem ring48_ring) bs)"
    and dist: "dist_sharing word_ring (\<lambda>_. True) (\<lambda>i. map snd (dl i)) ls" "dist_sharing word_ring (\<lambda>_. True) (\<lambda>i. map snd (dr i)) rs"
      "dist_sharing ring48_ring wf48 (\<lambda>i. map snd (el i)) ls'" "dist_sharing ring48_ring wf48 (\<lambda>i. map snd (er i)) rs'"
    and shid: "id_dist_sharing word_ring (\<lambda>_. True) fl ls3" "id_dist_sharing word_ring (\<lambda>_. True) fr rs3"
    and len: "length ls = length bs" "length rs = length bs" "length ls' = length bs" "length rs' = length bs"
      "length ls3 = length bs" "length rs3 = length bs"
  shows "always_finishes addr (\<lambda>i. conditionally_select_distances_with_shared_ids (net_u32 G) (fl i) (fr i) (c i) (S i))
      (\<lambda>r. id_dist_sharing word_ring (\<lambda>_. True) (\<lambda>i. fst (r i)) (map (\<lambda>(b, l, r). if b then l else r) (zip bs (zip ls3 rs3)))
         \<and> linked addr sid (\<lambda>i. snd (r i)))
    \<and> always_finishes addr (\<lambda>i. conditionally_select_distances_with_plain_ids (net_u32 G) (\<lambda>x. x) (dl i) (dr i) (c i) (S i))
      (\<lambda>r. id_dist_sharing word_ring (\<lambda>_. True) (\<lambda>i. fst (r i))
           (map (\<lambda>(b, (x, l), (y, r)). (RingElement (if b then x else y), if b then l else r)) (zip bs (zip (zip idl ls) (zip idr rs))))
         \<and> linked addr sid (\<lambda>i. snd (r i)))
    \<and> always_finishes addr (\<lambda>i. conditionally_select_distances_with_plain_ids (net_ring48 G) ring48_from_u32 (el i) (er i) (c' i) (S i))
      (\<lambda>r. id_dist_sharing ring48_ring wf48 (\<lambda>i. fst (r i))
           (map (\<lambda>(b, (x, l), (y, r)).
               (RingElement (Ring48 (if b then if y \<le> x then ucast x else ucast x + 2 ^ 32 else ucast y)), if b then l else r))
             (zip bs (zip (zip idl ls') (zip idr rs'))))
         \<and> linked addr sid (\<lambda>i. snd (r i)))"
proof (intro conjI)
  have len2: "length bs * 2 < MAX_LEN" using assms(3) by simp
  note fin = computes_always_finishes [where S = S and sid = sid, OF _ assms(1)]
  show "always_finishes addr (\<lambda>i. conditionally_select_distances_with_shared_ids (net_u32 G) (fl i) (fr i) (c i) (S i))
      (\<lambda>r. id_dist_sharing word_ring (\<lambda>_. True) (\<lambda>i. fst (r i)) (map (\<lambda>(b, l, r). if b then l else r) (zip bs (zip ls3 rs3)))
         \<and> linked addr sid (\<lambda>i. snd (r i)))"
    by (rule fin, rule net32.computes_select_shared_ids [unfolded ni_ring_simps]) (use assms in simp_all)
  show "always_finishes addr (\<lambda>i. conditionally_select_distances_with_plain_ids (net_u32 G) (\<lambda>x. x) (dl i) (dr i) (c i) (S i))
      (\<lambda>r. id_dist_sharing word_ring (\<lambda>_. True) (\<lambda>i. fst (r i))
           (map (\<lambda>(b, (x, l), (y, r)). (RingElement (if b then x else y), if b then l else r)) (zip bs (zip (zip idl ls) (zip idr rs))))
         \<and> linked addr sid (\<lambda>i. snd (r i)))"
    unfolding plain_id_u32 [symmetric]
    by (rule fin, rule net32.computes_select_plain_ids [unfolded ni_ring_simps]) (use assms len2 in simp_all)
  show "always_finishes addr (\<lambda>i. conditionally_select_distances_with_plain_ids (net_ring48 G) ring48_from_u32 (el i) (er i) (c' i) (S i))
      (\<lambda>r. id_dist_sharing ring48_ring wf48 (\<lambda>i. fst (r i))
           (map (\<lambda>(b, (x, l), (y, r)).
               (RingElement (Ring48 (if b then if y \<le> x then ucast x else ucast x + 2 ^ 32 else ucast y)), if b then l else r))
             (zip bs (zip (zip idl ls') (zip idr rs'))))
         \<and> linked addr sid (\<lambda>i. snd (r i)))"
    unfolding plain_id_ring48 [symmetric]
    by (rule fin, rule net48.computes_select_plain_ids [unfolded ni_ring_simps]) (use assms len2 ring48_from_u32_val(1) in simp_all)
qed

text \<open>One distance of three dealt components, for the code and for the mask.\<close>

definition demo_dist :: "'a share3 \<Rightarrow> 'a share3 \<Rightarrow> PartyID \<Rightarrow> 'a DistanceShare" where
  "demo_dist s t i = distance_share_new (deal [s] i ! 0) (deal [t] i ! 0)"

lemma demo_dist_sharing:
  "dist_sharing R P (\<lambda>i. [demo_dist s t i]) [(x, y)] \<longleftrightarrow>
     (replicated s \<and> share3_wf P s \<and> open_add R s = x) \<and> (replicated t \<and> share3_wf P t \<and> open_add R t = y)"
proof -
  have "(\<lambda>i. map code_dot [demo_dist s t i]) = deal [s]" "(\<lambda>i. map mask_dot [demo_dist s t i]) = deal [t]"
    by (simp_all add: demo_dist_def distance_share_new_def deal_def fun_eq_iff)
  then show ?thesis by (simp add: dist_sharing_def sharing_deal)
qed

theorem oblivious_selection_witness:
  "always_finishes demo_addr (\<lambda>i. conditionally_select_distances_with_plain_ids (net_ring48 demo_rng) ring48_from_u32
      [(3, demo_dist (sh (Ring48 1) (Ring48 2) (Ring48 3)) (sh (Ring48 4) (Ring48 5) (Ring48 6)) i)]
      [(9, demo_dist (sh (Ring48 0) (Ring48 0) (Ring48 0)) (sh (Ring48 0) (Ring48 0) (Ring48 0)) i)]
      (deal [sh (Ring48 0) (Ring48 0) (Ring48 1)] i) (demo_session i))
    (\<lambda>r. id_dist_sharing ring48_ring wf48 (\<lambda>i. fst (r i))
       [(RingElement (Ring48 4294967299), RingElement (Ring48 6), RingElement (Ring48 15))] \<and> linked demo_addr 7 (\<lambda>i. snd (r i)))"
proof -
  let ?s = "sh (Ring48 1) (Ring48 2) (Ring48 3)" and ?t = "sh (Ring48 4) (Ring48 5) (Ring48 6)"
  let ?z = "sh (Ring48 0) (Ring48 0) (Ring48 0)" and ?b = "sh (Ring48 0) (Ring48 0) (Ring48 1)"
  let ?w = "sh (1 :: u32) 2 3" and ?o = "sh (0 :: u32) 0 1"
  note defs = demo_dist_sharing sharing_deal sh_def share_new_def re_add_def bit_elem_def MASK_48_eq ring48_from_bool_def
  have d48: "dist_sharing ring48_ring wf48 (\<lambda>i. [demo_dist ?s ?t i]) [(RingElement (Ring48 6), RingElement (Ring48 15))]"
    "dist_sharing ring48_ring wf48 (\<lambda>i. [demo_dist ?z ?z i]) [(RingElement (Ring48 0), RingElement (Ring48 0))]"
    "sharing_add ring48_ring wf48 (deal [?b]) [bit_elem ring48_ring True]"
    by (simp_all add: defs flip: take_bit_eq_mask)
  have d32: "dist_sharing word_ring (\<lambda>_. True) (\<lambda>i. [demo_dist ?w ?w i]) [(RingElement 6, RingElement 6)]"
    "sharing_add word_ring (\<lambda>_. True) (deal [?o]) [bit_elem word_ring True]"
    by (simp_all add: defs)
  have "id_dist_sharing word_ring (\<lambda>_. True) (\<lambda>i. [(deal [?w] i ! 0, demo_dist ?w ?w i)]) [(RingElement 6, RingElement 6, RingElement 6)]"
    using d32(1) by (simp add: id_dist_sharing_def sharing_add_def shared_def col_def deal_def sh_def share_new_def re_add_def)
  note id32 = this
  show ?thesis
    using oblivious_selection [where bs = "[True]" and idl = "[3]" and idr = "[9]" and G = demo_rng
        and dl = "\<lambda>i. [(3, demo_dist ?w ?w i)]" and dr = "\<lambda>i. [(9, demo_dist ?w ?w i)]"
        and el = "\<lambda>i. [(3, demo_dist ?s ?t i)]" and er = "\<lambda>i. [(9, demo_dist ?z ?z i)]"
        and c = "deal [?o]" and c' = "deal [?b]" and ls = "[(RingElement 6, RingElement 6)]" and rs = "[(RingElement 6, RingElement 6)]"
        and ls' = "[(RingElement (Ring48 6), RingElement (Ring48 15))]" and rs' = "[(RingElement (Ring48 0), RingElement (Ring48 0))]", OF demo_linked _ _ _ _ _ _ _ _ _ _ _ _ id32 id32, THEN conjunct2, THEN conjunct2]
      d48 d32
    by (simp add: MAX_LEN_def)
qed

end
