(* ===== verification/Binary_Gates.thy ===== *)
theory Binary_Gates
  imports Reshare Vec_Share
begin

unbundle bit_operations_syntax

text \<open>
  The gates of the binary protocols (\<open>ampc-actor-utils/src/protocol/binary.rs\<close>): splitting an
  arithmetic share into its additive components, exclusive or and AND of bit-sliced vectors.
  A bit-sliced vector is a list of planes, one \<open>VecShare\<close> of words per bit. In every ring of
  \<open>network_int\<close> the AND gates, alone, flattened or grouped, compute the AND of the opened words.
\<close>

section \<open>Local operations\<close>

definition a2b_pre :: "'a int_ring2k \<Rightarrow> nat \<Rightarrow> 'a share \<Rightarrow> proto_error + 'a share \<times> 'a share \<times> 'a share" where
  "a2b_pre R role x =
     (let (a, b) = share_get_ab x; z = share_zero R
      in if role = 0 then Inr (z\<lparr>share_a := a\<rparr>, z, z\<lparr>share_b := b\<rparr>)
         else if role = 1 then Inr (z\<lparr>share_b := b\<rparr>, z\<lparr>share_a := a\<rparr>, z)
         else if role = 2 then Inr (z, z\<lparr>share_b := b\<rparr>, z\<lparr>share_a := a\<rparr>)
         else Inl (Bail ''Cannot deal with roles that have index outside of the set [0, 1, 2]''))"

text \<open>The equal lengths of the two vectors are a debug assertion.\<close>

definition transposed_pack_xor_assign :: "'a int_ring2k \<Rightarrow> 'a VecShare list \<Rightarrow> 'a VecShare list \<Rightarrow> 'a VecShare list" where
  "transposed_pack_xor_assign R x1 x2 = zip_assign (\<lambda>a b. vs_xor_assign_slice R a (vs_as_slice b)) x1 x2"

definition transposed_pack_xor :: "'a int_ring2k \<Rightarrow> 'a VecShare list \<Rightarrow> 'a VecShare list \<Rightarrow> 'a VecShare list" where
  "transposed_pack_xor R x1 x2 = map (\<lambda>(a, b). slice_xor R (vs_as_slice a) (vs_as_slice b)) (zip x1 x2)"

section \<open>AND gates\<close>

definition and_many_iter_send :: "('r, 'a) net_int \<Rightarrow> 'a share list \<Rightarrow> 'a share list \<Rightarrow> nat
    \<Rightarrow> ('r session, 'a RingElement list) comp" where
  "and_many_iter_send N a b size_hint =
     cbind (gen_rands_batch N size_hint) (\<lambda>(mine, prev).
       let R = ni_ring N;
           shares_a = map (\<lambda>(x, y, m, p). re_xor R (share_and R x y) (re_xor R m p))
             (zip a (zip b (zip (elements mine) (elements prev))))
       in cbind (send_ring_vec_next N (VecRingElement shares_a)) (\<lambda>_. cret shares_a))"

definition and_many_send :: "('r, 'a) net_int \<Rightarrow> 'a SliceShare \<Rightarrow> 'a SliceShare \<Rightarrow> ('r session, 'a RingElement list) comp" where
  "and_many_send N a b =
     (if length (slice_shares a) \<noteq> length (slice_shares b) then cstop (Bail ''InvalidSize in and_many_send'')
      else and_many_iter_send N (slice_shares a) (slice_shares b) (length (slice_shares a)))"

definition and_many_receive :: "('r, 'a) net_int \<Rightarrow> ('r session, 'a RingElement list) comp" where
  "and_many_receive N =
     cbind receive_prev (\<lambda>other_share.
       case other_share of
         Inr v \<Rightarrow> ctry (of_outcome (into_vec N v))
       | Inl e \<Rightarrow> cstop (Bail ''Error in and_many_receive''))"

definition and_many :: "('r, 'a) net_int \<Rightarrow> 'a SliceShare \<Rightarrow> 'a SliceShare \<Rightarrow> ('r session, 'a VecShare) comp" where
  "and_many N a b =
     cbind (and_many_send N a b) (\<lambda>shares_a.
     cbind (and_many_receive N) (\<lambda>shares_b. cret (vs_from_ab shares_a shares_b)))"

text \<open>Cutting a flat list into pieces of given sizes; an incomplete piece is cut short.\<close>

fun take_sizes :: "nat list \<Rightarrow> 'b list \<Rightarrow> 'b list list" where
  "take_sizes [] xs = []"
| "take_sizes (n # ns) xs = take n xs # take_sizes ns (drop n xs)"

definition and_many_grouped :: "('r, 'a) net_int \<Rightarrow> ('a SliceShare \<times> 'a SliceShare) list \<Rightarrow> ('r session, 'a VecShare list) comp" where
  "and_many_grouped N groups =
     (if \<not> list_all (\<lambda>(left, right). length (slice_shares left) = length (slice_shares right)) groups
      then cstop (Bail ''InvalidSize in and_many_grouped'')
      else
        let sizes = map (\<lambda>(left, _). length (slice_shares left)) groups;
            total = sum_list sizes;
            left = concat (map (\<lambda>(left, _). slice_shares left) groups);
            right = concat (map (\<lambda>(_, right). slice_shares right) groups)
        in cbind (and_many_iter_send N left right total) (\<lambda>local.
           cbind (and_many_receive N) (\<lambda>remote.
             if length local \<noteq> total \<or> length remote \<noteq> total then cstop (Bail ''InvalidSize returned by grouped AND'')
             else cret (map (\<lambda>(a, b). vs_from_ab a b) (zip (take_sizes sizes local) (take_sizes sizes remote))))))"

text \<open>The slices past the end of a received vector panic.\<close>

fun unflatten :: "nat list \<Rightarrow> 'a RingElement list \<Rightarrow> 'a RingElement list \<Rightarrow> proto_error + 'a VecShare list" where
  "unflatten [] a b = Inr []"
| "unflatten (l # ls) a b =
     (if length a < l \<or> length b < l then Inl Panicked
      else case unflatten ls (drop l a) (drop l b) of
             Inl e \<Rightarrow> Inl e
           | Inr rest \<Rightarrow> Inr (vs_from_ab (take l a) (take l b) # rest))"

definition transposed_pack_and :: "('r, 'a) net_int \<Rightarrow> 'a VecShare list \<Rightarrow> 'a VecShare list \<Rightarrow> ('r session, 'a VecShare list) comp" where
  "transposed_pack_and N x1 x2 =
     (if length x1 \<noteq> length x2 then cstop (Bail ''Inputs have different length'')
      else if \<not> list_all (\<lambda>(a, b). vs_len a = vs_len b) (zip x1 x2) then cstop (Bail ''VecShare lengths are not equal'')
      else
        let chunk_sizes = map vs_len x1; flattened_len = sum_list chunk_sizes
        in cbind (and_many_iter_send N (vs_flatten x1) (vs_flatten x2) flattened_len) (\<lambda>shares_a.
           cbind (and_many_receive N) (\<lambda>shares_b. ctry (unflatten chunk_sizes shares_a shares_b))))"

section \<open>Bit-sliced sharings\<close>

definition planes_sharing :: "'a int_ring2k \<Rightarrow> ('a \<Rightarrow> bool) \<Rightarrow> (PartyID \<Rightarrow> 'a VecShare list) \<Rightarrow> 'a RingElement list list \<Rightarrow> bool" where
  "planes_sharing R P x X \<longleftrightarrow> (\<forall>i. length (x i) = length X)
     \<and> (\<forall>p < length X. sharing_xor R P (\<lambda>i. shares (x i ! p)) (X ! p))"

lemma planes_sharing_nth:
  "planes_sharing R P x X \<Longrightarrow> p < length X \<Longrightarrow> sharing_xor R P (\<lambda>i. shares (x i ! p)) (X ! p)"
  by (simp add: planes_sharing_def)

lemma planes_sharing_length: "planes_sharing R P x X \<Longrightarrow> length (x i) = length X"
  by (simp add: planes_sharing_def)

lemma sharing_xor_nth:
  "sharing_xor R P r xs \<Longrightarrow> k < length xs \<Longrightarrow>
    replicated (col r k) \<and> share3_wf P (col r k) \<and> open_xor R (col r k) = xs ! k"
  by (simp add: sharing_xor_def shared_def)

lemma sharing_xorI:
  assumes "\<And>i. length (r i) = length xs"
    "\<And>k. k < length xs \<Longrightarrow> replicated (col r k) \<and> share3_wf P (col r k) \<and> open_xor R (col r k) = xs ! k"
  shows "sharing_xor R P r xs"
  using assms by (simp add: sharing_xor_def shared_def)

lemma col_append:
  assumes "\<And>i. length (r i) = n"
  shows "col (\<lambda>i. r i @ q i) k = (if k < n then col r k else col q (k - n))"
  using assms by (simp add: col_def nth_append)

lemma sharing_xor_append:
  assumes "sharing_xor R P r xs" "sharing_xor R P q ys"
  shows "sharing_xor R P (\<lambda>i. r i @ q i) (xs @ ys)"
proof (rule sharing_xorI)
  have len: "length (r i) = length xs" "length (q i) = length ys" for i
    using sharing_lengths(2) [OF assms(1)] sharing_lengths(2) [OF assms(2)] by simp_all
  then show "length (r i @ q i) = length (xs @ ys)" for i by simp
  fix k assume "k < length (xs @ ys)"
  then show "replicated (col (\<lambda>i. r i @ q i) k) \<and> share3_wf P (col (\<lambda>i. r i @ q i) k)
      \<and> open_xor R (col (\<lambda>i. r i @ q i) k) = (xs @ ys) ! k"
    using sharing_xor_nth [OF assms(1), of k] sharing_xor_nth [OF assms(2), of "k - length xs"]
    unfolding col_append [OF len(1)] nth_append by auto
qed

lemma sharing_xor_Nil: "(\<And>i. r i = []) \<Longrightarrow> sharing_xor R P r []"
  by (simp add: sharing_xor_def shared_def)

lemma sharing_xor_take_drop:
  assumes "sharing_xor R P r xs"
  shows "sharing_xor R P (\<lambda>i. take n (r i)) (take n xs)" "sharing_xor R P (\<lambda>i. drop n (r i)) (drop n xs)"
proof -
  have len: "length (r i) = length xs" for i using sharing_lengths(2) [OF assms] .
  show "sharing_xor R P (\<lambda>i. take n (r i)) (take n xs)"
  proof (rule sharing_xorI)
    fix k assume k: "k < length (take n xs)"
    then have "col (\<lambda>i. take n (r i)) k = col r k" by (simp add: col_def)
    with sharing_xor_nth [OF assms, of k] k show "replicated (col (\<lambda>i. take n (r i)) k) \<and> share3_wf P (col (\<lambda>i. take n (r i)) k)
        \<and> open_xor R (col (\<lambda>i. take n (r i)) k) = take n xs ! k" by simp
  qed (simp add: len)
  show "sharing_xor R P (\<lambda>i. drop n (r i)) (drop n xs)"
  proof (rule sharing_xorI)
    fix k assume k: "k < length (drop n xs)"
    then have "col (\<lambda>i. drop n (r i)) k = col r (n + k)" using len by (simp add: col_def)
    with sharing_xor_nth [OF assms, of "n + k"] k show "replicated (col (\<lambda>i. drop n (r i)) k) \<and> share3_wf P (col (\<lambda>i. drop n (r i)) k)
        \<and> open_xor R (col (\<lambda>i. drop n (r i)) k) = drop n xs ! k" by simp
  qed (simp add: len)
qed

text \<open>Flattening planes.\<close>

lemma planes_sharing_Cons:
  "planes_sharing R P x (X0 # X) \<longleftrightarrow>
     (\<exists>h y. x = (\<lambda>i. h i # y i) \<and> sharing_xor R P (\<lambda>i. shares (h i)) X0 \<and> planes_sharing R P y X)"
proof
  assume L: "planes_sharing R P x (X0 # X)"
  let ?h = "\<lambda>i. hd (x i)" and ?y = "\<lambda>i. tl (x i)"
  have len: "length (x i) = Suc (length X)" for i using L by (simp add: planes_sharing_def)
  then have eq: "x i = ?h i # ?y i" for i by (metis length_Suc_conv list.sel(1) list.sel(3))
  then have x: "x = (\<lambda>i. ?h i # ?y i)" by (rule ext)
  have "sharing_xor R P (\<lambda>i. shares (x i ! 0)) X0" using L by (auto simp: planes_sharing_def)
  moreover have "shares (x i ! 0) = shares (?h i)" for i using eq [of i] by (metis nth_Cons_0)
  moreover have "planes_sharing R P ?y X"
    unfolding planes_sharing_def
  proof (intro conjI allI impI)
    show "length (?y i) = length X" for i using len [of i] by simp
    fix p assume "p < length X"
    then have "sharing_xor R P (\<lambda>i. shares (x i ! Suc p)) (X ! p)" using L by (auto simp: planes_sharing_def)
    moreover have "x i ! Suc p = ?y i ! p" for i using eq [of i] by (metis nth_Cons_Suc)
    ultimately show "sharing_xor R P (\<lambda>i. shares (?y i ! p)) (X ! p)" by simp
  qed
  ultimately show "\<exists>h y. x = (\<lambda>i. h i # y i) \<and> sharing_xor R P (\<lambda>i. shares (h i)) X0 \<and> planes_sharing R P y X"
    using x by (intro exI [of _ ?h] exI [of _ ?y]) simp
next
  assume "\<exists>h y. x = (\<lambda>i. h i # y i) \<and> sharing_xor R P (\<lambda>i. shares (h i)) X0 \<and> planes_sharing R P y X"
  then show "planes_sharing R P x (X0 # X)" by (auto simp: planes_sharing_def nth_Cons split: nat.split)
qed

lemma planes_sharing_Nil: "planes_sharing R P x [] \<longleftrightarrow> x = (\<lambda>_. [])"
  by (auto simp: planes_sharing_def)

lemma planes_flatten: "planes_sharing R P x X \<Longrightarrow> sharing_xor R P (\<lambda>i. vs_flatten (x i)) (concat X)"
proof (induction X arbitrary: x)
  case Nil
  then show ?case by (auto simp: planes_sharing_Nil vs_flatten_def intro!: sharing_xor_Nil)
next
  case (Cons X0 X)
  then obtain h y where x: "x = (\<lambda>i. h i # y i)" "sharing_xor R P (\<lambda>i. shares (h i)) X0" "planes_sharing R P y X"
    by (auto simp: planes_sharing_Cons)
  from sharing_xor_append [OF x(2) Cons.IH [OF x(3)]] show ?case by (simp add: x(1) vs_flatten_def)
qed

text \<open>Splitting and joining planes.\<close>

lemma take_sizes_concat: "map length xss = ns \<Longrightarrow> take_sizes ns (concat xss) = xss"
  by (induction xss arbitrary: ns) auto

lemma length_take_sizes [simp]: "length (take_sizes ns xs) = length ns"
  by (induction ns arbitrary: xs) simp_all

context network_int
begin

lemma masked_xor:
  assumes "\<And>i. wf (convert (x i))" "\<And>i. wf (convert (e i))"
  defines "y \<equiv> \<lambda>i. re_xor ring (e i) (re_xor ring (x i) (x (prev_id i)))"
  shows "wf (convert (y i))" "xor3 ring (y ID0, y ID1, y ID2) = xor3 ring (e ID0, e ID1, e ID2)"
proof -
  show "wf (convert (y i))" unfolding y_def using assms(1,2) by (simp add: re_defs wf_intros)
  show "xor3 ring (y ID0, y ID1, y ID2) = xor3 ring (e ID0, e ID1, e ID2)"
    unfolding y_def using assms(1,2)
    by (auto simp add: re_defs wf_intros val_eq_iff val_xor bit_xor_iff intro!: bit_eqI)
qed

lemma masked_and:
  assumes "\<And>i. wf (convert (x i))" "replicated (a ID0, a ID1, a ID2)" "replicated (b ID0, b ID1, b ID2)"
    "share3_wf wf (a ID0, a ID1, a ID2)" "share3_wf wf (b ID0, b ID1, b ID2)"
  defines "y \<equiv> \<lambda>i. re_xor ring (share_and ring (a i) (b i)) (re_xor ring (x i) (x (prev_id i)))"
  shows "wf (convert (y i))" "xor3 ring (y ID0, y ID1, y ID2) = re_and ring (open_xor ring (a ID0, a ID1, a ID2)) (open_xor ring (b ID0, b ID1, b ID2))"
proof -
  have e: "wf (convert (share_and ring (a i) (b i)))" for i
    using assms(4,5) by (cases i) (simp_all add: share_arith wf_intros)
  show "wf (convert (y i))" unfolding y_def by (rule masked_xor(1) [OF assms(1) e])
  have "xor3 ring (y ID0, y ID1, y ID2) = xor3 ring (zip3 (share_and ring) (a ID0, a ID1, a ID2) (b ID0, b ID1, b ID2))"
    unfolding y_def zip3.simps by (rule masked_xor(2) [OF assms(1) e])
  then show "xor3 ring (y ID0, y ID1, y ID2) = re_and ring (open_xor ring (a ID0, a ID1, a ID2)) (open_xor ring (b ID0, b ID1, b ID2))"
    using local_and_opens [OF assms(2-5)] by simp
qed

text \<open>One round of AND gates on flat vectors.\<close>

lemma computes_and_round:
  fixes f :: "PartyID \<Rightarrow> 'a RingElement list \<Rightarrow> 'a RingElement list \<Rightarrow> ('r session, 'b) comp"
  assumes "sharing_xor ring wf a xs" "sharing_xor ring wf b ys" "length ys = length xs" "length xs < MAX_LEN"
    and cont: "\<And>s. (\<And>i. length (s i) = length xs) \<Longrightarrow> sharing_xor ring wf (rep_of s) (map2 (re_and ring) xs ys) \<Longrightarrow>
      computes addr sid (\<lambda>i. f i (s i) (s (prev_id i))) Q"
  shows "computes addr sid (\<lambda>i. cbind (and_many_iter_send N (a i) (b i) (length xs)) (\<lambda>sa. cbind (and_many_receive N) (f i sa))) Q"
  unfolding and_many_iter_send_def and_many_receive_def cbind_assoc
proof (rule computes_rands, unfold case_prod_conv Let_def cbind_assoc cbind_cret)
  fix x :: "PartyID \<Rightarrow> 'a VecRingElement"
  assume len: "\<And>i. length (elements (x i)) = length xs" and wfx: "\<And>i. wfs (elements (x i))"
  define s where "s = (\<lambda>i. map (\<lambda>(x, y, m, p). re_xor ring (share_and ring x y) (re_xor ring m p))
      (zip (a i) (zip (b i) (zip (elements (x i)) (elements (x (prev_id i)))))))"
  have lens: "length (a i) = length xs" "length (b i) = length xs" for i
    using sharing_lengths(2) [OF assms(1)] sharing_lengths(2) [OF assms(2)] assms(3) by simp_all
  have nth: "s i ! k = re_xor ring (share_and ring (a i ! k) (b i ! k)) (re_xor ring (elements (x i) ! k) (elements (x (prev_id i)) ! k))"
    if "k < length xs" for i k using that lens len by (simp add: s_def)
  have wfk: "wf (convert (elements (x i) ! k))" if "k < length xs" for i k using wfx len that by (metis nth_mem)
  have ok: "replicated (col a k) \<and> share3_wf wf (col a k) \<and> open_xor ring (col a k) = xs ! k"
    "replicated (col b k) \<and> share3_wf wf (col b k) \<and> open_xor ring (col b k) = ys ! k" if "k < length xs" for k
    using sharing_xor_nth [OF assms(1)] sharing_xor_nth [OF assms(2)] that assms(3) by simp_all
  have lensi: "length (s i) = length xs" for i using lens len by (simp add: s_def)
  note masked = masked_and [where a = "\<lambda>i. a i ! k" and b = "\<lambda>i. b i ! k" and x = "\<lambda>i. elements (x i) ! k" for k, folded col_def]
  have wfs: "wfs (s i)" for i
  proof
    fix e assume "e \<in> set (s i)"
    then obtain k where k: "k < length xs" "e = s i ! k" using lensi by (metis in_set_conv_nth)
    show "wf (convert e)"
      unfolding k(2) nth [OF k(1)] by (rule masked(1)) (use wfk ok k(1) in auto)
  qed
  have "xor3 ring (s ID0 ! k, s ID1 ! k, s ID2 ! k) = re_and ring (xs ! k) (ys ! k)" if "k < length xs" for k
    unfolding nth [OF that] conjunct2 [OF conjunct2 [OF ok(1) [OF that]], symmetric] conjunct2 [OF conjunct2 [OF ok(2) [OF that]], symmetric]
    by (rule masked(2)) (use wfk ok that in auto)
  then have res: "sharing_xor ring wf (rep_of s) (map2 (re_and ring) xs ys)"
    using shared_rep_of [of s "length xs" wf] wfs lensi assms(3) by (simp add: sharing_xor_def del: xor3.simps)
  have "\<exists>w. arrives (ring_vec_message N (VecRingElement (s i))) w \<and> into_vec N w = Ok (s i)" for i
    using ring_vec_arrives [of "VecRingElement (s i)"] wfs lensi assms(4) by (metis VecRingElement.sel)
  then obtain w where w: "arrives (ring_vec_message N (VecRingElement (s i))) (w i)" "into_vec N (w i) = Ok (s i)" for i by metis
  have "computes addr sid (\<lambda>i. cbind (send_next (ring_vec_message N (VecRingElement (s i)))) (\<lambda>_. cbind receive_prev (\<lambda>m.
      cbind (case m of Inl e \<Rightarrow> cstop (Bail ''Error in and_many_receive'') | Inr v \<Rightarrow> ctry (of_outcome (into_vec N v))) (f i (s i))))) Q"
    by (rule computes_send_next [where w = w, OF w(1)]) (simp add: w(2) cont [OF lensi res])
  then show "computes addr sid (\<lambda>i. cbind (send_ring_vec_next N (VecRingElement (map (\<lambda>(x, y, m, p). re_xor ring (share_and ring x y) (re_xor ring m p))
      (zip (a i) (zip (b i) (zip (elements (x i)) (elements (x (prev_id i))))))))) (\<lambda>_. cbind receive_prev (\<lambda>m.
      cbind (case m of Inl e \<Rightarrow> cstop (Bail ''Error in and_many_receive'') | Inr v \<Rightarrow> ctry (of_outcome (into_vec N v))) (f i
        (map (\<lambda>(x, y, m, p). re_xor ring (share_and ring x y) (re_xor ring m p))
      (zip (a i) (zip (b i) (zip (elements (x i)) (elements (x (prev_id i)))))))))) :: ('r session, 'b) comp) Q"
    unfolding send_ring_vec_next_eq s_def by simp
qed

lemma computes_and_many:
  assumes "sharing_xor ring wf (\<lambda>i. shares (a i)) xs" "sharing_xor ring wf (\<lambda>i. shares (b i)) ys" "length ys = length xs" "length xs < MAX_LEN"
  shows "computes addr sid (\<lambda>i. and_many N (vs_as_slice (a i)) (vs_as_slice (b i)))
    (\<lambda>r. sharing_xor ring wf (\<lambda>i. shares (r i)) (map2 (re_and ring) xs ys))"
proof -
  have lens: "length (shares (a i)) = length xs" "length (shares (b i)) = length xs" for i
    using sharing_lengths(2) [OF assms(1)] sharing_lengths(2) [OF assms(2)] assms(3) by simp_all
  show ?thesis
    unfolding and_many_def and_many_send_def vs_as_slice_def
    by (simp add: lens, rule computes_and_round [OF assms]) (auto simp: vs_from_ab_def rep_of_def [abs_def] intro!: computes_cret)
qed

end

text \<open>Cutting a flat sharing back into planes.\<close>

definition cut_planes :: "nat list \<Rightarrow> 'a RingElement list \<Rightarrow> 'a RingElement list \<Rightarrow> 'a VecShare list" where
  "cut_planes ls a b = map (\<lambda>(x, y). vs_from_ab x y) (zip (take_sizes ls a) (take_sizes ls b))"

lemma unflatten_eq:
  "length a = sum_list ls \<Longrightarrow> length b = sum_list ls \<Longrightarrow> unflatten ls a b = Inr (cut_planes ls a b)"
  by (induction ls arbitrary: a b) (simp_all add: cut_planes_def)

lemma rep_of_take_drop:
  "rep_of (\<lambda>i. take n (s i)) = (\<lambda>i. take n (rep_of s i))" "rep_of (\<lambda>i. drop n (s i)) = (\<lambda>i. drop n (rep_of s i))"
  by (simp_all add: rep_of_def fun_eq_iff take_map take_zip drop_map drop_zip)

lemma planes_cut:
  "sharing_xor R P (rep_of s) (concat Z) \<Longrightarrow>
    planes_sharing R P (\<lambda>i. cut_planes (map length Z) (s i) (s (prev_id i))) Z"
proof (induction Z arbitrary: s)
  case Nil
  then show ?case by (simp add: planes_sharing_def cut_planes_def)
next
  case (Cons z Z)
  let ?t = "\<lambda>i. take (length z) (s i)" and ?d = "\<lambda>i. drop (length z) (s i)"
  have t: "sharing_xor R P (rep_of ?t) z" and d: "sharing_xor R P (rep_of ?d) (concat Z)"
    using sharing_xor_take_drop [OF Cons.prems, of "length z"] by (simp_all add: rep_of_take_drop)
  have "sharing_xor R P (\<lambda>i. shares (vs_from_ab (?t i) (?t (prev_id i)))) z"
    using t by (simp add: vs_from_ab_def rep_of_def [abs_def])
  with Cons.IH [OF d] show ?case
    unfolding planes_sharing_Cons
    by (intro exI [of _ "\<lambda>i. vs_from_ab (?t i) (?t (prev_id i))"]
        exI [of _ "\<lambda>i. cut_planes (map length Z) (?d i) (?d (prev_id i))"]) (simp add: cut_planes_def)
qed

lemma concat_map2:
  "map length xss = map length yss \<Longrightarrow> map2 f (concat xss) (concat yss) = concat (map2 (map2 f) xss yss)"
proof (induction xss arbitrary: yss)
  case (Cons xs xss)
  then obtain ys yss' where "yss = ys # yss'" by (cases yss) auto
  with Cons show ?case by simp
qed simp

lemma lengths_map2: "map length xss = map length yss \<Longrightarrow> map length (map2 (map2 f) xss yss) = map length xss"
proof (induction xss arbitrary: yss)
  case (Cons xs xss)
  then obtain ys yss' where "yss = ys # yss'" by (cases yss) auto
  with Cons show ?case by simp
qed simp

lemma planes_lengths: "planes_sharing R P x X \<Longrightarrow> map vs_len (x i) = map length X"
  unfolding planes_sharing_def vs_len_def
  by (intro nth_equalityI) (use sharing_lengths(2) in \<open>fastforce+\<close>)

text \<open>Exclusive or of planes.\<close>

context network_int
begin

lemma xor_sharing:
  assumes "sharing_xor ring wf a xs" "sharing_xor ring wf b ys" "length ys = length xs"
  shows "sharing_xor ring wf (\<lambda>i. map (\<lambda>(x, y). share_xor ring x y) (zip (a i) (b i))) (map2 (re_xor ring) xs ys)"
proof (rule sharing_xorI)
  have lens: "length (a i) = length xs" "length (b i) = length xs" for i
    using sharing_lengths(2) [OF assms(1)] sharing_lengths(2) [OF assms(2)] assms(3) by simp_all
  then show "length (map (\<lambda>(x, y). share_xor ring x y) (zip (a i) (b i))) = length (map2 (re_xor ring) xs ys)" for i
    using assms(3) by simp
  fix k assume "k < length (map2 (re_xor ring) xs ys)"
  then have k: "k < length xs" by simp
  have "col (\<lambda>i. map (\<lambda>(x, y). share_xor ring x y) (zip (a i) (b i))) k = zip3 (share_xor ring) (col a k) (col b k)"
    using k lens by (simp add: col_def)
  with sharing_xor_nth [OF assms(1) k] sharing_xor_nth [OF assms(2), of k] k assms(3)
  show "replicated (col (\<lambda>i. map (\<lambda>(x, y). share_xor ring x y) (zip (a i) (b i))) k)
      \<and> share3_wf wf (col (\<lambda>i. map (\<lambda>(x, y). share_xor ring x y) (zip (a i) (b i))) k)
      \<and> open_xor ring (col (\<lambda>i. map (\<lambda>(x, y). share_xor ring x y) (zip (a i) (b i))) k) = map2 (re_xor ring) xs ys ! k"
    using ops_replicated(3) [of "col a k" "col b k"] bitwise_ops_open(1) [of "col a k" "col b k"]
    by (cases "col a k"; cases "col b k") (auto simp: share_arith wf_intros)
qed

end

lemma zip_assign_eq: "length xs = length ys \<Longrightarrow> zip_assign f xs ys = map (\<lambda>(x, y). f x y) (zip xs ys)"
  by (induction f xs ys rule: zip_assign.induct) auto

lemma zip_assign_cong: "length xs = length ys \<Longrightarrow> (\<And>k. k < length xs \<Longrightarrow> f (xs ! k) (ys ! k) = g (xs ! k) (ys ! k)) \<Longrightarrow>
    zip_assign f xs ys = map (\<lambda>(x, y). g x y) (zip xs ys)"
  by (simp add: zip_assign_eq list_eq_iff_nth_eq)

lemma vs_xors_eq:
  "length (shares a) = length (shares b) \<Longrightarrow> vs_xor_assign_slice R a (vs_as_slice b) = vs_xor R a b"
  "length (shares a) = length (shares b) \<Longrightarrow> vs_xor_assign R a b = vs_xor R a b"
  "slice_xor R (vs_as_slice a) (vs_as_slice b) = vs_xor R a b"
  by (simp_all add: vs_xor_assign_slice_def vs_xor_assign_def vs_as_slice_def vs_xor_def slice_xor_def zip_assign_eq assign_eq)

context network_int
begin

lemma vs_xor_sharing:
  assumes "sharing_xor ring wf (\<lambda>i. shares (a i)) xs" "sharing_xor ring wf (\<lambda>i. shares (b i)) ys" "length ys = length xs"
  shows "sharing_xor ring wf (\<lambda>i. shares (vs_xor ring (a i) (b i))) (map2 (re_xor ring) xs ys)"
  using xor_sharing [OF assms] by (simp add: vs_xor_def)

lemma planes_xor:
  assumes "planes_sharing ring wf x X" "planes_sharing ring wf y Y" "map length X = map length Y"
  shows "planes_sharing ring wf (\<lambda>i. map (\<lambda>(a, b). vs_xor ring a b) (zip (x i) (y i))) (map2 (map2 (re_xor ring)) X Y)"
proof -
  have lenY: "length Y = length X" using assms(3) by (metis length_map)
  then have len: "length (x i) = length X" "length (y i) = length X" "length Y = length X" for i
    using planes_sharing_length [OF assms(1)] planes_sharing_length [OF assms(2)] by simp_all
  have lenp: "length (Y ! p) = length (X ! p)" if "p < length X" for p using assms(3) that len(3) by (metis nth_map)
  show ?thesis
    unfolding planes_sharing_def
  proof (intro conjI allI impI)
    fix p assume "p < length (map2 (map2 (re_xor ring)) X Y)"
    then have p: "p < length X" by simp
    from vs_xor_sharing [OF planes_sharing_nth [OF assms(1) p] planes_sharing_nth [OF assms(2)] lenp [OF p]] p len
    show "sharing_xor ring wf (\<lambda>i. shares (map (\<lambda>(a, b). vs_xor ring a b) (zip (x i) (y i)) ! p)) (map2 (map2 (re_xor ring)) X Y ! p)"
      by simp
  qed (simp add: len)
qed

lemma pack_xors_eq:
  assumes "planes_sharing ring wf x X" "planes_sharing ring wf y Y" "map length X = map length Y"
  shows "transposed_pack_xor ring (x i) (y i) = map (\<lambda>(a, b). vs_xor ring a b) (zip (x i) (y i))"
    "transposed_pack_xor_assign ring (x i) (y i) = map (\<lambda>(a, b). vs_xor ring a b) (zip (x i) (y i))"
proof -
  show "transposed_pack_xor ring (x i) (y i) = map (\<lambda>(a, b). vs_xor ring a b) (zip (x i) (y i))"
    by (simp add: transposed_pack_xor_def vs_xors_eq(3))
  have len: "map vs_len (x i) = map vs_len (y i)"
    using planes_lengths [OF assms(1)] planes_lengths [OF assms(2)] assms(3) by simp
  then have "length (x i) = length (y i)" by (metis length_map)
  moreover have "length (shares (x i ! k)) = length (shares (y i ! k))" if "k < length (x i)" for k
    using arg_cong [OF len, where f = "\<lambda>l. l ! k"] that calculation by (simp add: vs_len_def)
  ultimately show "transposed_pack_xor_assign ring (x i) (y i) = map (\<lambda>(a, b). vs_xor ring a b) (zip (x i) (y i))"
    unfolding transposed_pack_xor_assign_def by (intro zip_assign_cong) (simp_all add: vs_xors_eq(1))
qed

lemma computes_pack_and:
  assumes "planes_sharing ring wf x X" "planes_sharing ring wf y Y" "map length X = map length Y" "sum_list (map length X) < MAX_LEN"
  shows "computes addr sid (\<lambda>i. transposed_pack_and N (x i) (y i)) (\<lambda>r. planes_sharing ring wf r (map2 (map2 (re_and ring)) X Y))"
proof -
  have "length Y = length X" using assms(3) by (metis length_map)
  then have len: "length (x i) = length X" "length (y i) = length X" for i
    using planes_sharing_length [OF assms(1)] planes_sharing_length [OF assms(2)] by simp_all
  have sizes: "map vs_len (x i) = map length X" "map vs_len (y i) = map length X" for i
    using planes_lengths [OF assms(1)] planes_lengths [OF assms(2)] assms(3) by simp_all
  then have "vs_len (x i ! k) = vs_len (y i ! k)" if "k < length X" for i k
    using len that by (metis nth_map)
  then have same: "list_all (\<lambda>(a, b). vs_len a = vs_len b) (zip (x i) (y i))" for i
    using len by (simp add: list_all_length)
  have total: "sum_list (map length X) = length (concat X)" by (simp add: length_concat)
  have eq: "map2 (re_and ring) (concat X) (concat Y) = concat (map2 (map2 (re_and ring)) X Y)" by (rule concat_map2 [OF assms(3)])
  have ls: "map length (map2 (map2 (re_and ring)) X Y) = map length X" by (rule lengths_map2 [OF assms(3)])
  show ?thesis
    unfolding transposed_pack_and_def len sizes Let_def total
  proof (simp add: same, rule computes_and_round [OF planes_flatten [OF assms(1)] planes_flatten [OF assms(2)]])
    show "length (concat Y) = length (concat X)" using assms(3) by (simp add: length_concat)
    show "length (concat X) < MAX_LEN" using assms(4) total by simp
    fix s :: "PartyID \<Rightarrow> 'a RingElement list"
    assume lens: "\<And>i. length (s i) = length (concat X)" and s: "sharing_xor ring wf (rep_of s) (map2 (re_and ring) (concat X) (concat Y))"
    have "unflatten (map length X) (s i) (s (prev_id i)) = Inr (cut_planes (map length X) (s i) (s (prev_id i)))" for i
      by (rule unflatten_eq) (simp_all add: lens length_concat)
    moreover have "planes_sharing ring wf (\<lambda>i. cut_planes (map length X) (s i) (s (prev_id i))) (map2 (map2 (re_and ring)) X Y)"
      using planes_cut [OF s [unfolded eq]] unfolding ls .
    ultimately show "computes addr sid (\<lambda>i. ctry (unflatten (map length X) (s i) (s (prev_id i))) :: ('r session, 'a VecShare list) comp)
        (\<lambda>r. planes_sharing ring wf r (map2 (map2 (re_and ring)) X Y))"
      by (simp add: computes_cret)
  qed
qed

end

lemma map_zip_side:
  "length xs = length ys \<Longrightarrow> map (\<lambda>(x, _). f x) (zip xs ys) = map f xs"
  "length xs = length ys \<Longrightarrow> map (\<lambda>(_, y). g y) (zip xs ys) = map g ys"
  by (auto intro: nth_equalityI)

context network_int
begin

lemma computes_grouped:
  assumes "planes_sharing ring wf x X" "planes_sharing ring wf y Y" "map length X = map length Y" "sum_list (map length X) < MAX_LEN"
  shows "computes addr sid (\<lambda>i. and_many_grouped N (zip (map vs_as_slice (x i)) (map vs_as_slice (y i))))
    (\<lambda>r. planes_sharing ring wf r (map2 (map2 (re_and ring)) X Y))"
proof -
  have "length Y = length X" using assms(3) by (metis length_map)
  then have len: "length (x i) = length X" "length (y i) = length X" for i
    using planes_sharing_length [OF assms(1)] planes_sharing_length [OF assms(2)] by simp_all
  have sizes: "map vs_len (x i) = map length X" "map vs_len (y i) = map length X" for i
    using planes_lengths [OF assms(1)] planes_lengths [OF assms(2)] assms(3) by simp_all
  then have "vs_len (x i ! k) = vs_len (y i ! k)" if "k < length X" for i k
    using len that by (metis nth_map)
  then have same: "list_all (\<lambda>(left, right). length (slice_shares left) = length (slice_shares right))
      (zip (map vs_as_slice (x i)) (map vs_as_slice (y i)))" for i
    using len by (simp add: list_all_length vs_len_def vs_as_slice_def)
  have size: "map (\<lambda>(left, _). length (slice_shares left)) (zip (map vs_as_slice (x i)) (map vs_as_slice (y i))) = map length X" for i
    using sizes(1) [of i] len by (simp add: map_zip_side vs_as_slice_def vs_len_def [abs_def] comp_def)
  have flat: "concat (map (\<lambda>(left, _). slice_shares left) (zip (map vs_as_slice (x i)) (map vs_as_slice (y i)))) = vs_flatten (x i)"
    "concat (map (\<lambda>(_, right). slice_shares right) (zip (map vs_as_slice (x i)) (map vs_as_slice (y i)))) = vs_flatten (y i)" for i
    using len by (simp_all add: map_zip_side vs_flatten_def vs_as_slice_def comp_def)
  have total: "sum_list (map length X) = length (concat X)" by (simp add: length_concat)
  have eq: "map2 (re_and ring) (concat X) (concat Y) = concat (map2 (map2 (re_and ring)) X Y)" by (rule concat_map2 [OF assms(3)])
  have ls: "map length (map2 (map2 (re_and ring)) X Y) = map length X" by (rule lengths_map2 [OF assms(3)])
  show ?thesis
    unfolding and_many_grouped_def Let_def flat size total
  proof (simp add: same, rule computes_and_round [OF planes_flatten [OF assms(1)] planes_flatten [OF assms(2)]])
    show "length (concat Y) = length (concat X)" using assms(3) by (simp add: length_concat)
    show "length (concat X) < MAX_LEN" using assms(4) total by simp
    fix s :: "PartyID \<Rightarrow> 'a RingElement list"
    assume lens: "\<And>i. length (s i) = length (concat X)" and s: "sharing_xor ring wf (rep_of s) (map2 (re_and ring) (concat X) (concat Y))"
    have "planes_sharing ring wf (\<lambda>i. cut_planes (map length X) (s i) (s (prev_id i))) (map2 (map2 (re_and ring)) X Y)"
      using planes_cut [OF s [unfolded eq]] unfolding ls .
    then show "computes addr sid (\<lambda>i. if length (s i) = length (concat X) \<longrightarrow> length (s (prev_id i)) \<noteq> length (concat X)
        then cstop (Bail ''InvalidSize returned by grouped AND'')
        else cret (map2 vs_from_ab (take_sizes (map length X) (s i)) (take_sizes (map length X) (s (prev_id i)))) :: ('r session, 'a VecShare list) comp)
      (\<lambda>r. planes_sharing ring wf r (map2 (map2 (re_and ring)) X Y))"
      by (simp add: lens cut_planes_def computes_cret)
  qed
qed

end

section \<open>Planes of 64-bit words\<close>

text \<open>
  The circuits run on 64-bit words. A sharing of \<open>W\<close> words is described by a function of the
  word, a sharing of \<open>n\<close> planes by a function of the plane and the word.
\<close>

definition word_plane :: "nat \<Rightarrow> (PartyID \<Rightarrow> u64 VecShare) \<Rightarrow> (nat \<Rightarrow> u64) \<Rightarrow> bool" where
  "word_plane W x v \<longleftrightarrow> sharing_xor word_ring (\<lambda>_. True) (\<lambda>i. shares (x i)) (map (\<lambda>k. RingElement (v k)) [0..<W])"

definition word_planes :: "nat \<Rightarrow> nat \<Rightarrow> (PartyID \<Rightarrow> u64 VecShare list) \<Rightarrow> (nat \<Rightarrow> nat \<Rightarrow> u64) \<Rightarrow> bool" where
  "word_planes n W x v \<longleftrightarrow> (\<forall>i. length (x i) = n) \<and> (\<forall>p < n. word_plane W (\<lambda>i. x i ! p) (v p))"

lemma word_plane_length: "word_plane W x v \<Longrightarrow> length (shares (x i)) = W"
  unfolding word_plane_def using sharing_lengths(2) by fastforce

lemma word_planes_length: "word_planes n W x v \<Longrightarrow> length (x i) = n"
  by (simp add: word_planes_def)

lemma word_planes_nth: "word_planes n W x v \<Longrightarrow> p < n \<Longrightarrow> word_plane W (\<lambda>i. x i ! p) (v p)"
  by (simp add: word_planes_def)

lemma word_planes_sharing:
  "word_planes n W x v \<longleftrightarrow> planes_sharing word_ring (\<lambda>_. True) x (map (\<lambda>p. map (\<lambda>k. RingElement (v p k)) [0..<W]) [0..<n])"
  by (auto simp: word_planes_def planes_sharing_def word_plane_def)

lemma word_plane_cong: "word_plane W x v \<Longrightarrow> (\<And>k. k < W \<Longrightarrow> v k = u k) \<Longrightarrow> word_plane W x u"
  unfolding word_plane_def by (metis (mono_tags, lifting) atLeastLessThan_iff map_eq_conv set_upt)

lemma word_planes_select:
  assumes "word_planes n W x v" "\<And>i. y i = map (\<lambda>q. x i ! f q) [0..<m]" "\<And>q. q < m \<Longrightarrow> f q < n"
  shows "word_planes m W y (\<lambda>q. v (f q))"
  using assms by (simp add: word_planes_def)

lemma word_planes_cong: "word_planes n W x v \<Longrightarrow> (\<And>p k. p < n \<Longrightarrow> k < W \<Longrightarrow> v p k = u p k) \<Longrightarrow> word_planes n W x u"
  unfolding word_planes_def by (meson word_plane_cong)

lemma word_planes_append:
  assumes "word_planes n W x v" "word_planes m W y u"
  shows "word_planes (n + m) W (\<lambda>i. x i @ y i) (\<lambda>p. if p < n then v p else u (p - n))"
  unfolding word_planes_def
proof (intro conjI allI impI)
  show "length (x i @ y i) = n + m" for i using assms by (simp add: word_planes_def)
  fix p assume "p < n + m"
  then show "word_plane W (\<lambda>i. (x i @ y i) ! p) (if p < n then v p else u (p - n))"
    using word_planes_nth [OF assms(1), of p] word_planes_nth [OF assms(2), of "p - n"] word_planes_length [OF assms(1)]
    by (simp add: nth_append)
qed

lemma word_planes_take_drop:
  assumes "word_planes n W x v" "m \<le> n"
  shows "word_planes m W (\<lambda>i. take m (x i)) v" "word_planes (n - m) W (\<lambda>i. drop m (x i)) (\<lambda>p. v (p + m))"
  using assms by (auto simp: word_planes_def add.commute)

lemma word_planes_butlast_last:
  assumes "word_planes n W x v" "0 < n"
  shows "word_planes (n - 1) W (\<lambda>i. butlast (x i)) v" "word_plane W (\<lambda>i. last (x i)) (v (n - 1))"
proof -
  show "word_planes (n - 1) W (\<lambda>i. butlast (x i)) v"
    using word_planes_take_drop(1) [OF assms(1), of "n - 1"] assms by (simp add: butlast_conv_take word_planes_length)
  have "x i \<noteq> []" for i using word_planes_length [OF assms(1), of i] assms(2) by auto
  then have "last (x i) = x i ! (n - 1)" for i using word_planes_length [OF assms(1), of i] by (simp add: last_conv_nth)
  then show "word_plane W (\<lambda>i. last (x i)) (v (n - 1))" using word_planes_nth [OF assms(1), of "n - 1"] assms(2) by simp
qed

lemma word_planes_snoc:
  assumes "word_planes n W x v" "word_plane W y u"
  shows "word_planes (Suc n) W (\<lambda>i. x i @ [y i]) (\<lambda>p. if p < n then v p else u)"
  using word_planes_append [OF assms(1), of 1 "\<lambda>i. [y i]" "\<lambda>_. u"] assms(2) by (simp add: word_planes_def)

lemma word_plane_xor:
  assumes "word_plane W x v" "word_plane W y u"
  shows "word_plane W (\<lambda>i. vs_xor word_ring (x i) (y i)) (\<lambda>k. v k XOR u k)"
    "vs_xor_assign_slice word_ring (x i) (vs_as_slice (y i)) = vs_xor word_ring (x i) (y i)"
    "vs_xor_assign word_ring (x i) (y i) = vs_xor word_ring (x i) (y i)"
proof -
  have eq: "map2 (re_xor word_ring) (map (\<lambda>k. RingElement (v k)) [0..<W]) (map (\<lambda>k. RingElement (u k)) [0..<W]) =
      map (\<lambda>k. RingElement (v k XOR u k)) [0..<W]"
    by (auto intro!: nth_equalityI simp: re_xor_def)
  show "word_plane W (\<lambda>i. vs_xor word_ring (x i) (y i)) (\<lambda>k. v k XOR u k)"
    using net64.vs_xor_sharing [unfolded ni_ring_simps, OF assms [unfolded word_plane_def]] by (simp add: word_plane_def eq)
  show "vs_xor_assign_slice word_ring (x i) (vs_as_slice (y i)) = vs_xor word_ring (x i) (y i)"
    "vs_xor_assign word_ring (x i) (y i) = vs_xor word_ring (x i) (y i)"
    using word_plane_length [OF assms(1)] word_plane_length [OF assms(2)] by (simp_all add: vs_xors_eq)
qed

lemma map2_words:
  assumes "\<And>x y. g (RingElement x) (RingElement y) = RingElement (f x y)"
  shows "map2 (map2 g) (map (\<lambda>p. map (\<lambda>k. RingElement (v p k)) [0..<W]) [0..<n]) (map (\<lambda>p. map (\<lambda>k. RingElement (u p k)) [0..<W]) [0..<n]) =
    map (\<lambda>p. map (\<lambda>k. RingElement (f (v p k) (u p k))) [0..<W]) [0..<n]"
  by (intro nth_equalityI) (simp_all add: assms)

lemma word_planes_xor:
  assumes "word_planes n W x v" "word_planes n W y u"
  shows "word_planes n W (\<lambda>i. transposed_pack_xor word_ring (x i) (y i)) (\<lambda>p k. v p k XOR u p k)"
    "word_planes n W (\<lambda>i. transposed_pack_xor_assign word_ring (x i) (y i)) (\<lambda>p k. v p k XOR u p k)"
proof -
  note x = assms(1) [unfolded word_planes_sharing] and y = assms(2) [unfolded word_planes_sharing]
  have len: "map length (map (\<lambda>p. map (\<lambda>k. RingElement (v p k)) [0..<W]) [0..<n]) = map length (map (\<lambda>p. map (\<lambda>k. RingElement (u p k)) [0..<W]) [0..<n])"
    by simp
  have r: "re_xor word_ring (RingElement a) (RingElement b) = RingElement (a XOR b)" for a b :: u64 by (simp add: re_xor_def)
  from net64.planes_xor [unfolded ni_ring_simps, OF x y len]
  have "word_planes n W (\<lambda>i. map (\<lambda>(a, b). vs_xor word_ring a b) (zip (x i) (y i))) (\<lambda>p k. v p k XOR u p k)"
    unfolding word_planes_sharing map2_words [where f = "(XOR)" and g = "re_xor word_ring", OF r] .
  then show "word_planes n W (\<lambda>i. transposed_pack_xor word_ring (x i) (y i)) (\<lambda>p k. v p k XOR u p k)"
    "word_planes n W (\<lambda>i. transposed_pack_xor_assign word_ring (x i) (y i)) (\<lambda>p k. v p k XOR u p k)"
    using net64.pack_xors_eq [unfolded ni_ring_simps, OF x y len] by simp_all
qed

lemma computes_word_and:
  fixes G :: "'r prf_rng"
  assumes "word_plane W x v" "word_plane W y u" "W < MAX_LEN"
  shows "computes addr sid (\<lambda>i. and_many (net_u64 G) (vs_as_slice (x i)) (vs_as_slice (y i)) :: ('r session, u64 VecShare) comp)
    (\<lambda>r. word_plane W r (\<lambda>k. v k AND u k))"
proof -
  have eq: "map2 (re_and word_ring) (map (\<lambda>k. RingElement (v k)) [0..<W]) (map (\<lambda>k. RingElement (u k)) [0..<W]) =
      map (\<lambda>k. RingElement (v k AND u k)) [0..<W]"
    by (auto intro!: nth_equalityI simp: re_and_def)
  show ?thesis
    using net64.computes_and_many [unfolded ni_ring_simps, OF assms(1,2) [unfolded word_plane_def], where G = G and addr = addr and sid = sid] assms(3)
    by (simp add: word_plane_def eq)
qed

lemma computes_words_and:
  fixes G :: "'r prf_rng"
  assumes "word_planes n W x v" "word_planes n W y u" "n * W < MAX_LEN"
  shows "computes addr sid (\<lambda>i. transposed_pack_and (net_u64 G) (x i) (y i) :: ('r session, u64 VecShare list) comp)
      (\<lambda>r. word_planes n W r (\<lambda>p k. v p k AND u p k))"
    "computes addr sid (\<lambda>i. and_many_grouped (net_u64 G) (zip (map vs_as_slice (x i)) (map vs_as_slice (y i))) :: ('r session, u64 VecShare list) comp)
      (\<lambda>r. word_planes n W r (\<lambda>p k. v p k AND u p k))"
proof -
  note x = assms(1) [unfolded word_planes_sharing] and y = assms(2) [unfolded word_planes_sharing]
  have len: "map length (map (\<lambda>p. map (\<lambda>k. RingElement (v p k)) [0..<W]) [0..<n]) = map length (map (\<lambda>p. map (\<lambda>k. RingElement (u p k)) [0..<W]) [0..<n])"
    by simp
  have r: "re_and word_ring (RingElement a) (RingElement b) = RingElement (a AND b)" for a b :: u64 by (simp add: re_and_def)
  have sum: "sum_list (map length (map (\<lambda>p. map (\<lambda>k. RingElement (v p k)) [0..<W]) [0..<n])) < MAX_LEN"
    using assms(3) by (simp add: comp_def sum_list_triv)
  show "computes addr sid (\<lambda>i. transposed_pack_and (net_u64 G) (x i) (y i) :: ('r session, u64 VecShare list) comp)
      (\<lambda>r. word_planes n W r (\<lambda>p k. v p k AND u p k))"
    "computes addr sid (\<lambda>i. and_many_grouped (net_u64 G) (zip (map vs_as_slice (x i)) (map vs_as_slice (y i))) :: ('r session, u64 VecShare list) comp)
      (\<lambda>r. word_planes n W r (\<lambda>p k. v p k AND u p k))"
    using net64.computes_pack_and [unfolded ni_ring_simps, OF x y len sum, where G = G] net64.computes_grouped [unfolded ni_ring_simps, OF x y len sum, where G = G]
    unfolding word_planes_sharing map2_words [where f = "(AND)" and g = "re_and word_ring", OF r] by blast+
qed

end
