(* ===== verification/Two_Way_Split.thy ===== *)
theory Two_Way_Split
  imports Binary_Gates
begin

text \<open>
  The arithmetic to binary conversion of \<open>ampc-actor-utils/src/protocol/binary.rs\<close>
  (\<open>two_way_split\<close>): the input is cut into three pieces, and each party reshares the sum of
  its two components for one of them, so that every value becomes a sum of two binary shared
  values. Which party starts depends on the session identifier; the messages form a chain.
\<close>

section \<open>Operations\<close>

record 'a VecBinShare =
  bin_inner :: "'a VecShare"

definition vbs_from_ab :: "'a RingElement list \<Rightarrow> 'a RingElement list \<Rightarrow> 'a VecBinShare" where
  "vbs_from_ab a b = \<lparr>bin_inner = vs_from_ab a b\<rparr>"

definition vbs_len :: "'a VecBinShare \<Rightarrow> nat" where
  "vbs_len self = vs_len (bin_inner self)"

definition vbs_get_word_at :: "'a VecBinShare \<Rightarrow> nat \<Rightarrow> 'a share option" where
  "vbs_get_word_at self idx = vs_get_at (bin_inner self) idx"

definition zero_iter :: "'a int_ring2k \<Rightarrow> nat \<Rightarrow> 'a RingElement list" where
  "zero_iter R len = replicate len (re_zero R)"

definition piece_lens :: "nat \<Rightarrow> nat list" where
  "piece_lens len =
     (let piece_len1 = len div 3;
          piece_len2 = (len - piece_len1) div 2;
          piece_len3 = len - piece_len1 - piece_len2
      in [piece_len1, piece_len2, piece_len3])"

text \<open>Single draws in a row.\<close>

fun gen_list :: "('r, 'a) net_int \<Rightarrow> nat \<Rightarrow> 'r \<Rightarrow> 'a RingElement list \<times> 'r" where
  "gen_list N 0 r = ([], r)"
| "gen_list N (Suc n) r = (let (x, r') = gen_re N r; (xs, r'') = gen_list N n r' in (x # xs, r''))"

text \<open>The loop over the pieces; the break leaves it when the input is used up.\<close>

fun split_pieces :: "('r, 'a) net_int \<Rightarrow> nat \<Rightarrow> (nat \<times> nat) list \<Rightarrow> 'a share list
    \<Rightarrow> 'a RingElement list \<times> 'a RingElement list \<times> 'a RingElement list \<times> 'a RingElement list
    \<Rightarrow> ('r session, 'a RingElement list \<times> 'a RingElement list \<times> 'a RingElement list \<times> 'a RingElement list) comp" where
  "split_pieces N my_index [] input acc = cret acc"
| "split_pieces N my_index ((chunk_id, piece_len) # rest) input (s1_a, s1_b, s2_a, s2_b) =
     (if input = [] then cret (s1_a, s1_b, s2_a, s2_b)
      else
        let R = ni_ring N; chunk = take piece_len input; input' = drop piece_len input
        in if chunk_id = my_index then
             let a = VecRingElement (map share_a chunk); b = VecRingElement (map share_b chunk)
             in cbind (draw_prev (gen_list N (vre_len a))) (\<lambda>r_prev.
                cbind (ctry (of_bail (vre_add R a b))) (\<lambda>ab.
                cbind (ctry (of_bail (vre_xor R ab (VecRingElement r_prev)))) (\<lambda>t.
                cbind (send_ring_vec_next N t) (\<lambda>_.
                  let zs = zero_iter R (vre_len t)
                  in split_pieces N my_index rest input' (s1_a @ elements t, s1_b @ r_prev, s2_a @ zs, s2_b @ zs)))))
           else if (chunk_id + 1) mod 3 = my_index then
             let c = map share_a chunk
             in cbind (receive_ring_vec_prev N) (\<lambda>t.
                  let zs = zero_iter R (vre_len t)
                  in split_pieces N my_index rest input' (s1_a @ zs, s1_b @ elements t, s2_a @ c, s2_b @ zs))
           else
             let c = map share_b chunk
             in cbind (draw_mine (gen_list N (length c))) (\<lambda>r_next.
                  let zs = zero_iter R (length c)
                  in split_pieces N my_index rest input' (s1_a @ r_next, s1_b @ zs, s2_a @ zs, s2_b @ c)))"

definition two_way_split :: "('r, 'a) net_int \<Rightarrow> 'a VecShare \<Rightarrow> ('r session, 'a VecBinShare \<times> 'a VecBinShare) comp" where
  "two_way_split N input =
     cbind (cread own_role) (\<lambda>role.
     cbind (cread session_id) (\<lambda>sid.
     cbind (split_pieces N ((role_index role + unat sid) mod 3) (enumerate 0 (piece_lens (vs_len input))) (shares input) ([], [], [], []))
       (\<lambda>(s1_a, s1_b, s2_a, s2_b). cret (vbs_from_ab s1_a s1_b, vbs_from_ab s2_a s2_b))))"

section \<open>The pieces\<close>

lemma length_gen_list [simp]: "length (fst (gen_list N n r)) = n"
  by (induction n arbitrary: r) (simp_all add: split_def Let_def)

text \<open>Piece \<open>c\<close> of a list.\<close>

definition piece :: "nat \<Rightarrow> 'b list \<Rightarrow> 'b list" where
  "piece c xs = take (piece_lens (length xs) ! c) (drop (sum_list (take c (piece_lens (length xs)))) xs)"

lemma piece_lens_eq: "piece_lens n = [n div 3, (n - n div 3) div 2, n - n div 3 - (n - n div 3) div 2]"
  by (simp add: piece_lens_def Let_def)

lemma pieces: "piece 0 xs @ piece 1 xs @ piece 2 xs = xs"
proof -
  have "take a xs @ take b (drop a xs) @ drop (a + b) xs = xs" for a b
    by (metis append_take_drop_id add.commute drop_drop)
  then show ?thesis by (simp add: piece_def piece_lens_eq numeral_2_eq_2)
qed

lemma length_piece: "c < 3 \<Longrightarrow> length (piece c xs) = piece_lens (length xs) ! c"
  unfolding less_Suc_eq numeral_3_eq_3 by (auto simp: piece_def piece_lens_eq numeral_2_eq_2)

lemma pieces_nonempty:
  assumes "xs \<noteq> []"
  shows "drop (piece_lens (length xs) ! 0) xs \<noteq> []" "drop (piece_lens (length xs) ! 0 + piece_lens (length xs) ! 1) xs \<noteq> []"
proof -
  have "n div 3 < n" "n div 3 + (n - n div 3) div 2 < n" if "0 < n" for n :: nat using that by linarith+
  from this [of "length xs"] assms
  show "drop (piece_lens (length xs) ! 0) xs \<noteq> []" "drop (piece_lens (length xs) ! 0 + piece_lens (length xs) ! 1) xs \<noteq> []"
    by (simp_all add: piece_lens_eq not_le)
qed

lemma set_piece: "set (piece c xs) \<subseteq> set xs"
  unfolding piece_def by (meson order_trans set_drop_subset set_take_subset)

lemma length_piece_le: "length (piece c xs) \<le> length xs"
  by (simp add: piece_def)

section \<open>One party at a time\<close>

definition masked_sums :: "'a int_ring2k \<Rightarrow> 'a share list \<Rightarrow> 'a RingElement list \<Rightarrow> 'a RingElement list" where
  "masked_sums R chunk r = map (\<lambda>(s, x). re_xor R (re_add R (share_a s) (share_b s)) x) (zip chunk r)"

lemma length_masked_sums [simp]: "length (masked_sums R chunk r) = min (length chunk) (length r)"
  by (simp add: masked_sums_def)

lemma masked_sums_vre:
  "vre_add R (VecRingElement (map share_a chunk)) (VecRingElement (map share_b chunk)) =
      Inr (VecRingElement (map (\<lambda>s. re_add R (share_a s) (share_b s)) chunk))"
  "length r = length chunk \<Longrightarrow>
    vre_xor R (VecRingElement (map (\<lambda>s. re_add R (share_a s) (share_b s)) chunk)) (VecRingElement r) = Inr (VecRingElement (masked_sums R chunk r))"
  by (auto simp: vre_add_def vre_xor_def masked_sums_def intro!: nth_equalityI)

lemma draw_bind:
  "cbind (draw_prev g) f s = f (fst (g (prev_prf s))) (s\<lparr>prev_prf := snd (g (prev_prf s))\<rparr>)"
  "cbind (draw_mine g) f s = f (fst (g (my_prf s))) (s\<lparr>my_prf := snd (g (my_prf s))\<rparr>)"
  by (simp_all add: cbind_def draw_prev_def draw_mine_def split_def Let_def)

lemma net_at_updates [simp]:
  "net_at addr sid i (s\<lparr>prev_prf := r\<rparr>) = net_at addr sid i s" "net_at addr sid i (s\<lparr>my_prf := r\<rparr>) = net_at addr sid i s"
  by (simp_all add: net_at_def)

lemma send_bind:
  assumes "net_at addr sid i s" "to_network (ring_vec_message N v) = Ok bs"
  shows "cbind (send_ring_vec_next N v) f s = Send (addr (next_id i)) bs (f () s)"
  using sends_eq(1) [OF assms] by (simp add: cbind_def send_ring_vec_next_eq)

text \<open>A vector received from the previous party.\<close>

definition vec_in :: "('r, 'a) net_int \<Rightarrow> ('a VecRingElement \<Rightarrow> ('s, 'b) comp) \<Rightarrow> 's \<Rightarrow> u8 list \<Rightarrow> (proto_error, 'b \<times> 's) proto" where
  "vec_in N f s b = pbind (case deserialize b of Panic \<Rightarrow> Stop Panicked | r \<Rightarrow> Ret (of_outcome r, s))
     (\<lambda>(m, s'). cbind (ring_vec_received N m) f s')"

lemma receive_bind:
  assumes "net_at addr sid i s"
  shows "cbind (receive_ring_vec_prev N) f s = Recv (addr (prev_id i)) (vec_in N f s)"
  using receives_eq(1) [OF assms]
  by (simp add: receive_ring_vec_prev_def cbind_assoc vec_in_def [abs_def] cbind_def [of receive_prev])

lemma vec_in_eq:
  assumes "deserialize bs = Ok w" "into_vec N w = Ok v"
  shows "vec_in N f s bs = f (VecRingElement v) s"
  using assms by (simp add: vec_in_def ring_vec_received_def)

lemma prf_updates_commute: "s\<lparr>my_prf := a, prev_prf := b\<rparr> = s\<lparr>prev_prf := b, my_prf := a\<rparr>"
  by (cases s) simp

text \<open>What a party does, by its rotated role.\<close>

lemma split_steps:
  fixes s :: "'r session" and N :: "('r, 'a) net_int"
  assumes at: "net_at addr sid i s" and "XC \<noteq> []"
  defines "z \<equiv> zero_iter (ni_ring N)"
  defines "prv \<equiv> \<lambda>X. gen_list N (length X) (prev_prf s)" and "own \<equiv> \<lambda>X. gen_list N (length X) (my_prf s)"
  defines "t \<equiv> \<lambda>X. masked_sums (ni_ring N) X (fst (prv X))"
  defines "s' \<equiv> \<lambda>X Y. s\<lparr>prev_prf := snd (prv X), my_prf := snd (own Y)\<rparr>"
  shows "to_network (ring_vec_message N (VecRingElement (t XA))) = Ok bs \<Longrightarrow>
      cbind (split_pieces N 0 [(0, length XA), (1, length XB), (2, length XC)] (XA @ XB @ XC) ([], [], [], [])) f s =
        Send (addr (next_id i)) bs (Recv (addr (prev_id i)) (vec_in N (\<lambda>v. f
          (t XA @ fst (own XB) @ z (vre_len v), fst (prv XA) @ z (length XB) @ elements v,
           z (length XA) @ z (length XB) @ map share_a XC, z (length XA) @ map share_b XB @ z (vre_len v))) (s' XA XB)))"
    and "to_network (ring_vec_message N (VecRingElement (t XB))) = Ok bs \<Longrightarrow> deserialize b0 = Ok w \<Longrightarrow> into_vec N w = Ok v \<Longrightarrow>
      \<exists>k. cbind (split_pieces N 1 [(0, length XA), (1, length XB), (2, length XC)] (XA @ XB @ XC) ([], [], [], [])) f s = Recv (addr (prev_id i)) k \<and>
        k b0 = Send (addr (next_id i)) bs (f (z (length v) @ t XB @ fst (own XC), v @ fst (prv XB) @ z (length XC),
          map share_a XA @ z (length XB) @ z (length XC), z (length v) @ z (length XB) @ map share_b XC) (s' XB XC))"
    and "to_network (ring_vec_message N (VecRingElement (t XC))) = Ok bs \<Longrightarrow> deserialize b0 = Ok w \<Longrightarrow> into_vec N w = Ok v \<Longrightarrow>
      \<exists>k. cbind (split_pieces N 2 [(0, length XA), (1, length XB), (2, length XC)] (XA @ XB @ XC) ([], [], [], [])) f s = Recv (addr (prev_id i)) k \<and>
        k b0 = Send (addr (next_id i)) bs (f (fst (own XA) @ z (length v) @ t XC, z (length XA) @ v @ fst (prv XC),
          z (length XA) @ map share_a XB @ z (length XC), map share_b XA @ z (length v) @ z (length XC)) (s' XC XA))"
proof -
  note eqs = assms(2) Let_def cbind_assoc draw_bind masked_sums_vre receive_bind [where addr = addr and sid = sid and i = i]
    send_bind [where addr = addr and sid = sid and i = i] at vre_len_def vec_in_eq
  show "to_network (ring_vec_message N (VecRingElement (t XA))) = Ok bs \<Longrightarrow>
      cbind (split_pieces N 0 [(0, length XA), (1, length XB), (2, length XC)] (XA @ XB @ XC) ([], [], [], [])) f s =
        Send (addr (next_id i)) bs (Recv (addr (prev_id i)) (vec_in N (\<lambda>v. f
          (t XA @ fst (own XB) @ z (vre_len v), fst (prv XA) @ z (length XB) @ elements v,
           z (length XA) @ z (length XB) @ map share_a XC, z (length XA) @ map share_b XB @ z (vre_len v))) (s' XA XB)))"
    unfolding assms(3-) by (simp add: eqs)
  show "to_network (ring_vec_message N (VecRingElement (t XB))) = Ok bs \<Longrightarrow> deserialize b0 = Ok w \<Longrightarrow> into_vec N w = Ok v \<Longrightarrow>
      \<exists>k. cbind (split_pieces N 1 [(0, length XA), (1, length XB), (2, length XC)] (XA @ XB @ XC) ([], [], [], [])) f s = Recv (addr (prev_id i)) k \<and>
        k b0 = Send (addr (next_id i)) bs (f (z (length v) @ t XB @ fst (own XC), v @ fst (prv XB) @ z (length XC),
          map share_a XA @ z (length XB) @ z (length XC), z (length v) @ z (length XB) @ map share_b XC) (s' XB XC))"
    unfolding assms(3-) by (simp add: eqs)
  show "to_network (ring_vec_message N (VecRingElement (t XC))) = Ok bs \<Longrightarrow> deserialize b0 = Ok w \<Longrightarrow> into_vec N w = Ok v \<Longrightarrow>
      \<exists>k. cbind (split_pieces N 2 [(0, length XA), (1, length XB), (2, length XC)] (XA @ XB @ XC) ([], [], [], [])) f s = Recv (addr (prev_id i)) k \<and>
        k b0 = Send (addr (next_id i)) bs (f (fst (own XA) @ z (length v) @ t XC, z (length XA) @ v @ fst (prv XC),
          z (length XA) @ map share_a XB @ z (length XC), map share_b XA @ z (length v) @ z (length XC)) (s' XC XA))"
    unfolding assms(3-) by (simp add: eqs prf_updates_commute)
qed

section \<open>The three parties together\<close>

text \<open>The party that starts, and the owner of each piece.\<close>

definition rotated :: "u32 \<Rightarrow> PartyID \<Rightarrow> nat" where
  "rotated sid i = (usize_from_party i + unat sid) mod 3"

lemma rotated_first: "\<exists>k. rotated sid k = 0 \<and> rotated sid (next_id k) = 1 \<and> rotated sid (prev_id k) = 2"
proof -
  have "unat sid mod 3 = 0 \<or> unat sid mod 3 = 1 \<or> unat sid mod 3 = 2" by linarith
  then show ?thesis
  proof (elim disjE)
    assume "unat sid mod 3 = 0"
    then show ?thesis unfolding rotated_def by (intro exI [of _ ID0]) (simp, presburger)
  next
    assume "unat sid mod 3 = 1"
    then show ?thesis unfolding rotated_def by (intro exI [of _ ID2]) (simp, presburger)
  next
    assume "unat sid mod 3 = 2"
    then show ?thesis unfolding rotated_def by (intro exI [of _ ID1]) (simp, presburger)
  qed
qed

text \<open>
  The shares of piece \<open>j\<close> that party \<open>i\<close> ends with: the owner has the masked sums and the
  mask, the next party the masked sums and its first components, the previous party the mask
  and its second components.
\<close>

definition split1 :: "'a int_ring2k \<Rightarrow> PartyID \<Rightarrow> 'a RingElement list \<Rightarrow> 'a RingElement list \<Rightarrow> PartyID \<Rightarrow> 'a RingElement list \<times> 'a RingElement list" where
  "split1 R j t r i = (if i = j then (t, r) else if i = next_id j then (zero_iter R (length t), t) else (r, zero_iter R (length r)))"

definition split2 :: "'a int_ring2k \<Rightarrow> PartyID \<Rightarrow> (PartyID \<Rightarrow> 'a share list) \<Rightarrow> PartyID \<Rightarrow> 'a RingElement list \<times> 'a RingElement list" where
  "split2 R j x i =
     (let z = zero_iter R (length (x i))
      in if i = j then (z, z) else if i = next_id j then (map share_a (x i), z) else (z, map share_b (x i)))"

definition pair_shares :: "'a RingElement list \<times> 'a RingElement list \<Rightarrow> 'a share list" where
  "pair_shares ab = map (\<lambda>(a, b). share_new a b) (zip (fst ab) (snd ab))"

lemma pair_shares_append:
  "length a = length b \<Longrightarrow> pair_shares (a @ a', b @ b') = pair_shares (a, b) @ pair_shares (a', b')"
  by (simp add: pair_shares_def)

lemma sharing_add_take_drop:
  assumes "sharing_add R P r xs"
  shows "sharing_add R P (\<lambda>i. take n (r i)) (take n xs)" "sharing_add R P (\<lambda>i. drop n (r i)) (drop n xs)"
proof -
  have len: "length (r i) = length xs" for i using sharing_lengths(1) [OF assms] .
  have "col (\<lambda>i. take n (r i)) k = col r k" if "k < n" for k using that by (simp add: col_def)
  moreover have "col (\<lambda>i. drop n (r i)) k = col r (n + k)" if "n + k < length xs" for k using that len by (simp add: col_def)
  ultimately show "sharing_add R P (\<lambda>i. take n (r i)) (take n xs)" "sharing_add R P (\<lambda>i. drop n (r i)) (drop n xs)"
    using sharing_add_nth [OF assms] len by (auto intro!: sharing_addI)
qed

context network_int
begin

lemma gen_list_wf: "wfs (fst (gen_list N n r))"
  by (induction n arbitrary: r) (auto simp: split_def Let_def gen_re_def gen_wf)

text \<open>One piece: the two new sharings add up to the shared values.\<close>

lemma split_piece:
  fixes j :: PartyID
  assumes x: "sharing_add ring wf x xs" and r: "length r = length xs" "wfs r"
  defines "t \<equiv> masked_sums ring (x j) r"
  shows "\<exists>u w. sharing_xor ring wf (\<lambda>i. pair_shares (split1 ring j t r i)) u \<and> sharing_xor ring wf (\<lambda>i. pair_shares (split2 ring j x i)) w
    \<and> length u = length xs \<and> length w = length xs \<and> (\<forall>k < length xs. re_add ring (u ! k) (w ! k) = xs ! k)"
proof -
  let ?n = "length xs"
  let ?u = "map (\<lambda>s. re_add ring (share_a s) (share_b s)) (x j)" and ?w = "map share_a (x (next_id j))"
  have sh: "shared wf ?n x" and op: "\<And>k. k < ?n \<Longrightarrow> open_add ring (col x k) = xs ! k"
    using x by (simp_all add: sharing_add_def)
  have len: "length (x i) = ?n" for i using sh by (simp add: shared_def)
  have wfx: "wf (convert (share_a (x i ! k)))" "wf (convert (share_b (x i ! k)))" if "k < ?n" for i k
    using shared_nth(2,3) [OF sh that] by auto
  have wfr: "wf (convert (r ! k))" if "k < ?n" for k using r that by (metis nth_mem)
  have rep: "share_b (x i ! k) = share_a (x (prev_id i) ! k)" if "k < ?n" for i k using shared_nth(1) [OF sh that] .
  have tk: "t ! k = re_xor ring (re_add ring (share_a (x j ! k)) (share_b (x j ! k))) (r ! k)" if "k < ?n" for k
    using that len r by (simp add: t_def masked_sums_def)
  have lent: "length t = ?n" using len r by (simp add: t_def)
  have wft: "wf (convert (t ! k))" if "k < ?n" for k
    unfolding tk [OF that] using wfx [OF that] wfr [OF that] by (simp add: re_defs wf_intros)
  have s1: "sharing_xor ring wf (\<lambda>i. pair_shares (split1 ring j t r i)) ?u"
  proof (rule sharing_xorI)
    show "length (pair_shares (split1 ring j t r i)) = length ?u" for i
      using lent r len by (simp add: pair_shares_def split1_def zero_iter_def)
    fix k assume "k < length ?u"
    then have k: "k < ?n" using len by simp
    show "replicated (col (\<lambda>i. pair_shares (split1 ring j t r i)) k) \<and> share3_wf wf (col (\<lambda>i. pair_shares (split1 ring j t r i)) k)
        \<and> open_xor ring (col (\<lambda>i. pair_shares (split1 ring j t r i)) k) = ?u ! k"
      using k lent r len wft [OF k] wfr [OF k] wfx [OF k]
      by (cases j) (auto simp: col_def pair_shares_def split1_def zero_iter_def share_new_def tk [OF k] re_defs wf_intros val_eq_iff
          val_xor val_zero bit_xor_iff intro!: bit_eqI)
  qed
  have s2: "sharing_xor ring wf (\<lambda>i. pair_shares (split2 ring j x i)) ?w"
  proof (rule sharing_xorI)
    show "length (pair_shares (split2 ring j x i)) = length ?w" for i
      using len by (simp add: pair_shares_def split2_def zero_iter_def Let_def)
    fix k assume "k < length ?w"
    then have k: "k < ?n" using len by simp
    show "replicated (col (\<lambda>i. pair_shares (split2 ring j x i)) k) \<and> share3_wf wf (col (\<lambda>i. pair_shares (split2 ring j x i)) k)
        \<and> open_xor ring (col (\<lambda>i. pair_shares (split2 ring j x i)) k) = ?w ! k"
      using k len wfx [OF k] rep [OF k]
      by (cases j) (auto simp: col_def pair_shares_def split2_def zero_iter_def Let_def share_new_def RingElement_eq_iff re_defs wf_intros val_eq_iff
          val_xor val_zero)
  qed
  have "re_add ring (?u ! k) (?w ! k) = xs ! k" if k: "k < ?n" for k
    unfolding op [OF k, symmetric] using k len wfx [OF k] rep [OF k]
    by (cases j) (simp_all add: col_def re_defs wf_intros val_eq_iff val_arith mod_simps add_ac)
  with s1 s2 len show ?thesis by (intro exI [of _ ?u] exI [of _ ?w]) simp
qed

lemma reply_mono: "\<exists>c. p = Recv a c \<and> c b = q \<Longrightarrow> q = q' \<Longrightarrow> \<exists>c. p = Recv a c \<and> c b = q'"
  by blast

text \<open>All pieces: the parties finish and the two sharings add up.\<close>

lemma split_session:
  assumes "net_at addr sid i s" "length (shares v) = n"
  shows "two_way_split N v s =
    cbind (split_pieces N (rotated sid i) [(0, length (piece 0 (shares v))), (1, length (piece 1 (shares v))), (2, length (piece 2 (shares v)))]
        (piece 0 (shares v) @ piece 1 (shares v) @ piece 2 (shares v)) ([], [], [], []))
      (\<lambda>(s1_a, s1_b, s2_a, s2_b). cret (vbs_from_ab s1_a s1_b, vbs_from_ab s2_a s2_b)) s"
proof -
  have "enumerate 0 (piece_lens n) = [(0, length (piece 0 (shares v))), (1, length (piece 1 (shares v))), (2, length (piece 2 (shares v)))]"
    by (simp add: length_piece assms(2)) (simp add: piece_lens_eq)
  then show ?thesis
    using assms unfolding pieces
    by (simp add: two_way_split_def cbind_def [of "cread _"] cread_def net_at_def rotated_def vs_len_def
        del: role_index.simps split_pieces.simps)
qed

text \<open>What the parties end with, by the order of the owners.\<close>

definition split_result :: "PartyID list \<Rightarrow> (PartyID \<Rightarrow> 'a RingElement list) \<Rightarrow> (PartyID \<Rightarrow> 'a RingElement list)
    \<Rightarrow> (PartyID \<Rightarrow> PartyID \<Rightarrow> 'a share list) \<Rightarrow> PartyID \<Rightarrow> 'a VecBinShare \<times> 'a VecBinShare" where
  "split_result owners t r X i =
     (vbs_from_ab (concat (map (\<lambda>j. fst (split1 ring j (t j) (r j) i)) owners)) (concat (map (\<lambda>j. snd (split1 ring j (t j) (r j) i)) owners)),
      vbs_from_ab (concat (map (\<lambda>j. fst (split2 ring j (X j) i)) owners)) (concat (map (\<lambda>j. snd (split2 ring j (X j) i)) owners)))"

lemma delivers_two_way_split:
  fixes S :: "PartyID \<Rightarrow> 'r session"
  assumes S: "linked addr sid S" and len: "\<And>i. length (shares (x i)) = n" and "0 < n" "n < MAX_LEN" and wfx: "\<And>i. \<forall>s \<in> set (shares (x i)). wf (convert (share_a s)) \<and> wf (convert (share_b s))"
    and k: "rotated sid k = 0" "rotated sid (next_id k) = 1" "rotated sid (prev_id k) = 2"
  defines "X \<equiv> \<lambda>j i. piece (rotated sid j) (shares (x i))"
  defines "r \<equiv> \<lambda>j. fst (gen_list N (length (X j j)) (prev_prf (S j)))"
  defines "t \<equiv> \<lambda>j. masked_sums ring (X j j) (r j)"
  shows "\<exists>S'. linked addr sid S' \<and> delivers addr (\<lambda>i. two_way_split N (x i) (S i)) (\<lambda>i. (split_result [k, next_id k, prev_id k] t r X i, S' i))"
proof -
  have at: "net_at addr sid i (S i)" for i using S by (simp add: linked_def net_linked_def)
  have ne: "piece 2 (shares (x i)) \<noteq> []" for i
    using pieces_nonempty(2) [of "shares (x i)"] assms(3) len [of i] by (auto simp: piece_def piece_lens_eq numeral_2_eq_2)
  have lenX: "length (X j i) = piece_lens n ! rotated sid j" for i j
    unfolding X_def by (subst length_piece) (simp_all add: len rotated_def)
  have lens: "length (r j) = length (X j i)" "length (t j) = length (X j i)" for i j by (simp_all add: r_def t_def lenX)
  have "wfs (t j)" for j
  proof
    fix e assume "e \<in> set (t j)"
    then obtain p where p: "p < length (X j j)" "e = t j ! p" using lens(2) [of j j] by (metis in_set_conv_nth)
    have "X j j ! p \<in> set (shares (x j))" using nth_mem [OF p(1)] unfolding X_def by (meson set_piece subsetD)
    moreover have "r j ! p \<in> set (r j)" using p(1) lens(1) [of j j] by simp
    then have "wf (convert (r j ! p))" using gen_list_wf unfolding r_def by blast
    ultimately show "wf (convert e)"
      using wfx [of j] p lens(1) [of j j] by (simp add: t_def masked_sums_def re_defs wf_intros)
  qed
  moreover have "length (t j) < MAX_LEN" for j
    using lens(2) [of j j] length_piece_le [of "rotated sid j" "shares (x j)"] len [of j] assms(4) by (simp add: X_def)
  ultimately have "\<exists>b w. to_network (ring_vec_message N (VecRingElement (t j))) = Ok b \<and> deserialize b = Ok w \<and> into_vec N w = Ok (t j)" for j
    using ring_vec_arrives [of "VecRingElement (t j)"] unfolding arrives_def by (metis VecRingElement.sel)
  then obtain bs w where bs: "to_network (ring_vec_message N (VecRingElement (t j))) = Ok (bs j)" "deserialize (bs j) = Ok (w j)" "into_vec N (w j) = Ok (t j)" for j
    by metis
  define S' where "S' = (\<lambda>i. S i\<lparr>prev_prf := snd (gen_list N (length (X i i)) (prev_prf (S i))), my_prf := snd (gen_list N (length (X (next_id i) i)) (my_prf (S i)))\<rparr>)"
  have mine: "fst (gen_list N (length (X (next_id i) i)) (my_prf (S i))) = r (next_id i)" for i
    using S by (simp add: r_def linked_def lenX)
  have linked': "linked addr sid S'"
    using S by (simp add: S'_def linked_def net_linked_def lenX)
  let ?f = "\<lambda>(s1_a, s1_b, s2_a, s2_b). cret (vbs_from_ab s1_a s1_b, vbs_from_ab s2_a s2_b)"
  let ?P = "\<lambda>i. two_way_split N (x i) (S i)" and ?r = "split_result [k, next_id k, prev_id k] t r X"
  have X: "piece 0 (shares (x i)) = X k i" "piece 1 (shares (x i)) = X (next_id k) i" "piece 2 (shares (x i)) = X (prev_id k) i" for i
    using k by (simp_all add: X_def)
  note session = split_session [OF at len, unfolded X]
  have nx: "next_id (next_id k) = prev_id k" "next_id (prev_id k) = k" "prev_id (next_id k) = k" "prev_id (prev_id k) = next_id k" by (cases k; simp)+
  have ne': "X (prev_id k) i \<noteq> []" for i using ne [of i] X(3) by simp
  have neq: "prev_id k \<noteq> next_id k" "next_id k \<noteq> prev_id k" "next_id k \<noteq> k" "prev_id k \<noteq> k" "k \<noteq> next_id k" "k \<noteq> prev_id k" by (cases k; simp)+
  have sent: "to_network (ring_vec_message N (VecRingElement (masked_sums ring (X i i) (fst (gen_list N (length (X i i)) (prev_prf (S i))))))) = Ok (bs i)" for i
    using bs(1) [of i] by (simp add: t_def r_def)
  have lens': "length (X j i) = length (t j)" "length (r j) = length (t j)" for i j using lens by metis+
  have norm: "fst (gen_list N (length (t j)) (prev_prf (S j))) = r j" "masked_sums ring (X j j) (r j) = t j" for j
    by (simp only: lens'(1) [of j j, symmetric] r_def, simp only: t_def)
  note fold = norm mine [unfolded lens', of k] mine [unfolded lens', of "next_id k", unfolded nx] mine [unfolded lens', of "prev_id k", unfolded nx]
    vec_in_eq [OF bs(2,3)] cret_def
  have ends: "?r i = (vbs_from_ab (concat (map (\<lambda>j. fst (split1 ring j (t j) (r j) i)) [k, next_id k, prev_id k])) (concat (map (\<lambda>j. snd (split1 ring j (t j) (r j) i)) [k, next_id k, prev_id k])),
      vbs_from_ab (concat (map (\<lambda>j. fst (split2 ring j (X j) i)) [k, next_id k, prev_id k])) (concat (map (\<lambda>j. snd (split2 ring j (X j) i)) [k, next_id k, prev_id k])))" for i
    by (simp add: split_result_def)
  note res = ends split1_def split2_def Let_def lens' nx neq
  have P0: "\<exists>c. ?P k = Send (addr (next_id k)) (bs k) (Recv (addr (prev_id k)) c) \<and> c (bs (prev_id k)) = Ret (?r k, S' k)"
    unfolding session k split_steps(1) [OF at ne' sent, where f = ?f]
    by (simp add: res, simp add: fold S'_def vre_len_def lens')
  have P1: "\<exists>c. ?P (next_id k) = Recv (addr (prev_id (next_id k))) c
      \<and> c (bs k) = Send (addr (next_id (next_id k))) (bs (next_id k)) (Ret (?r (next_id k), S' (next_id k)))"
    unfolding session k
    by (rule reply_mono, rule split_steps(2) [OF at [of "next_id k"] ne' [of "next_id k"] sent [of "next_id k"] bs(2,3) [of k], where f = ?f and XA = "X k (next_id k)"])
      (simp add: res, simp add: fold S'_def lens' nx)
  have P2: "\<exists>c. ?P (prev_id k) = Recv (addr (prev_id (prev_id k))) c
      \<and> c (bs (next_id k)) = Send (addr (next_id (prev_id k))) (bs (prev_id k)) (Ret (?r (prev_id k), S' (prev_id k)))"
    unfolding session k
    by (rule reply_mono, rule split_steps(3) [OF at [of "prev_id k"] ne' [of "prev_id k"] sent [of "prev_id k"] bs(2,3) [of "next_id k"],
        where f = ?f and XA = "X k (prev_id k)" and XB = "X (next_id k) (prev_id k)"])
      (simp add: res, simp add: fold S'_def lens' nx)
  obtain c0 c1 c2 where c: "?P k = Send (addr (next_id k)) (bs k) (Recv (addr (prev_id k)) c0)" "c0 (bs (prev_id k)) = Ret (?r k, S' k)"
    "?P (next_id k) = Recv (addr (prev_id (next_id k))) c1"
    "c1 (bs k) = Send (addr (next_id (next_id k))) (bs (next_id k)) (Ret (?r (next_id k), S' (next_id k)))"
    "?P (prev_id k) = Recv (addr (prev_id (prev_id k))) c2"
    "c2 (bs (next_id k)) = Send (addr (next_id (prev_id k))) (bs (prev_id k)) (Ret (?r (prev_id k), S' (prev_id k)))"
    using P0 P1 P2 by blast
  define C where "C = (\<lambda>i. if i = k then c0 else if i = next_id k then c1 else c2)"
  have other: "i = next_id k \<or> i = prev_id k" if "i \<noteq> k" for i using that by (cases i; cases k) auto
  have "delivers addr ?P (\<lambda>i. (?r i, S' i))"
  proof (rule delivers_chain [where k = k and m = bs and c = C and q = "\<lambda>i. Ret (?r i, S' i)"])
    show "inj addr" using at net_at_inj by blast
    show "?P k = Send (addr (next_id k)) (bs k) (Recv (addr (prev_id k)) (C k))" using c(1) by (simp add: C_def)
    show "?P i = Recv (addr (prev_id i)) (C i)" if "i \<noteq> k" for i
      using other [OF that] c(3,5) that neq by (auto simp: C_def)
    show "C i (bs (prev_id i)) = Send (addr (next_id i)) (bs i) (Ret (?r i, S' i))" if "i \<noteq> k" for i
      using other [OF that] c(4,6) that neq nx by (auto simp: C_def)
    have "(\<lambda>i. Ret (?r i, S' i))(k := C k (bs (prev_id k))) = (\<lambda>i. Ret (?r i, S' i))" using c(2) by (auto simp: C_def)
    then show "delivers addr ((\<lambda>i. Ret (?r i, S' i))(k := C k (bs (prev_id k)))) (\<lambda>i. (?r i, S' i))" by (simp add: delivers_Ret)
  qed
  then show ?thesis using linked' by blast
qed

lemma computes_two_way_split:
  assumes x: "sharing_add ring wf (\<lambda>i. shares (x i)) xs" and n: "length xs < MAX_LEN"
  shows "computes addr sid (\<lambda>i. two_way_split N (x i))
    (\<lambda>r. \<exists>u w. sharing_xor ring wf (\<lambda>i. shares (bin_inner (fst (r i)))) u \<and> sharing_xor ring wf (\<lambda>i. shares (bin_inner (snd (r i)))) w
       \<and> length u = length xs \<and> length w = length xs \<and> (\<forall>k < length xs. re_add ring (u ! k) (w ! k) = xs ! k))"
  unfolding computes_def
proof (intro allI impI)
  fix S :: "PartyID \<Rightarrow> 'r session" assume S: "linked addr sid S"
  let ?Q = "\<lambda>r. \<exists>u w. sharing_xor ring wf (\<lambda>i. shares (bin_inner (fst (r i)))) u \<and> sharing_xor ring wf (\<lambda>i. shares (bin_inner (snd (r i)))) w
       \<and> length u = length xs \<and> length w = length xs \<and> (\<forall>k < length xs. re_add ring (u ! k) (w ! k) = xs ! k)"
  have len: "length (shares (x i)) = length xs" for i using sharing_lengths(1) [OF x] .
  have at: "net_at addr sid i (S i)" for i using S by (simp add: linked_def net_linked_def)
  show "\<exists>r S'. delivers addr (\<lambda>i. two_way_split N (x i) (S i)) (\<lambda>i. (r i, S' i)) \<and> linked addr sid S' \<and> ?Q r"
  proof (cases "xs = []")
    case True
    then have "shares (x i) = []" for i using len [of i] by simp
    then have "two_way_split N (x i) (S i) = Ret ((vbs_from_ab [] [], vbs_from_ab [] []), S i)" for i
      by (simp add: two_way_split_def cbind_def cread_def vs_len_def piece_lens_eq cret_def)
    then have "delivers addr (\<lambda>i. two_way_split N (x i) (S i)) (\<lambda>i. ((vbs_from_ab [] [], vbs_from_ab [] []), S i))"
      by (simp add: delivers_Ret)
    moreover have "?Q (\<lambda>_. (vbs_from_ab [] [], vbs_from_ab [] []))"
      using True by (simp add: vbs_from_ab_def vs_from_ab_def sharing_xor_Nil)
    ultimately show ?thesis
      using S by (intro exI [of _ "\<lambda>_. (vbs_from_ab [] [], vbs_from_ab [] [])"] exI [of _ S] conjI)
  next
    case False
    obtain k where k: "rotated sid k = 0" "rotated sid (next_id k) = 1" "rotated sid (prev_id k) = 2"
      using rotated_first by blast
    have wfx: "\<forall>s \<in> set (shares (x i)). wf (convert (share_a s)) \<and> wf (convert (share_b s))" for i
    proof
      fix s assume "s \<in> set (shares (x i))"
      then obtain p where "p < length xs" "s = shares (x i) ! p" using len by (metis in_set_conv_nth)
      then show "wf (convert (share_a s)) \<and> wf (convert (share_b s))"
        using x shared_nth(2,3) [of wf "length xs" "\<lambda>i. shares (x i)" p i] by (simp add: sharing_add_def)
    qed
    define X where "X = (\<lambda>j i. piece (rotated sid j) (shares (x i)))"
    define r where "r = (\<lambda>j. fst (gen_list N (length (X j j)) (prev_prf (S j))))"
    define t where "t = (\<lambda>j. masked_sums ring (X j j) (r j))"
    let ?r = "split_result [k, next_id k, prev_id k] t r X"
    obtain S' where S': "linked addr sid S'" "delivers addr (\<lambda>i. two_way_split N (x i) (S i)) (\<lambda>i. (?r i, S' i))"
      using delivers_two_way_split [where x = x, OF S len _ n wfx k] False unfolding X_def r_def t_def by auto
    have Xj: "sharing_add ring wf (X j) (piece (rotated sid j) xs)" for j
      unfolding X_def piece_def len
      by (rule sharing_add_take_drop(1), rule sharing_add_take_drop(2), rule x)
    have lenX: "length (X j i) = length (piece (rotated sid j) xs)" for i j using sharing_lengths(1) [OF Xj] .
    have lenr: "length (r j) = length (piece (rotated sid j) xs)" for j by (simp add: r_def lenX)
    have "\<exists>u w. sharing_xor ring wf (\<lambda>i. pair_shares (split1 ring j (t j) (r j) i)) u \<and> sharing_xor ring wf (\<lambda>i. pair_shares (split2 ring j (X j) i)) w
        \<and> length u = length (piece (rotated sid j) xs) \<and> length w = length (piece (rotated sid j) xs)
        \<and> (\<forall>p < length (piece (rotated sid j) xs). re_add ring (u ! p) (w ! p) = piece (rotated sid j) xs ! p)" for j
      unfolding t_def by (rule split_piece [OF Xj lenr]) (simp add: r_def gen_list_wf)
    then obtain u w where uw: "sharing_xor ring wf (\<lambda>i. pair_shares (split1 ring j (t j) (r j) i)) (u j)"
      "sharing_xor ring wf (\<lambda>i. pair_shares (split2 ring j (X j) i)) (w j)"
      "length (u j) = length (piece (rotated sid j) xs)" "length (w j) = length (piece (rotated sid j) xs)"
      "\<forall>p < length (piece (rotated sid j) xs). re_add ring (u j ! p) (w j ! p) = piece (rotated sid j) xs ! p" for j
      by metis
    have sums: "map2 (re_add ring) (u j) (w j) = piece (rotated sid j) xs" for j
      using uw(3-5) [of j] by (intro nth_equalityI) simp_all
    have shares: "shares (bin_inner (fst (?r i))) = concat (map (\<lambda>j. pair_shares (split1 ring j (t j) (r j) i)) [k, next_id k, prev_id k])"
      "shares (bin_inner (snd (?r i))) = concat (map (\<lambda>j. pair_shares (split2 ring j (X j) i)) [k, next_id k, prev_id k])" for i
      using lenr by (auto simp: split_result_def vbs_from_ab_def vs_from_ab_def pair_shares_def split1_def split2_def Let_def
          zero_iter_def lenX t_def)
    let ?u = "u k @ u (next_id k) @ u (prev_id k)" and ?w = "w k @ w (next_id k) @ w (prev_id k)"
    have s: "sharing_xor ring wf (\<lambda>i. shares (bin_inner (fst (?r i)))) ?u" "sharing_xor ring wf (\<lambda>i. shares (bin_inner (snd (?r i)))) ?w"
      unfolding shares using sharing_xor_append [OF uw(1) sharing_xor_append [OF uw(1) uw(1)]] sharing_xor_append [OF uw(2) sharing_xor_append [OF uw(2) uw(2)]]
      by simp_all
    have all: "map2 (re_add ring) ?u ?w = xs"
      using uw(3,4) sums pieces [of xs] k by simp
    have lens: "length ?u = length xs" "length ?w = length xs"
      using uw(3,4) pieces [of xs, THEN arg_cong [where f = length]] k by simp_all
    have "re_add ring (?u ! p) (?w ! p) = xs ! p" if "p < length xs" for p
    proof -
      have "map2 (re_add ring) ?u ?w ! p = re_add ring (?u ! p) (?w ! p)" using lens that by (simp del: length_append)
      then show ?thesis unfolding all by simp
    qed
    then show ?thesis
      using S' s lens by (intro exI [of _ ?r] exI [of _ S'] conjI exI [of _ ?u] exI [of _ ?w]) blast+
  qed
qed

end

end
