(* ===== verification/Msb_Adder.thy ===== *)
theory Msb_Adder
  imports Binary_Gates
begin

unbundle bit_operations_syntax

text \<open>
  The parallel prefix adder of \<open>ampc-actor-utils/src/protocol/binary.rs\<close>
  (\<open>binary_add_2_get_msb\<close>): from bit-sliced sharings of two numbers it computes the most
  significant bit of their sum. Carry generate and propagate planes are combined in pairs
  until one carry is left. The result is proved equal to the top bit of the sum, lane by lane.
\<close>

section \<open>Operations\<close>

definition pop_vec :: "'b list \<Rightarrow> 'b option \<times> 'b list" where
  "pop_vec xs = (if xs = [] then (None, []) else (Some (last xs), butlast xs))"

fun even_items :: "'b list \<Rightarrow> 'b list" where
  "even_items [] = []"
| "even_items [x] = [x]"
| "even_items (x # y # zs) = x # even_items zs"

fun odd_items :: "'b list \<Rightarrow> 'b list" where
  "odd_items [] = []"
| "odd_items [x] = []"
| "odd_items (x # y # zs) = y # odd_items zs"

lemma length_items [simp]:
  "length (even_items xs) = Suc (length xs) div 2" "length (odd_items xs) = length xs div 2"
  by (induction xs rule: even_items.induct) simp_all

lemma length_pack_xor [simp]: "length (transposed_pack_xor R xs ys) = min (length xs) (length ys)"
  by (simp add: transposed_pack_xor_def)

text \<open>
  The loop of the adder. The capacities \<open>temp_g.len() - 1\<close> and \<open>odd_p_temp.len() * 2 - 1\<close>
  panic on an underflow.
\<close>

function prefix_tree :: "('r, 'a) net_int \<Rightarrow> 'a VecShare list \<Rightarrow> 'a VecShare list \<Rightarrow> ('r session, 'a VecShare list) comp" where
  "prefix_tree N temp_p temp_g =
     (if length temp_g = 1 then cret temp_g
      else if temp_g = [] then cstop Panicked
      else
        let odd_len = length temp_g mod 2 = 1;
            pop_p = (if odd_len then pop_vec temp_p else (None, temp_p));
            pop_g = (if odd_len then pop_vec temp_g else (None, temp_g));
            even_p = odd_items (snd pop_p); odd_p_temp = even_items (snd pop_p);
            new_p_len = length even_p;
            even_p_with_even_g = even_p @ even_items (snd pop_g); odd_g = odd_items (snd pop_g);
            odd_p_doubled = drop 1 odd_p_temp @ odd_p_temp
        in if odd_p_temp = [] then cstop Panicked
           else cbind (transposed_pack_and N even_p_with_even_g odd_p_doubled) (\<lambda>tmp.
             if length tmp < new_p_len then cstop Panicked
             else prefix_tree N (take new_p_len tmp @ (case fst pop_p of Some extra_p \<Rightarrow> [extra_p] | None \<Rightarrow> []))
               (transposed_pack_xor (ni_ring N) (drop new_p_len tmp) odd_g @ (case fst pop_g of Some extra_g \<Rightarrow> [extra_g] | None \<Rightarrow> []))))"
  by pat_completeness auto

termination prefix_tree
proof (relation "measure (\<lambda>(_, _, temp_g). length temp_g)", goal_cases)
  case (2 N temp_p temp_g odd_len pop_p pop_g even_p odd_p_temp new_p_len eg odd_g od tmp)
  then have "1 < length temp_g" by (cases temp_g) (auto simp: neq_Nil_conv)
  moreover have "length (transposed_pack_xor (ni_ring N) (drop new_p_len tmp) odd_g) \<le> length (snd pop_g) div 2" using 2 by simp
  moreover have "if odd_len then length (snd pop_g) = length temp_g - 1 \<and> fst pop_g = Some (last temp_g)
      else length (snd pop_g) = length temp_g \<and> fst pop_g = None"
    using 2(2,5) by (auto simp: pop_vec_def)
  moreover have "(n - 1) div 2 + 1 < n" if "n mod 2 = 1" "1 < n" for n :: nat using that by presburger
  moreover have "n div 2 < n" if "1 < n" for n :: nat using that by presburger
  ultimately have "length (transposed_pack_xor (ni_ring N) (drop new_p_len tmp) odd_g @
      (case fst pop_g of None \<Rightarrow> [] | Some extra_g \<Rightarrow> [extra_g])) < length temp_g"
    using 2(3) by (cases odd_len) (fastforce simp del: length_pack_xor)+
  then show ?case by simp
qed simp

declare prefix_tree.simps [simp del]

definition binary_add_2_get_msb :: "('r, 'a) net_int \<Rightarrow> 'a VecShare list \<Rightarrow> 'a VecShare list \<Rightarrow> ('r session, 'a VecShare) comp" where
  "binary_add_2_get_msb N x1 x2 =
     (if length x1 \<noteq> length x2 then cstop (Bail ''Inputs have different length'')
      else
        let p = transposed_pack_xor (ni_ring N) x1 x2;
            a = snd (pop_vec x1); b = snd (pop_vec x2)
        in cbind (transposed_pack_and N a b) (\<lambda>g.
           case pop_vec p of
             (None, _) \<Rightarrow> cstop (Bail ''Not enough elements'')
           | (Some msb_p, p) \<Rightarrow>
             if p = [] then cstop Panicked
             else cbind (prefix_tree N (drop 1 p) g) (\<lambda>temp_g.
               case pop_vec temp_g of
                 (None, _) \<Rightarrow> cstop (Bail ''Should contain exactly 1 carry'')
               | (Some carry, _) \<Rightarrow> cret (vs_xor (ni_ring N) msb_p carry))))"


section \<open>Carries\<close>

text \<open>The carry out of position \<open>m\<close>, from generate and propagate words.\<close>

fun carry_fold :: "(nat \<Rightarrow> u64) \<Rightarrow> (nat \<Rightarrow> u64) \<Rightarrow> nat \<Rightarrow> u64" where
  "carry_fold g p 0 = g 0"
| "carry_fold g p (Suc j) = g (Suc j) XOR (p (Suc j) AND carry_fold g p j)"

lemma carry_fold_cong:
  "(\<And>q. q \<le> m \<Longrightarrow> g q = g' q) \<Longrightarrow> (\<And>q. 0 < q \<Longrightarrow> q \<le> m \<Longrightarrow> p q = p' q) \<Longrightarrow> carry_fold g p m = carry_fold g' p' m"
  by (induction m) auto

text \<open>Combining neighbours keeps the last carry.\<close>

lemma carry_fold_pairs:
  "carry_fold (\<lambda>q. g (2 * q + 1) XOR (g (2 * q) AND p (2 * q + 1))) (\<lambda>q. p (2 * q) AND p (2 * q + 1)) m = carry_fold g p (2 * m + 1)"
proof (induction m)
  case 0
  then show ?case by (simp add: and.commute)
next
  case (Suc m)
  have "2 * Suc m + 1 = Suc (Suc (2 * m + 1))" by simp
  then show ?case using Suc
    by (auto simp: bit_simps intro!: bit_word_eqI)
qed

text \<open>Even and odd positions by index.\<close>

lemma items_eq:
  "even_items xs = map (\<lambda>r. xs ! (2 * r)) [0..<Suc (length xs) div 2]"
  "odd_items xs = map (\<lambda>r. xs ! (2 * r + 1)) [0..<length xs div 2]"
proof (induction xs rule: even_items.induct)
  case (3 x y zs)
  have e: "Suc (length (x # y # zs)) div 2 = Suc (Suc (length zs) div 2)" "length (x # y # zs) div 2 = Suc (length zs div 2)" by simp_all
  { case 1 show ?case unfolding e using "3.IH"(1) by (simp add: map_upt_Suc del: upt_Suc) }
  { case 2 show ?case unfolding e using "3.IH"(2) by (simp add: map_upt_Suc del: upt_Suc) }
qed simp_all

section \<open>The tree\<close>

lemma pop_planes:
  assumes "word_planes (Suc n) W x v"
  shows "pop_vec (x i) = (Some (last (x i)), butlast (x i))" "word_planes n W (\<lambda>i. butlast (x i)) v" "word_plane W (\<lambda>i. last (x i)) (v n)"
proof -
  have "x i \<noteq> []" using word_planes_length [OF assms, of i] by auto
  then show "pop_vec (x i) = (Some (last (x i)), butlast (x i))" by (simp add: pop_vec_def)
  show "word_planes n W (\<lambda>i. butlast (x i)) v" "word_plane W (\<lambda>i. last (x i)) (v n)"
    using word_planes_butlast_last [OF assms] by simp_all
qed

text \<open>One level of the tree, on \<open>2 * h\<close> planes.\<close>

lemma computes_tree_level:
  fixes G :: "'r prf_rng" and f :: "PartyID \<Rightarrow> u64 VecShare list \<Rightarrow> ('r session, 'b) comp"
  assumes p: "word_planes (2 * h - 1) W tp (\<lambda>q. P (Suc q))" and g: "word_planes (2 * h) W tg Gf" and "0 < h" "2 * h * W < MAX_LEN"
    and cont: "\<And>tmp. (\<And>i. length (tmp i) = 2 * h - 1) \<Longrightarrow> word_planes (h - 1) W (\<lambda>i. take (h - 1) (tmp i)) (\<lambda>q k. P (2 * Suc q) k AND P (2 * Suc q + 1) k) \<Longrightarrow>
      word_planes h W (\<lambda>i. transposed_pack_xor word_ring (drop (h - 1) (tmp i)) (odd_items (tg i)))
        (\<lambda>q k. Gf (2 * q + 1) k XOR (Gf (2 * q) k AND P (2 * q + 1) k)) \<Longrightarrow> computes addr sid (\<lambda>i. f i (tmp i)) Q"
  shows "computes addr sid (\<lambda>i. cbind (transposed_pack_and (net_u64 G) (odd_items (tp i) @ even_items (tg i))
      (drop 1 (even_items (tp i)) @ even_items (tp i))) (f i)) Q"
proof -
  have lp: "length (tp i) = 2 * h - 1" and lg: "length (tg i) = 2 * h" for i
    using word_planes_length [OF p] word_planes_length [OF g] by simp_all
  have halves: "Suc (2 * h - 1) div 2 = h" "(2 * h - 1) div 2 = h - 1" using assms(3) by auto
  have even_p: "word_planes (h - 1) W (\<lambda>i. odd_items (tp i)) (\<lambda>q. P (Suc (2 * q + 1)))"
    by (rule word_planes_select [OF p], simp only: items_eq lp halves) (use assms(3) in simp)
  have odd_p: "word_planes h W (\<lambda>i. even_items (tp i)) (\<lambda>q. P (Suc (2 * q)))"
    by (rule word_planes_select [OF p], simp only: items_eq lp halves) (use assms(3) in simp)
  have even_g: "word_planes h W (\<lambda>i. even_items (tg i)) (\<lambda>q. Gf (2 * q))"
    by (rule word_planes_select [OF g]) (auto simp: items_eq lg)
  have odd_g: "word_planes h W (\<lambda>i. odd_items (tg i)) (\<lambda>q. Gf (2 * q + 1))"
    by (rule word_planes_select [OF g]) (auto simp: items_eq lg)
  have left: "word_planes (h - 1 + h) W (\<lambda>i. odd_items (tp i) @ even_items (tg i))
      (\<lambda>q. if q < h - 1 then P (Suc (2 * q + 1)) else Gf (2 * (q - (h - 1))))"
    by (rule word_planes_append [OF even_p even_g])
  have right: "word_planes (h - 1 + h) W (\<lambda>i. drop 1 (even_items (tp i)) @ even_items (tp i))
      (\<lambda>q. if q < h - 1 then P (Suc (2 * (q + 1))) else P (Suc (2 * (q - (h - 1)))))"
    by (rule word_planes_append [OF word_planes_take_drop(2) [OF odd_p, of 1] odd_p]) (use assms(3) in simp)
  have "(h - 1 + h) * W \<le> 2 * h * W" by (intro mult_le_mono1) simp
  then have size: "(h - 1 + h) * W < MAX_LEN" using assms(4) by (rule le_less_trans)
  show ?thesis
  proof (rule computes_cbind [OF computes_words_and(1) [OF left right size]], rule cont)
    fix tmp assume tmp: "word_planes (h - 1 + h) W tmp (\<lambda>q k. (if q < h - 1 then P (Suc (2 * q + 1)) else Gf (2 * (q - (h - 1)))) k AND
        (if q < h - 1 then P (Suc (2 * (q + 1))) else P (Suc (2 * (q - (h - 1))))) k)"
    show "length (tmp i) = 2 * h - 1" for i using word_planes_length [OF tmp, of i] assms(3) by simp
    show "word_planes (h - 1) W (\<lambda>i. take (h - 1) (tmp i)) (\<lambda>q k. P (2 * Suc q) k AND P (2 * Suc q + 1) k)"
      by (rule word_planes_cong [OF word_planes_take_drop(1) [OF tmp, of "h - 1"]]) auto
    have "word_planes h W (\<lambda>i. drop (h - 1) (tmp i)) (\<lambda>q k. Gf (2 * q) k AND P (2 * q + 1) k)"
      by (rule word_planes_cong [OF word_planes_take_drop(2) [OF tmp, of "h - 1", unfolded diff_add_inverse]]) (use assms(3) in auto)
    from word_planes_xor(1) [OF this odd_g]
    show "word_planes h W (\<lambda>i. transposed_pack_xor word_ring (drop (h - 1) (tmp i)) (odd_items (tg i)))
        (\<lambda>q k. Gf (2 * q + 1) k XOR (Gf (2 * q) k AND P (2 * q + 1) k))"
      by (rule word_planes_cong) (simp add: xor.commute)
  qed
qed

lemma computes_prefix_tree:
  fixes G :: "'r prf_rng"
  assumes "word_planes m W tp (\<lambda>q. P (Suc q))" "word_planes (Suc m) W tg Gf" "Suc m * W < MAX_LEN"
  shows "computes addr sid (\<lambda>i. prefix_tree (net_u64 G) (tp i) (tg i) :: ('r session, u64 VecShare list) comp)
    (\<lambda>r. word_planes 1 W r (\<lambda>_ k. carry_fold (\<lambda>q. Gf q k) (\<lambda>q. P q k) m))"
  using assms
proof (induction m arbitrary: tp tg P Gf rule: less_induct)
  case (less m)
  have lg: "length (tg i) = Suc m" and lp: "length (tp i) = m" for i
    using word_planes_length [OF less.prems(2)] word_planes_length [OF less.prems(1)] by simp_all
  then have ne: "tg i \<noteq> []" for i by (metis length_0_conv nat.distinct(1))
  show ?case
  proof (cases "m = 0")
    case True
    then show ?thesis
      using less.prems(2) by (subst prefix_tree.simps) (auto simp: lg intro!: computes_cret elim!: word_planes_cong)
  next
    case False
    define G' where "G' = (\<lambda>q k. Gf (2 * q + 1) k XOR (Gf (2 * q) k AND P (2 * q + 1) k))"
    define P' where "P' = (\<lambda>q k. P (2 * q) k AND P (2 * q + 1) k)"
    show ?thesis
    proof (cases "even m")
      case False
      then obtain j where "m = 2 * j + 1" by (elim oddE)
      then obtain h where m: "m = 2 * h - 1" "0 < h" using that [of "Suc j"] by simp
      then have h: "Suc m = 2 * h" "Suc m mod 2 \<noteq> 1" "m div 2 = h - 1" "Suc (h - 1) = h" by auto
      have step: "prefix_tree (net_u64 G) (tp i) (tg i) = cbind (transposed_pack_and (net_u64 G) (odd_items (tp i) @ even_items (tg i))
          (drop 1 (even_items (tp i)) @ even_items (tp i))) (\<lambda>tmp. if length tmp < h - 1 then cstop Panicked
            else prefix_tree (net_u64 G) (take (h - 1) tmp) (transposed_pack_xor word_ring (drop (h - 1) tmp) (odd_items (tg i))))" for i
      proof -
        have "even_items (tp i) \<noteq> []" using lp [of i] \<open>m \<noteq> 0\<close> by (cases "tp i" rule: even_items.cases) auto
        then show ?thesis using \<open>m \<noteq> 0\<close> h ne [of i] by (subst prefix_tree.simps) (simp add: lg lp Let_def cong: if_cong)
      qed
      show ?thesis
        unfolding step
      proof (rule computes_tree_level [where h = h, OF _ _ m(2)])
        show "word_planes (2 * h - 1) W tp (\<lambda>q. P (Suc q))" "word_planes (2 * h) W tg Gf" "2 * h * W < MAX_LEN"
          using less.prems m h by simp_all
        fix tmp :: "PartyID \<Rightarrow> u64 VecShare list" assume tmp: "\<And>i. length (tmp i) = 2 * h - 1"
          "word_planes (h - 1) W (\<lambda>i. take (h - 1) (tmp i)) (\<lambda>q k. P (2 * Suc q) k AND P (2 * Suc q + 1) k)"
          "word_planes h W (\<lambda>i. transposed_pack_xor word_ring (drop (h - 1) (tmp i)) (odd_items (tg i)))
            (\<lambda>q k. Gf (2 * q + 1) k XOR (Gf (2 * q) k AND P (2 * q + 1) k))"
        have "computes addr sid (\<lambda>i. prefix_tree (net_u64 G) (take (h - 1) (tmp i)) (transposed_pack_xor word_ring (drop (h - 1) (tmp i)) (odd_items (tg i)))
              :: ('r session, u64 VecShare list) comp)
            (\<lambda>r. word_planes 1 W r (\<lambda>_ k. carry_fold (\<lambda>q. G' q k) (\<lambda>q. P' q k) (h - 1)))"
        proof (rule less.IH)
          show "h - 1 < m" using m by simp
          show "word_planes (h - 1) W (\<lambda>i. take (h - 1) (tmp i)) (\<lambda>q. P' (Suc q))" using tmp(2) by (simp add: P'_def)
          show "word_planes (Suc (h - 1)) W (\<lambda>i. transposed_pack_xor word_ring (drop (h - 1) (tmp i)) (odd_items (tg i))) G'"
            using tmp(3) h(4) by (simp add: G'_def)
          show "Suc (h - 1) * W < MAX_LEN" using less.prems(3) h by simp
        qed
        moreover have "2 * (h - 1) + 1 = m" using m by simp
        then have "carry_fold (\<lambda>q. G' q k) (\<lambda>q. P' q k) (h - 1) = carry_fold (\<lambda>q. Gf q k) (\<lambda>q. P q k) m" for k
          using carry_fold_pairs [of "\<lambda>q. Gf q k" "\<lambda>q. P q k" "h - 1"] unfolding G'_def P'_def by (simp only:)
        moreover have "\<not> length (tmp i) < h - 1" for i using tmp(1) [of i] m by linarith
        ultimately show "computes addr sid (\<lambda>i. if length (tmp i) < h - 1 then cstop Panicked
            else prefix_tree (net_u64 G) (take (h - 1) (tmp i)) (transposed_pack_xor word_ring (drop (h - 1) (tmp i)) (odd_items (tg i)))
              :: ('r session, u64 VecShare list) comp)
          (\<lambda>r. word_planes 1 W r (\<lambda>_ k. carry_fold (\<lambda>q. Gf q k) (\<lambda>q. P q k) m))"
          by (simp del: One_nat_def)
      qed
    next
      case True
      then obtain h where m: "m = 2 * h" "0 < h" using \<open>m \<noteq> 0\<close> by (auto elim!: evenE)
      then have h: "Suc m mod 2 = 1" "Suc (h - 1) = h" "Suc (2 * h - 1) = m" by auto
      note pp = pop_planes [of "2 * h - 1" W tp, unfolded h(3), OF less.prems(1)]
      note pg = pop_planes [of "2 * h" W tg, folded m(1), OF less.prems(2)]
      have step: "prefix_tree (net_u64 G) (tp i) (tg i) = cbind (transposed_pack_and (net_u64 G) (odd_items (butlast (tp i)) @ even_items (butlast (tg i)))
          (drop 1 (even_items (butlast (tp i))) @ even_items (butlast (tp i)))) (\<lambda>tmp. if length tmp < h - 1 then cstop Panicked
            else prefix_tree (net_u64 G) (take (h - 1) tmp @ [last (tp i)])
              (transposed_pack_xor word_ring (drop (h - 1) tmp) (odd_items (butlast (tg i))) @ [last (tg i)]))" for i
      proof -
        have "even_items (butlast (tp i)) \<noteq> []"
          using lp [of i] m length_items(1) [of "butlast (tp i)"] by (auto simp del: length_items)
        moreover have "length (tg i) \<noteq> 1" "length (tg i) mod 2 = 1" "length (odd_items (butlast (tp i))) = h - 1"
          using lg [of i] lp [of i] m by auto
        ultimately show ?thesis
          by (subst prefix_tree.simps) (simp add: ne Let_def pp(1) pg(1) del: One_nat_def length_items cong: if_cong)
      qed
      show ?thesis
        unfolding step
      proof (rule computes_tree_level [where h = h, OF _ _ m(2)])
        show "word_planes (2 * h - 1) W (\<lambda>i. butlast (tp i)) (\<lambda>q. P (Suc q))" "word_planes (2 * h) W (\<lambda>i. butlast (tg i)) Gf"
          using pp(2) pg(2) m by simp_all
        show "2 * h * W < MAX_LEN" using less.prems(3) m by simp
        fix tmp :: "PartyID \<Rightarrow> u64 VecShare list" assume tmp: "\<And>i. length (tmp i) = 2 * h - 1"
          "word_planes (h - 1) W (\<lambda>i. take (h - 1) (tmp i)) (\<lambda>q k. P (2 * Suc q) k AND P (2 * Suc q + 1) k)"
          "word_planes h W (\<lambda>i. transposed_pack_xor word_ring (drop (h - 1) (tmp i)) (odd_items (butlast (tg i))))
            (\<lambda>q k. Gf (2 * q + 1) k XOR (Gf (2 * q) k AND P (2 * q + 1) k))"
        define P2 where "P2 = (\<lambda>q. if q < h then P' q else P (2 * h))"
        define G2 where "G2 = (\<lambda>q. if q < h then G' q else Gf (2 * h))"
        have "computes addr sid (\<lambda>i. prefix_tree (net_u64 G) (take (h - 1) (tmp i) @ [last (tp i)])
              (transposed_pack_xor word_ring (drop (h - 1) (tmp i)) (odd_items (butlast (tg i))) @ [last (tg i)])
              :: ('r session, u64 VecShare list) comp)
            (\<lambda>r. word_planes 1 W r (\<lambda>_ k. carry_fold (\<lambda>q. G2 q k) (\<lambda>q. P2 q k) h))"
        proof (rule less.IH)
          show "h < m" using m by simp
          have "word_planes (Suc (h - 1)) W (\<lambda>i. take (h - 1) (tmp i) @ [last (tp i)]) (\<lambda>q. if q < h - 1 then (\<lambda>k. P (2 * Suc q) k AND P (2 * Suc q + 1) k) else P (Suc (2 * h - 1)))"
            by (rule word_planes_snoc [OF tmp(2) pp(3)])
          then have "word_planes h W (\<lambda>i. take (h - 1) (tmp i) @ [last (tp i)]) (\<lambda>q. if q < h - 1 then (\<lambda>k. P (2 * Suc q) k AND P (2 * Suc q + 1) k) else P (Suc (2 * h - 1)))"
            unfolding h(2) .
          then show "word_planes h W (\<lambda>i. take (h - 1) (tmp i) @ [last (tp i)]) (\<lambda>q. P2 (Suc q))"
            by (rule word_planes_cong) (use m in \<open>auto simp: P2_def P'_def\<close>)
          show "word_planes (Suc h) W (\<lambda>i. transposed_pack_xor word_ring (drop (h - 1) (tmp i)) (odd_items (butlast (tg i))) @ [last (tg i)]) G2"
            by (rule word_planes_cong [OF word_planes_snoc [OF tmp(3) pg(3)]]) (use m in \<open>auto simp: G2_def G'_def\<close>)
          have "Suc h * W \<le> Suc m * W" using m by (intro mult_le_mono1) simp
          then show "Suc h * W < MAX_LEN" using less.prems(3) by (rule le_less_trans)
        qed
        moreover have "carry_fold (\<lambda>q. G2 q k) (\<lambda>q. P2 q k) h = carry_fold (\<lambda>q. Gf q k) (\<lambda>q. P q k) m" for k
        proof -
          have "carry_fold (\<lambda>q. G2 q k) (\<lambda>q. P2 q k) (h - 1) = carry_fold (\<lambda>q. G' q k) (\<lambda>q. P' q k) (h - 1)"
            by (rule carry_fold_cong) (use m in \<open>auto simp: G2_def P2_def\<close>)
          also have "2 * (h - 1) + 1 = 2 * h - 1" using m by simp
          then have "carry_fold (\<lambda>q. G' q k) (\<lambda>q. P' q k) (h - 1) = carry_fold (\<lambda>q. Gf q k) (\<lambda>q. P q k) (2 * h - 1)"
            using carry_fold_pairs [of "\<lambda>q. Gf q k" "\<lambda>q. P q k" "h - 1"] unfolding G'_def P'_def by (simp only:)
          finally have IH: "carry_fold (\<lambda>q. G2 q k) (\<lambda>q. P2 q k) (h - 1) = carry_fold (\<lambda>q. Gf q k) (\<lambda>q. P q k) (2 * h - 1)" .
          have "carry_fold (\<lambda>q. G2 q k) (\<lambda>q. P2 q k) (Suc (h - 1)) = carry_fold (\<lambda>q. Gf q k) (\<lambda>q. P q k) (Suc (2 * h - 1))"
            unfolding carry_fold.simps IH using h m by (simp add: G2_def P2_def)
          then show ?thesis using h m by simp
        qed
        moreover have "\<not> length (tmp i) < h - 1" for i using tmp(1) [of i] m by linarith
        ultimately show "computes addr sid (\<lambda>i. if length (tmp i) < h - 1 then cstop Panicked
            else prefix_tree (net_u64 G) (take (h - 1) (tmp i) @ [last (tp i)])
              (transposed_pack_xor word_ring (drop (h - 1) (tmp i)) (odd_items (butlast (tg i))) @ [last (tg i)])
              :: ('r session, u64 VecShare list) comp)
          (\<lambda>r. word_planes 1 W r (\<lambda>_ k. carry_fold (\<lambda>q. Gf q k) (\<lambda>q. P q k) m))"
          by (simp del: One_nat_def)
      qed
    qed
  qed
qed

text \<open>The adder: the top bit of each lane is the sum of the two top bits and the carry below them.\<close>

lemma computes_add_2_msb:
  fixes G :: "'r prf_rng"
  assumes "word_planes (m + 2) W x1 a" "word_planes (m + 2) W x2 b" "(m + 2) * W < MAX_LEN"
  shows "computes addr sid (\<lambda>i. binary_add_2_get_msb (net_u64 G) (x1 i) (x2 i) :: ('r session, u64 VecShare) comp)
    (\<lambda>r. word_plane W r (\<lambda>k. a (m + 1) k XOR b (m + 1) k XOR carry_fold (\<lambda>q. a q k AND b q k) (\<lambda>q. a q k XOR b q k) m))"
proof -
  have len: "length (x1 i) = length (x2 i)" for i
    using word_planes_length [OF assms(1)] word_planes_length [OF assms(2)] by simp
  have Suc: "m + 2 = Suc (Suc m)" "m + 1 = Suc m" by simp_all
  note p = word_planes_xor(1) [OF assms(1,2)]
  note pp = pop_planes [of "Suc m" W, folded Suc, OF p]
  note a = pop_planes [of "Suc m" W, folded Suc, OF assms(1)] and b = pop_planes [of "Suc m" W, folded Suc, OF assms(2)]
  have ne: "butlast (transposed_pack_xor word_ring (x1 i) (x2 i)) \<noteq> []" for i
    using word_planes_length [OF pp(2), of i] by (metis add_is_0 list.size(3) one_neq_zero)
  have "(m + 1) * W \<le> (m + 2) * W" by (intro mult_le_mono1) simp
  then have size: "(m + 1) * W < MAX_LEN" using assms(3) by (rule le_less_trans)
  let ?p = "\<lambda>i. transposed_pack_xor word_ring (x1 i) (x2 i)"
  define fin :: "PartyID \<Rightarrow> u64 VecShare list \<Rightarrow> ('r session, u64 VecShare) comp" where
    "fin = (\<lambda>i temp_g. case pop_vec temp_g of (None, _) \<Rightarrow> cstop (Bail ''Should contain exactly 1 carry'')
      | (Some carry, _) \<Rightarrow> cret (vs_xor word_ring (last (?p i)) carry))"
  have step: "binary_add_2_get_msb (net_u64 G) (x1 i) (x2 i) = cbind (transposed_pack_and (net_u64 G) (butlast (x1 i)) (butlast (x2 i)))
      (\<lambda>g. cbind (prefix_tree (net_u64 G) (drop 1 (butlast (?p i))) g) (fin i))" for i
    unfolding binary_add_2_get_msb_def ni_ring_simps fin_def by (simp add: len Let_def pp(1) a(1) b(1) ne)
  have rest: "word_planes m W (\<lambda>i. drop 1 (butlast (?p i))) (\<lambda>q k. a (Suc q) k XOR b (Suc q) k)"
    using word_planes_take_drop(2) [OF pp(2), of 1] by simp
  have "computes addr sid (\<lambda>i. cbind (prefix_tree (net_u64 G) (drop 1 (butlast (?p i))) (g i)) (fin i))
      (\<lambda>r. word_plane W r (\<lambda>k. a (m + 1) k XOR b (m + 1) k XOR carry_fold (\<lambda>q. a q k AND b q k) (\<lambda>q. a q k XOR b q k) m))"
    if g: "word_planes (m + 1) W g (\<lambda>p k. a p k AND b p k)" for g
  proof (rule computes_cbind)
    show "computes addr sid (\<lambda>i. prefix_tree (net_u64 G) (drop 1 (butlast (?p i))) (g i) :: ('r session, u64 VecShare list) comp)
      (\<lambda>r. word_planes 1 W r (\<lambda>_ k. carry_fold (\<lambda>q. a q k AND b q k) (\<lambda>q. a q k XOR b q k) m))"
      by (rule computes_prefix_tree [where P = "\<lambda>q k. a q k XOR b q k", OF rest]) (use g size in simp_all)
    fix t :: "PartyID \<Rightarrow> u64 VecShare list" assume t: "word_planes 1 W t (\<lambda>_ k. carry_fold (\<lambda>q. a q k AND b q k) (\<lambda>q. a q k XOR b q k) m)"
    note pt = pop_planes [of 0 W t, folded One_nat_def, OF t]
    show "computes addr sid (\<lambda>i. fin i (t i))
        (\<lambda>r. word_plane W r (\<lambda>k. a (m + 1) k XOR b (m + 1) k XOR carry_fold (\<lambda>q. a q k AND b q k) (\<lambda>q. a q k XOR b q k) m))"
      unfolding fin_def pt(1) using word_plane_xor(1) [OF pp(3) pt(3)] by (simp add: xor.assoc computes_cret)
  qed
  then show ?thesis
    unfolding step by (rule computes_cbind [OF computes_words_and(1) [OF a(2) b(2) size]])
qed

end
