(* ===== verification/Msb_Extract.thy ===== *)
theory Msb_Extract
  imports Two_Way_Split Msb_Adder Bit_Transpose
begin

unbundle bit_operations_syntax

text \<open>
  Comparison with zero (\<open>ampc-actor-utils/src/protocol/binary.rs\<close>, \<open>ops.rs\<close>): the most
  significant bits of shared values (\<open>extract_msb\<close> and its batch and single forms), opening
  of bit shares (\<open>open_bin\<close>), and the two comparisons built on them. The trait
  \<open>Transpose64\<close> is the locale \<open>transpose64\<close>, with the four implementations as its
  interpretations.
\<close>

section \<open>Operations\<close>

definition extract_msb :: "('r, 'a) net_int \<Rightarrow> ('r, u64) net_int \<Rightarrow> ('a VecShare \<Rightarrow> u64 VecShare list option)
    \<Rightarrow> 'a VecShare \<Rightarrow> ('r session, u64 VecShare) comp" where
  "extract_msb N N64 tr x =
     cbind (two_way_split N x) (\<lambda>(x1, x2).
     cbind (ctry (or_panic (tr (bin_inner x1)))) (\<lambda>x1_t.
     cbind (ctry (or_panic (tr (bin_inner x2)))) (\<lambda>x2_t.
       binary_add_2_get_msb N64 x1_t x2_t)))"

definition word_bit :: "u64 share \<Rightarrow> nat \<Rightarrow> Bit share option" where
  "word_bit s i =
     (let (a, b) = share_get_ab s
      in case get_bit_as_bit word_ring a i of
           None \<Rightarrow> None
         | Some x \<Rightarrow> map_option (share_new x) (get_bit_as_bit word_ring b i))"

definition single_extract_msb :: "('r, 'a) net_int \<Rightarrow> ('r, u64) net_int \<Rightarrow> ('a VecShare \<Rightarrow> u64 VecShare list option)
    \<Rightarrow> 'a share \<Rightarrow> ('r session, Bit share) comp" where
  "single_extract_msb N N64 tr x =
     cbind (extract_msb N N64 tr (new_vec [x])) (\<lambda>v.
     cbind (ctry (or_panic (vs_get_at v 0))) (\<lambda>s. ctry (or_panic (word_bit s 0))))"

text \<open>
  The loop over the words and their 64 bits, left by \<open>break 'outer\<close> when there are enough
  bits. The flag says that it was left.
\<close>

fun push_bits :: "nat \<Rightarrow> u64 share \<Rightarrow> nat list \<Rightarrow> Bit share list \<Rightarrow> (bool \<times> Bit share list) option" where
  "push_bits res_len s [] res = Some (False, res)"
| "push_bits res_len s (i # js) res =
     (case word_bit s i of
        None \<Rightarrow> None
      | Some b \<Rightarrow>
        let res = res @ [b]
        in if length res = res_len then Some (True, res) else push_bits res_len s js res)"

fun push_words :: "nat \<Rightarrow> u64 share list \<Rightarrow> Bit share list \<Rightarrow> Bit share list option" where
  "push_words res_len [] res = Some res"
| "push_words res_len (s # ss) res =
     (case push_bits res_len s [0..<64] res of
        None \<Rightarrow> None
      | Some (True, res) \<Rightarrow> Some res
      | Some (False, res) \<Rightarrow> push_words res_len ss res)"

definition extract_msb_batch :: "('r, 'a) net_int \<Rightarrow> ('r, u64) net_int \<Rightarrow> ('a VecShare \<Rightarrow> u64 VecShare list option)
    \<Rightarrow> 'a share list \<Rightarrow> ('r session, Bit share list) comp" where
  "extract_msb_batch N N64 tr x =
     cbind (extract_msb N N64 tr (new_vec x)) (\<lambda>packed_bits.
       ctry (or_panic (push_words (length x) (shares packed_bits) [])))"

definition bits_received :: "nat \<Rightarrow> proto_error + NetworkValue \<Rightarrow> proto_error + Bit RingElement list" where
  "bits_received n m =
     (case m of
        Inl e \<Rightarrow> Inl (Bail ''Error in receiving in open_bin operation'')
      | Inr v \<Rightarrow>
        (case unpack_bits v of
           Panic \<Rightarrow> Inl Panicked
         | Err e \<Rightarrow> Inl (Bail ''Wrong value type received in open_bin operation'')
         | Ok b \<Rightarrow> if length b \<noteq> n then Inl (Bail ''Bit count mismatch in open_bin'') else Inr b))"

definition open_bin :: "Bit share list \<Rightarrow> ('r session, Bit list) comp" where
  "open_bin shs =
     cbind (ctry (of_outcome (if length shs = 1 then Ok (RingElementBit (share_b (shs ! 0))) else pack_bits (map share_b shs)))) (\<lambda>message.
     cbind (send_next message) (\<lambda>_.
     cbind receive_prev (\<lambda>m.
     cbind (ctry (bits_received (length shs) m)) (\<lambda>b_from_previous.
       cret (map (\<lambda>(s, prev_b). convert (re_xor bit_ring (re_xor bit_ring (share_a s) (share_b s)) prev_b)) (zip shs b_from_previous))))))"

definition lt_zero_and_open_u16 :: "'r prf_rng \<Rightarrow> u16 share list \<Rightarrow> ('r session, bool list) comp" where
  "lt_zero_and_open_u16 G distances =
     cbind (extract_msb_batch (net_u16 G) (net_u64 G) u16_transpose_pack_u64 distances) (\<lambda>bits.
     cbind (open_bin bits) (\<lambda>v. cret (map bit_convert v)))"

definition gte_zero_and_open_u16 :: "'r prf_rng \<Rightarrow> u16 share list \<Rightarrow> ('r session, bool list) comp" where
  "gte_zero_and_open_u16 G distances =
     cbind (extract_msb_batch (net_u16 G) (net_u64 G) u16_transpose_pack_u64 distances) (\<lambda>bits.
     cbind (open_bin bits) (\<lambda>v. cret (map (\<lambda>x. \<not> bit_convert x) v)))"

section \<open>Carries of a sum\<close>

fun carry_at :: "(nat \<Rightarrow> bool) \<Rightarrow> (nat \<Rightarrow> bool) \<Rightarrow> nat \<Rightarrow> bool" where
  "carry_at a b 0 = False"
| "carry_at a b (Suc n) = ((a n \<and> b n) \<noteq> ((a n \<noteq> b n) \<and> carry_at a b n))"

lemma carry_at_cong: "(\<And>q. q < n \<Longrightarrow> a q = a' q) \<Longrightarrow> (\<And>q. q < n \<Longrightarrow> b q = b' q) \<Longrightarrow> carry_at a b n = carry_at a' b' n"
  by (induction n) auto

lemma carry_fold_lane:
  "bit (carry_fold (\<lambda>q. a q AND b q) (\<lambda>q. a q XOR b q) m) j \<longleftrightarrow> carry_at (\<lambda>q. bit (a q) j) (\<lambda>q. bit (b q) j) (Suc m)"
  by (induction m) (auto simp: bit_simps)

lemma carry_div: "(take_bit n x + take_bit n y) div 2 ^ n = of_bool (carry_at (bit x) (bit y) n)" for x y :: int
proof (induction n)
  case (Suc n)
  have "(take_bit (Suc n) x + take_bit (Suc n) y) div 2 ^ Suc n =
      ((take_bit n x + take_bit n y) + (of_bool (bit x n) + of_bool (bit y n)) * 2 ^ n) div 2 ^ n div 2"
    by (simp add: take_bit_Suc_from_most distrib_right zdiv_zmult2_eq [symmetric] mult.commute add_ac)
  also have "\<dots> = (of_bool (carry_at (bit x) (bit y) n) + (of_bool (bit x n) + of_bool (bit y n))) div 2"
    by (simp add: Suc)
  also have "\<dots> = of_bool (carry_at (bit x) (bit y) (Suc n))"
    by (cases "bit x n"; cases "bit y n"; cases "carry_at (bit x) (bit y) n") simp_all
  finally show ?case .
qed simp

lemma bit_sum: "bit (x + y) n \<longleftrightarrow> (bit x n \<noteq> bit y n) \<noteq> carry_at (bit x) (bit y) n" for x y :: int
proof -
  have "x + y = (x div 2 ^ n + y div 2 ^ n) * 2 ^ n + (take_bit n x + take_bit n y)"
    using div_mult_mod_eq [of x "2 ^ n"] div_mult_mod_eq [of y "2 ^ n"] by (simp add: take_bit_eq_mod distrib_right)
  then have "(x + y) div 2 ^ n = x div 2 ^ n + y div 2 ^ n + of_bool (carry_at (bit x) (bit y) n)"
    by (simp add: carry_div)
  then show ?thesis by (cases "carry_at (bit x) (bit y) n") (auto simp: bit_iff_odd)
qed


lemma carry_at_False: "carry_at (\<lambda>_. False) b n = False" "carry_at (\<lambda>_. False) (\<lambda>_. False) n = False"
  by (induction n) simp_all

section \<open>Bit slices of a sharing\<close>

text \<open>The word with the given bits.\<close>

definition lane_word :: "(nat \<Rightarrow> bool) \<Rightarrow> u64" where
  "lane_word f = horner_sum of_bool 2 (map f [0..<64])"

lemma bit_lane_word: "bit (lane_word f) j \<longleftrightarrow> j < 64 \<and> f j"
  by (auto simp: lane_word_def bit_horner_sum_bit_word_iff)

text \<open>Slice \<open>p\<close> has bit \<open>p\<close> of all values, in the order of the lanes.\<close>

definition sliced_as :: "('a \<Rightarrow> int) \<Rightarrow> nat \<Rightarrow> 'a share list \<Rightarrow> u64 VecShare list \<Rightarrow> bool" where
  "sliced_as val n xs out \<longleftrightarrow> length out = n
     \<and> (\<forall>p < n. length (shares (out ! p)) = div_ceil (length xs) 64
          \<and> (\<forall>s. \<forall>m < div_ceil (length xs) 64 * 64. cell s (shares (out ! p)) (m div 64, m mod 64) \<longleftrightarrow>
                m < length xs \<and> bit (val (convert ((if s then share_a else share_b) (xs ! m)))) p))"

lemma bit_sliced_as: "bit_sliced n xs out \<Longrightarrow> sliced_as uint n xs out" for out :: "u64 VecShare list"
  unfolding bit_sliced_def sliced_as_def by (auto simp: cell_def bit_uint_iff dest: bit_imp_le_length)

definition slice_bits :: "('a \<Rightarrow> int) \<Rightarrow> 'a RingElement list \<Rightarrow> nat \<Rightarrow> nat \<Rightarrow> u64" where
  "slice_bits val xs p k = lane_word (\<lambda>j. 64 * k + j < length xs \<and> bit (val (convert (xs ! (64 * k + j)))) p)"

locale transpose64 = network_int N wf val
  for N :: "('r, 'a) net_int" and wf :: "'a \<Rightarrow> bool" and val :: "'a \<Rightarrow> int" +
  fixes transpose_pack_u64 :: "'a VecShare \<Rightarrow> u64 VecShare list option"
  assumes slices: "\<exists>out. transpose_pack_u64 v = Some out \<and> sliced_as val (ring_K (ni_ring N)) (shares v) out"
    and two_bits: "2 \<le> ring_K (ni_ring N)" and K64: "ring_K (ni_ring N) \<le> 64"
begin

lemma slices_of_sharing:
  assumes x: "sharing_xor ring wf (\<lambda>i. shares (x i)) xs" and out: "\<And>i. sliced_as val n (shares (x i)) (out i)"
  shows "word_planes n (div_ceil (length xs) 64) out (slice_bits val xs)"
  unfolding word_planes_def word_plane_def
proof (intro conjI allI impI)
  have len: "length (shares (x i)) = length xs" for i using sharing_lengths(2) [OF x] .
  show "length (out i) = n" for i using out by (simp add: sliced_as_def)
  fix p assume p: "p < n"
  let ?W = "div_ceil (length xs) 64"
  have bits: "bit (convert ((if s then share_a else share_b) (shares (out i ! p) ! k))) j \<longleftrightarrow>
      64 * k + j < length xs \<and> bit (val (convert ((if s then share_a else share_b) (shares (x i) ! (64 * k + j))))) p"
    if "k < ?W" "j < 64" for i s k j
  proof -
    have m: "64 * k + j < ?W * 64" "(64 * k + j) div 64 = k" "(64 * k + j) mod 64 = j" using that by auto
    have "\<forall>m < ?W * 64. cell s (shares (out i ! p)) (m div 64, m mod 64) \<longleftrightarrow>
        m < length xs \<and> bit (val (convert ((if s then share_a else share_b) (shares (x i) ! m)))) p"
      using out [of i] p len by (simp add: sliced_as_def)
    from this [rule_format, OF m(1)] show ?thesis unfolding m by (simp add: cell_def)
  qed
  note bits = bits [where s = True, simplified] bits [where s = False, simplified]
  show "sharing_xor word_ring (\<lambda>_. True) (\<lambda>i. shares (out i ! p)) (map (\<lambda>k. RingElement (slice_bits val xs p k)) [0..<?W])"
  proof (rule sharing_xorI)
    show "length (shares (out i ! p)) = length (map (\<lambda>k. RingElement (slice_bits val xs p k)) [0..<?W])" for i
      using out [of i] p len by (simp add: sliced_as_def)
    fix k assume "k < length (map (\<lambda>k. RingElement (slice_bits val xs p k)) [0..<?W])"
    then have k: "k < ?W" by simp
    have rep: "share_b (shares (out (next_id i) ! p) ! k) = share_a (shares (out i ! p) ! k)" for i
    proof -
      have "convert (share_b (shares (out (next_id i) ! p) ! k)) = convert (share_a (shares (out i ! p) ! k))"
      proof (rule bit_word_eqI)
        fix j assume "j < LENGTH(64)"
        then have j: "j < 64" by simp
        show "bit (convert (share_b (shares (out (next_id i) ! p) ! k))) j = bit (convert (share_a (shares (out i ! p) ! k))) j"
          unfolding bits [OF k j]
          using sharing_xor_nth [OF x, of "64 * k + j"] by (cases i) (auto simp: col_def)
      qed
      then show ?thesis by (metis RingElement.collapse)
    qed
    have op: "open_xor word_ring (col (\<lambda>i. shares (out i ! p)) k) = RingElement (slice_bits val xs p k)"
    proof -
      have "bit (convert (open_xor word_ring (col (\<lambda>i. shares (out i ! p)) k))) j = bit (slice_bits val xs p k) j" if j: "j < 64" for j
      proof (cases "64 * k + j < length xs")
        case True
        then have "replicated (col (\<lambda>i. shares (x i)) (64 * k + j))" "share3_wf wf (col (\<lambda>i. shares (x i)) (64 * k + j))"
          "xs ! (64 * k + j) = open_xor ring (col (\<lambda>i. shares (x i)) (64 * k + j))"
          using sharing_xor_nth [OF x True] by simp_all
        then show ?thesis using True j
          by (simp add: slice_bits_def bit_lane_word col_def re_xor_def bits [OF k j] bit_xor_iff wf_intros val_xor)
      qed (simp add: slice_bits_def bit_lane_word col_def re_xor_def bits [OF k j] bit_xor_iff)
      then have "convert (open_xor word_ring (col (\<lambda>i. shares (out i ! p)) k)) = slice_bits val xs p k"
        by (intro bit_word_eqI) simp
      then show ?thesis by (metis RingElement.collapse)
    qed
    show "replicated (col (\<lambda>i. shares (out i ! p)) k) \<and> share3_wf (\<lambda>_. True) (col (\<lambda>i. shares (out i ! p)) k) \<and>
        open_xor word_ring (col (\<lambda>i. shares (out i ! p)) k) = map (\<lambda>k. RingElement (slice_bits val xs p k)) [0..<?W] ! k"
      using rep [of ID0] rep [of ID1] rep [of ID2] op k by (simp add: col_def)
  qed
qed


lemma wf_open_xor: "share3_wf wf s \<Longrightarrow> wf (convert (open_xor ring s))"
  by (cases s) (simp add: re_xor_def wf_intros)

text \<open>The top bit of a sum, lane by lane.\<close>

lemma top_bits:
  assumes u: "\<And>k. k < n \<Longrightarrow> wf (convert (u ! k)) \<and> wf (convert (w ! k)) \<and> re_add ring (u ! k) (w ! k) = xs ! k"
    and len: "length u = n" "length w = n" "length xs = n" and K: "ring_K ring = m + 2"
  shows "slice_bits val u (m + 1) k XOR slice_bits val w (m + 1) k
      XOR carry_fold (\<lambda>q. slice_bits val u q k AND slice_bits val w q k) (\<lambda>q. slice_bits val u q k XOR slice_bits val w q k) m
    = slice_bits val xs (m + 1) k"
proof (rule bit_word_eqI)
  fix j assume "j < LENGTH(64)"
  then have j: "j < 64" by simp
  show "bit (slice_bits val u (m + 1) k XOR slice_bits val w (m + 1) k
      XOR carry_fold (\<lambda>q. slice_bits val u q k AND slice_bits val w q k) (\<lambda>q. slice_bits val u q k XOR slice_bits val w q k) m) j
    = bit (slice_bits val xs (m + 1) k) j"
  proof (cases "64 * k + j < n")
    case True
    let ?u = "val (convert (u ! (64 * k + j)))" and ?w = "val (convert (w ! (64 * k + j)))"
    have "val (convert (xs ! (64 * k + j))) = (?u + ?w) mod 2 ^ (m + 2)"
      using u [OF True] K by (metis RingElement.sel re_add_def val_add)
    then have "bit (val (convert (xs ! (64 * k + j)))) (m + 1) = bit (?u + ?w) (m + 1)"
      by (simp only: take_bit_eq_mod [symmetric] bit_take_bit_iff) simp
    also have "\<dots> = ((bit ?u (m + 1) \<noteq> bit ?w (m + 1)) \<noteq> carry_at (bit ?u) (bit ?w) (Suc m))"
      using bit_sum [of ?u ?w "m + 1"] by simp
    finally show ?thesis
      using True len j by (auto simp: bit_xor_iff carry_fold_lane slice_bits_def bit_lane_word simp del: carry_at.simps)
  next
    case False
    then show ?thesis
      using len j by (simp add: bit_xor_iff carry_fold_lane slice_bits_def bit_lane_word carry_at_False)
  qed
qed

lemma computes_extract_msb:
  fixes G :: "'r prf_rng"
  assumes x: "sharing_add ring wf (\<lambda>i. shares (x i)) xs" and n: "length xs < MAX_LEN" "ring_K ring * div_ceil (length xs) 64 < MAX_LEN"
  shows "computes addr sid (\<lambda>i. extract_msb N (net_u64 G) transpose_pack_u64 (x i))
    (\<lambda>r. word_plane (div_ceil (length xs) 64) r (slice_bits val xs (ring_K ring - 1)))"
  unfolding extract_msb_def
proof (rule computes_cbind [OF computes_two_way_split [OF x n(1)]])
  fix r :: "PartyID \<Rightarrow> 'a VecBinShare \<times> 'a VecBinShare"
  assume "\<exists>u w. sharing_xor ring wf (\<lambda>i. shares (bin_inner (fst (r i)))) u \<and> sharing_xor ring wf (\<lambda>i. shares (bin_inner (snd (r i)))) w
       \<and> length u = length xs \<and> length w = length xs \<and> (\<forall>k < length xs. re_add ring (u ! k) (w ! k) = xs ! k)"
  then obtain u w where u: "sharing_xor ring wf (\<lambda>i. shares (bin_inner (fst (r i)))) u" and w: "sharing_xor ring wf (\<lambda>i. shares (bin_inner (snd (r i)))) w"
    and len: "length u = length xs" "length w = length xs" and add: "\<And>k. k < length xs \<Longrightarrow> re_add ring (u ! k) (w ! k) = xs ! k" by blast
  obtain t where t: "transpose_pack_u64 v = Some (t v)" "sliced_as val (ring_K ring) (shares v) (t v)" for v
    using slices by metis
  obtain m where m: "ring_K ring = m + 2" using two_bits by (metis add.commute le_Suc_ex)
  let ?W = "div_ceil (length xs) 64"
  have "word_planes (m + 2) ?W (\<lambda>i. t (bin_inner (fst (r i)))) (slice_bits val u)" "word_planes (m + 2) ?W (\<lambda>i. t (bin_inner (snd (r i)))) (slice_bits val w)"
    using slices_of_sharing [OF u t(2)] slices_of_sharing [OF w t(2)] len m by simp_all
  from computes_add_2_msb [OF this, where G = G and addr = addr and sid = sid] n(2) m
  have *: "computes addr sid (\<lambda>i. binary_add_2_get_msb (net_u64 G) (t (bin_inner (fst (r i)))) (t (bin_inner (snd (r i)))) :: ('r session, u64 VecShare) comp)
    (\<lambda>r. word_plane ?W r (\<lambda>k. slice_bits val u (m + 1) k XOR slice_bits val w (m + 1) k
      XOR carry_fold (\<lambda>q. slice_bits val u q k AND slice_bits val w q k) (\<lambda>q. slice_bits val u q k XOR slice_bits val w q k) m))"
    by simp
  have wfs: "wf (convert (u ! k))" "wf (convert (w ! k))" if "k < length xs" for k
    using sharing_xor_nth [OF u, of k] sharing_xor_nth [OF w, of k] len that wf_open_xor by metis+
  have "slice_bits val u (m + 1) k XOR slice_bits val w (m + 1) k
      XOR carry_fold (\<lambda>q. slice_bits val u q k AND slice_bits val w q k) (\<lambda>q. slice_bits val u q k XOR slice_bits val w q k) m
      = slice_bits val xs (m + 1) k" for k
    by (rule top_bits) (use wfs add len m in auto)
  with * show "computes addr sid (\<lambda>i. (\<lambda>(x1, x2). cbind (ctry (or_panic (transpose_pack_u64 (bin_inner x1)))) (\<lambda>x1_t.
       cbind (ctry (or_panic (transpose_pack_u64 (bin_inner x2)))) (\<lambda>x2_t. binary_add_2_get_msb (net_u64 G) x1_t x2_t))) (r i) :: ('r session, u64 VecShare) comp)
    (\<lambda>r. word_plane ?W r (slice_bits val xs (ring_K ring - 1)))"
    by (simp add: split_def t(1) or_panic_def m)
qed

end


section \<open>Bits of the packed words\<close>

definition word_bit_share :: "u64 share \<Rightarrow> nat \<Rightarrow> Bit share" where
  "word_bit_share s j = bit_share (bit (convert (share_a s)) j) (bit (convert (share_b s)) j)"

lemma word_bit_eq: "j < 64 \<Longrightarrow> word_bit s j = Some (word_bit_share s j)"
  by (simp add: word_bit_def share_get_ab_def word.get_bit_as_bit_ok word_bit_share_def bit_share_def share_new_def bit_uint_iff)

lemma push_bits_eq:
  assumes "\<And>j. j \<in> set js \<Longrightarrow> j < 64" "length res < n"
  shows "push_bits n s js res = Some (n \<le> length res + length js, take n (res @ map (word_bit_share s) js))"
  using assms
proof (induction js arbitrary: res)
  case (Cons j js)
  show ?case
  proof (cases "Suc (length res) = n")
    case False
    then have "push_bits n s js (res @ [word_bit_share s j]) = Some (n \<le> length (res @ [word_bit_share s j]) + length js, take n ((res @ [word_bit_share s j]) @ map (word_bit_share s) js))"
      using Cons.prems by (intro Cons.IH) auto
    then show ?thesis using False Cons.prems by (simp add: word_bit_eq)
  qed (use Cons.prems in \<open>auto simp: word_bit_eq\<close>)
qed simp

lemma push_words_eq: "length res < n \<Longrightarrow> push_words n ss res = Some (take n (res @ concat (map (\<lambda>s. map (word_bit_share s) [0..<64]) ss)))"
proof (induction ss arbitrary: res)
  case (Cons s ss)
  have push: "push_bits n s [0..<64] res = Some (n \<le> length res + 64, take n (res @ map (word_bit_share s) [0..<64]))"
    using push_bits_eq [of "[0..<64]" res n s] Cons.prems by simp
  show ?case
  proof (cases "n \<le> length res + 64")
    case False
    then show ?thesis using Cons.IH [of "res @ map (word_bit_share s) [0..<64]"] push by (simp del: upt_Suc)
  qed (use push in \<open>simp del: upt_Suc\<close>)
qed simp

lemma nth_concat_equal:
  assumes "\<And>x. x \<in> set xs \<Longrightarrow> length (f x) = d" "m < length xs * d"
  shows "concat (map f xs) ! m = f (xs ! (m div d)) ! (m mod d)"
  using assms
proof (induction xs arbitrary: m)
  case (Cons x xs)
  show ?case
  proof (cases "m < d")
    case False
    moreover from this have "0 < d" using Cons.prems(2) by (cases d) simp_all
    ultimately have "m div d = Suc ((m - d) div d)" "m mod d = (m - d) mod d"
      using Cons.prems(2) by (simp_all add: le_div_geq le_mod_geq)
    then show ?thesis using Cons False by (auto simp: nth_append)
  qed (use Cons.prems in \<open>auto simp: nth_append\<close>)
qed simp

lemma take_word_bits:
  assumes "length ss = div_ceil n 64"
  shows "take n (concat (map (\<lambda>s. map (word_bit_share s) [0..<64]) ss)) = map (\<lambda>m. word_bit_share (ss ! (m div 64)) (m mod 64)) [0..<n]"
proof -
  have "length (concat (map (\<lambda>s. map (word_bit_share s) [0..<64]) ss)) = div_ceil n 64 * 64"
    using assms by (simp add: length_concat comp_def sum_list_triv)
  moreover have "n \<le> div_ceil n 64 * 64" by (rule div_ceil_mult_ge) simp
  ultimately show ?thesis
    using assms by (auto simp: nth_concat_equal simp del: upt_Suc intro!: nth_equalityI)
qed

lemma bits_of_words:
  "length ss = div_ceil n 64 \<Longrightarrow> push_words n ss [] = Some (map (\<lambda>m. word_bit_share (ss ! (m div 64)) (m mod 64)) [0..<n])"
  using take_word_bits [of ss n] by (cases "n = 0") (simp_all add: push_words_eq)

text \<open>The bits of a sharing of words are sharings of bits.\<close>

lemma wf_bit_new [simp]: "wf_bit (bit_new c)" by (simp add: bit_new_def)

lemma bits_of_sharing:
  assumes "word_plane (div_ceil n 64) x v"
  shows "sharing_xor bit_ring wf_bit (\<lambda>i. map (\<lambda>m. word_bit_share (shares (x i) ! (m div 64)) (m mod 64)) [0..<n])
    (map (\<lambda>m. RingElement (bit_new (bit (v (m div 64)) (m mod 64)))) [0..<n])"
proof (rule sharing_xorI)
  fix m assume "m < length (map (\<lambda>m. RingElement (bit_new (bit (v (m div 64)) (m mod 64)))) [0..<n])"
  then have m: "m < n" by simp
  have "n \<le> div_ceil n 64 * 64" by (rule div_ceil_mult_ge) simp
  with m have "m div 64 < div_ceil n 64" by (metis less_le_trans less_mult_imp_div_less)
  with sharing_xor_nth [OF assms [unfolded word_plane_def], of "m div 64"]
  have w: "replicated (col (\<lambda>i. shares (x i)) (m div 64))" "open_xor word_ring (col (\<lambda>i. shares (x i)) (m div 64)) = RingElement (v (m div 64))"
    by simp_all
  have x: "re_xor bit_ring (RingElement (bit_new a)) (RingElement (bit_new b)) = RingElement (bit_new (a \<noteq> b))" for a b
    by (cases a; cases b) (simp_all add: re_xor_def bit_new_def)
  have "v (m div 64) = convert (open_xor word_ring (col (\<lambda>i. shares (x i)) (m div 64)))" using w by simp
  with w(1) m show "replicated (col (\<lambda>i. map (\<lambda>m. word_bit_share (shares (x i) ! (m div 64)) (m mod 64)) [0..<n]) m) \<and>
      share3_wf wf_bit (col (\<lambda>i. map (\<lambda>m. word_bit_share (shares (x i) ! (m div 64)) (m mod 64)) [0..<n]) m) \<and>
      open_xor bit_ring (col (\<lambda>i. map (\<lambda>m. word_bit_share (shares (x i) ! (m div 64)) (m mod 64)) [0..<n]) m) =
      map (\<lambda>m. RingElement (bit_new (bit (v (m div 64)) (m mod 64)))) [0..<n] ! m"
    by (simp add: col_def word_bit_share_def bit_share_def share_new_def x) (simp add: re_xor_def bit_xor_iff)
qed simp

context transpose64
begin

lemma computes_msb_batch:
  fixes G :: "'r prf_rng"
  assumes x: "sharing_add ring wf x xs" and n: "length xs < MAX_LEN" "ring_K ring * div_ceil (length xs) 64 < MAX_LEN"
  shows "computes addr sid (\<lambda>i. extract_msb_batch N (net_u64 G) transpose_pack_u64 (x i))
    (\<lambda>r. sharing_xor bit_ring wf_bit r (map (\<lambda>e. RingElement (bit_new (bit (val (convert e)) (ring_K ring - 1)))) xs))"
  unfolding extract_msb_batch_def
proof (rule computes_cbind)
  show "computes addr sid (\<lambda>i. extract_msb N (net_u64 G) transpose_pack_u64 (new_vec (x i)))
      (\<lambda>r. word_plane (div_ceil (length xs) 64) r (slice_bits val xs (ring_K ring - 1)))"
    by (rule computes_extract_msb) (use assms in \<open>simp_all add: new_vec_def\<close>)
  fix r :: "PartyID \<Rightarrow> u64 VecShare"
  assume r: "word_plane (div_ceil (length xs) 64) r (slice_bits val xs (ring_K ring - 1))"
  have "map (\<lambda>m. RingElement (bit_new (bit (slice_bits val xs (ring_K ring - 1) (m div 64)) (m mod 64)))) [0..<length xs] =
      map (\<lambda>e. RingElement (bit_new (bit (val (convert e)) (ring_K ring - 1)))) xs"
    by (auto intro!: nth_equalityI simp: slice_bits_def bit_lane_word)
  with bits_of_sharing [OF r]
  show "computes addr sid (\<lambda>i. ctry (or_panic (push_words (length (x i)) (shares (r i)) [])) :: ('r session, Bit share list) comp)
      (\<lambda>r. sharing_xor bit_ring wf_bit r (map (\<lambda>e. RingElement (bit_new (bit (val (convert e)) (ring_K ring - 1)))) xs))"
    using word_plane_length [OF r] sharing_lengths(1) [OF x] by (simp add: bits_of_words or_panic_def ctry_def computes_cret)
qed

lemma computes_single_msb:
  fixes G :: "'r prf_rng"
  assumes x: "sharing_add ring wf (\<lambda>i. [x i]) [e]"
  shows "computes addr sid (\<lambda>i. single_extract_msb N (net_u64 G) transpose_pack_u64 (x i))
    (\<lambda>r. sharing_xor bit_ring wf_bit (\<lambda>i. [r i]) [RingElement (bit_new (bit (val (convert e)) (ring_K ring - 1)))])"
  unfolding single_extract_msb_def
proof (rule computes_cbind)
  show "computes addr sid (\<lambda>i. extract_msb N (net_u64 G) transpose_pack_u64 (new_vec [x i]))
      (\<lambda>r. word_plane (div_ceil (length [e]) 64) r (slice_bits val [e] (ring_K ring - 1)))"
    by (rule computes_extract_msb) (use assms K64 in \<open>simp_all add: new_vec_def MAX_LEN_def div_ceil_def\<close>)
  fix r :: "PartyID \<Rightarrow> u64 VecShare"
  assume r: "word_plane (div_ceil (length [e]) 64) r (slice_bits val [e] (ring_K ring - 1))"
  have "vs_get_at (r i) 0 = Some (shares (r i) ! 0)" for i
    using word_plane_length [OF r, of i] by (auto simp: vs_get_at_def div_ceil_def)
  moreover have "[word_bit_share (shares (r i) ! 0) 0] = map (\<lambda>m. word_bit_share (shares (r i) ! (m div 64)) (m mod 64)) [0..<length [e]]" for i
    by simp
  ultimately show "computes addr sid (\<lambda>i. cbind (ctry (or_panic (vs_get_at (r i) 0))) (\<lambda>s. ctry (or_panic (word_bit s 0))) :: ('r session, Bit share) comp)
      (\<lambda>r. sharing_xor bit_ring wf_bit (\<lambda>i. [r i]) [RingElement (bit_new (bit (val (convert e)) (ring_K ring - 1)))])"
    using bits_of_sharing [OF r] by (simp add: or_panic_def word_bit_eq computes_cret slice_bits_def bit_lane_word)
qed

end

section \<open>Opening of bits\<close>

lemma bit_xor_ac:
  "bit_xor (bit_xor x y) z = bit_xor x (bit_xor y z)" "bit_xor x y = bit_xor y x" "bit_xor x (bit_xor y z) = bit_xor y (bit_xor x z)"
  by (cases x; cases y; cases z; simp add: xor.assoc xor.commute xor.left_commute)+

lemma computes_open_bin:
  assumes "sharing_xor bit_ring wf_bit r xs" "length xs < MAX_LEN"
  shows "computes addr sid (\<lambda>i. open_bin (r i) :: ('r session, Bit list) comp) (\<lambda>y. \<forall>i. y i = map convert xs)"
proof -
  define msg where "msg = (\<lambda>i. if length xs = 1 then RingElementBit (share_b (r i ! 0))
      else VecRingBit (map (pack_byte 0 0) (chunks 8 (map share_b (r i)))) (length xs))"
  have len: "length (r i) = length xs" for i using sharing_lengths(2) [OF assms(1)] .
  have nth: "replicated (col r k)" "share3_wf wf_bit (col r k)" "open_xor bit_ring (col r k) = xs ! k" if "k < length xs" for k
    using sharing_xor_nth [OF assms(1) that] by auto
  have wfb: "wf_bit (convert (share_b (r i ! k)))" if "k < length xs" for i k
    using nth(2) [OF that] by (cases i) (auto simp: col_def)
  then have wfs: "\<forall>b \<in> set (map share_b (r i)). wf_bit (convert b)" for i using len by (auto simp: in_set_conv_nth)
  have send: "(if length (r i) = 1 then Ok (RingElementBit (share_b (r i ! 0))) else pack_bits (map share_b (r i))) = Ok (msg i)" for i
    using len [of i] by (simp add: msg_def pack_bits_eq)
  have arr: "arrives (msg i) (msg i)" for i
    by (rule plain_arrives) (use wfb len assms(2) in \<open>simp add: msg_def length_chunks MAX_LEN_def\<close>)
  have recv: "bits_received (length xs) (Inr (msg i)) = Inr (map share_b (r i))" for i
  proof (cases "length xs = 1")
    case True
    then have "map share_b (r i) = [share_b (r i ! 0)]" using len [of i] by (auto simp: length_Suc_conv)
    then show ?thesis using True by (simp add: bits_received_def msg_def unpack_bits.simps)
  next
    case False
    then have "unpack_bits (msg i) = Ok (map share_b (r i))"
      using unpack_pack_bits [OF wfs, of i] len [of i] by (simp add: pack_bits_eq msg_def)
    then show ?thesis using len [of i] by (simp add: bits_received_def)
  qed
  have opened: "convert (re_xor bit_ring (re_xor bit_ring (share_a (r i ! k)) (share_b (r i ! k))) (share_b (r (prev_id i) ! k))) = convert (xs ! k)"
    if "k < length xs" for i k
    using nth(1,3) [OF that] by (cases i) (auto simp: col_def re_xor_def bit_xor_ac)
  show ?thesis
    unfolding open_bin_def send of_outcome_def outcome.case ctry_simps cbind_cret
    by (rule computes_send_next [where w = msg, OF arr]) (use len recv opened in \<open>auto intro!: computes_cret nth_equalityI\<close>)
qed


section \<open>The implementations\<close>

lemma width_fits: "n + 64 \<le> MAX_LEN \<Longrightarrow> K \<le> 64 \<Longrightarrow> K * div_ceil n 64 < MAX_LEN"
proof -
  assume *: "n + 64 \<le> MAX_LEN" "K \<le> 64"
  have "K * div_ceil n 64 \<le> 64 * div_ceil n 64" by (rule mult_le_mono1) (rule *)
  also have "\<dots> < n + 64" by (simp add: div_ceil_def) presburger
  finally show "K * div_ceil n 64 < MAX_LEN" using *(1) by linarith
qed

context transpose64
begin

lemma computes_msb_open:
  fixes G :: "'r prf_rng"
  assumes "sharing_add ring wf x xs" "length xs + 64 \<le> MAX_LEN"
  shows "computes addr sid (\<lambda>i. cbind (extract_msb_batch N (net_u64 G) transpose_pack_u64 (x i)) open_bin)
    (\<lambda>r. \<forall>i. r i = map (\<lambda>e. bit_new (bit (val (convert e)) (ring_K ring - 1))) xs)"
proof (rule computes_cbind [OF computes_msb_batch [OF assms(1)]])
  fix r assume "sharing_xor bit_ring wf_bit r (map (\<lambda>e. RingElement (bit_new (bit (val (convert e)) (ring_K ring - 1)))) xs)"
  from computes_open_bin [OF this, where addr = addr and sid = sid]
  show "computes addr sid (\<lambda>i. open_bin (r i) :: ('r session, Bit list) comp) (\<lambda>r. \<forall>i. r i = map (\<lambda>e. bit_new (bit (val (convert e)) (ring_K ring - 1))) xs)"
    using assms(2) by (simp add: comp_def)
qed (use assms(2) width_fits K64 in auto)

end

lemma slices_as_impls:
  "\<exists>out. u16_transpose_pack_u64 v16 = Some out \<and> sliced_as uint 16 (shares v16) out"
  "\<exists>out. u32_transpose_pack_u64 v32 = Some out \<and> sliced_as uint 32 (shares v32) out"
  "\<exists>out. u64_transpose_pack_u64 v64 = Some out \<and> sliced_as uint 64 (shares v64) out"
  "\<exists>out. ring48_transpose_pack_u64 v48 = Some out \<and> sliced_as val48 48 (shares v48) out"
proof -
  show "\<exists>out. u16_transpose_pack_u64 v16 = Some out \<and> sliced_as uint 16 (shares v16) out"
    unfolding u16_transpose_pack_u64_def using pack_u64_sliced [OF share_transpose16x64_transposes, of _ v16] bit_sliced_as by blast
  show "\<exists>out. u32_transpose_pack_u64 v32 = Some out \<and> sliced_as uint 32 (shares v32) out"
    unfolding u32_transpose_pack_u64_def using pack_u64_sliced [OF share_transpose32x64_transposes, of _ v32] bit_sliced_as by blast
  show "\<exists>out. u64_transpose_pack_u64 v64 = Some out \<and> sliced_as uint 64 (shares v64) out"
    unfolding u64_transpose_pack_u64_def using pack_u64_sliced [OF share_transpose64x64_transposes, of _ v64] bit_sliced_as by blast
  have val48_uint: "val48 y = uint (case y of Ring48 x \<Rightarrow> x)" for y by (cases y) simp
  obtain out where "ring48_transpose_pack_u64 v48 = Some out" "sliced_as uint 48 (ring48_chunk_to_u64 (shares v48)) out"
    using ring48_sliced [of v48] bit_sliced_as unfolding ring48_transpose_pack_u64_def by blast
  moreover from this(2) have "sliced_as val48 48 (shares v48) out"
    by (auto simp: sliced_as_def ring48_chunk_to_u64_def val48_uint share_new_def split: Ring48.splits)
  ultimately show "\<exists>out. ring48_transpose_pack_u64 v48 = Some out \<and> sliced_as val48 48 (shares v48) out" by blast
qed

interpretation tr16: transpose64 "net_u16 G" "\<lambda>_. True" uint u16_transpose_pack_u64 for G
  by unfold_locales (use slices_as_impls(1) in auto)

interpretation tr32: transpose64 "net_u32 G" "\<lambda>_. True" uint u32_transpose_pack_u64 for G
  by unfold_locales (use slices_as_impls(2) in auto)

interpretation tr64: transpose64 "net_u64 G" "\<lambda>_. True" uint u64_transpose_pack_u64 for G
  by unfold_locales (use slices_as_impls(3) in auto)

interpretation tr48: transpose64 "net_ring48 G" wf48 val48 ring48_transpose_pack_u64 for G
  by unfold_locales (use slices_as_impls(4) in auto)

lemmas msb_open_impls =
  tr16.computes_msb_open [unfolded ni_ring_simps] tr32.computes_msb_open [unfolded ni_ring_simps]
  tr64.computes_msb_open [unfolded ni_ring_simps] tr48.computes_msb_open [unfolded ni_ring_simps]

section \<open>Properties\<close>

text \<open>
  C5: extraction of most significant bits. Three linked parties that hold additive shares of
  values in the 16, 32, 64 or 48 bit ring extract the most significant bits and open them:
  under any interleaving they all finish, with the top bit of every value, in order. This
  covers the two way split, the bit transposition and the parallel prefix adder.
\<close>

theorem most_significant_bits_open:
  fixes S :: "PartyID \<Rightarrow> 'r session" and G :: "'r prf_rng"
  assumes "linked addr sid S"
    and "sharing_add word_ring (\<lambda>_. True) x16 xs16" "length xs16 + 64 \<le> MAX_LEN"
    and "sharing_add word_ring (\<lambda>_. True) x32 xs32" "length xs32 + 64 \<le> MAX_LEN"
    and "sharing_add word_ring (\<lambda>_. True) x64 xs64" "length xs64 + 64 \<le> MAX_LEN"
    and "sharing_add ring48_ring wf48 x48 xs48" "length xs48 + 64 \<le> MAX_LEN"
  shows "always_finishes addr (\<lambda>i. cbind (extract_msb_batch (net_u16 G) (net_u64 G) u16_transpose_pack_u64 (x16 i)) open_bin (S i))
      (\<lambda>r. (\<forall>i. fst (r i) = map (\<lambda>e. bit_new (bit (convert e) 15)) xs16) \<and> linked addr sid (\<lambda>i. snd (r i)))
    \<and> always_finishes addr (\<lambda>i. cbind (extract_msb_batch (net_u32 G) (net_u64 G) u32_transpose_pack_u64 (x32 i)) open_bin (S i))
      (\<lambda>r. (\<forall>i. fst (r i) = map (\<lambda>e. bit_new (bit (convert e) 31)) xs32) \<and> linked addr sid (\<lambda>i. snd (r i)))
    \<and> always_finishes addr (\<lambda>i. cbind (extract_msb_batch (net_u64 G) (net_u64 G) u64_transpose_pack_u64 (x64 i)) open_bin (S i))
      (\<lambda>r. (\<forall>i. fst (r i) = map (\<lambda>e. bit_new (bit (convert e) 63)) xs64) \<and> linked addr sid (\<lambda>i. snd (r i)))
    \<and> always_finishes addr (\<lambda>i. cbind (extract_msb_batch (net_ring48 G) (net_u64 G) ring48_transpose_pack_u64 (x48 i)) open_bin (S i))
      (\<lambda>r. (\<forall>i. fst (r i) = map (\<lambda>e. bit_new (bit (val48 (convert e)) 47)) xs48) \<and> linked addr sid (\<lambda>i. snd (r i)))"
  using computes_always_finishes [OF msb_open_impls(1) [OF assms(2,3)] assms(1), of G]
    computes_always_finishes [OF msb_open_impls(2) [OF assms(4,5)] assms(1), of G]
    computes_always_finishes [OF msb_open_impls(3) [OF assms(6,7)] assms(1), of G]
    computes_always_finishes [OF msb_open_impls(4) [OF assms(8,9)] assms(1), of G]
  by (simp add: bit_uint_iff)

theorem most_significant_bits_open_witness:
  "always_finishes demo_addr (\<lambda>i. cbind (extract_msb_batch (net_u16 demo_rng) (net_u64 demo_rng) u16_transpose_pack_u64 (deal [sh 60000 60000 1, sh 1 2 3] i)) open_bin (demo_session i))
      (\<lambda>r. (\<forall>i. fst (r i) = [Bit 1, Bit 0]) \<and> linked demo_addr 7 (\<lambda>i. snd (r i)))"
proof -
  have s: "sharing_add word_ring (\<lambda>_. True) (deal [sh 60000 60000 1, sh 1 2 3]) [RingElement (54465 :: u16), RingElement 6]"
    "sharing_add word_ring (\<lambda>_. True) (deal []) ([] :: u32 RingElement list)"
    "sharing_add word_ring (\<lambda>_. True) (deal []) ([] :: u64 RingElement list)"
    "sharing_add ring48_ring wf48 (deal []) []"
    by (simp_all add: sharing_deal sh_def share_new_def re_add_def)
  have "bit (54465 :: u16) 15" "\<not> bit (6 :: u16) 15" by code_simp+
  then show ?thesis
    using conjunct1 [OF most_significant_bits_open [where G = demo_rng, OF demo_linked s(1) _ s(2) _ s(3) _ s(4)]]
    by (simp add: MAX_LEN_def bit_new_def)
qed

text \<open>
  Comparison with zero. Three linked parties that call \<open>lt_zero_and_open_u16\<close> or
  \<open>gte_zero_and_open_u16\<close> on shared distances all finish, under any interleaving, and
  every party gets for each distance whether it is negative, or not, as a signed number.
\<close>

theorem comparisons_with_zero_open:
  fixes S :: "PartyID \<Rightarrow> 'r session" and G :: "'r prf_rng"
  assumes "linked addr sid S" "sharing_add word_ring (\<lambda>_. True) x xs" "length xs + 64 \<le> MAX_LEN"
  shows "always_finishes addr (\<lambda>i. lt_zero_and_open_u16 G (x i) (S i))
      (\<lambda>r. (\<forall>i. fst (r i) = map (\<lambda>e. sint (convert e) < 0) xs) \<and> linked addr sid (\<lambda>i. snd (r i)))
    \<and> always_finishes addr (\<lambda>i. gte_zero_and_open_u16 G (x i) (S i))
      (\<lambda>r. (\<forall>i. fst (r i) = map (\<lambda>e. 0 \<le> sint (convert e)) xs) \<and> linked addr sid (\<lambda>i. snd (r i)))"
proof -
  have sign: "bit e 15 \<longleftrightarrow> sint e < 0" for e :: u16 using bit_last_iff [of e] by simp
  note opened = msb_open_impls(1) [OF assms(2,3), of addr sid G]
  have "computes addr sid (\<lambda>i. lt_zero_and_open_u16 G (x i)) (\<lambda>r. \<forall>i. r i = map (\<lambda>e. sint (convert e) < 0) xs)"
    "computes addr sid (\<lambda>i. gte_zero_and_open_u16 G (x i)) (\<lambda>r. \<forall>i. r i = map (\<lambda>e. 0 \<le> sint (convert e)) xs)"
    unfolding lt_zero_and_open_u16_def gte_zero_and_open_u16_def cbind_assoc [symmetric]
    by (rule computes_cbind [OF opened], rule computes_cret, simp add: bit_uint_iff sign bit_new_def not_less)+
  from this [THEN computes_always_finishes, OF assms(1)] show ?thesis by simp
qed

theorem comparisons_with_zero_open_witness:
  "always_finishes demo_addr (\<lambda>i. lt_zero_and_open_u16 demo_rng (deal [sh 60000 60000 1, sh 1 2 3] i) (demo_session i))
      (\<lambda>r. (\<forall>i. fst (r i) = [True, False]) \<and> linked demo_addr 7 (\<lambda>i. snd (r i)))
    \<and> always_finishes demo_addr (\<lambda>i. gte_zero_and_open_u16 demo_rng (deal [sh 60000 60000 1, sh 1 2 3] i) (demo_session i))
      (\<lambda>r. (\<forall>i. fst (r i) = [False, True]) \<and> linked demo_addr 7 (\<lambda>i. snd (r i)))"
proof -
  have s: "sharing_add word_ring (\<lambda>_. True) (deal [sh 60000 60000 1, sh 1 2 3]) [RingElement (54465 :: u16), RingElement 6]"
    by (simp add: sharing_deal sh_def share_new_def re_add_def)
  have "sint (54465 :: u16) = -11071" "sint (6 :: u16) = 6" by simp_all
  then show ?thesis
    using comparisons_with_zero_open [where G = demo_rng, OF demo_linked s] by (simp add: MAX_LEN_def)
qed

end
