(* ===== verification/Carry_Adder.thy ===== *)
theory Carry_Adder
  imports Msb_Extract
begin

unbundle bit_operations_syntax

text \<open>
  The ripple carry adder of \<open>ampc-actor-utils/src/protocol/binary.rs\<close> that lifting uses
  (\<open>binary_add_3_get_two_carries\<close>): from bit-sliced sharings of three numbers it computes the
  two bits by which their sum overflows the width.
\<close>

section \<open>Operations\<close>

definition vec_at :: "'b list \<Rightarrow> nat \<Rightarrow> proto_error + 'b" where
  "vec_at xs i = (if i < length xs then Inr (xs ! i) else Inl Panicked)"

fun ripple_carry :: "('r, 'a) net_int \<Rightarrow> 'a VecShare \<Rightarrow> ('a VecShare \<times> 'a VecShare) list \<Rightarrow> ('r session, 'a VecShare) comp" where
  "ripple_carry N carry [] = cret carry"
| "ripple_carry N carry ((s, c) # rest) =
     (let s = vs_xor_assign_slice (ni_ring N) s (vs_as_slice carry);
          c = vs_xor_assign_slice (ni_ring N) c (vs_as_slice carry)
      in cbind (and_many N (vs_as_slice s) (vs_as_slice c)) (\<lambda>tmp_c.
           ripple_carry N (vs_xor_assign (ni_ring N) carry tmp_c) rest))"

definition binary_add_3_get_two_carries :: "('r, 'a) net_int \<Rightarrow> 'a VecShare list \<Rightarrow> 'a VecShare list \<Rightarrow> 'a VecShare list
    \<Rightarrow> nat \<Rightarrow> ('r session, Bit VecShare \<times> Bit VecShare) comp" where
  "binary_add_3_get_two_carries N x1 x2 x3 truncate_len =
     (let R = ni_ring N; len = length x1
      in if len \<noteq> length x2 \<or> len \<noteq> length x3 then cstop (Bail ''Inputs have different length'')
         else if len < 16 then cstop (Bail ''Input length should be at least 16'')
         else
           let x2x3 = transposed_pack_xor_assign R x2 x3;
               s = transposed_pack_xor R x1 x2x3;
               x1x3 = transposed_pack_xor_assign R x1 x3
           in cbind (transposed_pack_and N x1x3 x2x3) (\<lambda>c.
              let c = transposed_pack_xor_assign R c x3
              in cbind (ctry (vec_at s 1)) (\<lambda>s1.
                 cbind (ctry (vec_at c 0)) (\<lambda>c0.
                 cbind (and_many N (vs_as_slice s1) (vs_as_slice c0)) (\<lambda>carry.
                 case pop_vec c of
                   (None, _) \<Rightarrow> cstop (Bail ''Not enough elements'')
                 | (Some c_msb, c) \<Rightarrow>
                   cbind (ripple_carry N carry (zip (drop 2 s) (drop 1 c))) (\<lambda>carry.
                   cbind (and_many N (vs_as_slice c_msb) (vs_as_slice carry)) (\<lambda>res2.
                   let c_msb = vs_xor_assign R c_msb carry
                   in cbind (ctry (or_panic (convert_to_bits R c_msb))) (\<lambda>res1.
                      cbind (ctry (or_panic (convert_to_bits R res2))) (\<lambda>res2.
                        cret (vs_truncate res1 truncate_len, vs_truncate res2 truncate_len))))))))))"

section \<open>Carries\<close>

text \<open>The full adder on three bits.\<close>

definition maj :: "bool \<Rightarrow> bool \<Rightarrow> bool \<Rightarrow> bool" where
  "maj x y z \<longleftrightarrow> (x \<and> y) \<or> (z \<and> (x \<or> y))"

fun ripple_word :: "(nat \<Rightarrow> u64) \<Rightarrow> (nat \<Rightarrow> u64) \<Rightarrow> nat \<Rightarrow> u64" where
  "ripple_word s c 0 = s 1 AND c 0"
| "ripple_word s c (Suc m) = ripple_word s c m XOR ((s (m + 2) XOR ripple_word s c m) AND (c (m + 1) XOR ripple_word s c m))"

lemma ripple_word_lane:
  "bit (ripple_word s c m) j \<longleftrightarrow> carry_at (\<lambda>p. bit (s p) j) (\<lambda>p. 0 < p \<and> bit (c (p - 1)) j) (m + 2)"
proof (induction m)
  case (Suc m)
  show ?case
    by (simp add: bit_xor_iff bit_and_iff Suc) auto
qed (simp add: bit_and_iff numeral_2_eq_2)

lemma sum_overflow:
  fixes x y z :: int
  defines "s \<equiv> \<lambda>p. (bit x p \<noteq> bit y p) \<noteq> bit z p" and "c \<equiv> \<lambda>p. 0 < p \<and> maj (bit x (p - 1)) (bit y (p - 1)) (bit z (p - 1))"
  shows "(take_bit n x + take_bit n y + take_bit n z) div 2 ^ n = of_bool (c n) + of_bool (carry_at s c n)"
proof (induction n)
  case (Suc n)
  have "(take_bit (Suc n) x + take_bit (Suc n) y + take_bit (Suc n) z) div 2 ^ Suc n =
      ((take_bit n x + take_bit n y + take_bit n z) + (of_bool (bit x n) + of_bool (bit y n) + of_bool (bit z n)) * 2 ^ n) div 2 ^ n div 2"
    by (simp add: take_bit_Suc_from_most distrib_right zdiv_zmult2_eq [symmetric] mult.commute add_ac)
  also have "\<dots> = (of_bool (c n) + of_bool (carry_at s c n) + (of_bool (bit x n) + of_bool (bit y n) + of_bool (bit z n))) div 2"
    by (simp add: Suc)
  also have "\<dots> = of_bool (c (Suc n)) + of_bool (carry_at s c (Suc n))"
  proof -
    have "s n = ((bit x n \<noteq> bit y n) \<noteq> bit z n)" "c (Suc n) = maj (bit x n) (bit y n) (bit z n)" by (simp_all add: s_def c_def)
    then show ?thesis
      by (cases "bit x n"; cases "bit y n"; cases "bit z n"; cases "carry_at s c n"; cases "c n") (simp_all add: maj_def)
  qed
  finally show ?case .
qed (simp add: c_def)

section \<open>The circuit\<close>

lemma computes_ripple:
  fixes G :: "'r prf_rng"
  assumes "word_plane W carry w" "word_planes n W s S" "word_planes n W c C" "W < MAX_LEN"
  shows "computes addr sid (\<lambda>i. ripple_carry (net_u64 G) (carry i) (zip (s i) (c i)) :: ('r session, u64 VecShare) comp)
    (\<lambda>r. word_plane W r (\<lambda>k. rec_nat (w k) (\<lambda>m z. z XOR ((S m k XOR z) AND (C m k XOR z))) n))"
  using assms(1-3)
proof (induction n arbitrary: carry w s c S C)
  case 0
  then have "s i = []" for i using word_planes_length [OF 0(2), of i] by simp
  then show ?case using 0(1) by (simp add: computes_cret)
next
  case (Suc n)
  have len: "length (s i) = Suc n" "length (c i) = Suc n" for i
    using word_planes_length [OF Suc.prems(2)] word_planes_length [OF Suc.prems(3)] by simp_all
  have s0: "word_plane W (\<lambda>i. s i ! 0) (S 0)" and c0: "word_plane W (\<lambda>i. c i ! 0) (C 0)"
    using word_planes_nth [OF Suc.prems(2), of 0] word_planes_nth [OF Suc.prems(3), of 0] by simp_all
  have rest: "word_planes n W (\<lambda>i. drop 1 (s i)) (\<lambda>q. S (Suc q))" "word_planes n W (\<lambda>i. drop 1 (c i)) (\<lambda>q. C (Suc q))"
    using word_planes_take_drop(2) [OF Suc.prems(2), of 1] word_planes_take_drop(2) [OF Suc.prems(3), of 1] by simp_all
  have step: "zip (s i) (c i) = (s i ! 0, c i ! 0) # zip (drop 1 (s i)) (drop 1 (c i))" for i
    using len [of i] by (cases "s i"; cases "c i") simp_all
  note xs = word_plane_xor [OF s0 Suc.prems(1)] and xc = word_plane_xor [OF c0 Suc.prems(1)]
  have shift: "rec_nat (w k) (\<lambda>m z. z XOR ((S m k XOR z) AND (C m k XOR z))) (Suc n) =
      rec_nat (w k XOR ((S 0 k XOR w k) AND (C 0 k XOR w k))) (\<lambda>m z. z XOR ((S (Suc m) k XOR z) AND (C (Suc m) k XOR z))) n" for k
    by (induction n) simp_all
  show ?case
    unfolding step ripple_carry.simps Let_def ni_ring_simps xs(2) xc(2) shift
  proof (rule computes_cbind [OF computes_word_and [OF xs(1) xc(1) assms(4)]])
    fix t :: "PartyID \<Rightarrow> u64 VecShare" assume t: "word_plane W t (\<lambda>k. (S 0 k XOR w k) AND (C 0 k XOR w k))"
    note xt = word_plane_xor [OF Suc.prems(1) t]
    show "computes addr sid (\<lambda>i. ripple_carry (net_u64 G) (vs_xor_assign word_ring (carry i) (t i)) (zip (drop 1 (s i)) (drop 1 (c i))) :: ('r session, u64 VecShare) comp)
      (\<lambda>r. word_plane W r (\<lambda>k. rec_nat (w k XOR ((S 0 k XOR w k) AND (C 0 k XOR w k))) (\<lambda>m z. z XOR ((S (Suc m) k XOR z) AND (C (Suc m) k XOR z))) n))"
      unfolding xt(3) by (rule Suc.IH [OF xt(1) rest])
  qed
qed


section \<open>Bits of the result\<close>
lemma truncated_bits:
  "convert_to_bits word_ring v = Some \<lparr>shares = concat (map (\<lambda>s. map (word_bit_share s) [0..<64]) (shares v))\<rparr>" for v :: "u64 VecShare"
proof -
  have "word.bits_of = (\<lambda>s :: u64 share. map (word_bit_share s) [0..<64])"
    by (simp add: fun_eq_iff word.bits_of_def word_bit_share_def bit_uint_iff)
  then show ?thesis by (simp add: word.convert_to_bits_eq word.share_wf_def)
qed

text \<open>The sum of the three planes and the carries, by word.\<close>

definition sum_word :: "(nat \<Rightarrow> nat \<Rightarrow> u64) \<Rightarrow> (nat \<Rightarrow> nat \<Rightarrow> u64) \<Rightarrow> (nat \<Rightarrow> nat \<Rightarrow> u64) \<Rightarrow> nat \<Rightarrow> nat \<Rightarrow> u64" where
  "sum_word a b d p k = a p k XOR b p k XOR d p k"

definition carry_word :: "(nat \<Rightarrow> nat \<Rightarrow> u64) \<Rightarrow> (nat \<Rightarrow> nat \<Rightarrow> u64) \<Rightarrow> (nat \<Rightarrow> nat \<Rightarrow> u64) \<Rightarrow> nat \<Rightarrow> nat \<Rightarrow> u64" where
  "carry_word a b d p k = ((a p k XOR d p k) AND (b p k XOR d p k)) XOR d p k"

lemma computes_two_carries:
  fixes G :: "'r prf_rng"
  assumes x: "word_planes n W x1 a" "word_planes n W x2 b" "word_planes n W x3 d" and n: "16 \<le> n" "n * W < MAX_LEN" and W: "W = div_ceil len 64"
  defines "s \<equiv> sum_word a b d" and "c \<equiv> carry_word a b d"
  defines "carry \<equiv> \<lambda>k. ripple_word (\<lambda>p. s p k) (\<lambda>p. c p k) (n - 2)"
  shows "computes addr sid (\<lambda>i. binary_add_3_get_two_carries (net_u64 G) (x1 i) (x2 i) (x3 i) len :: ('r session, Bit VecShare \<times> Bit VecShare) comp)
    (\<lambda>r. sharing_xor bit_ring wf_bit (\<lambda>i. shares (fst (r i))) (map (\<lambda>m. RingElement (bit_new (bit (c (n - 1) (m div 64) XOR carry (m div 64)) (m mod 64)))) [0..<len])
       \<and> sharing_xor bit_ring wf_bit (\<lambda>i. shares (snd (r i))) (map (\<lambda>m. RingElement (bit_new (bit (c (n - 1) (m div 64) AND carry (m div 64)) (m mod 64)))) [0..<len]))"
proof -
  have len: "length (x1 i) = n" "length (x2 i) = n" "length (x3 i) = n" for i using x word_planes_length by blast+
  have "1 * W \<le> n * W" by (rule mult_le_mono1) (use n(1) in simp)
  then have W': "W < MAX_LEN" using n(2) by linarith
  define y where "y = (\<lambda>i. transposed_pack_xor_assign word_ring (x2 i) (x3 i))"
  define z where "z = (\<lambda>i. transposed_pack_xor_assign word_ring (x1 i) (x3 i))"
  define t where "t = (\<lambda>i. transposed_pack_xor word_ring (x1 i) (y i))"
  have y: "word_planes n W y (\<lambda>p k. b p k XOR d p k)" unfolding y_def by (rule word_planes_xor(2) [OF x(2,3)])
  have z: "word_planes n W z (\<lambda>p k. a p k XOR d p k)" unfolding z_def by (rule word_planes_xor(2) [OF x(1,3)])
  have t: "word_planes n W t s" unfolding t_def s_def sum_word_def [abs_def] by (rule word_planes_xor(1) [OF x(1) y])
  obtain m where m: "n = Suc (Suc m)" using n(1) that [of "n - 2"] by simp
  define fin :: "PartyID \<Rightarrow> u64 VecShare \<Rightarrow> u64 VecShare \<Rightarrow> ('r session, Bit VecShare \<times> Bit VecShare) comp" where
    "fin = (\<lambda>i c_msb w. cbind (and_many (net_u64 G) (vs_as_slice c_msb) (vs_as_slice w)) (\<lambda>res2.
       cbind (ctry (or_panic (convert_to_bits word_ring (vs_xor_assign word_ring c_msb w)))) (\<lambda>res1.
       cbind (ctry (or_panic (convert_to_bits word_ring res2))) (\<lambda>res2. cret (vs_truncate res1 len, vs_truncate res2 len)))))"
  let ?Q = "\<lambda>r. sharing_xor bit_ring wf_bit (\<lambda>i. shares (fst (r i))) (map (\<lambda>m. RingElement (bit_new (bit (c (n - 1) (m div 64) XOR carry (m div 64)) (m mod 64)))) [0..<len])
       \<and> sharing_xor bit_ring wf_bit (\<lambda>i. shares (snd (r i))) (map (\<lambda>m. RingElement (bit_new (bit (c (n - 1) (m div 64) AND carry (m div 64)) (m mod 64)))) [0..<len])"
  have fin: "computes addr sid (\<lambda>i. fin i (u i) (w i)) ?Q" if u: "word_plane W u (c (n - 1))" and w: "word_plane W w carry" for u w
    unfolding fin_def
  proof (rule computes_cbind [OF computes_word_and [OF u w W']])
    fix v :: "PartyID \<Rightarrow> u64 VecShare" assume v: "word_plane W v (\<lambda>k. c (n - 1) k AND carry k)"
    have q: "word_plane W (\<lambda>i. vs_xor_assign word_ring (u i) (w i)) (\<lambda>k. c (n - 1) k XOR carry k)"
      using word_plane_xor [OF u w] by simp
    note bv = bits_of_sharing [OF v [unfolded W]] and bq = bits_of_sharing [OF q [unfolded W]]
    have trunc: "shares (vs_truncate \<lparr>shares = concat (map (\<lambda>s. map (word_bit_share s) [0..<64]) (shares (f i)))\<rparr> len)
        = map (\<lambda>m. word_bit_share (shares (f i) ! (m div 64)) (m mod 64)) [0..<len]" if "word_plane W f g" for f g i
      using take_word_bits [of "shares (f i)" len] word_plane_length [OF that, of i] W by (simp add: vs_truncate_def)
    show "computes addr sid (\<lambda>i. cbind (ctry (or_panic (convert_to_bits word_ring (vs_xor_assign word_ring (u i) (w i))))) (\<lambda>res1.
        cbind (ctry (or_panic (convert_to_bits word_ring (v i)))) (\<lambda>res2. cret (vs_truncate res1 len, vs_truncate res2 len))) :: ('r session, Bit VecShare \<times> Bit VecShare) comp) ?Q"
      using bv bq unfolding truncated_bits or_panic_def option.case ctry_simps cbind_cret
      by (intro computes_cret) (simp add: trunc [OF v] trunc [OF q] del: upt_Suc)
  qed
  have step: "binary_add_3_get_two_carries (net_u64 G) (x1 i) (x2 i) (x3 i) len = cbind (transposed_pack_and (net_u64 G) (z i) (y i)) (\<lambda>e.
      let e = transposed_pack_xor_assign word_ring e (x3 i)
      in cbind (ctry (vec_at (t i) 1)) (\<lambda>s1. cbind (ctry (vec_at e 0)) (\<lambda>c0. cbind (and_many (net_u64 G) (vs_as_slice s1) (vs_as_slice c0)) (\<lambda>w.
          case pop_vec e of (None, _) \<Rightarrow> cstop (Bail ''Not enough elements'')
          | (Some c_msb, e) \<Rightarrow> cbind (ripple_carry (net_u64 G) w (zip (drop 2 (t i)) (drop 1 e))) (fin i c_msb)))))" for i
    unfolding binary_add_3_get_two_carries_def fin_def y_def z_def t_def Let_def ni_ring_simps len using n(1) by (simp del: One_nat_def)
  have planes: "computes addr sid (\<lambda>i. cbind (ctry (vec_at (t i) 1)) (\<lambda>s1. cbind (ctry (vec_at (e i) 0)) (\<lambda>c0. cbind (and_many (net_u64 G) (vs_as_slice s1) (vs_as_slice c0)) (\<lambda>w.
          case pop_vec (e i) of (None, _) \<Rightarrow> cstop (Bail ''Not enough elements'')
          | (Some c_msb, e) \<Rightarrow> cbind (ripple_carry (net_u64 G) w (zip (drop 2 (t i)) (drop 1 e))) (fin i c_msb))))) ?Q" if e: "word_planes n W e c" for e
  proof -
    have lens: "length (t i) = n" "length (e i) = n" for i using word_planes_length t e by blast+
    have t1: "word_plane W (\<lambda>i. t i ! 1) (s 1)" and e0: "word_plane W (\<lambda>i. e i ! 0) (c 0)"
      using word_planes_nth [OF t, of 1] word_planes_nth [OF e, of 0] n(1) by simp_all
    note pe = pop_planes [of "Suc m" W e c, folded m, OF e]
    have ts: "word_planes m W (\<lambda>i. drop 2 (t i)) (\<lambda>q. s (q + 2))"
      using word_planes_take_drop(2) [OF t, of 2] m by (simp add: add.commute)
    have es: "word_planes m W (\<lambda>i. drop 1 (butlast (e i))) (\<lambda>q. c (q + 1))"
      using word_planes_take_drop(2) [OF pe(2), of 1] by (simp add: add.commute)
    have last: "word_plane W (\<lambda>i. last (e i)) (c (n - 1))" using pe(3) m by simp
    have rec: "rec_nat (s 1 k AND c 0 k) (\<lambda>q z. z XOR ((s (q + 2) k XOR z) AND (c (q + 1) k XOR z))) m = carry k" for k
    proof -
      have "rec_nat (s 1 k AND c 0 k) (\<lambda>q z. z XOR ((s (q + 2) k XOR z) AND (c (q + 1) k XOR z))) j = ripple_word (\<lambda>p. s p k) (\<lambda>p. c p k) j" for j
        by (induction j) simp_all
      then show ?thesis by (simp add: carry_def m)
    qed
    have "computes addr sid (\<lambda>i. cbind (and_many (net_u64 G) (vs_as_slice (t i ! 1)) (vs_as_slice (e i ! 0))) (\<lambda>w.
        cbind (ripple_carry (net_u64 G) w (zip (drop 2 (t i)) (drop 1 (butlast (e i))))) (fin i (last (e i))))) ?Q"
    proof (rule computes_cbind [OF computes_word_and [OF t1 e0 W']])
      fix w :: "PartyID \<Rightarrow> u64 VecShare" assume w: "word_plane W w (\<lambda>k. s 1 k AND c 0 k)"
      show "computes addr sid (\<lambda>i. cbind (ripple_carry (net_u64 G) (w i) (zip (drop 2 (t i)) (drop 1 (butlast (e i))))) (fin i (last (e i)))) ?Q"
        by (rule computes_cbind [OF computes_ripple [OF w ts es W']]) (unfold rec, rule fin [OF last])
    qed
    then show ?thesis using n(1) by (simp add: vec_at_def lens pe(1) Let_def)
  qed
  show ?thesis
    unfolding step
  proof (rule computes_cbind [OF computes_words_and(1) [OF z y n(2)]])
    fix e assume "word_planes n W e (\<lambda>p k. (a p k XOR d p k) AND (b p k XOR d p k))"
    from word_planes_xor(2) [OF this x(3)] have "word_planes n W (\<lambda>i. transposed_pack_xor_assign word_ring (e i) (x3 i)) c"
      unfolding c_def carry_word_def [abs_def] .
    from planes [OF this] show "computes addr sid (\<lambda>i. let e = transposed_pack_xor_assign word_ring (e i) (x3 i)
      in cbind (ctry (vec_at (t i) 1)) (\<lambda>s1. cbind (ctry (vec_at e 0)) (\<lambda>c0. cbind (and_many (net_u64 G) (vs_as_slice s1) (vs_as_slice c0)) (\<lambda>w.
          case pop_vec e of (None, _) \<Rightarrow> cstop (Bail ''Not enough elements'')
          | (Some c_msb, e) \<Rightarrow> cbind (ripple_carry (net_u64 G) w (zip (drop 2 (t i)) (drop 1 e))) (fin i c_msb))))) ?Q"
      unfolding Let_def .
  qed
qed

end
