(* ===== verification/Bit_Inject.thy ===== *)
theory Bit_Inject
  imports Two_Way_Split Oblivious_Select
begin

unbundle bit_operations_syntax

text \<open>
  Bit injection (\<open>ampc-actor-utils/src/protocol/binary.rs\<close>, \<open>bit_inject\<close>): from binary shares
  of bits the parties compute additive shares of the same bits in a larger ring. The three
  parties follow different programs, chosen by their role rotated by the session identifier.
\<close>

section \<open>Operations\<close>

definition bit_vec :: "'a int_ring2k \<Rightarrow> (Bit share \<Rightarrow> Bit RingElement) \<Rightarrow> Bit VecShare \<Rightarrow> 'a VecRingElement" where
  "bit_vec R part input =
     VecRingElement (map (\<lambda>bit_share. if bool_from_bit (convert (part bit_share)) then RingElement (ring_one R) else RingElement (ring_zero R)) (shares input))"

definition inject_share0 :: "'a int_ring2k \<Rightarrow> 'a RingElement \<Rightarrow> 'a RingElement \<Rightarrow> 'a RingElement \<Rightarrow> 'a RingElement \<Rightarrow> 'a RingElement \<Rightarrow> 'a share" where
  "inject_share0 R s1a s2b s3a s3b s4b =
     (let zero = RingElement (ring_zero R);
          s1 = share_new s1a zero; s2 = share_new zero s2b; s3 = share_new s3a s3b; s4 = share_new zero s4b;
          sum12 = share_add R s1 s2; sum34 = share_add R s3 s4
      in share_sub R (share_sub R sum12 sum34) sum34)"

definition inject_share1 :: "'a int_ring2k \<Rightarrow> 'a RingElement \<Rightarrow> 'a RingElement \<Rightarrow> 'a RingElement \<Rightarrow> 'a RingElement \<Rightarrow> 'a share" where
  "inject_share1 R s1a s1b s3b s4a =
     (let zero = RingElement (ring_zero R);
          s1 = share_new s1a s1b; s3 = share_new zero s3b; s4 = share_new s4a zero;
          sum34 = share_add R s3 s4
      in share_sub R (share_sub R s1 sum34) sum34)"

definition inject_share2 :: "'a int_ring2k \<Rightarrow> 'a RingElement \<Rightarrow> 'a RingElement \<Rightarrow> 'a RingElement \<Rightarrow> 'a RingElement \<Rightarrow> 'a RingElement \<Rightarrow> 'a share" where
  "inject_share2 R s1b s2a s3a s4a s4b =
     (let zero = RingElement (ring_zero R);
          s1 = share_new zero s1b; s2 = share_new s2a zero; s3 = share_new s3a zero; s4 = share_new s4a s4b;
          sum12 = share_add R s1 s2; sum34 = share_add R s3 s4
      in share_sub R (share_sub R sum12 sum34) sum34)"

definition bit_inject_party0 :: "('r, 'a) net_int \<Rightarrow> Bit VecShare \<Rightarrow> ('r session, 'a VecShare) comp" where
  "bit_inject_party0 N input =
     (let R = ni_ring N; len = vs_len input; b2 = bit_vec R share_b input
      in cbind (gen_rands_batch N len) (\<lambda>(r_01, r_02).
         cbind (ctry (of_bail (vre_mul R r_01 b2))) (\<lambda>p.
         cbind (ctry (of_bail (vre_sub R p r_02))) (\<lambda>y.
         cbind (send_ring_vec_next N y) (\<lambda>_.
         cbind (receive_ring_vec_prev N) (\<lambda>z.
           cret (new_vec (map (\<lambda>(s1a, s2b, s3a, s3b, s4b). inject_share0 R s1a s2b s3a s3b s4b)
             (zip (elements r_01) (zip (elements b2) (zip (elements y) (zip (elements r_02) (elements z)))))))))))))"

definition bit_inject_party1 :: "('r, 'a) net_int \<Rightarrow> Bit VecShare \<Rightarrow> ('r session, 'a VecShare) comp" where
  "bit_inject_party1 N input =
     (let R = ni_ring N; len = vs_len input
      in cbind (gen_rands_prev N len) (\<lambda>r_01.
         let x = VecRingElement (map (\<lambda>(bit_share, r).
               let b0_xor_b1 = from_bool R (bit_convert (convert (re_xor bit_ring (share_a bit_share) (share_b bit_share))))
               in re_sub R (RingElement b0_xor_b1) r) (zip (shares input) (elements r_01)))
         in cbind (send_ring_vec_next N x) (\<lambda>_.
            cbind (receive_ring_vec_prev N) (\<lambda>y.
            cbind (gen_rands_mine N len) (\<lambda>r_12.
              cret (new_vec (map (\<lambda>(s1a, s1b, s3b, s4a). inject_share1 R s1a s1b s3b s4a)
                (zip (elements x) (zip (elements r_01) (zip (elements y) (elements r_12)))))))))))"

definition bit_inject_party2 :: "('r, 'a) net_int \<Rightarrow> Bit VecShare \<Rightarrow> ('r session, 'a VecShare) comp" where
  "bit_inject_party2 N input =
     (let R = ni_ring N; len = vs_len input
      in cbind (receive_ring_vec_prev N) (\<lambda>x.
         cbind (gen_rands_mine N len) (\<lambda>r_02.
         cbind (gen_rands_prev N len) (\<lambda>r_12.
         let b2 = bit_vec R share_a input
         in cbind (ctry (of_bail (vre_mul R x b2))) (\<lambda>p.
            cbind (ctry (of_bail (vre_sub R p r_12))) (\<lambda>z.
            cbind (send_ring_vec_next N z) (\<lambda>_.
              cret (new_vec (map (\<lambda>(s1b, s2a, s3a, s4a, s4b). inject_share2 R s1b s2a s3a s4a s4b)
                (zip (elements x) (zip (elements b2) (zip (elements r_02) (zip (elements z) (elements r_12))))))))))))))"

definition bit_inject :: "('r, 'a) net_int \<Rightarrow> Bit VecShare \<Rightarrow> ('r session, 'a VecShare) comp" where
  "bit_inject N input =
     cbind (cread own_role) (\<lambda>role.
     cbind (cread session_id) (\<lambda>sid.
       let role_idx = (role_index role + unat sid) mod 3
       in if role_idx = 0 then bit_inject_party0 N input
          else if role_idx = 1 then bit_inject_party1 N input
          else if role_idx = 2 then bit_inject_party2 N input
          else cstop (Bail ''Cannot deal with roles outside of the set [0, 1, 2] in bit_inject_ot'')))"

section \<open>One bit\<close>

lemma bit_convert_xor: "wf_bit x \<Longrightarrow> wf_bit y \<Longrightarrow> bit_convert (bit_xor x y) \<longleftrightarrow> bit_convert x \<noteq> bit_convert y"
  "wf_bit x \<Longrightarrow> wf_bit y \<Longrightarrow> wf_bit (bit_xor x y)"
  by (auto elim!: wf_bit_cases)

context network_int
begin

lemma open_add_rotate: "share3_wf wf (s0, s1, s2) \<Longrightarrow> open_add ring (s1, s2, s0) = open_add ring (s0, s1, s2)"
  by (simp add: re_defs wf_intros val_eq_iff val_arith mod_simps add_ac)

text \<open>The shares of one bit, given the masks; \<open>c\<close> is the sum of the first two components and \<open>b\<close> the third.\<close>

definition inj_y where "inj_y r01 r02 b = re_sub ring (re_mul ring r01 (bit_elem ring b)) r02"
definition inj_x where "inj_x r01 c = re_sub ring (bit_elem ring c) r01"
definition inj_z where "inj_z r01 r12 c b = re_sub ring (re_mul ring (inj_x r01 c) (bit_elem ring b)) r12"

definition inj_share :: "nat \<Rightarrow> 'a RingElement \<Rightarrow> 'a RingElement \<Rightarrow> 'a RingElement \<Rightarrow> bool \<Rightarrow> bool \<Rightarrow> 'a share" where
  "inj_share role r01 r02 r12 c b =
     (if role = 0 then inject_share0 ring r01 (bit_elem ring b) (inj_y r01 r02 b) r02 (inj_z r01 r12 c b)
      else if role = 1 then inject_share1 ring (inj_x r01 c) r01 (inj_y r01 r02 b) r12
      else inject_share2 ring (inj_x r01 c) (bit_elem ring b) r02 (inj_z r01 r12 c b) r12)"

lemma wf_bit_elem: "wf (convert (bit_elem ring b))"
  by (simp add: bit_elem_def wf_intros)

lemma inj_wf:
  "wf (convert r01) \<Longrightarrow> wf (convert r02) \<Longrightarrow> wf (convert (inj_y r01 r02 b))"
  "wf (convert r01) \<Longrightarrow> wf (convert (inj_x r01 c))"
  "wf (convert r01) \<Longrightarrow> wf (convert r12) \<Longrightarrow> wf (convert (inj_z r01 r12 c b))"
  by (simp_all add: inj_y_def inj_x_def inj_z_def re_defs wf_intros wf_bit_elem)

lemma inj_share_opens:
  fixes b c :: bool
  assumes "wf (convert r01)" "wf (convert r02)" "wf (convert r12)"
  defines "t \<equiv> (inj_share 0 r01 r02 r12 c b, inj_share 1 r01 r02 r12 c b, inj_share 2 r01 r02 r12 c b)"
  shows "replicated t" "share3_wf wf t" "open_add ring t = bit_elem ring (c \<noteq> b)"
proof -
  note defs = inj_share_def inject_share0_def inject_share1_def inject_share2_def Let_def share_op_defs share_new_def
  have w: "wf (convert (bit_elem ring b))" "wf (convert (bit_elem ring c))" by (simp_all add: wf_bit_elem)
  note wfs = assms(1-3) inj_wf(1) [OF assms(1,2)] inj_wf(2) [OF assms(1)] inj_wf(3) [OF assms(1,3)] w
  show "share3_wf wf t" unfolding t_def using wfs by (simp add: defs re_defs wf_intros)
  show "replicated t" unfolding t_def using wfs
    by (simp add: defs re_defs wf_intros val_eq_iff val_arith val_zero mod_simps)
  show "open_add ring t = bit_elem ring (c \<noteq> b)"
    unfolding t_def using wfs assms(1-3)
    by (cases b; cases c; simp add: defs inj_y_def inj_x_def inj_z_def bit_elem_def re_defs wf_intros val_eq_iff val_arith val_zero val_from_bool mod_simps K_pos)
qed


lemma inj_share_rotated:
  fixes b c :: bool
  assumes "wf (convert r01)" "wf (convert r02)" "wf (convert r12)"
    and k: "rotated sid k = 0" "rotated sid (next_id k) = 1" "rotated sid (prev_id k) = 2"
  defines "u \<equiv> \<lambda>i. inj_share (rotated sid i) r01 r02 r12 c b"
  shows "replicated (u ID0, u ID1, u ID2)" "share3_wf wf (u ID0, u ID1, u ID2)" "open_add ring (u ID0, u ID1, u ID2) = bit_elem ring (c \<noteq> b)"
proof -
  note t = inj_share_opens [OF assms(1-3), of c b]
  have u: "u k = inj_share 0 r01 r02 r12 c b" "u (next_id k) = inj_share 1 r01 r02 r12 c b" "u (prev_id k) = inj_share 2 r01 r02 r12 c b"
    using k by (simp_all add: u_def)
  note t = t [folded u]
  note o1 = open_add_rotate [OF t(2)]
  have "share3_wf wf (u (next_id k), u (prev_id k), u k)" using t(2) by auto
  note o2 = open_add_rotate [OF this]
  show "replicated (u ID0, u ID1, u ID2)" "share3_wf wf (u ID0, u ID1, u ID2)"
    using t(1,2) by (cases k; auto)+
  show "open_add ring (u ID0, u ID1, u ID2) = bit_elem ring (c \<noteq> b)"
    using t(3) o1 o2 by (cases k) (simp_all del: open_add.simps)
qed

lemma bit_elem_if: "(if b then RingElement (ring_one ring) else RingElement (ring_zero ring)) = bit_elem ring b"
  by (cases b) (simp_all add: bit_elem_def val_eq_iff wf_intros val_one val_zero val_from_bool)

lemma fill_vre_ok: "length (elements (fst (fill_vre N n r))) = n" "wfs (elements (fst (fill_vre N n r)))"
proof -
  have "fst (fill_vre N n r) = VecRingElement (map RingElement (fst (fill_vec_ring N n r)))"
    by (simp add: fill_vre_def split_def Let_def)
  then show "length (elements (fst (fill_vre N n r))) = n" "wfs (elements (fst (fill_vre N n r)))"
    using fill_length fill_wf by auto
qed

section \<open>What each party does\<close>

lemma inject_message_values:
  assumes "length (shares v) = n"
  shows "length r01 = n \<Longrightarrow> vre_mul ring (VecRingElement r01) (bit_vec ring part v) =
      Inr (VecRingElement (map (\<lambda>p. re_mul ring (r01 ! p) (bit_elem ring (bit_convert (convert (part (shares v ! p)))))) [0..<n]))"
    "length r02 = n \<Longrightarrow> vre_sub ring (VecRingElement (map f [0..<n])) (VecRingElement r02) = Inr (VecRingElement (map (\<lambda>p. re_sub ring (f p) (r02 ! p)) [0..<n]))"
proof -
  have bits: "bool_from_bit y = bit_convert y" for y by (cases y) simp
  show "length r01 = n \<Longrightarrow> vre_mul ring (VecRingElement r01) (bit_vec ring part v) =
      Inr (VecRingElement (map (\<lambda>p. re_mul ring (r01 ! p) (bit_elem ring (bit_convert (convert (part (shares v ! p)))))) [0..<n]))"
    using assms by (auto simp: vre_mul_def bit_vec_def bit_elem_if bits intro!: nth_equalityI)
  show "length r02 = n \<Longrightarrow> vre_sub ring (VecRingElement (map f [0..<n])) (VecRingElement r02) = Inr (VecRingElement (map (\<lambda>p. re_sub ring (f p) (r02 ! p)) [0..<n]))"
    using assms by (auto simp: vre_sub_def intro!: nth_equalityI)
qed

lemma bit_inject_session:
  assumes "net_at addr sid i s"
  shows "bit_inject N v s = (if rotated sid i = 0 then bit_inject_party0 N v s
    else if rotated sid i = 1 then bit_inject_party1 N v s else bit_inject_party2 N v s)"
proof -
  have "rotated sid i = 0 \<or> rotated sid i = 1 \<or> rotated sid i = 2" unfolding rotated_def by linarith
  then show ?thesis
    using assms by (auto simp: bit_inject_def cbind_def [of "cread _"] cread_def net_at_def rotated_def Let_def simp del: role_index.simps)
qed

lemma inject_steps:
  fixes s :: "'r session"
  assumes at: "net_at addr sid i s" and n: "length (shares v) = n"
  defines "mine \<equiv> elements (fst (fill_vre N n (my_prf s)))" and "prv \<equiv> elements (fst (fill_vre N n (prev_prf s)))"
  defines "s' \<equiv> s\<lparr>my_prf := snd (fill_vre N n (my_prf s)), prev_prf := snd (fill_vre N n (prev_prf s))\<rparr>"
  defines "ba \<equiv> \<lambda>p. bit_convert (convert (share_a (shares v ! p)))" and "bb \<equiv> \<lambda>p. bit_convert (convert (share_b (shares v ! p)))"
  defines "c \<equiv> \<lambda>p. bit_convert (convert (re_xor bit_ring (share_a (shares v ! p)) (share_b (shares v ! p))))"
  defines "Y \<equiv> map (\<lambda>p. inj_y (mine ! p) (prv ! p) (bb p)) [0..<n]" and "X \<equiv> map (\<lambda>p. inj_x (prv ! p) (c p)) [0..<n]"
  defines "Z \<equiv> \<lambda>x. map (\<lambda>p. re_sub ring (re_mul ring (x ! p) (bit_elem ring (ba p))) (prv ! p)) [0..<n]"
  shows "to_network (ring_vec_message N (VecRingElement Y)) = Ok bs \<Longrightarrow>
      \<exists>k. bit_inject_party0 N v s = Send (addr (next_id i)) bs (Recv (addr (prev_id i)) k) \<and>
        (\<forall>b0 w z. deserialize b0 = Ok w \<longrightarrow> into_vec N w = Ok z \<longrightarrow> length z = n \<longrightarrow>
          k b0 = Ret (new_vec (map (\<lambda>p. inject_share0 ring (mine ! p) (bit_elem ring (bb p)) (Y ! p) (prv ! p) (z ! p)) [0..<n]), s'))"
    and "to_network (ring_vec_message N (VecRingElement X)) = Ok bs \<Longrightarrow>
      \<exists>k. bit_inject_party1 N v s = Send (addr (next_id i)) bs (Recv (addr (prev_id i)) k) \<and>
        (\<forall>b0 w y. deserialize b0 = Ok w \<longrightarrow> into_vec N w = Ok y \<longrightarrow> length y = n \<longrightarrow>
          k b0 = Ret (new_vec (map (\<lambda>p. inject_share1 ring (X ! p) (prv ! p) (y ! p) (mine ! p)) [0..<n]), s'))"
    and "\<exists>k. bit_inject_party2 N v s = Recv (addr (prev_id i)) k \<and>
        (\<forall>b0 w x. deserialize b0 = Ok w \<longrightarrow> into_vec N w = Ok x \<longrightarrow> length x = n \<longrightarrow> to_network (ring_vec_message N (VecRingElement (Z x))) = Ok bs \<longrightarrow>
          k b0 = Send (addr (next_id i)) bs (Ret (new_vec (map (\<lambda>p. inject_share2 ring (x ! p) (bit_elem ring (ba p)) (mine ! p) (Z x ! p) (prv ! p)) [0..<n]), s')))"
proof -
  have len: "length mine = n" "length prv = n" by (simp_all add: mine_def prv_def fill_vre_ok)
  have rands: "fst (fill_vre N n (my_prf s)) = VecRingElement mine" "fst (fill_vre N n (prev_prf s)) = VecRingElement prv"
    by (simp_all add: mine_def prv_def)
  have bits: "bool_from_bit y = bit_convert y" for y by (cases y) simp
  note eqs = gen_rands_batch_def gen_rands_mine_def gen_rands_prev_def Let_def cbind_assoc draw_bind vs_len_def n rands
    receive_bind [where addr = addr and sid = sid and i = i] send_bind [where addr = addr and sid = sid and i = i] at
    inject_message_values [OF n] len of_bail_def cret_def vec_in_eq
  show "to_network (ring_vec_message N (VecRingElement Y)) = Ok bs \<Longrightarrow>
      \<exists>k. bit_inject_party0 N v s = Send (addr (next_id i)) bs (Recv (addr (prev_id i)) k) \<and>
        (\<forall>b0 w z. deserialize b0 = Ok w \<longrightarrow> into_vec N w = Ok z \<longrightarrow> length z = n \<longrightarrow>
          k b0 = Ret (new_vec (map (\<lambda>p. inject_share0 ring (mine ! p) (bit_elem ring (bb p)) (Y ! p) (prv ! p) (z ! p)) [0..<n]), s'))"
    unfolding bit_inject_party0_def
    by (simp add: eqs Y_def inj_y_def bb_def s'_def)
      (auto simp: bit_vec_def bits bit_elem_if n len intro!: nth_equalityI arg_cong [where f = new_vec])
  show "to_network (ring_vec_message N (VecRingElement X)) = Ok bs \<Longrightarrow>
      \<exists>k. bit_inject_party1 N v s = Send (addr (next_id i)) bs (Recv (addr (prev_id i)) k) \<and>
        (\<forall>b0 w y. deserialize b0 = Ok w \<longrightarrow> into_vec N w = Ok y \<longrightarrow> length y = n \<longrightarrow>
          k b0 = Ret (new_vec (map (\<lambda>p. inject_share1 ring (X ! p) (prv ! p) (y ! p) (mine ! p)) [0..<n]), s'))"
  proof -
    have X_eq: "map (\<lambda>(bit_share, r). re_sub ring (RingElement (from_bool ring (bit_convert (convert (re_xor bit_ring (share_a bit_share) (share_b bit_share)))))) r)
        (zip (shares v) prv) = X"
      using n len by (auto simp: X_def inj_x_def c_def bit_elem_def intro!: nth_equalityI)
    assume "to_network (ring_vec_message N (VecRingElement X)) = Ok bs"
    then show ?thesis
      unfolding bit_inject_party1_def
      by (simp add: eqs X_eq s'_def prf_updates_commute) (auto simp: n len X_def intro!: nth_equalityI arg_cong [where f = new_vec])
  qed
  show "\<exists>k. bit_inject_party2 N v s = Recv (addr (prev_id i)) k \<and>
        (\<forall>b0 w x. deserialize b0 = Ok w \<longrightarrow> into_vec N w = Ok x \<longrightarrow> length x = n \<longrightarrow> to_network (ring_vec_message N (VecRingElement (Z x))) = Ok bs \<longrightarrow>
          k b0 = Send (addr (next_id i)) bs (Ret (new_vec (map (\<lambda>p. inject_share2 ring (x ! p) (bit_elem ring (ba p)) (mine ! p) (Z x ! p) (prv ! p)) [0..<n]), s')))"
    unfolding bit_inject_party2_def
    by (simp add: eqs Z_def ba_def s'_def cong: conj_cong)
      (auto simp: eqs bit_vec_def bits bit_elem_if n len intro!: nth_equalityI arg_cong [where f = new_vec])
qed


section \<open>The three parties together\<close>

lemma delivers_bit_inject:
  fixes S :: "PartyID \<Rightarrow> 'r session"
  assumes S: "linked addr sid S" and x: "sharing_xor bit_ring wf_bit (\<lambda>i. shares (x i)) xs" and n: "length xs = n" "n < MAX_LEN"
    and k: "rotated sid k = 0" "rotated sid (next_id k) = 1" "rotated sid (prev_id k) = 2"
  defines "r \<equiv> \<lambda>i. elements (fst (fill_vre N n (my_prf (S i))))"
  defines "c \<equiv> \<lambda>p. bit_convert (convert (re_xor bit_ring (share_a (shares (x (next_id k)) ! p)) (share_b (shares (x (next_id k)) ! p))))"
    and "b \<equiv> \<lambda>p. bit_convert (convert (share_b (shares (x k) ! p)))"
  shows "\<exists>S'. linked addr sid S' \<and> delivers addr (\<lambda>i. bit_inject N (x i) (S i))
    (\<lambda>i. (new_vec (map (\<lambda>p. inj_share (rotated sid i) (r k ! p) (r (prev_id k) ! p) (r (next_id k) ! p) (c p) (b p)) [0..<n]), S' i))"
proof -
  let ?X = "map (\<lambda>p. inj_x (r k ! p) (c p)) [0..<n]" and ?Y = "map (\<lambda>p. inj_y (r k ! p) (r (prev_id k) ! p) (b p)) [0..<n]"
  let ?Z = "map (\<lambda>p. inj_z (r k ! p) (r (next_id k) ! p) (c p) (b p)) [0..<n]"
  define M where "M = (\<lambda>i. if i = k then ?Y else if i = next_id k then ?X else ?Z)"
  define S' where "S' = (\<lambda>i. S i\<lparr>my_prf := snd (fill_vre N n (my_prf (S i))), prev_prf := snd (fill_vre N n (prev_prf (S i)))\<rparr>)"
  have at: "net_at addr sid i (S i)" for i using S by (simp add: linked_def net_linked_def)
  have len: "length (shares (x i)) = n" for i using sharing_lengths(2) [OF x] n by simp
  have wfr: "wf (convert (r i ! p))" if "p < n" for i p
    using fill_vre_ok [where n = n and r = "my_prf (S i)"] that unfolding r_def by (metis nth_mem)
  have nx: "next_id (next_id k) = prev_id k" "next_id (prev_id k) = k" "prev_id (next_id k) = k" "prev_id (prev_id k) = next_id k" by (cases k; simp)+
  have neq: "prev_id k \<noteq> next_id k" "next_id k \<noteq> prev_id k" "next_id k \<noteq> k" "prev_id k \<noteq> k" "k \<noteq> next_id k" "k \<noteq> prev_id k" by (cases k; simp)+
  have prv: "elements (fst (fill_vre N n (prev_prf (S i)))) = r (prev_id i)" for i using prev_prf_linked [OF S] by (simp add: r_def)
  have own: "elements (fst (fill_vre N n (my_prf (S i)))) = r i" for i by (simp add: r_def)
  have "wfs (M i)" "length (M i) < MAX_LEN" for i using wfr n by (auto simp: M_def inj_wf)
  then have "\<exists>b w. to_network (ring_vec_message N (VecRingElement (M i))) = Ok b \<and> deserialize b = Ok w \<and> into_vec N w = Ok (M i)" for i
    using ring_vec_arrives [of "VecRingElement (M i)"] unfolding arrives_def by (metis VecRingElement.sel)
  then obtain bs w where bs: "to_network (ring_vec_message N (VecRingElement (M i))) = Ok (bs i)" "deserialize (bs i) = Ok (w i)" "into_vec N (w i) = Ok (M i)" for i
    by metis
  have lenM: "length (M i) = n" for i by (simp add: M_def)
  have b2: "bit_convert (convert (share_a (shares (x (prev_id k)) ! p))) = b p" if "p < n" for p
    using sharing_xor_nth [OF x, of p] that n unfolding b_def by (cases k) (auto simp: col_def)
  let ?P = "\<lambda>i. bit_inject N (x i) (S i)"
  let ?r = "\<lambda>i. new_vec (map (\<lambda>p. inj_share (rotated sid i) (r k ! p) (r (prev_id k) ! p) (r (next_id k) ! p) (c p) (b p)) [0..<n])"
  have Z_eq: "map (\<lambda>p. re_sub ring (re_mul ring (M (next_id k) ! p) (bit_elem ring (bit_convert (convert (share_a (shares (x (prev_id k)) ! p)))))) (r (next_id k) ! p)) [0..<n]
      = M (prev_id k)"
    using b2 neq by (auto simp: M_def inj_z_def)
  obtain c0 where c0: "?P k = Send (addr (next_id k)) (bs k) (Recv (addr (prev_id k)) c0)" "c0 (bs (prev_id k)) = Ret (?r k, S' k)"
  proof -
    have "to_network (ring_vec_message N (VecRingElement (map (\<lambda>p. inj_y (r k ! p) (r (prev_id k) ! p) (bit_convert (convert (share_b (shares (x k) ! p))))) [0..<n]))) = Ok (bs k)"
      using bs(1) [of k] by (simp add: M_def b_def)
    from inject_steps(1) [OF at [of k] len [of k], unfolded own prv, OF this, folded S'_def]
    obtain f where f: "bit_inject_party0 N (x k) (S k) = Send (addr (next_id k)) (bs k) (Recv (addr (prev_id k)) f)"
      and rest: "\<forall>b0 w z. deserialize b0 = Ok w \<longrightarrow> into_vec N w = Ok z \<longrightarrow> length z = n \<longrightarrow>
        f b0 = Ret (new_vec (map (\<lambda>p. inject_share0 ring (r k ! p) (bit_elem ring (bit_convert (convert (share_b (shares (x k) ! p)))))
          (map (\<lambda>p. inj_y (r k ! p) (r (prev_id k) ! p) (bit_convert (convert (share_b (shares (x k) ! p))))) [0..<n] ! p) (r (prev_id k) ! p) (z ! p)) [0..<n]), S' k)"
      unfolding S'_def by blast
    show ?thesis
    proof (rule that)
      show "?P k = Send (addr (next_id k)) (bs k) (Recv (addr (prev_id k)) f)" using f k by (simp add: bit_inject_session [OF at])
      show "f (bs (prev_id k)) = Ret (?r k, S' k)"
        unfolding rest [rule_format, OF bs(2,3) lenM] using neq k by (simp add: inj_share_def M_def new_vec_def b_def)
    qed
  qed
  obtain c1 where c1: "?P (next_id k) = Send (addr (prev_id k)) (bs (next_id k)) (Recv (addr k) c1)" "c1 (bs k) = Ret (?r (next_id k), S' (next_id k))"
  proof -
    have "to_network (ring_vec_message N (VecRingElement (map (\<lambda>p. inj_x (r k ! p) (bit_convert (convert (re_xor bit_ring (share_a (shares (x (next_id k)) ! p)) (share_b (shares (x (next_id k)) ! p)))))) [0..<n])))
        = Ok (bs (next_id k))"
      using bs(1) [of "next_id k"] neq by (simp add: M_def c_def)
    from inject_steps(2) [OF at [of "next_id k"] len [of "next_id k"], unfolded own prv nx, OF this]
    obtain f where f: "bit_inject_party1 N (x (next_id k)) (S (next_id k)) = Send (addr (prev_id k)) (bs (next_id k)) (Recv (addr k) f)"
      and rest: "\<forall>b0 w y. deserialize b0 = Ok w \<longrightarrow> into_vec N w = Ok y \<longrightarrow> length y = n \<longrightarrow>
        f b0 = Ret (new_vec (map (\<lambda>p. inject_share1 ring (map (\<lambda>p. inj_x (r k ! p) (c p)) [0..<n] ! p) (r k ! p) (y ! p) (r (next_id k) ! p)) [0..<n]), S' (next_id k))"
      unfolding S'_def c_def by blast
    show ?thesis
    proof (rule that)
      show "?P (next_id k) = Send (addr (prev_id k)) (bs (next_id k)) (Recv (addr k) f)" using f k by (simp add: bit_inject_session [OF at])
      show "f (bs k) = Ret (?r (next_id k), S' (next_id k))"
        unfolding rest [rule_format, OF bs(2,3) lenM] using neq k by (simp add: inj_share_def M_def new_vec_def)
    qed
  qed
  obtain c2 where c2: "?P (prev_id k) = Recv (addr (next_id k)) c2" "c2 (bs (next_id k)) = Send (addr k) (bs (prev_id k)) (Ret (?r (prev_id k), S' (prev_id k)))"
  proof -
    let ?a = "\<lambda>p. bit_convert (convert (share_a (shares (x (prev_id k)) ! p)))"
    let ?z = "\<lambda>y. map (\<lambda>p. re_sub ring (re_mul ring (y ! p) (bit_elem ring (?a p))) (r (next_id k) ! p)) [0..<n]"
    from inject_steps(3) [OF at [of "prev_id k"] len [of "prev_id k"], unfolded own prv nx]
    obtain f where f: "bit_inject_party2 N (x (prev_id k)) (S (prev_id k)) = Recv (addr (next_id k)) f"
      and rest: "\<forall>b0 w y. deserialize b0 = Ok w \<longrightarrow> into_vec N w = Ok y \<longrightarrow> length y = n \<longrightarrow> to_network (ring_vec_message N (VecRingElement (?z y))) = Ok (bs (prev_id k)) \<longrightarrow>
        f b0 = Send (addr k) (bs (prev_id k)) (Ret (new_vec (map (\<lambda>p. inject_share2 ring (y ! p) (bit_elem ring (?a p)) (r (prev_id k) ! p) (?z y ! p) (r (next_id k) ! p)) [0..<n]), S' (prev_id k)))"
      unfolding S'_def by blast
    show ?thesis
    proof (rule that)
      show "?P (prev_id k) = Recv (addr (next_id k)) f" using f k by (simp add: bit_inject_session [OF at])
      have "to_network (ring_vec_message N (VecRingElement (?z (M (next_id k))))) = Ok (bs (prev_id k))" unfolding Z_eq by (rule bs(1))
      from rest [rule_format, OF bs(2,3) lenM this]
      show "f (bs (next_id k)) = Send (addr k) (bs (prev_id k)) (Ret (?r (prev_id k), S' (prev_id k)))"
        unfolding Z_eq using neq k b2 by (simp add: inj_share_def M_def new_vec_def)
    qed
  qed
  define C where "C = (\<lambda>i. if i = k then c0 else if i = next_id k then c1 else c2)"
  have other: "i = next_id k \<or> i = k" if "i \<noteq> prev_id k" for i using that by (cases i; cases k) auto
  have "delivers addr ?P (\<lambda>i. (?r i, S' i))"
  proof (rule delivers_waiting [where k = "prev_id k" and m = bs and c = C and q = "Ret (?r (prev_id k), S' (prev_id k))"])
    show "inj addr" using at net_at_inj by blast
    show "?P (prev_id k) = Recv (addr (prev_id (prev_id k))) (C (prev_id k))" using c2(1) neq nx by (simp add: C_def)
    show "C (prev_id k) (bs (prev_id (prev_id k))) = Send (addr (next_id (prev_id k))) (bs (prev_id k)) (Ret (?r (prev_id k), S' (prev_id k)))"
      using c2(2) neq nx by (simp add: C_def)
    show "?P i = Send (addr (next_id i)) (bs i) (Recv (addr (prev_id i)) (C i))" if "i \<noteq> prev_id k" for i
      using other [OF that] c0(1) c1(1) neq nx by (auto simp: C_def)
    have "(\<lambda>i. C i (bs (prev_id i)))(prev_id k := Ret (?r (prev_id k), S' (prev_id k))) = (\<lambda>i. Ret (?r i, S' i))"
      using other c0(2) c1(2) neq nx by (auto simp: C_def fun_eq_iff)
    then show "delivers addr ((\<lambda>i. C i (bs (prev_id i)))(prev_id k := Ret (?r (prev_id k), S' (prev_id k)))) (\<lambda>i. (?r i, S' i))"
      by (simp add: delivers_Ret)
  qed
  moreover have "linked addr sid S'" unfolding S'_def by (rule linked_draws [OF S])
  ultimately show ?thesis by blast
qed

lemma computes_bit_inject:
  assumes x: "sharing_xor bit_ring wf_bit (\<lambda>i. shares (x i)) xs" and n: "length xs < MAX_LEN"
  shows "computes addr sid (\<lambda>i. bit_inject N (x i))
    (\<lambda>r. sharing_add ring wf (\<lambda>i. shares (r i)) (map (\<lambda>e. bit_elem ring (bit_convert (convert e))) xs))"
  unfolding computes_def
proof (intro allI impI)
  fix S :: "PartyID \<Rightarrow> 'r session" assume S: "linked addr sid S"
  obtain k where k: "rotated sid k = 0" "rotated sid (next_id k) = 1" "rotated sid (prev_id k) = 2"
    using rotated_first by blast
  define r where "r = (\<lambda>i. elements (fst (fill_vre N (length xs) (my_prf (S i)))))"
  define c where "c = (\<lambda>p. bit_convert (convert (re_xor bit_ring (share_a (shares (x (next_id k)) ! p)) (share_b (shares (x (next_id k)) ! p)))))"
  define b where "b = (\<lambda>p. bit_convert (convert (share_b (shares (x k) ! p))))"
  let ?r = "\<lambda>i. new_vec (map (\<lambda>p. inj_share (rotated sid i) (r k ! p) (r (prev_id k) ! p) (r (next_id k) ! p) (c p) (b p)) [0..<length xs])"
  obtain S' where S': "linked addr sid S'" "delivers addr (\<lambda>i. bit_inject N (x i) (S i)) (\<lambda>i. (?r i, S' i))"
    using delivers_bit_inject [OF S x refl n k] unfolding r_def c_def b_def by blast
  have wfr: "wf (convert (r i ! p))" if "p < length xs" for i p
    using fill_vre_ok [where n = "length xs" and r = "my_prf (S i)"] that unfolding r_def by (metis nth_mem)
  have bits: "(c p \<noteq> b p) = bit_convert (convert (xs ! p))" if "p < length xs" for p
  proof -
    have "replicated (col (\<lambda>i. shares (x i)) p)" "share3_wf wf_bit (col (\<lambda>i. shares (x i)) p)"
      "xs ! p = open_xor bit_ring (col (\<lambda>i. shares (x i)) p)" using sharing_xor_nth [OF x that] by auto
    then show ?thesis unfolding c_def b_def
      by (cases k) (auto simp: col_def re_xor_def bit_convert_xor simp del: bit_convert.simps)
  qed
  have "sharing_add ring wf (\<lambda>i. shares (?r i)) (map (\<lambda>e. bit_elem ring (bit_convert (convert e))) xs)"
  proof (rule sharing_addI)
    fix p assume "p < length (map (\<lambda>e. bit_elem ring (bit_convert (convert e))) xs)"
    then have p: "p < length xs" by simp
    then have col: "col (\<lambda>i. shares (?r i)) p = (inj_share (rotated sid ID0) (r k ! p) (r (prev_id k) ! p) (r (next_id k) ! p) (c p) (b p),
        inj_share (rotated sid ID1) (r k ! p) (r (prev_id k) ! p) (r (next_id k) ! p) (c p) (b p),
        inj_share (rotated sid ID2) (r k ! p) (r (prev_id k) ! p) (r (next_id k) ! p) (c p) (b p))"
      by (simp add: col_def new_vec_def)
    show "replicated (col (\<lambda>i. shares (?r i)) p) \<and> share3_wf wf (col (\<lambda>i. shares (?r i)) p) \<and>
        open_add ring (col (\<lambda>i. shares (?r i)) p) = map (\<lambda>e. bit_elem ring (bit_convert (convert e))) xs ! p"
      unfolding col using inj_share_rotated [OF wfr [OF p] wfr [OF p] wfr [OF p] k] p bits [OF p] by simp
  qed (simp add: new_vec_def)
  with S' show "\<exists>r S'. delivers addr (\<lambda>i. bit_inject N (x i) (S i)) (\<lambda>i. (r i, S' i)) \<and> linked addr sid S' \<and>
      sharing_add ring wf (\<lambda>i. shares (r i)) (map (\<lambda>e. bit_elem ring (bit_convert (convert e))) xs)"
    by (intro exI [of _ ?r] exI [of _ S'] conjI)
qed

lemma computes_inject_open:
  assumes "sharing_xor bit_ring wf_bit x xs" "length xs < MAX_LEN"
  shows "computes addr sid (\<lambda>i. cbind (bit_inject N (new_vec (x i))) (\<lambda>v. open_ring N (shares v)))
    (\<lambda>r. \<forall>i. r i = map (\<lambda>e. from_bool ring (bit_convert (convert e))) xs)"
proof (rule computes_cbind [OF computes_bit_inject [where x = "\<lambda>i. new_vec (x i)" and xs = xs]])
  show "sharing_xor bit_ring wf_bit (\<lambda>i. shares (new_vec (x i))) xs" using assms(1) by (simp add: new_vec_def)
  fix r assume "sharing_add ring wf (\<lambda>i. shares (r i)) (map (\<lambda>e. bit_elem ring (bit_convert (convert e))) xs)"
  from computes_open_ring [OF this, where addr = addr and sid = sid] assms(2)
  show "computes addr sid (\<lambda>i. open_ring N (shares (r i))) (\<lambda>r. \<forall>i. r i = map (\<lambda>e. from_bool ring (bit_convert (convert e))) xs)"
    by (simp add: bit_elem_def comp_def)
qed (use assms in simp)

end

section \<open>Properties\<close>

text \<open>
  C10: bit injection. Three linked parties that hold binary shares of bits convert them to
  additive shares in the 16, 32, 64 or 48 bit ring and open them: under any interleaving they
  all finish, with the value 0 or 1 of every bit. The generators stay linked, although the
  three parties draw their masks in different orders.
\<close>

theorem injected_bits_open:
  fixes S :: "PartyID \<Rightarrow> 'r session" and G :: "'r prf_rng"
  assumes "linked addr sid S" "sharing_xor bit_ring wf_bit x xs" "length xs < MAX_LEN"
  shows "always_finishes addr (\<lambda>i. cbind (bit_inject (net_u16 G) (new_vec (x i))) (\<lambda>v. open_ring (net_u16 G) (shares v)) (S i))
      (\<lambda>r. (\<forall>i. fst (r i) = map (\<lambda>e. of_bool (bit_convert (convert e))) xs) \<and> linked addr sid (\<lambda>i. snd (r i)))
    \<and> always_finishes addr (\<lambda>i. cbind (bit_inject (net_u32 G) (new_vec (x i))) (\<lambda>v. open_ring (net_u32 G) (shares v)) (S i))
      (\<lambda>r. (\<forall>i. fst (r i) = map (\<lambda>e. of_bool (bit_convert (convert e))) xs) \<and> linked addr sid (\<lambda>i. snd (r i)))
    \<and> always_finishes addr (\<lambda>i. cbind (bit_inject (net_u64 G) (new_vec (x i))) (\<lambda>v. open_ring (net_u64 G) (shares v)) (S i))
      (\<lambda>r. (\<forall>i. fst (r i) = map (\<lambda>e. of_bool (bit_convert (convert e))) xs) \<and> linked addr sid (\<lambda>i. snd (r i)))
    \<and> always_finishes addr (\<lambda>i. cbind (bit_inject (net_ring48 G) (new_vec (x i))) (\<lambda>v. open_ring (net_ring48 G) (shares v)) (S i))
      (\<lambda>r. (\<forall>i. fst (r i) = map (\<lambda>e. Ring48 (of_bool (bit_convert (convert e)))) xs) \<and> linked addr sid (\<lambda>i. snd (r i)))"
  using computes_always_finishes [OF net16.computes_inject_open [OF assms(2,3)] assms(1), of G]
    computes_always_finishes [OF net32.computes_inject_open [OF assms(2,3)] assms(1), of G]
    computes_always_finishes [OF net64.computes_inject_open [OF assms(2,3)] assms(1), of G]
    computes_always_finishes [OF net48.computes_inject_open [OF assms(2,3)] assms(1), of G]
  by (simp add: word_ring_def ring48_ring_def ring48_from_bool_def)

theorem injected_bits_open_witness:
  "always_finishes demo_addr (\<lambda>i. cbind (bit_inject (net_u32 demo_rng) (new_vec (deal [sh (Bit 1) (Bit 1) (Bit 1), sh (Bit 0) (Bit 1) (Bit 1)] i)))
      (\<lambda>v. open_ring (net_u32 demo_rng) (shares v)) (demo_session i))
    (\<lambda>r. (\<forall>i. fst (r i) = [1, 0]) \<and> linked demo_addr 7 (\<lambda>i. snd (r i)))"
proof -
  have s: "sharing_xor bit_ring wf_bit (deal [sh (Bit 1) (Bit 1) (Bit 1), sh (Bit 0) (Bit 1) (Bit 1)]) [RingElement (Bit 1), RingElement (Bit 0)]"
    by (simp add: sharing_deal sh_def share_new_def re_xor_def)
  show ?thesis
    using conjunct1 [OF conjunct2 [OF injected_bits_open [where G = demo_rng, OF demo_linked s]]] by (simp add: MAX_LEN_def)
qed

end
