(* ===== verification/Lift.thy ===== *)
theory Lift
  imports Carry_Adder Bit_Inject
begin

unbundle bit_operations_syntax

text \<open>
  Lifting of shared 16 bit values to larger rings (\<open>ampc-actor-utils/src/protocol/binary.rs\<close>,
  \<open>lift\<close> and \<open>lift_to_ring48\<close>; \<open>ops.rs\<close>, the signed lifts): the three components are read in the
  larger ring, and the bits by which their sum exceeds 16 bits are computed, injected and
  subtracted.
\<close>

section \<open>Operations\<close>

definition lift_share :: "('a \<Rightarrow> 'b option) \<Rightarrow> 'a share \<Rightarrow> 'b share option" where
  "lift_share f s =
     (case f (convert (share_a s)) of
        None \<Rightarrow> None
      | Some a \<Rightarrow> map_option (\<lambda>b. share_new (RingElement a) (RingElement b)) (f (convert (share_b s))))"

definition mul_lift_2k_to_32 :: "nat \<Rightarrow> u16 share \<Rightarrow> u32 share option" where
  "mul_lift_2k_to_32 K s = lift_share (\<lambda>v. shl word_ring (ucast v) K) s"

definition mul_lift_2k_to_32_many :: "nat \<Rightarrow> u16 SliceShare \<Rightarrow> u32 VecShare option" where
  "mul_lift_2k_to_32_many K vals = map_option new_vec (those (map (mul_lift_2k_to_32 K) (slice_shares vals)))"

definition mul_lift_2k_to_48 :: "nat \<Rightarrow> u32 share \<Rightarrow> Ring48 share option" where
  "mul_lift_2k_to_48 K s = lift_share (\<lambda>v. shl ring48_ring (ring48_from_u32 v) K) s"

definition mul_lift_2k_to_48_many :: "nat \<Rightarrow> u32 SliceShare \<Rightarrow> Ring48 VecShare option" where
  "mul_lift_2k_to_48_many K vals = map_option new_vec (those (map (mul_lift_2k_to_48 K) (slice_shares vals)))"

text \<open>The loops of \<open>lift\<close> over the bit slices and their words.\<close>

fun a2b_words :: "nat \<Rightarrow> u64 share list \<Rightarrow> u64 VecShare \<times> u64 VecShare \<times> u64 VecShare
    \<Rightarrow> proto_error + u64 VecShare \<times> u64 VecShare \<times> u64 VecShare" where
  "a2b_words role [] acc = Inr acc"
| "a2b_words role (x # xs) (x1, x2, x3) =
     (case a2b_pre word_ring role x of
        Inl e \<Rightarrow> Inl e
      | Inr (y1, y2, y3) \<Rightarrow> a2b_words role xs (vs_push x1 y1, vs_push x2 y2, vs_push x3 y3))"

fun a2b_slices :: "nat \<Rightarrow> u64 VecShare list \<Rightarrow> u64 VecShare list \<times> u64 VecShare list \<times> u64 VecShare list
    \<Rightarrow> proto_error + u64 VecShare list \<times> u64 VecShare list \<times> u64 VecShare list" where
  "a2b_slices role [] acc = Inr acc"
| "a2b_slices role (x # xs) (x1, x2, x3) =
     (let empty = vs_with_capacity (vs_len x)
      in case a2b_words role (shares x) (empty, empty, empty) of
           Inl e \<Rightarrow> Inl e
         | Inr (y1, y2, y3) \<Rightarrow> a2b_slices role xs (x1 @ [y1], x2 @ [y2], x3 @ [y3]))"

definition overflow_bits :: "'r prf_rng \<Rightarrow> u16 VecShare \<Rightarrow> ('r session, Bit VecShare \<times> Bit VecShare) comp" where
  "overflow_bits G v =
     cbind (ctry (or_panic (u16_transpose_pack_u64 v))) (\<lambda>x.
     cbind (cread own_role) (\<lambda>role.
     cbind (ctry (a2b_slices (role_index role) x ([], [], []))) (\<lambda>(x1, x2, x3).
       binary_add_3_get_two_carries (net_u64 G) x1 x2 x3 (vs_len v))))"

definition lift :: "'r prf_rng \<Rightarrow> u16 VecShare \<Rightarrow> ('r session, u32 VecShare) comp" where
  "lift G v =
     (let len = vs_len v;
          x_a = foldl (\<lambda>x_a s. vs_push x_a (share_new (RingElement (ucast (convert (share_a s)))) (RingElement (ucast (convert (share_b s))))))
            (vs_with_capacity (div_ceil len 64 * 64)) (shares v)
      in cbind (overflow_bits G v) (\<lambda>(b1, b2).
         cbind (bit_inject (net_u16 G) (vs_extend b1 b2)) (\<lambda>b.
         cbind (ctry (or_panic (vs_split_at b len))) (\<lambda>(b1, b2).
         cbind (ctry (or_panic (mul_lift_2k_to_32_many 16 b1))) (\<lambda>b1.
         cbind (ctry (or_panic (mul_lift_2k_to_32_many 17 b2))) (\<lambda>b2.
           cret (vs_sub_assign word_ring (vs_sub_assign word_ring x_a b1) b2)))))))"

definition lift_to_ring48 :: "'r prf_rng \<Rightarrow> u16 VecShare \<Rightarrow> ('r session, Ring48 VecShare) comp" where
  "lift_to_ring48 G v =
     (let len = vs_len v;
          x_a = foldl (\<lambda>x_a s. vs_push x_a (share_new (RingElement (Ring48 (ucast (convert (share_a s))))) (RingElement (Ring48 (ucast (convert (share_b s)))))))
            (vs_with_capacity (div_ceil len 64 * 64)) (shares v)
      in cbind (overflow_bits G v) (\<lambda>(b1, b2).
         cbind (bit_inject (net_u32 G) (vs_extend b1 b2)) (\<lambda>b.
         cbind (ctry (or_panic (vs_split_at b len))) (\<lambda>(b1, b2).
         cbind (ctry (or_panic (mul_lift_2k_to_48_many 16 b1))) (\<lambda>b1.
         cbind (ctry (or_panic (mul_lift_2k_to_48_many 17 b2))) (\<lambda>b2.
           cret (vs_sub_assign ring48_ring (vs_sub_assign ring48_ring x_a b1) b2)))))))"

definition add_const_all :: "'a int_ring2k \<Rightarrow> 'a \<Rightarrow> Role \<Rightarrow> 'a VecShare \<Rightarrow> 'a VecShare option" where
  "add_const_all R c role v = map_option new_vec (those (map (\<lambda>s. add_assign_const_role R s c (role_index role)) (shares v)))"

definition batch_signed_lift :: "'r prf_rng \<Rightarrow> u16 VecShare \<Rightarrow> ('r session, u32 VecShare) comp" where
  "batch_signed_lift G pre_lift =
     cbind (cread own_role) (\<lambda>role.
     cbind (ctry (or_panic (add_const_all word_ring (push_bit 15 1) role pre_lift))) (\<lambda>pre_lift.
     cbind (lift G pre_lift) (\<lambda>lifted_values.
       ctry (or_panic (add_const_all word_ring (ucast (push_bit 32 1 - push_bit 15 1 :: u64)) role lifted_values)))))"

definition batch_signed_lift_vec :: "'r prf_rng \<Rightarrow> u16 share list \<Rightarrow> ('r session, u32 share list) comp" where
  "batch_signed_lift_vec G pre_lift = cbind (batch_signed_lift G (new_vec pre_lift)) (\<lambda>v. cret (vs_inner v))"

definition batch_signed_lift_ring48 :: "'r prf_rng \<Rightarrow> u16 VecShare \<Rightarrow> ('r session, Ring48 VecShare) comp" where
  "batch_signed_lift_ring48 G pre_lift =
     cbind (cread own_role) (\<lambda>role.
     cbind (ctry (or_panic (add_const_all word_ring (push_bit 15 1) role pre_lift))) (\<lambda>pre_lift.
     cbind (lift_to_ring48 G pre_lift) (\<lambda>lifted_values.
       ctry (or_panic (add_const_all ring48_ring (ring48_masked (push_bit 48 1 - push_bit 15 1)) role lifted_values)))))"

definition batch_signed_lift_vec_ring48 :: "'r prf_rng \<Rightarrow> u16 share list \<Rightarrow> ('r session, Ring48 share list) comp" where
  "batch_signed_lift_vec_ring48 G pre_lift = cbind (batch_signed_lift_ring48 G (new_vec pre_lift)) (\<lambda>v. cret (vs_inner v))"

section \<open>The three components as sharings\<close>

text \<open>Each party contributes one component, held by it and the next party.\<close>

definition part_share :: "PartyID \<Rightarrow> PartyID \<Rightarrow> u64 share \<Rightarrow> u64 share" where
  "part_share j i s = (if i = j then share_new (share_a s) (RingElement 0)
     else if i = next_id j then share_new (RingElement 0) (share_b s) else share_new (RingElement 0) (RingElement 0))"

lemma a2b_words_eq:
  "a2b_words (usize_from_party i) ss (x1, x2, x3) =
     Inr (x1\<lparr>shares := shares x1 @ map (part_share ID0 i) ss\<rparr>, x2\<lparr>shares := shares x2 @ map (part_share ID1 i) ss\<rparr>,
       x3\<lparr>shares := shares x3 @ map (part_share ID2 i) ss\<rparr>)"
  by (induction ss arbitrary: x1 x2 x3; cases i)
    (simp_all add: a2b_pre_def share_get_ab_def part_share_def vs_push_def share_new_def share_zero_def re_zero_def)

lemma a2b_slices_eq:
  "a2b_slices (usize_from_party i) xs (x1, x2, x3) =
     Inr (x1 @ map (\<lambda>x. new_vec (map (part_share ID0 i) (shares x))) xs, x2 @ map (\<lambda>x. new_vec (map (part_share ID1 i) (shares x))) xs,
       x3 @ map (\<lambda>x. new_vec (map (part_share ID2 i) (shares x))) xs)"
  by (induction xs arbitrary: x1 x2 x3) (simp_all add: Let_def a2b_words_eq vs_with_capacity_def new_vec_def)

lemma sliced_word:
  assumes "sliced_as val n xs out" "p < n" "k < div_ceil (length xs) 64"
  shows "convert (share_a (shares (out ! p) ! k)) = slice_bits val (map share_a xs) p k"
    "convert (share_b (shares (out ! p) ! k)) = slice_bits val (map share_b xs) p k"
proof -
  have m: "64 * k + j < div_ceil (length xs) 64 * 64" "(64 * k + j) div 64 = k" "(64 * k + j) mod 64 = j" if "j < 64" for j using assms(3) that by auto
  have "cell s (shares (out ! p)) (k, j) \<longleftrightarrow> 64 * k + j < length xs \<and> bit (val (convert ((if s then share_a else share_b) (xs ! (64 * k + j))))) p" if "j < 64" for s j
  proof -
    have "\<forall>m < div_ceil (length xs) 64 * 64. cell s (shares (out ! p)) (m div 64, m mod 64) \<longleftrightarrow>
        m < length xs \<and> bit (val (convert ((if s then share_a else share_b) (xs ! m)))) p"
      using assms(1,2) by (simp add: sliced_as_def)
    from this [rule_format, OF m(1) [OF that]] show ?thesis unfolding m(2,3) [OF that] .
  qed
  from this [of _ True] this [of _ False]
  show "convert (share_a (shares (out ! p) ! k)) = slice_bits val (map share_a xs) p k"
    "convert (share_b (shares (out ! p) ! k)) = slice_bits val (map share_b xs) p k"
    by (auto intro!: bit_word_eqI simp: slice_bits_def bit_lane_word cell_def)
qed

lemma part_planes:
  fixes x :: "PartyID \<Rightarrow> u16 VecShare"
  assumes x: "shared (\<lambda>_. True) n (\<lambda>i. shares (x i))" and out: "\<And>i. sliced_as uint 16 (shares (x i)) (out i)"
  shows "word_planes 16 (div_ceil n 64) (\<lambda>i. map (\<lambda>x. new_vec (map (part_share j i) (shares x))) (out i)) (slice_bits uint (map share_a (shares (x j))))"
  unfolding word_planes_def word_plane_def
proof (intro conjI allI impI)
  have len: "length (shares (x i)) = n" for i using x by (simp add: shared_def)
  have lo: "length (out i) = 16" "p < 16 \<Longrightarrow> length (shares (out i ! p)) = div_ceil n 64" for i p using out [of i] len by (simp_all add: sliced_as_def)
  show "length (map (\<lambda>x. new_vec (map (part_share j i) (shares x))) (out i)) = 16" for i using lo by simp
  fix p :: nat assume p: "p < 16"
  have ab: "map share_b (shares (x (next_id j))) = map share_a (shares (x j))"
    using shared_nth(1) [OF x, of _ "next_id j"] len by (auto intro!: nth_equalityI)
  show "sharing_xor word_ring (\<lambda>_. True) (\<lambda>i. shares (map (\<lambda>x. new_vec (map (part_share j i) (shares x))) (out i) ! p))
      (map (\<lambda>k. RingElement (slice_bits uint (map share_a (shares (x j))) p k)) [0..<div_ceil n 64])"
  proof (rule sharing_xorI)
    show "length (shares (map (\<lambda>x. new_vec (map (part_share j i) (shares x))) (out i) ! p)) =
        length (map (\<lambda>k. RingElement (slice_bits uint (map share_a (shares (x j))) p k)) [0..<div_ceil n 64])" for i
      using lo p by (simp add: new_vec_def)
    fix k assume "k < length (map (\<lambda>k. RingElement (slice_bits uint (map share_a (shares (x j))) p k)) [0..<div_ceil n 64])"
    then have k: "k < div_ceil n 64" by simp
    let ?w = "RingElement (slice_bits uint (map share_a (shares (x j))) p k)"
    have "share_a (shares (out j ! p) ! k) = ?w" "share_b (shares (out (next_id j) ! p) ! k) = ?w"
      using sliced_word [OF out p, of k j] sliced_word [OF out p, of k "next_id j"] k len ab by (metis RingElement.collapse)+
    then show "replicated (col (\<lambda>i. shares (map (\<lambda>x. new_vec (map (part_share j i) (shares x))) (out i) ! p)) k) \<and>
        share3_wf (\<lambda>_. True) (col (\<lambda>i. shares (map (\<lambda>x. new_vec (map (part_share j i) (shares x))) (out i) ! p)) k) \<and>
        open_xor word_ring (col (\<lambda>i. shares (map (\<lambda>x. new_vec (map (part_share j i) (shares x))) (out i) ! p)) k) =
        map (\<lambda>k. RingElement (slice_bits uint (map share_a (shares (x j))) p k)) [0..<div_ceil n 64] ! k"
      using p k lo by (cases j) (simp_all add: col_def new_vec_def part_share_def share_new_def re_xor_def)
  qed
qed


section \<open>The overflow\<close>

definition part_sum :: "(PartyID \<Rightarrow> u16 share list) \<Rightarrow> nat \<Rightarrow> int" where
  "part_sum x m = uint (convert (share_a (x ID0 ! m))) + uint (convert (share_a (x ID1 ! m))) + uint (convert (share_a (x ID2 ! m)))"

lemma of_bool_sum: "of_bool (x \<noteq> y) + 2 * of_bool (x \<and> y) = of_bool x + (of_bool y :: int)"
  by (cases x; cases y) simp_all

lemma lane_overflow:
  assumes len: "\<And>i. length (x i) = n" and m: "m < n"
  defines "a \<equiv> slice_bits uint (map share_a (x ID0))" and "b \<equiv> slice_bits uint (map share_a (x ID1))" and "d \<equiv> slice_bits uint (map share_a (x ID2))"
  defines "c \<equiv> bit (carry_word a b d 15 (m div 64)) (m mod 64)"
    and "w \<equiv> bit (ripple_word (\<lambda>p. sum_word a b d p (m div 64)) (\<lambda>p. carry_word a b d p (m div 64)) 14) (m mod 64)"
  shows "part_sum x m div 2 ^ 16 = of_bool (c \<noteq> w) + 2 * of_bool (c \<and> w)"
proof -
  let ?v = "\<lambda>i. uint (convert (share_a (x i ! m)))" and ?k = "m div 64" and ?j = "m mod 64"
  have bits: "bit (a p ?k) ?j = bit (?v ID0) p" "bit (b p ?k) ?j = bit (?v ID1) p" "bit (d p ?k) ?j = bit (?v ID2) p" for p
    using m len by (simp_all add: a_def b_def d_def slice_bits_def bit_lane_word)
  have c: "bit (carry_word a b d p ?k) ?j = maj (bit (?v ID0) p) (bit (?v ID1) p) (bit (?v ID2) p)"
    and s: "bit (sum_word a b d p ?k) ?j = ((bit (?v ID0) p \<noteq> bit (?v ID1) p) \<noteq> bit (?v ID2) p)" for p
    unfolding carry_word_def sum_word_def bit_xor_iff bit_and_iff bits maj_def by blast+
  have "take_bit 16 (?v i) = ?v i" for i
    using uint_lt2p [of "convert (share_a (x i ! m))"] by (simp add: take_bit_int_eq_self_iff)
  then have "part_sum x m div 2 ^ 16 = (take_bit 16 (?v ID0) + take_bit 16 (?v ID1) + take_bit 16 (?v ID2)) div 2 ^ 16"
    unfolding part_sum_def by simp
  also have "\<dots> = of_bool c + of_bool w"
    unfolding sum_overflow c_def w_def ripple_word_lane c s by simp
  finally show ?thesis by (simp only: of_bool_sum)
qed

lemma computes_overflow:
  fixes G :: "'r prf_rng"
  assumes x: "sharing_add word_ring (\<lambda>_. True) (\<lambda>i. shares (x i)) xs" and n: "length xs = n" "n + 64 \<le> MAX_LEN"
  shows "\<exists>e1 e2. (\<forall>m < n. part_sum (\<lambda>i. shares (x i)) m div 2 ^ 16 = of_bool (e1 m) + 2 * of_bool (e2 m))
    \<and> computes addr sid (\<lambda>i. overflow_bits G (x i) :: ('r session, Bit VecShare \<times> Bit VecShare) comp)
      (\<lambda>r. sharing_xor bit_ring wf_bit (\<lambda>i. shares (fst (r i))) (map (\<lambda>m. RingElement (bit_new (e1 m))) [0..<n])
         \<and> sharing_xor bit_ring wf_bit (\<lambda>i. shares (snd (r i))) (map (\<lambda>m. RingElement (bit_new (e2 m))) [0..<n]))"
proof -
  have sh: "shared (\<lambda>_. True) n (\<lambda>i. shares (x i))" and len: "\<And>i. length (shares (x i)) = n"
    using x n sharing_lengths(1) [OF x] by (simp_all add: sharing_add_def)
  obtain t where t: "u16_transpose_pack_u64 v = Some (t v)" "sliced_as uint 16 (shares v) (t v)" for v
    using slices_as_impls(1) by metis
  let ?s = "\<lambda>j. slice_bits uint (map share_a (shares (x j)))"
  let ?c = "carry_word (?s ID0) (?s ID1) (?s ID2)" and ?w = "\<lambda>k. ripple_word (\<lambda>p. sum_word (?s ID0) (?s ID1) (?s ID2) p k) (\<lambda>p. carry_word (?s ID0) (?s ID1) (?s ID2) p k) 14"
  let ?e1 = "\<lambda>m. bit (?c 15 (m div 64) XOR ?w (m div 64)) (m mod 64)" and ?e2 = "\<lambda>m. bit (?c 15 (m div 64) AND ?w (m div 64)) (m mod 64)"
  have "part_sum (\<lambda>i. shares (x i)) m div 2 ^ 16 = of_bool (?e1 m) + 2 * of_bool (?e2 m)" if "m < n" for m
    using lane_overflow [where x = "\<lambda>i. shares (x i)", OF len that] by (simp only: bit_xor_iff bit_and_iff)
  moreover have "computes addr sid (\<lambda>i. overflow_bits G (x i) :: ('r session, Bit VecShare \<times> Bit VecShare) comp)
      (\<lambda>r. sharing_xor bit_ring wf_bit (\<lambda>i. shares (fst (r i))) (map (\<lambda>m. RingElement (bit_new (?e1 m))) [0..<n])
         \<and> sharing_xor bit_ring wf_bit (\<lambda>i. shares (snd (r i))) (map (\<lambda>m. RingElement (bit_new (?e2 m))) [0..<n]))"
  proof -
    have planes: "word_planes 16 (div_ceil n 64) (\<lambda>i. map (\<lambda>x. new_vec (map (part_share j i) (shares x))) (t (x i))) (?s j)" for j
      by (rule part_planes [OF sh t(2)])
    have "16 * div_ceil n 64 < MAX_LEN" by (rule width_fits [OF n(2)]) simp
    have num: "(16 :: nat) \<le> 16" "16 - 1 = (15 :: nat)" "16 - 2 = (14 :: nat)" by simp_all
    note carries = computes_two_carries [OF planes [of ID0] planes [of ID1] planes [of ID2] num(1) \<open>16 * div_ceil n 64 < MAX_LEN\<close> refl,
        where G = G and addr = addr and sid = sid, unfolded num]
    show ?thesis
      unfolding overflow_bits_def t(1) or_panic_def option.case ctry_simps cbind_cret
      by (rule computes_read_role, unfold role_index_party a2b_slices_eq ctry_simps cbind_cret case_prod_conv vs_len_def len append_Nil, rule carries)
  qed
  ultimately show ?thesis by (intro exI [of _ ?e1] exI [of _ ?e2] conjI allI impI)
qed

section \<open>Linear operations on sharings\<close>

definition lifted :: "('b \<Rightarrow> 'a) \<Rightarrow> 'b share \<Rightarrow> 'a share" where
  "lifted f s = share_new (RingElement (f (convert (share_a s)))) (RingElement (f (convert (share_b s))))"

context int_ring2k_laws
begin

lemma sharing_sub:
  assumes x: "sharing_add R wf (\<lambda>i. shares (x i)) xs" and y: "sharing_add R wf (\<lambda>i. shares (y i)) ys" and len: "length ys = length xs"
  shows "sharing_add R wf (\<lambda>i. shares (vs_sub_assign R (x i) (y i))) (map2 (re_sub R) xs ys)"
proof (rule sharing_addI)
  have l: "length (shares (x i)) = length xs" "length (shares (y i)) = length xs" for i
    using sharing_lengths(1) [OF x] sharing_lengths(1) [OF y] len by simp_all
  have eq: "shares (vs_sub_assign R (x i) (y i)) = map2 (share_sub_assign R) (shares (x i)) (shares (y i))" for i
    using l by (simp add: vs_sub_assign_def zip_assign_eq)
  show "length (shares (vs_sub_assign R (x i) (y i))) = length (map2 (re_sub R) xs ys)" for i using l len by (simp add: eq)
  fix k assume "k < length (map2 (re_sub R) xs ys)"
  then have k: "k < length xs" "k < length ys" using len by simp_all
  have sa: "share_sub_assign R s t = share_sub R s t" for s t by (simp add: share_arith)
  have col: "col (\<lambda>i. shares (vs_sub_assign R (x i) (y i))) k = zip3 (share_sub R) (col (\<lambda>i. shares (x i)) k) (col (\<lambda>i. shares (y i)) k)"
    using k l by (simp add: col_def eq sa)
  note sx = sharing_add_nth [OF x k(1)] and sy = sharing_add_nth [OF y k(2)]
  have "replicated (zip3 (share_sub R) (col (\<lambda>i. shares (x i)) k) (col (\<lambda>i. shares (y i)) k))"
    "share3_wf wf (zip3 (share_sub R) (col (\<lambda>i. shares (x i)) k) (col (\<lambda>i. shares (y i)) k))"
    using sx sy by (auto simp: col_def share_arith wf_intros)
  then show "replicated (col (\<lambda>i. shares (vs_sub_assign R (x i) (y i))) k) \<and> share3_wf wf (col (\<lambda>i. shares (vs_sub_assign R (x i) (y i))) k) \<and>
      open_add R (col (\<lambda>i. shares (vs_sub_assign R (x i) (y i))) k) = map2 (re_sub R) xs ys ! k"
    unfolding col using linear_ops_open(2) [of _ _ "ring_zero R"] sx sy k wf_zero by simp
qed

text \<open>Shares of a smaller ring, multiplied by a power of two that moves its width out of the larger one.\<close>

lemma lifted_sharing:
  fixes b :: "PartyID \<Rightarrow> 'b::len word share list"
  assumes b: "sharing_add word_ring (\<lambda>_. True) b bs" and f: "\<And>v. wf (f v)" "\<And>v. val (f v) = (uint v * 2 ^ K) mod 2 ^ ring_K R"
    and K: "ring_K R \<le> LENGTH('b) + K"
  shows "sharing_add R wf (\<lambda>i. map (lifted f) (b i))
    (map (\<lambda>e. RingElement (f (convert e))) bs)"
proof (rule sharing_addI)
  have len: "length (b i) = length bs" for i using sharing_lengths(1) [OF b] .
  then show "length (map (lifted f) (b i)) = length (map (\<lambda>e. RingElement (f (convert e))) bs)" for i
    by simp
  fix k assume "k < length (map (\<lambda>e. RingElement (f (convert e))) bs)"
  then have k: "k < length bs" by simp
  let ?x = "\<lambda>i. convert (share_a (b i ! k))"
  note s = sharing_add_nth [OF b k]
  have mods: "(s * 2 ^ K) mod 2 ^ ring_K R = ((s mod 2 ^ LENGTH('b)) * 2 ^ K) mod 2 ^ ring_K R" for s :: int
  proof -
    have "(2 :: int) ^ ring_K R dvd 2 ^ (LENGTH('b) + K)" using K by (rule le_imp_power_dvd)
    also have "\<dots> dvd (s - s mod 2 ^ LENGTH('b)) * 2 ^ K"
      unfolding power_add by (rule mult_dvd_mono [OF dvd_minus_mod dvd_refl])
    finally have "2 ^ ring_K R dvd (s - s mod 2 ^ LENGTH('b)) * 2 ^ K" .
    then show ?thesis by (simp add: mod_eq_dvd_iff left_diff_distrib)
  qed
  have "bs ! k = open_add word_ring (col b k)" using s by simp
  then have "convert (bs ! k) = ?x ID0 + ?x ID1 + ?x ID2" by (simp add: col_def re_add_def)
  then have u: "uint (convert (bs ! k)) = (uint (?x ID0) + uint (?x ID1) + uint (?x ID2)) mod 2 ^ LENGTH('b)"
    by (simp only: uint_word_ariths mod_add_left_eq)
  show "replicated (col (\<lambda>i. map (lifted f) (b i)) k) \<and>
      share3_wf wf (col (\<lambda>i. map (lifted f) (b i)) k) \<and>
      open_add R (col (\<lambda>i. map (lifted f) (b i)) k) =
      map (\<lambda>e. RingElement (f (convert e))) bs ! k"
  proof (intro conjI)
    let ?y = "RingElement (wrapping_add R (wrapping_add R (f (?x ID0)) (f (?x ID1))) (f (?x ID2)))"
    have "val (convert ?y) = ((uint (?x ID0) + uint (?x ID1) + uint (?x ID2)) * 2 ^ K) mod 2 ^ ring_K R"
      by (simp add: f val_add wf_add mod_add_left_eq mod_add_right_eq distrib_right)
    also have "\<dots> = val (f (convert (bs ! k)))" unfolding f(2) u by (rule mods)
    finally have "val (convert ?y) = val (f (convert (bs ! k)))" .
    then have "?y = RingElement (f (convert (bs ! k)))" by (simp add: val_eq_iff f wf_intros)
    then show "open_add R (col (\<lambda>i. map (lifted f) (b i)) k) =
        map (\<lambda>e. RingElement (f (convert e))) bs ! k"
      using k len by (simp add: col_def lifted_def share_new_def re_add_def)
  qed (use s k len in \<open>simp_all add: col_def lifted_def share_new_def f\<close>)
qed

end


section \<open>Lifting\<close>

lemma push_all: "foldl (\<lambda>v s. vs_push v (f s)) v ss = v\<lparr>shares := shares v @ map f ss\<rparr>"
  by (induction ss arbitrary: v) (simp_all add: vs_push_def)

lemma those_map_Some: "(\<And>x. x \<in> set xs \<Longrightarrow> f x = Some (g x)) \<Longrightarrow> those (map f xs) = Some (map g xs)"
  by (induction xs) simp_all

text \<open>The last steps, for both target rings.\<close>

context int_ring2k_laws
begin

lemma lift_values:
  fixes x :: "PartyID \<Rightarrow> u16 share list" and b1 b2 :: "PartyID \<Rightarrow> 'b::len word share list"
  assumes x: "sharing_add word_ring (\<lambda>_. True) x xs" and n: "length xs = n"
    and e: "\<And>m. m < n \<Longrightarrow> part_sum x m div 2 ^ 16 = of_bool (e1 m) + 2 * of_bool (e2 m)"
    and b: "sharing_add word_ring (\<lambda>_. True) b1 (map (\<lambda>m. RingElement (of_bool (e1 m))) [0..<n])"
      "sharing_add word_ring (\<lambda>_. True) b2 (map (\<lambda>m. RingElement (of_bool (e2 m))) [0..<n])"
    and g: "\<And>v. wf (g v)" "\<And>v :: u16. val (g v) = uint v"
    and f1: "\<And>v. wf (f1 v)" "\<And>v. val (f1 v) = (uint v * 2 ^ 16) mod 2 ^ ring_K R"
    and f2: "\<And>v. wf (f2 v)" "\<And>v. val (f2 v) = (uint v * 2 ^ 17) mod 2 ^ ring_K R"
    and K: "ring_K R \<le> LENGTH('b) + 16" "17 < ring_K R"
  shows "sharing_add R wf (\<lambda>i. shares (vs_sub_assign R (vs_sub_assign R \<lparr>shares = map (lifted g) (x i)\<rparr> (new_vec (map (lifted f1) (b1 i)))) (new_vec (map (lifted f2) (b2 i)))))
    (map (\<lambda>e. RingElement (g (convert e))) xs)"
proof -
  let ?S = "\<lambda>m. RingElement (wrapping_add R (wrapping_add R (g (convert (share_a (x ID0 ! m)))) (g (convert (share_a (x ID1 ! m))))) (g (convert (share_a (x ID2 ! m)))))"
  have len: "length (x i) = n" for i using sharing_lengths(1) [OF x] n by simp
  have xs: "replicated (col x m)" "xs ! m = open_add word_ring (col x m)" if "m < n" for m using sharing_add_nth [OF x] that n by auto
  have s0: "sharing_add R wf (\<lambda>i. shares \<lparr>shares = map (lifted g) (x i)\<rparr>) (map ?S [0..<n])"
  proof (rule sharing_addI)
    fix m assume "m < length (map ?S [0..<n])"
    then show "replicated (col (\<lambda>i. shares \<lparr>shares = map (lifted g) (x i)\<rparr>) m) \<and> share3_wf wf (col (\<lambda>i. shares \<lparr>shares = map (lifted g) (x i)\<rparr>) m) \<and>
        open_add R (col (\<lambda>i. shares \<lparr>shares = map (lifted g) (x i)\<rparr>) m) = map ?S [0..<n] ! m"
      using xs(1) [of m] len g(1) by (simp add: col_def lifted_def share_new_def re_add_def)
  qed (simp add: len)
  have s1: "sharing_add R wf (\<lambda>i. shares (new_vec (map (lifted f1) (b1 i)))) (map (\<lambda>m. RingElement (f1 (of_bool (e1 m)))) [0..<n])"
    using lifted_sharing [OF b(1) f1 K(1)] by (simp add: new_vec_def comp_def)
  have s2: "sharing_add R wf (\<lambda>i. shares (new_vec (map (lifted f2) (b2 i)))) (map (\<lambda>m. RingElement (f2 (of_bool (e2 m)))) [0..<n])"
    using lifted_sharing [OF b(2) f2] K by (simp add: new_vec_def comp_def)
  have "map2 (re_sub R) (map2 (re_sub R) (map ?S [0..<n]) (map (\<lambda>m. RingElement (f1 (of_bool (e1 m)))) [0..<n]))
      (map (\<lambda>m. RingElement (f2 (of_bool (e2 m)))) [0..<n]) = map (\<lambda>e. RingElement (g (convert e))) xs"
  proof (rule nth_equalityI)
    fix m assume "m < length (map2 (re_sub R) (map2 (re_sub R) (map ?S [0..<n]) (map (\<lambda>m. RingElement (f1 (of_bool (e1 m)))) [0..<n]))
      (map (\<lambda>m. RingElement (f2 (of_bool (e2 m)))) [0..<n]))"
    then have m: "m < n" by simp
    let ?r = "re_sub R (re_sub R (?S m) (RingElement (f1 (of_bool (e1 m))))) (RingElement (f2 (of_bool (e2 m))))"
    have "uint (convert (xs ! m)) = part_sum x m mod 2 ^ 16"
      unfolding xs(2) [OF m] part_sum_def by (simp only: col_def open_add.simps re_add_def RingElement.sel word_ring_sel uint_word_ariths mod_add_left_eq) simp
    moreover have "part_sum x m = 2 ^ 16 * (of_bool (e1 m) + 2 * of_bool (e2 m)) + part_sum x m mod 2 ^ 16"
      using e [OF m] mult_div_mod_eq [of "2 ^ 16" "part_sum x m"] by simp
    ultimately have sum: "part_sum x m - of_bool (e1 m) * 2 ^ 16 - of_bool (e2 m) * 2 ^ 17 = uint (convert (xs ! m))" by simp
    have "val (convert ?r) = (part_sum x m - of_bool (e1 m) * 2 ^ 16 - of_bool (e2 m) * 2 ^ 17) mod 2 ^ ring_K R"
      by (simp add: re_defs val_sub val_add wf_intros f1 f2 g part_sum_def mod_simps of_bool_def)
    also have "\<dots> = val (g (convert (xs ! m)))"
      unfolding sum using val_less [OF g(1)] val_ge_0 [OF g(1)] by (simp flip: g(2))
    finally have "?r = RingElement (g (convert (xs ! m)))" by (simp add: RingElement_eq_iff re_defs val_eq_iff wf_intros f1 f2 g)
    then show "map2 (re_sub R) (map2 (re_sub R) (map ?S [0..<n]) (map (\<lambda>m. RingElement (f1 (of_bool (e1 m)))) [0..<n]))
      (map (\<lambda>m. RingElement (f2 (of_bool (e2 m)))) [0..<n]) ! m = map (\<lambda>e. RingElement (g (convert e))) xs ! m"
      using m n by simp
  qed (simp add: n)
  with sharing_sub [OF sharing_sub [OF s0 s1] s2] show ?thesis by simp
qed


lemma computes_lift_steps:
  fixes G :: "'r prf_rng" and x :: "PartyID \<Rightarrow> u16 VecShare" and Nb :: "('r, 'b::len word) net_int"
  assumes x: "sharing_add word_ring (\<lambda>_. True) (\<lambda>i. shares (x i)) xs" and n: "2 * length xs + 64 \<le> MAX_LEN"
    and inject: "\<And>(v :: PartyID \<Rightarrow> Bit VecShare) vs. sharing_xor bit_ring wf_bit (\<lambda>i. shares (v i)) vs \<Longrightarrow> length vs < MAX_LEN \<Longrightarrow> computes addr sid (\<lambda>i. bit_inject Nb (v i))
      (\<lambda>r. sharing_add word_ring (\<lambda>_. True) (\<lambda>i. shares (r i)) (map (\<lambda>e. bit_elem word_ring (bit_convert (convert e))) vs))"
    and many: "\<And>v. many1 \<lparr>slice_shares = v\<rparr> = Some (new_vec (map (lifted f1) v))" "\<And>v. many2 \<lparr>slice_shares = v\<rparr> = Some (new_vec (map (lifted f2) v))"
    and g: "\<And>v. wf (g v)" "\<And>v :: u16. val (g v) = uint v"
    and f1: "\<And>v. wf (f1 v)" "\<And>v. val (f1 v) = (uint v * 2 ^ 16) mod 2 ^ ring_K R"
    and f2: "\<And>v. wf (f2 v)" "\<And>v. val (f2 v) = (uint v * 2 ^ 17) mod 2 ^ ring_K R"
    and K: "ring_K R \<le> LENGTH('b) + 16" "17 < ring_K R"
  shows "computes addr sid (\<lambda>i. cbind (overflow_bits G (x i)) (\<lambda>(b1, b2).
         cbind (bit_inject Nb (vs_extend b1 b2)) (\<lambda>b.
         cbind (ctry (or_panic (vs_split_at b (vs_len (x i))))) (\<lambda>(b1, b2).
         cbind (ctry (or_panic (many1 b1))) (\<lambda>b1.
         cbind (ctry (or_panic (many2 b2))) (\<lambda>b2.
           cret (vs_sub_assign R (vs_sub_assign R \<lparr>shares = map (lifted g) (shares (x i))\<rparr> b1) b2)))))))
    (\<lambda>r. sharing_add R wf (\<lambda>i. shares (r i)) (map (\<lambda>e. RingElement (g (convert e))) xs))"
proof -
  have len: "length (shares (x i)) = length xs" for i using sharing_lengths(1) [OF x] .
  have n': "length xs + 64 \<le> MAX_LEN" using n by simp
  obtain e1 e2 where e: "\<And>m. m < length xs \<Longrightarrow> part_sum (\<lambda>i. shares (x i)) m div 2 ^ 16 = of_bool (e1 m) + 2 * of_bool (e2 m)"
    and bits: "computes addr sid (\<lambda>i. overflow_bits G (x i) :: ('r session, Bit VecShare \<times> Bit VecShare) comp)
      (\<lambda>r. sharing_xor bit_ring wf_bit (\<lambda>i. shares (fst (r i))) (map (\<lambda>m. RingElement (bit_new (e1 m))) [0..<length xs])
         \<and> sharing_xor bit_ring wf_bit (\<lambda>i. shares (snd (r i))) (map (\<lambda>m. RingElement (bit_new (e2 m))) [0..<length xs]))"
    using computes_overflow [OF x refl n', of addr sid G] by blast
  have bit_value: "bit_convert (bit_new y) = y" "bit_elem word_ring y = (RingElement (of_bool y) :: 'b word RingElement)" for y
    by (simp_all add: bit_elem_def bit_new_def)
  show ?thesis
  proof (rule computes_cbind [OF bits], unfold split_def)
    fix r :: "PartyID \<Rightarrow> Bit VecShare \<times> Bit VecShare"
    assume r: "sharing_xor bit_ring wf_bit (\<lambda>i. shares (fst (r i))) (map (\<lambda>m. RingElement (bit_new (e1 m))) [0..<length xs])
         \<and> sharing_xor bit_ring wf_bit (\<lambda>i. shares (snd (r i))) (map (\<lambda>m. RingElement (bit_new (e2 m))) [0..<length xs])"
    have ext: "sharing_xor bit_ring wf_bit (\<lambda>i. shares (vs_extend (fst (r i)) (snd (r i))))
        (map (\<lambda>m. RingElement (bit_new (e1 m))) [0..<length xs] @ map (\<lambda>m. RingElement (bit_new (e2 m))) [0..<length xs])"
      using sharing_xor_append [OF conjunct1 [OF r] conjunct2 [OF r]] by (simp add: vs_extend_def)
    show "computes addr sid (\<lambda>i. cbind (bit_inject Nb (vs_extend (fst (r i)) (snd (r i)))) (\<lambda>b.
         cbind (ctry (or_panic (vs_split_at b (vs_len (x i))))) (\<lambda>p.
         cbind (ctry (or_panic (many1 (fst p)))) (\<lambda>b1.
         cbind (ctry (or_panic (many2 (snd p)))) (\<lambda>b2.
           cret (vs_sub_assign R (vs_sub_assign R \<lparr>shares = map (lifted g) (shares (x i))\<rparr> b1) b2))))))
      (\<lambda>r. sharing_add R wf (\<lambda>i. shares (r i)) (map (\<lambda>e. RingElement (g (convert e))) xs))"
    proof (rule computes_cbind [OF inject [OF ext]])
      show "length (map (\<lambda>m. RingElement (bit_new (e1 m))) [0..<length xs] @ map (\<lambda>m. RingElement (bit_new (e2 m))) [0..<length xs]) < MAX_LEN"
        using n by simp
      fix b :: "PartyID \<Rightarrow> 'b word VecShare"
      assume "sharing_add word_ring (\<lambda>_. True) (\<lambda>i. shares (b i)) (map (\<lambda>e. bit_elem word_ring (bit_convert (convert e)))
          (map (\<lambda>m. RingElement (bit_new (e1 m))) [0..<length xs] @ map (\<lambda>m. RingElement (bit_new (e2 m))) [0..<length xs]))"
      then have b: "sharing_add word_ring (\<lambda>_. True) (\<lambda>i. shares (b i))
          (map (\<lambda>m. RingElement (of_bool (e1 m))) [0..<length xs] @ map (\<lambda>m. RingElement (of_bool (e2 m))) [0..<length xs])"
        by (simp add: comp_def bit_value)
      have parts: "sharing_add word_ring (\<lambda>_. True) (\<lambda>i. take (length xs) (shares (b i))) (map (\<lambda>m. RingElement (of_bool (e1 m))) [0..<length xs])"
        "sharing_add word_ring (\<lambda>_. True) (\<lambda>i. drop (length xs) (shares (b i))) (map (\<lambda>m. RingElement (of_bool (e2 m))) [0..<length xs])"
        using sharing_add_take_drop [OF b, of "length xs"] by simp_all
      have "vs_split_at (b i) (vs_len (x i)) = Some (\<lparr>slice_shares = take (length xs) (shares (b i))\<rparr>, \<lparr>slice_shares = drop (length xs) (shares (b i))\<rparr>)" for i
        using sharing_lengths(1) [OF b, of i] by (simp add: vs_split_at_def vs_len_def len)
      then show "computes addr sid (\<lambda>i. cbind (ctry (or_panic (vs_split_at (b i) (vs_len (x i))))) (\<lambda>p.
         cbind (ctry (or_panic (many1 (fst p)))) (\<lambda>b1.
         cbind (ctry (or_panic (many2 (snd p)))) (\<lambda>b2.
           cret (vs_sub_assign R (vs_sub_assign R \<lparr>shares = map (lifted g) (shares (x i))\<rparr> b1) b2)))))
        (\<lambda>r. sharing_add R wf (\<lambda>i. shares (r i)) (map (\<lambda>e. RingElement (g (convert e))) xs))"
        using lift_values [OF x refl e parts g f1 f2 K]
        by (simp add: or_panic_def many computes_cret)
    qed
  qed
qed

end

lemma uint_ucast_up:
  "uint (ucast v :: u32) = uint v" "uint (ucast v :: u64) = uint v" "uint (ucast w :: u64) = uint w" for v :: u16 and w :: u32
  using uint_lt2p [of v] uint_lt2p [of w] by (simp_all add: unsigned_ucast_eq take_bit_int_eq_self_iff)

lemma lift_functions:
  "uint (push_bit 16 (ucast v :: u32)) = (uint v * 2 ^ 16) mod 2 ^ 32" "uint (push_bit 17 (ucast v :: u32)) = (uint v * 2 ^ 17) mod 2 ^ 32"
  "val48 (Ring48 (push_bit 16 (ucast w) AND MASK_48)) = (uint w * 2 ^ 16) mod 2 ^ 48" "val48 (Ring48 (push_bit 17 (ucast w) AND MASK_48)) = (uint w * 2 ^ 17) mod 2 ^ 48"
  for v :: u16 and w :: u32
proof -
  show "uint (push_bit 16 (ucast v :: u32)) = (uint v * 2 ^ 16) mod 2 ^ 32" "uint (push_bit 17 (ucast v :: u32)) = (uint v * 2 ^ 17) mod 2 ^ 32"
    unfolding unsigned_push_bit_eq uint_ucast_up by (simp_all add: take_bit_eq_mod push_bit_eq_mult)
  have m: "uint (y AND MASK_48) = uint y mod 2 ^ 48" for y :: u64
    unfolding and_MASK_48 by (rule uint_take_bit_48)
  have p: "uint (push_bit k (ucast w :: u64)) = (uint w * 2 ^ k) mod 2 ^ 64" for k
    unfolding unsigned_push_bit_eq uint_ucast_up by (simp add: take_bit_eq_mod push_bit_eq_mult)
  have mm: "a mod 2 ^ 64 mod 2 ^ 48 = a mod 2 ^ 48" for a :: int by (rule mod_mod_cancel) (simp add: le_imp_power_dvd)
  show "val48 (Ring48 (push_bit 16 (ucast w) AND MASK_48)) = (uint w * 2 ^ 16) mod 2 ^ 48" "val48 (Ring48 (push_bit 17 (ucast w) AND MASK_48)) = (uint w * 2 ^ 17) mod 2 ^ 48"
    unfolding val48.simps m p mm by (rule refl)+
qed

lemma wf48_masked: "wf48 (Ring48 (y AND MASK_48))"
  by (simp add: MASK_48_eq)

lemma computes_lift:
  fixes G :: "'r prf_rng"
  assumes x: "sharing_add word_ring (\<lambda>_. True) (\<lambda>i. shares (x i)) xs" and n: "2 * length xs + 64 \<le> MAX_LEN"
  shows "computes addr sid (\<lambda>i. lift G (x i)) (\<lambda>r. sharing_add word_ring (\<lambda>_. True) (\<lambda>i. shares (r i)) (map (\<lambda>e. RingElement (ucast (convert e))) xs))"
proof -
  have x_a: "foldl (\<lambda>x_a s. vs_push x_a (share_new (RingElement (ucast (convert (share_a s)))) (RingElement (ucast (convert (share_b s)))))) (vs_with_capacity c) ss
      = \<lparr>shares = map (lifted ucast) ss\<rparr>" for c and ss :: "u16 share list"
    by (simp add: push_all vs_with_capacity_def lifted_def [abs_def])
  show ?thesis
    unfolding lift_def Let_def x_a
  proof (rule word.computes_lift_steps [where 'b = 16, OF x n, where ?f1.0 = "\<lambda>v. push_bit 16 (ucast v)" and ?f2.0 = "\<lambda>v. push_bit 17 (ucast v)"])
    show "mul_lift_2k_to_32_many 16 \<lparr>slice_shares = v\<rparr> = Some (new_vec (map (lifted (\<lambda>v. push_bit 16 (ucast v))) v))"
      "mul_lift_2k_to_32_many 17 \<lparr>slice_shares = v\<rparr> = Some (new_vec (map (lifted (\<lambda>v. push_bit 17 (ucast v))) v))" for v
      by (simp_all add: mul_lift_2k_to_32_many_def mul_lift_2k_to_32_def lift_share_def lifted_def [abs_def] those_map_Some word_ring_def)
  qed (use net16.computes_bit_inject in \<open>simp_all add: lift_functions uint_ucast_up\<close>)
qed


lemma computes_lift48:
  fixes G :: "'r prf_rng"
  assumes x: "sharing_add word_ring (\<lambda>_. True) (\<lambda>i. shares (x i)) xs" and n: "2 * length xs + 64 \<le> MAX_LEN"
  shows "computes addr sid (\<lambda>i. lift_to_ring48 G (x i)) (\<lambda>r. sharing_add ring48_ring wf48 (\<lambda>i. shares (r i)) (map (\<lambda>e. RingElement (Ring48 (ucast (convert e)))) xs))"
proof -
  have x_a: "foldl (\<lambda>x_a s. vs_push x_a (share_new (RingElement (Ring48 (ucast (convert (share_a s))))) (RingElement (Ring48 (ucast (convert (share_b s))))))) (vs_with_capacity c) ss
      = \<lparr>shares = map (lifted (\<lambda>v. Ring48 (ucast v))) ss\<rparr>" for c and ss :: "u16 share list"
    by (simp add: push_all vs_with_capacity_def lifted_def [abs_def])
  show ?thesis
    unfolding lift_to_ring48_def Let_def x_a
  proof (rule ring48.computes_lift_steps [where 'b = 32, OF x n, where ?f1.0 = "\<lambda>v. Ring48 (push_bit 16 (ucast v) AND MASK_48)" and ?f2.0 = "\<lambda>v. Ring48 (push_bit 17 (ucast v) AND MASK_48)"])
    show "mul_lift_2k_to_48_many 16 \<lparr>slice_shares = v\<rparr> = Some (new_vec (map (lifted (\<lambda>v. Ring48 (push_bit 16 (ucast v) AND MASK_48))) v))"
      "mul_lift_2k_to_48_many 17 \<lparr>slice_shares = v\<rparr> = Some (new_vec (map (lifted (\<lambda>v. Ring48 (push_bit 17 (ucast v) AND MASK_48))) v))" for v
      by (simp_all add: mul_lift_2k_to_48_many_def mul_lift_2k_to_48_def lift_share_def lifted_def [abs_def] those_map_Some ring48_ring_def ring48_from_u32_def)
    show "wf48 (Ring48 (ucast v))" for v :: u16
      unfolding wf48_iff by (rule bit_word_eqI) (auto simp: bit_take_bit_iff bit_ucast_iff dest: bit_imp_le_length)
    show "val48 (Ring48 (push_bit 16 (ucast v) AND MASK_48)) = (uint v * 2 ^ 16) mod 2 ^ ring_K ring48_ring"
      "val48 (Ring48 (push_bit 17 (ucast v) AND MASK_48)) = (uint v * 2 ^ 17) mod 2 ^ ring_K ring48_ring" for v :: u32
      using lift_functions(3,4) [of v] by (simp_all add: ring48_ring_def)
  qed (use net32.computes_bit_inject in \<open>simp_all add: uint_ucast_up wf48_masked\<close>)
qed


section \<open>Signed lifting\<close>

text \<open>A public constant added to every value.\<close>

context int_ring2k_laws
begin

lemma sharing_add_const:
  assumes x: "sharing_add R wf (\<lambda>i. shares (x i)) xs" and c: "wf c"
  shows "\<exists>y. (\<forall>i. add_const_all R c (Role (u8_from_party i)) (x i) = Some (y i))
    \<and> sharing_add R wf (\<lambda>i. shares (y i)) (map (\<lambda>e. re_add R e (RingElement c)) xs)"
proof -
  define add where "add = (\<lambda>i (s :: 'a share). case i of ID0 \<Rightarrow> s\<lparr>share_a := re_add R (share_a s) (RingElement c)\<rparr>
    | ID1 \<Rightarrow> s\<lparr>share_b := re_add R (share_b s) (RingElement c)\<rparr> | ID2 \<Rightarrow> s)"
  have len: "length (shares (x i)) = length xs" for i using sharing_lengths(1) [OF x] .
  have "add_assign_const_role R s c (usize_from_party i) = Some (add i s)" for i s
    by (cases i) (simp_all add: add_assign_const_role_def add_def re_add_assign_def wrapping_add_assign_def re_add_def)
  then have "add_const_all R c (Role (u8_from_party i)) (x i) = Some (new_vec (map (add i) (shares (x i))))" for i
    by (simp add: add_const_all_def those_map_Some del: role_index.simps)
  moreover have "sharing_add R wf (\<lambda>i. shares (new_vec (map (add i) (shares (x i))))) (map (\<lambda>e. re_add R e (RingElement c)) xs)"
  proof (rule sharing_addI)
    fix k assume "k < length (map (\<lambda>e. re_add R e (RingElement c)) xs)"
    then have k: "k < length xs" by simp
    have "replicated (col (\<lambda>i. shares (x i)) k)" "share3_wf wf (col (\<lambda>i. shares (x i)) k)" "xs ! k = open_add R (col (\<lambda>i. shares (x i)) k)"
      using sharing_add_nth [OF x k] by simp_all
    then show "replicated (col (\<lambda>i. shares (new_vec (map (add i) (shares (x i))))) k) \<and> share3_wf wf (col (\<lambda>i. shares (new_vec (map (add i) (shares (x i))))) k) \<and>
        open_add R (col (\<lambda>i. shares (new_vec (map (add i) (shares (x i))))) k) = map (\<lambda>e. re_add R e (RingElement c)) xs ! k"
      using k len c by (simp add: col_def new_vec_def add_def re_defs wf_intros val_eq_iff val_add mod_simps add_ac)
  qed (simp add: len new_vec_def)
  ultimately show ?thesis by (intro exI [of _ "\<lambda>i. new_vec (map (add i) (shares (x i)))"] conjI allI)
qed

end

lemma sint_shift: "sint v = uint (v + push_bit 15 1) - 2 ^ 15" for v :: u16
proof -
  have "sint v = signed_take_bit 15 (uint v)" by (simp add: sint_uint)
  also have "\<dots> = take_bit 16 (uint v + 2 ^ 15) - 2 ^ 15" by (simp add: signed_take_bit_eq_take_bit_shift)
  also have "take_bit 16 (uint v + 2 ^ 15) = uint (v + push_bit 15 1)" by (simp add: uint_word_ariths take_bit_eq_mod)
  finally show ?thesis .
qed

lemma sign_extend: "ucast (v + push_bit 15 1) + ucast (push_bit 32 1 - push_bit 15 1 :: u64) = (scast v :: u32)" for v :: u16
proof -
  have "ucast (push_bit 32 1 - push_bit 15 1 :: u64) = (- word_of_int (2 ^ 15) :: u32)" by code_simp
  moreover have "(scast v :: u32) = word_of_int (uint (v + push_bit 15 1) - 2 ^ 15)" by (simp only: scast_eq sint_shift)
  ultimately show ?thesis unfolding ucast_eq [of "v + push_bit 15 1"] by (simp only: wi_hom_syms) simp
qed

lemma computes_signed_lift:
  fixes G :: "'r prf_rng"
  assumes x: "sharing_add word_ring (\<lambda>_. True) x xs" and n: "2 * length xs + 64 \<le> MAX_LEN"
  shows "computes addr sid (\<lambda>i. batch_signed_lift_vec G (x i)) (\<lambda>r. sharing_add word_ring (\<lambda>_. True) r (map (\<lambda>e. RingElement (scast (convert e))) xs))"
proof -
  have x': "sharing_add word_ring (\<lambda>_. True) (\<lambda>i. shares (new_vec (x i))) xs" using x by (simp add: new_vec_def)
  obtain y where y: "\<And>i. add_const_all word_ring (push_bit 15 1) (Role (u8_from_party i)) (new_vec (x i)) = Some (y i)"
    "sharing_add word_ring (\<lambda>_. True) (\<lambda>i. shares (y i)) (map (\<lambda>e. re_add word_ring e (RingElement (push_bit 15 1))) xs)"
    using word.sharing_add_const [OF x', of "push_bit 15 1"] by auto
  show ?thesis
    unfolding batch_signed_lift_vec_def batch_signed_lift_def cbind_assoc
  proof (rule computes_read_role, unfold y(1) or_panic_def option.case ctry_simps cbind_cret, rule computes_cbind [OF computes_lift [OF y(2)]])
    fix r :: "PartyID \<Rightarrow> u32 VecShare" assume r: "sharing_add word_ring (\<lambda>_. True) (\<lambda>i. shares (r i)) (map (\<lambda>e. RingElement (ucast (convert e)))
        (map (\<lambda>e. re_add word_ring e (RingElement (push_bit 15 1))) xs))"
    obtain z where z: "\<And>i. add_const_all word_ring (ucast (push_bit 32 1 - push_bit 15 1 :: u64)) (Role (u8_from_party i)) (r i) = Some (z i)"
      "sharing_add word_ring (\<lambda>_. True) (\<lambda>i. shares (z i)) (map (\<lambda>e. RingElement (scast (convert e))) xs)"
      using word.sharing_add_const [OF r, of "ucast (push_bit 32 1 - push_bit 15 1 :: u64)"]
      by (auto simp: comp_def re_add_def sign_extend simp del: push_bit_of_1 push_bit_numeral)
    show "computes addr sid (\<lambda>i. cbind (ctry (case add_const_all word_ring (ucast (push_bit 32 1 - push_bit 15 1 :: u64)) (Role (u8_from_party i)) (r i) of None \<Rightarrow> Inl Panicked | Some x \<Rightarrow> Inr x))
        (\<lambda>v. cret (vs_inner v)) :: ('r session, u32 share list) comp) (\<lambda>r. sharing_add word_ring (\<lambda>_. True) r (map (\<lambda>e. RingElement (scast (convert e))) xs))"
      unfolding z(1) using z(2) by (simp add: computes_cret vs_inner_def)
  qed (use n in simp)
qed


lemma sign_extend48:
  "re_add ring48_ring (RingElement (Ring48 (ucast (v + push_bit 15 1)))) (RingElement (ring48_masked (push_bit 48 1 - push_bit 15 1))) =
    RingElement (Ring48 (scast v AND MASK_48))" for v :: u16
proof -
  have "(push_bit 48 1 - push_bit 15 1) AND MASK_48 = (word_of_int (2 ^ 48 - 2 ^ 15) :: u64)" unfolding MASK_48_def by code_simp
  moreover have "ucast (v + push_bit 15 1) + word_of_int (2 ^ 48 - 2 ^ 15) = (word_of_int (sint v + 2 ^ 48) :: u64)"
    unfolding ucast_eq sint_shift by (simp only: wi_hom_add) (simp add: algebra_simps)
  moreover have "take_bit 48 (word_of_int (sint v + 2 ^ 48) :: u64) = take_bit 48 (scast v)"
    unfolding scast_eq by (simp only: take_bit_of_int) (simp add: take_bit_eq_mod)
  ultimately show ?thesis
    by (simp add: re_add_def ring48_masked_def ring48_ring_def and_MASK_48 add.commute)
qed

lemma computes_signed_lift48:
  fixes G :: "'r prf_rng"
  assumes x: "sharing_add word_ring (\<lambda>_. True) x xs" and n: "2 * length xs + 64 \<le> MAX_LEN"
  shows "computes addr sid (\<lambda>i. batch_signed_lift_vec_ring48 G (x i)) (\<lambda>r. sharing_add ring48_ring wf48 r (map (\<lambda>e. RingElement (Ring48 (scast (convert e) AND MASK_48))) xs))"
proof -
  let ?c = "ring48_masked (push_bit 48 1 - push_bit 15 1)"
  have c: "wf48 ?c" unfolding ring48_masked_def by (rule wf48_masked)
  have x': "sharing_add word_ring (\<lambda>_. True) (\<lambda>i. shares (new_vec (x i))) xs" using x by (simp add: new_vec_def)
  obtain y where y: "\<And>i. add_const_all word_ring (push_bit 15 1) (Role (u8_from_party i)) (new_vec (x i)) = Some (y i)"
    "sharing_add word_ring (\<lambda>_. True) (\<lambda>i. shares (y i)) (map (\<lambda>e. re_add word_ring e (RingElement (push_bit 15 1))) xs)"
    using word.sharing_add_const [OF x', of "push_bit 15 1"] by auto
  show ?thesis
    unfolding batch_signed_lift_vec_ring48_def batch_signed_lift_ring48_def cbind_assoc
  proof (rule computes_read_role, unfold y(1) or_panic_def option.case ctry_simps cbind_cret, rule computes_cbind [OF computes_lift48 [OF y(2)]])
    fix r :: "PartyID \<Rightarrow> Ring48 VecShare" assume r: "sharing_add ring48_ring wf48 (\<lambda>i. shares (r i)) (map (\<lambda>e. RingElement (Ring48 (ucast (convert e))))
        (map (\<lambda>e. re_add word_ring e (RingElement (push_bit 15 1))) xs))"
    have r': "sharing_add ring48_ring wf48 (\<lambda>i. shares (r i)) (map (\<lambda>e. RingElement (Ring48 (ucast (convert e + push_bit 15 1)))) xs)"
      using r by (simp add: comp_def re_add_def del: push_bit_of_1 push_bit_numeral)
    obtain z where z: "\<And>i. add_const_all ring48_ring ?c (Role (u8_from_party i)) (r i) = Some (z i)"
      "sharing_add ring48_ring wf48 (\<lambda>i. shares (z i)) (map (\<lambda>e. RingElement (Ring48 (scast (convert e) AND MASK_48))) xs)"
      using ring48.sharing_add_const [OF r' c] unfolding list.map_comp comp_def sign_extend48 by blast
    show "computes addr sid (\<lambda>i. cbind (ctry (case add_const_all ring48_ring ?c (Role (u8_from_party i)) (r i) of None \<Rightarrow> Inl Panicked | Some x \<Rightarrow> Inr x))
        (\<lambda>v. cret (vs_inner v)) :: ('r session, Ring48 share list) comp) (\<lambda>r. sharing_add ring48_ring wf48 r (map (\<lambda>e. RingElement (Ring48 (scast (convert e) AND MASK_48))) xs))"
      unfolding z(1) using z(2) by (simp add: computes_cret vs_inner_def)
  qed (use n in simp)
qed

section \<open>Properties\<close>

text \<open>
  C4: signed lifting. Three linked parties that hold shares of 16 bit values lift them to
  32 bits or to the 48 bit ring and open them: under any interleaving they all finish, with
  the sign extension of every value, for any choice of the shares.
\<close>

theorem signed_lifts_open:
  fixes S :: "PartyID \<Rightarrow> 'r session" and G :: "'r prf_rng"
  assumes "linked addr sid S" "sharing_add word_ring (\<lambda>_. True) x xs" "2 * length xs + 64 \<le> MAX_LEN"
  shows "always_finishes addr (\<lambda>i. cbind (batch_signed_lift_vec G (x i)) (open_ring (net_u32 G)) (S i))
      (\<lambda>r. (\<forall>i. fst (r i) = map (\<lambda>e. scast (convert e)) xs) \<and> linked addr sid (\<lambda>i. snd (r i)))
    \<and> always_finishes addr (\<lambda>i. cbind (batch_signed_lift_vec_ring48 G (x i)) (open_ring (net_ring48 G)) (S i))
      (\<lambda>r. (\<forall>i. fst (r i) = map (\<lambda>e. Ring48 (scast (convert e) AND MASK_48)) xs) \<and> linked addr sid (\<lambda>i. snd (r i)))"
proof
  have n: "length (map f xs) < MAX_LEN" for f :: "u16 RingElement \<Rightarrow> 'c" using assms(3) by (simp add: MAX_LEN_def)
  have "computes addr sid (\<lambda>i. cbind (batch_signed_lift_vec G (x i)) (open_ring (net_u32 G)) :: ('r session, u32 list) comp)
      (\<lambda>r. \<forall>i. r i = map convert (map (\<lambda>e. RingElement (scast (convert e))) xs))"
    by (rule computes_cbind [OF computes_signed_lift [OF assms(2,3)]], rule net32.computes_open_ring [unfolded ni_ring_simps]) (use n in simp_all)
  from computes_always_finishes [OF this assms(1)]
  show "always_finishes addr (\<lambda>i. cbind (batch_signed_lift_vec G (x i)) (open_ring (net_u32 G)) (S i))
      (\<lambda>r. (\<forall>i. fst (r i) = map (\<lambda>e. scast (convert e)) xs) \<and> linked addr sid (\<lambda>i. snd (r i)))" by (simp add: comp_def)
  have "computes addr sid (\<lambda>i. cbind (batch_signed_lift_vec_ring48 G (x i)) (open_ring (net_ring48 G)) :: ('r session, Ring48 list) comp)
      (\<lambda>r. \<forall>i. r i = map convert (map (\<lambda>e. RingElement (Ring48 (scast (convert e) AND MASK_48))) xs))"
    by (rule computes_cbind [OF computes_signed_lift48 [OF assms(2,3)]], rule net48.computes_open_ring [unfolded ni_ring_simps]) (use n in simp_all)
  from computes_always_finishes [OF this assms(1)]
  show "always_finishes addr (\<lambda>i. cbind (batch_signed_lift_vec_ring48 G (x i)) (open_ring (net_ring48 G)) (S i))
      (\<lambda>r. (\<forall>i. fst (r i) = map (\<lambda>e. Ring48 (scast (convert e) AND MASK_48)) xs) \<and> linked addr sid (\<lambda>i. snd (r i)))" by (simp add: comp_def)
qed

theorem signed_lifts_open_witness:
  "always_finishes demo_addr (\<lambda>i. cbind (batch_signed_lift_vec demo_rng (deal [sh 60000 60000 1, sh 1 2 3] i)) (open_ring (net_u32 demo_rng)) (demo_session i))
      (\<lambda>r. (\<forall>i. fst (r i) = [- 11071, 6]) \<and> linked demo_addr 7 (\<lambda>i. snd (r i)))
    \<and> always_finishes demo_addr (\<lambda>i. cbind (batch_signed_lift_vec_ring48 demo_rng (deal [sh 60000 60000 1, sh 1 2 3] i)) (open_ring (net_ring48 demo_rng)) (demo_session i))
      (\<lambda>r. (\<forall>i. fst (r i) = [Ring48 281474976699585, Ring48 6]) \<and> linked demo_addr 7 (\<lambda>i. snd (r i)))"
proof -
  have s: "sharing_add word_ring (\<lambda>_. True) (deal [sh 60000 60000 1, sh 1 2 3]) [RingElement (54465 :: u16), RingElement 6]"
    by (simp add: sharing_deal sh_def share_new_def re_add_def)
  have "(scast (54465 :: u16) :: u32) = - 11071" "(scast (6 :: u16) :: u32) = 6" by code_simp+
  moreover have "scast (54465 :: u16) AND MASK_48 = 281474976699585" "scast (6 :: u16) AND MASK_48 = 6" unfolding MASK_48_def by code_simp+
  ultimately show ?thesis
    using signed_lifts_open [where G = demo_rng, OF demo_linked s] by (simp add: MAX_LEN_def)
qed

end
