(* ===== verification/Int_Sharing.thy ===== *)
theory Int_Sharing
  imports Lift
begin

text \<open>
  Shares of signed integers: the specification of the distance protocols. A ring of \<open>K\<close> bits
  holds integers modulo \<open>2 ^ K\<close>; the linear operations on shares and the local products are
  the integer operations, and the most significant bit is the sign of an integer in range.
\<close>

section \<open>Integers and bits as shared by the three parties\<close>

definition int_sharing :: "'a int_ring2k \<Rightarrow> ('a \<Rightarrow> bool) \<Rightarrow> ('a \<Rightarrow> int) \<Rightarrow> (PartyID \<Rightarrow> 'a share list) \<Rightarrow> int list \<Rightarrow> bool" where
  "int_sharing R P V r vs \<longleftrightarrow>
     (\<exists>xs. sharing_add R P r xs \<and> map (\<lambda>e. V (convert e)) xs = map (\<lambda>v. v mod 2 ^ ring_K R) vs)"

definition bit_sharing :: "(PartyID \<Rightarrow> Bit share list) \<Rightarrow> bool list \<Rightarrow> bool" where
  "bit_sharing r bs \<longleftrightarrow> sharing_xor bit_ring wf_bit r (map (\<lambda>b. RingElement (bit_new b)) bs)"

text \<open>A distance is a pair of a code and a mask dot product.\<close>

definition dist_int_sharing :: "'a int_ring2k \<Rightarrow> ('a \<Rightarrow> bool) \<Rightarrow> ('a \<Rightarrow> int) \<Rightarrow> (PartyID \<Rightarrow> 'a DistanceShare list)
    \<Rightarrow> (int \<times> int) list \<Rightarrow> bool" where
  "dist_int_sharing R P V d vs \<longleftrightarrow> int_sharing R P V (\<lambda>i. map code_dot (d i)) (map fst vs)
     \<and> int_sharing R P V (\<lambda>i. map mask_dot (d i)) (map snd vs)"

lemma int_sharing_length: "int_sharing R P V r vs \<Longrightarrow> length (r i) = length vs"
  unfolding int_sharing_def by (metis length_map sharing_lengths(1))

lemma bit_sharing_length: "bit_sharing r bs \<Longrightarrow> length (r i) = length bs"
  unfolding bit_sharing_def by (metis length_map sharing_lengths(2))

lemma dist_int_sharing_length: "dist_int_sharing R P V d vs \<Longrightarrow> length (d i) = length vs"
  unfolding dist_int_sharing_def by (metis length_map int_sharing_length)

text \<open>The sign of an integer in range.\<close>

lemma sign_bit:
  assumes "- (2 ^ (K - 1)) \<le> v" "v < 2 ^ (K - 1)" "0 < K"
  shows "bit (v mod 2 ^ K) (K - 1) \<longleftrightarrow> v < (0 :: int)"
proof -
  have "bit (v mod 2 ^ K) (K - 1) \<longleftrightarrow> bit v (K - 1)"
    using assms(3) by (simp add: bit_take_bit_iff flip: take_bit_eq_mod)
  also have "\<dots> \<longleftrightarrow> signed_take_bit (K - 1) v < 0" by simp
  also have "signed_take_bit (K - 1) v = v" by (rule signed_take_bit_int_eq_self) (use assms in auto)
  finally show ?thesis .
qed

context int_ring2k_laws
begin

definition opens_int :: "'a share3 \<Rightarrow> int \<Rightarrow> bool" where
  "opens_int t v \<longleftrightarrow> replicated t \<and> share3_wf wf t \<and> val (convert (open_add R t)) = v mod 2 ^ ring_K R"

definition sums_int :: "'a RingElement \<times> 'a RingElement \<times> 'a RingElement \<Rightarrow> int \<Rightarrow> bool" where
  "sums_int t v \<longleftrightarrow> (case t of (x, y, z) \<Rightarrow> wf (convert x) \<and> wf (convert y) \<and> wf (convert z))
     \<and> val (convert (sum3 R t)) = v mod 2 ^ ring_K R"

lemma int_sharing_iff:
  "int_sharing R wf val r vs \<longleftrightarrow> (\<forall>i. length (r i) = length vs) \<and> (\<forall>k < length vs. opens_int (col r k) (vs ! k))"
proof (intro iffI conjI allI impI)
  assume r: "int_sharing R wf val r vs"
  then show "length (r i) = length vs" for i by (rule int_sharing_length)
  fix k assume "k < length vs"
  moreover obtain xs where xs: "sharing_add R wf r xs" "map (\<lambda>e. val (convert e)) xs = map (\<lambda>v. v mod 2 ^ ring_K R) vs"
    using r by (auto simp: int_sharing_def)
  moreover have "length xs = length vs" using xs(2) by (metis length_map)
  ultimately show "opens_int (col r k) (vs ! k)"
    using sharing_add_nth [OF xs(1), of k] by (metis nth_map opens_int_def)
next
  assume r: "(\<forall>i. length (r i) = length vs) \<and> (\<forall>k < length vs. opens_int (col r k) (vs ! k))"
  let ?xs = "map (\<lambda>k. open_add R (col r k)) [0..<length vs]"
  have "sharing_add R wf r ?xs" using r by (intro sharing_addI) (auto simp: opens_int_def)
  moreover have "map (\<lambda>e. val (convert e)) ?xs = map (\<lambda>v. v mod 2 ^ ring_K R) vs"
    using r by (auto intro!: nth_equalityI simp: opens_int_def)
  ultimately show "int_sharing R wf val r vs" unfolding int_sharing_def by blast
qed

lemma int_sharing_nth: "int_sharing R wf val r vs \<Longrightarrow> k < length vs \<Longrightarrow> opens_int (col r k) (vs ! k)"
  by (simp add: int_sharing_iff)

lemma int_sharingI:
  "(\<And>i. length (r i) = length vs) \<Longrightarrow> (\<And>k. k < length vs \<Longrightarrow> opens_int (col r k) (vs ! k)) \<Longrightarrow> int_sharing R wf val r vs"
  by (simp add: int_sharing_iff)

text \<open>Integer arithmetic on shares.\<close>

lemma opens_arith:
  assumes "opens_int s u" "opens_int t v" "wf c"
  shows "opens_int (zip3 (share_add R) s t) (u + v)" "opens_int (zip3 (share_sub R) s t) (u - v)"
    "opens_int (map3 (\<lambda>x. share_mul_val R x c) s) (u * val c)"
proof -
  note ops = linear_ops_open [of s t c]
  have wfo: "wf (convert (open_add R s))" "wf (convert (open_add R t))"
    using assms by (cases s; cases t; simp add: opens_int_def re_defs wf_intros)+
  have st: "replicated s" "share3_wf wf s" "replicated t" "share3_wf wf t"
    "val (convert (open_add R s)) = u mod 2 ^ ring_K R" "val (convert (open_add R t)) = v mod 2 ^ ring_K R"
    using assms by (simp_all add: opens_int_def)
  have rep: "replicated (zip3 (share_add R) s t)" "replicated (zip3 (share_sub R) s t)" "replicated (map3 (\<lambda>x. share_mul_val R x c) s)"
    using st by (cases s; cases t; simp add: share_arith)+
  have wfs: "share3_wf wf (zip3 (share_add R) s t)" "share3_wf wf (zip3 (share_sub R) s t)" "share3_wf wf (map3 (\<lambda>x. share_mul_val R x c) s)"
    using st assms(3) by (cases s; cases t; simp add: share_arith wf_intros)+
  show "opens_int (zip3 (share_add R) s t) (u + v)"
    unfolding opens_int_def ops(1) [OF st(2,4) assms(3)] using rep(1) wfs(1) wfo st(5,6) by (simp add: re_defs val_arith mod_simps)
  show "opens_int (zip3 (share_sub R) s t) (u - v)"
    unfolding opens_int_def ops(2) [OF st(2,4) assms(3)] using rep(2) wfs(2) wfo st(5,6) by (simp add: re_defs val_arith mod_simps)
  show "opens_int (map3 (\<lambda>x. share_mul_val R x c) s) (u * val c)"
    unfolding opens_int_def ops(4) [OF st(2,4) assms(3)] using rep(3) wfs(3) wfo st(5,6) assms(3) by (simp add: re_defs val_arith mod_simps)
qed

lemma sums_product:
  assumes "opens_int s u" "opens_int t v"
  shows "sums_int (zip3 (share_mul R) s t) (u * v)"
proof -
  have st: "replicated s" "share3_wf wf s" "replicated t" "share3_wf wf t"
    "val (convert (open_add R s)) = u mod 2 ^ ring_K R" "val (convert (open_add R t)) = v mod 2 ^ ring_K R"
    using assms by (simp_all add: opens_int_def)
  have wfo: "wf (convert (open_add R s))" "wf (convert (open_add R t))"
    using st by (cases s; cases t; simp add: re_defs wf_intros)+
  have "val (convert (sum3 R (zip3 (share_mul R) s t))) = (u * v) mod 2 ^ ring_K R"
    unfolding local_product_opens [OF st(1,3,2,4)] using wfo st(5,6) by (simp add: re_defs val_arith mod_simps)
  moreover have "case zip3 (share_mul R) s t of (x, y, z) \<Rightarrow> wf (convert x) \<and> wf (convert y) \<and> wf (convert z)"
    using st by (cases s; cases t; simp add: share_arith wf_intros)
  ultimately show ?thesis by (simp add: sums_int_def)
qed

lemma sums_sub:
  assumes "sums_int (x, y, z) u" "sums_int (x', y', z') v"
  shows "sums_int (re_sub R x x', re_sub R y y', re_sub R z z') (u - v)"
proof -
  have w: "wf (convert x)" "wf (convert y)" "wf (convert z)" "wf (convert x')" "wf (convert y')" "wf (convert z')"
    using assms by (simp_all add: sums_int_def)
  have "val (convert (sum3 R (re_sub R x x', re_sub R y y', re_sub R z z'))) = (val (convert (sum3 R (x, y, z))) - val (convert (sum3 R (x', y', z')))) mod 2 ^ ring_K R"
    using w by (simp add: re_defs wf_intros val_arith mod_simps) (simp add: algebra_simps)
  with assms w show ?thesis by (simp add: sums_int_def mod_simps re_defs wf_intros del: sum3.simps)
qed

lemma int_sharing_zip:
  assumes "int_sharing R wf val x us" "int_sharing R wf val y vs" "length us = length vs"
  shows "int_sharing R wf val (\<lambda>i. map2 (share_sub R) (x i) (y i)) (map2 (-) us vs)"
    "int_sharing R wf val (\<lambda>i. map2 (share_add R) (x i) (y i)) (map2 (+) us vs)"
proof -
  have len: "length (x i) = length vs" "length (y i) = length vs" for i
    using int_sharing_length [OF assms(1)] int_sharing_length [OF assms(2)] assms(3) by simp_all
  have col: "col (\<lambda>i. map2 f (x i) (y i)) k = zip3 f (col x k) (col y k)" if "k < length vs" for f k
    using that len by (simp add: col_def)
  show "int_sharing R wf val (\<lambda>i. map2 (share_sub R) (x i) (y i)) (map2 (-) us vs)"
    "int_sharing R wf val (\<lambda>i. map2 (share_add R) (x i) (y i)) (map2 (+) us vs)"
    using opens_arith(1,2) [OF int_sharing_nth [OF assms(1)] int_sharing_nth [OF assms(2)] wf_zero] len assms(3)
    by (auto intro!: int_sharingI simp: col)
qed

lemma int_sharing_scaled:
  assumes "int_sharing R wf val x us" "wf c"
  shows "int_sharing R wf val (\<lambda>i. map (\<lambda>s. share_mul_val R s c) (x i)) (map (\<lambda>u. u * val c) us)"
proof (rule int_sharingI)
  have len: "length (x i) = length us" for i using int_sharing_length [OF assms(1)] .
  then show "length (map (\<lambda>s. share_mul_val R s c) (x i)) = length (map (\<lambda>u. u * val c) us)" for i by simp
  fix k assume "k < length (map (\<lambda>u. u * val c) us)"
  then have k: "k < length us" by simp
  have "col (\<lambda>i. map (\<lambda>s. share_mul_val R s c) (x i)) k = map3 (\<lambda>s. share_mul_val R s c) (col x k)" using k len by (simp add: col_def)
  with opens_arith(3) [OF int_sharing_nth [OF assms(1) k] int_sharing_nth [OF assms(1) k] assms(2)] k
  show "opens_int (col (\<lambda>i. map (\<lambda>s. share_mul_val R s c) (x i)) k) (map (\<lambda>u. u * val c) us ! k)" by simp
qed

lemma int_sharing_append:
  assumes "int_sharing R wf val x us" "int_sharing R wf val y vs"
  shows "int_sharing R wf val (\<lambda>i. x i @ y i) (us @ vs)"
proof (rule int_sharingI)
  have len: "length (x i) = length us" "length (y i) = length vs" for i
    using int_sharing_length [OF assms(1)] int_sharing_length [OF assms(2)] by simp_all
  then show "length (x i @ y i) = length (us @ vs)" for i by simp
  fix k assume k: "k < length (us @ vs)"
  show "opens_int (col (\<lambda>i. x i @ y i) k) ((us @ vs) ! k)"
    using int_sharing_nth [OF assms(1), of k] int_sharing_nth [OF assms(2), of "k - length us"] k len
    by (cases "k < length us") (auto simp: col_def nth_append)
qed

lemma int_sharing_Nil: "int_sharing R wf val (\<lambda>_. []) []"
  by (rule int_sharingI) simp_all

lemma dist_sharing_ints:
  assumes "dist_int_sharing R wf val d vs"
  obtains xs where "dist_sharing R wf d xs" "map (\<lambda>(c, m). (val (convert c), val (convert m))) xs = map (\<lambda>(c, m). (c mod 2 ^ ring_K R, m mod 2 ^ ring_K R)) vs"
proof -
  obtain cs ms where c: "sharing_add R wf (\<lambda>i. map code_dot (d i)) cs" "map (\<lambda>e. val (convert e)) cs = map (\<lambda>v. v mod 2 ^ ring_K R) (map fst vs)"
    and m: "sharing_add R wf (\<lambda>i. map mask_dot (d i)) ms" "map (\<lambda>e. val (convert e)) ms = map (\<lambda>v. v mod 2 ^ ring_K R) (map snd vs)"
    using assms unfolding dist_int_sharing_def int_sharing_def by blast
  have len: "length cs = length vs" "length ms = length vs" using c(2) m(2) by (metis length_map)+
  have nth: "val (convert (cs ! k)) = fst (vs ! k) mod 2 ^ ring_K R" "val (convert (ms ! k)) = snd (vs ! k) mod 2 ^ ring_K R" if "k < length vs" for k
    using arg_cong [OF c(2), of "\<lambda>l. l ! k"] arg_cong [OF m(2), of "\<lambda>l. l ! k"] that len by simp_all
  show ?thesis
  proof (rule that [of "zip cs ms"])
    show "dist_sharing R wf d (zip cs ms)" using c(1) m(1) len by (simp add: dist_sharing_def)
    show "map (\<lambda>(c, m). (val (convert c), val (convert m))) (zip cs ms) = map (\<lambda>(c, m). (c mod 2 ^ ring_K R, m mod 2 ^ ring_K R)) vs"
      using len nth by (auto intro!: nth_equalityI simp: split_def)
  qed
qed

lemma ints_of_dist_sharing:
  assumes "dist_sharing R wf d xs" "map (\<lambda>(c, m). (val (convert c), val (convert m))) xs = map (\<lambda>(c, m). (c mod 2 ^ ring_K R, m mod 2 ^ ring_K R)) vs"
  shows "dist_int_sharing R wf val d vs"
proof -
  have "map (\<lambda>e. val (convert e)) (map fst xs) = map (\<lambda>v. v mod 2 ^ ring_K R) (map fst vs)" "map (\<lambda>e. val (convert e)) (map snd xs) = map (\<lambda>v. v mod 2 ^ ring_K R) (map snd vs)"
    using arg_cong [OF assms(2), of "map fst"] arg_cong [OF assms(2), of "map snd"] by (simp_all add: comp_def split_def)
  with assms(1) show ?thesis unfolding dist_int_sharing_def dist_sharing_def int_sharing_def by blast
qed

end

section \<open>The rounds on integers\<close>

context network_int
begin

lemma computes_reshare_int:
  assumes "\<And>k. k < n \<Longrightarrow> sums_int (e ID0 k, e ID1 k, e ID2 k) (v k)" "n < MAX_LEN"
  shows "computes addr sid (\<lambda>i. reshare_products N n (e i)) (\<lambda>r. int_sharing ring wf val r (map v [0..<n]))"
proof (rule computes_weaken [OF computes_reshare])
  show "wf (convert (e i k))" if "k < n" for i k using assms(1) [OF that] by (cases i) (simp_all add: sums_int_def)
  show "int_sharing ring wf val r (map v [0..<n])"
    if "sharing_add ring wf r (map (\<lambda>k. sum3 ring (e ID0 k, e ID1 k, e ID2 k)) [0..<n])" for r
    unfolding int_sharing_def using that assms(1)
    by (intro exI [of _ "map (\<lambda>k. sum3 ring (e ID0 k, e ID1 k, e ID2 k)) [0..<n]"]) (simp add: sums_int_def del: sum3.simps)
qed (rule assms(2))

lemma computes_inject_int:
  assumes "bit_sharing x bs" "length bs < MAX_LEN"
  shows "computes addr sid (\<lambda>i. bit_inject N (new_vec (x i))) (\<lambda>r. sharing_add ring wf (\<lambda>i. shares (r i)) (map (bit_elem ring) bs))"
proof -
  have "computes addr sid (\<lambda>i. bit_inject N (new_vec (x i)))
      (\<lambda>r. sharing_add ring wf (\<lambda>i. shares (r i)) (map (\<lambda>e. bit_elem ring (bit_convert (convert e))) (map (\<lambda>b. RingElement (bit_new b)) bs)))"
    by (rule computes_bit_inject) (use assms in \<open>simp_all add: bit_sharing_def new_vec_def\<close>)
  then show ?thesis by (simp add: comp_def)
qed

lemma bits_as_ints: "sharing_add ring wf r (map (bit_elem ring) bs) \<Longrightarrow> int_sharing ring wf val r (map of_bool bs)"
  unfolding int_sharing_def
  by (intro exI [of _ "map (bit_elem ring) bs"])
    (use K_pos in \<open>auto simp: bit_elem_def val_from_bool\<close>)

lemma computes_select_int:
  assumes "dist_int_sharing ring wf val (\<lambda>i. map fst (d i)) ls" "dist_int_sharing ring wf val (\<lambda>i. map snd (d i)) rs"
    "sharing_add ring wf c (map (bit_elem ring) bs)" "length ls = length bs" "length rs = length bs" "length bs * 2 < MAX_LEN"
  shows "computes addr sid (\<lambda>i. conditionally_select_distance N (d i) (c i))
    (\<lambda>r. dist_int_sharing ring wf val r (map (\<lambda>(b, l, r). if b then l else r) (zip bs (zip ls rs))))"
proof -
  obtain xl where xl: "dist_sharing ring wf (\<lambda>i. map fst (d i)) xl" "map (\<lambda>(c, m). (val (convert c), val (convert m))) xl = map (\<lambda>(c, m). (c mod 2 ^ ring_K ring, m mod 2 ^ ring_K ring)) ls"
    using dist_sharing_ints [OF assms(1)] .
  obtain xr where xr: "dist_sharing ring wf (\<lambda>i. map snd (d i)) xr" "map (\<lambda>(c, m). (val (convert c), val (convert m))) xr = map (\<lambda>(c, m). (c mod 2 ^ ring_K ring, m mod 2 ^ ring_K ring)) rs"
    using dist_sharing_ints [OF assms(2)] .
  have len: "length xl = length bs" "length xr = length bs" using xl(2) xr(2) assms(4,5) by (metis length_map)+
  have nth: "(case xl ! k of (c, m) \<Rightarrow> (val (convert c), val (convert m))) = (case ls ! k of (c, m) \<Rightarrow> (c mod 2 ^ ring_K ring, m mod 2 ^ ring_K ring))"
    "(case xr ! k of (c, m) \<Rightarrow> (val (convert c), val (convert m))) = (case rs ! k of (c, m) \<Rightarrow> (c mod 2 ^ ring_K ring, m mod 2 ^ ring_K ring))" if "k < length bs" for k
    using arg_cong [OF xl(2), of "\<lambda>l. l ! k"] arg_cong [OF xr(2), of "\<lambda>l. l ! k"] that len assms(4,5) by simp_all
  have "map (\<lambda>(c, m). (val (convert c), val (convert m))) (map (\<lambda>(b, l, r). if b then l else r) (zip bs (zip xl xr))) =
      map (\<lambda>(c, m). (c mod 2 ^ ring_K ring, m mod 2 ^ ring_K ring)) (map (\<lambda>(b, l, r). if b then l else r) (zip bs (zip ls rs)))"
    using len assms(4,5) nth by (auto intro!: nth_equalityI)
  note selected = this
  show ?thesis
    by (rule computes_weaken [OF computes_select_distance [OF xl(1) xr(1) assms(3) len assms(6)]])
      (rule ints_of_dist_sharing [OF _ selected])
qed

end

context transpose64
begin

lemma computes_sign:
  fixes G :: "'r prf_rng"
  assumes "int_sharing ring wf val x vs" "\<And>v. v \<in> set vs \<Longrightarrow> - (2 ^ (ring_K ring - 1)) \<le> v \<and> v < 2 ^ (ring_K ring - 1)" "length vs + 64 \<le> MAX_LEN"
  shows "computes addr sid (\<lambda>i. extract_msb_batch N (net_u64 G) transpose_pack_u64 (x i)) (\<lambda>r. bit_sharing r (map (\<lambda>v. v < 0) vs))"
proof -
  obtain xs where xs: "sharing_add ring wf x xs" "map (\<lambda>e. val (convert e)) xs = map (\<lambda>v. v mod 2 ^ ring_K ring) vs"
    using assms(1) by (auto simp: int_sharing_def)
  have len: "length xs = length vs" using xs(2) by (metis length_map)
  have "map (\<lambda>e. RingElement (bit_new (bit (val (convert e)) (ring_K ring - 1)))) xs = map (\<lambda>z. RingElement (bit_new (bit z (ring_K ring - 1)))) (map (\<lambda>e. val (convert e)) xs)"
    by simp
  also have "\<dots> = map (\<lambda>v. RingElement (bit_new (bit (v mod 2 ^ ring_K ring) (ring_K ring - 1)))) vs" unfolding xs(2) by simp
  also have "\<dots> = map (\<lambda>b. RingElement (bit_new b)) (map (\<lambda>v. v < 0) vs)"
  proof -
    have "bit (v mod 2 ^ ring_K ring) (ring_K ring - 1) \<longleftrightarrow> v < 0" if "v \<in> set vs" for v
      by (rule sign_bit) (use assms(2) [OF that] K_pos in auto)
    then show ?thesis by simp
  qed
  finally have eq: "map (\<lambda>e. RingElement (bit_new (bit (val (convert e)) (ring_K ring - 1)))) xs = map (\<lambda>b. RingElement (bit_new b)) (map (\<lambda>v. v < 0) vs)" .
  show ?thesis
    using computes_msb_batch [OF xs(1), where addr = addr and sid = sid and G = G] width_fits [OF assms(3) K64] assms(3) len
    unfolding eq bit_sharing_def by simp
qed

end

lemma computes_open_bits:
  assumes "bit_sharing r bs" "length bs < MAX_LEN"
  shows "computes addr sid (\<lambda>i. cbind (open_bin (r i)) (\<lambda>opened. cret (map bit_convert opened)) :: ('r session, bool list) comp) (\<lambda>y. \<forall>i. y i = bs)"
proof (rule computes_cbind [OF computes_open_bin [OF assms(1) [unfolded bit_sharing_def]]])
  fix y :: "PartyID \<Rightarrow> Bit list" assume "\<forall>i. y i = map convert (map (\<lambda>b. RingElement (bit_new b)) bs)"
  then show "computes addr sid (\<lambda>i. cret (map bit_convert (y i)) :: ('r session, bool list) comp) (\<lambda>y. \<forall>i. y i = bs)"
    by (intro computes_cret) (simp add: comp_def)
qed (use assms in simp)

end
