(* ===== verification/F64.thy ===== *)
theory F64
  imports Prelude "HOL-Library.Log_Nat"
begin

text \<open>
  The double precision arithmetic of the threshold constants: finite \<open>f64\<close> values as the
  rationals they denote, every operation rounded to the nearest double, ties to even, and the
  saturating casts of Rust.
\<close>

type_synonym f64 = rat

text \<open>The binary exponent of a positive rational, from the bit lengths of its two parts.\<close>

definition f64_exponent :: "rat \<Rightarrow> int" where
  "f64_exponent x =
     (let (p, q) = quotient_of x; e = bitlen p - bitlen q
      in if x < 2 powi e then e - 1 else e)"

text \<open>Round half to even.\<close>

definition round_even :: "rat \<Rightarrow> int" where
  "round_even r =
     (let n = \<lfloor>r\<rfloor>; d = r - of_int n
      in if d < 1 / 2 then n else if 1 / 2 < d then n + 1 else if even n then n else n + 1)"

text \<open>53 significant bits, and no bit below the smallest subnormal one.\<close>

definition f64_round :: "rat \<Rightarrow> f64" where
  "f64_round x =
     (if x = 0 then 0
      else let q = 2 powi (max (f64_exponent \<bar>x\<bar> - 52) (- 1074)) in of_int (round_even (x / q)) * q)"

definition f64_sub :: "f64 \<Rightarrow> f64 \<Rightarrow> f64" where
  "f64_sub x y = f64_round (x - y)"

definition f64_mul :: "f64 \<Rightarrow> f64 \<Rightarrow> f64" where
  "f64_mul x y = f64_round (x * y)"

text \<open>Casts truncate and saturate.\<close>

definition f64_trunc :: "f64 \<Rightarrow> int" where
  "f64_trunc x = (if 0 \<le> x then \<lfloor>x\<rfloor> else \<lceil>x\<rceil>)"

definition f64_as_u32 :: "f64 \<Rightarrow> u32" where
  "f64_as_u32 x = of_int (max 0 (min (2 ^ 32 - 1) (f64_trunc x)))"

definition f64_as_u64 :: "f64 \<Rightarrow> u64" where
  "f64_as_u64 x = of_int (max 0 (min (2 ^ 64 - 1) (f64_trunc x)))"

definition f64_as_i64 :: "f64 \<Rightarrow> 64 word" where
  "f64_as_i64 x = of_int (max (- (2 ^ 63)) (min (2 ^ 63 - 1) (f64_trunc x)))"

section \<open>Bounds of rounding\<close>

lemma powi_less_imp: "2 powi a < (2 :: rat) powi b \<Longrightarrow> a < b"
  using power_int_increasing [of b a "2 :: rat"] by (meson not_le one_le_numeral)

lemma bitlen_powi:
  assumes "0 < p"
  shows "2 powi (bitlen p - 1) \<le> (of_int p :: rat)" "(of_int p :: rat) < 2 powi bitlen p"
proof -
  have n: "0 < bitlen p" using assms using bitlen_bounds [OF assms] by (cases "bitlen p = 0") (auto simp: bitlen_nonneg order_less_le)
  then have e: "2 powi (bitlen p - 1) = (of_int (2 ^ nat (bitlen p - 1)) :: rat)" "2 powi bitlen p = (of_int (2 ^ nat (bitlen p)) :: rat)"
    by (simp_all add: power_int_def)
  show "2 powi (bitlen p - 1) \<le> (of_int p :: rat)" "(of_int p :: rat) < 2 powi bitlen p"
    unfolding e of_int_le_iff of_int_less_iff using bitlen_bounds [OF assms] by auto
qed

lemma f64_exponent_bounds:
  assumes "0 < x"
  shows "2 powi f64_exponent x \<le> x" "x < 2 powi (f64_exponent x + 1)"
proof -
  obtain p q where pq: "quotient_of x = (p, q)" by force
  have q: "0 < q" and x: "x = of_int p / of_int q" using pq quotient_of_denom_pos quotient_of_div by blast+
  have p: "0 < p" using assms q by (simp add: x zero_less_divide_iff)
  let ?e = "bitlen p - bitlen q"
  have "2 powi ?e / 2 \<le> x"
  proof -
    have "2 powi ?e / 2 * (of_int q :: rat) \<le> 2 powi ?e / 2 * 2 powi bitlen q" using bitlen_powi(2) [OF q] by (intro mult_left_mono) auto
    also have "\<dots> = 2 powi (bitlen p - 1)" by (simp add: power_int_diff)
    finally show ?thesis using bitlen_powi(1) [OF p] q by (simp add: x field_simps)
  qed
  moreover have "x < 2 * 2 powi ?e"
  proof -
    have "2 powi bitlen p = 2 * 2 powi ?e * (2 powi (bitlen q - 1) :: rat)" by (simp add: power_int_diff)
    also have "\<dots> \<le> 2 * 2 powi ?e * of_int q" using bitlen_powi(1) [OF q] by (intro mult_left_mono) auto
    finally show ?thesis using bitlen_powi(2) [OF p] q by (simp add: x field_simps)
  qed
  ultimately show "2 powi f64_exponent x \<le> x" "x < 2 powi (f64_exponent x + 1)"
    by (simp_all add: f64_exponent_def pq Let_def power_int_diff power_int_add mult.commute [of 2])
qed

lemma round_even_mono: "r \<le> of_int n \<Longrightarrow> round_even r \<le> n" "of_int n \<le> r \<Longrightarrow> n \<le> round_even r"
proof -
  have f: "of_int \<lfloor>r\<rfloor> \<le> r" "r < of_int \<lfloor>r\<rfloor> + 1" by linarith+
  show "round_even r \<le> n" if "r \<le> of_int n"
  proof (cases "r = of_int n")
    case True
    then show ?thesis by (simp add: round_even_def)
  next
    case False
    then have "\<lfloor>r\<rfloor> + 1 \<le> n" using that by linarith
    then show ?thesis by (auto simp: round_even_def Let_def)
  qed
  show "n \<le> round_even r" if "of_int n \<le> r"
  proof -
    have "n \<le> \<lfloor>r\<rfloor>" using that by (simp add: le_floor_iff)
    then show ?thesis by (auto simp: round_even_def Let_def)
  qed
qed

lemma round_even_of_int: "round_even (of_int n) = n"
  by (simp add: round_even_def)

text \<open>Doubles are not changed by rounding.\<close>

lemma f64_round_exact:
  assumes "x = of_int n * 2 powi e" "\<bar>n\<bar> < 2 ^ 53" "- 1074 \<le> e"
  shows "f64_round x = x"
proof (cases "x = 0")
  case False
  let ?E = "f64_exponent \<bar>x\<bar>" and ?m = "max (f64_exponent \<bar>x\<bar> - 52) (- 1074)"
  have "\<bar>x\<bar> = of_int \<bar>n\<bar> * 2 powi e" by (simp add: assms(1) abs_mult)
  also have "\<dots> < of_int (2 ^ 53) * 2 powi e" using assms(2) by (intro mult_strict_right_mono) (simp_all only: of_int_less_iff zero_less_power_int zero_less_numeral)
  also have "\<dots> = 2 powi (e + 53)" by (simp add: power_int_add)
  finally have "2 powi ?E < (2 :: rat) powi (e + 53)" using f64_exponent_bounds(1) [of "\<bar>x\<bar>"] False by simp
  then have "?E < e + 53" by (rule powi_less_imp)
  then have m: "?m \<le> e" using assms(3) by simp
  have "x / 2 powi ?m = of_int n * 2 powi (e - ?m)" by (simp add: assms(1) power_int_diff)
  also have "\<dots> = of_int (n * 2 ^ nat (e - ?m))" using m by (simp add: power_int_def)
  finally have "x / 2 powi ?m = of_int (n * 2 ^ nat (e - ?m))" .
  then have "of_int (round_even (x / 2 powi ?m)) * 2 powi ?m = x" by (simp only: round_even_of_int) (simp add: field_simps)
  then show ?thesis using False by (simp add: f64_round_def Let_def)
qed (simp add: f64_round_def)

text \<open>Rounding stays between zero and a power of two.\<close>

lemma f64_round_bounds:
  assumes "0 \<le> x" "x \<le> 2 ^ k"
  shows "0 \<le> f64_round x" "f64_round x \<le> 2 ^ k"
proof -
  let ?m = "max (f64_exponent \<bar>x\<bar> - 52) (- 1074)"
  have "0 \<le> f64_round x \<and> f64_round x \<le> 2 ^ k"
  proof (cases "x = 0")
    case False
    then have x: "0 < x" using assms by simp
    have "2 powi f64_exponent x < (2 :: rat) powi (int k + 1)" 
    proof -
      have "2 powi f64_exponent x \<le> (2 ^ k :: rat)" using f64_exponent_bounds(1) [OF x] assms(2) by (rule order_trans)
      also have "\<dots> < 2 ^ k * 2" by simp
      also have "\<dots> = 2 powi (int k + 1)" by (simp add: power_int_add)
      finally show ?thesis .
    qed
    then have "f64_exponent x \<le> int k" using powi_less_imp by fastforce
    then have m: "?m \<le> int k" using x by simp
    have "2 ^ k / 2 powi ?m = (2 powi (int k - ?m) :: rat)" by (simp add: power_int_diff)
    also have "\<dots> = of_int (2 ^ nat (int k - ?m))" using m by (simp add: power_int_def)
    finally have top: "2 ^ k / 2 powi ?m = (of_int (2 ^ nat (int k - ?m)) :: rat)" .
    have "x / 2 powi ?m \<le> of_int (2 ^ nat (int k - ?m))" unfolding top [symmetric] using assms(2) by (simp add: divide_right_mono)
    then have "round_even (x / 2 powi ?m) \<le> 2 ^ nat (int k - ?m)" by (rule round_even_mono(1))
    then have "(of_int (round_even (x / 2 powi ?m)) :: rat) \<le> 2 ^ k / 2 powi ?m" unfolding top of_int_le_iff .
    then have "of_int (round_even (x / 2 powi ?m)) * 2 powi ?m \<le> (2 ^ k :: rat)" by (simp add: field_simps)
    moreover have "0 \<le> round_even (x / 2 powi ?m)" by (rule round_even_mono(2)) (use x in simp)
    then have "0 \<le> of_int (round_even (x / 2 powi ?m)) * (2 powi ?m :: rat)" by simp
    ultimately show ?thesis using False by (simp add: f64_round_def Let_def)
  qed (simp add: f64_round_def)
  then show "0 \<le> f64_round x" "f64_round x \<le> 2 ^ k" by simp_all
qed

end
