(* ===== verification/Distance_Compare.thy ===== *)
theory Distance_Compare
  imports Int_Sharing F64
begin

text \<open>
  Comparison of shared distances (\<open>ampc-actor-utils/src/protocol/fhd_ops.rs\<close> and
  \<open>nhd_ops.rs\<close>): fractional and normalized Hamming distances of pairs of code and mask dot
  products, against each other and against thresholds, and the lower of two distances.
\<close>

section \<open>Fractional Hamming distance\<close>

definition B_BITS :: u64 where
  "B_BITS = 16"

definition B :: u32 where
  "B = push_bit (unat B_BITS) 1"

text \<open>The record of refreshed dot products, interleaved code and mask.\<close>

record FusedFhdDotShares =
  fused_local :: "u16 RingElement list"
  fused_previous :: "u16 RingElement list"

definition fused_len :: "FusedFhdDotShares \<Rightarrow> nat" where
  "fused_len self = length (fused_local self) div 2"

definition fused_is_empty :: "FusedFhdDotShares \<Rightarrow> bool" where
  "fused_is_empty self \<longleftrightarrow> fused_local self = []"

definition index_opt :: "'a list \<Rightarrow> nat \<Rightarrow> 'a option" where
  "index_opt xs k = (if k < length xs then Some (xs ! k) else None)"

fun fused_select :: "FusedFhdDotShares \<Rightarrow> nat list \<Rightarrow> u16 share list \<Rightarrow> u16 share list
    \<Rightarrow> (string, u16 share list \<times> u16 share list) outcome" where
  "fused_select self [] codes masks = Ok (codes, masks)"
| "fused_select self (idx # indices) codes masks =
     (if \<not> idx < fused_len self then Err ''dot-product index out of bounds''
      else let offset = idx * 2 in
        case (index_opt (fused_local self) offset, index_opt (fused_previous self) offset,
              index_opt (fused_local self) (offset + 1), index_opt (fused_previous self) (offset + 1)) of
          (Some c, Some cp, Some m, Some mp) \<Rightarrow>
            fused_select self indices (codes @ [share_new c cp]) (masks @ [share_new m mp])
        | _ \<Rightarrow> Panic)"

text \<open>The assertion on the range is a panic.\<close>

definition translate_threshold_a :: "f64 \<Rightarrow> u32 option" where
  "translate_threshold_a t =
     (if 0 \<le> t \<and> t \<le> 1 then Some (f64_as_u32 (f64_mul (f64_sub 1 (f64_mul 2 t)) (of_int (uint B)))) else None)"

definition msb32 :: "'r prf_rng \<Rightarrow> u32 share list \<Rightarrow> ('r session, Bit share list) comp" where
  "msb32 G = extract_msb_batch (net_u32 G) (net_u64 G) u32_transpose_pack_u64"

definition msb48 :: "'r prf_rng \<Rightarrow> Ring48 share list \<Rightarrow> ('r session, Bit share list) comp" where
  "msb48 G = extract_msb_batch (net_ring48 G) (net_u64 G) ring48_transpose_pack_u64"

definition fhd_greater_than_threshold :: "'r prf_rng \<Rightarrow> u32 DistanceShare list \<Rightarrow> f64 \<Rightarrow> ('r session, Bit share list) comp" where
  "fhd_greater_than_threshold G distances threshold_ratio =
     cbind (ctry (or_panic (translate_threshold_a threshold_ratio))) (\<lambda>a.
       let diffs = map (\<lambda>d. let x = share_mul_val word_ring (mask_dot d) a; y = share_mul_val word_ring (code_dot d) B
             in share_sub word_ring y x) distances
       in msb32 G diffs)"

definition lift_fhd_mask_dots :: "'r prf_rng \<Rightarrow> u16 share list \<Rightarrow> ('r session, u32 share list) comp" where
  "lift_fhd_mask_dots G mask_dots = cbind (lift G (new_vec mask_dots)) (\<lambda>v. cret (vs_inner v))"

definition fhd_greater_than_threshold_pre_lifted_masks ::
  "'r prf_rng \<Rightarrow> u16 share list \<Rightarrow> u32 share list \<Rightarrow> f64 \<Rightarrow> ('r session, Bit share list) comp" where
  "fhd_greater_than_threshold_pre_lifted_masks G code_dots mask_dots threshold_ratio =
     (if length code_dots \<noteq> length mask_dots then cstop (Bail ''code and mask dot batches must have equal lengths'')
      else cbind (ctry (or_panic (translate_threshold_a threshold_ratio))) (\<lambda>a.
        cbind (ctry (or_panic (those (map (\<lambda>(code_dot, mask_dot).
            map_option (\<lambda>c. share_sub word_ring c (share_mul_val word_ring mask_dot a)) (mul_lift_2k_to_32 16 code_dot))
          (zip code_dots mask_dots))))) (\<lambda>diffs. msb32 G diffs)))"

type_synonym 'a DistancePair = "'a DistanceShare \<times> 'a DistanceShare"

definition cross_mul :: "'r prf_rng \<Rightarrow> u32 DistancePair list \<Rightarrow> ('r session, u32 share list) comp" where
  "cross_mul G distances = reshare_products (net_u32 G) (length distances) (\<lambda>i.
     let (d1, d2) = distances ! i
     in re_sub word_ring (share_mul word_ring (code_dot d2) (mask_dot d1)) (share_mul word_ring (code_dot d1) (mask_dot d2)))"

definition oblivious_cross_compare :: "'r prf_rng \<Rightarrow> u32 DistancePair list \<Rightarrow> ('r session, Bit share list) comp" where
  "oblivious_cross_compare G distances = cbind (cross_mul G distances) (\<lambda>diff. msb32 G diff)"

definition cross_compare :: "'r prf_rng \<Rightarrow> u32 DistancePair list \<Rightarrow> ('r session, bool list) comp" where
  "cross_compare G distances =
     cbind (oblivious_cross_compare G distances) (\<lambda>bits.
     cbind (open_bin bits) (\<lambda>opened_b. cret (map bit_convert opened_b)))"

definition oblivious_cross_compare_lifted :: "'r prf_rng \<Rightarrow> u32 DistancePair list \<Rightarrow> ('r session, u32 share list) comp" where
  "oblivious_cross_compare_lifted G distances =
     cbind (oblivious_cross_compare G distances) (\<lambda>bits.
     cbind (bit_inject (net_u32 G) (new_vec bits)) (\<lambda>v. cret (vs_inner v)))"

definition min_of_pair_batch :: "'r prf_rng \<Rightarrow> u32 DistancePair list \<Rightarrow> ('r session, u32 DistanceShare list) comp" where
  "min_of_pair_batch G distances =
     cbind (oblivious_cross_compare_lifted G distances) (\<lambda>bits. conditionally_select_distance (net_u32 G) distances bits)"

section \<open>Normalized Hamming distance\<close>

definition NHD_LINEAR_COEFF :: u64 where
  "NHD_LINEAR_COEFF = 10"

definition NHD_CORRECTION :: u64 where
  "NHD_CORRECTION = 73728"

text \<open>Two rounds: the products of the numerators, and the cross product.\<close>

definition nhd_cross_mul :: "'r prf_rng \<Rightarrow> Ring48 DistancePair list \<Rightarrow> ('r session, Ring48 share list) comp" where
  "nhd_cross_mul G distances =
     (let n = length distances in
      cbind (reshare_products (net_ring48 G) (2 * n) (\<lambda>k.
          let i = k div 2;
              d = (if k mod 2 = 0 then fst (distances ! i) else snd (distances ! i));
              linear = share_sub ring48_ring (mask_dot d) (share_mul_val ring48_ring (code_dot d) (Ring48 NHD_LINEAR_COEFF))
          in share_mul ring48_ring (mask_dot d) linear)) (\<lambda>products.
        let nmrs = map (\<lambda>i.
              let nmr1 = share_sub ring48_ring (products ! (2 * i)) (share_mul_val ring48_ring (code_dot (fst (distances ! i))) (Ring48 NHD_CORRECTION));
                  nmr2 = share_sub ring48_ring (products ! (2 * i + 1)) (share_mul_val ring48_ring (code_dot (snd (distances ! i))) (Ring48 NHD_CORRECTION))
              in (nmr1, nmr2)) [0..<n]
        in reshare_products (net_ring48 G) n (\<lambda>i.
             let (nmr1, nmr2) = nmrs ! i; (d1, d2) = distances ! i
             in re_sub ring48_ring (share_mul ring48_ring nmr1 (mask_dot d2)) (share_mul ring48_ring nmr2 (mask_dot d1)))))"

definition nhd_oblivious_cross_compare :: "'r prf_rng \<Rightarrow> Ring48 DistancePair list \<Rightarrow> ('r session, Bit share list) comp" where
  "nhd_oblivious_cross_compare G distances = cbind (nhd_cross_mul G distances) (\<lambda>diff. msb48 G diff)"

definition nhd_cross_compare :: "'r prf_rng \<Rightarrow> Ring48 DistancePair list \<Rightarrow> ('r session, bool list) comp" where
  "nhd_cross_compare G distances =
     cbind (nhd_oblivious_cross_compare G distances) (\<lambda>bits.
     cbind (open_bin bits) (\<lambda>opened_b. cret (map bit_convert opened_b)))"

definition nhd_oblivious_cross_compare_lifted :: "'r prf_rng \<Rightarrow> Ring48 DistancePair list \<Rightarrow> ('r session, Ring48 share list) comp" where
  "nhd_oblivious_cross_compare_lifted G distances =
     cbind (nhd_oblivious_cross_compare G distances) (\<lambda>bits.
     cbind (bit_inject (net_ring48 G) (new_vec bits)) (\<lambda>v. cret (vs_inner v)))"

definition nhd_min_of_pair_batch :: "'r prf_rng \<Rightarrow> Ring48 DistancePair list \<Rightarrow> ('r session, Ring48 DistanceShare list) comp" where
  "nhd_min_of_pair_batch G distances =
     cbind (nhd_oblivious_cross_compare_lifted G distances) (\<lambda>bits. conditionally_select_distance (net_ring48 G) distances bits)"

text \<open>A chunk of one share, the last of an odd number, has no second entry.\<close>

definition nhd_lift_distances :: "'r prf_rng \<Rightarrow> u16 share list \<Rightarrow> ('r session, Ring48 DistanceShare list) comp" where
  "nhd_lift_distances G pre_lift =
     cbind (batch_signed_lift_vec_ring48 G pre_lift) (\<lambda>lifted.
       ctry (or_panic (those (map (\<lambda>chunk.
         case chunk of c # m # _ \<Rightarrow> Some (distance_share_new c m) | _ \<Rightarrow> None) (chunks 2 lifted)))))"

definition nhd_threshold_a :: "f64 \<Rightarrow> Ring48" where
  "nhd_threshold_a t = ring48_sub (Ring48 774144) (Ring48 (f64_as_u64 (f64_mul (f64_mul 25 (of_int (uint B))) t)))"

definition nhd_greater_than_threshold :: "'r prf_rng \<Rightarrow> Ring48 DistanceShare list \<Rightarrow> f64 \<Rightarrow> ('r session, Bit share list) comp" where
  "nhd_greater_than_threshold G distances threshold_ratio =
     (let a = nhd_threshold_a threshold_ratio; n = length distances in
      cbind (reshare_products (net_ring48 G) n (\<lambda>i.
          let d = distances ! i;
              linear = share_sub ring48_ring (share_mul_val ring48_ring (code_dot d) (Ring48 50)) (share_mul_val ring48_ring (mask_dot d) (Ring48 5))
          in share_mul ring48_ring (mask_dot d) linear)) (\<lambda>products.
        let results = map (\<lambda>(i, product).
              share_add ring48_ring (share_sub ring48_ring product (share_mul_val ring48_ring (mask_dot (distances ! i)) a))
                (share_mul_val ring48_ring (code_dot (distances ! i)) (Ring48 368640))) (enumerate 0 products)
        in msb48 G results))"

text \<open>Signed 64 bit arithmetic.\<close>

definition nhd_plaintext_is_match :: "u16 \<Rightarrow> u16 \<Rightarrow> f64 \<Rightarrow> bool" where
  "nhd_plaintext_is_match hd16 md16 threshold_ratio =
     (let a_plain = 405504 - f64_as_i64 (f64_mul (f64_mul 25 (of_int (uint B))) threshold_ratio);
          h = ucast hd16 :: 64 word; m = ucast md16 :: 64 word
      in sint (m * (100 * h - 45 * m) + a_plain * m + 737280 * h) < 0)"

section \<open>Distances\<close>

text \<open>
  What is computed: the fractional Hamming distance of a code and a mask dot product, and the
  normalized one, as the tests of the two modules define them.
\<close>

definition fhd :: "int \<times> int \<Rightarrow> rat" where
  "fhd d = (of_int (snd d) - of_int (fst d)) / (2 * of_int (snd d))"

definition nhd :: "int \<times> int \<Rightarrow> rat" where
  "nhd d = 45 / 100 - (45 / 100 - fhd d) * (of_int (snd d) / 16384 + 45 / 100)"

text \<open>Dot products of sixteen bits, and those of binary vectors of at most \<open>2 ^ 14\<close> positions.\<close>

definition fhd_range :: "int \<times> int \<Rightarrow> bool" where
  "fhd_range d \<longleftrightarrow> - (2 ^ 15) \<le> fst d \<and> fst d < 2 ^ 15 \<and> 0 < snd d \<and> snd d < 2 ^ 15"

definition dot_range :: "int \<times> int \<Rightarrow> bool" where
  "dot_range d \<longleftrightarrow> \<bar>fst d\<bar> \<le> snd d \<and> 0 < snd d \<and> snd d \<le> 2 ^ 14"

definition nmr :: "int \<times> int \<Rightarrow> int" where
  "nmr d = snd d * (snd d - 10 * fst d) - 73728 * fst d"

lemma fhd_less_iff:
  assumes "0 < snd d1" "0 < snd d2"
  shows "fhd d1 < fhd d2 \<longleftrightarrow> fst d2 * snd d1 - fst d1 * snd d2 < 0"
proof -
  have "fhd d = 1 / 2 - of_int (fst d) / (2 * of_int (snd d))" if "0 < snd d" for d using that by (simp add: fhd_def field_simps)
  then have "fhd d1 < fhd d2 \<longleftrightarrow> (of_int (fst d2) / (2 * of_int (snd d2)) :: rat) < of_int (fst d1) / (2 * of_int (snd d1))" using assms by simp
  also have "\<dots> \<longleftrightarrow> (of_int (fst d2 * snd d1) :: rat) < of_int (fst d1 * snd d2)" using assms by (simp add: field_simps)
  finally show ?thesis by (simp only: of_int_less_iff) linarith
qed

lemma nhd_eq:
  assumes "0 < snd d"
  shows "nhd d = 4725 / 10000 + of_int (nmr d) / of_int (snd d) / 327680"
  using assms by (simp add: nhd_def fhd_def nmr_def field_simps)

lemma nhd_less_iff:
  assumes "0 < snd d1" "0 < snd d2"
  shows "nhd d1 < nhd d2 \<longleftrightarrow> nmr d1 * snd d2 - nmr d2 * snd d1 < 0"
proof -
  have "nhd d1 < nhd d2 \<longleftrightarrow> (of_int (nmr d1) / of_int (snd d1) :: rat) < of_int (nmr d2) / of_int (snd d2)"
    unfolding nhd_eq [OF assms(1)] nhd_eq [OF assms(2)] by (simp only: add_less_cancel_left divide_less_cancel) simp
  also have "\<dots> \<longleftrightarrow> (of_int (nmr d1 * snd d2) :: rat) < of_int (nmr d2 * snd d1)" using assms by (simp add: field_simps)
  finally show ?thesis by (simp only: of_int_less_iff) linarith
qed

text \<open>The cross products fit: 32 bits for sixteen bit dot products, 48 bits for \<open>2 ^ 14\<close> positions.\<close>

lemma abs_mult_le: "\<bar>x\<bar> \<le> a \<Longrightarrow> \<bar>y\<bar> \<le> b \<Longrightarrow> \<bar>x * y\<bar> \<le> a * (b :: int)"
  unfolding abs_mult by (intro mult_mono) auto

lemma fhd_cross_bounds:
  assumes "fhd_range d1" "fhd_range d2"
  shows "- (2 ^ 31) \<le> fst d2 * snd d1 - fst d1 * snd d2" "fst d2 * snd d1 - fst d1 * snd d2 < 2 ^ 31"
proof -
  have "\<bar>fst d2 * snd d1\<bar> \<le> 2 ^ 15 * (2 ^ 15 - 1)" "\<bar>fst d1 * snd d2\<bar> \<le> 2 ^ 15 * (2 ^ 15 - 1)"
    by (rule abs_mult_le; use assms in \<open>simp add: fhd_range_def abs_if\<close>)+
  then show "- (2 ^ 31) \<le> fst d2 * snd d1 - fst d1 * snd d2" "fst d2 * snd d1 - fst d1 * snd d2 < 2 ^ 31" by simp_all
qed

lemma nmr_bound: "dot_range d \<Longrightarrow> \<bar>nmr d\<bar> \<le> 31 * 2 ^ 27"
proof -
  assume d: "dot_range d"
  have "\<bar>snd d * (snd d - 10 * fst d)\<bar> \<le> 2 ^ 14 * (11 * 2 ^ 14)" by (rule abs_mult_le) (use d in \<open>auto simp: dot_range_def\<close>)
  then show ?thesis using d by (auto simp: nmr_def dot_range_def)
qed

lemma nhd_cross_bounds:
  assumes "dot_range d1" "dot_range d2"
  shows "- (2 ^ 47) \<le> nmr d1 * snd d2 - nmr d2 * snd d1" "nmr d1 * snd d2 - nmr d2 * snd d1 < 2 ^ 47"
proof -
  have "\<bar>nmr d1 * snd d2\<bar> \<le> 31 * 2 ^ 27 * 2 ^ 14" "\<bar>nmr d2 * snd d1\<bar> \<le> 31 * 2 ^ 27 * 2 ^ 14"
    by (rule abs_mult_le; use assms nmr_bound in \<open>simp add: dot_range_def\<close>)+
  then show "- (2 ^ 47) \<le> nmr d1 * snd d2 - nmr d2 * snd d1" "nmr d1 * snd d2 - nmr d2 * snd d1 < 2 ^ 47" by simp_all
qed

text \<open>The shares of one distance, and arithmetic on three shares.\<close>

context int_ring2k_laws
begin

lemma dist_opens:
  assumes "dist_int_sharing R wf val D vs" "k < length vs"
  shows "opens_int (code_dot (D ID0 ! k), code_dot (D ID1 ! k), code_dot (D ID2 ! k)) (fst (vs ! k))"
    "opens_int (mask_dot (D ID0 ! k), mask_dot (D ID1 ! k), mask_dot (D ID2 ! k)) (snd (vs ! k))"
  using int_sharing_nth [of "\<lambda>i. map code_dot (D i)" "map fst vs" k] int_sharing_nth [of "\<lambda>i. map mask_dot (D i)" "map snd vs" k]
    assms dist_int_sharing_length [OF assms(1)] by (simp_all add: dist_int_sharing_def col_def)

lemma dist_int_sharingI:
  assumes "\<And>i. length (D i) = length vs"
    and "\<And>k. k < length vs \<Longrightarrow> opens_int (code_dot (D ID0 ! k), code_dot (D ID1 ! k), code_dot (D ID2 ! k)) (fst (vs ! k))
      \<and> opens_int (mask_dot (D ID0 ! k), mask_dot (D ID1 ! k), mask_dot (D ID2 ! k)) (snd (vs ! k))"
  shows "dist_int_sharing R wf val D vs"
  unfolding dist_int_sharing_def using assms by (auto intro!: int_sharingI simp: col_def)

lemma opens_sub3:
  "opens_int (a, b, c) u \<Longrightarrow> opens_int (a', b', c') v \<Longrightarrow> opens_int (share_sub R a a', share_sub R b b', share_sub R c c') (u - v)"
  using opens_arith(2) [of "(a, b, c)" u "(a', b', c')" v, OF _ _ wf_zero] by simp

lemma opens_add3:
  "opens_int (a, b, c) u \<Longrightarrow> opens_int (a', b', c') v \<Longrightarrow> opens_int (share_add R a a', share_add R b b', share_add R c c') (u + v)"
  using opens_arith(1) [of "(a, b, c)" u "(a', b', c')" v, OF _ _ wf_zero] by simp

lemma opens_scale3:
  "opens_int (a, b, c) u \<Longrightarrow> wf x \<Longrightarrow> opens_int (share_mul_val R a x, share_mul_val R b x, share_mul_val R c x) (u * val x)"
  using opens_arith(3) [of "(a, b, c)" u "(a, b, c)" u x] by simp

lemma sums_product3:
  "opens_int (a, b, c) u \<Longrightarrow> opens_int (a', b', c') v \<Longrightarrow> sums_int (share_mul R a a', share_mul R b b', share_mul R c c') (u * v)"
  using sums_product [of "(a, b, c)" u "(a', b', c')" v] by simp

end

text \<open>The lower of two distances, from the comparison.\<close>

context network_int
begin

lemma computes_min:
  assumes compare: "computes addr sid (\<lambda>i. cmp (d i)) (\<lambda>b. bit_sharing b (map2 lt ls rs))"
    and l: "dist_int_sharing ring wf val (\<lambda>i. map fst (d i)) ls" and r: "dist_int_sharing ring wf val (\<lambda>i. map snd (d i)) rs"
    and len: "length ls = length rs" "2 * length rs < MAX_LEN"
  shows "computes addr sid (\<lambda>i. cbind (cbind (cmp (d i)) (\<lambda>bits. cbind (bit_inject N (new_vec bits)) (\<lambda>v. cret (vs_inner v))))
      (\<lambda>bits. conditionally_select_distance N (d i) bits))
    (\<lambda>x. dist_int_sharing ring wf val x (map2 (\<lambda>x y. if lt x y then x else y) ls rs))"
  unfolding cbind_assoc cbind_cret
proof (rule computes_cbind [OF compare], rule computes_cbind [OF computes_inject_int])
  show "length (map2 lt ls rs) < MAX_LEN" using len by simp
  fix c :: "PartyID \<Rightarrow> 'a VecShare" assume c: "sharing_add ring wf (\<lambda>i. shares (c i)) (map (bit_elem ring) (map2 lt ls rs))"
  have eq: "map (\<lambda>(b, l, r). if b then l else r) (zip (map2 lt ls rs) (zip ls rs)) = map2 (\<lambda>x y. if lt x y then x else y) ls rs"
    using len by (intro nth_equalityI) simp_all
  have "computes addr sid (\<lambda>i. conditionally_select_distance N (d i) (shares (c i)))
      (\<lambda>x. dist_int_sharing ring wf val x (map (\<lambda>(b, l, r). if b then l else r) (zip (map2 lt ls rs) (zip ls rs))))"
    by (rule computes_select_int [OF l r c]) (use len in simp_all)
  then show "computes addr sid (\<lambda>i. conditionally_select_distance N (d i) (vs_inner (c i)))
      (\<lambda>x. dist_int_sharing ring wf val x (map2 (\<lambda>x y. if lt x y then x else y) ls rs))"
    unfolding eq vs_inner_def .
qed

end

section \<open>Comparison of fractional distances\<close>

lemmas reshare32 = net32.computes_reshare_int [unfolded ni_ring_simps]
lemmas reshare48 = net48.computes_reshare_int [unfolded ni_ring_simps]

lemma sign32:
  assumes "int_sharing word_ring (\<lambda>_. True) uint x vs" "\<And>v. v \<in> set vs \<Longrightarrow> - (2 ^ 31) \<le> v \<and> v < 2 ^ 31" "length vs + 64 \<le> MAX_LEN"
  shows "computes addr sid (\<lambda>i. msb32 G (x i)) (\<lambda>r. bit_sharing r (map (\<lambda>v. v < 0) vs))"
  unfolding msb32_def by (rule tr32.computes_sign [unfolded ni_ring_simps]) (use assms in simp_all)

lemma sign48:
  assumes "int_sharing ring48_ring wf48 val48 x vs" "\<And>v. v \<in> set vs \<Longrightarrow> - (2 ^ 47) \<le> v \<and> v < 2 ^ 47" "length vs + 64 \<le> MAX_LEN"
  shows "computes addr sid (\<lambda>i. msb48 G (x i)) (\<lambda>r. bit_sharing r (map (\<lambda>v. v < 0) vs))"
  unfolding msb48_def by (rule tr48.computes_sign [unfolded ni_ring_simps]) (use assms in simp_all)

lemma computes_cross_compare:
  assumes l: "dist_int_sharing word_ring (\<lambda>_. True) uint (\<lambda>i. map fst (d i)) ls" and r: "dist_int_sharing word_ring (\<lambda>_. True) uint (\<lambda>i. map snd (d i)) rs"
    and len: "length ls = length rs" "length rs + 64 \<le> MAX_LEN" and ok: "\<And>x. x \<in> set ls \<union> set rs \<Longrightarrow> fhd_range x"
  shows "computes addr sid (\<lambda>i. oblivious_cross_compare G (d i)) (\<lambda>b. bit_sharing b (map2 (\<lambda>x y. fhd x < fhd y) ls rs))"
proof -
  define v where "v = (\<lambda>k. fst (rs ! k) * snd (ls ! k) - fst (ls ! k) * snd (rs ! k))"
  have ld: "length (d i) = length rs" for i using dist_int_sharing_length [OF r, of i] by simp
  have mul: "computes addr sid (\<lambda>i. cross_mul G (d i)) (\<lambda>x. int_sharing word_ring (\<lambda>_. True) uint x (map v [0..<length rs]))"
    unfolding cross_mul_def ld
  proof (rule reshare32)
    fix k assume k: "k < length rs"
    note opens = word.dist_opens [OF l, of k] word.dist_opens [OF r, of k]
    show "word.sums_int (let (d1, d2) = d ID0 ! k in re_sub word_ring (share_mul word_ring (code_dot d2) (mask_dot d1)) (share_mul word_ring (code_dot d1) (mask_dot d2)),
        let (d1, d2) = d ID1 ! k in re_sub word_ring (share_mul word_ring (code_dot d2) (mask_dot d1)) (share_mul word_ring (code_dot d1) (mask_dot d2)),
        let (d1, d2) = d ID2 ! k in re_sub word_ring (share_mul word_ring (code_dot d2) (mask_dot d1)) (share_mul word_ring (code_dot d1) (mask_dot d2))) (v k)"
      using word.sums_sub [OF word.sums_product3 [OF opens(3,2)] word.sums_product3 [OF opens(1,4)]] k len ld
      by (simp add: v_def split_def Let_def)
  qed (use len in simp)
  have range: "- (2 ^ 31) \<le> v k \<and> v k < 2 ^ 31" if "k < length rs" for k
    unfolding v_def using fhd_cross_bounds [of "ls ! k" "rs ! k"] ok that len by auto
  have "fhd (ls ! k) < fhd (rs ! k) \<longleftrightarrow> v k < 0" if "k < length rs" for k
    unfolding v_def by (rule fhd_less_iff) (use ok [of "ls ! k"] ok [of "rs ! k"] that len in \<open>simp_all add: fhd_range_def\<close>)
  then have eq: "map (\<lambda>z. z < 0) (map v [0..<length rs]) = map2 (\<lambda>x y. fhd x < fhd y) ls rs"
    using len by (intro nth_equalityI) simp_all
  show ?thesis
    unfolding oblivious_cross_compare_def eq [symmetric]
  proof (rule computes_cbind [OF mul])
    fix x :: "PartyID \<Rightarrow> u32 share list" assume x: "int_sharing word_ring (\<lambda>_. True) uint x (map v [0..<length rs])"
    show "computes addr sid (\<lambda>i. msb32 G (x i)) (\<lambda>b. bit_sharing b (map (\<lambda>z. z < 0) (map v [0..<length rs])))"
      by (rule sign32 [OF x]) (use range len in auto)
  qed
qed


lemma computes_min_of_pair:
  assumes "dist_int_sharing word_ring (\<lambda>_. True) uint (\<lambda>i. map fst (d i)) ls" "dist_int_sharing word_ring (\<lambda>_. True) uint (\<lambda>i. map snd (d i)) rs"
    "length ls = length rs" "2 * length rs + 64 \<le> MAX_LEN" "\<And>x. x \<in> set ls \<union> set rs \<Longrightarrow> fhd_range x"
  shows "computes addr sid (\<lambda>i. min_of_pair_batch G (d i)) (\<lambda>x. dist_int_sharing word_ring (\<lambda>_. True) uint x (map2 (\<lambda>x y. if fhd x < fhd y then x else y) ls rs))"
  unfolding min_of_pair_batch_def oblivious_cross_compare_lifted_def
  by (rule net32.computes_min [unfolded ni_ring_simps, OF computes_cross_compare]) (use assms in auto)

section \<open>Comparison of normalized distances\<close>

lemma nhd_constants:
  "wf48 (Ring48 NHD_LINEAR_COEFF)" "val48 (Ring48 NHD_LINEAR_COEFF) = 10" "wf48 (Ring48 NHD_CORRECTION)" "val48 (Ring48 NHD_CORRECTION) = 73728"
  "wf48 (Ring48 50)" "val48 (Ring48 50) = 50" "wf48 (Ring48 5)" "val48 (Ring48 5) = 5" "wf48 (Ring48 368640)" "val48 (Ring48 368640) = 368640"
  by (simp_all add: NHD_LINEAR_COEFF_def NHD_CORRECTION_def MASK_48_def)

lemma computes_nhd_cross_mul:
  assumes l: "dist_int_sharing ring48_ring wf48 val48 (\<lambda>i. map fst (d i)) ls" and r: "dist_int_sharing ring48_ring wf48 val48 (\<lambda>i. map snd (d i)) rs"
    and len: "length ls = length rs" "2 * length rs + 64 \<le> MAX_LEN"
  shows "computes addr sid (\<lambda>i. nhd_cross_mul G (d i))
    (\<lambda>x. int_sharing ring48_ring wf48 val48 x (map (\<lambda>k. nmr (ls ! k) * snd (rs ! k) - nmr (rs ! k) * snd (ls ! k)) [0..<length rs]))"
proof -
  let ?n = "length rs"
  define w where "w = (\<lambda>k. let x = (if k mod 2 = 0 then ls ! (k div 2) else rs ! (k div 2)) in snd x * (snd x - fst x * 10))"
  define e1 where "e1 = (\<lambda>i k. let d = (if k mod 2 = 0 then fst (d i ! (k div 2)) else snd (d i ! (k div 2)))
    in share_mul ring48_ring (mask_dot d) (share_sub ring48_ring (mask_dot d) (share_mul_val ring48_ring (code_dot d) (Ring48 NHD_LINEAR_COEFF))))"
  define n1 where "n1 = (\<lambda>i p k. share_sub ring48_ring (p ! (2 * k)) (share_mul_val ring48_ring (code_dot (fst (d i ! k))) (Ring48 NHD_CORRECTION)))"
  define n2 where "n2 = (\<lambda>i p k. share_sub ring48_ring (p ! (2 * k + 1)) (share_mul_val ring48_ring (code_dot (snd (d i ! k))) (Ring48 NHD_CORRECTION)))"
  define e2 where "e2 = (\<lambda>i p k. case map (\<lambda>k. (n1 i p k, n2 i p k)) [0..<?n] ! k of (nmr1, nmr2) \<Rightarrow> case d i ! k of (d1, d2) \<Rightarrow>
    re_sub ring48_ring (share_mul ring48_ring nmr1 (mask_dot d2)) (share_mul ring48_ring nmr2 (mask_dot d1)))"
  have ld: "length (d i) = ?n" for i using dist_int_sharing_length [OF r, of i] by simp
  have body: "nhd_cross_mul G (d i) = cbind (reshare_products (net_ring48 G) (2 * ?n) (e1 i)) (\<lambda>p. reshare_products (net_ring48 G) ?n (e2 i p))" for i
    unfolding nhd_cross_mul_def Let_def ld e1_def e2_def n1_def n2_def by (rule refl)
  have opens: "ring48.opens_int (code_dot (fst (d ID0 ! k)), code_dot (fst (d ID1 ! k)), code_dot (fst (d ID2 ! k))) (fst (ls ! k))"
    "ring48.opens_int (mask_dot (fst (d ID0 ! k)), mask_dot (fst (d ID1 ! k)), mask_dot (fst (d ID2 ! k))) (snd (ls ! k))"
    "ring48.opens_int (code_dot (snd (d ID0 ! k)), code_dot (snd (d ID1 ! k)), code_dot (snd (d ID2 ! k))) (fst (rs ! k))"
    "ring48.opens_int (mask_dot (snd (d ID0 ! k)), mask_dot (snd (d ID1 ! k)), mask_dot (snd (d ID2 ! k))) (snd (rs ! k))" if "k < ?n" for k
    using ring48.dist_opens [OF l, of k] ring48.dist_opens [OF r, of k] that len ld by simp_all
  have round1: "computes addr sid (\<lambda>i. reshare_products (net_ring48 G) (2 * ?n) (e1 i)) (\<lambda>p. int_sharing ring48_ring wf48 val48 p (map w [0..<2 * ?n]))"
  proof (rule reshare48)
    fix k assume "k < 2 * ?n"
    then have k2: "k div 2 < ?n" by simp
    note ring48.sums_product3 [OF opens(2) [OF k2] ring48.opens_sub3 [OF opens(2) [OF k2] ring48.opens_scale3 [OF opens(1) [OF k2] nhd_constants(1)]], unfolded nhd_constants]
      ring48.sums_product3 [OF opens(4) [OF k2] ring48.opens_sub3 [OF opens(4) [OF k2] ring48.opens_scale3 [OF opens(3) [OF k2] nhd_constants(1)]], unfolded nhd_constants]
    then show "ring48.sums_int (e1 ID0 k, e1 ID1 k, e1 ID2 k) (w k)" unfolding e1_def w_def Let_def by (cases "k mod 2 = 0") (simp_all only: simp_thms if_True if_False)
  qed (use len in simp)
  show ?thesis
    unfolding body
  proof (rule computes_cbind [OF round1], rule reshare48)
    show "?n < MAX_LEN" using len by simp
    fix p :: "PartyID \<Rightarrow> Ring48 share list" and k assume p: "int_sharing ring48_ring wf48 val48 p (map w [0..<2 * ?n])" and k: "k < ?n"
    have pk: "ring48.opens_int (p ID0 ! m, p ID1 ! m, p ID2 ! m) (w m)" if "m < 2 * ?n" for m
      using ring48.int_sharing_nth [OF p, of m] that by (simp add: col_def)
    have nm: "w (2 * k) - fst (ls ! k) * 73728 = nmr (ls ! k)" "w (2 * k + 1) - fst (rs ! k) * 73728 = nmr (rs ! k)"
      by (simp_all add: w_def Let_def nmr_def)
    have k2: "2 * k < 2 * ?n" "2 * k + 1 < 2 * ?n" using k by simp_all
    have "ring48.opens_int (n1 ID0 (p ID0) k, n1 ID1 (p ID1) k, n1 ID2 (p ID2) k) (nmr (ls ! k))"
      using ring48.opens_sub3 [OF pk [OF k2(1)] ring48.opens_scale3 [OF opens(1) [OF k] nhd_constants(3)]] unfolding nhd_constants nm n1_def .
    moreover have "ring48.opens_int (n2 ID0 (p ID0) k, n2 ID1 (p ID1) k, n2 ID2 (p ID2) k) (nmr (rs ! k))"
      using ring48.opens_sub3 [OF pk [OF k2(2)] ring48.opens_scale3 [OF opens(3) [OF k] nhd_constants(3)]] unfolding nhd_constants nm n2_def .
    ultimately have "ring48.sums_int (re_sub ring48_ring (share_mul ring48_ring (n1 ID0 (p ID0) k) (mask_dot (snd (d ID0 ! k)))) (share_mul ring48_ring (n2 ID0 (p ID0) k) (mask_dot (fst (d ID0 ! k)))),
      re_sub ring48_ring (share_mul ring48_ring (n1 ID1 (p ID1) k) (mask_dot (snd (d ID1 ! k)))) (share_mul ring48_ring (n2 ID1 (p ID1) k) (mask_dot (fst (d ID1 ! k)))),
      re_sub ring48_ring (share_mul ring48_ring (n1 ID2 (p ID2) k) (mask_dot (snd (d ID2 ! k)))) (share_mul ring48_ring (n2 ID2 (p ID2) k) (mask_dot (fst (d ID2 ! k)))))
      (nmr (ls ! k) * snd (rs ! k) - nmr (rs ! k) * snd (ls ! k))"
      by (intro ring48.sums_sub ring48.sums_product3 opens k)
    moreover have "e2 i p k = re_sub ring48_ring (share_mul ring48_ring (n1 i p k) (mask_dot (snd (d i ! k)))) (share_mul ring48_ring (n2 i p k) (mask_dot (fst (d i ! k))))" for i p
      using k by (simp add: e2_def split_def)
    ultimately show "ring48.sums_int (e2 ID0 (p ID0) k, e2 ID1 (p ID1) k, e2 ID2 (p ID2) k) (nmr (ls ! k) * snd (rs ! k) - nmr (rs ! k) * snd (ls ! k))"
      by (simp only:)
  qed
qed

lemma computes_nhd_cross_compare:
  assumes l: "dist_int_sharing ring48_ring wf48 val48 (\<lambda>i. map fst (d i)) ls" and r: "dist_int_sharing ring48_ring wf48 val48 (\<lambda>i. map snd (d i)) rs"
    and len: "length ls = length rs" "2 * length rs + 64 \<le> MAX_LEN" and ok: "\<And>x. x \<in> set ls \<union> set rs \<Longrightarrow> dot_range x"
  shows "computes addr sid (\<lambda>i. nhd_oblivious_cross_compare G (d i)) (\<lambda>b. bit_sharing b (map2 (\<lambda>x y. nhd x < nhd y) ls rs))"
proof -
  define v where "v = (\<lambda>k. nmr (ls ! k) * snd (rs ! k) - nmr (rs ! k) * snd (ls ! k))"
  have range: "- (2 ^ 47) \<le> v k \<and> v k < 2 ^ 47" if "k < length rs" for k
    unfolding v_def using nhd_cross_bounds [of "ls ! k" "rs ! k"] ok that len by auto
  have "nhd (ls ! k) < nhd (rs ! k) \<longleftrightarrow> v k < 0" if "k < length rs" for k
    unfolding v_def by (rule nhd_less_iff) (use ok [of "ls ! k"] ok [of "rs ! k"] that len in \<open>simp_all add: dot_range_def\<close>)
  then have eq: "map (\<lambda>z. z < 0) (map v [0..<length rs]) = map2 (\<lambda>x y. nhd x < nhd y) ls rs"
    using len by (intro nth_equalityI) simp_all
  show ?thesis
    unfolding nhd_oblivious_cross_compare_def eq [symmetric]
  proof (rule computes_cbind [OF computes_nhd_cross_mul [OF l r len, folded v_def]])
    fix x :: "PartyID \<Rightarrow> Ring48 share list" assume x: "int_sharing ring48_ring wf48 val48 x (map v [0..<length rs])"
    show "computes addr sid (\<lambda>i. msb48 G (x i)) (\<lambda>b. bit_sharing b (map (\<lambda>z. z < 0) (map v [0..<length rs])))"
      by (rule sign48 [OF x]) (use range len in auto)
  qed
qed

lemma computes_nhd_min_of_pair:
  assumes "dist_int_sharing ring48_ring wf48 val48 (\<lambda>i. map fst (d i)) ls" "dist_int_sharing ring48_ring wf48 val48 (\<lambda>i. map snd (d i)) rs"
    "length ls = length rs" "2 * length rs + 64 \<le> MAX_LEN" "\<And>x. x \<in> set ls \<union> set rs \<Longrightarrow> dot_range x"
  shows "computes addr sid (\<lambda>i. nhd_min_of_pair_batch G (d i)) (\<lambda>x. dist_int_sharing ring48_ring wf48 val48 x (map2 (\<lambda>x y. if nhd x < nhd y then x else y) ls rs))"
  unfolding nhd_min_of_pair_batch_def nhd_oblivious_cross_compare_lifted_def
  by (rule net48.computes_min [unfolded ni_ring_simps, OF computes_nhd_cross_compare]) (use assms in auto)

section \<open>Thresholds\<close>

text \<open>The factor of a threshold is at most \<open>2 ^ 16\<close>, and exact for thresholds of sixteen fractional bits.\<close>

lemma B_eq: "B = 65536"
  by (simp add: B_def B_BITS_def)

lemma f64_round_nonpos:
  assumes "x \<le> 0"
  shows "f64_round x \<le> 0"
proof (cases "x = 0")
  case False
  let ?q = "2 powi max (f64_exponent \<bar>x\<bar> - 52) (- 1074) :: rat"
  have "round_even (x / ?q) \<le> 0" by (rule round_even_mono(1)) (use assms in \<open>simp add: divide_nonpos_pos\<close>)
  then have "(of_int (round_even (x / ?q)) :: rat) * ?q \<le> 0" by (simp add: mult_nonpos_nonneg)
  then show ?thesis using False by (simp add: f64_round_def Let_def)
qed (simp add: f64_round_def)

lemma threshold_bound:
  assumes "translate_threshold_a t = Some a"
  shows "uint a \<le> 2 ^ 16"
proof -
  let ?x = "f64_sub 1 (f64_mul 2 t)" and ?y = "f64_mul (f64_sub 1 (f64_mul 2 t)) 65536"
  have t: "0 \<le> t" "t \<le> 1" "a = f64_as_u32 ?y" using assms by (auto simp: translate_threshold_a_def B_eq split: if_splits)
  have "0 \<le> f64_mul 2 t" unfolding f64_mul_def by (rule f64_round_bounds(1) [where k = 1]) (use t in auto)
  have "?y \<le> 2 ^ 16"
  proof (cases "0 \<le> 1 - f64_mul 2 t")
    case True
    have "0 \<le> ?x" "?x \<le> 2 ^ 0"
      unfolding f64_sub_def by (rule f64_round_bounds [where k = 0]; use True \<open>0 \<le> f64_mul 2 t\<close> in simp)+
    then show ?thesis unfolding f64_mul_def [of ?x] by (intro f64_round_bounds) simp_all
  next
    case False
    have "?x \<le> 0" unfolding f64_sub_def by (rule f64_round_nonpos) (use False in simp)
    then have "?y \<le> 0" unfolding f64_mul_def [of ?x] by (intro f64_round_nonpos) simp
    then show ?thesis by simp
  qed
  then have "f64_trunc ?y \<le> 2 ^ 16" unfolding f64_trunc_def by (simp add: floor_le_iff ceiling_le_iff)
  then have b: "max 0 (min (2 ^ 32 - 1) (f64_trunc ?y)) \<le> 2 ^ 16" by simp
  then have "uint (of_int (max 0 (min (2 ^ 32 - 1) (f64_trunc ?y))) :: u32) = max 0 (min (2 ^ 32 - 1) (f64_trunc ?y))"
    by (simp add: uint_word_of_int)
  with b show ?thesis unfolding t(3) f64_as_u32_def by simp
qed

lemma threshold_exact:
  assumes "0 \<le> k" "k \<le> 2 ^ 15"
  shows "translate_threshold_a (of_int k / 2 ^ 16) = Some (of_int (2 ^ 16 - 2 * k))"
proof -
  let ?t = "of_int k / 2 ^ 16 :: rat"
  have p: "(2 :: rat) powi (- 15) = 1 / 2 ^ 15" "(2 :: rat) powi 0 = 1" by (simp_all add: power_int_minus field_simps)
  have m: "f64_mul 2 ?t = of_int k / 2 ^ 15" unfolding f64_mul_def
    by (subst f64_round_exact [where n = k and e = "- 15"]) (use assms p in auto)
  have s: "f64_sub 1 (of_int k / 2 ^ 15) = of_int (2 ^ 15 - k) / 2 ^ 15" unfolding f64_sub_def
    by (subst f64_round_exact [where n = "2 ^ 15 - k" and e = "- 15"]) (use assms p in \<open>auto simp: field_simps\<close>)
  have y: "f64_mul (of_int (2 ^ 15 - k) / 2 ^ 15) 65536 = of_int (2 * (2 ^ 15 - k))" unfolding f64_mul_def
    by (subst f64_round_exact [where n = "2 * (2 ^ 15 - k)" and e = 0]) (use assms in \<open>auto simp: field_simps\<close>)
  have "?t \<le> 1" using assms(2) by (simp add: divide_le_eq)
  moreover have "f64_as_u32 (of_int (2 * (2 ^ 15 - k))) = of_int (2 ^ 16 - 2 * k)"
  proof -
    have "f64_trunc (of_int (2 * (2 ^ 15 - k))) = 2 * (2 ^ 15 - k)" unfolding f64_trunc_def by (simp only: floor_of_int ceiling_of_int if_cancel)
    then show ?thesis using assms by (simp add: f64_as_u32_def del: of_int_mult of_int_diff)
  qed
  moreover have "0 \<le> ?t" using assms(1) by simp
  moreover have "of_int (uint (65536 :: u32)) = (65536 :: rat)" by simp
  ultimately show ?thesis unfolding translate_threshold_a_def B_eq m s y by (simp only: simp_thms if_True y)
qed

text \<open>A threshold factor \<open>a\<close> stands for the distance \<open>(1 - a / 2 ^ 16) / 2\<close>.\<close>

definition fhd_limit :: "u32 \<Rightarrow> rat" where
  "fhd_limit a = (1 - of_int (uint a) / 2 ^ 16) / 2"

lemma fhd_limit_iff:
  assumes "0 < snd x"
  shows "fhd_limit a < fhd x \<longleftrightarrow> fst x * 2 ^ 16 - snd x * uint a < 0" "fhd x < fhd_limit a \<longleftrightarrow> snd x * uint a - fst x * 2 ^ 16 < 0"
proof -
  have s: "0 < (of_int (snd x) :: rat)" using assms by simp
  have "fhd_limit a < fhd x \<longleftrightarrow> (of_int (fst x * 2 ^ 16) :: rat) < of_int (snd x * uint a)"
    using s by (simp add: fhd_limit_def fhd_def field_simps)
  then show "fhd_limit a < fhd x \<longleftrightarrow> fst x * 2 ^ 16 - snd x * uint a < 0" by (simp only: of_int_less_iff) linarith
  have "fhd x < fhd_limit a \<longleftrightarrow> (of_int (snd x * uint a) :: rat) < of_int (fst x * 2 ^ 16)"
    using s by (simp add: fhd_limit_def fhd_def field_simps)
  then show "fhd x < fhd_limit a \<longleftrightarrow> snd x * uint a - fst x * 2 ^ 16 < 0" by (simp only: of_int_less_iff) linarith
qed

lemma threshold_range:
  assumes "dot_range x" "uint a \<le> 2 ^ 16"
  shows "- (2 ^ 31) \<le> fst x * 2 ^ 16 - snd x * uint a" "fst x * 2 ^ 16 - snd x * uint a < 2 ^ 31"
proof -
  define p where "p = snd x * uint a"
  have "0 \<le> p" unfolding p_def using assms by (simp add: dot_range_def)
  moreover have "p \<le> 2 ^ 14 * 2 ^ 16" unfolding p_def by (rule mult_mono) (use assms in \<open>simp_all add: dot_range_def\<close>)
  moreover have "- (2 ^ 14) \<le> fst x" "fst x \<le> 2 ^ 14" using assms(1) by (auto simp: dot_range_def)
  ultimately show "- (2 ^ 31) \<le> fst x * 2 ^ 16 - snd x * uint a" "fst x * 2 ^ 16 - snd x * uint a < 2 ^ 31"
    unfolding p_def [symmetric] by simp_all
qed

lemma computes_fhd_threshold:
  assumes d: "dist_int_sharing word_ring (\<lambda>_. True) uint d xs" and len: "length xs + 64 \<le> MAX_LEN"
    and ok: "\<And>x. x \<in> set xs \<Longrightarrow> dot_range x" and a: "translate_threshold_a t = Some a"
  shows "computes addr sid (\<lambda>i. fhd_greater_than_threshold G (d i) t) (\<lambda>b. bit_sharing b (map (\<lambda>x. fhd_limit a < fhd x) xs))"
proof -
  let ?diff = "\<lambda>d. share_sub word_ring (share_mul_val word_ring (code_dot d) B) (share_mul_val word_ring (mask_dot d) a)"
  have ld: "length (d i) = length xs" for i using dist_int_sharing_length [OF d] .
  have B: "uint B = 2 ^ 16" by (simp add: B_eq)
  have diffs: "int_sharing word_ring (\<lambda>_. True) uint (\<lambda>i. map ?diff (d i)) (map (\<lambda>x. fst x * 2 ^ 16 - snd x * uint a) xs)"
  proof (rule word.int_sharingI)
    fix k assume "k < length (map (\<lambda>x. fst x * 2 ^ 16 - snd x * uint a) xs)"
    then have k: "k < length xs" by simp
    note word.opens_sub3 [OF word.opens_scale3 [OF word.dist_opens(1) [OF d k] TrueI, of B] word.opens_scale3 [OF word.dist_opens(2) [OF d k] TrueI, of a]]
    then show "word.opens_int (col (\<lambda>i. map ?diff (d i)) k) (map (\<lambda>x. fst x * 2 ^ 16 - snd x * uint a) xs ! k)"
      using k ld unfolding B by (simp add: col_def)
  qed (simp add: ld)
  have eq: "map (\<lambda>z. z < 0) (map (\<lambda>x. fst x * 2 ^ 16 - snd x * uint a) xs) = map (\<lambda>x. fhd_limit a < fhd x) xs"
    using ok by (simp add: fhd_limit_iff dot_range_def)
  show ?thesis
    unfolding fhd_greater_than_threshold_def a or_panic_def option.case ctry_simps cbind_cret Let_def eq [symmetric]
    by (rule sign32 [OF diffs]) (use threshold_range [OF ok threshold_bound [OF a]] len in auto)
qed

text \<open>With lifted masks only, the code dot product is lifted by its multiplication.\<close>

lemma computes_fhd_threshold_pre_lifted:
  assumes c: "int_sharing word_ring (\<lambda>_. True) uint c (map fst xs)" and m: "int_sharing word_ring (\<lambda>_. True) uint m (map snd xs)"
    and len: "length xs + 64 \<le> MAX_LEN" and ok: "\<And>x. x \<in> set xs \<Longrightarrow> dot_range x" and a: "translate_threshold_a t = Some a"
  shows "computes addr sid (\<lambda>i. fhd_greater_than_threshold_pre_lifted_masks G (c i) (m i) t) (\<lambda>b. bit_sharing b (map (\<lambda>x. fhd_limit a < fhd x) xs))"
proof -
  let ?up = "\<lambda>v :: u16. push_bit 16 (ucast v) :: u32"
  have lc: "length (c i) = length xs" "length (m i) = length xs" for i using int_sharing_length [OF c] int_sharing_length [OF m] by simp_all
  obtain cs where cs: "sharing_add word_ring (\<lambda>_. True) c cs" "map (\<lambda>e. uint (convert e)) cs = map (\<lambda>v. v mod 2 ^ 16) (map fst xs)"
    using c by (auto simp: int_sharing_def)
  have lcs: "length cs = length xs" using cs(2) by (metis length_map)
  have csk: "uint (convert (cs ! k)) = fst (xs ! k) mod 2 ^ 16" if "k < length xs" for k
    using arg_cong [OF cs(2), of "\<lambda>l. l ! k"] that lcs by simp
  have up: "uint (?up v) = (uint v * 2 ^ 16) mod 2 ^ 32" for v
    unfolding unsigned_push_bit_eq by (simp add: uint_ucast_up take_bit_eq_mod push_bit_eq_mult)
  have code: "int_sharing word_ring (\<lambda>_. True) uint (\<lambda>i. map (lifted ?up) (c i)) (map (\<lambda>x. fst x * 2 ^ 16) xs)"
  proof -
    have "sharing_add word_ring (\<lambda>_. True) (\<lambda>i. map (lifted ?up) (c i)) (map (\<lambda>e. RingElement (?up (convert e))) cs)"
      by (rule word.lifted_sharing [OF cs(1), where K = 16]) (simp_all add: up)
    moreover have "(fst (xs ! k) mod 2 ^ 16 * 2 ^ 16) mod 2 ^ 32 = (fst (xs ! k) * 2 ^ 16) mod 2 ^ 32" for k
      using mult_mod_left [of "fst (xs ! k)" "2 ^ 16" "2 ^ 16"] by simp
    then have "map (\<lambda>e. uint (convert e)) (map (\<lambda>e. RingElement (?up (convert e))) cs) = map (\<lambda>v. v mod 2 ^ 32) (map (\<lambda>x. fst x * 2 ^ 16) xs)"
      using lcs csk up by (intro nth_equalityI) simp_all
    ultimately show ?thesis unfolding int_sharing_def by auto
  qed
  have mask: "int_sharing word_ring (\<lambda>_. True) uint (\<lambda>i. map (\<lambda>s. share_mul_val word_ring s a) (m i)) (map (\<lambda>x. snd x * uint a) xs)"
    using word.int_sharing_scaled [OF m TrueI, of a] by (simp add: comp_def)
  let ?diffs = "\<lambda>i. map2 (share_sub word_ring) (map (lifted ?up) (c i)) (map (\<lambda>s. share_mul_val word_ring s a) (m i))"
  have diffs: "int_sharing word_ring (\<lambda>_. True) uint ?diffs (map (\<lambda>x. fst x * 2 ^ 16 - snd x * uint a) xs)"
    using word.int_sharing_zip(1) [OF code mask] by (simp add: zip_map1 zip_map2 comp_def split_def zip_same_conv_map)
  have body: "those (map (\<lambda>(code_dot, mask_dot). map_option (\<lambda>c. share_sub word_ring c (share_mul_val word_ring mask_dot a)) (mul_lift_2k_to_32 16 code_dot)) (zip (c i) (m i))) = Some (?diffs i)" for i
  proof -
    have "mul_lift_2k_to_32 16 s = Some (lifted ?up s)" for s by (simp add: mul_lift_2k_to_32_def lift_share_def lifted_def)
    then have "those (map (\<lambda>(code_dot, mask_dot). map_option (\<lambda>c. share_sub word_ring c (share_mul_val word_ring mask_dot a)) (mul_lift_2k_to_32 16 code_dot)) (zip (c i) (m i)))
        = Some (map (\<lambda>(c, m). share_sub word_ring (lifted ?up c) (share_mul_val word_ring m a)) (zip (c i) (m i)))"
      by (intro those_map_Some) auto
    then show ?thesis by (simp add: zip_map1 zip_map2 comp_def split_def)
  qed
  have eq: "map (\<lambda>z. z < 0) (map (\<lambda>x. fst x * 2 ^ 16 - snd x * uint a) xs) = map (\<lambda>x. fhd_limit a < fhd x) xs"
    using ok by (simp add: fhd_limit_iff dot_range_def)
  have nl: "\<not> length (c i) \<noteq> length (m i)" for i by (simp add: lc)
  show ?thesis
    unfolding fhd_greater_than_threshold_pre_lifted_masks_def if_not_P [OF nl] a body or_panic_def option.case ctry_simps cbind_cret eq [symmetric]
    by (rule sign32 [OF diffs]) (use threshold_range [OF ok threshold_bound [OF a]] len in auto)
qed

text \<open>The normalized distance.\<close>

definition nhd_limit :: "f64 \<Rightarrow> rat" where
  "nhd_limit t = of_int (f64_trunc (f64_mul 1638400 t)) / 1638400"

lemma nhd_factor:
  assumes "0 \<le> t" "t \<le> 1"
  shows "0 \<le> f64_trunc (f64_mul 1638400 t)" "f64_trunc (f64_mul 1638400 t) \<le> 2 ^ 21" "f64_mul 25 (of_int (uint B)) = 1638400"
proof -
  have "0 \<le> f64_mul 1638400 t" "f64_mul 1638400 t \<le> 2 ^ 21"
    unfolding f64_mul_def by (rule f64_round_bounds [where k = 21]; use assms in simp)+
  then show "0 \<le> f64_trunc (f64_mul 1638400 t)" "f64_trunc (f64_mul 1638400 t) \<le> 2 ^ 21" by (simp_all add: f64_trunc_def floor_le_iff)
  have "f64_mul 25 65536 = 1638400" unfolding f64_mul_def by (rule f64_round_exact [where n = 1638400 and e = 0, THEN trans]) simp_all
  then show "f64_mul 25 (of_int (uint B)) = 1638400" by (simp add: B_eq)
qed

lemma nhd_threshold_a:
  assumes "0 \<le> t" "t \<le> 1"
  shows "wf48 (nhd_threshold_a t)" "val48 (nhd_threshold_a t) = (774144 - f64_trunc (f64_mul 1638400 t)) mod 2 ^ 48"
proof -
  let ?T = "f64_trunc (f64_mul 1638400 t)"
  note T = nhd_factor [OF assms]
  have u: "uint (f64_as_u64 (f64_mul 1638400 t)) = ?T" unfolding f64_as_u64_def using T(1,2) by (simp add: uint_word_of_int)
  have w: "wf48 (Ring48 774144)" "wf48 (Ring48 (f64_as_u64 (f64_mul 1638400 t)))"
  proof -
    show "wf48 (Ring48 774144)" by (simp add: MASK_48_def)
    have "uint (f64_as_u64 (f64_mul 1638400 t)) < 2 ^ 48" unfolding u using T(2) by simp
    then show "wf48 (Ring48 (f64_as_u64 (f64_mul 1638400 t)))"
      unfolding wf48_iff word_uint_eq_iff uint_take_bit_48 by simp
  qed
  have eq: "nhd_threshold_a t = wrapping_sub ring48_ring (Ring48 774144) (Ring48 (f64_as_u64 (f64_mul 1638400 t)))"
    unfolding nhd_threshold_a_def T(3) by (simp add: ring48_ring_def)
  show "wf48 (nhd_threshold_a t)" unfolding eq by (rule ring48.wf_sub [OF w])
  show "val48 (nhd_threshold_a t) = (774144 - ?T) mod 2 ^ 48" unfolding eq ring48.val_sub [OF w] by (simp add: u)
qed

definition nhd_excess :: "int \<Rightarrow> int \<times> int \<Rightarrow> int" where
  "nhd_excess T x = snd x * (fst x * 50 - snd x * 5) - snd x * (774144 - T) + fst x * 368640"

lemma nhd_excess_iff:
  assumes "0 < snd x"
  shows "nhd_excess T x < 0 \<longleftrightarrow> of_int T / 1638400 < nhd x" "0 < nhd_excess T x \<longleftrightarrow> nhd x < of_int T / 1638400"
proof -
  have s: "0 < (of_int (snd x) :: rat)" using assms by simp
  have eq: "(of_int (nhd_excess T x) :: rat) = (of_int T / 1638400 - nhd x) * (1638400 * of_int (snd x))"
    using s by (simp add: nhd_excess_def nhd_eq [OF assms] nmr_def field_simps)
  have "nhd_excess T x < 0 \<longleftrightarrow> (of_int (nhd_excess T x) :: rat) < 0" "0 < nhd_excess T x \<longleftrightarrow> (0 :: rat) < of_int (nhd_excess T x)" by simp_all
  then show "nhd_excess T x < 0 \<longleftrightarrow> of_int T / 1638400 < nhd x" "0 < nhd_excess T x \<longleftrightarrow> nhd x < of_int T / 1638400"
    unfolding eq using s by (simp_all add: mult_less_0_iff zero_less_mult_iff)
qed

lemma nhd_excess_bound:
  assumes "\<bar>fst x\<bar> \<le> snd x" "snd x \<le> 2 ^ 16" "0 \<le> T" "T \<le> 2 ^ 21"
  shows "\<bar>nhd_excess T x\<bar> < 2 ^ 47"
proof -
  have "\<bar>snd x * (fst x * 50 - snd x * 5)\<bar> \<le> 2 ^ 16 * (55 * 2 ^ 16)" "\<bar>snd x * (774144 - T)\<bar> \<le> 2 ^ 16 * 2 ^ 21"
    by (rule abs_mult_le; use assms in auto)+
  then show ?thesis using assms unfolding nhd_excess_def by auto
qed

lemma mod_factor: "(a - s * (y mod m) + c) mod m = (a - s * y + c) mod (m :: int)"
proof -
  have "(a + c - s * (y mod m)) mod m = (a + c - s * (y mod m) mod m) mod m" by (simp only: mod_diff_right_eq)
  also have "\<dots> = (a + c - s * y mod m) mod m" by (simp only: mod_mult_right_eq)
  finally show ?thesis by (simp add: mod_diff_right_eq algebra_simps)
qed

lemma computes_nhd_threshold:
  assumes d: "dist_int_sharing ring48_ring wf48 val48 d xs" and len: "length xs + 64 \<le> MAX_LEN"
    and ok: "\<And>x. x \<in> set xs \<Longrightarrow> dot_range x" and t: "0 \<le> t" "t \<le> 1"
  shows "computes addr sid (\<lambda>i. nhd_greater_than_threshold G (d i) t) (\<lambda>b. bit_sharing b (map (\<lambda>x. nhd_limit t < nhd x) xs))"
proof -
  let ?n = "length xs" and ?T = "f64_trunc (f64_mul 1638400 t)"
  define e where "e = (\<lambda>i k. share_mul ring48_ring (mask_dot (d i ! k)) (share_sub ring48_ring (share_mul_val ring48_ring (code_dot (d i ! k)) (Ring48 50))
    (share_mul_val ring48_ring (mask_dot (d i ! k)) (Ring48 5))))"
  define f where "f = (\<lambda>i k p. share_add ring48_ring (share_sub ring48_ring p (share_mul_val ring48_ring (mask_dot (d i ! k)) (nhd_threshold_a t)))
    (share_mul_val ring48_ring (code_dot (d i ! k)) (Ring48 368640)))"
  have ld: "length (d i) = ?n" for i using dist_int_sharing_length [OF d] .
  have body: "nhd_greater_than_threshold G (d i) t = cbind (reshare_products (net_ring48 G) ?n (e i)) (\<lambda>p. msb48 G (map (\<lambda>(k, p). f i k p) (enumerate 0 p)))" for i
    unfolding nhd_greater_than_threshold_def Let_def ld e_def f_def by (rule refl)
  note opens = ring48.dist_opens [OF d]
  have round: "computes addr sid (\<lambda>i. reshare_products (net_ring48 G) ?n (e i))
      (\<lambda>p. int_sharing ring48_ring wf48 val48 p (map (\<lambda>k. snd (xs ! k) * (fst (xs ! k) * 50 - snd (xs ! k) * 5)) [0..<?n]))"
  proof (rule reshare48)
    fix k assume k: "k < ?n"
    show "ring48.sums_int (e ID0 k, e ID1 k, e ID2 k) (snd (xs ! k) * (fst (xs ! k) * 50 - snd (xs ! k) * 5))"
      using ring48.sums_product3 [OF opens(2) [OF k] ring48.opens_sub3 [OF ring48.opens_scale3 [OF opens(1) [OF k] nhd_constants(5)]
          ring48.opens_scale3 [OF opens(2) [OF k] nhd_constants(7)]]] unfolding nhd_constants e_def .
  qed (use len in simp)
  have eq: "map (\<lambda>z. z < 0) (map (nhd_excess ?T) xs) = map (\<lambda>x. nhd_limit t < nhd x) xs"
    using ok by (simp add: nhd_excess_iff dot_range_def nhd_limit_def)
  show ?thesis
    unfolding body eq [symmetric]
  proof (rule computes_cbind [OF round], rule sign48)
    fix p :: "PartyID \<Rightarrow> Ring48 share list" assume p: "int_sharing ring48_ring wf48 val48 p (map (\<lambda>k. snd (xs ! k) * (fst (xs ! k) * 50 - snd (xs ! k) * 5)) [0..<?n])"
    have lp: "length (p i) = ?n" for i using int_sharing_length [OF p] by simp
    show "int_sharing ring48_ring wf48 val48 (\<lambda>i. map (\<lambda>(k, p). f i k p) (enumerate 0 (p i))) (map (nhd_excess ?T) xs)"
    proof (rule ring48.int_sharingI)
      fix k assume "k < length (map (nhd_excess ?T) xs)"
      then have k: "k < ?n" by simp
      have pk: "ring48.opens_int (p ID0 ! k, p ID1 ! k, p ID2 ! k) (snd (xs ! k) * (fst (xs ! k) * 50 - snd (xs ! k) * 5))"
        using ring48.int_sharing_nth [OF p, of k] k by (simp add: col_def)
      have "ring48.opens_int (f ID0 k (p ID0 ! k), f ID1 k (p ID1 ! k), f ID2 k (p ID2 ! k))
          (snd (xs ! k) * (fst (xs ! k) * 50 - snd (xs ! k) * 5) - snd (xs ! k) * val48 (nhd_threshold_a t) + fst (xs ! k) * 368640)"
        using ring48.opens_add3 [OF ring48.opens_sub3 [OF pk ring48.opens_scale3 [OF opens(2) [OF k] nhd_threshold_a(1) [OF t]]] ring48.opens_scale3 [OF opens(1) [OF k] nhd_constants(9)]]
        unfolding nhd_constants f_def .
      moreover have "(snd (xs ! k) * (fst (xs ! k) * 50 - snd (xs ! k) * 5) - snd (xs ! k) * val48 (nhd_threshold_a t) + fst (xs ! k) * 368640) mod 2 ^ 48 = nhd_excess ?T (xs ! k) mod 2 ^ 48"
        unfolding nhd_threshold_a(2) [OF t] nhd_excess_def by (rule mod_factor)
      ultimately show "ring48.opens_int (col (\<lambda>i. map (\<lambda>(k, p). f i k p) (enumerate 0 (p i))) k) (map (nhd_excess ?T) xs ! k)"
        using k lp by (simp add: ring48.opens_int_def col_def nth_enumerate_eq)
    qed (simp add: lp)
    show "- (2 ^ 47) \<le> v \<and> v < 2 ^ 47" if v: "v \<in> set (map (nhd_excess ?T) xs)" for v
    proof -
      obtain x where x: "x \<in> set xs" "v = nhd_excess ?T x" using v unfolding set_map by blast
      have "\<bar>nhd_excess ?T x\<bar> < 2 ^ 47" by (rule nhd_excess_bound) (use ok [OF x(1)] nhd_factor [OF t] in \<open>simp_all add: dot_range_def\<close>)
      then show ?thesis unfolding x(2) by auto
    qed
  qed (use len in simp)
qed

text \<open>The check on plain values: 64 bits are enough, and it decides the strict comparison.\<close>

lemma nhd_plaintext_iff:
  assumes "hd16 \<le> md16" "0 < md16" "0 \<le> t" "t \<le> 1"
  shows "nhd_plaintext_is_match hd16 md16 t \<longleftrightarrow> nhd (uint md16 - 2 * uint hd16, uint md16) < nhd_limit t"
proof -
  let ?T = "f64_trunc (f64_mul 1638400 t)" and ?h = "uint hd16" and ?m = "uint md16"
  note T = nhd_factor [OF assms(3,4)]
  have b: "0 \<le> ?h" "?h \<le> ?m" "0 < ?m" "?m < 2 ^ 16"
    using assms(1,2) uint_lt2p [of md16] by (simp_all add: word_le_def word_less_def)
  have "f64_as_i64 (f64_mul 1638400 t) = of_int ?T" 
  proof -
    have "max (- (2 ^ 63)) (min (2 ^ 63 - 1) ?T) = ?T" using T(1,2) by simp
    then show ?thesis unfolding f64_as_i64_def by (rule arg_cong)
  qed
  moreover have "ucast hd16 = (of_int ?h :: 64 word)" "ucast md16 = (of_int ?m :: 64 word)" by (simp_all only: ucast_eq)
  ultimately have w: "nhd_plaintext_is_match hd16 md16 t \<longleftrightarrow>
      sint (of_int (?m * (100 * ?h - 45 * ?m) + (405504 - ?T) * ?m + 737280 * ?h) :: 64 word) < 0"
    unfolding nhd_plaintext_is_match_def T(3) Let_def by (simp only: of_int_add of_int_mult of_int_diff of_int_numeral)
  have e: "?m * (100 * ?h - 45 * ?m) + (405504 - ?T) * ?m + 737280 * ?h = - nhd_excess ?T (?m - 2 * ?h, ?m)"
    by (simp add: nhd_excess_def algebra_simps)
  have "\<bar>nhd_excess ?T (?m - 2 * ?h, ?m)\<bar> < 2 ^ 47" 
  proof (rule nhd_excess_bound)
    show "\<bar>fst (?m - 2 * ?h, ?m)\<bar> \<le> snd (?m - 2 * ?h, ?m)" unfolding fst_conv snd_conv using b by linarith
  qed (use b T(1,2) in simp_all)
  then have "sint (of_int (- nhd_excess ?T (?m - 2 * ?h, ?m)) :: 64 word) = - nhd_excess ?T (?m - 2 * ?h, ?m)"
    unfolding sint_sbintrunc' by (intro signed_take_bit_int_eq_self) (auto simp: abs_less_iff)
  then show ?thesis unfolding w e nhd_limit_def using nhd_excess_iff(2) [of "(?m - 2 * ?h, ?m)" ?T] b(3) by (simp only: snd_conv neg_less_0_iff_less)
qed

section \<open>Dot products\<close>

text \<open>Selection of retained dot products.\<close>

lemma fused_select_Ok:
  assumes "\<forall>k \<in> set ks. k < fused_len f" "length (fused_previous f) = length (fused_local f)"
  shows "fused_select f ks codes masks = Ok
    (codes @ map (\<lambda>k. share_new (fused_local f ! (k * 2)) (fused_previous f ! (k * 2))) ks,
     masks @ map (\<lambda>k. share_new (fused_local f ! (k * 2 + 1)) (fused_previous f ! (k * 2 + 1))) ks)"
  using assms by (induction ks arbitrary: codes masks) (auto simp: index_opt_def fused_len_def Let_def)

lemma fused_select_Err:
  assumes "\<exists>k \<in> set ks. \<not> k < fused_len f" "length (fused_previous f) = length (fused_local f)"
  shows "fused_select f ks codes masks = Err ''dot-product index out of bounds''"
  using assms by (induction ks arbitrary: codes masks) (auto simp: index_opt_def fused_len_def Let_def)

text \<open>Lifting of interleaved dot products.\<close>

lemma chunk_pairs:
  "length xs = 2 * n \<Longrightarrow> map (\<lambda>chunk. case chunk of c # m # _ \<Rightarrow> Some (f c m) | _ \<Rightarrow> None) (chunks 2 xs) =
    map (\<lambda>k. Some (f (xs ! (k * 2)) (xs ! (k * 2 + 1)))) [0..<n]"
proof (induction n arbitrary: xs)
  case (Suc n)
  then obtain c m ys where xs: "xs = c # m # ys" by (auto simp: length_Suc_conv)
  have "chunks 2 xs = [c, m] # chunks 2 ys" by (subst chunks.simps) (simp add: xs numeral_2_eq_2)
  then show ?case using Suc.IH [of ys] Suc.prems by (simp add: xs map_upt_Suc del: upt_Suc)
qed simp

lemma val48_scast: "val48 (Ring48 (scast v AND MASK_48)) = sint v mod 2 ^ 48" for v :: u16
proof -
  have "val48 (Ring48 (scast v AND MASK_48)) = sint v mod 2 ^ 64 mod 2 ^ 48"
    unfolding val48.simps and_MASK_48 uint_take_bit_48 scast_eq [of v] uint_word_of_int by simp
  then show ?thesis by (simp only: mod_mod_cancel le_imp_power_dvd)
qed

lemma computes_nhd_lift:
  assumes x: "sharing_add word_ring (\<lambda>_. True) x xs" and n: "length xs = 2 * n" "4 * n + 64 \<le> MAX_LEN"
  shows "computes addr sid (\<lambda>i. nhd_lift_distances G (x i))
    (\<lambda>r. dist_int_sharing ring48_ring wf48 val48 r (map (\<lambda>k. (sint (convert (xs ! (k * 2))), sint (convert (xs ! (k * 2 + 1))))) [0..<n]))"
  unfolding nhd_lift_distances_def
proof (rule computes_cbind [OF computes_signed_lift48 [OF x]])
  show "2 * length xs + 64 \<le> MAX_LEN" using n by simp
  fix r assume r: "sharing_add ring48_ring wf48 r (map (\<lambda>e. RingElement (Ring48 (scast (convert e) AND MASK_48))) xs)"
  have lr: "length (r i) = 2 * n" for i using sharing_lengths(1) [OF r] n by simp
  let ?d = "\<lambda>i. map (\<lambda>k. distance_share_new (r i ! (k * 2)) (r i ! (k * 2 + 1))) [0..<n]"
  have eq: "those (map (\<lambda>chunk. case chunk of c # m # _ \<Rightarrow> Some (distance_share_new c m) | _ \<Rightarrow> None) (chunks 2 (r i))) = Some (?d i)" for i
    unfolding chunk_pairs [OF lr] by (rule those_map_Some) simp
  have o: "ring48.opens_int (r ID0 ! m, r ID1 ! m, r ID2 ! m) (sint (convert (xs ! m)))" if "m < 2 * n" for m
    using sharing_add_nth [OF r, of m] that n val48_scast [of "convert (xs ! m)"] by (simp add: ring48.opens_int_def col_def del: val48.simps)
  have "dist_int_sharing ring48_ring wf48 val48 ?d (map (\<lambda>k. (sint (convert (xs ! (k * 2))), sint (convert (xs ! (k * 2 + 1))))) [0..<n])"
    using o by (intro ring48.dist_int_sharingI) (simp_all add: distance_share_new_def)
  then show "computes addr sid (\<lambda>i. ctry (or_panic (those (map (\<lambda>chunk. case chunk of c # m # _ \<Rightarrow> Some (distance_share_new c m) | _ \<Rightarrow> None) (chunks 2 (r i))))))
      (\<lambda>r. dist_int_sharing ring48_ring wf48 val48 r (map (\<lambda>k. (sint (convert (xs ! (k * 2))), sint (convert (xs ! (k * 2 + 1))))) [0..<n]))"
    unfolding eq or_panic_def option.case ctry_simps by (rule computes_cret)
qed

section \<open>Opening\<close>

lemma computes_compare_open:
  assumes "dist_int_sharing word_ring (\<lambda>_. True) uint (\<lambda>i. map fst (d i)) ls" "dist_int_sharing word_ring (\<lambda>_. True) uint (\<lambda>i. map snd (d i)) rs"
    "length ls = length rs" "length rs + 64 \<le> MAX_LEN" "\<And>x. x \<in> set ls \<union> set rs \<Longrightarrow> fhd_range x"
  shows "computes addr sid (\<lambda>i. cross_compare G (d i)) (\<lambda>r. \<forall>i. r i = map2 (\<lambda>x y. fhd x < fhd y) ls rs)"
  unfolding cross_compare_def
  by (rule computes_cbind [OF computes_cross_compare [OF assms]], assumption, rule computes_open_bits) (use assms in simp_all)

lemma computes_nhd_compare_open:
  assumes "dist_int_sharing ring48_ring wf48 val48 (\<lambda>i. map fst (d i)) ls" "dist_int_sharing ring48_ring wf48 val48 (\<lambda>i. map snd (d i)) rs"
    "length ls = length rs" "2 * length rs + 64 \<le> MAX_LEN" "\<And>x. x \<in> set ls \<union> set rs \<Longrightarrow> dot_range x"
  shows "computes addr sid (\<lambda>i. nhd_cross_compare G (d i)) (\<lambda>r. \<forall>i. r i = map2 (\<lambda>x y. nhd x < nhd y) ls rs)"
  unfolding nhd_cross_compare_def
  by (rule computes_cbind [OF computes_nhd_cross_compare [OF assms]], assumption, rule computes_open_bits) (use assms in simp_all)

section \<open>Properties\<close>

text \<open>
  C7: comparison and minimum of shared distances. Three linked parties compare pairs of
  fractional Hamming distances of sixteen bit dot products in 32 bits, or pairs of normalized
  Hamming distances of vectors of at most \<open>2 ^ 14\<close> positions in 48 bits: the cross products
  never overflow, all parties finish under any interleaving, the opened answers are the
  comparisons of the rational distances, and the minima are shares of the pair with the
  smaller distance.
\<close>

theorem distance_comparisons:
  fixes S :: "PartyID \<Rightarrow> 'r session" and G :: "'r prf_rng"
  assumes "linked addr sid S"
    and "dist_int_sharing word_ring (\<lambda>_. True) uint (\<lambda>i. map fst (d i)) ls" "dist_int_sharing word_ring (\<lambda>_. True) uint (\<lambda>i. map snd (d i)) rs"
    and "length ls = length rs" "2 * length rs + 64 \<le> MAX_LEN" "\<forall>x \<in> set ls \<union> set rs. fhd_range x"
    and "dist_int_sharing ring48_ring wf48 val48 (\<lambda>i. map fst (e i)) ns" "dist_int_sharing ring48_ring wf48 val48 (\<lambda>i. map snd (e i)) ms"
    and "length ns = length ms" "2 * length ms + 64 \<le> MAX_LEN" "\<forall>x \<in> set ns \<union> set ms. dot_range x"
  shows "always_finishes addr (\<lambda>i. cross_compare G (d i) (S i))
      (\<lambda>r. (\<forall>i. fst (r i) = map2 (\<lambda>x y. fhd x < fhd y) ls rs) \<and> linked addr sid (\<lambda>i. snd (r i)))
    \<and> always_finishes addr (\<lambda>i. min_of_pair_batch G (d i) (S i))
      (\<lambda>r. dist_int_sharing word_ring (\<lambda>_. True) uint (\<lambda>i. fst (r i)) (map2 (\<lambda>x y. if fhd x < fhd y then x else y) ls rs) \<and> linked addr sid (\<lambda>i. snd (r i)))
    \<and> always_finishes addr (\<lambda>i. nhd_cross_compare G (e i) (S i))
      (\<lambda>r. (\<forall>i. fst (r i) = map2 (\<lambda>x y. nhd x < nhd y) ns ms) \<and> linked addr sid (\<lambda>i. snd (r i)))
    \<and> always_finishes addr (\<lambda>i. nhd_min_of_pair_batch G (e i) (S i))
      (\<lambda>r. dist_int_sharing ring48_ring wf48 val48 (\<lambda>i. fst (r i)) (map2 (\<lambda>x y. if nhd x < nhd y then x else y) ns ms) \<and> linked addr sid (\<lambda>i. snd (r i)))"
proof -
  have len: "length rs + 64 \<le> MAX_LEN" using assms(5) by simp
  note fs = assms(6) [rule_format] and ns = assms(11) [rule_format]
  show ?thesis
    by (intro conjI computes_always_finishes [OF computes_compare_open [OF assms(2-4) len fs] assms(1)]
        computes_always_finishes [OF computes_min_of_pair [OF assms(2-5) fs] assms(1)]
        computes_always_finishes [OF computes_nhd_compare_open [OF assms(7-10) ns] assms(1)]
        computes_always_finishes [OF computes_nhd_min_of_pair [OF assms(7-10) ns] assms(1)])
qed

definition demo_distances :: "(int \<times> int) list \<Rightarrow> PartyID \<Rightarrow> u32 DistanceShare list" where
  "demo_distances vs i = map (\<lambda>(c, m). distance_share_new c m)
     (zip (deal (map (\<lambda>v. sh (of_int (fst v)) 7 (- 7)) vs) i) (deal (map (\<lambda>v. sh 5 (of_int (snd v)) (- 5)) vs) i))"

lemma demo_distances_sharing: "dist_int_sharing word_ring (\<lambda>_. True) uint (demo_distances vs) vs"
proof -
  have len: "length (deal ts i) = length ts" for ts :: "u32 share3 list" and i by (simp add: deal_def)
  have c: "map code_dot (demo_distances vs i) = deal (map (\<lambda>v. sh (of_int (fst v)) 7 (- 7)) vs) i"
    "map mask_dot (demo_distances vs i) = deal (map (\<lambda>v. sh 5 (of_int (snd v)) (- 5)) vs) i" for i
    unfolding demo_distances_def
    by (simp_all add: comp_def split_def distance_share_new_def len flip: map_map [of fst] map_map [of snd])
  show ?thesis
    unfolding dist_int_sharing_def c
    by (auto intro!: word.int_sharingI simp: len col_deal word.opens_int_def sh_def share_new_def re_add_def uint_word_of_int)
qed

definition demo_distances48 :: "(int \<times> int) list \<Rightarrow> PartyID \<Rightarrow> Ring48 DistanceShare list" where
  "demo_distances48 vs i = map (\<lambda>(c, m). distance_share_new c m)
     (zip (deal (map (\<lambda>v. sh (Ring48 (of_int (fst v) AND MASK_48)) (Ring48 0) (Ring48 0)) vs) i)
       (deal (map (\<lambda>v. sh (Ring48 0) (Ring48 (of_int (snd v) AND MASK_48)) (Ring48 0)) vs) i))"

lemma demo_distances48_sharing: "dist_int_sharing ring48_ring wf48 val48 (demo_distances48 vs) vs"
proof -
  have len: "length (deal ts i) = length ts" for ts :: "Ring48 share3 list" and i by (simp add: deal_def)
  have c: "map code_dot (demo_distances48 vs i) = deal (map (\<lambda>v. sh (Ring48 (of_int (fst v) AND MASK_48)) (Ring48 0) (Ring48 0)) vs) i"
    "map mask_dot (demo_distances48 vs i) = deal (map (\<lambda>v. sh (Ring48 0) (Ring48 (of_int (snd v) AND MASK_48)) (Ring48 0)) vs) i" for i
    unfolding demo_distances48_def
    by (simp_all add: comp_def split_def distance_share_new_def len flip: map_map [of fst] map_map [of snd])
  have w: "wf48 (Ring48 (x AND MASK_48))" "wf48 (Ring48 0)" for x using wf48_masked by simp_all
  have v: "uint ((of_int z :: u64) AND MASK_48) = z mod 2 ^ 48" for z
  proof -
    have "uint ((of_int z :: u64) AND MASK_48) = z mod 2 ^ 64 mod 2 ^ 48"
      unfolding and_MASK_48 uint_take_bit_48 by (simp add: uint_word_of_int)
    then show ?thesis by (simp only: mod_mod_cancel le_imp_power_dvd)
  qed
  have o: "ring48.opens_int (sh (Ring48 (of_int z AND MASK_48)) (Ring48 0) (Ring48 0)) z" "ring48.opens_int (sh (Ring48 0) (Ring48 (of_int z AND MASK_48)) (Ring48 0)) z" for z
    using w by (simp_all add: ring48.opens_int_def sh_def share_new_def re_add_def ring48.val_add ring48.wf_add v ring48.wf_intros del: wf48.simps)
  show ?thesis
    unfolding dist_int_sharing_def c by (auto intro!: ring48.int_sharingI o simp: len col_deal)
qed

theorem distance_comparisons_witness:
  "always_finishes demo_addr (\<lambda>i. cross_compare demo_rng (zip (demo_distances [(100, 500), (- 3, 8)] i) (demo_distances [(400, 500), (- 4, 8)] i)) (demo_session i))
      (\<lambda>r. (\<forall>i. fst (r i) = [False, True]) \<and> linked demo_addr 7 (\<lambda>i. snd (r i)))
    \<and> always_finishes demo_addr (\<lambda>i. nhd_min_of_pair_batch demo_rng (zip (demo_distances48 [(1200, 3000)] i) (demo_distances48 [(12, 30)] i)) (demo_session i))
      (\<lambda>r. dist_int_sharing ring48_ring wf48 val48 (\<lambda>i. fst (r i)) [(1200, 3000)] \<and> linked demo_addr 7 (\<lambda>i. snd (r i)))"
proof -
  have f: "map fst (zip (demo_distances ls i) (demo_distances rs i)) = demo_distances ls i" "map snd (zip (demo_distances ls i) (demo_distances rs i)) = demo_distances rs i"
    if "length ls = length rs" for ls rs i
    using dist_int_sharing_length [OF demo_distances_sharing] that by simp_all
  have g: "map fst (zip (demo_distances48 ls i) (demo_distances48 rs i)) = demo_distances48 ls i" "map snd (zip (demo_distances48 ls i) (demo_distances48 rs i)) = demo_distances48 rs i"
    if "length ls = length rs" for ls rs i
    using dist_int_sharing_length [OF demo_distances48_sharing] that by simp_all
  have h: "fhd (400, 500) < fhd (100, 500)" "fhd (- 3, 8) < fhd (- 4, 8)" "nhd (1200, 3000) < nhd (12, 30)" by (simp_all add: fhd_def nhd_def)
  note cmp = distance_comparisons [OF demo_linked, where G = demo_rng and d = "\<lambda>i. zip (demo_distances [(100, 500), (- 3, 8)] i) (demo_distances [(400, 500), (- 4, 8)] i)"
      and e = "\<lambda>i. zip (demo_distances48 [(1200, 3000)] i) (demo_distances48 [(12, 30)] i)" and ls = "[(100, 500), (- 3, 8)]" and rs = "[(400, 500), (- 4, 8)]"
      and ns = "[(1200, 3000)]" and ms = "[(12, 30)]"]
  show ?thesis
    using cmp demo_distances_sharing demo_distances48_sharing h order.asym [OF h(1)] by (simp add: f g MAX_LEN_def fhd_range_def dot_range_def)
qed



end
