(* ===== verification/Threshold_Buckets.thy ===== *)
theory Threshold_Buckets
  imports Distance_Compare
begin

text \<open>
  Threshold buckets of the anonymous statistics (\<open>ampc-actor-utils/src/protocol/anon_stats.rs\<close>):
  counting the distances below each of a list of thresholds, after reducing groups of
  distances to their minimum. The reduction is proved once for any pairwise minimum.
\<close>

section \<open>Operations\<close>

definition compare_against_thresholds_batched :: "'r prf_rng \<Rightarrow> u32 list \<Rightarrow> u32 DistanceShare list \<Rightarrow> ('r session, u32 share list) comp" where
  "compare_against_thresholds_batched G threshold_a_terms distances =
     (let diffs = concat (map (\<lambda>a. map (\<lambda>d.
            let x = share_mul_val word_ring (mask_dot d) a; y = share_mul_val word_ring (code_dot d) B
            in share_sub word_ring x y) distances) threshold_a_terms)
      in cbind (msb32 G diffs) (\<lambda>msbs.
         cbind (bit_inject (net_u32 G) (new_vec msbs)) (\<lambda>injected. cret (vs_inner injected))))"

fun nhd_threshold_loop :: "'r prf_rng \<Rightarrow> Ring48 DistanceShare list \<Rightarrow> f64 list \<Rightarrow> Bit share list \<Rightarrow> ('r session, Bit share list) comp" where
  "nhd_threshold_loop G distances [] msbs = cret msbs"
| "nhd_threshold_loop G distances (t # ts) msbs =
     cbind (nhd_greater_than_threshold G distances t) (\<lambda>results.
       nhd_threshold_loop G distances ts (msbs @ map (share_not bit_ring) results))"

definition nhd_compare_against_thresholds_batched :: "'r prf_rng \<Rightarrow> f64 list \<Rightarrow> Ring48 DistanceShare list \<Rightarrow> ('r session, u32 share list) comp" where
  "nhd_compare_against_thresholds_batched G threshold_a_terms distances =
     cbind (nhd_threshold_loop G distances threshold_a_terms []) (\<lambda>msbs.
     cbind (bit_inject (net_u32 G) (new_vec msbs)) (\<lambda>injected. cret (vs_inner injected)))"

text \<open>\<open>reduce\<close> with the default of an empty chunk; chunks of size zero are a panic.\<close>

definition reduce_sum :: "u32 share list \<Rightarrow> u32 share" where
  "reduce_sum chunk = (case chunk of [] \<Rightarrow> share_zero word_ring | x # xs \<Rightarrow> foldl (share_add word_ring) x xs)"

definition bucket_sums :: "nat \<Rightarrow> u32 share list \<Rightarrow> ('s, u32 share list) comp" where
  "bucket_sums n injected = (if n = 0 then cstop Panicked else cret (map reduce_sum (chunks n injected)))"

definition compare_threshold_buckets :: "'r prf_rng \<Rightarrow> u32 list \<Rightarrow> u32 DistanceShare list \<Rightarrow> ('r session, u32 share list) comp" where
  "compare_threshold_buckets G threshold_a_terms distances =
     cbind (compare_against_thresholds_batched G threshold_a_terms distances) (\<lambda>injected. bucket_sums (length distances) injected)"

definition nhd_compare_threshold_buckets :: "'r prf_rng \<Rightarrow> f64 list \<Rightarrow> Ring48 DistanceShare list \<Rightarrow> ('r session, u32 share list) comp" where
  "nhd_compare_threshold_buckets G threshold_a_terms distances =
     cbind (nhd_compare_against_thresholds_batched G threshold_a_terms distances) (\<lambda>injected. bucket_sums (length distances) injected)"

text \<open>
  The loop of the reduction, with the pairwise minimum as argument: both functions of the
  source have this loop. Every group is entered with its last index; a group at index 0 is
  compared with its first element again.
\<close>

function reduce_min_loop :: "('a DistancePair list \<Rightarrow> ('s, 'a DistanceShare list) comp) \<Rightarrow> 'a DistanceShare list list \<Rightarrow> nat list
    \<Rightarrow> 'a DistanceShare list \<Rightarrow> ('s, 'a DistanceShare list) comp" where
  "reduce_min_loop min_batch distances sizes reduced_distances =
     (if \<forall>size \<in> set sizes. size = 0 then cret reduced_distances
      else let distances_to_reduce = zip (map (\<lambda>(group, size). group ! size) (zip distances sizes)) reduced_distances
        in cbind (min_batch distances_to_reduce) (\<lambda>reduced. reduce_min_loop min_batch distances (map (\<lambda>size. size - 1) sizes) reduced))"
  by pat_completeness auto

lemma sum_list_decrease: "\<not> (\<forall>s \<in> set sizes. s = 0) \<Longrightarrow> sum_list (map (\<lambda>s. s - 1) sizes) < sum_list (sizes :: nat list)"
proof (induction sizes)
  case (Cons s sizes)
  have "sum_list (map (\<lambda>s. s - 1) sizes) \<le> sum_list sizes" using sum_list_mono [of sizes "\<lambda>s. s - 1" "\<lambda>s. s"] by simp
  then show ?case using Cons by (cases "s = 0") auto
qed simp

termination reduce_min_loop
  by (relation "measure (\<lambda>(_, _, sizes, _). sum_list sizes)") (use sum_list_decrease in auto)

declare reduce_min_loop.simps [simp del]

definition reduce_min :: "('a DistancePair list \<Rightarrow> ('s, 'a DistanceShare list) comp) \<Rightarrow> 'a DistanceShare list list
    \<Rightarrow> ('s, 'a DistanceShare list) comp" where
  "reduce_min min_batch distances =
     (if [] \<in> set distances then cstop (Bail ''Expected at least one distance in the group'')
      else reduce_min_loop min_batch distances (map (\<lambda>group. length group - 1) distances) (map hd distances))"

definition reduce_to_min_distance_batch :: "'r prf_rng \<Rightarrow> u32 DistanceShare list list \<Rightarrow> ('r session, u32 DistanceShare list) comp" where
  "reduce_to_min_distance_batch G distances = reduce_min (min_of_pair_batch G) distances"

definition nhd_reduce_to_min_distance_batch :: "'r prf_rng \<Rightarrow> Ring48 DistanceShare list list \<Rightarrow> ('r session, Ring48 DistanceShare list) comp" where
  "nhd_reduce_to_min_distance_batch G distances = reduce_min (nhd_min_of_pair_batch G) distances"

definition compare_min_threshold_buckets :: "'r prf_rng \<Rightarrow> u32 list \<Rightarrow> u32 DistanceShare list list \<Rightarrow> ('r session, u32 share list) comp" where
  "compare_min_threshold_buckets G threshold_a_terms distances =
     cbind (reduce_to_min_distance_batch G distances) (\<lambda>reduced_distances.
       compare_threshold_buckets G threshold_a_terms reduced_distances)"

definition compare_min_threshold_buckets_score_normalization ::
  "'r prf_rng \<Rightarrow> f64 list \<Rightarrow> Ring48 DistanceShare list list \<Rightarrow> ('r session, u32 share list) comp" where
  "compare_min_threshold_buckets_score_normalization G terms distances =
     cbind (nhd_reduce_to_min_distance_batch G distances) (\<lambda>reduced_distances.
       nhd_compare_threshold_buckets G terms reduced_distances)"

section \<open>Reduction of groups to their minimum\<close>

text \<open>Groups of shared distances.\<close>

definition group_sharing :: "'a int_ring2k \<Rightarrow> ('a \<Rightarrow> bool) \<Rightarrow> ('a \<Rightarrow> int) \<Rightarrow> (PartyID \<Rightarrow> 'a DistanceShare list list)
    \<Rightarrow> (int \<times> int) list list \<Rightarrow> bool" where
  "group_sharing R P V D gs \<longleftrightarrow> (\<forall>i. length (D i) = length gs) \<and> (\<forall>k < length gs. dist_int_sharing R P V (\<lambda>i. D i ! k) (gs ! k))"

text \<open>
  The contract of a pairwise minimum: shares of the one with the smaller distance, for
  distances in the range of the protocol.
\<close>

locale pair_minimum = int_ring2k_laws R wf val
  for R :: "'a int_ring2k" and wf :: "'a \<Rightarrow> bool" and val :: "'a \<Rightarrow> int" +
  fixes min_batch :: "'a DistancePair list \<Rightarrow> ('r session, 'a DistanceShare list) comp"
    and dist :: "int \<times> int \<Rightarrow> rat" and ok :: "int \<times> int \<Rightarrow> bool"
  assumes computes_min_batch: "dist_int_sharing R wf val (\<lambda>i. map fst (d i)) ls \<Longrightarrow> dist_int_sharing R wf val (\<lambda>i. map snd (d i)) rs \<Longrightarrow>
      length ls = length rs \<Longrightarrow> 2 * length rs + 64 \<le> MAX_LEN \<Longrightarrow> (\<And>x. x \<in> set ls \<union> set rs \<Longrightarrow> ok x) \<Longrightarrow>
      computes addr sid (\<lambda>i. min_batch (d i)) (\<lambda>x. dist_int_sharing R wf val x (map2 (\<lambda>x y. if dist x < dist y then x else y) ls rs))"
begin

definition minimal :: "(int \<times> int) list list \<Rightarrow> (int \<times> int) list \<Rightarrow> bool" where
  "minimal gs ws \<longleftrightarrow> length ws = length gs \<and> (\<forall>k < length gs. ws ! k \<in> set (gs ! k) \<and> (\<forall>x \<in> set (gs ! k). dist (ws ! k) \<le> dist x))"

text \<open>What is already covered: the first element and those above the current index.\<close>

definition covered :: "(int \<times> int) list list \<Rightarrow> nat list \<Rightarrow> (int \<times> int) list \<Rightarrow> bool" where
  "covered gs sizes ws \<longleftrightarrow> length ws = length gs \<and> length sizes = length gs
     \<and> (\<forall>k < length gs. sizes ! k < length (gs ! k) \<and> ws ! k \<in> set (gs ! k)
          \<and> (\<forall>j < length (gs ! k). j = 0 \<or> sizes ! k < j \<longrightarrow> dist (ws ! k) \<le> dist (gs ! k ! j)))"

lemma covered_done: "covered gs sizes ws \<Longrightarrow> \<forall>s \<in> set sizes. s = 0 \<Longrightarrow> minimal gs ws"
  unfolding covered_def minimal_def by (metis in_set_conv_nth neq0_conv nth_mem)

lemma covered_step:
  assumes "covered gs sizes ws"
  shows "covered gs (map (\<lambda>s. s - 1) sizes) (map2 (\<lambda>x y. if dist x < dist y then x else y) (map2 (!) gs sizes) ws)"
proof -
  have len: "length ws = length gs" "length sizes = length gs" using assms by (simp_all add: covered_def)
  have "(if dist (gs ! k ! (sizes ! k)) < dist (ws ! k) then gs ! k ! (sizes ! k) else ws ! k) \<in> set (gs ! k)
      \<and> (\<forall>j < length (gs ! k). j = 0 \<or> sizes ! k - 1 < j \<longrightarrow>
        dist (if dist (gs ! k ! (sizes ! k)) < dist (ws ! k) then gs ! k ! (sizes ! k) else ws ! k) \<le> dist (gs ! k ! j))" if k: "k < length gs" for k
  proof -
    have c: "sizes ! k < length (gs ! k)" "ws ! k \<in> set (gs ! k)"
      "\<And>j. j < length (gs ! k) \<Longrightarrow> j = 0 \<or> sizes ! k < j \<Longrightarrow> dist (ws ! k) \<le> dist (gs ! k ! j)" using assms k by (auto simp: covered_def)
    have "j = 0 \<or> sizes ! k < j \<or> j = sizes ! k" if "j = 0 \<or> sizes ! k - 1 < j" for j using that by auto
    then show ?thesis using c by (fastforce split: if_splits)
  qed
  with assms show ?thesis unfolding covered_def by auto
qed

lemma computes_reduce_loop:
  assumes "group_sharing R wf val D gs" "2 * length gs + 64 \<le> MAX_LEN" "\<forall>g \<in> set gs. \<forall>x \<in> set g. ok x"
    and "covered gs sizes ws" "dist_int_sharing R wf val red ws"
  shows "computes addr sid (\<lambda>i. reduce_min_loop min_batch (D i) sizes (red i)) (\<lambda>r. \<exists>ws. minimal gs ws \<and> dist_int_sharing R wf val r ws)"
  using assms(4,5)
proof (induction "sum_list sizes" arbitrary: sizes ws red rule: less_induct)
  case less
  show ?case
  proof (cases "\<forall>s \<in> set sizes. s = 0")
    case True
    with less.prems covered_done show ?thesis by (subst reduce_min_loop.simps) (auto intro!: computes_cret)
  next
    case False
    have len: "length ws = length gs" "length sizes = length gs" using less.prems(1) by (simp_all add: covered_def)
    have lD: "length (D i) = length gs" "length (red i) = length gs" for i
      using assms(1) dist_int_sharing_length [OF less.prems(2)] len by (simp_all add: group_sharing_def)
    let ?new = "\<lambda>i. map (\<lambda>(group, size). group ! size) (zip (D i) sizes)"
    have new: "dist_int_sharing R wf val ?new (map2 (!) gs sizes)"
    proof (rule dist_int_sharingI)
      fix k assume "k < length (map2 (!) gs sizes)"
      then have k: "k < length gs" by simp
      have "dist_int_sharing R wf val (\<lambda>i. D i ! k) (gs ! k)" "sizes ! k < length (gs ! k)"
        using assms(1) less.prems(1) k by (auto simp: group_sharing_def covered_def)
      from dist_opens [OF this] k lD len
      show "opens_int (code_dot (?new ID0 ! k), code_dot (?new ID1 ! k), code_dot (?new ID2 ! k)) (fst (map2 (!) gs sizes ! k)) \<and>
          opens_int (mask_dot (?new ID0 ! k), mask_dot (?new ID1 ! k), mask_dot (?new ID2 ! k)) (snd (map2 (!) gs sizes ! k))" by simp
    qed (simp add: lD len)
    have lz: "length (?new i) = length (red i)" for i by (simp add: lD len)
    have okx: "ok x" if "x \<in> set (map2 (!) gs sizes) \<union> set ws" for x
    proof -
      from that obtain k where "k < length gs" "x = gs ! k ! (sizes ! k) \<or> x = ws ! k"
        using len by (fastforce simp: in_set_conv_nth)
      moreover from this have "x \<in> set (gs ! k)" using less.prems(1) by (auto simp: covered_def)
      ultimately show ?thesis using assms(3) by (meson nth_mem)
    qed
    have "computes addr sid (\<lambda>i. min_batch (zip (?new i) (red i)))
        (\<lambda>x. dist_int_sharing R wf val x (map2 (\<lambda>x y. if dist x < dist y then x else y) (map2 (!) gs sizes) ws))"
      by (rule computes_min_batch) (use new less.prems(2) lz okx assms(2) len in \<open>simp_all\<close>)
    then show ?thesis
      unfolding reduce_min_loop.simps [of min_batch _ sizes] if_not_P [OF False] Let_def
    proof (rule computes_cbind)
      fix x assume x: "dist_int_sharing R wf val x (map2 (\<lambda>x y. if dist x < dist y then x else y) (map2 (!) gs sizes) ws)"
      show "computes addr sid (\<lambda>i. reduce_min_loop min_batch (D i) (map (\<lambda>size. size - 1) sizes) (x i))
          (\<lambda>r. \<exists>ws. minimal gs ws \<and> dist_int_sharing R wf val r ws)"
        by (rule less.hyps [OF sum_list_decrease [OF False] covered_step [OF less.prems(1)] x])
    qed
  qed
qed

lemma computes_reduce:
  assumes "group_sharing R wf val D gs" "2 * length gs + 64 \<le> MAX_LEN" "\<forall>g \<in> set gs. g \<noteq> [] \<and> (\<forall>x \<in> set g. ok x)"
  shows "computes addr sid (\<lambda>i. reduce_min min_batch (D i)) (\<lambda>r. \<exists>ws. minimal gs ws \<and> dist_int_sharing R wf val r ws)"
proof -
  have lD: "length (D i) = length gs" "\<And>k. k < length gs \<Longrightarrow> length (D i ! k) = length (gs ! k)" for i
    using assms(1) dist_int_sharing_length [where d = "\<lambda>i. D i ! _"] by (auto simp: group_sharing_def)
  have ne: "gs ! k \<noteq> []" if "k < length gs" for k using assms(3) that by auto
  then have neD: "\<not> [] \<in> set (D i)" for i using lD by (auto simp: in_set_conv_nth) (metis length_0_conv)
  have sizes: "map (\<lambda>group. length group - 1) (D i) = map (\<lambda>g. length g - 1) gs" for i using lD by (intro nth_equalityI) simp_all
  have first: "dist_int_sharing R wf val (\<lambda>i. map hd (D i)) (map hd gs)"
  proof (rule dist_int_sharingI)
    fix k assume "k < length (map hd gs)"
    then have k: "k < length gs" by simp
    then have d: "dist_int_sharing R wf val (\<lambda>i. D i ! k) (gs ! k)" "0 < length (gs ! k)" using assms(1) ne by (auto simp: group_sharing_def)
    have "hd (D i ! k) = D i ! k ! 0" for i using lD(2) [OF k] d(2) by (metis hd_conv_nth length_greater_0_conv)
    with dist_opens [OF d] k lD(1) ne [OF k]
    show "opens_int (code_dot (map hd (D ID0) ! k), code_dot (map hd (D ID1) ! k), code_dot (map hd (D ID2) ! k)) (fst (map hd gs ! k)) \<and>
        opens_int (mask_dot (map hd (D ID0) ! k), mask_dot (map hd (D ID1) ! k), mask_dot (map hd (D ID2) ! k)) (snd (map hd gs ! k))"
      by (simp add: hd_conv_nth)
  qed (simp add: lD)
  have "covered gs (map (\<lambda>g. length g - 1) gs) (map hd gs)"
    unfolding covered_def using ne by (auto simp: hd_conv_nth)
  note start = this
  show ?thesis
    unfolding reduce_min_def if_not_P [OF neD] sizes by (rule computes_reduce_loop [OF assms(1,2) _ start first]) (use assms(3) in blast)
qed

end

interpretation fhd_min: pair_minimum "word_ring :: u32 int_ring2k" "\<lambda>_. True" uint "min_of_pair_batch G" fhd fhd_range for G
  by unfold_locales (rule computes_min_of_pair)

interpretation nhd_min: pair_minimum ring48_ring wf48 val48 "nhd_min_of_pair_batch G" nhd dot_range for G
  by unfold_locales (rule computes_nhd_min_of_pair)

section \<open>Sums of buckets\<close>

context int_ring2k_laws
begin

lemma int_sharing_split:
  assumes "int_sharing R wf val r (us @ vs)"
  shows "int_sharing R wf val (\<lambda>i. take (length us) (r i)) us" "int_sharing R wf val (\<lambda>i. drop (length us) (r i)) vs"
proof -
  have len: "length (r i) = length us + length vs" for i using int_sharing_length [OF assms] by simp
  have nth: "k < length us + length vs \<Longrightarrow> opens_int (col r k) ((us @ vs) ! k)" for k using int_sharing_nth [OF assms] by simp
  show "int_sharing R wf val (\<lambda>i. take (length us) (r i)) us"
  proof (rule int_sharingI)
    fix k assume "k < length us"
    then show "opens_int (col (\<lambda>i. take (length us) (r i)) k) (us ! k)" using nth [of k] by (simp add: col_def nth_append)
  qed (simp add: len)
  show "int_sharing R wf val (\<lambda>i. drop (length us) (r i)) vs"
  proof (rule int_sharingI)
    fix k assume "k < length vs"
    then show "opens_int (col (\<lambda>i. drop (length us) (r i)) k) (vs ! k)" using nth [of "length us + k"] len by (simp add: col_def)
  qed (simp add: len)
qed

lemma opens_foldl:
  "int_sharing R wf val r vs \<Longrightarrow> opens_int (a, b, c) u \<Longrightarrow>
    opens_int (foldl (share_add R) a (r ID0), foldl (share_add R) b (r ID1), foldl (share_add R) c (r ID2)) (u + sum_list vs)"
proof (induction vs arbitrary: r a b c u)
  case Nil
  then have "r i = []" for i using int_sharing_length [OF Nil(1)] by simp
  with Nil show ?case by simp
next
  case (Cons v vs)
  have s: "int_sharing R wf val (\<lambda>i. take 1 (r i)) [v]" "int_sharing R wf val (\<lambda>i. drop 1 (r i)) vs"
    using int_sharing_split [of r "[v]" vs] Cons.prems(1) by simp_all
  have r: "r i = r i ! 0 # drop 1 (r i)" for i
    using int_sharing_length [OF Cons.prems(1), of i] by (cases "r i") simp_all
  have "opens_int (r ID0 ! 0, r ID1 ! 0, r ID2 ! 0) v" using int_sharing_nth [OF Cons.prems(1), of 0] by (simp add: col_def)
  from Cons.IH [OF s(2) opens_add3 [OF Cons.prems(2) this]] show ?case
    by (subst (1 2 3) r) (simp add: add.assoc)
qed

end

lemma opens_reduce:
  assumes "int_sharing word_ring (\<lambda>_. True) uint r vs" "vs \<noteq> []"
  shows "word.opens_int (reduce_sum (r ID0), reduce_sum (r ID1), reduce_sum (r ID2)) (sum_list vs)"
proof -
  obtain v us where vs: "vs = v # us" using assms(2) by (cases vs) auto
  have r: "r i = r i ! 0 # drop 1 (r i)" for i
    using int_sharing_length [OF assms(1), of i] vs by (cases "r i") simp_all
  have o: "word.opens_int (r ID0 ! 0, r ID1 ! 0, r ID2 ! 0) v" using word.int_sharing_nth [OF assms(1), of 0] vs by (simp add: col_def)
  have "int_sharing word_ring (\<lambda>_. True) uint (\<lambda>i. drop 1 (r i)) us" using word.int_sharing_split(2) [of r "[v]" us] assms(1) vs by simp
  from word.opens_foldl [OF this o] show ?thesis
    unfolding vs reduce_sum_def by (subst (1 2 3) r) simp
qed

lemma bucket_sharing:
  assumes "int_sharing word_ring (\<lambda>_. True) uint r (concat vss)" "\<forall>vs \<in> set vss. length vs = n" "0 < n"
  shows "int_sharing word_ring (\<lambda>_. True) uint (\<lambda>i. map reduce_sum (chunks n (r i))) (map sum_list vss)"
  using assms(1,2)
proof (induction vss arbitrary: r)
  case Nil
  then have "r i = []" for i using int_sharing_length [OF Nil(1)] by simp
  then show ?case by (simp add: word.int_sharing_Nil)
next
  case (Cons vs vss)
  have n: "length vs = n" "vs \<noteq> []" using Cons.prems(2) assms(3) by auto
  have s: "int_sharing word_ring (\<lambda>_. True) uint (\<lambda>i. take n (r i)) vs" "int_sharing word_ring (\<lambda>_. True) uint (\<lambda>i. drop n (r i)) (concat vss)"
    using word.int_sharing_split [of r vs "concat vss"] Cons.prems(1) n by simp_all
  have ne: "r i \<noteq> []" for i using int_sharing_length [OF Cons.prems(1), of i] n by auto
  have c: "chunks n (r i) = take n (r i) # chunks n (drop n (r i))" for i using ne assms(3) by (subst chunks.simps) simp
  have "int_sharing word_ring (\<lambda>_. True) uint (\<lambda>i. [reduce_sum (take n (r i))]) [sum_list vs]"
    using opens_reduce [OF s(1) n(2)] by (intro word.int_sharingI) (simp_all add: col_def)
  from word.int_sharing_append [OF this Cons.IH [OF s(2)]] Cons.prems(2) show ?case by (simp add: c)
qed

lemma sum_of_bools: "sum_list (map of_bool (map P xs)) = int (length (filter P xs))"
  by (induction xs) simp_all

section \<open>Counting below thresholds\<close>

lemma computes_inject_ints:
  assumes "bit_sharing b bs" "length bs < MAX_LEN"
  shows "computes addr sid (\<lambda>i. cbind (bit_inject (net_u32 G) (new_vec (b i))) (\<lambda>v. cret (vs_inner v)))
    (\<lambda>r. int_sharing word_ring (\<lambda>_. True) uint r (map of_bool bs))"
  by (rule computes_cbind [OF net32.computes_inject_int [OF assms]], rule computes_cret)
    (simp add: vs_inner_def net32.bits_as_ints [unfolded ni_ring_simps])

definition below :: "'t list \<Rightarrow> ('t \<Rightarrow> 'x \<Rightarrow> bool) \<Rightarrow> 'x list \<Rightarrow> bool list" where
  "below ts P xs = concat (map (\<lambda>t. map (P t) xs) ts)"

lemma length_below: "length (below ts P xs) = length ts * length xs"
  by (induction ts) (simp_all add: below_def)

lemma computes_bucket_sums:
  assumes "int_sharing word_ring (\<lambda>_. True) uint r (map of_bool (below ts P xs))" "xs \<noteq> []"
  shows "computes addr sid (\<lambda>i. bucket_sums (length xs) (r i) :: ('r session, u32 share list) comp)
    (\<lambda>r. int_sharing word_ring (\<lambda>_. True) uint r (map (\<lambda>t. int (length (filter (P t) xs))) ts))"
proof -
  have "map of_bool (below ts P xs) = (concat (map (\<lambda>t. map of_bool (map (P t) xs)) ts) :: int list)"
    unfolding below_def by (simp add: map_concat comp_def)
  with assms(1) have "int_sharing word_ring (\<lambda>_. True) uint (\<lambda>i. map reduce_sum (chunks (length xs) (r i))) (map sum_list (map (\<lambda>t. map of_bool (map (P t) xs)) ts))"
    using bucket_sharing [of r "map (\<lambda>t. map of_bool (map (P t) xs)) ts" "length xs"] assms(2) by auto
  then show ?thesis
    unfolding bucket_sums_def using assms(2) sum_of_bools [of "P _" xs]
    by (auto intro!: computes_cret simp: comp_def)
qed

lemma computes_compare_against_thresholds:
  assumes d: "dist_int_sharing word_ring (\<lambda>_. True) uint d xs" and len: "length as * length xs + 64 \<le> MAX_LEN"
    and ok: "\<And>x. x \<in> set xs \<Longrightarrow> dot_range x \<and> snd x < 2 ^ 14" and a: "\<And>a. a \<in> set as \<Longrightarrow> uint a \<le> 2 ^ 16"
  shows "computes addr sid (\<lambda>i. compare_against_thresholds_batched G as (d i))
    (\<lambda>r. int_sharing word_ring (\<lambda>_. True) uint r (map of_bool (below as (\<lambda>a x. fhd x < fhd_limit a) xs)))"
proof -
  let ?diff = "\<lambda>a d. share_sub word_ring (share_mul_val word_ring (mask_dot d) a) (share_mul_val word_ring (code_dot d) B)"
  let ?v = "\<lambda>a x. snd x * uint a - fst x * 2 ^ 16"
  have ld: "length (d i) = length xs" for i using dist_int_sharing_length [OF d] .
  have B: "uint B = 2 ^ 16" by (simp add: B_eq)
  have one: "int_sharing word_ring (\<lambda>_. True) uint (\<lambda>i. map (?diff a) (d i)) (map (?v a) xs)" for a
  proof (rule word.int_sharingI)
    fix k assume "k < length (map (?v a) xs)"
    then have k: "k < length xs" by simp
    note word.opens_sub3 [OF word.opens_scale3 [OF word.dist_opens(2) [OF d k] TrueI, of a] word.opens_scale3 [OF word.dist_opens(1) [OF d k] TrueI, of B]]
    then show "word.opens_int (col (\<lambda>i. map (?diff a) (d i)) k) (map (?v a) xs ! k)"
      using k ld unfolding B by (simp add: col_def)
  qed (simp add: ld)
  have diffs: "int_sharing word_ring (\<lambda>_. True) uint (\<lambda>i. concat (map (\<lambda>a. map (?diff a) (d i)) as)) (concat (map (\<lambda>a. map (?v a) xs) as))"
  proof (induction as)
    case (Cons a as)
    from word.int_sharing_append [OF one Cons.IH] show ?case by simp
  qed (simp add: word.int_sharing_Nil)
  have range: "- (2 ^ 31) \<le> ?v a x \<and> ?v a x < 2 ^ 31" if "a \<in> set as" "x \<in> set xs" for a x
  proof -
    define p where "p = snd x * uint a"
    have "0 \<le> p" unfolding p_def using ok [OF that(2)] by (simp add: dot_range_def)
    moreover have "p \<le> (2 ^ 14 - 1) * 2 ^ 16" unfolding p_def by (rule mult_mono) (use ok [OF that(2)] a [OF that(1)] in simp_all)
    moreover have "- (2 ^ 14) \<le> fst x" "fst x \<le> 2 ^ 14" using ok [OF that(2)] by (auto simp: dot_range_def)
    ultimately show ?thesis unfolding p_def [symmetric] by simp
  qed
  have eq: "map (\<lambda>z. z < 0) (concat (map (\<lambda>a. map (?v a) xs) as)) = below as (\<lambda>a x. fhd x < fhd_limit a) xs"
    using ok unfolding below_def by (simp add: map_concat fhd_limit_iff(2) dot_range_def cong: map_cong)
  have ll: "length (concat (map (\<lambda>a. map (?v a) xs) as)) = length as * length xs" by (induction as) simp_all
  show ?thesis
    unfolding compare_against_thresholds_batched_def Let_def
  proof (rule computes_cbind [OF sign32 [OF diffs], unfolded eq])
    show "- (2 ^ 31) \<le> v \<and> v < 2 ^ 31" if v: "v \<in> set (concat (map (\<lambda>a. map (?v a) xs) as))" for v
    proof -
      from v obtain ys where "ys \<in> (\<lambda>a. map (?v a) xs) ` set as" "v \<in> set ys" unfolding set_concat set_map by blast
      then obtain a where a: "a \<in> set as" "v \<in> set (map (?v a) xs)" by blast
      then obtain x where "x \<in> set xs" "v = ?v a x" unfolding set_map by blast
      with range [OF a(1)] show ?thesis by blast
    qed
    show "length (concat (map (\<lambda>a. map (?v a) xs) as)) + 64 \<le> MAX_LEN" using len ll by simp
    show "computes addr sid (\<lambda>i. cbind (bit_inject (net_u32 G) (new_vec (b i))) (\<lambda>v. cret (vs_inner v)))
        (\<lambda>r. int_sharing word_ring (\<lambda>_. True) uint r (map of_bool (below as (\<lambda>a x. fhd x < fhd_limit a) xs)))"
      if "bit_sharing b (below as (\<lambda>a x. fhd x < fhd_limit a) xs)" for b
      by (rule computes_inject_ints [OF that]) (use len in \<open>simp add: length_below\<close>)
  qed
qed

lemma computes_threshold_buckets:
  assumes "dist_int_sharing word_ring (\<lambda>_. True) uint d xs" "length as * length xs + 64 \<le> MAX_LEN" "xs \<noteq> []"
    and "\<And>x. x \<in> set xs \<Longrightarrow> dot_range x \<and> snd x < 2 ^ 14" "\<And>a. a \<in> set as \<Longrightarrow> uint a \<le> 2 ^ 16"
  shows "computes addr sid (\<lambda>i. compare_threshold_buckets G as (d i))
    (\<lambda>r. int_sharing word_ring (\<lambda>_. True) uint r (map (\<lambda>a. int (length (filter (\<lambda>x. fhd x < fhd_limit a) xs))) as))"
  unfolding compare_threshold_buckets_def dist_int_sharing_length [OF assms(1)]
  by (rule computes_cbind [OF computes_compare_against_thresholds [OF assms(1,2,4,5)]]) (simp_all add: computes_bucket_sums assms(3))

text \<open>The normalized distance: complements of the bits of the threshold comparison.\<close>

lemma bit_sharing_append: "bit_sharing x us \<Longrightarrow> bit_sharing y vs \<Longrightarrow> bit_sharing (\<lambda>i. x i @ y i) (us @ vs)"
  unfolding bit_sharing_def map_append by (rule sharing_xor_append)

lemma bit_sharing_not:
  assumes "bit_sharing b bs"
  shows "bit_sharing (\<lambda>i. map (share_not bit_ring) (b i)) (map Not bs)"
  unfolding bit_sharing_def
proof (rule sharing_xorI)
  have len: "length (b i) = length bs" for i using bit_sharing_length [OF assms] .
  then show "length (map (share_not bit_ring) (b i)) = length (map (\<lambda>b. RingElement (bit_new b)) (map Not bs))" for i by simp
  fix k assume "k < length (map (\<lambda>b. RingElement (bit_new b)) (map Not bs))"
  then have k: "k < length bs" by simp
  have s: "replicated (col b k)" "share3_wf wf_bit (col b k)" "open_xor bit_ring (col b k) = RingElement (bit_new (bs ! k))"
    using sharing_xor_nth [OF assms [unfolded bit_sharing_def], of k] k by simp_all
  have col: "col (\<lambda>i. map (share_not bit_ring) (b i)) k = map3 (share_not bit_ring) (col b k)" using k len by (simp add: col_def)
  have "re_not bit_ring (RingElement (bit_new c)) = RingElement (bit_new (\<not> c))" for c by (cases c) (simp_all add: re_not_def bit_new_def)
  moreover have "replicated (map3 (share_not bit_ring) (col b k))" "share3_wf wf_bit (map3 (share_not bit_ring) (col b k))"
    using s(1,2) bit.wf_not by (auto simp: col_def share_not_def re_not_def simp del: bit_ring_sel)
  ultimately show "replicated (col (\<lambda>i. map (share_not bit_ring) (b i)) k) \<and> share3_wf wf_bit (col (\<lambda>i. map (share_not bit_ring) (b i)) k) \<and>
      open_xor bit_ring (col (\<lambda>i. map (share_not bit_ring) (b i)) k) = map (\<lambda>b. RingElement (bit_new b)) (map Not bs) ! k"
    unfolding col using bit.bitwise_ops_open(3) [OF s(2) s(2) bit.wf_zero] s(3) k by simp
qed

lemma computes_nhd_loop:
  assumes d: "dist_int_sharing ring48_ring wf48 val48 d xs" and len: "length xs + 64 \<le> MAX_LEN" and ok: "\<And>x. x \<in> set xs \<Longrightarrow> dot_range x"
  shows "\<forall>t \<in> set ts. 0 \<le> t \<and> t \<le> 1 \<Longrightarrow> bit_sharing m bs \<Longrightarrow>
    computes addr sid (\<lambda>i. nhd_threshold_loop G (d i) ts (m i)) (\<lambda>b. bit_sharing b (bs @ below ts (\<lambda>t x. nhd x \<le> nhd_limit t) xs))"
proof (induction ts arbitrary: m bs)
  case Nil
  then show ?case by (simp add: below_def computes_cret)
next
  case (Cons t ts)
  have t: "0 \<le> t" "t \<le> 1" "\<forall>t \<in> set ts. 0 \<le> t \<and> t \<le> 1" using Cons.prems(1) by simp_all
  have "computes addr sid (\<lambda>i. nhd_threshold_loop G (d i) ts (m i @ map (share_not bit_ring) (b i)))
      (\<lambda>b. bit_sharing b (bs @ below (t # ts) (\<lambda>t x. nhd x \<le> nhd_limit t) xs))"
    if b: "bit_sharing b (map (\<lambda>x. nhd_limit t < nhd x) xs)" for b
  proof -
    have "map Not (map (\<lambda>x. nhd_limit t < nhd x) xs) = map (\<lambda>x. nhd x \<le> nhd_limit t) xs" by (simp add: not_less)
    from bit_sharing_append [OF Cons.prems(2) bit_sharing_not [OF b], unfolded this]
    have "bit_sharing (\<lambda>i. m i @ map (share_not bit_ring) (b i)) (bs @ map (\<lambda>x. nhd x \<le> nhd_limit t) xs)" .
    from Cons.IH [OF t(3) this] show ?thesis by (simp add: below_def)
  qed
  note step = this
  show ?case unfolding nhd_threshold_loop.simps by (rule computes_cbind [OF computes_nhd_threshold [OF d len ok t(1,2)]]) (assumption, rule step)
qed

lemma computes_nhd_compare_against_thresholds:
  assumes d: "dist_int_sharing ring48_ring wf48 val48 d xs" and len: "length ts * length xs + 64 \<le> MAX_LEN" "length xs + 64 \<le> MAX_LEN"
    and ok: "\<And>x. x \<in> set xs \<Longrightarrow> dot_range x" and ts: "\<forall>t \<in> set ts. 0 \<le> t \<and> t \<le> 1"
  shows "computes addr sid (\<lambda>i. nhd_compare_against_thresholds_batched G ts (d i))
    (\<lambda>r. int_sharing word_ring (\<lambda>_. True) uint r (map of_bool (below ts (\<lambda>t x. nhd x \<le> nhd_limit t) xs)))"
  unfolding nhd_compare_against_thresholds_batched_def
proof (rule computes_cbind [OF computes_nhd_loop [OF d len(2) ok ts]])
  show "bit_sharing (\<lambda>_. []) []" unfolding bit_sharing_def by (simp add: sharing_xor_Nil)
  fix b assume "bit_sharing b ([] @ below ts (\<lambda>t x. nhd x \<le> nhd_limit t) xs)"
  then have b: "bit_sharing b (below ts (\<lambda>t x. nhd x \<le> nhd_limit t) xs)" by simp
  show "computes addr sid (\<lambda>i. cbind (bit_inject (net_u32 G) (new_vec (b i))) (\<lambda>v. cret (vs_inner v)))
      (\<lambda>r. int_sharing word_ring (\<lambda>_. True) uint r (map of_bool (below ts (\<lambda>t x. nhd x \<le> nhd_limit t) xs)))"
    by (rule computes_inject_ints [OF b]) (use len in \<open>simp add: length_below\<close>)
qed

lemma computes_nhd_threshold_buckets:
  assumes d: "dist_int_sharing ring48_ring wf48 val48 d xs" and len: "length ts * length xs + 64 \<le> MAX_LEN" "length xs + 64 \<le> MAX_LEN" and xs: "xs \<noteq> []"
    and ok: "\<And>x. x \<in> set xs \<Longrightarrow> dot_range x" and ts: "\<forall>t \<in> set ts. 0 \<le> t \<and> t \<le> 1"
  shows "computes addr sid (\<lambda>i. nhd_compare_threshold_buckets G ts (d i))
    (\<lambda>r. int_sharing word_ring (\<lambda>_. True) uint r (map (\<lambda>t. int (length (filter (\<lambda>x. nhd x \<le> nhd_limit t) xs))) ts))"
  unfolding nhd_compare_threshold_buckets_def dist_int_sharing_length [OF d]
  by (rule computes_cbind [OF computes_nhd_compare_against_thresholds [OF d len ok ts]], assumption, rule computes_bucket_sums [OF _ xs])

section \<open>Buckets of minima\<close>

lemma count_cong: "map P xs = map Q ys \<Longrightarrow> length (filter P xs) = length (filter Q ys)"
proof -
  assume "map P xs = map Q ys"
  then have "length (filter (\<lambda>b. b) (map P xs)) = length (filter (\<lambda>b. b) (map Q ys))" by simp
  then show ?thesis by (simp only: filter_map length_map comp_def)
qed

lemma count_minimal:
  assumes "length ws = length gs" "\<And>k. k < length gs \<Longrightarrow> P (ws ! k) \<longleftrightarrow> (\<exists>x \<in> set (gs ! k). P x)"
  shows "length (filter P ws) = length (filter (\<lambda>g. \<exists>x \<in> set g. P x) gs)"
  by (rule count_cong) (use assms in \<open>auto intro!: nth_equalityI\<close>)

lemma computes_min_buckets:
  assumes D: "group_sharing word_ring (\<lambda>_. True) uint D gs" and len: "length as * length gs + 64 \<le> MAX_LEN" "2 * length gs + 64 \<le> MAX_LEN" and gs: "gs \<noteq> []"
    and ok: "\<forall>g \<in> set gs. g \<noteq> [] \<and> (\<forall>x \<in> set g. dot_range x \<and> snd x < 2 ^ 14)" and a: "\<forall>a \<in> set as. uint a \<le> 2 ^ 16"
  shows "computes addr sid (\<lambda>i. compare_min_threshold_buckets G as (D i))
    (\<lambda>r. int_sharing word_ring (\<lambda>_. True) uint r (map (\<lambda>a. int (length (filter (\<lambda>g. \<exists>x \<in> set g. fhd x < fhd_limit a) gs))) as))"
  unfolding compare_min_threshold_buckets_def reduce_to_min_distance_batch_def
proof (rule computes_cbind [OF fhd_min.computes_reduce [OF D len(2)]])
  show "\<forall>g \<in> set gs. g \<noteq> [] \<and> (\<forall>x \<in> set g. fhd_range x)" using ok by (fastforce simp: dot_range_def fhd_range_def)
  fix d :: "PartyID \<Rightarrow> u32 DistanceShare list" assume "\<exists>ws. fhd_min.minimal gs ws \<and> dist_int_sharing word_ring (\<lambda>_. True) uint d ws"
  then obtain ws where m: "length ws = length gs" "\<And>k. k < length gs \<Longrightarrow> ws ! k \<in> set (gs ! k) \<and> (\<forall>x \<in> set (gs ! k). fhd (ws ! k) \<le> fhd x)"
    and d: "dist_int_sharing word_ring (\<lambda>_. True) uint d ws" unfolding fhd_min.minimal_def by blast
  have okw: "dot_range x \<and> snd x < 2 ^ 14" if "x \<in> set ws" for x
    using that m ok by (metis in_set_conv_nth nth_mem)
  have "length (filter (\<lambda>x. fhd x < fhd_limit a) ws) = length (filter (\<lambda>g. \<exists>x \<in> set g. fhd x < fhd_limit a) gs)" for a
    by (rule count_minimal [OF m(1)]) (use m(2) in \<open>meson order.strict_trans1\<close>)
  moreover have "computes addr sid (\<lambda>i. compare_threshold_buckets G as (d i))
      (\<lambda>r. int_sharing word_ring (\<lambda>_. True) uint r (map (\<lambda>a. int (length (filter (\<lambda>x. fhd x < fhd_limit a) ws))) as))"
    by (rule computes_threshold_buckets [OF d _ _ okw]) (use len gs m(1) a in auto)
  ultimately show "computes addr sid (\<lambda>i. compare_threshold_buckets G as (d i))
      (\<lambda>r. int_sharing word_ring (\<lambda>_. True) uint r (map (\<lambda>a. int (length (filter (\<lambda>g. \<exists>x \<in> set g. fhd x < fhd_limit a) gs))) as))" by simp
qed

lemma computes_nhd_min_buckets:
  assumes D: "group_sharing ring48_ring wf48 val48 D gs" and len: "length ts * length gs + 64 \<le> MAX_LEN" "2 * length gs + 64 \<le> MAX_LEN" and gs: "gs \<noteq> []"
    and ok: "\<forall>g \<in> set gs. g \<noteq> [] \<and> (\<forall>x \<in> set g. dot_range x)" and ts: "\<forall>t \<in> set ts. 0 \<le> t \<and> t \<le> 1"
  shows "computes addr sid (\<lambda>i. compare_min_threshold_buckets_score_normalization G ts (D i))
    (\<lambda>r. int_sharing word_ring (\<lambda>_. True) uint r (map (\<lambda>t. int (length (filter (\<lambda>g. \<exists>x \<in> set g. nhd x \<le> nhd_limit t) gs))) ts))"
  unfolding compare_min_threshold_buckets_score_normalization_def nhd_reduce_to_min_distance_batch_def
proof (rule computes_cbind [OF nhd_min.computes_reduce [OF D len(2) ok]])
  fix d assume "\<exists>ws. nhd_min.minimal gs ws \<and> dist_int_sharing ring48_ring wf48 val48 d ws"
  then obtain ws where m: "length ws = length gs" "\<And>k. k < length gs \<Longrightarrow> ws ! k \<in> set (gs ! k) \<and> (\<forall>x \<in> set (gs ! k). nhd (ws ! k) \<le> nhd x)"
    and d: "dist_int_sharing ring48_ring wf48 val48 d ws" unfolding nhd_min.minimal_def by blast
  have okw: "dot_range x" if "x \<in> set ws" for x
    using that m ok by (metis in_set_conv_nth nth_mem)
  have "length (filter (\<lambda>x. nhd x \<le> nhd_limit t) ws) = length (filter (\<lambda>g. \<exists>x \<in> set g. nhd x \<le> nhd_limit t) gs)" for t
    by (rule count_minimal [OF m(1)]) (use m(2) in \<open>meson order_trans\<close>)
  moreover have "computes addr sid (\<lambda>i. nhd_compare_threshold_buckets G ts (d i))
      (\<lambda>r. int_sharing word_ring (\<lambda>_. True) uint r (map (\<lambda>t. int (length (filter (\<lambda>x. nhd x \<le> nhd_limit t) ws))) ts))"
    by (rule computes_nhd_threshold_buckets [OF d _ _ _ okw ts]) (use len gs m(1) in auto)
  ultimately show "computes addr sid (\<lambda>i. nhd_compare_threshold_buckets G ts (d i))
      (\<lambda>r. int_sharing word_ring (\<lambda>_. True) uint r (map (\<lambda>t. int (length (filter (\<lambda>g. \<exists>x \<in> set g. nhd x \<le> nhd_limit t) gs))) ts))" by simp
qed

section \<open>Properties\<close>

text \<open>
  C9: threshold buckets of minima. Three linked parties that hold shares of groups of
  distances reduce every group to its minimum and count against each threshold: the reduction
  loop ends for groups of different sizes, all parties finish under any interleaving, and the
  results are shares of the number of groups that contain a distance below the threshold, for
  the fractional distance in 32 bits, and at most the threshold, for the normalized distance
  in 48 bits.
\<close>

theorem minimum_buckets_count_groups:
  fixes S :: "PartyID \<Rightarrow> 'r session" and G :: "'r prf_rng"
  assumes "linked addr sid S" "gs \<noteq> []" "2 * length gs + 64 \<le> MAX_LEN"
    and "\<forall>g \<in> set gs. g \<noteq> [] \<and> (\<forall>x \<in> set g. dot_range x \<and> snd x < 2 ^ 14)"
    and "group_sharing word_ring (\<lambda>_. True) uint D gs" "length as * length gs + 64 \<le> MAX_LEN" "\<forall>a \<in> set as. uint a \<le> 2 ^ 16"
    and "group_sharing ring48_ring wf48 val48 E gs" "length ts * length gs + 64 \<le> MAX_LEN" "\<forall>t \<in> set ts. 0 \<le> t \<and> t \<le> 1"
  shows "always_finishes addr (\<lambda>i. compare_min_threshold_buckets G as (D i) (S i))
      (\<lambda>r. int_sharing word_ring (\<lambda>_. True) uint (\<lambda>i. fst (r i)) (map (\<lambda>a. int (length (filter (\<lambda>g. \<exists>x \<in> set g. fhd x < fhd_limit a) gs))) as)
         \<and> linked addr sid (\<lambda>i. snd (r i)))
    \<and> always_finishes addr (\<lambda>i. compare_min_threshold_buckets_score_normalization G ts (E i) (S i))
      (\<lambda>r. int_sharing word_ring (\<lambda>_. True) uint (\<lambda>i. fst (r i)) (map (\<lambda>t. int (length (filter (\<lambda>g. \<exists>x \<in> set g. nhd x \<le> nhd_limit t) gs))) ts)
         \<and> linked addr sid (\<lambda>i. snd (r i)))"
proof -
  have ok: "\<forall>g \<in> set gs. g \<noteq> [] \<and> (\<forall>x \<in> set g. dot_range x)" using assms(4) by blast
  show ?thesis
    by (intro conjI computes_always_finishes [OF computes_min_buckets [OF assms(5,6,3,2,4,7)] assms(1)]
        computes_always_finishes [OF computes_nhd_min_buckets [OF assms(8,9,3,2) ok assms(10)] assms(1)])
qed

theorem minimum_buckets_count_groups_witness:
  "always_finishes demo_addr (\<lambda>i. compare_min_threshold_buckets demo_rng [0, 16384] (map (\<lambda>g. demo_distances g i) [[(100, 500), (400, 500)], [(1, 8)]]) (demo_session i))
      (\<lambda>r. int_sharing word_ring (\<lambda>_. True) uint (\<lambda>i. fst (r i)) [2, 1] \<and> linked demo_addr 7 (\<lambda>i. snd (r i)))
    \<and> always_finishes demo_addr (\<lambda>i. compare_min_threshold_buckets_score_normalization demo_rng [3 / 8] (map (\<lambda>g. demo_distances48 g i) [[(100, 500), (400, 500)], [(1, 8)]]) (demo_session i))
      (\<lambda>r. int_sharing word_ring (\<lambda>_. True) uint (\<lambda>i. fst (r i)) [1] \<and> linked demo_addr 7 (\<lambda>i. snd (r i)))"
proof -
  let ?gs = "[[(100, 500), (400, 500)], [(1, 8)]] :: (int \<times> int) list list"
  have g: "group_sharing word_ring (\<lambda>_. True) uint (\<lambda>i. map (\<lambda>g. demo_distances g i) ?gs) ?gs"
    "group_sharing ring48_ring wf48 val48 (\<lambda>i. map (\<lambda>g. demo_distances48 g i) ?gs) ?gs"
    using demo_distances_sharing demo_distances48_sharing by (simp_all add: group_sharing_def less_Suc_eq)
  have n: "nhd_limit (3 / 8) = 3 / 8" unfolding nhd_limit_def by code_simp
  have c: "fhd (100, 500) < fhd_limit 0" "fhd (1, 8) < fhd_limit 0" "\<not> fhd (100, 500) < fhd_limit 16384" "fhd (400, 500) < fhd_limit 16384" "\<not> fhd (1, 8) < fhd_limit 16384"
    "\<not> nhd (100, 500) \<le> 3 / 8" "nhd (400, 500) \<le> 3 / 8" "\<not> nhd (1, 8) \<le> 3 / 8"
    by (simp_all add: fhd_limit_def fhd_def nhd_def)
  show ?thesis
    using minimum_buckets_count_groups [where G = demo_rng and gs = ?gs and as = "[0, 16384]" and ts = "[3 / 8]", OF demo_linked _ _ _ g(1) _ _ g(2)] c
    by (simp add: MAX_LEN_def dot_range_def n)
qed

end
