(* ===== verification/Shuffle.thy ===== *)
theory Shuffle
  imports Distance_Compare "HOL-Library.Multiset"
begin

text \<open>
  The oblivious shuffle (\<open>ampc-actor-utils/src/protocol/shuffle.rs\<close>, with the permutations of
  \<open>prf.rs\<close>): three parties apply a permutation none of them knows to batches of shared
  distances. The rejection sampling of the permutation ends when the generator does not stay
  in the upper half of its range forever.
\<close>

section \<open>Random permutations\<close>

text \<open>The largest value that keeps the remainder unbiased, and the loop that draws below it.\<close>

definition rejection_bound :: "u32 \<Rightarrow> u64" where
  "rejection_bound modulus = (let modulus_64 = ucast modulus in - 1 - ((- 1) mod modulus_64 + 1) mod modulus_64)"

partial_function (option) rejection_loop :: "'r prf_rng \<Rightarrow> u64 \<Rightarrow> 'r \<Rightarrow> (u64 \<times> 'r) option" where
  [code]: "rejection_loop G bound r =
     (let (v, r') = rng_gen64 G r in if v \<le> bound then Some (v, r') else rejection_loop G bound r')"

definition gen_u32_mod :: "'r prf_rng \<Rightarrow> u32 \<Rightarrow> 'r \<Rightarrow> proto_error + u32 \<times> 'r" where
  "gen_u32_mod G modulus rng =
     (if modulus = 0 then Inl (Bail ''modulus must be non-zero'')
      else case rejection_loop G (rejection_bound modulus) rng of
             None \<Rightarrow> Inl Diverged
           | Some (v, rng') \<Rightarrow> Inr (ucast (v mod ucast modulus), rng'))"

definition try_mine :: "('r \<Rightarrow> proto_error + 'a \<times> 'r) \<Rightarrow> ('r session, 'a) comp" where
  "try_mine g s = (case g (my_prf s) of Inl e \<Rightarrow> Stop e | Inr (x, r) \<Rightarrow> Ret (x, s\<lparr>my_prf := r\<rparr>))"

definition try_prev :: "('r \<Rightarrow> proto_error + 'a \<times> 'r) \<Rightarrow> ('r session, 'a) comp" where
  "try_prev g s = (case g (prev_prf s) of Inl e \<Rightarrow> Stop e | Inr (x, r) \<Rightarrow> Ret (x, s\<lparr>prev_prf := r\<rparr>))"

definition prf_gen_u32_mod :: "'r prf_rng \<Rightarrow> u32 \<Rightarrow> ('r session, u32 \<times> u32) comp" where
  "prf_gen_u32_mod G modulus =
     cbind (try_mine (gen_u32_mod G modulus)) (\<lambda>a. cbind (try_prev (gen_u32_mod G modulus)) (\<lambda>b. cret (a, b)))"

definition vec_swap :: "'a list \<Rightarrow> nat \<Rightarrow> nat \<Rightarrow> 'a list option" where
  "vec_swap xs i j = (if i < length xs \<and> j < length xs then Some (xs[i := xs ! j, j := xs ! i]) else None)"

fun permutation_loop :: "'r prf_rng \<Rightarrow> nat list \<Rightarrow> u32 list \<Rightarrow> u32 list \<Rightarrow> ('r session, u32 list \<times> u32 list) comp" where
  "permutation_loop G [] perm_a perm_b = cret (perm_a, perm_b)"
| "permutation_loop G (i # is) perm_a perm_b =
     cbind (prf_gen_u32_mod G (of_nat i + 1)) (\<lambda>(j_a, j_b).
     cbind (ctry (or_panic (vec_swap perm_a i (unat j_a)))) (\<lambda>perm_a.
     cbind (ctry (or_panic (vec_swap perm_b i (unat j_b)))) (\<lambda>perm_b.
       permutation_loop G is perm_a perm_b)))"

definition gen_permutation :: "'r prf_rng \<Rightarrow> u32 \<Rightarrow> ('r session, u32 list \<times> u32 list) comp" where
  "gen_permutation G len =
     (let start = map of_nat [0..<unat len] in permutation_loop G [1..<unat len] start start)"

section \<open>The shuffle\<close>

definition triplet_slice :: "'a list \<Rightarrow> nat \<Rightarrow> 'a list option" where
  "triplet_slice batch i = (if i * 3 + 3 \<le> length batch then Some (take 3 (drop (i * 3) batch)) else None)"

text \<open>Chunks of size zero and slices beyond a batch are panics.\<close>

definition shuffle_triplets :: "u32 list \<Rightarrow> 'a VecRingElement \<Rightarrow> nat \<Rightarrow> 'a VecRingElement option" where
  "shuffle_triplets perm data batch_size =
     (if batch_size = 0 then None
      else map_option (\<lambda>bs. VecRingElement (concat (concat bs)))
        (those (map (\<lambda>batch. those (map (\<lambda>i. triplet_slice batch (unat i)) perm)) (chunks (batch_size * 3) (elements data)))))"

fun gen_rands_list :: "('r, 'a) net_int \<Rightarrow> nat \<Rightarrow> ('r session, 'a RingElement list \<times> 'a RingElement list) comp" where
  "gen_rands_list N 0 = cret ([], [])"
| "gen_rands_list N (Suc n) =
     cbind (gen_rands N) (\<lambda>(a, b). cbind (gen_rands_list N n) (\<lambda>(as, bs). cret (a # as, b # bs)))"

type_synonym 'a IdDistance = "'a share \<times> 'a DistanceShare"

definition triplets :: "('a share \<Rightarrow> 'a RingElement) \<Rightarrow> 'a IdDistance list \<Rightarrow> 'a RingElement list" where
  "triplets f distances = concat (map (\<lambda>(id_share, dist_share). [f id_share, f (code_dot dist_share), f (mask_dot dist_share)]) distances)"

definition shuffle_party_0 :: "'r prf_rng \<Rightarrow> ('r, 'a) net_int \<Rightarrow> 'a IdDistance list \<Rightarrow> nat \<Rightarrow> ('r session, 'a IdDistance list) comp" where
  "shuffle_party_0 G N distances batch_size =
     (let R = ni_ring N; n = length distances in
      cbind (gen_permutation G (of_nat batch_size)) (\<lambda>(pi_01, pi_20).
        let a = VecRingElement (triplets share_a distances); b = VecRingElement (triplets share_b distances)
        in cbind (gen_rands_list N (vre_len a)) (\<lambda>(z01, z20).
           cbind (ctry (of_bail (vre_add R a b))) (\<lambda>ab.
           cbind (ctry (of_bail (vre_add R ab (VecRingElement z01)))) (\<lambda>abz.
           cbind (ctry (or_panic (shuffle_triplets pi_01 abz batch_size))) (\<lambda>x0.
           cbind (ctry (of_bail (vre_add R x0 (VecRingElement z20)))) (\<lambda>x0z.
           cbind (ctry (or_panic (shuffle_triplets pi_20 x0z batch_size))) (\<lambda>x1.
           cbind (send_ring_vec_next N x1) (\<lambda>_.
           cbind (gen_rands_list N (3 * n)) (\<lambda>(tilde_b, tilde_a).
             cret (reconstruct_id_distance_vector (VecRingElement tilde_b) (VecRingElement tilde_a))))))))))))"

definition shuffle_party_1 :: "'r prf_rng \<Rightarrow> ('r, 'a) net_int \<Rightarrow> 'a IdDistance list \<Rightarrow> nat \<Rightarrow> ('r session, 'a IdDistance list) comp" where
  "shuffle_party_1 G N distances batch_size =
     (let R = ni_ring N in
      cbind (gen_permutation G (of_nat batch_size)) (\<lambda>(pi_12, pi_01).
        let c = VecRingElement (triplets share_a distances)
        in cbind (gen_rands_list N (vre_len c)) (\<lambda>(z12, z01).
           cbind (ctry (of_bail (vre_sub R c (VecRingElement z01)))) (\<lambda>cz.
           cbind (ctry (or_panic (shuffle_triplets pi_01 cz batch_size))) (\<lambda>y0.
           cbind (send_ring_vec_next N y0) (\<lambda>_.
           cbind (receive_ring_vec_prev N) (\<lambda>x1.
           cbind (ctry (of_bail (vre_add R x1 (VecRingElement z12)))) (\<lambda>x1z.
           cbind (ctry (or_panic (shuffle_triplets pi_12 x1z batch_size))) (\<lambda>x2.
           cbind (draw_prev (gen_list N (vre_len x2))) (\<lambda>tilde_b.
           cbind (ctry (of_bail (vre_sub R x2 (VecRingElement tilde_b)))) (\<lambda>tilde_c1.
           cbind (send_ring_vec_next N tilde_c1) (\<lambda>_.
           cbind (receive_ring_vec_next N) (\<lambda>tilde_c2.
           cbind (ctry (of_bail (vre_add R tilde_c1 tilde_c2))) (\<lambda>tilde_c.
             cret (reconstruct_id_distance_vector tilde_c (VecRingElement tilde_b))))))))))))))))"

definition shuffle_party_2 :: "'r prf_rng \<Rightarrow> ('r, 'a) net_int \<Rightarrow> 'a IdDistance list \<Rightarrow> nat \<Rightarrow> ('r session, 'a IdDistance list) comp" where
  "shuffle_party_2 G N distances batch_size =
     (let R = ni_ring N; n = length distances in
      cbind (gen_permutation G (of_nat batch_size)) (\<lambda>(pi_20, pi_12).
      cbind (gen_rands_list N (3 * n)) (\<lambda>(z20, z12).
      cbind (receive_ring_vec_prev N) (\<lambda>y0.
      cbind (ctry (of_bail (vre_sub R y0 (VecRingElement z20)))) (\<lambda>y0z.
      cbind (ctry (or_panic (shuffle_triplets pi_20 y0z batch_size))) (\<lambda>y1.
      cbind (ctry (of_bail (vre_sub R y1 (VecRingElement z12)))) (\<lambda>y1z.
      cbind (ctry (or_panic (shuffle_triplets pi_12 y1z batch_size))) (\<lambda>y2.
      cbind (draw_mine (gen_list N (vre_len y2))) (\<lambda>tilde_a.
      cbind (ctry (of_bail (vre_sub R y2 (VecRingElement tilde_a)))) (\<lambda>tilde_c2.
      cbind (send_ring_vec_prev N tilde_c2) (\<lambda>_.
      cbind (receive_ring_vec_prev N) (\<lambda>tilde_c1.
      cbind (ctry (of_bail (vre_add R tilde_c1 tilde_c2))) (\<lambda>tilde_c.
        cret (reconstruct_id_distance_vector (VecRingElement tilde_a) tilde_c))))))))))))))"

text \<open>The role is computed in 32 bits, where the sum may wrap.\<close>

definition shuffle_role :: "u32 \<Rightarrow> Role \<Rightarrow> u32" where
  "shuffle_role sid role = (sid + of_nat (role_index role)) mod 3"

definition random_shuffle_batch :: "'r prf_rng \<Rightarrow> ('r, 'a) net_int \<Rightarrow> 'a IdDistance list list \<Rightarrow> ('r session, 'a IdDistance list list) comp" where
  "random_shuffle_batch G N distances =
     (if distances = [] then cstop (Bail ''Input distances cannot be empty'')
      else let batch_size = length (distances ! 0) in
        if \<not> (\<forall>batch \<in> set distances. length batch = batch_size) then cstop (Bail ''All batches must have the same length'')
        else let flattened_distances = concat distances in
          cbind (cread session_id) (\<lambda>sid. cbind (cread own_role) (\<lambda>role.
          cbind (if shuffle_role sid role = 0 then shuffle_party_0 G N flattened_distances batch_size
                 else if shuffle_role sid role = 1 then shuffle_party_1 G N flattened_distances batch_size
                 else if shuffle_role sid role = 2 then shuffle_party_2 G N flattened_distances batch_size
                 else cstop (Bail ''Invalid shuffle role'')) (\<lambda>flattened_results.
            if batch_size = 0 then cstop Panicked else cret (chunks batch_size flattened_results)))))"

section \<open>Drawing a permutation\<close>

text \<open>
  What the generator is relied on for: from every state some later word is in the lower half
  of the range.
\<close>

definition fair_rng :: "'r prf_rng \<Rightarrow> bool" where
  "fair_rng G \<longleftrightarrow> (\<forall>r. \<exists>n. fst (rng_gen64 G (((\<lambda>r. snd (rng_gen64 G r)) ^^ n) r)) < 2 ^ 63)"

lemma rejection_loop_ends:
  assumes "2 ^ 63 \<le> bound" "fst (rng_gen64 G (((\<lambda>r. snd (rng_gen64 G r)) ^^ n) r)) < 2 ^ 63"
  shows "\<exists>v r'. rejection_loop G bound r = Some (v, r')"
  using assms(2)
proof (induction n arbitrary: r)
  case 0
  then have "fst (rng_gen64 G r) \<le> bound" using assms(1) by simp
  then show ?case by (subst rejection_loop.simps) (simp add: split_def Let_def)
next
  case (Suc n)
  from Suc.IH [of "snd (rng_gen64 G r)"] Suc.prems have "\<exists>v r'. rejection_loop G bound (snd (rng_gen64 G r)) = Some (v, r')"
    by (simp add: funpow_Suc_right del: funpow.simps)
  then show ?case by (subst rejection_loop.simps) (auto simp: split_def Let_def)
qed

lemma rejection_bound_half:
  assumes "m \<noteq> 0"
  shows "2 ^ 63 \<le> rejection_bound m"
proof -
  let ?m = "ucast m :: u64"
  have m: "0 < uint ?m" "uint ?m < 2 ^ 32"
    unfolding uint_u32_u64 using assms uint_lt2p [of m] by (simp_all add: order_less_le uint_0_iff)
  then have "0 < ?m" by (simp add: word_less_def)
  then have "uint (((- 1) mod ?m + 1) mod ?m) < 2 ^ 32" using m by (metis order_less_trans word_less_def word_mod_less_divisor)
  then show ?thesis
    unfolding rejection_bound_def Let_def by (simp add: word_le_def uint_sub_if' unsigned_minus_1_eq_mask mask_eq_exp_minus_1)
qed

lemma gen_u32_mod_ok:
  assumes "fair_rng G" "m \<noteq> 0"
  shows "\<exists>v r'. gen_u32_mod G m r = Inr (v, r') \<and> v < m"
proof -
  obtain n where "fst (rng_gen64 G (((\<lambda>r. snd (rng_gen64 G r)) ^^ n) r)) < 2 ^ 63" using assms(1) unfolding fair_rng_def by blast
  from rejection_loop_ends [OF rejection_bound_half [OF assms(2)] this]
  obtain v r' where l: "rejection_loop G (rejection_bound m) r = Some (v, r')" by blast
  let ?m = "ucast m :: u64"
  have "?m \<noteq> 0" using assms(2) by (metis uint_0_iff uint_u32_u64)
  then have "uint (v mod ?m) < uint m" by (metis uint_u32_u64 word_less_def word_mod_less_divisor word_neq_0_conv)
  moreover have "uint (ucast (v mod ?m) :: u32) = uint (v mod ?m)"
    using calculation uint_lt2p [of m] by (simp add: unsigned_ucast_eq take_bit_int_eq_self)
  ultimately have "ucast (v mod ?m) < m" by (simp add: word_less_def)
  with l assms(2) show ?thesis by (simp add: gen_u32_mod_def)
qed

lemma unat_Suc32:
  assumes "i + 1 < 2 ^ 32"
  shows "unat (of_nat i + 1 :: u32) = i + 1"
proof -
  have "unat (of_nat i + 1 :: u32) = unat (of_nat (i + 1) :: u32)" by (simp only: of_nat_add of_nat_1)
  also have "\<dots> = (i + 1) mod 2 ^ 32" by (simp only: unat_of_nat) simp
  finally show ?thesis using assms by (simp only: mod_less)
qed

fun perm_steps :: "'r prf_rng \<Rightarrow> nat list \<Rightarrow> u32 list \<Rightarrow> 'r \<Rightarrow> u32 list \<times> 'r" where
  "perm_steps G [] p r = (p, r)"
| "perm_steps G (i # is) p r =
     (let (j, r') = projr (gen_u32_mod G (of_nat i + 1) r) in perm_steps G is (p[i := p ! unat j, unat j := p ! i]) r')"

lemma permutation_loop_eq:
  assumes "fair_rng G"
  shows "\<forall>i \<in> set is. i < length pa \<Longrightarrow> length pb = length pa \<Longrightarrow> length pa < 2 ^ 32 \<Longrightarrow>
    permutation_loop G is pa pb s = Ret ((fst (perm_steps G is pa (my_prf s)), fst (perm_steps G is pb (prev_prf s))),
      s\<lparr>my_prf := snd (perm_steps G is pa (my_prf s)), prev_prf := snd (perm_steps G is pb (prev_prf s))\<rparr>)"
proof (induction "is" arbitrary: pa pb s)
  case Nil
  then show ?case by (simp add: cret_def)
next
  case (Cons i "is")
  let ?m = "of_nat i + 1 :: u32"
  have i: "i < length pa" "i + 1 < 2 ^ 32" using Cons.prems by auto
  have u: "unat ?m = i + 1" using i(2) by (rule unat_Suc32)
  then have "?m \<noteq> 0" by (metis Suc_eq_plus1 nat.distinct(1) unat_0)
  from gen_u32_mod_ok [OF assms this, of "my_prf s"] gen_u32_mod_ok [OF assms this, of "prev_prf s"]
  obtain a ra b rb where ab: "gen_u32_mod G ?m (my_prf s) = Inr (a, ra)" "a < ?m" "gen_u32_mod G ?m (prev_prf s) = Inr (b, rb)" "b < ?m" by blast
  then have j: "unat a < length pa" "unat b < length pa" using u i(1) by (auto simp: word_less_nat_alt)
  let ?s = "s\<lparr>my_prf := ra, prev_prf := rb\<rparr>"
  have "permutation_loop G (i # is) pa pb s = permutation_loop G is (pa[i := pa ! unat a, unat a := pa ! i]) (pb[i := pb ! unat b, unat b := pb ! i]) ?s"
    using ab j i(1) Cons.prems(2)
    by (simp add: prf_gen_u32_mod_def try_mine_def try_prev_def cbind_def cret_def vec_swap_def or_panic_def ctry_def)
  with Cons.IH [of "pa[i := pa ! unat a, unat a := pa ! i]" "pb[i := pb ! unat b, unat b := pb ! i]" ?s] Cons.prems ab show ?case
    by simp
qed

lemma perm_steps_permutes:
  assumes "fair_rng G"
  shows "\<forall>i \<in> set is. i < length p \<Longrightarrow> length p < 2 ^ 32 \<Longrightarrow> mset (fst (perm_steps G is p r)) = mset p"
proof (induction "is" arbitrary: p r)
  case (Cons i "is")
  let ?m = "of_nat i + 1 :: u32"
  have i: "i < length p" "i + 1 < 2 ^ 32" using Cons.prems by auto
  have u: "unat ?m = i + 1" using i(2) by (rule unat_Suc32)
  then have "?m \<noteq> 0" by (metis Suc_eq_plus1 nat.distinct(1) unat_0)
  from gen_u32_mod_ok [OF assms this, of r] obtain a ra where ab: "gen_u32_mod G ?m r = Inr (a, ra)" "a < ?m" by blast
  then have j: "unat a < length p" using u i(1) by (auto simp: word_less_nat_alt)
  have "mset (p[i := p ! unat a, unat a := p ! i]) = mset p" using j i(1) by (rule mset_swap)
  with Cons.IH [of "p[i := p ! unat a, unat a := p ! i]" ra] Cons.prems ab show ?case by simp
qed simp

text \<open>The permutation a generator yields, as numbers.\<close>

definition perm_of :: "'r prf_rng \<Rightarrow> nat \<Rightarrow> 'r \<Rightarrow> u32 list \<times> 'r" where
  "perm_of G n r = perm_steps G [1..<n] (map of_nat [0..<n]) r"

definition is_perm :: "nat \<Rightarrow> u32 list \<Rightarrow> bool" where
  "is_perm n p \<longleftrightarrow> mset (map unat p) = mset [0..<n]"

lemma is_perm_facts: "is_perm n p \<Longrightarrow> length p = n" "is_perm n p \<Longrightarrow> j < n \<Longrightarrow> unat (p ! j) < n"
proof -
  assume p: "is_perm n p"
  then have "size (mset (map unat p)) = size (mset [0..<n])" by (simp only: is_perm_def)
  then show l: "length p = n" by simp
  have "set (map unat p) = set [0..<n]" using p unfolding is_perm_def by (metis set_mset_mset)
  then show "unat (p ! j) < n" if "j < n" using that l by (metis atLeastLessThan_iff length_map nth_map nth_mem set_upt)
qed

lemma perm_of_is_perm:
  assumes "fair_rng G" "n < 2 ^ 32"
  shows "is_perm n (fst (perm_of G n r))"
proof -
  have "mset (fst (perm_of G n r)) = mset (map of_nat [0..<n])" unfolding perm_of_def
    by (rule perm_steps_permutes [OF assms(1)]) (use assms(2) in auto)
  then have "mset (map unat (fst (perm_of G n r))) = mset (map unat (map of_nat [0..<n] :: u32 list))" by (metis mset_map)
  also have "map unat (map of_nat [0..<n] :: u32 list) = [0..<n]"
    using assms(2) by (intro nth_equalityI) (simp_all add: unat_of_nat)
  finally show ?thesis unfolding is_perm_def .
qed

lemma gen_permutation_eq:
  assumes "fair_rng G" "n < 2 ^ 32"
  shows "gen_permutation G (of_nat n) s = Ret ((fst (perm_of G n (my_prf s)), fst (perm_of G n (prev_prf s))),
    s\<lparr>my_prf := snd (perm_of G n (my_prf s)), prev_prf := snd (perm_of G n (prev_prf s))\<rparr>)"
proof -
  have "unat (of_nat n :: u32) = n" using assms(2) by (simp add: unat_of_nat)
  then show ?thesis unfolding gen_permutation_def Let_def perm_of_def
    using permutation_loop_eq [OF assms(1), of "[1..<n]" "map of_nat [0..<n]" "map of_nat [0..<n]" s] assms(2) by simp
qed

section \<open>Shuffling as a map of positions\<close>

definition pos :: "nat \<Rightarrow> u32 list \<Rightarrow> nat \<Rightarrow> nat" where
  "pos n p m = m div (n * 3) * (n * 3) + unat (p ! (m mod (n * 3) div 3)) * 3 + m mod 3"

lemma pos_parts:
  assumes "is_perm n p" "0 < n"
  shows "pos n p m div (n * 3) = m div (n * 3)" "pos n p m mod (n * 3) div 3 = unat (p ! (m mod (n * 3) div 3))" "pos n p m mod 3 = m mod 3"
proof -
  let ?j = "m mod (n * 3) div 3"
  have "?j < n" using assms(2) by (simp add: less_mult_imp_div_less)
  then have j: "unat (p ! ?j) < n" using is_perm_facts(2) [OF assms(1)] by blast
  let ?q = "unat (p ! ?j) * 3 + m mod 3"
  have q: "?q < n * 3" using j by presburger
  have pos: "pos n p m = m div (n * 3) * (n * 3) + ?q" by (simp add: pos_def)
  show "pos n p m div (n * 3) = m div (n * 3)" unfolding pos using q assms(2) by simp
  have "pos n p m mod (n * 3) = ?q" unfolding pos using q by simp
  then show "pos n p m mod (n * 3) div 3 = unat (p ! ?j)" by simp
  show "pos n p m mod 3 = m mod 3" unfolding pos by (simp add: mult.assoc [symmetric])
qed

lemma pos_less:
  assumes "is_perm n p" "0 < n" "m < n * 3 * k"
  shows "pos n p m < n * 3 * k"
proof -
  have "m div (n * 3) < k" using assms(3) by (simp add: less_mult_imp_div_less mult.commute)
  then have "pos n p m div (n * 3) < k" unfolding pos_parts(1) [OF assms(1,2)] .
  then show ?thesis using assms(2) by (simp add: div_less_iff_less_mult mult.commute)
qed

lemma pos_shift:
  assumes "0 < n" "n * 3 \<le> m"
  shows "pos n p m = n * 3 + pos n p (m - n * 3)"
proof -
  define k where "k = m - n * 3"
  have m: "m = k + n * 3" using assms(2) by (simp add: k_def)
  have "m div (n * 3) = k div (n * 3) + 1" "m mod (n * 3) = k mod (n * 3)" "m mod 3 = k mod 3" unfolding m using assms(1) by simp_all
  then show ?thesis unfolding k_def [symmetric] by (simp add: pos_def add_mult_distrib)
qed

definition shuffled :: "nat \<Rightarrow> u32 list \<Rightarrow> 'b list \<Rightarrow> 'b list" where
  "shuffled n p d = map (\<lambda>m. d ! pos n p m) [0..<length d]"

lemma shuffled_nth: "length (shuffled n p d) = length d" "m < length d \<Longrightarrow> shuffled n p d ! m = d ! pos n p m"
  by (simp_all add: shuffled_def)

lemma shuffle_batch:
  assumes "is_perm n p" "length d = n * 3"
  shows "those (map (\<lambda>i. triplet_slice d (unat i)) p) = Some (map (\<lambda>i. take 3 (drop (unat i * 3) d)) p)"
    and "concat (map (\<lambda>i. take 3 (drop (unat i * 3) d)) p) = shuffled n p d"
proof -
  note p = is_perm_facts [OF assms(1)]
  have in_p: "unat i < n" if "i \<in> set p" for i using that p by (metis in_set_conv_nth)
  show "those (map (\<lambda>i. triplet_slice d (unat i)) p) = Some (map (\<lambda>i. take 3 (drop (unat i * 3) d)) p)"
    by (rule those_map_Some) (use in_p assms(2) in \<open>fastforce simp: triplet_slice_def\<close>)
  have len3: "length (take 3 (drop (unat i * 3) d)) = 3" if "i \<in> set p" for i using in_p [OF that] assms(2) by simp
  have len: "length (concat (map (\<lambda>i. take 3 (drop (unat i * 3) d)) p)) = n * 3"
    using len3 p(1) by (simp add: length_concat comp_def sum_list_triv cong: map_cong)
  show "concat (map (\<lambda>i. take 3 (drop (unat i * 3) d)) p) = shuffled n p d"
  proof (rule nth_equalityI)
    show "length (concat (map (\<lambda>i. take 3 (drop (unat i * 3) d)) p)) = length (shuffled n p d)" using len assms(2) by (simp add: shuffled_def)
    fix m assume "m < length (concat (map (\<lambda>i. take 3 (drop (unat i * 3) d)) p))"
    then have m: "m < n * 3" using len by simp
    then have j: "m div 3 < n" by (simp add: less_mult_imp_div_less)
    have "concat (map (\<lambda>i. take 3 (drop (unat i * 3) d)) p) ! m = take 3 (drop (unat (p ! (m div 3)) * 3) d) ! (m mod 3)"
      by (rule nth_concat_equal [OF len3]) (use m p(1) in simp_all)
    also have "\<dots> = d ! (unat (p ! (m div 3)) * 3 + m mod 3)" using p(2) [OF j] assms(2) by (simp add: mult.commute)
    finally show "concat (map (\<lambda>i. take 3 (drop (unat i * 3) d)) p) ! m = shuffled n p d ! m"
      using m assms(2) by (simp add: shuffled_def pos_def)
  qed
qed

lemma shuffle_triplets_eq:
  assumes "is_perm n p" "0 < n"
  shows "length d = n * 3 * k \<Longrightarrow> shuffle_triplets p (VecRingElement d) n = Some (VecRingElement (shuffled n p d))"
proof -
  have "\<exists>bs. those (map (\<lambda>batch. those (map (\<lambda>i. triplet_slice batch (unat i)) p)) (chunks (n * 3) d)) = Some bs \<and> concat (concat bs) = shuffled n p d"
    if "length d = n * 3 * k" for d :: "'b list"
    using that
  proof (induction k arbitrary: d)
    case 0
    then show ?case by (simp add: shuffled_def)
  next
    case (Suc k)
    let ?b = "take (n * 3) d" and ?r = "drop (n * 3) d"
    have lb: "length ?b = n * 3" and lr: "length ?r = n * 3 * k" using Suc.prems by simp_all
    have c: "chunks (n * 3) d = ?b # chunks (n * 3) ?r" using Suc.prems assms(2) by (subst chunks.simps) auto
    obtain bs where bs: "those (map (\<lambda>batch. those (map (\<lambda>i. triplet_slice batch (unat i)) p)) (chunks (n * 3) ?r)) = Some bs" "concat (concat bs) = shuffled n p ?r"
      using Suc.IH [OF lr] by blast
    have "shuffled n p d = shuffled n p ?b @ shuffled n p ?r"
    proof (rule nth_equalityI)
      fix m assume "m < length (shuffled n p d)"
      then have m: "m < n * 3 * Suc k" using Suc.prems by (simp add: shuffled_def)
      show "shuffled n p d ! m = (shuffled n p ?b @ shuffled n p ?r) ! m"
      proof (cases "m < n * 3")
        case True
        then have "pos n p m < n * 3" using pos_less [OF assms, of m 1] by simp
        then show ?thesis using True lb m Suc.prems by (simp add: shuffled_def nth_append)
      next
        case False
        then have "pos n p m = n * 3 + pos n p (m - n * 3)" using pos_shift [OF assms(2)] by simp
        moreover have "m - n * 3 < n * 3 * k" using False m by simp
        ultimately show ?thesis using False lb lr m Suc.prems by (simp add: shuffled_def nth_append)
      qed
    qed (simp add: shuffled_def Suc.prems)
    moreover note shuffle_batch [OF assms(1) lb]
    ultimately show ?case using bs c by simp
  qed
  then show "length d = n * 3 * k \<Longrightarrow> shuffle_triplets p (VecRingElement d) n = Some (VecRingElement (shuffled n p d))"
    unfolding shuffle_triplets_def using assms(2) by fastforce
qed

section \<open>Draws\<close>

lemma gen_permutation_draws:
  assumes "fair_rng G" "n < 2 ^ 32"
  shows "gen_permutation G (of_nat n) = cbind (draw_mine (perm_of G n)) (\<lambda>a. cbind (draw_prev (perm_of G n)) (\<lambda>b. cret (a, b)))"
  unfolding fun_eq_iff draws_eq gen_permutation_eq [OF assms] cret_def by simp

lemma gen_rands_list_draws:
  "gen_rands_list N n = cbind (draw_mine (gen_list N n)) (\<lambda>a. cbind (draw_prev (gen_list N n)) (\<lambda>b. cret (a, b)))"
proof (induction n)
  case 0
  show ?case by (simp add: fun_eq_iff draws_eq cret_def)
next
  case (Suc n)
  show ?case
    by (simp add: Suc gen_rands_def cbind_assoc fun_eq_iff draws_eq cret_def cbind_def [of "\<lambda>a. Ret (_ a, _ a)"] split_def Let_def)
qed

section \<open>Triples as flat vectors\<close>

definition flat_shares :: "'a IdDistance list \<Rightarrow> 'a share list" where
  "flat_shares d = concat (map (\<lambda>(s, ds). [s, code_dot ds, mask_dot ds]) d)"

definition flat_values :: "('b \<times> 'b \<times> 'b) list \<Rightarrow> 'b list" where
  "flat_values xs = concat (map (\<lambda>(x, y, z). [x, y, z]) xs)"

lemma triplets_flat: "triplets f d = map f (flat_shares d)"
  by (simp add: triplets_def flat_shares_def map_concat split_def comp_def)

lemma length_flat [simp]: "length (flat_shares d) = length d * 3" "length (flat_values xs) = length xs * 3"
  by (induction d, auto simp: flat_shares_def split_def) (induction xs, auto simp: flat_values_def split_def)

lemma concat_triples_nth:
  assumes "k < length xs"
  shows "concat (map (\<lambda>x. [f x, g x, h x]) xs) ! (k * 3) = f (xs ! k) \<and> concat (map (\<lambda>x. [f x, g x, h x]) xs) ! (k * 3 + 1) = g (xs ! k)
    \<and> concat (map (\<lambda>x. [f x, g x, h x]) xs) ! (k * 3 + 2) = h (xs ! k)"
  using assms
proof (induction xs arbitrary: k)
  case (Cons x xs)
  have c: "concat (map (\<lambda>x. [f x, g x, h x]) (x # xs)) = [f x, g x, h x] @ concat (map (\<lambda>x. [f x, g x, h x]) xs)" by simp
  show ?case
  proof (cases k)
    case 0
    then show ?thesis unfolding c by simp
  next
    case (Suc m)
    have e: "Suc m * 3 + t - length [f x, g x, h x] = m * 3 + t" "\<not> Suc m * 3 + t < length [f x, g x, h x]" for t by simp_all
    from Cons.IH [of m] Cons.prems Suc e [of 0] e [of 1] e [of 2] show ?thesis unfolding c nth_append Suc by simp
  qed
qed simp

lemma flat_nth:
  assumes "k < length d"
  shows "flat_shares d ! (k * 3) = fst (d ! k)" "flat_shares d ! (k * 3 + 1) = code_dot (snd (d ! k))" "flat_shares d ! (k * 3 + 2) = mask_dot (snd (d ! k))"
  using concat_triples_nth [OF assms, of fst "\<lambda>x. code_dot (snd x)" "\<lambda>x. mask_dot (snd x)"]
  unfolding flat_shares_def split_def by blast+

lemma flat_values_nth:
  assumes "k < length xs"
  shows "flat_values xs ! (k * 3) = fst (xs ! k)" "flat_values xs ! (k * 3 + 1) = fst (snd (xs ! k))" "flat_values xs ! (k * 3 + 2) = snd (snd (xs ! k))"
  using concat_triples_nth [OF assms, of fst "\<lambda>x. fst (snd x)" "\<lambda>x. snd (snd x)"]
  unfolding flat_values_def split_def by blast+

lemma less_3_cases: "(t :: nat) < 3 \<Longrightarrow> t = 0 \<or> t = 1 \<or> t = 2"
  by linarith

lemma triple_index:
  assumes "(m :: nat) < n * 3"
  obtains k where "k < n" "m = k * 3 \<or> m = k * 3 + 1 \<or> m = k * 3 + 2"
proof -
  have "m = m div 3 * 3 \<or> m = m div 3 * 3 + 1 \<or> m = m div 3 * 3 + 2" by presburger
  moreover have "m div 3 < n" using assms by (simp add: less_mult_imp_div_less)
  ultimately show ?thesis using that by blast
qed

lemma id_dist_sharing_flat: "id_dist_sharing R P d xs \<longleftrightarrow> sharing_add R P (\<lambda>i. flat_shares (d i)) (flat_values xs)"
proof
  assume id: "id_dist_sharing R P d xs"
  then have len: "length (d i) = length xs" for i by (rule id_dist_sharing_length)
  show "sharing_add R P (\<lambda>i. flat_shares (d i)) (flat_values xs)"
  proof (rule sharing_addI)
    show "length (flat_shares (d i)) = length (flat_values xs)" for i by (simp add: len)
    fix m assume "m < length (flat_values xs)"
    then obtain k where k: "k < length xs" "m = k * 3 \<or> m = k * 3 + 1 \<or> m = k * 3 + 2" using triple_index [of m "length xs"] by auto
    from id have s: "sharing_add R P (\<lambda>i. map fst (d i)) (map fst xs)" "sharing_add R P (\<lambda>i. map (\<lambda>x. code_dot (snd x)) (d i)) (map (\<lambda>x. fst (snd x)) xs)"
      "sharing_add R P (\<lambda>i. map (\<lambda>x. mask_dot (snd x)) (d i)) (map (\<lambda>x. snd (snd x)) xs)"
      unfolding id_dist_sharing_def dist_sharing_def by (simp_all add: comp_def)
    from sharing_add_nth [OF s(1), of k] sharing_add_nth [OF s(2), of k] sharing_add_nth [OF s(3), of k] k(1)
    have "replicated (col (\<lambda>i. flat_shares (d i)) m') \<and> share3_wf P (col (\<lambda>i. flat_shares (d i)) m') \<and> open_add R (col (\<lambda>i. flat_shares (d i)) m') = flat_values xs ! m'"
      if "m' = k * 3 \<or> m' = k * 3 + 1 \<or> m' = k * 3 + 2" for m'
      using that flat_nth [of k "d _", unfolded len, OF k(1)] flat_values_nth [OF k(1)] by (elim disjE) (simp_all add: col_def len)
    from this [OF k(2)] show "replicated (col (\<lambda>i. flat_shares (d i)) m) \<and> share3_wf P (col (\<lambda>i. flat_shares (d i)) m) \<and> open_add R (col (\<lambda>i. flat_shares (d i)) m) = flat_values xs ! m" .
  qed
next
  assume s: "sharing_add R P (\<lambda>i. flat_shares (d i)) (flat_values xs)"
  then have len: "length (d i) = length xs" for i using sharing_lengths(1) [of R P "\<lambda>i. flat_shares (d i)" "flat_values xs" i] by simp
  have "sharing_add R P (\<lambda>i. map g (d i)) (map h xs)"
    if "\<And>k. k < length xs \<Longrightarrow> f k < length xs * 3 \<and> (\<forall>i. flat_shares (d i) ! f k = g (d i ! k)) \<and> flat_values xs ! f k = h (xs ! k)" for f g h
  proof (rule sharing_addI)
    fix k assume "k < length (map h xs)"
    then have k: "k < length xs" by simp
    from sharing_add_nth [OF s, of "f k"] that [OF k] k
    show "replicated (col (\<lambda>i. map g (d i)) k) \<and> share3_wf P (col (\<lambda>i. map g (d i)) k) \<and> open_add R (col (\<lambda>i. map g (d i)) k) = map h xs ! k"
      by (simp add: col_def len)
  qed (simp add: len)
  from this [of "\<lambda>k. k * 3" fst fst] this [of "\<lambda>k. k * 3 + 1" "\<lambda>x. code_dot (snd x)" "\<lambda>x. fst (snd x)"]
    this [of "\<lambda>k. k * 3 + 2" "\<lambda>x. mask_dot (snd x)" "\<lambda>x. snd (snd x)"]
  show "id_dist_sharing R P d xs" unfolding id_dist_sharing_def dist_sharing_def
    by (simp add: len flat_nth flat_nth(2,3) [simplified] flat_values_nth(2,3) [simplified] flat_values_nth comp_def)
qed

lemma flat_reconstruct:
  assumes "length a = n * 3" "length b = n * 3"
  shows "flat_shares (reconstruct_id_distance_vector (VecRingElement a) (VecRingElement b)) = map2 share_new a b"
    "length (reconstruct_id_distance_vector (VecRingElement a) (VecRingElement b)) = n"
proof -
  let ?s = "map2 share_new a b"
  have len: "length ?s = 3 * n" using assms by simp
  have r: "reconstruct_id_distance_vector (VecRingElement a) (VecRingElement b) =
      map (\<lambda>k. (?s ! (k * 3), distance_share_new (?s ! (k * 3 + 1)) (?s ! (k * 3 + 2)))) [0..<n]"
    unfolding reconstruct_id_distance_vector_def VecRingElement.sel tuples3_eq [OF len] by simp
  show l: "length (reconstruct_id_distance_vector (VecRingElement a) (VecRingElement b)) = n" unfolding r by simp
  show "flat_shares (reconstruct_id_distance_vector (VecRingElement a) (VecRingElement b)) = ?s"
  proof (rule nth_equalityI)
    show "length (flat_shares (reconstruct_id_distance_vector (VecRingElement a) (VecRingElement b))) = length ?s" using l len by simp
    fix m assume "m < length (flat_shares (reconstruct_id_distance_vector (VecRingElement a) (VecRingElement b)))"
    then obtain k where k: "k < n" "m = k * 3 \<or> m = k * 3 + 1 \<or> m = k * 3 + 2" using l triple_index [of m n] by auto
    with l show "flat_shares (reconstruct_id_distance_vector (VecRingElement a) (VecRingElement b)) ! m = ?s ! m"
      by (elim disjE) (simp_all only: flat_nth, simp_all add: r distance_share_new_def)
  qed
qed

section \<open>One party at a time\<close>

definition plus_res :: "'a int_ring2k \<Rightarrow> 'a RingElement list \<Rightarrow> 'a RingElement list \<Rightarrow> 'a RingElement list" where
  "plus_res R xs ys = map2 (re_add R) xs ys"

definition minus_res :: "'a int_ring2k \<Rightarrow> 'a RingElement list \<Rightarrow> 'a RingElement list \<Rightarrow> 'a RingElement list" where
  "minus_res R xs ys = map2 (re_sub R) xs ys"

lemma vre_results:
  "length xs = length ys \<Longrightarrow> vre_add R (VecRingElement xs) (VecRingElement ys) = Inr (VecRingElement (plus_res R xs ys))"
  "length xs = length ys \<Longrightarrow> vre_sub R (VecRingElement xs) (VecRingElement ys) = Inr (VecRingElement (minus_res R xs ys))"
  by (simp_all add: vre_add_def vre_sub_def plus_res_def minus_res_def)

lemma res_facts [simp]:
  "length (plus_res R xs ys) = min (length xs) (length ys)" "length (minus_res R xs ys) = min (length xs) (length ys)"
  "m < length xs \<Longrightarrow> m < length ys \<Longrightarrow> plus_res R xs ys ! m = re_add R (xs ! m) (ys ! m)"
  "m < length xs \<Longrightarrow> m < length ys \<Longrightarrow> minus_res R xs ys ! m = re_sub R (xs ! m) (ys ! m)"
  by (simp_all add: plus_res_def minus_res_def)

lemma send_prev_bind:
  assumes "net_at addr sid i s" "to_network (ring_vec_message N v) = Ok bs"
  shows "cbind (send_ring_vec_prev N v) f s = Send (addr (prev_id i)) bs (f () s)"
  using sends_eq(2) [OF assms] by (simp add: cbind_def send_ring_vec_prev_eq)

lemma receive_next_bind:
  assumes "net_at addr sid i s"
  shows "cbind (receive_ring_vec_next N) f s = Recv (addr (next_id i)) (vec_in N f s)"
  using receives_eq(2) [OF assms]
  by (simp add: receive_ring_vec_next_def cbind_assoc vec_in_def [abs_def] cbind_def [of receive_next])

text \<open>The messages of the shuffle, started by party \<open>k\<close>.\<close>

lemma delivers_shuffle:
  assumes "inj addr"
    and P0: "P k = Send (addr (next_id k)) x1 (Ret (y k))"
    and P1: "P (next_id k) = Send (addr (prev_id k)) y0 (Recv (addr k) c1)" "c1 x1 = Send (addr (prev_id k)) t1 (Recv (addr (prev_id k)) d1)"
      "d1 t2 = Ret (y (next_id k))"
    and P2: "P (prev_id k) = Recv (addr (next_id k)) c2" "c2 y0 = Send (addr (next_id k)) t2 (Recv (addr (next_id k)) d2)" "d2 t1 = Ret (y (prev_id k))"
  shows "delivers addr P y"
proof (rule delivers_schedule [where sch = "[k, next_id k, next_id k, next_id k, prev_id k, prev_id k, prev_id k, next_id k]" and Q = "\<lambda>i. Ret (y i)"])
  show "run_schedule addr [k, next_id k, next_id k, next_id k, prev_id k, prev_id k, prev_id k, next_id k] (P, no_messages)
    = Some (\<lambda>i. Ret (y i), no_messages)"
    using P0 P1 P2
    by (cases k) (simp_all add: no_messages_def inj_addr [OF assms(1)] PartyID_fun_eq fun_eq_iff [where 'a = "Identity \<times> Identity"])
qed (simp_all add: delivers_Ret)

text \<open>The parts of the three programs after the symmetric draws.\<close>

definition shuffle_rest :: "('r, 'a) net_int \<Rightarrow> nat \<Rightarrow> nat \<Rightarrow> 'a IdDistance list \<Rightarrow> u32 list \<times> u32 list \<Rightarrow> 'a RingElement list \<times> 'a RingElement list
    \<Rightarrow> ('r session, 'a IdDistance list) comp" where
  "shuffle_rest N j n d = (\<lambda>(p, q) (z, w).
     let R = ni_ring N; l = length d * 3; a = triplets share_a d; b = triplets share_b d in
     if j = 0 then cbind (send_ring_vec_next N (VecRingElement (shuffled n q (plus_res R (shuffled n p (plus_res R (plus_res R a b) z)) w)))) (\<lambda>_.
       cbind (gen_rands_list N l) (\<lambda>(tb, ta). cret (reconstruct_id_distance_vector (VecRingElement tb) (VecRingElement ta))))
     else if j = 1 then cbind (send_ring_vec_next N (VecRingElement (shuffled n q (minus_res R a w)))) (\<lambda>_.
       cbind (receive_ring_vec_prev N) (\<lambda>x1.
       cbind (ctry (of_bail (vre_add R x1 (VecRingElement z)))) (\<lambda>x1z.
       cbind (ctry (or_panic (shuffle_triplets p x1z n))) (\<lambda>x2.
       cbind (draw_prev (gen_list N (vre_len x2))) (\<lambda>tilde_b.
       cbind (ctry (of_bail (vre_sub R x2 (VecRingElement tilde_b)))) (\<lambda>tilde_c1.
       cbind (send_ring_vec_next N tilde_c1) (\<lambda>_.
       cbind (receive_ring_vec_next N) (\<lambda>tilde_c2.
       cbind (ctry (of_bail (vre_add R tilde_c1 tilde_c2))) (\<lambda>tilde_c.
         cret (reconstruct_id_distance_vector tilde_c (VecRingElement tilde_b)))))))))))
     else cbind (receive_ring_vec_prev N) (\<lambda>y0.
      cbind (ctry (of_bail (vre_sub R y0 (VecRingElement z)))) (\<lambda>y0z.
      cbind (ctry (or_panic (shuffle_triplets p y0z n))) (\<lambda>y1.
      cbind (ctry (of_bail (vre_sub R y1 (VecRingElement w)))) (\<lambda>y1z.
      cbind (ctry (or_panic (shuffle_triplets q y1z n))) (\<lambda>y2.
      cbind (draw_mine (gen_list N (vre_len y2))) (\<lambda>tilde_a.
      cbind (ctry (of_bail (vre_sub R y2 (VecRingElement tilde_a)))) (\<lambda>tilde_c2.
      cbind (send_ring_vec_prev N tilde_c2) (\<lambda>_.
      cbind (receive_ring_vec_prev N) (\<lambda>tilde_c1.
      cbind (ctry (of_bail (vre_add R tilde_c1 tilde_c2))) (\<lambda>tilde_c.
        cret (reconstruct_id_distance_vector (VecRingElement tilde_a) tilde_c))))))))))))"

lemma shuffle_party_draws:
  fixes N :: "('r, 'a) net_int"
  assumes G: "fair_rng G" and n: "0 < n" "n < 2 ^ 32" and len: "length d = n * k"
  defines "draws \<equiv> \<lambda>j. cbind (draw_mine (perm_of G n)) (\<lambda>p. cbind (draw_prev (perm_of G n)) (\<lambda>q.
    cbind (draw_mine (gen_list N (length d * 3))) (\<lambda>z. cbind (draw_prev (gen_list N (length d * 3))) (\<lambda>w. shuffle_rest N j n d (p, q) (z, w)))))"
  shows "shuffle_party_0 G N d n = draws 0" "shuffle_party_1 G N d n = draws 1" "shuffle_party_2 G N d n = draws 2"
proof -
  have perm: "is_perm n (fst (perm_of G n r))" for r by (rule perm_of_is_perm [OF G n(2)])
  have tr: "length (triplets f d) = length d * 3" for f :: "'a share \<Rightarrow> 'a RingElement" by (simp add: triplets_flat)
  have l3: "length d * 3 = n * 3 * k" using len by simp
  note shuffle = shuffle_triplets_eq [OF perm n(1), where k = k, folded l3]
  note facts = gen_permutation_draws [OF G n(2)] gen_rands_list_draws cbind_assoc draws_eq shuffle_rest_def Let_def vre_len_def tr vre_results shuffled_nth shuffle
    mult.commute [of 3]
  show "shuffle_party_0 G N d n = draws 0"
    unfolding fun_eq_iff draws_def shuffle_party_0_def by (simp add: facts)
  show "shuffle_party_1 G N d n = draws 1"
    unfolding fun_eq_iff draws_def shuffle_party_1_def by (simp add: facts)
  show "shuffle_party_2 G N d n = draws 2"
    unfolding fun_eq_iff draws_def shuffle_party_2_def by (simp add: facts)
qed

text \<open>The vectors of the protocol, by the permutations and masks of the parties.\<close>

record 'a shuffle_values =
  sv_x1 :: "'a RingElement list"
  sv_y0 :: "'a RingElement list"
  sv_c1 :: "'a RingElement list"
  sv_c2 :: "'a RingElement list"

definition shuffle_values_of :: "'a int_ring2k \<Rightarrow> nat \<Rightarrow> (nat \<Rightarrow> 'a RingElement list) \<Rightarrow> (nat \<Rightarrow> u32 list) \<Rightarrow> (nat \<Rightarrow> 'a RingElement list)
    \<Rightarrow> 'a RingElement list \<Rightarrow> 'a RingElement list \<Rightarrow> 'a shuffle_values" where
  "shuffle_values_of R n A p z tb ta =
     (let x1 = shuffled n (p 2) (plus_res R (shuffled n (p 0) (plus_res R (plus_res R (A 0) (A 2)) (z 0))) (z 2));
          y0 = shuffled n (p 0) (minus_res R (A 1) (z 0))
      in \<lparr>sv_x1 = x1, sv_y0 = y0, sv_c1 = minus_res R (shuffled n (p 1) (plus_res R x1 (z 1))) tb,
          sv_c2 = minus_res R (shuffled n (p 1) (minus_res R (shuffled n (p 2) (minus_res R y0 (z 2))) (z 1))) ta\<rparr>)"

definition shuffle_out :: "'a int_ring2k \<Rightarrow> 'a shuffle_values \<Rightarrow> 'a RingElement list \<Rightarrow> 'a RingElement list \<Rightarrow> nat \<Rightarrow> 'a RingElement list" where
  "shuffle_out R v tb ta j = (if j = 0 then tb else if j = 1 then plus_res R (sv_c1 v) (sv_c2 v) else ta)"

lemma length_shuffle_values:
  assumes "\<And>j. length (A j) = l" "\<And>j. length (z j) = l" "length tb = l" "length ta = l"
  shows "length (sv_x1 (shuffle_values_of R n A p z tb ta)) = l" "length (sv_y0 (shuffle_values_of R n A p z tb ta)) = l"
    "length (sv_c1 (shuffle_values_of R n A p z tb ta)) = l" "length (sv_c2 (shuffle_values_of R n A p z tb ta)) = l"
  using assms by (simp_all add: shuffle_values_of_def Let_def shuffled_nth)

lemma vec_in_step:
  assumes "deserialize bs = Ok w" "into_vec N w = Ok v" "q = f (VecRingElement v) s"
  shows "vec_in N f s bs = q"
  using vec_in_eq [OF assms(1,2)] assms(3) by simp

lemma all_parties: "(\<forall>i. Q i) \<longleftrightarrow> Q k \<and> Q (next_id k) \<and> Q (prev_id k)"
proof -
  have "i = k \<or> i = next_id k \<or> i = prev_id k" for i by (cases i; cases k) simp_all
  then show ?thesis by metis
qed

context network_int
begin

text \<open>The result of every party and the messages it needs for it.\<close>

lemma delivers_shuffle_rest:
  fixes S :: "PartyID \<Rightarrow> 'r session" and A :: "nat \<Rightarrow> 'a RingElement list" and d :: "PartyID \<Rightarrow> 'a IdDistance list"
  assumes S: "linked addr sid S" and n: "0 < n" and p: "\<And>j. is_perm n (p j)" and l: "l = n * 3 * b" "length (d k) * 3 = l"
    and lens: "\<And>j. length (A j) = l" "\<And>j. length (z j) = l"
    and A: "triplets share_a (d k) = A 0" "triplets share_b (d k) = A 2" "triplets share_a (d (next_id k)) = A 1"
  defines "tb \<equiv> fst (gen_list N l (my_prf (S k)))" and "ta \<equiv> fst (gen_list N l (prev_prf (S k)))"
  defines "v \<equiv> shuffle_values_of ring n A p z tb ta"
  defines "out \<equiv> shuffle_out ring v tb ta"
  assumes sent: "to_network (ring_vec_message N (VecRingElement (sv_x1 v))) = Ok bx" "deserialize bx = Ok wx" "into_vec N wx = Ok (sv_x1 v)"
    "to_network (ring_vec_message N (VecRingElement (sv_y0 v))) = Ok by0" "deserialize by0 = Ok wy" "into_vec N wy = Ok (sv_y0 v)"
    "to_network (ring_vec_message N (VecRingElement (sv_c1 v))) = Ok b1" "deserialize b1 = Ok w1" "into_vec N w1 = Ok (sv_c1 v)"
    "to_network (ring_vec_message N (VecRingElement (sv_c2 v))) = Ok b2" "deserialize b2 = Ok w2" "into_vec N w2 = Ok (sv_c2 v)"
  shows "\<exists>S'. linked addr sid S' \<and> delivers addr
    ((\<lambda>i. shuffle_rest N 2 n (d i) (p 2, p 1) (z 2, z 1) (S i))
       (k := shuffle_rest N 0 n (d k) (p 0, p 2) (z 0, z 2) (S k), next_id k := shuffle_rest N 1 n (d (next_id k)) (p 1, p 0) (z 1, z 0) (S (next_id k))))
    ((\<lambda>i. (reconstruct_id_distance_vector (VecRingElement (out 2)) (VecRingElement (out 1)), S' i))
       (k := (reconstruct_id_distance_vector (VecRingElement (out 0)) (VecRingElement (out 2)), S' k),
        next_id k := (reconstruct_id_distance_vector (VecRingElement (out 1)) (VecRingElement (out 0)), S' (next_id k))))"
proof -
  have at: "net_at addr sid i (S i)" for i using S by (simp add: linked_def net_linked_def)
  have nx: "next_id (next_id k) = prev_id k" "next_id (prev_id k) = k" "prev_id (next_id k) = k" "prev_id (prev_id k) = next_id k" by (cases k; simp)+
  have neq: "prev_id k \<noteq> next_id k" "next_id k \<noteq> prev_id k" "next_id k \<noteq> k" "prev_id k \<noteq> k" "k \<noteq> next_id k" "k \<noteq> prev_id k" by (cases k; simp)+
  define S' where "S' = S(k := S k\<lparr>my_prf := snd (gen_list N l (my_prf (S k))), prev_prf := snd (gen_list N l (prev_prf (S k)))\<rparr>,
    next_id k := S (next_id k)\<lparr>prev_prf := snd (gen_list N l (prev_prf (S (next_id k))))\<rparr>,
    prev_id k := S (prev_id k)\<lparr>my_prf := snd (gen_list N l (my_prf (S (prev_id k))))\<rparr>)"
  have link: "prev_prf (S (next_id k)) = my_prf (S k)" "my_prf (S (prev_id k)) = prev_prf (S k)"
    using S prev_prf_linked [OF S, of k] by (simp_all add: linked_def)
  have "linked addr sid S'"
    using S link nx neq unfolding linked_def net_linked_def all_parties [of _ k] S'_def by simp
  moreover have lengths: "length tb = l" "length ta = l" by (simp_all add: tb_def ta_def)
  note lv = length_shuffle_values [of A l z tb ta ring n p, OF lens lengths, folded v_def]
  note shuffle = shuffle_triplets_eq [OF p n, where k = b, folded l(1)]
  note eqs = shuffle_rest_def Let_def cbind_assoc draw_bind draws_eq gen_rands_list_draws vre_len_def vre_results shuffle lengths lens shuffled_nth lv nx
  note net = receive_bind [where addr = addr and sid = sid] send_bind [where addr = addr and sid = sid]
    receive_next_bind [where addr = addr and sid = sid] send_prev_bind [where addr = addr and sid = sid]
  let ?X2 = "shuffled n (p 1) (plus_res ring (sv_x1 v) (z 1))" and ?Y1 = "shuffled n (p 2) (minus_res ring (sv_y0 v) (z 2))"
  let ?Y2 = "shuffled n (p 1) (minus_res ring ?Y1 (z 1))"
  have sv: "shuffled n (p 2) (plus_res ring (shuffled n (p 0) (plus_res ring (plus_res ring (A 0) (A 2)) (z 0))) (z 2)) = sv_x1 v"
    "shuffled n (p 0) (minus_res ring (A 1) (z 0)) = sv_y0 v" "minus_res ring ?X2 tb = sv_c1 v" "minus_res ring ?Y2 ta = sv_c2 v"
    by (simp_all add: v_def shuffle_values_of_def Let_def)
  have out: "out 0 = tb" "out 1 = plus_res ring (sv_c1 v) (sv_c2 v)" "out 2 = ta" by (simp_all add: out_def shuffle_out_def)
  have S'k: "S' k = S k\<lparr>my_prf := snd (gen_list N l (my_prf (S k))), prev_prf := snd (gen_list N l (prev_prf (S k)))\<rparr>"
    "S' (next_id k) = S (next_id k)\<lparr>prev_prf := snd (gen_list N l (my_prf (S k)))\<rparr>"
    "S' (prev_id k) = S (prev_id k)\<lparr>my_prf := snd (gen_list N l (prev_prf (S k)))\<rparr>"
    using neq link by (simp_all add: S'_def)
  have P0: "shuffle_rest N 0 n (d k) (p 0, p 2) (z 0, z 2) (S k) =
      Send (addr (next_id k)) bx (Ret (reconstruct_id_distance_vector (VecRingElement (out 0)) (VecRingElement (out 2)), S' k))"
    unfolding out S'k by (simp add: eqs A sv l(2) send_bind [OF at sent(1)] cret_def tb_def ta_def)
  let ?s1 = "S (next_id k)"
  have at1: "net_at addr sid (next_id k) ?s1" "net_at addr sid (next_id k) (S' (next_id k))" using at [of "next_id k"] by (simp_all add: S'k)
  have P1: "\<exists>c1 d1. shuffle_rest N 1 n (d (next_id k)) (p 1, p 0) (z 1, z 0) ?s1 = Send (addr (prev_id k)) by0 (Recv (addr k) c1)
      \<and> c1 bx = Send (addr (prev_id k)) b1 (Recv (addr (prev_id k)) d1)
      \<and> d1 b2 = Ret (reconstruct_id_distance_vector (VecRingElement (out 1)) (VecRingElement (out 0)), S' (next_id k))"
    using sent(4,7) at1 unfolding out S'k
    by (simp add: eqs A sv link net vec_in_eq [OF sent(2,3)] vec_in_eq [OF sent(11,12)] cret_def flip: tb_def del: One_nat_def)
  let ?s2 = "S (prev_id k)"
  have at2: "net_at addr sid (prev_id k) ?s2" "net_at addr sid (prev_id k) (S' (prev_id k))" using at [of "prev_id k"] by (simp_all add: S'k)
  have P2: "\<exists>c2 d2. shuffle_rest N 2 n (d (prev_id k)) (p 2, p 1) (z 2, z 1) ?s2 = Recv (addr (next_id k)) c2
      \<and> c2 by0 = Send (addr (next_id k)) b2 (Recv (addr (next_id k)) d2)
      \<and> d2 b1 = Ret (reconstruct_id_distance_vector (VecRingElement (out 2)) (VecRingElement (out 1)), S' (prev_id k))"
    using sent(10) at2 unfolding out S'k
    by (simp add: eqs A sv link net vec_in_eq [OF sent(5,6)] vec_in_eq [OF sent(8,9)] cret_def flip: ta_def del: One_nat_def)
  obtain c1 d1 c2 d2 where c: "shuffle_rest N 1 n (d (next_id k)) (p 1, p 0) (z 1, z 0) ?s1 = Send (addr (prev_id k)) by0 (Recv (addr k) c1)"
      "c1 bx = Send (addr (prev_id k)) b1 (Recv (addr (prev_id k)) d1)"
      "d1 b2 = Ret (reconstruct_id_distance_vector (VecRingElement (out 1)) (VecRingElement (out 0)), S' (next_id k))"
      "shuffle_rest N 2 n (d (prev_id k)) (p 2, p 1) (z 2, z 1) ?s2 = Recv (addr (next_id k)) c2"
      "c2 by0 = Send (addr (next_id k)) b2 (Recv (addr (next_id k)) d2)"
      "d2 b1 = Ret (reconstruct_id_distance_vector (VecRingElement (out 2)) (VecRingElement (out 1)), S' (prev_id k))"
    using P1 P2 by blast
  have "delivers addr
    ((\<lambda>i. shuffle_rest N 2 n (d i) (p 2, p 1) (z 2, z 1) (S i))
       (k := shuffle_rest N 0 n (d k) (p 0, p 2) (z 0, z 2) (S k), next_id k := shuffle_rest N 1 n (d (next_id k)) (p 1, p 0) (z 1, z 0) (S (next_id k))))
    ((\<lambda>i. (reconstruct_id_distance_vector (VecRingElement (out 2)) (VecRingElement (out 1)), S' i))
       (k := (reconstruct_id_distance_vector (VecRingElement (out 0)) (VecRingElement (out 2)), S' k),
        next_id k := (reconstruct_id_distance_vector (VecRingElement (out 1)) (VecRingElement (out 0)), S' (next_id k))))"
    by (rule delivers_shuffle [where k = k and ?x1.0 = bx and ?y0.0 = by0 and ?t1.0 = b1 and ?t2.0 = b2 and ?c1.0 = c1 and ?c2.0 = c2 and ?d1.0 = d1 and ?d2.0 = d2])
      (use net_at_inj [OF at] P0 c neq in simp_all)
  then show ?thesis using calculation by blast
qed

end

section \<open>The sums\<close>

definition pos3 :: "nat \<Rightarrow> (nat \<Rightarrow> u32 list) \<Rightarrow> nat \<Rightarrow> nat" where
  "pos3 n p m = pos n (p 0) (pos n (p 2) (pos n (p 1) m))"

context network_int
begin

lemma add_rotate:
  assumes "wf (convert a)" "wf (convert b)" "wf (convert c)"
  shows "re_add ring (re_add ring b c) a = re_add ring (re_add ring a b) c" "re_add ring (re_add ring c a) b = re_add ring (re_add ring a b) c"
  using assms by (simp_all add: re_defs wf_intros val_eq_iff val_arith mod_simps add_ac)

lemma masks_cancel:
  assumes "wf (convert a)" "wf (convert b)" "wf (convert c)" "wf (convert z0)" "wf (convert z1)" "wf (convert z2)" "wf (convert tb)" "wf (convert ta)"
  shows "re_add ring (re_add ring tb (re_add ring (re_sub ring (re_add ring (re_add ring (re_add ring (re_add ring a b) z0) z2) z1) tb)
      (re_sub ring (re_sub ring (re_sub ring (re_sub ring c z0) z2) z1) ta))) ta = re_add ring (re_add ring a c) b"
  using assms by (simp add: re_defs wf_intros val_eq_iff val_arith mod_simps) (simp add: algebra_simps)

lemma shuffled_sum:
  assumes n: "0 < n" and p: "\<And>j. is_perm n (p j)" and l: "l = n * 3 * b" and m: "m < l"
    and lens: "\<And>j. length (A j) = l" "\<And>j. length (z j) = l" "length tb = l" "length ta = l"
    and wfs: "\<And>j. wfs (A j)" "\<And>j. wfs (z j)" "wfs tb" "wfs ta"
  defines "out \<equiv> shuffle_out ring (shuffle_values_of ring n A p z tb ta) tb ta"
  shows "re_add ring (re_add ring (out 0 ! m) (out 1 ! m)) (out 2 ! m) =
    re_add ring (re_add ring (A 0 ! pos3 n p m) (A 1 ! pos3 n p m)) (A 2 ! pos3 n p m)" (is ?sum) and "wf (convert (out j ! m))" (is ?wf)
proof -
  let ?r = "pos n (p 1) m" let ?q = "pos n (p 2) ?r" let ?w = "pos n (p 0) ?q"
  have r: "?r < l" using pos_less [OF p n] m unfolding l by blast
  then have q: "?q < l" using pos_less [OF p n] unfolding l by blast
  then have w: "?w < l" using pos_less [OF p n] unfolding l by blast
  let ?x = "re_add ring (re_add ring (re_add ring (re_add ring (A 0 ! ?w) (A 2 ! ?w)) (z 0 ! ?w)) (z 2 ! ?q)) (z 1 ! ?r)"
  let ?y = "re_sub ring (re_sub ring (re_sub ring (A 1 ! ?w) (z 0 ! ?w)) (z 2 ! ?q)) (z 1 ! ?r)"
  have out: "out 0 ! m = tb ! m" "out 1 ! m = re_add ring (re_sub ring ?x (tb ! m)) (re_sub ring ?y (ta ! m))" "out 2 ! m = ta ! m"
    using m r q w lens by (simp_all add: out_def shuffle_out_def shuffle_values_of_def Let_def shuffled_nth del: One_nat_def)
  have wf: "wf (convert (xs ! i))" if "wfs xs" "length xs = l" "i < l" for xs i using that by simp
  note facts = wf [OF wfs(1) lens(1) w, of 0] wf [OF wfs(1) lens(1) w, of 2] wf [OF wfs(1) lens(1) w, of 1] wf [OF wfs(2) lens(2) w, of 0]
    wf [OF wfs(2) lens(2) r, of 1] wf [OF wfs(2) lens(2) q, of 2] wf [OF wfs(3) lens(3) m] wf [OF wfs(4) lens(4) m]
  show ?sum unfolding out pos3_def by (rule masks_cancel [OF facts])
  have "out j = out 0 \<or> out j = out 1 \<or> out j = out 2" by (simp add: out_def shuffle_out_def)
  moreover have "wf (convert (out 1 ! m))" unfolding out using facts by (simp add: re_defs wf_intros)
  ultimately show ?wf using out(1,3) facts(7,8) by metis
qed

end

section \<open>Permuted batches\<close>

text \<open>The permutation of the three parties together.\<close>

definition joint_perm :: "nat \<Rightarrow> (nat \<Rightarrow> u32 list) \<Rightarrow> nat list" where
  "joint_perm n p = map (\<lambda>j. unat (p 0 ! unat (p 2 ! unat (p 1 ! j)))) [0..<n]"

lemma perm_of_positions:
  assumes "is_perm n p" "mset js = mset [0..<n]"
  shows "mset (map (\<lambda>j. unat (p ! j)) js) = mset [0..<n]"
proof -
  have "mset (map (\<lambda>j. unat (p ! j)) js) = mset (map (\<lambda>j. unat (p ! j)) [0..<n])" using assms(2) by (metis mset_map)
  also have "map (\<lambda>j. unat (p ! j)) [0..<n] = map unat p"
    using is_perm_facts(1) [OF assms(1)] by (intro nth_equalityI) simp_all
  finally show ?thesis using assms(1) by (simp add: is_perm_def)
qed

lemma joint_perm_permutes:
  assumes "\<And>j. is_perm n (p j)"
  shows "mset (joint_perm n p) = mset [0..<n]"
proof -
  have "mset (map (\<lambda>j. unat (p 0 ! j)) (map (\<lambda>j. unat (p 2 ! j)) (map (\<lambda>j. unat (p 1 ! j)) [0..<n]))) = mset [0..<n]"
    using perm_of_positions [OF assms] by blast
  then show ?thesis by (simp only: joint_perm_def map_map comp_def)
qed

lemma pos_triple:
  assumes "is_perm n p" "t < 3" "j < n"
  shows "pos n p ((b * n + j) * 3 + t) = (b * n + unat (p ! j)) * 3 + t" "unat (p ! j) < n"
proof -
  show "unat (p ! j) < n" by (rule is_perm_facts(2) [OF assms(1,3)])
  have jt: "j * 3 + t < n * 3" using assms(2,3) by linarith
  have e: "(b * n + j) * 3 + t = b * (n * 3) + (j * 3 + t)" by (simp add: algebra_simps)
  have "((b * n + j) * 3 + t) div (n * 3) = b" unfolding e using jt by simp
  moreover have "((b * n + j) * 3 + t) mod (n * 3) = j * 3 + t" unfolding e using jt by simp
  moreover have "(j * 3 + t) div 3 = j" using assms(2) by simp
  moreover have "((b * n + j) * 3 + t) mod 3 = t" by (subst mod_mult_self3) (simp add: assms(2))
  ultimately show "pos n p ((b * n + j) * 3 + t) = (b * n + unat (p ! j)) * 3 + t"
    unfolding pos_def by (simp add: algebra_simps)
qed

lemma pos3_triple:
  assumes "\<And>j. is_perm n (p j)" "t < 3" "j < n"
  shows "pos3 n p ((b * n + j) * 3 + t) = (b * n + joint_perm n p ! j) * 3 + t" "joint_perm n p ! j < n"
proof -
  have a: "unat (p 1 ! j) < n" using pos_triple(2) [OF assms] .
  then have b: "unat (p 2 ! unat (p 1 ! j)) < n" by (rule pos_triple(2) [OF assms(1,2)])
  then show "joint_perm n p ! j < n" unfolding joint_perm_def using pos_triple(2) [OF assms(1,2)] assms(3) by simp
  show "pos3 n p ((b * n + j) * 3 + t) = (b * n + joint_perm n p ! j) * 3 + t"
    unfolding pos3_def pos_triple(1) [OF assms] pos_triple(1) [OF assms(1,2) a] pos_triple(1) [OF assms(1,2) b] using assms(3) by (simp add: joint_perm_def)
qed

text \<open>Every batch of a flat list permuted.\<close>

definition permuted :: "nat \<Rightarrow> nat list \<Rightarrow> 'b list \<Rightarrow> 'b list" where
  "permuted n js xs = map (\<lambda>m. xs ! (m div n * n + js ! (m mod n))) [0..<length xs]"

lemma flat_permuted:
  assumes p: "\<And>j. is_perm n (p j)" and n: "0 < n" and len: "length xs = n * b"
  shows "flat_values (permuted n (joint_perm n p) xs) = map (\<lambda>m. flat_values xs ! pos3 n p m) [0..<length xs * 3]"
proof (rule nth_equalityI)
  show "length (flat_values (permuted n (joint_perm n p) xs)) = length (map (\<lambda>m. flat_values xs ! pos3 n p m) [0..<length xs * 3])"
    by (simp add: permuted_def)
  fix m assume "m < length (flat_values (permuted n (joint_perm n p) xs))"
  then have m: "m < length xs * 3" by (simp add: permuted_def)
  then obtain i where i: "i < length xs" "m = i * 3 \<or> m = i * 3 + 1 \<or> m = i * 3 + 2" using triple_index by blast
  then obtain t where t: "t < 3" "m = i * 3 + t" using that [of 0] that [of 1] that [of 2] by auto
  let ?c = "i div n" and ?j = "i mod n"
  have j: "?j < n" using n by simp
  have ij: "i = ?c * n + ?j" by simp
  let ?k = "?c * n + joint_perm n p ! ?j"
  have c: "?c < b" using i(1) len by (simp add: less_mult_imp_div_less mult.commute)
  have "?k < n * b"
  proof -
    have "?k < ?c * n + n" using pos3_triple(2) [of n p t ?j] p t(1) j by simp
    also have "\<dots> \<le> n * b" using c by (metis Suc_leI add.commute mult.commute mult_Suc mult_le_mono2)
    finally show ?thesis .
  qed
  then have k: "?k < length xs" using len by simp
  have "pos3 n p m = ?k * 3 + t" using pos3_triple(1) [of n p t ?j ?c] p t(1) j ij t(2) by simp
  moreover have pi: "permuted n (joint_perm n p) xs ! i = xs ! ?k" "i < length (permuted n (joint_perm n p) xs)" using i(1) by (simp_all add: permuted_def)
  have "flat_values (permuted n (joint_perm n p) xs) ! (i * 3 + t) = flat_values xs ! (?k * 3 + t)"
    using t(1) flat_values_nth [OF k] flat_values_nth [OF pi(2)] pi(1) less_3_cases [OF t(1)] by (elim disjE) (simp_all only: add_0_right)
  ultimately show "flat_values (permuted n (joint_perm n p) xs) ! m = map (\<lambda>m. flat_values xs ! pos3 n p m) [0..<length xs * 3] ! m"
    using m t(2) by simp
qed

section \<open>The three parties together\<close>

lemma shuffle_role_rotated:
  assumes "unat sid + 2 < 2 ^ 32"
  shows "unat (shuffle_role sid (Role (u8_from_party i))) = rotated sid i"
proof -
  have sum: "unat (sid + u) = unat sid + unat u" if "unat u \<le> 2" for u
    using that assms by (subst unat_add_lem [THEN iffD1]) simp_all
  have "unat (of_nat (usize_from_party i) :: u32) = usize_from_party i" "usize_from_party i \<le> 2" by (cases i; simp)+
  with sum [of "of_nat (usize_from_party i)"] have "unat (sid + of_nat (usize_from_party i)) = unat sid + usize_from_party i" by simp
  moreover have "unat (3 :: u32) = 3" by simp
  ultimately show ?thesis by (simp only: shuffle_role_def role_index_party rotated_def unat_mod add.commute)
qed

definition role_party :: "PartyID \<Rightarrow> nat \<Rightarrow> PartyID" where
  "role_party k j = (if j = 0 then k else if j = 1 then next_id k else prev_id k)"

lemma role_party_simps [simp]: "role_party k 0 = k" "role_party k 1 = next_id k" "role_party k (Suc 0) = next_id k" "role_party k 2 = prev_id k"
  by (simp_all add: role_party_def)

context network_int
begin

lemma wfs_res:
  assumes "wfs xs" "wfs ys"
  shows "wfs (plus_res ring xs ys)" "wfs (minus_res ring xs ys)"
proof -
  have "wf (convert (re_add ring (xs ! m) (ys ! m)))" "wf (convert (re_sub ring (xs ! m) (ys ! m)))" if "m < length xs" "m < length ys" for m
    using assms that by (simp_all add: re_defs wf_intros)
  then show "wfs (plus_res ring xs ys)" "wfs (minus_res ring xs ys)" by (auto simp: in_set_conv_nth)
qed

lemma wfs_shuffled:
  assumes "is_perm n p" "0 < n" "length d = n * 3 * b" "wfs d"
  shows "wfs (shuffled n p d)"
  using pos_less [OF assms(1,2)] assms(3,4) by (auto simp: shuffled_def)

lemma wfs_shuffle_values:
  assumes n: "0 < n" and p: "\<And>j. is_perm n (p j)" and l: "l = n * 3 * b"
    and lens: "\<And>j. length (A j) = l" "\<And>j. length (z j) = l" "length tb = l" "length ta = l"
    and wfs: "\<And>j. wfs (A j)" "\<And>j. wfs (z j)" "wfs tb" "wfs ta"
  defines "v \<equiv> shuffle_values_of ring n A p z tb ta"
  shows "wfs (sv_x1 v)" "wfs (sv_y0 v)" "wfs (sv_c1 v)" "wfs (sv_c2 v)"
proof -
  note sh = wfs_shuffled [OF p n, where b = b, folded l]
  let ?x0 = "shuffled n (p 0) (plus_res ring (plus_res ring (A 0) (A 2)) (z 0))"
  have "wfs ?x0" by (rule sh) (simp add: lens, intro wfs_res wfs)
  then show x1: "wfs (sv_x1 v)" unfolding v_def shuffle_values_of_def Let_def shuffle_values.select_convs
    by (intro sh wfs_res wfs) (simp_all add: lens shuffled_nth)
  show y0: "wfs (sv_y0 v)" unfolding v_def shuffle_values_of_def Let_def shuffle_values.select_convs
    by (intro sh wfs_res wfs) (simp_all add: lens)
  have lv: "length (sv_x1 v) = l" "length (sv_y0 v) = l" unfolding v_def by (intro length_shuffle_values lens)+
  have "wfs (shuffled n (p 1) (plus_res ring (sv_x1 v) (z 1)))" by (rule sh) (simp add: lens lv, intro wfs_res x1 wfs)
  then have "wfs (minus_res ring (shuffled n (p 1) (plus_res ring (sv_x1 v) (z 1))) tb)" using wfs(3) by (rule wfs_res(2))
  then show "wfs (sv_c1 v)" by (simp add: v_def shuffle_values_of_def Let_def)
  have "wfs (shuffled n (p 2) (minus_res ring (sv_y0 v) (z 2)))" by (rule sh) (simp add: lens lv, intro wfs_res y0 wfs)
  then have "wfs (shuffled n (p 1) (minus_res ring (shuffled n (p 2) (minus_res ring (sv_y0 v) (z 2))) (z 1)))"
    by (intro sh wfs_res wfs) (simp_all add: lens lv shuffled_nth y0)
  then have "wfs (minus_res ring (shuffled n (p 1) (minus_res ring (shuffled n (p 2) (minus_res ring (sv_y0 v) (z 2))) (z 1))) ta)" using wfs(4) by (rule wfs_res(2))
  then show "wfs (sv_c2 v)" by (simp add: v_def shuffle_values_of_def Let_def)
qed

lemma vec_message:
  assumes "wfs xs" "length xs < MAX_LEN"
  shows "\<exists>bs w. to_network (ring_vec_message N (VecRingElement xs)) = Ok bs \<and> deserialize bs = Ok w \<and> into_vec N w = Ok xs"
  using ring_vec_arrives [of "VecRingElement xs"] assms unfolding arrives_def by (metis VecRingElement.sel)

lemma shuffled_sharing:
  fixes r :: "PartyID \<Rightarrow> 'a IdDistance list" and k :: PartyID
  assumes d: "id_dist_sharing ring wf d xs" and n: "0 < n" and p: "\<And>j. is_perm n (p j)" and len: "length xs = n * b"
    and z: "\<And>j. length (z j) = n * 3 * b" "\<And>j. wfs (z j)" and t: "length tb = n * 3 * b" "wfs tb" "length ta = n * 3 * b" "wfs ta"
  defines "out \<equiv> shuffle_out ring (shuffle_values_of ring n (\<lambda>j. triplets share_a (d (role_party k j))) p z tb ta) tb ta"
  assumes r: "r k = reconstruct_id_distance_vector (VecRingElement (out 0)) (VecRingElement (out 2))"
    "r (next_id k) = reconstruct_id_distance_vector (VecRingElement (out 1)) (VecRingElement (out 0))"
    "r (prev_id k) = reconstruct_id_distance_vector (VecRingElement (out 2)) (VecRingElement (out 1))"
  shows "id_dist_sharing ring wf r (permuted n (joint_perm n p) xs)"
proof -
  let ?A = "\<lambda>j. triplets share_a (d (role_party k j))" and ?l = "n * 3 * b"
  have fs: "sharing_add ring wf (\<lambda>i. flat_shares (d i)) (flat_values xs)" using d by (simp add: id_dist_sharing_flat)
  have l: "length (flat_values xs) = ?l" "length (flat_shares (d i)) = ?l" for i
    using id_dist_sharing_length [OF d] len by (simp_all add: mult_ac)
  have sh: "shared wf ?l (\<lambda>i. flat_shares (d i))" using fs unfolding sharing_add_def l(1) by blast
  have lA: "length (?A j) = ?l" for j by (simp add: triplets_flat l del: length_flat)
  have wA: "wfs (?A j)" for j
    using shared_nth(2) [OF sh] l(2) by (auto simp: triplets_flat in_set_conv_nth simp del: length_flat)
  have lo: "length (out j) = n * b * 3" for j
    unfolding out_def shuffle_out_def using length_shuffle_values [of ?A ?l z tb ta, OF lA z(1) t(1,3)] t by (simp add: mult_ac)
  note sums = shuffled_sum [where A = ?A and p = p and z = z, OF n p refl _ lA z(1) t(1,3) wA z(2) t(2,4), folded out_def]
  have fr: "flat_shares (r k) = map2 share_new (out 0) (out 2)" "flat_shares (r (next_id k)) = map2 share_new (out 1) (out 0)"
    "flat_shares (r (prev_id k)) = map2 share_new (out 2) (out 1)"
    unfolding r by (rule flat_reconstruct(1) [OF lo lo])+
  have lr: "length (flat_shares (r i)) = ?l" for i
    using all_parties [of "\<lambda>i. length (flat_shares (r i)) = ?l" k] lo unfolding fr by (simp add: mult_ac)
  show ?thesis unfolding id_dist_sharing_flat flat_permuted [OF p n len]
  proof (rule sharing_addI)
    show "length (flat_shares (r i)) = length (map (\<lambda>m. flat_values xs ! pos3 n p m) [0..<length xs * 3])" for i
      using lr l(1) by simp
    fix m assume "m < length (map (\<lambda>m. flat_values xs ! pos3 n p m) [0..<length xs * 3])"
    then have m: "m < ?l" using l(1) by simp
    let ?w = "pos3 n p m"
    have w: "?w < ?l" unfolding pos3_def by (intro pos_less p n m)
    have A: "?A j ! ?w = share_a (flat_shares (d (role_party k j)) ! ?w)" for j using w l(2) by (simp add: triplets_flat del: length_flat)
    have wf: "wf (convert (out j ! m))" "wf (convert (?A j ! ?w))" for j using sums(2) [OF m] wA [of j] lA [of j] w by simp_all
    have rm: "flat_shares (r k) ! m = share_new (out 0 ! m) (out 2 ! m)" "flat_shares (r (next_id k)) ! m = share_new (out 1 ! m) (out 0 ! m)"
      "flat_shares (r (prev_id k)) ! m = share_new (out 2 ! m) (out 1 ! m)"
      unfolding fr using m lo by (simp_all add: mult_ac)
    have "open_add ring (col (\<lambda>i. flat_shares (d i)) ?w) = flat_values xs ! ?w" using sharing_add_nth [OF fs] w l(1) by simp
    moreover have "open_add ring (col (\<lambda>i. flat_shares (r i)) m) = open_add ring (col (\<lambda>i. flat_shares (d i)) ?w)"
      using sums(1) [OF m] rm A [of 0] A [of 1] A [of 2] add_rotate [OF wf(1) wf(1) wf(1), of 0 1 2] add_rotate [OF wf(2) wf(2) wf(2), of 0 1 2]
      by (cases k) (simp_all add: col_def share_new_def)
    ultimately show "replicated (col (\<lambda>i. flat_shares (r i)) m) \<and> share3_wf wf (col (\<lambda>i. flat_shares (r i)) m)
        \<and> open_add ring (col (\<lambda>i. flat_shares (r i)) m) = map (\<lambda>m. flat_values xs ! pos3 n p m) [0..<length xs * 3] ! m"
      using m l(1) rm wf(1) by (cases k) (simp_all add: col_def share_new_def)
  qed
qed

end

context network_int
begin

lemma computes_shuffle_rest:
  fixes d :: "PartyID \<Rightarrow> 'a IdDistance list"
  assumes d: "id_dist_sharing ring wf d xs" and n: "0 < n" and len: "length xs = n * b" "length xs * 3 < MAX_LEN"
    and k: "rotated sid k = 0" "rotated sid (next_id k) = 1" "rotated sid (prev_id k) = 2"
    and P: "\<And>i. is_perm n (P i)" and Z: "\<And>i. length (Z i) = length xs * 3" "\<And>i. wfs (Z i)"
  shows "computes addr sid (\<lambda>i. shuffle_rest N (rotated sid i) n (d i) (P i, P (prev_id i)) (Z i, Z (prev_id i)))
    (\<lambda>r. \<exists>js. mset js = mset [0..<n] \<and> id_dist_sharing ring wf r (permuted n js xs))"
  unfolding computes_def
proof (intro allI impI)
  fix S :: "PartyID \<Rightarrow> 'r session" assume S: "linked addr sid S"
  define l where "l = n * 3 * b"
  define A where "A = (\<lambda>j. triplets share_a (d (role_party k j)))"
  define p where "p = (\<lambda>j. P (role_party k j))" define z where "z = (\<lambda>j. Z (role_party k j))"
  define tb where "tb = fst (gen_list N l (my_prf (S k)))" define ta where "ta = fst (gen_list N l (prev_prf (S k)))"
  define v where "v = shuffle_values_of ring n A p z tb ta"
  define out where "out = shuffle_out ring v tb ta"
  have ld: "length (d i) * 3 = l" for i using id_dist_sharing_length [OF d] len by (simp add: l_def mult_ac)
  have l: "length xs * 3 = l" using len by (simp add: l_def mult_ac)
  have pj: "is_perm n (p j)" for j by (simp add: p_def P)
  have lz: "length (z j) = l" and wz: "wfs (z j)" for j using Z l by (simp_all add: z_def)
  have lA: "length (A j) = l" for j using ld by (simp add: A_def triplets_flat)
  have fs: "sharing_add ring wf (\<lambda>i. flat_shares (d i)) (flat_values xs)" using d by (simp add: id_dist_sharing_flat)
  then have sh: "shared wf l (\<lambda>i. flat_shares (d i))" unfolding sharing_add_def using l by simp
  have wA: "wfs (A j)" for j
    using shared_nth(2) [OF sh] ld by (auto simp: A_def triplets_flat in_set_conv_nth)
  have lt: "length tb = l" "length ta = l" by (simp_all add: tb_def ta_def)
  have wt: "wfs tb" "wfs ta" unfolding tb_def ta_def by (rule gen_list_wf)+
  have b: "triplets share_b (d k) = A 2"
    using shared_nth(1) [OF sh, of _ k] ld by (intro nth_equalityI) (simp_all add: A_def triplets_flat)
  note wv = wfs_shuffle_values [where A = A and p = p and z = z, OF n pj l_def lA lz lt wA wz wt, folded v_def]
  note lv = length_shuffle_values [where A = A and p = p and z = z and R = ring and n = n, OF lA lz lt, folded v_def]
  have msg: "\<exists>bs w. to_network (ring_vec_message N (VecRingElement u)) = Ok bs \<and> deserialize bs = Ok w \<and> into_vec N w = Ok u"
    if "wfs u" "length u = l" for u using vec_message that len(2) l by simp
  obtain bx wx by0 wy b1 w1 b2 w2 where sent:
    "to_network (ring_vec_message N (VecRingElement (sv_x1 v))) = Ok bx" "deserialize bx = Ok wx" "into_vec N wx = Ok (sv_x1 v)"
    "to_network (ring_vec_message N (VecRingElement (sv_y0 v))) = Ok by0" "deserialize by0 = Ok wy" "into_vec N wy = Ok (sv_y0 v)"
    "to_network (ring_vec_message N (VecRingElement (sv_c1 v))) = Ok b1" "deserialize b1 = Ok w1" "into_vec N w1 = Ok (sv_c1 v)"
    "to_network (ring_vec_message N (VecRingElement (sv_c2 v))) = Ok b2" "deserialize b2 = Ok w2" "into_vec N w2 = Ok (sv_c2 v)"
    using msg [OF wv(1) lv(1)] msg [OF wv(2) lv(2)] msg [OF wv(3) lv(3)] msg [OF wv(4) lv(4)] by blast
  have A0: "triplets share_a (d k) = A 0" "triplets share_a (d (next_id k)) = A 1" by (simp_all add: A_def)
  define r where "r = (\<lambda>i. reconstruct_id_distance_vector (VecRingElement (out 2)) (VecRingElement (out 1)))
       (k := reconstruct_id_distance_vector (VecRingElement (out 0)) (VecRingElement (out 2)),
        next_id k := reconstruct_id_distance_vector (VecRingElement (out 1)) (VecRingElement (out 0)))"
  note rest = delivers_shuffle_rest [where A = A and p = p and z = z and d = d and k = k, OF S n pj l_def ld lA lz A0(1) b A0(2),
      folded tb_def ta_def, folded v_def, OF sent, folded out_def]
  have nx: "prev_id (next_id k) = k" "prev_id (prev_id k) = next_id k" by (cases k; simp)+
  have neq: "prev_id k \<noteq> next_id k" "next_id k \<noteq> prev_id k" "next_id k \<noteq> k" "prev_id k \<noteq> k" "k \<noteq> next_id k" "k \<noteq> prev_id k" by (cases k; simp)+
  have prog: "(\<lambda>i. shuffle_rest N (rotated sid i) n (d i) (P i, P (prev_id i)) (Z i, Z (prev_id i)) (S i)) =
    ((\<lambda>i. shuffle_rest N 2 n (d i) (p 2, p 1) (z 2, z 1) (S i))
       (k := shuffle_rest N 0 n (d k) (p 0, p 2) (z 0, z 2) (S k), next_id k := shuffle_rest N 1 n (d (next_id k)) (p 1, p 0) (z 1, z 0) (S (next_id k))))"
    unfolding fun_eq_iff all_parties [of _ k] using k nx neq by (simp add: p_def z_def)
  have res: "(\<lambda>i. (r i, S' i)) = ((\<lambda>i. (reconstruct_id_distance_vector (VecRingElement (out 2)) (VecRingElement (out 1)), S' i))
       (k := (reconstruct_id_distance_vector (VecRingElement (out 0)) (VecRingElement (out 2)), S' k),
        next_id k := (reconstruct_id_distance_vector (VecRingElement (out 1)) (VecRingElement (out 0)), S' (next_id k))))" for S' :: "PartyID \<Rightarrow> 'r session"
    unfolding fun_eq_iff all_parties [of _ k] using neq by (simp add: r_def)
  have "id_dist_sharing ring wf r (permuted n (joint_perm n p) xs)"
    by (rule shuffled_sharing [where k = k and p = p and z = z and tb = tb and ta = ta and b = b, OF d n pj len(1)])
      (use lz wz lt wt neq in \<open>simp_all add: r_def out_def v_def A_def l_def\<close>)
  with rest joint_perm_permutes [where p = p, OF pj]
  show "\<exists>r S'. delivers addr (\<lambda>i. shuffle_rest N (rotated sid i) n (d i) (P i, P (prev_id i)) (Z i, Z (prev_id i)) (S i)) (\<lambda>i. (r i, S' i))
      \<and> linked addr sid S' \<and> (\<exists>js. mset js = mset [0..<n] \<and> id_dist_sharing ring wf r (permuted n js xs))"
    unfolding prog res [symmetric] by blast
qed

end

section \<open>Batches\<close>

text \<open>Batches of distances with shared identifiers, shared by the three parties.\<close>

definition batch_sharing :: "'a int_ring2k \<Rightarrow> ('a \<Rightarrow> bool) \<Rightarrow> (PartyID \<Rightarrow> 'a IdDistance list list)
    \<Rightarrow> ('a RingElement \<times> 'a RingElement \<times> 'a RingElement) list list \<Rightarrow> bool" where
  "batch_sharing R P D xss \<longleftrightarrow> (\<forall>i. length (D i) = length xss) \<and> (\<forall>b < length xss. id_dist_sharing R P (\<lambda>i. D i ! b) (xss ! b))"

lemma sharing_add_append:
  assumes "sharing_add R P d xs" "sharing_add R P e ys"
  shows "sharing_add R P (\<lambda>i. d i @ e i) (xs @ ys)"
proof -
  have len: "length (d i) = length xs" "length (e i) = length ys" for i using sharing_lengths(1) assms by blast+
  have "col (\<lambda>i. d i @ e i) k = (if k < length xs then col d k else col e (k - length xs))" for k by (simp add: col_def len nth_append)
  then show ?thesis using sharing_add_nth [OF assms(1)] sharing_add_nth [OF assms(2)] len
    by (intro sharing_addI) (auto simp: nth_append)
qed

lemma id_dist_sharing_append:
  "id_dist_sharing R P d xs \<Longrightarrow> id_dist_sharing R P e ys \<Longrightarrow> id_dist_sharing R P (\<lambda>i. d i @ e i) (xs @ ys)"
  unfolding id_dist_sharing_def dist_sharing_def map_append by (auto intro!: sharing_add_append)

lemma id_dist_sharing_slice:
  "id_dist_sharing R P d xs \<Longrightarrow> id_dist_sharing R P (\<lambda>i. take n (drop m (d i))) (take n (drop m xs))"
  unfolding id_dist_sharing_def dist_sharing_def drop_map [symmetric] take_map [symmetric]
  by (elim conjE, intro conjI) (rule sharing_add_take_drop(1), rule sharing_add_take_drop(2), assumption)+

lemma id_dist_sharing_concat: "batch_sharing R P D xss \<Longrightarrow> id_dist_sharing R P (\<lambda>i. concat (D i)) (concat xss)"
proof (induction xss arbitrary: D)
  case Nil
  then have "D i = []" for i by (simp add: batch_sharing_def)
  then show ?case by (simp add: id_dist_sharing_def dist_sharing_def sharing_add_def shared_def)
next
  case (Cons xs xss)
  have "length (D i) = Suc (length xss)" for i using Cons.prems by (simp add: batch_sharing_def)
  then have D: "D i = D i ! 0 # tl (D i)" for i by (metis hd_conv_nth list.collapse list.size(3) nat.distinct(1))
  have "batch_sharing R P (\<lambda>i. tl (D i)) xss"
    unfolding batch_sharing_def
  proof (intro conjI allI impI)
    show "length (tl (D i)) = length xss" for i using Cons.prems by (simp add: batch_sharing_def)
    fix b assume "b < length xss"
    then have "id_dist_sharing R P (\<lambda>i. D i ! Suc b) (xss ! b)" using Cons.prems by (auto simp: batch_sharing_def)
    moreover have "D i ! Suc b = tl (D i) ! b" for i by (subst D) simp
    ultimately show "id_dist_sharing R P (\<lambda>i. tl (D i) ! b) (xss ! b)" by simp
  qed
  moreover have "id_dist_sharing R P (\<lambda>i. D i ! 0) xs" using Cons.prems by (auto simp: batch_sharing_def)
  moreover have "concat (D i) = D i ! 0 @ concat (tl (D i))" for i by (subst D) simp
  ultimately show ?case using Cons.IH id_dist_sharing_append by fastforce
qed

lemma permuted_slice:
  assumes "mset js = mset [0..<n]" "\<forall>x \<in> set xss. length x = n" "b < length xss"
  shows "take n (drop (b * n) (permuted n js (concat xss))) = map ((!) (xss ! b)) js"
proof (rule nth_equalityI)
  have ljs: "length js = n" using assms(1) by (metis length_upt minus_nat.diff_0 size_mset)
  have lc: "length (concat xss) = length xss * n" using assms(2) by (induction xss) auto
  have "b * n + n \<le> length xss * n" using assms(3) by (metis Suc_leI add.commute mult_Suc mult_le_mono1)
  then show "length (take n (drop (b * n) (permuted n js (concat xss)))) = length (map ((!) (xss ! b)) js)"
    by (simp add: permuted_def lc ljs)
  fix j assume "j < length (take n (drop (b * n) (permuted n js (concat xss))))"
  then have j: "j < n" "b * n + j < length (concat xss)" by (simp_all add: permuted_def less_diff_conv add.commute)
  have s: "set js = {0..<n}" using assms(1) by (metis set_mset_mset set_upt)
  then have js: "js ! j < n" using j(1) ljs by (metis atLeastLessThan_iff nth_mem)
  have "concat (map (\<lambda>x. x) xss) ! (b * n + js ! j) = xss ! ((b * n + js ! j) div n) ! ((b * n + js ! j) mod n)"
    by (rule nth_concat_equal) (use assms(2) js \<open>b * n + n \<le> length xss * n\<close> in auto)
  then have "concat xss ! (b * n + js ! j) = xss ! b ! (js ! j)" using js by simp
  moreover have "permuted n js (concat xss) ! (b * n + j) = concat xss ! (b * n + js ! j)" using j by (simp add: permuted_def)
  ultimately show "take n (drop (b * n) (permuted n js (concat xss))) ! j = map ((!) (xss ! b)) js ! j"
    using j ljs by (simp add: permuted_def)
qed

context network_int
begin

lemma computes_random_shuffle:
  assumes G: "fair_rng G" and D: "batch_sharing ring wf D xss" and ne: "xss \<noteq> []" and n: "0 < n" "n < 2 ^ 32" "\<forall>xs \<in> set xss. length xs = n"
    and len: "length xss * n * 3 < MAX_LEN" and sid: "unat sid + 2 < 2 ^ 32"
  shows "computes addr sid (\<lambda>i. random_shuffle_batch G N (D i))
    (\<lambda>r. \<exists>js. mset js = mset [0..<n] \<and> batch_sharing ring wf r (map (\<lambda>xs. map ((!) xs) js) xss))"
proof -
  let ?xs = "concat xss" and ?B = "length xss"
  have lD: "length (D i) = ?B" for i using D by (simp add: batch_sharing_def)
  have lb: "length (D i ! b) = n" if "b < ?B" for i b
    using D that n(3) id_dist_sharing_length [of ring wf "\<lambda>i. D i ! b" "xss ! b" i] by (simp add: batch_sharing_def)
  then have all: "\<forall>x \<in> set (D i). length x = n" for i using lD [of i] by (metis in_set_conv_nth)
  have D0: "length (D i ! 0) = n" "D i \<noteq> []" for i using lb [of 0 i] ne lD [of i] by auto
  have lx: "length ?xs = n * ?B" using n(3) by (induction xss) auto
  have d: "id_dist_sharing ring wf (\<lambda>i. concat (D i)) ?xs" by (rule id_dist_sharing_concat [OF D])
  have ld: "length (concat (D i)) = n * ?B" for i using id_dist_sharing_length [OF d] lx by simp
  obtain k where k: "rotated sid k = 0" "rotated sid (next_id k) = 1" "rotated sid (prev_id k) = 2" using rotated_first by blast
  let ?role = "\<lambda>i. shuffle_role sid (Role (u8_from_party i))"
  let ?party = "\<lambda>i. if ?role i = 0 then shuffle_party_0 G N (concat (D i)) n else if ?role i = 1 then shuffle_party_1 G N (concat (D i)) n
    else if ?role i = 2 then shuffle_party_2 G N (concat (D i)) n else cstop (Bail ''Invalid shuffle role'')"
  have role: "?role i = of_nat (rotated sid i)" for i using shuffle_role_rotated [OF sid, of i] by (metis of_nat_unat ucast_id)
  have rot: "rotated sid i = 0 \<or> rotated sid i = 1 \<or> rotated sid i = 2" for i by (rule less_3_cases) (simp add: rotated_def)
  let ?l = "n * ?B * 3"
  have "?party i = cbind (draw_mine (perm_of G n)) (\<lambda>p. cbind (draw_prev (perm_of G n)) (\<lambda>q. cbind (draw_mine (gen_list N ?l))
      (\<lambda>z. cbind (draw_prev (gen_list N ?l)) (\<lambda>w. shuffle_rest N (rotated sid i) n (concat (D i)) (p, q) (z, w)))))" for i
    using rot [of i] shuffle_party_draws [OF G n(1,2) ld, of N i, unfolded ld] unfolding role by auto
  moreover have "computes addr sid (\<lambda>i. cbind (draw_mine (perm_of G n)) (\<lambda>p. cbind (draw_prev (perm_of G n)) (\<lambda>q. cbind (draw_mine (gen_list N ?l))
      (\<lambda>z. cbind (draw_prev (gen_list N ?l)) (\<lambda>w. shuffle_rest N (rotated sid i) n (concat (D i)) (p, q) (z, w))))))
      (\<lambda>r. \<exists>js. mset js = mset [0..<n] \<and> id_dist_sharing ring wf r (permuted n js ?xs))"
  proof (rule computes_draws, rule computes_draws)
    fix P :: "PartyID \<Rightarrow> u32 list" and Z :: "PartyID \<Rightarrow> 'a RingElement list"
    assume P: "\<And>i. \<exists>r. P i = fst (perm_of G n r)" and Z: "\<And>i. \<exists>r. Z i = fst (gen_list N ?l r)"
    have "is_perm n (P i)" for i using P [of i] perm_of_is_perm [OF G n(2)] by auto
    moreover have "length (Z i) = length ?xs * 3" "wfs (Z i)" for i using Z [of i] gen_list_wf lx by auto
    ultimately show "computes addr sid (\<lambda>i. shuffle_rest N (rotated sid i) n (concat (D i)) (P i, P (prev_id i)) (Z i, Z (prev_id i)))
        (\<lambda>r. \<exists>js. mset js = mset [0..<n] \<and> id_dist_sharing ring wf r (permuted n js ?xs))"
      by (intro computes_shuffle_rest [OF d n(1) lx _ k]) (use len lx in \<open>simp_all add: mult_ac\<close>)
  qed
  ultimately have party: "computes addr sid ?party (\<lambda>r. \<exists>js. mset js = mset [0..<n] \<and> id_dist_sharing ring wf r (permuted n js ?xs))" by simp
  have batches: "batch_sharing ring wf (\<lambda>i. chunks n (r i)) (map (\<lambda>xs. map ((!) xs) js) xss)"
    if "mset js = mset [0..<n]" "id_dist_sharing ring wf r (permuted n js ?xs)" for r js
  proof -
    have lr: "length (r i) = n * ?B" for i using id_dist_sharing_length [OF that(2)] lx by (simp add: permuted_def)
    have "id_dist_sharing ring wf (\<lambda>i. chunks n (r i) ! b) (map ((!) (xss ! b)) js)" if b: "b < ?B" for b
      unfolding chunks_nth(2) [OF n(1) lr b] permuted_slice [OF \<open>mset js = mset [0..<n]\<close> n(3) b, symmetric]
      by (rule id_dist_sharing_slice) fact
    then show ?thesis by (simp add: batch_sharing_def chunks_nth(1) [OF n(1) lr])
  qed
  have "random_shuffle_batch G N (D i) = cbind (cread session_id) (\<lambda>sid'. cbind (cread own_role) (\<lambda>role.
      cbind (if shuffle_role sid' role = 0 then shuffle_party_0 G N (concat (D i)) n else if shuffle_role sid' role = 1 then shuffle_party_1 G N (concat (D i)) n
        else if shuffle_role sid' role = 2 then shuffle_party_2 G N (concat (D i)) n else cstop (Bail ''Invalid shuffle role''))
      (\<lambda>res. cret (chunks n res))))" for i
    using all [of i] D0 [of i] n(1) unfolding random_shuffle_batch_def Let_def by (simp cong: if_cong)
  then show ?thesis
    by (simp only:) (intro computes_read_session_id computes_read_role computes_cbind [OF party] computes_cret, use batches in blast)
qed

end

section \<open>Properties\<close>

text \<open>
  Near the end of the range of session identifiers the sum of the role wraps, and two parties
  take the same part.
\<close>

lemma shuffle_roles_collide: "shuffle_role (- 1) (Role 0) = 0" "shuffle_role (- 1) (Role 1) = 0"
  by (simp_all add: shuffle_role_def)

lemma shuffle_rejects:
  "random_shuffle_batch G N [] = cstop (Bail ''Input distances cannot be empty'')"
  "b \<in> set bs \<Longrightarrow> length b \<noteq> length (bs ! 0) \<Longrightarrow> random_shuffle_batch G N bs = cstop (Bail ''All batches must have the same length'')"
proof -
  show "random_shuffle_batch G N [] = cstop (Bail ''Input distances cannot be empty'')"
    unfolding random_shuffle_batch_def by (simp only: if_True simp_thms)
  assume "b \<in> set bs" "length b \<noteq> length (bs ! 0)"
  then have "bs \<noteq> []" "\<not> (\<forall>batch \<in> set bs. length batch = length (bs ! 0))" by auto
  then show "random_shuffle_batch G N bs = cstop (Bail ''All batches must have the same length'')"
    unfolding random_shuffle_batch_def Let_def by (simp only: if_True if_False simp_thms)
qed

text \<open>
  C3: the oblivious shuffle. Three linked parties that hold shares of batches of identifiers
  with distances, all batches of one length, finish under any interleaving when their
  generator does not stay in the upper half of its range forever: there is one permutation
  such that the results are shares of every batch permuted by it, in 32 and in 48 bits, and
  the sessions stay linked. No batches, and batches of different lengths, are errors.
\<close>

theorem shuffle_permutes_every_batch:
  fixes S :: "PartyID \<Rightarrow> 'r session" and G :: "'r prf_rng"
  assumes "linked addr sid S" "unat sid + 2 < 2 ^ 32" "fair_rng G" "0 < n" "n < 2 ^ 32"
    and "batch_sharing word_ring (\<lambda>_. True) D xss" "xss \<noteq> []" "\<forall>xs \<in> set xss. length xs = n" "length xss * n * 3 < MAX_LEN"
    and "batch_sharing ring48_ring wf48 E yss" "yss \<noteq> []" "\<forall>ys \<in> set yss. length ys = n" "length yss * n * 3 < MAX_LEN"
    and "b \<in> set bs" "length b \<noteq> length (bs ! 0)"
  shows "always_finishes addr (\<lambda>i. random_shuffle_batch G (net_u32 G) (D i) (S i))
      (\<lambda>r. (\<exists>js. mset js = mset [0..<n] \<and> batch_sharing word_ring (\<lambda>_. True) (\<lambda>i. fst (r i)) (map (\<lambda>xs. map ((!) xs) js) xss))
         \<and> linked addr sid (\<lambda>i. snd (r i)))
    \<and> always_finishes addr (\<lambda>i. random_shuffle_batch G (net_ring48 G) (E i) (S i))
      (\<lambda>r. (\<exists>js. mset js = mset [0..<n] \<and> batch_sharing ring48_ring wf48 (\<lambda>i. fst (r i)) (map (\<lambda>ys. map ((!) ys) js) yss))
         \<and> linked addr sid (\<lambda>i. snd (r i)))
    \<and> random_shuffle_batch G (net_u32 G) [] s = Stop (Bail ''Input distances cannot be empty'')
    \<and> random_shuffle_batch G (net_u32 G) bs s = Stop (Bail ''All batches must have the same length'')"
proof -
  have c: "computes addr sid (\<lambda>i. random_shuffle_batch G (net_u32 G) (D i))
      (\<lambda>r. \<exists>js. mset js = mset [0..<n] \<and> batch_sharing word_ring (\<lambda>_. True) r (map (\<lambda>xs. map ((!) xs) js) xss))"
    using net32.computes_random_shuffle [OF assms(3) _ assms(7,4,5,8,9,2)] assms(6) by simp
  have c48: "computes addr sid (\<lambda>i. random_shuffle_batch G (net_ring48 G) (E i))
      (\<lambda>r. \<exists>js. mset js = mset [0..<n] \<and> batch_sharing ring48_ring wf48 r (map (\<lambda>ys. map ((!) ys) js) yss))"
    using net48.computes_random_shuffle [OF assms(3) _ assms(11,4,5,12,13,2)] assms(10) by simp
  have e: "random_shuffle_batch G (net_u32 G) [] s = Stop (Bail ''Input distances cannot be empty'')"
    "random_shuffle_batch G (net_u32 G) bs s = Stop (Bail ''All batches must have the same length'')"
    by (simp_all only: shuffle_rejects(1) shuffle_rejects(2) [OF assms(14,15)] cstop_def)
  show ?thesis by (intro conjI e computes_always_finishes [OF c assms(1)] computes_always_finishes [OF c48 assms(1)])
qed

definition demo_row :: "'a share3 \<Rightarrow> 'a share3 \<Rightarrow> 'a share3 \<Rightarrow> PartyID \<Rightarrow> 'a IdDistance" where
  "demo_row s t u i = (deal [s] i ! 0, distance_share_new (deal [t] i ! 0) (deal [u] i ! 0))"

lemma demo_row_flat: "flat_shares (map (\<lambda>(s, t, u). demo_row s t u i) rows) = deal (flat_values rows) i"
  by (induction rows) (auto simp: flat_shares_def flat_values_def demo_row_def deal_def distance_share_new_def)

lemma demo_rows_sharing:
  "id_dist_sharing R P (\<lambda>i. map (\<lambda>(s, t, u). demo_row s t u i) rows) xs \<longleftrightarrow> sharing_add R P (deal (flat_values rows)) (flat_values xs)"
  unfolding id_dist_sharing_flat demo_row_flat ..

lemma demo_rng_fair: "fair_rng demo_rng"
proof -
  let ?step = "\<lambda>r. snd (rng_gen64 demo_rng r)"
  have steps: "(?step ^^ n) r = r + n" for n r by (induction n) (simp_all add: demo_rng_def)
  have "fst (rng_gen64 demo_rng ((?step ^^ (r * (2 ^ 64 - 1))) r)) < 2 ^ 63" for r
  proof -
    have "r + r * (2 ^ 64 - 1) = r * 2 ^ 64" by (simp add: algebra_simps)
    moreover have "(of_nat (r * 2 ^ 64) :: u64) = 0" by (simp add: word_of_nat_eq_0_iff del: of_nat_mult)
    ultimately have "(of_nat (r + r * (2 ^ 64 - 1)) :: u64) = 0" by (simp only:)
    moreover have "fst (rng_gen64 demo_rng k) = of_nat k" for k by (simp add: demo_rng_def)
    ultimately show ?thesis unfolding steps by (simp only:) simp
  qed
  then show ?thesis unfolding fair_rng_def by blast
qed

theorem shuffle_permutes_every_batch_witness:
  "always_finishes demo_addr (\<lambda>i. random_shuffle_batch demo_rng (net_u32 demo_rng)
        [map (\<lambda>(s, t, u). demo_row s t u i) [(sh 1 2 3, sh 4 5 6, sh 7 8 9), (sh 10 20 30, sh 40 50 60, sh 70 80 90)]] (demo_session i))
      (\<lambda>r. (\<exists>js. mset js = mset [0..<2] \<and> batch_sharing word_ring (\<lambda>_. True) (\<lambda>i. fst (r i))
           [map ((!) [(RingElement 6, RingElement 15, RingElement 24), (RingElement 60, RingElement 150, RingElement 240)]) js])
         \<and> linked demo_addr 7 (\<lambda>i. snd (r i)))"
proof -
  let ?rows = "[(sh 1 2 3, sh 4 5 6, sh 7 8 9), (sh 10 20 30, sh 40 50 60, sh 70 80 90)] :: (u32 share3 \<times> u32 share3 \<times> u32 share3) list"
  let ?rows48 = "[(sh (Ring48 1) (Ring48 2) (Ring48 3), sh (Ring48 1) (Ring48 2) (Ring48 3), sh (Ring48 1) (Ring48 2) (Ring48 3)), (sh (Ring48 1) (Ring48 2) (Ring48 3), sh (Ring48 1) (Ring48 2) (Ring48 3), sh (Ring48 1) (Ring48 2) (Ring48 3))]"
  let ?xs = "[(RingElement 6, RingElement 15, RingElement 24), (RingElement 60, RingElement 150, RingElement 240)] :: (u32 RingElement \<times> u32 RingElement \<times> u32 RingElement) list"
  let ?six = "(RingElement (Ring48 6), RingElement (Ring48 6), RingElement (Ring48 6))"
  note defs = flat_values_def sharing_deal sh_def share_new_def re_add_def
  have "id_dist_sharing word_ring (\<lambda>_. True) (\<lambda>i. map (\<lambda>(s, t, u). demo_row s t u i) ?rows) ?xs"
    unfolding demo_rows_sharing by (simp add: defs)
  then have b: "batch_sharing word_ring (\<lambda>_. True) (\<lambda>i. [map (\<lambda>(s, t, u). demo_row s t u i) ?rows]) [?xs]" by (simp add: batch_sharing_def)
  have "id_dist_sharing ring48_ring wf48 (\<lambda>i. map (\<lambda>(s, t, u). demo_row s t u i) ?rows48) [?six, ?six]"
    unfolding demo_rows_sharing by (simp add: defs MASK_48_eq flip: take_bit_eq_mask)
  then have b48: "batch_sharing ring48_ring wf48 (\<lambda>i. [map (\<lambda>(s, t, u). demo_row s t u i) ?rows48]) [[?six, ?six]]" by (simp add: batch_sharing_def)
  show ?thesis
    using shuffle_permutes_every_batch [where bs = "[[], [demo_row (sh 1 2 3) (sh 1 2 3) (sh 1 2 3) ID0]]" and b = "[demo_row (sh 1 2 3) (sh 1 2 3) (sh 1 2 3) ID0]",
        OF demo_linked _ demo_rng_fair _ _ b _ _ _ b48, of 2, THEN conjunct1]
    by (simp add: MAX_LEN_def)
qed

end
