(* ===== verification/F64_Order.thy ===== *)
theory F64_Order
  imports F64
begin

text \<open>
  Order properties of double precision rounding: it is monotone and symmetric, keeps powers of
  two as bounds, at most doubles a value and has a bounded error. They order the thresholds of
  histograms and place the boundaries of their buckets.
\<close>

lemma round_even_order:
  assumes "r \<le> s"
  shows "round_even r \<le> round_even s"
proof (cases "\<lfloor>r\<rfloor> = \<lfloor>s\<rfloor>")
  case True
  then show ?thesis using assms by (auto simp: round_even_def Let_def)
next
  case False
  then have "\<lfloor>r\<rfloor> + 1 \<le> \<lfloor>s\<rfloor>" using floor_mono [OF assms] by simp
  moreover have "round_even r \<le> \<lfloor>r\<rfloor> + 1" "\<lfloor>s\<rfloor> \<le> round_even s" by (auto simp: round_even_def Let_def)
  ultimately show ?thesis by linarith
qed

lemma round_even_minus: "round_even (- r) = - round_even r"
proof (cases "r = of_int \<lfloor>r\<rfloor>")
  case True
  then obtain n where "r = of_int n" by blast
  then show ?thesis by (simp add: round_even_of_int flip: of_int_minus)
next
  case False
  let ?n = "\<lfloor>r\<rfloor>" and ?d = "r - of_int \<lfloor>r\<rfloor>"
  have fl: "\<lfloor>- r\<rfloor> = - ?n - 1" using False by (intro floor_unique) (simp_all add: order_less_le, linarith+)
  have d: "- r - of_int (- ?n - 1) = 1 - ?d" by simp
  show ?thesis unfolding round_even_def [of "- r"] Let_def fl d by (auto simp: round_even_def Let_def)
qed

lemma f64_round_minus: "f64_round (- x) = - f64_round x"
  by (simp add: f64_round_def Let_def round_even_minus)

lemma f64_round_0 [simp]: "f64_round 0 = 0"
  by (simp add: f64_round_def)

text \<open>Powers of two as bounds.\<close>

lemma f64_exponent_le:
  assumes "0 < x" "x \<le> 2 powi k"
  shows "f64_exponent x \<le> k"
proof -
  have "2 powi f64_exponent x \<le> (2 powi k :: rat)" using f64_exponent_bounds(1) [OF assms(1)] assms(2) by linarith
  also have "\<dots> < 2 powi (k + 1)" by (simp add: power_int_add)
  finally show ?thesis using powi_less_imp by fastforce
qed

lemma f64_round_pos_eq:
  assumes "0 < x" "q = 2 powi max (f64_exponent x - 52) (- 1074)"
  shows "f64_round x = of_int (round_even (x / q)) * q"
  using assms by (simp add: f64_round_def Let_def)

lemma powi_quotient:
  assumes "m \<le> k"
  shows "2 powi k / 2 powi m = (of_int (2 ^ nat (k - m)) :: rat)"
proof -
  have "2 powi k / 2 powi m = (2 powi (k - m) :: rat)" by (simp add: power_int_diff)
  then show ?thesis using assms by (simp add: power_int_def)
qed

lemma f64_round_le_powi:
  assumes "0 < x" "x \<le> 2 powi k" "- 1074 \<le> k"
  shows "f64_round x \<le> 2 powi k"
proof -
  let ?m = "max (f64_exponent x - 52) (- 1074)"
  have m: "?m \<le> k" using f64_exponent_le [OF assms(1,2)] assms(3) by simp
  have "x / 2 powi ?m \<le> of_int (2 ^ nat (k - ?m))"
    unfolding powi_quotient [OF m, symmetric] using assms(2) by (simp add: divide_right_mono)
  then have "round_even (x / 2 powi ?m) \<le> 2 ^ nat (k - ?m)" by (rule round_even_mono(1))
  then have "(of_int (round_even (x / 2 powi ?m)) :: rat) \<le> 2 powi k / 2 powi ?m" unfolding powi_quotient [OF m] of_int_le_iff .
  then show ?thesis unfolding f64_round_pos_eq [OF assms(1) refl] by (simp add: pos_le_divide_eq)
qed

lemma f64_round_ge_powi:
  assumes "0 < x" "- 1074 \<le> f64_exponent x"
  shows "2 powi f64_exponent x \<le> f64_round x"
proof -
  let ?k = "f64_exponent x" and ?m = "max (f64_exponent x - 52) (- 1074)"
  have m: "?m \<le> ?k" using assms(2) by simp
  have "of_int (2 ^ nat (?k - ?m)) \<le> x / 2 powi ?m"
    unfolding powi_quotient [OF m, symmetric] using f64_exponent_bounds(1) [OF assms(1)] by (simp add: divide_right_mono)
  then have "2 ^ nat (?k - ?m) \<le> round_even (x / 2 powi ?m)" by (rule round_even_mono(2))
  then have "2 powi ?k / 2 powi ?m \<le> (of_int (round_even (x / 2 powi ?m)) :: rat)" unfolding powi_quotient [OF m] of_int_le_iff .
  then show ?thesis unfolding f64_round_pos_eq [OF assms(1) refl] by (simp add: pos_divide_le_eq)
qed

lemma f64_round_double:
  assumes "2 powi (- 1000) \<le> x"
  shows "f64_round x \<le> 2 * x"
proof -
  have x: "0 < x" using assms by (rule order_less_le_trans [rotated]) simp
  have "2 powi (- 1000) < (2 :: rat) powi (f64_exponent x + 1)" using assms f64_exponent_bounds(2) [OF x] by linarith
  then have "- 1074 \<le> f64_exponent x + 1" using powi_less_imp by fastforce
  then have "f64_round x \<le> 2 powi (f64_exponent x + 1)" using f64_exponent_bounds(2) [OF x] by (intro f64_round_le_powi [OF x]) simp_all
  also have "\<dots> \<le> 2 * x" using f64_exponent_bounds(1) [OF x] by (simp add: power_int_add)
  finally show ?thesis .
qed

text \<open>Rounding is monotone.\<close>

lemma f64_round_mono_pos:
  assumes "0 < x" "x \<le> y"
  shows "f64_round x \<le> f64_round y"
proof -
  have y: "0 < y" using assms by simp
  let ?e = "f64_exponent x" and ?f = "f64_exponent y"
  have "2 powi ?e < (2 :: rat) powi (?f + 1)" using f64_exponent_bounds(1) [OF assms(1)] f64_exponent_bounds(2) [OF y] assms(2) by linarith
  then have ef: "?e \<le> ?f" using powi_less_imp by fastforce
  show ?thesis
  proof (cases "max (?e - 52) (- 1074) = max (?f - 52) (- 1074)")
    case True
    let ?q = "2 powi max (?f - 52) (- 1074) :: rat"
    have "round_even (x / ?q) \<le> round_even (y / ?q)" by (rule round_even_order) (use assms(2) in \<open>simp add: divide_right_mono\<close>)
    then show ?thesis unfolding f64_round_pos_eq [OF assms(1) refl] f64_round_pos_eq [OF y refl] True by (simp add: mult_right_mono)
  next
    case False
    then have f: "?e + 1 \<le> ?f" "- 1074 \<le> ?f" using ef by auto
    have "2 powi (?e + 1) \<le> (2 powi ?f :: rat)" using f(1) by (simp add: power_int_increasing)
    then have "x \<le> 2 powi ?f" using f64_exponent_bounds(2) [OF assms(1)] by linarith
    from f64_round_le_powi [OF assms(1) this f(2)] f64_round_ge_powi [OF y f(2)] show ?thesis by linarith
  qed
qed

lemma f64_round_sign: "0 \<le> x \<Longrightarrow> 0 \<le> f64_round x" "x \<le> 0 \<Longrightarrow> f64_round x \<le> 0"
proof -
  have pos: "0 \<le> f64_round x" if "0 \<le> x" for x
  proof (cases "x = 0")
    case False
    have "0 \<le> round_even (x / 2 powi max (f64_exponent x - 52) (- 1074))" by (rule round_even_mono(2)) (use that in simp)
    then show ?thesis using that False by (subst f64_round_pos_eq [OF _ refl]) simp_all
  qed simp
  show "0 \<le> x \<Longrightarrow> 0 \<le> f64_round x" by (rule pos)
  show "x \<le> 0 \<Longrightarrow> f64_round x \<le> 0" using pos [of "- x"] by (simp add: f64_round_minus)
qed

lemma f64_round_mono:
  assumes "x \<le> y"
  shows "f64_round x \<le> f64_round y"
proof -
  consider "0 < x" | "x \<le> 0" "0 \<le> y" | "y < 0" using assms by linarith
  then show ?thesis
  proof cases
    case 1
    then show ?thesis using assms by (rule f64_round_mono_pos)
  next
    case 2
    then show ?thesis using f64_round_sign [of x] f64_round_sign [of y] by linarith
  next
    case 3
    then have "f64_round (- y) \<le> f64_round (- x)" using assms by (intro f64_round_mono_pos) simp_all
    then show ?thesis by (simp add: f64_round_minus)
  qed
qed

lemma f64_trunc_mono: "x \<le> y \<Longrightarrow> f64_trunc x \<le> f64_trunc y"
proof -
  assume xy: "x \<le> y"
  show ?thesis
  proof (cases "0 \<le> x \<or> y < 0")
    case True
    then show ?thesis using xy by (auto simp: f64_trunc_def floor_mono ceiling_mono)
  next
    case False
    then have "\<lceil>x\<rceil> \<le> 0" "(0 :: int) \<le> \<lfloor>y\<rfloor>" by (simp_all add: ceiling_le_iff)
    then have "\<lceil>x\<rceil> \<le> \<lfloor>y\<rfloor>" by linarith
    moreover have "\<not> 0 \<le> x" "0 \<le> y" using False by simp_all
    ultimately show ?thesis by (simp only: f64_trunc_def if_True if_False)
  qed
qed

lemma uint_f64_as_u32: "uint (f64_as_u32 x) = max 0 (min (2 ^ 32 - 1) (f64_trunc x))"
  by (simp add: f64_as_u32_def uint_word_of_int)

lemma f64_as_u32_mono: "x \<le> y \<Longrightarrow> uint (f64_as_u32 x) \<le> uint (f64_as_u32 y)"
  unfolding uint_f64_as_u32 using f64_trunc_mono [of x y] by linarith

lemma f64_round_of_nat: "n < 2 ^ 53 \<Longrightarrow> f64_round (of_nat n) = of_nat n"
  by (rule f64_round_exact [where n = "int n" and e = 0]) (simp_all flip: of_nat_power)

text \<open>The error of rounding: relative for normal values, absolute below them.\<close>

lemma round_even_error: "\<bar>of_int (round_even r) - r\<bar> \<le> 1 / 2"
proof -
  have "of_int \<lfloor>r\<rfloor> \<le> r" "r < of_int \<lfloor>r\<rfloor> + 1" by linarith+
  then show ?thesis unfolding round_even_def Let_def by (auto simp del: of_int_floor_le simp: abs_le_iff)
qed

lemma f64_round_error:
  assumes "0 \<le> x"
  shows "\<bar>f64_round x - x\<bar> \<le> x / 2 ^ 53 + 1 / 2 ^ 200"
proof (cases "x = 0")
  case False
  then have x: "0 < x" using assms by simp
  define m where "m = max (f64_exponent x - 52) (- 1074)"
  define q :: rat where "q = 2 powi m"
  have q: "0 < q" by (simp add: q_def)
  have "f64_round x - x = (of_int (round_even (x / q)) - x / q) * q"
    unfolding f64_round_pos_eq [OF x q_def [unfolded m_def]] using q by (simp add: left_diff_distrib)
  then have "\<bar>f64_round x - x\<bar> = \<bar>of_int (round_even (x / q)) - x / q\<bar> * q" using q by (simp add: abs_mult)
  also have "\<dots> \<le> 1 / 2 * q" using round_even_error q by (intro mult_right_mono) simp_all
  finally have err: "\<bar>f64_round x - x\<bar> \<le> 1 / 2 * q" .
  have normal: "2 powi (f64_exponent x - 52) \<le> x / 2 ^ 52"
    using f64_exponent_bounds(1) [OF x] by (simp add: power_int_diff divide_right_mono)
  have "2 powi (- 1074) \<le> (2 :: rat) powi (- int 200)" by (rule power_int_increasing) simp_all
  also have "\<dots> = 1 / 2 ^ 200" unfolding power_int_minus power_int_of_nat by (rule inverse_eq_divide)
  finally have tiny: "2 powi (- 1074) \<le> (1 / 2 ^ 200 :: rat)" .
  have nonneg: "0 \<le> x / 2 ^ 52" "(0 :: rat) \<le> 1 / 2 ^ 200" using x by simp_all
  have "m = f64_exponent x - 52 \<or> m = - 1074" by (auto simp: m_def)
  then have "q \<le> x / 2 ^ 52 + 1 / 2 ^ 200" using add_increasing2 [OF nonneg(2) normal] add_increasing [OF nonneg(1) tiny] by (auto simp only: q_def)
  then have "1 / 2 * q \<le> 1 / 2 * (x / 2 ^ 52 + 1 / 2 ^ 200)" by (rule mult_left_mono) simp
  also have "\<dots> = x / 2 ^ 53 + 1 / 2 * (1 / 2 ^ 200)" unfolding distrib_left by simp
  also have "\<dots> \<le> x / 2 ^ 53 + 1 / 2 ^ 200" using nonneg(2) by linarith
  finally show ?thesis using err by (rule order_trans [rotated])
qed simp

end
