(* ===== verification/Bucket_Stats.thy ===== *)
theory Bucket_Stats
  imports F64_Order "HOL-Library.Multiset"
begin

text \<open>
  Results of anonymous statistics (\<open>ampc-anon-stats/src/types.rs\<close> and
  \<open>anon_stats/buckets.rs\<close>): the enumerations that describe a job with their encodings, the
  mapping of a job's rows, and the histograms in one and two dimensions that are made from
  cumulative counts. Time stamps are integers; a reading of the clock is an argument.
\<close>

section \<open>Descriptions of a job\<close>

datatype AnonStatsOperation = Uniqueness | Reauth | Recovery

fun operation_into_i16 :: "AnonStatsOperation \<Rightarrow> 16 word" where
  "operation_into_i16 Uniqueness = 0"
| "operation_into_i16 Reauth = 1"
| "operation_into_i16 Recovery = 2"

text \<open>An unknown value is the error.\<close>

definition operation_try_from :: "16 word \<Rightarrow> 16 word + AnonStatsOperation" where
  "operation_try_from value =
     (if value = 0 then Inr Uniqueness else if value = 1 then Inr Reauth else if value = 2 then Inr Recovery else Inl value)"

datatype Eye = Left | Right

fun eye_other :: "Eye \<Rightarrow> Eye" where
  "eye_other Left = Right"
| "eye_other Right = Left"

fun eye_fmt :: "Eye \<Rightarrow> string" where
  "eye_fmt Left = ''left''"
| "eye_fmt Right = ''right''"

datatype DistanceFunction = FHD | NHD | HD | QuantizedCosine

fun distance_function_fmt :: "DistanceFunction \<Rightarrow> string" where
  "distance_function_fmt FHD = ''fhd''"
| "distance_function_fmt NHD = ''nhd''"
| "distance_function_fmt HD = ''hd''"
| "distance_function_fmt QuantizedCosine = ''cosine''"

datatype AnonStatsResultSource = Legacy | Aggregator

datatype AnonStatsOrientation = Normal | Mirror

datatype AnonStatsContext = GPU | HNSW | FACE | DI

fun context_into_i16 :: "AnonStatsContext \<Rightarrow> 16 word" where
  "context_into_i16 GPU = 0"
| "context_into_i16 HNSW = 1"
| "context_into_i16 FACE = 2"
| "context_into_i16 DI = 3"

record AnonStatsOrigin =
  side :: "Eye option"
  orientation :: AnonStatsOrientation
  origin_context :: AnonStatsContext

definition origin_into_i16 :: "AnonStatsOrigin \<Rightarrow> 16 word" where
  "origin_into_i16 origin =
     (let side_val = (case side origin of Some Left \<Rightarrow> 0 | Some Right \<Rightarrow> 1 | None \<Rightarrow> 2);
          orientation_val = (case orientation origin of Normal \<Rightarrow> 0 | Mirror \<Rightarrow> 1)
      in or (or (push_bit 9 side_val) (push_bit 8 orientation_val)) (context_into_i16 (origin_context origin)))"

section \<open>The rows of a job\<close>

text \<open>Identifiers are \<open>i64\<close>; the sort is stable. The hash of the identifiers is a library.\<close>

record 'a AnonStatsMapping =
  stats :: "(64 word \<times> 'a) list"

definition mapping_new :: "(64 word \<times> 'a) list \<Rightarrow> 'a AnonStatsMapping" where
  "mapping_new rows = \<lparr>stats = sort_key (\<lambda>(i, _). sint i) rows\<rparr>"

definition mapping_len :: "'a AnonStatsMapping \<Rightarrow> nat" where
  "mapping_len self = length (stats self)"

definition mapping_is_empty :: "'a AnonStatsMapping \<Rightarrow> bool" where
  "mapping_is_empty self \<longleftrightarrow> stats self = []"

definition get_ranges :: "'a AnonStatsMapping \<Rightarrow> 64 word \<times> 64 word" where
  "get_ranges self = (if stats self = [] then (0, 0) else (fst (hd (stats self)), fst (last (stats self))))"

definition get_id_hash :: "(64 word list \<Rightarrow> u64) \<Rightarrow> 'a AnonStatsMapping \<Rightarrow> u64" where
  "get_id_hash sip self = sip (map fst (stats self))"

definition into_bundles :: "'a AnonStatsMapping \<Rightarrow> 'a list" where
  "into_bundles self = map snd (stats self)"

definition mapping_truncate :: "nat \<Rightarrow> 'a AnonStatsMapping \<Rightarrow> 'a AnonStatsMapping" where
  "mapping_truncate new_size self = self\<lparr>stats := take new_size (stats self)\<rparr>"

section \<open>Boundaries\<close>

text \<open>Rounding to an integer, half away from zero, and the literals of the code.\<close>

definition f64_nearest :: "f64 \<Rightarrow> f64" where
  "f64_nearest x = (if 0 \<le> x then of_int \<lfloor>x + 1 / 2\<rfloor> else of_int \<lceil>x - 1 / 2\<rceil>)"

definition round_boundary :: "f64 \<Rightarrow> f64" where
  "round_boundary x = f64_round (f64_nearest (f64_mul x (10 ^ 12)) / 10 ^ 12)"

text \<open>A quotient that is not finite is \<open>None\<close>, and so is every boundary made from it.\<close>

definition f64_quot :: "f64 \<Rightarrow> nat \<Rightarrow> f64 option" where
  "f64_quot x n = (if n = 0 then None else Some (f64_round (x / f64_round (of_nat n))))"

definition boundary :: "f64 option \<Rightarrow> nat \<Rightarrow> f64 option" where
  "boundary step i = map_option (\<lambda>s. round_boundary (f64_mul s (f64_round (of_nat i)))) step"

type_synonym timestamp = int

section \<open>Histograms\<close>

record BucketResult =
  bucket_count :: nat
  hamming_distance_bucket :: "f64 option \<times> f64 option"

text \<open>Equality with a tolerance; it fails on values that are not finite.\<close>

definition close_f64 :: "f64 option \<Rightarrow> f64 option \<Rightarrow> bool" where
  "close_f64 x y = (case (x, y) of (Some a, Some b) \<Rightarrow> \<bar>f64_sub a b\<bar> \<le> f64_round (1 / 10 ^ 9) | _ \<Rightarrow> False)"

definition bucket_result_eq :: "BucketResult \<Rightarrow> BucketResult \<Rightarrow> bool" where
  "bucket_result_eq self other \<longleftrightarrow> bucket_count self = bucket_count other
     \<and> close_f64 (fst (hamming_distance_bucket self)) (fst (hamming_distance_bucket other))
     \<and> close_f64 (snd (hamming_distance_bucket self)) (snd (hamming_distance_bucket other))"

record BucketStatistics =
  buckets :: "BucketResult list"
  n_buckets :: nat
  match_distances_buffer_size :: nat
  stats_party_id :: nat
  operation :: AnonStatsOperation
  eye :: "Eye option"
  distance_function :: DistanceFunction
  stats_source :: AnonStatsResultSource
  start_time :: timestamp
  end_time :: "timestamp option"
  next_start_time :: "timestamp option"
  is_mirror_orientation :: bool

definition stats_is_empty :: "BucketStatistics \<Rightarrow> bool" where
  "stats_is_empty self \<longleftrightarrow> buckets self = []"

definition bucket_statistics_new :: "timestamp \<Rightarrow> nat \<Rightarrow> nat \<Rightarrow> nat \<Rightarrow> Eye option \<Rightarrow> DistanceFunction \<Rightarrow> AnonStatsResultSource
    \<Rightarrow> AnonStatsOperation option \<Rightarrow> BucketStatistics" where
  "bucket_statistics_new now buffer_size n party e f src op =
     \<lparr>buckets = [], n_buckets = n, match_distances_buffer_size = buffer_size, stats_party_id = party,
      operation = (case op of Some x \<Rightarrow> x | None \<Rightarrow> Uniqueness), eye = e, distance_function = f, stats_source = src,
      start_time = now, end_time = None, next_start_time = None, is_mirror_orientation = False\<rparr>"

text \<open>The difference to the previous cumulative count, clamped at zero.\<close>

definition decumulate :: "u32 list \<Rightarrow> nat \<Rightarrow> u32" where
  "decumulate arr i =
     (let previous_count = (if i = 0 then 0 else arr ! (i - 1))
      in if previous_count \<le> arr ! i then arr ! i - previous_count else 0)"

definition fill_buckets :: "timestamp \<Rightarrow> u32 list \<Rightarrow> f64 \<Rightarrow> timestamp option \<Rightarrow> BucketStatistics \<Rightarrow> BucketStatistics" where
  "fill_buckets now buckets_array match_threshold_ratio start_timestamp self =
     (let step = f64_quot match_threshold_ratio (n_buckets self);
          bs = map (\<lambda>i. \<lparr>bucket_count = unat (decumulate buckets_array i),
                          hamming_distance_bucket = (boundary step i, boundary step (i + 1))\<rparr>) [0..<length buckets_array]
      in self\<lparr>buckets := bs, end_time := Some now,
              start_time := (case start_timestamp of Some t \<Rightarrow> t | None \<Rightarrow> start_time self), next_start_time := Some now\<rparr>)"

section \<open>Histograms in two dimensions\<close>

record Bucket2DResult =
  bucket2d_count :: nat
  left_hamming_distance_bucket :: "f64 option \<times> f64 option"
  right_hamming_distance_bucket :: "f64 option \<times> f64 option"

definition bucket2d_result_eq :: "Bucket2DResult \<Rightarrow> Bucket2DResult \<Rightarrow> bool" where
  "bucket2d_result_eq self other \<longleftrightarrow> bucket2d_count self = bucket2d_count other
     \<and> close_f64 (fst (left_hamming_distance_bucket self)) (fst (left_hamming_distance_bucket other))
     \<and> close_f64 (snd (left_hamming_distance_bucket self)) (snd (left_hamming_distance_bucket other))
     \<and> close_f64 (fst (right_hamming_distance_bucket self)) (fst (right_hamming_distance_bucket other))
     \<and> close_f64 (snd (right_hamming_distance_bucket self)) (snd (right_hamming_distance_bucket other))"

record BucketStatistics2D =
  buckets2d :: "Bucket2DResult list"
  n_buckets_per_side :: nat
  match_distances_buffer_size2d :: nat
  party_id2d :: nat
  operation2d :: AnonStatsOperation
  distance_function2d :: DistanceFunction
  source2d :: AnonStatsResultSource
  start_time2d :: timestamp
  end_time2d :: "timestamp option"
  next_start_time2d :: "timestamp option"
  is_mirror_orientation2d :: bool
  left_opposite_mirror_match :: "bool option"
  right_opposite_mirror_match :: "bool option"
  sampling_rate :: "u8 option"

definition stats2d_is_empty :: "BucketStatistics2D \<Rightarrow> bool" where
  "stats2d_is_empty self \<longleftrightarrow> buckets2d self = []"

definition bucket_statistics2d_new :: "timestamp \<Rightarrow> nat \<Rightarrow> nat \<Rightarrow> nat \<Rightarrow> DistanceFunction \<Rightarrow> AnonStatsResultSource
    \<Rightarrow> AnonStatsOperation option \<Rightarrow> bool option \<Rightarrow> bool option \<Rightarrow> BucketStatistics2D" where
  "bucket_statistics2d_new now buffer_size n party f src op left_mirror right_mirror =
     \<lparr>buckets2d = [], n_buckets_per_side = n, match_distances_buffer_size2d = buffer_size, party_id2d = party,
      operation2d = (case op of Some x \<Rightarrow> x | None \<Rightarrow> Uniqueness), distance_function2d = f, source2d = src,
      start_time2d = now, end_time2d = None, next_start_time2d = None, is_mirror_orientation2d = False,
      left_opposite_mirror_match = left_mirror, right_opposite_mirror_match = right_mirror, sampling_rate = None\<rparr>"

text \<open>Inclusion and exclusion over the cumulative counts; missing cells count as zero.\<close>

definition get_or_zero :: "u32 list \<Rightarrow> nat \<Rightarrow> int" where
  "get_or_zero xs k = (if k < length xs then uint (xs ! k) else 0)"

definition cell_count :: "u32 list \<Rightarrow> nat \<Rightarrow> nat \<Rightarrow> int" where
  "cell_count buckets_2d n idx =
     (let i = idx div n; j = idx mod n;
          c_ij = get_or_zero buckets_2d idx;
          c_im1_j = (if 0 < i then get_or_zero buckets_2d (idx - n) else 0);
          c_i_jm1 = (if 0 < j then get_or_zero buckets_2d (idx - 1) else 0);
          c_im1_jm1 = (if 0 < i \<and> 0 < j then get_or_zero buckets_2d (idx - n - 1) else 0);
          cell = c_ij - c_im1_j - c_i_jm1 + c_im1_jm1
      in if cell < 0 then 0 else cell)"

text \<open>The loop both versions of the source share, with the limits of a bucket as argument.\<close>

definition cells2d :: "u32 list \<Rightarrow> nat \<Rightarrow> (nat \<Rightarrow> f64 option \<times> f64 option) \<Rightarrow> Bucket2DResult list" where
  "cells2d buckets_2d n limits =
     concat (map (\<lambda>idx. let cell = cell_count buckets_2d n idx in
       if 0 < cell then [\<lparr>bucket2d_count = nat cell, left_hamming_distance_bucket = limits (idx div n), right_hamming_distance_bucket = limits (idx mod n)\<rparr>]
       else []) [0..<n * n])"

definition fill_buckets2d :: "timestamp \<Rightarrow> u32 list \<Rightarrow> f64 \<Rightarrow> timestamp option \<Rightarrow> BucketStatistics2D \<Rightarrow> BucketStatistics2D" where
  "fill_buckets2d now buckets_2d match_threshold_ratio start_timestamp self =
     (let n = n_buckets_per_side self; step = f64_quot match_threshold_ratio n
      in self\<lparr>buckets2d := cells2d buckets_2d n (\<lambda>k. (boundary step k, boundary step (k + 1))), end_time2d := Some now,
              start_time2d := (case start_timestamp of Some t \<Rightarrow> t | None \<Rightarrow> start_time2d self), next_start_time2d := Some now\<rparr>)"

text \<open>Explicit thresholds: bucket \<open>k\<close> lies between the thresholds \<open>k - 1\<close> and \<open>k\<close>.\<close>

definition di_limits :: "16 word list \<Rightarrow> nat \<Rightarrow> f64 option \<times> f64 option" where
  "di_limits thresholds k =
     (let edges = - (2 ^ 15) # map (\<lambda>t. of_int (sint t)) thresholds in (Some (edges ! k), Some (edges ! (k + 1))))"

definition fill_buckets_di :: "timestamp \<Rightarrow> u32 list \<Rightarrow> 16 word list \<Rightarrow> timestamp option \<Rightarrow> BucketStatistics2D \<Rightarrow> BucketStatistics2D" where
  "fill_buckets_di now buckets_2d thresholds start_timestamp self =
     (let n = length thresholds
      in self\<lparr>n_buckets_per_side := n, buckets2d := cells2d buckets_2d n (di_limits thresholds), end_time2d := Some now,
              start_time2d := (case start_timestamp of Some t \<Rightarrow> t | None \<Rightarrow> start_time2d self), next_start_time2d := Some now\<rparr>)"

section \<open>Encodings\<close>

lemma operation_round_trip: "operation_try_from (operation_into_i16 x) = Inr x"
  by (cases x) (simp_all add: operation_try_from_def)

lemma operation_try_from_Inr: "operation_try_from v = Inr x \<longleftrightarrow> v = operation_into_i16 x"
  by (cases x) (auto simp: operation_try_from_def)

text \<open>The bits of an origin do not overlap.\<close>

lemma origin_into_i16_eq:
  "origin_into_i16 x = of_nat ((case side x of Some Left \<Rightarrow> 0 | Some Right \<Rightarrow> 1 | None \<Rightarrow> 2) * 512
     + (case orientation x of Normal \<Rightarrow> 0 | Mirror \<Rightarrow> 256) + (case origin_context x of GPU \<Rightarrow> 0 | HNSW \<Rightarrow> 1 | FACE \<Rightarrow> 2 | DI \<Rightarrow> 3))"
  unfolding origin_into_i16_def Let_def
  by (cases "side x"; cases "orientation x"; cases "origin_context x") (auto split: Eye.splits simp: push_bit_eq_mult)

lemma origin_into_i16_inj: "origin_into_i16 x = origin_into_i16 y \<longleftrightarrow> side x = side y \<and> orientation x = orientation y \<and> origin_context x = origin_context y"
  unfolding origin_into_i16_eq
  by (cases "side x"; cases "side y"; cases "orientation x"; cases "orientation y"; cases "origin_context x"; cases "origin_context y")
    (auto split: Eye.splits)

section \<open>Rows\<close>

lemma mapping_new_rows:
  "mset (stats (mapping_new rows)) = mset rows" "sorted (map (\<lambda>(i, _). sint i) (stats (mapping_new rows)))"
  by (simp_all add: mapping_new_def)

section \<open>Counts from cumulative counts\<close>

lemma decumulate_count:
  assumes "\<forall>k < length arr. uint (arr ! k) = int (\<Sum>a\<le>k. h a)" "i < length arr"
  shows "unat (decumulate arr i) = h i"
proof (cases i)
  case 0
  then have "uint (arr ! 0) = int (h 0)" using assms by auto
  then show ?thesis using 0 by (simp add: decumulate_def unat_eq_nat_uint)
next
  case (Suc k)
  have u: "uint (arr ! k) = int (\<Sum>a\<le>k. h a)" "uint (arr ! i) = int (\<Sum>a\<le>k. h a) + int (h i)" using assms Suc by simp_all
  then have le: "arr ! k \<le> arr ! i" by (simp only: word_le_def)
  then have "decumulate arr i = arr ! i - arr ! k" using Suc by (simp add: decumulate_def)
  then have "uint (decumulate arr i) = uint (arr ! i) - uint (arr ! k)" using le by (simp only: uint_sub_lem word_le_def)
  then have "uint (decumulate arr i) = int (h i)" unfolding u by simp
  then show ?thesis by (simp only: unat_eq_nat_uint nat_int)
qed

lemma concat_map_singleton_if: "concat (map (\<lambda>x. if P x then [f x] else []) xs) = map f (filter P xs)"
  by (induction xs) simp_all

lemma inclusion_exclusion:
  fixes H :: "nat \<Rightarrow> nat \<Rightarrow> int"
  defines "C \<equiv> \<lambda>a b. \<Sum>c\<le>a. \<Sum>d\<le>b. H c d"
  shows "C i j - (if 0 < i then C (i - 1) j else 0) - (if 0 < j then C i (j - 1) else 0) + (if 0 < i \<and> 0 < j then C (i - 1) (j - 1) else 0) = H i j"
  unfolding C_def by (cases i; cases j) (simp_all add: sum.distrib)

lemma cell_count_eq:
  assumes arr: "\<And>a b. a < n \<Longrightarrow> b < n \<Longrightarrow> get_or_zero arr (a * n + b) = (\<Sum>c\<le>a. \<Sum>d\<le>b. int (H c d))" and ij: "i < n" "j < n"
  shows "cell_count arr n (i * n + j) = int (H i j)"
proof -
  let ?C = "\<lambda>a b. \<Sum>c\<le>a. \<Sum>d\<le>b. int (H c d)"
  have idx: "(i * n + j) div n = i" "(i * n + j) mod n = j" using ij by simp_all
  have p: "i * n + j - n = (i - 1) * n + j" if "0 < i" using that by (cases i) simp_all
  have q: "i * n + j - 1 = i * n + (j - 1)" if "0 < j" using that by simp
  have r: "i * n + j - n - 1 = (i - 1) * n + (j - 1)" if "0 < i \<and> 0 < j" using that by (cases i) simp_all
  have c: "get_or_zero arr (i * n + j) = ?C i j" by (rule arr [OF ij])
  have ci: "(if 0 < i then get_or_zero arr (i * n + j - n) else 0) = (if 0 < i then ?C (i - 1) j else 0)"
    by (rule if_cong [OF refl _ refl], subst p, assumption, rule arr) (use ij in auto)
  have cj: "(if 0 < j then get_or_zero arr (i * n + j - 1) else 0) = (if 0 < j then ?C i (j - 1) else 0)"
    by (rule if_cong [OF refl _ refl], subst q, assumption, rule arr) (use ij in auto)
  have cij: "(if 0 < i \<and> 0 < j then get_or_zero arr (i * n + j - n - 1) else 0) = (if 0 < i \<and> 0 < j then ?C (i - 1) (j - 1) else 0)"
    by (rule if_cong [OF refl _ refl], subst r, assumption, rule arr) (use ij in auto)
  show ?thesis unfolding cell_count_def Let_def idx c ci cj cij inclusion_exclusion [of "\<lambda>a b. int (H a b)"] by simp
qed

lemma cells2d_eq:
  assumes "\<And>a b. a < n \<Longrightarrow> b < n \<Longrightarrow> get_or_zero arr (a * n + b) = (\<Sum>c\<le>a. \<Sum>d\<le>b. int (H c d))"
  shows "cells2d arr n limits =
    map (\<lambda>(i, j). \<lparr>bucket2d_count = H i j, left_hamming_distance_bucket = limits i, right_hamming_distance_bucket = limits j\<rparr>)
      (filter (\<lambda>(i, j). 0 < H i j) (List.product [0..<n] [0..<n]))"
proof -
  have "map (\<lambda>idx. (idx div n, idx mod n)) [0..<n * n] = List.product [0..<n] [0..<n]"
    by (rule nth_equalityI) (auto simp: product_nth less_mult_imp_div_less intro!: nth_upt [symmetric, where i = 0, simplified] mod_less_divisor gr0I)
  then have prod: "List.product [0..<n] [0..<n] = map (\<lambda>idx. (idx div n, idx mod n)) [0..<n * n]" ..
  have cell: "cell_count arr n idx = int (H (idx div n) (idx mod n))" if "idx < n * n" for idx
  proof -
    have "0 < n" using that by (cases n) simp_all
    then have "idx div n < n" "idx mod n < n" using that by (simp_all add: less_mult_imp_div_less)
    from cell_count_eq [OF assms this] show ?thesis by simp
  qed
  have "cells2d arr n limits = concat (map (\<lambda>idx. if 0 < H (idx div n) (idx mod n)
      then [\<lparr>bucket2d_count = H (idx div n) (idx mod n), left_hamming_distance_bucket = limits (idx div n), right_hamming_distance_bucket = limits (idx mod n)\<rparr>] else []) [0..<n * n])"
    unfolding cells2d_def Let_def by (intro arg_cong [where f = concat] map_cong) (auto simp: cell)
  also have "\<dots> = map (\<lambda>idx. \<lparr>bucket2d_count = H (idx div n) (idx mod n), left_hamming_distance_bucket = limits (idx div n), right_hamming_distance_bucket = limits (idx mod n)\<rparr>)
      (filter (\<lambda>idx. 0 < H (idx div n) (idx mod n)) [0..<n * n])"
    by (simp only: concat_map_singleton_if)
  finally show ?thesis unfolding prod by (simp add: filter_map comp_def)
qed

section \<open>Places of the boundaries\<close>

text \<open>A boundary is within \<open>1 / 10 ^ 12\<close> of the exact fraction of the ratio, and boundaries keep the order of their indices.\<close>

lemma f64_nearest_error: "\<bar>f64_nearest x - x\<bar> \<le> 1 / 2"
proof -
  have "of_int \<lfloor>x + 1 / 2\<rfloor> \<le> x + 1 / 2" "x + 1 / 2 < of_int \<lfloor>x + 1 / 2\<rfloor> + 1"
    "x - 1 / 2 \<le> of_int \<lceil>x - 1 / 2\<rceil>" "of_int \<lceil>x - 1 / 2\<rceil> < x - 1 / 2 + 1" by linarith+
  then have "\<bar>of_int \<lfloor>x + 1 / 2\<rfloor> - x\<bar> \<le> 1 / 2" "\<bar>of_int \<lceil>x - 1 / 2\<rceil> - x\<bar> \<le> 1 / 2" by linarith+
  then show ?thesis by (simp add: f64_nearest_def)
qed

lemma f64_nearest_mono: "x \<le> y \<Longrightarrow> 0 \<le> x \<Longrightarrow> f64_nearest x \<le> f64_nearest y"
  by (simp add: f64_nearest_def floor_mono)

lemma round_boundary_mono: "0 \<le> x \<Longrightarrow> x \<le> y \<Longrightarrow> round_boundary x \<le> round_boundary y"
  unfolding round_boundary_def f64_mul_def
  by (intro f64_round_mono divide_right_mono f64_nearest_mono mult_right_mono f64_round_sign) simp_all

lemma round_boundary_error:
  assumes "0 \<le> x" "x \<le> 2"
  shows "\<bar>round_boundary x - x\<bar> \<le> 6 / 10 ^ 13"
proof -
  define y z where "y = f64_mul x (10 ^ 12)" and "z = f64_nearest y / 10 ^ 12"
  define t :: rat where "t = 1 / 2 ^ 200"
  have t: "0 \<le> t" "t \<le> 1 / 2 ^ 53" by (simp_all add: t_def)
  have y: "0 \<le> y" "\<bar>y - x * 10 ^ 12\<bar> \<le> x * 10 ^ 12 / 2 ^ 53 + t"
    unfolding y_def f64_mul_def t_def using assms by (intro f64_round_sign f64_round_error; simp)+
  have "0 \<le> f64_nearest y" using y(1) by (simp add: f64_nearest_def)
  then have z: "0 \<le> z" by (simp add: z_def)
  have "\<bar>f64_nearest y - y\<bar> \<le> 1 / 2" by (rule f64_nearest_error)
  then have zy: "\<bar>z * 10 ^ 12 - y\<bar> \<le> 1 / 2" by (simp add: z_def)
  have zx: "\<bar>z - x\<bar> \<le> 55 / 10 ^ 14" using zy y(2) t assms unfolding abs_le_iff by simp
  have "\<bar>f64_round z - z\<bar> \<le> z / 2 ^ 53 + t" unfolding t_def by (rule f64_round_error [OF z])
  then have "\<bar>f64_round z - x\<bar> \<le> 6 / 10 ^ 13" using zx t assms unfolding abs_le_iff by simp
  then show ?thesis by (simp add: round_boundary_def z_def y_def)
qed

lemma boundary_place:
  assumes "0 \<le> ratio" "ratio \<le> 1" "0 < N" "N < 2 ^ 53"
  obtains b where "\<And>i. i \<le> N \<Longrightarrow> boundary (f64_quot ratio N) i = Some (b i)"
    "\<And>i. i \<le> N \<Longrightarrow> \<bar>b i - ratio * of_nat i / of_nat N\<bar> \<le> 1 / 10 ^ 12"
    "\<And>i j. i \<le> j \<Longrightarrow> j \<le> N \<Longrightarrow> b i \<le> b j"
proof -
  define s where "s = f64_round (ratio / of_nat N)"
  define t :: rat where "t = 1 / 2 ^ 200"
  have t: "0 \<le> t" "t * 2 ^ 53 \<le> 1 / 2 ^ 53" "t \<le> 1 / 2 ^ 53" by (simp_all add: t_def)
  have s: "0 \<le> s" "\<bar>s - ratio / of_nat N\<bar> \<le> ratio / of_nat N / 2 ^ 53 + t"
    unfolding s_def t_def using assms by (intro f64_round_sign f64_round_error; simp)+
  define b where "b i = round_boundary (f64_mul s (of_nat i))" for i
  have step: "f64_quot ratio N = Some s" using assms by (simp add: f64_quot_def s_def f64_round_of_nat)
  have eq: "boundary (f64_quot ratio N) i = Some (b i)" if "i \<le> N" for i
    using that assms(4) by (simp add: step boundary_def b_def f64_round_of_nat)
  have near: "\<bar>b i - ratio * of_nat i / of_nat N\<bar> \<le> 1 / 10 ^ 12" if "i \<le> N" for i
  proof -
    let ?i = "of_nat i :: rat" and ?N = "of_nat N :: rat"
    have "?N \<le> of_nat (2 ^ 53)" using assms(4) by (simp only: of_nat_le_iff)
    then have i: "0 \<le> ?i" "?i \<le> ?N" "0 < ?N" "?N \<le> 2 ^ 53" using that assms(3) by simp_all
    define x where "x = ratio * ?i / ?N"
    have "ratio * (?i / ?N) \<le> 1 * 1" using assms(1,2) i by (intro mult_mono) simp_all
    then have x: "0 \<le> x" "x \<le> 1" using assms(1) i by (simp_all add: x_def)
    have "\<bar>s - ratio / ?N\<bar> * ?i \<le> (ratio / ?N / 2 ^ 53 + t) * ?i" using s(2) i(1) by (rule mult_right_mono)
    also have "\<dots> = x / 2 ^ 53 + t * ?i" by (simp add: x_def field_simps)
    also have "t * ?i \<le> t * 2 ^ 53" using t i by (intro mult_left_mono) simp_all
    finally have "\<bar>(s - ratio / ?N) * ?i\<bar> \<le> x / 2 ^ 53 + t * 2 ^ 53" using i(1) by (simp add: abs_mult)
    then have si: "\<bar>s * ?i - x\<bar> \<le> x / 2 ^ 53 + t * 2 ^ 53" by (simp add: x_def left_diff_distrib)
    have "0 \<le> s * ?i" using s(1) i(1) by simp
    then have p: "0 \<le> f64_mul s ?i" "\<bar>f64_mul s ?i - s * ?i\<bar> \<le> s * ?i / 2 ^ 53 + t"
      unfolding f64_mul_def t_def by (intro f64_round_sign f64_round_error; simp)+
    have px: "\<bar>f64_mul s ?i - x\<bar> \<le> 1 / 10 ^ 14" using p(2) si t x unfolding abs_le_iff by simp
    have "f64_mul s ?i \<le> 2" using px x unfolding abs_le_iff by simp
    from round_boundary_error [OF p(1) this] px show ?thesis unfolding b_def x_def [symmetric] abs_le_iff by simp
  qed
  have mono: "b i \<le> b j" if "i \<le> j" for i j
    unfolding b_def f64_mul_def using that s(1) by (intro round_boundary_mono f64_round_sign f64_round_mono mult_left_mono) simp_all
  show thesis by (rule that [OF eq near mono])
qed

lemma boundaries_ascend:
  assumes "0 \<le> ratio" "ratio \<le> 1" "0 < N" "N < 2 ^ 53"
  shows "\<exists>b. (\<forall>i \<le> N. boundary (f64_quot ratio N) i = Some (b i) \<and> \<bar>b i - ratio * of_nat i / of_nat N\<bar> \<le> 1 / 10 ^ 12)
    \<and> (\<forall>j \<le> N. \<forall>i \<le> j. b i \<le> b j) \<and> (2 / 10 ^ 12 < ratio / of_nat N \<longrightarrow> (\<forall>j \<le> N. \<forall>i < j. b i < b j))"
proof -
  obtain b where b: "\<And>i. i \<le> N \<Longrightarrow> boundary (f64_quot ratio N) i = Some (b i)"
    "\<And>i. i \<le> N \<Longrightarrow> \<bar>b i - ratio * of_nat i / of_nat N\<bar> \<le> 1 / 10 ^ 12"
    "\<And>i j. i \<le> j \<Longrightarrow> j \<le> N \<Longrightarrow> b i \<le> b j"
    using boundary_place [OF assms] by blast
  have "b i < b j" if "2 / 10 ^ 12 < ratio / of_nat N" "i < j" "j \<le> N" for i j
  proof -
    have "(of_nat i :: rat) + 1 \<le> of_nat j" using that(2) by (simp flip: of_nat_Suc)
    then have "ratio / of_nat N * (of_nat i + 1) \<le> ratio / of_nat N * of_nat j" using assms by (intro mult_left_mono) simp_all
    then have "ratio * of_nat i / of_nat N + ratio / of_nat N \<le> ratio * of_nat j / of_nat N" by (simp add: distrib_left)
    then show ?thesis using that b(2) [of i] b(2) [of j] unfolding abs_le_iff by linarith
  qed
  then show ?thesis using b by blast
qed

text \<open>Explicit thresholds that ascend make limits that ascend.\<close>

lemma di_limits_ascend:
  assumes "sorted_wrt (<) (map sint ts)" "k < length ts"
  shows "\<exists>lo hi. di_limits ts k = (Some lo, Some hi) \<and> lo \<le> hi \<and> (0 < k \<longrightarrow> lo < hi) \<and> hi = of_int (sint (ts ! k))
    \<and> (0 < k \<longrightarrow> di_limits ts (k - 1) = (fst (di_limits ts (k - 1)), Some lo))"
proof (cases k)
  case 0
  have "- (2 ^ 15) \<le> sint (ts ! 0)" using sint_ge [of "ts ! 0"] by simp
  then have "of_int (- (2 ^ 15)) \<le> (of_int (sint (ts ! 0)) :: rat)" by (simp only: of_int_le_iff)
  then show ?thesis using assms(2) 0 by (simp add: di_limits_def)
next
  case (Suc l)
  then have "sint (ts ! l) < sint (ts ! k)" using sorted_wrt_nth_less [OF assms(1), of l k] assms(2) by simp
  then have "(of_int (sint (ts ! l)) :: rat) < of_int (sint (ts ! k))" by (simp only: of_int_less_iff)
  then show ?thesis using assms(2) Suc by (simp add: di_limits_def)
qed

section \<open>Properties\<close>

text \<open>
  C25: histograms from cumulative counts. When the entries are the cumulative counts of a
  histogram, in one dimension or row by row in two, filling gives back exactly the counts of
  the histogram with the boundaries of their buckets, without the empty buckets in two
  dimensions; the subtractions never clamp. The window of the report starts at the given time
  and the next one at the reading of the clock. For a ratio between zero and one and fewer than
  \<open>2 ^ 53\<close> buckets the boundary with index \<open>i\<close> is within \<open>1 / 10 ^ 12\<close> of the exact
  fraction \<open>i / N\<close> of the ratio, in spite of the four roundings; the boundaries never descend, and
  they ascend strictly when a bucket is wider than \<open>2 / 10 ^ 12\<close>. Explicit thresholds that ascend
  give limits that ascend and meet.
\<close>

theorem histograms_invert_cumulative_counts:
  assumes one: "\<forall>k < length arr. uint (arr ! k) = int (\<Sum>a\<le>k. h a)"
    and two: "length arr2 = n * n" "\<forall>a < n. \<forall>b < n. uint (arr2 ! (a * n + b)) = (\<Sum>c\<le>a. \<Sum>d\<le>b. int (H c d))"
    and n: "n_buckets_per_side s2 = n" "length ts = n"
  shows "map bucket_count (buckets (fill_buckets now arr ratio start s)) = map h [0..<length arr]
    \<and> map hamming_distance_bucket (buckets (fill_buckets now arr ratio start s)) =
        map (\<lambda>i. (boundary (f64_quot ratio (n_buckets s)) i, boundary (f64_quot ratio (n_buckets s)) (i + 1))) [0..<length arr]
    \<and> (start_time (fill_buckets now arr ratio start s) = (case start of Some t \<Rightarrow> t | None \<Rightarrow> start_time s))
    \<and> next_start_time (fill_buckets now arr ratio start s) = Some now
    \<and> buckets2d (fill_buckets2d now arr2 ratio start s2) =
        map (\<lambda>(i, j). \<lparr>bucket2d_count = H i j,
               left_hamming_distance_bucket = (boundary (f64_quot ratio n) i, boundary (f64_quot ratio n) (i + 1)),
               right_hamming_distance_bucket = (boundary (f64_quot ratio n) j, boundary (f64_quot ratio n) (j + 1))\<rparr>)
          (filter (\<lambda>(i, j). 0 < H i j) (List.product [0..<n] [0..<n]))
    \<and> buckets2d (fill_buckets_di now arr2 ts start s2) =
        map (\<lambda>(i, j). \<lparr>bucket2d_count = H i j, left_hamming_distance_bucket = di_limits ts i, right_hamming_distance_bucket = di_limits ts j\<rparr>)
          (filter (\<lambda>(i, j). 0 < H i j) (List.product [0..<n] [0..<n]))
    \<and> (\<forall>N. 0 \<le> ratio \<and> ratio \<le> 1 \<and> 0 < N \<and> N < 2 ^ 53 \<longrightarrow>
        (\<exists>b. (\<forall>i \<le> N. boundary (f64_quot ratio N) i = Some (b i) \<and> \<bar>b i - ratio * of_nat i / of_nat N\<bar> \<le> 1 / 10 ^ 12)
          \<and> (\<forall>j \<le> N. \<forall>i \<le> j. b i \<le> b j) \<and> (2 / 10 ^ 12 < ratio / of_nat N \<longrightarrow> (\<forall>j \<le> N. \<forall>i < j. b i < b j))))
    \<and> (sorted_wrt (<) (map sint ts) \<longrightarrow> (\<forall>k < n. \<exists>lo hi. di_limits ts k = (Some lo, Some hi) \<and> lo \<le> hi \<and> (0 < k \<longrightarrow> lo < hi)
          \<and> hi = of_int (sint (ts ! k)) \<and> (0 < k \<longrightarrow> di_limits ts (k - 1) = (fst (di_limits ts (k - 1)), Some lo))))"
proof -
  have places: "\<forall>N. 0 \<le> ratio \<and> ratio \<le> 1 \<and> 0 < N \<and> N < 2 ^ 53 \<longrightarrow>
        (\<exists>b. (\<forall>i \<le> N. boundary (f64_quot ratio N) i = Some (b i) \<and> \<bar>b i - ratio * of_nat i / of_nat N\<bar> \<le> 1 / 10 ^ 12)
          \<and> (\<forall>j \<le> N. \<forall>i \<le> j. b i \<le> b j) \<and> (2 / 10 ^ 12 < ratio / of_nat N \<longrightarrow> (\<forall>j \<le> N. \<forall>i < j. b i < b j)))"
    by (intro allI impI boundaries_ascend) (simp_all only: conj_imp_eq_imp_imp)
  have limits: "sorted_wrt (<) (map sint ts) \<longrightarrow> (\<forall>k < n. \<exists>lo hi. di_limits ts k = (Some lo, Some hi) \<and> lo \<le> hi \<and> (0 < k \<longrightarrow> lo < hi)
          \<and> hi = of_int (sint (ts ! k)) \<and> (0 < k \<longrightarrow> di_limits ts (k - 1) = (fst (di_limits ts (k - 1)), Some lo)))"
    using di_limits_ascend [of ts] n(2) by blast
  have cum: "get_or_zero arr2 (a * n + b) = (\<Sum>c\<le>a. \<Sum>d\<le>b. int (H c d))" if "a < n" "b < n" for a b
  proof -
    have "a * n + b < Suc a * n" using that by simp
    also have "\<dots> \<le> n * n" using that by (intro mult_le_mono1) simp
    finally have "a * n + b < n * n" .
    then show ?thesis using two that by (simp add: get_or_zero_def)
  qed
  have cells: "cells2d arr2 n f = map (\<lambda>(i, j). \<lparr>bucket2d_count = H i j, left_hamming_distance_bucket = f i, right_hamming_distance_bucket = f j\<rparr>)
      (filter (\<lambda>(i, j). 0 < H i j) (List.product [0..<n] [0..<n]))" for f
    by (rule cells2d_eq) (rule cum)
  have "map bucket_count (buckets (fill_buckets now arr ratio start s)) = map h [0..<length arr]"
    using decumulate_count [OF one] by (simp add: fill_buckets_def Let_def comp_def)
  then have counts: "map bucket_count (buckets (fill_buckets now arr ratio start s)) = map h [0..<length arr]
    \<and> map hamming_distance_bucket (buckets (fill_buckets now arr ratio start s)) =
        map (\<lambda>i. (boundary (f64_quot ratio (n_buckets s)) i, boundary (f64_quot ratio (n_buckets s)) (i + 1))) [0..<length arr]
    \<and> (start_time (fill_buckets now arr ratio start s) = (case start of Some t \<Rightarrow> t | None \<Rightarrow> start_time s))
    \<and> next_start_time (fill_buckets now arr ratio start s) = Some now"
    by (simp add: fill_buckets_def Let_def comp_def)
  have two_d: "buckets2d (fill_buckets2d now arr2 ratio start s2) = cells2d arr2 n (\<lambda>k. (boundary (f64_quot ratio n) k, boundary (f64_quot ratio n) (k + 1)))"
    "buckets2d (fill_buckets_di now arr2 ts start s2) = cells2d arr2 n (di_limits ts)"
    by (simp_all add: fill_buckets2d_def fill_buckets_di_def Let_def n)
  show ?thesis unfolding two_d cells using counts places limits by (intro conjI) (simp_all only: simp_thms)
qed

definition demo_stats :: BucketStatistics where
  "demo_stats = bucket_statistics_new 5 10 2 0 (Some Left) FHD Aggregator None"

definition demo_stats2d :: BucketStatistics2D where
  "demo_stats2d = bucket_statistics2d_new 5 10 2 0 QuantizedCosine Aggregator (Some Reauth) (Some True) (Some False)"

theorem histograms_invert_cumulative_counts_witness:
  "map bucket_count (buckets (fill_buckets 9 [1, 3] (3 / 8) (Some 4) demo_stats)) = [1, 2]
    \<and> buckets2d (fill_buckets_di 9 [0, 1, 1, 4] [- 5, 7] (Some 4) demo_stats2d) =
       [\<lparr>bucket2d_count = 1, left_hamming_distance_bucket = (Some (- 32768), Some (- 5)), right_hamming_distance_bucket = (Some (- 5), Some 7)\<rparr>,
        \<lparr>bucket2d_count = 1, left_hamming_distance_bucket = (Some (- 5), Some 7), right_hamming_distance_bucket = (Some (- 32768), Some (- 5))\<rparr>,
        \<lparr>bucket2d_count = 2, left_hamming_distance_bucket = (Some (- 5), Some 7), right_hamming_distance_bucket = (Some (- 5), Some 7)\<rparr>]
    \<and> (\<exists>a b c. map (boundary (f64_quot (3 / 8) 2)) [0, 1, 2] = [Some a, Some b, Some c] \<and> a < b \<and> b < c \<and> \<bar>b - 3 / 16\<bar> \<le> 1 / 10 ^ 12)"
proof -
  have one: "\<forall>k < length [1, 3 :: u32]. uint ([1, 3 :: u32] ! k) = int (\<Sum>a\<le>k. a + 1)" by (auto simp: less_Suc_eq)
  have two: "length [0, 1, 1, 4 :: u32] = 2 * 2"
    "\<forall>a < 2. \<forall>b < 2. uint ([0, 1, 1, 4 :: u32] ! (a * 2 + b)) = (\<Sum>c\<le>a. \<Sum>d\<le>b. int (c + d))"
    by (auto simp: less_2_cases_iff)
  have n: "n_buckets_per_side demo_stats2d = 2" "length [- 5, 7 :: 16 word] = 2" by (simp_all add: demo_stats2d_def bucket_statistics2d_new_def)
  have up: "[0..<2] = [0, 1 :: nat]" by (simp add: upt_rec)
  note all = histograms_invert_cumulative_counts [where s = demo_stats and h = "\<lambda>a. a + 1" and H = "\<lambda>c d. c + d" and ratio = "3 / 8" and start = "Some 4" and now = 9, OF one two n]
  obtain b where b: "\<forall>i \<le> 2. boundary (f64_quot (3 / 8) 2) i = Some (b i) \<and> \<bar>b i - 3 / 8 * of_nat i / of_nat 2\<bar> \<le> 1 / 10 ^ 12"
    "2 / 10 ^ 12 < 3 / 8 / (of_nat 2 :: rat) \<longrightarrow> (\<forall>j \<le> 2. \<forall>i < j. b i < b j)"
    using conjunct1 [OF conjunct2 [OF conjunct2 [OF conjunct2 [OF conjunct2 [OF conjunct2 [OF conjunct2 [OF all]]]]]], rule_format, of 2] by auto
  have "b 0 < b 1" "b 1 < b 2" using b(2) by simp_all
  moreover have "\<bar>b 1 - 3 / 16\<bar> \<le> 1 / 10 ^ 12" using b(1) [rule_format, of 1] by simp
  ultimately have "\<exists>a b c. map (boundary (f64_quot (3 / 8) 2)) [0, 1, 2] = [Some a, Some b, Some c] \<and> a < b \<and> b < c \<and> \<bar>b - 3 / 16\<bar> \<le> 1 / 10 ^ 12"
    using b(1) by (intro exI [of _ "b 0"] exI [of _ "b 1"] exI [of _ "b 2"]) simp
  then show ?thesis using conjunct1 [OF all] conjunct1 [OF conjunct2 [OF conjunct2 [OF conjunct2 [OF conjunct2 [OF conjunct2 [OF all]]]]]]
    by (intro conjI) (simp_all add: up di_limits_def)
qed

end
