(* ===== verification/Anon_Config.thy ===== *)
theory Anon_Config
  imports F64
begin

text \<open>
  Configuration of the anonymous statistics server (\<open>ampc-anon-stats/src/server/config/mod.rs\<close>)
  with the parts of it in \<open>ampc-server-utils/src/config.rs\<close>: its fields, their defaults, its
  validation and the overrides of the command line. Reading it from the environment is the
  \<open>config\<close> crate: the parsed configuration, or its error, is an argument.
\<close>

section \<open>Parts of the configuration\<close>

record AwsConfig =
  endpoint :: "string option"
  region :: "string option"

record MetricsConfig =
  metrics_host :: string
  metrics_port :: u16
  queue_size :: nat
  metrics_buffer_size :: nat
  metrics_prefix :: string

record ServiceConfig =
  service_name :: string
  traces_endpoint :: "string option"
  service_metrics :: "MetricsConfig option"

record ServerCoordinationConfig =
  coordination_party_id :: nat
  node_hostnames :: "string list"
  healthcheck_ports :: "string list"
  image_name :: string
  heartbeat_interval_secs :: u64
  heartbeat_initial_retries :: u64
  http_query_retry_delay_ms :: u64
  http_query_timeout_ms :: u64
  startup_sync_timeout_secs :: u64
  startup_visibility_barrier_disabled :: bool

text \<open>The values of missing fields.\<close>

definition default_server_coordination :: ServerCoordinationConfig where
  "default_server_coordination =
     \<lparr>coordination_party_id = 0, node_hostnames = replicate 3 ''localhost'', healthcheck_ports = replicate 3 ''3000'', image_name = '''',
      heartbeat_interval_secs = 2, heartbeat_initial_retries = 10, http_query_retry_delay_ms = 1000, http_query_timeout_ms = 10000,
      startup_sync_timeout_secs = 300, startup_visibility_barrier_disabled = False\<rparr>"

text \<open>Parsing of a \<open>usize\<close>: an optional sign, at least one digit and no overflow.\<close>

definition digit_value :: "char \<Rightarrow> nat option" where
  "digit_value c = (let v = of_char c :: nat in if 48 \<le> v \<and> v \<le> 57 then Some (v - 48) else None)"

fun parse_digits :: "nat \<Rightarrow> string \<Rightarrow> nat option" where
  "parse_digits acc [] = Some acc"
| "parse_digits acc (c # cs) =
     Option.bind (digit_value c) (\<lambda>d. if 10 * acc + d < 2 ^ 64 then parse_digits (10 * acc + d) cs else None)"

definition parse_usize :: "string \<Rightarrow> nat option" where
  "parse_usize s = (let ds = (case s of c # cs \<Rightarrow> if c = CHR ''+'' then cs else s | [] \<Rightarrow> []) in if ds = [] then None else parse_digits 0 ds)"

datatype port_error = PortOutOfBounds | PortUnparsable

definition get_own_healthcheck_port :: "ServerCoordinationConfig \<Rightarrow> port_error + nat" where
  "get_own_healthcheck_port self =
     (if coordination_party_id self < length (healthcheck_ports self)
      then (case parse_usize (healthcheck_ports self ! coordination_party_id self) of Some p \<Rightarrow> Inr p | None \<Rightarrow> Inl PortUnparsable)
      else Inl PortOutOfBounds)"

record TlsConfig =
  private_key :: "string option"
  leaf_cert :: "string option"
  root_certs :: "string list"

section \<open>Configuration of the server\<close>

record AnonStatsServerConfig =
  service :: "ServiceConfig option"
  aws :: "AwsConfig option"
  config_party_id :: nat
  environment :: string
  results_topic_arn :: string
  sns_buffer_bucket_name :: string
  n_buckets_1d :: nat
  n_buckets_1d_reauth :: nat
  n_buckets_2d :: nat
  n_buckets_2d_reauth :: nat
  nhd_threshold_ratio :: f64
  n_buckets_1d_nhd :: nat
  n_buckets_2d_nhd :: nat
  min_1d_job_size :: nat
  min_1d_job_size_reauth :: nat
  min_1d_job_size_recovery :: nat
  min_1d_job_size_mirror :: nat
  min_2d_job_size :: nat
  min_2d_job_size_full_retention :: nat
  min_2d_job_size_opposite_mirror_match :: nat
  min_face_job_size :: nat
  min_face_job_size_reauth :: nat
  min_2d_job_size_reauth :: nat
  min_2d_job_size_recovery :: nat
  min_2d_job_size_mirror :: nat
  max_rows_per_job_1d :: nat
  max_rows_per_job_2d :: nat
  poll_interval_secs :: u64
  mpc_timeout_secs :: u64
  face_bucket_thresholds :: "16 word list"
  di_2d_bucket_thresholds :: "16 word list"
  di_2d_sampling_rates :: "u8 list"
  max_sync_failures_before_reset :: nat
  db_url :: string
  db_schema_name :: string
  server_coordination :: "ServerCoordinationConfig option"
  service_ports :: "string list"
  shutdown_last_results_sync_timeout_secs :: u64
  tls :: "TlsConfig option"
  ignore_missing_migrations :: bool

text \<open>A range of \<open>i16\<close> values with a step.\<close>

definition i16_range :: "int \<Rightarrow> nat \<Rightarrow> nat \<Rightarrow> 16 word list" where
  "i16_range from step_by n = map (\<lambda>k. of_int (from + int step_by * int k)) [0..<n]"

definition default_face_bucket_thresholds :: "16 word list" where
  "default_face_bucket_thresholds = i16_range (- 2000) 100 60"

definition default_di_2d_bucket_thresholds :: "16 word list" where
  "default_di_2d_bucket_thresholds = i16_range (- 1000) 5 801 @ [4000]"

definition default_di_2d_sampling_rates :: "u8 list" where
  "default_di_2d_sampling_rates = [100]"

definition DEFAULT_MPC_TIMEOUT :: u64 where
  "DEFAULT_MPC_TIMEOUT = 10"

text \<open>The configuration of an empty environment: every field has its default.\<close>

definition default_config :: AnonStatsServerConfig where
  "default_config =
     \<lparr>service = None, aws = None, config_party_id = 0, environment = '''', results_topic_arn = '''', sns_buffer_bucket_name = '''',
      n_buckets_1d = 10, n_buckets_1d_reauth = 20, n_buckets_2d = 10, n_buckets_2d_reauth = 15, nhd_threshold_ratio = f64_round (4 / 10),
      n_buckets_1d_nhd = 400, n_buckets_2d_nhd = 400,
      min_1d_job_size = 1000, min_1d_job_size_reauth = 1000, min_1d_job_size_recovery = 1000, min_1d_job_size_mirror = 1000,
      min_2d_job_size = 1000, min_2d_job_size_full_retention = 20, min_2d_job_size_opposite_mirror_match = 20,
      min_face_job_size = 1000, min_face_job_size_reauth = 100,
      min_2d_job_size_reauth = 1000, min_2d_job_size_recovery = 1000, min_2d_job_size_mirror = 1000,
      max_rows_per_job_1d = 100000, max_rows_per_job_2d = 10000, poll_interval_secs = 30, mpc_timeout_secs = DEFAULT_MPC_TIMEOUT,
      face_bucket_thresholds = default_face_bucket_thresholds, di_2d_bucket_thresholds = default_di_2d_bucket_thresholds,
      di_2d_sampling_rates = default_di_2d_sampling_rates, max_sync_failures_before_reset = 3, db_url = '''', db_schema_name = ''anon_stats_mpc'',
      server_coordination = None, service_ports = [], shutdown_last_results_sync_timeout_secs = 10, tls = None, ignore_missing_migrations = False\<rparr>"

section \<open>Validation\<close>

datatype config_error =
    ConfigSource string
  | JobLimits1d
  | JobLimits2d
  | RatesEmpty
  | RateInvalid u8
  | RatesWithout100
  | RateDuplicate u8
  | ZeroMpcTimeout

definition validate_job_limits :: "AnonStatsServerConfig \<Rightarrow> config_error + unit" where
  "validate_job_limits self =
     (if max_rows_per_job_1d self < min_1d_job_size self
       \<or> max_rows_per_job_1d self < min_1d_job_size_reauth self
       \<or> max_rows_per_job_1d self < min_1d_job_size_recovery self
       \<or> max_rows_per_job_1d self < min_1d_job_size_mirror self
       \<or> max_rows_per_job_1d self < min_face_job_size self
       \<or> max_rows_per_job_1d self < min_face_job_size_reauth self then Inl JobLimits1d
      else if max_rows_per_job_2d self < min_2d_job_size self
       \<or> max_rows_per_job_2d self < min_2d_job_size_full_retention self
       \<or> max_rows_per_job_2d self < min_2d_job_size_reauth self
       \<or> max_rows_per_job_2d self < min_2d_job_size_recovery self
       \<or> max_rows_per_job_2d self < min_2d_job_size_mirror self then Inl JobLimits2d
      else Inr ())"

text \<open>The loop over the indices; the slice after the last index is empty.\<close>

fun duplicate_loop :: "u8 list \<Rightarrow> nat list \<Rightarrow> config_error + unit" where
  "duplicate_loop rates [] = Inr ()"
| "duplicate_loop rates (i # is') =
     (if rates ! i \<in> set (drop (i + 1) rates) then Inl (RateDuplicate (rates ! i)) else duplicate_loop rates is')"

definition validate_di_2d_sampling_rates :: "AnonStatsServerConfig \<Rightarrow> config_error + unit" where
  "validate_di_2d_sampling_rates self =
     (let rates = di_2d_sampling_rates self
      in if rates = [] then Inl RatesEmpty
         else case find (\<lambda>r. \<not> (1 \<le> r \<and> r \<le> 100)) rates of
           Some r \<Rightarrow> Inl (RateInvalid r)
         | None \<Rightarrow> if \<not> 100 \<in> set rates then Inl RatesWithout100 else duplicate_loop rates [0..<length rates])"

definition validate_config :: "AnonStatsServerConfig \<Rightarrow> config_error + unit" where
  "validate_config self =
     (case validate_job_limits self of Inl e \<Rightarrow> Inl e
      | Inr _ \<Rightarrow> (case validate_di_2d_sampling_rates self of Inl e \<Rightarrow> Inl e
                 | Inr _ \<Rightarrow> if mpc_timeout_secs self = 0 then Inl ZeroMpcTimeout else Inr ()))"

definition load_config :: "config_error + AnonStatsServerConfig \<Rightarrow> config_error + AnonStatsServerConfig" where
  "load_config parsed =
     (case parsed of Inl e \<Rightarrow> Inl e
      | Inr config \<Rightarrow>
        (let config = (case server_coordination config of Some c \<Rightarrow> config\<lparr>config_party_id := coordination_party_id c\<rparr> | None \<Rightarrow> config)
         in case validate_config config of Inl e \<Rightarrow> Inl e | Inr _ \<Rightarrow> Inr config))"

record Opt =
  opt_party_id :: "nat option"
  opt_addresses :: "string list option"
  opt_healthcheck_port :: "nat option"
  opt_results_topic_arn :: "string option"

definition overwrite_defaults_with_cli_args :: "Opt \<Rightarrow> AnonStatsServerConfig \<Rightarrow> AnonStatsServerConfig" where
  "overwrite_defaults_with_cli_args opts self =
     (let self = (case opt_party_id opts of Some p \<Rightarrow> self\<lparr>config_party_id := p\<rparr> | None \<Rightarrow> self)
      in case opt_results_topic_arn opts of Some a \<Rightarrow> self\<lparr>results_topic_arn := a\<rparr> | None \<Rightarrow> self)"

section \<open>Accepted configurations\<close>

lemma duplicate_loop_ok:
  "duplicate_loop rates is' = Inr () \<longleftrightarrow> (\<forall>i \<in> set is'. rates ! i \<notin> set (drop (i + 1) rates))"
  by (induction is') auto

lemma distinct_by_suffixes: "(\<forall>i < length xs. xs ! i \<notin> set (drop (i + 1) xs)) \<longleftrightarrow> distinct xs"
  by (induction xs) (auto simp: All_less_Suc2)

lemma validate_rates_ok:
  "validate_di_2d_sampling_rates c = Inr () \<longleftrightarrow>
    distinct (di_2d_sampling_rates c) \<and> 100 \<in> set (di_2d_sampling_rates c) \<and> set (di_2d_sampling_rates c) \<subseteq> {1..100}"
proof -
  let ?rs = "di_2d_sampling_rates c"
  have dup: "duplicate_loop ?rs [0..<length ?rs] = Inr () \<longleftrightarrow> distinct ?rs"
    unfolding duplicate_loop_ok by (auto simp: distinct_by_suffixes [symmetric])
  have range: "set ?rs \<subseteq> {1..100} \<longleftrightarrow> (\<forall>r \<in> set ?rs. 1 \<le> r \<and> r \<le> 100)" by auto
  show ?thesis
    unfolding validate_di_2d_sampling_rates_def Let_def range
    by (auto simp: dup find_None_iff split: option.splits) (auto simp: find_Some_iff)
qed

lemma validate_limits_ok:
  "validate_job_limits c = Inr () \<longleftrightarrow>
    (\<forall>s \<in> {min_1d_job_size c, min_1d_job_size_reauth c, min_1d_job_size_recovery c, min_1d_job_size_mirror c, min_face_job_size c, min_face_job_size_reauth c}.
      s \<le> max_rows_per_job_1d c) \<and>
    (\<forall>s \<in> {min_2d_job_size c, min_2d_job_size_full_retention c, min_2d_job_size_reauth c, min_2d_job_size_recovery c, min_2d_job_size_mirror c}.
      s \<le> max_rows_per_job_2d c)"
  unfolding validate_job_limits_def by (auto simp: not_less)

lemma validate_config_ok:
  "validate_config c = Inr () \<longleftrightarrow> validate_job_limits c = Inr () \<and> validate_di_2d_sampling_rates c = Inr () \<and> mpc_timeout_secs c \<noteq> 0"
  unfolding validate_config_def by (auto split: sum.splits)

lemma i16_range_sint:
  assumes "- (2 ^ 15) \<le> from" "from + int d * int n < 2 ^ 15"
  shows "map sint (i16_range from d n) = map (\<lambda>k. from + int d * int k) [0..<n]"
proof -
  have "sint (of_int (from + int d * int k) :: 16 word) = from + int d * int k" if "k < n" for k
  proof -
    have "int d * int k \<le> int d * int n" using that by (intro mult_left_mono) simp_all
    moreover have "0 \<le> int d * int k" by simp
    ultimately have "- (2 ^ 15) \<le> from + int d * int k" "from + int d * int k < 2 ^ 15" using assms by linarith+
    then show ?thesis unfolding sint_sbintrunc' by (simp add: signed_take_bit_int_eq_self)
  qed
  then show ?thesis by (simp add: i16_range_def)
qed

lemma sorted_steps: "sorted (map (\<lambda>k. from + int d * int k) [0..<n])"
  by (auto simp: sorted_iff_nth_mono intro!: mult_left_mono)

lemma default_thresholds_sint:
  "map sint default_face_bucket_thresholds = map (\<lambda>k. - 2000 + 100 * int k) [0..<60]"
  "map sint default_di_2d_bucket_thresholds = map (\<lambda>k. - 1000 + 5 * int k) [0..<801] @ [4000]"
  unfolding default_face_bucket_thresholds_def default_di_2d_bucket_thresholds_def map_append
  using i16_range_sint [of "- 2000" 100 60] i16_range_sint [of "- 1000" 5 801] by simp_all

lemma default_thresholds_sorted: "sorted (map sint default_face_bucket_thresholds)" "sorted (map sint default_di_2d_bucket_thresholds)"
  unfolding default_thresholds_sint using sorted_steps [of "- 2000" 100 60] sorted_steps [of "- 1000" 5 801] by (auto simp: sorted_append)

lemma default_thresholds_range:
  "t \<in> set default_face_bucket_thresholds \<Longrightarrow> - 2000 \<le> sint t \<and> sint t \<le> 3900"
  "t \<in> set default_di_2d_bucket_thresholds \<Longrightarrow> - 1000 \<le> sint t \<and> sint t \<le> 4000"
proof -
  assume "t \<in> set default_face_bucket_thresholds"
  then have "sint t \<in> set (map sint default_face_bucket_thresholds)" by simp
  then show "- 2000 \<le> sint t \<and> sint t \<le> 3900" unfolding default_thresholds_sint by auto
next
  assume "t \<in> set default_di_2d_bucket_thresholds"
  then have "sint t \<in> set (map sint default_di_2d_bucket_thresholds)" by simp
  then show "- 1000 \<le> sint t \<and> sint t \<le> 4000" unfolding default_thresholds_sint by auto
qed

lemma default_config_valid: "validate_config default_config = Inr ()"
  unfolding validate_config_ok validate_limits_ok validate_rates_ok
  by (simp add: default_config_def default_di_2d_sampling_rates_def DEFAULT_MPC_TIMEOUT_def)


lemma validate_party: "validate_config (c\<lparr>server_coordination := s, config_party_id := p\<rparr>) = validate_config c"
  unfolding validate_config_def validate_job_limits_def validate_di_2d_sampling_rates_def by simp

section \<open>Property\<close>

text \<open>
  C38: accepted configurations. Validation accepts a configuration exactly when no smallest job
  size exceeds the largest number of rows of its dimension, the sampling rates are different
  percentages with 100 among them and the timeout of the network is not zero; the defaults are
  accepted, and the party of the coordination settings becomes the party of the server. The
  smallest job size for rows with an opposite mirror match is never compared with the limit.
  The default thresholds of both kinds of scores are ascending.
\<close>

theorem accepted_configurations:
  "(validate_config c = Inr () \<longleftrightarrow>
      Max {min_1d_job_size c, min_1d_job_size_reauth c, min_1d_job_size_recovery c, min_1d_job_size_mirror c, min_face_job_size c, min_face_job_size_reauth c}
        \<le> max_rows_per_job_1d c
      \<and> Max {min_2d_job_size c, min_2d_job_size_full_retention c, min_2d_job_size_reauth c, min_2d_job_size_recovery c, min_2d_job_size_mirror c}
        \<le> max_rows_per_job_2d c
      \<and> distinct (di_2d_sampling_rates c) \<and> 100 \<in> set (di_2d_sampling_rates c) \<and> set (di_2d_sampling_rates c) \<subseteq> {1..100}
      \<and> mpc_timeout_secs c \<noteq> 0)
    \<and> validate_config (c\<lparr>min_2d_job_size_opposite_mirror_match := m\<rparr>) = validate_config c
    \<and> load_config (Inr (default_config\<lparr>server_coordination := Some (default_server_coordination\<lparr>coordination_party_id := p\<rparr>)\<rparr>)) =
        Inr (default_config\<lparr>server_coordination := Some (default_server_coordination\<lparr>coordination_party_id := p\<rparr>), config_party_id := p\<rparr>)
    \<and> get_own_healthcheck_port default_server_coordination = Inr 3000
    \<and> sorted (map sint (face_bucket_thresholds default_config)) \<and> sorted (map sint (di_2d_bucket_thresholds default_config))"
proof (intro conjI)
  show "validate_config (c\<lparr>min_2d_job_size_opposite_mirror_match := m\<rparr>) = validate_config c"
    unfolding validate_config_def validate_job_limits_def validate_di_2d_sampling_rates_def by simp
  show "validate_config c = Inr () \<longleftrightarrow>
      Max {min_1d_job_size c, min_1d_job_size_reauth c, min_1d_job_size_recovery c, min_1d_job_size_mirror c, min_face_job_size c, min_face_job_size_reauth c}
        \<le> max_rows_per_job_1d c
      \<and> Max {min_2d_job_size c, min_2d_job_size_full_retention c, min_2d_job_size_reauth c, min_2d_job_size_recovery c, min_2d_job_size_mirror c}
        \<le> max_rows_per_job_2d c
      \<and> distinct (di_2d_sampling_rates c) \<and> 100 \<in> set (di_2d_sampling_rates c) \<and> set (di_2d_sampling_rates c) \<subseteq> {1..100}
      \<and> mpc_timeout_secs c \<noteq> 0"
    unfolding validate_config_ok validate_limits_ok validate_rates_ok by simp
  show "load_config (Inr (default_config\<lparr>server_coordination := Some (default_server_coordination\<lparr>coordination_party_id := p\<rparr>)\<rparr>)) =
        Inr (default_config\<lparr>server_coordination := Some (default_server_coordination\<lparr>coordination_party_id := p\<rparr>), config_party_id := p\<rparr>)"
    by (simp add: load_config_def Let_def validate_party default_config_valid)
  show "get_own_healthcheck_port default_server_coordination = Inr 3000"
    by (simp add: get_own_healthcheck_port_def default_server_coordination_def parse_usize_def digit_value_def Let_def)
qed (simp_all add: default_config_def default_thresholds_sorted)

end
