(* ===== verification/Anon_Jobs.thy ===== *)
theory Anon_Jobs
  imports Threshold_Buckets Bucket_Stats F64_Order Anon_Config
begin

text \<open>
  Jobs of anonymous statistics in one dimension (\<open>ampc-anon-stats/src/anon_stats/mod.rs\<close>,
  \<open>iris_1d.rs\<close> and \<open>face.rs\<close>): bundles of shared distances are lifted, reduced to their minimum
  and counted against evenly spaced thresholds; the opened counts become a histogram.
\<close>

section \<open>Thresholds\<close>

definition MATCH_THRESHOLD_RATIO :: f64 where
  "MATCH_THRESHOLD_RATIO = 3 / 8"

definition MATCH_THRESHOLD_RATIO_REAUTH :: f64 where
  "MATCH_THRESHOLD_RATIO_REAUTH = 1 / 2"

definition calculate_iris_threshold_score_normalization :: "nat \<Rightarrow> f64 \<Rightarrow> f64 list" where
  "calculate_iris_threshold_score_normalization n upper_match_threshold_ratio =
     map (\<lambda>x. f64_mul (f64_round (upper_match_threshold_ratio / f64_round (of_nat n))) (f64_round (of_nat x))) [1..<n + 1]"

text \<open>\<open>None\<close> is the panic of the assertion on a threshold.\<close>

definition calculate_iris_threshold_a :: "nat \<Rightarrow> f64 \<Rightarrow> u32 list option" where
  "calculate_iris_threshold_a n upper_match_threshold_ratio =
     those (map (\<lambda>x. translate_threshold_a
       (f64_mul (f64_round (upper_match_threshold_ratio / f64_round (of_nat n))) (f64_round (of_nat x)))) [1..<n + 1])"

section \<open>Jobs over bundles of distances\<close>

type_synonym DistanceBundle1D = "u16 DistanceShare list"
type_synonym LiftedDistanceBundle1D = "u32 DistanceShare list"
type_synonym LiftedU48DistanceBundle1D = "Ring48 DistanceShare list"

definition flatten_bundles :: "'a DistanceShare list list \<Rightarrow> 'a share list" where
  "flatten_bundles bs = concat (map (\<lambda>x. concat (map (\<lambda>y. [code_dot y, mask_dot y]) x)) bs)"

text \<open>The loops that rebuild the bundles; an index out of range is a panic, as is a rest.\<close>

fun take_pairs :: "nat \<Rightarrow> 'a share list \<Rightarrow> ('a DistanceShare list \<times> 'a share list) option" where
  "take_pairs 0 xs = Some ([], xs)"
| "take_pairs (Suc n) (c # m # xs) = map_option (\<lambda>(b, r). (distance_share_new c m # b, r)) (take_pairs n xs)"
| "take_pairs (Suc n) xs = None"

fun take_items :: "nat \<Rightarrow> 'a list \<Rightarrow> ('a list \<times> 'a list) option" where
  "take_items 0 xs = Some ([], xs)"
| "take_items (Suc n) (x # xs) = map_option (\<lambda>(b, r). (x # b, r)) (take_items n xs)"
| "take_items (Suc n) [] = None"

fun rebuild_bundles :: "(nat \<Rightarrow> 'x list \<Rightarrow> ('b list \<times> 'x list) option) \<Rightarrow> nat list \<Rightarrow> 'x list \<Rightarrow> 'b list list option" where
  "rebuild_bundles f [] xs = (if xs = [] then Some [] else None)"
| "rebuild_bundles f (n # ns) xs = Option.bind (f n xs) (\<lambda>(b, r). map_option (\<lambda>bs. b # bs) (rebuild_bundles f ns r))"

definition lift_bundles_1d :: "'r prf_rng \<Rightarrow> DistanceBundle1D list \<Rightarrow> ('r session, LiftedDistanceBundle1D list) comp" where
  "lift_bundles_1d G bundles =
     cbind (batch_signed_lift_vec G (flatten_bundles bundles)) (\<lambda>lifted_flattened.
       ctry (or_panic (rebuild_bundles take_pairs (map length bundles) lifted_flattened)))"

definition lift_bundles_u48_1d :: "'r prf_rng \<Rightarrow> DistanceBundle1D list \<Rightarrow> ('r session, LiftedU48DistanceBundle1D list) comp" where
  "lift_bundles_u48_1d G bundles =
     cbind (nhd_lift_distances G (flatten_bundles bundles)) (\<lambda>lifted_flattened.
       ctry (or_panic (rebuild_bundles take_items (map length bundles) lifted_flattened)))"

text \<open>The readings of the clock are those of the new statistics and of the filled ones.\<close>

definition process_1d_inner :: "'r prf_rng \<Rightarrow> timestamp \<times> timestamp \<Rightarrow> nat \<Rightarrow> LiftedDistanceBundle1D list \<Rightarrow> AnonStatsOrigin
    \<Rightarrow> AnonStatsServerConfig \<Rightarrow> AnonStatsOperation option \<Rightarrow> timestamp option \<Rightarrow> ('r session, BucketStatistics) comp" where
  "process_1d_inner G clock job_size lifted_data origin config op start_timestamp =
     (let (num_buckets, match_threshold_ratio) =
          (case op of Some Reauth \<Rightarrow> (n_buckets_1d_reauth config, MATCH_THRESHOLD_RATIO_REAUTH)
                    | _ \<Rightarrow> (n_buckets_1d config, MATCH_THRESHOLD_RATIO))
      in cbind (ctry (or_panic (calculate_iris_threshold_a num_buckets match_threshold_ratio))) (\<lambda>translated_thresholds.
         cbind (compare_min_threshold_buckets G translated_thresholds lifted_data) (\<lambda>bucket_result_shares.
         cbind (open_ring (net_u32 G) bucket_result_shares) (\<lambda>bs.
           let anon_stats = bucket_statistics_new (fst clock) job_size num_buckets (config_party_id config) (side origin) FHD Aggregator op
           in cret (fill_buckets (snd clock) bs match_threshold_ratio start_timestamp
                      (anon_stats\<lparr>is_mirror_orientation := (orientation origin = Mirror)\<rparr>))))))"

definition process_1d_anon_stats_job :: "'r prf_rng \<Rightarrow> timestamp \<times> timestamp \<Rightarrow> DistanceBundle1D AnonStatsMapping \<Rightarrow> AnonStatsOrigin
    \<Rightarrow> AnonStatsServerConfig \<Rightarrow> AnonStatsOperation option \<Rightarrow> timestamp option \<Rightarrow> ('r session, BucketStatistics) comp" where
  "process_1d_anon_stats_job G clock job origin config op start_timestamp =
     (let job_size = mapping_len job; job_data = into_bundles job
      in cbind (lift_bundles_1d G job_data) (\<lambda>lifted_data. process_1d_inner G clock job_size lifted_data origin config op start_timestamp))"

definition process_1d_lifted_anon_stats_job :: "'r prf_rng \<Rightarrow> timestamp \<times> timestamp \<Rightarrow> LiftedDistanceBundle1D AnonStatsMapping \<Rightarrow> AnonStatsOrigin
    \<Rightarrow> AnonStatsServerConfig \<Rightarrow> AnonStatsOperation option \<Rightarrow> timestamp option \<Rightarrow> ('r session, BucketStatistics) comp" where
  "process_1d_lifted_anon_stats_job G clock job origin config op start_timestamp =
     process_1d_inner G clock (mapping_len job) (into_bundles job) origin config op start_timestamp"

definition process_1d_anon_stats_score_normalization_inner :: "'r prf_rng \<Rightarrow> timestamp \<times> timestamp \<Rightarrow> nat \<Rightarrow> LiftedU48DistanceBundle1D list
    \<Rightarrow> AnonStatsOrigin \<Rightarrow> AnonStatsServerConfig \<Rightarrow> AnonStatsOperation option \<Rightarrow> timestamp option \<Rightarrow> ('r session, BucketStatistics) comp" where
  "process_1d_anon_stats_score_normalization_inner G clock job_size lifted_data origin config op start_timestamp =
     (let (num_buckets, match_threshold_ratio) =
          (case op of Some Reauth \<Rightarrow> (n_buckets_1d_reauth config, MATCH_THRESHOLD_RATIO_REAUTH)
                    | _ \<Rightarrow> (n_buckets_1d_nhd config, nhd_threshold_ratio config));
          translated_thresholds = calculate_iris_threshold_score_normalization num_buckets match_threshold_ratio
      in cbind (compare_min_threshold_buckets_score_normalization G translated_thresholds lifted_data) (\<lambda>bucket_result_shares.
         cbind (open_ring (net_u32 G) bucket_result_shares) (\<lambda>bs.
           let anon_stats = bucket_statistics_new (fst clock) job_size num_buckets (config_party_id config) (side origin) NHD Aggregator op
           in cret (fill_buckets (snd clock) bs match_threshold_ratio start_timestamp
                      (anon_stats\<lparr>is_mirror_orientation := (orientation origin = Mirror)\<rparr>)))))"

definition process_1d_anon_stats_score_normalization_job :: "'r prf_rng \<Rightarrow> timestamp \<times> timestamp \<Rightarrow> DistanceBundle1D AnonStatsMapping
    \<Rightarrow> AnonStatsOrigin \<Rightarrow> AnonStatsServerConfig \<Rightarrow> AnonStatsOperation option \<Rightarrow> timestamp option \<Rightarrow> ('r session, BucketStatistics) comp" where
  "process_1d_anon_stats_score_normalization_job G clock job origin config op start_timestamp =
     (let job_size = mapping_len job; job_data = into_bundles job
      in cbind (lift_bundles_u48_1d G job_data) (\<lambda>lifted_data.
           process_1d_anon_stats_score_normalization_inner G clock job_size lifted_data origin config op start_timestamp))"

definition process_1d_lifted_anon_stats_score_normalization_job :: "'r prf_rng \<Rightarrow> timestamp \<times> timestamp \<Rightarrow> LiftedU48DistanceBundle1D AnonStatsMapping
    \<Rightarrow> AnonStatsOrigin \<Rightarrow> AnonStatsServerConfig \<Rightarrow> AnonStatsOperation option \<Rightarrow> timestamp option \<Rightarrow> ('r session, BucketStatistics) comp" where
  "process_1d_lifted_anon_stats_score_normalization_job G clock job origin config op start_timestamp =
     process_1d_anon_stats_score_normalization_inner G clock (mapping_len job) (into_bundles job) origin config op start_timestamp"

section \<open>Jobs over face distances\<close>

fun sub_pub_all :: "'a int_ring2k \<Rightarrow> 'a RingElement \<Rightarrow> 'a share list \<Rightarrow> ('r session, 'a share list) comp" where
  "sub_pub_all R t [] = cret []"
| "sub_pub_all R t (s # ss) = cbind (sub_pub R s t) (\<lambda>x. cbind (sub_pub_all R t ss) (\<lambda>xs. cret (x # xs)))"

definition msb16 :: "'r prf_rng \<Rightarrow> u16 share list \<Rightarrow> ('r session, Bit share list) comp" where
  "msb16 G = extract_msb_batch (net_u16 G) (net_u64 G) u16_transpose_pack_u64"

fun face_threshold_loop :: "'r prf_rng \<Rightarrow> u16 share list \<Rightarrow> 16 word list \<Rightarrow> u32 share list \<Rightarrow> ('r session, u32 share list) comp" where
  "face_threshold_loop G job [] bs = cret bs"
| "face_threshold_loop G job (threshold # thresholds) bs =
     cbind (sub_pub_all word_ring (RingElement threshold) job) (\<lambda>bucket_distances.
     cbind (msb16 G bucket_distances) (\<lambda>bits.
     cbind (bit_inject (net_u32 G) (new_vec bits)) (\<lambda>injected.
       face_threshold_loop G job thresholds (bs @ [foldl (share_add word_ring) (share_zero word_ring) (vs_inner injected)]))))"

text \<open>
  The windows over the cumulative counts zipped with the thresholds: different lengths are a
  panic, the difference of two counts is taken in \<open>usize\<close>.
\<close>

fun face_windows :: "(u32 \<times> 16 word) list \<Rightarrow> BucketResult list" where
  "face_windows ((b, t) # (c, u) # rest) =
     \<lparr>bucket_count = unat (ucast c - ucast b :: u64), hamming_distance_bucket = (Some (of_int (sint t)), Some (of_int (sint u)))\<rparr> # face_windows ((c, u) # rest)"
| "face_windows rest = []"

definition process_face_distance_job :: "'r prf_rng \<Rightarrow> timestamp \<times> timestamp \<times> timestamp \<Rightarrow> u16 share list \<Rightarrow> AnonStatsServerConfig
    \<Rightarrow> AnonStatsOperation option \<Rightarrow> timestamp option \<Rightarrow> ('r session, BucketStatistics) comp" where
  "process_face_distance_job G clock job config op start_timestamp =
     (let thresholds = face_bucket_thresholds config; n = length thresholds; job_size = length job; (now_new, now_start, now_end) = clock
      in cbind (face_threshold_loop G job thresholds []) (\<lambda>bs.
         cbind (open_ring (net_u32 G) bs) (\<lambda>buckets_opened.
           let stats = bucket_statistics_new now_new job_size n (config_party_id config) None HD Aggregator op;
               stats = stats\<lparr>start_time := (case start_timestamp of Some t \<Rightarrow> t | None \<Rightarrow> now_start)\<rparr>
           in if length buckets_opened \<noteq> length thresholds then cstop Panicked
              else cret (stats\<lparr>buckets := buckets stats @ face_windows (zip buckets_opened thresholds), end_time := Some now_end\<rparr>))))"

section \<open>Thresholds are ordered\<close>

definition spaced :: "nat \<Rightarrow> f64 \<Rightarrow> nat \<Rightarrow> f64" where
  "spaced n ratio x = f64_mul (f64_round (ratio / f64_round (of_nat n))) (f64_round (of_nat x))"

definition factor_of :: "f64 \<Rightarrow> u32" where
  "factor_of t = f64_as_u32 (f64_mul (f64_sub 1 (f64_mul 2 t)) (of_int (uint B)))"

lemma spaced_mono:
  assumes "0 \<le> ratio" "x \<le> y"
  shows "spaced n ratio x \<le> spaced n ratio y"
  unfolding spaced_def f64_mul_def
  by (intro f64_round_mono mult_left_mono f64_round_sign(1) divide_nonneg_nonneg) (use assms in auto)

lemma spaced_range:
  assumes "1 / 2 ^ 100 \<le> ratio" "ratio \<le> 1 / 2" "0 < n" "n < 2 ^ 53" "x \<le> n"
  shows "0 \<le> spaced n ratio x" "spaced n ratio x \<le> 1"
proof -
  have n: "f64_round (of_nat n) = of_nat n" "f64_round (of_nat x) = of_nat x" using assms(4,5) by (simp_all add: f64_round_of_nat)
  have "(of_nat n :: rat) \<le> of_nat (2 ^ 53)" using assms(4) by (simp only: of_nat_le_iff)
  then have nx: "(of_nat n :: rat) \<le> 2 ^ 53" "(of_nat x :: rat) \<le> of_nat n" "(0 :: rat) < of_nat n" using assms(3,5) by simp_all
  have "2 powi (- 1000) \<le> (2 powi (- 153) :: rat)" by (rule power_int_increasing) simp_all
  also have "\<dots> = 1 / 2 ^ 100 / 2 ^ 53" by (simp add: power_int_minus)
  also have "\<dots> \<le> ratio / of_nat n" using assms(1) nx by (intro frac_le) auto
  finally have low: "2 powi (- 1000) \<le> ratio / of_nat n" .
  let ?s = "f64_round (ratio / of_nat n)"
  have r: "0 \<le> ratio" using assms(1) by (rule order_trans [rotated]) simp
  have pos: "0 \<le> ?s" by (rule f64_round_sign) (use r in simp)
  have "?s * of_nat x \<le> 2 * (ratio / of_nat n) * of_nat n"
    by (rule mult_mono [OF f64_round_double [OF low] nx(2)]) (use r in simp_all)
  also have "\<dots> \<le> 1" using assms(2) nx by simp
  finally have "?s * of_nat x \<le> 1" .
  from f64_round_mono [OF this] f64_round_of_nat [of 1] show "spaced n ratio x \<le> 1" by (simp add: spaced_def f64_mul_def n)
  show "0 \<le> spaced n ratio x" unfolding spaced_def f64_mul_def n by (rule f64_round_sign) (use pos in simp)
qed

lemma factor_of_mono:
  assumes "t \<le> u"
  shows "uint (factor_of u) \<le> uint (factor_of t)"
  unfolding factor_of_def f64_mul_def f64_sub_def
  by (intro f64_as_u32_mono f64_round_mono mult_right_mono diff_left_mono mult_left_mono) (use assms in \<open>simp_all add: B_eq\<close>)

lemma fhd_limit_factor_mono: "t \<le> u \<Longrightarrow> fhd_limit (factor_of t) \<le> fhd_limit (factor_of u)"
proof -
  assume "t \<le> u"
  then have "(of_int (uint (factor_of u)) :: rat) \<le> of_int (uint (factor_of t))" unfolding of_int_le_iff by (rule factor_of_mono)
  then show ?thesis unfolding fhd_limit_def by (intro divide_right_mono diff_left_mono) simp_all
qed

lemma calculate_thresholds:
  assumes "1 / 2 ^ 100 \<le> ratio" "ratio \<le> 1 / 2" "0 < n" "n < 2 ^ 53"
  shows "calculate_iris_threshold_a n ratio = Some (map (\<lambda>x. factor_of (spaced n ratio x)) [1..<n + 1])"
    "calculate_iris_threshold_score_normalization n ratio = map (spaced n ratio) [1..<n + 1]"
proof -
  show "calculate_iris_threshold_a n ratio = Some (map (\<lambda>x. factor_of (spaced n ratio x)) [1..<n + 1])"
    unfolding calculate_iris_threshold_a_def
    by (rule those_map_Some) (use spaced_range [OF assms] in \<open>auto simp: translate_threshold_a_def factor_of_def spaced_def\<close>)
  show "calculate_iris_threshold_score_normalization n ratio = map (spaced n ratio) [1..<n + 1]"
    by (simp add: calculate_iris_threshold_score_normalization_def spaced_def)
qed

lemma factor_bound:
  assumes "0 \<le> t" "t \<le> 1"
  shows "uint (factor_of t) \<le> 2 ^ 16"
  by (rule threshold_bound [of t]) (use assms in \<open>simp add: translate_threshold_a_def factor_of_def\<close>)

section \<open>Cumulative counts\<close>

text \<open>The elements that the condition \<open>k\<close> is the first to hold for.\<close>

definition first_at :: "(nat \<Rightarrow> 'x \<Rightarrow> bool) \<Rightarrow> nat \<Rightarrow> 'x \<Rightarrow> bool" where
  "first_at P k x \<longleftrightarrow> P k x \<and> (0 < k \<longrightarrow> \<not> P (k - 1) x)"

lemma cumulative_of_bool:
  assumes "\<And>k. P k x \<Longrightarrow> P (Suc k) x"
  shows "(\<Sum>a\<le>k. of_bool (first_at P a x)) = (of_bool (P k x) :: nat)"
  using assms by (induction k) (auto simp: first_at_def)

lemma length_filter_of_bool: "length (filter P xs) = sum_list (map (\<lambda>x. of_bool (P x)) xs)"
  by (induction xs) simp_all

lemma cumulative_counts:
  assumes "\<And>k x. P k x \<Longrightarrow> P (Suc k) x"
  shows "(\<Sum>a\<le>k. length (filter (first_at P a) xs)) = length (filter (P k) xs)"
proof (induction xs)
  case (Cons x xs)
  have "(\<Sum>a\<le>k. length (filter (first_at P a) (x # xs))) = (\<Sum>a\<le>k. of_bool (first_at P a x) + length (filter (first_at P a) xs))"
    by (rule sum.cong) simp_all
  then show ?case using Cons.IH cumulative_of_bool [of P x k] assms by (simp add: sum.distrib)
qed simp

lemma cumulative_counts2:
  assumes "\<And>k x. P k x \<Longrightarrow> P (Suc k) x" "\<And>k x. Q k x \<Longrightarrow> Q (Suc k) x"
  shows "(\<Sum>a\<le>i. \<Sum>b\<le>j. length (filter (\<lambda>x. first_at P a x \<and> first_at Q b x) xs)) = length (filter (\<lambda>x. P i x \<and> Q j x) xs)"
proof (induction xs)
  case (Cons x xs)
  have "(\<Sum>a\<le>i. \<Sum>b\<le>j. length (filter (\<lambda>x. first_at P a x \<and> first_at Q b x) (x # xs))) =
      (\<Sum>a\<le>i. \<Sum>b\<le>j. of_bool (first_at P a x) * of_bool (first_at Q b x) + length (filter (\<lambda>x. first_at P a x \<and> first_at Q b x) xs))"
    by (intro sum.cong refl) simp
  also have "\<dots> = (\<Sum>a\<le>i. of_bool (first_at P a x)) * (\<Sum>b\<le>j. of_bool (first_at Q b x)) + length (filter (\<lambda>x. P i x \<and> Q j x) xs)"
    unfolding sum.distrib Cons.IH sum_product ..
  also have "\<dots> = length (filter (\<lambda>x. P i x \<and> Q j x) (x # xs))"
    using cumulative_of_bool [of P x i] cumulative_of_bool [of Q x j] assms by simp
  finally show ?case .
qed simp

section \<open>Bundles\<close>

definition flat_pairs :: "(int \<times> int) list \<Rightarrow> int list" where
  "flat_pairs vs = concat (map (\<lambda>v. [fst v, snd v]) vs)"

definition flat_dists :: "'a DistanceShare list \<Rightarrow> 'a share list" where
  "flat_dists d = concat (map (\<lambda>y. [code_dot y, mask_dot y]) d)"

lemma length_flat_pairs [simp]: "length (flat_pairs vs) = length vs * 2" "length (flat_dists d) = length d * 2"
  by (induction vs, simp_all add: flat_pairs_def) (induction d, simp_all add: flat_dists_def)

lemma concat_pairs_nth:
  assumes "k < length xs"
  shows "concat (map (\<lambda>x. [f x, g x]) xs) ! (k * 2) = f (xs ! k) \<and> concat (map (\<lambda>x. [f x, g x]) xs) ! (k * 2 + 1) = g (xs ! k)"
  using assms
proof (induction xs arbitrary: k)
  case (Cons x xs)
  then show ?case by (cases k) (auto simp: nth_append)
qed simp

lemma flat_pairs_nth:
  "k < length vs \<Longrightarrow> flat_pairs vs ! (k * 2) = fst (vs ! k)" "k < length vs \<Longrightarrow> flat_pairs vs ! (k * 2 + 1) = snd (vs ! k)"
  "k < length d \<Longrightarrow> flat_dists d ! (k * 2) = code_dot (d ! k)" "k < length d \<Longrightarrow> flat_dists d ! (k * 2 + 1) = mask_dot (d ! k)"
  unfolding flat_pairs_def flat_dists_def using concat_pairs_nth [of k] by blast+

lemma flatten_bundles_eq: "flatten_bundles bs = flat_dists (concat bs)"
  by (induction bs) (simp_all add: flatten_bundles_def flat_dists_def)

lemma pair_index:
  assumes "(m :: nat) < n * 2"
  obtains k where "k < n" "m = k * 2 \<or> m = k * 2 + 1"
proof -
  have "m = m div 2 * 2 \<or> m = m div 2 * 2 + 1" by presburger
  moreover have "m div 2 < n" using assms by (simp add: less_mult_imp_div_less)
  ultimately show ?thesis using that by blast
qed

context int_ring2k_laws
begin

lemma dist_int_sharing_flat: "dist_int_sharing R wf val d vs \<longleftrightarrow> int_sharing R wf val (\<lambda>i. flat_dists (d i)) (flat_pairs vs)"
proof
  assume d: "dist_int_sharing R wf val d vs"
  have len: "length (d i) = length vs" for i using dist_int_sharing_length [OF d] .
  show "int_sharing R wf val (\<lambda>i. flat_dists (d i)) (flat_pairs vs)"
  proof (rule int_sharingI)
    show "length (flat_dists (d i)) = length (flat_pairs vs)" for i by (simp add: len)
    fix m assume "m < length (flat_pairs vs)"
    then obtain k where k: "k < length vs" "m = k * 2 \<or> m = k * 2 + 1" using pair_index [of m "length vs"] by auto
    have "opens_int (col (\<lambda>i. flat_dists (d i)) (k * 2)) (flat_pairs vs ! (k * 2))"
      "opens_int (col (\<lambda>i. flat_dists (d i)) (k * 2 + 1)) (flat_pairs vs ! (k * 2 + 1))"
      unfolding col_def using dist_opens [OF d k(1)] k(1) by (simp_all only: flat_pairs_nth len)
    then show "opens_int (col (\<lambda>i. flat_dists (d i)) m) (flat_pairs vs ! m)" using k(2) by blast
  qed
next
  assume f: "int_sharing R wf val (\<lambda>i. flat_dists (d i)) (flat_pairs vs)"
  have len: "length (d i) = length vs" for i using int_sharing_length [OF f, of i] by simp
  show "dist_int_sharing R wf val d vs"
  proof (rule dist_int_sharingI)
    show "length (d i) = length vs" for i by (rule len)
    fix k assume k: "k < length vs"
    then have "k * 2 < length (flat_pairs vs)" "k * 2 + 1 < length (flat_pairs vs)" by simp_all
    from int_sharing_nth [OF f this(1)] int_sharing_nth [OF f this(2)]
    show "opens_int (code_dot (d ID0 ! k), code_dot (d ID1 ! k), code_dot (d ID2 ! k)) (fst (vs ! k)) \<and>
        opens_int (mask_dot (d ID0 ! k), mask_dot (d ID1 ! k), mask_dot (d ID2 ! k)) (snd (vs ! k))"
      unfolding col_def using k by (simp only: flat_pairs_nth len)
  qed
qed

lemma dist_int_sharing_append:
  "dist_int_sharing R wf val d us \<Longrightarrow> dist_int_sharing R wf val e vs \<Longrightarrow> dist_int_sharing R wf val (\<lambda>i. d i @ e i) (us @ vs)"
  unfolding dist_int_sharing_def map_append by (auto intro: int_sharing_append)

lemma dist_int_sharing_split:
  assumes "dist_int_sharing R wf val d (us @ vs)"
  shows "dist_int_sharing R wf val (\<lambda>i. take (length us) (d i)) us" "dist_int_sharing R wf val (\<lambda>i. drop (length us) (d i)) vs"
proof -
  have s: "int_sharing R wf val (\<lambda>i. map code_dot (d i)) (map fst us @ map fst vs)" "int_sharing R wf val (\<lambda>i. map mask_dot (d i)) (map snd us @ map snd vs)"
    using assms by (simp_all add: dist_int_sharing_def)
  show "dist_int_sharing R wf val (\<lambda>i. take (length us) (d i)) us" "dist_int_sharing R wf val (\<lambda>i. drop (length us) (d i)) vs"
    using int_sharing_split [OF s(1)] int_sharing_split [OF s(2)] by (simp_all add: dist_int_sharing_def take_map drop_map)
qed

lemma group_sharing_Cons:
  assumes "group_sharing R wf val D (g # gs)"
  shows "D i = D i ! 0 # tl (D i)" "dist_int_sharing R wf val (\<lambda>i. D i ! 0) g" "group_sharing R wf val (\<lambda>i. tl (D i)) gs"
proof -
  have len: "length (D i) = Suc (length gs)" for i using assms by (simp add: group_sharing_def)
  show D: "D i = D i ! 0 # tl (D i)" for i using len [of i] by (cases "D i") simp_all
  show "dist_int_sharing R wf val (\<lambda>i. D i ! 0) g" using assms by (auto simp: group_sharing_def)
  show "group_sharing R wf val (\<lambda>i. tl (D i)) gs"
    unfolding group_sharing_def
  proof (intro conjI allI impI)
    show "length (tl (D i)) = length gs" for i using len by simp
    fix k assume "k < length gs"
    then have "dist_int_sharing R wf val (\<lambda>i. D i ! Suc k) (gs ! k)" using assms by (auto simp: group_sharing_def)
    moreover have "D i ! Suc k = tl (D i) ! k" for i by (subst D) simp
    ultimately show "dist_int_sharing R wf val (\<lambda>i. tl (D i) ! k) (gs ! k)" by simp
  qed
qed

lemma group_sharing_concat: "group_sharing R wf val D gs \<longleftrightarrow>
    (\<forall>i. map length (D i) = map length gs) \<and> dist_int_sharing R wf val (\<lambda>i. concat (D i)) (concat gs)"
proof (induction gs arbitrary: D)
  case Nil
  show ?case by (auto simp: group_sharing_def dist_int_sharing_def int_sharing_Nil)
next
  case (Cons g gs)
  show ?case
  proof
    assume D: "group_sharing R wf val D (g # gs)"
    note c = group_sharing_Cons [OF D]
    have IH: "\<forall>i. map length (tl (D i)) = map length gs" "dist_int_sharing R wf val (\<lambda>i. concat (tl (D i))) (concat gs)" using Cons.IH [of "\<lambda>i. tl (D i)"] c(3) by simp_all
    have "length (D i ! 0) = length g" for i using dist_int_sharing_length [OF c(2)] .
    then have "map length (D i) = map length (g # gs)" for i by (subst c(1)) (simp add: IH(1))
    moreover have "concat (D i) = D i ! 0 @ concat (tl (D i))" for i by (subst c(1)) simp
    ultimately show "(\<forall>i. map length (D i) = map length (g # gs)) \<and> dist_int_sharing R wf val (\<lambda>i. concat (D i)) (concat (g # gs))"
      using dist_int_sharing_append [OF c(2) IH(2)] by simp
  next
    assume D: "(\<forall>i. map length (D i) = map length (g # gs)) \<and> dist_int_sharing R wf val (\<lambda>i. concat (D i)) (concat (g # gs))"
    then have m: "map length (D i) = length g # map length gs" for i by simp
    have c: "D i = D i ! 0 # tl (D i)" "length (D i ! 0) = length g" "map length (tl (D i)) = map length gs" for i
      using m [of i] by (cases "D i"; simp)+
    have nth: "D i ! Suc k = tl (D i) ! k" for i k by (subst c(1)) simp
    have cat: "concat (D i) = D i ! 0 @ concat (tl (D i))" for i by (subst c(1)) simp
    have s: "dist_int_sharing R wf val (\<lambda>i. D i ! 0) g" "dist_int_sharing R wf val (\<lambda>i. concat (tl (D i))) (concat gs)"
      using dist_int_sharing_split [of "\<lambda>i. concat (D i)" g "concat gs"] D c(2) unfolding cat by simp_all
    then have g: "group_sharing R wf val (\<lambda>i. tl (D i)) gs" using Cons.IH [of "\<lambda>i. tl (D i)"] c(3) by simp
    show "group_sharing R wf val D (g # gs)"
      unfolding group_sharing_def
    proof (intro conjI allI impI)
      show "length (D i) = length (g # gs)" for i using D by (metis length_map)
      fix k assume "k < length (g # gs)"
      then show "dist_int_sharing R wf val (\<lambda>i. D i ! k) ((g # gs) ! k)"
        using s(1) g nth by (cases k) (simp_all add: group_sharing_def)
    qed
  qed
qed

end

text \<open>Rebuilding inverts flattening.\<close>

lemma take_pairs_eq: "length xs = n * 2 \<Longrightarrow> \<exists>b. take_pairs n (xs @ ys) = Some (b, ys) \<and> length b = n \<and> flat_dists b = xs"
proof (induction n arbitrary: xs)
  case (Suc n)
  then obtain c m zs where xs: "xs = c # m # zs" by (metis Suc_length_conv mult_Suc add_2_eq_Suc)
  obtain b where "take_pairs n (zs @ ys) = Some (b, ys)" "length b = n" "flat_dists b = zs" using Suc.IH [of zs] Suc.prems xs by auto
  then show ?case using xs by (simp add: flat_dists_def distance_share_new_def)
qed (simp add: flat_dists_def)

lemma take_items_eq: "take_items (length xs) (xs @ ys) = Some (xs, ys)"
  by (induction xs) simp_all

lemma rebuild_pairs: "length xs = sum_list ns * 2 \<Longrightarrow> \<exists>bs. rebuild_bundles take_pairs ns xs = Some bs \<and> map length bs = ns \<and> flat_dists (concat bs) = xs"
proof (induction ns arbitrary: xs)
  case (Cons n ns)
  have "length (take (n * 2) xs) = n * 2" using Cons.prems by simp
  from take_pairs_eq [OF this, of "drop (n * 2) xs"]
  obtain b where b: "take_pairs n xs = Some (b, drop (n * 2) xs)" "length b = n" "flat_dists b = take (n * 2) xs" by auto
  obtain bs where bs: "rebuild_bundles take_pairs ns (drop (n * 2) xs) = Some bs" "map length bs = ns" "flat_dists (concat bs) = drop (n * 2) xs"
    using Cons.IH [of "drop (n * 2) xs"] Cons.prems by auto
  have "flat_dists (b @ concat bs) = flat_dists b @ flat_dists (concat bs)" by (simp add: flat_dists_def)
  with b bs show ?case by simp
qed (simp add: flat_dists_def)

lemma rebuild_items: "length xs = sum_list ns \<Longrightarrow> \<exists>bs. rebuild_bundles take_items ns xs = Some bs \<and> map length bs = ns \<and> concat bs = xs"
proof (induction ns arbitrary: xs)
  case (Cons n ns)
  have b: "take_items n xs = Some (take n xs, drop n xs)" using take_items_eq [of "take n xs" "drop n xs"] Cons.prems by simp
  obtain bs where "rebuild_bundles take_items ns (drop n xs) = Some bs" "map length bs = ns" "concat bs = drop n xs"
    using Cons.IH [of "drop n xs"] Cons.prems by auto
  with b Cons.prems show ?case by simp
qed simp

lemma sint_of_residue:
  assumes "uint w = v mod 2 ^ 16" "- (2 ^ 15) \<le> v" "v < 2 ^ 15"
  shows "sint (w :: u16) = v"
proof -
  have "sint w = signed_take_bit 15 (uint w)" by (simp add: sint_uint)
  also have "\<dots> = signed_take_bit 15 v" unfolding assms(1) by (simp add: signed_take_bit_eq_iff_take_bit_eq take_bit_eq_mod)
  also have "\<dots> = v" by (rule signed_take_bit_int_eq_self) (use assms in auto)
  finally show ?thesis .
qed

lemma int16_sharing:
  assumes "int_sharing word_ring (\<lambda>_. True) uint x vs" "\<forall>v \<in> set vs. - (2 ^ 15) \<le> v \<and> v < 2 ^ 15"
  obtains xs where "sharing_add word_ring (\<lambda>_. True) x xs" "map (\<lambda>e. sint (convert e :: u16)) xs = vs"
proof -
  obtain xs where xs: "sharing_add word_ring (\<lambda>_. True) x xs" "map (\<lambda>e. uint (convert e)) xs = map (\<lambda>v. v mod 2 ^ 16) vs"
    using assms(1) by (auto simp: int_sharing_def)
  have len: "length xs = length vs" using xs(2) by (metis length_map)
  have "sint (convert (xs ! k)) = vs ! k" if "k < length vs" for k
    using sint_of_residue [of "convert (xs ! k)" "vs ! k"] arg_cong [OF xs(2), of "\<lambda>l. l ! k"] assms(2) that len by simp
  then have "map (\<lambda>e. sint (convert e)) xs = vs" using len by (intro nth_equalityI) simp_all
  with xs(1) show ?thesis by (rule that)
qed

lemma uint_scast32: "uint (scast w :: u32) = sint w mod 2 ^ 32" for w :: u16
  unfolding scast_eq uint_word_of_int by simp

lemma computes_lift_ints:
  assumes "int_sharing word_ring (\<lambda>_. True) uint x vs" "\<forall>v \<in> set vs. - (2 ^ 15) \<le> v \<and> v < 2 ^ 15" "2 * length vs + 64 \<le> MAX_LEN"
  shows "computes addr sid (\<lambda>i. batch_signed_lift_vec G (x i)) (\<lambda>r. int_sharing word_ring (\<lambda>_. True) uint r vs)"
proof -
  obtain xs where xs: "sharing_add word_ring (\<lambda>_. True) x xs" "map (\<lambda>e. sint (convert e)) xs = vs" using int16_sharing [OF assms(1,2)] .
  have len: "length xs = length vs" using xs(2) by (metis length_map)
  have "map (\<lambda>e. uint (convert e)) (map (\<lambda>e. RingElement (scast (convert e) :: u32)) xs) = map (\<lambda>v. v mod 2 ^ 32) vs"
    unfolding xs(2) [symmetric] by (simp add: uint_scast32 comp_def)
  then have "sharing_add word_ring (\<lambda>_. True) r (map (\<lambda>e. RingElement (scast (convert e) :: u32)) xs) \<Longrightarrow> int_sharing word_ring (\<lambda>_. True) uint r vs" for r
    unfolding int_sharing_def by (intro exI [of _ "map (\<lambda>e. RingElement (scast (convert e) :: u32)) xs"]) simp
  then show ?thesis by (intro computes_weaken [OF computes_signed_lift [OF xs(1)]]) (use assms(3) len in simp_all)
qed

definition in16 :: "(int \<times> int) list list \<Rightarrow> bool" where
  "in16 gs \<longleftrightarrow> (\<forall>g \<in> set gs. \<forall>x \<in> set g. - (2 ^ 15) \<le> fst x \<and> fst x < 2 ^ 15 \<and> - (2 ^ 15) \<le> snd x \<and> snd x < 2 ^ 15)"

lemma in16_flat: "in16 gs \<Longrightarrow> \<forall>v \<in> set (flat_pairs (concat gs)). - (2 ^ 15) \<le> v \<and> v < 2 ^ 15"
  by (auto simp: in16_def flat_pairs_def)

lemma computes_lift_bundles:
  assumes D: "group_sharing word_ring (\<lambda>_. True) uint D gs" and "in16 gs" "4 * length (concat gs) + 64 \<le> MAX_LEN"
  shows "computes addr sid (\<lambda>i. lift_bundles_1d G (D i)) (\<lambda>r. group_sharing word_ring (\<lambda>_. True) uint r gs)"
proof -
  have c: "map length (D i) = map length gs" "dist_int_sharing word_ring (\<lambda>_. True) uint (\<lambda>i. concat (D i)) (concat gs)" for i
    using iffD1 [OF word.group_sharing_concat D] by simp_all
  have lift: "computes addr sid (\<lambda>i. batch_signed_lift_vec G (flatten_bundles (D i))) (\<lambda>r. int_sharing word_ring (\<lambda>_. True) uint r (flat_pairs (concat gs)))"
    unfolding flatten_bundles_eq
    by (rule computes_lift_ints [OF c(2) [unfolded word.dist_int_sharing_flat] in16_flat [OF assms(2)]]) (use assms(3) in simp)
  show ?thesis
    unfolding lift_bundles_1d_def c(1)
  proof (rule computes_cbind [OF lift])
    fix r :: "PartyID \<Rightarrow> u32 share list" assume r: "int_sharing word_ring (\<lambda>_. True) uint r (flat_pairs (concat gs))"
    have "length (r i) = sum_list (map length gs) * 2" for i using int_sharing_length [OF r] by (simp add: length_concat)
    note rebuilt = rebuild_pairs [OF this]
    define bs where "bs = (\<lambda>i. the (rebuild_bundles take_pairs (map length gs) (r i)))"
    have bs: "rebuild_bundles take_pairs (map length gs) (r i) = Some (bs i)" "map length (bs i) = map length gs" "flat_dists (concat (bs i)) = r i" for i
      using rebuilt [of i] by (auto simp: bs_def)
    have "dist_int_sharing word_ring (\<lambda>_. True) uint (\<lambda>i. concat (bs i)) (concat gs)" using r by (simp add: word.dist_int_sharing_flat bs(3))
    then have "group_sharing word_ring (\<lambda>_. True) uint bs gs" using bs(2) by (simp add: word.group_sharing_concat)
    then show "computes addr sid (\<lambda>i. ctry (or_panic (rebuild_bundles take_pairs (map length gs) (r i)))) (\<lambda>r. group_sharing word_ring (\<lambda>_. True) uint r gs)"
      unfolding bs(1) by (simp add: computes_cret)
  qed
qed

lemma computes_lift_bundles48:
  assumes D: "group_sharing word_ring (\<lambda>_. True) uint D gs" and "in16 gs" "4 * length (concat gs) + 64 \<le> MAX_LEN"
  shows "computes addr sid (\<lambda>i. lift_bundles_u48_1d G (D i)) (\<lambda>r. group_sharing ring48_ring wf48 val48 r gs)"
proof -
  have c: "map length (D i) = map length gs" "dist_int_sharing word_ring (\<lambda>_. True) uint (\<lambda>i. concat (D i)) (concat gs)" for i
    using iffD1 [OF word.group_sharing_concat D] by simp_all
  let ?n = "length (concat gs)"
  obtain xs where xs: "sharing_add word_ring (\<lambda>_. True) (\<lambda>i. flatten_bundles (D i)) xs" "map (\<lambda>e. sint (convert e :: u16)) xs = flat_pairs (concat gs)"
    using int16_sharing [OF c(2) [unfolded word.dist_int_sharing_flat] in16_flat [OF assms(2)]] unfolding flatten_bundles_eq .
  have len: "length xs = 2 * ?n" using arg_cong [OF xs(2), of length] by simp
  have v: "map (\<lambda>k. (sint (convert (xs ! (k * 2))), sint (convert (xs ! (k * 2 + 1))))) [0..<?n] = concat gs"
  proof (rule nth_equalityI)
    fix k assume "k < length (map (\<lambda>k. (sint (convert (xs ! (k * 2))), sint (convert (xs ! (k * 2 + 1))))) [0..<?n])"
    then have k: "k < ?n" by simp
    have "sint (convert (xs ! m)) = flat_pairs (concat gs) ! m" if "m < 2 * ?n" for m using arg_cong [OF xs(2), of "\<lambda>l. l ! m"] that len by simp
    from this [of "k * 2"] this [of "k * 2 + 1"] k flat_pairs_nth(1,2) [OF k]
    show "map (\<lambda>k. (sint (convert (xs ! (k * 2))), sint (convert (xs ! (k * 2 + 1))))) [0..<?n] ! k = concat gs ! k" by simp
  qed simp
  show ?thesis
    unfolding lift_bundles_u48_1d_def c(1)
  proof (rule computes_cbind [OF computes_nhd_lift [OF xs(1) len assms(3)], unfolded v])
    fix r assume r: "dist_int_sharing ring48_ring wf48 val48 r (concat gs)"
    have "length (r i) = sum_list (map length gs)" for i using dist_int_sharing_length [OF r] by (simp add: length_concat)
    note rebuilt = rebuild_items [OF this]
    define bs where "bs = (\<lambda>i. the (rebuild_bundles take_items (map length gs) (r i)))"
    have bs: "rebuild_bundles take_items (map length gs) (r i) = Some (bs i)" "map length (bs i) = map length gs" "concat (bs i) = r i" for i
      using rebuilt [of i] by (auto simp: bs_def)
    have "group_sharing ring48_ring wf48 val48 bs gs" using r bs(2,3) by (simp add: ring48.group_sharing_concat)
    then show "computes addr sid (\<lambda>i. ctry (or_panic (rebuild_bundles take_items (map length gs) (r i)))) (\<lambda>r. group_sharing ring48_ring wf48 val48 r gs)"
      unfolding bs(1) by (simp add: computes_cret)
  qed
qed

text \<open>Opening shares of counts.\<close>

lemma computes_open_counts:
  assumes "int_sharing word_ring (\<lambda>_. True) uint r (map int cs)" "\<forall>c \<in> set cs. c < 2 ^ 32" "length cs < MAX_LEN"
  shows "computes addr sid (\<lambda>i. open_ring (net_u32 G) (r i)) (\<lambda>y. \<forall>i. map uint (y i) = map int cs)"
proof -
  obtain xs where xs: "sharing_add word_ring (\<lambda>_. True) r xs" "map (\<lambda>e. uint (convert e)) xs = map (\<lambda>v. v mod 2 ^ 32) (map int cs)"
    using assms(1) by (auto simp: int_sharing_def)
  have "map (\<lambda>v. v mod 2 ^ 32) (map int cs) = map int cs" using assms(2) by (auto simp flip: of_nat_power)
  then have v: "map (\<lambda>e. uint (convert e)) xs = map int cs" using xs(2) by simp
  then have len: "length xs < MAX_LEN" using assms(3) by (metis length_map)
  have "computes addr sid (\<lambda>i. open_ring (net_u32 G) (r i)) (\<lambda>y. \<forall>i. y i = map convert xs)"
    using net32.computes_open_ring [where r = r and xs = xs and G = G] xs(1) len by simp
  then show ?thesis by (rule computes_weaken) (use v in \<open>simp add: comp_def\<close>)
qed

section \<open>Histograms of minima\<close>

text \<open>The number of buckets and the upper threshold of a job.\<close>

definition params_1d :: "AnonStatsOperation option \<Rightarrow> AnonStatsServerConfig \<Rightarrow> nat \<times> f64" where
  "params_1d op config = (case op of Some Reauth \<Rightarrow> (n_buckets_1d_reauth config, MATCH_THRESHOLD_RATIO_REAUTH) | _ \<Rightarrow> (n_buckets_1d config, MATCH_THRESHOLD_RATIO))"

definition params_1d_nhd :: "AnonStatsOperation option \<Rightarrow> AnonStatsServerConfig \<Rightarrow> nat \<times> f64" where
  "params_1d_nhd op config = (case op of Some Reauth \<Rightarrow> (n_buckets_1d_reauth config, MATCH_THRESHOLD_RATIO_REAUTH) | _ \<Rightarrow> (n_buckets_1d_nhd config, nhd_threshold_ratio config))"

text \<open>The limit of bucket \<open>k\<close>, and the bundles with a distance within it.\<close>

definition within_fhd :: "nat \<Rightarrow> f64 \<Rightarrow> nat \<Rightarrow> (int \<times> int) list \<Rightarrow> bool" where
  "within_fhd n ratio k g \<longleftrightarrow> (\<exists>x \<in> set g. fhd x < fhd_limit (factor_of (spaced n ratio (k + 1))))"

definition within_nhd :: "nat \<Rightarrow> f64 \<Rightarrow> nat \<Rightarrow> (int \<times> int) list \<Rightarrow> bool" where
  "within_nhd n ratio k g \<longleftrightarrow> (\<exists>x \<in> set g. nhd x \<le> nhd_limit (spaced n ratio (k + 1)))"

lemma within_fhd_mono: "0 \<le> ratio \<Longrightarrow> within_fhd n ratio k g \<Longrightarrow> within_fhd n ratio (Suc k) g"
  unfolding within_fhd_def using fhd_limit_factor_mono [OF spaced_mono, of ratio "k + 1" "Suc k + 1" n] by (auto intro: less_le_trans)

definition bucket_of :: "nat \<Rightarrow> f64 \<Rightarrow> (nat \<Rightarrow> nat) \<Rightarrow> nat \<Rightarrow> BucketResult" where
  "bucket_of n ratio h k = \<lparr>bucket_count = h k, hamming_distance_bucket = (boundary (f64_quot ratio n) k, boundary (f64_quot ratio n) (k + 1))\<rparr>"

lemma fill_counts:
  assumes "map uint arr = map (\<lambda>k. int (\<Sum>a\<le>k. h a)) [0..<n]" "n_buckets s = n"
  shows "buckets (fill_buckets now arr ratio start s) = map (bucket_of n ratio h) [0..<n]"
proof -
  have len: "length arr = n" using arg_cong [OF assms(1), of length] by simp
  have "\<forall>k < length arr. uint (arr ! k) = int (\<Sum>a\<le>k. h a)"
  proof (intro allI impI)
    fix k assume k: "k < length arr"
    from arg_cong [OF assms(1), of "\<lambda>l. l ! k"] k len show "uint (arr ! k) = int (\<Sum>a\<le>k. h a)" by simp
  qed
  from decumulate_count [OF this] show ?thesis
    by (simp add: fill_buckets_def Let_def bucket_of_def len assms(2))
qed

lemma counts_of_limits:
  assumes "\<And>k g. P k g \<Longrightarrow> P (Suc k) g"
  shows "map int (map (\<lambda>k. length (filter (P k) gs)) [0..<n]) = map (\<lambda>k. int (\<Sum>a\<le>k. length (filter (first_at P a) gs))) [0..<n]"
  by (simp only: cumulative_counts [of P, OF assms] map_map comp_def)

text \<open>What every party ends with.\<close>

definition job_result :: "nat \<Rightarrow> nat \<Rightarrow> f64 \<Rightarrow> (nat \<Rightarrow> nat) \<Rightarrow> AnonStatsServerConfig \<Rightarrow> BucketStatistics \<Rightarrow> bool" where
  "job_result job_size n ratio h config s \<longleftrightarrow> buckets s = map (bucket_of n ratio h) [0..<n]
     \<and> n_buckets s = n \<and> match_distances_buffer_size s = job_size \<and> stats_party_id s = config_party_id config"

lemma computes_counts_to_histogram:
  fixes config :: "PartyID \<Rightarrow> AnonStatsServerConfig"
  assumes r: "int_sharing word_ring (\<lambda>_. True) uint r (map (\<lambda>k. int (length (filter (P k) gs))) [0..<n])"
    and P: "\<And>k g. P k g \<Longrightarrow> P (Suc k) g" and len: "length gs < 2 ^ 32" "n < MAX_LEN"
    and s: "\<And>i. n_buckets (s i) = n" "\<And>i. match_distances_buffer_size (s i) = job_size" "\<And>i. stats_party_id (s i) = config_party_id (config i)"
  shows "computes addr sid (\<lambda>i. cbind (open_ring (net_u32 G) (r i)) (\<lambda>bs. cret (fill_buckets (now i) bs ratio start (s i))))
    (\<lambda>x. \<forall>i. job_result job_size n ratio (\<lambda>k. length (filter (first_at P k) gs)) (config i) (x i))"
proof -
  let ?cs = "map (\<lambda>k. length (filter (P k) gs)) [0..<n]"
  have "length (filter (P k) gs) < 2 ^ 32" for k using length_filter_le [of "P k" gs] len(1) by (rule le_less_trans)
  then have "\<forall>c \<in> set ?cs. c < 2 ^ 32" by simp
  then have op: "computes addr sid (\<lambda>i. open_ring (net_u32 G) (r i)) (\<lambda>y. \<forall>i. map uint (y i) = map int ?cs)"
    by (intro computes_open_counts) (use r len(2) in \<open>simp_all add: comp_def\<close>)
  show ?thesis
  proof (rule computes_cbind [OF op], rule computes_cret, rule allI)
    fix y :: "PartyID \<Rightarrow> u32 list" and i assume "\<forall>i. map uint (y i) = map int ?cs"
    then have "map uint (y i) = map (\<lambda>k. int (\<Sum>a\<le>k. length (filter (first_at P a) gs))) [0..<n]"
      using counts_of_limits [of P gs n, OF P] by simp
    from fill_counts [OF this s(1)] s
    show "job_result job_size n ratio (\<lambda>k. length (filter (first_at P k) gs)) (config i) (fill_buckets (now i) (y i) ratio start (s i))"
      unfolding job_result_def by (simp add: fill_buckets_def Let_def)
  qed
qed

lemma params_ratio: "params_1d op config = (n, ratio) \<Longrightarrow> 1 / 2 ^ 100 \<le> ratio \<and> ratio \<le> 1 / 2"
  by (auto simp: params_1d_def MATCH_THRESHOLD_RATIO_def MATCH_THRESHOLD_RATIO_REAUTH_def split: option.splits AnonStatsOperation.splits)

lemma computes_process_1d_inner:
  fixes config :: "PartyID \<Rightarrow> AnonStatsServerConfig"
  assumes D: "group_sharing word_ring (\<lambda>_. True) uint D gs" and gs: "gs \<noteq> []" and len: "n * length gs + 64 \<le> MAX_LEN" "2 * length gs + 64 \<le> MAX_LEN"
    and ok: "\<forall>g \<in> set gs. g \<noteq> [] \<and> (\<forall>x \<in> set g. dot_range x \<and> snd x < 2 ^ 14)"
    and c: "\<And>i. params_1d op (config i) = (n, ratio)" "0 < n"
  shows "computes addr sid (\<lambda>i. process_1d_inner G (clock i) job_size (D i) origin (config i) op start)
    (\<lambda>x. \<forall>i. job_result job_size n ratio (\<lambda>k. length (filter (first_at (within_fhd n ratio) k) gs)) (config i) (x i))"
proof -
  have ratio: "1 / 2 ^ 100 \<le> ratio" "ratio \<le> 1 / 2" using params_ratio [OF c(1)] by simp_all
  then have r0: "0 \<le> ratio" by (meson order_trans zero_le_divide_1_iff zero_le_numeral zero_le_power)
  have g1: "1 \<le> length gs" using gs by (cases gs) simp_all
  have "n * 1 \<le> n * length gs" using g1 by (rule mult_le_mono2)
  then have n: "n < MAX_LEN" using len(1) by linarith
  then have n53: "n < 2 ^ 53" by (simp add: MAX_LEN_def)
  have lgs: "length gs < 2 ^ 32" using len(2) by (simp add: MAX_LEN_def)
  note th = calculate_thresholds(1) [OF ratio c(2) n53]
  let ?as = "map (\<lambda>x. factor_of (spaced n ratio x)) [1..<n + 1]"
  have as: "?as = map (\<lambda>k. factor_of (spaced n ratio (k + 1))) [0..<n]" by (intro nth_equalityI) (simp_all del: upt_Suc)
  have bound: "\<forall>a \<in> set ?as. uint a \<le> 2 ^ 16"
    using factor_bound spaced_range [OF ratio c(2) n53] by auto
  have "computes addr sid (\<lambda>i. compare_min_threshold_buckets G ?as (D i))
      (\<lambda>r. int_sharing word_ring (\<lambda>_. True) uint r (map (\<lambda>a. int (length (filter (\<lambda>g. \<exists>x \<in> set g. fhd x < fhd_limit a) gs))) ?as))"
    by (rule computes_min_buckets [OF D _ len(2) gs ok bound]) (use len(1) in simp)
  then have counts: "computes addr sid (\<lambda>i. compare_min_threshold_buckets G ?as (D i))
      (\<lambda>r. int_sharing word_ring (\<lambda>_. True) uint r (map (\<lambda>k. int (length (filter (within_fhd n ratio k) gs))) [0..<n]))"
    unfolding as by (simp add: comp_def within_fhd_def [abs_def])
  have inner: "process_1d_inner G (clock i) job_size (D i) origin (config i) op start =
      cbind (compare_min_threshold_buckets G ?as (D i)) (\<lambda>r. cbind (open_ring (net_u32 G) r) (\<lambda>bs. cret (fill_buckets (snd (clock i)) bs ratio start
        ((bucket_statistics_new (fst (clock i)) job_size n (config_party_id (config i)) (side origin) FHD Aggregator op)\<lparr>is_mirror_orientation := (orientation origin = Mirror)\<rparr>))))" for i
    using c(1) [of i] unfolding process_1d_inner_def params_1d_def [symmetric] by (simp add: Let_def th del: upt_Suc)
  show ?thesis unfolding inner
    by (rule computes_cbind [OF counts], rule computes_counts_to_histogram)
      (use lgs n within_fhd_mono [OF r0] in \<open>simp_all add: bucket_statistics_new_def\<close>)
qed
lemma nhd_limit_mono: "t \<le> u \<Longrightarrow> nhd_limit t \<le> nhd_limit u"
  unfolding nhd_limit_def f64_mul_def
  by (intro divide_right_mono iffD2 [OF of_int_le_iff] f64_trunc_mono f64_round_mono mult_left_mono) simp_all

lemma within_nhd_mono: "0 \<le> ratio \<Longrightarrow> within_nhd n ratio k g \<Longrightarrow> within_nhd n ratio (Suc k) g"
  unfolding within_nhd_def using nhd_limit_mono [OF spaced_mono, of ratio "k + 1" "Suc k + 1" n] by (auto intro: order_trans)

lemma computes_process_1d_nhd_inner:
  fixes config :: "PartyID \<Rightarrow> AnonStatsServerConfig"
  assumes D: "group_sharing ring48_ring wf48 val48 D gs" and gs: "gs \<noteq> []" and len: "n * length gs + 64 \<le> MAX_LEN" "2 * length gs + 64 \<le> MAX_LEN"
    and ok: "\<forall>g \<in> set gs. g \<noteq> [] \<and> (\<forall>x \<in> set g. dot_range x)"
    and c: "\<And>i. params_1d_nhd op (config i) = (n, ratio)" "0 < n" and ratio: "1 / 2 ^ 100 \<le> ratio" "ratio \<le> 1 / 2"
  shows "computes addr sid (\<lambda>i. process_1d_anon_stats_score_normalization_inner G (clock i) job_size (D i) origin (config i) op start)
    (\<lambda>x. \<forall>i. job_result job_size n ratio (\<lambda>k. length (filter (first_at (within_nhd n ratio) k) gs)) (config i) (x i))"
proof -
  have r0: "0 \<le> ratio" using ratio(1) by (meson order_trans zero_le_divide_1_iff zero_le_numeral zero_le_power)
  have g1: "1 \<le> length gs" using gs by (cases gs) simp_all
  have "n * 1 \<le> n * length gs" using g1 by (rule mult_le_mono2)
  then have n: "n < MAX_LEN" using len(1) by linarith
  then have n53: "n < 2 ^ 53" by (simp add: MAX_LEN_def)
  have lgs: "length gs < 2 ^ 32" using len(2) by (simp add: MAX_LEN_def)
  note th = calculate_thresholds(2) [OF ratio c(2) n53]
  let ?ts = "map (spaced n ratio) [1..<n + 1]"
  have ts: "?ts = map (\<lambda>k. spaced n ratio (k + 1)) [0..<n]" by (intro nth_equalityI) (simp_all del: upt_Suc)
  have bound: "\<forall>t \<in> set ?ts. 0 \<le> t \<and> t \<le> 1" using spaced_range [OF ratio c(2) n53] by auto
  have "computes addr sid (\<lambda>i. compare_min_threshold_buckets_score_normalization G ?ts (D i))
      (\<lambda>r. int_sharing word_ring (\<lambda>_. True) uint r (map (\<lambda>t. int (length (filter (\<lambda>g. \<exists>x \<in> set g. nhd x \<le> nhd_limit t) gs))) ?ts))"
    by (rule computes_nhd_min_buckets [OF D _ len(2) gs ok bound]) (use len(1) in simp)
  then have counts: "computes addr sid (\<lambda>i. compare_min_threshold_buckets_score_normalization G ?ts (D i))
      (\<lambda>r. int_sharing word_ring (\<lambda>_. True) uint r (map (\<lambda>k. int (length (filter (within_nhd n ratio k) gs))) [0..<n]))"
    unfolding ts by (simp add: comp_def within_nhd_def [abs_def])
  have inner: "process_1d_anon_stats_score_normalization_inner G (clock i) job_size (D i) origin (config i) op start =
      cbind (compare_min_threshold_buckets_score_normalization G ?ts (D i)) (\<lambda>r. cbind (open_ring (net_u32 G) r) (\<lambda>bs. cret (fill_buckets (snd (clock i)) bs ratio start
        ((bucket_statistics_new (fst (clock i)) job_size n (config_party_id (config i)) (side origin) NHD Aggregator op)\<lparr>is_mirror_orientation := (orientation origin = Mirror)\<rparr>))))" for i
    using c(1) [of i] unfolding process_1d_anon_stats_score_normalization_inner_def params_1d_nhd_def [symmetric] by (simp add: Let_def th del: upt_Suc)
  show ?thesis unfolding inner
    by (rule computes_cbind [OF counts], rule computes_counts_to_histogram)
      (use lgs n within_nhd_mono [OF r0] in \<open>simp_all add: bucket_statistics_new_def\<close>)
qed

lemma in16_dot_range: "\<forall>g \<in> set gs. g \<noteq> [] \<and> (\<forall>x \<in> set g. dot_range x \<and> snd x < 2 ^ 14) \<Longrightarrow> in16 gs"
  by (fastforce simp: in16_def dot_range_def)

lemma computes_process_1d:
  fixes config :: "PartyID \<Rightarrow> AnonStatsServerConfig"
  assumes job: "\<And>i. mapping_len (job i) = job_size" "group_sharing word_ring (\<lambda>_. True) uint (\<lambda>i. into_bundles (job i)) gs" and gs: "gs \<noteq> []"
    and len: "n * length gs + 64 \<le> MAX_LEN" "4 * length (concat gs) + 64 \<le> MAX_LEN"
    and ok: "\<forall>g \<in> set gs. g \<noteq> [] \<and> (\<forall>x \<in> set g. dot_range x \<and> snd x < 2 ^ 14)" and n: "0 < n"
  shows "(\<And>i. params_1d op (config i) = (n, ratio)) \<Longrightarrow> computes addr sid (\<lambda>i. process_1d_anon_stats_job G (clock i) (job i) origin (config i) op start)
    (\<lambda>x. \<forall>i. job_result job_size n ratio (\<lambda>k. length (filter (first_at (within_fhd n ratio) k) gs)) (config i) (x i))"
  and "(\<And>i. params_1d_nhd op (config i) = (n, ratio)) \<Longrightarrow> 1 / 2 ^ 100 \<le> ratio \<Longrightarrow> ratio \<le> 1 / 2 \<Longrightarrow>
    computes addr sid (\<lambda>i. process_1d_anon_stats_score_normalization_job G (clock i) (job i) origin (config i) op start)
    (\<lambda>x. \<forall>i. job_result job_size n ratio (\<lambda>k. length (filter (first_at (within_nhd n ratio) k) gs)) (config i) (x i))"
proof -
  have "length gs \<le> length (concat gs)" using ok by (induction gs) (auto simp: Suc_le_eq neq_Nil_conv)
  then have lgs: "2 * length gs + 64 \<le> MAX_LEN" using len(2) by linarith
  have okd: "\<forall>g \<in> set gs. g \<noteq> [] \<and> (\<forall>x \<in> set g. dot_range x)" using ok by blast
  note lift = in16_dot_range [OF ok] len(2)
  show "(\<And>i. params_1d op (config i) = (n, ratio)) \<Longrightarrow> computes addr sid (\<lambda>i. process_1d_anon_stats_job G (clock i) (job i) origin (config i) op start)
      (\<lambda>x. \<forall>i. job_result job_size n ratio (\<lambda>k. length (filter (first_at (within_fhd n ratio) k) gs)) (config i) (x i))"
    unfolding process_1d_anon_stats_job_def Let_def job(1)
    by (rule computes_cbind [OF computes_lift_bundles [OF job(2) lift]]) (rule computes_process_1d_inner [OF _ gs len(1) lgs ok _ n])
  show "(\<And>i. params_1d_nhd op (config i) = (n, ratio)) \<Longrightarrow> 1 / 2 ^ 100 \<le> ratio \<Longrightarrow> ratio \<le> 1 / 2 \<Longrightarrow>
      computes addr sid (\<lambda>i. process_1d_anon_stats_score_normalization_job G (clock i) (job i) origin (config i) op start)
      (\<lambda>x. \<forall>i. job_result job_size n ratio (\<lambda>k. length (filter (first_at (within_nhd n ratio) k) gs)) (config i) (x i))"
    unfolding process_1d_anon_stats_score_normalization_job_def Let_def job(1)
    by (rule computes_cbind [OF computes_lift_bundles48 [OF job(2) lift]]) (rule computes_process_1d_nhd_inner [OF _ gs len(1) lgs okd _ n])
qed

text \<open>Rows that were lifted before.\<close>

lemma computes_process_1d_lifted:
  fixes config :: "PartyID \<Rightarrow> AnonStatsServerConfig"
  assumes rows: "2 * length gs + 64 \<le> MAX_LEN" "gs \<noteq> []" "n * length gs + 64 \<le> MAX_LEN" "0 < n"
    and ok: "\<forall>g \<in> set gs. g \<noteq> [] \<and> (\<forall>x \<in> set g. dot_range x \<and> snd x < 2 ^ 14)"
  shows "(\<And>i. mapping_len (job i) = job_size) \<Longrightarrow> group_sharing word_ring (\<lambda>_. True) uint (\<lambda>i. into_bundles (job i)) gs \<Longrightarrow>
    (\<And>i. params_1d op (config i) = (n, ratio)) \<Longrightarrow> computes addr sid (\<lambda>i. process_1d_lifted_anon_stats_job G (clock i) (job i) origin (config i) op start)
    (\<lambda>x. \<forall>i. job_result job_size n ratio (\<lambda>k. length (filter (first_at (within_fhd n ratio) k) gs)) (config i) (x i))"
  and "(\<And>i. mapping_len (u48_job i) = job_size) \<Longrightarrow> group_sharing ring48_ring wf48 val48 (\<lambda>i. into_bundles (u48_job i)) gs \<Longrightarrow>
    (\<And>i. params_1d_nhd op (config i) = (n, ratio)) \<Longrightarrow> 1 / 2 ^ 100 \<le> ratio \<Longrightarrow> ratio \<le> 1 / 2 \<Longrightarrow>
    computes addr sid (\<lambda>i. process_1d_lifted_anon_stats_score_normalization_job G (clock i) (u48_job i) origin (config i) op start)
    (\<lambda>x. \<forall>i. job_result job_size n ratio (\<lambda>k. length (filter (first_at (within_nhd n ratio) k) gs)) (config i) (x i))"
proof -
  have okd: "\<forall>g \<in> set gs. g \<noteq> [] \<and> (\<forall>x \<in> set g. dot_range x)" using ok by blast
  show "(\<And>i. mapping_len (job i) = job_size) \<Longrightarrow> group_sharing word_ring (\<lambda>_. True) uint (\<lambda>i. into_bundles (job i)) gs \<Longrightarrow>
      (\<And>i. params_1d op (config i) = (n, ratio)) \<Longrightarrow> computes addr sid (\<lambda>i. process_1d_lifted_anon_stats_job G (clock i) (job i) origin (config i) op start)
      (\<lambda>x. \<forall>i. job_result job_size n ratio (\<lambda>k. length (filter (first_at (within_fhd n ratio) k) gs)) (config i) (x i))"
    unfolding process_1d_lifted_anon_stats_job_def by (simp only:) (rule computes_process_1d_inner [OF _ rows(2,3,1) ok _ rows(4)])
  show "(\<And>i. mapping_len (u48_job i) = job_size) \<Longrightarrow> group_sharing ring48_ring wf48 val48 (\<lambda>i. into_bundles (u48_job i)) gs \<Longrightarrow>
      (\<And>i. params_1d_nhd op (config i) = (n, ratio)) \<Longrightarrow> 1 / 2 ^ 100 \<le> ratio \<Longrightarrow> ratio \<le> 1 / 2 \<Longrightarrow>
      computes addr sid (\<lambda>i. process_1d_lifted_anon_stats_score_normalization_job G (clock i) (u48_job i) origin (config i) op start)
      (\<lambda>x. \<forall>i. job_result job_size n ratio (\<lambda>k. length (filter (first_at (within_nhd n ratio) k) gs)) (config i) (x i))"
    unfolding process_1d_lifted_anon_stats_score_normalization_job_def by (simp only:) (rule computes_process_1d_nhd_inner [OF _ rows(2,3,1) okd _ rows(4)])
qed

section \<open>Histograms of face distances\<close>

definition sub_local :: "'a int_ring2k \<Rightarrow> 'a RingElement \<Rightarrow> PartyID \<Rightarrow> 'a share \<Rightarrow> 'a share" where
  "sub_local R t i s = (case i of ID0 \<Rightarrow> s\<lparr>share_a := re_sub_assign R (share_a s) t\<rparr> | ID1 \<Rightarrow> s\<lparr>share_b := re_sub_assign R (share_b s) t\<rparr> | ID2 \<Rightarrow> s)"

lemma sub_pub_all_local:
  assumes "own_role s = Role (u8_from_party i)"
  shows "sub_pub_all R t ss s = cret (map (sub_local R t i) ss) s"
proof (induction ss)
  case (Cons x ss)
  have "sub_pub R x t s = Ret (sub_local R t i x, s)"
    using assms by (cases i) (simp_all add: sub_pub_def cbind_def cread_def cret_def sub_local_def del: role_index.simps)
  with Cons.IH show ?case by (simp add: cbind_def cret_def)
qed simp

lemma computes_sub_pub_all:
  assumes "Q (\<lambda>i. map (sub_local R t i) (x i))"
  shows "computes addr sid (\<lambda>i. sub_pub_all R t (x i)) Q"
  unfolding computes_def
proof (intro allI impI)
  fix S :: "PartyID \<Rightarrow> 'r session" assume S: "linked addr sid S"
  then have "own_role (S i) = Role (u8_from_party i)" for i by (simp add: linked_def net_linked_def net_at_def)
  from sub_pub_all_local [OF this] have "sub_pub_all R t (x i) (S i) = Ret (map (sub_local R t i) (x i), S i)" for i by (simp add: cret_def)
  then show "\<exists>r S'. delivers addr (\<lambda>i. sub_pub_all R t (x i) (S i)) (\<lambda>i. (r i, S' i)) \<and> linked addr sid S' \<and> Q r"
    using S assms by (intro exI [of _ "\<lambda>i. map (sub_local R t i) (x i)"] exI [of _ S]) (simp add: delivers_Ret)
qed

context int_ring2k_laws
begin

lemma opens_sub_local:
  assumes "opens_int (x, y, z) v" "wf c"
  shows "opens_int (sub_local R (RingElement c) ID0 x, sub_local R (RingElement c) ID1 y, sub_local R (RingElement c) ID2 z) (v - val c)"
proof -
  let ?s = "val (convert (share_a x)) + val (convert (share_a y)) + val (convert (share_a z))"
  have w: "wf (convert (share_a x))" "wf (convert (share_a y))" "wf (convert (share_a z))" using assms(1) by (simp_all add: opens_int_def)
  then have "val (convert (open_add R (x, y, z))) = ?s mod 2 ^ ring_K R" by (simp add: re_defs wf_intros val_arith mod_simps)
  then have "?s mod 2 ^ ring_K R = v mod 2 ^ ring_K R" using assms(1) by (simp add: opens_int_def del: open_add.simps)
  then have "(?s - val c) mod 2 ^ ring_K R = (v - val c) mod 2 ^ ring_K R" by (rule mod_diff_cong) simp
  then show ?thesis
    using assms by (simp add: opens_int_def sub_local_def re_defs wrapping_sub_assign_def wf_intros val_arith mod_simps) (simp add: algebra_simps)
qed

lemma int_sharing_sub_local:
  assumes "int_sharing R wf val x vs" "wf c" "val c = u mod 2 ^ ring_K R"
  shows "int_sharing R wf val (\<lambda>i. map (sub_local R (RingElement c) i) (x i)) (map (\<lambda>v. v - u) vs)"
proof (rule int_sharingI)
  show "length (map (sub_local R (RingElement c) i) (x i)) = length (map (\<lambda>v. v - u) vs)" for i using int_sharing_length [OF assms(1)] by simp
  fix k assume "k < length (map (\<lambda>v. v - u) vs)"
  then have k: "k < length vs" by simp
  from opens_sub_local [OF int_sharing_nth [OF assms(1) k, unfolded col_def] assms(2)] assms(3) k int_sharing_length [OF assms(1)]
  show "opens_int (col (\<lambda>i. map (sub_local R (RingElement c) i) (x i)) k) (map (\<lambda>v. v - u) vs ! k)"
    by (simp add: col_def opens_int_def mod_simps)
qed

end

lemma sign16:
  assumes "int_sharing word_ring (\<lambda>_. True) uint x vs" "\<And>v. v \<in> set vs \<Longrightarrow> - (2 ^ 15) \<le> v \<and> v < 2 ^ 15" "length vs + 64 \<le> MAX_LEN"
  shows "computes addr sid (\<lambda>i. msb16 G (x i)) (\<lambda>r. bit_sharing r (map (\<lambda>v. v < 0) vs))"
  unfolding msb16_def by (rule tr16.computes_sign [unfolded ni_ring_simps]) (use assms in simp_all)

lemma uint_sint16: "uint t = sint t mod 2 ^ 16" for t :: u16
proof -
  have "take_bit 16 (sint t) = uint t" unfolding sint_uint by (simp add: take_bit_signed_take_bit bintr_uint)
  then show ?thesis by (simp add: take_bit_eq_mod)
qed

lemma int_sharing_fold:
  assumes "int_sharing word_ring (\<lambda>_. True) uint r vs"
  shows "int_sharing word_ring (\<lambda>_. True) uint (\<lambda>i. [foldl (share_add word_ring) (share_zero word_ring) (r i) :: u32 share]) [sum_list vs]"
proof (rule word.int_sharingI)
  have "word.opens_int (share_zero word_ring, share_zero word_ring, share_zero word_ring :: u32 share) 0"
    by (simp add: word.opens_int_def share_zero_def re_defs)
  from word.opens_foldl [OF assms this]
  show "word.opens_int (col (\<lambda>i. [foldl (share_add word_ring) (share_zero word_ring) (r i)]) k) ([sum_list vs] ! k)" if "k < length [sum_list vs]" for k
    using that by (simp add: col_def)
qed simp

definition face_ok :: "16 word list \<Rightarrow> int list \<Rightarrow> bool" where
  "face_ok ts vs \<longleftrightarrow> (\<forall>t \<in> set ts. \<forall>v \<in> set vs. - (2 ^ 15) \<le> v - sint t \<and> v - sint t < 2 ^ 15)"

text \<open>One threshold: the bits of the values below it, as shares of integers.\<close>

lemma computes_below_threshold:
  assumes x: "int_sharing word_ring (\<lambda>_. True) uint x vs" and len: "length vs + 64 \<le> MAX_LEN" and ok: "face_ok [t] vs"
    and F: "\<And>v. int_sharing word_ring (\<lambda>_. True) uint v (map of_bool (map (\<lambda>v. v < sint t) vs)) \<Longrightarrow> computes addr sid (\<lambda>i. F i (v i)) Q"
  shows "computes addr sid (\<lambda>i. cbind (sub_pub_all word_ring (RingElement t) (x i)) (\<lambda>d. cbind (msb16 G d) (\<lambda>b.
      cbind (bit_inject (net_u32 G) (new_vec b)) (\<lambda>injected. F i (vs_inner injected))))) Q"
proof -
  let ?ds = "map (\<lambda>v. v - sint t) vs"
  let ?bits = "map (\<lambda>v. v < 0) ?ds"
  have range: "- (2 ^ 15) \<le> v \<and> v < 2 ^ 15" if "v \<in> set ?ds" for v using ok that by (auto simp: face_ok_def)
  have bits: "?bits = map (\<lambda>v. v < sint t) vs" by simp
  have sub: "int_sharing word_ring (\<lambda>_. True) uint (\<lambda>i. map (sub_local word_ring (RingElement t) i) (x i)) ?ds"
    by (rule word.int_sharing_sub_local [OF x]) (simp_all add: uint_sint16)
  have inject: "computes addr sid (\<lambda>i. cbind (bit_inject (net_u32 G) (new_vec (b i))) (\<lambda>injected. F i (vs_inner injected))) Q" if b: "bit_sharing b ?bits" for b
  proof (rule computes_cbind [OF net32.computes_inject_int [OF b]])
    show "length ?bits < MAX_LEN" using len by simp
    fix v :: "PartyID \<Rightarrow> u32 VecShare" assume "sharing_add (ni_ring (net_u32 G)) (\<lambda>_. True) (\<lambda>i. shares (v i)) (map (bit_elem (ni_ring (net_u32 G))) ?bits)"
    from net32.bits_as_ints [OF this] show "computes addr sid (\<lambda>i. F i (vs_inner (v i))) Q" unfolding vs_inner_def bits ni_ring_simps by (rule F)
  qed
  have sign: "computes addr sid (\<lambda>i. cbind (msb16 G (y i)) (\<lambda>b. cbind (bit_inject (net_u32 G) (new_vec b)) (\<lambda>injected. F i (vs_inner injected)))) Q"
    if y: "int_sharing word_ring (\<lambda>_. True) uint y ?ds" for y
    by (rule computes_cbind [OF sign16 [OF y range]]) (use len inject in simp_all)
  show ?thesis
    by (rule computes_cbind [OF computes_sub_pub_all [where Q = "\<lambda>y. int_sharing word_ring (\<lambda>_. True) uint y ?ds", OF sub]]) (rule sign)
qed

lemma computes_face_loop:
  assumes x: "int_sharing word_ring (\<lambda>_. True) uint x vs" and len: "length vs + 64 \<le> MAX_LEN"
  shows "face_ok ts vs \<Longrightarrow> int_sharing word_ring (\<lambda>_. True) uint r cs \<Longrightarrow>
    computes addr sid (\<lambda>i. face_threshold_loop G (x i) ts (r i))
      (\<lambda>r. int_sharing word_ring (\<lambda>_. True) uint r (cs @ map (\<lambda>t. int (length (filter (\<lambda>v. v < sint t) vs))) ts))"
proof (induction ts arbitrary: r cs)
  case Nil
  then show ?case by (simp add: computes_cret)
next
  case (Cons t ts)
  have ok: "face_ok ts vs" "face_ok [t] vs" using Cons.prems(1) by (auto simp: face_ok_def)
  show ?case
    unfolding face_threshold_loop.simps
  proof (rule computes_below_threshold [OF x len ok(2)])
    fix v :: "PartyID \<Rightarrow> u32 share list" assume "int_sharing word_ring (\<lambda>_. True) uint v (map of_bool (map (\<lambda>v. v < sint t) vs))"
    from word.int_sharing_append [OF Cons.prems(2) int_sharing_fold [OF this], unfolded sum_of_bools]
    show "computes addr sid (\<lambda>i. face_threshold_loop G (x i) ts (r i @ [foldl (share_add word_ring) (share_zero word_ring) (v i)]))
        (\<lambda>r. int_sharing word_ring (\<lambda>_. True) uint r (cs @ map (\<lambda>t. int (length (filter (\<lambda>v. v < sint t) vs))) (t # ts)))"
      using Cons.IH [OF ok(1)] by fastforce
  qed
qed

text \<open>Consecutive thresholds bound a bucket; the lower one is included.\<close>

fun face_histogram :: "int list \<Rightarrow> 16 word list \<Rightarrow> BucketResult list" where
  "face_histogram vs (t # u # ts) =
     \<lparr>bucket_count = length (filter (\<lambda>v. sint t \<le> v \<and> v < sint u) vs), hamming_distance_bucket = (Some (of_int (sint t)), Some (of_int (sint u)))\<rparr>
     # face_histogram vs (u # ts)"
| "face_histogram vs ts = []"

lemma face_histogram_nth:
  "face_histogram vs ts = map (\<lambda>k. \<lparr>bucket_count = length (filter (\<lambda>v. sint (ts ! k) \<le> v \<and> v < sint (ts ! (k + 1))) vs),
     hamming_distance_bucket = (Some (of_int (sint (ts ! k))), Some (of_int (sint (ts ! (k + 1)))))\<rparr>) [0..<length ts - 1]"
  by (induction vs ts rule: face_histogram.induct) (simp_all add: map_upt_Suc del: upt_Suc)

lemma count_between:
  assumes "(a :: int) \<le> b"
  shows "length (filter (\<lambda>v. v < b) vs) = length (filter (\<lambda>v. v < a) vs) + length (filter (\<lambda>v. a \<le> v \<and> v < b) vs)"
  using assms by (induction vs) auto

lemma unat_diff_u64: "b \<le> c \<Longrightarrow> unat (ucast c - ucast b :: u64) = unat c - unat b" for b c :: u32
proof -
  assume "b \<le> c"
  have u: "unat (ucast x :: u64) = unat x" for x :: u32
  proof -
    have "unat x < 2 ^ 32" using unsigned_less [of x] by simp
    then have "unat x < 2 ^ 64" by simp
    then show ?thesis by (simp add: unsigned_ucast_eq take_bit_nat_eq_self)
  qed
  show ?thesis using \<open>b \<le> c\<close> by (simp add: unat_sub word_le_nat_alt u)
qed

lemma face_windows_eq:
  assumes "sorted (map sint ts)" "map uint bs = map (\<lambda>t. int (length (filter (\<lambda>v. v < sint t) vs))) ts"
  shows "face_windows (zip bs ts) = face_histogram vs ts"
  using assms
proof (induction vs ts arbitrary: bs rule: face_histogram.induct)
  case (1 vs t u ts)
  obtain b c cs where bs: "bs = b # c # cs" using 1(3) by (auto simp: map_eq_Cons_conv)
  have le: "sint t \<le> sint u" using 1(2) by simp
  have v: "uint b = int (length (filter (\<lambda>v. v < sint t) vs))" "uint c = int (length (filter (\<lambda>v. v < sint u) vs))" using 1(3) bs by simp_all
  then have "b \<le> c" "unat c - unat b = length (filter (\<lambda>v. sint t \<le> v \<and> v < sint u) vs)"
    using count_between [OF le, of vs] by (simp_all add: word_le_def unat_eq_nat_uint)
  moreover have "face_windows (zip (c # cs) (u # ts)) = face_histogram vs (u # ts)" by (rule 1(1)) (use 1(2,3) bs in simp_all)
  ultimately show ?case by (simp add: bs unat_diff_u64)
qed auto

lemma new_buckets: "buckets (bucket_statistics_new now job_size n party e d src op) = []"
  by (simp add: bucket_statistics_new_def)

definition face_result :: "nat \<Rightarrow> int list \<Rightarrow> 16 word list \<Rightarrow> AnonStatsServerConfig \<Rightarrow> BucketStatistics \<Rightarrow> bool" where
  "face_result job_size vs ts config s \<longleftrightarrow> buckets s = face_histogram vs ts
     \<and> n_buckets s = length ts \<and> match_distances_buffer_size s = job_size \<and> stats_party_id s = config_party_id config"

lemma computes_face_job:
  fixes config :: "PartyID \<Rightarrow> AnonStatsServerConfig"
  assumes job: "int_sharing word_ring (\<lambda>_. True) uint job vs" "length vs + 64 \<le> MAX_LEN"
    and ts: "\<And>i. face_bucket_thresholds (config i) = ts" "sorted (map sint ts)" "face_ok ts vs" "length ts < MAX_LEN"
  shows "computes addr sid (\<lambda>i. process_face_distance_job G (clock i) (job i) (config i) op start)
    (\<lambda>x. \<forall>i. face_result (length vs) vs ts (config i) (x i))"
proof -
  let ?cs = "map (\<lambda>t. length (filter (\<lambda>v. v < sint t) vs)) ts"
  have lv: "length (job i) = length vs" for i using int_sharing_length [OF job(1)] .
  have "length (filter (\<lambda>v. v < sint t) vs) < 2 ^ 32" for t :: "16 word"
    by (rule le_less_trans [OF length_filter_le]) (use job(2) in \<open>simp add: MAX_LEN_def\<close>)
  then have small: "\<forall>c \<in> set ?cs. c < 2 ^ 32" by simp
  have loop: "computes addr sid (\<lambda>i. face_threshold_loop G (job i) ts []) (\<lambda>r. int_sharing word_ring (\<lambda>_. True) uint r (map int ?cs))"
    using computes_face_loop [OF job ts(3) word.int_sharing_Nil, where addr = addr and sid = sid and G = G] by (simp add: comp_def)
  have body: "process_face_distance_job G (clock i) (job i) (config i) op start =
      cbind (face_threshold_loop G (job i) ts []) (\<lambda>bs. cbind (open_ring (net_u32 G) bs) (\<lambda>opened.
        if length opened \<noteq> length ts then cstop Panicked
        else cret ((bucket_statistics_new (fst (clock i)) (length vs) (length ts) (config_party_id (config i)) None HD Aggregator op)
            \<lparr>start_time := (case start of Some t \<Rightarrow> t | None \<Rightarrow> fst (snd (clock i))), buckets := face_windows (zip opened ts), end_time := Some (snd (snd (clock i)))\<rparr>)))" for i
    unfolding process_face_distance_job_def by (cases "clock i") (simp add: Let_def ts(1) lv new_buckets cong: if_cong option.case_cong)
  show ?thesis
    unfolding body
  proof (rule computes_cbind [OF loop])
    fix r :: "PartyID \<Rightarrow> u32 share list" assume "int_sharing word_ring (\<lambda>_. True) uint r (map int ?cs)"
    from computes_open_counts [OF this small] ts(4)
    have op: "computes addr sid (\<lambda>i. open_ring (net_u32 G) (r i)) (\<lambda>y. \<forall>i. map uint (y i) = map int ?cs)" by simp
    show "computes addr sid (\<lambda>i. cbind (open_ring (net_u32 G) (r i)) (\<lambda>opened.
        if length opened \<noteq> length ts then cstop Panicked
        else cret ((bucket_statistics_new (fst (clock i)) (length vs) (length ts) (config_party_id (config i)) None HD Aggregator op)
            \<lparr>start_time := (case start of Some t \<Rightarrow> t | None \<Rightarrow> fst (snd (clock i))), buckets := face_windows (zip opened ts), end_time := Some (snd (snd (clock i)))\<rparr>)))
      (\<lambda>x. \<forall>i. face_result (length vs) vs ts (config i) (x i))"
    proof (rule computes_cbind [OF op])
      fix y :: "PartyID \<Rightarrow> u32 list" assume y: "\<forall>i. map uint (y i) = map int ?cs"
      have len: "length (y i) = length ts" for i using arg_cong [OF y [rule_format, of i], of length] by simp
      have w: "face_windows (zip (y i) ts) = face_histogram vs ts" for i
        by (rule face_windows_eq [OF ts(2)]) (use y in \<open>simp add: comp_def\<close>)
      show "computes addr sid (\<lambda>i. if length (y i) \<noteq> length ts then cstop Panicked
        else cret ((bucket_statistics_new (fst (clock i)) (length vs) (length ts) (config_party_id (config i)) None HD Aggregator op)
            \<lparr>start_time := (case start of Some t \<Rightarrow> t | None \<Rightarrow> fst (snd (clock i))), buckets := face_windows (zip (y i) ts), end_time := Some (snd (snd (clock i)))\<rparr>))
        (\<lambda>x. \<forall>i. face_result (length vs) vs ts (config i) (x i))"
        unfolding len w by (simp add: computes_cret face_result_def bucket_statistics_new_def)
    qed
  qed
qed

section \<open>Properties\<close>

lemma bundles_len:
  assumes "group_sharing R ok val (\<lambda>i. into_bundles (job i)) gs"
  shows "mapping_len (job i) = length gs"
  using assms unfolding group_sharing_def mapping_len_def into_bundles_def by simp

text \<open>
  C1: histograms of minima, end to end. Three linked parties run a job over their rows of
  shared distances, of sixteen bits or already lifted to 32 and to 48 bits, with the same
  thresholds and from whatever reading of their clocks. All of them finish under any
  interleaving, and each ends with the same histogram: bucket \<open>k\<close> counts the bundles whose
  smallest distance, as a rational number, is within threshold \<open>k\<close> and not within the one
  before, for the fractional distance and for the normalized one. Neither the lift, the
  reduction, the comparisons nor the counters overflow.
\<close>

theorem jobs_report_histograms_of_minima:
  fixes S :: "PartyID \<Rightarrow> 'r session" and G :: "'r prf_rng"
  assumes "linked addr sid S" "group_sharing word_ring (\<lambda>_. True) uint (\<lambda>i. into_bundles (job i)) gs" "gs \<noteq> []"
    and "\<forall>g \<in> set gs. g \<noteq> [] \<and> (\<forall>x \<in> set g. dot_range x \<and> snd x < 2 ^ 14)" "4 * length (concat gs) + 64 \<le> MAX_LEN"
    and "\<forall>i. params_1d op (config i) = (n, ratio)" "0 < n" "n * length gs + 64 \<le> MAX_LEN"
    and "\<forall>i. params_1d_nhd op (config i) = (m, limit)" "0 < m" "m * length gs + 64 \<le> MAX_LEN" "1 / 2 ^ 100 \<le> limit" "limit \<le> 1 / 2"
    and lifted: "group_sharing word_ring (\<lambda>_. True) uint (\<lambda>i. into_bundles (lifted_job i)) gs" "group_sharing ring48_ring wf48 val48 (\<lambda>i. into_bundles (u48_job i)) gs"
  shows "always_finishes addr (\<lambda>i. process_1d_anon_stats_job G (clock i) (job i) origin (config i) op start (S i))
      (\<lambda>r. (\<forall>i. job_result (length gs) n ratio (\<lambda>k. length (filter (first_at (within_fhd n ratio) k) gs)) (config i) (fst (r i)))
         \<and> linked addr sid (\<lambda>i. snd (r i)))
    \<and> always_finishes addr (\<lambda>i. process_1d_lifted_anon_stats_job G (clock i) (lifted_job i) origin (config i) op start (S i))
      (\<lambda>r. (\<forall>i. job_result (length gs) n ratio (\<lambda>k. length (filter (first_at (within_fhd n ratio) k) gs)) (config i) (fst (r i)))
         \<and> linked addr sid (\<lambda>i. snd (r i)))
    \<and> always_finishes addr (\<lambda>i. process_1d_anon_stats_score_normalization_job G (clock i) (job i) origin (config i) op start (S i))
      (\<lambda>r. (\<forall>i. job_result (length gs) m limit (\<lambda>k. length (filter (first_at (within_nhd m limit) k) gs)) (config i) (fst (r i)))
         \<and> linked addr sid (\<lambda>i. snd (r i)))
    \<and> always_finishes addr (\<lambda>i. process_1d_lifted_anon_stats_score_normalization_job G (clock i) (u48_job i) origin (config i) op start (S i))
      (\<lambda>r. (\<forall>i. job_result (length gs) m limit (\<lambda>k. length (filter (first_at (within_nhd m limit) k) gs)) (config i) (fst (r i)))
         \<and> linked addr sid (\<lambda>i. snd (r i)))"
proof -
  note job = bundles_len [OF assms(2)] assms(2,3)
  have "length gs \<le> length (concat gs)" using assms(4) by (induction gs) (auto simp: Suc_le_eq neq_Nil_conv)
  then have lgs: "2 * length gs + 64 \<le> MAX_LEN" using assms(5) by linarith
  show ?thesis
    by (intro conjI computes_always_finishes [OF computes_process_1d(1) [OF job assms(8,5,4,7)] assms(1)]
        computes_always_finishes [OF computes_process_1d(2) [OF job assms(11,5,4,10)] assms(1)]
        computes_always_finishes [OF computes_process_1d_lifted(1) [OF lgs assms(3,8,7,4) bundles_len [OF lifted(1)] lifted(1)] assms(1)]
        computes_always_finishes [OF computes_process_1d_lifted(2) [OF lgs assms(3,11,10,4) bundles_len [OF lifted(2)] lifted(2)] assms(1)])
      (use assms(6,9,12,13) in simp_all)
qed

definition demo_distances16 :: "(int \<times> int) list \<Rightarrow> PartyID \<Rightarrow> u16 DistanceShare list" where
  "demo_distances16 vs i = map (\<lambda>(c, m). distance_share_new c m)
     (zip (deal (map (\<lambda>v. sh (of_int (fst v)) 7 (- 7)) vs) i) (deal (map (\<lambda>v. sh 5 (of_int (snd v)) (- 5)) vs) i))"

lemma demo_distances16_sharing: "dist_int_sharing word_ring (\<lambda>_. True) uint (demo_distances16 vs) vs"
proof -
  have len: "length (deal ts i) = length ts" for ts :: "u16 share3 list" and i by (simp add: deal_def)
  have c: "map code_dot (demo_distances16 vs i) = deal (map (\<lambda>v. sh (of_int (fst v)) 7 (- 7)) vs) i"
    "map mask_dot (demo_distances16 vs i) = deal (map (\<lambda>v. sh 5 (of_int (snd v)) (- 5)) vs) i" for i
    unfolding demo_distances16_def
    by (simp_all add: comp_def split_def distance_share_new_def len flip: map_map [of fst] map_map [of snd])
  show ?thesis
    unfolding dist_int_sharing_def c
    by (auto intro!: word.int_sharingI simp: len col_deal word.opens_int_def sh_def share_new_def re_add_def uint_word_of_int)
qed

definition demo_job :: "PartyID \<Rightarrow> DistanceBundle1D AnonStatsMapping" where
  "demo_job i = mapping_new [(9, demo_distances16 [(250, 500)] i), (4, demo_distances16 [(100, 500), (400, 500)] i), (11, demo_distances16 [(1, 8)] i)]"

definition demo_config :: "nat \<Rightarrow> AnonStatsServerConfig" where
  "demo_config party = default_config\<lparr>config_party_id := party, n_buckets_1d := 2, n_buckets_1d_reauth := 2, n_buckets_1d_nhd := 1,
     n_buckets_2d := 2, n_buckets_2d_reauth := 2, n_buckets_2d_nhd := 2, nhd_threshold_ratio := 3 / 8,
     face_bucket_thresholds := [- 10, 0, 100], di_2d_bucket_thresholds := [0, 1000]\<rparr>"

text \<open>The same rows, lifted before.\<close>

definition demo_lifted :: "PartyID \<Rightarrow> LiftedDistanceBundle1D AnonStatsMapping" where
  "demo_lifted i = mapping_new [(9, demo_distances [(250, 500)] i), (4, demo_distances [(100, 500), (400, 500)] i), (11, demo_distances [(1, 8)] i)]"

definition demo_lifted48 :: "PartyID \<Rightarrow> LiftedU48DistanceBundle1D AnonStatsMapping" where
  "demo_lifted48 i = mapping_new [(9, demo_distances48 [(250, 500)] i), (4, demo_distances48 [(100, 500), (400, 500)] i), (11, demo_distances48 [(1, 8)] i)]"

theorem jobs_report_histograms_of_minima_witness:
  "always_finishes demo_addr (\<lambda>i. process_1d_anon_stats_job demo_rng (5, 9) (demo_job i) \<lparr>side = Some Left, orientation = Normal, origin_context = GPU\<rparr>
        (demo_config (usize_from_party i)) None None (demo_session i))
      (\<lambda>r. \<forall>i. map bucket_count (buckets (fst (r i))) = [1, 1] \<and> stats_party_id (fst (r i)) = usize_from_party i)
    \<and> always_finishes demo_addr (\<lambda>i. process_1d_lifted_anon_stats_job demo_rng (5, 9) (demo_lifted i) \<lparr>side = Some Left, orientation = Normal, origin_context = GPU\<rparr>
        (demo_config (usize_from_party i)) None None (demo_session i))
      (\<lambda>r. \<forall>i. map bucket_count (buckets (fst (r i))) = [1, 1])
    \<and> always_finishes demo_addr (\<lambda>i. process_1d_anon_stats_score_normalization_job demo_rng (5, 9) (demo_job i) \<lparr>side = Some Left, orientation = Normal, origin_context = GPU\<rparr>
        (demo_config (usize_from_party i)) None None (demo_session i))
      (\<lambda>r. \<forall>i. map bucket_count (buckets (fst (r i))) = [2])
    \<and> always_finishes demo_addr (\<lambda>i. process_1d_lifted_anon_stats_score_normalization_job demo_rng (5, 9) (demo_lifted48 i) \<lparr>side = Some Left, orientation = Normal, origin_context = GPU\<rparr>
        (demo_config (usize_from_party i)) None None (demo_session i))
      (\<lambda>r. \<forall>i. map bucket_count (buckets (fst (r i))) = [2])"
proof -
  let ?gs = "[[(100, 500), (400, 500)], [(250, 500)], [(1, 8)]] :: (int \<times> int) list list"
  have rows: "into_bundles (demo_job i) = map (\<lambda>g. demo_distances16 g i) ?gs" "into_bundles (demo_lifted i) = map (\<lambda>g. demo_distances g i) ?gs"
    "into_bundles (demo_lifted48 i) = map (\<lambda>g. demo_distances48 g i) ?gs" for i
    by (simp_all add: demo_job_def demo_lifted_def demo_lifted48_def into_bundles_def mapping_new_def)
  have g: "group_sharing word_ring (\<lambda>_. True) uint (\<lambda>i. into_bundles (demo_job i)) ?gs" "group_sharing word_ring (\<lambda>_. True) uint (\<lambda>i. into_bundles (demo_lifted i)) ?gs"
    "group_sharing ring48_ring wf48 val48 (\<lambda>i. into_bundles (demo_lifted48 i)) ?gs"
    unfolding rows using demo_distances16_sharing demo_distances_sharing demo_distances48_sharing by (simp_all add: group_sharing_def less_Suc_eq)
  have p: "params_1d None (demo_config i) = (2, 3 / 8)" "params_1d_nhd None (demo_config i) = (1, 3 / 8)" for i
    by (simp_all add: params_1d_def params_1d_nhd_def demo_config_def MATCH_THRESHOLD_RATIO_def)
  have f: "factor_of (spaced 2 (3 / 8) (Suc 0)) = 40960" "factor_of (spaced 2 (3 / 8) (Suc (Suc 0))) = 16384" "nhd_limit (spaced (Suc 0) (3 / 8) (Suc 0)) = 3 / 8"
    unfolding factor_of_def spaced_def nhd_limit_def by code_simp+
  have counts: "map (\<lambda>k. length (filter (first_at (within_fhd 2 (3 / 8)) k) ?gs)) [0..<2] = [1, 1]"
    "map (\<lambda>k. length (filter (first_at (within_nhd 1 (3 / 8)) k) ?gs)) [0..<1] = [2]"
    by (simp_all add: f upt_rec first_at_def within_fhd_def within_nhd_def fhd_def fhd_limit_def nhd_def)
  have r: "map bucket_count (buckets s) = map h [0..<n] \<and> stats_party_id s = config_party_id c" if "job_result z n q h c s" for z n q h c s
    using that by (simp add: job_result_def bucket_of_def comp_def)
  have hyps: "?gs \<noteq> []" "\<forall>g \<in> set ?gs. g \<noteq> [] \<and> (\<forall>x \<in> set g. dot_range x \<and> snd x < 2 ^ 14)" "4 * length (concat ?gs) + 64 \<le> MAX_LEN"
    "\<forall>i. params_1d None (demo_config (usize_from_party i)) = (2, 3 / 8)" "0 < (2 :: nat)" "2 * length ?gs + 64 \<le> MAX_LEN"
    "\<forall>i. params_1d_nhd None (demo_config (usize_from_party i)) = (1, 3 / 8)" "0 < (1 :: nat)" "1 * length ?gs + 64 \<le> MAX_LEN"
    "1 / 2 ^ 100 \<le> (3 / 8 :: rat)" "(3 / 8 :: rat) \<le> 1 / 2"
    using p by (simp_all add: MAX_LEN_def dot_range_def)
  have fhd: "map bucket_count (buckets s) = [1, 1] \<and> stats_party_id s = party"
    if "job_result z 2 (3 / 8) (\<lambda>k. length (filter (first_at (within_fhd 2 (3 / 8)) k) ?gs)) (demo_config party) s" for z party s
    using r [OF that] unfolding counts by (simp add: demo_config_def)
  have nhd: "map bucket_count (buckets s) = [2]"
    if "job_result z 1 (3 / 8) (\<lambda>k. length (filter (first_at (within_nhd 1 (3 / 8)) k) ?gs)) (demo_config party) s" for z party s
    using r [OF that] unfolding counts by simp
  note job = jobs_report_histograms_of_minima [where G = demo_rng and job = demo_job and op = None and config = "\<lambda>i. demo_config (usize_from_party i)"
      and lifted_job = demo_lifted and u48_job = demo_lifted48 and clock = "\<lambda>_. (5, 9)" and start = None, OF demo_linked g(1) hyps g(2,3)]
  show ?thesis
    by (intro conjI always_finishes_weaken [OF conjunct1 [OF job]] always_finishes_weaken [OF conjunct1 [OF conjunct2 [OF job]]]
        always_finishes_weaken [OF conjunct1 [OF conjunct2 [OF conjunct2 [OF job]]]] always_finishes_weaken [OF conjunct2 [OF conjunct2 [OF conjunct2 [OF job]]]])
      (blast dest: fhd nhd)+
qed

text \<open>
  C15: histograms of face distances, end to end. Three linked parties hold shares of signed
  sixteen bit distances whose differences with the ascending thresholds fit in sixteen bits.
  All of them finish under any interleaving, without a panic, and each ends with one bucket for
  every pair of consecutive thresholds, counting the distances from the first, included, to
  the second, excluded; distances outside of all thresholds are in no bucket.
\<close>

theorem face_jobs_report_histograms:
  fixes S :: "PartyID \<Rightarrow> 'r session" and G :: "'r prf_rng"
  assumes "linked addr sid S" "int_sharing word_ring (\<lambda>_. True) uint job vs" "length vs + 64 \<le> MAX_LEN"
    and "\<forall>i. face_bucket_thresholds (config i) = ts" "sorted (map sint ts)" "length ts < MAX_LEN"
    and "\<forall>t \<in> set ts. \<forall>v \<in> set vs. - (2 ^ 15) \<le> v - sint t \<and> v - sint t < 2 ^ 15"
  shows "always_finishes addr (\<lambda>i. process_face_distance_job G (clock i) (job i) (config i) op start (S i))
      (\<lambda>r. (\<forall>i. buckets (fst (r i)) = map (\<lambda>k. \<lparr>bucket_count = length (filter (\<lambda>v. sint (ts ! k) \<le> v \<and> v < sint (ts ! (k + 1))) vs),
                hamming_distance_bucket = (Some (of_int (sint (ts ! k))), Some (of_int (sint (ts ! (k + 1)))))\<rparr>) [0..<length ts - 1]
              \<and> n_buckets (fst (r i)) = length ts \<and> match_distances_buffer_size (fst (r i)) = length vs)
         \<and> linked addr sid (\<lambda>i. snd (r i)))"
proof -
  have "face_ok ts vs" using assms(7) by (simp add: face_ok_def)
  then have job: "computes addr sid (\<lambda>i. process_face_distance_job G (clock i) (job i) (config i) op start) (\<lambda>x. \<forall>i. face_result (length vs) vs ts (config i) (x i))"
    using assms(4) by (intro computes_face_job [OF assms(2,3) _ assms(5) _ assms(6)]) simp_all
  from computes_always_finishes [OF job assms(1)] show ?thesis
    by (rule always_finishes_weaken) (simp add: face_result_def face_histogram_nth)
qed

definition demo_faces :: "int list \<Rightarrow> PartyID \<Rightarrow> u16 share list" where
  "demo_faces vs = deal (map (\<lambda>v. sh (of_int v) 3 (- 3)) vs)"

lemma demo_faces_sharing: "int_sharing word_ring (\<lambda>_. True) uint (demo_faces vs) vs"
proof -
  have len: "length (deal ts i) = length ts" for ts :: "u16 share3 list" and i by (simp add: deal_def)
  show ?thesis
    unfolding demo_faces_def
    by (auto intro!: word.int_sharingI simp: len col_deal word.opens_int_def sh_def share_new_def re_add_def uint_word_of_int)
qed

theorem face_jobs_report_histograms_witness:
  "always_finishes demo_addr (\<lambda>i. process_face_distance_job demo_rng (5, 6, 9) (demo_faces [- 20, - 10, 40, 0, 100] i)
        (demo_config (usize_from_party i)) None None (demo_session i))
      (\<lambda>r. \<forall>i. buckets (fst (r i)) = [\<lparr>bucket_count = 1, hamming_distance_bucket = (Some (- 10), Some 0)\<rparr>, \<lparr>bucket_count = 2, hamming_distance_bucket = (Some 0, Some 100)\<rparr>])"
proof -
  note job = face_jobs_report_histograms [where G = demo_rng and config = "\<lambda>i. demo_config (usize_from_party i)" and ts = "[- 10, 0, 100]" and vs = "[- 20, - 10, 40, 0, 100]"
      and clock = "\<lambda>_. (5, 6, 9)" and start = None and op = None, OF demo_linked demo_faces_sharing]
  show ?thesis
    by (rule always_finishes_weaken [OF job]) (simp_all add: MAX_LEN_def demo_config_def upt_rec)
qed

end
