(* ===== verification/Anon_Jobs_2D.thy ===== *)
theory Anon_Jobs_2D
  imports Anon_Jobs
begin

text \<open>
  Jobs of anonymous statistics in two dimensions (\<open>ampc-anon-stats/src/anon_stats/iris_2d.rs\<close>):
  the comparisons of the left and of the right eye are multiplied and summed locally, masked
  with shares of zero and opened; the opened counts become a histogram over pairs of buckets.
\<close>

section \<open>Sums of products\<close>

type_synonym DistanceBundle2D = "DistanceBundle1D \<times> DistanceBundle1D"
type_synonym LiftedDistanceBundle2D = "LiftedDistanceBundle1D \<times> LiftedDistanceBundle1D"
type_synonym LiftedU48DistanceBundle2D = "LiftedU48DistanceBundle1D \<times> LiftedU48DistanceBundle1D"

definition lift_bundles_2d :: "'r prf_rng \<Rightarrow> DistanceBundle2D list \<Rightarrow> ('r session, LiftedDistanceBundle2D list) comp" where
  "lift_bundles_2d G bundles =
     cbind (lift_bundles_1d G (map fst bundles)) (\<lambda>lifted_left.
     cbind (lift_bundles_1d G (map snd bundles)) (\<lambda>lifted_right. cret (zip lifted_left lifted_right)))"

text \<open>The loop that adds a share of zero to every bucket.\<close>

fun add_zero_shares :: "'r prf_rng \<Rightarrow> u32 RingElement list \<Rightarrow> ('r session, u32 RingElement list) comp" where
  "add_zero_shares G [] = cret []"
| "add_zero_shares G (bucket # bs) =
     cbind (gen_zero_share (net_u32 G)) (\<lambda>z. cbind (add_zero_shares G bs) (\<lambda>r. cret (re_add_assign word_ring bucket z # r)))"

text \<open>The assertion on the lengths of two chunks and an index out of range are panics.\<close>

definition product_sum :: "u32 share list \<Rightarrow> u32 share list \<Rightarrow> u32 RingElement option" where
  "product_sum left_chunk right_chunk =
     (if length left_chunk \<noteq> length right_chunk then None
      else Some (foldl (re_add word_ring) (RingElement 0) (map (\<lambda>(l, r). share_mul word_ring l r) (zip left_chunk right_chunk))))"

fun add_products :: "(u32 share list \<times> u32 share list) list \<Rightarrow> nat \<Rightarrow> u32 RingElement list \<Rightarrow> u32 RingElement list option" where
  "add_products [] bucket_ids bucket_shares = Some bucket_shares"
| "add_products ((left_chunk, right_chunk) # rest) bucket_ids bucket_shares =
     Option.bind (product_sum left_chunk right_chunk) (\<lambda>s.
       if bucket_ids < length bucket_shares
       then add_products rest (bucket_ids + 1) (bucket_shares[bucket_ids := re_add_assign word_ring (bucket_shares ! bucket_ids) s])
       else None)"

definition outer_products :: "nat \<Rightarrow> u32 share list \<Rightarrow> u32 share list \<Rightarrow> u32 RingElement list \<Rightarrow> u32 RingElement list option" where
  "outer_products job_size comparisons_left comparisons_right bucket_shares =
     (if job_size \<noteq> 0
      then add_products (List.product (chunks job_size comparisons_left) (chunks job_size comparisons_right)) 0 bucket_shares
      else Some bucket_shares)"

text \<open>The part the three versions of the source share, from the comparisons to the opened counts.\<close>

definition open_buckets_2d :: "'r prf_rng \<Rightarrow> nat \<Rightarrow> nat \<Rightarrow> u32 share list \<Rightarrow> u32 share list \<Rightarrow> ('r session, u32 list) comp" where
  "open_buckets_2d G job_size num_buckets comparisons_left comparisons_right =
     cbind (add_zero_shares G (replicate (num_buckets * num_buckets) (RingElement 0))) (\<lambda>bucket_shares.
     cbind (ctry (or_panic (outer_products job_size comparisons_left comparisons_right bucket_shares))) (\<lambda>bucket_shares.
       open_ring_element_broadcast (net_u32 G) bucket_shares))"

section \<open>Jobs\<close>

definition process_2d_inner :: "'r prf_rng \<Rightarrow> timestamp \<times> timestamp \<Rightarrow> nat \<Rightarrow> LiftedDistanceBundle1D list \<Rightarrow> LiftedDistanceBundle1D list
    \<Rightarrow> AnonStatsOrigin \<Rightarrow> AnonStatsServerConfig \<Rightarrow> AnonStatsOperation option \<Rightarrow> timestamp option \<Rightarrow> ('r session, BucketStatistics2D) comp" where
  "process_2d_inner G clock job_size lifted_left lifted_right origin config op start_timestamp =
     (let (num_buckets, upper_threshold) =
          (case op of Some Reauth \<Rightarrow> (n_buckets_2d_reauth config, MATCH_THRESHOLD_RATIO_REAUTH)
                    | _ \<Rightarrow> (n_buckets_2d config, MATCH_THRESHOLD_RATIO))
      in cbind (ctry (or_panic (calculate_iris_threshold_a num_buckets upper_threshold))) (\<lambda>translated_thresholds.
         cbind (reduce_to_min_distance_batch G lifted_left) (\<lambda>lifted_min_left.
         cbind (reduce_to_min_distance_batch G lifted_right) (\<lambda>lifted_min_right.
         cbind (compare_against_thresholds_batched G translated_thresholds lifted_min_left) (\<lambda>comparisons_left.
         cbind (compare_against_thresholds_batched G translated_thresholds lifted_min_right) (\<lambda>comparisons_right.
         cbind (open_buckets_2d G job_size num_buckets comparisons_left comparisons_right) (\<lambda>bs.
           let anon_stats = bucket_statistics2d_new (fst clock) job_size num_buckets (config_party_id config) FHD Aggregator op None None
           in cret (fill_buckets2d (snd clock) bs upper_threshold start_timestamp
                      (anon_stats\<lparr>is_mirror_orientation2d := (orientation origin = Mirror)\<rparr>)))))))))"

definition process_2d_anon_stats_job :: "'r prf_rng \<Rightarrow> timestamp \<times> timestamp \<Rightarrow> DistanceBundle2D AnonStatsMapping \<Rightarrow> AnonStatsOrigin
    \<Rightarrow> AnonStatsServerConfig \<Rightarrow> AnonStatsOperation option \<Rightarrow> timestamp option \<Rightarrow> ('r session, BucketStatistics2D) comp" where
  "process_2d_anon_stats_job G clock job origin config op start_timestamp =
     (let job_size = mapping_len job; job_data = into_bundles job
      in cbind (lift_bundles_1d G (map fst job_data)) (\<lambda>lifted_left.
         cbind (lift_bundles_1d G (map snd job_data)) (\<lambda>lifted_right.
           process_2d_inner G clock job_size lifted_left lifted_right origin config op start_timestamp)))"

definition process_2d_lifted_anon_stats_job :: "'r prf_rng \<Rightarrow> timestamp \<times> timestamp \<Rightarrow> LiftedDistanceBundle2D AnonStatsMapping \<Rightarrow> AnonStatsOrigin
    \<Rightarrow> AnonStatsServerConfig \<Rightarrow> AnonStatsOperation option \<Rightarrow> timestamp option \<Rightarrow> ('r session, BucketStatistics2D) comp" where
  "process_2d_lifted_anon_stats_job G clock job origin config op start_timestamp =
     (let job_size = mapping_len job; job_data = into_bundles job
      in process_2d_inner G clock job_size (map fst job_data) (map snd job_data) origin config op start_timestamp)"

definition process_2d_anon_stats_score_normalization_inner :: "'r prf_rng \<Rightarrow> timestamp \<times> timestamp \<Rightarrow> nat \<Rightarrow> LiftedU48DistanceBundle1D list
    \<Rightarrow> LiftedU48DistanceBundle1D list \<Rightarrow> AnonStatsOrigin \<Rightarrow> AnonStatsServerConfig \<Rightarrow> AnonStatsOperation option \<Rightarrow> timestamp option
    \<Rightarrow> ('r session, BucketStatistics2D) comp" where
  "process_2d_anon_stats_score_normalization_inner G clock job_size lifted_left lifted_right origin config op start_timestamp =
     (let (num_buckets, upper_threshold) =
          (case op of Some Reauth \<Rightarrow> (n_buckets_2d_reauth config, MATCH_THRESHOLD_RATIO_REAUTH)
                    | _ \<Rightarrow> (n_buckets_2d_nhd config, nhd_threshold_ratio config));
          translated_thresholds = calculate_iris_threshold_score_normalization num_buckets upper_threshold
      in cbind (nhd_reduce_to_min_distance_batch G lifted_left) (\<lambda>lifted_min_left.
         cbind (nhd_reduce_to_min_distance_batch G lifted_right) (\<lambda>lifted_min_right.
         cbind (nhd_compare_against_thresholds_batched G translated_thresholds lifted_min_left) (\<lambda>comparisons_left.
         cbind (nhd_compare_against_thresholds_batched G translated_thresholds lifted_min_right) (\<lambda>comparisons_right.
         cbind (open_buckets_2d G job_size num_buckets comparisons_left comparisons_right) (\<lambda>bs.
           let anon_stats = bucket_statistics2d_new (fst clock) job_size num_buckets (config_party_id config) NHD Aggregator op None None
           in cret (fill_buckets2d (snd clock) bs upper_threshold start_timestamp
                      (anon_stats\<lparr>is_mirror_orientation2d := (orientation origin = Mirror)\<rparr>))))))))"

definition process_2d_anon_stats_score_normalization_job :: "'r prf_rng \<Rightarrow> timestamp \<times> timestamp \<Rightarrow> DistanceBundle2D AnonStatsMapping
    \<Rightarrow> AnonStatsOrigin \<Rightarrow> AnonStatsServerConfig \<Rightarrow> AnonStatsOperation option \<Rightarrow> timestamp option \<Rightarrow> ('r session, BucketStatistics2D) comp" where
  "process_2d_anon_stats_score_normalization_job G clock job origin config op start_timestamp =
     (let job_size = mapping_len job; job_data = into_bundles job
      in cbind (lift_bundles_u48_1d G (map fst job_data)) (\<lambda>lifted_left.
         cbind (lift_bundles_u48_1d G (map snd job_data)) (\<lambda>lifted_right.
           process_2d_anon_stats_score_normalization_inner G clock job_size lifted_left lifted_right origin config op start_timestamp)))"

definition process_2d_lifted_anon_stats_score_normalization_job :: "'r prf_rng \<Rightarrow> timestamp \<times> timestamp \<Rightarrow> LiftedU48DistanceBundle2D AnonStatsMapping
    \<Rightarrow> AnonStatsOrigin \<Rightarrow> AnonStatsServerConfig \<Rightarrow> AnonStatsOperation option \<Rightarrow> timestamp option \<Rightarrow> ('r session, BucketStatistics2D) comp" where
  "process_2d_lifted_anon_stats_score_normalization_job G clock job origin config op start_timestamp =
     (let job_size = mapping_len job; job_data = into_bundles job
      in process_2d_anon_stats_score_normalization_inner G clock job_size (map fst job_data) (map snd job_data) origin config op start_timestamp)"

text \<open>Similarity scores of both eyes.\<close>

fun di_threshold_loop :: "'r prf_rng \<Rightarrow> u16 share list \<Rightarrow> 16 word list \<Rightarrow> u32 share list \<Rightarrow> ('r session, u32 share list) comp" where
  "di_threshold_loop G distances [] comparisons = cret comparisons"
| "di_threshold_loop G distances (threshold # thresholds) comparisons =
     cbind (sub_pub_all word_ring (RingElement threshold) distances) (\<lambda>shifted.
     cbind (msb16 G shifted) (\<lambda>bits.
     cbind (bit_inject (net_u32 G) (new_vec bits)) (\<lambda>injected.
       di_threshold_loop G distances thresholds (comparisons @ vs_inner injected))))"

definition compare_against_thresholds_di :: "'r prf_rng \<Rightarrow> 16 word list \<Rightarrow> u16 share list \<Rightarrow> ('r session, u32 share list) comp" where
  "compare_against_thresholds_di G thresholds distances = di_threshold_loop G distances thresholds []"

definition process_di_2d_anon_stats_job :: "'r prf_rng \<Rightarrow> timestamp \<times> timestamp \<Rightarrow> (u16 share \<times> u16 share) AnonStatsMapping \<Rightarrow> AnonStatsOrigin
    \<Rightarrow> AnonStatsServerConfig \<Rightarrow> AnonStatsOperation option \<Rightarrow> timestamp option \<Rightarrow> 8 word \<Rightarrow> bool \<Rightarrow> bool \<Rightarrow> ('r session, BucketStatistics2D) comp" where
  "process_di_2d_anon_stats_job G clock job origin config op start_timestamp rate left_opposite_mirror right_opposite_mirror =
     (let thresholds = di_2d_bucket_thresholds config; n = length thresholds; job_size = mapping_len job; job_data = into_bundles job
      in cbind (compare_against_thresholds_di G thresholds (map fst job_data)) (\<lambda>comparisons_left.
         cbind (compare_against_thresholds_di G thresholds (map snd job_data)) (\<lambda>comparisons_right.
         cbind (open_buckets_2d G job_size n comparisons_left comparisons_right) (\<lambda>bs.
           let anon_stats = bucket_statistics2d_new (fst clock) job_size (length thresholds) (config_party_id config) QuantizedCosine Aggregator op
                 (Some left_opposite_mirror) (Some right_opposite_mirror)
           in cret (fill_buckets_di (snd clock) bs thresholds start_timestamp
                      (anon_stats\<lparr>is_mirror_orientation2d := (orientation origin = Mirror), sampling_rate := Some rate\<rparr>))))))"

section \<open>Shares of zero and sums of products\<close>

lemma computes_add_zero_shares:
  "computes addr sid (\<lambda>i. add_zero_shares G (replicate n (RingElement 0)))
    (\<lambda>r. (\<forall>i. length (r i) = n) \<and> (\<forall>k < n. word.sums_int (r ID0 ! k, r ID1 ! k, r ID2 ! k) 0))"
proof (induction n)
  case 0
  show ?case by (simp add: computes_cret)
next
  case (Suc n)
  have zero: "word.sums_int (re_sub word_ring (x ID0) (x (prev_id ID0)), re_sub word_ring (x ID1) (x (prev_id ID1)), re_sub word_ring (x ID2) (x (prev_id ID2))) 0"
    for x :: "PartyID \<Rightarrow> u32 RingElement" by (simp add: word.sums_int_def re_sub_def re_add_def)
  have add: "re_add_assign word_ring (RingElement 0) e = e" for e :: "u32 RingElement" by (simp add: re_add_assign_def wrapping_add_assign_def)
  have tail: "computes addr sid (\<lambda>i. cbind (add_zero_shares G (replicate n (RingElement 0))) (\<lambda>r. cret (z i # r)))
      (\<lambda>r. (\<forall>i. length (r i) = Suc n) \<and> (\<forall>k < Suc n. word.sums_int (r ID0 ! k, r ID1 ! k, r ID2 ! k) 0))"
    if z: "word.sums_int (z ID0, z ID1, z ID2) 0" for z :: "PartyID \<Rightarrow> u32 RingElement"
    by (rule computes_cbind [OF Suc.IH], rule computes_cret) (use z in \<open>auto simp: nth_Cons split: nat.split\<close>)
  show ?case
    unfolding replicate_Suc add_zero_shares.simps gen_zero_share_def gen_rands_def cbind_assoc cbind_cret case_prod_conv add ni_ring_simps
    by (rule computes_draws, rule tail [OF zero])
qed

context int_ring2k_laws
begin

lemma sums_add:
  assumes "sums_int (x, y, z) u" "sums_int (x', y', z') v"
  shows "sums_int (re_add R x x', re_add R y y', re_add R z z') (u + v)"
proof -
  have w: "wf (convert x)" "wf (convert y)" "wf (convert z)" "wf (convert x')" "wf (convert y')" "wf (convert z')"
    using assms by (simp_all add: sums_int_def)
  have "val (convert (sum3 R (re_add R x x', re_add R y y', re_add R z z'))) = (val (convert (sum3 R (x, y, z))) + val (convert (sum3 R (x', y', z')))) mod 2 ^ ring_K R"
    using w by (simp add: re_defs wf_intros val_arith mod_simps) (simp add: algebra_simps)
  with assms w show ?thesis by (simp add: sums_int_def mod_simps re_defs wf_intros del: sum3.simps)
qed

lemma sums_foldl:
  "sums_int (a, b, c) u \<Longrightarrow> (\<And>i. length (p i) = length vs) \<Longrightarrow> (\<And>k. k < length vs \<Longrightarrow> sums_int (p ID0 ! k, p ID1 ! k, p ID2 ! k) (vs ! k)) \<Longrightarrow>
    sums_int (foldl (re_add R) a (p ID0), foldl (re_add R) b (p ID1), foldl (re_add R) c (p ID2)) (u + sum_list vs)"
proof (induction vs arbitrary: p a b c u)
  case (Cons v vs)
  have p: "p i = p i ! 0 # tl (p i)" for i using Cons.prems(2) [of i] by (cases "p i") simp_all
  have "sums_int (tl (p ID0) ! k, tl (p ID1) ! k, tl (p ID2) ! k) (vs ! k)" if "k < length vs" for k
    using Cons.prems(3) [of "Suc k"] that Cons.prems(2) by (simp add: nth_tl)
  from Cons.IH [OF sums_add [OF Cons.prems(1) Cons.prems(3) [of 0, simplified]], of "\<lambda>i. tl (p i)", OF _ this] Cons.prems(2)
  show ?case by (subst (1 2 3) p) (simp add: add.assoc)
qed simp

end

definition row_products :: "u32 share list \<Rightarrow> u32 share list \<Rightarrow> u32 RingElement" where
  "row_products l r = foldl (re_add word_ring) (RingElement 0) (map (\<lambda>(l, r). share_mul word_ring l r) (zip l r))"

lemma add_products_eq:
  assumes "length ps = length bs" "\<forall>(l, r) \<in> set ps. length l = length r"
  shows "add_products ps (length pre) (pre @ bs) = Some (pre @ map2 (\<lambda>b (l, r). re_add word_ring b (row_products l r)) bs ps)"
  using assms
proof (induction ps arbitrary: pre bs)
  case (Cons p ps)
  obtain l r where p: "p = (l, r)" by (cases p)
  obtain b cs where bs: "bs = b # cs" using Cons.prems(1) by (cases bs) simp_all
  have s: "product_sum l r = Some (row_products l r)" using Cons.prems(2) p by (simp add: product_sum_def row_products_def)
  have a: "re_add_assign word_ring b e = re_add word_ring b e" for e by (simp add: re_add_assign_def re_add_def wrapping_add_assign_def)
  from Cons.IH [of cs "pre @ [re_add word_ring b (row_products l r)]"] Cons.prems
  show ?case by (simp add: p bs s a nth_append list_update_append)
qed simp

lemma row_products_sharing:
  assumes l: "int_sharing word_ring (\<lambda>_. True) uint l us" and r: "int_sharing word_ring (\<lambda>_. True) uint r vs" and len: "length us = length vs"
  shows "word.sums_int (row_products (l ID0) (r ID0), row_products (l ID1) (r ID1), row_products (l ID2) (r ID2)) (\<Sum>(u, v) \<leftarrow> zip us vs. u * v)"
proof -
  let ?p = "\<lambda>i. map (\<lambda>(l, r). share_mul word_ring l r) (zip (l i) (r i))" and ?vs = "map (\<lambda>(u, v). u * v) (zip us vs)"
  have ll: "length (l i) = length vs" "length (r i) = length vs" for i using int_sharing_length [OF l] int_sharing_length [OF r] len by simp_all
  have zero: "word.sums_int (RingElement 0, RingElement 0, RingElement 0 :: u32 RingElement) 0" by (simp add: word.sums_int_def re_add_def)
  have "word.sums_int (?p ID0 ! k, ?p ID1 ! k, ?p ID2 ! k) (?vs ! k)" if "k < length ?vs" for k
    using word.sums_product [OF word.int_sharing_nth [OF l, of k] word.int_sharing_nth [OF r, of k]] that len ll by (simp add: col_def)
  from word.sums_foldl [OF zero, of ?p ?vs, OF _ this] ll len show ?thesis by (simp add: row_products_def)
qed

text \<open>Column \<open>x\<close> of chunk \<open>a\<close>.\<close>

lemma below_upt_chunk:
  assumes "a < m"
  shows "take (length us) (drop (a * length us) (below [0..<m] P us)) = map (P a) us"
proof (rule nth_equalityI)
  let ?n = "length us"
  have bound: "a * ?n + ?n \<le> m * ?n" using assms by (metis Suc_leI add.commute mult_Suc mult_le_mono1)
  then show "length (take ?n (drop (a * ?n) (below [0..<m] P us))) = length (map (P a) us)" by (simp add: length_below)
  fix x assume "x < length (take ?n (drop (a * ?n) (below [0..<m] P us)))"
  then have x: "x < ?n" by simp
  have "below [0..<m] P us ! (a * ?n + x) = map (P ([0..<m] ! ((a * ?n + x) div ?n))) us ! ((a * ?n + x) mod ?n)"
    unfolding below_def by (rule nth_concat_equal) (use x bound in auto)
  moreover have "(a * n + x) div n = a" "(a * n + x) mod n = x" if "x < n" for n using that by simp_all
  ultimately show "take ?n (drop (a * ?n) (below [0..<m] P us)) ! x = map (P a) us ! x" using x bound assms by (simp add: length_below del: length_0_conv)
qed

lemma int_sharing_slice:
  assumes "int_sharing word_ring (\<lambda>_. True) uint r vs" "k + n \<le> length vs"
  shows "int_sharing word_ring (\<lambda>_. True) uint (\<lambda>i. take n (drop k (r i)) :: u32 share list) (take n (drop k vs))"
proof -
  have "vs = take k vs @ take n (drop k vs) @ drop n (drop k vs)" by (simp only: append_take_drop_id)
  with assms(1) have "int_sharing word_ring (\<lambda>_. True) uint r (take k vs @ take n (drop k vs) @ drop n (drop k vs))" by metis
  from word.int_sharing_split(1) [OF word.int_sharing_split(2) [OF this]] assms(2) show ?thesis by (simp add: min_absorb2)
qed

lemma sum_of_products: "length us = length vs \<Longrightarrow>
    (\<Sum>(u, v) \<leftarrow> zip (map of_bool (map P us)) (map of_bool (map Q vs)). u * v) = int (length (filter (\<lambda>(u, v). P u \<and> Q v) (zip us vs)))"
  by (induction us vs rule: list_induct2) simp_all

definition cross_count :: "(nat \<Rightarrow> 'x \<Rightarrow> bool) \<Rightarrow> (nat \<Rightarrow> 'y \<Rightarrow> bool) \<Rightarrow> ('x \<times> 'y) list \<Rightarrow> nat \<Rightarrow> nat \<Rightarrow> nat" where
  "cross_count P Q ps a b = length (filter (\<lambda>(u, v). P a u \<and> Q b v) ps)"

lemma bucket_index: "a < m \<Longrightarrow> b < m \<Longrightarrow> a * m + b < m * (m :: nat)"
proof -
  assume a: "a < m" "b < m"
  then have "a * m + b < Suc a * m" by simp
  also have "\<dots> \<le> m * m" using a by (intro mult_le_mono1) simp
  finally show ?thesis .
qed

lemma outer_products_sharing:
  assumes L: "int_sharing word_ring (\<lambda>_. True) uint L (map of_bool (below [0..<m] P us))"
    and R: "int_sharing word_ring (\<lambda>_. True) uint R (map of_bool (below [0..<m] Q vs))"
    and len: "length us = length vs" and r: "\<And>i. length (r i) = m * m" "\<And>k. k < m * m \<Longrightarrow> word.sums_int (r ID0 ! k, r ID1 ! k, r ID2 ! k) 0"
  shows "\<exists>e. (\<forall>i. outer_products (length vs) (L i) (R i) (r i) = Some (e i) \<and> length (e i) = m * m)
    \<and> (\<forall>a < m. \<forall>b < m. word.sums_int (e ID0 ! (a * m + b), e ID1 ! (a * m + b), e ID2 ! (a * m + b)) (int (cross_count P Q (zip us vs) a b)))"
proof (cases "length vs = 0")
  case True
  then show ?thesis using r len bucket_index by (intro exI [of _ r]) (simp add: outer_products_def cross_count_def)
next
  case False
  let ?n = "length vs"
  let ?ps = "\<lambda>i. List.product (chunks ?n (L i)) (chunks ?n (R i))"
  let ?e = "\<lambda>i. map2 (\<lambda>b (l, r). re_add word_ring b (row_products l r)) (r i) (?ps i)"
  have n: "0 < ?n" using False by simp
  have lens: "length (L i) = ?n * m" "length (R i) = ?n * m" for i
    using int_sharing_length [OF L] int_sharing_length [OF R] len by (simp_all add: length_below)
  note cl = chunks_nth [OF n lens(1)] and cr = chunks_nth [OF n lens(2)]
  have lp: "length (?ps i) = m * m" for i by (simp add: cl cr)
  have full: "min (?n * m - a * ?n) ?n = ?n" if "a < m" for a
  proof -
    have "a * ?n + ?n \<le> m * ?n" using that by (metis Suc_leI add.commute mult_Suc mult_le_mono1)
    then show ?thesis by (simp add: mult.commute)
  qed
  have "\<forall>(l, r) \<in> set (?ps i). length l = length r" for i
    using full lens by (auto simp: in_set_conv_nth cl cr)
  then have "add_products (?ps i) 0 (r i) = Some (?e i)" for i using add_products_eq [of "?ps i" "r i" "[]"] lp r(1) by simp
  then have eq: "outer_products ?n (L i) (R i) (r i) = Some (?e i)" for i using False by (simp add: outer_products_def)
  have "word.sums_int (?e ID0 ! (a * m + b), ?e ID1 ! (a * m + b), ?e ID2 ! (a * m + b)) (int (cross_count P Q (zip us vs) a b))" if ab: "a < m" "b < m" for a b
  proof -
    have idx: "a * m + b < m * m" "(a * m + b) div m = a" "(a * m + b) mod m = b" using ab bucket_index by simp_all
    have p: "?ps i ! (a * m + b) = (take ?n (drop (a * ?n) (L i)), take ?n (drop (b * ?n) (R i)))" for i
      using idx ab by (simp add: product_nth cl cr)
    have nth: "?e i ! (a * m + b) = re_add word_ring (r i ! (a * m + b)) (row_products (take ?n (drop (a * ?n) (L i))) (take ?n (drop (b * ?n) (R i))))" for i
      using idx(1) r(1) lp p by simp
    have bound: "c * ?n + ?n \<le> m * ?n" if "c < m" for c using that by (metis Suc_leI add.commute mult_Suc mult_le_mono1)
    have l: "int_sharing word_ring (\<lambda>_. True) uint (\<lambda>i. take ?n (drop (a * ?n) (L i))) (map of_bool (map (P a) us))"
      using int_sharing_slice [OF L, of "a * ?n" ?n] bound [OF ab(1)] below_upt_chunk [OF ab(1), of us P] len by (simp add: length_below drop_map take_map)
    have rr: "int_sharing word_ring (\<lambda>_. True) uint (\<lambda>i. take ?n (drop (b * ?n) (R i))) (map of_bool (map (Q b) vs))"
      using int_sharing_slice [OF R, of "b * ?n" ?n] bound [OF ab(2)] below_upt_chunk [OF ab(2), of vs Q] by (simp add: length_below drop_map take_map)
    have "length (map of_bool (map (P a) us) :: int list) = length (map of_bool (map (Q b) vs) :: int list)" using len by simp
    from word.sums_add [OF r(2) [OF idx(1)] row_products_sharing [OF l rr this]]
    show ?thesis unfolding nth cross_count_def using sum_of_products [OF len, of "P a" "Q b"] by (simp del: map_map)
  qed
  with eq lp r(1) show ?thesis by (intro exI [of _ ?e]) simp
qed

lemma computes_open_buckets_2d:
  assumes L: "int_sharing word_ring (\<lambda>_. True) uint L (map of_bool (below [0..<m] P us))"
    and R: "int_sharing word_ring (\<lambda>_. True) uint R (map of_bool (below [0..<m] Q vs))"
    and len: "length us = length vs" "length vs < 2 ^ 32" "m * m < MAX_LEN"
  shows "computes addr sid (\<lambda>i. open_buckets_2d G (length vs) m (L i) (R i))
    (\<lambda>y. \<forall>i. \<forall>a < m. \<forall>b < m. get_or_zero (y i) (a * m + b) = int (cross_count P Q (zip us vs) a b))"
  unfolding open_buckets_2d_def
proof (rule computes_cbind [OF computes_add_zero_shares])
  fix r :: "PartyID \<Rightarrow> u32 RingElement list" assume r: "(\<forall>i. length (r i) = m * m) \<and> (\<forall>k < m * m. word.sums_int (r ID0 ! k, r ID1 ! k, r ID2 ! k) 0)"
  obtain e where e: "\<And>i. outer_products (length vs) (L i) (R i) (r i) = Some (e i)" "\<And>i. length (e i) = m * m"
    and sums: "\<And>a b. a < m \<Longrightarrow> b < m \<Longrightarrow> word.sums_int (e ID0 ! (a * m + b), e ID1 ! (a * m + b), e ID2 ! (a * m + b)) (int (cross_count P Q (zip us vs) a b))"
    using outer_products_sharing [OF L R len(1), of r] r by blast
  have small: "cross_count P Q (zip us vs) a b < 2 ^ 32" for a b
    unfolding cross_count_def by (rule le_less_trans [OF length_filter_le]) (use len in simp)
  have "computes addr sid (\<lambda>i. open_ring_element_broadcast (net_u32 G) (e i))
      (\<lambda>y. \<forall>i. y i = map (\<lambda>k. convert (sum3 word_ring (e ID0 ! k, e ID1 ! k, e ID2 ! k))) [0..<m * m])"
    using net32.computes_open_broadcast [where x = e and n = "m * m" and G = G] e(2) len(3) by simp
  then have "computes addr sid (\<lambda>i. open_ring_element_broadcast (net_u32 G) (e i))
      (\<lambda>y. \<forall>i. \<forall>a < m. \<forall>b < m. get_or_zero (y i) (a * m + b) = int (cross_count P Q (zip us vs) a b))"
  proof (rule computes_weaken)
    fix y :: "PartyID \<Rightarrow> u32 list" assume y: "\<forall>i. y i = map (\<lambda>k. convert (sum3 word_ring (e ID0 ! k, e ID1 ! k, e ID2 ! k))) [0..<m * m]"
    have "get_or_zero (y i) (a * m + b) = int (cross_count P Q (zip us vs) a b)" if ab: "a < m" "b < m" for i a b
    proof -
      let ?k = "a * m + b" and ?c = "int (cross_count P Q (zip us vs) a b)"
      have "?c < 2 ^ 32" using small [of a b] by simp
      then have "?c mod 2 ^ 32 = ?c" by (intro mod_pos_pos_trivial) simp_all
      moreover have "uint (convert (sum3 word_ring (e ID0 ! ?k, e ID1 ! ?k, e ID2 ! ?k))) = ?c mod 2 ^ 32"
        using sums [OF ab] by (simp add: word.sums_int_def del: sum3.simps)
      ultimately show ?thesis using bucket_index [OF ab] y by (simp add: get_or_zero_def del: sum3.simps)
    qed
    then show "\<forall>i. \<forall>a < m. \<forall>b < m. get_or_zero (y i) (a * m + b) = int (cross_count P Q (zip us vs) a b)" by blast
  qed
  then show "computes addr sid (\<lambda>i. cbind (ctry (or_panic (outer_products (length vs) (L i) (R i) (r i)))) (\<lambda>bs. open_ring_element_broadcast (net_u32 G) bs))
      (\<lambda>y. \<forall>i. \<forall>a < m. \<forall>b < m. get_or_zero (y i) (a * m + b) = int (cross_count P Q (zip us vs) a b))"
    unfolding e(1) by simp
qed

section \<open>Histograms of pairs\<close>

lemma cross_count_cumulative:
  assumes "\<And>k x. P k x \<Longrightarrow> P (Suc k) x" "\<And>k x. Q k x \<Longrightarrow> Q (Suc k) x"
  shows "int (cross_count P Q ps a b) = (\<Sum>c\<le>a. \<Sum>d\<le>b. int (cross_count (first_at P) (first_at Q) ps c d))"
proof -
  let ?P = "\<lambda>k p. P k (fst p)" and ?Q = "\<lambda>k p. Q k (snd p)"
  have f: "first_at ?P c p \<and> first_at ?Q d p \<longleftrightarrow> (case p of (u, v) \<Rightarrow> first_at P c u \<and> first_at Q d v)" for c d p
    by (simp add: first_at_def split: prod.split)
  have g: "?P a p \<and> ?Q b p \<longleftrightarrow> (case p of (u, v) \<Rightarrow> P a u \<and> Q b v)" for p by (simp split: prod.split)
  have "(\<Sum>c\<le>a. \<Sum>d\<le>b. length (filter (\<lambda>p. first_at ?P c p \<and> first_at ?Q d p) ps)) = length (filter (\<lambda>p. ?P a p \<and> ?Q b p) ps)"
    by (rule cumulative_counts2) (use assms in auto)
  then show ?thesis unfolding f g cross_count_def by (simp flip: of_nat_sum)
qed

text \<open>What every party ends with: the cells that are not empty, row by row.\<close>

definition job_result_2d :: "nat \<Rightarrow> nat \<Rightarrow> (nat \<Rightarrow> f64 option \<times> f64 option) \<Rightarrow> (nat \<Rightarrow> nat \<Rightarrow> nat) \<Rightarrow> AnonStatsServerConfig \<Rightarrow> BucketStatistics2D \<Rightarrow> bool" where
  "job_result_2d job_size n limits H config s \<longleftrightarrow>
     buckets2d s = map (\<lambda>(i, j). \<lparr>bucket2d_count = H i j, left_hamming_distance_bucket = limits i, right_hamming_distance_bucket = limits j\<rparr>)
       (filter (\<lambda>(i, j). 0 < H i j) (List.product [0..<n] [0..<n]))
     \<and> n_buckets_per_side s = n \<and> match_distances_buffer_size2d s = job_size \<and> party_id2d s = config_party_id config"

definition even_limits :: "nat \<Rightarrow> f64 \<Rightarrow> nat \<Rightarrow> f64 option \<times> f64 option" where
  "even_limits n ratio k = (boundary (f64_quot ratio n) k, boundary (f64_quot ratio n) (k + 1))"

lemma computes_cross_histogram:
  fixes config :: "PartyID \<Rightarrow> AnonStatsServerConfig"
  assumes L: "int_sharing word_ring (\<lambda>_. True) uint L (map of_bool (below [0..<m] P us))"
    and R: "int_sharing word_ring (\<lambda>_. True) uint R (map of_bool (below [0..<m] Q vs))"
    and len: "length us = length vs" "length vs < 2 ^ 32" "m * m < MAX_LEN" "length vs = job_size"
    and mono: "\<And>k x. P' k x \<Longrightarrow> P' (Suc k) x" "\<And>k x. Q' k x \<Longrightarrow> Q' (Suc k) x"
    and same: "\<And>a b. a < m \<Longrightarrow> b < m \<Longrightarrow> cross_count P Q (zip us vs) a b = cross_count P' Q' ps a b"
    and fill: "\<And>i bs. buckets2d (F i bs) = cells2d bs m limits" "\<And>i bs. n_buckets_per_side (F i bs) = m"
      "\<And>i bs. match_distances_buffer_size2d (F i bs) = job_size" "\<And>i bs. party_id2d (F i bs) = config_party_id (config i)"
  shows "computes addr sid (\<lambda>i. cbind (open_buckets_2d G job_size m (L i) (R i)) (\<lambda>bs. cret (F i bs)))
    (\<lambda>x. \<forall>i. job_result_2d job_size m limits (cross_count (first_at P') (first_at Q') ps) (config i) (x i))"
proof (rule computes_cbind [OF computes_open_buckets_2d [OF L R len(1-3), unfolded len(4)]], rule computes_cret, rule allI)
  fix y :: "PartyID \<Rightarrow> u32 list" and i
  assume "\<forall>i. \<forall>a < m. \<forall>b < m. get_or_zero (y i) (a * m + b) = int (cross_count P Q (zip us vs) a b)"
  then have "get_or_zero (y i) (a * m + b) = (\<Sum>c\<le>a. \<Sum>d\<le>b. int (cross_count (first_at P') (first_at Q') ps c d))" if "a < m" "b < m" for a b
    using that same cross_count_cumulative [of P' Q', OF mono] by simp
  from cells2d_eq [of m "y i" "cross_count (first_at P') (first_at Q') ps", OF this] fill
  show "job_result_2d job_size m limits (cross_count (first_at P') (first_at Q') ps) (config i) (F i (y i))" by (simp add: job_result_2d_def)
qed

text \<open>Minima decide in place of their groups.\<close>

definition decides :: "('x \<Rightarrow> rat) \<Rightarrow> 'x list list \<Rightarrow> 'x list \<Rightarrow> bool" where
  "decides f gs ws \<longleftrightarrow> length ws = length gs \<and> (\<forall>k < length gs. ws ! k \<in> set (gs ! k) \<and> (\<forall>x \<in> set (gs ! k). f (ws ! k) \<le> f x))"

lemma decides_iff:
  assumes "decides f gs ws" "k < length gs"
  shows "f (ws ! k) < c \<longleftrightarrow> (\<exists>x \<in> set (gs ! k). f x < c)" "f (ws ! k) \<le> c \<longleftrightarrow> (\<exists>x \<in> set (gs ! k). f x \<le> c)"
  using assms unfolding decides_def by (meson order.strict_trans1, meson order_trans)

lemma decides_in: "decides f gs ws \<Longrightarrow> (\<forall>g \<in> set gs. g \<noteq> [] \<and> (\<forall>x \<in> set g. ok x)) \<Longrightarrow> x \<in> set ws \<Longrightarrow> ok x"
  unfolding decides_def by (metis in_set_conv_nth nth_mem)

lemma cross_count_decides:
  assumes "length us = length ls" "length vs = length rs" "length ls = length rs"
    and "\<And>k. k < length ls \<Longrightarrow> P a (us ! k) \<longleftrightarrow> P' a (ls ! k)" "\<And>k. k < length rs \<Longrightarrow> Q b (vs ! k) \<longleftrightarrow> Q' b (rs ! k)"
  shows "cross_count P Q (zip us vs) a b = cross_count P' Q' (zip ls rs) a b"
  unfolding cross_count_def by (rule count_cong) (use assms in \<open>auto intro!: nth_equalityI\<close>)

lemma below_map: "below (map f ts) P xs = below ts (\<lambda>t. P (f t)) xs"
  by (simp add: below_def comp_def)

lemma computes_fhd_minima:
  assumes "group_sharing word_ring (\<lambda>_. True) uint D gs" "2 * length gs + 64 \<le> MAX_LEN" "\<forall>g \<in> set gs. g \<noteq> [] \<and> (\<forall>x \<in> set g. dot_range x \<and> snd x < 2 ^ 14)"
  shows "computes addr sid (\<lambda>i. reduce_to_min_distance_batch G (D i)) (\<lambda>d. \<exists>ws. decides fhd gs ws \<and> dist_int_sharing word_ring (\<lambda>_. True) uint d ws)"
  using fhd_min.computes_reduce [OF assms(1,2), where G = G] assms(3)
  unfolding reduce_to_min_distance_batch_def decides_def fhd_min.minimal_def by (fastforce simp: dot_range_def fhd_range_def)

lemma computes_nhd_minima:
  assumes "group_sharing ring48_ring wf48 val48 D gs" "2 * length gs + 64 \<le> MAX_LEN" "\<forall>g \<in> set gs. g \<noteq> [] \<and> (\<forall>x \<in> set g. dot_range x)"
  shows "computes addr sid (\<lambda>i. nhd_reduce_to_min_distance_batch G (D i)) (\<lambda>d. \<exists>ws. decides nhd gs ws \<and> dist_int_sharing ring48_ring wf48 val48 d ws)"
  using nhd_min.computes_reduce [OF assms, where G = G]
  unfolding nhd_reduce_to_min_distance_batch_def decides_def nhd_min.minimal_def by simp

section \<open>Histograms of pairs of minima\<close>

definition params_2d :: "AnonStatsOperation option \<Rightarrow> AnonStatsServerConfig \<Rightarrow> nat \<times> f64" where
  "params_2d op config = (case op of Some Reauth \<Rightarrow> (n_buckets_2d_reauth config, MATCH_THRESHOLD_RATIO_REAUTH) | _ \<Rightarrow> (n_buckets_2d config, MATCH_THRESHOLD_RATIO))"

definition params_2d_nhd :: "AnonStatsOperation option \<Rightarrow> AnonStatsServerConfig \<Rightarrow> nat \<times> f64" where
  "params_2d_nhd op config = (case op of Some Reauth \<Rightarrow> (n_buckets_2d_reauth config, MATCH_THRESHOLD_RATIO_REAUTH) | _ \<Rightarrow> (n_buckets_2d_nhd config, nhd_threshold_ratio config))"

lemma params_2d_ratio: "params_2d op config = (n, ratio) \<Longrightarrow> 1 / 2 ^ 100 \<le> ratio \<and> ratio \<le> 1 / 2"
  by (auto simp: params_2d_def MATCH_THRESHOLD_RATIO_def MATCH_THRESHOLD_RATIO_REAUTH_def split: option.splits AnonStatsOperation.splits)

text \<open>The sizes of a job that fit: the rows, the comparisons and the cells.\<close>

definition job_fits :: "nat \<Rightarrow> nat \<Rightarrow> bool" where
  "job_fits n rows \<longleftrightarrow> 0 < n \<and> n * n < MAX_LEN \<and> n * rows + 64 \<le> MAX_LEN \<and> 2 * rows + 64 \<le> MAX_LEN"

lemma job_fits_bounds: "job_fits n rows \<Longrightarrow> 0 < n \<and> n < 2 ^ 53 \<and> n * n < MAX_LEN \<and> n * rows + 64 \<le> MAX_LEN \<and> 2 * rows + 64 \<le> MAX_LEN \<and> rows + 64 \<le> MAX_LEN \<and> rows < 2 ^ 32"
proof -
  assume f: "job_fits n rows"
  have "n * 1 \<le> n * n" using f unfolding job_fits_def by (intro mult_le_mono2) linarith
  then have "n < MAX_LEN" using f unfolding job_fits_def by linarith
  then show ?thesis using f by (simp add: job_fits_def MAX_LEN_def)
qed

lemma upt_shift: "map f [1..<n + 1] = map (\<lambda>k. f (k + 1)) [0..<n]"
  by (intro nth_equalityI) (simp_all del: upt_Suc)

lemma computes_process_2d_inner:
  fixes config :: "PartyID \<Rightarrow> AnonStatsServerConfig"
  assumes D: "group_sharing word_ring (\<lambda>_. True) uint D ls" "group_sharing word_ring (\<lambda>_. True) uint E rs" and len: "length ls = length rs" "length rs = job_size"
    and ok: "\<forall>g \<in> set ls. g \<noteq> [] \<and> (\<forall>x \<in> set g. dot_range x \<and> snd x < 2 ^ 14)" "\<forall>g \<in> set rs. g \<noteq> [] \<and> (\<forall>x \<in> set g. dot_range x \<and> snd x < 2 ^ 14)"
    and c: "\<And>i. params_2d op (config i) = (n, ratio)" and n: "job_fits n job_size"
  shows "computes addr sid (\<lambda>i. process_2d_inner G (clock i) job_size (D i) (E i) origin (config i) op start)
    (\<lambda>x. \<forall>i. job_result_2d job_size n (even_limits n ratio) (cross_count (first_at (within_fhd n ratio)) (first_at (within_fhd n ratio)) (zip ls rs)) (config i) (x i))"
proof -
  note b = job_fits_bounds [OF n]
  have ratio: "1 / 2 ^ 100 \<le> ratio" "ratio \<le> 1 / 2" using params_2d_ratio [OF c] by simp_all
  have r0: "0 \<le> ratio" using ratio(1) by (meson order_trans zero_le_divide_1_iff zero_le_numeral zero_le_power)
  have n0: "0 < n" "n < 2 ^ 53" using b by simp_all
  let ?a = "\<lambda>k. factor_of (spaced n ratio (k + 1))" and ?P = "\<lambda>k x. fhd x < fhd_limit (factor_of (spaced n ratio (k + 1)))"
  let ?F = "\<lambda>i bs. fill_buckets2d (snd (clock i)) bs ratio start
    ((bucket_statistics2d_new (fst (clock i)) job_size n (config_party_id (config i)) FHD Aggregator op None None)\<lparr>is_mirror_orientation2d := (orientation origin = Mirror)\<rparr>)"
  have th: "calculate_iris_threshold_a n ratio = Some (map ?a [0..<n])"
    using calculate_thresholds(1) [OF ratio n0] unfolding upt_shift .
  have bound: "uint x \<le> 2 ^ 16" if "x \<in> set (map ?a [0..<n])" for x
    using that factor_bound spaced_range [OF ratio n0] by auto
  have inner: "process_2d_inner G (clock i) job_size (D i) (E i) origin (config i) op start =
      cbind (reduce_to_min_distance_batch G (D i)) (\<lambda>l. cbind (reduce_to_min_distance_batch G (E i)) (\<lambda>r.
      cbind (compare_against_thresholds_batched G (map ?a [0..<n]) l) (\<lambda>cl. cbind (compare_against_thresholds_batched G (map ?a [0..<n]) r) (\<lambda>cr.
      cbind (open_buckets_2d G job_size n cl cr) (\<lambda>bs. cret (?F i bs))))))" for i
    using c [of i] unfolding process_2d_inner_def params_2d_def [symmetric] by (simp add: Let_def th)
  have compare: "computes addr sid (\<lambda>i. compare_against_thresholds_batched G (map ?a [0..<n]) (d i))
      (\<lambda>r. int_sharing word_ring (\<lambda>_. True) uint r (map of_bool (below [0..<n] ?P ws)))"
    if ws: "decides fhd gs ws \<and> dist_int_sharing word_ring (\<lambda>_. True) uint d ws" "length gs = job_size" "\<forall>g \<in> set gs. g \<noteq> [] \<and> (\<forall>x \<in> set g. dot_range x \<and> snd x < 2 ^ 14)" for d gs ws
  proof -
    have "dot_range x \<and> snd x < 2 ^ 14" if "x \<in> set ws" for x using decides_in [OF conjunct1 [OF ws(1)] ws(3) that] .
    from computes_compare_against_thresholds [where as = "map ?a [0..<n]" and addr = addr and sid = sid and G = G, OF conjunct2 [OF ws(1)] _ this bound, unfolded below_map]
    show ?thesis using ws(1,2) b by (simp add: decides_def)
  qed
  have hist: "computes addr sid (\<lambda>i. cbind (open_buckets_2d G job_size n (L i) (R i)) (\<lambda>bs. cret (?F i bs)))
      (\<lambda>x. \<forall>i. job_result_2d job_size n (even_limits n ratio) (cross_count (first_at (within_fhd n ratio)) (first_at (within_fhd n ratio)) (zip ls rs)) (config i) (x i))"
    if us: "decides fhd ls us" and vs: "decides fhd rs vs"
      and s: "int_sharing word_ring (\<lambda>_. True) uint L (map of_bool (below [0..<n] ?P us))" "int_sharing word_ring (\<lambda>_. True) uint R (map of_bool (below [0..<n] ?P vs))" for L R us vs
  proof (rule computes_cross_histogram [OF s])
    show "cross_count ?P ?P (zip us vs) a b = cross_count (within_fhd n ratio) (within_fhd n ratio) (zip ls rs) a b" for a b
      by (rule cross_count_decides) (use us vs len decides_iff(1) [OF us] decides_iff(1) [OF vs] in \<open>simp_all add: decides_def within_fhd_def\<close>)
  qed (use us vs len b within_fhd_mono [OF r0] in \<open>simp_all add: decides_def fill_buckets2d_def bucket_statistics2d_new_def even_limits_def [abs_def] Let_def\<close>)
  have l2: "2 * length ls + 64 \<le> MAX_LEN" "2 * length rs + 64 \<le> MAX_LEN" "length ls = job_size" using b len by simp_all
  show ?thesis
    unfolding inner
    by (rule computes_cbind [OF computes_fhd_minima [OF D(1) l2(1) ok(1)]], elim exE, rule computes_cbind [OF computes_fhd_minima [OF D(2) l2(2) ok(2)]], elim exE,
        rule computes_cbind [OF compare], assumption, rule l2(3), rule ok(1), rule computes_cbind [OF compare], assumption, rule len(2), rule ok(2)) (blast intro: hist)
qed

lemma computes_process_2d_nhd_inner:
  fixes config :: "PartyID \<Rightarrow> AnonStatsServerConfig"
  assumes D: "group_sharing ring48_ring wf48 val48 D ls" "group_sharing ring48_ring wf48 val48 E rs" and len: "length ls = length rs" "length rs = job_size"
    and ok: "\<forall>g \<in> set ls. g \<noteq> [] \<and> (\<forall>x \<in> set g. dot_range x)" "\<forall>g \<in> set rs. g \<noteq> [] \<and> (\<forall>x \<in> set g. dot_range x)"
    and c: "\<And>i. params_2d_nhd op (config i) = (n, ratio)" and n: "job_fits n job_size" and ratio: "1 / 2 ^ 100 \<le> ratio" "ratio \<le> 1 / 2"
  shows "computes addr sid (\<lambda>i. process_2d_anon_stats_score_normalization_inner G (clock i) job_size (D i) (E i) origin (config i) op start)
    (\<lambda>x. \<forall>i. job_result_2d job_size n (even_limits n ratio) (cross_count (first_at (within_nhd n ratio)) (first_at (within_nhd n ratio)) (zip ls rs)) (config i) (x i))"
proof -
  note b = job_fits_bounds [OF n]
  have r0: "0 \<le> ratio" using ratio(1) by (meson order_trans zero_le_divide_1_iff zero_le_numeral zero_le_power)
  have n0: "0 < n" "n < 2 ^ 53" using b by simp_all
  let ?t = "\<lambda>k. spaced n ratio (k + 1)" and ?P = "\<lambda>k x. nhd x \<le> nhd_limit (spaced n ratio (k + 1))"
  let ?F = "\<lambda>i bs. fill_buckets2d (snd (clock i)) bs ratio start
    ((bucket_statistics2d_new (fst (clock i)) job_size n (config_party_id (config i)) NHD Aggregator op None None)\<lparr>is_mirror_orientation2d := (orientation origin = Mirror)\<rparr>)"
  have th: "calculate_iris_threshold_score_normalization n ratio = map ?t [0..<n]"
    using calculate_thresholds(2) [OF ratio n0] unfolding upt_shift .
  have bound: "\<forall>t \<in> set (map ?t [0..<n]). 0 \<le> t \<and> t \<le> 1" using spaced_range [OF ratio n0] by auto
  have inner: "process_2d_anon_stats_score_normalization_inner G (clock i) job_size (D i) (E i) origin (config i) op start =
      cbind (nhd_reduce_to_min_distance_batch G (D i)) (\<lambda>l. cbind (nhd_reduce_to_min_distance_batch G (E i)) (\<lambda>r.
      cbind (nhd_compare_against_thresholds_batched G (map ?t [0..<n]) l) (\<lambda>cl. cbind (nhd_compare_against_thresholds_batched G (map ?t [0..<n]) r) (\<lambda>cr.
      cbind (open_buckets_2d G job_size n cl cr) (\<lambda>bs. cret (?F i bs))))))" for i
    using c [of i] unfolding process_2d_anon_stats_score_normalization_inner_def params_2d_nhd_def [symmetric] by (simp add: Let_def th)
  have compare: "computes addr sid (\<lambda>i. nhd_compare_against_thresholds_batched G (map ?t [0..<n]) (d i))
      (\<lambda>r. int_sharing word_ring (\<lambda>_. True) uint r (map of_bool (below [0..<n] ?P ws)))"
    if ws: "decides nhd gs ws \<and> dist_int_sharing ring48_ring wf48 val48 d ws" "length gs = job_size" "\<forall>g \<in> set gs. g \<noteq> [] \<and> (\<forall>x \<in> set g. dot_range x)" for d gs ws
  proof -
    have "dot_range x" if "x \<in> set ws" for x using decides_in [OF conjunct1 [OF ws(1)] ws(3) that] .
    from computes_nhd_compare_against_thresholds [where ts = "map ?t [0..<n]" and addr = addr and sid = sid and G = G, OF conjunct2 [OF ws(1)] _ _ this bound, unfolded below_map]
    show ?thesis using ws(1,2) b by (simp add: decides_def)
  qed
  have hist: "computes addr sid (\<lambda>i. cbind (open_buckets_2d G job_size n (L i) (R i)) (\<lambda>bs. cret (?F i bs)))
      (\<lambda>x. \<forall>i. job_result_2d job_size n (even_limits n ratio) (cross_count (first_at (within_nhd n ratio)) (first_at (within_nhd n ratio)) (zip ls rs)) (config i) (x i))"
    if us: "decides nhd ls us" and vs: "decides nhd rs vs"
      and s: "int_sharing word_ring (\<lambda>_. True) uint L (map of_bool (below [0..<n] ?P us))" "int_sharing word_ring (\<lambda>_. True) uint R (map of_bool (below [0..<n] ?P vs))" for L R us vs
  proof (rule computes_cross_histogram [OF s])
    show "cross_count ?P ?P (zip us vs) a b = cross_count (within_nhd n ratio) (within_nhd n ratio) (zip ls rs) a b" for a b
      by (rule cross_count_decides) (use us vs len decides_iff(2) [OF us] decides_iff(2) [OF vs] in \<open>simp_all add: decides_def within_nhd_def\<close>)
  qed (use us vs len b within_nhd_mono [OF r0] in \<open>simp_all add: decides_def fill_buckets2d_def bucket_statistics2d_new_def even_limits_def [abs_def] Let_def\<close>)
  have l2: "2 * length ls + 64 \<le> MAX_LEN" "2 * length rs + 64 \<le> MAX_LEN" "length ls = job_size" using b len by simp_all
  show ?thesis
    unfolding inner
    by (rule computes_cbind [OF computes_nhd_minima [OF D(1) l2(1) ok(1)]], elim exE, rule computes_cbind [OF computes_nhd_minima [OF D(2) l2(2) ok(2)]], elim exE,
        rule computes_cbind [OF compare], assumption, rule l2(3), rule ok(1), rule computes_cbind [OF compare], assumption, rule len(2), rule ok(2)) (blast intro: hist)
qed

text \<open>Whole jobs.\<close>

definition iris_rows :: "(int \<times> int) list list \<Rightarrow> bool" where
  "iris_rows gs \<longleftrightarrow> (\<forall>g \<in> set gs. g \<noteq> [] \<and> (\<forall>x \<in> set g. dot_range x \<and> snd x < 2 ^ 14)) \<and> 4 * length (concat gs) + 64 \<le> MAX_LEN"

lemma computes_process_2d:
  fixes config :: "PartyID \<Rightarrow> AnonStatsServerConfig" and job :: "PartyID \<Rightarrow> DistanceBundle2D AnonStatsMapping"
  assumes job: "group_sharing word_ring (\<lambda>_. True) uint (\<lambda>i. map fst (into_bundles (job i))) ls" "group_sharing word_ring (\<lambda>_. True) uint (\<lambda>i. map snd (into_bundles (job i))) rs"
    and ok: "iris_rows ls" "iris_rows rs" and n: "job_fits n (length rs)"
  shows "(\<And>i. params_2d op (config i) = (n, ratio)) \<Longrightarrow> computes addr sid (\<lambda>i. process_2d_anon_stats_job G (clock i) (job i) origin (config i) op start)
    (\<lambda>x. \<forall>i. job_result_2d (length rs) n (even_limits n ratio) (cross_count (first_at (within_fhd n ratio)) (first_at (within_fhd n ratio)) (zip ls rs)) (config i) (x i))"
  and "(\<And>i. params_2d_nhd op (config i) = (n, ratio)) \<Longrightarrow> 1 / 2 ^ 100 \<le> ratio \<Longrightarrow> ratio \<le> 1 / 2 \<Longrightarrow>
    computes addr sid (\<lambda>i. process_2d_anon_stats_score_normalization_job G (clock i) (job i) origin (config i) op start)
    (\<lambda>x. \<forall>i. job_result_2d (length rs) n (even_limits n ratio) (cross_count (first_at (within_nhd n ratio)) (first_at (within_nhd n ratio)) (zip ls rs)) (config i) (x i))"
proof -
  have "length (map fst (into_bundles (job i))) = length ls" "length (map snd (into_bundles (job i))) = length rs" for i
    using job unfolding group_sharing_def by blast+
  then have rows: "mapping_len (job i) = length rs" and len: "length ls = length rs" for i by (simp_all add: mapping_len_def into_bundles_def)
  have o: "\<forall>g \<in> set ls. g \<noteq> [] \<and> (\<forall>x \<in> set g. dot_range x \<and> snd x < 2 ^ 14)" "\<forall>g \<in> set rs. g \<noteq> [] \<and> (\<forall>x \<in> set g. dot_range x \<and> snd x < 2 ^ 14)"
    and l: "4 * length (concat ls) + 64 \<le> MAX_LEN" "4 * length (concat rs) + 64 \<le> MAX_LEN" using ok by (simp_all add: iris_rows_def)
  have o': "\<forall>g \<in> set ls. g \<noteq> [] \<and> (\<forall>x \<in> set g. dot_range x)" "\<forall>g \<in> set rs. g \<noteq> [] \<and> (\<forall>x \<in> set g. dot_range x)" using o by blast+
  note i16 = in16_dot_range [OF o(1)] in16_dot_range [OF o(2)]
  show "(\<And>i. params_2d op (config i) = (n, ratio)) \<Longrightarrow> computes addr sid (\<lambda>i. process_2d_anon_stats_job G (clock i) (job i) origin (config i) op start)
      (\<lambda>x. \<forall>i. job_result_2d (length rs) n (even_limits n ratio) (cross_count (first_at (within_fhd n ratio)) (first_at (within_fhd n ratio)) (zip ls rs)) (config i) (x i))"
    unfolding process_2d_anon_stats_job_def Let_def rows
    by (rule computes_cbind [OF computes_lift_bundles [OF job(1) i16(1) l(1)]], rule computes_cbind [OF computes_lift_bundles [OF job(2) i16(2) l(2)]])
      (rule computes_process_2d_inner [OF _ _ len refl o _ n])
  show "(\<And>i. params_2d_nhd op (config i) = (n, ratio)) \<Longrightarrow> 1 / 2 ^ 100 \<le> ratio \<Longrightarrow> ratio \<le> 1 / 2 \<Longrightarrow>
      computes addr sid (\<lambda>i. process_2d_anon_stats_score_normalization_job G (clock i) (job i) origin (config i) op start)
      (\<lambda>x. \<forall>i. job_result_2d (length rs) n (even_limits n ratio) (cross_count (first_at (within_nhd n ratio)) (first_at (within_nhd n ratio)) (zip ls rs)) (config i) (x i))"
    unfolding process_2d_anon_stats_score_normalization_job_def Let_def rows
    by (rule computes_cbind [OF computes_lift_bundles48 [OF job(1) i16(1) l(1)]], rule computes_cbind [OF computes_lift_bundles48 [OF job(2) i16(2) l(2)]])
      (rule computes_process_2d_nhd_inner [OF _ _ len refl o' _ n])
qed

text \<open>Rows that were lifted before, and lifting both sides of the rows.\<close>

lemma bundles_len_2d:
  assumes "group_sharing R ok val (\<lambda>i. map fst (into_bundles (job i))) ls" "group_sharing R ok val (\<lambda>i. map snd (into_bundles (job i))) rs"
  shows "mapping_len (job i) = length rs" "length ls = length rs"
proof -
  have "length (map fst (into_bundles (job i))) = length ls" "length (map snd (into_bundles (job i))) = length rs" for i
    using assms unfolding group_sharing_def by blast+
  then show "mapping_len (job i) = length rs" "length ls = length rs" by (simp_all add: mapping_len_def into_bundles_def)
qed

lemma computes_process_2d_lifted:
  fixes config :: "PartyID \<Rightarrow> AnonStatsServerConfig"
  assumes ok: "iris_rows ls" "iris_rows rs" and n: "job_fits n (length rs)"
  shows "group_sharing word_ring (\<lambda>_. True) uint (\<lambda>i. map fst (into_bundles (job i))) ls \<Longrightarrow> group_sharing word_ring (\<lambda>_. True) uint (\<lambda>i. map snd (into_bundles (job i))) rs \<Longrightarrow>
    (\<And>i. params_2d op (config i) = (n, ratio)) \<Longrightarrow> computes addr sid (\<lambda>i. process_2d_lifted_anon_stats_job G (clock i) (job i) origin (config i) op start)
    (\<lambda>x. \<forall>i. job_result_2d (length rs) n (even_limits n ratio) (cross_count (first_at (within_fhd n ratio)) (first_at (within_fhd n ratio)) (zip ls rs)) (config i) (x i))"
  and "group_sharing ring48_ring wf48 val48 (\<lambda>i. map fst (into_bundles (u48_job i))) ls \<Longrightarrow> group_sharing ring48_ring wf48 val48 (\<lambda>i. map snd (into_bundles (u48_job i))) rs \<Longrightarrow>
    (\<And>i. params_2d_nhd op (config i) = (n, ratio)) \<Longrightarrow> 1 / 2 ^ 100 \<le> ratio \<Longrightarrow> ratio \<le> 1 / 2 \<Longrightarrow>
    computes addr sid (\<lambda>i. process_2d_lifted_anon_stats_score_normalization_job G (clock i) (u48_job i) origin (config i) op start)
    (\<lambda>x. \<forall>i. job_result_2d (length rs) n (even_limits n ratio) (cross_count (first_at (within_nhd n ratio)) (first_at (within_nhd n ratio)) (zip ls rs)) (config i) (x i))"
proof -
  have o: "\<forall>g \<in> set ls. g \<noteq> [] \<and> (\<forall>x \<in> set g. dot_range x \<and> snd x < 2 ^ 14)" "\<forall>g \<in> set rs. g \<noteq> [] \<and> (\<forall>x \<in> set g. dot_range x \<and> snd x < 2 ^ 14)"
    using ok by (simp_all add: iris_rows_def)
  have o': "\<forall>g \<in> set ls. g \<noteq> [] \<and> (\<forall>x \<in> set g. dot_range x)" "\<forall>g \<in> set rs. g \<noteq> [] \<and> (\<forall>x \<in> set g. dot_range x)" using o by blast+
  show "computes addr sid (\<lambda>i. process_2d_lifted_anon_stats_job G (clock i) (job i) origin (config i) op start)
      (\<lambda>x. \<forall>i. job_result_2d (length rs) n (even_limits n ratio) (cross_count (first_at (within_fhd n ratio)) (first_at (within_fhd n ratio)) (zip ls rs)) (config i) (x i))"
    if job: "group_sharing word_ring (\<lambda>_. True) uint (\<lambda>i. map fst (into_bundles (job i))) ls" "group_sharing word_ring (\<lambda>_. True) uint (\<lambda>i. map snd (into_bundles (job i))) rs"
      and c: "\<And>i. params_2d op (config i) = (n, ratio)"
    unfolding process_2d_lifted_anon_stats_job_def Let_def bundles_len_2d(1) [OF job]
    by (rule computes_process_2d_inner [OF job bundles_len_2d(2) [OF job] refl o c n])
  show "computes addr sid (\<lambda>i. process_2d_lifted_anon_stats_score_normalization_job G (clock i) (u48_job i) origin (config i) op start)
      (\<lambda>x. \<forall>i. job_result_2d (length rs) n (even_limits n ratio) (cross_count (first_at (within_nhd n ratio)) (first_at (within_nhd n ratio)) (zip ls rs)) (config i) (x i))"
    if job: "group_sharing ring48_ring wf48 val48 (\<lambda>i. map fst (into_bundles (u48_job i))) ls" "group_sharing ring48_ring wf48 val48 (\<lambda>i. map snd (into_bundles (u48_job i))) rs"
      and c: "\<And>i. params_2d_nhd op (config i) = (n, ratio)" "1 / 2 ^ 100 \<le> ratio" "ratio \<le> 1 / 2"
    unfolding process_2d_lifted_anon_stats_score_normalization_job_def Let_def bundles_len_2d(1) [OF job]
    by (rule computes_process_2d_nhd_inner [OF job bundles_len_2d(2) [OF job] refl o' c(1) n c(2,3)])
qed

lemma computes_lift_bundles_2d:
  assumes job: "group_sharing word_ring (\<lambda>_. True) uint (\<lambda>i. map fst (bundles i)) ls" "group_sharing word_ring (\<lambda>_. True) uint (\<lambda>i. map snd (bundles i)) rs"
    and ok: "iris_rows ls" "iris_rows rs"
  shows "computes addr sid (\<lambda>i. lift_bundles_2d G (bundles i))
    (\<lambda>r. group_sharing word_ring (\<lambda>_. True) uint (\<lambda>i. map fst (r i)) ls \<and> group_sharing word_ring (\<lambda>_. True) uint (\<lambda>i. map snd (r i)) rs)"
proof -
  have o: "in16 ls" "in16 rs" and l: "4 * length (concat ls) + 64 \<le> MAX_LEN" "4 * length (concat rs) + 64 \<le> MAX_LEN"
    using ok in16_dot_range by (auto simp: iris_rows_def)
  have "length (map fst (bundles i)) = length ls" "length (map snd (bundles i)) = length rs" for i
    using job unfolding group_sharing_def by blast+
  then have len: "length ls = length rs" by (metis length_map)
  show ?thesis
    unfolding lift_bundles_2d_def
  proof (rule computes_cbind [OF computes_lift_bundles [OF job(1) o(1) l(1)]], rule computes_cbind [OF computes_lift_bundles [OF job(2) o(2) l(2)]], rule computes_cret)
    fix x y :: "PartyID \<Rightarrow> LiftedDistanceBundle1D list"
    assume s: "group_sharing word_ring (\<lambda>_. True) uint x ls" "group_sharing word_ring (\<lambda>_. True) uint y rs"
    then have "length (x i) = length (y i)" for i using len by (simp add: group_sharing_def)
    then show "group_sharing word_ring (\<lambda>_. True) uint (\<lambda>i. map fst (zip (x i) (y i))) ls \<and> group_sharing word_ring (\<lambda>_. True) uint (\<lambda>i. map snd (zip (x i) (y i))) rs"
      using s by simp
  qed
qed

section \<open>Scores of both eyes\<close>

lemma computes_di_loop:
  assumes x: "int_sharing word_ring (\<lambda>_. True) uint x vs" and len: "length vs + 64 \<le> MAX_LEN"
  shows "face_ok ts vs \<Longrightarrow> int_sharing word_ring (\<lambda>_. True) uint r (map of_bool bs) \<Longrightarrow>
    computes addr sid (\<lambda>i. di_threshold_loop G (x i) ts (r i))
      (\<lambda>r. int_sharing word_ring (\<lambda>_. True) uint r (map of_bool (bs @ below ts (\<lambda>t v. v < sint t) vs)))"
proof (induction ts arbitrary: r bs)
  case Nil
  then show ?case by (simp add: computes_cret below_def)
next
  case (Cons t ts)
  have ok: "face_ok ts vs" "face_ok [t] vs" using Cons.prems(1) by (auto simp: face_ok_def)
  show ?case
    unfolding di_threshold_loop.simps
  proof (rule computes_below_threshold [OF x len ok(2)])
    fix v :: "PartyID \<Rightarrow> u32 share list" assume "int_sharing word_ring (\<lambda>_. True) uint v (map of_bool (map (\<lambda>v. v < sint t) vs))"
    from word.int_sharing_append [OF Cons.prems(2) this]
    have "int_sharing word_ring (\<lambda>_. True) uint (\<lambda>i. r i @ v i) (map of_bool (bs @ map (\<lambda>v. v < sint t) vs))" by simp
    from Cons.IH [OF ok(1) this] show "computes addr sid (\<lambda>i. di_threshold_loop G (x i) ts (r i @ v i))
        (\<lambda>r. int_sharing word_ring (\<lambda>_. True) uint r (map of_bool (bs @ below (t # ts) (\<lambda>t v. v < sint t) vs)))" by (simp add: below_def)
  qed
qed

definition score_below :: "16 word list \<Rightarrow> nat \<Rightarrow> int \<Rightarrow> bool" where
  "score_below ts k v \<longleftrightarrow> (k < length ts \<longrightarrow> v < sint (ts ! k))"

lemma score_below_mono:
  assumes "sorted (map sint ts)" "score_below ts k v"
  shows "score_below ts (Suc k) v"
proof -
  have "sint (ts ! k) \<le> sint (ts ! Suc k)" if "Suc k < length ts" using sorted_nth_mono [OF assms(1), of k "Suc k"] that by simp
  then show ?thesis using assms(2) by (auto simp: score_below_def)
qed

lemma below_nths: "below ts P vs = below [0..<length ts] (\<lambda>k. P (ts ! k)) vs"
  unfolding below_map [of "(!) ts" "[0..<length ts]", symmetric] map_nth ..

lemma computes_di_job:
  fixes config :: "PartyID \<Rightarrow> AnonStatsServerConfig" and job :: "PartyID \<Rightarrow> (u16 share \<times> u16 share) AnonStatsMapping"
  assumes job: "int_sharing word_ring (\<lambda>_. True) uint (\<lambda>i. map fst (into_bundles (job i))) us" "int_sharing word_ring (\<lambda>_. True) uint (\<lambda>i. map snd (into_bundles (job i))) vs"
    and ts: "\<And>i. di_2d_bucket_thresholds (config i) = ts" "sorted (map sint ts)" "face_ok ts us" "face_ok ts vs"
    and len: "length vs + 64 \<le> MAX_LEN" "length ts * length ts < MAX_LEN"
  shows "computes addr sid (\<lambda>i. process_di_2d_anon_stats_job G (clock i) (job i) origin (config i) op start rate lm rm)
    (\<lambda>x. \<forall>i. job_result_2d (length vs) (length ts) (di_limits ts) (cross_count (first_at (score_below ts)) (first_at (score_below ts)) (zip us vs)) (config i) (x i))"
proof -
  have "length (map fst (into_bundles (job i))) = length us" "length (map snd (into_bundles (job i))) = length vs" for i
    using int_sharing_length [OF job(1)] int_sharing_length [OF job(2)] by blast+
  then have rows: "mapping_len (job i) = length vs" and lu: "length us = length vs" for i by (simp_all add: mapping_len_def into_bundles_def)
  let ?P = "\<lambda>k v. v < sint (ts ! k)"
  let ?F = "\<lambda>i bs. fill_buckets_di (snd (clock i)) bs ts start
    ((bucket_statistics2d_new (fst (clock i)) (length vs) (length ts) (config_party_id (config i)) QuantizedCosine Aggregator op (Some lm) (Some rm))
      \<lparr>is_mirror_orientation2d := (orientation origin = Mirror), sampling_rate := Some rate\<rparr>)"
  have compare: "computes addr sid (\<lambda>i. compare_against_thresholds_di G ts (x i)) (\<lambda>r. int_sharing word_ring (\<lambda>_. True) uint r (map of_bool (below [0..<length ts] ?P ws)))"
    if "int_sharing word_ring (\<lambda>_. True) uint x ws" "length ws = length vs" "face_ok ts ws" for x ws
    using computes_di_loop [OF that(1) _ that(3), of "\<lambda>_. []" "[]" addr sid G] that(2) len(1) word.int_sharing_Nil
    unfolding compare_against_thresholds_di_def below_nths [of ts] by simp
  have hist: "computes addr sid (\<lambda>i. cbind (open_buckets_2d G (length vs) (length ts) (L i) (R i)) (\<lambda>bs. cret (?F i bs)))
      (\<lambda>x. \<forall>i. job_result_2d (length vs) (length ts) (di_limits ts) (cross_count (first_at (score_below ts)) (first_at (score_below ts)) (zip us vs)) (config i) (x i))"
    if s: "int_sharing word_ring (\<lambda>_. True) uint L (map of_bool (below [0..<length ts] ?P us))" "int_sharing word_ring (\<lambda>_. True) uint R (map of_bool (below [0..<length ts] ?P vs))" for L R
  proof (rule computes_cross_histogram [OF s])
    show "cross_count ?P ?P (zip us vs) a b = cross_count (score_below ts) (score_below ts) (zip us vs) a b" if "a < length ts" "b < length ts" for a b
      using that by (simp add: cross_count_def score_below_def)
  qed (use lu len score_below_mono [OF ts(2)] in \<open>simp_all add: fill_buckets_di_def bucket_statistics2d_new_def MAX_LEN_def Let_def\<close>)
  have body: "process_di_2d_anon_stats_job G (clock i) (job i) origin (config i) op start rate lm rm =
      cbind (compare_against_thresholds_di G ts (map fst (into_bundles (job i)))) (\<lambda>l. cbind (compare_against_thresholds_di G ts (map snd (into_bundles (job i)))) (\<lambda>r.
      cbind (open_buckets_2d G (length vs) (length ts) l r) (\<lambda>bs. cret (?F i bs))))" for i
    unfolding process_di_2d_anon_stats_job_def ts(1) rows Let_def ..
  show ?thesis
    unfolding body
    by (rule computes_cbind [OF compare [OF job(1) lu ts(3)]], rule computes_cbind [OF compare [OF job(2) refl ts(4)]]) (rule hist)
qed

text \<open>The default thresholds fit all scores but those at the ends of the sixteen bit range.\<close>

lemma default_thresholds_fit:
  assumes "set vs \<subseteq> {- 28768 .. 30767}"
  shows "face_ok (face_bucket_thresholds default_config) vs" "face_ok (di_2d_bucket_thresholds default_config) vs"
    "length (di_2d_bucket_thresholds default_config) * length (di_2d_bucket_thresholds default_config) < MAX_LEN"
proof -
  have d: "face_bucket_thresholds default_config = default_face_bucket_thresholds" "di_2d_bucket_thresholds default_config = default_di_2d_bucket_thresholds"
    by (simp_all add: default_config_def)
  have v: "- 28768 \<le> v \<and> v \<le> 30767" if "v \<in> set vs" for v using assms that by auto
  show "face_ok (face_bucket_thresholds default_config) vs" "face_ok (di_2d_bucket_thresholds default_config) vs"
    unfolding d face_ok_def using default_thresholds_range v by fastforce+
  show "length (di_2d_bucket_thresholds default_config) * length (di_2d_bucket_thresholds default_config) < MAX_LEN"
    unfolding d by (simp add: default_di_2d_bucket_thresholds_def i16_range_def MAX_LEN_def)
qed

section \<open>Properties\<close>

text \<open>
  C2: histograms of pairs of minima, end to end. Three linked parties run a two-dimensional
  job over rows of shared bundles of both eyes, none of them empty but possibly without a row,
  of sixteen bits or already lifted to 32 and to 48 bits. All of them finish under any
  interleaving and without a panic, and each ends with the same histogram: the cell of the
  buckets \<open>a\<close> and \<open>b\<close> counts the rows whose smallest distance of the left eye falls into bucket
  \<open>a\<close> and whose smallest distance of the right eye falls into bucket \<open>b\<close>, and exactly the cells
  that are not empty are reported. The shares of zero the parties add to their sums of products
  cancel. Lifting the rows of a job gives shares of the same rows, in their order.
\<close>

theorem jobs_report_histograms_of_pairs:
  fixes S :: "PartyID \<Rightarrow> 'r session" and G :: "'r prf_rng" and job :: "PartyID \<Rightarrow> DistanceBundle2D AnonStatsMapping"
  assumes "linked addr sid S"
    and "group_sharing word_ring (\<lambda>_. True) uint (\<lambda>i. map fst (into_bundles (job i))) ls" "group_sharing word_ring (\<lambda>_. True) uint (\<lambda>i. map snd (into_bundles (job i))) rs"
    and "iris_rows ls" "iris_rows rs"
    and "\<forall>i. params_2d op (config i) = (n, ratio)" "job_fits n (length rs)"
    and "\<forall>i. params_2d_nhd op (config i) = (m, limit)" "job_fits m (length rs)" "1 / 2 ^ 100 \<le> limit" "limit \<le> 1 / 2"
    and lift32: "group_sharing word_ring (\<lambda>_. True) uint (\<lambda>i. map fst (into_bundles (lifted_job i))) ls" "group_sharing word_ring (\<lambda>_. True) uint (\<lambda>i. map snd (into_bundles (lifted_job i))) rs"
    and lift48: "group_sharing ring48_ring wf48 val48 (\<lambda>i. map fst (into_bundles (u48_job i))) ls" "group_sharing ring48_ring wf48 val48 (\<lambda>i. map snd (into_bundles (u48_job i))) rs"
  shows "always_finishes addr (\<lambda>i. process_2d_anon_stats_job G (clock i) (job i) origin (config i) op start (S i))
      (\<lambda>r. (\<forall>i. job_result_2d (length rs) n (even_limits n ratio)
               (cross_count (first_at (within_fhd n ratio)) (first_at (within_fhd n ratio)) (zip ls rs)) (config i) (fst (r i)))
         \<and> linked addr sid (\<lambda>i. snd (r i)))
    \<and> always_finishes addr (\<lambda>i. process_2d_anon_stats_score_normalization_job G (clock i) (job i) origin (config i) op start (S i))
      (\<lambda>r. (\<forall>i. job_result_2d (length rs) m (even_limits m limit)
               (cross_count (first_at (within_nhd m limit)) (first_at (within_nhd m limit)) (zip ls rs)) (config i) (fst (r i)))
         \<and> linked addr sid (\<lambda>i. snd (r i)))
    \<and> always_finishes addr (\<lambda>i. process_2d_lifted_anon_stats_job G (clock i) (lifted_job i) origin (config i) op start (S i))
      (\<lambda>r. (\<forall>i. job_result_2d (length rs) n (even_limits n ratio)
               (cross_count (first_at (within_fhd n ratio)) (first_at (within_fhd n ratio)) (zip ls rs)) (config i) (fst (r i)))
         \<and> linked addr sid (\<lambda>i. snd (r i)))
    \<and> always_finishes addr (\<lambda>i. process_2d_lifted_anon_stats_score_normalization_job G (clock i) (u48_job i) origin (config i) op start (S i))
      (\<lambda>r. (\<forall>i. job_result_2d (length rs) m (even_limits m limit)
               (cross_count (first_at (within_nhd m limit)) (first_at (within_nhd m limit)) (zip ls rs)) (config i) (fst (r i)))
         \<and> linked addr sid (\<lambda>i. snd (r i)))
    \<and> always_finishes addr (\<lambda>i. lift_bundles_2d G (into_bundles (job i)) (S i))
      (\<lambda>r. (group_sharing word_ring (\<lambda>_. True) uint (\<lambda>i. map fst (fst (r i))) ls \<and> group_sharing word_ring (\<lambda>_. True) uint (\<lambda>i. map snd (fst (r i))) rs)
         \<and> linked addr sid (\<lambda>i. snd (r i)))"
  by (intro conjI computes_always_finishes [OF computes_process_2d(1) [OF assms(2-5,7)] assms(1)]
      computes_always_finishes [OF computes_process_2d(2) [OF assms(2-5,9)] assms(1)]
      computes_always_finishes [OF computes_process_2d_lifted(1) [OF assms(4,5,7) lift32] assms(1)]
      computes_always_finishes [OF computes_process_2d_lifted(2) [OF assms(4,5,9) lift48] assms(1)]
      computes_always_finishes [OF computes_lift_bundles_2d [OF assms(2-5)] assms(1)]) (use assms(6,8,10,11) in simp_all)

definition demo_job_2d :: "PartyID \<Rightarrow> DistanceBundle2D AnonStatsMapping" where
  "demo_job_2d i = mapping_new [(9, (demo_distances16 [(250, 500)] i, demo_distances16 [(400, 500)] i)),
     (4, (demo_distances16 [(100, 500), (400, 500)] i, demo_distances16 [(450, 500)] i)), (11, (demo_distances16 [(1, 8)] i, demo_distances16 [(400, 500)] i))]"

definition demo_lifted_2d :: "PartyID \<Rightarrow> LiftedDistanceBundle2D AnonStatsMapping" where
  "demo_lifted_2d i = mapping_new [(9, (demo_distances [(250, 500)] i, demo_distances [(400, 500)] i)),
     (4, (demo_distances [(100, 500), (400, 500)] i, demo_distances [(450, 500)] i)), (11, (demo_distances [(1, 8)] i, demo_distances [(400, 500)] i))]"

definition demo_lifted48_2d :: "PartyID \<Rightarrow> LiftedU48DistanceBundle2D AnonStatsMapping" where
  "demo_lifted48_2d i = mapping_new [(9, (demo_distances48 [(250, 500)] i, demo_distances48 [(400, 500)] i)),
     (4, (demo_distances48 [(100, 500), (400, 500)] i, demo_distances48 [(450, 500)] i)), (11, (demo_distances48 [(1, 8)] i, demo_distances48 [(400, 500)] i))]"

theorem jobs_report_histograms_of_pairs_witness:
  "always_finishes demo_addr (\<lambda>i. process_2d_anon_stats_job demo_rng (5, 9) (demo_job_2d i) \<lparr>side = None, orientation = Mirror, origin_context = HNSW\<rparr>
        (demo_config (usize_from_party i)) None None (demo_session i))
      (\<lambda>r. \<forall>i. map (\<lambda>c. (bucket2d_count c, left_hamming_distance_bucket c, right_hamming_distance_bucket c)) (buckets2d (fst (r i))) =
         [(1, even_limits 2 (3 / 8) 0, even_limits 2 (3 / 8) 0), (1, even_limits 2 (3 / 8) 1, even_limits 2 (3 / 8) 0)])
    \<and> always_finishes demo_addr (\<lambda>i. process_2d_anon_stats_score_normalization_job demo_rng (5, 9) (demo_job_2d i) \<lparr>side = None, orientation = Mirror, origin_context = HNSW\<rparr>
        (demo_config (usize_from_party i)) None None (demo_session i))
      (\<lambda>r. \<forall>i. n_buckets_per_side (fst (r i)) = 2 \<and> match_distances_buffer_size2d (fst (r i)) = 3)
    \<and> always_finishes demo_addr (\<lambda>i. process_2d_lifted_anon_stats_job demo_rng (5, 9) (demo_lifted_2d i) \<lparr>side = None, orientation = Mirror, origin_context = HNSW\<rparr>
        (demo_config (usize_from_party i)) None None (demo_session i))
      (\<lambda>r. \<forall>i. map (\<lambda>c. (bucket2d_count c, left_hamming_distance_bucket c, right_hamming_distance_bucket c)) (buckets2d (fst (r i))) =
         [(1, even_limits 2 (3 / 8) 0, even_limits 2 (3 / 8) 0), (1, even_limits 2 (3 / 8) 1, even_limits 2 (3 / 8) 0)])
    \<and> always_finishes demo_addr (\<lambda>i. process_2d_lifted_anon_stats_score_normalization_job demo_rng (5, 9) (demo_lifted48_2d i) \<lparr>side = None, orientation = Mirror, origin_context = HNSW\<rparr>
        (demo_config (usize_from_party i)) None None (demo_session i))
      (\<lambda>r. \<forall>i. n_buckets_per_side (fst (r i)) = 2 \<and> match_distances_buffer_size2d (fst (r i)) = 3)"
proof -
  let ?ls = "[[(100, 500), (400, 500)], [(250, 500)], [(1, 8)]] :: (int \<times> int) list list" and ?rs = "[[(450, 500)], [(400, 500)], [(400, 500)]] :: (int \<times> int) list list"
  have rows: "map fst (into_bundles (demo_job_2d i)) = map (\<lambda>g. demo_distances16 g i) ?ls" "map snd (into_bundles (demo_job_2d i)) = map (\<lambda>g. demo_distances16 g i) ?rs" for i
    by (simp_all add: demo_job_2d_def into_bundles_def mapping_new_def)
  have g: "group_sharing word_ring (\<lambda>_. True) uint (\<lambda>i. map fst (into_bundles (demo_job_2d i))) ?ls"
    "group_sharing word_ring (\<lambda>_. True) uint (\<lambda>i. map snd (into_bundles (demo_job_2d i))) ?rs"
    unfolding rows using demo_distances16_sharing by (simp_all add: group_sharing_def less_Suc_eq)
  have rows': "map fst (into_bundles (demo_lifted_2d i)) = map (\<lambda>g. demo_distances g i) ?ls" "map snd (into_bundles (demo_lifted_2d i)) = map (\<lambda>g. demo_distances g i) ?rs"
    "map fst (into_bundles (demo_lifted48_2d i)) = map (\<lambda>g. demo_distances48 g i) ?ls" "map snd (into_bundles (demo_lifted48_2d i)) = map (\<lambda>g. demo_distances48 g i) ?rs" for i
    by (simp_all add: demo_lifted_2d_def demo_lifted48_2d_def into_bundles_def mapping_new_def)
  have g': "group_sharing word_ring (\<lambda>_. True) uint (\<lambda>i. map fst (into_bundles (demo_lifted_2d i))) ?ls"
    "group_sharing word_ring (\<lambda>_. True) uint (\<lambda>i. map snd (into_bundles (demo_lifted_2d i))) ?rs"
    "group_sharing ring48_ring wf48 val48 (\<lambda>i. map fst (into_bundles (demo_lifted48_2d i))) ?ls"
    "group_sharing ring48_ring wf48 val48 (\<lambda>i. map snd (into_bundles (demo_lifted48_2d i))) ?rs"
    unfolding rows' using demo_distances_sharing demo_distances48_sharing by (simp_all add: group_sharing_def less_Suc_eq)
  have ok: "iris_rows ?ls" "iris_rows ?rs" "job_fits 2 (length ?rs)" by (simp_all add: iris_rows_def job_fits_def dot_range_def MAX_LEN_def)
  have p: "params_2d None (demo_config i) = (2, 3 / 8)" "params_2d_nhd None (demo_config i) = (2, 3 / 8)" for i
    by (simp_all add: params_2d_def params_2d_nhd_def demo_config_def MATCH_THRESHOLD_RATIO_def)
  have f: "factor_of (spaced 2 (3 / 8) (Suc 0)) = 40960" "factor_of (spaced 2 (3 / 8) (Suc (Suc 0))) = 16384"
    unfolding factor_of_def spaced_def by code_simp+
  have up: "[0..<2] = [0, Suc 0]" by (simp add: upt_rec)
  have cells: "map (\<lambda>(i, j). (cross_count (first_at (within_fhd 2 (3 / 8))) (first_at (within_fhd 2 (3 / 8))) (zip ?ls ?rs) i j)) (List.product [0..<2] [0..<2]) = [1, 0, 1, 0]"
    by (simp add: up f cross_count_def first_at_def within_fhd_def fhd_def fhd_limit_def)
  have r: "map (\<lambda>c. (bucket2d_count c, left_hamming_distance_bucket c, right_hamming_distance_bucket c)) (buckets2d s) =
      [(1, even_limits 2 (3 / 8) 0, even_limits 2 (3 / 8) 0), (1, even_limits 2 (3 / 8) 1, even_limits 2 (3 / 8) 0)]"
    if "job_result_2d z 2 (even_limits 2 (3 / 8)) (cross_count (first_at (within_fhd 2 (3 / 8))) (first_at (within_fhd 2 (3 / 8))) (zip ?ls ?rs)) c s" for z c s
    using that cells by (simp add: job_result_2d_def up del: zip_Cons_Cons)
  have q: "\<forall>i. params_2d None (demo_config (usize_from_party i)) = (2, 3 / 8)" "\<forall>i. params_2d_nhd None (demo_config (usize_from_party i)) = (2, 3 / 8)"
    "1 / 2 ^ 100 \<le> (3 / 8 :: rat)" "(3 / 8 :: rat) \<le> 1 / 2" using p by simp_all
  have size2: "n_buckets_per_side s = 2 \<and> match_distances_buffer_size2d s = 3" if "job_result_2d (length ?rs) 2 e h c s" for e h c s
    using that by (simp add: job_result_2d_def)
  note job = jobs_report_histograms_of_pairs [where G = demo_rng and job = demo_job_2d and config = "\<lambda>i. demo_config (usize_from_party i)"
      and clock = "\<lambda>_. (5, 9)" and start = None and lifted_job = demo_lifted_2d and u48_job = demo_lifted48_2d, OF demo_linked g ok(1,2) q(1) ok(3) q(2) ok(3) q(3,4) g']
  show ?thesis
    by (intro conjI always_finishes_weaken [OF conjunct1 [OF job]] always_finishes_weaken [OF conjunct1 [OF conjunct2 [OF job]]]
        always_finishes_weaken [OF conjunct1 [OF conjunct2 [OF conjunct2 [OF job]]]] always_finishes_weaken [OF conjunct1 [OF conjunct2 [OF conjunct2 [OF conjunct2 [OF job]]]]])
      (blast intro: r, blast dest: size2, blast intro: r, blast dest: size2)
qed

text \<open>
  C14: histograms of pairs of scores, end to end. Three linked parties hold shares of signed
  sixteen bit scores of both eyes whose differences with the ascending thresholds fit in
  sixteen bits. All of them finish under any interleaving and without a panic, and each ends
  with the same histogram: the cell of the buckets \<open>a\<close> and \<open>b\<close> counts the pairs of scores that
  are below threshold \<open>a\<close> and below threshold \<open>b\<close> and not below the thresholds before them.
  Scores from the last threshold on are in no bucket.
\<close>

theorem score_jobs_report_histograms_of_pairs:
  fixes S :: "PartyID \<Rightarrow> 'r session" and G :: "'r prf_rng" and job :: "PartyID \<Rightarrow> (u16 share \<times> u16 share) AnonStatsMapping"
  assumes "linked addr sid S"
    and "int_sharing word_ring (\<lambda>_. True) uint (\<lambda>i. map fst (into_bundles (job i))) us" "int_sharing word_ring (\<lambda>_. True) uint (\<lambda>i. map snd (into_bundles (job i))) vs"
    and "\<forall>i. di_2d_bucket_thresholds (config i) = ts" "sorted (map sint ts)" "face_ok ts us" "face_ok ts vs"
    and "length vs + 64 \<le> MAX_LEN" "length ts * length ts < MAX_LEN"
  shows "always_finishes addr (\<lambda>i. process_di_2d_anon_stats_job G (clock i) (job i) origin (config i) op start rate lm rm (S i))
      (\<lambda>r. (\<forall>i. job_result_2d (length vs) (length ts) (di_limits ts)
               (\<lambda>a b. length (filter (\<lambda>(u, v). first_at (score_below ts) a u \<and> first_at (score_below ts) b v) (zip us vs))) (config i) (fst (r i)))
         \<and> linked addr sid (\<lambda>i. snd (r i)))"
proof -
  have "cross_count (first_at (score_below ts)) (first_at (score_below ts)) (zip us vs) =
      (\<lambda>a b. length (filter (\<lambda>(u, v). first_at (score_below ts) a u \<and> first_at (score_below ts) b v) (zip us vs)))"
    by (intro ext) (rule cross_count_def)
  then show ?thesis
    using computes_always_finishes [OF computes_di_job [where G = G and addr = addr and sid = sid and clock = clock and job = job and config = config
          and origin = origin and op = op and start = start and rate = rate and lm = lm and rm = rm, OF assms(2,3) _ assms(5-9)] assms(1)] assms(4) by simp
qed

definition demo_scores :: "PartyID \<Rightarrow> (u16 share \<times> u16 share) AnonStatsMapping" where
  "demo_scores i = \<lparr>stats = zip [1, 2, 3] (zip (demo_faces [- 5, 700, 2000] i) (demo_faces [900, 30, 10] i))\<rparr>"

theorem score_jobs_report_histograms_of_pairs_witness:
  "always_finishes demo_addr (\<lambda>i. process_di_2d_anon_stats_job demo_rng (5, 9) (demo_scores i) \<lparr>side = None, orientation = Normal, origin_context = DI\<rparr>
        (demo_config (usize_from_party i)) None None 10 True False (demo_session i))
      (\<lambda>r. \<forall>i. buckets2d (fst (r i)) =
        [\<lparr>bucket2d_count = 1, left_hamming_distance_bucket = (Some (- 32768), Some 0), right_hamming_distance_bucket = (Some 0, Some 1000)\<rparr>,
         \<lparr>bucket2d_count = 1, left_hamming_distance_bucket = (Some 0, Some 1000), right_hamming_distance_bucket = (Some 0, Some 1000)\<rparr>])"
proof -
  let ?us = "[- 5, 700, 2000] :: int list" and ?vs = "[900, 30, 10] :: int list" and ?ts = "[0, 1000] :: 16 word list"
  have len: "length (demo_faces vs i) = length vs" for vs i using int_sharing_length [OF demo_faces_sharing] .
  have rows: "map fst (into_bundles (demo_scores i)) = demo_faces ?us i" "map snd (into_bundles (demo_scores i)) = demo_faces ?vs i" for i
    by (simp_all add: demo_scores_def into_bundles_def len)
  have s: "int_sharing word_ring (\<lambda>_. True) uint (\<lambda>i. map fst (into_bundles (demo_scores i))) ?us" "int_sharing word_ring (\<lambda>_. True) uint (\<lambda>i. map snd (into_bundles (demo_scores i))) ?vs"
    unfolding rows by (rule demo_faces_sharing)+
  have up: "[0..<length ?ts] = [0, 1]" by (simp add: upt_rec)
  note job = score_jobs_report_histograms_of_pairs [where G = demo_rng and job = demo_scores and config = "\<lambda>i. demo_config (usize_from_party i)" and ts = ?ts
      and clock = "\<lambda>_. (5, 9)" and start = None, OF demo_linked s]
  show ?thesis
    by (rule always_finishes_weaken [OF job])
      (simp_all add: demo_config_def face_ok_def MAX_LEN_def job_result_2d_def up first_at_def score_below_def di_limits_def)
qed

end
