(* ===== verification/Job_Sync.thy ===== *)
theory Job_Sync
  imports Reshare
begin

text \<open>
  Agreement between the parties before a job (\<open>ampc-actor-utils/src/sync.rs\<close> and
  \<open>ampc-anon-stats/src/server/sync.rs\<close>): on the digest of a request, on its validity, on the
  number of rows and on the digest of their identifiers. Every party sends its value to both
  neighbours and waits for theirs.
\<close>

section \<open>Exchange of values\<close>

definition JOB_HASH_LEN :: nat where
  "JOB_HASH_LEN = 32"

text \<open>The four rounds all functions below start with.\<close>

definition exchange :: "NetworkValue \<Rightarrow> ('r session, NetworkValue \<times> NetworkValue) comp" where
  "exchange value =
     cbind (send_next value) (\<lambda>_.
     cbind (send_prev value) (\<lambda>_.
     cbind receive_next (\<lambda>n. cbind (ctry n) (\<lambda>next_value.
     cbind receive_prev (\<lambda>p. cbind (ctry p) (\<lambda>prev_value. cret (next_value, prev_value)))))))"

text \<open>The values in the order of the roles.\<close>

definition broadcast :: "NetworkValue \<Rightarrow> ('r session, NetworkValue list) comp" where
  "broadcast value =
     cbind (exchange value) (\<lambda>(next_value, prev_value).
     cbind (cread own_role) (\<lambda>role.
       if role_index role = 0 then cret [value, next_value, prev_value]
       else if role_index role = 1 then cret [prev_value, value, next_value]
       else if role_index role = 2 then cret [next_value, prev_value, value]
       else cstop (Bail ''Invalid party id'')))"

text \<open>The first error of a list of results.\<close>

fun collect_results :: "('x \<Rightarrow> 'e + 'y) \<Rightarrow> 'x list \<Rightarrow> 'e + 'y list" where
  "collect_results f [] = Inr []"
| "collect_results f (x # xs) =
     (case f x of Inl e \<Rightarrow> Inl e | Inr y \<Rightarrow> (case collect_results f xs of Inl e \<Rightarrow> Inl e | Inr ys \<Rightarrow> Inr (y # ys)))"

section \<open>Digest and validity of a request\<close>

definition hash_bytes :: "NetworkValue \<Rightarrow> proto_error + u8 list" where
  "hash_bytes nv =
     (case nv of
        Bytes b \<Rightarrow> if length b = JOB_HASH_LEN then Inr b else Inl (Bail ''Unexpected network value in job hash sync (expected 32 bytes)'')
      | _ \<Rightarrow> Inl (Bail ''Unexpected network value in job hash sync (expected 32 bytes)''))"

definition sync_on_job_hash :: "u8 list \<Rightarrow> ('r session, bool) comp" where
  "sync_on_job_hash hash =
     cbind (broadcast (Bytes hash)) (\<lambda>nvs.
     cbind (ctry (collect_results hash_bytes nvs)) (\<lambda>all_bytes.
       cret (all_bytes ! 0 = all_bytes ! 1 \<and> all_bytes ! 1 = all_bytes ! 2)))"

text \<open>The loop over the frames of both neighbours.\<close>

fun check_validity :: "u8 list \<Rightarrow> bool \<Rightarrow> NetworkValue list \<Rightarrow> proto_error + bool" where
  "check_validity hash all_valid [] = Inr all_valid"
| "check_validity hash all_valid (peer # peers) =
     (case peer of
        Bytes bytes \<Rightarrow>
          if length bytes \<noteq> JOB_HASH_LEN + 1 then Inl (Bail ''Unexpected frame length in job validity sync'')
          else if take JOB_HASH_LEN bytes \<noteq> hash then Inl (Bail ''Mismatched job hashes in job validity sync'')
          else if bytes ! JOB_HASH_LEN = 0 then check_validity hash False peers
          else if bytes ! JOB_HASH_LEN = 1 then check_validity hash all_valid peers
          else Inl (Bail ''Invalid validity flag in job validity sync'')
      | _ \<Rightarrow> Inl (Bail ''Unexpected network value in job validity sync (expected bytes)''))"

definition sync_on_job_validity :: "u8 list \<Rightarrow> bool \<Rightarrow> ('r session, bool) comp" where
  "sync_on_job_validity hash valid =
     (let frame = hash @ [of_bool valid]
      in cbind (exchange (Bytes frame)) (\<lambda>(from_next, from_prev).
           ctry (check_validity hash valid [from_next, from_prev])))"

section \<open>Number and digest of the rows\<close>

definition u64_of_value :: "NetworkValue \<Rightarrow> proto_error + u64" where
  "u64_of_value nv =
     (case nv of
        Bytes b \<Rightarrow> if length b \<noteq> 8 then Inl (Bail ''Unexpected byte length for usize'') else Inr (from_le_bytes (take 8 b))
      | _ \<Rightarrow> Inl (Bail ''Unexpected network value type''))"

definition broadcast_u64 :: "u64 \<Rightarrow> ('r session, u64 list) comp" where
  "broadcast_u64 value =
     cbind (broadcast (Bytes (to_le_bytes 8 value))) (\<lambda>nvs. ctry (collect_results u64_of_value nvs))"

text \<open>Both conversions are total on a target with 64 bit sizes.\<close>

definition broadcast_usize :: "nat \<Rightarrow> ('r session, nat list) comp" where
  "broadcast_usize value = cbind (broadcast_u64 (of_nat value)) (\<lambda>xs. cret (map unat xs))"

definition sync_on_job_sizes :: "nat \<Rightarrow> ('r session, nat) comp" where
  "sync_on_job_sizes job_size = cbind (broadcast_usize job_size) (\<lambda>sizes. cret (min_list sizes))"

definition sync_on_id_hash :: "u64 \<Rightarrow> ('r session, bool) comp" where
  "sync_on_id_hash id_hash =
     cbind (broadcast_u64 id_hash) (\<lambda>broadcast_hashes. cret (list_all (\<lambda>h. h = id_hash) broadcast_hashes))"

section \<open>Executions\<close>

text \<open>A program with its error as a result, to speak of parties that stop.\<close>

primrec settle :: "('e, 'a) proto \<Rightarrow> ('f, 'e + 'a) proto" where
  "settle (Ret x) = Ret (Inr x)"
| "settle (Stop e) = Ret (Inl e)"
| "settle (Send d m p) = Send d m (settle p)"
| "settle (Recv d k) = Recv d (\<lambda>m. settle (k m))"

lemma delivers_exchange_both:
  fixes T :: "(proto_error, 'b \<times> 'r session) proto \<Rightarrow> ('f, 'c) proto"
  assumes "net_linked addr sid S" and v: "\<And>i. arrives (v i) (w i)"
    and T: "\<And>d m p. T (Send d m p) = Send d m (T p)" "\<And>d k. T (Recv d k) = Recv d (\<lambda>m. T (k m))"
    and f: "delivers addr (\<lambda>i. T (f i (w (next_id i), w (prev_id i)) (S i))) ys"
  shows "delivers addr (\<lambda>i. T (cbind (exchange (v i)) (f i) (S i))) ys"
proof -
  obtain bs where bs: "to_network (v i) = Ok (bs i)" "deserialize (bs i) = Ok (w i)" for i
    using v unfolding arrives_def by metis
  have inj: "inj addr" using assms(1) by (rule net_linked_inj)
  note eqs = sends_eq [OF net_linked_at [OF assms(1)] bs(1)] receives_eq [OF net_linked_at [OF assms(1)]]
  define k where "k = (\<lambda>i x b. T (pbind (case deserialize b of Panic \<Rightarrow> Stop Panicked | r \<Rightarrow> Ret (of_outcome r, S i))
    (\<lambda>(p, s). cbind (ctry p) (\<lambda>y. f i (x, y)) s)))"
  define c where "c = (\<lambda>i b. T (pbind (case deserialize b of Panic \<Rightarrow> Stop Panicked | r \<Rightarrow> Ret (of_outcome r, S i))
    (\<lambda>(n, s). cbind (ctry n) (\<lambda>x. cbind receive_prev (\<lambda>p. cbind (ctry p) (\<lambda>y. f i (x, y)))) s)))"
  have P: "T (cbind (exchange (v i)) (f i) (S i)) = Send (addr (next_id i)) (bs i) (Send (addr (prev_id i)) (bs i) (Recv (addr (next_id i)) (c i)))" for i
    unfolding exchange_def cbind_assoc cbind_cret c_def by (simp add: cbind_def [abs_def] eqs T)
  have C: "c i (bs (next_id i)) = Recv (addr (prev_id i)) (k i (w (next_id i)))" for i
    unfolding c_def k_def by (simp add: cbind_def [abs_def] eqs T bs(2) of_outcome_def ctry_def cret_def)
  have K: "k i (w (next_id i)) (bs (prev_id i)) = T (f i (w (next_id i), w (prev_id i)) (S i))" for i
    unfolding k_def by (simp add: cbind_def bs(2) of_outcome_def ctry_def cret_def)
  show ?thesis
  proof (rule delivers_schedule [where sch = "[ID0, ID0, ID1, ID1, ID2, ID2, ID0, ID0, ID1, ID1, ID2, ID2]"])
    show "run_schedule addr [ID0, ID0, ID1, ID1, ID2, ID2, ID0, ID0, ID1, ID1, ID2, ID2] (\<lambda>i. T (cbind (exchange (v i)) (f i) (S i)), no_messages)
      = Some (\<lambda>i. T (f i (w (next_id i), w (prev_id i)) (S i)), no_messages)"
      unfolding P using C [of ID0] C [of ID1] C [of ID2] K [of ID0] K [of ID1] K [of ID2]
      by (simp add: no_messages_def inj_addr [OF inj] PartyID_fun_eq fun_eq_iff [where 'a = "Identity \<times> Identity"])
  qed (simp_all add: f)
qed

lemma computes_exchange:
  fixes f :: "PartyID \<Rightarrow> NetworkValue \<times> NetworkValue \<Rightarrow> ('r session, 'b) comp"
  assumes v: "\<And>i. arrives (v i) (v i)" and f: "computes addr sid (\<lambda>i. f i (v (next_id i), v (prev_id i))) Q"
  shows "computes addr sid (\<lambda>i. cbind (exchange (v i)) (f i)) Q"
  unfolding computes_def
proof (intro allI impI)
  fix S :: "PartyID \<Rightarrow> 'r session" assume S: "linked addr sid S"
  then obtain r S' where r: "delivers addr (\<lambda>i. f i (v (next_id i), v (prev_id i)) (S i)) (\<lambda>i. (r i, S' i))" "linked addr sid S'" "Q r"
    using f unfolding computes_def by blast
  have "net_linked addr sid S" using S by (simp add: linked_def)
  from delivers_exchange_both [where T = "\<lambda>p. p" and f = f and v = v and w = v and S = S, OF this v refl refl r(1)] r(2,3)
  show "\<exists>r S'. delivers addr (\<lambda>i. cbind (exchange (v i)) (f i) (S i)) (\<lambda>i. (r i, S' i)) \<and> linked addr sid S' \<and> Q r" by blast
qed

lemma computes_broadcast:
  assumes "\<And>i. arrives (v i) (v i)"
  shows "computes addr sid (\<lambda>i. broadcast (v i) :: ('r session, NetworkValue list) comp) (\<lambda>r. \<forall>i. r i = [v ID0, v ID1, v ID2])"
  unfolding broadcast_def
proof (rule computes_exchange [OF assms], unfold case_prod_conv, rule computes_read_role)
  have "(if role_index (Role (u8_from_party i)) = 0 then cret [v i, v (next_id i), v (prev_id i)]
      else if role_index (Role (u8_from_party i)) = 1 then cret [v (prev_id i), v i, v (next_id i)]
      else if role_index (Role (u8_from_party i)) = 2 then cret [v (next_id i), v (prev_id i), v i] else cstop (Bail ''Invalid party id''))
    = (cret [v ID0, v ID1, v ID2] :: ('r session, NetworkValue list) comp)" for i
    unfolding role_index_party by (cases i) simp_all
  then show "computes addr sid (\<lambda>i. if role_index (Role (u8_from_party i)) = 0 then cret [v i, v (next_id i), v (prev_id i)]
      else if role_index (Role (u8_from_party i)) = 1 then cret [v (prev_id i), v i, v (next_id i)]
      else if role_index (Role (u8_from_party i)) = 2 then cret [v (next_id i), v (prev_id i), v i] else cstop (Bail ''Invalid party id'') :: ('r session, NetworkValue list) comp)
    (\<lambda>r. \<forall>i. r i = [v ID0, v ID1, v ID2])"
    by (simp only:) (simp add: computes_cret)
qed

lemma bytes_arrive: "length b < 2 ^ 32 \<Longrightarrow> arrives (Bytes b) (Bytes b)"
  by (rule plain_arrives) simp

lemma computes_job_hash:
  assumes "\<And>i. length (h i) = JOB_HASH_LEN"
  shows "computes addr sid (\<lambda>i. sync_on_job_hash (h i) :: ('r session, bool) comp) (\<lambda>r. \<forall>i. r i = (h ID0 = h ID1 \<and> h ID1 = h ID2))"
  unfolding sync_on_job_hash_def
proof (rule computes_cbind [OF computes_broadcast])
  show "arrives (Bytes (h i)) (Bytes (h i))" for i by (rule bytes_arrive) (simp add: assms JOB_HASH_LEN_def)
  fix r :: "PartyID \<Rightarrow> NetworkValue list" assume "\<forall>i. r i = [Bytes (h ID0), Bytes (h ID1), Bytes (h ID2)]"
  then have r: "r i = [Bytes (h ID0), Bytes (h ID1), Bytes (h ID2)]" for i by blast
  show "computes addr sid (\<lambda>i. cbind (ctry (collect_results hash_bytes (r i))) (\<lambda>b. cret (b ! 0 = b ! 1 \<and> b ! 1 = b ! 2)) :: ('r session, bool) comp)
      (\<lambda>r. \<forall>i. r i = (h ID0 = h ID1 \<and> h ID1 = h ID2))"
    unfolding r by (simp add: hash_bytes_def assms computes_cret)
qed

lemma computes_broadcast_u64:
  "computes addr sid (\<lambda>i. broadcast_u64 (x i) :: ('r session, u64 list) comp) (\<lambda>r. \<forall>i. r i = [x ID0, x ID1, x ID2])"
  unfolding broadcast_u64_def
proof (rule computes_cbind [OF computes_broadcast])
  show "arrives (Bytes (to_le_bytes 8 (x i))) (Bytes (to_le_bytes 8 (x i)))" for i by (rule bytes_arrive) simp
  fix r :: "PartyID \<Rightarrow> NetworkValue list" assume "\<forall>i. r i = [Bytes (to_le_bytes 8 (x ID0)), Bytes (to_le_bytes 8 (x ID1)), Bytes (to_le_bytes 8 (x ID2))]"
  then have r: "r i = [Bytes (to_le_bytes 8 (x ID0)), Bytes (to_le_bytes 8 (x ID1)), Bytes (to_le_bytes 8 (x ID2))]" for i by blast
  have u: "u64_of_value (Bytes (to_le_bytes 8 w)) = Inr w" for w by (simp add: u64_of_value_def from_to_le_bytes_id)
  show "computes addr sid (\<lambda>i. ctry (collect_results u64_of_value (r i)) :: ('r session, u64 list) comp) (\<lambda>r. \<forall>i. r i = [x ID0, x ID1, x ID2])"
    unfolding r by (simp add: u computes_cret)
qed

lemma computes_job_sizes:
  assumes "\<And>i. n i < 2 ^ 64"
  shows "computes addr sid (\<lambda>i. sync_on_job_sizes (n i) :: ('r session, nat) comp) (\<lambda>r. \<forall>i. r i = min (n ID0) (min (n ID1) (n ID2)))"
proof -
  have "unat (of_nat (n i) :: u64) = n i" for i using assms [of i] by (simp add: unat_of_nat)
  then have min: "min_list (map unat [of_nat (n ID0), of_nat (n ID1), of_nat (n ID2) :: u64]) = min (n ID0) (min (n ID1) (n ID2))" by simp
  show ?thesis
    unfolding sync_on_job_sizes_def broadcast_usize_def cbind_assoc cbind_cret
    by (rule computes_cbind [OF computes_broadcast_u64]) (use min in \<open>auto intro!: computes_cret\<close>)
qed

lemma computes_id_hash:
  "computes addr sid (\<lambda>i. sync_on_id_hash (x i) :: ('r session, bool) comp) (\<lambda>r. \<forall>i. r i = (x ID0 = x ID1 \<and> x ID1 = x ID2))"
  unfolding sync_on_id_hash_def
proof (rule computes_cbind [OF computes_broadcast_u64], rule computes_cret, rule allI)
  fix r :: "PartyID \<Rightarrow> u64 list" and i assume "\<forall>i. r i = [x ID0, x ID1, x ID2]"
  then show "list_all (\<lambda>h. h = x i) (r i) = (x ID0 = x ID1 \<and> x ID1 = x ID2)" by (cases i) auto
qed

text \<open>Validity: the answer of a party, or its error.\<close>

lemma check_frames:
  assumes "length hash = JOB_HASH_LEN" "length h = JOB_HASH_LEN" "length k = JOB_HASH_LEN"
  shows "check_validity hash valid [Bytes (h @ [of_bool b]), Bytes (k @ [of_bool c])] =
    (if h = hash \<and> k = hash then Inr (valid \<and> b \<and> c) else Inl (Bail ''Mismatched job hashes in job validity sync''))"
  using assms by (simp add: nth_append)

lemma delivers_job_validity:
  fixes S :: "PartyID \<Rightarrow> 'r session"
  assumes S: "linked addr sid S" and len: "\<And>i. length (h i) = JOB_HASH_LEN"
  shows "delivers addr (\<lambda>i. settle (sync_on_job_validity (h i) (valid i) (S i)) :: (unit, proto_error + bool \<times> 'r session) proto)
    (\<lambda>i. if h ID0 = h ID1 \<and> h ID1 = h ID2 then Inr (valid ID0 \<and> valid ID1 \<and> valid ID2, S i)
         else Inl (Bail ''Mismatched job hashes in job validity sync''))"
  unfolding sync_on_job_validity_def Let_def
proof (rule delivers_exchange_both [where T = settle])
  show "net_linked addr sid S" using S by (simp add: linked_def)
  show "arrives (Bytes (h i @ [of_bool (valid i)])) (Bytes (h i @ [of_bool (valid i)]))" for i by (rule bytes_arrive) (simp add: len JOB_HASH_LEN_def)
  have eq: "settle (ctry (check_validity (h i) (valid i) [Bytes (h (next_id i) @ [of_bool (valid (next_id i))]), Bytes (h (prev_id i) @ [of_bool (valid (prev_id i))])]) (S i)) =
      Ret (if h ID0 = h ID1 \<and> h ID1 = h ID2 then Inr (valid ID0 \<and> valid ID1 \<and> valid ID2, S i) else Inl (Bail ''Mismatched job hashes in job validity sync''))" for i
    unfolding check_frames [OF len len len] by (cases i) (auto simp: ctry_def cret_def cstop_def)
  show "delivers addr (\<lambda>i. settle ((case (Bytes (h (next_id i) @ [of_bool (valid (next_id i))]), Bytes (h (prev_id i) @ [of_bool (valid (prev_id i))])) of
      (from_next, from_prev) \<Rightarrow> ctry (check_validity (h i) (valid i) [from_next, from_prev])) (S i)))
    (\<lambda>i. if h ID0 = h ID1 \<and> h ID1 = h ID2 then Inr (valid ID0 \<and> valid ID1 \<and> valid ID2, S i) else Inl (Bail ''Mismatched job hashes in job validity sync''))"
    unfolding case_prod_conv eq by (rule delivers_Ret)
qed simp_all

section \<open>A party that deviates\<close>

text \<open>
  Party \<open>b\<close> takes part in the exchange, but with any message \<open>v\<close> in place of its own; \<open>w\<close> is
  what its neighbours read from the bytes of \<open>v\<close>.
\<close>

lemma all_PartyID: "(\<forall>j. P j) \<longleftrightarrow> P ID0 \<and> P ID1 \<and> P ID2"
  by (metis PartyID.exhaust)

definition rogue :: "PartyID \<Rightarrow> NetworkValue \<Rightarrow> 'a \<Rightarrow> (PartyID \<Rightarrow> ('r session, 'a) comp) \<Rightarrow> PartyID \<Rightarrow> ('r session, 'a) comp" where
  "rogue b v x P i = (if i = b then cbind (exchange v) (\<lambda>_. cret x) else P i)"

lemma delivers_rogue_exchange:
  fixes S :: "PartyID \<Rightarrow> 'r session"
  assumes S: "net_linked addr sid S" and v: "arrives v w" and u: "\<And>i. arrives (u i) (u i)"
    and k: "\<And>i. i \<noteq> b \<Longrightarrow> settle (k i ((u(b := w)) (next_id i), (u(b := w)) (prev_id i)) (S i)) = (Ret (ys i) :: (unit, proto_error + 'a \<times> 'r session) proto)"
  shows "delivers addr (\<lambda>i. settle (rogue b v x (\<lambda>i. cbind (exchange (u i)) (k i)) i (S i)) :: (unit, proto_error + 'a \<times> 'r session) proto)
    (ys(b := Inr (x, S b)))"
proof -
  have eq: "rogue b v x (\<lambda>i. cbind (exchange (u i)) (k i)) i = cbind (exchange ((u(b := v)) i)) ((k(b := \<lambda>_. cret x)) i)" for i
    by (simp add: rogue_def)
  have "settle ((k(b := \<lambda>_. cret x)) i ((u(b := w)) (next_id i), (u(b := w)) (prev_id i)) (S i)) = (Ret ((ys(b := Inr (x, S b))) i) :: (unit, proto_error + 'a \<times> 'r session) proto)" for i
    using k [of i] by (auto simp: cret_def)
  then have "delivers addr (\<lambda>i. settle ((k(b := \<lambda>_. cret x)) i ((u(b := w)) (next_id i), (u(b := w)) (prev_id i)) (S i)) :: (unit, proto_error + 'a \<times> 'r session) proto)
      (ys(b := Inr (x, S b)))" by (simp only: delivers_Ret)
  moreover have "arrives ((u(b := v)) i) ((u(b := w)) i)" for i using v u by simp
  ultimately show ?thesis unfolding eq using S by (intro delivers_exchange_both [where T = settle and w = "u(b := w)"]) simp_all
qed

lemma delivers_rogue_broadcast:
  fixes S :: "PartyID \<Rightarrow> 'r session"
  assumes S: "net_linked addr sid S" and v: "arrives v w" and u: "\<And>i. arrives (u i) (u i)"
    and k: "\<And>i. i \<noteq> b \<Longrightarrow> settle (k i (map (u(b := w)) [ID0, ID1, ID2]) (S i)) = (Ret (ys i) :: (unit, proto_error + 'a \<times> 'r session) proto)"
  shows "delivers addr (\<lambda>i. settle (rogue b v x (\<lambda>i. cbind (broadcast (u i)) (k i)) i (S i)) :: (unit, proto_error + 'a \<times> 'r session) proto)
    (ys(b := Inr (x, S b)))"
  unfolding broadcast_def cbind_assoc
proof (rule delivers_rogue_exchange [OF S v u])
  fix i assume i: "i \<noteq> b"
  have "own_role (S i) = Role (u8_from_party i)" for i using S by (simp add: net_linked_def net_at_def)
  then have role: "role_index (own_role (S i)) = usize_from_party i" for i by (simp only: role_index_party)
  have "cbind (case ((u(b := w)) (next_id i), (u(b := w)) (prev_id i)) of (next_value, prev_value) \<Rightarrow> cbind (cread own_role) (\<lambda>role.
      if role_index role = 0 then cret [u i, next_value, prev_value] else if role_index role = 1 then cret [prev_value, u i, next_value]
      else if role_index role = 2 then cret [next_value, prev_value, u i] else cstop (Bail ''Invalid party id''))) (k i) (S i)
    = k i (map (u(b := w)) [ID0, ID1, ID2]) (S i)"
    using i by (cases i) (auto simp: cbind_def cread_def role cret_def)
  then show "settle (cbind (case ((u(b := w)) (next_id i), (u(b := w)) (prev_id i)) of (next_value, prev_value) \<Rightarrow> cbind (cread own_role) (\<lambda>role.
      if role_index role = 0 then cret [u i, next_value, prev_value] else if role_index role = 1 then cret [prev_value, u i, next_value]
      else if role_index role = 2 then cret [next_value, prev_value, u i] else cstop (Bail ''Invalid party id''))) (k i) (S i)) = (Ret (ys i) :: (unit, proto_error + 'a \<times> 'r session) proto)"
    using k [OF i] by simp
qed

text \<open>Reading one value too many or too few, of another kind or with another flag is an error.\<close>

lemma check_validity_peer:
  assumes "length h = JOB_HASH_LEN"
  shows "check_validity h a (Bytes (h @ [of_bool f]) # ps) = check_validity h (a \<and> f) ps"
    "\<nexists>f. w = Bytes (h @ [of_bool f]) \<Longrightarrow> \<exists>e. check_validity h a (w # ps) = Inl (Bail e)"
proof -
  show "check_validity h a (Bytes (h @ [of_bool f]) # ps) = check_validity h (a \<and> f) ps" using assms by (cases f) (simp_all add: nth_append)
  assume no: "\<nexists>f. w = Bytes (h @ [of_bool f])"
  show "\<exists>e. check_validity h a (w # ps) = Inl (Bail e)"
  proof (cases w)
    case (Bytes b)
    show ?thesis
    proof (cases "length b = JOB_HASH_LEN + 1 \<and> take JOB_HASH_LEN b = h")
      case True
      then have b: "b = h @ [b ! JOB_HASH_LEN]" by (metis append_take_drop_id Cons_nth_drop_Suc add.commute drop_all lessI plus_1_eq_Suc order_refl)
      have "b ! JOB_HASH_LEN \<noteq> of_bool f" for f using no Bytes b by metis
      from this [of False] this [of True] show ?thesis using Bytes True by simp
    qed (use Bytes in auto)
  qed simp_all
qed

lemma check_validity_rogue:
  assumes "length h = JOB_HASH_LEN"
  shows "\<nexists>f. w = Bytes (h @ [of_bool f]) \<Longrightarrow> \<exists>e. check_validity h a [Bytes (h @ [of_bool c]), w] = Inl (Bail e)"
    "\<nexists>f. w = Bytes (h @ [of_bool f]) \<Longrightarrow> \<exists>e. check_validity h a [w, Bytes (h @ [of_bool c])] = Inl (Bail e)"
    "check_validity h a [Bytes (h @ [of_bool f]), Bytes (h @ [of_bool g])] = Inr (a \<and> f \<and> g)"
  using check_validity_peer [OF assms] by (auto simp del: check_validity.simps(2))

lemma rogue_validity:
  fixes S :: "PartyID \<Rightarrow> 'r session"
  assumes S: "linked addr sid S" and v: "arrives v w" and len: "length h = JOB_HASH_LEN"
  shows "always_finishes addr (\<lambda>i. settle (rogue b v False (\<lambda>i. sync_on_job_validity h (valid i)) i (S i)) :: (unit, proto_error + bool \<times> 'r session) proto)
    (\<lambda>r. \<forall>i. i \<noteq> b \<longrightarrow> (if \<exists>f. w = Bytes (h @ [of_bool f]) then r i = Inr ((\<forall>j. j \<noteq> b \<longrightarrow> valid j) \<and> w = Bytes (h @ [1]), S i)
       else \<exists>e. r i = Inl (Bail e)))"
proof -
  let ?u = "\<lambda>i. Bytes (h @ [of_bool (valid i)])"
  define c where "c i = check_validity h (valid i) [((?u)(b := w)) (next_id i), ((?u)(b := w)) (prev_id i)]" for i
  have ok: "i \<noteq> b \<Longrightarrow> c i = Inr ((\<forall>j. j \<noteq> b \<longrightarrow> valid j) \<and> f)" if "w = Bytes (h @ [of_bool f])" for i f
    unfolding c_def that by (cases i; cases b) (simp_all add: check_validity_rogue(3) [OF len] all_PartyID del: check_validity.simps(2), blast+)
  have bad: "i \<noteq> b \<Longrightarrow> \<exists>e. c i = Inl (Bail e)" if "\<nexists>f. w = Bytes (h @ [of_bool f])" for i
    unfolding c_def using check_validity_rogue(1,2) [OF len that] by (cases i; cases b) (simp_all del: check_validity.simps(2))
  have one: "w = Bytes (h @ [1]) \<longleftrightarrow> f" if "w = Bytes (h @ [of_bool f])" for f using that by (cases f) simp_all
  have "delivers addr (\<lambda>i. settle (rogue b v False (\<lambda>i. sync_on_job_validity h (valid i)) i (S i)) :: (unit, proto_error + bool \<times> 'r session) proto)
    ((\<lambda>i. map_sum id (\<lambda>x. (x, S i)) (c i))(b := Inr (False, S b)))"
    unfolding sync_on_job_validity_def Let_def
  proof (rule delivers_rogue_exchange [OF _ v])
    show "net_linked addr sid S" using S by (simp add: linked_def)
    show "arrives (?u i) (?u i)" for i by (rule bytes_arrive) (simp add: len JOB_HASH_LEN_def)
    show "settle ((case (((?u)(b := w)) (next_id i), ((?u)(b := w)) (prev_id i)) of (from_next, from_prev) \<Rightarrow> ctry (check_validity h (valid i) [from_next, from_prev])) (S i))
      = Ret (map_sum id (\<lambda>x. (x, S i)) (c i))" for i
      unfolding case_prod_conv c_def [symmetric] by (cases "c i") (simp_all add: ctry_def cret_def cstop_def)
  qed
  then show ?thesis
  proof (rule delivers_always_finishes [rotated])
    show "inj addr" using S net_linked_inj by (auto simp: linked_def)
    show "\<forall>i. i \<noteq> b \<longrightarrow> (if \<exists>f. w = Bytes (h @ [of_bool f]) then ((\<lambda>i. map_sum id (\<lambda>x. (x, S i)) (c i))(b := Inr (False, S b))) i = Inr ((\<forall>j. j \<noteq> b \<longrightarrow> valid j) \<and> w = Bytes (h @ [1]), S i)
       else \<exists>e. ((\<lambda>i. map_sum id (\<lambda>x. (x, S i)) (c i))(b := Inr (False, S b))) i = Inl (Bail e))"
    proof (cases "\<exists>f. w = Bytes (h @ [of_bool f])")
      case True
      then obtain f where f: "w = Bytes (h @ [of_bool f])" by blast
      show ?thesis using True ok [OF f] one [OF f] by simp
    next
      case False
      show ?thesis using bad [OF False] False by fastforce
    qed
  qed
qed

text \<open>The exchanges in the order of the roles: what the parties make of the three values.\<close>

lemma rogue_broadcast:
  fixes S :: "PartyID \<Rightarrow> 'r session"
  assumes S: "linked addr sid S" and v: "arrives v w" and u: "\<And>i. length (u i) < 2 ^ 32"
    and ok: "\<And>i y. i \<noteq> b \<Longrightarrow> conv w = Inr y \<Longrightarrow> collect_results conv (map ((\<lambda>i. Bytes (u i))(b := w)) [ID0, ID1, ID2]) = Inr (ys y)"
    and bad: "\<And>e. conv w = Inl e \<Longrightarrow> collect_results conv (map ((\<lambda>i. Bytes (u i))(b := w)) [ID0, ID1, ID2]) = Inl e"
  shows "always_finishes addr (\<lambda>i. settle (rogue b v x (\<lambda>i. cbind (broadcast (Bytes (u i))) (\<lambda>nvs. cbind (ctry (collect_results conv nvs)) (\<lambda>zs. cret (g i zs)))) i (S i))
      :: (unit, proto_error + 'a \<times> 'r session) proto)
    (\<lambda>r. \<forall>i. i \<noteq> b \<longrightarrow> r i = (case conv w of Inl e \<Rightarrow> Inl e | Inr y \<Rightarrow> Inr (g i (ys y), S i)))"
proof (rule delivers_always_finishes [OF _ delivers_rogue_broadcast [OF _ v, where ys = "\<lambda>i. case conv w of Inl e \<Rightarrow> Inl e | Inr y \<Rightarrow> Inr (g i (ys y), S i)"]])
  show net: "net_linked addr sid S" using S by (simp add: linked_def)
  then show "inj addr" by (rule net_linked_inj)
  show "arrives (Bytes (u i)) (Bytes (u i))" for i using u by (rule bytes_arrive)
  show "settle (cbind (ctry (collect_results conv (map ((\<lambda>i. Bytes (u i))(b := w)) [ID0, ID1, ID2]))) (\<lambda>zs. cret (g i zs)) (S i)) =
      Ret (case conv w of Inl e \<Rightarrow> Inl e | Inr y \<Rightarrow> Inr (g i (ys y), S i))" if "i \<noteq> b" for i
  proof (cases "conv w")
    case (Inl e)
    from bad [OF this] show ?thesis using Inl by (simp only:) (simp add: ctry_def cbind_def cstop_def)
  next
    case (Inr y)
    from ok [OF that this] show ?thesis using Inr by (simp only:) (simp add: ctry_def cbind_def cret_def)
  qed
qed simp

lemma rogue_hash:
  fixes S :: "PartyID \<Rightarrow> 'r session"
  assumes S: "linked addr sid S" and v: "arrives v w" and len: "length h = JOB_HASH_LEN"
  shows "always_finishes addr (\<lambda>i. settle (rogue b v False (\<lambda>i. sync_on_job_hash h) i (S i)) :: (unit, proto_error + bool \<times> 'r session) proto)
    (\<lambda>r. \<forall>i. i \<noteq> b \<longrightarrow> (if \<exists>d. w = Bytes d \<and> length d = JOB_HASH_LEN then r i = Inr (w = Bytes h, S i) else \<exists>e. r i = Inl (Bail e)))"
  unfolding sync_on_job_hash_def
proof (rule always_finishes_weaken [OF rogue_broadcast [OF S v, where ys = "\<lambda>y. map ((\<lambda>_. h)(b := y)) [ID0, ID1, ID2]"]])
  have own: "hash_bytes (Bytes h) = Inr h" using len by (simp add: hash_bytes_def)
  show "length h < 2 ^ 32" for i :: PartyID using len by (simp add: JOB_HASH_LEN_def)
  show "collect_results hash_bytes (map ((\<lambda>i. Bytes h)(b := w)) [ID0, ID1, ID2]) = Inr (map ((\<lambda>_. h)(b := y)) [ID0, ID1, ID2])" if "hash_bytes w = Inr y" for y
    using that own by (cases b) simp_all
  show "collect_results hash_bytes (map ((\<lambda>i. Bytes h)(b := w)) [ID0, ID1, ID2]) = Inl e" if "hash_bytes w = Inl e" for e
    using that own by (cases b) simp_all
  fix r :: "PartyID \<Rightarrow> proto_error + bool \<times> 'r session"
  assume r: "\<forall>i. i \<noteq> b \<longrightarrow> r i = (case hash_bytes w of Inl e \<Rightarrow> Inl e | Inr y \<Rightarrow> Inr (map ((\<lambda>_. h)(b := y)) [ID0, ID1, ID2] ! 0 = map ((\<lambda>_. h)(b := y)) [ID0, ID1, ID2] ! 1
      \<and> map ((\<lambda>_. h)(b := y)) [ID0, ID1, ID2] ! 1 = map ((\<lambda>_. h)(b := y)) [ID0, ID1, ID2] ! 2, S i))"
  show "\<forall>i. i \<noteq> b \<longrightarrow> (if \<exists>d. w = Bytes d \<and> length d = JOB_HASH_LEN then r i = Inr (w = Bytes h, S i) else \<exists>e. r i = Inl (Bail e))"
    using r by (cases w; cases b) (auto simp: hash_bytes_def)
qed

text \<open>Sizes and digests of the rows are eight bytes.\<close>

lemma rogue_u64:
  fixes S :: "PartyID \<Rightarrow> 'r session"
  assumes S: "linked addr sid S" and v: "arrives v w"
  shows "always_finishes addr (\<lambda>i. settle (rogue b v z (\<lambda>i. cbind (broadcast_u64 (x i)) (\<lambda>xs. cret (g i xs))) i (S i)) :: (unit, proto_error + 'a \<times> 'r session) proto)
    (\<lambda>r. \<forall>i. i \<noteq> b \<longrightarrow> (\<exists>d. w = Bytes d \<and> length d = 8 \<and> r i = Inr (g i (map (x(b := from_le_bytes d)) [ID0, ID1, ID2]), S i))
       \<or> (\<nexists>d. w = Bytes d \<and> length d = 8) \<and> (\<exists>e. r i = Inl (Bail e)))"
  unfolding broadcast_u64_def cbind_assoc
proof (rule always_finishes_weaken [OF rogue_broadcast [OF S v, where ys = "\<lambda>y. map (x(b := y)) [ID0, ID1, ID2]"]])
  have own: "u64_of_value (Bytes (to_le_bytes 8 y)) = Inr y" for y by (simp add: u64_of_value_def from_to_le_bytes_id)
  show "length (to_le_bytes 8 (x i)) < 2 ^ 32" for i by simp
  show "collect_results u64_of_value (map ((\<lambda>i. Bytes (to_le_bytes 8 (x i)))(b := w)) [ID0, ID1, ID2]) = Inr (map (x(b := y)) [ID0, ID1, ID2])" if "u64_of_value w = Inr y" for y
    using that own by (cases b) simp_all
  show "collect_results u64_of_value (map ((\<lambda>i. Bytes (to_le_bytes 8 (x i)))(b := w)) [ID0, ID1, ID2]) = Inl e" if "u64_of_value w = Inl e" for e
    using that own by (cases b) simp_all
  fix r :: "PartyID \<Rightarrow> proto_error + 'a \<times> 'r session"
  assume r: "\<forall>i. i \<noteq> b \<longrightarrow> r i = (case u64_of_value w of Inl e \<Rightarrow> Inl e | Inr y \<Rightarrow> Inr (g i (map (x(b := y)) [ID0, ID1, ID2]), S i))"
  show "\<forall>i. i \<noteq> b \<longrightarrow> (\<exists>d. w = Bytes d \<and> length d = 8 \<and> r i = Inr (g i (map (x(b := from_le_bytes d)) [ID0, ID1, ID2]), S i))
       \<or> (\<nexists>d. w = Bytes d \<and> length d = 8) \<and> (\<exists>e. r i = Inl (Bail e))"
    using r by (cases w) (auto simp: u64_of_value_def)
qed

lemma rogue_sizes:
  fixes S :: "PartyID \<Rightarrow> 'r session"
  assumes S: "linked addr sid S" and v: "arrives v w" and n: "\<And>i. n i < 2 ^ 64"
  shows "always_finishes addr (\<lambda>i. settle (rogue b v 0 (\<lambda>i. sync_on_job_sizes (n i)) i (S i)) :: (unit, proto_error + nat \<times> 'r session) proto)
    (\<lambda>r. \<forall>i. i \<noteq> b \<longrightarrow> (\<exists>d. w = Bytes d \<and> length d = 8 \<and> r i = Inr (Min (insert (unat (from_le_bytes d :: u64)) (n ` (- {b}))), S i))
       \<or> (\<nexists>d. w = Bytes d \<and> length d = 8) \<and> (\<exists>e. r i = Inl (Bail e)))"
proof -
  have others: "- {b} = (case b of ID0 \<Rightarrow> {ID1, ID2} | ID1 \<Rightarrow> {ID0, ID2} | ID2 \<Rightarrow> {ID0, ID1})"
    by (cases b) (auto intro: PartyID.exhaust)
  have "unat (of_nat (n i) :: u64) = n i" for i using n [of i] by (simp add: unat_of_nat)
  then have eq: "min_list (map unat (map ((\<lambda>i. of_nat (n i))(b := y)) [ID0, ID1, ID2] :: u64 list)) = Min (insert (unat y) (n ` (- {b})))" for y
    unfolding others by (cases b) (simp_all add: ac_simps)
  show ?thesis unfolding sync_on_job_sizes_def broadcast_usize_def cbind_assoc cbind_cret
    by (rule rogue_u64 [OF S v, where b = b and z = 0 and x = "\<lambda>i. of_nat (n i)" and g = "\<lambda>i xs. min_list (map unat xs)", unfolded eq])
qed

lemma rogue_id_hash:
  fixes S :: "PartyID \<Rightarrow> 'r session"
  assumes S: "linked addr sid S" and v: "arrives v w"
  shows "always_finishes addr (\<lambda>i. settle (rogue b v False (\<lambda>i. sync_on_id_hash (x i)) i (S i)) :: (unit, proto_error + bool \<times> 'r session) proto)
    (\<lambda>r. \<forall>i. i \<noteq> b \<longrightarrow> (\<exists>d. w = Bytes d \<and> length d = 8 \<and> r i = Inr ((\<forall>j. j \<noteq> b \<longrightarrow> x j = x i) \<and> from_le_bytes d = x i, S i))
       \<or> (\<nexists>d. w = Bytes d \<and> length d = 8) \<and> (\<exists>e. r i = Inl (Bail e)))"
proof -
  have eq: "list_all (\<lambda>h. h = x i) (map (x(b := y)) [ID0, ID1, ID2]) \<longleftrightarrow> (\<forall>j. j \<noteq> b \<longrightarrow> x j = x i) \<and> y = x i" for y i
    by (cases b) (auto simp: all_PartyID)
  show ?thesis unfolding sync_on_id_hash_def
    by (rule rogue_u64 [OF S v, where b = b and z = False and x = x and g = "\<lambda>i xs. list_all (\<lambda>h. h = x i) xs", unfolded eq])
qed

section \<open>Property\<close>

text \<open>
  C16: agreement before a job. Three linked parties exchange a digest, a validity flag, a
  number of rows or the digest of the row identifiers, whatever their values. All of them
  finish under any interleaving and come to the same answer: the digests are accepted exactly
  when all three are equal, the number of rows is the smallest of the three, and a request is
  valid exactly when all parties found it valid. When the digests of a request differ, the
  validity check ends with the error of a mismatch for every party, also for the two that
  agree. When one party sends any other message that can be read from the wire in place of its
  own, the two others (on the same request in the first two exchanges) still finish under any
  interleaving: with an error exactly when the message is not of the form the exchange wants (a
  digest of 32 bytes; their own digest followed by the flag 0 or 1; eight bytes), and with the
  answer for the value it carries otherwise.
\<close>

theorem parties_agree_before_a_job:
  fixes S :: "PartyID \<Rightarrow> 'r session"
  assumes "linked addr sid S" "\<forall>i. length (h i) = JOB_HASH_LEN" "\<forall>i. n i < 2 ^ 64" "arrives v w"
  shows "always_finishes addr (\<lambda>i. sync_on_job_hash (h i) (S i))
      (\<lambda>r. (\<forall>i. fst (r i) = (h ID0 = h ID1 \<and> h ID1 = h ID2)) \<and> linked addr sid (\<lambda>i. snd (r i)))
    \<and> always_finishes addr (\<lambda>i. settle (sync_on_job_validity (h i) (valid i) (S i)) :: (unit, proto_error + bool \<times> 'r session) proto)
      (\<lambda>r. \<forall>i. r i = (if h ID0 = h ID1 \<and> h ID1 = h ID2 then Inr (valid ID0 \<and> valid ID1 \<and> valid ID2, S i)
                     else Inl (Bail ''Mismatched job hashes in job validity sync'')))
    \<and> always_finishes addr (\<lambda>i. sync_on_job_sizes (n i) (S i))
      (\<lambda>r. (\<forall>i. fst (r i) = min (n ID0) (min (n ID1) (n ID2))) \<and> linked addr sid (\<lambda>i. snd (r i)))
    \<and> always_finishes addr (\<lambda>i. sync_on_id_hash (x i) (S i))
      (\<lambda>r. (\<forall>i. fst (r i) = (x ID0 = x ID1 \<and> x ID1 = x ID2)) \<and> linked addr sid (\<lambda>i. snd (r i)))
    \<and> always_finishes addr (\<lambda>i. settle (rogue b v False (\<lambda>i. sync_on_job_hash (h ID0)) i (S i)) :: (unit, proto_error + bool \<times> 'r session) proto)
      (\<lambda>r. \<forall>i. i \<noteq> b \<longrightarrow> (if \<exists>d. w = Bytes d \<and> length d = JOB_HASH_LEN then r i = Inr (w = Bytes (h ID0), S i) else \<exists>e. r i = Inl (Bail e)))
    \<and> always_finishes addr (\<lambda>i. settle (rogue b v False (\<lambda>i. sync_on_job_validity (h ID0) (valid i)) i (S i)) :: (unit, proto_error + bool \<times> 'r session) proto)
      (\<lambda>r. \<forall>i. i \<noteq> b \<longrightarrow> (if \<exists>f. w = Bytes (h ID0 @ [of_bool f]) then r i = Inr ((\<forall>j. j \<noteq> b \<longrightarrow> valid j) \<and> w = Bytes (h ID0 @ [1]), S i)
         else \<exists>e. r i = Inl (Bail e)))
    \<and> always_finishes addr (\<lambda>i. settle (rogue b v 0 (\<lambda>i. sync_on_job_sizes (n i)) i (S i)) :: (unit, proto_error + nat \<times> 'r session) proto)
      (\<lambda>r. \<forall>i. i \<noteq> b \<longrightarrow> (\<exists>d. w = Bytes d \<and> length d = 8 \<and> r i = Inr (Min (insert (unat (from_le_bytes d :: u64)) (n ` (- {b}))), S i))
         \<or> (\<nexists>d. w = Bytes d \<and> length d = 8) \<and> (\<exists>e. r i = Inl (Bail e)))
    \<and> always_finishes addr (\<lambda>i. settle (rogue b v False (\<lambda>i. sync_on_id_hash (x i)) i (S i)) :: (unit, proto_error + bool \<times> 'r session) proto)
      (\<lambda>r. \<forall>i. i \<noteq> b \<longrightarrow> (\<exists>d. w = Bytes d \<and> length d = 8 \<and> r i = Inr ((\<forall>j. j \<noteq> b \<longrightarrow> x j = x i) \<and> from_le_bytes d = x i, S i))
         \<or> (\<nexists>d. w = Bytes d \<and> length d = 8) \<and> (\<exists>e. r i = Inl (Bail e)))"
proof -
  have inj: "inj addr" using assms(1) net_linked_inj by (auto simp: linked_def)
  have len: "length (h i) = JOB_HASH_LEN" and n: "n i < 2 ^ 64" for i using assms(2,3) by auto
  have valid: "always_finishes addr (\<lambda>i. settle (sync_on_job_validity (h i) (valid i) (S i)) :: (unit, proto_error + bool \<times> 'r session) proto)
      (\<lambda>r. \<forall>i. r i = (if h ID0 = h ID1 \<and> h ID1 = h ID2 then Inr (valid ID0 \<and> valid ID1 \<and> valid ID2, S i)
                     else Inl (Bail ''Mismatched job hashes in job validity sync'')))"
    by (rule delivers_always_finishes [OF inj delivers_job_validity [where valid = valid and h = h, OF assms(1) len]]) simp
  show ?thesis
    by (intro conjI valid computes_always_finishes [OF computes_job_hash [OF len] assms(1)]
        computes_always_finishes [OF computes_job_sizes [OF n] assms(1)] computes_always_finishes [OF computes_id_hash assms(1)]
        rogue_hash [OF assms(1,4) len] rogue_validity [OF assms(1,4) len] rogue_sizes [OF assms(1,4) n] rogue_id_hash [OF assms(1,4)])
qed

theorem parties_agree_before_a_job_witness:
  "always_finishes demo_addr (\<lambda>i. sync_on_job_hash (replicate 32 (if i = ID2 then 7 else 9)) (demo_session i))
      (\<lambda>r. (\<forall>i. fst (r i) = False) \<and> linked demo_addr 7 (\<lambda>i. snd (r i)))
    \<and> always_finishes demo_addr (\<lambda>i. sync_on_job_sizes (case i of ID0 \<Rightarrow> 90 | ID1 \<Rightarrow> 40 | ID2 \<Rightarrow> 70) (demo_session i))
      (\<lambda>r. (\<forall>i. fst (r i) = 40) \<and> linked demo_addr 7 (\<lambda>i. snd (r i)))
    \<and> always_finishes demo_addr (\<lambda>i. settle (rogue ID1 (Bytes [4, 2]) False (\<lambda>i. sync_on_job_validity (replicate 32 9) True) i (demo_session i)) :: (unit, proto_error + bool \<times> nat session) proto)
      (\<lambda>r. \<forall>i. i \<noteq> ID1 \<longrightarrow> (\<exists>e. r i = Inl (Bail e)))"
proof -
  have "arrives (Bytes [4, 2]) (Bytes [4, 2])" by (rule bytes_arrive) simp
  moreover have "\<forall>i :: PartyID. length (replicate 32 (if i = ID2 then 7 else 9) :: u8 list) = JOB_HASH_LEN" by (simp add: JOB_HASH_LEN_def)
  moreover have "\<forall>i. (case i of ID0 \<Rightarrow> 90 | ID1 \<Rightarrow> 40 | ID2 \<Rightarrow> 70) < (2 ^ 64 :: nat)" by (simp split: PartyID.split)
  moreover have "[4 :: u8] \<noteq> replicate JOB_HASH_LEN 9" by (auto dest!: arg_cong [where f = length] simp: JOB_HASH_LEN_def)
  ultimately show ?thesis
    using parties_agree_before_a_job [OF demo_linked, where h = "\<lambda>i. replicate 32 (if i = ID2 then 7 else 9)" and n = "\<lambda>i. case i of ID0 \<Rightarrow> 90 | ID1 \<Rightarrow> 40 | ID2 \<Rightarrow> 70"
      and v = "Bytes [4, 2]" and w = "Bytes [4, 2]" and b = ID1 and valid = "\<lambda>_. True"]
    by (simp add: replicate_eq_replicate)
qed

end
