(* ===== verification/Coordination.thy ===== *)
theory Coordination
  imports Anon_Config "HOL-Library.List_Lexorder" "HOL-Library.Char_ord"
begin

text \<open>
  Coordination of the servers (\<open>ampc-server-utils/src/server_coordination.rs\<close>): the queries of
  the other nodes, the startup barriers, the readiness check and the heartbeat. What the HTTP
  client observes is an argument: for every query the attempts of each node until the timeout,
  and the readings of the clock. The JSON library is a parameter.
\<close>

section \<open>Queries\<close>

record ReadyProbeResponse =
  probe_image_name :: string
  probe_uuid :: string
  probe_shutting_down :: bool
  probe_verified_peers :: "string set"
  probe_is_ready :: bool

definition get_check_addresses :: "string list \<Rightarrow> string list \<Rightarrow> string \<Rightarrow> string list" where
  "get_check_addresses hostnames ports ep =
     map (\<lambda>(host, port). ''http://'' @ host @ '':'' @ port @ ''/'' @ ep) (zip hostnames ports)"

datatype coordination_error =
    IndexPanic
  | SyncTimedOut
  | InvalidProbe
  | NotUnready "string list"
  | IncompleteVisibility "(string \<times> string list) list"
  | UnknownPeer string
  | ShutdownInterrupted
  | SenderDropped

text \<open>One attempt of a request: a status with a body, or why there is none.\<close>

datatype attempt =
    Reply nat "u8 list"
  | SendFailed
  | SendTimedOut
  | BodyFailed
  | BodyTimedOut

fun fetch_loop :: "attempt list \<Rightarrow> (nat \<times> u8 list) option" where
  "fetch_loop [] = None"
| "fetch_loop (Reply status body # rest) = Some (status, body)"
| "fetch_loop (_ # rest) = fetch_loop rest"

text \<open>The other nodes in ascending order.\<close>

definition NODE_COUNT :: nat where
  "NODE_COUNT = 3"

definition other_nodes :: "nat \<Rightarrow> nat list" where
  "other_nodes party = sort (map (\<lambda>j. (party + j) mod NODE_COUNT) [1..<NODE_COUNT])"

definition try_get_endpoint_other_nodes :: "ServerCoordinationConfig \<Rightarrow> string \<Rightarrow> (string \<Rightarrow> attempt list)
    \<Rightarrow> coordination_error + (nat \<times> u8 list) list" where
  "try_get_endpoint_other_nodes config ep net =
     (let full_urls = get_check_addresses (node_hostnames config) (healthcheck_ports config) ep
      in case those (map (\<lambda>i. if i < length full_urls then Some (full_urls ! i) else None) (other_nodes (coordination_party_id config))) of
           None \<Rightarrow> Inl IndexPanic
         | Some urls \<Rightarrow> (case those (map (\<lambda>url. fetch_loop (net url)) urls) of None \<Rightarrow> Inl SyncTimedOut | Some rs \<Rightarrow> Inr rs))"

text \<open>The bodies as probe responses; the first that does not parse is an error.\<close>

fun parse_probes :: "(u8 list \<Rightarrow> 'p option) \<Rightarrow> (nat \<times> u8 list) list \<Rightarrow> coordination_error + 'p list" where
  "parse_probes parse [] = Inr []"
| "parse_probes parse ((status, body) # rest) =
     (case parse body of None \<Rightarrow> Inl InvalidProbe
      | Some p \<Rightarrow> (case parse_probes parse rest of Inl e \<Rightarrow> Inl e | Inr ps \<Rightarrow> Inr (p # ps)))"

definition get_others_sync_state :: "(u8 list \<Rightarrow> 's option) \<Rightarrow> ServerCoordinationConfig \<Rightarrow> (string \<Rightarrow> attempt list)
    \<Rightarrow> coordination_error + 's list" where
  "get_others_sync_state parse config net =
     (case try_get_endpoint_other_nodes config ''startup-sync'' net of Inl e \<Rightarrow> Inl e | Inr rs \<Rightarrow> parse_probes parse rs)"

section \<open>Startup barriers\<close>

text \<open>The loop over the responses of one round; the identifiers seen before an error stay recorded.\<close>

fun unready_round :: "(u8 list \<Rightarrow> ReadyProbeResponse option) \<Rightarrow> string \<Rightarrow> (nat \<times> u8 list) list \<Rightarrow> string set \<Rightarrow> string list
    \<Rightarrow> (coordination_error + string list) \<times> string set" where
  "unready_round parse my_uuid [] verified unverified = (Inr unverified, verified)"
| "unready_round parse my_uuid ((status, body) # rest) verified unverified =
     (case parse body of
        None \<Rightarrow> (Inl InvalidProbe, verified)
      | Some p \<Rightarrow>
        (let verified = insert (probe_uuid p) verified
         in if \<not> probe_is_ready p then unready_round parse my_uuid rest verified unverified
            else if my_uuid \<in> probe_verified_peers p then unready_round parse my_uuid rest verified unverified
            else unready_round parse my_uuid rest verified (unverified @ [probe_uuid p])))"

text \<open>
  A round is what the network answers and the readings of the clock before and after the
  sleep. \<open>None\<close>: the rounds are used up and the loop still waits.
\<close>

type_synonym round = "(string \<Rightarrow> attempt list) \<times> nat \<times> nat"

fun unready_loop :: "(u8 list \<Rightarrow> ReadyProbeResponse option) \<Rightarrow> ServerCoordinationConfig \<Rightarrow> string \<Rightarrow> nat \<Rightarrow> round list \<Rightarrow> string set
    \<Rightarrow> ((coordination_error + unit) \<times> string set \<times> round list) option" where
  "unready_loop parse config my_uuid deadline [] verified = None"
| "unready_loop parse config my_uuid deadline ((net, now, later) # rounds) verified =
     (case try_get_endpoint_other_nodes config ''health'' net of
        Inl e \<Rightarrow> Some (Inl e, verified, rounds)
      | Inr resps \<Rightarrow>
        (case unready_round parse my_uuid resps verified [] of
           (Inl e, verified) \<Rightarrow> Some (Inl e, verified, rounds)
         | (Inr unverified, verified) \<Rightarrow>
             if unverified = [] then Some (Inr (), verified, rounds)
             else if \<not> now < deadline then Some (Inl (NotUnready unverified), verified, rounds)
             else if \<not> later < deadline then Some (Inl (NotUnready unverified), verified, rounds)
             else unready_loop parse config my_uuid deadline rounds verified))"

definition wait_for_others_unready :: "(u8 list \<Rightarrow> ReadyProbeResponse option) \<Rightarrow> ServerCoordinationConfig \<Rightarrow> string \<Rightarrow> nat \<Rightarrow> round list \<Rightarrow> string set
    \<Rightarrow> ((coordination_error + unit) \<times> string set \<times> round list) option" where
  "wait_for_others_unready parse config my_uuid start rounds verified =
     unready_loop parse config my_uuid (start + 1000 * unat (startup_sync_timeout_secs config)) rounds verified"

definition current_startup_uuid_set :: "string \<Rightarrow> ReadyProbeResponse list \<Rightarrow> string set" where
  "current_startup_uuid_set my_uuid peer_responses = insert my_uuid (set (map probe_uuid peer_responses))"

definition missing_startup_visibility :: "string set \<Rightarrow> string \<Rightarrow> string set \<Rightarrow> string list" where
  "missing_startup_visibility expected_uuids peer_uuid peer_verified_peers =
     sorted_list_of_set {uuid \<in> expected_uuids. uuid \<noteq> peer_uuid \<and> uuid \<notin> peer_verified_peers}"

definition incomplete_visibility :: "string \<Rightarrow> ReadyProbeResponse list \<Rightarrow> (string \<times> string list) list" where
  "incomplete_visibility my_uuid peer_responses =
     (let expected_uuids = current_startup_uuid_set my_uuid peer_responses
      in filter (\<lambda>(_, missing_uuids). missing_uuids \<noteq> [])
           (map (\<lambda>p. (probe_uuid p, missing_startup_visibility expected_uuids (probe_uuid p) (probe_verified_peers p))) peer_responses))"

text \<open>The readings of the clock are the elapsed times at the checks of a failed and of an incomplete query.\<close>

fun visibility_loop :: "(u8 list \<Rightarrow> ReadyProbeResponse option) \<Rightarrow> ServerCoordinationConfig \<Rightarrow> string \<Rightarrow> nat \<Rightarrow> round list \<Rightarrow> string set
    \<Rightarrow> ((coordination_error + unit) \<times> string set) option" where
  "visibility_loop parse config my_uuid startup_timeout [] verified = None"
| "visibility_loop parse config my_uuid startup_timeout ((net, failed, elapsed) # rounds) verified =
     (case try_get_endpoint_other_nodes config ''health'' net of
        Inl IndexPanic \<Rightarrow> Some (Inl IndexPanic, verified)
      | Inl e \<Rightarrow> if failed < startup_timeout then visibility_loop parse config my_uuid startup_timeout rounds verified else Some (Inl e, verified)
      | Inr resps \<Rightarrow>
        (case parse_probes parse resps of
           Inl e \<Rightarrow> Some (Inl e, verified)
         | Inr peer_responses \<Rightarrow>
           (let verified = verified \<union> set (map probe_uuid peer_responses);
                incomplete = incomplete_visibility my_uuid peer_responses
            in if incomplete = [] then Some (Inr (), verified)
               else if startup_timeout \<le> elapsed then Some (Inl (IncompleteVisibility incomplete), verified)
               else visibility_loop parse config my_uuid startup_timeout rounds verified)))"

definition wait_until_startup_visibility_is_complete :: "(u8 list \<Rightarrow> ReadyProbeResponse option) \<Rightarrow> ServerCoordinationConfig \<Rightarrow> string \<Rightarrow> round list \<Rightarrow> string set
    \<Rightarrow> ((coordination_error + unit) \<times> string set) option" where
  "wait_until_startup_visibility_is_complete parse config my_uuid rounds verified =
     visibility_loop parse config my_uuid (1000 * unat (startup_sync_timeout_secs config)) rounds verified"

text \<open>Both phases; the metrics they record have no influence on the result.\<close>

definition wait_for_startup_barriers :: "(u8 list \<Rightarrow> ReadyProbeResponse option) \<Rightarrow> ServerCoordinationConfig \<Rightarrow> string \<Rightarrow> nat \<Rightarrow> round list \<Rightarrow> string set
    \<Rightarrow> ((coordination_error + unit) \<times> string set) option" where
  "wait_for_startup_barriers parse config my_uuid start rounds verified =
     Option.bind (wait_for_others_unready parse config my_uuid start rounds verified) (\<lambda>(unready, verified, rounds).
       case unready of
         Inl e \<Rightarrow> Some (Inl e, verified)
       | Inr _ \<Rightarrow>
           if startup_visibility_barrier_disabled config then Some (Inr (), verified)
           else wait_until_startup_visibility_is_complete parse config my_uuid rounds verified)"

section \<open>Readiness\<close>

text \<open>One round: an unknown identifier fails at once; otherwise whether all are ready.\<close>

fun ready_round :: "(u8 list \<Rightarrow> ReadyProbeResponse option) \<Rightarrow> string set \<Rightarrow> (nat \<times> u8 list) list \<Rightarrow> bool \<Rightarrow> coordination_error + bool" where
  "ready_round parse verified_peers [] all_ready = Inr all_ready"
| "ready_round parse verified_peers ((status, body) # rest) all_ready =
     (case parse body of
        None \<Rightarrow> Inl InvalidProbe
      | Some p \<Rightarrow>
          if probe_uuid p \<notin> verified_peers then Inl (UnknownPeer (probe_uuid p))
          else ready_round parse verified_peers rest (if \<not> probe_is_ready p then False else all_ready))"

fun wait_for_others_ready :: "(u8 list \<Rightarrow> ReadyProbeResponse option) \<Rightarrow> ServerCoordinationConfig \<Rightarrow> string set \<Rightarrow> (string \<Rightarrow> attempt list) list
    \<Rightarrow> (coordination_error + unit) option" where
  "wait_for_others_ready parse config verified_peers [] = None"
| "wait_for_others_ready parse config verified_peers (net # rounds) =
     (case try_get_endpoint_other_nodes config ''health'' net of
        Inl IndexPanic \<Rightarrow> Some (Inl IndexPanic)
      | Inl _ \<Rightarrow> wait_for_others_ready parse config verified_peers rounds
      | Inr resps \<Rightarrow>
        (case ready_round parse verified_peers resps True of
           Inl e \<Rightarrow> Some (Inl e)
         | Inr all_ready \<Rightarrow> if all_ready then Some (Inr ()) else wait_for_others_ready parse config verified_peers rounds))"

section \<open>Heartbeat\<close>

text \<open>
  The state of the loop: what it knows of the next and of the previous node, whether it has
  announced the first contact with both, and the flag of the shutdown handler.
\<close>

record heartbeat =
  last_response :: "string list"
  connected :: "bool list"
  retries :: "nat list"
  consecutive_failures :: "nat list"
  announced :: bool
  shutting_down :: bool

definition heartbeat_start :: heartbeat where
  "heartbeat_start = \<lparr>last_response = ['''', ''''], connected = [False, False], retries = [0, 0], consecutive_failures = [0, 0], announced = False, shutting_down = False\<rparr>"

definition MAX_CONSECUTIVE_FAILURES :: nat where
  "MAX_CONSECUTIVE_FAILURES = 3"

datatype heartbeat_outcome = HbContinue | HbReturn | HbPanic

text \<open>
  One turn for node \<open>i\<close>: \<open>down\<close> says that somebody asked for a shutdown before the reply was
  read, \<open>dropped\<close> that nobody waits for the first contact any more and then what the shutdown
  flag reads, \<open>res\<close> is the probe or a failure.
\<close>

definition heartbeat_step :: "ServerCoordinationConfig \<Rightarrow> string set \<Rightarrow> nat \<Rightarrow> bool \<Rightarrow> bool option \<Rightarrow> ReadyProbeResponse option \<Rightarrow> heartbeat
    \<Rightarrow> heartbeat_outcome \<times> heartbeat" where
  "heartbeat_step config verified_peers i down dropped res s =
     (if shutting_down s then (HbReturn, s)
      else if down then (HbReturn, s\<lparr>shutting_down := True\<rparr>)
      else case res of
        None \<Rightarrow>
          if last_response s ! i = '''' \<and> retries s ! i < unat (heartbeat_initial_retries config)
          then (HbContinue, s\<lparr>retries := (retries s)[i := retries s ! i + 1]\<rparr>)
          else if last_response s ! i = '''' then (HbPanic, s)
          else let failures = consecutive_failures s ! i + 1;
                   s = s\<lparr>consecutive_failures := (consecutive_failures s)[i := failures]\<rparr>
               in (HbContinue, if MAX_CONSECUTIVE_FAILURES \<le> failures then s\<lparr>shutting_down := True\<rparr> else s)
      | Some p \<Rightarrow>
          let s = s\<lparr>consecutive_failures := (consecutive_failures s)[i := 0]\<rparr>
          in if last_response s ! i = ''''
             then if probe_uuid p \<notin> verified_peers then (HbPanic, s)
                  else let s = s\<lparr>last_response := (last_response s)[i := probe_uuid p], connected := (connected s)[i := True]\<rparr>
                       in if list_all (\<lambda>c. c) (connected s) \<and> \<not> announced s
                          then case dropped of
                                 None \<Rightarrow> (HbContinue, s\<lparr>announced := True\<rparr>)
                               | Some flag \<Rightarrow> (if flag then HbReturn else HbPanic, s\<lparr>announced := True, shutting_down := flag\<rparr>)
                          else (HbContinue, s)
             else if probe_uuid p \<noteq> last_response s ! i then (HbContinue, s\<lparr>shutting_down := True\<rparr>)
             else if probe_shutting_down p then (HbContinue, s\<lparr>shutting_down := True\<rparr>)
             else (HbContinue, s))"

text \<open>The turns alternate between the next and the previous node.\<close>

fun heartbeat_run :: "ServerCoordinationConfig \<Rightarrow> string set \<Rightarrow> nat \<Rightarrow> (bool \<times> bool option \<times> ReadyProbeResponse option) list \<Rightarrow> heartbeat
    \<Rightarrow> heartbeat_outcome \<times> heartbeat" where
  "heartbeat_run config verified_peers i [] s = (HbContinue, s)"
| "heartbeat_run config verified_peers i ((down, dropped, res) # rest) s =
     (case heartbeat_step config verified_peers i down dropped res s of
        (HbContinue, s') \<Rightarrow> heartbeat_run config verified_peers (1 - i) rest s'
      | r \<Rightarrow> r)"

text \<open>The task indexes the addresses of the two nodes before its first turn.\<close>

definition heartbeat_loop :: "ServerCoordinationConfig \<Rightarrow> string set \<Rightarrow> (bool \<times> bool option \<times> ReadyProbeResponse option) list
    \<Rightarrow> heartbeat_outcome \<times> heartbeat" where
  "heartbeat_loop config verified_peers events =
     (let all_health_addresses = get_check_addresses (node_hostnames config) (healthcheck_ports config) ''health'';
          party_id = coordination_party_id config
      in if (party_id + 1) mod 3 < length all_health_addresses \<and> (party_id + 2) mod 3 < length all_health_addresses
         then heartbeat_run config verified_peers 0 events heartbeat_start
         else (HbPanic, heartbeat_start))"

text \<open>
  What the caller of the task gets when it looks after these turns: a shutdown comes first,
  then the announcement; a panic drops the sender. \<open>None\<close>: it still waits.
\<close>

definition init_heartbeat_task :: "ServerCoordinationConfig \<Rightarrow> string set \<Rightarrow> (bool \<times> bool option \<times> ReadyProbeResponse option) list
    \<Rightarrow> (coordination_error + unit) option" where
  "init_heartbeat_task config verified_peers events =
     (case heartbeat_loop config verified_peers events of
        (outcome, s) \<Rightarrow>
          if shutting_down s then Some (Inl ShutdownInterrupted)
          else if announced s then Some (Inr ())
          else if outcome = HbPanic then Some (Inl SenderDropped)
          else None)"

section \<open>What a node serves\<close>

record node_state =
  node_uuid :: string
  node_image :: string
  node_verified :: "string set"
  node_ready :: bool
  node_shutting_down :: bool

definition health :: "node_state \<Rightarrow> ReadyProbeResponse" where
  "health n = \<lparr>probe_image_name = node_image n, probe_uuid = node_uuid n, probe_shutting_down = node_shutting_down n,
               probe_verified_peers = node_verified n, probe_is_ready = node_ready n\<rparr>"

definition set_node_ready :: "node_state \<Rightarrow> node_state" where
  "set_node_ready n = n\<lparr>node_ready := True\<rparr>"

text \<open>The status and the body of the readiness endpoint.\<close>

definition ready :: "node_state \<Rightarrow> nat \<times> string" where
  "ready n = (if node_ready n then (200, ''ready'') else (503, ''''))"
section \<open>Lemmas\<close>

lemma those_map_eq_Some: "those (map f xs) = Some ys \<longleftrightarrow> list_all2 (\<lambda>x y. f x = Some y) xs ys"
  by (induction xs arbitrary: ys) (auto split: option.splits simp: list_all2_Cons1)

lemma fetch_loop_Some: "fetch_loop as = Some (status, body) \<Longrightarrow> Reply status body \<in> set as"
  by (induction as rule: fetch_loop.induct) auto

lemma other_nodes_eq: "other_nodes 0 = [1, 2]" "other_nodes (Suc 0) = [0, 2]" "other_nodes 2 = [0, 1]"
  by code_simp+

lemma set_other_nodes: "party < 3 \<Longrightarrow> set (other_nodes party) = {0..<3} - {party}"
  using other_nodes_eq by (auto simp: less_Suc_eq numeral_3_eq_3 numeral_2_eq_2)

lemma parse_probes_ok: "parse_probes parse rs = Inr ps \<Longrightarrow> list_all2 (\<lambda>(status, body) p. parse body = Some p) rs ps"
  by (induction rs arbitrary: ps) (auto split: option.splits sum.splits)

text \<open>The address of a node, and the replies of the other nodes to a query.\<close>

definition node_url :: "ServerCoordinationConfig \<Rightarrow> string \<Rightarrow> nat \<Rightarrow> string" where
  "node_url config ep i = get_check_addresses (node_hostnames config) (healthcheck_ports config) ep ! i"

lemma try_get_ok:
  assumes "try_get_endpoint_other_nodes config ep net = Inr rs"
  shows "list_all2 (\<lambda>j (status, body). Reply status body \<in> set (net (node_url config ep j))) (other_nodes (coordination_party_id config)) rs"
proof -
  obtain urls where u: "list_all2 (\<lambda>j url. (if j < length (get_check_addresses (node_hostnames config) (healthcheck_ports config) ep)
        then Some (node_url config ep j) else None) = Some url) (other_nodes (coordination_party_id config)) urls"
    and r: "list_all2 (\<lambda>url r. fetch_loop (net url) = Some r) urls rs"
    unfolding node_url_def using assms by (auto simp: try_get_endpoint_other_nodes_def Let_def those_map_eq_Some split: option.splits)
  show ?thesis
    by (rule list_all2_trans [OF _ u r]) (auto dest: fetch_loop_Some split: if_splits)
qed

text \<open>The round in which the first wait ends: every reply is of an unready node or of one that saw this node.\<close>

lemma unready_round_ok:
  assumes "unready_round parse my_uuid rs verified unverified = (Inr [], verified')"
  shows "\<exists>ps. list_all2 (\<lambda>(status, body) p. parse body = Some p) rs ps
    \<and> (\<forall>p\<in>set ps. \<not> probe_is_ready p \<or> my_uuid \<in> probe_verified_peers p) \<and> verified' = verified \<union> probe_uuid ` set ps"
  using assms
proof (induction parse my_uuid rs verified unverified arbitrary: verified' rule: unready_round.induct)
  case (2 parse my_uuid status body rest verified unverified)
  have grow: "unready_round parse my_uuid rest v us = (Inr xs, v') \<Longrightarrow> length us \<le> length xs" for us xs v v' rest
    by (induction rest arbitrary: v us) (fastforce split: option.splits if_splits simp: Let_def)+
  show ?case
    using 2 grow [where us = "unverified @ [_]" and xs = "[]"]
    by (fastforce split: option.splits if_splits simp: Let_def list_all2_Cons1)
qed auto

lemma unready_round_grows: "unready_round parse my_uuid rs verified us = (r, verified') \<Longrightarrow> verified \<subseteq> verified'"
  by (induction rs arbitrary: verified us) (fastforce split: option.splits if_splits simp: Let_def)+

lemma unready_loop_ok:
  assumes "unready_loop parse config my_uuid deadline rounds verified = Some (Inr (), verified', rest)"
  shows "set rest \<subseteq> set rounds \<and> verified \<subseteq> verified'
    \<and> (\<exists>net x rs ps. (net, x) \<in> set rounds \<and> try_get_endpoint_other_nodes config ''health'' net = Inr rs \<and> list_all2 (\<lambda>(status, body) p. parse body = Some p) rs ps
        \<and> (\<forall>p\<in>set ps. \<not> probe_is_ready p \<or> my_uuid \<in> probe_verified_peers p) \<and> probe_uuid ` set ps \<subseteq> verified')"
  using assms
proof (induction parse config my_uuid deadline rounds verified arbitrary: verified' rest rule: unready_loop.induct)
  case (2 parse config my_uuid deadline net now later rounds verified)
  obtain rs where rs: "try_get_endpoint_other_nodes config ''health'' net = Inr rs" using "2.prems" by (auto split: sum.splits)
  obtain us v where u: "unready_round parse my_uuid rs verified [] = (Inr us, v)"
    using "2.prems" rs by (auto split: prod.splits sum.splits)
  show ?case
  proof (cases "us = []")
    case True
    then have v: "verified' = v" "rest = rounds" using "2.prems" rs u by simp_all
    obtain ps where "list_all2 (\<lambda>(status, body) p. parse body = Some p) rs ps"
      "\<forall>p\<in>set ps. \<not> probe_is_ready p \<or> my_uuid \<in> probe_verified_peers p" "v = verified \<union> probe_uuid ` set ps"
      using unready_round_ok [OF u [unfolded True]] by blast
    with rs show ?thesis unfolding v by (intro conjI exI [of _ net] exI [of _ "(now, later)"] exI [of _ rs] exI [of _ ps]) auto
  next
    case False
    have grow: "verified \<subseteq> v" using unready_round_grows [OF u] .
    have "unready_loop parse config my_uuid deadline rounds v = Some (Inr (), verified', rest)" "now < deadline" "later < deadline"
      using "2.prems" rs u False by (simp_all split: if_splits)
    from "2.IH" [OF rs u [symmetric] refl False _ _ this(1)] this(2,3) grow show ?thesis by auto
  qed
qed simp
lemma incomplete_visibility_Nil:
  "incomplete_visibility my_uuid ps = [] \<longleftrightarrow>
     (\<forall>p\<in>set ps. \<forall>u\<in>insert my_uuid (probe_uuid ` set ps). u \<noteq> probe_uuid p \<longrightarrow> u \<in> probe_verified_peers p)"
proof -
  have "missing_startup_visibility (insert my_uuid (probe_uuid ` set ps)) u v = [] \<longleftrightarrow> (\<forall>x\<in>insert my_uuid (probe_uuid ` set ps). x \<noteq> u \<longrightarrow> x \<in> v)" for u v
    unfolding missing_startup_visibility_def by (subst sorted_list_of_set_eq_Nil_iff) auto
  then show ?thesis
    by (auto simp: incomplete_visibility_def Let_def current_startup_uuid_set_def filter_empty_conv)
qed

text \<open>The round in which the second wait ends.\<close>

lemma visibility_loop_ok:
  assumes "visibility_loop parse config my_uuid t rounds verified = Some (Inr (), verified')"
  shows "verified \<subseteq> verified'
    \<and> (\<exists>net x rs ps. (net, x) \<in> set rounds \<and> try_get_endpoint_other_nodes config ''health'' net = Inr rs \<and> list_all2 (\<lambda>(status, body) p. parse body = Some p) rs ps
        \<and> incomplete_visibility my_uuid ps = [] \<and> probe_uuid ` set ps \<subseteq> verified')"
  using assms
proof (induction rounds arbitrary: verified)
  case (Cons round rounds)
  obtain net failed elapsed where r: "round = (net, failed, elapsed)" by (cases round)
  show ?case
  proof (cases "try_get_endpoint_other_nodes config ''health'' net")
    case (Inl e)
    then have "visibility_loop parse config my_uuid t rounds verified = Some (Inr (), verified')"
      using Cons.prems r by (cases e) (simp_all split: if_splits)
    from Cons.IH [OF this] show ?thesis by auto
  next
    case rs: (Inr rs)
    then obtain ps where ps: "parse_probes parse rs = Inr ps" using Cons.prems r by (simp split: sum.splits)
    show ?thesis
    proof (cases "incomplete_visibility my_uuid ps = []")
      case True
      then have "verified' = verified \<union> probe_uuid ` set ps" using Cons.prems r rs ps by (simp add: Let_def)
      with True rs parse_probes_ok [OF ps] show ?thesis unfolding r by auto
    next
      case False
      then have "visibility_loop parse config my_uuid t rounds (verified \<union> probe_uuid ` set ps) = Some (Inr (), verified')"
        using Cons.prems r rs ps by (simp add: Let_def split: if_splits)
      from Cons.IH [OF this] show ?thesis by auto
    qed
  qed
qed simp

text \<open>
  Replies of the other nodes: each is the answer of that node at some moment before \<open>now\<close>.
\<close>

definition genuine :: "(u8 list \<Rightarrow> ReadyProbeResponse option) \<Rightarrow> ServerCoordinationConfig \<Rightarrow> (nat \<Rightarrow> nat \<Rightarrow> node_state) \<Rightarrow> nat \<Rightarrow> (string \<Rightarrow> attempt list) \<Rightarrow> bool" where
  "genuine parse config history now net \<longleftrightarrow>
     (\<forall>j\<in>set (other_nodes (coordination_party_id config)). \<forall>a\<in>set (net (node_url config ''health'' j)).
        case a of Reply status body \<Rightarrow> \<exists>t\<le>now. parse body = Some (health (history t j)) | _ \<Rightarrow> True)"

lemma genuine_replies:
  assumes "genuine parse config history now net" "try_get_endpoint_other_nodes config ''health'' net = Inr rs"
    "list_all2 (\<lambda>(status, body) p. parse body = Some p) rs ps"
  shows "list_all2 (\<lambda>j p. \<exists>t\<le>now. p = health (history t j)) (other_nodes (coordination_party_id config)) ps"
proof -
  let ?js = "other_nodes (coordination_party_id config)"
  have l: "length ?js = length rs" "length rs = length ps"
    using list_all2_lengthD [OF try_get_ok [OF assms(2)]] list_all2_lengthD [OF assms(3)] by auto
  show ?thesis unfolding list_all2_conv_all_nth
  proof (intro conjI allI impI)
    fix i assume i: "i < length ?js"
    obtain status body where rb: "rs ! i = (status, body)" by (cases "rs ! i")
    have "Reply status body \<in> set (net (node_url config ''health'' (?js ! i)))"
      using list_all2_nthD [OF try_get_ok [OF assms(2)] i] rb by simp
    moreover have "parse body = Some (ps ! i)" using list_all2_nthD [OF assms(3), of i] i l rb by simp
    ultimately show "\<exists>t\<le>now. ps ! i = health (history t (?js ! i))"
      using assms(1) i unfolding genuine_def by (force dest!: bspec [where x = "?js ! i"])
  qed (use l in simp)
qed

lemma health_sel [simp]: "probe_uuid (health n) = node_uuid n" "probe_verified_peers (health n) = node_verified n" "probe_is_ready (health n) = node_ready n"
  by (simp_all add: health_def)
lemma barriers_split:
  assumes "wait_for_startup_barriers parse config my_uuid start rounds verified = Some (Inr (), verified')"
  obtains v rest where
    "unready_loop parse config my_uuid (start + 1000 * unat (startup_sync_timeout_secs config)) rounds verified = Some (Inr (), v, rest)"
    "if startup_visibility_barrier_disabled config then v = verified'
     else visibility_loop parse config my_uuid (1000 * unat (startup_sync_timeout_secs config)) rest v = Some (Inr (), verified')"
  using assms
  by (auto simp: wait_for_startup_barriers_def wait_for_others_unready_def wait_until_startup_visibility_is_complete_def
      split: Option.bind_splits sum.splits if_splits)

text \<open>The reply of every other node is in the list, and nothing else is.\<close>

lemma replies_cover:
  assumes "list_all2 (\<lambda>j p. \<exists>t\<le>now. p = health (history t j)) js ps"
  shows "j \<in> set js \<Longrightarrow> \<exists>t\<le>now. health (history t j) \<in> set ps"
    "p \<in> set ps \<Longrightarrow> \<exists>j\<in>set js. \<exists>t\<le>now. p = health (history t j)"
  using assms by (induction rule: list_all2_induct) auto

section \<open>Termination\<close>

lemma unready_loop_returns:
  assumes "deadline \<le> later"
  shows "\<exists>r v rest. unready_loop parse config my_uuid deadline (xs @ (net, now, later) # ys) verified = Some (r, v, rest) \<and> (\<exists>zs. rest = zs @ ys)"
proof (induction xs arbitrary: verified)
  case Nil
  then show ?case using assms by (auto split: sum.splits prod.splits)
next
  case (Cons x xs)
  obtain net' now' later' where x: "x = (net', now', later')" by (cases x)
  have rest: "\<exists>zs. xs @ (net, now, later) # ys = zs @ ys" by (rule exI [of _ "xs @ [(net, now, later)]"]) simp
  show ?case unfolding x using Cons.IH rest by (simp split: sum.splits prod.splits)
qed

lemma visibility_loop_returns:
  assumes "t \<le> failed" "t \<le> elapsed"
  shows "visibility_loop parse config my_uuid t (xs @ (net, failed, elapsed) # ys) verified \<noteq> None"
proof (induction xs arbitrary: verified)
  case Nil
  then show ?case using assms by (auto simp: Let_def split: sum.splits coordination_error.splits)
next
  case (Cons x xs)
  obtain net' now' later' where x: "x = (net', now', later')" by (cases x)
  show ?case unfolding x using Cons.IH by (simp add: Let_def split: sum.splits coordination_error.splits)
qed
section \<open>Invariant of the heartbeat\<close>

definition heartbeat_inv :: "ServerCoordinationConfig \<Rightarrow> string set \<Rightarrow> heartbeat \<Rightarrow> bool" where
  "heartbeat_inv config verified_peers s \<longleftrightarrow>
     length (last_response s) = 2 \<and> length (connected s) = 2 \<and> length (retries s) = 2 \<and> length (consecutive_failures s) = 2
     \<and> (\<forall>i<2. (connected s ! i \<longleftrightarrow> last_response s ! i \<noteq> '''') \<and> (connected s ! i \<longrightarrow> last_response s ! i \<in> verified_peers)
          \<and> retries s ! i \<le> unat (heartbeat_initial_retries config)
          \<and> consecutive_failures s ! i \<le> 3 \<and> (\<not> shutting_down s \<longrightarrow> consecutive_failures s ! i \<le> 2))
     \<and> (announced s \<longrightarrow> connected s ! 0 \<and> connected s ! 1)"

lemma heartbeat_start_inv: "heartbeat_inv config verified_peers heartbeat_start"
  by (auto simp: heartbeat_inv_def heartbeat_start_def less_2_cases_iff)

text \<open>The changes a turn makes.\<close>

lemma heartbeat_inv_down: "heartbeat_inv config vs s \<Longrightarrow> heartbeat_inv config vs (s\<lparr>shutting_down := True\<rparr>)"
  by (auto simp: heartbeat_inv_def)

lemma heartbeat_still_up: "\<not> shutting_down s \<Longrightarrow> s\<lparr>consecutive_failures := x, shutting_down := False\<rparr> = s\<lparr>consecutive_failures := x\<rparr>"
  by (cases s) simp

lemma heartbeat_inv_retries:
  "heartbeat_inv config vs s \<Longrightarrow> i < 2 \<Longrightarrow> n \<le> unat (heartbeat_initial_retries config) \<Longrightarrow> heartbeat_inv config vs (s\<lparr>retries := (retries s)[i := n]\<rparr>)"
  by (auto simp: heartbeat_inv_def nth_list_update)

lemma heartbeat_inv_failures:
  "heartbeat_inv config vs s \<Longrightarrow> i < 2 \<Longrightarrow> n \<le> 3 \<Longrightarrow> (\<not> d \<longrightarrow> n \<le> 2) \<Longrightarrow> \<not> shutting_down s \<Longrightarrow>
     heartbeat_inv config vs (s\<lparr>consecutive_failures := (consecutive_failures s)[i := n], shutting_down := d\<rparr>)"
  by (auto simp: heartbeat_inv_def nth_list_update)

lemma heartbeat_inv_answered:
  "heartbeat_inv config vs s \<Longrightarrow> i < 2 \<Longrightarrow> heartbeat_inv config vs (s\<lparr>consecutive_failures := (consecutive_failures s)[i := 0]\<rparr>)"
  by (auto simp: heartbeat_inv_def nth_list_update)

lemma heartbeat_inv_contact:
  "heartbeat_inv config vs s \<Longrightarrow> u \<in> vs \<Longrightarrow> '''' \<notin> vs \<Longrightarrow> i < 2 \<Longrightarrow>
     heartbeat_inv config vs (s\<lparr>last_response := (last_response s)[i := u], connected := (connected s)[i := True]\<rparr>)"
  by (auto simp: heartbeat_inv_def nth_list_update)

lemma heartbeat_inv_announce:
  assumes "heartbeat_inv config vs s" "list_all (\<lambda>c. c) (connected s)" "\<not> shutting_down s"
  shows "heartbeat_inv config vs (s\<lparr>announced := True\<rparr>)" "heartbeat_inv config vs (s\<lparr>announced := True, shutting_down := d\<rparr>)"
  using assms by (auto simp: heartbeat_inv_def list_all_length)

lemma heartbeat_step_inv:
  assumes inv: "heartbeat_inv config vs s" and i: "i < 2" and vs: "'''' \<notin> vs"
  shows "heartbeat_inv config vs (snd (heartbeat_step config vs i down dropped res s))"
proof -
  have le: "consecutive_failures s ! i \<le> 2" if "\<not> shutting_down s" using inv i that by (auto simp: heartbeat_inv_def)
  note keep = heartbeat_inv_answered [OF inv i]
  show ?thesis
  proof (cases "shutting_down s \<or> down")
    case True
    then show ?thesis using inv by (auto simp: heartbeat_step_def heartbeat_inv_down)
  next
    case up: False
    show ?thesis
    proof (cases res)
      case None
      have "heartbeat_inv config vs (s\<lparr>consecutive_failures := (consecutive_failures s)[i := consecutive_failures s ! i + 1], shutting_down := 2 \<le> consecutive_failures s ! i\<rparr>)"
        using inv up le i by (intro heartbeat_inv_failures) auto
      then show ?thesis using up inv None i
        by (cases "2 \<le> consecutive_failures s ! i") (auto simp: heartbeat_step_def heartbeat_inv_retries heartbeat_still_up MAX_CONSECUTIVE_FAILURES_def Let_def)
    next
      case (Some p)
      show ?thesis
      proof (cases "last_response s ! i = '''' \<and> probe_uuid p \<in> vs")
        case True
        then show ?thesis
          using up Some i vs heartbeat_inv_contact [OF keep _ vs i, of "probe_uuid p"]
            heartbeat_inv_announce [OF heartbeat_inv_contact [OF keep _ vs i, of "probe_uuid p"]]
          by (auto simp: heartbeat_step_def Let_def split: option.splits)
      next
        case False
        then show ?thesis using up Some keep heartbeat_inv_down [OF keep] by (auto simp: heartbeat_step_def Let_def)
      qed
    qed
  qed
qed

lemma heartbeat_step_outcome:
  "fst (heartbeat_step config verified_peers i down dropped res s) = HbReturn \<Longrightarrow> shutting_down (snd (heartbeat_step config verified_peers i down dropped res s))"
  by (auto simp: heartbeat_step_def Let_def split: if_splits option.splits)

lemma heartbeat_run_inv:
  assumes "heartbeat_inv config verified_peers s" "i < 2" "'''' \<notin> verified_peers"
  shows "heartbeat_inv config verified_peers (snd (heartbeat_run config verified_peers i events s))
    \<and> (fst (heartbeat_run config verified_peers i events s) = HbReturn \<longrightarrow> shutting_down (snd (heartbeat_run config verified_peers i events s)))"
  using assms(1,2)
proof (induction events arbitrary: i s)
  case (Cons x events)
  obtain down dropped res where x: "x = (down, dropped, res)" by (cases x)
  obtain out s' where st: "heartbeat_step config verified_peers i down dropped res s = (out, s')" by (cases "heartbeat_step config verified_peers i down dropped res s")
  have "heartbeat_inv config verified_peers s'" using heartbeat_step_inv [OF Cons.prems assms(3), of down dropped res] st by simp
  then show ?case using Cons.IH [of s' "1 - i"] heartbeat_step_outcome [of config verified_peers i down dropped res s]
    by (cases out) (auto simp: x st)
qed simp

text \<open>Three turns in a row in which a node that was in contact does not answer.\<close>

lemma heartbeat_failed_turn:
  assumes "heartbeat_inv config verified_peers s" "i < 2" "connected s ! i" "\<not> shutting_down s"
  shows "heartbeat_step config verified_peers i False dropped None s =
    (HbContinue, s\<lparr>consecutive_failures := (consecutive_failures s)[i := consecutive_failures s ! i + 1], shutting_down := 2 \<le> consecutive_failures s ! i\<rparr>)"
  using assms by (auto simp: heartbeat_inv_def heartbeat_step_def heartbeat_still_up MAX_CONSECUTIVE_FAILURES_def Let_def)

lemma heartbeat_other_turn:
  assumes "heartbeat_inv config verified_peers s" "i < 2" "heartbeat_step config verified_peers (1 - i) down dropped res s = (HbContinue, s')"
  shows "consecutive_failures s' ! i = consecutive_failures s ! i \<and> (connected s ! i \<longrightarrow> connected s' ! i)"
proof -
  obtain c d where c: "connected s = [c, d]" using assms(1) by (auto simp: heartbeat_inv_def numeral_2_eq_2 length_Suc_conv)
  obtain g h where k: "consecutive_failures s = [g, h]" using assms(1) by (auto simp: heartbeat_inv_def numeral_2_eq_2 length_Suc_conv)
  have "i = 0 \<or> i = 1" using assms(2) by auto
  then show ?thesis using assms(3) unfolding heartbeat_step_def
    by (auto simp: c k Let_def split: if_splits option.splits)
qed
lemma heartbeat_run_append:
  assumes "i < 2" "heartbeat_run config vs i xs s = (HbContinue, s')"
  shows "heartbeat_run config vs i (xs @ ys) s = heartbeat_run config vs ((i + length xs) mod 2) ys s'"
  using assms
proof (induction xs arbitrary: i s)
  case (Cons x xs)
  obtain down dropped res where x: "x = (down, dropped, res)" by (cases x)
  obtain out s1 where st: "heartbeat_step config vs i down dropped res s = (out, s1)" by (cases "heartbeat_step config vs i down dropped res s")
  have "(1 - i + length xs) mod 2 = (i + length (x # xs)) mod 2" using Cons.prems(1) by (auto simp: less_2_cases_iff)
  then show ?case using Cons.IH [of "1 - i" s1] Cons.prems by (cases out) (auto simp: x st)
qed simp

text \<open>The loop has stopped, or it will at its next turn.\<close>

definition stops :: "heartbeat_outcome \<times> heartbeat \<Rightarrow> bool" where
  "stops r \<longleftrightarrow> fst r \<noteq> HbContinue \<or> shutting_down (snd r)"

lemma stops_once_down: "shutting_down s \<Longrightarrow> stops (heartbeat_run config vs i events s)"
  by (cases events) (auto simp: stops_def heartbeat_step_def)

lemma silent_round:
  assumes "heartbeat_inv config vs s" "i < 2" "'''' \<notin> vs" "connected s ! i"
    and rest: "\<And>s'. heartbeat_inv config vs s' \<Longrightarrow> connected s' ! i \<Longrightarrow> \<not> shutting_down s \<Longrightarrow>
      consecutive_failures s' ! i = consecutive_failures s ! i + 1 \<Longrightarrow> stops (heartbeat_run config vs i rest s')"
  shows "stops (heartbeat_run config vs i ((False, d, None) # e # rest) s)"
proof (cases "shutting_down s")
  case True
  then show ?thesis by (rule stops_once_down)
next
  case False
  define s1 where "s1 = s\<lparr>consecutive_failures := (consecutive_failures s)[i := consecutive_failures s ! i + 1], shutting_down := 2 \<le> consecutive_failures s ! i\<rparr>"
  have st: "heartbeat_step config vs i False d None s = (HbContinue, s1)"
    unfolding s1_def by (rule heartbeat_failed_turn [OF assms(1,2,4) False])
  have inv: "heartbeat_inv config vs s1" using heartbeat_step_inv [OF assms(1-3), of False d None] st by simp
  have k: "consecutive_failures s1 ! i = consecutive_failures s ! i + 1" "connected s1 ! i"
    using assms(1,2,4) by (auto simp: s1_def heartbeat_inv_def)
  obtain down dropped res where e: "e = (down, dropped, res)" by (cases e)
  obtain out s2 where st2: "heartbeat_step config vs (1 - i) down dropped res s1 = (out, s2)" by (cases "heartbeat_step config vs (1 - i) down dropped res s1")
  show ?thesis
  proof (cases out)
    case HbContinue
    have "1 - i < 2" using assms(2) by simp
    then have "heartbeat_inv config vs s2" using heartbeat_step_inv [OF inv _ assms(3), of "1 - i" down dropped res] st2 by simp
    moreover have "consecutive_failures s2 ! i = consecutive_failures s1 ! i" "connected s2 ! i"
      using heartbeat_other_turn [OF inv assms(2) st2 [unfolded HbContinue]] k by auto
    moreover have "1 - (1 - i) = i" using assms(2) by auto
    ultimately show ?thesis using rest [of s2] False k st st2 HbContinue by (simp add: e del: One_nat_def)
  qed (auto simp: e st st2 stops_def simp del: One_nat_def)
qed

lemma silent_node:
  assumes "heartbeat_inv config vs s" "i < 2" "'''' \<notin> vs" "connected s ! i"
  shows "stops (heartbeat_run config vs i [(False, d, None), e, (False, d', None), e', (False, d'', None)] s)"
proof (rule silent_round [OF assms])
  fix s1 assume 1: "heartbeat_inv config vs s1" "connected s1 ! i" "consecutive_failures s1 ! i = consecutive_failures s ! i + 1"
  show "stops (heartbeat_run config vs i [(False, d', None), e', (False, d'', None)] s1)"
  proof (rule silent_round [OF 1(1) assms(2,3) 1(2)])
    fix s2 assume 2: "heartbeat_inv config vs s2" "connected s2 ! i" "consecutive_failures s2 ! i = consecutive_failures s1 ! i + 1"
    show "stops (heartbeat_run config vs i [(False, d'', None)] s2)"
    proof (cases "shutting_down s2")
      case True
      then show ?thesis by (rule stops_once_down)
    next
      case False
      then show ?thesis using heartbeat_failed_turn [OF 2(1) assms(2) 2(2), of d''] 1 2 by (simp add: stops_def)
    qed
  qed
qed

lemma heartbeat_loop_run:
  assumes "fst (heartbeat_loop config vs events) = HbContinue"
  shows "heartbeat_loop config vs (events @ later) = heartbeat_run config vs (length events mod 2) later (snd (heartbeat_loop config vs events))"
proof -
  have run: "heartbeat_loop config vs xs = heartbeat_run config vs 0 xs heartbeat_start" for xs
    using assms by (auto simp: heartbeat_loop_def Let_def split: if_splits)
  obtain s where "heartbeat_run config vs 0 events heartbeat_start = (HbContinue, s)"
    using assms by (cases "heartbeat_run config vs 0 events heartbeat_start") (simp add: run)
  then show ?thesis using heartbeat_run_append [of 0 config vs events heartbeat_start s later] by (simp add: run)
qed

lemma heartbeat_loop_inv:
  assumes "'''' \<notin> vs"
  shows "heartbeat_inv config vs (snd (heartbeat_loop config vs events))"
    "fst (heartbeat_loop config vs events) = HbReturn \<Longrightarrow> shutting_down (snd (heartbeat_loop config vs events))"
  using heartbeat_run_inv [OF heartbeat_start_inv _ assms, of 0 config events] heartbeat_start_inv [of config vs]
  by (auto simp: heartbeat_loop_def Let_def)

section \<open>Properties\<close>

text \<open>
  C13: startup barriers. When the startup barriers of a node return with success, its record has
  the identifiers of both other nodes, and each of them was not ready or had recorded this
  node. If the visibility barrier is not disabled in the configuration, moreover every node
  has recorded the identifier of every other node. Assumed: the replies are those of the health
  endpoints at moments before, identifiers are different and do not change, what a node has
  recorded stays recorded, and this node's own record has what the barriers collected. With
  the barrier disabled the other two nodes need not have seen each other.
\<close>

theorem startup_barriers_give_mutual_visibility:
  assumes ok: "wait_for_startup_barriers parse config (uuid me) start rounds verified = Some (Inr (), verified')"
    and me: "me = coordination_party_id config" "me < 3"
    and uuids: "inj_on uuid {0..<3}" "\<forall>t j. node_uuid (history t j) = uuid j"
    and records: "\<forall>j. mono (\<lambda>t. node_verified (history t j))" "verified' \<subseteq> node_verified (history now me)"
    and replies: "\<forall>(net, _)\<in>set rounds. genuine parse config history now net"
  shows "(\<not> startup_visibility_barrier_disabled config \<longrightarrow> (\<forall>j<3. \<forall>k<3. j \<noteq> k \<longrightarrow> uuid k \<in> node_verified (history now j)))
    \<and> (\<forall>j<3. j \<noteq> me \<longrightarrow> uuid j \<in> node_verified (history now me)
        \<and> (\<exists>t\<le>now. \<not> node_ready (history t j) \<or> uuid me \<in> node_verified (history t j)))"
proof -
  obtain v rest where un: "unready_loop parse config (uuid me) (start + 1000 * unat (startup_sync_timeout_secs config)) rounds verified = Some (Inr (), v, rest)"
    and vis: "if startup_visibility_barrier_disabled config then v = verified'
      else visibility_loop parse config (uuid me) (1000 * unat (startup_sync_timeout_secs config)) rest v = Some (Inr (), verified')"
    by (rule barriers_split [OF ok])
  note others = set_other_nodes [of me, unfolded me(1)]
  have rest: "set rest \<subseteq> set rounds" using unready_loop_ok [OF un] by blast
  have grows: "v \<subseteq> verified'" using vis visibility_loop_ok by (auto split: if_splits)
  have names: "uuid k \<in> insert (uuid me) (probe_uuid ` set ps)"
    if cover: "\<And>j. j \<in> set (other_nodes (coordination_party_id config)) \<Longrightarrow> \<exists>t\<le>now. health (history t j) \<in> set ps" and k: "k < 3" for ps k
  proof (cases "k = me")
    case False
    then obtain t where "health (history t k) \<in> set ps" using k cover [of k] others me by auto
    then have "probe_uuid (health (history t k)) \<in> probe_uuid ` set ps" by (rule imageI)
    then show ?thesis using uuids(2) by simp
  qed simp
  have ne: "uuid k \<noteq> uuid j" if "j < 3" "k < 3" "j \<noteq> k" for j k using uuids(1) that by (auto simp: inj_on_def)
  obtain net' rs' ps' x' where r': "(net', x') \<in> set rounds" "try_get_endpoint_other_nodes config ''health'' net' = Inr rs'" "list_all2 (\<lambda>(status, body) p. parse body = Some p) rs' ps'"
    and p': "\<forall>p\<in>set ps'. \<not> probe_is_ready p \<or> uuid me \<in> probe_verified_peers p" "probe_uuid ` set ps' \<subseteq> v"
    using unready_loop_ok [OF un] by blast
  have gen': "genuine parse config history now net'" using replies r'(1) by blast
  note cover' = replies_cover [OF genuine_replies [OF gen' r'(2,3)]]
  show ?thesis
  proof (intro conjI allI impI)
    fix j k :: nat assume enabled: "\<not> startup_visibility_barrier_disabled config" and jk: "j < 3" "k < 3" "j \<noteq> k"
    obtain net rs ps x where r: "(net, x) \<in> set rest" "try_get_endpoint_other_nodes config ''health'' net = Inr rs" "list_all2 (\<lambda>(status, body) p. parse body = Some p) rs ps"
      and p: "incomplete_visibility (uuid me) ps = []" "probe_uuid ` set ps \<subseteq> verified'"
      using visibility_loop_ok vis enabled by (simp only: if_False) blast
    have gen: "genuine parse config history now net" using replies rest r(1) by blast
    note cover = replies_cover [OF genuine_replies [OF gen r(2,3)]]
    show "uuid k \<in> node_verified (history now j)"
    proof (cases "j = me")
      case True
      then show ?thesis using names [OF cover(1) jk(2)] p(2) records(2) ne [OF jk] by blast
    next
      case False
      then obtain t where t: "t \<le> now" "health (history t j) \<in> set ps" using cover(1) [of j] others me jk by auto
      then have "uuid k \<in> node_verified (history t j)"
        using p(1) names [OF cover(1) jk(2)] ne [OF jk] uuids(2) unfolding incomplete_visibility_Nil by fastforce
      then show ?thesis using records(1) t(1) by (blast dest: monoD)
    qed
  next
    fix j :: nat assume j: "j < 3" "j \<noteq> me"
    show "uuid j \<in> node_verified (history now me)" using names [OF cover'(1) j(1)] p'(2) grows records(2) ne [OF me(2) j(1)] j(2) by blast
    obtain t where "t \<le> now" "health (history t j) \<in> set ps'" using cover'(1) [of j] others me j by auto
    then show "\<exists>t\<le>now. \<not> node_ready (history t j) \<or> uuid me \<in> node_verified (history t j)" using p'(1) by fastforce
  qed
qed

text \<open>Three nodes that have seen each other, with the index of a node as the length of its replies.\<close>

definition demo_coordination :: ServerCoordinationConfig where
  "demo_coordination = default_server_coordination\<lparr>node_hostnames := [''a'', ''b'', ''c'']\<rparr>"

definition demo_uuid :: "nat \<Rightarrow> string" where
  "demo_uuid j = replicate (Suc j) CHR ''u''"

definition demo_node :: "nat \<Rightarrow> node_state" where
  "demo_node j = \<lparr>node_uuid = demo_uuid j, node_image = '''', node_verified = {demo_uuid 0, demo_uuid 1, demo_uuid 2}, node_ready = False, node_shutting_down = False\<rparr>"

definition demo_parse :: "u8 list \<Rightarrow> ReadyProbeResponse option" where
  "demo_parse body = Some (health (demo_node (length body)))"

definition demo_net :: "string \<Rightarrow> attempt list" where
  "demo_net url = [SendFailed, Reply 200 (if url = ''http://b:3000/health'' then [0] else [0, 0])]"

lemma demo_urls:
  "node_url demo_coordination ''health'' (Suc 0) = ''http://b:3000/health''" "node_url demo_coordination ''health'' 2 = ''http://c:3000/health''"
  by (simp_all add: node_url_def demo_coordination_def default_server_coordination_def get_check_addresses_def numeral_3_eq_3)

lemma demo_fields: "coordination_party_id demo_coordination = 0" "\<not> startup_visibility_barrier_disabled demo_coordination"
  by (simp_all add: demo_coordination_def default_server_coordination_def)

lemma demo_addresses: "length (get_check_addresses (node_hostnames demo_coordination) (healthcheck_ports demo_coordination) ''health'') = 3"
  by (simp add: demo_coordination_def default_server_coordination_def get_check_addresses_def)

lemma demo_query: "try_get_endpoint_other_nodes demo_coordination ''health'' demo_net = Inr [(200, [0]), (200, [0, 0])]"
  using demo_urls by (simp add: try_get_endpoint_other_nodes_def demo_fields demo_addresses other_nodes_eq node_url_def Let_def demo_net_def)

lemma demo_barriers:
  "wait_for_startup_barriers demo_parse demo_coordination (demo_uuid 0) 0 [(demo_net, 0, 0), (demo_net, 0, 0)] {} =
     Some (Inr (), {demo_uuid 1, demo_uuid 2})"
proof -
  have "incomplete_visibility (demo_uuid 0) [health (demo_node 1), health (demo_node 2)] = []"
    unfolding incomplete_visibility_Nil by (auto simp: demo_node_def)
  moreover have "demo_parse [0] = Some (health (demo_node 1))" "demo_parse [0, 0] = Some (health (demo_node 2))"
    by (simp_all add: demo_parse_def numeral_2_eq_2)
  moreover have "\<not> node_ready (demo_node j)" "node_uuid (demo_node j) = demo_uuid j" for j by (simp_all add: demo_node_def)
  ultimately show ?thesis
    by (simp add: wait_for_startup_barriers_def wait_for_others_unready_def wait_until_startup_visibility_is_complete_def demo_query demo_fields
        Let_def insert_commute)
qed

theorem startup_barriers_give_mutual_visibility_witness:
  "wait_for_startup_barriers demo_parse demo_coordination (demo_uuid 0) 0 [(demo_net, 0, 0), (demo_net, 0, 0)] {} = Some (Inr (), {demo_uuid 1, demo_uuid 2})
    \<and> {demo_uuid 1, demo_uuid 2} \<subseteq> node_verified (demo_node 0)
    \<and> {demo_uuid 0, demo_uuid 2} \<subseteq> node_verified (demo_node 1)
    \<and> {demo_uuid 0, demo_uuid 1} \<subseteq> node_verified (demo_node 2)"
proof -
  have "(\<not> startup_visibility_barrier_disabled demo_coordination \<longrightarrow> (\<forall>j<3. \<forall>k<3. j \<noteq> k \<longrightarrow> demo_uuid k \<in> node_verified (demo_node j)))
    \<and> (\<forall>j<3. j \<noteq> 0 \<longrightarrow> demo_uuid j \<in> node_verified (demo_node 0)
        \<and> (\<exists>t\<le>(0 :: nat). \<not> node_ready (demo_node j) \<or> demo_uuid 0 \<in> node_verified (demo_node j)))"
  proof (rule startup_barriers_give_mutual_visibility [where uuid = demo_uuid and me = 0, OF demo_barriers, where history = "\<lambda>t. demo_node" and now = 0])
    show "inj_on demo_uuid {0..<3}" by (auto simp: inj_on_def demo_uuid_def)
    show "\<forall>(net, _)\<in>set [(demo_net, 0, 0), (demo_net, 0, 0)]. genuine demo_parse demo_coordination (\<lambda>t. demo_node) 0 net"
      using demo_urls by (auto simp: genuine_def demo_net_def demo_fields other_nodes_eq demo_parse_def numeral_2_eq_2 [symmetric])
  qed (auto simp: demo_coordination_def default_server_coordination_def demo_node_def mono_def)
  then have seen: "j < 3 \<Longrightarrow> k < 3 \<Longrightarrow> j \<noteq> k \<Longrightarrow> demo_uuid k \<in> node_verified (demo_node j)" for j k using demo_fields(2) by blast
  show ?thesis
    using demo_barriers seen [of 0 1] seen [of 0 2] seen [of 1 0] seen [of 1 2] seen [of 2 0] seen [of 2 1] by (intro conjI) (simp_all del: One_nat_def)
qed

text \<open>
  C37: the startup barriers return. When the clock has passed the deadline of the first wait in
  one of the rounds, and the time limit of the second in a later one, whatever the other nodes
  answer in them, both waits are over: the node goes on or stops with an error.
\<close>

theorem startup_barriers_return:
  assumes "start + 1000 * unat (startup_sync_timeout_secs config) \<le> later"
    and "1000 * unat (startup_sync_timeout_secs config) \<le> failed" "1000 * unat (startup_sync_timeout_secs config) \<le> elapsed"
  shows "\<exists>r verified'. wait_for_startup_barriers parse config my_uuid start (xs @ (net, now, later) # ys @ (net', failed, elapsed) # zs) verified = Some (r, verified')"
proof -
  obtain r v rest ws where un: "unready_loop parse config my_uuid (start + 1000 * unat (startup_sync_timeout_secs config))
      (xs @ (net, now, later) # ys @ (net', failed, elapsed) # zs) verified = Some (r, v, rest)" "rest = ws @ ys @ (net', failed, elapsed) # zs"
    using unready_loop_returns [OF assms(1)] by blast
  have "visibility_loop parse config my_uuid (1000 * unat (startup_sync_timeout_secs config)) rest v \<noteq> None"
    using visibility_loop_returns [OF assms(2,3), where xs = "ws @ ys"] un(2) by simp
  then show ?thesis
    by (auto simp: wait_for_startup_barriers_def wait_for_others_unready_def wait_until_startup_visibility_is_complete_def un(1) split: sum.splits)
qed

theorem startup_barriers_return_witness:
  "\<exists>r verified'. wait_for_startup_barriers demo_parse demo_coordination (demo_uuid 0) 0 ([] @ (demo_net, 0, 300000) # [] @ (demo_net, 300000, 300000) # []) {}
     = Some (r, verified')"
  by (rule startup_barriers_return) (simp_all add: demo_coordination_def default_server_coordination_def)

text \<open>
  C19: the heartbeat. Whatever the nodes answer, a node counts as connected exactly when an
  identifier of it is recorded, and that is one verified at startup; the initial retries stay
  within the limit, at most two failures in a row are counted before the shutdown, and the
  first contact is announced only when both nodes are connected. So the start succeeds only
  with verified nodes. The loop returns only in a shutdown. A connected node that misses three
  turns in a row, has another identifier or reports its own shutdown stops the loop.
\<close>

theorem heartbeat_watches_verified_nodes:
  assumes "'''' \<notin> verified_peers" and "heartbeat_loop config verified_peers events = (outcome, s)"
  shows "heartbeat_inv config verified_peers s
    \<and> (init_heartbeat_task config verified_peers events = Some (Inr ()) \<longrightarrow> set (last_response s) \<subseteq> verified_peers)
    \<and> (outcome = HbReturn \<longrightarrow> shutting_down s)
    \<and> (outcome = HbContinue \<and> connected s ! (length events mod 2) \<longrightarrow>
         stops (heartbeat_loop config verified_peers (events @ [(False, d, None), e, (False, d', None), e', (False, d'', None)]))
         \<and> (probe_uuid p \<noteq> last_response s ! (length events mod 2) \<or> probe_shutting_down p \<longrightarrow>
              stops (heartbeat_loop config verified_peers (events @ [(False, d, Some p)]))))"
proof (intro conjI impI)
  let ?i = "length events mod 2"
  show inv: "heartbeat_inv config verified_peers s" using heartbeat_loop_inv(1) [OF assms(1), of config events] assms(2) by simp
  show "set (last_response s) \<subseteq> verified_peers" if "init_heartbeat_task config verified_peers events = Some (Inr ())"
  proof -
    have "announced s" using that assms(2) by (auto simp: init_heartbeat_task_def split: if_splits)
    then show ?thesis using inv by (auto simp: heartbeat_inv_def in_set_conv_nth less_2_cases_iff)
  qed
  show "shutting_down s" if "outcome = HbReturn" using heartbeat_loop_inv(2) [OF assms(1), of config events] assms(2) that by simp
  assume "outcome = HbContinue \<and> connected s ! ?i"
  then have c: "fst (heartbeat_loop config verified_peers events) = HbContinue" "connected s ! ?i" using assms(2) by simp_all
  note run = heartbeat_loop_run [OF c(1), unfolded assms(2) snd_conv]
  show "stops (heartbeat_loop config verified_peers (events @ [(False, d, None), e, (False, d', None), e', (False, d'', None)]))"
    unfolding run by (rule silent_node [OF inv _ assms(1) c(2)]) simp
  have "last_response s ! ?i \<noteq> ''''" using inv c(2) by (auto simp: heartbeat_inv_def)
  then show "stops (heartbeat_loop config verified_peers (events @ [(False, d, Some p)]))"
    if "probe_uuid p \<noteq> last_response s ! ?i \<or> probe_shutting_down p"
    unfolding run using that by (cases "shutting_down s") (auto simp: stops_def heartbeat_step_def Let_def)
qed

theorem heartbeat_watches_verified_nodes_witness:
  "stops (heartbeat_loop demo_coordination {demo_uuid 1, demo_uuid 2}
     ([(False, None, Some (health (demo_node 1))), (False, None, Some (health (demo_node 2)))] @ [(False, None, None), (False, None, None), (False, None, None), (False, None, None), (False, None, None)]))"
proof -
  have run: "heartbeat_loop demo_coordination {demo_uuid 1, demo_uuid 2} [(False, None, Some (health (demo_node 1))), (False, None, Some (health (demo_node 2)))] =
    (HbContinue, heartbeat_start\<lparr>last_response := [demo_uuid 1, demo_uuid 2], connected := [True, True], announced := True\<rparr>)"
    by (simp add: heartbeat_loop_def demo_addresses demo_fields heartbeat_step_def heartbeat_start_def Let_def demo_node_def)
  have "'''' \<notin> {demo_uuid 1, demo_uuid 2}" by (simp add: demo_uuid_def)
  from heartbeat_watches_verified_nodes [OF this run, where d = None and d' = None and d'' = None and e = "(False, None, None)" and e' = "(False, None, None)"]
  show ?thesis by simp
qed

end
