(* ===== verification/Peer_Sync.thy ===== *)
theory Peer_Sync
  imports Coordination Modifications
begin

text \<open>
  Agreement of the servers on what to work on (\<open>ampc-server-utils/src/\<close>): the size and the
  valid entries of a batch (\<open>batch_sync.rs\<close>), the gallery after recovery (\<open>gallery_sync.rs\<close>),
  the queue position and the common configuration at startup (\<open>startup_sync.rs\<close>) and the
  shutdown handler (\<open>shutdown_handler.rs\<close>). As in the coordination theory, what the HTTP
  client observes is an argument and the JSON library a parameter.
\<close>

section \<open>Shutdown handler\<close>

record ShutdownHandler =
  ct_cancelled :: bool
  network_ct_cancelled :: bool
  n_batches_pending_completion :: u64
  last_results_sync_timeout :: nat

datatype ShutdownError = ShutdownTimeout u64

definition shutdown_handler_new :: "u64 \<Rightarrow> ShutdownHandler" where
  "shutdown_handler_new timeout_secs =
     \<lparr>ct_cancelled = False, network_ct_cancelled = False, n_batches_pending_completion = 0, last_results_sync_timeout = 1000 * unat timeout_secs\<rparr>"

definition is_shutting_down :: "ShutdownHandler \<Rightarrow> bool" where
  "is_shutting_down self = ct_cancelled self"

definition trigger_manual_shutdown :: "ShutdownHandler \<Rightarrow> ShutdownHandler" where
  "trigger_manual_shutdown self = self\<lparr>ct_cancelled := True\<rparr>"

text \<open>The atomic counters wrap around.\<close>

definition increment_batches_pending_completion :: "ShutdownHandler \<Rightarrow> ShutdownHandler" where
  "increment_batches_pending_completion self = self\<lparr>n_batches_pending_completion := n_batches_pending_completion self + 1\<rparr>"

definition decrement_batches_pending_completion :: "ShutdownHandler \<Rightarrow> ShutdownHandler" where
  "decrement_batches_pending_completion self = self\<lparr>n_batches_pending_completion := n_batches_pending_completion self - 1\<rparr>"

text \<open>
  The loop over what the handler is at each check and the time passed then: the other tasks
  change it in between. \<open>None\<close>: it still waits.
\<close>

fun wait_for_pending_batches_completion :: "(ShutdownHandler \<times> nat) list \<Rightarrow> (ShutdownError + ShutdownHandler) option" where
  "wait_for_pending_batches_completion [] = None"
| "wait_for_pending_batches_completion ((self, elapsed) # rest) =
     (if 0 < n_batches_pending_completion self
      then if last_results_sync_timeout self \<le> elapsed then Some (Inl (ShutdownTimeout (n_batches_pending_completion self)))
           else wait_for_pending_batches_completion rest
      else Some (Inr (if ct_cancelled self then self\<lparr>network_ct_cancelled := True\<rparr> else self)))"

section \<open>Batches\<close>

record BatchSyncSharedState =
  shared_batch_id :: u64
  shared_messages_to_poll :: u32

record BatchSyncState =
  messages_to_poll :: u32
  batch_id :: u64

record BatchSyncEntries =
  valid_entries :: "bool list"
  batch_sha :: "u8 list"

record BatchSyncEntriesResult =
  my_entries :: BatchSyncEntries
  all_entries :: "BatchSyncEntries list"

definition sha_matches :: "BatchSyncEntriesResult \<Rightarrow> bool" where
  "sha_matches self = list_all (\<lambda>s. batch_sha s = batch_sha (my_entries self)) (all_entries self)"

text \<open>The inner loop clears the positions of invalid entries; a position out of range panics.\<close>

fun clear_invalid :: "nat \<Rightarrow> bool list \<Rightarrow> bool list \<Rightarrow> bool list option" where
  "clear_invalid i [] acc = Some acc"
| "clear_invalid i (entry # entries) acc =
     (if \<not> entry then if i < length acc then clear_invalid (Suc i) entries (acc[i := False]) else None
      else clear_invalid (Suc i) entries acc)"

fun fold_entries :: "BatchSyncEntries list \<Rightarrow> bool list \<Rightarrow> bool list option" where
  "fold_entries [] acc = Some acc"
| "fold_entries (s # ss) acc = Option.bind (clear_invalid 0 (valid_entries s) acc) (fold_entries ss)"

definition result_valid_entries :: "BatchSyncEntriesResult \<Rightarrow> bool list option" where
  "result_valid_entries self = fold_entries (all_entries self) (replicate (length (valid_entries (my_entries self))) True)"

record BatchSyncResult =
  my_batch_state :: BatchSyncState
  all_batch_states :: "BatchSyncState list"

definition result_messages_to_poll :: "BatchSyncResult \<Rightarrow> u32" where
  "result_messages_to_poll self =
     (if all_batch_states self = [] then 0 else Min (set (map messages_to_poll (all_batch_states self))))"

text \<open>The endpoints: the state is served only for the batch the query names.\<close>

definition batch_sync_state_route :: "(BatchSyncState \<Rightarrow> u8 list option) \<Rightarrow> BatchSyncSharedState \<Rightarrow> u64 \<Rightarrow> nat \<times> u8 list" where
  "batch_sync_state_route to_string shared params_batch_id =
     (if params_batch_id \<noteq> shared_batch_id shared then (409, [])
      else case to_string \<lparr>messages_to_poll = shared_messages_to_poll shared, batch_id = shared_batch_id shared\<rparr> of
             Some body \<Rightarrow> (200, body)
           | None \<Rightarrow> (500, []))"

definition get_own_batch_sync_entries :: "bool list \<Rightarrow> u8 list \<Rightarrow> BatchSyncEntries" where
  "get_own_batch_sync_entries current_batch_valid_entries current_batch_hash =
     \<lparr>valid_entries = current_batch_valid_entries, batch_sha = current_batch_hash\<rparr>"

definition batch_sync_entries_route :: "(BatchSyncEntries \<Rightarrow> u8 list option) \<Rightarrow> bool list \<Rightarrow> u8 list \<Rightarrow> nat \<times> u8 list" where
  "batch_sync_entries_route to_string current_batch_valid_entries current_batch_hash =
     (case to_string (get_own_batch_sync_entries current_batch_valid_entries current_batch_hash) of
        Some body \<Rightarrow> (200, body)
      | None \<Rightarrow> (500, []))"

text \<open>
  Polling of a node: the attempts until the timeout. An attempt that fails, has an error
  status, does not parse or is not accepted is followed by the next one. The texts about the
  last observed failure are left out of the errors.
\<close>

datatype sync_error =
    NoOwnState
  | SyncIndexPanic
  | PollTimeout string
  | QueryFailed coordination_error
  | GalleryTimedOut
  | GalleryStatus nat nat
  | InvalidGallery nat
  | GalleryMismatch nat
  | GalleryChanged
  | InconsistentConfig

definition is_success :: "nat \<Rightarrow> bool" where
  "is_success st \<longleftrightarrow> 200 \<le> st \<and> st < 300"

fun poll_node :: "(u8 list \<Rightarrow> 's option) \<Rightarrow> ('s \<Rightarrow> bool) \<Rightarrow> attempt list \<Rightarrow> 's option" where
  "poll_node parse accept [] = None"
| "poll_node parse accept (Reply st body # rest) =
     (if \<not> is_success st then poll_node parse accept rest
      else case parse body of
             None \<Rightarrow> poll_node parse accept rest
           | Some s \<Rightarrow> if accept s then Some s else poll_node parse accept rest)"
| "poll_node parse accept (_ # rest) = poll_node parse accept rest"

fun poll_hosts :: "(u8 list \<Rightarrow> 's option) \<Rightarrow> ('s \<Rightarrow> bool) \<Rightarrow> (string \<Rightarrow> attempt list) \<Rightarrow> string list \<Rightarrow> 's list \<Rightarrow> sync_error + 's list" where
  "poll_hosts parse accept net [] states = Inr states"
| "poll_hosts parse accept net (host # hosts) states =
     (case poll_node parse accept (net host) of
        None \<Rightarrow> Inl (PollTimeout host)
      | Some s \<Rightarrow> poll_hosts parse accept net hosts (states @ [s]))"

definition next_and_prev :: "ServerCoordinationConfig \<Rightarrow> string \<Rightarrow> string list option" where
  "next_and_prev config ep =
     (let addresses = get_check_addresses (node_hostnames config) (healthcheck_ports config) ep;
          next_i = (coordination_party_id config + 1) mod 3; prev_i = (coordination_party_id config + 2) mod 3
      in if next_i < length addresses \<and> prev_i < length addresses then Some [addresses ! next_i, addresses ! prev_i] else None)"

text \<open>The network maps an address and the batch of the query to its attempts.\<close>

definition get_batch_sync_states :: "(u8 list \<Rightarrow> BatchSyncState option) \<Rightarrow> ServerCoordinationConfig \<Rightarrow> BatchSyncState option
    \<Rightarrow> (string \<Rightarrow> u64 \<Rightarrow> attempt list) \<Rightarrow> sync_error + BatchSyncState list" where
  "get_batch_sync_states parse config own_state net =
     (case own_state of
        None \<Rightarrow> Inl NoOwnState
      | Some own_sync_state \<Rightarrow>
        (let reference_batch_id = batch_id own_sync_state
         in case next_and_prev config ''batch-sync-state'' of
              None \<Rightarrow> Inl SyncIndexPanic
            | Some hosts \<Rightarrow>
                poll_hosts parse (\<lambda>s. \<not> batch_id s < reference_batch_id) (\<lambda>host. net host reference_batch_id) hosts [own_sync_state]))"

definition get_batch_sync_entries :: "(u8 list \<Rightarrow> BatchSyncEntries option) \<Rightarrow> ServerCoordinationConfig \<Rightarrow> BatchSyncEntries option
    \<Rightarrow> (string \<Rightarrow> attempt list) \<Rightarrow> sync_error + BatchSyncEntries list" where
  "get_batch_sync_entries parse config own_state net =
     (case own_state of
        None \<Rightarrow> Inl NoOwnState
      | Some own_sync_state \<Rightarrow>
        (case next_and_prev config ''batch-sync-entries'' of
           None \<Rightarrow> Inl SyncIndexPanic
         | Some hosts \<Rightarrow> poll_hosts parse (\<lambda>s. batch_sha s = batch_sha own_sync_state) net hosts [own_sync_state]))"

section \<open>Gallery\<close>

record GalleryState =
  gallery_db_len :: u64
  next_available_serial_id :: int
  serial_ids_digest :: "u8 list"

fun ensure_gallery_consistency :: "GalleryState \<Rightarrow> (nat \<times> GalleryState) list \<Rightarrow> sync_error + unit" where
  "ensure_gallery_consistency local [] = Inr ()"
| "ensure_gallery_consistency local ((party, peer) # peers) =
     (if local = peer then ensure_gallery_consistency local peers else Inl (GalleryMismatch party))"

definition ensure_gallery_unchanged :: "GalleryState \<Rightarrow> GalleryState \<Rightarrow> sync_error + unit" where
  "ensure_gallery_unchanged before after = (if before = after then Inr () else Inl GalleryChanged)"

text \<open>The endpoint of the published snapshot.\<close>

definition gallery_route :: "(GalleryState \<Rightarrow> u8 list) \<Rightarrow> GalleryState option \<Rightarrow> nat \<times> u8 list" where
  "gallery_route to_json published = (case published of Some s \<Rightarrow> (200, to_json s) | None \<Rightarrow> (503, []))"

text \<open>The queries until the timeout; an error of a query ends the loop.\<close>

fun gallery_loop :: "ServerCoordinationConfig \<Rightarrow> (string \<Rightarrow> attempt list) list \<Rightarrow> sync_error + (nat \<times> u8 list) list" where
  "gallery_loop config [] = Inl GalleryTimedOut"
| "gallery_loop config (net # rounds) =
     (case try_get_endpoint_other_nodes config ''gallery-sync'' net of
        Inl e \<Rightarrow> Inl (QueryFailed e)
      | Inr responses \<Rightarrow>
          if list_all (\<lambda>(st, _). st \<noteq> 503) responses then Inr responses else gallery_loop config rounds)"

fun check_responses :: "(u8 list \<Rightarrow> GalleryState option) \<Rightarrow> GalleryState \<Rightarrow> (nat \<times> nat \<times> u8 list) list \<Rightarrow> sync_error + unit" where
  "check_responses parse local [] = Inr ()"
| "check_responses parse local ((party, st, body) # rest) =
     (if \<not> is_success st then Inl (GalleryStatus party st)
      else case parse body of
             None \<Rightarrow> Inl (InvalidGallery party)
           | Some peer \<Rightarrow>
             (case ensure_gallery_consistency local [(party, peer)] of
                Inl e \<Rightarrow> Inl e
              | Inr _ \<Rightarrow> check_responses parse local rest))"

text \<open>The snapshot is published first; the result has what the endpoint serves afterwards.\<close>

definition gallery_check :: "(u8 list \<Rightarrow> GalleryState option) \<Rightarrow> ServerCoordinationConfig \<Rightarrow> GalleryState \<Rightarrow> (string \<Rightarrow> attempt list) list
    \<Rightarrow> (sync_error + unit) \<times> GalleryState option" where
  "gallery_check parse config local rounds =
     (case gallery_loop config rounds of
        Inl e \<Rightarrow> Inl e
      | Inr responses \<Rightarrow>
          check_responses parse local (zip (filter (\<lambda>party. party \<noteq> coordination_party_id config) [0..<3]) responses),
      Some local)"

section \<open>Startup\<close>

record 'c StartupSyncState =
  startup_db_len :: u64
  next_sns_sequence_num :: "u128 option"
  common_config :: 'c
  startup_modifications :: "int Modification list"

record 'c StartupSyncResult =
  my_startup_state :: "'c StartupSyncState"
  all_startup_states :: "'c StartupSyncState list"

text \<open>\<open>None\<close> is a panic: mixed queues, or no state at all. In the order of options \<open>None\<close> is the smallest.\<close>

definition max_sns_sequence_num :: "'c StartupSyncResult \<Rightarrow> u128 option option" where
  "max_sns_sequence_num self =
     (let sequence_nums = map next_sns_sequence_num (all_startup_states self);
          any_empty_queues = list_ex (\<lambda>s. s = None) sequence_nums;
          any_non_empty_queues = list_ex (\<lambda>s. s \<noteq> None) sequence_nums
      in if any_empty_queues \<and> any_non_empty_queues then None
         else if sequence_nums = [] then None
         else Some (if any_non_empty_queues then Some (Max (set (map the sequence_nums))) else None))"

fun check_common_loop :: "'c \<Rightarrow> 'c StartupSyncState list \<Rightarrow> sync_error + unit" where
  "check_common_loop my_config [] = Inr ()"
| "check_common_loop my_config (s # ss) = (if my_config = common_config s then check_common_loop my_config ss else Inl InconsistentConfig)"

definition check_common_config :: "'c StartupSyncResult \<Rightarrow> sync_error + unit" where
  "check_common_config self = check_common_loop (common_config (my_startup_state self)) (all_startup_states self)"
section \<open>Lemmas\<close>

lemma poll_node_Some:
  "poll_node parse accept as = Some s \<Longrightarrow> \<exists>st body. Reply st body \<in> set as \<and> is_success st \<and> parse body = Some s \<and> accept s"
  by (induction parse accept as rule: poll_node.induct) (auto split: if_splits option.splits)

lemma poll_hosts_ok:
  "poll_hosts parse accept net hosts states = Inr ss \<Longrightarrow> \<exists>new. ss = states @ new \<and> list_all2 (\<lambda>host s. poll_node parse accept (net host) = Some s) hosts new"
proof (induction hosts arbitrary: states)
  case (Cons host hosts)
  then show ?case by (fastforce split: option.splits)
qed simp

lemma next_and_prev_urls:
  "next_and_prev config ep = Some hosts \<Longrightarrow>
     hosts = [node_url config ep ((coordination_party_id config + 1) mod 3), node_url config ep ((coordination_party_id config + 2) mod 3)]"
  by (auto simp: next_and_prev_def node_url_def Let_def split: if_splits)

text \<open>The three nodes seen from one of them.\<close>

lemma below_3: "i < 3 \<Longrightarrow> i = 0 \<or> i = 1 \<or> i = (2 :: nat)"
  by auto

lemma rotation: "i < 3 \<Longrightarrow> {i, (i + 1) mod 3, (i + 2) mod 3} = {0, 1, 2 :: nat}"
  by (drule below_3) auto

lemma rotation_other: "i < 3 \<Longrightarrow> (i + 1) mod 3 < 3 \<and> (i + 1) mod 3 \<noteq> i \<and> (i + 2) mod 3 < 3 \<and> (i + 2) mod 3 \<noteq> (i :: nat)"
  by (drule below_3) auto

text \<open>What a node collects when every accepted reply of node \<open>j\<close> is \<open>f j\<close>.\<close>

lemma poll_hosts_collect:
  assumes "next_and_prev config ep = Some hosts" "poll_hosts parse accept net hosts [f i] = Inr ss" "i = coordination_party_id config" "i < 3"
    and "\<And>j s. j < 3 \<Longrightarrow> j \<noteq> i \<Longrightarrow> poll_node parse accept (net (node_url config ep j)) = Some s \<Longrightarrow> s = f j"
  shows "set ss = f ` {0, 1, 2}"
proof -
  have "ss = [f i, f ((i + 1) mod 3), f ((i + 2) mod 3)]"
    using poll_hosts_ok [OF assms(2)] assms(5) [of "(i + 1) mod 3"] assms(5) [of "(i + 2) mod 3"] rotation_other [OF assms(4)] next_and_prev_urls [OF assms(1)] assms(3)
    by (auto simp: list_all2_Cons1)
  then have "set ss = f ` {i, (i + 1) mod 3, (i + 2) mod 3}" by simp
  then show ?thesis unfolding rotation [OF assms(4)] .
qed

lemma clear_invalid_eq:
  "clear_invalid i es acc =
     (if \<forall>k<length es. \<not> es ! k \<longrightarrow> i + k < length acc
      then Some (map (\<lambda>p. acc ! p \<and> (p < i \<or> i + length es \<le> p \<or> es ! (p - i))) [0..<length acc]) else None)"
proof (induction es arbitrary: i acc)
  case Nil
  have "map (\<lambda>p. acc ! p \<and> (p < i \<or> i \<le> p \<or> [] ! (p - i))) [0..<length acc] = acc"
    by (rule nth_equalityI) (auto simp: not_less)
  then show ?case by (simp add: not_less [symmetric])
next
  case (Cons e es)
  have split: "(\<forall>k<length (e # es). \<not> (e # es) ! k \<longrightarrow> i + k < length acc) \<longleftrightarrow> (\<not> e \<longrightarrow> i < length acc) \<and> (\<forall>k<length es. \<not> es ! k \<longrightarrow> Suc i + k < length acc)"
    by (auto simp: less_Suc_eq_0_disj)
  have pos: "(p < i \<or> i + length (e # es) \<le> p \<or> (e # es) ! (p - i)) \<longleftrightarrow> (p = i \<longrightarrow> e) \<and> (p < Suc i \<or> Suc i + length es \<le> p \<or> es ! (p - Suc i))" for p
  proof (cases "p - i")
    case (Suc n)
    then have "n = p - Suc i" "\<not> p < i" by simp_all
    then show ?thesis using Suc by auto
  qed auto
  show ?case unfolding split pos using Cons.IH by (auto simp: nth_list_update intro!: map_cong)
qed
text \<open>An invalid entry behind the end of a list of this length.\<close>

definition invalid_beyond :: "nat \<Rightarrow> BatchSyncEntries \<Rightarrow> bool" where
  "invalid_beyond n s \<longleftrightarrow> (\<exists>k<length (valid_entries s). n \<le> k \<and> \<not> valid_entries s ! k)"

lemma fold_entries_eq:
  "fold_entries ss acc =
     (if \<exists>s\<in>set ss. invalid_beyond (length acc) s then None
      else Some (map (\<lambda>p. acc ! p \<and> (\<forall>s\<in>set ss. p < length (valid_entries s) \<longrightarrow> valid_entries s ! p)) [0..<length acc]))"
proof (induction ss arbitrary: acc)
  case Nil
  then show ?case by (simp add: map_nth)
next
  case (Cons s ss)
  let ?acc = "map (\<lambda>p. acc ! p \<and> (p < length (valid_entries s) \<longrightarrow> valid_entries s ! p)) [0..<length acc]"
  have "clear_invalid 0 (valid_entries s) acc = (if invalid_beyond (length acc) s then None else Some ?acc)"
    by (auto simp: clear_invalid_eq invalid_beyond_def not_le)
  then show ?case using Cons.IH [of ?acc] by (auto intro!: map_cong)
qed

lemma result_valid_entries_None:
  "result_valid_entries r = None \<longleftrightarrow> (\<exists>s\<in>set (all_entries r). invalid_beyond (length (valid_entries (my_entries r))) s)"
  by (simp add: result_valid_entries_def fold_entries_eq)

text \<open>The replies of the gallery endpoints of the other nodes.\<close>

lemma gallery_loop_ok:
  "gallery_loop config rounds = Inr rs \<Longrightarrow> \<exists>net\<in>set rounds. try_get_endpoint_other_nodes config ''gallery-sync'' net = Inr rs"
  by (induction config rounds rule: gallery_loop.induct) (auto split: sum.splits if_splits)

lemma check_responses_ok:
  "check_responses parse local prs = Inr () \<Longrightarrow> (party, st, body) \<in> set prs \<Longrightarrow> parse body = Some local \<and> is_success st"
  by (induction parse local prs rule: check_responses.induct) (auto split: if_splits option.splits)

lemma check_responses_mismatch:
  "check_responses parse local prs = Inl (GalleryMismatch party) \<Longrightarrow>
     \<exists>st body peer. (party, st, body) \<in> set prs \<and> is_success st \<and> parse body = Some peer \<and> peer \<noteq> local"
  by (induction parse local prs rule: check_responses.induct) (auto split: if_splits option.splits)

lemma parties_are_other_nodes: "i < 3 \<Longrightarrow> filter (\<lambda>party. party \<noteq> i) [0..<3] = other_nodes i"
  by (drule below_3) (auto simp: other_nodes_eq upt_rec)

text \<open>Each reply stands with the node that gave it.\<close>

lemma gallery_replies:
  assumes "try_get_endpoint_other_nodes config ep net = Inr rs" "i = coordination_party_id config" "i < 3"
  shows "(j, st, body) \<in> set (zip (filter (\<lambda>party. party \<noteq> i) [0..<3]) rs) \<Longrightarrow> Reply st body \<in> set (net (node_url config ep j))"
    "j < 3 \<Longrightarrow> j \<noteq> i \<Longrightarrow> \<exists>st body. (j, st, body) \<in> set (zip (filter (\<lambda>party. party \<noteq> i) [0..<3]) rs)"
proof -
  note all = try_get_ok [OF assms(1), folded assms(2)]
  show "Reply st body \<in> set (net (node_url config ep j))" if "(j, st, body) \<in> set (zip (filter (\<lambda>party. party \<noteq> i) [0..<3]) rs)"
    using that all unfolding parties_are_other_nodes [OF assms(3)] list_all2_iff by fastforce
  show "\<exists>st body. (j, st, body) \<in> set (zip (filter (\<lambda>party. party \<noteq> i) [0..<3]) rs)" if "j < 3" "j \<noteq> i"
  proof -
    have j: "j \<in> set (other_nodes i)" using that set_other_nodes [OF assms(3)] by simp
    have len: "length (other_nodes i) = length rs" using all by (rule list_all2_lengthD)
    from j obtain k where k: "k < length (other_nodes i)" "other_nodes i ! k = j" by (auto simp: in_set_conv_nth)
    have "(other_nodes i ! k, rs ! k) \<in> set (zip (other_nodes i) rs)" using k len by (auto simp: set_zip)
    then show ?thesis unfolding parties_are_other_nodes [OF assms(3)] using k by (cases "rs ! k") auto
  qed
qed
section \<open>Properties\<close>

text \<open>
  C17: agreement on the size of a batch. A node that collects the states of a batch gets those
  of all three nodes and polls the least of their numbers of messages, which is the same number
  on every node: replies come from the endpoints of the other nodes at some moments, a node's
  number for this batch does not change, and the JSON library reads back what it wrote. A node
  still on another batch answers with a conflict and is asked again.
\<close>

theorem batch_size_agreement:
  assumes ok: "get_batch_sync_states parse config (Some \<lparr>messages_to_poll = m i, batch_id = b\<rparr>) net = Inr states"
    and i: "i = coordination_party_id config" "i < 3"
    and json: "\<forall>s body. to_string s = Some body \<longrightarrow> parse body = Some s"
    and replies: "\<forall>j<3. j \<noteq> i \<longrightarrow> (\<forall>st body. Reply st body \<in> set (net (node_url config ''batch-sync-state'' j) b)
      \<longrightarrow> (\<exists>t. (st, body) = batch_sync_state_route to_string (shared t j) b))"
    and numbers: "\<forall>t j. shared_batch_id (shared t j) = b \<longrightarrow> shared_messages_to_poll (shared t j) = m j"
  shows "set states = (\<lambda>j. \<lparr>messages_to_poll = m j, batch_id = b\<rparr>) ` {0, 1, 2}
    \<and> result_messages_to_poll \<lparr>my_batch_state = \<lparr>messages_to_poll = m i, batch_id = b\<rparr>, all_batch_states = states\<rparr> = Min {m 0, m 1, m 2}"
proof
  let ?f = "\<lambda>j. \<lparr>messages_to_poll = m j, batch_id = b\<rparr>"
  obtain hosts where h: "next_and_prev config ''batch-sync-state'' = Some hosts"
    and p: "poll_hosts parse (\<lambda>s. \<not> batch_id s < b) (\<lambda>host. net host b) hosts [?f i] = Inr states"
    using ok by (auto simp: get_batch_sync_states_def Let_def split: option.splits)
  show *: "set states = ?f ` {0, 1, 2}"
  proof (rule poll_hosts_collect [where f = ?f and i = i, OF h p i])
    fix j s assume j: "j < 3" "j \<noteq> i" and s: "poll_node parse (\<lambda>s. \<not> batch_id s < b) (net (node_url config ''batch-sync-state'' j) b) = Some s"
    obtain st body where r: "Reply st body \<in> set (net (node_url config ''batch-sync-state'' j) b)" "is_success st" "parse body = Some s"
      using poll_node_Some [OF s] by blast
    obtain t where t: "(st, body) = batch_sync_state_route to_string (shared t j) b" using replies j r(1) by blast
    show "s = ?f j" using t r(2,3) json numbers by (auto simp: batch_sync_state_route_def is_success_def split: if_splits option.splits)
  qed
  have "set (map messages_to_poll states) = messages_to_poll ` set states" by simp
  also have "\<dots> = {m 0, m 1, m 2}" unfolding * by auto
  finally have "set (map messages_to_poll states) = {m 0, m 1, m 2}" .
  moreover have "states \<noteq> []" using * by auto
  ultimately show "result_messages_to_poll \<lparr>my_batch_state = ?f i, all_batch_states = states\<rparr> = Min {m 0, m 1, m 2}"
    by (simp add: result_messages_to_poll_def)
qed

text \<open>
  C18: agreement on the valid entries. A node that collects the entries of a batch gets those of
  all three nodes with its own hash, and an entry counts as valid exactly when all three nodes
  find it valid: nodes with the same hash have the same number of entries, and the
  entries of a node are fixed by the hash it reports. For whatever lists were collected,
  combining them panics exactly when one of them has an invalid entry behind the end of the
  own list.
\<close>

theorem batch_entries_agreement:
  assumes ok: "get_batch_sync_entries parse config (Some \<lparr>valid_entries = v i, batch_sha = h\<rparr>) net = Inr states"
    and i: "i = coordination_party_id config" "i < 3"
    and json: "\<forall>s body. to_string s = Some body \<longrightarrow> parse body = Some s"
    and replies: "\<forall>j<3. j \<noteq> i \<longrightarrow> (\<forall>st body. Reply st body \<in> set (net (node_url config ''batch-sync-entries'' j))
      \<longrightarrow> (\<exists>t. (st, body) = batch_sync_entries_route to_string (valid t j) (sha t j)))"
    and entries: "\<forall>t j. sha t j = h \<longrightarrow> valid t j = v j" and len: "\<forall>j<3. length (v j) = n"
  shows "sha_matches \<lparr>my_entries = \<lparr>valid_entries = v i, batch_sha = h\<rparr>, all_entries = states\<rparr>
    \<and> result_valid_entries \<lparr>my_entries = \<lparr>valid_entries = v i, batch_sha = h\<rparr>, all_entries = states\<rparr> =
        Some (map (\<lambda>p. v 0 ! p \<and> v 1 ! p \<and> v 2 ! p) [0..<n])
    \<and> (result_valid_entries r = None \<longleftrightarrow>
         (\<exists>s\<in>set (all_entries r). \<exists>k<length (valid_entries s). length (valid_entries (my_entries r)) \<le> k \<and> \<not> valid_entries s ! k))"
proof (intro conjI)
  let ?f = "\<lambda>j. \<lparr>valid_entries = v j, batch_sha = h\<rparr>"
  obtain hosts where hs: "next_and_prev config ''batch-sync-entries'' = Some hosts"
    and p: "poll_hosts parse (\<lambda>s. batch_sha s = h) net hosts [?f i] = Inr states"
    using ok by (auto simp: get_batch_sync_entries_def split: option.splits)
  have *: "set states = ?f ` {0, 1, 2}"
  proof (rule poll_hosts_collect [where f = ?f and i = i, OF hs p i])
    fix j s assume j: "j < 3" "j \<noteq> i" and s: "poll_node parse (\<lambda>s. batch_sha s = h) (net (node_url config ''batch-sync-entries'' j)) = Some s"
    obtain st body where r: "Reply st body \<in> set (net (node_url config ''batch-sync-entries'' j))" "is_success st" "parse body = Some s" "batch_sha s = h"
      using poll_node_Some [OF s] by blast
    obtain t where t: "(st, body) = batch_sync_entries_route to_string (valid t j) (sha t j)" using replies j r(1) by blast
    have "s = \<lparr>valid_entries = valid t j, batch_sha = sha t j\<rparr>"
      using t r(2,3) json by (auto simp: batch_sync_entries_route_def get_own_batch_sync_entries_def is_success_def split: option.splits)
    then show "s = ?f j" using r(4) entries by simp
  qed
  show "sha_matches \<lparr>my_entries = ?f i, all_entries = states\<rparr>" using * by (auto simp: sha_matches_def list_all_iff)
  have "\<not> (\<exists>s\<in>set states. invalid_beyond n s)" using * len by (auto simp: invalid_beyond_def)
  then have "fold_entries states (replicate n True) = Some (map (\<lambda>p. \<forall>s\<in>set states. p < length (valid_entries s) \<longrightarrow> valid_entries s ! p) [0..<n])"
    unfolding fold_entries_eq by simp
  also have "\<dots> = Some (map (\<lambda>p. v 0 ! p \<and> v 1 ! p \<and> v 2 ! p) [0..<n])" unfolding * using len by simp
  finally show "result_valid_entries \<lparr>my_entries = ?f i, all_entries = states\<rparr> = Some (map (\<lambda>p. v 0 ! p \<and> v 1 ! p \<and> v 2 ! p) [0..<n])"
    using len i by (simp add: result_valid_entries_def)
  show "result_valid_entries r = None \<longleftrightarrow>
      (\<exists>s\<in>set (all_entries r). \<exists>k<length (valid_entries s). length (valid_entries (my_entries r)) \<le> k \<and> \<not> valid_entries s ! k)"
    unfolding result_valid_entries_None invalid_beyond_def ..
qed

text \<open>
  C20: one gallery. When the gallery check of a node succeeds, the other two nodes have published
  the same gallery; when it reports a mismatch, the party it names has published another one.
  Replies come from the endpoints of the other nodes, a node publishes one gallery, and the
  JSON library reads back what it wrote. The node has published its own gallery either way.
\<close>

theorem gallery_check_agrees:
  assumes i: "i = coordination_party_id config" "i < 3"
    and json: "\<forall>t j s. published t j = Some s \<longrightarrow> parse (to_json s) = Some s"
    and replies: "\<forall>net\<in>set rounds. \<forall>j<3. j \<noteq> i \<longrightarrow> (\<forall>st body. Reply st body \<in> set (net (node_url config ''gallery-sync'' j))
      \<longrightarrow> (\<exists>t. (st, body) = gallery_route to_json (published t j)))"
    and one: "\<forall>t j s. published t j = Some s \<longrightarrow> s = gallery j"
  shows "snd (gallery_check parse config local rounds) = Some local
    \<and> (fst (gallery_check parse config local rounds) = Inr () \<longrightarrow> (\<forall>j<3. j \<noteq> i \<longrightarrow> gallery j = local))
    \<and> (\<forall>j. fst (gallery_check parse config local rounds) = Inl (GalleryMismatch j) \<longrightarrow> gallery j \<noteq> local)"
proof -
  have reply: "gallery j = peer"
    if a: "try_get_endpoint_other_nodes config ''gallery-sync'' net = Inr rs" "net \<in> set rounds" "(j, st, body) \<in> set (zip (filter (\<lambda>party. party \<noteq> i) [0..<3]) rs)"
      "is_success st" "parse body = Some peer" for net rs j st body peer
  proof -
    have "j \<in> set (filter (\<lambda>party. party \<noteq> i) [0..<3])" using set_zip_leftD [OF a(3)] .
    then have j: "j < 3" "j \<noteq> i" by simp_all
    obtain t where "(st, body) = gallery_route to_json (published t j)" using replies a(2) j gallery_replies(1) [OF a(1) i a(3)] by blast
    then show ?thesis using a(4,5) json one by (auto simp: gallery_route_def is_success_def split: option.splits)
  qed
  show ?thesis
  proof (intro conjI impI allI)
    show "snd (gallery_check parse config local rounds) = Some local" by (simp add: gallery_check_def)
  next
    fix j :: nat assume ok: "fst (gallery_check parse config local rounds) = Inr ()" and j: "j < 3" "j \<noteq> i"
    obtain rs net where net: "net \<in> set rounds" "try_get_endpoint_other_nodes config ''gallery-sync'' net = Inr rs"
      and c: "check_responses parse local (zip (filter (\<lambda>party. party \<noteq> i) [0..<3]) rs) = Inr ()"
      using ok gallery_loop_ok i by (fastforce simp: gallery_check_def split: sum.splits)
    obtain st body where z: "(j, st, body) \<in> set (zip (filter (\<lambda>party. party \<noteq> i) [0..<3]) rs)" using gallery_replies(2) [OF net(2) i j] by blast
    show "gallery j = local" using reply [OF net(2,1) z] check_responses_ok [OF c z] by blast
  next
    fix j assume "fst (gallery_check parse config local rounds) = Inl (GalleryMismatch j)"
    moreover have "gallery_loop config rounds \<noteq> Inl (GalleryMismatch j)"
      by (induction rounds) (auto split: sum.splits)
    ultimately obtain rs net where net: "net \<in> set rounds" "try_get_endpoint_other_nodes config ''gallery-sync'' net = Inr rs"
      and c: "check_responses parse local (zip (filter (\<lambda>party. party \<noteq> i) [0..<3]) rs) = Inl (GalleryMismatch j)"
      using gallery_loop_ok i by (fastforce simp: gallery_check_def split: sum.splits)
    show "gallery j \<noteq> local" using check_responses_mismatch [OF c] reply [OF net(2,1)] by blast
  qed
qed
text \<open>Three nodes on one batch, one of them late, and their replies.\<close>

definition demo_sync_net :: "string \<Rightarrow> string \<Rightarrow> attempt list" where
  "demo_sync_net ep url = [SendFailed, Reply 200 (if url = node_url demo_coordination ep 1 then [1] else [2])]"

definition demo_state :: "nat \<Rightarrow> BatchSyncState" where
  "demo_state j = \<lparr>messages_to_poll = of_nat (10 - j), batch_id = 7\<rparr>"

definition demo_entries :: "nat \<Rightarrow> BatchSyncEntries" where
  "demo_entries j = \<lparr>valid_entries = [True, j \<noteq> 1], batch_sha = [5]\<rparr>"

definition demo_gallery :: GalleryState where
  "demo_gallery = \<lparr>gallery_db_len = 2, next_available_serial_id = 43, serial_ids_digest = [7]\<rparr>"

text \<open>A library that prints and parses the values of two nodes.\<close>

definition demo_print :: "(nat \<Rightarrow> 's) \<Rightarrow> 's \<Rightarrow> u8 list option" where
  "demo_print f s = (if s = f 1 then Some [1] else if s = f 2 then Some [2] else None)"

definition demo_read :: "(nat \<Rightarrow> 's) \<Rightarrow> u8 list \<Rightarrow> 's option" where
  "demo_read f body = (if body = [1] then Some (f 1) else if body = [2] then Some (f 2) else None)"

lemma demo_json: "\<forall>s body. demo_print f s = Some body \<longrightarrow> demo_read f body = Some s"
  by (auto simp: demo_print_def demo_read_def split: if_splits)

lemma demo_url_list:
  "get_check_addresses (node_hostnames demo_coordination) (healthcheck_ports demo_coordination) ep =
     [''http://a:3000/'' @ ep, ''http://b:3000/'' @ ep, ''http://c:3000/'' @ ep]"
  by (simp add: demo_coordination_def default_server_coordination_def get_check_addresses_def numeral_3_eq_3)

lemma demo_hosts:
  "next_and_prev demo_coordination ep = Some [node_url demo_coordination ep 1, node_url demo_coordination ep 2]"
  "node_url demo_coordination ep 2 \<noteq> node_url demo_coordination ep (Suc 0)"
  by (simp_all add: next_and_prev_def node_url_def demo_url_list demo_fields)

lemma demo_states_collected:
  "get_batch_sync_states (demo_read demo_state) demo_coordination (Some \<lparr>messages_to_poll = of_nat (10 - 0), batch_id = 7\<rparr>) (\<lambda>url _. demo_sync_net ''batch-sync-state'' url)
    = Inr [demo_state 0, demo_state 1, demo_state 2]"
  by (simp add: get_batch_sync_states_def demo_hosts demo_sync_net_def demo_read_def is_success_def) (simp add: demo_state_def)

lemma demo_entries_collected:
  "get_batch_sync_entries (demo_read demo_entries) demo_coordination (Some \<lparr>valid_entries = [True, 0 \<noteq> (1 :: nat)], batch_sha = [5]\<rparr>) (demo_sync_net ''batch-sync-entries'')
    = Inr [demo_entries 0, demo_entries 1, demo_entries 2]"
  by (simp add: get_batch_sync_entries_def demo_hosts demo_sync_net_def demo_read_def is_success_def) (simp add: demo_entries_def)

theorem batch_size_agreement_witness:
  "set [demo_state 0, demo_state 1, demo_state 2] = (\<lambda>j. \<lparr>messages_to_poll = of_nat (10 - j), batch_id = 7\<rparr>) ` {0, 1, 2}
    \<and> result_messages_to_poll \<lparr>my_batch_state = \<lparr>messages_to_poll = of_nat (10 - 0), batch_id = 7\<rparr>, all_batch_states = [demo_state 0, demo_state 1, demo_state 2]\<rparr>
      = Min {of_nat (10 - 0), of_nat (10 - 1), of_nat (10 - 2)}"
proof (rule batch_size_agreement [where m = "\<lambda>j. of_nat (10 - j)" and i = 0 and shared = "\<lambda>t j. \<lparr>shared_batch_id = 7, shared_messages_to_poll = of_nat (10 - j)\<rparr>",
    OF demo_states_collected])
  show "0 = coordination_party_id demo_coordination" by (simp add: demo_fields)
  show "\<forall>s body. demo_print demo_state s = Some body \<longrightarrow> demo_read demo_state body = Some s" by (rule demo_json)
  show "\<forall>j<3. j \<noteq> 0 \<longrightarrow> (\<forall>st body. Reply st body \<in> set (demo_sync_net ''batch-sync-state'' (node_url demo_coordination ''batch-sync-state'' j)) \<longrightarrow>
      (\<exists>t. (st, body) = batch_sync_state_route (demo_print demo_state) \<lparr>shared_batch_id = 7, shared_messages_to_poll = of_nat (10 - j)\<rparr> 7))"
    by (auto dest!: below_3 simp: demo_sync_net_def demo_hosts batch_sync_state_route_def demo_print_def demo_state_def)
qed auto

theorem batch_entries_agreement_witness:
  "sha_matches \<lparr>my_entries = \<lparr>valid_entries = [True, 0 \<noteq> (1 :: nat)], batch_sha = [5]\<rparr>, all_entries = [demo_entries 0, demo_entries 1, demo_entries 2]\<rparr>
    \<and> result_valid_entries \<lparr>my_entries = \<lparr>valid_entries = [True, 0 \<noteq> (1 :: nat)], batch_sha = [5]\<rparr>, all_entries = [demo_entries 0, demo_entries 1, demo_entries 2]\<rparr> =
        Some [True, False]"
proof -
  have "\<forall>j<3. j \<noteq> 0 \<longrightarrow> (\<forall>st body. Reply st body \<in> set (demo_sync_net ''batch-sync-entries'' (node_url demo_coordination ''batch-sync-entries'' j)) \<longrightarrow>
      (\<exists>t. (st, body) = batch_sync_entries_route (demo_print demo_entries) [True, j \<noteq> (1 :: nat)] [5]))"
    by (auto dest!: below_3 simp: demo_sync_net_def demo_hosts batch_sync_entries_route_def get_own_batch_sync_entries_def demo_print_def demo_entries_def)
  from batch_entries_agreement [where v = "\<lambda>j. [True, j \<noteq> 1]" and i = 0 and valid = "\<lambda>t j. [True, j \<noteq> 1]" and sha = "\<lambda>t j. [5]" and n = 2,
      OF demo_entries_collected _ _ demo_json this]
  show ?thesis by (simp add: demo_fields upt_rec)
qed

text \<open>The third node has another gallery: the check of the first one names it.\<close>

definition demo_gallery_of :: "nat \<Rightarrow> GalleryState" where
  "demo_gallery_of j = (if j = 2 then demo_gallery\<lparr>gallery_db_len := 3\<rparr> else demo_gallery)"

lemma demo_gallery_query:
  "try_get_endpoint_other_nodes demo_coordination ''gallery-sync'' (demo_sync_net ''gallery-sync'') = Inr [(200, [1]), (200, [2])]"
  using demo_hosts(2) [of "''gallery-sync''"]
  by (simp add: try_get_endpoint_other_nodes_def demo_fields other_nodes_eq demo_sync_net_def node_url_def demo_url_list)

lemma demo_gallery_mismatch:
  "fst (gallery_check (demo_read demo_gallery_of) demo_coordination demo_gallery [demo_sync_net ''gallery-sync'']) = Inl (GalleryMismatch 2)"
  by (simp add: gallery_check_def demo_gallery_query demo_fields demo_read_def is_success_def upt_rec) (simp add: demo_gallery_of_def demo_gallery_def)

theorem gallery_check_agrees_witness:
  "fst (gallery_check (demo_read demo_gallery_of) demo_coordination demo_gallery [demo_sync_net ''gallery-sync'']) = Inl (GalleryMismatch 2)
    \<and> demo_gallery_of 2 \<noteq> demo_gallery"
proof -
  have replies: "\<forall>net\<in>set [demo_sync_net ''gallery-sync'']. \<forall>j<3. j \<noteq> 0 \<longrightarrow> (\<forall>st body. Reply st body \<in> set (net (node_url demo_coordination ''gallery-sync'' j)) \<longrightarrow>
      (\<exists>t :: nat. (st, body) = gallery_route (\<lambda>g. if g = demo_gallery then [1] else [2]) (Some (demo_gallery_of j))))"
    by (auto dest!: below_3 simp: demo_sync_net_def demo_hosts gallery_route_def demo_gallery_of_def demo_gallery_def)
  have json: "\<forall>t j s. Some (demo_gallery_of j) = Some s \<longrightarrow> demo_read demo_gallery_of (if s = demo_gallery then [1] else [2]) = Some s"
    by (auto simp: demo_read_def demo_gallery_of_def demo_gallery_def)
  show ?thesis
    using gallery_check_agrees [where gallery = demo_gallery_of and published = "\<lambda>t j. Some (demo_gallery_of j)" and i = 0, OF _ _ json replies, of demo_gallery]
      demo_gallery_mismatch by (simp add: demo_fields)
qed

end
