(* ===== verification/Spec2Isabelle.thy ===== *)
theory Spec2Isabelle
  imports Share Vec_Share Bit_Transpose Galois Shamir Embedding Net_Value Workpool Modifications
    Oblivious_Select Lift Threshold_Buckets Shuffle Anon_Jobs_2D Job_Sync Coordination Peer_Sync
begin

text \<open>
  A verification library for \<open>ampc-common\<close>, the shared crates of a three-party computation
  on biometric data. Paths are relative to \<open>src/\<close>.

  \<^bold>\<open>The program.\<close> \<open>ampc-secret-sharing\<close> has the arithmetic: rings modulo \<open>2 ^ K\<close>, replicated
  shares of ring elements and bits, bit-sliced vectors, the Galois ring of Shamir sharing and
  the embedding vectors it is used on. \<open>ampc-actor-utils\<close> has the parties: wire formats,
  sessions with pairwise random generators, the protocols on shared values, and a work pool
  of a leader and workers. \<open>ampc-server-utils\<close> has what the servers agree on outside the
  protocols: startup, heartbeat, batches, the gallery, and the recovery of a log of
  modifications. \<open>ampc-anon-stats\<close> runs statistics jobs on top of the protocols: rows of
  shared distances become histograms all parties learn.

  \<^bold>\<open>Theories.\<close>
  \<^item> \<open>Prelude\<close>: type names of the machine integers, chunked lists, \<open>div_ceil\<close>, shared lemmas.
  \<^item> \<open>Int_Ring\<close>, \<open>Bit_Ring\<close>, \<open>Ring48_Ring\<close> (\<open>shares/int_ring.rs\<close>, \<open>bit.rs\<close>, \<open>ring48.rs\<close>): the
    trait \<open>IntRing2k\<close> is the record \<open>int_ring2k\<close> of its operations. Its laws are the locale
    \<open>int_ring2k_laws\<close>, interpreted for all words (\<open>word\<close>), for bits (\<open>bit\<close>) and for the 48 bit
    ring (\<open>ring48\<close>). The facts of later theories hold in every lawful ring.
  \<^item> \<open>Ring_Impl\<close>, \<open>Share\<close>, \<open>Vec_Share\<close>, \<open>Bit_Transpose\<close> (\<open>shares/ring_impl.rs\<close>, \<open>share.rs\<close>,
    \<open>vecshare.rs\<close>, \<open>vecshare_bittranspose.rs\<close>): ring elements, shares, vectors, and the
    transposition of bit matrices. Operators return what the release build computes; panics
    (a shift out of range, a position out of range) are \<open>None\<close>.
  \<^item> \<open>Galois\<close>, \<open>Shamir\<close>, \<open>Party_Id\<close>, \<open>Embedding\<close> (\<open>galois.rs\<close>, \<open>id.rs\<close>, \<open>iris_vector.rs\<close>,
    \<open>face_vector.rs\<close>): the extension ring of degree four over 16 bit words, encoders,
    reconstruction, sharing of vectors and their text forms. Random coefficients are arguments.
  \<^item> \<open>Net_Value\<close> (\<open>network/mpc/value.rs\<close>): messages of the parties and their bytes; indexing a
    buffer out of range is a panic. The locale
    \<open>wire_layout\<close> is the byte layout of a ring element (\<open>wire16\<close>, \<open>wire32\<close>, \<open>wire64\<close>, \<open>wire48\<close>).
  \<^item> \<open>Workpool_Value\<close>, \<open>Job_Tracker\<close>, \<open>Workpool\<close> (\<open>network/workpool/\<close>): messages, their batching
    and framing on a stream, the tracker of jobs as a state machine, leader, worker and handshake.
  \<^item> \<open>Modifications\<close> (\<open>ampc-server-utils/src/modifications.rs\<close>): comparison of the logs of
    the parties, recovery plans, replay.
  \<^item> \<open>Party_Network\<close> (\<open>network/mpc/local.rs\<close>): a party is a program of sends and receives; a
    configuration is three programs and the ordered channels between them; \<open>net_step\<close> is one
    move of one party. Moves of different parties commute, so an execution that ends
    shows that every interleaving ends, in the same configuration (\<open>delivers_any_schedule\<close>).
  \<^item> \<open>Session_Prf\<close>, \<open>Network_Int\<close> (\<open>execution/player.rs\<close>, \<open>execution/session.rs\<close>,
    \<open>protocol/prf.rs\<close>, the trait \<open>NetworkInt\<close>): roles, sessions, neighbours, generators.
    A protocol is a function from the session to a program (\<open>comp\<close>). \<open>linked\<close> says that the
    three sessions are one: own roles, the same identifier, and the generator a party shares
    with the next equals the one the next holds for its predecessor. \<open>computes\<close> says that three
    programs started in linked sessions end, in linked sessions, with a given result;
    \<open>always_finishes\<close> says it for every interleaving. The locale \<open>network_int\<close> is what the
    protocols need from a ring on the wire (\<open>net16\<close>, \<open>net32\<close>, \<open>net64\<close>, \<open>net48\<close>). The random
    generator is a parameter (\<open>prf_rng\<close>): nothing is assumed of it.
  \<^item> \<open>Reshare\<close>, \<open>Oblivious_Select\<close> (\<open>protocol/ops.rs\<close>): key setup, resharing of products,
    opening, selection by shared bits.
  \<^item> \<open>Binary_Gates\<close>, \<open>Two_Way_Split\<close>, \<open>Msb_Adder\<close>, \<open>Msb_Extract\<close>, \<open>Bit_Inject\<close>, \<open>Carry_Adder\<close>,
    \<open>Lift\<close> (\<open>protocol/binary.rs\<close>): AND and XOR on bit slices, splitting of a sharing into
    two addends, the parallel prefix adder, most significant bits, comparison with zero, bits
    as ring elements, the overflow of a sum of three, and lifting to larger rings. The locale \<open>transpose64\<close> is the trait \<open>Transpose64\<close> (\<open>tr16\<close>, \<open>tr32\<close>,
    \<open>tr64\<close>, \<open>tr48\<close>).
  \<^item> \<open>Int_Sharing\<close>: shares of integers, as residues with a range, for the steps below.
  \<^item> \<open>F64\<close>, \<open>F64_Order\<close>: double precision as rationals with rounding to the nearest even number
    of 53 bits, the casts to integers, the monotonicity and the error of rounding.
  \<^item> \<open>Distance_Compare\<close>, \<open>Threshold_Buckets\<close> (\<open>protocol/fhd_ops.rs\<close>, \<open>nhd_ops.rs\<close>,
    \<open>anon_stats.rs\<close>): comparison of fractional and normalized Hamming distances with each other
    and with thresholds, minima of groups, counts per threshold.
  \<^item> \<open>Shuffle\<close> (\<open>protocol/shuffle.rs\<close>, permutations of \<open>protocol/prf.rs\<close>): rejection sampling,
    permutations and the three roles of the oblivious shuffle.
  \<^item> \<open>Bucket_Stats\<close>, \<open>Anon_Jobs\<close>, \<open>Anon_Jobs_2D\<close> (\<open>ampc-anon-stats/src/types.rs\<close>,
    \<open>anon_stats/buckets.rs\<close>, \<open>iris_1d.rs\<close>, \<open>iris_2d.rs\<close>, \<open>face.rs\<close>): histograms, and the jobs that
    compute them, as compositions of the protocols above. The clock is an argument.
  \<^item> \<open>Anon_Config\<close> (\<open>ampc-anon-stats/src/server/config/\<close>, \<open>ampc-server-utils/src/config.rs\<close>): the
    configuration, its defaults, validation and overrides.
  \<^item> \<open>Job_Sync\<close> (\<open>ampc-actor-utils/src/sync.rs\<close>, \<open>ampc-anon-stats/src/server/sync.rs\<close>): agreement
    of the parties on digests, validity, sizes and identifiers before a job.
  \<^item> \<open>Coordination\<close>, \<open>Peer_Sync\<close> (\<open>ampc-server-utils/src/server_coordination.rs\<close>,
    \<open>batch_sync.rs\<close>, \<open>gallery_sync.rs\<close>, \<open>startup_sync.rs\<close>, \<open>shutdown_handler.rs\<close>): the waits, the
    heartbeat and the endpoints of the servers. A wait is a function of what the network
    answers round by round and of the readings of the clock.

  \<^bold>\<open>Errors.\<close> A fallible function returns a sum with its error on the left. \<open>outcome\<close> adds a third
  result for a panic; in a protocol both end the program of the party with \<open>Stop\<close>.

  \<^bold>\<open>Results.\<close> The statements about protocols hold for every interleaving of three parties in
  linked sessions, and include that all parties finish.
  \<^item> C1, C2, C14, C15: the jobs, end to end. The histogram every party reports is the one of the
    plain distances: minima of rows, pairs of minima, pairs of scores, face distances; the jobs on
    bundles that were lifted before are covered. C9 is the counting behind them, C25 the histogram
    of cumulative counts with the places and the order of its boundaries, C38 the configurations.
  \<^item> C3: the shuffle permutes every batch by one common permutation.
  \<^item> C4 to C8, C10, C29, C30: the protocols the jobs are made of: signed lifts, most significant
    bits, products, comparison of distances and thresholds without overflow, bit injection,
    key setup, oblivious selection.
  \<^item> C16: the parties agree on what they are about to run, and two of them notice a malformed
    message of the third. C13, C19, C37: startup barriers return, and give mutual visibility unless
    the visibility barrier is switched off; the heartbeat stops on a lost or restarted node. C17, C18, C20: one
    batch size, one list of valid entries, one gallery.
  \<^item> C11, C33 to C36, C28: the work pool: replies are unique and complete, lost jobs are
    answered, a failed send is not. C12, C31, C32: recovery of the log.
  \<^item> C21 to C24, C39, C40: the arithmetic: inner products of shared vectors, products of
    Shamir sharings, inverses, transposition, replicated shares. C26, C27: messages,
    including exactly which malformed buffers panic.

  \<^bold>\<open>Bounds.\<close> Loops are structural recursion or have a termination proof; there is no fuel. A
  loop that waits for others consumes a list of observations, and \<open>None\<close> says that it still
  waits; C37 says when it no longer does. Rejection sampling is a partial function; C3 assumes
  that the generator does not stay in the upper half of its range forever. \<open>MAX_LEN\<close>, \<open>2 ^ 29\<close>,
  bounds the number of elements of one message, so that its length in bytes fits the 32 bit
  length field; the protocols state it of their inputs.
  Distances are dot products of vectors of at most \<open>2 ^ 14\<close> positions, where products fit 32 and
  48 bits. Doubles are finite: nothing in the ranges used overflows to infinity.

  \<^bold>\<open>Not modelled.\<close> Sockets, TLS, reconnection, task spawning, the HTTP server and client,
  database queries, AWS clients, sealed boxes, metrics and logging are input and output. The
  scheduling of statistics jobs over the database, swaps of shared distances (\<open>ops.rs\<close>), the
  packed threshold circuit and the ripple carry variant of the adder (\<open>binary.rs\<close>), and
  floating point sampling of test vectors are left out. The secrecy of the protocols is not
  stated: the generators are arbitrary functions here.
\<close>

end
